(* ===== verification/Prelude.thy ===== *)
theory Prelude
  imports Main "HOL-Library.Word"
begin

unbundle bit_operations_syntax

section \<open>Shared types, automation and generic lemmas\<close>

text \<open>
  The library layer of the development. Bytes are \<open>8 word\<close>, the unsigned C types
  \<open>uint16_t\<close>, \<open>uint32_t\<close> and \<open>uint64_t\<close> (and \<open>size_t\<close> on the 64-bit hosts the
  program builds for) are words of that width, so that C's wrap-around is the
  wrap-around of the type. The C type \<open>int\<close> is HOL's \<open>int\<close>: signed overflow is
  undefined in C, so operations on it come with lemmas that keep results in range.
  A C string is the list of its bytes without the terminating NUL, and a buffer with a
  length is the list of its bytes. The file also holds the little-endian byte lemmas
  and the list lemmas that several components use.
\<close>

type_synonym byte = "8 word"
type_synonym bytes = "byte list"
type_synonym u16 = "16 word"
type_synonym u32 = "32 word"
type_synonym u64 = "64 word"

named_theorems byte_word "rules that read bytes and words as bits"
named_theorems consume "how much of its input a scanner consumes"

subsection \<open>C string literals\<close>

definition cstr :: "string \<Rightarrow> bytes" where
  "cstr s = map of_char s"

lemma cstr_simps [simp]:
  "cstr [] = []"
  "cstr (c # s) = of_char c # cstr s"
  by (simp_all add: cstr_def)

lemma length_cstr [simp]: "length (cstr s) = length s"
  by (simp add: cstr_def)

subsection \<open>Bits of bytes and words\<close>

lemmas bit_exts [byte_word] =
  bit_simps bit_unsigned_iff bit_push_bit_iff bit_drop_bit_eq bit_and_iff bit_or_iff

lemma word_less_exp_bit:
  fixes w :: "'a::len word"
  assumes "unat w < 2 ^ k" and "k \<le> n"
  shows "\<not> bit w n"
proof -
  have "unat w < 2 ^ n"
    using assms by (meson less_le_trans one_le_numeral power_increasing)
  then have "\<not> bit (unat w) n"
    by (simp add: bit_iff_odd)
  then show ?thesis
    by (simp add: bit_unsigned_iff)
qed

lemma unat_byte_less: "unat (b::byte) < 256"
  using unsigned_less [of b, where 'a = nat] by simp

lemma unat_ucast_byte [simp]:
  "unat (ucast (b::byte) :: u32) = unat b"
  "unat (ucast (b::byte) :: u64) = unat b"
  by (simp_all add: unsigned_ucast_eq take_bit_nat_eq_self_iff order.strict_trans [OF unat_byte_less])

lemma ucast_ucast_byte [simp]:
  "ucast (ucast (b::byte) :: u32) = b"
  "ucast (ucast (b::byte) :: u64) = b"
  by (rule bit_word_eqI; simp add: bit_simps)+

lemma all_bytes:
  fixes P :: "byte \<Rightarrow> bool"
  shows "(\<forall>b. P b) \<longleftrightarrow> list_all (\<lambda>n. P (of_nat n)) [0..<256]"
proof
  assume "list_all (\<lambda>n. P (of_nat n)) [0..<256]"
  then have *: "P (of_nat n)" if "n < 256" for n
    using that by (simp add: list_all_iff)
  show "\<forall>b. P b"
  proof
    fix b :: byte
    show "P b"
      using * [of "unat b"] unat_byte_less [of b] by simp
  qed
qed (simp add: list_all_iff)

text \<open>Equality of bytes and of 32-bit words, bit by bit at numeral positions.\<close>

lemma byte_eq_iff:
  fixes x y :: byte
  shows "x = y \<longleftrightarrow> (\<forall>n \<in> set [0,1,2,3,4,5,6,7]. bit x n = bit y n)"
proof -
  have "x = y \<longleftrightarrow> (\<forall>n \<in> set [0..<8]. bit x n = bit y n)"
    by (auto simp: bit_eq_iff [of x y])
  also have "[0..<8] = [0,1,2,3,4,5,6,7::nat]"
    by (simp add: upt_rec)
  finally show ?thesis .
qed

lemma u32_eq_iff:
  fixes x y :: u32
  shows "x = y \<longleftrightarrow>
    (\<forall>n \<in> set [0, 1, 2, 3, 4, 5, 6, 7, 8, 9, 10, 11, 12, 13, 14, 15, 16, 17, 18, 19, 20, 21, 22, 23, 24, 25, 26, 27, 28, 29, 30, 31]. bit x n = bit y n)"
proof -
  have "x = y \<longleftrightarrow> (\<forall>n \<in> set [0..<32]. bit x n = bit y n)"
    by (auto simp: bit_eq_iff [of x y])
  also have "[0..<32] = [0, 1, 2, 3, 4, 5, 6, 7, 8, 9, 10, 11, 12, 13, 14, 15, 16, 17, 18, 19, 20, 21, 22, 23, 24, 25, 26, 27, 28, 29, 30, 31::nat]"
    by (simp add: upt_rec)
  finally show ?thesis .
qed

lemma byte_less_128: "(c::byte) < 0x80 \<longleftrightarrow> \<not> bit c 7"
proof -
  have "bit (unat c) 7 \<longleftrightarrow> bit c 7"
    by (simp add: bit_unsigned_iff)
  then have "bit c 7 \<longleftrightarrow> odd (unat c div 128)"
    by (simp add: bit_iff_odd [of "unat c" 7])
  moreover have "unat c div 128 = (if unat c < 128 then 0 else 1)"
    using unat_byte_less [of c] by (auto intro!: div_nat_eqI)
  ultimately show ?thesis
    by (simp add: word_less_nat_alt)
qed

text \<open>Masking with \<open>2 ^ k - 1\<close> is the remainder modulo \<open>2 ^ k\<close>.\<close>

lemma unat_and_exp_minus_1:
  fixes w :: "'a::len word"
  shows "unat (w AND (2 ^ k - 1)) = unat w mod 2 ^ k"
proof -
  have "w AND (2 ^ k - 1) = take_bit k w"
    by (simp only: take_bit_eq_mask mask_eq_exp_minus_1)
  moreover have "unat (take_bit k w) = unat w mod 2 ^ k"
    by (simp only: unsigned_take_bit_eq) (simp only: take_bit_eq_mod)
  ultimately show ?thesis
    by simp
qed

lemma unat_suc_and_exp_minus_1:
  fixes w :: "'a::len word"
  assumes "k < LENGTH('a)"
  shows "unat ((w + 1) AND (2 ^ k - 1)) = (unat w + 1) mod 2 ^ k"
proof -
  have "unat ((w + 1) AND (2 ^ k - 1)) = (unat w + 1) mod 2 ^ LENGTH('a) mod 2 ^ k"
    by (simp only: unat_and_exp_minus_1) (simp add: unat_word_ariths)
  also have "\<dots> = (unat w + 1) mod 2 ^ k"
    using assms by (simp only: mod_mod_cancel le_imp_power_dvd less_imp_le)
  finally show ?thesis .
qed

lemma unat_exp2:
  assumes "k < LENGTH('a)"
  shows "unat ((2::'a::len word) ^ k) = 2 ^ k"
proof -
  have "unat ((2::'a word) ^ k) = unat (of_nat (2 ^ k) :: 'a word)"
    by simp
  also have "\<dots> = 2 ^ k"
    using assms by (simp only: unat_of_nat) simp
  finally show ?thesis .
qed

lemma unat_plus_one_less:
  fixes v w :: "'a::len word"
  assumes "w < v"
  shows "unat (w + 1) = unat w + 1"
proof -
  have "unat w + 1 \<le> unat v"
    using assms by (simp add: word_less_nat_alt)
  also have "unat v < 2 ^ LENGTH('a)"
    by (rule unsigned_less)
  finally have "unat w + 1 < 2 ^ LENGTH('a)" .
  then have "unat (w + 1) = unat w + unat (1::'a word)"
    by (subst unat_add_lem [symmetric]) simp
  then show ?thesis
    by simp
qed

text \<open>Lengths and sizes as unsigned words.\<close>

lemma unat_of_nat_64: "n < 2 ^ 64 \<Longrightarrow> unat (of_nat n :: u64) = n"
  by (simp only: unat_of_nat) simp

lemma unat_of_nat_32: "n < 2 ^ 32 \<Longrightarrow> unat (of_nat n :: u32) = n"
  by (simp only: unat_of_nat) simp

lemma unat_add_no_overflow:
  "\<not> 2 ^ 64 \<le> unat a + unat (b :: u64) \<Longrightarrow> unat (a + b) = unat a + unat b"
  by (simp add: unat_word_ariths)

subsection \<open>Lists\<close>

lemma take_Suc_drop:
  "n < length xs \<Longrightarrow> take (Suc k) (drop n xs) = xs ! n # take k (drop (Suc n) xs)"
  by (simp add: Cons_nth_drop_Suc [symmetric])

lemma drop_eq_ConsD:
  "drop n xs = y # ys \<Longrightarrow> n < length xs \<and> xs ! n = y \<and> drop (Suc n) xs = ys"
  by (metis Cons_nth_drop_Suc drop_eq_Nil leI list.inject list.simps(3))

lemma take_drop_append:
  "i \<le> j \<Longrightarrow> take (j - i) (drop i xs) @ drop j xs = drop i xs"
  by (metis append_take_drop_id drop_drop le_add_diff_inverse2)

lemma take_split: "i \<le> j \<Longrightarrow> take j xs = take i xs @ take (j - i) (drop i xs)"
  by (metis le_add_diff_inverse take_add)

end
