(* ===== verification/Utf8.thy ===== *)
theory Utf8
  imports Prelude
begin

section \<open>UTF-8 and the GPT-2 byte alphabet\<close>

text \<open>
  The byte-level helpers of the tokenizer in \<open>sf37.c\<close>: the UTF-8 writer and the
  lenient UTF-8 reader, the GPT-2 mapping between raw bytes and printable code points,
  \<open>byte_encode\<close> and the decoding loop of \<open>sf37_token_text\<close>. A C position
  \<open>(s, len, pos)\<close> is the list of the bytes from \<open>pos\<close> on, so \<open>len - pos\<close> is its
  length, and a new position is the number of bytes consumed.
\<close>

subsection \<open>The code\<close>

definition utf8_put :: "u32 \<Rightarrow> bytes" where
  "utf8_put cp =
     (if cp \<le> 0x7f then [ucast cp]
      else if cp \<le> 0x7ff then
        [ucast (0xc0 OR drop_bit 6 cp), ucast (0x80 OR (cp AND 0x3f))]
      else if cp \<le> 0xffff then
        [ucast (0xe0 OR drop_bit 12 cp), ucast (0x80 OR (drop_bit 6 cp AND 0x3f)),
         ucast (0x80 OR (cp AND 0x3f))]
      else
        [ucast (0xf0 OR drop_bit 18 cp), ucast (0x80 OR (drop_bit 12 cp AND 0x3f)),
         ucast (0x80 OR (drop_bit 6 cp AND 0x3f)), ucast (0x80 OR (cp AND 0x3f))])"

definition utf8_len_from_first_byte :: "byte \<Rightarrow> nat" where
  "utf8_len_from_first_byte c =
     (if c < 0x80 then 1
      else if c AND 0xe0 = 0xc0 then 2
      else if c AND 0xf0 = 0xe0 then 3
      else if c AND 0xf8 = 0xf0 then 4
      else 1)"

text \<open>The callers only read inside the text, so the empty suffix never occurs in C.\<close>

definition next_utf8_char :: "bytes \<Rightarrow> nat" where
  "next_utf8_char s =
     (case s of [] \<Rightarrow> 0
      | c0 # _ \<Rightarrow> (let n = utf8_len_from_first_byte c0
                    in if n > length s then 1 else n))"

definition utf8_peek_one :: "bytes \<Rightarrow> u32 \<times> nat" where
  "utf8_peek_one s =
     (case s of [] \<Rightarrow> (0, 0)
      | c0 # _ \<Rightarrow>
         (let n0 = utf8_len_from_first_byte c0;
              n = (if n0 > length s then 1 else n0);
              tail = (\<lambda>k. ucast (s ! k AND 0x3f))
          in (if n = 1 then ucast c0
              else if n = 2 then push_bit 6 (ucast (c0 AND 0x1f)) OR tail 1
              else if n = 3 then push_bit 12 (ucast (c0 AND 0x0f)) OR
                   push_bit 6 (tail 1) OR tail 2
              else push_bit 18 (ucast (c0 AND 0x07)) OR push_bit 12 (tail 1) OR
                   push_bit 6 (tail 2) OR tail 3, n)))"

definition gpt2_printable :: "nat \<Rightarrow> bool" where
  "gpt2_printable x \<longleftrightarrow> (x \<ge> 33 \<and> x \<le> 126) \<or> (x \<ge> 161 \<and> x \<le> 172) \<or> x \<ge> 174"

text \<open>The counting loop over \<open>x\<close>; \<open>None\<close> is the loop running to its end.\<close>

fun gpt2_b2c_scan :: "nat list \<Rightarrow> nat \<Rightarrow> nat \<Rightarrow> nat option" where
  "gpt2_b2c_scan [] n b = None"
| "gpt2_b2c_scan (x # xs) n b =
     (if gpt2_printable x then gpt2_b2c_scan xs n b
      else if x = b then Some (256 + n)
      else gpt2_b2c_scan xs (n + 1) b)"

definition gpt2_byte_to_codepoint :: "byte \<Rightarrow> u32" where
  "gpt2_byte_to_codepoint b =
     (if gpt2_printable (unat b) then ucast b
      else case gpt2_b2c_scan [0..<256] 0 (unat b) of
             Some cp \<Rightarrow> of_nat cp | None \<Rightarrow> ucast b)"

fun gpt2_c2b_scan :: "nat list \<Rightarrow> nat \<Rightarrow> nat \<Rightarrow> nat option" where
  "gpt2_c2b_scan [] n k = None"
| "gpt2_c2b_scan (x # xs) n k =
     (if gpt2_printable x then gpt2_c2b_scan xs n k
      else if n = k then Some x
      else gpt2_c2b_scan xs (n + 1) k)"

text \<open>\<open>None\<close> is the C result \<open>-1\<close>.\<close>

definition gpt2_codepoint_to_byte :: "u32 \<Rightarrow> byte option" where
  "gpt2_codepoint_to_byte cp =
     (let c = unat cp in
      if (c \<ge> 33 \<and> c \<le> 126) \<or> (c \<ge> 161 \<and> c \<le> 172) \<or> (c \<ge> 174 \<and> c \<le> 255)
      then Some (ucast cp)
      else if c \<ge> 256 then map_option of_nat (gpt2_c2b_scan [0..<256] 0 (c - 256))
      else None)"

definition byte_encode :: "bytes \<Rightarrow> bytes" where
  "byte_encode s = concat (map (\<lambda>b. utf8_put (gpt2_byte_to_codepoint b)) s)"

lemma next_utf8_char_pos: "s \<noteq> [] \<Longrightarrow> 1 \<le> next_utf8_char s"
  by (cases s) (simp_all add: next_utf8_char_def utf8_len_from_first_byte_def Let_def)

lemma next_utf8_char_le [simp]: "next_utf8_char s \<le> length s"
  by (cases s) (simp_all add: next_utf8_char_def Let_def)

lemma utf8_peek_one_next: "snd (utf8_peek_one s) = next_utf8_char s"
  by (cases s) (simp_all add: utf8_peek_one_def next_utf8_char_def Let_def)

text \<open>The loop of \<open>sf37_token_text\<close> over the stored spelling of a token.\<close>

function token_decode_loop :: "bytes \<Rightarrow> bytes" where
  "token_decode_loop src =
     (if src = [] then []
      else let (cp, n) = utf8_peek_one src in
        (case gpt2_codepoint_to_byte cp of
           Some b \<Rightarrow> [b]
         | None \<Rightarrow> take n src) @ token_decode_loop (drop n src))"
  by pat_completeness auto
termination
proof (relation "measure length")
  fix src x cp n
  assume "src \<noteq> []" and "x = utf8_peek_one src" and "(cp, n) = x"
  then have "n = next_utf8_char src"
    by (metis snd_conv utf8_peek_one_next)
  then show "(drop n src, src) \<in> measure length"
    using next_utf8_char_pos [OF \<open>src \<noteq> []\<close>] \<open>src \<noteq> []\<close> by (cases src) auto
qed simp

declare token_decode_loop.simps [simp del]

lemma token_decode_loop_Nil [simp]: "token_decode_loop [] = []"
  by (subst token_decode_loop.simps) simp

subsection \<open>Reading back what was written\<close>

lemma utf8_peek_put:
  assumes "unat cp < 2 ^ 21"
  shows "utf8_peek_one (utf8_put cp @ r) = (cp, length (utf8_put cp))"
proof -
  note bits = u32_eq_iff byte_eq_iff byte_less_128 bit_simps bit_unsigned_iff
  note defs = utf8_peek_one_def utf8_put_def utf8_len_from_first_byte_def Let_def
  consider (one) "cp \<le> 0x7f" | (two) "\<not> cp \<le> 0x7f" "cp \<le> 0x7ff"
    | (three) "\<not> cp \<le> 0x7ff" "cp \<le> 0xffff" | (four) "\<not> cp \<le> 0xffff"
    by linarith
  then show ?thesis
  proof cases
    case one
    then have "unat cp < 2 ^ 7" by (simp add: word_le_nat_alt)
    note z = word_less_exp_bit [OF this]
    show ?thesis using one by (simp add: defs bits z)
  next
    case two
    then have "unat cp < 2 ^ 11" by (simp add: word_le_nat_alt)
    note z = word_less_exp_bit [OF this]
    show ?thesis using two by (simp add: defs) (simp add: bits z)
  next
    case three
    then have "unat cp < 2 ^ 16" by (simp add: word_le_nat_alt)
    note z = word_less_exp_bit [OF this]
    from three have "\<not> cp \<le> 0x7f" by (simp add: word_le_nat_alt)
    then show ?thesis using three by (simp add: defs) (simp add: bits z)
  next
    case four
    note z = word_less_exp_bit [OF assms]
    from four have "\<not> cp \<le> 0x7f" "\<not> cp \<le> 0x7ff" by (simp_all add: word_le_nat_alt)
    then show ?thesis using four by (simp add: defs) (simp add: bits z)
  qed
qed

lemma utf8_put_nonempty [simp]: "utf8_put cp \<noteq> []"
  by (simp add: utf8_put_def)

lemma next_utf8_char_put:
  "unat cp < 2 ^ 21 \<Longrightarrow> next_utf8_char (utf8_put cp @ r) = length (utf8_put cp)"
  using utf8_peek_put [of cp r] utf8_peek_one_next [of "utf8_put cp @ r"] by simp

subsection \<open>The GPT-2 byte alphabet is a bijection\<close>

lemma gpt2_b2c_scan_Some:
  "gpt2_b2c_scan xs n b = Some c \<Longrightarrow>
   \<exists>i < length (filter (\<lambda>x. \<not> gpt2_printable x) xs).
     filter (\<lambda>x. \<not> gpt2_printable x) xs ! i = b \<and> c = 256 + n + i"
proof (induction xs n b rule: gpt2_b2c_scan.induct)
  case (2 x xs n b)
  consider "gpt2_printable x" | "\<not> gpt2_printable x" "x = b" | "\<not> gpt2_printable x" "x \<noteq> b"
    by blast
  then show ?case
  proof cases
    case 3
    with 2 obtain i where "i < length (filter (\<lambda>x. \<not> gpt2_printable x) xs)"
      and "filter (\<lambda>x. \<not> gpt2_printable x) xs ! i = b" and "c = 256 + (n + 1) + i"
      by auto
    with 3 show ?thesis by (intro exI [of _ "Suc i"]) simp
  qed (use 2 in auto)
qed simp

lemma gpt2_b2c_scan_total:
  "b \<in> set xs \<Longrightarrow> \<not> gpt2_printable b \<Longrightarrow> gpt2_b2c_scan xs n b \<noteq> None"
  by (induction xs n b rule: gpt2_b2c_scan.induct) auto

lemma gpt2_c2b_scan_nth:
  "n \<le> k \<Longrightarrow> k - n < length (filter (\<lambda>x. \<not> gpt2_printable x) xs) \<Longrightarrow>
   gpt2_c2b_scan xs n k = Some (filter (\<lambda>x. \<not> gpt2_printable x) xs ! (k - n))"
proof (induction xs n k rule: gpt2_c2b_scan.induct)
  case (2 x xs n k)
  show ?case
  proof (cases "gpt2_printable x \<or> n = k")
    case False
    then have "k - n = Suc (k - (n + 1))" and "n + 1 \<le> k"
      using 2 by auto
    then show ?thesis
      using False 2 by simp
  qed (use 2 in auto)
qed simp


text \<open>The code point of a byte outside the printable ranges is \<open>256 + i\<close>.\<close>

lemma gpt2_b2c_unprintable:
  fixes b :: byte
  assumes "\<not> gpt2_printable (unat b)"
  obtains i where "gpt2_b2c_scan [0..<256] 0 (unat b) = Some (256 + i)"
    and "gpt2_c2b_scan [0..<256] 0 i = Some (unat b)" and "i < 256"
proof -
  let ?us = "filter (\<lambda>x. \<not> gpt2_printable x) [0..<256]"
  obtain c where c: "gpt2_b2c_scan [0..<256] 0 (unat b) = Some c"
    using assms gpt2_b2c_scan_total [of "unat b" "[0..<256]" 0] unat_byte_less [of b] by auto
  obtain i where i: "i < length ?us" "?us ! i = unat b" "c = 256 + i"
    using gpt2_b2c_scan_Some [OF c] by auto
  have "i < 256"
    using i(1) length_filter_le [of "\<lambda>x. \<not> gpt2_printable x" "[0..<256]"] by simp
  moreover have "gpt2_c2b_scan [0..<256] 0 i = Some (unat b)"
    using gpt2_c2b_scan_nth [of 0 i "[0..<256]"] i by simp
  ultimately show thesis
    using that c i(3) by blast
qed

lemma gpt2_codepoint_bound: "unat (gpt2_byte_to_codepoint b) < 512"
proof (cases "gpt2_printable (unat b)")
  case True
  then show ?thesis
    using unat_byte_less [of b] by (simp add: gpt2_byte_to_codepoint_def)
next
  case False
  then obtain i where "gpt2_b2c_scan [0..<256] 0 (unat b) = Some (256 + i)" and "i < 256"
    by (rule gpt2_b2c_unprintable)
  then show ?thesis
    using False by (simp add: gpt2_byte_to_codepoint_def unat_of_nat del: of_nat_add)
qed

lemma gpt2_codepoint_roundtrip:
  "gpt2_codepoint_to_byte (gpt2_byte_to_codepoint b) = Some b"
proof (cases "gpt2_printable (unat b)")
  case True
  then show ?thesis
    using unat_byte_less [of b]
    by (simp add: gpt2_byte_to_codepoint_def gpt2_codepoint_to_byte_def gpt2_printable_def Let_def)
next
  case False
  then obtain i where "gpt2_b2c_scan [0..<256] 0 (unat b) = Some (256 + i)"
    and "gpt2_c2b_scan [0..<256] 0 i = Some (unat b)" and "i < 256"
    by (rule gpt2_b2c_unprintable)
  then show ?thesis
    using False
    by (simp add: gpt2_byte_to_codepoint_def gpt2_codepoint_to_byte_def Let_def unat_of_nat
        del: of_nat_add)
qed

definition byte_symbol :: "byte \<Rightarrow> bytes" where
  "byte_symbol b = utf8_put (gpt2_byte_to_codepoint b)"

lemma byte_encode_simps [simp]:
  "byte_encode [] = []"
  "byte_encode (b # s) = byte_symbol b @ byte_encode s"
  "byte_encode (s @ t) = byte_encode s @ byte_encode t"
  by (simp_all add: byte_encode_def byte_symbol_def)

lemma byte_symbol_nonempty [simp]: "byte_symbol b \<noteq> []"
  by (simp add: byte_symbol_def)

lemma peek_byte_symbol:
  "utf8_peek_one (byte_symbol b @ r) = (gpt2_byte_to_codepoint b, length (byte_symbol b))"
  unfolding byte_symbol_def
  using gpt2_codepoint_bound [of b] by (intro utf8_peek_put) simp

lemma next_byte_symbol [simp]: "next_utf8_char (byte_symbol b @ r) = length (byte_symbol b)"
  using utf8_peek_one_next [of "byte_symbol b @ r"] by (simp add: peek_byte_symbol)

lemma token_decode_loop_symbol [simp]:
  "token_decode_loop (byte_symbol b @ r) = b # token_decode_loop r"
  by (subst token_decode_loop.simps) (simp add: peek_byte_symbol gpt2_codepoint_roundtrip)

lemma token_decode_byte_encode_append [simp]:
  "token_decode_loop (byte_encode s @ r) = s @ token_decode_loop r"
  by (induction s) simp_all

text \<open>The spelling of a byte string in the vocabulary decodes to the byte string.\<close>

theorem token_decode_byte_encode: "token_decode_loop (byte_encode s) = s"
  using token_decode_byte_encode_append [of s "[]"] by simp

end
