(* ===== verification/StrTable.thy ===== *)
theory StrTable
  imports Prelude
begin

section \<open>The string to int hash table of the tokenizer\<close>

text \<open>
  \<open>sf37_str_i32_table\<close> of \<open>sf37.c\<close>: open addressing with linear probing over an array
  whose size is a power of two, keyed by an FNV-1a style hash. The table never grows and
  never deletes. A probe over a table without a free slot does not end in C, which is the
  result \<open>None\<close> of \<open>table_probe\<close> and \<open>table_put\<close>; \<open>table_get\<close> answers \<open>None\<close> then,
  and the lemmas below show that the case does not arise below capacity. A key is the
  byte string its \<open>sf37_str\<close> points to.
\<close>

subsection \<open>The code\<close>

record str_entry =
  se_key :: bytes
  se_value :: int
  se_used :: bool

record str_table =
  st_entry :: "str_entry list"
  st_cap :: u64
  st_used :: u64

definition empty_entry :: str_entry where
  "empty_entry = \<lparr>se_key = [], se_value = 0, se_used = False\<rparr>"

definition sf37_hash_bytes :: "bytes \<Rightarrow> u64" where
  "sf37_hash_bytes s = foldl (\<lambda>h b. (h XOR ucast b) * 1099511628211) 1469598103934665603 s"

partial_function (option) next_pow2_loop :: "u64 \<Rightarrow> u64 \<Rightarrow> u64 option" where
  "next_pow2_loop p n = (if p < n then next_pow2_loop (push_bit 1 p) n else Some p)"

definition sf37_next_pow2 :: "u64 \<Rightarrow> u64 option" where
  "sf37_next_pow2 n = next_pow2_loop 1 n"

definition table_init :: "u64 \<Rightarrow> str_table option" where
  "table_init expected =
     (case sf37_next_pow2 (expected * 2 + 16) of
        None \<Rightarrow> None
      | Some c \<Rightarrow> Some \<lparr>st_entry = replicate (unat c) empty_entry, st_cap = c, st_used = 0\<rparr>)"

text \<open>The loop both \<open>table_put\<close> and \<open>table_get\<close> run: the slot it stops at, and whether
  that slot holds the key.\<close>

partial_function (option) table_probe ::
  "str_entry list \<Rightarrow> u64 \<Rightarrow> u64 \<Rightarrow> bytes \<Rightarrow> (u64 \<times> bool) option" where
  "table_probe es msk i k =
     (if se_used (es ! unat i) then
        if se_key (es ! unat i) = k then Some (i, True)
        else table_probe es msk ((i + 1) AND msk) k
      else Some (i, False))"

definition table_put_at :: "str_table \<Rightarrow> bytes \<Rightarrow> int \<Rightarrow> str_table option" where
  "table_put_at t k v =
     (let msk = st_cap t - 1 in
      case table_probe (st_entry t) msk (sf37_hash_bytes k AND msk) k of
        None \<Rightarrow> None
      | Some (i, True) \<Rightarrow>
          Some (t\<lparr>st_entry := (st_entry t)[unat i := (st_entry t ! unat i)\<lparr>se_value := v\<rparr>]\<rparr>)
      | Some (i, False) \<Rightarrow>
          Some (t\<lparr>st_entry := (st_entry t)
                    [unat i := \<lparr>se_key = k, se_value = v, se_used = True\<rparr>],
                  st_used := st_used t + 1\<rparr>))"

definition table_put :: "str_table \<Rightarrow> bytes \<Rightarrow> int \<Rightarrow> str_table option" where
  "table_put t k v =
     (if st_cap t = 0 then
        (case table_init 16 of None \<Rightarrow> None | Some t' \<Rightarrow> table_put_at t' k v)
      else table_put_at t k v)"

definition table_get :: "str_table \<Rightarrow> bytes \<Rightarrow> int option" where
  "table_get t k =
     (if st_cap t = 0 then None
      else let msk = st_cap t - 1 in
        case table_probe (st_entry t) msk (sf37_hash_bytes k AND msk) k of
          Some (i, True) \<Rightarrow> Some (se_value (st_entry t ! unat i))
        | _ \<Rightarrow> None)"

subsection \<open>Where a probe stops\<close>

lemma table_probe_steps:
  assumes "k < 64" and "c = 2 ^ k"
    and "unat i < c"
    and "\<forall>m<n. se_used (es ! ((unat i + m) mod c)) \<and> se_key (es ! ((unat i + m) mod c)) \<noteq> key"
    and "\<not> se_used (es ! ((unat i + n) mod c)) \<or> se_key (es ! ((unat i + n) mod c)) = key"
  shows "\<exists>j. table_probe es (2 ^ k - 1) i key = Some (j, se_used (es ! ((unat i + n) mod c))) \<and>
     unat j = (unat i + n) mod c"
  using assms(3-5)
proof (induction n arbitrary: i)
  case 0
  then show ?case by (subst table_probe.simps) auto
next
  case (Suc n)
  let ?i = "(i + 1) AND (2 ^ k - 1)"
  have i: "unat ?i = (unat i + 1) mod c"
    using unat_suc_and_exp_minus_1 [of k i] assms by simp
  have s: "(unat ?i + m) mod c = (unat i + Suc m) mod c" for m
    unfolding i by (simp add: mod_simps)
  have "unat ?i < c" unfolding i using assms(2) by simp
  then have "\<exists>j. table_probe es (2 ^ k - 1) ?i key = Some (j, se_used (es ! ((unat ?i + n) mod c))) \<and> unat j = (unat ?i + n) mod c"
    apply (rule Suc.IH)
    using Suc.prems unfolding s by auto
  moreover have "table_probe es (2 ^ k - 1) i key = table_probe es (2 ^ k - 1) ?i key"
    apply (subst table_probe.simps) using Suc.prems(2) [rule_format, of 0] Suc.prems(1) by simp
  ultimately show ?case unfolding s by simp
qed

definition slot :: "str_table \<Rightarrow> bytes \<Rightarrow> nat \<Rightarrow> nat" where
  "slot t k n = (unat (sf37_hash_bytes k) + n) mod length (st_entry t)"

definition passes :: "str_table \<Rightarrow> bytes \<Rightarrow> nat \<Rightarrow> bool" where
  "passes t k n \<longleftrightarrow> (\<forall>m<n. se_used (st_entry t ! slot t k m) \<and>
      se_key (st_entry t ! slot t k m) \<noteq> k)"

definition used_slots :: "str_table \<Rightarrow> nat set" where
  "used_slots t = {j. j < length (st_entry t) \<and> se_used (st_entry t ! j)}"

definition table_ok :: "str_table \<Rightarrow> bool" where
  "table_ok t \<longleftrightarrow>
     (\<exists>k<64. st_cap t = 2 ^ k \<and> length (st_entry t) = 2 ^ k) \<and>
     unat (st_used t) = card (used_slots t) \<and>
     (\<forall>j \<in> used_slots t.
        \<exists>n. j = slot t (se_key (st_entry t ! j)) n \<and> passes t (se_key (st_entry t ! j)) n)"

definition table_room :: "str_table \<Rightarrow> bool" where
  "table_room t \<longleftrightarrow> st_used t < st_cap t"

definition table_assoc :: "str_table \<Rightarrow> bytes \<Rightarrow> int \<Rightarrow> bool" where
  "table_assoc t k v \<longleftrightarrow>
     (\<exists>j \<in> used_slots t. se_key (st_entry t ! j) = k \<and> se_value (st_entry t ! j) = v)"

lemma finite_used_slots [simp]: "finite (used_slots t)"
  by (simp add: used_slots_def)

lemma table_ok_cap:
  assumes "table_ok t"
  shows "st_cap t \<noteq> 0" and "unat (st_cap t) = length (st_entry t)" and "st_entry t \<noteq> []"
proof -
  obtain k where k: "k < 64" "st_cap t = 2 ^ k" "length (st_entry t) = 2 ^ k"
    using assms by (auto simp: table_ok_def)
  then show *: "unat (st_cap t) = length (st_entry t)"
    using unat_exp2 [of k, where 'a = 64] by simp
  show "st_entry t \<noteq> []"
    using k(3) by auto
  then show "st_cap t \<noteq> 0"
    using * by auto
qed

lemma slot_less: "table_ok t \<Longrightarrow> slot t k n < length (st_entry t)"
  using table_ok_cap(3) [of t] by (simp add: slot_def)

text \<open>A probe that passes \<open>n\<close> slots and stops at the next one.\<close>

lemma table_probe_slot:
  assumes "table_ok t" and "passes t k n"
    and stop: "\<not> se_used (st_entry t ! slot t k n) \<or> se_key (st_entry t ! slot t k n) = k"
  obtains j where
    "table_probe (st_entry t) (st_cap t - 1) (sf37_hash_bytes k AND (st_cap t - 1)) k =
       Some (j, se_used (st_entry t ! slot t k n))"
    and "unat j = slot t k n"
proof -
  obtain e where e: "e < 64" "st_cap t = 2 ^ e" "length (st_entry t) = 2 ^ e"
    using assms(1) by (auto simp: table_ok_def)
  let ?i = "sf37_hash_bytes k AND (2 ^ e - 1)"
  have i: "unat ?i = unat (sf37_hash_bytes k) mod 2 ^ e"
    by (rule unat_and_exp_minus_1)
  have s: "(unat ?i + m) mod 2 ^ e = slot t k m" for m
    unfolding i slot_def e(3) by (simp add: mod_simps)
  have "unat ?i < 2 ^ e"
    unfolding i by simp
  then have "\<exists>j. table_probe (st_entry t) (2 ^ e - 1) ?i k =
      Some (j, se_used (st_entry t ! ((unat ?i + n) mod 2 ^ e))) \<and>
      unat j = (unat ?i + n) mod 2 ^ e"
    by (rule table_probe_steps [OF e(1) refl]) (use assms s in \<open>auto simp: passes_def\<close>)
  then show thesis
    unfolding s using that e(2) by auto
qed

text \<open>Below capacity every probe stops.\<close>

lemma free_slot_exists:
  assumes "table_ok t" and "table_room t"
  obtains n where "\<not> se_used (st_entry t ! slot t k n)"
proof -
  have "card (used_slots t) < length (st_entry t)"
    using assms table_ok_cap [OF assms(1)]
    by (simp add: table_room_def table_ok_def word_less_nat_alt)
  then obtain j where j: "j < length (st_entry t)" "j \<notin> used_slots t"
    by (metis card_lessThan card_mono finite_used_slots lessThan_iff not_le subsetI)
  let ?c = "length (st_entry t)" and ?h = "unat (sf37_hash_bytes k)"
  let ?n = "j + (?c - ?h mod ?c)"
  have "0 < ?c"
    using j(1) by linarith
  then have "?h mod ?c \<le> ?c"
    by (intro less_imp_le mod_less_divisor)
  then have "?h mod ?c + ?n = j + ?c"
    by simp
  moreover have "slot t k ?n = (?h mod ?c + ?n) mod ?c"
    by (simp only: slot_def mod_add_left_eq)
  ultimately have "slot t k ?n = j"
    using j(1) by simp
  moreover have "\<not> se_used (st_entry t ! j)"
    using j by (simp add: used_slots_def)
  ultimately show thesis
    using that [of ?n] by simp
qed

lemma probe_stop_exists:
  assumes "table_ok t" and "table_room t"
  obtains n where "passes t k n"
    and "\<not> se_used (st_entry t ! slot t k n) \<or> se_key (st_entry t ! slot t k n) = k"
proof -
  let ?P = "\<lambda>n. \<not> se_used (st_entry t ! slot t k n) \<or> se_key (st_entry t ! slot t k n) = k"
  obtain n0 where "?P n0"
    using free_slot_exists [OF assms] by blast
  then have "?P (LEAST n. ?P n)"
    by (rule LeastI)
  moreover have "passes t k (LEAST n. ?P n)"
    unfolding passes_def by (auto dest: not_less_Least)
  ultimately show thesis
    using that by blast
qed

text \<open>The slot of a stored key is the one its own probe stops at.\<close>

lemma key_slot:
  assumes "table_ok t" and "j \<in> used_slots t" and "se_key (st_entry t ! j) = k"
    and "passes t k n"
    and "\<not> se_used (st_entry t ! slot t k n) \<or> se_key (st_entry t ! slot t k n) = k"
  shows "slot t k n = j"
proof -
  obtain m where m: "j = slot t k m" "passes t k m"
    using assms by (auto simp: table_ok_def)
  have "se_used (st_entry t ! j)"
    using assms(2) by (simp add: used_slots_def)
  then have "\<not> m < n" and "\<not> n < m"
    using assms(3-5) m by (auto simp: passes_def)
  then show ?thesis
    using m(1) by simp
qed

lemma table_assoc_unique:
  assumes "table_ok t" and "table_assoc t k v" and "table_assoc t k w"
  shows "v = w"
proof -
  obtain i j where i: "i \<in> used_slots t" "se_key (st_entry t ! i) = k" "se_value (st_entry t ! i) = v"
    and j: "j \<in> used_slots t" "se_key (st_entry t ! j) = k" "se_value (st_entry t ! j) = w"
    using assms(2,3) by (auto simp: table_assoc_def)
  obtain m where m: "i = slot t k m" "passes t k m"
    using assms(1) i by (auto simp: table_ok_def)
  then have "slot t k m = j"
    using assms(1) i j by (intro key_slot) auto
  with m(1) i j show ?thesis
    by simp
qed


text \<open>What \<open>table_get\<close> returns: the stored value of the key, if there is one.\<close>

lemma table_get_assoc:
  assumes "table_ok t" and "table_room t"
  shows "table_get t k = Some v \<longleftrightarrow> table_assoc t k v"
proof -
  obtain n where n: "passes t k n"
    "\<not> se_used (st_entry t ! slot t k n) \<or> se_key (st_entry t ! slot t k n) = k"
    by (rule probe_stop_exists [OF assms])
  obtain j where j: "table_probe (st_entry t) (st_cap t - 1)
      (sf37_hash_bytes k AND (st_cap t - 1)) k = Some (j, se_used (st_entry t ! slot t k n))"
    "unat j = slot t k n"
    by (rule table_probe_slot [OF assms(1) n])
  have get: "table_get t k = (if se_used (st_entry t ! slot t k n)
      then Some (se_value (st_entry t ! slot t k n)) else None)"
    using j table_ok_cap(1) [OF assms(1)] by (simp add: table_get_def Let_def)
  show ?thesis
  proof (cases "se_used (st_entry t ! slot t k n)")
    case True
    then have "table_assoc t k (se_value (st_entry t ! slot t k n))"
      using n(2) slot_less [OF assms(1)] by (auto simp: table_assoc_def used_slots_def)
    then show ?thesis
      using True get table_assoc_unique [OF assms(1)] by auto
  next
    case False
    have "\<not> table_assoc t k v"
    proof
      assume "table_assoc t k v"
      then obtain i where i: "i \<in> used_slots t" "se_key (st_entry t ! i) = k"
        by (auto simp: table_assoc_def)
      then have "slot t k n = i"
        by (rule key_slot [OF assms(1) _ _ n])
      with False i show False
        by (simp add: used_slots_def)
    qed
    with False get show ?thesis
      by simp
  qed
qed

lemma table_put_cases:
  assumes "table_ok t" and "table_room t"
  obtains (old) j where "j \<in> used_slots t" and "se_key (st_entry t ! j) = k"
      and "table_put t k v =
        Some (t\<lparr>st_entry := (st_entry t)[j := (st_entry t ! j)\<lparr>se_value := v\<rparr>]\<rparr>)"
  | (new) n where "passes t k n" and "slot t k n \<notin> used_slots t"
      and "table_put t k v =
        Some (t\<lparr>st_entry := (st_entry t)
                 [slot t k n := \<lparr>se_key = k, se_value = v, se_used = True\<rparr>],
               st_used := st_used t + 1\<rparr>)"
proof -
  obtain n where n: "passes t k n"
    "\<not> se_used (st_entry t ! slot t k n) \<or> se_key (st_entry t ! slot t k n) = k"
    by (rule probe_stop_exists [OF assms])
  obtain j where j: "table_probe (st_entry t) (st_cap t - 1)
      (sf37_hash_bytes k AND (st_cap t - 1)) k = Some (j, se_used (st_entry t ! slot t k n))"
    "unat j = slot t k n"
    by (rule table_probe_slot [OF assms(1) n])
  show thesis
  proof (cases "se_used (st_entry t ! slot t k n)")
    case True
    show thesis
      by (rule old [of "slot t k n"])
        (use True n j slot_less [OF assms(1)] table_ok_cap(1) [OF assms(1)] in
          \<open>auto simp: used_slots_def table_put_def table_put_at_def Let_def\<close>)
  next
    case False
    show thesis
      by (rule new [OF n(1)])
        (use False j table_ok_cap(1) [OF assms(1)] in
          \<open>auto simp: used_slots_def table_put_def table_put_at_def Let_def\<close>)
  qed
qed

lemma table_put_old:
  assumes ok: "table_ok t" and "j \<in> used_slots t" and "se_key (st_entry t ! j) = k"
    and t': "t' = t\<lparr>st_entry := (st_entry t)[j := (st_entry t ! j)\<lparr>se_value := v\<rparr>]\<rparr>"
  shows "table_ok t'" and "table_room t' = table_room t"
    and "table_assoc t' x w \<longleftrightarrow> (if x = k then w = v else table_assoc t x w)"
proof -
  have j: "j < length (st_entry t)" "se_used (st_entry t ! j)"
    using assms(2) by (auto simp: used_slots_def)
  have same: "se_used (st_entry t' ! i) = se_used (st_entry t ! i)"
    "se_key (st_entry t' ! i) = se_key (st_entry t ! i)" for i
    using j by (cases "i = j"; simp add: t')+
  have us: "used_slots t' = used_slots t"
    using same(1) by (simp add: used_slots_def t')
  have sl: "slot t' x n = slot t x n" for x n
    by (simp add: slot_def t')
  have ps: "passes t' x n = passes t x n" for x n
    by (simp add: passes_def same sl)
  show "table_ok t'"
    using ok unfolding table_ok_def us same sl ps by (simp add: t')
  show "table_room t' = table_room t"
    by (simp add: table_room_def t')
  have val: "se_value (st_entry t' ! i) = (if i = j then v else se_value (st_entry t ! i))"
    if "i \<in> used_slots t" for i
    using that j by (simp add: t' nth_list_update used_slots_def)
  have uniq: "i = j" if "i \<in> used_slots t" "se_key (st_entry t ! i) = k" for i
  proof -
    obtain m where m: "j = slot t k m" "passes t k m"
      using ok assms(2,3) by (auto simp: table_ok_def)
    then show ?thesis
      using key_slot [OF ok that m(2)] assms(3) by simp
  qed
  show "table_assoc t' x w \<longleftrightarrow> (if x = k then w = v else table_assoc t x w)"
  proof (cases "x = k")
    case True
    have "table_assoc t' k w \<longleftrightarrow> se_value (st_entry t' ! j) = w"
      unfolding table_assoc_def us same using uniq assms(2,3) by blast
    then show ?thesis
      using True val [OF assms(2)] by auto
  next
    case False
    then have "se_value (st_entry t' ! i) = se_value (st_entry t ! i)"
      if "i \<in> used_slots t" "se_key (st_entry t ! i) = x" for i
      using val [OF that(1)] that(2) assms(3) by auto
    then show ?thesis
      unfolding table_assoc_def us same using False by auto
  qed
qed


lemma table_put_new:
  assumes ok: "table_ok t" and room: "table_room t"
    and p: "passes t k n" "p = slot t k n" "p \<notin> used_slots t"
    and t': "t' = t\<lparr>st_entry := (st_entry t)[p := \<lparr>se_key = k, se_value = v, se_used = True\<rparr>],
                   st_used := st_used t + 1\<rparr>"
  shows "table_ok t'" and "unat (st_used t') = unat (st_used t) + 1"
    and "table_assoc t' x w \<longleftrightarrow> (if x = k then w = v else table_assoc t x w)"
proof -
  have pl: "p < length (st_entry t)"
    unfolding p(2) by (rule slot_less [OF ok])
  have other: "st_entry t' ! i = st_entry t ! i" if "i \<noteq> p" for i
    using that by (simp add: t')
  have here: "st_entry t' ! p = \<lparr>se_key = k, se_value = v, se_used = True\<rparr>"
    using pl by (simp add: t')
  have len: "length (st_entry t') = length (st_entry t)" and cap: "st_cap t' = st_cap t"
    by (simp_all add: t')
  have us: "used_slots t' = insert p (used_slots t)"
  proof (rule set_eqI)
    fix i
    show "i \<in> used_slots t' \<longleftrightarrow> i \<in> insert p (used_slots t)"
      using pl here other [of i] by (cases "i = p") (auto simp: used_slots_def len)
  qed
  have sl: "slot t' x n = slot t x n" for x n
    by (simp add: slot_def len)
  have ps: "passes t' x m" if "passes t x m" "\<And>i. i < m \<Longrightarrow> slot t x i \<noteq> p" for x m
    using that by (auto simp: passes_def sl other)
  have used_ne: "slot t x i \<noteq> p" if "passes t x m" "i < m" for x m i
    using that p(3) slot_less [OF ok] by (auto simp: passes_def used_slots_def)
  have ps': "passes t' x m" if "passes t x m" for x m
    using ps [OF that] used_ne [OF that] by blast
  have "st_used t < st_cap t"
    using room by (simp add: table_room_def)
  then show used: "unat (st_used t') = unat (st_used t) + 1"
    by (simp add: t' unat_plus_one_less)
  show "table_ok t'"
    unfolding table_ok_def
  proof (intro conjI ballI)
    show "\<exists>k<64. st_cap t' = 2 ^ k \<and> length (st_entry t') = 2 ^ k"
      using ok by (simp add: table_ok_def len cap)
    show "unat (st_used t') = card (used_slots t')"
      using ok p(3) by (simp add: used us table_ok_def)
  next
    fix i
    assume "i \<in> used_slots t'"
    then consider "i = p" | "i \<noteq> p" "i \<in> used_slots t"
      by (auto simp: us)
    then show "\<exists>m. i = slot t' (se_key (st_entry t' ! i)) m \<and> passes t' (se_key (st_entry t' ! i)) m"
    proof cases
      case 1
      then show ?thesis
        unfolding 1 here using p(2) ps' [OF p(1)] by (auto simp: sl)
    next
      case 2
      then show ?thesis
        using ok ps' unfolding table_ok_def other [OF 2(1)] sl by blast
    qed
  qed
  have absent: "se_key (st_entry t ! i) \<noteq> k" if "i \<in> used_slots t" for i
  proof
    assume k: "se_key (st_entry t ! i) = k"
    have "\<not> se_used (st_entry t ! slot t k n)"
      using p pl by (auto simp: used_slots_def)
    then have "slot t k n = i"
      using key_slot [OF ok that k p(1)] by simp
    with that p show False
      by simp
  qed
  have other': "st_entry t' ! i = st_entry t ! i" if "i \<in> used_slots t" for i
    using that p(3) by (intro other) auto
  show "table_assoc t' x w \<longleftrightarrow> (if x = k then w = v else table_assoc t x w)"
  proof (cases "x = k")
    case True
    have "table_assoc t' k w \<longleftrightarrow> v = w"
      unfolding table_assoc_def us using here absent by (auto simp: other')
    with True show ?thesis
      by auto
  next
    case False
    then show ?thesis
      unfolding table_assoc_def us using here by (auto simp: other')
  qed
qed

definition table_free :: "str_table \<Rightarrow> nat" where
  "table_free t = unat (st_cap t) - unat (st_used t)"

lemma table_room_free: "table_room t \<longleftrightarrow> 0 < table_free t"
  by (simp add: table_room_def table_free_def word_less_nat_alt)

lemma table_put_correct:
  assumes "table_ok t" and "0 < table_free t"
  obtains t' where "table_put t k v = Some t'" and "table_ok t'"
    and "table_free t \<le> table_free t' + 1"
    and "\<And>x w. table_assoc t' x w \<longleftrightarrow> (if x = k then w = v else table_assoc t x w)"
proof -
  have room: "table_room t"
    using assms(2) by (simp add: table_room_free)
  from assms(1) room show thesis
  proof (cases rule: table_put_cases [of t k v])
    case (old j)
    note put = table_put_old [OF assms(1) old(1,2) refl, of v]
    show thesis
      by (rule that [OF old(3) put(1) _ put(3)]) (simp add: table_free_def)
  next
    case (new n)
    note put = table_put_new [OF assms(1) room new(1) refl new(2) refl, of v]
    show thesis
      by (rule that [OF new(3) put(1) _ put(3)]) (use put(2) in \<open>simp add: table_free_def\<close>)
  qed
qed


subsection \<open>Sizing: the next power of two\<close>

lemma next_pow2_loop_Some:
  assumes "k < 64" and "j \<le> k" and "unat n \<le> 2 ^ k"
  shows "\<exists>i. j \<le> i \<and> i \<le> k \<and> next_pow2_loop (2 ^ j) n = Some (2 ^ i) \<and> unat n \<le> 2 ^ i"
  using assms(2)
proof (induction "k - j" arbitrary: j)
  case 0
  then have "j = k"
    by simp
  moreover have "\<not> (2::u64) ^ k < n"
    using assms(1,3) unat_exp2 [of k, where 'a = 64] by (simp add: word_less_nat_alt)
  ultimately show ?case
    using assms(3) by (subst next_pow2_loop.simps) auto
next
  case (Suc d)
  show ?case
  proof (cases "(2::u64) ^ j < n")
    case True
    have "push_bit 1 ((2::u64) ^ j) = 2 ^ Suc j"
      by (simp add: push_bit_eq_mult)
    moreover have "d = k - Suc j" and "Suc j \<le> k"
      using Suc(2) by simp_all
    then obtain i where "Suc j \<le> i" "i \<le> k" "next_pow2_loop (2 ^ Suc j) n = Some (2 ^ i)"
      "unat n \<le> 2 ^ i"
      using Suc(1) [of "Suc j"] by blast
    ultimately show ?thesis
      using True by (subst next_pow2_loop.simps) (auto simp: mult.commute intro!: exI [of _ i])
  next
    case False
    have "j < 64"
      using Suc(2) assms(1) by linarith
    then have "unat n \<le> 2 ^ j"
      using False unat_exp2 [of j, where 'a = 64] by (simp add: word_less_nat_alt)
    then show ?thesis
      using False Suc.prems by (subst next_pow2_loop.simps) auto
  qed
qed

lemma sf37_next_pow2_Some:
  assumes "unat n \<le> 2 ^ 63"
  obtains i where "i < 64" and "sf37_next_pow2 n = Some (2 ^ i)" and "unat n \<le> 2 ^ i"
proof -
  obtain i where "i \<le> 63" "next_pow2_loop 1 n = Some (2 ^ i)" "unat n \<le> 2 ^ i"
    using next_pow2_loop_Some [of 63 0 n] assms by auto
  then show thesis
    using that [of i] by (simp add: sf37_next_pow2_def)
qed

text \<open>A loop result is never below \<open>n\<close>; the loop over larger \<open>n\<close> does not end.\<close>

lemma next_pow2_loop_ge: "next_pow2_loop p n = Some r \<Longrightarrow> n \<le> r"
proof (rule next_pow2_loop.raw_induct [where P = "\<lambda>p n r. n \<le> r"])
  fix f and p n r :: u64
  assume IH: "\<And>p n r. f p n = Some r \<Longrightarrow> n \<le> r"
    and eq: "(if p < n then f (push_bit 1 p) n else Some p) = Some r"
  show "n \<le> r"
    using IH [of "push_bit 1 p" n r] eq by (cases "p < n") auto
qed

lemma next_pow2_loop_pow:
  "next_pow2_loop p n = Some r \<Longrightarrow> \<exists>i. r = push_bit i p"
proof (rule next_pow2_loop.raw_induct [where P = "\<lambda>p n r. \<exists>i. r = push_bit i p"])
  fix f and p n r :: u64
  assume IH: "\<And>p n r. f p n = Some r \<Longrightarrow> \<exists>i. r = push_bit i p"
    and eq: "(if p < n then f (push_bit 1 p) n else Some p) = Some r"
  show "\<exists>i. r = push_bit i p"
  proof (cases "p < n")
    case True
    then obtain i where "r = push_bit i (push_bit 1 p)"
      using IH [of "push_bit 1 p" n r] eq by (auto simp del: push_bit_of_1)
    then have "r = push_bit (i + 1) p"
      by (simp only: push_bit_push_bit)
    then show ?thesis ..
  next
    case False
    then show ?thesis
      using eq by (auto intro!: exI [of _ 0])
  qed
qed

lemma sf37_next_pow2_diverges:
  assumes "2 ^ 63 < unat n"
  shows "sf37_next_pow2 n = None"
proof (rule ccontr)
  assume "sf37_next_pow2 n \<noteq> None"
  then obtain r where r: "next_pow2_loop 1 n = Some r"
    by (auto simp: sf37_next_pow2_def)
  obtain i where i: "r = push_bit i 1"
    using next_pow2_loop_pow [OF r] by blast
  have "unat r \<le> 2 ^ 63"
  proof (cases "i < 64")
    case True
    have "unat r = 2 ^ i"
      using unat_exp2 [of i, where 'a = 64] True by (simp add: i push_bit_eq_mult)
    also have "\<dots> \<le> (2::nat) ^ 63"
      using True by (intro power_increasing) auto
    finally show ?thesis .
  next
    case False
    then have "r = 0"
      unfolding i by (intro bit_word_eqI) (simp add: bit_simps)
    then show ?thesis
      by simp
  qed
  moreover have "unat n \<le> unat r"
    using next_pow2_loop_ge [OF r] by (simp add: word_le_nat_alt)
  ultimately show False
    using assms by simp
qed

lemma table_init_correct:
  assumes "unat n * 2 + 16 \<le> 2 ^ 63"
  obtains t where "table_init n = Some t" and "table_ok t"
    and "unat n * 2 + 16 \<le> table_free t" and "\<And>k v. \<not> table_assoc t k v"
proof -
  have u: "unat (n * 2 + 16) = unat n * 2 + 16"
    using assms by (simp add: unat_word_ariths)
  obtain i where i: "i < 64" "sf37_next_pow2 (n * 2 + 16) = Some (2 ^ i)" "unat n * 2 + 16 \<le> 2 ^ i"
    using sf37_next_pow2_Some [of "n * 2 + 16"] assms unfolding u by blast
  define t where "t = \<lparr>st_entry = replicate (2 ^ i) empty_entry, st_cap = 2 ^ i, st_used = 0\<rparr>"
  have us: "used_slots t = {}"
    by (auto simp: used_slots_def t_def empty_entry_def)
  show thesis
  proof (rule that)
    show "table_init n = Some t"
      using i(1,2) by (simp add: table_init_def t_def unat_exp2)
    show "table_ok t"
      using i(1) by (auto simp: table_ok_def us) (auto simp: t_def)
    show "unat n * 2 + 16 \<le> table_free t"
      using i(1,3) by (simp add: table_free_def t_def unat_exp2)
    show "\<not> table_assoc t k v" for k v
      by (simp add: table_assoc_def us)
  qed
qed

subsection \<open>The map interface\<close>

text \<open>The loader's sequence of insertions, over any map with a \<open>put\<close>.\<close>

primrec put_seq ::
  "('t \<Rightarrow> bytes \<Rightarrow> int \<Rightarrow> 't option) \<Rightarrow> 't \<Rightarrow> (bytes \<times> int) list \<Rightarrow> 't option" where
  "put_seq put t [] = Some t"
| "put_seq put t (p # ps) =
     (case put t (fst p) (snd p) of None \<Rightarrow> None | Some t' \<Rightarrow> put_seq put t' ps)"

locale str_map =
  fixes get :: "'t \<Rightarrow> bytes \<Rightarrow> int option"
    and put :: "'t \<Rightarrow> bytes \<Rightarrow> int \<Rightarrow> 't option"
    and ok :: "'t \<Rightarrow> bool"
    and free :: "'t \<Rightarrow> nat"
  assumes put_returns: "ok t \<Longrightarrow> 0 < free t \<Longrightarrow> \<exists>t'. put t k v = Some t'"
    and put_ok: "ok t \<Longrightarrow> 0 < free t \<Longrightarrow> put t k v = Some t' \<Longrightarrow> ok t' \<and> free t \<le> free t' + 1"
    and get_put: "ok t \<Longrightarrow> 1 < free t \<Longrightarrow> put t k v = Some t' \<Longrightarrow> get t' = (get t)(k \<mapsto> v)"
begin

lemma put_seq_correct:
  assumes "ok t" and "length ps < free t"
  shows "\<exists>t'. put_seq put t ps = Some t' \<and> ok t' \<and> free t \<le> free t' + length ps \<and>
    get t' = get t ++ map_of (rev ps)"
  using assms
proof (induction ps arbitrary: t)
  case (Cons p ps)
  obtain t1 where t1: "put t (fst p) (snd p) = Some t1"
    using put_returns [of t "fst p" "snd p"] Cons.prems by auto
  have t1': "ok t1" "free t \<le> free t1 + 1" "get t1 = (get t)(fst p \<mapsto> snd p)"
    using put_ok [OF _ _ t1] get_put [OF _ _ t1] Cons.prems by auto
  have "length ps < free t1"
    using t1'(2) Cons.prems(2) by simp
  then obtain t' where t': "put_seq put t1 ps = Some t'" "ok t'" "free t1 \<le> free t' + length ps"
    "get t' = get t1 ++ map_of (rev ps)"
    using Cons.IH [OF t1'(1)] by blast
  have "get t' = get t ++ map_of (rev (p # ps))"
    unfolding t'(4) t1'(3) by (cases p) (simp add: map_add_assoc [symmetric])
  then show ?case
    using t1 t' t1'(2) by auto
qed auto

end

interpretation tbl: str_map table_get table_put table_ok table_free
proof unfold_locales
  fix t :: str_table and k v
  assume "table_ok t" and "0 < table_free t"
  then show "\<exists>t'. table_put t k v = Some t'"
    by (metis table_put_correct)
next
  fix t t' :: str_table and k v
  assume "table_ok t" and "0 < table_free t" and "table_put t k v = Some t'"
  then show "table_ok t' \<and> table_free t \<le> table_free t' + 1"
    by (metis option.inject table_put_correct)
next
  fix t t' :: str_table and k v
  assume t: "table_ok t" "1 < table_free t" "table_put t k v = Some t'"
  then have "0 < table_free t"
    by simp
  obtain t1 where t1: "table_put t k v = Some t1" "table_ok t1" "table_free t \<le> table_free t1 + 1"
    "\<And>x w. table_assoc t1 x w \<longleftrightarrow> (if x = k then w = v else table_assoc t x w)"
    using table_put_correct [OF t(1) \<open>0 < table_free t\<close>] by metis
  have room: "table_room t" "table_room t1"
    using t(2) t1(3) by (simp_all add: table_room_free)
  show "table_get t' = (table_get t)(k \<mapsto> v)"
  proof
    fix x
    have "table_get t1 x = Some w \<longleftrightarrow> ((table_get t)(k \<mapsto> v)) x = Some w" for w
      using table_get_assoc [OF t1(2) room(2)] table_get_assoc [OF t(1) room(1)] t1(4) by auto
    then show "table_get t' x = ((table_get t)(k \<mapsto> v)) x"
      using t(3) t1(1) by (metis not_None_eq option.inject)
  qed
qed


lemma table_get_fresh:
  "table_ok t \<Longrightarrow> 0 < table_free t \<Longrightarrow> (\<And>k v. \<not> table_assoc t k v) \<Longrightarrow> table_get t = Map.empty"
  by (rule ext) (metis not_None_eq table_get_assoc table_room_free)

subsection \<open>Properties\<close>

text \<open>C40: a table made by \<open>table_init n\<close> takes \<open>n\<close> (indeed \<open>2n + 15\<close>) insertions
  without the probe loop running forever, and lookups then return, for every key, the
  value of the last insertion of that key and nothing for a key never inserted.\<close>

theorem table_refines_map:
  assumes "unat n * 2 + 16 \<le> 2 ^ 63" and "length ps < unat n * 2 + 16"
  shows "\<exists>t t'. table_init n = Some t \<and> put_seq table_put t ps = Some t' \<and>
    table_ok t' \<and> table_get t' = map_of (rev ps)"
proof -
  obtain t where t: "table_init n = Some t" "table_ok t" "unat n * 2 + 16 \<le> table_free t"
    "\<And>k v. \<not> table_assoc t k v"
    using table_init_correct [OF assms(1)] by metis
  have "length ps < table_free t"
    using assms(2) t(3) by simp
  then obtain t' where "put_seq table_put t ps = Some t'" "table_ok t'"
    "table_get t' = table_get t ++ map_of (rev ps)"
    using tbl.put_seq_correct [OF t(2)] by blast
  moreover have "table_get t = Map.empty"
    using t(2-4) by (intro table_get_fresh) auto
  ultimately show ?thesis
    using t(1) by auto
qed

theorem table_refines_map_witness:
  "\<exists>t t'. table_init 2 = Some t \<and>
     put_seq table_put t [(cstr ''a'', 7), (cstr ''b'', 9), (cstr ''a'', 8)] = Some t' \<and>
     table_ok t' \<and> table_get t' = map_of (rev [(cstr ''a'', 7), (cstr ''b'', 9), (cstr ''a'', 8)])"
  by (rule table_refines_map) simp_all

text \<open>the size computed for a table is the least power of two that is large enough
  when one exists in 64 bits, and the loop never ends otherwise.\<close>

theorem next_pow2_spec:
  "(if unat n \<le> 2 ^ 63
    then \<exists>i<64. sf37_next_pow2 n = Some (2 ^ i) \<and> unat n \<le> 2 ^ i
    else sf37_next_pow2 n = None)"
  using sf37_next_pow2_Some [of n] sf37_next_pow2_diverges [of n] by (auto simp: not_le)

end
