(* ===== verification/Bpe.thy ===== *)
theory Bpe
  imports Utf8 StrTable
begin

section \<open>The byte-level BPE tokenizer\<close>

text \<open>
  The tokenizer of \<open>sf37.c\<close>: symbol merging (\<open>bpe_emit_piece\<close>), the pre-tokenizer
  that cuts a text into pieces (\<open>bpe_tokenize_text\<close>), the added-token scan over rendered
  chats, and the way back from a token to its text (\<open>sf37_token_text\<close>). A token vector is
  the list of its tokens; \<open>sf37_tokens_push\<close> appends. A position in a text is the list of
  bytes from there on, as in \<open>Utf8\<close>. Vocabulary strings are byte lists with their length.
\<close>

subsection \<open>Vocabulary\<close>

record sf37_added_token =
  at_text :: bytes
  at_id :: int

record sf37_vocab =
  vc_token :: "bytes option list"
  vc_bos_id :: int
  vc_eos_id :: int
  vc_im_start_id :: int
  vc_im_end_id :: int
  vc_think_start_id :: int
  vc_think_end_id :: int
  vc_im_patch_id :: int
  vc_added :: "sf37_added_token list"
  vc_token_to_id :: str_table
  vc_merge_rank :: str_table
  vc_ready :: bool

type_synonym tokens = "int list"

definition sf37_tokens_push :: "tokens \<Rightarrow> int \<Rightarrow> tokens" where
  "sf37_tokens_push tv t = tv @ [t]"

text \<open>The copy loop pushes the tokens one after the other.\<close>

definition sf37_tokens_copy :: "tokens \<Rightarrow> tokens" where
  "sf37_tokens_copy src = foldl sf37_tokens_push [] src"

fun sf37_tokens_starts_with :: "tokens \<Rightarrow> tokens \<Rightarrow> bool" where
  "sf37_tokens_starts_with tv [] = True"
| "sf37_tokens_starts_with [] (p # ps) = False"
| "sf37_tokens_starts_with (t # ts) (p # ps) = (t = p \<and> sf37_tokens_starts_with ts ps)"

subsection \<open>Merging the symbols of a piece\<close>

definition INT_MAX :: int where
  "INT_MAX = 2147483647"

definition bpe_rank :: "sf37_vocab \<Rightarrow> bytes \<Rightarrow> bytes \<Rightarrow> int" where
  "bpe_rank vocab a b =
     (case table_get (vc_merge_rank vocab) (a @ [0x20] @ b) of None \<Rightarrow> -1 | Some r \<Rightarrow> r)"

text \<open>The loop that cuts the encoded piece into UTF-8 characters.\<close>

function bpe_symbols :: "bytes \<Rightarrow> bytes list" where
  "bpe_symbols s =
     (if s = [] then []
      else take (next_utf8_char s) s # bpe_symbols (drop (next_utf8_char s) s))"
  by pat_completeness auto
termination
proof (relation "measure length")
  fix s :: bytes
  assume "s \<noteq> []"
  then show "(drop (next_utf8_char s) s, s) \<in> measure length"
    using next_utf8_char_pos [of s] by (cases s) auto
qed simp

declare bpe_symbols.simps [simp del]

text \<open>The scan for the adjacent pair of least rank; the first such pair wins.\<close>

fun bpe_best :: "sf37_vocab \<Rightarrow> nat \<Rightarrow> bytes list \<Rightarrow> nat option \<times> int \<Rightarrow> nat option \<times> int" where
  "bpe_best vocab i (a # b # syms) best =
     (let rank = bpe_rank vocab a b in
      bpe_best vocab (i + 1) (b # syms)
        (if rank \<ge> 0 \<and> rank < snd best then (Some i, rank) else best))"
| "bpe_best vocab i syms best = best"

definition bpe_merge_at :: "nat \<Rightarrow> bytes list \<Rightarrow> bytes list" where
  "bpe_merge_at i syms = take i syms @ (syms ! i @ syms ! (i + 1)) # drop (i + 2) syms"

lemma bpe_best_index:
  "fst (bpe_best vocab i syms best) = Some j \<Longrightarrow>
   fst best = Some j \<or> i \<le> j \<and> j + 1 < i + length syms"
proof (induction vocab i syms best rule: bpe_best.induct)
  case (1 vocab i a b syms best)
  from "1.IH" [OF refl] "1.prems" show ?case
    by (fastforce simp: Let_def split: if_splits)
qed auto

function bpe_merge_loop :: "sf37_vocab \<Rightarrow> bytes list \<Rightarrow> bytes list" where
  "bpe_merge_loop vocab syms =
     (case fst (bpe_best vocab 0 syms (None, INT_MAX)) of
        None \<Rightarrow> syms
      | Some i \<Rightarrow> bpe_merge_loop vocab (bpe_merge_at i syms))"
  by pat_completeness auto
termination
proof (relation "measure (\<lambda>(v, syms). length syms)")
  fix vocab syms i
  assume "fst (bpe_best vocab 0 syms (None, INT_MAX)) = Some i"
  then have "i + 1 < length syms"
    using bpe_best_index [of vocab 0 syms "(None, INT_MAX)" i] by simp
  then show "((vocab, bpe_merge_at i syms), (vocab, syms)) \<in> measure (\<lambda>(v, syms). length syms)"
    by (simp add: bpe_merge_at_def)
qed simp

declare bpe_merge_loop.simps [simp del]

text \<open>A symbol without a token falls back to the tokens of its single bytes.\<close>

definition bpe_symbol_tokens :: "sf37_vocab \<Rightarrow> bytes \<Rightarrow> tokens" where
  "bpe_symbol_tokens vocab s =
     (case table_get (vc_token_to_id vocab) s of
        Some t \<Rightarrow> [t]
      | None \<Rightarrow> concat (map (\<lambda>b. case table_get (vc_token_to_id vocab) [b] of
                                     Some t \<Rightarrow> [t] | None \<Rightarrow> []) s))"

definition bpe_emit_piece :: "sf37_vocab \<Rightarrow> bytes \<Rightarrow> tokens \<Rightarrow> tokens" where
  "bpe_emit_piece vocab raw_piece out =
     out @ concat (map (bpe_symbol_tokens vocab)
       (bpe_merge_loop vocab (bpe_symbols (byte_encode raw_piece))))"

subsection \<open>Cutting a text into pieces\<close>

definition ascii_alpha :: "byte \<Rightarrow> bool" where
  "ascii_alpha c \<longleftrightarrow> (c \<ge> 0x41 \<and> c \<le> 0x5a) \<or> (c \<ge> 0x61 \<and> c \<le> 0x7a)"

definition ascii_digit :: "byte \<Rightarrow> bool" where
  "ascii_digit c \<longleftrightarrow> c \<ge> 0x30 \<and> c \<le> 0x39"

definition ascii_space :: "byte \<Rightarrow> bool" where
  "ascii_space c \<longleftrightarrow> c = 0x20 \<or> c = 0x09 \<or> c = 0x0a \<or> c = 0x0d \<or> c = 0x0b \<or> c = 0x0c"

definition ascii_newline :: "byte \<Rightarrow> bool" where
  "ascii_newline c \<longleftrightarrow> c = 0x0a \<or> c = 0x0d"

definition joyai_ascii_punct_symbol :: "byte \<Rightarrow> bool" where
  "joyai_ascii_punct_symbol c \<longleftrightarrow>
     (c \<ge> 0x21 \<and> c \<le> 0x2f) \<or> (c \<ge> 0x3a \<and> c \<le> 0x40) \<or>
     (c \<ge> 0x5b \<and> c \<le> 0x60) \<or> (c \<ge> 0x7b \<and> c \<le> 0x7e)"

definition utf8_is_cjk_hira_kata :: "u32 \<Rightarrow> bool" where
  "utf8_is_cjk_hira_kata cp \<longleftrightarrow>
     (cp \<ge> 0x4e00 \<and> cp \<le> 0x9fa5) \<or> (cp \<ge> 0x3040 \<and> cp \<le> 0x309f) \<or>
     (cp \<ge> 0x30a0 \<and> cp \<le> 0x30ff)"

text \<open>The callers test \<open>pos < len\<close> first; the empty suffix answers false.\<close>

definition joyai_letter_like_at :: "bytes \<Rightarrow> bool" where
  "joyai_letter_like_at s =
     (case s of [] \<Rightarrow> False | c # _ \<Rightarrow> if c < 128 then ascii_alpha c else True)"

definition joyai_cjk_at :: "bytes \<Rightarrow> bool" where
  "joyai_cjk_at s =
     (case s of [] \<Rightarrow> False
      | c # _ \<Rightarrow> if c < 128 then False else utf8_is_cjk_hira_kata (fst (utf8_peek_one s)))"

text \<open>\<open>while (pos < len && P(pos)) pos = next_utf8_char(pos)\<close>, as the bytes consumed.\<close>

function utf8_run :: "(bytes \<Rightarrow> bool) \<Rightarrow> bytes \<Rightarrow> nat" where
  "utf8_run P s =
     (if s \<noteq> [] \<and> P s then next_utf8_char s + utf8_run P (drop (next_utf8_char s) s) else 0)"
  by pat_completeness auto
termination
proof (relation "measure (\<lambda>(P, s). length s)")
  fix P and s :: bytes
  assume "s \<noteq> [] \<and> P s"
  then show "((P, drop (next_utf8_char s) s), (P, s)) \<in> measure (\<lambda>(P, s). length s)"
    using next_utf8_char_pos [of s] by (cases s) auto
qed simp

declare utf8_run.simps [simp del]

definition joyai_consume_letters :: "bytes \<Rightarrow> nat" where
  "joyai_consume_letters s = utf8_run joyai_letter_like_at s"

text \<open>\<open>while (pos < len && P(text[pos])) pos++\<close>, as the bytes consumed.\<close>

definition byte_run :: "(byte \<Rightarrow> bool) \<Rightarrow> bytes \<Rightarrow> nat" where
  "byte_run P s = length (takeWhile P s)"

text \<open>The white-space loop: how far it runs, and the end of the last newline it met
  (0 when there was none).\<close>

fun space_scan :: "bytes \<Rightarrow> nat \<Rightarrow> nat \<Rightarrow> nat \<times> nat" where
  "space_scan [] p last_newline_end = (p, last_newline_end)"
| "space_scan (c # s) p last_newline_end =
     (if ascii_space c
      then space_scan s (p + 1) (if ascii_newline c then p + 1 else last_newline_end)
      else (p, last_newline_end))"

definition piece_len :: "bytes \<Rightarrow> nat" where
  "piece_len s =
     (case s of [] \<Rightarrow> 0
      | c # s1 \<Rightarrow>
        (let n =
          (if ascii_digit c then min 3 (byte_run ascii_digit s)
           else if joyai_cjk_at s then
             next_utf8_char s + utf8_run joyai_cjk_at (drop (next_utf8_char s) s)
           else if joyai_ascii_punct_symbol c \<and> s1 \<noteq> [] \<and> ascii_alpha (hd s1) then
             1 + byte_run ascii_alpha s1
           else if joyai_letter_like_at s then joyai_consume_letters s
           else if \<not> ascii_newline c \<and> \<not> joyai_ascii_punct_symbol c \<and> s1 \<noteq> [] \<and>
                   joyai_letter_like_at s1 then
             1 + joyai_consume_letters s1
           else if c = 0x20 \<and> s1 \<noteq> [] \<and> joyai_ascii_punct_symbol (hd s1) then
             (let m = 1 + byte_run joyai_ascii_punct_symbol s1
              in m + byte_run ascii_newline (drop m s))
           else if joyai_ascii_punct_symbol c then
             (let m = byte_run joyai_ascii_punct_symbol s
              in m + byte_run ascii_newline (drop m s))
           else if ascii_space c then
             (let (p, last_newline_end) = space_scan s 0 0 in
              if last_newline_end \<noteq> 0 then last_newline_end
              else if p < length s \<and> p > 1 \<and>
                      (joyai_letter_like_at (drop p s) \<or> joyai_ascii_punct_symbol (s ! p)) then
                p - 1
              else p)
           else next_utf8_char s)
         in if n = 0 then next_utf8_char s else n))"

lemma utf8_run_le [simp]: "utf8_run P s \<le> length s"
proof (induction P s rule: utf8_run.induct)
  case (1 P s)
  show ?case
  proof (cases "s \<noteq> [] \<and> P s")
    case True
    then have "utf8_run P (drop (next_utf8_char s) s) \<le> length s - next_utf8_char s"
      using 1 by simp
    then show ?thesis
      using next_utf8_char_le [of s] le_diff_conv2 [of "next_utf8_char s"]
      by (subst utf8_run.simps) (simp add: True add.commute)
  next
    case False
    then show ?thesis
      by (subst utf8_run.simps) auto
  qed
qed

lemma byte_run_le [simp]: "byte_run P s \<le> length s"
  by (simp add: byte_run_def length_takeWhile_le)

lemma space_scan_bounds:
  "space_scan s p l = (q, m) \<Longrightarrow> l \<le> p \<Longrightarrow> p \<le> q \<and> q \<le> p + length s \<and> m \<le> q"
  by (induction s p l rule: space_scan.induct) (fastforce split: if_splits)+

lemma utf8_run_drop: "n \<le> length s \<Longrightarrow> n + utf8_run P (drop n s) \<le> length s"
  using utf8_run_le [of P "drop n s"] by simp

lemma byte_run_drop: "n \<le> length s \<Longrightarrow> n + byte_run P (drop n s) \<le> length s"
  using byte_run_le [of P "drop n s"] by simp

lemma utf8_run_tail: "s1 \<noteq> [] \<Longrightarrow> 1 + utf8_run P s1 \<le> Suc (length s1)"
  by simp

lemma piece_len_le [simp]: "piece_len s \<le> length s"
proof (cases s)
  case (Cons c s1)
  let ?sp = "let (p, l) = space_scan s 0 0 in
      if l \<noteq> 0 then l
      else if p < length s \<and> p > 1 \<and>
        (joyai_letter_like_at (drop p s) \<or> joyai_ascii_punct_symbol (s ! p)) then p - 1
      else p"
  have sp: "?sp \<le> length s"
  proof (cases "space_scan s 0 0")
    case (Pair q m)
    then show ?thesis
      using space_scan_bounds [OF Pair] by auto
  qed
  have b: "byte_run P s1 \<le> length s1" and u: "utf8_run P' s1 \<le> length s1" for P P'
    by simp_all
  have d: "1 + byte_run P s1 + byte_run Q (drop (1 + byte_run P s1) s) \<le> length s" for P Q
    using b [of P] by (intro byte_run_drop) (simp add: Cons)
  have e: "byte_run P s + byte_run Q (drop (byte_run P s) s) \<le> length s" for P Q
    by (intro byte_run_drop) simp
  have f: "next_utf8_char s + utf8_run P (drop (next_utf8_char s) s) \<le> length s" for P
    by (intro utf8_run_drop) simp
  have g: "1 + byte_run P s1 \<le> length s" "1 + utf8_run P' s1 \<le> length s" for P P'
    using b u by (simp_all add: Cons)
  have h: "min 3 (byte_run P s) \<le> length s" for P
    by (rule min.coboundedI2) simp
  have sel: "(if n = 0 then next_utf8_char s else n) \<le> length s" if "n \<le> length s" for n
    using that by simp
  show ?thesis
    unfolding piece_len_def joyai_consume_letters_def
    by (subst (1) Cons, simp only: list.case Let_def, rule sel,
        intro sp [unfolded Let_def] d e f g h utf8_run_le next_utf8_char_le
          if_splits [where P = "\<lambda>n. n \<le> length s", THEN iffD2] conjI impI)
qed (simp add: piece_len_def)

lemma piece_len_pos: "s \<noteq> [] \<Longrightarrow> 0 < piece_len s"
  using next_utf8_char_pos [of s]
  by (cases s) (simp_all add: piece_len_def Let_def del: One_nat_def)


subsection \<open>Tokenizing a text\<close>

function bpe_tokenize_text :: "sf37_vocab \<Rightarrow> bytes \<Rightarrow> tokens \<Rightarrow> tokens" where
  "bpe_tokenize_text vocab text out =
     (if text = [] then out
      else bpe_tokenize_text vocab (drop (piece_len text) text)
             (bpe_emit_piece vocab (take (piece_len text) text) out))"
  by pat_completeness auto
termination
proof (relation "measure (\<lambda>(v, text, out). length text)")
  fix vocab and s :: bytes and out :: tokens
  assume "s \<noteq> []"
  then show "((vocab, drop (piece_len s) s, bpe_emit_piece vocab (take (piece_len s) s) out),
      (vocab, s, out)) \<in> measure (\<lambda>(v, text, out). length text)"
    using piece_len_pos [of s] by (cases s) auto
qed simp

declare bpe_tokenize_text.simps [simp del]

text \<open>\<open>strncmp(s, t, n) == 0\<close> on C strings, the end of a list being the terminator.\<close>

fun strncmp_eq :: "bytes \<Rightarrow> bytes \<Rightarrow> nat \<Rightarrow> bool" where
  "strncmp_eq s t 0 = True"
| "strncmp_eq s t (Suc n) =
     (let a = (case s of [] \<Rightarrow> 0 | c # _ \<Rightarrow> c); b = (case t of [] \<Rightarrow> 0 | c # _ \<Rightarrow> c)
      in a = b \<and> (a = 0 \<or> strncmp_eq (tl s) (tl t) n))"

text \<open>The longest added token at \<open>p\<close>; the first of the longest wins. The accumulator
  is \<open>(best, best_len)\<close>.\<close>

fun added_token_scan :: "sf37_added_token list \<Rightarrow> bytes \<Rightarrow> int \<times> nat \<Rightarrow> int \<times> nat" where
  "added_token_scan [] p best = best"
| "added_token_scan (a # as) p best =
     added_token_scan as p
       (if length (at_text a) > snd best \<and> length (at_text a) > 0 \<and>
           strncmp_eq p (at_text a) (length (at_text a))
        then (at_id a, length (at_text a)) else best)"

definition added_token_at :: "sf37_vocab \<Rightarrow> bytes \<Rightarrow> (int \<times> nat) option" where
  "added_token_at vocab p =
     (let best = added_token_scan (vc_added vocab) p (-1, 0)
      in if fst best \<ge> 0 then Some best else None)"

definition tokenize_span :: "sf37_vocab \<Rightarrow> bytes \<Rightarrow> tokens \<Rightarrow> tokens" where
  "tokenize_span vocab p out = (if p = [] then out else bpe_tokenize_text vocab p out)"

lemma added_token_scan_pos:
  "(0 \<le> fst best \<longrightarrow> 0 < snd best) \<Longrightarrow>
   0 \<le> fst (added_token_scan as p best) \<longrightarrow> 0 < snd (added_token_scan as p best)"
  by (induction as p best rule: added_token_scan.induct) auto

lemma added_token_at_pos: "added_token_at vocab p = Some (t, n) \<Longrightarrow> 0 < n"
  using added_token_scan_pos [of "(-1, 0)" "vc_added vocab" p]
  by (auto simp: added_token_at_def Let_def split: if_splits)

text \<open>The scan over a rendered chat: \<open>span\<close> is the text since the last added token,
  \<open>p\<close> the text still to be read.\<close>

function tokenize_rendered_loop ::
  "sf37_vocab \<Rightarrow> bytes \<Rightarrow> bytes \<Rightarrow> tokens \<Rightarrow> tokens" where
  "tokenize_rendered_loop vocab span p out =
     (case p of
        [] \<Rightarrow> tokenize_span vocab span out
      | c # p1 \<Rightarrow>
         (case added_token_at vocab p of
            Some (token, n) \<Rightarrow>
              tokenize_rendered_loop vocab [] (drop n p)
                (sf37_tokens_push (tokenize_span vocab span out) token)
          | None \<Rightarrow> tokenize_rendered_loop vocab (span @ [c]) p1 out))"
  by pat_completeness auto
termination
  by (relation "measure (\<lambda>(v, span, p, out). length p)") (auto dest!: added_token_at_pos)

declare tokenize_rendered_loop.simps [simp del]

definition tokenize_rendered_chat_vocab :: "sf37_vocab \<Rightarrow> bytes \<Rightarrow> tokens \<Rightarrow> tokens" where
  "tokenize_rendered_chat_vocab vocab text out = tokenize_rendered_loop vocab [] text out"

subsection \<open>The public entry points\<close>

text \<open>The engine is its vocabulary here; \<open>e == NULL\<close> is the caller's error case \<open>None\<close>.
  A NULL string argument is \<open>None\<close>.\<close>

definition sf37_tokenizer_ready :: "sf37_vocab option \<Rightarrow> bool" where
  "sf37_tokenizer_ready e = (case e of None \<Rightarrow> False | Some v \<Rightarrow> vc_ready v)"

definition sf37_tokenize_text :: "sf37_vocab option \<Rightarrow> bytes \<Rightarrow> tokens \<Rightarrow> tokens" where
  "sf37_tokenize_text e text out =
     (case e of None \<Rightarrow> out
      | Some v \<Rightarrow> if \<not> vc_ready v then out
          else bpe_tokenize_text v text (sf37_tokens_push out (vc_bos_id v)))"

definition sf37_tokenize_rendered_chat :: "sf37_vocab option \<Rightarrow> bytes \<Rightarrow> tokens \<Rightarrow> tokens" where
  "sf37_tokenize_rendered_chat e text out =
     (case e of None \<Rightarrow> out
      | Some v \<Rightarrow> if \<not> vc_ready v then out else tokenize_rendered_chat_vocab v text out)"

definition sf37_chat_begin :: "sf37_vocab option \<Rightarrow> tokens \<Rightarrow> tokens" where
  "sf37_chat_begin e tv =
     (case e of None \<Rightarrow> tv
      | Some v \<Rightarrow> if \<not> vc_ready v then tv else sf37_tokens_push tv (vc_bos_id v))"

definition chat_message_text :: "bytes option \<Rightarrow> bytes option \<Rightarrow> bytes" where
  "chat_message_text role content =
     (let r = (case role of None \<Rightarrow> cstr ''user'' | Some r \<Rightarrow> if r = [] then cstr ''user'' else r);
          c = (case content of None \<Rightarrow> [] | Some c \<Rightarrow> c)
      in cstr ''<|im_start|>'' @ r @ [0x0a] @ c @ cstr ''<|im_end|>'' @ [0x0a])"

definition sf37_chat_append_message ::
  "sf37_vocab option \<Rightarrow> tokens \<Rightarrow> bytes option \<Rightarrow> bytes option \<Rightarrow> tokens" where
  "sf37_chat_append_message e tv role content =
     (case e of None \<Rightarrow> tv
      | Some v \<Rightarrow> if \<not> vc_ready v then tv
          else tokenize_rendered_chat_vocab v (chat_message_text role content) tv)"

definition assistant_prefix_text :: "bool \<Rightarrow> bytes" where
  "assistant_prefix_text think =
     (if think then cstr ''<|im_start|>assistant'' @ [0x0a] @ cstr ''<think>'' @ [0x0a]
      else cstr ''<|im_start|>assistant'' @ [0x0a])"

definition sf37_chat_append_assistant_prefix ::
  "sf37_vocab option \<Rightarrow> tokens \<Rightarrow> bool \<Rightarrow> tokens" where
  "sf37_chat_append_assistant_prefix e tv think =
     (case e of None \<Rightarrow> tv
      | Some v \<Rightarrow> if \<not> vc_ready v then tv
          else tokenize_rendered_chat_vocab v (assistant_prefix_text think) tv)"

definition sf37_encode_chat_prompt ::
  "sf37_vocab option \<Rightarrow> bytes option \<Rightarrow> bytes option \<Rightarrow> bool \<Rightarrow> tokens \<Rightarrow> tokens" where
  "sf37_encode_chat_prompt e system prompt think out =
     (case e of None \<Rightarrow> out
      | Some v \<Rightarrow> if \<not> vc_ready v then out
          else
            (let o1 = sf37_chat_begin e out;
                 o2 = (case system of
                         None \<Rightarrow> o1
                       | Some s \<Rightarrow> if s = [] then o1
                           else sf37_chat_append_message e o1 (Some (cstr ''system'')) (Some s));
                 o3 = sf37_chat_append_message e o2 (Some (cstr ''user''))
                        (Some (case prompt of None \<Rightarrow> [] | Some p \<Rightarrow> p))
             in sf37_chat_append_assistant_prefix e o3 think))"

definition token_is_added :: "sf37_vocab \<Rightarrow> int \<Rightarrow> bool" where
  "token_is_added vocab token \<longleftrightarrow> (\<exists>a \<in> set (vc_added vocab). at_id a = token)"

definition sf37_token_text :: "sf37_vocab option \<Rightarrow> int \<Rightarrow> bytes" where
  "sf37_token_text e token =
     (case e of None \<Rightarrow> []
      | Some v \<Rightarrow>
          if \<not> vc_ready v \<or> token < 0 \<or> token \<ge> int (length (vc_token v)) then []
          else (case vc_token v ! nat token of
                  None \<Rightarrow> []
                | Some src \<Rightarrow>
                    if token_is_added v token then src else token_decode_loop src))"

definition sf37_token_bos :: "sf37_vocab option \<Rightarrow> int" where
  "sf37_token_bos e = (case e of Some v \<Rightarrow> if vc_ready v then vc_bos_id v else -1 | None \<Rightarrow> -1)"

definition sf37_token_eos :: "sf37_vocab option \<Rightarrow> int" where
  "sf37_token_eos e = (case e of Some v \<Rightarrow> if vc_ready v then vc_eos_id v else -1 | None \<Rightarrow> -1)"

definition sf37_token_im_start :: "sf37_vocab option \<Rightarrow> int" where
  "sf37_token_im_start e =
     (case e of Some v \<Rightarrow> if vc_ready v then vc_im_start_id v else -1 | None \<Rightarrow> -1)"

definition sf37_token_im_end :: "sf37_vocab option \<Rightarrow> int" where
  "sf37_token_im_end e =
     (case e of Some v \<Rightarrow> if vc_ready v then vc_im_end_id v else -1 | None \<Rightarrow> -1)"

definition sf37_token_im_patch :: "sf37_vocab option \<Rightarrow> int" where
  "sf37_token_im_patch e =
     (case e of Some v \<Rightarrow> if vc_ready v then vc_im_patch_id v else -1 | None \<Rightarrow> -1)"

lemma bpe_best_rank:
  "fst (bpe_best vocab i syms best) = Some j \<Longrightarrow>
   fst best = Some j \<or> i \<le> j \<and> bpe_rank vocab (syms ! (j - i)) (syms ! (j - i + 1)) \<ge> 0"
proof (induction vocab i syms best rule: bpe_best.induct)
  case (1 vocab i a b syms best)
  let ?best = "if bpe_rank vocab a b \<ge> 0 \<and> bpe_rank vocab a b < snd best
    then (Some i, bpe_rank vocab a b) else best"
  have "fst ?best = Some j \<or> i + 1 \<le> j \<and>
      bpe_rank vocab ((b # syms) ! (j - (i + 1))) ((b # syms) ! (j - (i + 1) + 1)) \<ge> 0"
    by (rule "1.IH" [OF refl]) (use "1.prems" in \<open>simp add: Let_def\<close>)
  then consider "fst ?best = Some j" | "i + 1 \<le> j"
      "bpe_rank vocab ((b # syms) ! (j - (i + 1))) ((b # syms) ! (j - (i + 1) + 1)) \<ge> 0"
    by blast
  then show ?case
  proof cases
    case 2
    then have "j - i = Suc (j - (i + 1))" by simp
    with 2 show ?thesis by simp
  qed (auto split: if_splits)
qed auto

subsection \<open>Well-formed vocabularies\<close>

text \<open>What a byte-level BPE tokenizer file provides: a token for every byte of the alphabet,
  ids that lead back to their spelling, merges whose result is a token, and added tokens
  that are spelled literally.\<close>

definition vocab_ok :: "sf37_vocab \<Rightarrow> bool" where
  "vocab_ok v \<longleftrightarrow>
     vc_ready v \<and>
     (\<forall>b. table_get (vc_token_to_id v) (byte_symbol b) \<noteq> None) \<and>
     (\<forall>s t. table_get (vc_token_to_id v) s = Some t \<longrightarrow>
        0 \<le> t \<and> t < int (length (vc_token v)) \<and> vc_token v ! nat t = Some s) \<and>
     (\<forall>a b. 0 \<le> bpe_rank v a b \<longrightarrow> table_get (vc_token_to_id v) (a @ b) \<noteq> None) \<and>
     (\<forall>a \<in> set (vc_added v).
        0 \<le> at_id a \<and> at_id a < int (length (vc_token v)) \<and>
        vc_token v ! nat (at_id a) = Some (at_text a) \<and>
        0 \<notin> set (at_text a) \<and> token_decode_loop (at_text a) = at_text a)"

definition spelled :: "sf37_vocab \<Rightarrow> bytes \<Rightarrow> bool" where
  "spelled v s \<longleftrightarrow> table_get (vc_token_to_id v) s \<noteq> None"

lemma vocab_ok_byte: "vocab_ok v \<Longrightarrow> spelled v (byte_symbol b)"
  by (simp add: vocab_ok_def spelled_def)

lemma vocab_ok_merge: "vocab_ok v \<Longrightarrow> 0 \<le> bpe_rank v a b \<Longrightarrow> spelled v (a @ b)"
  by (simp add: vocab_ok_def spelled_def)

lemma vocab_ok_text:
  assumes "vocab_ok v" and "table_get (vc_token_to_id v) s = Some t"
  shows "sf37_token_text (Some v) t = token_decode_loop s"
proof -
  have t: "vc_ready v" "0 \<le> t" "t < int (length (vc_token v))" "vc_token v ! nat t = Some s"
    using assms by (auto simp: vocab_ok_def)
  have "token_decode_loop s = s" if "token_is_added v t"
    using assms(1) that t(4) by (auto simp: vocab_ok_def token_is_added_def)
  with t show ?thesis
    by (simp add: sf37_token_text_def)
qed

lemma vocab_ok_added:
  assumes "vocab_ok v" and "a \<in> set (vc_added v)"
  shows "sf37_token_text (Some v) (at_id a) = at_text a"
proof -
  have t: "vc_ready v" "0 \<le> at_id a" "at_id a < int (length (vc_token v))"
    "vc_token v ! nat (at_id a) = Some (at_text a)" "token_is_added v (at_id a)"
    using assms by (auto simp: vocab_ok_def token_is_added_def)
  then show ?thesis
    by (simp add: sf37_token_text_def)
qed

subsection \<open>Symbols and merges keep the piece\<close>

lemma bpe_symbols_byte_encode: "bpe_symbols (byte_encode s) = map byte_symbol s"
proof (induction s)
  case (Cons b s)
  then show ?case
    by (subst bpe_symbols.simps) simp
qed (subst bpe_symbols.simps, simp)

text \<open>The symbols of a piece are the spellings of consecutive parts of it, all of them in
  the vocabulary.\<close>

definition covers :: "sf37_vocab \<Rightarrow> bytes \<Rightarrow> bytes list \<Rightarrow> bool" where
  "covers v raw syms \<longleftrightarrow>
     (\<exists>ps. syms = map byte_encode ps \<and> concat ps = raw) \<and> (\<forall>s \<in> set syms. spelled v s)"

lemma covers_init: "vocab_ok v \<Longrightarrow> covers v raw (bpe_symbols (byte_encode raw))"
  unfolding covers_def bpe_symbols_byte_encode
  by (auto simp: vocab_ok_byte intro!: exI [of _ "map (\<lambda>b. [b]) raw"])

lemma nth_split2: "i + 1 < length xs \<Longrightarrow> xs = take i xs @ xs ! i # xs ! (i + 1) # drop (i + 2) xs"
  by (metis Cons_nth_drop_Suc Suc_eq_plus1 Suc_lessD add_2_eq_Suc' append_take_drop_id)

lemma covers_merge:
  assumes "vocab_ok v" and "covers v raw syms"
    and "fst (bpe_best v 0 syms (None, INT_MAX)) = Some i"
  shows "covers v raw (bpe_merge_at i syms)"
proof -
  have i: "i + 1 < length syms" "0 \<le> bpe_rank v (syms ! i) (syms ! (i + 1))"
    using bpe_best_index [OF assms(3)] bpe_best_rank [OF assms(3)] by auto
  obtain ps where ps: "syms = map byte_encode ps" "concat ps = raw"
    using assms(2) by (auto simp: covers_def)
  define qs where "qs = take i ps @ (ps ! i @ ps ! (i + 1)) # drop (i + 2) ps"
  have "bpe_merge_at i syms = map byte_encode qs"
    using i(1) by (simp add: bpe_merge_at_def qs_def ps(1) take_map drop_map)
  moreover have "concat qs = raw"
  proof -
    have "i + 1 < length ps"
      using i(1) by (simp add: ps(1))
    then have "concat ps = concat (take i ps @ ps ! i # ps ! (i + 1) # drop (i + 2) ps)"
      using nth_split2 [of i ps] by metis
    then show ?thesis
      by (simp add: qs_def ps(2))
  qed
  moreover have "\<forall>s \<in> set (bpe_merge_at i syms). spelled v s"
    using assms(2) vocab_ok_merge [OF assms(1) i(2)]
    by (auto simp: bpe_merge_at_def covers_def dest: in_set_takeD in_set_dropD)
  ultimately show ?thesis
    by (auto simp: covers_def)
qed

lemma covers_loop: "vocab_ok v \<Longrightarrow> covers v raw syms \<Longrightarrow> covers v raw (bpe_merge_loop v syms)"
proof (induction v syms rule: bpe_merge_loop.induct)
  case (1 v syms)
  then show ?case
    by (subst bpe_merge_loop.simps) (auto split: option.split intro: covers_merge)
qed

definition tokens_text :: "sf37_vocab \<Rightarrow> tokens \<Rightarrow> bytes" where
  "tokens_text v ts = concat (map (sf37_token_text (Some v)) ts)"

lemma tokens_text_simps [simp]:
  "tokens_text v [] = []"
  "tokens_text v (t # ts) = sf37_token_text (Some v) t @ tokens_text v ts"
  "tokens_text v (ts @ us) = tokens_text v ts @ tokens_text v us"
  by (simp_all add: tokens_text_def)

lemma symbol_tokens_text:
  assumes "vocab_ok v" and "spelled v (byte_encode p)"
  shows "tokens_text v (bpe_symbol_tokens v (byte_encode p)) = p"
proof -
  obtain t where t: "table_get (vc_token_to_id v) (byte_encode p) = Some t"
    using assms(2) by (auto simp: spelled_def)
  have "token_decode_loop (byte_encode p) = p"
    using token_decode_byte_encode_append [of p "[]"] by simp
  then show ?thesis
    by (simp add: bpe_symbol_tokens_def t vocab_ok_text [OF assms(1) t])
qed

lemma emit_piece_text:
  assumes "vocab_ok v"
  shows "tokens_text v (bpe_emit_piece v raw out) = tokens_text v out @ raw"
proof -
  obtain ps where ps: "bpe_merge_loop v (bpe_symbols (byte_encode raw)) = map byte_encode ps"
    "concat ps = raw" "\<forall>p \<in> set ps. spelled v (byte_encode p)"
    using covers_loop [OF assms covers_init [OF assms], of raw] by (auto simp: covers_def)
  have "tokens_text v (concat (map (bpe_symbol_tokens v) (map byte_encode ps))) = concat ps"
    using ps(3) by (induction ps) (auto simp: symbol_tokens_text [OF assms])
  then show ?thesis
    using ps(1,2) by (simp add: bpe_emit_piece_def)
qed

lemma tokenize_text_text:
  "vocab_ok v \<Longrightarrow> tokens_text v (bpe_tokenize_text v s out) = tokens_text v out @ s"
proof (induction v s out rule: bpe_tokenize_text.induct)
  case (1 v s out)
  then show ?case
    by (subst bpe_tokenize_text.simps) (simp add: emit_piece_text)
qed

lemma tokenize_span_text [simp]:
  "vocab_ok v \<Longrightarrow> tokens_text v (tokenize_span v s out) = tokens_text v out @ s"
  by (simp add: tokenize_span_def tokenize_text_text)

subsection \<open>Added tokens\<close>

lemma strncmp_eq_prefix:
  "0 \<notin> set t \<Longrightarrow> strncmp_eq s t (length t) \<longleftrightarrow> take (length t) s = t"
proof (induction t arbitrary: s)
  case (Cons c t)
  then show ?case
    by (cases s) (auto simp: Let_def)
qed simp

lemma added_token_scan_cases:
  "added_token_scan as p best = best \<or>
   (\<exists>a \<in> set as. added_token_scan as p best = (at_id a, length (at_text a)) \<and>
      strncmp_eq p (at_text a) (length (at_text a)))"
proof (induction as p best rule: added_token_scan.induct)
  case (2 a as p best)
  then show ?case
    by (auto split: if_splits)
qed simp

lemma added_token_at_text:
  assumes "vocab_ok v" and "added_token_at v p = Some (t, n)"
  shows "sf37_token_text (Some v) t = take n p"
proof -
  have *: "added_token_scan (vc_added v) p (-1, 0) = (t, n)" "0 \<le> t"
    using assms(2) by (auto simp: added_token_at_def Let_def split: if_splits)
  then obtain a where a: "a \<in> set (vc_added v)" "t = at_id a" "n = length (at_text a)"
    "strncmp_eq p (at_text a) n"
    using added_token_scan_cases [of "vc_added v" p "(-1, 0)"] by auto
  have "0 \<notin> set (at_text a)"
    using a(1) assms(1) by (simp add: vocab_ok_def)
  then show ?thesis
    using vocab_ok_added [OF assms(1) a(1)] a strncmp_eq_prefix by simp
qed

lemma rendered_loop_text:
  "vocab_ok v \<Longrightarrow>
   tokens_text v (tokenize_rendered_loop v span p out) = tokens_text v out @ span @ p"
proof (induction v span p out rule: tokenize_rendered_loop.induct)
  case (1 v span p out)
  show ?case
  proof (cases p)
    case (Cons c p1)
    show ?thesis
    proof (cases "added_token_at v p")
      case None
      then show ?thesis
        using 1 Cons by (subst tokenize_rendered_loop.simps) simp
    next
      case (Some tn)
      then obtain t n where tn: "added_token_at v p = Some (t, n)"
        by (cases tn) auto
      note IH = "1.IH"(2) [OF Cons tn refl "1.prems"]
      show ?thesis
        by (subst tokenize_rendered_loop.simps)
          (use IH tn in \<open>simp add: Cons sf37_tokens_push_def "1.prems"
              added_token_at_text [OF "1.prems" tn [unfolded Cons]]\<close>)
    qed
  qed (use "1.prems" in \<open>subst tokenize_rendered_loop.simps, simp\<close>)
qed

subsection \<open>The merge loop\<close>

lemma bpe_best_snd:
  "snd (bpe_best vocab i syms best) \<le> snd best \<and>
   (\<forall>k. k + 1 < length syms \<longrightarrow> 0 \<le> bpe_rank vocab (syms ! k) (syms ! (k + 1)) \<longrightarrow>
      snd (bpe_best vocab i syms best) \<le> bpe_rank vocab (syms ! k) (syms ! (k + 1)))"
proof (induction vocab i syms best rule: bpe_best.induct)
  case (1 vocab i a b syms best)
  let ?r = "bpe_rank vocab a b"
  let ?best = "if ?r \<ge> 0 \<and> ?r < snd best then (Some i, ?r) else best"
  have IH: "snd (bpe_best vocab (i + 1) (b # syms) ?best) \<le> snd ?best"
    "\<And>k. k + 1 < length (b # syms) \<Longrightarrow> 0 \<le> bpe_rank vocab ((b # syms) ! k) ((b # syms) ! (k + 1)) \<Longrightarrow>
      snd (bpe_best vocab (i + 1) (b # syms) ?best)
        \<le> bpe_rank vocab ((b # syms) ! k) ((b # syms) ! (k + 1))"
    using "1.IH" [OF refl] by blast+
  have le: "snd ?best \<le> snd best" "0 \<le> ?r \<Longrightarrow> snd ?best \<le> ?r"
    by auto
  have "snd (bpe_best vocab i (a # b # syms) best)
      \<le> bpe_rank vocab ((a # b # syms) ! k) ((a # b # syms) ! (k + 1))"
    if "k + 1 < length (a # b # syms)" "0 \<le> bpe_rank vocab ((a # b # syms) ! k) ((a # b # syms) ! (k + 1))" for k
  proof (cases k)
    case 0
    then show ?thesis
      using IH(1) le that(2) by (simp add: Let_def)
  next
    case (Suc k')
    then show ?thesis
      using IH(2) [of k'] that by (simp add: Let_def)
  qed
  then show ?case
    using IH(1) le(1) by (simp add: Let_def)
qed simp_all

lemma bpe_best_None:
  "fst (bpe_best vocab i syms best) = None \<Longrightarrow> bpe_best vocab i syms best = best"
proof (induction vocab i syms best rule: bpe_best.induct)
  case (1 vocab i a b syms best)
  show ?case
    using "1.IH" [OF refl] "1.prems" by (auto simp: Let_def split: if_splits)
qed simp_all

definition merge_normal :: "sf37_vocab \<Rightarrow> bytes list \<Rightarrow> bool" where
  "merge_normal v syms \<longleftrightarrow>
     list_all (\<lambda>k. \<not> (0 \<le> bpe_rank v (syms ! k) (syms ! (k + 1)) \<and>
                     bpe_rank v (syms ! k) (syms ! (k + 1)) < INT_MAX)) [0..<length syms - 1]"

lemma bpe_best_None_normal:
  assumes "fst (bpe_best v 0 syms (None, INT_MAX)) = None"
  shows "merge_normal v syms"
proof -
  have "INT_MAX \<le> bpe_rank v (syms ! k) (syms ! (k + 1))"
    if "k + 1 < length syms" "0 \<le> bpe_rank v (syms ! k) (syms ! (k + 1))" for k
    using bpe_best_None [OF assms] bpe_best_snd [of v 0 syms "(None, INT_MAX)"] that by auto
  then show ?thesis
    by (auto simp: merge_normal_def list_all_iff not_less)
qed

lemma concat_merge_at:
  "i + 1 < length syms \<Longrightarrow> concat (bpe_merge_at i syms) = concat syms"
  using arg_cong [OF nth_split2 [of i syms], of concat] by (simp add: bpe_merge_at_def)

lemma bpe_merge_loop_result:
  "concat (bpe_merge_loop v syms) = concat syms \<and> merge_normal v (bpe_merge_loop v syms)"
proof (induction v syms rule: bpe_merge_loop.induct)
  case (1 v syms)
  show ?case
  proof (cases "fst (bpe_best v 0 syms (None, INT_MAX))")
    case None
    then show ?thesis
      by (subst (1 2) bpe_merge_loop.simps) (simp add: bpe_best_None_normal)
  next
    case (Some i)
    then have "i + 1 < length syms"
      using bpe_best_index [of v 0 syms "(None, INT_MAX)" i] by simp
    then show ?thesis
      using 1 [OF Some] Some by (subst (1 2) bpe_merge_loop.simps) (simp add: concat_merge_at)
  qed
qed

lemma bpe_best_first:
  "bpe_best vocab i syms best = (Some j, r) \<Longrightarrow> fst best = Some j \<and> r = snd best \<or>
     i \<le> j \<and> r = bpe_rank vocab (syms ! (j - i)) (syms ! (j - i + 1)) \<and> 0 \<le> r \<and> r < snd best \<and>
     (\<forall>k<j - i. 0 \<le> bpe_rank vocab (syms ! k) (syms ! (k + 1)) \<longrightarrow>
        r < bpe_rank vocab (syms ! k) (syms ! (k + 1)))"
proof (induction vocab i syms best rule: bpe_best.induct)
  case (1 vocab i a b syms best)
  let ?r = "bpe_rank vocab a b"
  let ?best = "if ?r \<ge> 0 \<and> ?r < snd best then (Some i, ?r) else best"
  have "bpe_best vocab (i + 1) (b # syms) ?best = (Some j, r)"
    using "1.prems" by (simp add: Let_def)
  from "1.IH" [OF refl this] consider
    (old) "fst ?best = Some j" "r = snd ?best"
  | (new) "i + 1 \<le> j" "r = bpe_rank vocab ((b # syms) ! (j - (i + 1))) ((b # syms) ! (j - (i + 1) + 1))"
      "0 \<le> r" "r < snd ?best"
      "\<forall>k<j - (i + 1). 0 \<le> bpe_rank vocab ((b # syms) ! k) ((b # syms) ! (k + 1)) \<longrightarrow>
        r < bpe_rank vocab ((b # syms) ! k) ((b # syms) ! (k + 1))"
    by blast
  then show ?case
  proof cases
    case new
    then have j: "j - i = Suc (j - (i + 1))"
      by simp
    have "r < bpe_rank vocab ((a # b # syms) ! k) ((a # b # syms) ! (k + 1))"
      if "k < j - i" "0 \<le> bpe_rank vocab ((a # b # syms) ! k) ((a # b # syms) ! (k + 1))" for k
      using that new(4,5) j by (cases k) (auto split: if_splits)
    moreover have "r < snd best"
      using new(4) by (auto split: if_splits)
    ultimately show ?thesis
      using new j by auto
  qed (auto split: if_splits)
qed auto

subsection \<open>A small vocabulary\<close>

text \<open>The 256 byte tokens, one merge and one added token; the witnesses use it.\<close>

definition demo_strings :: "bytes list" where
  "demo_strings = map (\<lambda>n. byte_symbol (of_nat n)) [0..<256] @ [cstr ''hi'', cstr ''<|im_start|>'']"

definition demo_ids :: "(bytes \<times> int) list" where
  "demo_ids = zip demo_strings (map int [0..<length demo_strings])"

definition filled_table :: "(bytes \<times> int) list \<Rightarrow> str_table" where
  "filled_table ps = the (Option.bind (table_init (of_nat (length ps))) (\<lambda>t. put_seq table_put t ps))"

definition demo_vocab :: sf37_vocab where
  "demo_vocab = \<lparr>vc_token = map Some demo_strings, vc_bos_id = 257, vc_eos_id = 257,
     vc_im_start_id = 257, vc_im_end_id = 257, vc_think_start_id = -1, vc_think_end_id = -1,
     vc_im_patch_id = -1, vc_added = [\<lparr>at_text = cstr ''<|im_start|>'', at_id = 257\<rparr>],
     vc_token_to_id = filled_table demo_ids,
     vc_merge_rank = filled_table [(cstr ''h i'', 0)], vc_ready = True\<rparr>"

lemma filled_table_get:
  assumes "length ps < 2 ^ 60"
  shows "table_get (filled_table ps) = map_of (rev ps)"
proof -
  have u: "unat (of_nat (length ps) :: u64) = length ps"
    using assms by (simp add: unat_of_nat)
  obtain t where t: "table_init (of_nat (length ps)) = Some t" "table_ok t"
    "length ps * 2 + 16 \<le> table_free t" "\<And>k v. \<not> table_assoc t k v"
    using table_init_correct [of "of_nat (length ps)"] assms u by auto
  have "length ps < table_free t"
    using t(3) by simp
  then obtain t' where "put_seq table_put t ps = Some t'"
    "table_get t' = table_get t ++ map_of (rev ps)"
    using tbl.put_seq_correct [OF t(2)] by blast
  moreover have "table_get t = Map.empty"
    using t(2-4) by (intro table_get_fresh) auto
  ultimately show ?thesis
    using t(1) by (simp add: filled_table_def)
qed

lemma length_demo_strings: "length demo_strings = 258"
  by (simp add: demo_strings_def)

lemma demo_get: "table_get (vc_token_to_id demo_vocab) = map_of (rev demo_ids)"
  unfolding demo_vocab_def
  by (simp add: filled_table_get demo_ids_def length_demo_strings)

lemma demo_rank: "table_get (vc_merge_rank demo_vocab) = [cstr ''h i'' \<mapsto> 0]"
  unfolding demo_vocab_def by (simp add: filled_table_get)

lemma demo_ids_spelled:
  assumes "s \<in> set demo_strings"
  shows "map_of (rev demo_ids) s \<noteq> None"
proof -
  have "set (map fst demo_ids) = set demo_strings"
    by (simp add: demo_ids_def)
  then show ?thesis
    using assms by (simp add: map_of_eq_None_iff)
qed

lemma demo_ids_id:
  assumes "map_of (rev demo_ids) s = Some t"
  shows "0 \<le> t \<and> t < 258 \<and> demo_strings ! nat t = s"
proof -
  have "(s, t) \<in> set demo_ids"
    using map_of_SomeD [OF assms] by simp
  then show ?thesis
    by (auto simp: demo_ids_def in_set_zip length_demo_strings)
qed

lemma demo_rank_pair:
  assumes "0 \<le> bpe_rank demo_vocab a b"
  shows "a = cstr ''h'' \<and> b = cstr ''i''"
proof -
  have "a @ [0x20] @ b = cstr ''h i''"
    using assms by (simp add: bpe_rank_def demo_rank split: if_splits)
  then show ?thesis
    by (cases a; cases "tl a"; cases "tl (tl a)") auto
qed

lemma byte_symbol_demo: "byte_symbol b \<in> set demo_strings"
  using unat_byte_less [of b] by (auto simp: demo_strings_def intro!: image_eqI [of _ _ "unat b"])

lemma demo_im_start: "demo_strings ! 257 = cstr ''<|im_start|>''"
  by (simp add: demo_strings_def nth_append)

lemma demo_vocab_ok: "vocab_ok demo_vocab"
proof -
  have hi: "cstr ''hi'' \<in> set demo_strings"
    by (simp only: demo_strings_def) simp
  have dec: "token_decode_loop (cstr ''<|im_start|>'') = cstr ''<|im_start|>''"
    by code_simp
  have "table_get (vc_token_to_id demo_vocab) (a @ b) \<noteq> None" if "0 \<le> bpe_rank demo_vocab a b" for a b
    using demo_rank_pair [OF that] demo_ids_spelled [OF hi] by (simp add: demo_get)
  moreover have "table_get (vc_token_to_id demo_vocab) (byte_symbol b) \<noteq> None" for b
    unfolding demo_get by (rule demo_ids_spelled [OF byte_symbol_demo])
  moreover have "0 \<le> t \<and> t < int (length (vc_token demo_vocab)) \<and> vc_token demo_vocab ! nat t = Some s"
    if "table_get (vc_token_to_id demo_vocab) s = Some t" for s t
    using demo_ids_id [of s t] that nth_map [of "nat t" demo_strings Some] unfolding demo_get
    by (auto simp: demo_vocab_def length_demo_strings nat_less_iff)
  moreover have "vc_ready demo_vocab"
    by (simp add: demo_vocab_def)
  moreover have "\<forall>a \<in> set (vc_added demo_vocab).
      0 \<le> at_id a \<and> at_id a < int (length (vc_token demo_vocab)) \<and>
      vc_token demo_vocab ! nat (at_id a) = Some (at_text a) \<and>
      0 \<notin> set (at_text a) \<and> token_decode_loop (at_text a) = at_text a"
    using dec demo_im_start by (simp add: demo_vocab_def length_demo_strings)
  ultimately show ?thesis
    unfolding vocab_ok_def by blast
qed

subsection \<open>Properties\<close>

text \<open>C36: tokenizing a text loses nothing: over a well-formed byte-level vocabulary, the
  texts of the tokens that \<open>sf37_tokenize_text\<close> appends after the beginning-of-sentence
  token concatenate to the input, whatever bytes it holds.\<close>

theorem tokenize_text_lossless:
  assumes "vocab_ok v"
  shows "tokens_text v (sf37_tokenize_text (Some v) s out) =
    tokens_text v out @ sf37_token_text (Some v) (vc_bos_id v) @ s"
  using assms
  by (simp add: sf37_tokenize_text_def tokenize_text_text sf37_tokens_push_def vocab_ok_def)

theorem tokenize_text_lossless_witness:
  "tokens_text demo_vocab (sf37_tokenize_text (Some demo_vocab) (cstr ''hi there'') []) =
    cstr ''<|im_start|>hi there''"
proof -
  have "sf37_token_text (Some demo_vocab) (vc_bos_id demo_vocab) = cstr ''<|im_start|>''"
    using vocab_ok_added [OF demo_vocab_ok, of "\<lparr>at_text = cstr ''<|im_start|>'', at_id = 257\<rparr>"]
    by (simp add: demo_vocab_def)
  then show ?thesis
    using tokenize_text_lossless [OF demo_vocab_ok, of "cstr ''hi there''" "[]"] by simp
qed

text \<open>C37: the prompt that \<open>sf37_encode_chat_prompt\<close> builds decodes, token by token, to the
  rendered chat: the beginning of sentence, the system turn when there is one, the user
  turn and the assistant prefix, each with its markers; added tokens and ordinary
  pieces together lose no byte.\<close>

theorem encode_chat_prompt_text:
  assumes "vocab_ok v"
  shows "tokens_text v (sf37_encode_chat_prompt (Some v) system prompt think out) =
    tokens_text v out @ sf37_token_text (Some v) (vc_bos_id v) @
    (case system of None \<Rightarrow> [] | Some s \<Rightarrow>
       if s = [] then [] else chat_message_text (Some (cstr ''system'')) (Some s)) @
    chat_message_text (Some (cstr ''user'')) (Some (case prompt of None \<Rightarrow> [] | Some p \<Rightarrow> p)) @
    assistant_prefix_text think"
  using assms unfolding vocab_ok_def [of v]
  by (simp add: sf37_encode_chat_prompt_def sf37_chat_begin_def sf37_chat_append_message_def
      sf37_chat_append_assistant_prefix_def Let_def tokenize_rendered_chat_vocab_def
      rendered_loop_text assms sf37_tokens_push_def split: option.split)

theorem encode_chat_prompt_text_witness:
  "tokens_text demo_vocab (sf37_encode_chat_prompt (Some demo_vocab) None (Some (cstr ''hi'')) False []) =
    sf37_token_text (Some demo_vocab) 257 @
    chat_message_text (Some (cstr ''user'')) (Some (cstr ''hi'')) @ assistant_prefix_text False"
proof -
  have "vc_bos_id demo_vocab = 257"
    by (simp add: demo_vocab_def)
  then show ?thesis
    using encode_chat_prompt_text [OF demo_vocab_ok, of None "Some (cstr ''hi'')" False "[]"] by simp
qed

text \<open>the merge loop of \<open>bpe_emit_piece\<close> neither loses nor reorders bytes, and it stops
  only when no adjacent pair of symbols has a merge rank left.\<close>

theorem bpe_merge_loop_spec:
  "concat (bpe_merge_loop v syms) = concat syms \<and> merge_normal v (bpe_merge_loop v syms)"
  by (rule bpe_merge_loop_result)

text \<open>one scan of the merge loop picks the adjacent pair of least rank, the leftmost one
  when several pairs share it.\<close>

theorem bpe_best_spec:
  assumes "bpe_best v 0 syms (None, INT_MAX) = (Some j, r)"
  shows "j + 1 < length syms \<and> bpe_rank v (syms ! j) (syms ! (j + 1)) = r \<and> 0 \<le> r \<and>
    (\<forall>k. k + 1 < length syms \<and> 0 \<le> bpe_rank v (syms ! k) (syms ! (k + 1)) \<longrightarrow>
       r \<le> bpe_rank v (syms ! k) (syms ! (k + 1)) \<and>
       (k < j \<longrightarrow> r < bpe_rank v (syms ! k) (syms ! (k + 1))))"
  using bpe_best_first [OF assms] bpe_best_index [of v 0 syms "(None, INT_MAX)" j]
    bpe_best_snd [of v 0 syms "(None, INT_MAX)"] assms
  by auto

theorem bpe_best_spec_witness:
  "\<exists>r. bpe_best demo_vocab 0 [cstr ''h'', cstr ''h'', cstr ''i''] (None, INT_MAX) = (Some 1, r) \<and>
     bpe_rank demo_vocab (cstr ''h'') (cstr ''i'') = r"
proof -
  have "bpe_best demo_vocab 0 [cstr ''h'', cstr ''h'', cstr ''i''] (None, INT_MAX) = (Some 1, 0)"
    by (simp add: bpe_rank_def demo_rank INT_MAX_def)
  then show ?thesis
    using bpe_best_spec [of demo_vocab "[cstr ''h'', cstr ''h'', cstr ''i'']" 1 0] by simp
qed

end
