(* ===== verification/KvHeader.thy ===== *)
theory KvHeader
  imports Prelude
begin

section \<open>The header of a checkpoint file\<close>

text \<open>
  The little-endian codecs and the fixed 48-byte header of a \<open>.kv\<close> checkpoint file in
  \<open>sf37_kvstore.c\<close>, with the entry record, the reason codes and the key kinds of
  \<open>sf37_kvstore.h\<close>. A \<open>FILE\<close> that is being read is the list of the bytes from its
  position on, so \<open>fread\<close> of \<open>n\<close> bytes takes \<open>n\<close> bytes from its front and fails when
  fewer are left.
\<close>

subsection \<open>Little-endian words\<close>

definition sf37_kvstore_le_put32 :: "u32 \<Rightarrow> bytes" where
  "sf37_kvstore_le_put32 v =
     [ucast v, ucast (drop_bit 8 v), ucast (drop_bit 16 v), ucast (drop_bit 24 v)]"

definition kv_le_put64 :: "u64 \<Rightarrow> bytes" where
  "kv_le_put64 v = map (\<lambda>i. ucast (drop_bit (8 * i) v)) [0..<8]"

definition sf37_kvstore_le_get32 :: "bytes \<Rightarrow> u32" where
  "sf37_kvstore_le_get32 p =
     ucast (p ! 0) OR push_bit 8 (ucast (p ! 1)) OR push_bit 16 (ucast (p ! 2)) OR
     push_bit 24 (ucast (p ! 3))"

definition kv_le_get64 :: "bytes \<Rightarrow> u64" where
  "kv_le_get64 p = foldl (\<lambda>v i. push_bit 8 v OR ucast (p ! i)) 0 (rev [0..<8])"

lemma length_le_put32 [simp]: "length (sf37_kvstore_le_put32 v) = 4"
  by (simp add: sf37_kvstore_le_put32_def)

lemma length_le_put64 [simp]: "length (kv_le_put64 v) = 8"
  by (simp add: kv_le_put64_def)

lemma le_get_put32 [simp]: "sf37_kvstore_le_get32 (sf37_kvstore_le_put32 v @ r) = v"
  by (simp add: sf37_kvstore_le_get32_def sf37_kvstore_le_put32_def u32_eq_iff bit_simps)

lemma upt8: "[0..<8] = [0, 1, 2, 3, 4, 5, 6, 7::nat]"
  by (simp add: upt_rec)

lemma u64_bytes:
  fixes v :: u64
  shows "push_bit 8 (push_bit 8 (push_bit 8 (push_bit 8 (push_bit 8 (push_bit 8 (push_bit 8
     (ucast (ucast (drop_bit 56 v) :: byte))
      OR ucast (ucast (drop_bit 48 v) :: byte)) OR ucast (ucast (drop_bit 40 v) :: byte))
      OR ucast (ucast (drop_bit 32 v) :: byte)) OR ucast (ucast (drop_bit 24 v) :: byte))
      OR ucast (ucast (drop_bit 16 v) :: byte)) OR ucast (ucast (drop_bit 8 v) :: byte))
      OR ucast (ucast v :: byte) = v" (is "?l = v")
proof (rule bit_word_eqI)
  fix n
  assume "n < LENGTH(64)"
  then have "n \<in> set [0..<64]"
    by simp
  also have "[0..<64] = [0, 1, 2, 3, 4, 5, 6, 7, 8, 9, 10, 11, 12, 13, 14, 15, 16, 17, 18, 19, 20,
      21, 22, 23, 24, 25, 26, 27, 28, 29, 30, 31, 32, 33, 34, 35, 36, 37, 38, 39, 40, 41, 42, 43,
      44, 45, 46, 47, 48, 49, 50, 51, 52, 53, 54, 55, 56, 57, 58, 59, 60, 61, 62, 63::nat]"
    by (simp add: upt_rec)
  finally show "bit ?l n = bit v n"
    by (simp only: list.set insert_iff empty_iff) (elim disjE; simp add: bit_simps)
qed

lemma le_get_put64 [simp]: "kv_le_get64 (kv_le_put64 v @ r) = v"
  using u64_bytes [of v] by (simp add: kv_le_get64_def kv_le_put64_def upt8)

subsection \<open>Entries\<close>

text \<open>The \<open>path\<close> and \<open>sha\<close> of a zero-initialised entry are the empty string.\<close>

record kv_entry =
  ke_sha :: bytes
  ke_path :: bytes
  ke_quant_bits :: byte
  ke_model_id :: byte
  ke_reason :: byte
  ke_tokens :: u32
  ke_hits :: u32
  ke_ctx_size :: u32
  ke_ext_flags :: byte
  ke_created_at :: u64
  ke_last_used :: u64
  ke_payload_bytes :: u64
  ke_text_bytes :: u64
  ke_file_size :: u64

definition kv_entry_zero :: kv_entry where
  "kv_entry_zero = \<lparr>ke_sha = [], ke_path = [], ke_quant_bits = 0, ke_model_id = 0, ke_reason = 0,
     ke_tokens = 0, ke_hits = 0, ke_ctx_size = 0, ke_ext_flags = 0, ke_created_at = 0,
     ke_last_used = 0, ke_payload_bytes = 0, ke_text_bytes = 0, ke_file_size = 0\<rparr>"

abbreviation SF37_KVSTORE_FIXED_HEADER :: nat where "SF37_KVSTORE_FIXED_HEADER \<equiv> 48"
abbreviation SF37_KVSTORE_MODEL_ID :: byte where "SF37_KVSTORE_MODEL_ID \<equiv> 37"
abbreviation SF37_KVSTORE_QUANT_BITS :: byte where "SF37_KVSTORE_QUANT_BITS \<equiv> 3"
abbreviation KV_CACHE_VERSION :: byte where "KV_CACHE_VERSION \<equiv> 1"
abbreviation KV_CACHE_PAYLOAD_ABI :: byte where "KV_CACHE_PAYLOAD_ABI \<equiv> 2"

datatype kv_reason = REASON_UNKNOWN | REASON_COLD | REASON_CONTINUED | REASON_EVICT
  | REASON_SHUTDOWN | REASON_AGENT_SYSTEM | REASON_AGENT_SESSION

fun kv_reason_byte :: "kv_reason \<Rightarrow> byte" where
  "kv_reason_byte REASON_UNKNOWN = 0"
| "kv_reason_byte REASON_COLD = 1"
| "kv_reason_byte REASON_CONTINUED = 2"
| "kv_reason_byte REASON_EVICT = 3"
| "kv_reason_byte REASON_SHUTDOWN = 4"
| "kv_reason_byte REASON_AGENT_SYSTEM = 5"
| "kv_reason_byte REASON_AGENT_SESSION = 6"

text \<open>A NULL reason is \<open>None\<close>.\<close>

definition sf37_kvstore_reason_code :: "bytes option \<Rightarrow> byte" where
  "sf37_kvstore_reason_code reason =
     (case reason of
        None \<Rightarrow> kv_reason_byte REASON_UNKNOWN
      | Some r \<Rightarrow>
          if r = cstr ''cold'' then kv_reason_byte REASON_COLD
          else if r = cstr ''continued'' then kv_reason_byte REASON_CONTINUED
          else if r = cstr ''evict'' then kv_reason_byte REASON_EVICT
          else if r = cstr ''shutdown'' then kv_reason_byte REASON_SHUTDOWN
          else if r = cstr ''agent-system'' then kv_reason_byte REASON_AGENT_SYSTEM
          else if r = cstr ''agent-session'' then kv_reason_byte REASON_AGENT_SESSION
          else kv_reason_byte REASON_UNKNOWN)"

abbreviation EXT_TOOL_MAP :: byte where "EXT_TOOL_MAP \<equiv> 1"
abbreviation EXT_RESPONSES_VISIBLE :: byte where "EXT_RESPONSES_VISIBLE \<equiv> 2"
abbreviation EXT_THINKING_VISIBLE :: byte where "EXT_THINKING_VISIBLE \<equiv> 4"
abbreviation EXT_SESSION_TITLE :: byte where "EXT_SESSION_TITLE \<equiv> 8"
abbreviation EXT_IMAGE_KEY :: byte where "EXT_IMAGE_KEY \<equiv> 16"

definition sf37_kvstore_key_kind :: "byte \<Rightarrow> string" where
  "sf37_kvstore_key_kind ext_flags =
     (if ext_flags AND EXT_RESPONSES_VISIBLE \<noteq> 0 then ''responses-visible''
      else if ext_flags AND EXT_THINKING_VISIBLE \<noteq> 0 then ''thinking-visible''
      else if ext_flags AND EXT_IMAGE_KEY \<noteq> 0 then ''image-key''
      else ''token-text'')"

subsection \<open>Writing and reading the header\<close>

definition put_at :: "bytes \<Rightarrow> nat \<Rightarrow> bytes \<Rightarrow> bytes" where
  "put_at h i bs = take i h @ bs @ drop (i + length bs) h"

definition sf37_kvstore_fill_header ::
  "byte \<Rightarrow> byte \<Rightarrow> byte \<Rightarrow> byte \<Rightarrow> u32 \<Rightarrow> u32 \<Rightarrow> u32 \<Rightarrow> u64 \<Rightarrow> u64 \<Rightarrow> u64 \<Rightarrow> bytes" where
  "sf37_kvstore_fill_header model_id quant_bits reason ext_flags tokens hits ctx_size
      created_at last_used payload_bytes =
     (let h = replicate SF37_KVSTORE_FIXED_HEADER 0;
          h = h[0 := 0x4b, 1 := 0x56, 2 := 0x43, 3 := KV_CACHE_VERSION,
                4 := quant_bits, 5 := reason, 6 := ext_flags, 7 := model_id];
          h = put_at h 8 (sf37_kvstore_le_put32 tokens);
          h = put_at h 12 (sf37_kvstore_le_put32 hits);
          h = put_at h 16 (sf37_kvstore_le_put32 ctx_size);
          h = h[20 := KV_CACHE_PAYLOAD_ABI];
          h = put_at h 24 (kv_le_put64 created_at);
          h = put_at h 32 (kv_le_put64 last_used)
      in put_at h 40 (kv_le_put64 payload_bytes))"

definition sf37_kvstore_read_header :: "bytes \<Rightarrow> kv_entry \<Rightarrow> (kv_entry \<times> u32 \<times> bytes) option" where
  "sf37_kvstore_read_header fp e =
     (if length fp < SF37_KVSTORE_FIXED_HEADER then None
      else
        let h = take SF37_KVSTORE_FIXED_HEADER fp; fp = drop SF37_KVSTORE_FIXED_HEADER fp in
        if h ! 0 \<noteq> 0x4b \<or> h ! 1 \<noteq> 0x56 \<or> h ! 2 \<noteq> 0x43 \<or> h ! 3 \<noteq> KV_CACHE_VERSION then None
        else if h ! 20 \<noteq> KV_CACHE_PAYLOAD_ABI then None
        else if length fp < 4 then None
        else
          let text_bytes = sf37_kvstore_le_get32 (take 4 fp);
              e = e\<lparr>ke_quant_bits := h ! 4,
                    ke_reason := (if h ! 5 \<le> kv_reason_byte REASON_AGENT_SESSION then h ! 5
                                  else kv_reason_byte REASON_UNKNOWN),
                    ke_ext_flags := h ! 6, ke_model_id := h ! 7,
                    ke_tokens := sf37_kvstore_le_get32 (drop 8 h),
                    ke_hits := sf37_kvstore_le_get32 (drop 12 h),
                    ke_ctx_size := sf37_kvstore_le_get32 (drop 16 h),
                    ke_created_at := kv_le_get64 (drop 24 h),
                    ke_last_used := kv_le_get64 (drop 32 h),
                    ke_payload_bytes := kv_le_get64 (drop 40 h),
                    ke_text_bytes := ucast text_bytes\<rparr>
          in if ke_tokens e \<noteq> 0 \<and> ke_quant_bits e = SF37_KVSTORE_QUANT_BITS
             then Some (e, text_bytes, drop 4 fp) else None)"

text \<open>The header, field by field.\<close>

lemma put_at_append:
  "length a = i \<Longrightarrow> length b = length bs \<Longrightarrow> put_at (a @ b @ c) i bs = a @ bs @ c"
  by (simp add: put_at_def)

lemma header_zero:
  "replicate 48 (0::byte) = replicate 8 0 @ replicate 4 0 @ replicate 4 0 @ replicate 4 0 @
     [0, 0, 0, 0] @ replicate 8 0 @ replicate 8 0 @ replicate 8 0"
proof -
  have "[0, 0, 0, 0] = replicate 4 (0::byte)"
    by (simp add: numeral_nat)
  then show ?thesis
    by (simp only: replicate_add [symmetric]) simp
qed

lemma header_start:
  "(replicate 8 (0::byte) @ r)[0 := a, 1 := b, 2 := c, 3 := d, 4 := e, 5 := f, 6 := g, 7 := h] =
     [a, b, c, d, e, f, g, h] @ r"
  by (simp add: numeral_nat)

lemma header_abi:
  "length a = 8 \<Longrightarrow> length b = 4 \<Longrightarrow> length c = 4 \<Longrightarrow> length d = 4 \<Longrightarrow>
   (a @ b @ c @ d @ [0, 0, 0, 0] @ r)[20 := z] = a @ b @ c @ d @ [z, 0, 0, 0] @ (r :: bytes)"
  by (simp add: list_update_append)

lemma fill_header_layout:
  "sf37_kvstore_fill_header m q r x t hi c ca lu pb =
     [0x4b, 0x56, 0x43, KV_CACHE_VERSION, q, r, x, m] @ sf37_kvstore_le_put32 t @
     sf37_kvstore_le_put32 hi @ sf37_kvstore_le_put32 c @ [KV_CACHE_PAYLOAD_ABI, 0, 0, 0] @
     kv_le_put64 ca @ kv_le_put64 lu @ kv_le_put64 pb"
proof -
  define s where "s = [0x4b, 0x56, 0x43, KV_CACHE_VERSION, q, r, x, m]"
  define p4 where "p4 = sf37_kvstore_le_put32"
  define p8 where "p8 = kv_le_put64"
  have len: "length s = 8" "length (p4 u) = 4" "length (p8 w) = 8" for u w
    by (simp_all add: s_def p4_def p8_def)
  let ?z = "[0, 0, 0, 0] :: bytes" and ?y = "[KV_CACHE_PAYLOAD_ABI, 0, 0, 0]"
  let ?r8 = "replicate 8 0 :: bytes" and ?r4 = "replicate 4 0 :: bytes"
  have start: "(replicate 48 0)[0 := 0x4b, 1 := 0x56, 2 := 0x43, 3 := KV_CACHE_VERSION,
      4 := q, 5 := r, 6 := x, 7 := m] = s @ ?r4 @ ?r4 @ ?r4 @ ?z @ ?r8 @ ?r8 @ ?r8"
    unfolding header_zero header_start s_def ..
  have a: "put_at (s @ ?r4 @ w) 8 (p4 t) = s @ p4 t @ w" for w
    by (rule put_at_append) (simp_all add: len)
  have b: "put_at (s @ p4 t @ ?r4 @ w) 12 (p4 hi) = s @ p4 t @ p4 hi @ w" for w
    using put_at_append [of "s @ p4 t" 12 ?r4 "p4 hi" w] by (simp add: len)
  have c: "put_at (s @ p4 t @ p4 hi @ ?r4 @ w) 16 (p4 c) = s @ p4 t @ p4 hi @ p4 c @ w" for w
    using put_at_append [of "s @ p4 t @ p4 hi" 16 ?r4 "p4 c" w] by (simp add: len)
  have d: "(s @ p4 t @ p4 hi @ p4 c @ ?z @ w)[20 := KV_CACHE_PAYLOAD_ABI]
      = s @ p4 t @ p4 hi @ p4 c @ ?y @ w" for w
    by (rule header_abi) (simp_all add: len)
  have e: "put_at (s @ p4 t @ p4 hi @ p4 c @ ?y @ ?r8 @ w) 24 (p8 ca)
      = s @ p4 t @ p4 hi @ p4 c @ ?y @ p8 ca @ w" for w
    using put_at_append [of "s @ p4 t @ p4 hi @ p4 c @ ?y" 24 ?r8 "p8 ca" w] by (simp add: len)
  have f: "put_at (s @ p4 t @ p4 hi @ p4 c @ ?y @ p8 ca @ ?r8 @ w) 32 (p8 lu)
      = s @ p4 t @ p4 hi @ p4 c @ ?y @ p8 ca @ p8 lu @ w" for w
    using put_at_append [of "s @ p4 t @ p4 hi @ p4 c @ ?y @ p8 ca" 32 ?r8 "p8 lu" w]
    by (simp add: len)
  have g: "put_at (s @ p4 t @ p4 hi @ p4 c @ ?y @ p8 ca @ p8 lu @ ?r8) 40 (p8 pb)
      = s @ p4 t @ p4 hi @ p4 c @ ?y @ p8 ca @ p8 lu @ p8 pb"
    using put_at_append [of "s @ p4 t @ p4 hi @ p4 c @ ?y @ p8 ca @ p8 lu" 40 ?r8 "p8 pb" "[]"]
    by (simp add: len)
  show ?thesis
    unfolding sf37_kvstore_fill_header_def Let_def start p4_def [symmetric] p8_def [symmetric]
      a b c d e f g s_def [symmetric] ..
qed

lemma length_fill_header [simp]:
  "length (sf37_kvstore_fill_header m q r x t hi c ca lu pb) = SF37_KVSTORE_FIXED_HEADER"
  by (simp add: fill_header_layout)

lemma take4_drop [simp]: "take 4 (sf37_kvstore_le_put32 v @ r) = sf37_kvstore_le_put32 v"
  "drop 4 (sf37_kvstore_le_put32 v @ r) = r"
  by simp_all

lemma le_get_put32_Nil [simp]: "sf37_kvstore_le_get32 (sf37_kvstore_le_put32 v) = v"
  using le_get_put32 [of v "[]"] by simp

lemma le_get_put64_Nil [simp]: "kv_le_get64 (kv_le_put64 v) = v"
  using le_get_put64 [of v "[]"] by simp

lemma read_fill_header:
  "sf37_kvstore_read_header
     (sf37_kvstore_fill_header m q r x t hi c ca lu pb @ sf37_kvstore_le_put32 tb @ rest) e =
   (if t \<noteq> 0 \<and> q = SF37_KVSTORE_QUANT_BITS
    then Some (e\<lparr>ke_quant_bits := q, ke_reason := (if r \<le> 6 then r else 0), ke_ext_flags := x,
          ke_model_id := m, ke_tokens := t, ke_hits := hi, ke_ctx_size := c, ke_created_at := ca,
          ke_last_used := lu, ke_payload_bytes := pb, ke_text_bytes := ucast tb\<rparr>, tb, rest)
    else None)"
proof -
  define h where "h = sf37_kvstore_fill_header m q r x t hi c ca lu pb"
  have len: "length h = 48"
    by (simp add: h_def)
  have nths: "h ! 0 = 0x4b" "h ! 1 = 0x56" "h ! 2 = 0x43" "h ! 3 = KV_CACHE_VERSION" "h ! 4 = q"
    "h ! 5 = r" "h ! 6 = x" "h ! 7 = m" "h ! 20 = KV_CACHE_PAYLOAD_ABI"
    by (simp_all add: h_def fill_header_layout nth_append)
  have fields: "sf37_kvstore_le_get32 (drop 8 h) = t" "sf37_kvstore_le_get32 (drop 12 h) = hi"
    "sf37_kvstore_le_get32 (drop 16 h) = c" "kv_le_get64 (drop 24 h) = ca"
    "kv_le_get64 (drop 32 h) = lu" "kv_le_get64 (drop 40 h) = pb"
    by (simp_all add: h_def fill_header_layout)
  show ?thesis
    unfolding h_def [symmetric]
    by (simp add: sf37_kvstore_read_header_def len nths [unfolded One_nat_def] fields Let_def)
qed

subsection \<open>Properties\<close>

text \<open>reading back a header that \<open>sf37_kvstore_fill_header\<close> wrote, followed by the
  text length and anything else, restores every field, normalises an unknown reason, leaves
  the rest of the file unread, and is refused exactly for an empty checkpoint or another
  quantisation.\<close>

theorem kv_header_roundtrip:
  "sf37_kvstore_read_header
     (sf37_kvstore_fill_header m q r x t hi c ca lu pb @ sf37_kvstore_le_put32 tb @ rest) e =
   (if t \<noteq> 0 \<and> q = SF37_KVSTORE_QUANT_BITS
    then Some (e\<lparr>ke_quant_bits := q, ke_reason := (if r \<le> 6 then r else 0), ke_ext_flags := x,
          ke_model_id := m, ke_tokens := t, ke_hits := hi, ke_ctx_size := c, ke_created_at := ca,
          ke_last_used := lu, ke_payload_bytes := pb, ke_text_bytes := ucast tb\<rparr>, tb, rest)
    else None)"
  by (rule read_fill_header)

end
