(* ===== verification/Sha1.thy ===== *)
theory Sha1
  imports Complex_Main Prelude
begin

section \<open>SHA-1\<close>

text \<open>
  The SHA-1 of \<open>sf37_kvstore.c\<close> (\<open>sha1_init\<close>, \<open>sha1_transform\<close>, \<open>sha1_update\<close>,
  \<open>sha1_final\<close>, \<open>hex20\<close>) with its streaming context: the chaining words, the byte count
  modulo \<open>2 ^ 64\<close>, the 64-byte block buffer and how much of it is used. \<open>sha1_spec\<close> is the digest
  without the streaming: pad the message to whole blocks and fold the code's compression over
  them. \<open>fips_sha1_hex\<close> is SHA-1 as FIPS 180-4 defines it, with none of the code's definitions. The
  theorem is that the streaming code computes the latter; the standard's example is evaluated too.
\<close>

subsection \<open>The code\<close>

record sha1_ctx =
  sc_h :: "u32 list"
  sc_bytes :: u64
  sc_block :: bytes
  sc_used :: nat

definition rol32 :: "u32 \<Rightarrow> nat \<Rightarrow> u32" where
  "rol32 v n = push_bit n v OR drop_bit (32 - n) v"

definition sha1_load_word :: "bytes \<Rightarrow> nat \<Rightarrow> u32" where
  "sha1_load_word block i =
     push_bit 24 (ucast (block ! (i * 4))) OR push_bit 16 (ucast (block ! (i * 4 + 1))) OR
     push_bit 8 (ucast (block ! (i * 4 + 2))) OR ucast (block ! (i * 4 + 3))"

definition sha1_schedule :: "bytes \<Rightarrow> u32 list" where
  "sha1_schedule block =
     foldl (\<lambda>w i. w @ [rol32 (w ! (i - 3) XOR w ! (i - 8) XOR w ! (i - 14) XOR w ! (i - 16)) 1])
       (map (sha1_load_word block) [0..<16]) [16..<80]"

type_synonym sha1_regs = "u32 \<times> u32 \<times> u32 \<times> u32 \<times> u32"

definition sha1_round :: "u32 list \<Rightarrow> sha1_regs \<Rightarrow> nat \<Rightarrow> sha1_regs" where
  "sha1_round w regs i =
     (case regs of (a, b, cc, d, e) \<Rightarrow>
        let (f, k) =
          (if i < 20 then ((b AND cc) OR (NOT b AND d), 0x5a827999)
           else if i < 40 then (b XOR cc XOR d, 0x6ed9eba1)
           else if i < 60 then ((b AND cc) OR (b AND d) OR (cc AND d), 0x8f1bbcdc)
           else (b XOR cc XOR d, 0xca62c1d6));
          tmp = rol32 a 5 + f + e + k + w ! i
        in (tmp, a, rol32 b 30, cc, d))"

definition sha1_compress :: "u32 list \<Rightarrow> bytes \<Rightarrow> u32 list" where
  "sha1_compress h block =
     (case foldl (sha1_round (sha1_schedule block)) (h ! 0, h ! 1, h ! 2, h ! 3, h ! 4) [0..<80] of
        (a, b, cc, d, e) \<Rightarrow> [h ! 0 + a, h ! 1 + b, h ! 2 + cc, h ! 3 + d, h ! 4 + e])"

definition sha1_transform :: "sha1_ctx \<Rightarrow> bytes \<Rightarrow> sha1_ctx" where
  "sha1_transform c block = c\<lparr>sc_h := sha1_compress (sc_h c) block\<rparr>"

text \<open>\<open>sha1_init\<close> leaves the block buffer as it was.\<close>

definition sha1_init :: "sha1_ctx \<Rightarrow> sha1_ctx" where
  "sha1_init c =
     c\<lparr>sc_h := [0x67452301, 0xefcdab89, 0x98badcfe, 0x10325476, 0xc3d2e1f0],
       sc_bytes := 0, sc_used := 0\<rparr>"

definition sha1_fill :: "sha1_ctx \<Rightarrow> bytes \<Rightarrow> sha1_ctx" where
  "sha1_fill c p =
     (let c' = c\<lparr>sc_block := take (sc_used c) (sc_block c) @ p @ drop (sc_used c + length p) (sc_block c),
                 sc_used := sc_used c + length p\<rparr>
      in if sc_used c' = 64 then (sha1_transform c' (sc_block c'))\<lparr>sc_used := 0\<rparr> else c')"

text \<open>The loop takes \<open>min (64 - used) len\<close> bytes per turn; \<open>used\<close> is below 64, so it
  advances.\<close>

function sha1_update_loop :: "sha1_ctx \<Rightarrow> bytes \<Rightarrow> sha1_ctx" where
  "sha1_update_loop c p =
     (if p = [] \<or> 64 \<le> sc_used c then c
      else let n = min (64 - sc_used c) (length p)
           in sha1_update_loop (sha1_fill c (take n p)) (drop n p))"
  by pat_completeness auto
termination
  by (relation "measure (\<lambda>(c, p). length p)") auto

declare sha1_update_loop.simps [simp del]

definition sha1_update :: "sha1_ctx \<Rightarrow> bytes \<Rightarrow> sha1_ctx" where
  "sha1_update c p = sha1_update_loop (c\<lparr>sc_bytes := sc_bytes c + of_nat (length p)\<rparr>) p"

text \<open>\<open>while (used != 56)\<close> adds a zero byte: fewer than 64 of them, so 64 turns are enough.\<close>

fun sha1_pad_zero :: "nat \<Rightarrow> sha1_ctx \<Rightarrow> sha1_ctx" where
  "sha1_pad_zero 0 c = c"
| "sha1_pad_zero (Suc fuel) c =
     (if sc_used c = 56 then c else sha1_pad_zero fuel (sha1_update c [0]))"

definition be_bytes32 :: "u32 \<Rightarrow> bytes" where
  "be_bytes32 v = [ucast (drop_bit 24 v), ucast (drop_bit 16 v), ucast (drop_bit 8 v), ucast v]"

definition sha1_length_bytes :: "u64 \<Rightarrow> bytes" where
  "sha1_length_bytes bits =
     foldl (\<lambda>len i. len[7 - i := ucast (drop_bit (8 * i) bits)]) (replicate 8 0) [0..<8]"

definition sha1_final :: "sha1_ctx \<Rightarrow> bytes" where
  "sha1_final c =
     (let bits = sc_bytes c * 8;
          c = sha1_update c [0x80];
          c = sha1_pad_zero 64 c;
          c = sha1_update c (sha1_length_bytes bits)
      in concat (map be_bytes32 (sc_h c)))"

definition hex_digits :: bytes where
  "hex_digits = cstr ''0123456789abcdef''"

definition hex20 :: "bytes \<Rightarrow> bytes" where
  "hex20 inp = concat (map (\<lambda>b. [hex_digits ! unat (drop_bit 4 b), hex_digits ! unat (b AND 15)]) inp)"

text \<open>The context on the stack is uninitialised memory: \<open>junk\<close> is what the block holds.
  \<open>sf37_kvstore_sha1_bytes_hex\<close> takes zeros for it; \<open>sha1_init_inv\<close> and
  \<open>sha1_final_spec\<close> hold for any junk, so the choice does not show in the digest.\<close>

definition sha1_stack :: "bytes \<Rightarrow> sha1_ctx" where
  "sha1_stack junk = \<lparr>sc_h = [], sc_bytes = 0, sc_block = junk, sc_used = 0\<rparr>"

definition sf37_kvstore_sha1_bytes_hex :: "bytes \<Rightarrow> bytes" where
  "sf37_kvstore_sha1_bytes_hex s =
     hex20 (sha1_final (sha1_update (sha1_init (sha1_stack (replicate 64 0))) s))"

subsection \<open>The reference\<close>

function blocks64 :: "bytes \<Rightarrow> bytes list" where
  "blocks64 s = (if length s < 64 then [] else take 64 s # blocks64 (drop 64 s))"
  by pat_completeness auto
termination
  by (relation "measure length") auto

declare blocks64.simps [simp del]

definition sha1_h0 :: "u32 list" where
  "sha1_h0 = [0x67452301, 0xefcdab89, 0x98badcfe, 0x10325476, 0xc3d2e1f0]"

definition sha1_hash :: "bytes \<Rightarrow> u32 list" where
  "sha1_hash s = foldl sha1_compress sha1_h0 (blocks64 s)"

text \<open>The padding: one bit, zeros up to 56 modulo 64, the length in bits.\<close>

definition sha1_pad :: "bytes \<Rightarrow> bytes" where
  "sha1_pad s =
     s @ [0x80] @ replicate ((119 - length s mod 64) mod 64) 0 @
     rev (map (\<lambda>i. ucast (drop_bit (8 * i) (of_nat (8 * length s) :: u64))) [0..<8])"

definition sha1_spec :: "bytes \<Rightarrow> bytes" where
  "sha1_spec s = concat (map be_bytes32 (sha1_hash (sha1_pad s)))"

subsection \<open>The streaming code computes the reference\<close>

text \<open>The context after the bytes \<open>s\<close>: the full blocks are hashed, the rest waits in the
  buffer.\<close>

definition sha1_inv :: "sha1_ctx \<Rightarrow> bytes \<Rightarrow> bool" where
  "sha1_inv c s \<longleftrightarrow>
     sc_h c = sha1_hash s \<and> sc_bytes c = of_nat (length s) \<and> length (sc_block c) = 64 \<and>
     sc_used c = length s mod 64 \<and>
     take (sc_used c) (sc_block c) = drop (64 * (length s div 64)) s"

lemma blocks64_append:
  "length t mod 64 = 0 \<Longrightarrow> blocks64 (t @ u) = blocks64 t @ blocks64 u"
proof (induction t rule: blocks64.induct)
  case (1 t)
  show ?case
  proof (cases "length t < 64")
    case True
    then have "t = []"
      using 1 by auto
    then show ?thesis
      by (simp add: blocks64.simps [of "[]"])
  next
    case False
    then have "length (drop 64 t) mod 64 = 0"
      using "1.prems" by (simp add: le_mod_geq)
    then have "blocks64 (drop 64 t @ u) = blocks64 (drop 64 t) @ blocks64 u"
      by (rule "1.IH" [OF False])
    then show ?thesis
      using False by (simp add: blocks64.simps [of "t @ u"] blocks64.simps [of t])
  qed
qed

lemma blocks64_short: "length u < 64 \<Longrightarrow> blocks64 u = []"
  by (simp add: blocks64.simps)

lemma blocks64_one: "length u = 64 \<Longrightarrow> blocks64 u = [u]"
  by (simp add: blocks64.simps [of u] blocks64_short)

lemma sha1_hash_split:
  assumes "length t mod 64 = 0"
  shows "sha1_hash (t @ u) = foldl sha1_compress (sha1_hash t) (blocks64 u)"
  using assms by (simp add: sha1_hash_def blocks64_append)

text \<open>One turn of the copy loop.\<close>

lemma sha1_fill_inv:
  assumes inv: "sha1_inv (c\<lparr>sc_bytes := of_nat (length s)\<rparr>) s"
    and len: "length p \<le> 64 - sc_used c"
  shows "sha1_inv ((sha1_fill c p)\<lparr>sc_bytes := of_nat (length (s @ p))\<rparr>) (s @ p)"
proof -
  define full where "full = take (64 * (length s div 64)) s"
  define rest where "rest = drop (64 * (length s div 64)) s"
  have s: "s = full @ rest"
    by (simp add: full_def rest_def)
  have "64 * (length s div 64) \<le> length s"
    by simp
  then have "length full = 64 * (length s div 64)"
    by (simp only: full_def length_take min_absorb2)
  then have fl: "length full mod 64 = 0"
    by simp
  have c: "sc_h c = sha1_hash s" "length (sc_block c) = 64" "sc_used c = length rest"
    "take (sc_used c) (sc_block c) = rest"
    using inv by (auto simp: sha1_inv_def rest_def minus_mult_div_eq_mod)
  have rl: "length rest < 64"
    using c(3) inv by (simp add: sha1_inv_def)
  have hs: "sha1_hash s = sha1_hash full"
    unfolding s sha1_hash_split [OF fl] by (simp add: blocks64_short rl)
  have m: "length (s @ p) = length full + (length rest + length p)"
    by (subst s) simp
  obtain q where q: "length full = 64 * q"
    using fl by (auto simp: mod_eq_0_iff_dvd)
  show ?thesis
  proof (cases "length rest + length p = 64")
    case True
    have "sha1_hash (s @ p) = foldl sha1_compress (sha1_hash full) (blocks64 (rest @ p))"
      using sha1_hash_split [OF fl, of "rest @ p"] by (subst s) simp
    then have "sha1_hash (s @ p) = sha1_compress (sha1_hash full) (rest @ p)"
      using True by (simp add: blocks64_one)
    then show ?thesis
      using True c hs m q
      by (simp add: sha1_fill_def sha1_inv_def Let_def sha1_transform_def)
  next
    case False
    then have small: "length rest + length p < 64"
      using len c(3) rl by simp
    have "sha1_hash (s @ p) = sha1_hash full"
      using sha1_hash_split [OF fl, of "rest @ p"] small by (subst s) (simp add: blocks64_short)
    moreover have "length (s @ p) mod 64 = length rest + length p"
      "length (s @ p) div 64 = q"
      unfolding m q using small by simp_all
    moreover have "drop (64 * q) (s @ p) = rest @ p"
      by (subst s) (simp add: q [symmetric])
    ultimately show ?thesis
      using False small c hs
      by (simp add: sha1_fill_def sha1_inv_def Let_def)
  qed
qed

lemma sha1_fill_bytes: "sha1_fill (c\<lparr>sc_bytes := n\<rparr>) p = (sha1_fill c p)\<lparr>sc_bytes := n\<rparr>"
  by (simp add: sha1_fill_def Let_def sha1_transform_def)

lemma sha1_loop_inv:
  "sha1_inv (c\<lparr>sc_bytes := of_nat (length s)\<rparr>) s \<Longrightarrow>
   sha1_inv ((sha1_update_loop c p)\<lparr>sc_bytes := of_nat (length (s @ p))\<rparr>) (s @ p) \<and>
   sc_bytes (sha1_update_loop c p) = sc_bytes c"
proof (induction c p arbitrary: s rule: sha1_update_loop.induct)
  case (1 c p s)
  have used: "sc_used c < 64"
    using "1.prems" by (simp add: sha1_inv_def)
  show ?case
  proof (cases "p = []")
    case True
    then show ?thesis
      using "1.prems" by (subst (1 2) sha1_update_loop.simps) simp
  next
    case False
    define n where "n = min (64 - sc_used c) (length p)"
    let ?c = "sha1_fill c (take n p)"
    have "sha1_inv (?c\<lparr>sc_bytes := of_nat (length (s @ take n p))\<rparr>) (s @ take n p)"
      by (rule sha1_fill_inv [OF "1.prems"]) (simp add: n_def)
    then have "sha1_inv ((sha1_update_loop ?c (drop n p))\<lparr>sc_bytes :=
          of_nat (length ((s @ take n p) @ drop n p))\<rparr>) ((s @ take n p) @ drop n p) \<and>
        sc_bytes (sha1_update_loop ?c (drop n p)) = sc_bytes ?c"
      using used False by (intro "1.IH" [OF _ n_def]) auto
    moreover have "sha1_update_loop c p = sha1_update_loop ?c (drop n p)"
      using False used by (subst sha1_update_loop.simps) (simp add: n_def Let_def)
    moreover have "sc_bytes ?c = sc_bytes c"
      by (simp add: sha1_fill_def Let_def sha1_transform_def)
    ultimately show ?thesis
      by simp
  qed
qed

lemma sha1_inv_bytes: "sc_bytes c = n \<Longrightarrow> sha1_inv (c\<lparr>sc_bytes := n\<rparr>) s \<longleftrightarrow> sha1_inv c s"
  by (simp add: sha1_inv_def)

lemma sha1_update_inv: "sha1_inv c s \<Longrightarrow> sha1_inv (sha1_update c p) (s @ p)"
proof -
  assume inv: "sha1_inv c s"
  define c1 where "c1 = c\<lparr>sc_bytes := sc_bytes c + of_nat (length p)\<rparr>"
  have "c1\<lparr>sc_bytes := of_nat (length s)\<rparr> = c"
    using inv by (simp add: c1_def sha1_inv_def)
  then have "sha1_inv ((sha1_update_loop c1 p)\<lparr>sc_bytes := of_nat (length (s @ p))\<rparr>) (s @ p)"
    and "sc_bytes (sha1_update_loop c1 p) = sc_bytes c1"
    using sha1_loop_inv [of s c1 p] inv by auto
  moreover have "sc_bytes c1 = of_nat (length (s @ p))"
    using inv by (simp add: c1_def sha1_inv_def)
  ultimately have "sha1_inv (sha1_update_loop c1 p) (s @ p)"
    using sha1_inv_bytes by metis
  then show ?thesis
    by (simp add: sha1_update_def c1_def)
qed

lemma sha1_init_inv: "length junk = 64 \<Longrightarrow> sha1_inv (sha1_init (sha1_stack junk)) []"
  by (simp add: sha1_inv_def sha1_init_def sha1_stack_def sha1_hash_def sha1_h0_def blocks64_short)

text \<open>The zero loop stops after \<open>(56 - used) mod 64\<close> turns.\<close>

lemma sha1_pad_zero_inv:
  "sha1_inv c s \<Longrightarrow> (120 - length s mod 64) mod 64 < fuel \<Longrightarrow>
   sha1_inv (sha1_pad_zero fuel c) (s @ replicate ((120 - length s mod 64) mod 64) 0)"
proof (induction fuel arbitrary: c s)
  case (Suc fuel)
  have used: "sc_used c = length s mod 64"
    using Suc.prems(1) by (simp add: sha1_inv_def)
  show ?case
  proof (cases "sc_used c = 56")
    case True
    then show ?thesis
      using Suc.prems(1) used by simp
  next
    case False
    define m where "m = length s mod 64"
    have "m < 64" "m \<noteq> 56"
      using used False by (simp_all add: m_def)
    moreover have "length (s @ [0::byte]) mod 64 = (if m = 63 then 0 else m + 1)"
      using \<open>m < 64\<close> unfolding m_def by (simp add: mod_Suc)
    ultimately have k: "(120 - m) mod 64 = Suc ((120 - length (s @ [0::byte]) mod 64) mod 64)"
      by (cases "m < 56") (auto simp: mod_if)
    have "sha1_inv (sha1_pad_zero fuel (sha1_update c [0]))
        ((s @ [0]) @ replicate ((120 - length (s @ [0::byte]) mod 64) mod 64) 0)"
      using Suc.prems k by (intro Suc.IH sha1_update_inv) (simp_all add: m_def)
    then show ?thesis
      using False k by (simp add: m_def)
  qed
qed simp

lemma upt_8: "[0..<8] = [0, 1, 2, 3, 4, 5, 6, 7::nat]"
  by (simp add: upt_rec)

lemma sha1_length_bytes_rev:
  "sha1_length_bytes bits = rev (map (\<lambda>i. ucast (drop_bit (8 * i) bits)) [0..<8])"
proof -
  have "replicate 8 (0::byte) = [0, 0, 0, 0, 0, 0, 0, 0]"
    by (simp add: numeral_nat)
  then show ?thesis
    by (simp add: sha1_length_bytes_def upt_8 numeral_nat)
qed

lemma pad_count: "(120 - Suc n mod 64) mod 64 = (119 - n mod 64) mod (64::nat)"
proof -
  have "Suc n mod 64 = (if n mod 64 = 63 then 0 else Suc (n mod 64))"
    by (simp add: mod_Suc)
  then show ?thesis
    by auto
qed

lemma sha1_final_spec:
  assumes "sha1_inv c s"
  shows "sha1_final c = sha1_spec s"
proof -
  let ?z = "replicate ((119 - length s mod 64) mod 64) 0"
  let ?l = "sha1_length_bytes (sc_bytes c * 8)"
  have l: "?l = rev (map (\<lambda>i. ucast (drop_bit (8 * i) (of_nat (8 * length s) :: u64))) [0..<8])"
    using assms by (simp add: sha1_length_bytes_rev sha1_inv_def mult.commute)
  have "sha1_inv (sha1_pad_zero 64 (sha1_update c [0x80])) ((s @ [0x80]) @ ?z)"
    using sha1_pad_zero_inv [OF sha1_update_inv [OF assms, of "[0x80]"], of 64]
    by (simp add: pad_count)
  from sha1_update_inv [OF this, of ?l]
  show ?thesis
    by (simp add: sha1_final_def Let_def sha1_inv_def sha1_spec_def sha1_pad_def l)
qed

lemma sha1_bytes_hex_spec: "sf37_kvstore_sha1_bytes_hex s = hex20 (sha1_spec s)"
  using sha1_final_spec [OF sha1_update_inv [OF sha1_init_inv [of "replicate 64 0"], of s]]
  by (simp add: sf37_kvstore_sha1_bytes_hex_def)

lemma length_hex20 [simp]: "length (hex20 d) = 2 * length d"
  by (induction d) (simp_all add: hex20_def)

lemma length_sha1_compress [simp]: "length (sha1_compress h b) = 5"
  by (simp add: sha1_compress_def split: prod.split)

lemma length_sha1_hash [simp]: "length (sha1_hash s) = 5"
proof -
  have "length h = 5 \<Longrightarrow> length (foldl sha1_compress h bs) = 5" for h bs
    by (induction bs arbitrary: h) simp_all
  then show ?thesis
    by (simp add: sha1_hash_def sha1_h0_def)
qed

lemma length_sha1_spec [simp]: "length (sha1_spec s) = 20"
proof -
  have "length (concat (map be_bytes32 ws)) = 4 * length ws" for ws
    by (induction ws) (simp_all add: be_bytes32_def)
  then show ?thesis
    by (simp add: sha1_spec_def)
qed

lemma length_sha1_hex [simp]: "length (sf37_kvstore_sha1_bytes_hex s) = 40"
  by (simp add: sha1_bytes_hex_spec)

lemma hex_digits_range: "n < 16 \<Longrightarrow> hex_digits ! n \<in> set hex_digits"
  by (rule nth_mem) (simp add: hex_digits_def)

lemma hex20_digits: "set (hex20 d) \<subseteq> set hex_digits"
proof -
  have "unat (drop_bit 4 b) < 16" "unat (b AND 15) < 16" for b :: byte
  proof -
    have "unat (drop_bit 4 b) = unat b div 16"
      by (simp add: drop_bit_eq_div unat_div)
    then show "unat (drop_bit 4 b) < 16"
      using unat_byte_less [of b] by (simp add: less_mult_imp_div_less)
    show "unat (b AND 15) < 16"
      using unat_and_exp_minus_1 [of b 4] by simp
  qed
  then show ?thesis
    by (auto simp: hex20_def hex_digits_range)
qed

subsection \<open>Properties\<close>

text \<open>feeding a message to the hash in pieces gives the digest of the whole: splitting an
  update in two changes nothing that \<open>sha1_final\<close> can see.\<close>

theorem sha1_update_split:
  "sha1_final (sha1_update (sha1_update (sha1_init (sha1_stack (replicate 64 0))) s) t) =
   sha1_final (sha1_update (sha1_init (sha1_stack (replicate 64 0))) (s @ t))"
proof -
  note init = sha1_init_inv [of "replicate 64 0", simplified]
  show ?thesis
    using sha1_final_spec [OF sha1_update_inv [OF sha1_update_inv [OF init, of s], of t]]
      sha1_final_spec [OF sha1_update_inv [OF init, of "s @ t"]]
    by simp
qed

subsection \<open>The standard\<close>

text \<open>
  SHA-1 in the terms of FIPS 180-4, section 6.1, without the code's definitions: a block is sixteen
  numbers written to base 256, the functions are \<open>Ch\<close>, \<open>Parity\<close> and \<open>Maj\<close> with exclusive or, a rotation
  is the library's, the schedule is a recursive function, and the constants are the integer parts
  of \<open>2 ^ 30\<close> times the square roots of 2, 3, 5 and 10. Only the cutting into blocks and the padding
  (\<open>blocks64\<close>, \<open>sha1_pad\<close>), which the code does not have, are shared with the reference above.
\<close>

definition fips_ch :: "u32 \<Rightarrow> u32 \<Rightarrow> u32 \<Rightarrow> u32" where
  "fips_ch x y z = (x AND y) XOR (NOT x AND z)"

definition fips_parity :: "u32 \<Rightarrow> u32 \<Rightarrow> u32 \<Rightarrow> u32" where
  "fips_parity x y z = x XOR y XOR z"

definition fips_maj :: "u32 \<Rightarrow> u32 \<Rightarrow> u32 \<Rightarrow> u32" where
  "fips_maj x y z = (x AND y) XOR (x AND z) XOR (y AND z)"

definition fips_f :: "nat \<Rightarrow> u32 \<Rightarrow> u32 \<Rightarrow> u32 \<Rightarrow> u32" where
  "fips_f t = (if t < 20 then fips_ch else if t < 40 then fips_parity else if t < 60 then fips_maj else fips_parity)"

definition fips_K :: "nat \<Rightarrow> u32" where
  "fips_K t = of_int \<lfloor>2 ^ 30 * sqrt (if t < 20 then 2 else if t < 40 then 3 else if t < 60 then 5 else 10)\<rfloor>"

definition base256 :: "bytes \<Rightarrow> nat" where
  "base256 bs = foldl (\<lambda>n b. 256 * n + unat b) 0 bs"

fun fips_W :: "bytes \<Rightarrow> nat \<Rightarrow> u32" where
  "fips_W M t =
     (if t < 16 then of_nat (base256 (take 4 (drop (4 * t) M)))
      else word_rotl 1 (fips_W M (t - 3) XOR fips_W M (t - 8) XOR fips_W M (t - 14) XOR fips_W M (t - 16)))"

declare fips_W.simps [simp del]

definition fips_step :: "bytes \<Rightarrow> sha1_regs \<Rightarrow> nat \<Rightarrow> sha1_regs" where
  "fips_step M regs t =
     (case regs of (a, b, c, d, e) \<Rightarrow> (word_rotl 5 a + fips_f t b c d + e + fips_K t + fips_W M t, a, word_rotl 30 b, c, d))"

definition fips_block :: "u32 list \<Rightarrow> bytes \<Rightarrow> u32 list" where
  "fips_block H M =
     (case foldl (fips_step M) (H ! 0, H ! 1, H ! 2, H ! 3, H ! 4) [0..<80] of
        (a, b, c, d, e) \<Rightarrow> [a + H ! 0, b + H ! 1, c + H ! 2, d + H ! 3, e + H ! 4])"

definition hex_word :: "u32 \<Rightarrow> bytes" where
  "hex_word w = map (\<lambda>i. cstr ''0123456789abcdef'' ! (unat w div 16 ^ (7 - i) mod 16)) [0..<8]"

definition fips_sha1_hex :: "bytes \<Rightarrow> bytes" where
  "fips_sha1_hex s =
     concat (map hex_word
       (foldl fips_block [0x67452301, 0xefcdab89, 0x98badcfe, 0x10325476, 0xc3d2e1f0] (blocks64 (sha1_pad s))))"

subsection \<open>The code computes the standard\<close>

lemma rol32_rotl: "0 < n \<Longrightarrow> n < 32 \<Longrightarrow> rol32 v n = word_rotl n v"
proof (rule bit_word_eqI)
  fix i
  assume n: "0 < n" "n < 32" and i: "i < LENGTH(32)"
  show "bit (rol32 v n) i = bit (word_rotl n v) i"
  proof (cases "n \<le> i")
    case True
    then have "(i + (32 - n)) mod 32 = i - n"
      using n i by (simp add: mod_if)
    then show ?thesis
      using n i True by (auto simp: rol32_def bit_word_rotl_iff bit_or_iff bit_push_bit_iff bit_drop_bit_eq dest: bit_imp_le_length)
  next
    case False
    then have "(i + (32 - n)) mod 32 = 32 - n + i"
      using n i by simp
    then show ?thesis
      using n i False by (auto simp: rol32_def bit_word_rotl_iff bit_or_iff bit_push_bit_iff bit_drop_bit_eq)
  qed
qed

lemma fips_K_values:
  "fips_K t = (if t < 20 then 0x5a827999 else if t < 40 then 0x6ed9eba1 else if t < 60 then 0x8f1bbcdc else 0xca62c1d6)"
proof -
  have root: "\<lfloor>2 ^ 30 * sqrt x\<rfloor> = k" if "0 \<le> k" "real_of_int (k ^ 2) \<le> 2 ^ 60 * x" "2 ^ 60 * x < real_of_int ((k + 1) ^ 2)" for k :: int and x :: real
  proof -
    have r: "2 ^ 30 * sqrt x = sqrt (2 ^ 60 * x)"
      by (simp add: real_sqrt_mult real_sqrt_power [symmetric] flip: power_mult_distrib)
    have "real_of_int k \<le> sqrt (2 ^ 60 * x)"
      using that(2) by (intro real_le_rsqrt) simp
    moreover have "sqrt (2 ^ 60 * x) < real_of_int (k + 1)"
      using that(1,3) by (intro real_less_lsqrt) simp_all
    ultimately show ?thesis
      unfolding r by (intro floor_unique) simp_all
  qed
  have "\<lfloor>2 ^ 30 * sqrt 2\<rfloor> = 0x5a827999" "\<lfloor>2 ^ 30 * sqrt 3\<rfloor> = 0x6ed9eba1"
    "\<lfloor>2 ^ 30 * sqrt 5\<rfloor> = 0x8f1bbcdc" "\<lfloor>2 ^ 30 * sqrt 10\<rfloor> = 0xca62c1d6"
    by (rule root; simp)+
  then show ?thesis
    by (simp add: fips_K_def)
qed

lemma base256_word:
  "(of_nat (base256 [b0, b1, b2, b3]) :: u32) =
     push_bit 24 (ucast b0) OR push_bit 16 (ucast b1) OR push_bit 8 (ucast b2) OR ucast b3"
proof -
  have disj: "x OR y = x + y" if "\<And>n. \<not> (bit x n \<and> bit y n)" for x y :: u32
  proof -
    have "x AND y = 0"
      using that by (intro bit_word_eqI) (auto simp: bit_and_iff)
    then show ?thesis
      using word_plus_and_or [of x y] by simp
  qed
  have small: "bit (ucast b :: u32) n \<Longrightarrow> n < 8" for b :: byte and n
    by (auto simp: bit_ucast_iff dest: bit_imp_le_length)
  have w: "ucast b = (of_nat (unat b) :: u32)" for b :: byte
    by simp
  have "push_bit 24 (ucast b0) OR push_bit 16 (ucast b1) OR push_bit 8 (ucast b2) OR (ucast b3 :: u32) =
      push_bit 24 (ucast b0) + (push_bit 16 (ucast b1) + (push_bit 8 (ucast b2) + ucast b3))"
    by (subst disj, (auto simp: bit_or_iff bit_push_bit_iff dest!: small)[1])+ (rule refl)
  then show ?thesis
    by (simp add: base256_def push_bit_eq_mult algebra_simps)
qed

lemma load_word_base256:
  assumes "length M = 64" and "t < 16"
  shows "sha1_load_word M t = of_nat (base256 (take 4 (drop (4 * t) M)))"
proof -
  have "take 4 (drop (4 * t) M) = [M ! (t * 4), M ! (t * 4 + 1), M ! (t * 4 + 2), M ! (t * 4 + 3)]"
    using assms by (intro nth_equalityI) (auto simp: less_Suc_eq numeral_eq_Suc mult.commute)
  then show ?thesis
    by (simp add: sha1_load_word_def base256_word)
qed

lemma schedule_W:
  assumes "length M = 64"
  shows "sha1_schedule M = map (fips_W M) [0..<80]"
proof -
  have "foldl (\<lambda>w i. w @ [rol32 (w ! (i - 3) XOR w ! (i - 8) XOR w ! (i - 14) XOR w ! (i - 16)) 1])
      (map (sha1_load_word M) [0..<16]) [16..<n] = map (fips_W M) [0..<n]" if "16 \<le> n" for n
    using that
  proof (induction n rule: dec_induct)
    case base
    show ?case
      by (simp, subst fips_W.simps, simp add: load_word_base256 [OF assms])
  next
    case (step n)
    then show ?case
      by (simp add: fips_W.simps [of M n] rol32_rotl)
  qed
  then show ?thesis
    unfolding sha1_schedule_def by this simp
qed

lemma round_step:
  assumes "length M = 64" and "t < 80"
  shows "sha1_round (sha1_schedule M) regs t = fips_step M regs t"
proof -
  have ch: "(x AND y) OR (NOT x AND z) = fips_ch x y z" for x y z
    by (rule bit_word_eqI) (auto simp: fips_ch_def bit_simps)
  have maj: "(x AND y) OR (x AND z) OR (y AND z) = fips_maj x y z" for x y z
    by (rule bit_word_eqI) (auto simp: fips_maj_def bit_simps)
  show ?thesis
    using assms by (auto simp: sha1_round_def fips_step_def schedule_W rol32_rotl fips_f_def fips_K_values fips_parity_def ch maj split: prod.split)
qed

lemma compress_block: "length M = 64 \<Longrightarrow> sha1_compress H M = fips_block H M"
  using foldl_cong [OF refl refl, of "[0..<80]" "sha1_round (sha1_schedule M)" "fips_step M"] round_step
  by (simp add: sha1_compress_def fips_block_def add.commute)

lemma blocks64_length: "M \<in> set (blocks64 s) \<Longrightarrow> length M = 64"
  by (induction s rule: blocks64.induct) (subst (asm) (2) blocks64.simps, auto split: if_splits)

lemma hash_blocks: "sha1_hash s = foldl fips_block sha1_h0 (blocks64 s)"
  unfolding sha1_hash_def by (rule foldl_cong) (simp_all add: compress_block blocks64_length)

lemma hex_word_bytes: "hex20 (be_bytes32 v) = hex_word v"
proof -
  have hi: "unat (drop_bit 4 (ucast (drop_bit k v) :: byte)) = unat v div 2 ^ (k + 4) mod 16"
    and lo: "unat ((ucast (drop_bit k v) :: byte) AND 15) = unat v div 2 ^ k mod 16" for k
  proof -
    have drop: "unat (drop_bit k v) = unat v div 2 ^ k"
      by (subst unat_drop_bit_eq) (rule drop_bit_eq_div)
    then have byte: "unat (ucast (drop_bit k v) :: byte) = unat v div 2 ^ k mod 256"
      by (simp add: unsigned_ucast_eq take_bit_eq_mod)
    have "x mod 256 div 16 = x div 16 mod (16 :: nat)" for x
      using mod_mult2_eq [of x 16 16] by simp
    then show "unat (drop_bit 4 (ucast (drop_bit k v) :: byte)) = unat v div 2 ^ (k + 4) mod 16"
      by (subst unat_drop_bit_eq, subst drop_bit_eq_div) (simp add: byte power_add div_mult2_eq)
    show "unat ((ucast (drop_bit k v) :: byte) AND 15) = unat v div 2 ^ k mod 16"
      using unat_and_exp_minus_1 [of "ucast (drop_bit k v) :: byte" 4] by (simp add: byte mod_mod_cancel)
  qed
  show ?thesis
    by (simp only: hex20_def be_bytes32_def hex_word_def hex_digits_def [symmetric] upt_8 list.map concat.simps append.simps
        hi lo hi [of 0, unfolded drop_bit_0 id_apply] lo [of 0, unfolded drop_bit_0 id_apply]) simp
qed

lemma hex_words: "hex20 (concat (map be_bytes32 ws)) = concat (map hex_word ws)"
proof (induction ws)
  case (Cons w ws)
  then show ?case
    using hex_word_bytes [of w] by (simp add: hex20_def)
qed (simp add: hex20_def)

text \<open>The example of the standard, the digest of \<open>abc\<close>: its padded block, the schedule of the block and
  the registers after every twenty rounds.\<close>

definition abc_schedule :: "u32 list" where
  "abc_schedule =
    [0x61626380, 0x0, 0x0, 0x0, 0x0, 0x0, 0x0, 0x0,
     0x0, 0x0, 0x0, 0x0, 0x0, 0x0, 0x0, 0x18,
     0xc2c4c700, 0x0, 0x30, 0x85898e01, 0x0, 0x60, 0xb131c03, 0x30,
     0x85898ec1, 0x16263806, 0x0, 0x180, 0x2c4c700c, 0xf0, 0x93afb507, 0x5898e048,
     0x8e9a9202, 0x600, 0xb131c0f0, 0x16263bc6, 0x4ebed41e, 0x626380a1, 0x16263806, 0x18c0,
     0xd2e138c4, 0xf00, 0x3afb5079, 0x898e04e5, 0xe2ba3c2b, 0x60c0, 0x53a37cd, 0x74458547,
     0xda9415ed, 0x26380a16, 0x626383a1, 0x4ebf54de, 0x3835b44b, 0xf600, 0x1e84c7a3, 0x98e04d98,
     0x651d16a0, 0x62658ca1, 0x458544d6, 0x44584cb7, 0x7ba06619, 0x6380aea2, 0xae55269, 0x627b49a1,
     0x7cd45c9d, 0xf0000, 0xfb50753a, 0xec6765e8, 0xba3c2be2, 0x60c000, 0x3a37cd05, 0x458546f4,
     0xb8599dd6, 0x380a1a26, 0x1e02203, 0xe7cc3456, 0xe6e60b69, 0xf60a00, 0x5795ef4f, 0x822e0879]"

lemma upt_first:
  "[0..<16] = 0 # Suc 0 # [2..<16]" "[0..<20] = 0 # Suc 0 # [2..<20]" "[0..<80] = 0 # Suc 0 # [2..<80]"
  by (simp_all only: upt_conv_Cons Suc_1 numeral_less_iff zero_less_numeral one_less_numeral_iff less_num_simps One_nat_def [symmetric])

lemma abc_block: "sha1_pad (cstr ''abc'') = cstr ''abc'' @ 0x80 # replicate 52 0 @ [0, 0, 0, 0, 0, 0, 0, 0x18]"
  by (simp add: sha1_pad_def upt_8)

lemma abc_W: "sha1_schedule (cstr ''abc'' @ 0x80 # replicate 52 0 @ [0, 0, 0, 0, 0, 0, 0, 0x18]) = abc_schedule"
proof -
  have words: "map (sha1_load_word (cstr ''abc'' @ 0x80 # replicate 52 0 @ [0, 0, 0, 0, 0, 0, 0, 0x18])) [0..<16] = take 16 abc_schedule"
    by (simp add: sha1_load_word_def abc_schedule_def upt_first nth_append)
  have w0: "foldl (\<lambda>w i. w @ [rol32 (w ! (i - 3) XOR w ! (i - 8) XOR w ! (i - 14) XOR w ! (i - 16)) 1]) (take 16 abc_schedule) [16..<32] = take 32 abc_schedule"
    by (simp add: abc_schedule_def rol32_def)
  have w1: "foldl (\<lambda>w i. w @ [rol32 (w ! (i - 3) XOR w ! (i - 8) XOR w ! (i - 14) XOR w ! (i - 16)) 1]) (take 32 abc_schedule) [32..<48] = take 48 abc_schedule"
    by (simp add: abc_schedule_def rol32_def)
  have w2: "foldl (\<lambda>w i. w @ [rol32 (w ! (i - 3) XOR w ! (i - 8) XOR w ! (i - 14) XOR w ! (i - 16)) 1]) (take 48 abc_schedule) [48..<64] = take 64 abc_schedule"
    by (simp add: abc_schedule_def rol32_def)
  have w3: "foldl (\<lambda>w i. w @ [rol32 (w ! (i - 3) XOR w ! (i - 8) XOR w ! (i - 14) XOR w ! (i - 16)) 1]) (take 64 abc_schedule) [64..<80] = take 80 abc_schedule"
    by (simp add: abc_schedule_def rol32_def)
  have "[16..<80] = [16..<32] @ [32..<48] @ [48..<64] @ [64..<80::nat]"
    by simp
  then show ?thesis
    unfolding sha1_schedule_def words by (simp only: foldl_append w0 w1 w2 w3) (simp add: abc_schedule_def)
qed

lemma abc_rounds:
  "foldl (sha1_round abc_schedule) (0x67452301, 0xefcdab89, 0x98badcfe, 0x10325476, 0xc3d2e1f0) [0..<20] =
    (0xfd9e1d7d, 0xdc64901d, 0x20aa99ca, 0xd3a49608, 0xc82f758b)"
  "foldl (sha1_round abc_schedule) (0xfd9e1d7d, 0xdc64901d, 0x20aa99ca, 0xd3a49608, 0xc82f758b) [20..<40] =
    (0x32de1cba, 0x4c986405, 0xf718e5cf, 0x3d447f6, 0xf72eec32)"
  "foldl (sha1_round abc_schedule) (0x32de1cba, 0x4c986405, 0xf718e5cf, 0x3d447f6, 0xf72eec32) [40..<60] =
    (0x3f52de5a, 0x9d785fd, 0x3498bfd4, 0xf211824f, 0xd79915ab)"
  "foldl (sha1_round abc_schedule) (0x3f52de5a, 0x9d785fd, 0x3498bfd4, 0xf211824f, 0xd79915ab) [60..<80] =
    (0x42541b35, 0x5738d5e1, 0x21834873, 0x681e6df6, 0xd8fdf6ad)"
  by (simp_all add: sha1_round_def rol32_def abc_schedule_def upt_first)

lemma sha1_abc: "sf37_kvstore_sha1_bytes_hex (cstr ''abc'') = cstr ''a9993e364706816aba3e25717850c26c9cd0d89d''"
proof -
  have split: "[0..<80] = [0..<20] @ [20..<40] @ [40..<60] @ [60..<80::nat]"
    by (simp add: upt_first)
  have start: "(sha1_h0 ! 0, sha1_h0 ! 1, sha1_h0 ! 2, sha1_h0 ! 3, sha1_h0 ! 4) = (0x67452301, 0xefcdab89, 0x98badcfe, 0x10325476, 0xc3d2e1f0)"
    by (simp add: sha1_h0_def)
  have "sha1_compress sha1_h0 (cstr ''abc'' @ 0x80 # replicate 52 0 @ [0, 0, 0, 0, 0, 0, 0, 0x18]) = [0xa9993e36, 0x4706816a, 0xba3e2571, 0x7850c26c, 0x9cd0d89d]"
    by (simp only: sha1_compress_def abc_W split foldl_append start abc_rounds) (simp add: sha1_h0_def)
  moreover have "blocks64 (cstr ''abc'' @ 0x80 # replicate 52 0 @ [0, 0, 0, 0, 0, 0, 0, 0x18]) = [cstr ''abc'' @ 0x80 # replicate 52 0 @ [0, 0, 0, 0, 0, 0, 0, 0x18]]"
    by (rule blocks64_one) simp
  ultimately have hash: "sha1_hash (sha1_pad (cstr ''abc'')) = [0xa9993e36, 0x4706816a, 0xba3e2571, 0x7850c26c, 0x9cd0d89d]"
    by (simp only: sha1_hash_def abc_block foldl_Cons foldl_Nil)
  show ?thesis
    unfolding sha1_bytes_hex_spec sha1_spec_def hash by (simp add: hex20_def be_bytes32_def hex_digits_def)
qed

text \<open>C38: the streaming SHA-1, with its partial block, its padding loop and its length
  field, computes for every byte string the digest of FIPS 180-4, in lower-case hexadecimal.
  The length field counts bits modulo \<open>2 ^ 64\<close>, as the standard wants for messages below that.\<close>

theorem sha1_refines_standard:
  "sf37_kvstore_sha1_bytes_hex s = fips_sha1_hex s"
  by (simp add: sha1_bytes_hex_spec sha1_spec_def hash_blocks hex_words fips_sha1_hex_def sha1_h0_def)

end
