(* ===== verification/KvPolicy.thy ===== *)
theory KvPolicy
  imports KvHeader Bpe "HOL-Library.Signed_Division"
begin

section \<open>What to store, and when\<close>

text \<open>
  The store record and the policy functions of \<open>sf37_kvstore.c\<close> that touch no file: where a
  cold checkpoint is cut (\<open>sf37_kvstore_store_len\<close>), the chat anchor, the schedule of
  continued checkpoints with its suppress/restore pair, the rendering of tokens, and the
  size accounting in 64-bit words. C's \<open>int\<close> division and remainder truncate towards
  zero: they are \<open>sdiv\<close> and \<open>smod\<close>. The log callback is left out.
\<close>

subsection \<open>The code\<close>

record kv_options =
  ko_min_tokens :: int
  ko_cold_max_tokens :: int
  ko_continued_interval_tokens :: int
  ko_boundary_trim_tokens :: int
  ko_boundary_align_tokens :: int

record kvstore =
  kc_enabled :: bool
  kc_dir :: bytes
  kc_budget_bytes :: u64
  kc_reject_different_quant :: bool
  kc_opt :: kv_options
  kc_continued_last_store_tokens :: int
  kc_entry :: "kv_entry list"

definition sf37_kvstore_default_options :: kv_options where
  "sf37_kvstore_default_options =
     \<lparr>ko_min_tokens = 512, ko_cold_max_tokens = 30000, ko_continued_interval_tokens = 10000,
      ko_boundary_trim_tokens = 32, ko_boundary_align_tokens = 2048\<rparr>"

definition kvstore_zero :: kvstore where
  "kvstore_zero = \<lparr>kc_enabled = False, kc_dir = [], kc_budget_bytes = 0,
     kc_reject_different_quant = False, kc_opt = \<lparr>ko_min_tokens = 0, ko_cold_max_tokens = 0,
     ko_continued_interval_tokens = 0, ko_boundary_trim_tokens = 0, ko_boundary_align_tokens = 0\<rparr>,
     kc_continued_last_store_tokens = 0, kc_entry = []\<rparr>"

definition sf37_kvstore_render_tokens_text :: "sf37_vocab option \<Rightarrow> tokens \<Rightarrow> bytes" where
  "sf37_kvstore_render_tokens_text engine ts =
     foldl (\<lambda>b t. b @ sf37_token_text engine t) [] ts"

definition sf37_kvstore_byte_prefix_match :: "bytes \<Rightarrow> bytes \<Rightarrow> bool" where
  "sf37_kvstore_byte_prefix_match text0 prefix0 \<longleftrightarrow>
     length prefix0 \<le> length text0 \<and>
     (prefix0 = [] \<or> take (length prefix0) text0 = prefix0)"

definition sf37_kvstore_tokens_copy_prefix :: "tokens option \<Rightarrow> int \<Rightarrow> tokens" where
  "sf37_kvstore_tokens_copy_prefix src n =
     (case src of None \<Rightarrow> []
      | Some src \<Rightarrow>
          let n = (if n > int (length src) then int (length src) else n)
          in foldl (\<lambda>dst i. sf37_tokens_push dst (src ! i)) [] [0..<nat n])"

definition tokens_append :: "tokens \<Rightarrow> tokens \<Rightarrow> tokens" where
  "tokens_append dst src = foldl sf37_tokens_push dst src"

definition sf37_kvstore_build_prompt ::
  "sf37_vocab option \<Rightarrow> tokens \<Rightarrow> bytes option \<Rightarrow> tokens" where
  "sf37_kvstore_build_prompt engine exact_prefix suffix_text =
     (let out = sf37_tokens_copy exact_prefix;
          suffix = sf37_tokenize_rendered_chat engine
                     (case suffix_text of None \<Rightarrow> [] | Some s \<Rightarrow> s) []
      in tokens_append out suffix)"

definition sf37_kvstore_store_len :: "kvstore \<Rightarrow> int \<Rightarrow> int" where
  "sf37_kvstore_store_len kc tokens =
     (let trim = ko_boundary_trim_tokens (kc_opt kc);
          align = ko_boundary_align_tokens (kc_opt kc);
          min_tokens = ko_min_tokens (kc_opt kc)
      in if tokens > min_tokens + trim then
           (let stable = tokens - trim;
                stable = (if align > 0 then stable - stable smod align else stable)
            in if stable \<ge> min_tokens then stable else tokens)
         else tokens)"

fun chat_anchor_scan :: "int \<Rightarrow> int \<Rightarrow> int \<Rightarrow> tokens \<Rightarrow> int \<Rightarrow> int" where
  "chat_anchor_scan user_token_id assistant_token_id i [] last_user = last_user"
| "chat_anchor_scan user_token_id assistant_token_id i (token # ts) last_user =
     (if token = assistant_token_id then last_user
      else chat_anchor_scan user_token_id assistant_token_id (i + 1) ts
             (if token = user_token_id then i else last_user))"

definition sf37_kvstore_chat_anchor_pos :: "kvstore \<Rightarrow> tokens option \<Rightarrow> int \<Rightarrow> int \<Rightarrow> int" where
  "sf37_kvstore_chat_anchor_pos kc prompt user_token_id assistant_token_id =
     (case prompt of None \<Rightarrow> -1
      | Some ts \<Rightarrow>
          if user_token_id < 0 \<or> assistant_token_id < 0 then -1
          else let last_user = chat_anchor_scan user_token_id assistant_token_id 0 ts (-1)
               in if last_user \<ge> ko_min_tokens (kc_opt kc) then last_user else -1)"

definition kv_cache_continued_step :: "kvstore \<Rightarrow> int" where
  "kv_cache_continued_step kc =
     (let step = ko_continued_interval_tokens (kc_opt kc);
          align = ko_boundary_align_tokens (kc_opt kc)
      in if \<not> kc_enabled kc \<or> step \<le> 0 then 0
         else if align > 0 then
           (let step = ((step + align - 1) sdiv align) * align
            in if step \<le> 0 then align else step)
         else step)"

definition sf37_kvstore_continued_store_target :: "kvstore \<Rightarrow> int \<Rightarrow> int" where
  "sf37_kvstore_continued_store_target kc live_tokens =
     (let step = kv_cache_continued_step kc
      in if step \<le> 0 then 0
         else if live_tokens < ko_min_tokens (kc_opt kc) then 0
         else if live_tokens smod step \<noteq> 0 then 0
         else if live_tokens \<le> kc_continued_last_store_tokens kc then 0
         else live_tokens)"

definition sf37_kvstore_note_store :: "kvstore \<Rightarrow> int \<Rightarrow> kvstore" where
  "sf37_kvstore_note_store kc tokens =
     (if tokens > kc_continued_last_store_tokens kc
      then kc\<lparr>kc_continued_last_store_tokens := tokens\<rparr> else kc)"

definition sf37_kvstore_suppress_continued_store :: "kvstore \<Rightarrow> int \<Rightarrow> int \<times> kvstore" where
  "sf37_kvstore_suppress_continued_store kc tokens =
     (if sf37_kvstore_continued_store_target kc tokens \<noteq> tokens then (-1, kc)
      else (kc_continued_last_store_tokens kc, sf37_kvstore_note_store kc tokens))"

definition sf37_kvstore_restore_suppressed_continued :: "kvstore \<Rightarrow> int \<Rightarrow> int \<Rightarrow> kvstore" where
  "sf37_kvstore_restore_suppressed_continued kc old_tokens suppressed_tokens =
     (if old_tokens \<ge> 0 \<and> kc_continued_last_store_tokens kc = suppressed_tokens
      then kc\<lparr>kc_continued_last_store_tokens := old_tokens\<rparr> else kc)"

abbreviation UINT64_MAX :: u64 where "UINT64_MAX \<equiv> - 1"

definition kv_cache_file_size_bytes :: "u64 \<Rightarrow> u64 \<Rightarrow> u64 \<Rightarrow> u64 option" where
  "kv_cache_file_size_bytes text_bytes payload_bytes trailer_bytes =
     (let fixed = of_nat SF37_KVSTORE_FIXED_HEADER + 4
      in if UINT64_MAX - fixed < text_bytes \<or>
            UINT64_MAX - fixed - text_bytes < payload_bytes \<or>
            UINT64_MAX - fixed - text_bytes - payload_bytes < trailer_bytes
         then None else Some (fixed + text_bytes + payload_bytes + trailer_bytes))"

definition kv_cache_budget_required :: "u64 \<Rightarrow> u64 option" where
  "kv_cache_budget_required file_bytes =
     (let slack = file_bytes div 100;
          slack = (if file_bytes mod 100 \<noteq> 0 then slack + 1 else slack)
      in if UINT64_MAX - file_bytes < slack then None else Some (file_bytes + slack))"

text \<open>The result and the two out parameters, which the callers set to 0 before the call.\<close>

definition sf37_kvstore_file_size_fits ::
  "kvstore option \<Rightarrow> u64 \<Rightarrow> u64 \<Rightarrow> u64 \<Rightarrow> bool \<times> u64 \<times> u64" where
  "sf37_kvstore_file_size_fits kc text_bytes payload_bytes trailer_bytes =
     (case kv_cache_file_size_bytes text_bytes payload_bytes trailer_bytes of
        None \<Rightarrow> (False, 0, 0)
      | Some file_bytes \<Rightarrow>
          (case kc of
             None \<Rightarrow> (True, file_bytes, 0)
           | Some kc \<Rightarrow>
               if kc_budget_bytes kc = 0 then (True, file_bytes, 0)
               else (case kv_cache_budget_required file_bytes of
                       None \<Rightarrow> (False, file_bytes, 0)
                     | Some required \<Rightarrow>
                         (required \<le> kc_budget_bytes kc, file_bytes, required))))"

subsection \<open>Token vectors and rendering\<close>

lemma foldl_push: "foldl sf37_tokens_push dst src = dst @ src"
  by (induction src arbitrary: dst) (simp_all add: sf37_tokens_push_def)

lemma tokens_copy [simp]: "sf37_tokens_copy src = src"
  by (simp add: sf37_tokens_copy_def foldl_push)

lemma tokens_append [simp]: "tokens_append dst src = dst @ src"
  by (simp add: tokens_append_def foldl_push)

lemma tokens_copy_prefix [simp]:
  "sf37_kvstore_tokens_copy_prefix (Some src) n = take (nat n) src"
proof -
  have "foldl (\<lambda>dst i. sf37_tokens_push dst (src ! i)) d [0..<m] = d @ take m src"
    if "m \<le> length src" for m d
    using that by (induction m) (simp_all add: sf37_tokens_push_def take_Suc_conv_app_nth)
  from this [of "nat (min n (int (length src)))" "[]"] show ?thesis
    by (auto simp: sf37_kvstore_tokens_copy_prefix_def Let_def min_def split: if_splits)
qed

lemma render_tokens_text:
  "sf37_kvstore_render_tokens_text engine ts = concat (map (sf37_token_text engine) ts)"
proof -
  have "foldl (\<lambda>b t. b @ sf37_token_text engine t) b ts
      = b @ concat (map (sf37_token_text engine) ts)" for b
    by (induction ts arbitrary: b) simp_all
  then show ?thesis
    by (simp add: sf37_kvstore_render_tokens_text_def)
qed

lemma byte_prefix_match: "sf37_kvstore_byte_prefix_match s p \<longleftrightarrow> (\<exists>r. s = p @ r)"
  unfolding sf37_kvstore_byte_prefix_match_def by (auto intro: exI [of _ "drop (length p) s"])
    (metis append_take_drop_id)

lemma starts_with: "sf37_tokens_starts_with ts ps \<longleftrightarrow> take (length ps) ts = ps"
  by (induction ts ps rule: sf37_tokens_starts_with.induct) auto

subsection \<open>Anchors and steps\<close>

lemma chat_anchor_scan_spec:
  "chat_anchor_scan u a i ts l =
     (let ps = takeWhile (\<lambda>t. t \<noteq> a) ts
      in if u \<in> set ps then i + int (length ps) - 1 - int (length (takeWhile (\<lambda>t. t \<noteq> u) (rev ps)))
         else l)"
proof (induction ts arbitrary: i l)
  case (Cons t ts)
  have "length (takeWhile (\<lambda>t. t \<noteq> u) (rev ps @ [t])) =
      (if u \<in> set ps then length (takeWhile (\<lambda>t. t \<noteq> u) (rev ps))
       else length ps + (if t = u then 0 else 1))" for ps
    by (cases "u \<in> set ps") (auto simp: takeWhile_append)
  then show ?case
    using Cons by (auto simp: Let_def)
qed simp

lemma continued_step_cases:
  "kv_cache_continued_step kc = 0 \<or>
   0 < kv_cache_continued_step kc \<and>
   (0 < ko_boundary_align_tokens (kc_opt kc) \<longrightarrow>
      ko_boundary_align_tokens (kc_opt kc) dvd kv_cache_continued_step kc)"
  by (auto simp: kv_cache_continued_step_def Let_def)

lemma continued_step_ge:
  assumes "0 < kv_cache_continued_step kc"
  shows "ko_continued_interval_tokens (kc_opt kc) \<le> kv_cache_continued_step kc"
proof -
  define s where "s = ko_continued_interval_tokens (kc_opt kc)"
  define a where "a = ko_boundary_align_tokens (kc_opt kc)"
  have pos: "0 < s" "kc_enabled kc"
    using assms by (auto simp: kv_cache_continued_step_def Let_def s_def split: if_splits)
  show ?thesis
  proof (cases "0 < a")
    case True
    have q: "(s + a - 1) sdiv a = (s + a - 1) div a"
      using True pos by (simp add: signed_divide_int_def)
    have "s \<le> (s + a - 1) div a * a"
      using True pos by (smt (verit) div_mult_mod_eq pos_mod_bound)
    then show ?thesis
      using True pos q by (simp add: kv_cache_continued_step_def Let_def s_def [symmetric] a_def [symmetric])
  next
    case False
    then show ?thesis
      using pos by (simp add: kv_cache_continued_step_def Let_def s_def a_def)
  qed
qed

subsection \<open>Sizes in 64 bits\<close>

lemma unat_uint64_max: "unat UINT64_MAX = 2 ^ 64 - 1"
  by (simp add: unsigned_minus_1_eq_mask mask_eq_exp_minus_1)

lemma add_overflow: "UINT64_MAX - a < b \<longleftrightarrow> 2 ^ 64 \<le> unat a + unat (b :: u64)"
proof -
  have "unat (UINT64_MAX - a) = 2 ^ 64 - 1 - unat a"
    by (simp only: unat_sub [OF word_n1_ge] unat_uint64_max)
  moreover have "unat a < 2 ^ 64"
    using unsigned_less [of a, where 'a = nat] by simp
  ultimately show ?thesis
    unfolding word_less_nat_alt by linarith
qed

lemma file_size_bytes_spec:
  "kv_cache_file_size_bytes tb pb xb =
     (if 52 + unat tb + unat pb + unat xb < 2 ^ 64 then Some (52 + tb + pb + xb) else None)"
proof -
  have fixed: "of_nat SF37_KVSTORE_FIXED_HEADER + 4 = (52 :: u64)" "unat (52 :: u64) = 52"
    by simp_all
  have sub: "UINT64_MAX - 52 - tb = UINT64_MAX - (52 + tb)"
    "UINT64_MAX - (52 + tb) - pb = UINT64_MAX - (52 + tb + pb)"
    by (simp_all add: algebra_simps)
  show ?thesis
    unfolding kv_cache_file_size_bytes_def Let_def fixed(1) sub add_overflow
    using unat_add_no_overflow [of 52 tb] unat_add_no_overflow [of "52 + tb" pb] fixed(2)
    by (auto split: if_splits)
qed

lemma unat_file_size:
  "52 + unat tb + unat pb + unat (xb :: u64) < 2 ^ 64 \<Longrightarrow>
   unat (52 + tb + pb + xb) = 52 + unat tb + unat pb + unat xb"
  using unat_add_no_overflow [of 52 tb] unat_add_no_overflow [of "52 + tb" pb]
    unat_add_no_overflow [of "52 + tb + pb" xb]
  by simp

text \<open>One percent, rounded up.\<close>

definition with_slack :: "nat \<Rightarrow> nat" where
  "with_slack n = n + (n + 99) div 100"

lemma slack_ceiling: "(if n mod 100 \<noteq> 0 then n div 100 + 1 else n div 100) = (n + 99) div (100::nat)"
  by (auto simp: div_add1_eq [of n 99 100])

lemma budget_required_spec:
  "kv_cache_budget_required fb =
     (if with_slack (unat fb) < 2 ^ 64 then Some (of_nat (with_slack (unat fb))) else None)"
proof -
  let ?s = "if fb mod 100 \<noteq> 0 then fb div 100 + 1 else fb div 100"
  have d: "unat (fb div 100) = unat fb div 100" "fb mod 100 \<noteq> 0 \<longleftrightarrow> unat fb mod 100 \<noteq> 0"
    by (simp_all add: unat_div unat_mod flip: unat_eq_0)
  have small: "unat fb div 100 + 1 < 2 ^ 64"
    using unsigned_less [of fb, where 'a = nat] by simp
  have "unat (fb div 100 + 1) = unat fb div 100 + 1"
    using unat_add_no_overflow [of "fb div 100" 1] small d(1) by simp
  then have u: "unat ?s = (unat fb + 99) div 100"
    unfolding slack_ceiling [symmetric] using d by simp
  have w: "fb + ?s = of_nat (with_slack (unat fb))"
    unfolding with_slack_def u [symmetric] by simp
  show ?thesis
    unfolding kv_cache_budget_required_def Let_def add_overflow u w
    by (simp add: with_slack_def)
qed

lemma file_size_fits_eq:
  "sf37_kvstore_file_size_fits (Some kc) tb pb xb =
     (let n = 52 + unat tb + unat pb + unat xb in
      if 2 ^ 64 \<le> n then (False, 0, 0)
      else if kc_budget_bytes kc = 0 then (True, of_nat n, 0)
      else if 2 ^ 64 \<le> with_slack n then (False, of_nat n, 0)
      else (with_slack n \<le> unat (kc_budget_bytes kc), of_nat n, of_nat (with_slack n)))"
proof -
  let ?n = "52 + unat tb + unat pb + unat xb"
  have w: "52 + tb + pb + xb = of_nat ?n"
    by simp
  show ?thesis
  proof (cases "?n < 2 ^ 64")
    case True
    then have u: "unat (of_nat ?n :: u64) = ?n"
      by (simp only: unat_of_nat) simp
    have "(of_nat (with_slack ?n) \<le> kc_budget_bytes kc) = (with_slack ?n \<le> unat (kc_budget_bytes kc))"
      if "with_slack ?n < 2 ^ 64"
    proof -
      have "unat (of_nat (with_slack ?n) :: u64) = with_slack ?n"
        using that by (simp only: unat_of_nat) simp
      then show ?thesis
        by (simp only: word_le_nat_alt)
    qed
    then show ?thesis
      using True u unfolding sf37_kvstore_file_size_fits_def file_size_bytes_spec w
      by (simp only: budget_required_spec Let_def option.case if_True not_le simp_thms if_False
          split: if_split) auto
  qed (simp add: sf37_kvstore_file_size_fits_def file_size_bytes_spec Let_def)
qed

lemma store_len_cases:
  assumes "0 \<le> ko_min_tokens (kc_opt kc)" and "0 \<le> ko_boundary_trim_tokens (kc_opt kc)"
  shows "sf37_kvstore_store_len kc t = t \<or>
    ko_min_tokens (kc_opt kc) \<le> sf37_kvstore_store_len kc t \<and>
    sf37_kvstore_store_len kc t \<le> t - ko_boundary_trim_tokens (kc_opt kc) \<and>
    t - ko_boundary_trim_tokens (kc_opt kc) - sf37_kvstore_store_len kc t
      < max 1 (ko_boundary_align_tokens (kc_opt kc)) \<and>
    (0 < ko_boundary_align_tokens (kc_opt kc) \<longrightarrow>
       ko_boundary_align_tokens (kc_opt kc) dvd sf37_kvstore_store_len kc t)"
proof -
  define a where "a = ko_boundary_align_tokens (kc_opt kc)"
  define m where "m = ko_min_tokens (kc_opt kc)"
  define r where "r = ko_boundary_trim_tokens (kc_opt kc)"
  show ?thesis
  proof (cases "t > m + r \<and> 0 < a")
    case True
    then have "(t - r) smod a = (t - r) mod a"
      using assms by (simp add: signed_modulo_int_def m_def r_def sgn_if)
    moreover have "0 \<le> (t - r) mod a" "(t - r) mod a < a" "a dvd (t - r) - (t - r) mod a"
      using True by (simp_all add: dvd_minus_mod)
    ultimately show ?thesis
      using True unfolding sf37_kvstore_store_len_def Let_def a_def [symmetric] m_def [symmetric]
        r_def [symmetric]
      by (auto simp: max_def simp del: minus_mod_eq_mult_div)
  next
    case False
    then show ?thesis
      unfolding sf37_kvstore_store_len_def Let_def a_def [symmetric] m_def [symmetric]
        r_def [symmetric]
      by (auto simp: max_def)
  qed
qed

lemma continued_target_nonzero:
  assumes "sf37_kvstore_continued_store_target kc t \<noteq> 0"
  shows "sf37_kvstore_continued_store_target kc t = t \<and> 0 < kv_cache_continued_step kc \<and>
    kv_cache_continued_step kc dvd t \<and> kc_continued_last_store_tokens kc < t \<and>
    ko_min_tokens (kc_opt kc) \<le> t"
proof -
  have "kv_cache_continued_step kc dvd t" if "t smod kv_cache_continued_step kc = 0"
  proof -
    have "t = t sdiv kv_cache_continued_step kc * kv_cache_continued_step kc"
      using that sdiv_mult_smod_eq [of t "kv_cache_continued_step kc"] by simp
    then show ?thesis
      by (metis dvd_triv_right)
  qed
  then show ?thesis
    using assms by (auto simp: sf37_kvstore_continued_store_target_def Let_def split: if_splits)
qed

lemma note_store_simps [simp]:
  "kc_opt (sf37_kvstore_note_store kc t) = kc_opt kc"
  "kc_enabled (sf37_kvstore_note_store kc t) = kc_enabled kc"
  "kc_continued_last_store_tokens (sf37_kvstore_note_store kc t) =
     max t (kc_continued_last_store_tokens kc)"
  "kv_cache_continued_step (sf37_kvstore_note_store kc t) = kv_cache_continued_step kc"
  by (simp_all add: sf37_kvstore_note_store_def max_def kv_cache_continued_step_def)

subsection \<open>Properties\<close>

text \<open>the size test in wrapping 64-bit words is exact: it accepts a checkpoint just when
  header, text, payload and trailer together stay below \<open>2 ^ 64\<close> and, with a budget, their
  sum plus one percent (rounded up) is within the budget; the reported sizes are the true
  ones.\<close>

theorem file_size_fits_exact:
  "sf37_kvstore_file_size_fits (Some kc) tb pb xb =
     (let n = 52 + unat tb + unat pb + unat xb in
      if 2 ^ 64 \<le> n then (False, 0, 0)
      else if kc_budget_bytes kc = 0 then (True, of_nat n, 0)
      else if 2 ^ 64 \<le> with_slack n then (False, of_nat n, 0)
      else (with_slack n \<le> unat (kc_budget_bytes kc), of_nat n, of_nat (with_slack n)))"
  by (rule file_size_fits_eq)

text \<open>the cut of a cold checkpoint is the whole prompt or an aligned length that keeps the
  minimum, drops the boundary tail, and drops less than one alignment step beyond it.\<close>

theorem store_len_aligned:
  assumes "0 \<le> ko_min_tokens (kc_opt kc)" and "0 \<le> ko_boundary_trim_tokens (kc_opt kc)"
    and "sf37_kvstore_store_len kc t \<noteq> t"
  shows "ko_min_tokens (kc_opt kc) \<le> sf37_kvstore_store_len kc t \<and>
    sf37_kvstore_store_len kc t \<le> t - ko_boundary_trim_tokens (kc_opt kc) \<and>
    t - ko_boundary_trim_tokens (kc_opt kc) - sf37_kvstore_store_len kc t
      < max 1 (ko_boundary_align_tokens (kc_opt kc)) \<and>
    (ko_boundary_align_tokens (kc_opt kc) \<le> 0 \<or>
       ko_boundary_align_tokens (kc_opt kc) dvd sf37_kvstore_store_len kc t)"
  using store_len_cases [OF assms(1,2), of t] assms(3) by force

definition demo_store :: kvstore where
  "demo_store = kvstore_zero\<lparr>kc_enabled := True, kc_opt := sf37_kvstore_default_options\<rparr>"

theorem store_len_aligned_witness:
  "sf37_kvstore_store_len demo_store 5000 = 4096 \<and> (2048::int) dvd 4096 \<and> (512::int) \<le> 4096"
proof -
  have "sf37_kvstore_store_len demo_store 5000 = 4096"
    by code_simp
  then show ?thesis
    using store_len_aligned [of demo_store 5000]
    by (simp add: demo_store_def sf37_kvstore_default_options_def)
qed

text \<open>continued checkpoints are spaced: once one is noted at a position, no target comes
  up again before the configured interval has passed.\<close>

theorem continued_store_spacing:
  assumes "sf37_kvstore_continued_store_target kc t \<noteq> 0"
    and "sf37_kvstore_continued_store_target (sf37_kvstore_note_store kc t) u \<noteq> 0"
  shows "t + ko_continued_interval_tokens (kc_opt kc) \<le> u"
proof -
  let ?s = "kv_cache_continued_step kc"
  have t: "0 < ?s" "?s dvd t"
    using continued_target_nonzero [OF assms(1)] by auto
  have u: "?s dvd u" "t < u"
    using continued_target_nonzero [OF assms(2)] by auto
  have "?s \<le> u - t"
    using t u by (intro zdvd_imp_le dvd_diff) auto
  then show ?thesis
    using continued_step_ge [OF t(1)] by simp
qed

theorem continued_store_spacing_witness:
  "sf37_kvstore_continued_store_target demo_store 10240 \<noteq> 0 \<and>
   sf37_kvstore_continued_store_target (sf37_kvstore_note_store demo_store 10240) 20480 \<noteq> 0 \<and>
   (10240 :: int) + 10000 \<le> 20480"
proof -
  have "sf37_kvstore_continued_store_target demo_store 10240 \<noteq> 0"
    "sf37_kvstore_continued_store_target (sf37_kvstore_note_store demo_store 10240) 20480 \<noteq> 0"
    by code_simp+
  with continued_store_spacing [OF this] show ?thesis
    by (simp add: demo_store_def sf37_kvstore_default_options_def)
qed

text \<open>suppressing a continued checkpoint and restoring afterwards is the identity on the
  store, and while it is suppressed its position is no target.\<close>

theorem suppress_restore:
  assumes "0 \<le> kc_continued_last_store_tokens kc"
    and "sf37_kvstore_suppress_continued_store kc t = (old, kc')"
  shows "sf37_kvstore_restore_suppressed_continued kc' old t = kc \<and>
    (old < 0 \<or> sf37_kvstore_continued_store_target kc' t = 0)"
proof -
  have "sf37_kvstore_continued_store_target (sf37_kvstore_note_store kc t) t = 0"
    using continued_target_nonzero [of "sf37_kvstore_note_store kc t" t] by fastforce
  then show ?thesis
    using assms continued_target_nonzero [of kc t]
    by (cases "t = 0")
      (auto simp: sf37_kvstore_suppress_continued_store_def sf37_kvstore_note_store_def
        sf37_kvstore_restore_suppressed_continued_def split: if_splits)
qed

theorem suppress_restore_witness:
  "sf37_kvstore_restore_suppressed_continued
     (snd (sf37_kvstore_suppress_continued_store demo_store 10240)) 0 10240 = demo_store"
proof -
  have f: "fst (sf37_kvstore_suppress_continued_store demo_store 10240) = 0"
    by code_simp
  have "0 \<le> kc_continued_last_store_tokens demo_store"
    by (simp add: demo_store_def kvstore_zero_def)
  then show ?thesis
    using suppress_restore [of demo_store 10240 0] f
    by (metis prod.collapse)
qed

text \<open>the chat anchor is the last user marker before the first assistant marker, or -1
  when there is none or it comes before the minimum length.\<close>

theorem chat_anchor_last_user:
  assumes "0 \<le> ko_min_tokens (kc_opt kc)" and "u \<noteq> a" and "0 \<le> u" and "0 \<le> a"
  shows "sf37_kvstore_chat_anchor_pos kc (Some ts) u a =
    (let ps = takeWhile (\<lambda>t. t \<noteq> a) ts;
         r = int (length ps) - 1 - int (length (takeWhile (\<lambda>t. t \<noteq> u) (rev ps)))
     in if u \<in> set ps \<and> ko_min_tokens (kc_opt kc) \<le> r then r else -1)"
  using assms by (auto simp: sf37_kvstore_chat_anchor_pos_def chat_anchor_scan_spec Let_def)

theorem chat_anchor_last_user_witness:
  "sf37_kvstore_chat_anchor_pos (demo_store\<lparr>kc_opt := (kc_opt demo_store)\<lparr>ko_min_tokens := 1\<rparr>\<rparr>)
     (Some [7, 5, 5, 8, 5]) 5 8 = 2"
  using chat_anchor_last_user
    [of "demo_store\<lparr>kc_opt := (kc_opt demo_store)\<lparr>ko_min_tokens := 1\<rparr>\<rparr>" 5 8 "[7, 5, 5, 8, 5]"]
  by (simp add: Let_def)

end
