(* ===== verification/KvStore.thy ===== *)
theory KvStore
  imports KvPolicy Sha1 Complex_Main "HOL-Library.AList"
begin

section \<open>The checkpoint directory\<close>

text \<open>
  The part of \<open>sf37_kvstore.c\<close> that works on the cache directory: listing and checking the
  files, touching, scoring and evicting them, storing a checkpoint through a temporary file,
  finding the longest stored text that starts a prompt, and loading it.

  The operating system is a record: the files in \<open>readdir\<close> order with their contents, the
  clock, the process id as it is printed, and a predicate that says which calls fail. A call
  that fails changes nothing. A file being read is the list of its unread bytes. The session
  and the trailer hooks are records of functions, as the code calls them; \<open>double\<close> scores
  are reals. Log lines and error texts are left out.
\<close>

subsection \<open>The operating system\<close>

datatype os_call = Mkdir bytes | Opendir bytes | Stat bytes | Fopen_read bytes
  | Fopen_update bytes | Fopen_create bytes | Fwrite bytes | Ftruncate bytes | Fclose bytes
  | Rename bytes | Unlink bytes

record kv_os =
  os_files :: "(bytes \<times> bytes) list"
  os_time :: u64
  os_pid_text :: bytes
  os_fail :: "os_call \<Rightarrow> bool"

definition os_read :: "kv_os \<Rightarrow> bytes \<Rightarrow> bytes option" where
  "os_read os path =
     (if os_fail os (Fopen_read path) then None else map_of (os_files os) path)"

definition os_write :: "kv_os \<Rightarrow> bytes \<Rightarrow> bytes \<Rightarrow> kv_os" where
  "os_write os path content = os\<lparr>os_files := AList.update path content (os_files os)\<rparr>"

definition os_unlink :: "kv_os \<Rightarrow> bytes \<Rightarrow> bool \<times> kv_os" where
  "os_unlink os path =
     (if os_fail os (Unlink path) \<or> map_of (os_files os) path = None then (False, os)
      else (True, os\<lparr>os_files := AList.delete path (os_files os)\<rparr>))"

definition os_rename :: "kv_os \<Rightarrow> bytes \<Rightarrow> bytes \<Rightarrow> bool \<times> kv_os" where
  "os_rename os from to =
     (case map_of (os_files os) from of
        None \<Rightarrow> (False, os)
      | Some c \<Rightarrow>
          if os_fail os (Rename from) then (False, os)
          else (True, os\<lparr>os_files := AList.update to c (AList.delete from (os_files os))\<rparr>))"

subsection \<open>Names and paths\<close>

definition isxdigit :: "byte \<Rightarrow> bool" where
  "isxdigit c \<longleftrightarrow> ascii_digit c \<or> (c \<ge> 0x41 \<and> c \<le> 0x46) \<or> (c \<ge> 0x61 \<and> c \<le> 0x66)"

definition tolower :: "byte \<Rightarrow> byte" where
  "tolower c = (if c \<ge> 0x41 \<and> c \<le> 0x5a then c + 0x20 else c)"

definition sf37_kvstore_sha_hex_name :: "bytes \<Rightarrow> bytes option" where
  "sf37_kvstore_sha_hex_name name =
     (if length name \<noteq> 43 \<or> drop 40 name \<noteq> cstr ''.kv'' then None
      else if list_all isxdigit (take 40 name) then Some (map tolower (take 40 name))
      else None)"

definition sf37_kvstore_path_join :: "bytes \<Rightarrow> bytes \<Rightarrow> bytes" where
  "sf37_kvstore_path_join dir name =
     (if dir = [] \<or> last dir \<noteq> 0x2f then dir @ [0x2f] else dir) @ name"

definition sf37_kvstore_path_for_sha :: "kvstore \<Rightarrow> bytes \<Rightarrow> bytes" where
  "sf37_kvstore_path_for_sha kc sha =
     sf37_kvstore_path_join (kc_dir kc) (take 40 sha @ cstr ''.kv'')"

text \<open>A directory that already exists is no failure of \<open>mkdir\<close> here.\<close>

definition kv_mkdir_p :: "kv_os \<Rightarrow> bytes \<Rightarrow> bool" where
  "kv_mkdir_p os path =
     (path \<noteq> [] \<and>
      list_all (\<lambda>i. \<not> os_fail os (Mkdir (take i path)))
        (filter (\<lambda>i. path ! i = 0x2f) [1..<length path]) \<and>
      \<not> os_fail os (Mkdir path))"

text \<open>What \<open>readdir\<close> returns for a directory: the names of the files right below it.\<close>

definition os_readdir :: "kv_os \<Rightarrow> bytes \<Rightarrow> bytes list" where
  "os_readdir os dir =
     (let p = sf37_kvstore_path_join dir []
      in map (drop (length p))
           (filter (\<lambda>f. take (length p) f = p \<and> 0x2f \<notin> set (drop (length p) f))
              (map fst (os_files os))))"

subsection \<open>Reading and refreshing entries\<close>

definition sf37_kvstore_clear :: "kvstore \<Rightarrow> kvstore" where
  "sf37_kvstore_clear kc = kc\<lparr>kc_entry := []\<rparr>"

definition kv_cache_push :: "kvstore \<Rightarrow> kv_entry \<Rightarrow> kvstore" where
  "kv_cache_push kc e = kc\<lparr>kc_entry := kc_entry kc @ [e]\<rparr>"

definition sf37_kvstore_read_entry_file :: "kv_os \<Rightarrow> bytes \<Rightarrow> bytes \<Rightarrow> kv_entry option" where
  "sf37_kvstore_read_entry_file os path sha =
     (case (if os_fail os (Stat path) then None else map_of (os_files os) path) of
        None \<Rightarrow> None
      | Some content \<Rightarrow>
          if length content < SF37_KVSTORE_FIXED_HEADER + 4 then None
          else (case os_read os path of
                  None \<Rightarrow> None
                | Some fp \<Rightarrow>
                    (case sf37_kvstore_read_header fp kv_entry_zero of
                       None \<Rightarrow> None
                     | Some (e, text_bytes, _) \<Rightarrow>
                         (let fixed = of_nat SF37_KVSTORE_FIXED_HEADER + 4;
                              tb = ucast text_bytes :: u64;
                              st_size = of_nat (length content) :: u64
                          in if UINT64_MAX - fixed < tb \<or> UINT64_MAX - fixed - tb < ke_payload_bytes e
                             then None
                             else if st_size < fixed + tb + ke_payload_bytes e then None
                             else Some (e\<lparr>ke_sha := sha, ke_path := path, ke_file_size := st_size\<rparr>)))))"

definition kv_cache_refresh :: "kv_os \<Rightarrow> kvstore \<Rightarrow> kvstore" where
  "kv_cache_refresh os kc =
     (if \<not> kc_enabled kc then kc
      else
        let kc = sf37_kvstore_clear kc in
        if os_fail os (Opendir (kc_dir kc)) then kc
        else foldl (\<lambda>kc name.
               case sf37_kvstore_sha_hex_name name of
                 None \<Rightarrow> kc
               | Some sha \<Rightarrow>
                   (case sf37_kvstore_read_entry_file os (sf37_kvstore_path_join (kc_dir kc) name) sha of
                      None \<Rightarrow> kc
                    | Some e \<Rightarrow> kv_cache_push kc e))
             kc (os_readdir os (kc_dir kc)))"

text \<open>Opening a file for update gives its content; what is written at the front replaces
  as many bytes.\<close>

definition sf37_kvstore_touch_file :: "kv_os \<Rightarrow> bytes \<Rightarrow> u32 \<Rightarrow> bool \<times> kv_os" where
  "sf37_kvstore_touch_file os path hits =
     (case (if os_fail os (Fopen_update path) then None else map_of (os_files os) path) of
        None \<Rightarrow> (False, os)
      | Some fp \<Rightarrow>
          (case sf37_kvstore_read_header fp kv_entry_zero of
             None \<Rightarrow> (False, os)
           | Some (e, _, _) \<Rightarrow>
               (let h = sf37_kvstore_fill_header (ke_model_id e) (ke_quant_bits e) (ke_reason e)
                          (ke_ext_flags e) (ke_tokens e) hits (ke_ctx_size e)
                          (ke_created_at e) (os_time os) (ke_payload_bytes e)
                in if os_fail os (Fwrite path) then (False, os)
                   else (True, os_write os path (h @ drop (length h) fp)))))"

subsection \<open>Eviction\<close>

record kv_eviction_context =
  ec_text :: "bytes option"
  ec_model_id :: byte
  ec_quant_bits :: byte
  ec_ctx_size :: u32
  ec_reject_different_quant :: bool

definition kv_cache_incoming_supersedes_continued ::
  "kv_entry \<Rightarrow> kv_eviction_context option \<Rightarrow> bool" where
  "kv_cache_incoming_supersedes_continued e incoming =
     (case incoming of None \<Rightarrow> False
      | Some i \<Rightarrow>
          (case ec_text i of None \<Rightarrow> False
           | Some text0 \<Rightarrow>
               ke_reason e = kv_reason_byte REASON_CONTINUED \<and>
               ke_text_bytes e \<noteq> 0 \<and>
               unat (ke_text_bytes e) < length text0 \<and>
               ke_model_id e = ec_model_id i \<and>
               \<not> (ec_reject_different_quant i \<and> ke_quant_bits e \<noteq> ec_quant_bits i) \<and>
               ec_ctx_size i \<le> ke_ctx_size e \<and>
               sf37_kvstore_sha1_bytes_hex (take (unat (ke_text_bytes e)) text0) = ke_sha e))"

definition kv_cache_reason_is_anchor :: "byte \<Rightarrow> bool" where
  "kv_cache_reason_is_anchor reason \<longleftrightarrow>
     reason = kv_reason_byte REASON_COLD \<or> reason = kv_reason_byte REASON_EVICT \<or>
     reason = kv_reason_byte REASON_SHUTDOWN"

text \<open>\<open>exp2\<close> is \<open>2 powr\<close>; the half life is six hours.\<close>

definition sf37_kvstore_entry_eviction_score ::
  "kv_entry \<Rightarrow> u64 \<Rightarrow> kv_eviction_context option \<Rightarrow> real" where
  "sf37_kvstore_entry_eviction_score e now incoming =
     (if ke_file_size e = 0 then 0
      else
        let used_at = (if ke_last_used e \<noteq> 0 then ke_last_used e else ke_created_at e);
            hits = real (unat (ke_hits e));
            effective_hits =
              (if used_at = 0 then 0
               else if now > used_at then
                 (let h = hits * (2 powr (- real (unat (now - used_at)) / (6 * 60 * 60)))
                  in if h < 1 / 100 then 0 else h)
               else hits);
            score = (effective_hits + 1) * real (unat (ke_tokens e)) / real (unat (ke_file_size e));
            score = (if kv_cache_reason_is_anchor (ke_reason e) then score * 2 else score)
        in if kv_cache_incoming_supersedes_continued e incoming then
             (let h = (if effective_hits > 0 then effective_hits / (effective_hits + 1) else 0)
              in score * (5 / 100 + 45 / 100 * h))
           else score)"

text \<open>The inner loop: the entry of least score, the least recently used among equals, the
  first among those.\<close>

definition evict_victim :: "(kv_entry \<Rightarrow> real) \<Rightarrow> kv_entry list \<Rightarrow> nat" where
  "evict_victim score es =
     foldl (\<lambda>victim i.
         if score (es ! i) < score (es ! victim) \<or>
            score (es ! i) = score (es ! victim) \<and>
            ke_last_used (es ! i) < ke_last_used (es ! victim)
         then i else victim)
       0 [1..<length es]"

lemma evict_victim_less: "es \<noteq> [] \<Longrightarrow> evict_victim score es < length es"
proof -
  have "v < n \<Longrightarrow> (\<And>i. i \<in> set js \<Longrightarrow> i < n) \<Longrightarrow> foldl (\<lambda>v i. if P v i then i else v) v js < n"
    for v n js and P :: "nat \<Rightarrow> nat \<Rightarrow> bool"
    by (induction js arbitrary: v) auto
  from this [of 0 "length es" "[1..<length es]"] show "es \<noteq> [] \<Longrightarrow> ?thesis"
    by (simp add: evict_victim_def)
qed

lemma evict_shrink:
  "es \<noteq> [] \<Longrightarrow>
   min (length es) (evict_victim score es) + (length es - Suc (evict_victim score es)) < length es"
  using evict_victim_less [of es score] by simp

function evict_loop ::
  "(kv_entry \<Rightarrow> real) \<Rightarrow> u64 \<Rightarrow> kv_os \<Rightarrow> u64 \<Rightarrow> kv_entry list \<Rightarrow> kv_os \<times> kv_entry list" where
  "evict_loop score target os tot es =
     (if tot > target \<and> es \<noteq> [] then
        (let victim = evict_victim score es;
             e = es ! victim;
             (ok, os') = os_unlink os (ke_path e);
             tot' = (if ok then (if tot \<ge> ke_file_size e then tot - ke_file_size e else 0) else 0)
         in evict_loop score target os' tot' (take victim es @ drop (victim + 1) es))
      else (os, es))"
  by pat_completeness auto
termination
  by (relation "measure (\<lambda>(_, _, _, _, es). length es)") (simp_all add: evict_shrink)

declare evict_loop.simps [simp del]

definition sf37_kvstore_evict ::
  "kv_os \<Rightarrow> kvstore \<Rightarrow> u64 \<Rightarrow> kv_eviction_context option \<Rightarrow> kv_os \<times> kvstore" where
  "sf37_kvstore_evict os kc extra_bytes incoming =
     (if \<not> kc_enabled kc \<or> kc_budget_bytes kc = 0 then (os, kc)
      else if extra_bytes > kc_budget_bytes kc then (os, kc)
      else
        let kc = kv_cache_refresh os kc;
            now = os_time os;
            tot = foldl (\<lambda>t e. t + ke_file_size e) 0 (kc_entry kc);
            target = kc_budget_bytes kc - extra_bytes;
            (os', es) = evict_loop (\<lambda>e. sf37_kvstore_entry_eviction_score e now incoming)
                          target os tot (kc_entry kc)
        in (os', kc\<lparr>kc_entry := es\<rparr>))"

definition sf37_kvstore_open ::
  "kv_os \<Rightarrow> bytes option \<Rightarrow> u64 \<Rightarrow> bool \<Rightarrow> kv_options \<Rightarrow> bool \<times> kv_os \<times> kvstore" where
  "sf37_kvstore_open os dir budget_mb reject_different_quant opt =
     (case dir of
        None \<Rightarrow> (False, os, kvstore_zero)
      | Some dir \<Rightarrow>
          if \<not> kv_mkdir_p os dir then (False, os, kvstore_zero)
          else
            let budget_mb = (if budget_mb = 0 then 4096 else budget_mb);
                kc = kvstore_zero\<lparr>kc_enabled := True, kc_dir := dir,
                       kc_budget_bytes := budget_mb * 1024 * 1024,
                       kc_reject_different_quant := reject_different_quant, kc_opt := opt\<rparr>;
                (os', kc') = sf37_kvstore_evict os kc 0 None
            in (True, os', kc'))"

definition sf37_kvstore_close :: "kvstore \<Rightarrow> kvstore" where
  "sf37_kvstore_close kc = kvstore_zero"

subsection \<open>Sessions and trailer hooks\<close>

text \<open>The session functions the store calls: \<open>sf37_session_tokens\<close>, \<open>sf37_session_ctx\<close>,
  \<open>sf37_session_stage_payload\<close> (the staged bytes, or a failure), \<open>sf37_session_load_payload\<close>
  (the new session, the unread rest of the file, and whether it succeeded) and
  \<open>sf37_session_rewind\<close>. The hooks are \<open>sf37_kvstore_trailer_hooks\<close>; writing one gives the
  success flag, the bytes appended to the file and the count it reports.\<close>

record 's session_ops =
  so_tokens :: "'s \<Rightarrow> tokens option"
  so_ctx :: "'s \<Rightarrow> int"
  so_stage :: "'s \<Rightarrow> bytes option"
  so_load :: "'s \<Rightarrow> bytes \<Rightarrow> u64 \<Rightarrow> 's \<times> bytes \<times> bool"
  so_rewind :: "'s \<Rightarrow> int \<Rightarrow> 's"

record 'u trailer_hooks =
  th_ext_flag :: byte
  th_serialized_size :: "('u \<Rightarrow> bytes \<Rightarrow> bool \<times> u64) option"
  th_write :: "('u \<Rightarrow> bytes \<Rightarrow> bool \<times> bytes \<times> u64) option"
  th_load :: "('u \<Rightarrow> bytes \<Rightarrow> 'u) option"

definition kv_trailer_serialized_size ::
  "'u trailer_hooks option \<Rightarrow> 'u \<Rightarrow> bytes \<Rightarrow> bool \<times> u64" where
  "kv_trailer_serialized_size hooks ud text0 =
     (case hooks of None \<Rightarrow> (True, 0)
      | Some h \<Rightarrow> (case th_serialized_size h of None \<Rightarrow> (True, 0) | Some f \<Rightarrow> f ud text0))"

definition kv_trailer_write ::
  "'u trailer_hooks option \<Rightarrow> 'u \<Rightarrow> bytes \<Rightarrow> bool \<times> bytes \<times> u64" where
  "kv_trailer_write hooks ud text0 =
     (case hooks of None \<Rightarrow> (True, [], 0)
      | Some h \<Rightarrow> (case th_write h of None \<Rightarrow> (True, [], 0) | Some f \<Rightarrow> f ud text0))"

subsection \<open>Storing\<close>

definition kv_cache_file_text_matches :: "kv_os \<Rightarrow> bytes \<Rightarrow> bytes \<Rightarrow> bytes \<Rightarrow> bool" where
  "kv_cache_file_text_matches os path sha text0 =
     (if length text0 > 2 ^ 32 - 1 then False
      else (case os_read os path of
              None \<Rightarrow> False
            | Some fp \<Rightarrow>
                (case sf37_kvstore_read_header fp kv_entry_zero of
                   None \<Rightarrow> False
                 | Some (_, text_bytes, rest) \<Rightarrow>
                     if text_bytes \<noteq> of_nat (length text0) \<or> length rest < unat text_bytes then False
                     else
                       let stored = take (unat text_bytes) rest
                       in sf37_kvstore_sha1_bytes_hex stored = sha \<and> stored = text0)))"

definition kv_cache_existing_compatible ::
  "kv_os \<Rightarrow> kvstore \<Rightarrow> bytes \<Rightarrow> bytes \<Rightarrow> bytes \<Rightarrow> byte \<Rightarrow> byte \<Rightarrow> int \<Rightarrow> bool \<times> kv_os" where
  "kv_cache_existing_compatible os kc path sha text0 model_id quant_bits ctx_size =
     (if map_of (os_files os) path = None then (False, os)
      else (case sf37_kvstore_read_entry_file os path sha of
              None \<Rightarrow> (False, os)
            | Some e \<Rightarrow>
                if ke_model_id e = model_id \<and>
                   (\<not> kc_reject_different_quant kc \<or> ke_quant_bits e = quant_bits) \<and>
                   ke_ctx_size e \<le> of_int ctx_size \<and>
                   kv_cache_file_text_matches os path sha text0
                then (True, os)
                else (False, snd (os_unlink os path))))"

text \<open>The trailer is cut off and written anew; the header then gets the extension flag.
  A trailer hook that fails has still written its bytes.\<close>

definition kv_cache_rewrite_trailer ::
  "kv_os \<Rightarrow> bytes \<Rightarrow> bytes \<Rightarrow> 'u trailer_hooks option \<Rightarrow> 'u \<Rightarrow> kv_os" where
  "kv_cache_rewrite_trailer os path text0 hooks ud =
     (case hooks of None \<Rightarrow> os
      | Some hk \<Rightarrow>
          if th_write hk = None \<or> th_serialized_size hk = None then os
          else
            let (size_ok, trailer_est) = kv_trailer_serialized_size hooks ud text0 in
            if \<not> size_ok \<or> trailer_est = 0 then os
            else (case (if os_fail os (Fopen_update path) then None
                        else map_of (os_files os) path) of
                    None \<Rightarrow> os
                  | Some fp \<Rightarrow>
                      (case sf37_kvstore_read_header fp kv_entry_zero of
                         None \<Rightarrow> os
                       | Some (hdr, text_bytes, _) \<Rightarrow>
                           (let end_pos = of_nat SF37_KVSTORE_FIXED_HEADER + 4 + ucast text_bytes +
                                            ke_payload_bytes hdr :: u64
                            in if end_pos > 2 ^ 63 - 1 \<or> os_fail os (Ftruncate path) then os
                               else
                                 let body = take (unat end_pos) fp @
                                            replicate (unat end_pos - length fp) 0;
                                     (w_ok, w, written) = kv_trailer_write hooks ud text0;
                                     w = (if os_fail os (Fwrite path) then [] else w);
                                     os1 = os_write os path (body @ w)
                                 in if \<not> w_ok \<or> os_fail os (Fwrite path) \<or> written = 0 then os1
                                    else
                                      let h = sf37_kvstore_fill_header (ke_model_id hdr)
                                                (ke_quant_bits hdr) (ke_reason hdr)
                                                (ke_ext_flags hdr OR th_ext_flag hk)
                                                (ke_tokens hdr) (ke_hits hdr) (ke_ctx_size hdr)
                                                (ke_created_at hdr) (os_time os)
                                                (ke_payload_bytes hdr)
                                      in os_write os1 path (h @ drop (length h) (body @ w))))))"

text \<open>The second half of \<open>sf37_kvstore_store_live_prefix_text\<close>: eviction, the temporary
  file, the final size check and the rename. A failing write leaves the temporary file
  empty; it is removed like every temporary file of a failed store.\<close>

definition kv_store_write ::
  "kv_os \<Rightarrow> kvstore \<Rightarrow> bytes \<Rightarrow> bytes \<Rightarrow> bytes \<Rightarrow> u64 \<Rightarrow> byte \<Rightarrow> nat \<Rightarrow> byte \<Rightarrow> int \<Rightarrow>
   'u trailer_hooks option \<Rightarrow> 'u \<Rightarrow> bool \<times> kv_os \<times> kvstore" where
  "kv_store_write os kc path text0 staged est_file_bytes ext_flags n_tokens reason_code ctx hooks ud =
     (let payload_bytes = of_nat (length staged) :: u64;
          incoming = \<lparr>ec_text = Some text0, ec_model_id = SF37_KVSTORE_MODEL_ID,
                      ec_quant_bits = SF37_KVSTORE_QUANT_BITS, ec_ctx_size = of_int ctx,
                      ec_reject_different_quant = kc_reject_different_quant kc\<rparr>;
          (os2, kc2) = sf37_kvstore_evict os kc est_file_bytes (Some incoming);
          tmp = path @ cstr ''.tmp.'' @ os_pid_text os2
      in if os_fail os2 (Fopen_create tmp) then (False, os2, kc2)
         else
           let h = sf37_kvstore_fill_header SF37_KVSTORE_MODEL_ID SF37_KVSTORE_QUANT_BITS
                     reason_code ext_flags (of_nat n_tokens) 0 (of_int ctx)
                     (os_time os2) (os_time os2) payload_bytes;
               tb = sf37_kvstore_le_put32 (of_nat (length text0));
               (hook_ok, w, trailer_bytes) = kv_trailer_write hooks ud text0;
               w_ok = (hook_ok \<and> \<not> os_fail os2 (Fwrite tmp));
               os3 = os_write os2 tmp
                       (if os_fail os2 (Fwrite tmp) then [] else h @ tb @ text0 @ staged @ w);
               c_ok = (w_ok \<and> \<not> os_fail os3 (Fclose tmp));
               s_ok = (c_ok \<and> fst (sf37_kvstore_file_size_fits (Some kc2)
                        (of_nat (length text0)) payload_bytes trailer_bytes));
               (ok, os4) = (if s_ok then os_rename os3 tmp path else (False, os3))
           in if ok then (True, os4, kc2) else (False, snd (os_unlink os4 tmp), kc2))"

definition sf37_kvstore_store_live_prefix_text ::
  "'s session_ops \<Rightarrow> kv_os \<Rightarrow> kvstore \<Rightarrow> sf37_vocab option \<Rightarrow> 's \<Rightarrow> tokens option \<Rightarrow> int \<Rightarrow>
   bytes option \<Rightarrow> bytes option \<Rightarrow> byte \<Rightarrow> 'u trailer_hooks option \<Rightarrow> 'u \<Rightarrow>
   bool \<times> kv_os \<times> kvstore" where
  "sf37_kvstore_store_live_prefix_text ops os kc engine session tokens store_len reason
      cache_text_override cache_text_ext hooks ud =
     (if \<not> kc_enabled kc then (False, os, kc)
      else if tokens = None \<or> store_len < ko_min_tokens (kc_opt kc) then (False, os, kc)
      else
        let store_tokens = sf37_kvstore_tokens_copy_prefix tokens store_len in
        case so_tokens ops session of
          None \<Rightarrow> (False, os, kc)
        | Some live_tokens \<Rightarrow>
            if length live_tokens \<noteq> length store_tokens \<or>
               \<not> sf37_tokens_starts_with live_tokens store_tokens
            then (False, os, kc)
            else
              let text_override = (case cache_text_override of None \<Rightarrow> False | Some s \<Rightarrow> s \<noteq> []);
                  text0 = (if text_override then the cache_text_override
                           else sf37_kvstore_render_tokens_text engine store_tokens)
              in if length text0 > 2 ^ 32 - 1 then (False, os, kc)
                 else
                   let (size_ok, trailer_est_bytes) = kv_trailer_serialized_size hooks ud text0 in
                   if \<not> size_ok then (False, os, kc)
                   else
                     let sha = sf37_kvstore_sha1_bytes_hex text0;
                         path = sf37_kvstore_path_for_sha kc sha;
                         ctx = so_ctx ops session;
                         (compatible, os1) = kv_cache_existing_compatible os kc path sha text0
                           SF37_KVSTORE_MODEL_ID SF37_KVSTORE_QUANT_BITS ctx
                     in if compatible then
                          (True, kv_cache_rewrite_trailer os1 path text0 hooks ud, kc)
                        else (case so_stage ops session of
                            None \<Rightarrow> (False, os1, kc)
                          | Some staged \<Rightarrow>
                              let (fits, est_file_bytes, _) = sf37_kvstore_file_size_fits (Some kc)
                                    (of_nat (length text0)) (of_nat (length staged)) trailer_est_bytes
                              in if \<not> fits then (False, os1, kc)
                                 else
                                   let ext_flags = (case hooks of
                                           Some hk \<Rightarrow> if trailer_est_bytes > 0 then th_ext_flag hk else 0
                                         | None \<Rightarrow> 0);
                                       ext_flags = (if text_override then ext_flags OR cache_text_ext
                                                    else ext_flags)
                                   in kv_store_write os1 kc path text0 staged est_file_bytes ext_flags
                                        (length store_tokens) (sf37_kvstore_reason_code reason) ctx
                                        hooks ud))"

definition sf37_kvstore_store_live_prefix ::
  "'s session_ops \<Rightarrow> kv_os \<Rightarrow> kvstore \<Rightarrow> sf37_vocab option \<Rightarrow> 's \<Rightarrow> tokens option \<Rightarrow> int \<Rightarrow>
   bytes option \<Rightarrow> 'u trailer_hooks option \<Rightarrow> 'u \<Rightarrow> bool \<times> kv_os \<times> kvstore" where
  "sf37_kvstore_store_live_prefix ops os kc engine session tokens store_len reason hooks ud =
     sf37_kvstore_store_live_prefix_text ops os kc engine session tokens store_len reason
       None 0 hooks ud"

definition sf37_kvstore_maybe_store_continued ::
  "'s session_ops \<Rightarrow> kv_os \<Rightarrow> kvstore \<Rightarrow> sf37_vocab option \<Rightarrow> 's \<Rightarrow>
   'u trailer_hooks option \<Rightarrow> 'u \<Rightarrow> bool \<times> kv_os \<times> kvstore" where
  "sf37_kvstore_maybe_store_continued ops os kc engine session hooks ud =
     (case so_tokens ops session of
        None \<Rightarrow> (False, os, kc)
      | Some tokens \<Rightarrow>
          let target = sf37_kvstore_continued_store_target kc (int (length tokens))
          in if target = 0 then (False, os, kc)
             else (case sf37_kvstore_store_live_prefix ops os kc engine session (Some tokens) target
                          (Some (cstr ''continued'')) hooks ud of
                     (stored, os', kc') \<Rightarrow>
                       if stored then (True, os', sf37_kvstore_note_store kc' target)
                       else (False, os', kc')))"

subsection \<open>Finding and loading\<close>

definition find_candidate :: "kvstore \<Rightarrow> bytes \<Rightarrow> byte \<Rightarrow> byte \<Rightarrow> int \<Rightarrow> kv_entry \<Rightarrow> bool" where
  "find_candidate kc prompt_text model_id quant_bits ctx_size e \<longleftrightarrow>
     \<not> (unat (ke_text_bytes e) > length prompt_text) \<and>
     \<not> (sint (ke_tokens e) < ko_min_tokens (kc_opt kc)) \<and>
     ke_model_id e = model_id \<and>
     \<not> (of_int ctx_size < ke_ctx_size e) \<and>
     \<not> (kc_reject_different_quant kc \<and> ke_quant_bits e \<noteq> quant_bits)"

definition find_step ::
  "kvstore \<Rightarrow> bytes \<Rightarrow> byte \<Rightarrow> byte \<Rightarrow> int \<Rightarrow> nat option \<Rightarrow> nat \<Rightarrow> nat option" where
  "find_step kc prompt_text model_id quant_bits ctx_size best i =
     (let e = kc_entry kc ! i in
      if \<not> find_candidate kc prompt_text model_id quant_bits ctx_size e then best
      else if (case best of None \<Rightarrow> False
               | Some j \<Rightarrow> let b = kc_entry kc ! j in
                   ke_text_bytes e < ke_text_bytes b \<or>
                   ke_text_bytes e = ke_text_bytes b \<and> ke_tokens e \<le> ke_tokens b) then best
      else if sf37_kvstore_sha1_bytes_hex (take (unat (ke_text_bytes e)) prompt_text) = ke_sha e
           then Some i else best)"

definition sf37_kvstore_find_text_prefix ::
  "kv_os \<Rightarrow> kvstore \<Rightarrow> bytes option \<Rightarrow> byte \<Rightarrow> byte \<Rightarrow> int \<Rightarrow> nat option \<times> kvstore" where
  "sf37_kvstore_find_text_prefix os kc prompt_text model_id quant_bits ctx_size =
     (case prompt_text of None \<Rightarrow> (None, kc)
      | Some s \<Rightarrow>
          let kc = kv_cache_refresh os kc
          in (foldl (find_step kc s model_id quant_bits ctx_size) None [0..<length (kc_entry kc)], kc))"

record kv_load_result =
  lr_tokens :: int
  lr_text_bytes :: u32
  lr_quant_bits :: byte
  lr_ext_flags :: byte
  lr_consumed :: bool
  lr_path :: bytes

record ('s, 'u) kv_load_state =
  ld_tokens :: int
  ld_os :: kv_os
  ld_kc :: kvstore
  ld_session :: 's
  ld_ud :: 'u
  ld_effective_prompt :: tokens
  ld_result :: "kv_load_result option"

definition kv_load_text_ok :: "bytes \<Rightarrow> bytes \<Rightarrow> bytes \<Rightarrow> bool" where
  "kv_load_text_ok prompt_text sha cached_text \<longleftrightarrow>
     sf37_kvstore_sha1_bytes_hex cached_text = sha \<and>
     sf37_kvstore_byte_prefix_match prompt_text cached_text"

definition sf37_kvstore_try_load_text ::
  "'s session_ops \<Rightarrow> kv_os \<Rightarrow> kvstore \<Rightarrow> sf37_vocab option \<Rightarrow> 's \<Rightarrow> bytes option \<Rightarrow>
   'u trailer_hooks option \<Rightarrow> 'u \<Rightarrow> ('s, 'u) kv_load_state" where
  "sf37_kvstore_try_load_text ops os kc engine session prompt_text hooks ud =
     (let miss = (\<lambda>os kc session. \<lparr>ld_tokens = 0, ld_os = os, ld_kc = kc, ld_session = session,
                    ld_ud = ud, ld_effective_prompt = [], ld_result = None\<rparr>)
      in if \<not> kc_enabled kc then miss os kc session
         else (case prompt_text of None \<Rightarrow> miss os kc session | Some prompt \<Rightarrow>
           (case sf37_kvstore_find_text_prefix os kc (Some prompt) SF37_KVSTORE_MODEL_ID
                   SF37_KVSTORE_QUANT_BITS (so_ctx ops session) of
              (None, kc) \<Rightarrow> miss os kc session
            | (Some idx, kc) \<Rightarrow>
                let e = kc_entry kc ! idx; path = ke_path e in
                (case os_read os path of None \<Rightarrow> miss os kc session | Some fp \<Rightarrow>
                  (case sf37_kvstore_read_header fp kv_entry_zero of
                     None \<Rightarrow> miss os kc session
                   | Some (hdr, text_bytes, rest) \<Rightarrow>
                       if ke_model_id hdr \<noteq> SF37_KVSTORE_MODEL_ID then miss os kc session
                       else if unat text_bytes > length prompt then miss os kc session
                       else if length rest < unat text_bytes then miss os kc session
                       else if \<not> kv_load_text_ok prompt (ke_sha e) (take (unat text_bytes) rest)
                       then miss os kc session
                       else
                         (case so_load ops session (drop (unat text_bytes) rest) (ke_payload_bytes hdr) of
                            (session', trailer, payload_loaded) \<Rightarrow>
                              (case (if payload_loaded then so_tokens ops session' else None) of
                                 Some loaded_tokens \<Rightarrow>
                                   if int (length loaded_tokens) = sint (ke_tokens hdr) then
                                     let loaded = sint (ke_tokens hdr);
                                         effective = sf37_kvstore_build_prompt engine loaded_tokens
                                                       (Some (drop (unat text_bytes) prompt));
                                         ud' = (case hooks of None \<Rightarrow> ud
                                                | Some hk \<Rightarrow>
                                                    (case th_load hk of None \<Rightarrow> ud
                                                     | Some f \<Rightarrow>
                                                         if ke_ext_flags hdr AND th_ext_flag hk \<noteq> 0
                                                         then f ud trailer else ud))
                                     in if loaded > 0 then
                                          let kc' = kc\<lparr>kc_continued_last_store_tokens := loaded\<rparr>;
                                              consumed = (ko_cold_max_tokens (kc_opt kc) > 0 \<and>
                                                          loaded > ko_cold_max_tokens (kc_opt kc));
                                              os' = (if consumed then snd (os_unlink os path)
                                                     else snd (sf37_kvstore_touch_file os path (ke_hits hdr + 1)))
                                          in \<lparr>ld_tokens = loaded, ld_os = os', ld_kc = kc',
                                              ld_session = session', ld_ud = ud',
                                              ld_effective_prompt = effective,
                                              ld_result = Some \<lparr>lr_tokens = loaded,
                                                lr_text_bytes = text_bytes,
                                                lr_quant_bits = ke_quant_bits hdr,
                                                lr_ext_flags = ke_ext_flags hdr,
                                                lr_consumed = consumed, lr_path = path\<rparr>\<rparr>
                                        else \<lparr>ld_tokens = loaded, ld_os = os, ld_kc = kc,
                                              ld_session = session', ld_ud = ud',
                                              ld_effective_prompt = effective, ld_result = None\<rparr>
                                   else miss (snd (os_unlink os path)) kc (so_rewind ops session' 0)
                               | None \<Rightarrow> miss (snd (os_unlink os path)) kc (so_rewind ops session' 0))))))))"

subsection \<open>Names\<close>

lemma sha1_hex_chars:
  assumes "c \<in> set (sf37_kvstore_sha1_bytes_hex s)"
  shows "isxdigit c \<and> tolower c = c \<and> c \<noteq> 0x2f"
proof -
  have "\<forall>c \<in> set hex_digits. isxdigit c \<and> tolower c = c \<and> c \<noteq> 0x2f"
    by code_simp
  moreover have "c \<in> set hex_digits"
    using assms hex20_digits by (auto simp: sha1_bytes_hex_spec)
  ultimately show ?thesis
    by blast
qed

lemma sha_hex_name_sha1 [simp]:
  "sf37_kvstore_sha_hex_name (sf37_kvstore_sha1_bytes_hex s @ cstr ''.kv'')
     = Some (sf37_kvstore_sha1_bytes_hex s)"
  by (auto simp: sf37_kvstore_sha_hex_name_def list_all_iff sha1_hex_chars intro!: map_idI)

lemma path_for_sha1:
  "sf37_kvstore_path_for_sha kc (sf37_kvstore_sha1_bytes_hex s) =
     sf37_kvstore_path_join (kc_dir kc) (sf37_kvstore_sha1_bytes_hex s @ cstr ''.kv'')"
  by (simp add: sf37_kvstore_path_for_sha_def)

subsection \<open>The layout of a checkpoint file\<close>

text \<open>The bytes a store writes: header, text length, text, payload, trailer.\<close>

record kv_file =
  kf_reason :: byte
  kf_ext_flags :: byte
  kf_tokens :: u32
  kf_hits :: u32
  kf_ctx_size :: u32
  kf_created_at :: u64
  kf_last_used :: u64
  kf_text :: bytes
  kf_payload :: bytes
  kf_trailer :: bytes

definition kv_file_bytes :: "kv_file \<Rightarrow> bytes" where
  "kv_file_bytes f =
     sf37_kvstore_fill_header SF37_KVSTORE_MODEL_ID SF37_KVSTORE_QUANT_BITS (kf_reason f)
       (kf_ext_flags f) (kf_tokens f) (kf_hits f) (kf_ctx_size f) (kf_created_at f)
       (kf_last_used f) (of_nat (length (kf_payload f))) @
     sf37_kvstore_le_put32 (of_nat (length (kf_text f))) @ kf_text f @ kf_payload f @ kf_trailer f"

definition kv_file_ok :: "kv_file \<Rightarrow> bool" where
  "kv_file_ok f \<longleftrightarrow> kf_tokens f \<noteq> 0 \<and> kf_reason f \<le> 6 \<and> length (kf_text f) < 2 ^ 32 \<and>
     52 + length (kf_text f) + length (kf_payload f) + length (kf_trailer f) < 2 ^ 64"

definition kv_file_entry :: "kv_file \<Rightarrow> kv_entry" where
  "kv_file_entry f = kv_entry_zero\<lparr>ke_quant_bits := SF37_KVSTORE_QUANT_BITS,
     ke_reason := kf_reason f, ke_ext_flags := kf_ext_flags f, ke_model_id := SF37_KVSTORE_MODEL_ID,
     ke_tokens := kf_tokens f, ke_hits := kf_hits f, ke_ctx_size := kf_ctx_size f,
     ke_created_at := kf_created_at f, ke_last_used := kf_last_used f,
     ke_payload_bytes := of_nat (length (kf_payload f)),
     ke_text_bytes := of_nat (length (kf_text f))\<rparr>"

lemma length_kv_file_bytes:
  "length (kv_file_bytes f) = 52 + length (kf_text f) + length (kf_payload f) + length (kf_trailer f)"
  by (simp add: kv_file_bytes_def)

lemma ucast_of_nat_32: "n < 2 ^ 32 \<Longrightarrow> (ucast (of_nat n :: u32) :: u64) = of_nat n"
  by (rule word_unat_eq_iff [THEN iffD2]) (simp add: unsigned_ucast_eq unat_of_nat take_bit_nat_eq_self_iff)

lemma read_kv_file:
  assumes "kv_file_ok f"
  shows "sf37_kvstore_read_header (kv_file_bytes f) kv_entry_zero =
    Some (kv_file_entry f, of_nat (length (kf_text f)), kf_text f @ kf_payload f @ kf_trailer f)"
  using assms unfolding kv_file_bytes_def read_fill_header
  by (simp add: kv_file_ok_def kv_file_entry_def ucast_of_nat_32)

lemma read_entry_kv_file:
  assumes "kv_file_ok f" and "map_of (os_files os) path = Some (kv_file_bytes f)"
    and "\<not> os_fail os (Stat path)" and "\<not> os_fail os (Fopen_read path)"
  shows "sf37_kvstore_read_entry_file os path sha = Some ((kv_file_entry f)
    \<lparr>ke_sha := sha, ke_path := path, ke_file_size := of_nat (length (kv_file_bytes f))\<rparr>)"
proof -
  let ?t = "of_nat (length (kf_text f)) :: u64" and ?p = "of_nat (length (kf_payload f)) :: u64"
  have b: "length (kf_text f) < 2 ^ 32"
    "52 + length (kf_text f) + length (kf_payload f) + length (kf_trailer f) < 2 ^ 64"
    using assms(1) by (simp_all add: kv_file_ok_def)
  have u: "unat ?t = length (kf_text f)" "unat ?p = length (kf_payload f)"
    using b by (simp_all add: unat_of_nat_64)
  have fixed: "of_nat SF37_KVSTORE_FIXED_HEADER + 4 = (52 :: u64)"
    by simp
  have o1: "unat (52 + ?t) = 52 + length (kf_text f)"
    using unat_add_no_overflow [of 52 ?t] b by (simp add: u)
  have o2: "\<not> UINT64_MAX - 52 < ?t" "\<not> UINT64_MAX - (52 + ?t) < ?p"
    using b unfolding add_overflow o1 u by simp_all
  have o3: "unat (52 + ?t + ?p) = 52 + length (kf_text f) + length (kf_payload f)"
    using unat_add_no_overflow [of "52 + ?t" ?p] b unfolding o1 u by simp
  have "unat (of_nat (length (kv_file_bytes f)) :: u64) = length (kv_file_bytes f)"
    using b by (simp only: length_kv_file_bytes unat_of_nat_64)
  then have o4: "\<not> (of_nat (length (kv_file_bytes f)) :: u64) < 52 + ?t + ?p"
    unfolding word_less_nat_alt o3 by (simp add: length_kv_file_bytes)
  have len: "\<not> length (kv_file_bytes f) < SF37_KVSTORE_FIXED_HEADER + 4"
    by (simp add: length_kv_file_bytes)
  have pay: "ke_payload_bytes (kv_file_entry f) = ?p"
    by (simp add: kv_file_entry_def)
  have sub: "UINT64_MAX - 52 - ?t = UINT64_MAX - (52 + ?t)"
    by (simp add: algebra_simps)
  show ?thesis
    unfolding sf37_kvstore_read_entry_file_def os_read_def
    using assms(2-4) len o2 o4
    by (simp only: if_False option.case read_kv_file [OF assms(1)] prod.case Let_def fixed
        ucast_of_nat_32 [OF b(1)] pay sub simp_thms)
qed

lemma text_matches_kv_file:
  assumes "kv_file_ok f" and "map_of (os_files os) path = Some (kv_file_bytes f)"
    and "\<not> os_fail os (Fopen_read path)"
  shows "kv_cache_file_text_matches os path (sf37_kvstore_sha1_bytes_hex (kf_text f)) (kf_text f)"
proof -
  have "length (kf_text f) < 2 ^ 32"
    using assms(1) by (simp add: kv_file_ok_def)
  then show ?thesis
    using assms(2,3) read_kv_file [OF assms(1)]
    by (simp add: kv_cache_file_text_matches_def os_read_def unat_of_nat_32)
qed

subsection \<open>Headers that were read\<close>

lemma byte_bit_high: "8 \<le> n \<Longrightarrow> \<not> bit (b :: byte) n"
  using bit_imp_le_length [of b n] by auto

lemma le_put_get32: "length p = 4 \<Longrightarrow> sf37_kvstore_le_put32 (sf37_kvstore_le_get32 p) = p"
proof -
  assume "length p = 4"
  then obtain a b c d where p: "p = [a, b, c, d]"
    by (auto simp: length_Suc_conv numeral_nat)
  show ?thesis
    by (simp add: p sf37_kvstore_le_put32_def sf37_kvstore_le_get32_def byte_eq_iff bit_simps byte_bit_high)
qed

lemma read_header_Some:
  assumes "sf37_kvstore_read_header fp e = Some (e', tb, rest)"
  shows "fp = take 48 fp @ sf37_kvstore_le_put32 tb @ rest \<and> 48 \<le> length fp \<and>
    ke_tokens e' \<noteq> 0 \<and> ke_quant_bits e' = SF37_KVSTORE_QUANT_BITS \<and> ke_reason e' \<le> 6 \<and>
    ke_text_bytes e' = ucast tb \<and> ke_sha e' = ke_sha e \<and> ke_path e' = ke_path e \<and>
    ke_file_size e' = ke_file_size e"
proof -
  have len: "48 \<le> length fp" "4 \<le> length (drop 48 fp)"
    using assms by (auto simp: sf37_kvstore_read_header_def Let_def split: if_splits)
  have "tb = sf37_kvstore_le_get32 (take 4 (drop 48 fp))" and rest: "rest = drop 4 (drop 48 fp)"
    using assms by (auto simp: sf37_kvstore_read_header_def Let_def split: if_splits)
  then have "sf37_kvstore_le_put32 tb = take 4 (drop 48 fp)"
    using len by (simp add: le_put_get32)
  then have "drop 48 fp = sf37_kvstore_le_put32 tb @ rest"
    using rest by (metis append_take_drop_id)
  then have "fp = take 48 fp @ sf37_kvstore_le_put32 tb @ rest"
    by (metis append_take_drop_id)
  moreover have "ke_tokens e' \<noteq> 0 \<and> ke_quant_bits e' = SF37_KVSTORE_QUANT_BITS \<and> ke_reason e' \<le> 6 \<and>
    ke_text_bytes e' = ucast tb \<and> ke_sha e' = ke_sha e \<and> ke_path e' = ke_path e \<and>
    ke_file_size e' = ke_file_size e"
    using assms by (auto simp: sf37_kvstore_read_header_def Let_def split: if_splits)
  ultimately show ?thesis
    using len(1) by blast
qed

lemma drop48_read:
  assumes "sf37_kvstore_read_header fp e = Some (e', tb, rest)"
  shows "drop 48 fp = sf37_kvstore_le_put32 tb @ rest" and "length fp = 52 + length rest"
proof -
  have eq: "fp = take 48 fp @ sf37_kvstore_le_put32 tb @ rest" and le: "48 \<le> length fp"
    using read_header_Some [OF assms] by auto
  show d: "drop 48 fp = sf37_kvstore_le_put32 tb @ rest"
    using arg_cong [OF eq, of "drop 48"] le by simp
  show "length fp = 52 + length rest"
    using arg_cong [OF d, of length] le by simp
qed

text \<open>A header rewritten from the fields that were read differs from it in what was
  changed.\<close>

lemma read_refill:
  assumes "sf37_kvstore_read_header fp kv_entry_zero = Some (e, tb, rest)"
  shows "sf37_kvstore_read_header
      (sf37_kvstore_fill_header (ke_model_id e) (ke_quant_bits e) (ke_reason e) x (ke_tokens e) hi
        (ke_ctx_size e) (ke_created_at e) lu (ke_payload_bytes e) @ sf37_kvstore_le_put32 tb @ rest')
      kv_entry_zero
    = Some (e\<lparr>ke_ext_flags := x, ke_hits := hi, ke_last_used := lu\<rparr>, tb, rest')"
  using read_header_Some [OF assms] unfolding read_fill_header
  by (simp add: kv_entry_zero_def)

text \<open>What is read depends on the first 52 bytes.\<close>

lemma read_header_cong:
  assumes "sf37_kvstore_read_header fp e = Some (e', tb, rest)"
  shows "sf37_kvstore_read_header (take 52 fp @ rest') e = Some (e', tb, rest')"
proof -
  have "length fp = 52 + length rest"
    by (rule drop48_read(2) [OF assms])
  then have "take 48 (take 52 fp @ rest') = take 48 fp" "take 4 (drop 48 (take 52 fp @ rest')) = take 4 (drop 48 fp)"
    "drop 4 (drop 48 (take 52 fp @ rest')) = rest'" "52 \<le> length fp"
    by (simp_all add: drop_take min_def)
  then show ?thesis
    using assms by (auto simp: sf37_kvstore_read_header_def Let_def split: if_splits)
qed

lemma take52_read:
  assumes "sf37_kvstore_read_header fp e = Some (e', tb, rest)"
  shows "take 52 fp = take 48 fp @ sf37_kvstore_le_put32 tb" and "fp = take 52 fp @ rest"
proof -
  have eq: "fp = take 48 fp @ sf37_kvstore_le_put32 tb @ rest" and le: "48 \<le> length fp"
    using read_header_Some [OF assms] by auto
  show t: "take 52 fp = take 48 fp @ sf37_kvstore_le_put32 tb"
    using arg_cong [OF eq, of "take 52"] le by simp
  show "fp = take 52 fp @ rest"
    using eq unfolding t by simp
qed

lemma map_of_os_write:
  "map_of (os_files (os_write os path c)) = (map_of (os_files os))(path \<mapsto> c)"
  by (simp add: os_write_def update_conv')

lemma os_write_simps [simp]:
  "os_time (os_write os path c) = os_time os"
  "os_fail (os_write os path c) = os_fail os"
  "os_pid_text (os_write os path c) = os_pid_text os"
  by (simp_all add: os_write_def)

lemma os_unlink_simps [simp]:
  "os_fail (snd (os_unlink os path)) = os_fail os"
  "os_time (snd (os_unlink os path)) = os_time os"
  "os_pid_text (snd (os_unlink os path)) = os_pid_text os"
  by (simp_all add: os_unlink_def)

lemma map_of_os_unlink:
  "map_of (os_files (snd (os_unlink os path))) q =
     (if q = path \<and> fst (os_unlink os path) then None else map_of (os_files os) q)"
  by (auto simp: os_unlink_def delete_conv')

lemma os_rename_True:
  assumes "os_rename os a b = (True, os')"
  shows "\<exists>c. map_of (os_files os) a = Some c \<and>
    map_of (os_files os') = (map_of (os_files os))(a := None, b \<mapsto> c) \<and> os_fail os' = os_fail os"
  using assms by (auto simp: os_rename_def update_conv' delete_conv' split: option.splits if_splits)

lemma os_rename_False: "os_rename os a b = (False, os') \<Longrightarrow> os' = os"
  by (auto simp: os_rename_def split: option.splits if_splits)

subsection \<open>Touching\<close>

lemma read_entry_file_iff:
  "sf37_kvstore_read_entry_file os path sha = Some e \<longleftrightarrow>
    (\<exists>c e0 tb rest. map_of (os_files os) path = Some c \<and> \<not> os_fail os (Stat path) \<and>
       \<not> os_fail os (Fopen_read path) \<and> sf37_kvstore_read_header c kv_entry_zero = Some (e0, tb, rest) \<and>
       \<not> UINT64_MAX - 52 < (ucast tb :: u64) \<and> \<not> UINT64_MAX - 52 - ucast tb < ke_payload_bytes e0 \<and>
       \<not> (of_nat (length c) :: u64) < 52 + ucast tb + ke_payload_bytes e0 \<and>
       e = e0\<lparr>ke_sha := sha, ke_path := path, ke_file_size := of_nat (length c)\<rparr>)"
  (is "?l = ?r")
proof
  assume ?l
  then show ?r
    by (auto simp: sf37_kvstore_read_entry_file_def os_read_def Let_def not_le
        split: if_splits option.splits)
next
  assume ?r
  then show ?l
    by (auto simp: sf37_kvstore_read_entry_file_def os_read_def Let_def drop48_read(2))
qed

lemma touch_file_entry:
  assumes "sf37_kvstore_read_entry_file os path sha = Some e"
    and "sf37_kvstore_touch_file os path hits = (True, os')"
  shows "sf37_kvstore_read_entry_file os' path sha =
      Some (e\<lparr>ke_hits := hits, ke_last_used := os_time os\<rparr>) \<and>
    (\<exists>c c'. map_of (os_files os) path = Some c \<and> length c' = length c \<and> drop 48 c' = drop 48 c \<and>
       map_of (os_files os') = (map_of (os_files os))(path \<mapsto> c'))"
proof -
  obtain c e0 tb rest where c: "map_of (os_files os) path = Some c"
    "\<not> os_fail os (Stat path)" "\<not> os_fail os (Fopen_read path)"
    "sf37_kvstore_read_header c kv_entry_zero = Some (e0, tb, rest)"
    "\<not> UINT64_MAX - 52 < (ucast tb :: u64)" "\<not> UINT64_MAX - 52 - ucast tb < ke_payload_bytes e0"
    "\<not> (of_nat (length c) :: u64) < 52 + ucast tb + ke_payload_bytes e0"
    "e = e0\<lparr>ke_sha := sha, ke_path := path, ke_file_size := of_nat (length c)\<rparr>"
    using assms(1) unfolding read_entry_file_iff by blast
  define h where "h = sf37_kvstore_fill_header (ke_model_id e0) (ke_quant_bits e0) (ke_reason e0)
    (ke_ext_flags e0) (ke_tokens e0) hits (ke_ctx_size e0) (ke_created_at e0) (os_time os)
    (ke_payload_bytes e0)"
  have len: "length h = 48"
    by (simp add: h_def)
  define c' where "c' = h @ sf37_kvstore_le_put32 tb @ rest"
  have os': "os' = os_write os path c'"
    using assms(2) c(1) len
    by (simp add: sf37_kvstore_touch_file_def c(4) h_def [symmetric] Let_def c'_def
        drop48_read(1) [OF c(4)] split: if_splits)
  have read: "sf37_kvstore_read_header c' kv_entry_zero =
      Some (e0\<lparr>ke_ext_flags := ke_ext_flags e0, ke_hits := hits, ke_last_used := os_time os\<rparr>, tb, rest)"
    unfolding c'_def h_def by (rule read_refill [OF c(4)])
  have lc: "length c' = length c"
    using drop48_read(2) [OF c(4)] len by (simp add: c'_def)
  have dc: "drop 48 c' = drop 48 c"
    using drop48_read(1) [OF c(4)] len by (simp add: c'_def)
  have "sf37_kvstore_read_entry_file os' path sha =
      Some (e\<lparr>ke_hits := hits, ke_last_used := os_time os\<rparr>)"
    unfolding read_entry_file_iff using c(2,3,5-8) read lc
    by (auto simp: os' map_of_os_write)
  then show ?thesis
    using c(1) lc dc by (auto simp: os' map_of_os_write)
qed

subsection \<open>Eviction\<close>

lemma evict_victim_fold:
  fixes P :: "nat \<Rightarrow> nat \<Rightarrow> bool" and s :: "nat \<Rightarrow> real"
  assumes "\<And>v i. P v i \<Longrightarrow> s i \<le> s v" and "\<And>v i. \<not> P v i \<Longrightarrow> s v \<le> s i"
  shows "s (foldl (\<lambda>v i. if P v i then i else v) v js) \<le> s v \<and>
    (\<forall>j \<in> set js. s (foldl (\<lambda>v i. if P v i then i else v) v js) \<le> s j)"
proof (induction js arbitrary: v)
  case (Cons j js)
  then show ?case
    using assms(1) [of v j] assms(2) [of v j] by (fastforce intro: order_trans)
qed simp

lemma evict_victim_least:
  assumes "i < length es"
  shows "score (es ! evict_victim score es) \<le> score (es ! i)"
proof -
  let ?P = "\<lambda>v i. score (es ! i) < score (es ! v) \<or>
    score (es ! i) = score (es ! v) \<and> ke_last_used (es ! i) < ke_last_used (es ! v)"
  have "score (es ! foldl (\<lambda>v i. if ?P v i then i else v) 0 [1..<length es]) \<le> score (es ! 0) \<and>
    (\<forall>j \<in> set [1..<length es]. score (es ! foldl (\<lambda>v i. if ?P v i then i else v) 0 [1..<length es])
       \<le> score (es ! j))"
    by (rule evict_victim_fold [where s = "\<lambda>i. score (es ! i)"]) auto
  then show ?thesis
    using assms by (cases "i = 0") (auto simp: evict_victim_def)
qed

text \<open>The loop with its result, one turn at a time.\<close>

lemma evict_loop_stop: "\<not> target < tot \<or> es = [] \<Longrightarrow> evict_loop score target os tot es = (os, es)"
  by (auto simp: evict_loop.simps)

lemma evict_loop_turn:
  assumes "target < tot" and "es \<noteq> []" and "os_unlink os (ke_path (es ! evict_victim score es)) = (ok, os')"
  shows "evict_loop score target os tot es =
    evict_loop score target os'
      (if ok then (if ke_file_size (es ! evict_victim score es) \<le> tot
                   then tot - ke_file_size (es ! evict_victim score es) else 0) else 0)
      (take (evict_victim score es) es @ drop (evict_victim score es + 1) es)"
  using assms by (subst evict_loop.simps) (simp add: Let_def)

definition total_size :: "kv_entry list \<Rightarrow> nat" where
  "total_size es = sum_list (map (\<lambda>e. unat (ke_file_size e)) es)"

lemma total_size_remove:
  assumes "v < length es"
  shows "total_size es = unat (ke_file_size (es ! v)) + total_size (take v es @ drop (v + 1) es)"
proof -
  have "total_size es = total_size (take v es @ es ! v # drop (v + 1) es)"
    using id_take_nth_drop [OF assms] by simp
  then show ?thesis
    by (simp add: total_size_def)
qed

text \<open>When no removal fails, the loop ends with the listed files within the target.\<close>

lemma evict_loop_budget:
  assumes "\<And>p. \<not> os_fail os (Unlink p)"
    and "\<And>e. e \<in> set es \<Longrightarrow> map_of (os_files os) (ke_path e) \<noteq> None"
    and "distinct (map ke_path es)"
    and "unat tot = total_size es" and "evict_loop score target os tot es = (os', es')"
  shows "total_size es' \<le> unat target"
  using assms
proof (induction score target os tot es rule: evict_loop.induct)
  case (1 score target os tot es)
  show ?case
  proof (cases "target < tot \<and> es \<noteq> []")
    case False
    then show ?thesis
      using "1.prems"(4,5) by (auto simp: evict_loop_stop total_size_def not_less word_le_nat_alt)
  next
    case True
    let ?v = "evict_victim score es"
    let ?es = "take ?v es @ drop (?v + 1) es"
    have v: "?v < length es"
      using True by (simp add: evict_victim_less)
    obtain os1 where u: "os_unlink os (ke_path (es ! ?v)) = (True, os1)"
      using "1.prems"(1,2) v by (auto simp: os_unlink_def)
    then have os1: "os1 = snd (os_unlink os (ke_path (es ! ?v)))"
      by simp
    have sz: "unat (ke_file_size (es ! ?v)) + total_size ?es = unat tot"
      using total_size_remove [OF v] "1.prems"(4) by simp
    then have le: "ke_file_size (es ! ?v) \<le> tot"
      by (simp add: word_le_nat_alt)
    have sub: "unat (tot - ke_file_size (es ! ?v)) = total_size ?es"
      using unat_sub [OF le] sz by simp
    have es: "es = take ?v es @ es ! ?v # drop (?v + 1) es"
      using id_take_nth_drop [OF v] by simp
    have "distinct (map ke_path (take ?v es @ es ! ?v # drop (?v + 1) es))"
      using "1.prems"(3) es by simp
    then have d: "distinct (map ke_path ?es)" "\<forall>e \<in> set ?es. ke_path e \<noteq> ke_path (es ! ?v)"
      by (auto simp: image_iff)
    have mem: "map_of (os_files os1) (ke_path e) \<noteq> None" if "e \<in> set ?es" for e
      using d(2) that "1.prems"(2) [of e] unfolding os1 map_of_os_unlink
      by (auto dest: in_set_takeD in_set_dropD)
    have "evict_loop score target os1 (tot - ke_file_size (es ! ?v)) ?es = (os', es')"
      using evict_loop_turn [OF _ _ u] True le "1.prems"(5) by simp
    moreover have "\<not> os_fail os1 (Unlink p)" for p
      using "1.prems"(1) by (simp add: os1)
    ultimately show ?thesis
      using "1.IH" [OF True refl refl u [symmetric] refl refl] mem d(1) sub le by simp
  qed
qed

text \<open>Whatever happens, the loop only unlinks listed files, and what it leaves scores at
  least as high as anything it removed from the list.\<close>

lemma evict_loop_files:
  "evict_loop score target os tot es = (os', es') \<Longrightarrow>
   (\<forall>q. map_of (os_files os') q = map_of (os_files os) q \<or>
        map_of (os_files os') q = None \<and> q \<in> ke_path ` set es) \<and>
   os_fail os' = os_fail os \<and> os_time os' = os_time os \<and> os_pid_text os' = os_pid_text os"
proof (induction score target os tot es rule: evict_loop.induct)
  case (1 score target os tot es)
  show ?case
  proof (cases "target < tot \<and> es \<noteq> []")
    case False
    then show ?thesis
      using "1.prems" by (auto simp: evict_loop_stop)
  next
    case True
    let ?v = "evict_victim score es"
    let ?es = "take ?v es @ drop (?v + 1) es"
    have v: "?v < length es"
      using True by (simp add: evict_victim_less)
    obtain ok os1 where u: "os_unlink os (ke_path (es ! ?v)) = (ok, os1)"
      by fastforce
    then have os1: "os1 = snd (os_unlink os (ke_path (es ! ?v)))"
      by simp
    note turn = evict_loop_turn [OF _ _ u]
    have IH: "(\<forall>q. map_of (os_files os') q = map_of (os_files os1) q \<or>
        map_of (os_files os') q = None \<and> q \<in> ke_path ` set ?es) \<and>
       os_fail os' = os_fail os1 \<and> os_time os' = os_time os1 \<and> os_pid_text os' = os_pid_text os1"
      using "1.IH" [OF True refl refl u [symmetric] refl refl] "1.prems" turn True by simp
    have sub: "ke_path ` set ?es \<subseteq> ke_path ` set es"
      by (rule image_mono) (auto dest: in_set_takeD in_set_dropD)
    have first: "map_of (os_files os1) q = map_of (os_files os) q \<or>
        map_of (os_files os1) q = None \<and> q \<in> ke_path ` set es" for q
      using v by (auto simp: os1 map_of_os_unlink)
    have "map_of (os_files os') q = map_of (os_files os) q \<or>
        map_of (os_files os') q = None \<and> q \<in> ke_path ` set es" for q
      using IH [THEN conjunct1, THEN spec, of q] first [of q] subsetD [OF sub, of q]
      by presburger
    then show ?thesis
      using IH [THEN conjunct2] by (simp add: os1)
  qed
qed

lemma evict_loop_subset: "evict_loop score target os tot es = (os', es') \<Longrightarrow> set es' \<subseteq> set es"
proof (induction score target os tot es rule: evict_loop.induct)
  case (1 score target os tot es)
  show ?case
  proof (cases "target < tot \<and> es \<noteq> []")
    case False
    then show ?thesis
      using "1.prems" by (auto simp: evict_loop_stop)
  next
    case True
    let ?v = "evict_victim score es"
    obtain ok os1 where u: "os_unlink os (ke_path (es ! ?v)) = (ok, os1)"
      by fastforce
    have "set es' \<subseteq> set (take ?v es @ drop (?v + 1) es)"
      using "1.IH" [OF True refl refl u [symmetric] refl refl] "1.prems" evict_loop_turn [OF _ _ u] True
      by simp
    then show ?thesis
      by (auto dest: in_set_takeD in_set_dropD)
  qed
qed

lemma evict_loop_order:
  assumes "evict_loop score target os tot es = (os', es')" and "e \<in> set es - set es'" and "f \<in> set es'"
  shows "score e \<le> score f \<and> f \<in> set es"
  using assms
proof (induction score target os tot es arbitrary: e rule: evict_loop.induct)
  case (1 score target os tot es)
  show ?case
  proof (cases "target < tot \<and> es \<noteq> []")
    case False
    then show ?thesis
      using "1.prems" by (auto simp: evict_loop_stop)
  next
    case True
    let ?v = "evict_victim score es"
    let ?es = "take ?v es @ drop (?v + 1) es"
    have v: "?v < length es"
      using True by (simp add: evict_victim_less)
    obtain ok os1 where u: "os_unlink os (ke_path (es ! ?v)) = (ok, os1)"
      by fastforce
    have run: "evict_loop score target os1
        (if ok then (if ke_file_size (es ! ?v) \<le> tot then tot - ke_file_size (es ! ?v) else 0) else 0)
        ?es = (os', es')"
      using evict_loop_turn [OF _ _ u] True "1.prems"(1) by simp
    have sub: "set ?es \<subseteq> set es"
      by (auto dest: in_set_takeD in_set_dropD)
    have split: "set es = insert (es ! ?v) (set ?es)"
      using arg_cong [OF id_take_nth_drop [OF v], of set] by simp
    have keep: "set es' \<subseteq> set ?es"
      using run evict_loop_subset by blast
    show ?thesis
    proof (cases "e \<in> set ?es")
      case True
      have "score e \<le> score f \<and> f \<in> set ?es"
        using "1.IH" [OF \<open>target < tot \<and> es \<noteq> []\<close> refl refl u [symmetric] refl refl, of e] run
          "1.prems" True by simp
      then show ?thesis
        using sub by blast
    next
      case False
      then have "e = es ! ?v"
        using "1.prems"(2) split by blast
      moreover have "f \<in> set es"
        using "1.prems"(3) keep sub by blast
      ultimately show ?thesis
        using evict_victim_least by (metis in_set_conv_nth)
    qed
  qed
qed

subsection \<open>Listing\<close>

definition os_ok :: "kv_os \<Rightarrow> bool" where
  "os_ok os \<longleftrightarrow> distinct (map fst (os_files os))"

definition dir_entry :: "kv_os \<Rightarrow> bytes \<Rightarrow> bytes \<Rightarrow> kv_entry option" where
  "dir_entry os dir name =
     (case sf37_kvstore_sha_hex_name name of None \<Rightarrow> None
      | Some sha \<Rightarrow> sf37_kvstore_read_entry_file os (sf37_kvstore_path_join dir name) sha)"

lemma refresh_entries:
  "kv_cache_refresh os kc =
     (if kc_enabled kc
      then kc\<lparr>kc_entry := (if os_fail os (Opendir (kc_dir kc)) then []
                  else List.map_filter (dir_entry os (kc_dir kc)) (os_readdir os (kc_dir kc)))\<rparr>
      else kc)"
proof -
  have "kc_dir kc0 = d \<Longrightarrow>
     foldl (\<lambda>kc name.
               case sf37_kvstore_sha_hex_name name of
                 None \<Rightarrow> kc
               | Some sha \<Rightarrow>
                   (case sf37_kvstore_read_entry_file os (sf37_kvstore_path_join (kc_dir kc) name) sha of
                      None \<Rightarrow> kc
                    | Some e \<Rightarrow> kv_cache_push kc e)) kc0 names
      = kc0\<lparr>kc_entry := kc_entry kc0 @ List.map_filter (dir_entry os d) names\<rparr>" for kc0 d names
  proof (induction names arbitrary: kc0)
    case (Cons name names)
    note IH = Cons.IH [of "kv_cache_push kc0 e" for e]
    show ?case
      using Cons.prems
      by (auto simp: Cons.IH IH dir_entry_def kv_cache_push_def map_filter_simps split: option.split)
  qed (simp add: map_filter_simps)
  then show ?thesis
    by (simp add: kv_cache_refresh_def sf37_kvstore_clear_def Let_def)
qed

lemma read_entry_file_fields:
  assumes "sf37_kvstore_read_entry_file os path sha = Some e"
  shows "ke_path e = path \<and> ke_sha e = sha \<and> map_of (os_files os) path \<noteq> None \<and> ke_tokens e \<noteq> 0 \<and>
    ke_quant_bits e = SF37_KVSTORE_QUANT_BITS \<and>
    (\<exists>c. map_of (os_files os) path = Some c \<and> ke_file_size e = of_nat (length c))"
  using assms unfolding read_entry_file_iff by (auto dest!: read_header_Some)

lemma dir_entry_fields:
  "dir_entry os dir name = Some e \<Longrightarrow>
   ke_path e = sf37_kvstore_path_join dir name \<and> sf37_kvstore_sha_hex_name name = Some (ke_sha e) \<and>
   map_of (os_files os) (ke_path e) \<noteq> None"
  by (auto simp: dir_entry_def split: option.splits dest: read_entry_file_fields)

lemma path_join_eq_iff [simp]: "sf37_kvstore_path_join d a = sf37_kvstore_path_join d b \<longleftrightarrow> a = b"
  by (simp add: sf37_kvstore_path_join_def)

lemma path_join_Nil: "sf37_kvstore_path_join d a = sf37_kvstore_path_join d [] @ a"
  by (simp add: sf37_kvstore_path_join_def)

lemma distinct_readdir:
  assumes "os_ok os"
  shows "distinct (os_readdir os dir)"
proof -
  have drop_inj: "inj_on (drop (length p)) {f \<in> A. take (length p) f = p \<and> Q f}" for p :: bytes and A Q
  proof (rule inj_onI)
    fix a b :: bytes
    assume "a \<in> {f \<in> A. take (length p) f = p \<and> Q f}" "b \<in> {f \<in> A. take (length p) f = p \<and> Q f}"
      "drop (length p) a = drop (length p) b"
    then have "p @ drop (length p) a = p @ drop (length p) b" "take (length p) a = p" "take (length p) b = p"
      by simp_all
    then show "a = b"
      using append_take_drop_id [of "length p" a] append_take_drop_id [of "length p" b] by simp
  qed
  show ?thesis
    using assms drop_inj by (simp add: os_readdir_def os_ok_def Let_def distinct_map)
qed

lemma map_filter_dir_entry_paths:
  "map ke_path (List.map_filter (dir_entry os dir) names) =
   map (sf37_kvstore_path_join dir) (filter (\<lambda>n. dir_entry os dir n \<noteq> None) names)"
  by (induction names) (auto simp: map_filter_simps dest: dir_entry_fields split: option.split)

lemma refresh_listed:
  assumes "kc_enabled kc"
  shows "e \<in> set (kc_entry (kv_cache_refresh os kc)) \<Longrightarrow>
      \<exists>name. dir_entry os (kc_dir kc) name = Some e \<and> name \<in> set (os_readdir os (kc_dir kc))"
  using assms
  by (auto simp: refresh_entries map_filter_def split: if_splits)

lemma refresh_distinct:
  assumes "kc_enabled kc" and "os_ok os"
  shows "distinct (map ke_path (kc_entry (kv_cache_refresh os kc)))"
proof -
  have "inj_on (sf37_kvstore_path_join d) A" for d A
    by (auto simp: inj_on_def)
  then have "distinct (map (sf37_kvstore_path_join d) (filter P (os_readdir os d)))" for d P
    using distinct_readdir [OF assms(2), of d] by (simp add: distinct_map)
  then show ?thesis
    using assms(1) by (simp add: refresh_entries map_filter_dir_entry_paths)
qed

lemma refresh_simps [simp]:
  "kc_enabled (kv_cache_refresh os kc) = kc_enabled kc"
  "kc_dir (kv_cache_refresh os kc) = kc_dir kc"
  "kc_opt (kv_cache_refresh os kc) = kc_opt kc"
  "kc_budget_bytes (kv_cache_refresh os kc) = kc_budget_bytes kc"
  "kc_reject_different_quant (kv_cache_refresh os kc) = kc_reject_different_quant kc"
  by (simp_all add: refresh_entries)

lemma foldl_size:
  assumes "total_size es < 2 ^ 64"
  shows "unat (foldl (\<lambda>t e. t + ke_file_size e) (0::u64) es) = total_size es"
proof -
  have "unat a + total_size es < 2 ^ 64 \<Longrightarrow>
      unat (foldl (\<lambda>t e. t + ke_file_size e) a es) = unat a + total_size es" for a :: u64
  proof (induction es arbitrary: a)
    case (Cons e es)
    have "unat (a + ke_file_size e) = unat a + unat (ke_file_size e)"
      by (rule unat_add_no_overflow) (use Cons.prems in \<open>simp add: total_size_def\<close>)
    then show ?case
      using Cons by (simp add: total_size_def)
  qed (simp add: total_size_def)
  from this [of 0] assms show ?thesis
    by simp
qed

subsection \<open>Finding\<close>

definition find_eligible :: "kvstore \<Rightarrow> bytes \<Rightarrow> byte \<Rightarrow> byte \<Rightarrow> int \<Rightarrow> kv_entry \<Rightarrow> bool" where
  "find_eligible kc prompt m q ctx e \<longleftrightarrow>
     find_candidate kc prompt m q ctx e \<and>
     sf37_kvstore_sha1_bytes_hex (take (unat (ke_text_bytes e)) prompt) = ke_sha e"

definition entry_le :: "kv_entry \<Rightarrow> kv_entry \<Rightarrow> bool" where
  "entry_le e b \<longleftrightarrow> ke_text_bytes e < ke_text_bytes b \<or>
     ke_text_bytes e = ke_text_bytes b \<and> ke_tokens e \<le> ke_tokens b"

lemma entry_le_trans: "entry_le a b \<Longrightarrow> entry_le b c \<Longrightarrow> entry_le a c"
  by (auto simp: entry_le_def)

lemma entry_le_total: "\<not> entry_le a b \<Longrightarrow> entry_le b a"
  by (auto simp: entry_le_def)

lemma find_step_eq:
  "find_step kc s m q ctx best i =
     (if find_eligible kc s m q ctx (kc_entry kc ! i) \<and>
         (case best of None \<Rightarrow> True | Some j \<Rightarrow> \<not> entry_le (kc_entry kc ! i) (kc_entry kc ! j))
      then Some i else best)"
  by (auto simp: find_step_def find_eligible_def entry_le_def Let_def split: option.splits)

lemma find_fold:
  "case foldl (find_step kc s m q ctx) None [0..<n] of
     None \<Rightarrow> (\<forall>i<n. \<not> find_eligible kc s m q ctx (kc_entry kc ! i))
   | Some j \<Rightarrow> j < n \<and> find_eligible kc s m q ctx (kc_entry kc ! j) \<and>
       (\<forall>i<n. find_eligible kc s m q ctx (kc_entry kc ! i) \<longrightarrow>
          entry_le (kc_entry kc ! i) (kc_entry kc ! j))"
proof (induction n)
  case (Suc n)
  define b where "b = foldl (find_step kc s m q ctx) None [0..<n]"
  have refl: "entry_le a a" for a
    by (simp add: entry_le_def)
  have step: "foldl (find_step kc s m q ctx) None [0..<Suc n] = find_step kc s m q ctx b n"
    by (simp add: b_def)
  note IH = Suc [folded b_def]
  show ?case
  proof (cases b)
    case None
    then show ?thesis
      using IH refl unfolding step by (simp add: find_step_eq less_Suc_eq)
  next
    case (Some j)
    show ?thesis
    proof (cases "find_eligible kc s m q ctx (kc_entry kc ! n) \<and>
        \<not> entry_le (kc_entry kc ! n) (kc_entry kc ! j)")
      case True
      then have "find_step kc s m q ctx b n = Some n"
        "entry_le (kc_entry kc ! j) (kc_entry kc ! n)"
        by (auto simp: find_step_eq Some dest: entry_le_total)
      then show ?thesis
        using IH refl True unfolding step Some by (auto simp: less_Suc_eq intro: entry_le_trans)
    next
      case False
      then have "find_step kc s m q ctx b n = Some j"
        by (auto simp: find_step_eq Some)
      then show ?thesis
        using IH False unfolding step Some by (auto simp: less_Suc_eq)
    qed
  qed
qed simp

subsection \<open>Eviction, as a whole\<close>

lemma evict_unfold:
  assumes "kc_enabled kc" and "kc_budget_bytes kc \<noteq> 0" and "extra \<le> kc_budget_bytes kc"
    and "sf37_kvstore_evict os kc extra inc = (os', kc')"
  shows "\<exists>tot es. kc' = (kv_cache_refresh os kc)\<lparr>kc_entry := es\<rparr> \<and>
    tot = foldl (\<lambda>t e. t + ke_file_size e) 0 (kc_entry (kv_cache_refresh os kc)) \<and>
    evict_loop (\<lambda>e. sf37_kvstore_entry_eviction_score e (os_time os) inc)
      (kc_budget_bytes kc - extra) os tot (kc_entry (kv_cache_refresh os kc)) = (os', es)"
proof -
  have "\<not> kc_budget_bytes kc < extra"
    using assms(3) by (simp add: not_less)
  then show ?thesis
    using assms by (auto simp: sf37_kvstore_evict_def Let_def split: prod.splits)
qed

lemma evict_files:
  assumes "sf37_kvstore_evict os kc extra inc = (os', kc')"
  shows "(map_of (os_files os') q = map_of (os_files os) q \<or> map_of (os_files os') q = None \<and>
      (\<exists>name. sf37_kvstore_sha_hex_name name \<noteq> None \<and>
         q = sf37_kvstore_path_join (kc_dir kc) name)) \<and>
    os_fail os' = os_fail os \<and> os_time os' = os_time os \<and> os_pid_text os' = os_pid_text os \<and>
    kc_dir kc' = kc_dir kc \<and> kc_opt kc' = kc_opt kc \<and> kc_enabled kc' = kc_enabled kc \<and>
    kc_budget_bytes kc' = kc_budget_bytes kc"
proof (cases "kc_enabled kc \<and> kc_budget_bytes kc \<noteq> 0 \<and> extra \<le> kc_budget_bytes kc")
  case True
  then obtain tot es where *: "kc' = (kv_cache_refresh os kc)\<lparr>kc_entry := es\<rparr>"
    "evict_loop (\<lambda>e. sf37_kvstore_entry_eviction_score e (os_time os) inc)
      (kc_budget_bytes kc - extra) os tot (kc_entry (kv_cache_refresh os kc)) = (os', es)"
    using evict_unfold [of kc extra os inc os' kc'] assms by auto
  have "\<exists>name. sf37_kvstore_sha_hex_name name \<noteq> None \<and> q = sf37_kvstore_path_join (kc_dir kc) name"
    if q: "q \<in> ke_path ` set (kc_entry (kv_cache_refresh os kc))"
  proof -
    obtain e where e: "e \<in> set (kc_entry (kv_cache_refresh os kc))" "q = ke_path e"
      using q by blast
    obtain name where "dir_entry os (kc_dir kc) name = Some e"
      using refresh_listed [OF _ e(1)] True by blast
    from dir_entry_fields [OF this] e(2) show ?thesis
      by auto
  qed
  then show ?thesis
    using evict_loop_files [OF *(2)] *(1) by (cases "map_of (os_files os') q = map_of (os_files os) q") auto
next
  case False
  then show ?thesis
    using assms by (auto simp: sf37_kvstore_evict_def not_le split: if_splits)
qed

lemma score_superseded:
  assumes "kv_cache_incoming_supersedes_continued e (Some i)"
  shows "2 * sf37_kvstore_entry_eviction_score e now (Some i)
    \<le> sf37_kvstore_entry_eviction_score e now None"
proof -
  have none: "\<not> kv_cache_incoming_supersedes_continued e None"
    by (simp add: kv_cache_incoming_supersedes_continued_def)
  define used where "used = (if ke_last_used e \<noteq> 0 then ke_last_used e else ke_created_at e)"
  define hn where "hn = real (unat (ke_hits e))"
  define h where "h = hn *
    (2 powr (- real (unat (now - used)) / (6 * 60 * 60)))"
  define eff where "eff = (if used = 0 then 0
     else if now > used then (if h < 1 / 100 then 0 else h) else hn)"
  define x where "x = (eff + 1) * real (unat (ke_tokens e)) / real (unat (ke_file_size e))"
  define s where "s = (if kv_cache_reason_is_anchor (ke_reason e) then x * 2 else x)"
  have nat0: "0 \<le> real n" for n
    by simp
  have "0 \<le> hn"
    unfolding hn_def by (rule nat0)
  then have "0 \<le> h"
    by (simp add: h_def)
  then have "0 \<le> eff"
    using \<open>0 \<le> hn\<close> by (simp add: eff_def)
  then have "0 \<le> x"
    unfolding x_def by (intro divide_nonneg_nonneg mult_nonneg_nonneg nat0) simp
  then have "0 \<le> s"
    by (simp add: s_def)
  have "2 * (s * (5 / 100 + 45 / 100 * (if eff > 0 then eff / (eff + 1) else 0))) \<le> s"
  proof -
    have "5 / 100 + 45 / 100 * (if eff > 0 then eff / (eff + 1) else 0) \<le> 1 / 2"
      by (auto simp: field_simps)
    from mult_left_mono [OF this \<open>0 \<le> s\<close>] show ?thesis
      by linarith
  qed
  moreover have "sf37_kvstore_entry_eviction_score e now (Some i) = (if ke_file_size e = 0 then 0
      else s * (5 / 100 + 45 / 100 * (if eff > 0 then eff / (eff + 1) else 0)))"
    using assms unfolding sf37_kvstore_entry_eviction_score_def Let_def s_def x_def eff_def h_def hn_def used_def
    by (simp only: if_True)
  moreover have "sf37_kvstore_entry_eviction_score e now None = (if ke_file_size e = 0 then 0 else s)"
    using none unfolding sf37_kvstore_entry_eviction_score_def Let_def s_def x_def eff_def h_def hn_def used_def
    by (simp only: if_False)
  ultimately show ?thesis
    by simp
qed

subsection \<open>Storing\<close>

definition checkpoint_text :: "sf37_vocab option \<Rightarrow> tokens \<Rightarrow> bytes option \<Rightarrow> bytes" where
  "checkpoint_text engine live override =
     (case override of
        None \<Rightarrow> concat (map (sf37_token_text engine) live)
      | Some s \<Rightarrow> if s = [] then concat (map (sf37_token_text engine) live) else s)"

text \<open>The path of a checkpoint is no temporary path: the latter is longer.\<close>

lemma tmp_path_neq [simp]: "path @ cstr ''.tmp.'' @ p \<noteq> path" "path \<noteq> path @ cstr ''.tmp.'' @ p"
  by simp_all

definition store_content ::
  "kv_os \<Rightarrow> bytes \<Rightarrow> bytes \<Rightarrow> byte \<Rightarrow> nat \<Rightarrow> byte \<Rightarrow> int \<Rightarrow> bytes \<Rightarrow> kv_file" where
  "store_content os text0 staged ext n rc ctx w = \<lparr>kf_reason = rc, kf_ext_flags = ext,
      kf_tokens = of_nat n, kf_hits = 0, kf_ctx_size = of_int ctx, kf_created_at = os_time os,
      kf_last_used = os_time os, kf_text = text0, kf_payload = staged, kf_trailer = w\<rparr>"

lemma case_if_pair:
  "(case (if P then r else (False, s)) of (ok, x) \<Rightarrow> f ok x) =
   (if P then (case r of (ok, x) \<Rightarrow> f ok x) else f False s)"
  by simp

lemma store_write_unfold:
  obtains os2 kc2 hook_ok w nw tmp where
    "os_time os2 = os_time os" "os_fail os2 = os_fail os" "tmp \<noteq> path"
    "map_of (os_files os2) path = map_of (os_files os) path \<or> map_of (os_files os2) path = None"
    "kv_trailer_write hooks ud text0 = (hook_ok, w, nw)"
    "kv_store_write os kc path text0 staged est ext n rc ctx hooks ud =
       (let os3 = os_write os2 tmp (if os_fail os2 (Fwrite tmp) then []
                    else kv_file_bytes (store_content os text0 staged ext n rc ctx w)) in
        if os_fail os2 (Fopen_create tmp) then (False, os2, kc2)
        else if hook_ok \<and> \<not> os_fail os2 (Fwrite tmp) \<and> \<not> os_fail os2 (Fclose tmp) \<and>
           fst (sf37_kvstore_file_size_fits (Some kc2) (of_nat (length text0)) (of_nat (length staged)) nw)
        then (case os_rename os3 tmp path of (r, os4) \<Rightarrow>
                if r then (True, os4, kc2) else (False, snd (os_unlink os4 tmp), kc2))
        else (False, snd (os_unlink os3 tmp), kc2))"
proof -
  define inc where "inc = Some \<lparr>ec_text = Some text0, ec_model_id = SF37_KVSTORE_MODEL_ID,
    ec_quant_bits = SF37_KVSTORE_QUANT_BITS, ec_ctx_size = of_int ctx,
    ec_reject_different_quant = kc_reject_different_quant kc\<rparr>"
  obtain os2 kc2 where ev: "sf37_kvstore_evict os kc est inc = (os2, kc2)"
    by fastforce
  define tmp where "tmp = path @ cstr ''.tmp.'' @ os_pid_text os2"
  obtain hook_ok w nw where w: "kv_trailer_write hooks ud text0 = (hook_ok, w, nw)"
    by (metis prod_cases3)
  have os2: "os_time os2 = os_time os" "os_fail os2 = os_fail os"
    using evict_files [OF ev] by auto
  have old: "map_of (os_files os2) path = map_of (os_files os) path \<or> map_of (os_files os2) path = None"
    using evict_files [OF ev, of path, THEN conjunct1] by auto
  show thesis
  proof (rule that)
    show "tmp \<noteq> path"
      by (simp add: tmp_def)
    show "map_of (os_files os2) path = map_of (os_files os) path \<or> map_of (os_files os2) path = None"
      by (rule old)
    have "kv_file_bytes (store_content os text0 staged ext n rc ctx w) =
      sf37_kvstore_fill_header SF37_KVSTORE_MODEL_ID SF37_KVSTORE_QUANT_BITS rc ext (of_nat n) 0
        (of_int ctx) (os_time os2) (os_time os2) (of_nat (length staged)) @
      sf37_kvstore_le_put32 (of_nat (length text0)) @ text0 @ staged @ w"
      by (simp add: kv_file_bytes_def store_content_def os2)
    then show "kv_store_write os kc path text0 staged est ext n rc ctx hooks ud =
       (let os3 = os_write os2 tmp (if os_fail os2 (Fwrite tmp) then []
                    else kv_file_bytes (store_content os text0 staged ext n rc ctx w)) in
        if os_fail os2 (Fopen_create tmp) then (False, os2, kc2)
        else if hook_ok \<and> \<not> os_fail os2 (Fwrite tmp) \<and> \<not> os_fail os2 (Fclose tmp) \<and>
           fst (sf37_kvstore_file_size_fits (Some kc2) (of_nat (length text0)) (of_nat (length staged)) nw)
        then (case os_rename os3 tmp path of (r, os4) \<Rightarrow>
                if r then (True, os4, kc2) else (False, snd (os_unlink os4 tmp), kc2))
        else (False, snd (os_unlink os3 tmp), kc2))"
      by (simp only: kv_store_write_def Let_def inc_def [symmetric] ev w prod.case
          tmp_def [symmetric] os_write_simps conj_assoc case_if_pair if_False)
  qed (fact os2 w)+
qed

lemma reason_code_le: "sf37_kvstore_reason_code r \<le> 6"
  by (simp add: sf37_kvstore_reason_code_def split: option.split)

lemma store_write_failed:
  assumes "kv_store_write os kc path text0 staged est ext n rc ctx hooks ud = (False, os', kc')"
  shows "map_of (os_files os') path = map_of (os_files os) path \<or> map_of (os_files os') path = None"
proof -
  obtain os2 kc2 hook_ok w nw tmp where *:
    "os_time os2 = os_time os" "os_fail os2 = os_fail os" "tmp \<noteq> path"
    "map_of (os_files os2) path = map_of (os_files os) path \<or> map_of (os_files os2) path = None"
    "kv_trailer_write hooks ud text0 = (hook_ok, w, nw)"
    "kv_store_write os kc path text0 staged est ext n rc ctx hooks ud =
       (let os3 = os_write os2 tmp (if os_fail os2 (Fwrite tmp) then []
                    else kv_file_bytes (store_content os text0 staged ext n rc ctx w)) in
        if os_fail os2 (Fopen_create tmp) then (False, os2, kc2)
        else if hook_ok \<and> \<not> os_fail os2 (Fwrite tmp) \<and> \<not> os_fail os2 (Fclose tmp) \<and>
           fst (sf37_kvstore_file_size_fits (Some kc2) (of_nat (length text0)) (of_nat (length staged)) nw)
        then (case os_rename os3 tmp path of (r, os4) \<Rightarrow>
                if r then (True, os4, kc2) else (False, snd (os_unlink os4 tmp), kc2))
        else (False, snd (os_unlink os3 tmp), kc2))"
    by (rule store_write_unfold)
  have "os' = os2 \<or> (\<exists>c. os' = snd (os_unlink (os_write os2 tmp c) tmp))"
    using assms unfolding *(6) Let_def
    by (auto split: if_splits prod.splits dest: os_rename_False)
  then show ?thesis
    using *(3,4) by (auto simp: map_of_os_unlink map_of_os_write)
qed

lemma store_write_done:
  assumes "kv_store_write os kc path text0 staged est ext n rc ctx hooks ud = (True, os', kc')"
  obtains w nw where "kv_trailer_write hooks ud text0 = (True, w, nw)"
    and "map_of (os_files os') path = Some (kv_file_bytes (store_content os text0 staged ext n rc ctx w))"
    and "52 + unat (of_nat (length text0) :: u64) + unat (of_nat (length staged) :: u64) + unat nw < 2 ^ 64"
    and "os_fail os' = os_fail os"
proof -
  obtain os2 kc2 hook_ok w nw tmp where *:
    "os_time os2 = os_time os" "os_fail os2 = os_fail os" "tmp \<noteq> path"
    "map_of (os_files os2) path = map_of (os_files os) path \<or> map_of (os_files os2) path = None"
    "kv_trailer_write hooks ud text0 = (hook_ok, w, nw)"
    "kv_store_write os kc path text0 staged est ext n rc ctx hooks ud =
       (let os3 = os_write os2 tmp (if os_fail os2 (Fwrite tmp) then []
                    else kv_file_bytes (store_content os text0 staged ext n rc ctx w)) in
        if os_fail os2 (Fopen_create tmp) then (False, os2, kc2)
        else if hook_ok \<and> \<not> os_fail os2 (Fwrite tmp) \<and> \<not> os_fail os2 (Fclose tmp) \<and>
           fst (sf37_kvstore_file_size_fits (Some kc2) (of_nat (length text0)) (of_nat (length staged)) nw)
        then (case os_rename os3 tmp path of (r, os4) \<Rightarrow>
                if r then (True, os4, kc2) else (False, snd (os_unlink os4 tmp), kc2))
        else (False, snd (os_unlink os3 tmp), kc2))"
    by (rule store_write_unfold)
  let ?c = "kv_file_bytes (store_content os text0 staged ext n rc ctx w)"
  have fin: "hook_ok" "os_rename (os_write os2 tmp ?c) tmp path = (True, os')"
    "fst (sf37_kvstore_file_size_fits (Some kc2) (of_nat (length text0)) (of_nat (length staged)) nw)"
    using assms unfolding *(6) Let_def by (auto split: if_splits prod.splits)
  show thesis
  proof (rule that)
    show "kv_trailer_write hooks ud text0 = (True, w, nw)"
      using *(5) fin(1) by simp
    show "map_of (os_files os') path = Some ?c" and "os_fail os' = os_fail os"
      using os_rename_True [OF fin(2)] *(2) by (auto simp: map_of_os_write)
    show "52 + unat (of_nat (length text0) :: u64) + unat (of_nat (length staged) :: u64) + unat nw < 2 ^ 64"
      using fin(3) by (auto simp: sf37_kvstore_file_size_fits_def file_size_bytes_spec split: if_splits)
  qed
qed

lemma existing_compatible_cases:
  assumes "kv_cache_existing_compatible os kc path sha text0 m q ctx = (c, os1)"
  shows "c \<and> os1 = os \<and> sf37_kvstore_read_entry_file os path sha \<noteq> None \<and>
      kv_cache_file_text_matches os path sha text0 \<or>
    \<not> c \<and> (os1 = os \<or> os1 = snd (os_unlink os path))"
  using assms by (auto simp: kv_cache_existing_compatible_def split: if_splits option.splits)

text \<open>The ways a store can go, after its early returns.\<close>

lemma store_cases:
  assumes "sf37_kvstore_store_live_prefix_text ops os kc engine session tokens len reason ov ovx hooks ud
    = (ok, os', kc')"
  obtains (skip) "\<not> ok" "os' = os"
  | (compatible) live where "ok" "so_tokens ops session = Some live" "length live \<le> nat len"
      "int (length live) \<ge> min len (int (length live))"
      "length (checkpoint_text engine live ov) < 2 ^ 32"
      "kv_cache_existing_compatible os kc
         (sf37_kvstore_path_for_sha kc (sf37_kvstore_sha1_bytes_hex (checkpoint_text engine live ov)))
         (sf37_kvstore_sha1_bytes_hex (checkpoint_text engine live ov)) (checkpoint_text engine live ov)
         SF37_KVSTORE_MODEL_ID SF37_KVSTORE_QUANT_BITS (so_ctx ops session) = (True, os)"
      "os' = kv_cache_rewrite_trailer os
         (sf37_kvstore_path_for_sha kc (sf37_kvstore_sha1_bytes_hex (checkpoint_text engine live ov)))
         (checkpoint_text engine live ov) hooks ud"
  | (dropped) live where "\<not> ok" "so_tokens ops session = Some live"
      "os' = os \<or> os' = snd (os_unlink os
         (sf37_kvstore_path_for_sha kc (sf37_kvstore_sha1_bytes_hex (checkpoint_text engine live ov))))"
  | (written) live os1 staged est ext where "so_tokens ops session = Some live"
      "length (checkpoint_text engine live ov) < 2 ^ 32" "so_stage ops session = Some staged"
      "os1 = os \<or> os1 = snd (os_unlink os
         (sf37_kvstore_path_for_sha kc (sf37_kvstore_sha1_bytes_hex (checkpoint_text engine live ov))))"
      "kv_store_write os1 kc
         (sf37_kvstore_path_for_sha kc (sf37_kvstore_sha1_bytes_hex (checkpoint_text engine live ov)))
         (checkpoint_text engine live ov) staged est ext (length live) (sf37_kvstore_reason_code reason)
         (so_ctx ops session) hooks ud = (ok, os', kc')"
proof (cases "kc_enabled kc \<and> tokens \<noteq> None \<and> \<not> len < ko_min_tokens (kc_opt kc) \<and>
    so_tokens ops session \<noteq> None")
  case False
  then show thesis
    using assms skip by (auto simp: sf37_kvstore_store_live_prefix_text_def Let_def split: if_splits)
next
  case True
  then obtain ts live where ts: "tokens = Some ts" and live: "so_tokens ops session = Some live"
    by auto
  let ?st = "take (nat len) ts"
  show thesis
  proof (cases "length live = length ?st \<and> sf37_tokens_starts_with live ?st")
    case False
    then show thesis
      using assms skip True ts live
      by (auto simp: sf37_kvstore_store_live_prefix_text_def Let_def split: if_splits)
  next
    case match: True
    then have st: "?st = live"
      by (metis order_refl starts_with take_all)
    have len: "length live \<le> nat len"
      by (subst st [symmetric]) simp
    have conds: "kc_enabled kc" "\<not> len < ko_min_tokens (kc_opt kc)" "sf37_tokens_starts_with live live"
      using True by (simp_all add: starts_with)
    define text0 where "text0 = checkpoint_text engine live ov"
    have text_eq: "(if (case ov of None \<Rightarrow> False | Some s \<Rightarrow> s \<noteq> []) then the ov
         else sf37_kvstore_render_tokens_text engine live) = text0"
      by (auto simp: text0_def checkpoint_text_def render_tokens_text split: option.splits)
    define sha where "sha = sf37_kvstore_sha1_bytes_hex text0"
    define path where "path = sf37_kvstore_path_for_sha kc sha"
    obtain size_ok ts_est where sz: "kv_trailer_serialized_size hooks ud text0 = (size_ok, ts_est)"
      by fastforce
    obtain c os1 where ec: "kv_cache_existing_compatible os kc path sha text0
        SF37_KVSTORE_MODEL_ID SF37_KVSTORE_QUANT_BITS (so_ctx ops session) = (c, os1)"
      by fastforce
    note ec' = existing_compatible_cases [OF ec]
    note defs = text0_def [symmetric] sha_def [symmetric] path_def [symmetric]
    have run: "(if length text0 > 2 ^ 32 - 1 then (False, os, kc)
        else if \<not> size_ok then (False, os, kc)
        else if c then (True, kv_cache_rewrite_trailer os1 path text0 hooks ud, kc)
        else (case so_stage ops session of
            None \<Rightarrow> (False, os1, kc)
          | Some staged \<Rightarrow>
              let (fits, est_file_bytes, _) = sf37_kvstore_file_size_fits (Some kc)
                    (of_nat (length text0)) (of_nat (length staged)) ts_est
              in if \<not> fits then (False, os1, kc)
                 else
                   let ext_flags = (case hooks of
                           Some hk \<Rightarrow> if ts_est > 0 then th_ext_flag hk else 0
                         | None \<Rightarrow> 0);
                       ext_flags = (if (case ov of None \<Rightarrow> False | Some s \<Rightarrow> s \<noteq> [])
                                    then ext_flags OR ovx else ext_flags)
                   in kv_store_write os1 kc path text0 staged est_file_bytes ext_flags
                        (length live) (sf37_kvstore_reason_code reason) (so_ctx ops session)
                        hooks ud)) = (ok, os', kc')"
      unfolding assms [symmetric] sf37_kvstore_store_live_prefix_text_def
      by (simp only: Let_def ts live tokens_copy_prefix st text_eq sha_def [symmetric]
          path_def [symmetric] sz ec conds option.case prod.case if_False if_True simp_thms
          option.distinct)
    show thesis
    proof (cases "length text0 < 2 ^ 32 \<and> size_ok")
      case False
      then have "\<not> ok" "os' = os"
        using run by (auto split: if_splits)
      then show thesis
        by (rule skip)
    next
      case ok: True
      show thesis
      proof (cases c)
        case True
        then show thesis
          using run ok ec ec' len
          by (intro compatible [of live, unfolded defs]) (auto simp: live not_less)
      next
        case c: False
        show thesis
        proof (cases "so_stage ops session")
          case None
          then show thesis
            using run ok c ec' by (intro dropped [of live, unfolded defs]) (auto simp: live)
        next
          case (Some staged)
          obtain fits est r where fits: "sf37_kvstore_file_size_fits (Some kc)
              (of_nat (length text0)) (of_nat (length staged)) ts_est = (fits, est, r)"
            by (metis prod_cases3)
          show thesis
          proof (cases fits)
            case False
            then show thesis
              using run ok c ec' Some fits by (intro dropped [of live, unfolded defs]) (auto simp: live)
          next
            case True
            then show thesis
              using run ok c ec' Some fits
              by (intro written [of live staged os1, unfolded defs]) (auto simp: live Let_def)
          qed
        qed
      qed
    qed
  qed
qed

subsection \<open>Rewriting the trailer\<close>

lemma rewrite_trailer_cases:
  fixes os :: kv_os
  assumes "map_of (os_files os) path = Some c"
    and "sf37_kvstore_read_header c kv_entry_zero = Some (e, tb, rest)"
  obtains (same) "kv_cache_rewrite_trailer os path text0 hooks ud = os"
  | (body) w where "kv_cache_rewrite_trailer os path text0 hooks ud = os_write os path
       (take (unat (52 + ucast tb + ke_payload_bytes e)) c @
        replicate (unat (52 + ucast tb + ke_payload_bytes e) - length c) 0 @ w)"
  | (both) w x where "kv_cache_rewrite_trailer os path text0 hooks ud =
       (let c' = take (unat (52 + ucast tb + ke_payload_bytes e)) c @
                 replicate (unat (52 + ucast tb + ke_payload_bytes e) - length c) 0 @ w
        in os_write (os_write os path c') path
         (sf37_kvstore_fill_header (ke_model_id e) (ke_quant_bits e) (ke_reason e) x (ke_tokens e)
            (ke_hits e) (ke_ctx_size e) (ke_created_at e) (os_time os) (ke_payload_bytes e) @ drop 48 c'))"
proof -
  have n: "of_nat SF37_KVSTORE_FIXED_HEADER + 4 = (52 :: u64)"
    by simp
  obtain ok est where sz: "kv_trailer_serialized_size hooks ud text0 = (ok, est)"
    by fastforce
  obtain w_ok w nw where w: "kv_trailer_write hooks ud text0 = (w_ok, w, nw)"
    by (metis prod_cases3)
  let ?P = "52 + ucast tb + ke_payload_bytes e"
  show thesis
  proof (cases hooks)
    case None
    then show thesis
      by (intro same) (simp add: kv_cache_rewrite_trailer_def)
  next
    case hooks: (Some hk)
    show thesis
    proof (cases "th_write hk = None \<or> th_serialized_size hk = None \<or> \<not> ok \<or> est = 0 \<or>
        os_fail os (Fopen_update path) \<or> ?P > 2 ^ 63 - 1 \<or> os_fail os (Ftruncate path)")
      case True
      have "kv_cache_rewrite_trailer os path text0 hooks ud = os"
        using True unfolding kv_cache_rewrite_trailer_def hooks option.case Let_def
          sz [unfolded hooks] prod.case assms(1)
        by (simp only: n assms(2) option.case prod.case split: if_split) auto
      then show thesis
        by (rule same)
    next
      case False
      define w' where "w' = (if os_fail os (Fwrite path) then [] else w)"
      have run: "kv_cache_rewrite_trailer os path text0 hooks ud =
        (let c' = (take (unat ?P) c @ replicate (unat ?P - length c) 0) @ w' in
         if \<not> w_ok \<or> os_fail os (Fwrite path) \<or> nw = 0 then os_write os path c'
         else os_write (os_write os path c') path
           (sf37_kvstore_fill_header (ke_model_id e) (ke_quant_bits e) (ke_reason e)
              (ke_ext_flags e OR th_ext_flag hk) (ke_tokens e) (ke_hits e) (ke_ctx_size e)
              (ke_created_at e) (os_time os) (ke_payload_bytes e) @
            drop (length (sf37_kvstore_fill_header (ke_model_id e) (ke_quant_bits e) (ke_reason e)
              (ke_ext_flags e OR th_ext_flag hk) (ke_tokens e) (ke_hits e) (ke_ctx_size e)
              (ke_created_at e) (os_time os) (ke_payload_bytes e))) c'))"
        using False unfolding kv_cache_rewrite_trailer_def hooks option.case Let_def
          sz [unfolded hooks] w [unfolded hooks] prod.case assms(1) w'_def
        by (simp only: n assms(2) option.case prod.case de_Morgan_disj if_False not_not if_True simp_thms)
      show thesis
      proof (cases "\<not> w_ok \<or> os_fail os (Fwrite path) \<or> nw = 0")
        case True
        then show thesis
          using run by (intro body [of w']) (simp add: Let_def)
      next
        case F: False
        show thesis
          using run F by (intro both [of w' "ke_ext_flags e OR th_ext_flag hk"])
            (simp only: Let_def if_False append_assoc length_fill_header)
      qed
    qed
  qed
qed

lemma text_matches_iff:
  "kv_cache_file_text_matches os path sha text0 \<longleftrightarrow>
     (\<exists>c e tb rest. length text0 < 2 ^ 32 \<and> \<not> os_fail os (Fopen_read path) \<and>
        map_of (os_files os) path = Some c \<and>
        sf37_kvstore_read_header c kv_entry_zero = Some (e, tb, rest) \<and> tb = of_nat (length text0) \<and>
        take (length text0) rest = text0 \<and> sf37_kvstore_sha1_bytes_hex text0 = sha)"
proof -
  have "take (length text0) rest = text0 \<Longrightarrow> length text0 \<le> length rest" for rest
    by (metis length_take min.cobounded1)
  then show ?thesis
    by (auto simp: kv_cache_file_text_matches_def os_read_def Let_def unat_of_nat_32 not_less
        split: option.split prod.split)
qed

lemma read_header_prefix:
  assumes "sf37_kvstore_read_header c e0 = Some (e, tb, rest)" and "52 \<le> n" and "n \<le> length c"
  shows "sf37_kvstore_read_header (take n c @ w) e0 = Some (e, tb, take (n - 52) rest @ w)"
proof -
  have c: "c = take 52 c @ rest" "length c = 52 + length rest"
    using take52_read(2) [OF assms(1)] drop48_read(2) [OF assms(1)] by auto
  have "take n c = take 52 c @ take (n - 52) rest"
  proof -
    have "take n (take 52 c @ rest) = take 52 c @ take (n - 52) rest"
      using assms(2) c(2) by simp
    then show ?thesis
      using c(1) by simp
  qed
  then show ?thesis
    using read_header_cong [OF assms(1), of "take (n - 52) rest @ w"] by simp
qed

lemma rewrite_keeps_text:
  assumes "sf37_kvstore_read_entry_file os path sha \<noteq> None"
    and "kv_cache_file_text_matches os path sha text0"
  shows "kv_cache_file_text_matches (kv_cache_rewrite_trailer os path text0 hooks ud) path sha text0"
proof -
  obtain c e tb rest where c: "length text0 < 2 ^ 32" "\<not> os_fail os (Fopen_read path)"
    "map_of (os_files os) path = Some c" "tb = of_nat (length text0)"
    "sf37_kvstore_read_header c kv_entry_zero = Some (e, tb, rest)"
    "take (length text0) rest = text0" "sf37_kvstore_sha1_bytes_hex text0 = sha"
    using assms(2) unfolding text_matches_iff by blast
  let ?P = "52 + ucast tb + ke_payload_bytes e :: u64"
  obtain e' where e': "sf37_kvstore_read_entry_file os path sha = Some e'"
    using assms(1) by blast
  have chk: "\<not> UINT64_MAX - 52 < (ucast tb :: u64)" "\<not> UINT64_MAX - 52 - ucast tb < ke_payload_bytes e"
    "\<not> (of_nat (length c) :: u64) < ?P"
    using e' c(3,5) unfolding read_entry_file_iff by auto
  have tb: "unat (ucast tb :: u64) = length text0"
    using c(1) by (simp add: c(4) ucast_of_nat_32 unat_of_nat_64)
  have u1: "unat (52 + ucast tb :: u64) = 52 + length text0"
    using unat_add_no_overflow [of 52 "ucast tb"] chk(1) unfolding add_overflow tb by simp
  have sub: "UINT64_MAX - 52 - ucast tb = UINT64_MAX - (52 + ucast tb :: u64)"
    by (simp add: algebra_simps)
  have P: "unat ?P = 52 + length text0 + unat (ke_payload_bytes e)"
    using unat_add_no_overflow [of "52 + ucast tb" "ke_payload_bytes e"] chk(2)
    unfolding sub add_overflow u1 by simp
  have "unat ?P \<le> unat (of_nat (length c) :: u64)"
    using chk(3) by (simp add: word_less_nat_alt not_less)
  also have "\<dots> \<le> length c"
    by (simp only: unat_of_nat) (rule mod_less_eq_dividend)
  finally have le: "unat ?P \<le> length c" .
  then have rep: "unat ?P - length c = 0"
    by simp
  define rest' where "rest' = (\<lambda>w. take (unat ?P - 52) rest @ w)"
  have rd: "sf37_kvstore_read_header (take (unat ?P) c @ w) kv_entry_zero = Some (e, tb, rest' w)" for w
    unfolding rest'_def by (rule read_header_prefix [OF c(5) _ le]) (simp add: P)
  have "length text0 \<le> length rest"
    using c(6) by (metis length_take min.cobounded1)
  then have tk: "take (length text0) (rest' w) = text0" for w
    using c(6) by (simp add: rest'_def P min_def)
  from c(3,5) show ?thesis
  proof (cases rule: rewrite_trailer_cases [of os path c e tb rest text0 hooks ud])
    case same
    then show ?thesis
      using assms(2) by simp
  next
    case (body w)
    then show ?thesis
      unfolding text_matches_iff using c rd [of w] tk [of w] rep by (auto simp: map_of_os_write)
  next
    case (both w x)
    let ?h = "sf37_kvstore_fill_header (ke_model_id e) (ke_quant_bits e) (ke_reason e) x (ke_tokens e)
       (ke_hits e) (ke_ctx_size e) (ke_created_at e) (os_time os) (ke_payload_bytes e)"
    have d: "drop 48 (take (unat ?P) c @ w) = sf37_kvstore_le_put32 tb @ rest' w"
      by (rule drop48_read(1) [OF rd])
    have r: "sf37_kvstore_read_header (?h @ drop 48 (take (unat ?P) c @ w)) kv_entry_zero =
        Some (e\<lparr>ke_ext_flags := x, ke_hits := ke_hits e, ke_last_used := os_time os\<rparr>, tb, rest' w)"
      unfolding d by (rule read_refill [OF c(5)])
    have m: "map_of (os_files (kv_cache_rewrite_trailer os path text0 hooks ud)) path =
        Some (?h @ drop 48 (take (unat ?P) c @ w))"
      "os_fail (kv_cache_rewrite_trailer os path text0 hooks ud) = os_fail os"
      unfolding both Let_def rep by (simp_all add: map_of_os_write)
    show ?thesis
      unfolding text_matches_iff m using r c tk [of w] by auto
  qed
qed

end
