(* ===== verification/KvStoreProps.thy ===== *)
theory KvStoreProps
  imports KvStore
begin

section \<open>Properties of the checkpoint directory\<close>

text \<open>
  What the operations of \<open>KvStore\<close> guarantee: eviction within the budget and by score, the
  search for the longest stored prefix, and touching. The witnesses run the definitions on
  a directory of two checkpoint files.
\<close>

subsection \<open>Properties\<close>

text \<open>eviction meets the budget: when no removal fails, the files listed afterwards leave
  room for the incoming bytes within the configured budget.\<close>

theorem evict_meets_budget:
  assumes "kc_enabled kc" and "kc_budget_bytes kc \<noteq> 0" and "extra \<le> kc_budget_bytes kc"
    and "os_ok os" and "\<And>p. \<not> os_fail os (Unlink p)"
    and "total_size (kc_entry (kv_cache_refresh os kc)) < 2 ^ 64"
    and "sf37_kvstore_evict os kc extra inc = (os', kc')"
  shows "total_size (kc_entry kc') + unat extra \<le> unat (kc_budget_bytes kc)"
proof -
  let ?es = "kc_entry (kv_cache_refresh os kc)"
  obtain tot es where *: "kc' = (kv_cache_refresh os kc)\<lparr>kc_entry := es\<rparr>"
    "tot = foldl (\<lambda>t e. t + ke_file_size e) 0 ?es"
    "evict_loop (\<lambda>e. sf37_kvstore_entry_eviction_score e (os_time os) inc)
      (kc_budget_bytes kc - extra) os tot ?es = (os', es)"
    using evict_unfold [OF assms(1-3,7)] by blast
  have "map_of (os_files os) (ke_path e) \<noteq> None" if "e \<in> set ?es" for e
    using refresh_listed [OF assms(1) that] dir_entry_fields by blast
  then have "total_size es \<le> unat (kc_budget_bytes kc - extra)"
    using evict_loop_budget [OF assms(5) _ refresh_distinct [OF assms(1,4)] _ *(3)]
      foldl_size [OF assms(6)] *(2) by blast
  moreover have "unat (kc_budget_bytes kc - extra) + unat extra = unat (kc_budget_bytes kc)"
    using unat_sub [OF assms(3)] assms(3) by (simp add: word_le_nat_alt)
  ultimately show ?thesis
    using *(1) by simp
qed

text \<open>eviction goes by score: an entry it dropped never scores above one it kept.\<close>

theorem evict_by_score:
  assumes "kc_enabled kc" and "kc_budget_bytes kc \<noteq> 0" and "extra \<le> kc_budget_bytes kc"
    and "sf37_kvstore_evict os kc extra inc = (os', kc')"
    and "e \<in> set (kc_entry (kv_cache_refresh os kc)) - set (kc_entry kc')" and "f \<in> set (kc_entry kc')"
  shows "sf37_kvstore_entry_eviction_score e (os_time os) inc
    \<le> sf37_kvstore_entry_eviction_score f (os_time os) inc"
proof -
  obtain tot es where *: "kc' = (kv_cache_refresh os kc)\<lparr>kc_entry := es\<rparr>"
    "evict_loop (\<lambda>e. sf37_kvstore_entry_eviction_score e (os_time os) inc)
      (kc_budget_bytes kc - extra) os tot (kc_entry (kv_cache_refresh os kc)) = (os', es)"
    using evict_unfold [OF assms(1-4)] by blast
  show ?thesis
    using evict_loop_order [OF *(2), of e f] assms(5,6) *(1) by simp
qed

text \<open>C39: the search returns the best stored prefix: an entry whose text is the start of the
  prompt by its hash and that fits model, context and minimum, and no other such entry is
  longer, or equally long with more tokens; it finds nothing only when no entry qualifies.\<close>

theorem find_text_prefix_best:
  "case sf37_kvstore_find_text_prefix os kc (Some s) m q ctx of (best, kc') \<Rightarrow>
     kc' = kv_cache_refresh os kc \<and>
     (case best of
        None \<Rightarrow> (\<forall>e \<in> set (kc_entry kc'). \<not> find_eligible kc' s m q ctx e)
      | Some j \<Rightarrow> j < length (kc_entry kc') \<and> find_eligible kc' s m q ctx (kc_entry kc' ! j) \<and>
          (\<forall>e \<in> set (kc_entry kc'). find_eligible kc' s m q ctx e \<longrightarrow> entry_le e (kc_entry kc' ! j)))"
proof -
  let ?kc = "kv_cache_refresh os kc"
  have *: "sf37_kvstore_find_text_prefix os kc (Some s) m q ctx =
     (foldl (find_step ?kc s m q ctx) None [0..<length (kc_entry ?kc)], ?kc)"
    by (simp add: sf37_kvstore_find_text_prefix_def Let_def)
  show ?thesis
    using find_fold [where kc = ?kc and s = s and m = m and q = q and ctx = ctx and n = "length (kc_entry ?kc)"] unfolding * prod.case
    by (fastforce simp: all_set_conv_all_nth split: option.splits)
qed

text \<open>touching a checkpoint changes its hit count and its time of use and nothing else:
  the entry read back differs in these two fields, the size and every byte from the text
  length on are the same, and no other file changes.\<close>

theorem touch_keeps_checkpoint:
  assumes "sf37_kvstore_read_entry_file os path sha = Some e"
    and "sf37_kvstore_touch_file os path hits = (True, os')"
  shows "sf37_kvstore_read_entry_file os' path sha =
      Some (e\<lparr>ke_hits := hits, ke_last_used := os_time os\<rparr>) \<and>
    (\<exists>c c'. map_of (os_files os) path = Some c \<and> length c' = length c \<and> drop 48 c' = drop 48 c \<and>
       map_of (os_files os') = (map_of (os_files os))(path \<mapsto> c'))"
  by (rule touch_file_entry [OF assms])

text \<open>an incoming checkpoint that extends a continued one at least halves that one's
  eviction score, so that the superseded waypoint goes before an equal that is not.\<close>

theorem superseded_halved:
  assumes "kv_cache_incoming_supersedes_continued e (Some i)"
  shows "2 * sf37_kvstore_entry_eviction_score e now (Some i)
    \<le> sf37_kvstore_entry_eviction_score e now None"
  by (rule score_superseded [OF assms])

definition demo_file :: kv_file where
  "demo_file = \<lparr>kf_reason = 2, kf_ext_flags = 0, kf_tokens = 600, kf_hits = 0, kf_ctx_size = 4096,
     kf_created_at = 0, kf_last_used = 0, kf_text = cstr ''hi'', kf_payload = [1, 2, 3],
     kf_trailer = []\<rparr>"

definition demo_dir_os :: kv_os where
  "demo_dir_os = \<lparr>os_files = [(cstr ''d/'' @ replicate 40 0x30 @ cstr ''.kv'', kv_file_bytes demo_file),
       (cstr ''d/'' @ replicate 40 0x31 @ cstr ''.kv'',
          kv_file_bytes (demo_file\<lparr>kf_tokens := 700\<rparr>))],
     os_time = 0, os_pid_text = cstr ''7'', os_fail = \<lambda>_. False\<rparr>"

definition demo_dir :: kvstore where
  "demo_dir = kvstore_zero\<lparr>kc_enabled := True, kc_dir := cstr ''d'', kc_budget_bytes := 60,
     kc_opt := sf37_kvstore_default_options\<rparr>"

definition demo_path :: bytes where
  "demo_path = cstr ''d/'' @ replicate 40 0x30 @ cstr ''.kv''"

lemma demo_dir_enabled: "kc_enabled demo_dir"
  by (simp add: demo_dir_def)

lemma demo_dir_budget: "kc_budget_bytes demo_dir = 60"
  by (simp add: demo_dir_def)

lemma demo_dir_fail: "os_fail demo_dir_os = (\<lambda>_. False)"
  unfolding demo_dir_os_def by (rule kv_os.select_convs)

lemma demo_dir_time: "os_time demo_dir_os = 0"
  unfolding demo_dir_os_def by (rule kv_os.select_convs)

lemma demo_dir_no_unlink: "\<not> os_fail demo_dir_os (Unlink p)"
  by (simp add: demo_dir_fail)

lemma demo_dir_limits: "kc_budget_bytes demo_dir \<noteq> 0" "0 \<le> kc_budget_bytes demo_dir"
  by (simp_all add: demo_dir_budget)

lemmas demo_dir_facts = demo_dir_enabled demo_dir_limits demo_dir_budget demo_dir_no_unlink demo_dir_time

theorem evict_meets_budget_witness:
  "total_size (kc_entry (snd (sf37_kvstore_evict demo_dir_os demo_dir 0 None))) \<le> 60"
proof -
  have ok: "os_ok demo_dir_os" "total_size (kc_entry (kv_cache_refresh demo_dir_os demo_dir)) = 114"
    by code_simp+
  then have "total_size (kc_entry (kv_cache_refresh demo_dir_os demo_dir)) < 2 ^ 64"
    by simp
  from evict_meets_budget [OF demo_dir_facts(1-3) ok(1) demo_dir_facts(5) this
      prod.collapse [symmetric, of "sf37_kvstore_evict demo_dir_os demo_dir 0 None"]]
  show ?thesis
    by (simp add: demo_dir_facts(4))
qed

theorem evict_by_score_witness:
  "sf37_kvstore_entry_eviction_score (kc_entry (kv_cache_refresh demo_dir_os demo_dir) ! 0) 0 None
    \<le> sf37_kvstore_entry_eviction_score (kc_entry (kv_cache_refresh demo_dir_os demo_dir) ! 1) 0 None"
proof -
  let ?es = "kc_entry (kv_cache_refresh demo_dir_os demo_dir)"
  let ?ks = "kc_entry (snd (sf37_kvstore_evict demo_dir_os demo_dir 0 None))"
  have "?es ! 0 \<in> set ?es - set ?ks" "?es ! 1 \<in> set ?ks"
    by code_simp+
  from evict_by_score [OF demo_dir_facts(1-3)
      prod.collapse [symmetric, of "sf37_kvstore_evict demo_dir_os demo_dir 0 None"] this]
  show ?thesis
    by (simp only: demo_dir_facts(6))
qed

theorem find_text_prefix_best_witness:
  "fst (sf37_kvstore_find_text_prefix demo_dir_os demo_dir (Some (cstr ''h'')) 37 3 8192) = None \<and>
   \<not> find_eligible (kv_cache_refresh demo_dir_os demo_dir) (cstr ''h'') 37 3 8192
       (kc_entry (kv_cache_refresh demo_dir_os demo_dir) ! 0)"
proof -
  let ?f = "sf37_kvstore_find_text_prefix demo_dir_os demo_dir (Some (cstr ''h'')) 37 3 8192"
  have "fst ?f = None" "kc_entry (kv_cache_refresh demo_dir_os demo_dir) ! 0 \<in> set (kc_entry (snd ?f))"
    by code_simp+
  then show ?thesis
    using find_text_prefix_best [of demo_dir_os demo_dir "cstr ''h''" 37 3 8192]
    by (cases ?f) auto
qed

theorem touch_keeps_checkpoint_witness:
  "map_option ke_hits (sf37_kvstore_read_entry_file
     (snd (sf37_kvstore_touch_file demo_dir_os demo_path 5)) demo_path (replicate 40 0x30)) = Some 5"
proof -
  have "sf37_kvstore_read_entry_file demo_dir_os demo_path (replicate 40 0x30) \<noteq> None"
    "fst (sf37_kvstore_touch_file demo_dir_os demo_path 5) = True"
    by code_simp+
  then obtain e os' where
    "sf37_kvstore_read_entry_file demo_dir_os demo_path (replicate 40 0x30) = Some e"
    "sf37_kvstore_touch_file demo_dir_os demo_path 5 = (True, os')"
    by (metis not_None_eq prod.collapse)
  from touch_keeps_checkpoint [OF this] this(2) show ?thesis
    by simp
qed

theorem superseded_halved_witness:
  "2 * sf37_kvstore_entry_eviction_score
        ((kv_file_entry demo_file)\<lparr>ke_sha := sf37_kvstore_sha1_bytes_hex (cstr ''hi''), ke_file_size := 57\<rparr>) 9
        (Some \<lparr>ec_text = Some (cstr ''high''), ec_model_id = 37, ec_quant_bits = 3,
               ec_ctx_size = 4096, ec_reject_different_quant = True\<rparr>)
    \<le> sf37_kvstore_entry_eviction_score
        ((kv_file_entry demo_file)\<lparr>ke_sha := sf37_kvstore_sha1_bytes_hex (cstr ''hi''), ke_file_size := 57\<rparr>) 9 None"
  by (rule superseded_halved)
    (simp add: kv_cache_incoming_supersedes_continued_def kv_file_entry_def demo_file_def)

text \<open>a store that reports success leaves a file under the checkpoint's name whose text and
  hash match the checkpoint text, whether the file was written anew or an existing one was
  kept and its trailer rewritten.\<close>

theorem store_success_loadable:
  assumes "sf37_kvstore_store_live_prefix_text ops os kc engine session tokens len reason ov ovx hooks ud
      = (True, os', kc')"
    and "so_tokens ops session = Some live" and "live \<noteq> []" and "length live < 2 ^ 32"
    and "\<And>p. so_stage ops session = Some p \<Longrightarrow> length p < 2 ^ 64"
    and "\<And>s ok w n. kv_trailer_write hooks ud s = (ok, w, n) \<Longrightarrow> unat n = length w"
    and "\<And>p. \<not> os_fail os (Fopen_read p)"
    and "s = checkpoint_text engine live ov" and "h = sf37_kvstore_sha1_bytes_hex s"
  shows "kv_cache_file_text_matches os' (sf37_kvstore_path_for_sha kc h) h s"
  using assms(1)
proof (cases rule: store_cases)
  case (compatible l)
  then have l: "checkpoint_text engine l ov = s"
    using assms(2,8) by simp
  note ex = existing_compatible_cases [OF compatible(6), unfolded l assms(9) [symmetric]]
  have "kv_cache_file_text_matches (kv_cache_rewrite_trailer os (sf37_kvstore_path_for_sha kc h) s hooks ud)
      (sf37_kvstore_path_for_sha kc h) h s"
    by (rule rewrite_keeps_text) (use ex in auto)
  then show ?thesis
    using compatible(7) l assms(9) by simp
next
  case (written l os1 staged est ext)
  then have l: "l = live" "checkpoint_text engine l ov = s"
    using assms(2,8) by auto
  have f1: "os_fail os1 = os_fail os"
    using written(4) by auto
  from written(5) [unfolded l(2) assms(9) [symmetric]] obtain w nw where
    w: "kv_trailer_write hooks ud s = (True, w, nw)"
    "map_of (os_files os') (sf37_kvstore_path_for_sha kc h) =
       Some (kv_file_bytes (store_content os1 s staged ext (length l)
         (sf37_kvstore_reason_code reason) (so_ctx ops session) w))"
    "52 + unat (of_nat (length s) :: u64) + unat (of_nat (length staged) :: u64) + unat nw < 2 ^ 64"
    "os_fail os' = os_fail os1"
    by (rule store_write_done)
  have s32: "length s < 2 ^ 32"
    using written(2) l(2) by simp
  have "unat (of_nat (length s) :: u64) = length s" "unat (of_nat (length staged) :: u64) = length staged"
    using less_trans [OF s32, of "2 ^ 64"] assms(5) [OF written(3)]
    by (intro unat_of_nat_64; simp)+
  then have "52 + length s + length staged + length w < 2 ^ 64"
    using w(3) assms(6) [OF w(1)] by simp
  moreover have "unat (of_nat (length live) :: u32) \<noteq> 0"
    using assms(3,4) by (simp add: unat_of_nat_32)
  then have "(of_nat (length live) :: u32) \<noteq> 0"
    by (metis unat_0)
  ultimately have ok: "kv_file_ok (store_content os1 s staged ext (length l)
      (sf37_kvstore_reason_code reason) (so_ctx ops session) w)"
    using s32 l(1) by (simp add: kv_file_ok_def store_content_def reason_code_le)
  show ?thesis
    using text_matches_kv_file [OF ok w(2)] assms(7,9) w(4) f1 by (simp add: store_content_def)
qed simp_all

definition demo_session_ops :: "(tokens \<times> bytes) session_ops" where
  "demo_session_ops = \<lparr>so_tokens = Some \<circ> fst, so_ctx = \<lambda>_. 4096, so_stage = Some \<circ> snd,
     so_load = \<lambda>s fp n. (s, fp, False), so_rewind = \<lambda>s n. s\<rparr>"

definition empty_os :: kv_os where
  "empty_os = \<lparr>os_files = [], os_time = 9, os_pid_text = cstr ''7'', os_fail = \<lambda>_. False\<rparr>"

definition open_dir :: kvstore where
  "open_dir = kvstore_zero\<lparr>kc_enabled := True, kc_dir := cstr ''d''\<rparr>"

lemma demo_store_runs:
  "fst (sf37_kvstore_store_live_prefix_text demo_session_ops empty_os open_dir None ([7, 8], [1, 2, 3])
     (Some [7, 8]) 2 (Some (cstr ''cold'')) (Some (cstr ''hi'')) 0 (None :: unit trailer_hooks option) ())
   = True"
  by (simp add: sf37_kvstore_store_live_prefix_text_def open_dir_def kvstore_zero_def
      demo_session_ops_def starts_with kv_trailer_serialized_size_def Let_def
      kv_cache_existing_compatible_def empty_os_def sf37_kvstore_file_size_fits_def
      kv_cache_file_size_bytes_def kv_store_write_def sf37_kvstore_evict_def kv_trailer_write_def
      os_write_def os_rename_def)

theorem store_success_loadable_witness:
  "kv_cache_file_text_matches
     (fst (snd (sf37_kvstore_store_live_prefix_text demo_session_ops empty_os open_dir None
        ([7, 8], [1, 2, 3]) (Some [7, 8]) 2 (Some (cstr ''cold'')) (Some (cstr ''hi'')) 0
        (None :: unit trailer_hooks option) ())))
     (sf37_kvstore_path_for_sha open_dir (sf37_kvstore_sha1_bytes_hex (cstr ''hi'')))
     (sf37_kvstore_sha1_bytes_hex (cstr ''hi'')) (cstr ''hi'')"
proof -
  let ?r = "sf37_kvstore_store_live_prefix_text demo_session_ops empty_os open_dir None
        ([7, 8], [1, 2, 3]) (Some [7, 8]) 2 (Some (cstr ''cold'')) (Some (cstr ''hi'')) 0
        (None :: unit trailer_hooks option) ()"
  have "?r = (True, fst (snd ?r), snd (snd ?r))"
    by (simp only: prod_eq_iff fst_conv snd_conv demo_store_runs simp_thms)
  then show ?thesis
    by (rule store_success_loadable [where live = "[7, 8]" and engine = None and ov = "Some (cstr ''hi'')"])
      (simp_all add: demo_session_ops_def empty_os_def kv_trailer_write_def checkpoint_text_def
        del: cstr_simps, simp)
qed

lemma unlink_old_or_absent:
  "map_of (os_files (snd (os_unlink os p))) q = map_of (os_files os) q \<or>
   map_of (os_files (snd (os_unlink os p))) q = None"
  by (simp add: map_of_os_unlink)

text \<open>C30: a store that fails never leaves a partial file under the checkpoint's name: the name
  holds what it held before, or nothing (the file was incompatible or was evicted).\<close>

theorem store_failure_atomic:
  assumes "sf37_kvstore_store_live_prefix_text ops os kc engine session tokens len reason ov ovx hooks ud
      = (False, os', kc')"
    and "so_tokens ops session = Some live"
    and "path = sf37_kvstore_path_for_sha kc (sf37_kvstore_sha1_bytes_hex (checkpoint_text engine live ov))"
  shows "map_of (os_files os') path = map_of (os_files os) path \<or> map_of (os_files os') path = None"
  using assms(1)
proof (cases rule: store_cases)
  case (dropped l)
  then show ?thesis
    using unlink_old_or_absent [of os path path] assms(2,3) by auto
next
  case (written l os1 staged est ext)
  then have l: "l = live"
    using assms(2) by simp
  have "map_of (os_files os1) path = map_of (os_files os) path \<or> map_of (os_files os1) path = None"
    using unlink_old_or_absent [of os path path] written(4) l assms(3) by auto
  moreover have "map_of (os_files os') path = map_of (os_files os1) path \<or> map_of (os_files os') path = None"
    using store_write_failed [OF written(5)] l assms(3) by simp
  ultimately show ?thesis
    by auto
qed simp_all

theorem store_failure_atomic_witness:
  "\<exists>os' kc'. sf37_kvstore_store_live_prefix_text demo_session_ops empty_os kvstore_zero None
      ([7, 8], [1, 2, 3]) (Some [7, 8]) 2 (Some (cstr ''cold'')) (Some (cstr ''hi'')) 0
      (None :: unit trailer_hooks option) () = (False, os', kc') \<and>
    map_of (os_files os') (sf37_kvstore_path_for_sha kvstore_zero
      (sf37_kvstore_sha1_bytes_hex (cstr ''hi''))) = None"
proof -
  let ?r = "sf37_kvstore_store_live_prefix_text demo_session_ops empty_os kvstore_zero None
      ([7, 8], [1, 2, 3]) (Some [7, 8]) 2 (Some (cstr ''cold'')) (Some (cstr ''hi'')) 0
      (None :: unit trailer_hooks option) ()"
  have "?r = (False, empty_os, kvstore_zero)"
    by (simp add: sf37_kvstore_store_live_prefix_text_def kvstore_zero_def)
  from this store_failure_atomic [OF this, of "[7, 8]"] show ?thesis
    by (simp add: demo_session_ops_def checkpoint_text_def empty_os_def)
qed

end
