(* ===== verification/Session.thy ===== *)
theory Session
  imports Bpe
begin

section \<open>Inference sessions and their KV cache\<close>

text \<open>
  The session of \<open>sf37.c\<close> on its CPU path (the only path of a build without CUDA): the
  per-layer KV caches, evaluation of a token through the 45 layers, rewinding, prefix reuse
  and \<open>sf37_session_sync\<close>. What the layers compute is a record of kernels: the embedding,
  the keys and values of a position, the layer's output given the rows its attention sees,
  and the output logits; the cache, the sliding window and the order of all calls are the
  code's. A \<open>float\<close> is its 32-bit pattern; a row of the cache is one list of them. The
  counters \<open>n\<close> and \<open>cap\<close> of a layer are natural numbers, bounded by the context size.
\<close>

subsection \<open>Kernels and caches\<close>

type_synonym frow = "u32 list"

definition SF37_MAIN_LAYERS :: nat where "SF37_MAIN_LAYERS = 45"
definition SF37_SLIDING_WINDOW :: nat where "SF37_SLIDING_WINDOW = 512"
definition SF37_VOCAB :: nat where "SF37_VOCAB = 128896"
definition SF37_CTX :: int where "SF37_CTX = 262144"
definition SF37_EMBD :: nat where "SF37_EMBD = 4096"
definition SF37_KV_ROW :: nat where "SF37_KV_ROW = 8 * 128"

record kernels =
  kn_embed :: "int \<Rightarrow> frow"
  kn_kv :: "nat \<Rightarrow> nat \<Rightarrow> frow \<Rightarrow> frow \<times> frow"
  kn_layer :: "nat \<Rightarrow> nat \<Rightarrow> frow \<Rightarrow> frow list \<Rightarrow> frow list \<Rightarrow> frow"
  kn_logits :: "frow \<Rightarrow> frow"

record layer_kv =
  lk_k :: "frow list"
  lk_v :: "frow list"
  lk_n :: nat
  lk_cap :: nat

definition layer_is_full :: "nat \<Rightarrow> bool" where
  "layer_is_full il \<longleftrightarrow> il mod 4 = 0"

definition zero_row :: frow where
  "zero_row = replicate SF37_KV_ROW 0"

definition kv_cache_init :: "nat \<Rightarrow> layer_kv list" where
  "kv_cache_init cap =
     (let cap = (if cap = 0 then 1 else cap)
      in replicate SF37_MAIN_LAYERS
           \<lparr>lk_k = replicate cap zero_row, lk_v = replicate cap zero_row, lk_n = 0, lk_cap = cap\<rparr>)"

text \<open>\<open>memmove\<close> of \<open>cap - 1\<close> rows to the front leaves the last row in place.\<close>

definition shift_rows :: "nat \<Rightarrow> frow list \<Rightarrow> frow list" where
  "shift_rows cap rows = take (cap - 1) (drop 1 rows) @ drop (cap - 1) rows"

definition kv_cache_push_row :: "layer_kv \<Rightarrow> frow \<Rightarrow> frow \<Rightarrow> layer_kv" where
  "kv_cache_push_row layer k v =
     (let layer = (if lk_n layer \<ge> lk_cap layer
                   then layer\<lparr>lk_k := shift_rows (lk_cap layer) (lk_k layer),
                              lk_v := shift_rows (lk_cap layer) (lk_v layer),
                              lk_n := lk_cap layer - 1\<rparr>
                   else layer)
      in layer\<lparr>lk_k := (lk_k layer)[lk_n layer := k], lk_v := (lk_v layer)[lk_n layer := v],
               lk_n := lk_n layer + 1\<rparr>)"

text \<open>The rows \<open>attention_decode\<close> reads.\<close>

definition attention_rows :: "bool \<Rightarrow> nat \<Rightarrow> frow list \<Rightarrow> frow list" where
  "attention_rows sliding n rows =
     (let start = (if sliding \<and> n > SF37_SLIDING_WINDOW then n - SF37_SLIDING_WINDOW else 0)
      in drop start (take n rows))"

definition run_layer_decode ::
  "kernels \<Rightarrow> nat \<Rightarrow> layer_kv list \<times> frow \<Rightarrow> nat \<Rightarrow> layer_kv list \<times> frow" where
  "run_layer_decode kn pos st il =
     (case st of (layers, hidden) \<Rightarrow>
        let full = layer_is_full il;
            (k, v) = kn_kv kn il pos hidden;
            layer = kv_cache_push_row (layers ! il) k v;
            hidden = kn_layer kn il pos hidden
                       (attention_rows (\<not> full) (lk_n layer) (lk_k layer))
                       (attention_rows (\<not> full) (lk_n layer) (lk_v layer))
        in (layers[il := layer], hidden))"

subsection \<open>Sessions\<close>

record sf37_session =
  se_ctx_size :: int
  se_checkpoint :: tokens
  se_checkpoint_valid :: bool
  se_hidden :: frow
  se_logits :: frow
  se_layer :: "layer_kv list"
  se_sig_valid :: bool
  se_sig_a :: u64
  se_sig_b :: u64
  se_sig_rows :: u32

text \<open>The scratch rows \<open>hidden\<close> and \<open>logits\<close> come from \<open>malloc\<close>: their content is a
  parameter.\<close>

definition sf37_session_create :: "frow \<Rightarrow> frow \<Rightarrow> int \<Rightarrow> sf37_session option" where
  "sf37_session_create hidden logits ctx_size =
     (if ctx_size \<le> 0 \<or> ctx_size > SF37_CTX then None
      else Some \<lparr>se_ctx_size = ctx_size, se_checkpoint = [], se_checkpoint_valid = True,
                 se_hidden = hidden, se_logits = logits, se_layer = kv_cache_init (nat ctx_size),
                 se_sig_valid = False, se_sig_a = 0, se_sig_b = 0, se_sig_rows = 0\<rparr>)"

definition session_clear_image_signature :: "sf37_session \<Rightarrow> sf37_session" where
  "session_clear_image_signature s =
     s\<lparr>se_sig_valid := False, se_sig_a := 0, se_sig_b := 0, se_sig_rows := 0\<rparr>"

definition session_reset :: "sf37_session \<Rightarrow> sf37_session" where
  "session_reset s =
     (let s = session_clear_image_signature (s\<lparr>se_checkpoint := [], se_checkpoint_valid := True\<rparr>)
      in s\<lparr>se_layer := map (\<lambda>l. l\<lparr>lk_n := 0\<rparr>) (se_layer s)\<rparr>)"

definition sf37_session_rewind :: "sf37_session \<Rightarrow> int \<Rightarrow> sf37_session" where
  "sf37_session_rewind s pos =
     (let pos = (if pos < 0 then 0 else pos);
          pos = (if pos > int (length (se_checkpoint s)) then int (length (se_checkpoint s)) else pos);
          s = s\<lparr>se_checkpoint := take (nat pos) (se_checkpoint s), se_checkpoint_valid := True\<rparr>;
          s = (if pos = 0 then session_clear_image_signature s else s)
      in s\<lparr>se_layer := map (\<lambda>l. l\<lparr>lk_n := nat pos\<rparr>) (se_layer s)\<rparr>)"

text \<open>On the CPU path every position of a valid checkpoint can be rewound to.\<close>

definition session_rewind_preserves_kv :: "sf37_session \<Rightarrow> int \<Rightarrow> bool" where
  "session_rewind_preserves_kv s pos \<longleftrightarrow>
     se_checkpoint_valid s \<and> \<not> (pos < 0 \<or> pos > int (length (se_checkpoint s)))"

subsection \<open>Evaluation\<close>

text \<open>The result is the success of the call (return code 0) and the session.\<close>

definition sf37_session_eval_internal ::
  "kernels \<Rightarrow> sf37_session \<Rightarrow> int \<Rightarrow> bool \<Rightarrow> bool \<times> sf37_session" where
  "sf37_session_eval_internal kn s token need_logits =
     (if token < 0 \<or> token \<ge> int SF37_VOCAB then (False, s)
      else if int (length (se_checkpoint s)) \<ge> se_ctx_size s then (False, s)
      else
        let pos = length (se_checkpoint s);
            hidden = kn_embed kn token;
            (layers, hidden) = foldl (run_layer_decode kn pos) (se_layer s, hidden) [0..<SF37_MAIN_LAYERS];
            logits = (if need_logits then kn_logits kn hidden else se_logits s)
        in (True, s\<lparr>se_layer := layers, se_hidden := hidden, se_logits := logits,
                    se_checkpoint := sf37_tokens_push (se_checkpoint s) token,
                    se_checkpoint_valid := True\<rparr>))"

definition sf37_session_eval :: "kernels \<Rightarrow> sf37_session \<Rightarrow> int \<Rightarrow> bool \<times> sf37_session" where
  "sf37_session_eval kn s token = sf37_session_eval_internal kn s token True"

definition sf37_session_eval_no_logits :: "kernels \<Rightarrow> sf37_session \<Rightarrow> int \<Rightarrow> bool \<times> sf37_session" where
  "sf37_session_eval_no_logits kn s token = sf37_session_eval_internal kn s token False"

definition sf37_session_output_logits :: "kernels \<Rightarrow> sf37_session \<Rightarrow> sf37_session" where
  "sf37_session_output_logits kn s = s\<lparr>se_logits := kn_logits kn (se_hidden s)\<rparr>"

text \<open>The order of \<open>float\<close> patterns: not-a-number compares false, both zeros are equal.\<close>

definition f32_is_nan :: "u32 \<Rightarrow> bool" where
  "f32_is_nan w \<longleftrightarrow> w AND 0x7fffffff > 0x7f800000"

definition f32_key :: "u32 \<Rightarrow> int" where
  "f32_key w = (if bit w 31 then - uint (w AND 0x7fffffff) else uint (w AND 0x7fffffff))"

definition f32_gt :: "u32 \<Rightarrow> u32 \<Rightarrow> bool" where
  "f32_gt a b \<longleftrightarrow> \<not> f32_is_nan a \<and> \<not> f32_is_nan b \<and> f32_key a > f32_key b"

fun argmax_scan :: "nat \<Rightarrow> frow \<Rightarrow> int \<times> u32 \<Rightarrow> int" where
  "argmax_scan i [] best = fst best"
| "argmax_scan i (v # vs) best =
     argmax_scan (i + 1) vs (if f32_gt v (snd best) then (int i, v) else best)"

definition sample_argmax :: "frow \<Rightarrow> int" where
  "sample_argmax logits =
     (case logits of [] \<Rightarrow> -1 | v # vs \<Rightarrow> argmax_scan 1 vs (0, v))"

definition sf37_session_output_argmax :: "kernels \<Rightarrow> sf37_session \<Rightarrow> int \<times> sf37_session" where
  "sf37_session_output_argmax kn s =
     (let s = s\<lparr>se_logits := kn_logits kn (se_hidden s)\<rparr> in (sample_argmax (se_logits s), s))"

definition sf37_session_eval_argmax :: "kernels \<Rightarrow> sf37_session \<Rightarrow> int \<Rightarrow> int \<times> sf37_session" where
  "sf37_session_eval_argmax kn s token =
     (case sf37_session_eval_internal kn s token False of
        (ok, s) \<Rightarrow>
          if \<not> ok then (-1, s)
          else (case sf37_session_output_argmax kn s of
                  (nxt, s) \<Rightarrow> (nxt, if nxt < 0 then s\<lparr>se_checkpoint_valid := False\<rparr> else s)))"

fun argmax_excluding_scan :: "int \<Rightarrow> nat \<Rightarrow> frow \<Rightarrow> int \<times> u32 \<Rightarrow> int" where
  "argmax_excluding_scan excluded i [] best = fst best"
| "argmax_excluding_scan excluded i (v # vs) best =
     argmax_excluding_scan excluded (i + 1) vs
       (if int i = excluded then best
        else if fst best < 0 \<or> f32_gt v (snd best) then (int i, v) else best)"

definition sf37_session_argmax_excluding :: "sf37_session \<Rightarrow> int \<Rightarrow> int" where
  "sf37_session_argmax_excluding s excluded = argmax_excluding_scan excluded 0 (se_logits s) (-1, 0xff800000)"

subsection \<open>Prefix reuse\<close>

fun common_prefix_len :: "tokens \<Rightarrow> tokens \<Rightarrow> nat" where
  "common_prefix_len (a # as) (b # bs) = (if a = b then Suc (common_prefix_len as bs) else 0)"
| "common_prefix_len _ _ = 0"

definition sf37_session_common_prefix :: "sf37_session \<Rightarrow> tokens \<Rightarrow> nat" where
  "sf37_session_common_prefix s prompt =
     (if \<not> se_checkpoint_valid s then 0 else common_prefix_len (se_checkpoint s) prompt)"

definition session_can_reuse_common :: "sf37_session \<Rightarrow> tokens \<Rightarrow> nat \<Rightarrow> bool" where
  "session_can_reuse_common s prompt common =
     (if \<not> se_checkpoint_valid s then False
      else if common = 0 \<or> common > length (se_checkpoint s) \<or> common > length prompt then False
      else if common = length (se_checkpoint s) then True
      else if common = length prompt then False
      else session_rewind_preserves_kv s (int common))"

definition sf37_session_reusable_prefix :: "sf37_session \<Rightarrow> tokens \<Rightarrow> nat" where
  "sf37_session_reusable_prefix s prompt =
     (if int (length prompt) > se_ctx_size s then 0
      else let common = sf37_session_common_prefix s prompt
           in if session_can_reuse_common s prompt common then common else 0)"

text \<open>The cancel callback is asked twice per token; \<open>cancel k\<close> is its \<open>k\<close>-th answer.\<close>

fun sync_eval_loop ::
  "kernels \<Rightarrow> (nat \<Rightarrow> bool) \<Rightarrow> nat \<Rightarrow> sf37_session \<Rightarrow> tokens \<Rightarrow> bool \<times> sf37_session" where
  "sync_eval_loop kn cancel k s [] = (True, s)"
| "sync_eval_loop kn cancel k s (t # ts) =
     (if cancel k then (False, s)
      else (case sf37_session_eval_internal kn s t (ts = []) of
              (ok, s') \<Rightarrow>
                if \<not> ok then (False, s')
                else if cancel (k + 1) then (False, s')
                else sync_eval_loop kn cancel (k + 2) s' ts))"

subsection \<open>Image features\<close>

text \<open>The pointers of \<open>sf37_image_features\<close> are optional arrays; a \<open>float\<close> array is the
  list of its patterns. The hosts the program builds for are little-endian, which is how a
  word lies in memory.\<close>

record image_features =
  if_data :: "u32 list option"
  if_rows :: u32
  if_dim :: u32
  if_pixel_values :: "u32 list option"
  if_images :: u32
  if_pixel_channels :: u32
  if_pixel_height :: u32
  if_pixel_width :: u32
  if_patch_pixel_values :: "u32 list option"
  if_patch_images :: u32
  if_patches_per_image :: "u32 list option"

definition host_u32 :: "u32 \<Rightarrow> bytes" where
  "host_u32 w = [ucast w, ucast (drop_bit 8 w), ucast (drop_bit 16 w), ucast (drop_bit 24 w)]"

definition host_u32s :: "u32 list \<Rightarrow> bytes" where
  "host_u32s ws = concat (map host_u32 ws)"

definition prompt_count_im_patch :: "int \<Rightarrow> tokens \<Rightarrow> nat \<Rightarrow> nat \<Rightarrow> nat" where
  "prompt_count_im_patch im_patch_id prompt start end_pos =
     (if im_patch_id < 0 \<or> start \<ge> end_pos then 0
      else let end_pos = (if end_pos > length prompt then length prompt else end_pos)
           in length (filter (\<lambda>t. t = im_patch_id) (drop start (take end_pos prompt))))"

abbreviation UINT32_MAX :: u32 where "UINT32_MAX \<equiv> - 1"

definition has_main_pixels :: "image_features \<Rightarrow> bool" where
  "has_main_pixels f \<longleftrightarrow> if_pixel_values f \<noteq> None \<and> if_images f > 0"

definition has_patch_pixels :: "image_features \<Rightarrow> bool" where
  "has_patch_pixels f \<longleftrightarrow> if_patch_pixel_values f \<noteq> None \<and> if_patch_images f > 0"

text \<open>\<open>None\<close> is an error; the rows are the out parameter.\<close>

definition image_pixels_feature_rows :: "image_features \<Rightarrow> u32 option" where
  "image_pixels_feature_rows f =
     (if if_pixel_values f = None \<or> if_images f = 0 then Some 0
      else if if_pixel_channels f \<noteq> 3 then None
      else if if_pixel_height f \<noteq> if_pixel_width f \<or>
              (if_pixel_height f \<noteq> 728 \<and> if_pixel_height f \<noteq> 504) then None
      else if if_pixel_height f mod 14 \<noteq> 0 then None
      else let grid = if_pixel_height f div 14 in
           if grid AND 3 \<noteq> 0 then None
           else let out_grid = grid div 4 in Some (out_grid * out_grid))"

text \<open>The sum over \<open>patches_per_image\<close>, stopping at an overflow.\<close>

fun sum_patches :: "u32 list \<Rightarrow> u32 \<Rightarrow> u32 option" where
  "sum_patches [] patches = Some patches"
| "sum_patches (p # ps) patches =
     (if p > UINT32_MAX - patches then None else sum_patches ps (patches + p))"

definition image_pixels_mixed_feature_rows :: "image_features \<Rightarrow> u32 option" where
  "image_pixels_mixed_feature_rows f =
     (if \<not> has_patch_pixels f then
        (case image_pixels_feature_rows f of
           None \<Rightarrow> None
         | Some per \<Rightarrow>
             if has_main_pixels f \<and> if_images f > UINT32_MAX div per then None
             else Some (if has_main_pixels f then if_images f * per else 0))
      else if \<not> has_main_pixels f then None
      else if if_pixel_channels f \<noteq> 3 \<or> if_pixel_height f \<noteq> 728 \<or> if_pixel_width f \<noteq> 728 then None
      else (case if_patches_per_image f of
              None \<Rightarrow> None
            | Some ps \<Rightarrow>
                (case sum_patches (take (unat (if_images f)) ps) 0 of
                   None \<Rightarrow> None
                 | Some patches \<Rightarrow>
                     if patches \<noteq> if_patch_images f then None
                     else let tot = (ucast (if_images f) :: u64) * 169 + ucast (if_patch_images f) * 81
                          in if tot > ucast UINT32_MAX then None else Some (ucast tot))))"

definition image_features_effective_rows :: "image_features option \<Rightarrow> u32 option" where
  "image_features_effective_rows features =
     (case features of None \<Rightarrow> Some 0
      | Some f \<Rightarrow>
          if has_main_pixels f \<or> has_patch_pixels f then image_pixels_mixed_feature_rows f
          else Some (if_rows f))"

record image_signature =
  sg_a :: u64
  sg_b :: u64
  sg_rows :: u32

definition image_signature_update :: "image_signature \<Rightarrow> bytes \<Rightarrow> image_signature" where
  "image_signature_update sig p =
     foldl (\<lambda>sig (i, x).
         let a = (sg_a sig XOR ucast x) * 1099511628211;
             b = (sg_b sig XOR (push_bit ((i mod 8) * 8) (ucast x) XOR drop_bit 17 a)) * 14029467366897019727
         in sig\<lparr>sg_a := a, sg_b := b\<rparr>)
       sig (enumerate 0 p)"

definition image_signature_u32 :: "image_signature \<Rightarrow> u32 \<Rightarrow> image_signature" where
  "image_signature_u32 sig v =
     image_signature_update sig
       [ucast (v AND 255), ucast (drop_bit 8 v AND 255), ucast (drop_bit 16 v AND 255),
        ucast (drop_bit 24 v AND 255)]"

definition mul_u64_checked :: "u64 \<Rightarrow> u64 \<Rightarrow> u64 option" where
  "mul_u64_checked a b = (if a \<noteq> 0 \<and> b > (- 1) div a then None else Some (a * b))"

fun mul_u64_all :: "u64 \<Rightarrow> u64 list \<Rightarrow> u64 option" where
  "mul_u64_all n [] = (if n > (- 1) div 4 then None else Some n)"
| "mul_u64_all n (m # ms) = (case mul_u64_checked n m of None \<Rightarrow> None | Some n' \<Rightarrow> mul_u64_all n' ms)"

text \<open>One optional array of \<open>n\<close> floats, with the checked product of its dimensions.\<close>

definition signature_floats ::
  "image_signature \<Rightarrow> bool \<Rightarrow> u32 list option \<Rightarrow> u64 \<Rightarrow> u64 list \<Rightarrow> image_signature option" where
  "signature_floats sig present arr n dims =
     (case arr of
        None \<Rightarrow> Some sig
      | Some xs \<Rightarrow>
          if \<not> present then Some sig
          else (case mul_u64_all n dims of
                  None \<Rightarrow> None
                | Some n \<Rightarrow> Some (image_signature_update sig (take (unat (n * 4)) (host_u32s xs)))))"

definition image_signature_from_features ::
  "image_features option \<Rightarrow> u32 \<Rightarrow> image_signature option" where
  "image_signature_from_features features rows =
     (case features of None \<Rightarrow> Some \<lparr>sg_a = 0, sg_b = 0, sg_rows = 0\<rparr>
      | Some f \<Rightarrow>
          if rows = 0 then Some \<lparr>sg_a = 0, sg_b = 0, sg_rows = 0\<rparr>
          else
            let sig = foldl image_signature_u32
                  \<lparr>sg_a = 1469598103934665603, sg_b = 1099511628211 XOR 0x9e3779b97f4a7c15, sg_rows = rows\<rparr>
                  [1, rows, if_rows f, if_dim f, if_images f, if_pixel_channels f, if_pixel_height f,
                   if_pixel_width f, if_patch_images f];
                sig = (case if_patches_per_image f of
                    Some ps \<Rightarrow> if if_images f > 0
                               then image_signature_update sig
                                      (take (unat ((ucast (if_images f) :: u64) * 4)) (host_u32s ps))
                               else sig
                  | None \<Rightarrow> sig)
            in (case signature_floats sig (if_images f > 0) (if_pixel_values f) (ucast (if_images f))
                       [ucast (if_pixel_channels f), ucast (if_pixel_height f), ucast (if_pixel_width f)] of
                  None \<Rightarrow> None
                | Some sig \<Rightarrow>
                    (case signature_floats sig (if_patch_images f > 0) (if_patch_pixel_values f)
                            (ucast (if_patch_images f)) [3, 504, 504] of
                       None \<Rightarrow> None
                     | Some sig \<Rightarrow>
                         signature_floats sig (if_rows f > 0 \<and> if_dim f > 0) (if_data f)
                           (ucast (if_rows f)) [ucast (if_dim f)])))"

definition session_image_signature_matches :: "sf37_session \<Rightarrow> image_signature \<Rightarrow> bool" where
  "session_image_signature_matches s sig \<longleftrightarrow>
     se_sig_valid s \<and> se_sig_rows s = sg_rows sig \<and> se_sig_a s = sg_a sig \<and> se_sig_b s = sg_b sig"

definition session_set_image_signature :: "sf37_session \<Rightarrow> image_signature \<Rightarrow> sf37_session" where
  "session_set_image_signature s sig =
     (if sg_rows sig = 0 then s
      else s\<lparr>se_sig_valid := True, se_sig_a := sg_a sig, se_sig_b := sg_b sig, se_sig_rows := sg_rows sig\<rparr>)"

text \<open>The checks shared by \<open>session_prepare_image_signature\<close> and the synchronisation: the
  number of image rows the features stand for.\<close>

definition image_rows_checked :: "int \<Rightarrow> tokens \<Rightarrow> image_features option \<Rightarrow> u32 option" where
  "image_rows_checked im_patch_id prompt features =
     (case features of None \<Rightarrow> Some 0
      | Some f \<Rightarrow>
          (case image_features_effective_rows features of
             None \<Rightarrow> None
           | Some rows \<Rightarrow>
               let has_pixels = has_main_pixels f \<or> has_patch_pixels f
               in if \<not> has_pixels \<and> if_rows f > 0 \<and> if_data f = None then None
                  else if \<not> has_pixels \<and> if_rows f > 0 \<and> if_dim f \<noteq> 4096 \<and> if_dim f \<noteq> 6144 then None
                  else if of_nat (prompt_count_im_patch im_patch_id prompt 0 (length prompt)) \<noteq> rows
                  then None
                  else Some rows))"

definition session_prepare_image_signature ::
  "int \<Rightarrow> tokens \<Rightarrow> image_features option \<Rightarrow> (u32 \<times> image_signature) option" where
  "session_prepare_image_signature im_patch_id prompt features =
     (case image_rows_checked im_patch_id prompt features of
        None \<Rightarrow> None
      | Some rows \<Rightarrow>
          if rows > 0 then
            (case image_signature_from_features features rows of
               None \<Rightarrow> None | Some sig \<Rightarrow> Some (rows, sig))
          else Some (rows, \<lparr>sg_a = 0, sg_b = 0, sg_rows = 0\<rparr>))"

definition sf37_session_reusable_prefix_multimodal ::
  "int \<Rightarrow> sf37_session \<Rightarrow> tokens \<Rightarrow> image_features option \<Rightarrow> nat" where
  "sf37_session_reusable_prefix_multimodal im_patch_id s prompt features =
     (if int (length prompt) > se_ctx_size s then 0
      else (case session_prepare_image_signature im_patch_id prompt features of
              None \<Rightarrow> 0
            | Some (image_rows, sig) \<Rightarrow>
                let common = sf37_session_common_prefix s prompt
                in if image_rows > 0 \<and> prompt_count_im_patch im_patch_id prompt 0 common > 0 \<and>
                      \<not> session_image_signature_matches s sig then 0
                   else if session_can_reuse_common s prompt common then common else 0))"

definition sf37_session_note_image_features ::
  "int \<Rightarrow> sf37_session \<Rightarrow> tokens \<Rightarrow> image_features \<Rightarrow> bool \<times> sf37_session" where
  "sf37_session_note_image_features im_patch_id s prompt features =
     (case session_prepare_image_signature im_patch_id prompt (Some features) of
        None \<Rightarrow> (False, s)
      | Some (image_rows, sig) \<Rightarrow>
          (True, if image_rows > 0 then session_set_image_signature s sig else s))"

subsection \<open>Synchronising with a prompt\<close>

definition sync_start :: "sf37_session \<Rightarrow> tokens \<Rightarrow> image_signature option \<Rightarrow> nat \<times> sf37_session" where
  "sync_start s prompt sig =
     (let common = sf37_session_common_prefix s prompt
      in if (case sig of None \<Rightarrow> False | Some g \<Rightarrow> \<not> session_image_signature_matches s g)
         then (0, session_reset s)
         else if \<not> se_checkpoint_valid s \<or> common = 0 \<or> common < length (se_checkpoint s)
         then (0, session_reset s)
         else if common < length prompt then (common, sf37_session_rewind s (int common))
         else (common, s))"

definition sf37_session_sync_multimodal ::
  "kernels \<Rightarrow> int \<Rightarrow> (nat \<Rightarrow> bool) \<Rightarrow> sf37_session \<Rightarrow> tokens \<Rightarrow> image_features option \<Rightarrow>
   bool \<times> sf37_session" where
  "sf37_session_sync_multimodal kn im_patch_id cancel s prompt features =
     (if int (length prompt) > se_ctx_size s then (False, s)
      else (case image_rows_checked im_patch_id prompt features of
              None \<Rightarrow> (False, s)
            | Some image_rows \<Rightarrow>
                (case (if image_rows > 0 then image_signature_from_features features image_rows
                       else Some \<lparr>sg_a = 0, sg_b = 0, sg_rows = 0\<rparr>) of
                   None \<Rightarrow> (False, s)
                 | Some g \<Rightarrow>
                     let sig = (if image_rows > 0 then Some g else None);
                         (common, s) = sync_start s prompt sig;
                         suffix_image_rows =
                           (if image_rows > 0
                            then prompt_count_im_patch im_patch_id prompt common (length prompt) else 0)
                     in if suffix_image_rows > 0 then (False, s)
                        else (case sync_eval_loop kn cancel 0 s (drop common prompt) of
                                (ok, s) \<Rightarrow>
                                  (ok, if ok \<and> image_rows > 0 then session_set_image_signature s g else s)))))"

definition sf37_session_sync ::
  "kernels \<Rightarrow> (nat \<Rightarrow> bool) \<Rightarrow> sf37_session \<Rightarrow> tokens \<Rightarrow> bool \<times> sf37_session" where
  "sf37_session_sync kn cancel s prompt =
     sf37_session_sync_multimodal kn (-1) cancel s prompt None"

section \<open>What a session computes\<close>

text \<open>The reference: the complete history of keys and values of every layer, extended token
  by token, with no cache, no capacity and no rewinding.\<close>

type_synonym history = "(frow \<times> frow) list list"

definition ref_window :: "nat \<Rightarrow> 'a list \<Rightarrow> 'a list" where
  "ref_window il r = (if layer_is_full il then r else drop (length r - SF37_SLIDING_WINDOW) r)"

definition ref_layer :: "kernels \<Rightarrow> nat \<Rightarrow> history \<times> frow \<Rightarrow> nat \<Rightarrow> history \<times> frow" where
  "ref_layer kn pos st il =
     (case st of (rows, hidden) \<Rightarrow>
        let r = rows ! il @ [kn_kv kn il pos hidden]
        in (rows[il := r], kn_layer kn il pos hidden (map fst (ref_window il r)) (map snd (ref_window il r))))"

definition ref_token :: "kernels \<Rightarrow> history \<times> frow \<Rightarrow> nat \<times> int \<Rightarrow> history \<times> frow" where
  "ref_token kn st it =
     foldl (ref_layer kn (fst it)) (fst st, kn_embed kn (snd it)) [0..<SF37_MAIN_LAYERS]"

definition ref_state :: "kernels \<Rightarrow> tokens \<Rightarrow> history \<times> frow" where
  "ref_state kn ts = foldl (ref_token kn) (replicate SF37_MAIN_LAYERS [], []) (enumerate 0 ts)"

definition ref_logits :: "kernels \<Rightarrow> tokens \<Rightarrow> frow" where
  "ref_logits kn ts = kn_logits kn (snd (ref_state kn ts))"

lemma ref_state_Nil [simp]: "fst (ref_state kn []) = replicate SF37_MAIN_LAYERS []"
  by (simp add: ref_state_def)

lemma ref_state_snoc:
  "ref_state kn (ts @ [t]) =
     foldl (ref_layer kn (length ts)) (fst (ref_state kn ts), kn_embed kn t) [0..<SF37_MAIN_LAYERS]"
  by (simp add: ref_state_def enumerate_append_eq ref_token_def)

lemma ref_layer_pair:
  "ref_layer kn pos (rows, hidden) il =
     (rows[il := rows ! il @ [kn_kv kn il pos hidden]],
      kn_layer kn il pos hidden (map fst (ref_window il (rows ! il @ [kn_kv kn il pos hidden])))
        (map snd (ref_window il (rows ! il @ [kn_kv kn il pos hidden]))))"
  by (simp add: ref_layer_def Let_def)

lemma run_layer_pair:
  "kn_kv kn il pos hidden = (k, v) \<Longrightarrow>
   run_layer_decode kn pos (layers, hidden) il =
     (layers[il := kv_cache_push_row (layers ! il) k v],
      kn_layer kn il pos hidden
        (attention_rows (\<not> layer_is_full il) (lk_n (kv_cache_push_row (layers ! il) k v))
           (lk_k (kv_cache_push_row (layers ! il) k v)))
        (attention_rows (\<not> layer_is_full il) (lk_n (kv_cache_push_row (layers ! il) k v))
           (lk_v (kv_cache_push_row (layers ! il) k v))))"
  by (simp add: run_layer_decode_def Let_def)

lemma ref_layers_rows:
  assumes "m \<le> length rows"
  shows "length (fst (foldl (ref_layer kn pos) (rows, h) [0..<m])) = length rows \<and>
    (\<forall>il<length rows. if il < m
       then \<exists>x. fst (foldl (ref_layer kn pos) (rows, h) [0..<m]) ! il = rows ! il @ [x]
       else fst (foldl (ref_layer kn pos) (rows, h) [0..<m]) ! il = rows ! il)"
  using assms
proof (induction m)
  case (Suc m)
  obtain rows' h' where r: "foldl (ref_layer kn pos) (rows, h) [0..<m] = (rows', h')"
    by fastforce
  have "length rows' = length rows"
    "\<And>il. il < length rows \<Longrightarrow> il < m \<Longrightarrow> \<exists>x. rows' ! il = rows ! il @ [x]"
    "\<And>il. il < length rows \<Longrightarrow> \<not> il < m \<Longrightarrow> rows' ! il = rows ! il"
    using Suc.IH [OF Suc_leD [OF Suc.prems]] unfolding r fst_conv by metis+
  then show ?case
    using r Suc.prems
    by (auto simp: ref_layer_pair nth_list_update less_Suc_eq simp del: split_paired_Ex)
qed simp

lemma length_ref_state: "length (fst (ref_state kn ts)) = SF37_MAIN_LAYERS \<and>
   (\<forall>il<SF37_MAIN_LAYERS. length (fst (ref_state kn ts) ! il) = length ts)"
proof (induction ts rule: rev_induct)
  case (snoc t ts)
  let ?r = "fst (ref_state kn ts)"
  have len: "length ?r = SF37_MAIN_LAYERS"
    using snoc by simp
  note rows = ref_layers_rows [of SF37_MAIN_LAYERS ?r kn "length ts" "kn_embed kn t", unfolded len, OF le_refl]
  show ?case
    unfolding ref_state_snoc using rows snoc by (metis length_append_singleton)
qed simp

text \<open>The history of a prefix is a prefix of the history.\<close>

lemma ref_state_prefix:
  assumes "il < SF37_MAIN_LAYERS"
  shows "take (length ts) (fst (ref_state kn (ts @ us)) ! il) = fst (ref_state kn ts) ! il"
proof (induction us rule: rev_induct)
  case Nil
  then show ?case
    using length_ref_state [of kn ts] assms by simp
next
  case (snoc u us)
  let ?r = "fst (ref_state kn (ts @ us))"
  have len: "length ?r = SF37_MAIN_LAYERS" "length (?r ! il) = length (ts @ us)"
    using length_ref_state [of kn "ts @ us"] assms by auto
  obtain x where "fst (ref_state kn ((ts @ us) @ [u])) ! il = ?r ! il @ [x]"
    using ref_layers_rows [of SF37_MAIN_LAYERS ?r kn "length (ts @ us)" "kn_embed kn u"] len assms
    unfolding ref_state_snoc by auto
  then show ?case
    using snoc len(2) by simp
qed

subsection \<open>Coherent caches\<close>

definition layer_shape :: "nat \<Rightarrow> layer_kv \<Rightarrow> bool" where
  "layer_shape cap l \<longleftrightarrow> lk_cap l = cap \<and> length (lk_k l) = cap \<and> length (lk_v l) = cap"

definition layer_holds :: "(frow \<times> frow) list \<Rightarrow> layer_kv \<Rightarrow> bool" where
  "layer_holds rows l \<longleftrightarrow> lk_n l = length rows \<and>
     take (lk_n l) (lk_k l) = map fst rows \<and> take (lk_n l) (lk_v l) = map snd rows"

lemma push_holds:
  assumes "layer_shape cap l" and "layer_holds rows l" and "length rows < cap"
  shows "layer_shape cap (kv_cache_push_row l k v) \<and> layer_holds (rows @ [(k, v)]) (kv_cache_push_row l k v)"
  using assms
  by (auto simp: layer_shape_def layer_holds_def kv_cache_push_row_def Let_def take_Suc_conv_app_nth)

lemma attention_rows_window:
  assumes "layer_holds rows l"
  shows "attention_rows (\<not> layer_is_full il) (lk_n l) (lk_k l) = map fst (ref_window il rows)"
    and "attention_rows (\<not> layer_is_full il) (lk_n l) (lk_v l) = map snd (ref_window il rows)"
  using assms by (auto simp: attention_rows_def layer_holds_def ref_window_def drop_map)

lemma run_layers_ref:
  assumes "length layers = n" and "length rows = n" and "m \<le> n"
    and "\<And>il. il < n \<Longrightarrow> layer_shape cap (layers ! il) \<and> layer_holds (rows ! il) (layers ! il)
           \<and> length (rows ! il) < cap"
    and "foldl (run_layer_decode kn pos) (layers, h) [0..<m] = (layers', h')"
  shows "\<exists>rows'. foldl (ref_layer kn pos) (rows, h) [0..<m] = (rows', h') \<and>
    length layers' = n \<and> length rows' = n \<and>
    (\<forall>il<n. layer_shape cap (layers' ! il) \<and> layer_holds (rows' ! il) (layers' ! il)) \<and>
    (\<forall>il. m \<le> il \<longrightarrow> layers' ! il = layers ! il \<and> rows' ! il = rows ! il)"
  using assms(3,5)
proof (induction m arbitrary: layers' h')
  case 0
  then show ?case
    using assms by auto
next
  case (Suc m)
  obtain l1 h1 where run: "foldl (run_layer_decode kn pos) (layers, h) [0..<m] = (l1, h1)"
    by fastforce
  with Suc obtain r1 where r1: "foldl (ref_layer kn pos) (rows, h) [0..<m] = (r1, h1)"
    "length l1 = n" "length r1 = n"
    "\<And>il. il < n \<Longrightarrow> layer_shape cap (l1 ! il) \<and> layer_holds (r1 ! il) (l1 ! il)"
    "\<And>il. m \<le> il \<Longrightarrow> l1 ! il = layers ! il \<and> r1 ! il = rows ! il"
    by (metis Suc_leD)
  have m: "m < n"
    using Suc.prems by simp
  obtain k v where kv: "kn_kv kn m pos h1 = (k, v)"
    by fastforce
  define l' where "l' = kv_cache_push_row (l1 ! m) k v"
  define r' where "r' = r1 ! m @ [(k, v)]"
  have ok: "layer_shape cap l'" "layer_holds r' l'"
    using push_holds [of cap "l1 ! m" "r1 ! m" k v] r1(4) [OF m] r1(5) [of m] assms(4) [OF m]
    by (auto simp: l'_def r'_def)
  have step: "layers' = l1[m := l']" "h' = kn_layer kn m pos h1 (map fst (ref_window m r')) (map snd (ref_window m r'))"
    using Suc.prems(2) run attention_rows_window [OF ok(2), of m]
    by (auto simp: run_layer_pair [OF kv] l'_def)
  have "foldl (ref_layer kn pos) (rows, h) [0..<Suc m] = (r1[m := r'], h')"
    using r1(1) kv by (simp add: ref_layer_pair step(2) r'_def)
  moreover have "\<forall>il<n. layer_shape cap (layers' ! il) \<and> layer_holds (r1[m := r'] ! il) (layers' ! il)"
    using r1 ok m by (auto simp: step(1) nth_list_update)
  moreover have "\<forall>il. Suc m \<le> il \<longrightarrow> layers' ! il = layers ! il \<and> r1[m := r'] ! il = rows ! il"
    using r1(5) by (simp add: step(1))
  ultimately show ?case
    using r1(2,3) by (auto simp: step(1))
qed

definition coherent :: "kernels \<Rightarrow> sf37_session \<Rightarrow> bool" where
  "coherent kn s \<longleftrightarrow>
     0 < se_ctx_size s \<and> length (se_layer s) = SF37_MAIN_LAYERS \<and>
     int (length (se_checkpoint s)) \<le> se_ctx_size s \<and>
     (\<forall>il<SF37_MAIN_LAYERS. layer_shape (nat (se_ctx_size s)) (se_layer s ! il)) \<and>
     (se_checkpoint_valid s \<longrightarrow>
        (\<forall>il<SF37_MAIN_LAYERS. layer_holds (fst (ref_state kn (se_checkpoint s)) ! il) (se_layer s ! il)))"

lemma coherentD:
  assumes "coherent kn s"
  shows "0 < se_ctx_size s" "length (se_layer s) = SF37_MAIN_LAYERS"
    "int (length (se_checkpoint s)) \<le> se_ctx_size s"
    "\<And>il. il < SF37_MAIN_LAYERS \<Longrightarrow> layer_shape (nat (se_ctx_size s)) (se_layer s ! il)"
    "\<And>il. se_checkpoint_valid s \<Longrightarrow> il < SF37_MAIN_LAYERS \<Longrightarrow>
       layer_holds (fst (ref_state kn (se_checkpoint s)) ! il) (se_layer s ! il)"
  using assms by (auto simp: coherent_def)

lemma create_coherent: "sf37_session_create h l n = Some s \<Longrightarrow> coherent kn s \<and> se_checkpoint_valid s"
  by (auto simp: sf37_session_create_def coherent_def kv_cache_init_def layer_shape_def
      layer_holds_def Let_def split: if_splits)

lemma eval_coherent:
  assumes "coherent kn s" and "se_checkpoint_valid s"
    and "sf37_session_eval_internal kn s t need = (True, s')"
  shows "coherent kn s' \<and> se_checkpoint_valid s' \<and> se_checkpoint s' = se_checkpoint s @ [t] \<and>
    se_hidden s' = snd (ref_state kn (se_checkpoint s @ [t])) \<and>
    se_logits s' = (if need then ref_logits kn (se_checkpoint s @ [t]) else se_logits s) \<and>
    se_ctx_size s' = se_ctx_size s"
proof -
  note c = coherentD [OF assms(1)]
  have room: "int (length (se_checkpoint s)) < se_ctx_size s"
    using assms(3) by (auto simp: sf37_session_eval_internal_def split: if_splits)
  obtain layers h where run: "foldl (run_layer_decode kn (length (se_checkpoint s)))
      (se_layer s, kn_embed kn t) [0..<SF37_MAIN_LAYERS] = (layers, h)"
    by fastforce
  have s': "s' = s\<lparr>se_layer := layers, se_hidden := h,
      se_logits := (if need then kn_logits kn h else se_logits s),
      se_checkpoint := se_checkpoint s @ [t], se_checkpoint_valid := True\<rparr>"
    using assms(3) run
    by (auto simp: sf37_session_eval_internal_def sf37_tokens_push_def Let_def split: if_splits)
  have hyp: "layer_shape (nat (se_ctx_size s)) (se_layer s ! il) \<and>
      layer_holds (fst (ref_state kn (se_checkpoint s)) ! il) (se_layer s ! il) \<and>
      length (fst (ref_state kn (se_checkpoint s)) ! il) < nat (se_ctx_size s)"
    if "il < SF37_MAIN_LAYERS" for il
    using c(4) [OF that] c(5) [OF assms(2) that] length_ref_state [of kn "se_checkpoint s"] that room
    by simp
  obtain rows' where r: "foldl (ref_layer kn (length (se_checkpoint s)))
      (fst (ref_state kn (se_checkpoint s)), kn_embed kn t) [0..<SF37_MAIN_LAYERS] = (rows', h)"
    "length layers = SF37_MAIN_LAYERS"
    "\<And>il. il < SF37_MAIN_LAYERS \<Longrightarrow> layer_shape (nat (se_ctx_size s)) (layers ! il) \<and>
       layer_holds (rows' ! il) (layers ! il)"
    using run_layers_ref [OF c(2) conjunct1 [OF length_ref_state] le_refl hyp run] by blast
  have "ref_state kn (se_checkpoint s @ [t]) = (rows', h)"
    using r(1) by (simp only: ref_state_snoc)
  then show ?thesis
    using r(2,3) room c(1) by (simp add: s' coherent_def ref_logits_def)
qed

lemma eval_failed: "sf37_session_eval_internal kn s t need = (False, s') \<Longrightarrow> s' = s"
  by (auto simp: sf37_session_eval_internal_def Let_def split: if_splits prod.splits)

lemma reset_coherent:
  "coherent kn s \<Longrightarrow> coherent kn (session_reset s) \<and> se_checkpoint_valid (session_reset s) \<and>
   se_checkpoint (session_reset s) = [] \<and> se_ctx_size (session_reset s) = se_ctx_size s"
  by (auto simp: coherent_def session_reset_def session_clear_image_signature_def Let_def
      layer_shape_def layer_holds_def)

lemma take_of_take: "p \<le> n \<Longrightarrow> take n xs = map f ys \<Longrightarrow> take p xs = map f (take p ys)"
  by (metis min.absorb1 take_map take_take)

lemma rewind_checkpoint:
  "se_checkpoint (sf37_session_rewind s pos) = take (nat pos) (se_checkpoint s)"
  by (auto simp: sf37_session_rewind_def Let_def session_clear_image_signature_def)

lemma rewind_coherent:
  assumes "coherent kn s" and "se_checkpoint_valid s"
  shows "coherent kn (sf37_session_rewind s pos) \<and> se_checkpoint_valid (sf37_session_rewind s pos) \<and>
    se_ctx_size (sf37_session_rewind s pos) = se_ctx_size s"
proof -
  note c = coherentD [OF assms(1)]
  define p where "p = min (nat pos) (length (se_checkpoint s))"
  let ?s = "sf37_session_rewind s pos"
  have p: "p \<le> length (se_checkpoint s)"
    by (simp add: p_def)
  have s: "se_ctx_size ?s = se_ctx_size s" "se_layer ?s = map (\<lambda>l. l\<lparr>lk_n := p\<rparr>) (se_layer s)"
    "se_checkpoint ?s = take p (se_checkpoint s)" "se_checkpoint_valid ?s"
    by (auto simp: sf37_session_rewind_def Let_def session_clear_image_signature_def p_def min_def)
  have "layer_holds (fst (ref_state kn (take p (se_checkpoint s))) ! il) ((se_layer s ! il)\<lparr>lk_n := p\<rparr>)"
    if il: "il < SF37_MAIN_LAYERS" for il
  proof -
    let ?full = "fst (ref_state kn (se_checkpoint s)) ! il"
    have pre: "take p ?full = fst (ref_state kn (take p (se_checkpoint s))) ! il"
      using ref_state_prefix [OF il, of "take p (se_checkpoint s)" kn "drop p (se_checkpoint s)"] p
      by (simp add: min_absorb2)
    have h: "layer_holds ?full (se_layer s ! il)"
      by (rule c(5) [OF assms(2) il])
    have len: "length ?full = length (se_checkpoint s)"
      using length_ref_state il by blast
    have n: "lk_n (se_layer s ! il) = length (se_checkpoint s)"
      using h len by (simp add: layer_holds_def)
    have "take p (lk_k (se_layer s ! il)) = map fst (take p ?full)"
      "take p (lk_v (se_layer s ! il)) = map snd (take p ?full)"
      using h by (auto simp: layer_holds_def n intro: take_of_take [OF p])
    moreover have "length (take p ?full) = p"
      using len p by simp
    ultimately show ?thesis
      unfolding pre by (simp add: layer_holds_def)
  qed
  then show ?thesis
    using c p by (auto simp: coherent_def s layer_shape_def)
qed

subsection \<open>Synchronising\<close>

lemma common_prefix_take:
  "take (common_prefix_len as bs) as = take (common_prefix_len as bs) bs \<and>
   common_prefix_len as bs \<le> length as \<and> common_prefix_len as bs \<le> length bs"
  by (induction as bs rule: common_prefix_len.induct) auto

lemma sync_start_coherent:
  assumes "coherent kn s" and "sync_start s prompt sig = (common, s1)"
  shows "coherent kn s1 \<and> se_checkpoint_valid s1 \<and> common \<le> length prompt \<and>
    se_checkpoint s1 = take common prompt \<and> se_ctx_size s1 = se_ctx_size s \<and>
    (common = length prompt \<longrightarrow> prompt = [] \<or> s1 = s)"
proof (cases "s1 = session_reset s \<and> common = 0")
  case True
  then show ?thesis
    using reset_coherent [OF assms(1)] by simp
next
  case False
  let ?c = "common_prefix_len (se_checkpoint s) prompt"
  have v: "se_checkpoint_valid s" and c: "common = ?c" "length (se_checkpoint s) \<le> ?c"
    and s1: "s1 = s \<or> s1 = sf37_session_rewind s (int ?c) \<and> ?c < length prompt"
    and full: "?c = length prompt \<Longrightarrow> s1 = s"
    using assms(2) False
    by (auto simp: sync_start_def Let_def sf37_session_common_prefix_def split: if_splits)
  note p = common_prefix_take [of "se_checkpoint s" prompt]
  have ck: "se_checkpoint s = take ?c prompt" "?c \<le> length prompt"
    using p c(2) by auto
  show ?thesis
    using s1
  proof
    assume "s1 = s"
    then show ?thesis
      using assms(1) v ck c(1) by simp
  next
    assume s1: "s1 = sf37_session_rewind s (int ?c) \<and> ?c < length prompt"
    then have "se_checkpoint s1 = take ?c prompt"
      using ck(1) c(2) by (simp add: rewind_checkpoint)
    then show ?thesis
      using rewind_coherent [OF assms(1) v, of "int ?c"] s1 ck(2) c(1) by simp
  qed
qed

lemma sync_loop_coherent:
  "coherent kn s \<Longrightarrow> se_checkpoint_valid s \<Longrightarrow> sync_eval_loop kn cancel k s ts = (ok, s') \<Longrightarrow>
   coherent kn s' \<and> se_checkpoint_valid s' \<and> se_ctx_size s' = se_ctx_size s \<and>
   (\<exists>j. se_checkpoint s' = se_checkpoint s @ take j ts) \<and>
   (ok \<longrightarrow> se_checkpoint s' = se_checkpoint s @ ts \<and>
      (if ts = [] then s' = s else se_logits s' = ref_logits kn (se_checkpoint s @ ts)))"
proof (induction kn cancel k s ts rule: sync_eval_loop.induct)
  case (2 kn cancel k s t ts)
  show ?case
  proof (cases "cancel k")
    case True
    then show ?thesis
      using "2.prems" by (auto intro: exI [of _ 0])
  next
    case c: False
    obtain ok1 s1 where e: "sf37_session_eval_internal kn s t (ts = []) = (ok1, s1)"
      by fastforce
    show ?thesis
    proof (cases ok1)
      case False
      then have "s1 = s"
        using e eval_failed [of kn s t "ts = []" s1] by simp
      then show ?thesis
        using "2.prems" c e False by (auto intro: exI [of _ 0])
    next
      case True
      then have "sf37_session_eval_internal kn s t (ts = []) = (True, s1)"
        using e by simp
      note ev = eval_coherent [OF "2.prems"(1,2) this]
      show ?thesis
      proof (cases "cancel (k + 1)")
        case True
        then have "s' = s1" "\<not> ok"
          using "2.prems"(3) c e \<open>ok1\<close> by auto
        then show ?thesis
          using ev by (auto intro: exI [of _ 1])
      next
        case c2: False
        have run: "sync_eval_loop kn cancel (k + 2) s1 ts = (ok, s')"
          using "2.prems"(3) c e \<open>ok1\<close> c2 by auto
        have IH: "coherent kn s' \<and> se_checkpoint_valid s' \<and> se_ctx_size s' = se_ctx_size s1 \<and>
           (\<exists>j. se_checkpoint s' = se_checkpoint s1 @ take j ts) \<and>
           (ok \<longrightarrow> se_checkpoint s' = se_checkpoint s1 @ ts \<and>
             (if ts = [] then s' = s1 else se_logits s' = ref_logits kn (se_checkpoint s1 @ ts)))"
          using "2.IH" [OF c e [symmetric] _ c2 _ _ run] \<open>ok1\<close> ev by simp
        then obtain j where "se_checkpoint s' = se_checkpoint s1 @ take j ts"
          by blast
        then have "\<exists>j. se_checkpoint s' = se_checkpoint s @ take j (t # ts)"
          using ev by (intro exI [of _ "Suc j"]) simp
        then show ?thesis
          using IH ev by (auto split: if_splits)
      qed
    qed
  qed
qed (auto intro: exI [of _ 0])

lemma set_signature_simps [simp]:
  "se_checkpoint (session_set_image_signature s g) = se_checkpoint s"
  "se_checkpoint_valid (session_set_image_signature s g) = se_checkpoint_valid s"
  "se_logits (session_set_image_signature s g) = se_logits s"
  "se_ctx_size (session_set_image_signature s g) = se_ctx_size s"
  "coherent kn (session_set_image_signature s g) = coherent kn s"
  by (auto simp: session_set_image_signature_def coherent_def)

lemma sync_cases:
  assumes "sf37_session_sync_multimodal kn ip cancel s prompt features = (ok, s')"
  obtains (early) "\<not> ok" "s' = s"
  | (images) sig common where "\<not> ok" "sync_start s prompt sig = (common, s')"
  | (run) sig common s1 s2 g set where "sync_start s prompt sig = (common, s1)"
      "int (length prompt) \<le> se_ctx_size s"
      "sync_eval_loop kn cancel 0 s1 (drop common prompt) = (ok, s2)"
      "s' = (if ok \<and> set then session_set_image_signature s2 g else s2)"
proof (cases "int (length prompt) > se_ctx_size s")
  case True
  then show thesis
    using assms early by (simp add: sf37_session_sync_multimodal_def)
next
  case len: False
  show thesis
  proof (cases "image_rows_checked ip prompt features")
    case None
    then show thesis
      using assms len early by (simp add: sf37_session_sync_multimodal_def)
  next
    case rows: (Some rows)
    show thesis
    proof (cases "if rows > 0 then image_signature_from_features features rows
        else Some \<lparr>sg_a = 0, sg_b = 0, sg_rows = 0\<rparr>")
      case None
      then show thesis
        using assms len rows early by (simp add: sf37_session_sync_multimodal_def)
    next
      case g: (Some g)
      let ?sig = "if rows > 0 then Some g else None"
      obtain common s1 where st: "sync_start s prompt ?sig = (common, s1)"
        by fastforce
      let ?n = "if rows > 0 then prompt_count_im_patch ip prompt common (length prompt) else 0"
      obtain ok2 s2 where lp: "sync_eval_loop kn cancel 0 s1 (drop common prompt) = (ok2, s2)"
        by fastforce
      have r: "(if ?n > 0 then (False, s1)
          else (ok2, if ok2 \<and> rows > 0 then session_set_image_signature s2 g else s2)) = (ok, s')"
        using assms len rows g st lp
        by (simp only: sf37_session_sync_multimodal_def if_False option.case Let_def prod.case)
      show thesis
      proof (cases "?n > 0")
        case True
        then show thesis
          using r st by (intro images [of ?sig common]) auto
      next
        case False
        then show thesis
          using r st lp len by (intro run [of ?sig common s1 s2 "rows > 0" g]) auto
      qed
    qed
  qed
qed

lemma sync_coherent:
  assumes "coherent kn s"
    and "sf37_session_sync_multimodal kn ip cancel s prompt features = (ok, s')"
  shows "coherent kn s' \<and> (se_checkpoint_valid s \<longrightarrow> se_checkpoint_valid s') \<and>
    (ok \<longrightarrow> se_checkpoint_valid s' \<and> se_checkpoint s' = prompt \<and>
       (prompt = se_checkpoint s \<or> prompt = [] \<or> se_logits s' = ref_logits kn prompt))"
  using assms(2)
proof (cases rule: sync_cases)
  case (images sig common)
  then show ?thesis
    using sync_start_coherent [OF assms(1)] by blast
next
  case (run sig common s1 s2 g set)
  note st = sync_start_coherent [OF assms(1) run(1)]
  have lp: "coherent kn s2 \<and> se_checkpoint_valid s2 \<and> se_ctx_size s2 = se_ctx_size s1 \<and>
   (\<exists>j. se_checkpoint s2 = se_checkpoint s1 @ take j (drop common prompt)) \<and>
   (ok \<longrightarrow> se_checkpoint s2 = se_checkpoint s1 @ drop common prompt \<and>
      (if drop common prompt = [] then s2 = s1
       else se_logits s2 = ref_logits kn (se_checkpoint s1 @ drop common prompt)))"
    by (rule sync_loop_coherent [OF _ _ run(3)]) (use st in auto)
  have pr: "se_checkpoint s1 @ drop common prompt = prompt"
    using st by simp
  have "drop common prompt = [] \<Longrightarrow> prompt = [] \<or> prompt = se_checkpoint s"
    using st by (metis append_Nil2 append_take_drop_id drop_eq_Nil le_antisym)
  then show ?thesis
    using lp st run(4) unfolding pr by (auto split: if_splits)
qed (use assms(1) in auto)

subsection \<open>Reachable sessions\<close>

inductive session_step :: "kernels \<Rightarrow> sf37_session \<Rightarrow> sf37_session \<Rightarrow> bool" for kn where
  step_eval: "sf37_session_eval kn s t = (ok, s') \<Longrightarrow> session_step kn s s'"
| step_eval_no_logits: "sf37_session_eval_no_logits kn s t = (ok, s') \<Longrightarrow> session_step kn s s'"
| step_eval_argmax: "sf37_session_eval_argmax kn s t = (nxt, s') \<Longrightarrow> session_step kn s s'"
| step_output_logits: "session_step kn s (sf37_session_output_logits kn s)"
| step_rewind: "session_step kn s (sf37_session_rewind s pos)"
| step_sync: "sf37_session_sync_multimodal kn ip cancel s prompt features = (ok, s') \<Longrightarrow>
    session_step kn s s'"
| step_note: "sf37_session_note_image_features ip s prompt features = (ok, s') \<Longrightarrow> session_step kn s s'"

inductive session_reachable :: "kernels \<Rightarrow> sf37_session \<Rightarrow> bool" for kn where
  created: "sf37_session_create h l n = Some s \<Longrightarrow> session_reachable kn s"
| stepped: "session_reachable kn s \<Longrightarrow> session_step kn s s' \<Longrightarrow> session_reachable kn s'"



definition good :: "kernels \<Rightarrow> sf37_session \<Rightarrow> bool" where
  "good kn s \<longleftrightarrow> coherent kn s \<and> se_checkpoint_valid s"

lemma good_logits [simp]: "good kn (s\<lparr>se_logits := l\<rparr>) = good kn s"
  by (simp add: good_def coherent_def)

lemma good_set_signature [simp]: "good kn (session_set_image_signature s g) = good kn s"
  by (simp add: good_def)

lemma good_eval:
  "good kn s \<Longrightarrow> sf37_session_eval_internal kn s t need = (ok, s') \<Longrightarrow> good kn s'"
  using eval_coherent [of kn s t need s'] eval_failed [of kn s t need s']
  by (cases ok) (auto simp: good_def)

lemma argmax_scan_ge: "0 \<le> fst best \<Longrightarrow> 0 \<le> argmax_scan i vs best"
  by (induction i vs best rule: argmax_scan.induct) auto

lemma sample_argmax_ge: "logits \<noteq> [] \<Longrightarrow> 0 \<le> sample_argmax logits"
  by (cases logits) (auto simp: sample_argmax_def argmax_scan_ge)

lemma good_step:
  assumes "\<And>h. kn_logits kn h \<noteq> []" and "session_step kn s s'" and "good kn s"
  shows "good kn s'"
  using assms(2)
proof (cases rule: session_step.cases)
  case (step_eval_argmax t nxt)
  obtain ok s1 where e: "sf37_session_eval_internal kn s t False = (ok, s1)"
    by fastforce
  have "0 \<le> sample_argmax (kn_logits kn (se_hidden s1))"
    by (rule sample_argmax_ge [OF assms(1)])
  then have "s' = s1 \<or> s' = s1\<lparr>se_logits := kn_logits kn (se_hidden s1)\<rparr>"
    using step_eval_argmax e
    by (auto simp: sf37_session_eval_argmax_def sf37_session_output_argmax_def Let_def split: if_splits)
  then show ?thesis
    using good_eval [OF assms(3) e] by auto
next
  case (step_rewind pos)
  then show ?thesis
    using rewind_coherent [of kn s pos] assms(3) by (simp add: good_def)
next
  case (step_sync ip cancel prompt features ok)
  then show ?thesis
    using sync_coherent assms(3) unfolding good_def by blast
next
  case (step_note ip prompt features ok)
  then show ?thesis
    using assms(3) by (auto simp: sf37_session_note_image_features_def split: option.splits if_splits)
qed (use assms(3) in \<open>auto simp: sf37_session_eval_def sf37_session_eval_no_logits_def
      sf37_session_output_logits_def dest: good_eval\<close>)

lemma reachable_good:
  assumes "\<And>h. kn_logits kn h \<noteq> []" and "session_reachable kn s"
  shows "good kn s"
  using assms(2)
proof induction
  case (created h l n s)
  then show ?case
    using create_coherent by (simp add: good_def)
next
  case (stepped s s')
  then show ?case
    using good_step [OF assms(1)] by blast
qed

subsection \<open>Synchronising returns\<close>

lemma eval_succeeds:
  assumes "0 \<le> t" and "t < int SF37_VOCAB" and "int (length (se_checkpoint s)) < se_ctx_size s"
  shows "fst (sf37_session_eval_internal kn s t need)"
  using assms by (auto simp: sf37_session_eval_internal_def Let_def split: prod.split)

lemma sync_loop_succeeds:
  "coherent kn s \<Longrightarrow> se_checkpoint_valid s \<Longrightarrow>
   (\<forall>t \<in> set ts. 0 \<le> t \<and> t < int SF37_VOCAB) \<Longrightarrow>
   int (length (se_checkpoint s) + length ts) \<le> se_ctx_size s \<Longrightarrow>
   fst (sync_eval_loop kn (\<lambda>_. False) k s ts)"
proof (induction ts arbitrary: k s)
  case (Cons t ts)
  obtain s1 where e: "sf37_session_eval_internal kn s t (ts = []) = (True, s1)"
    using eval_succeeds [of t s kn "ts = []"] Cons.prems by (auto simp: prod_eq_iff)
  note ev = eval_coherent [OF Cons.prems(1,2) e]
  have "fst (sync_eval_loop kn (\<lambda>_. False) (k + 2) s1 ts)"
    using ev Cons.prems by (intro Cons.IH) auto
  then show ?case
    using e by simp
qed simp

lemma sync_succeeds:
  assumes "coherent kn s" and "int (length prompt) \<le> se_ctx_size s"
    and "\<forall>t \<in> set prompt. 0 \<le> t \<and> t < int SF37_VOCAB"
  shows "fst (sf37_session_sync kn (\<lambda>_. False) s prompt)"
proof -
  obtain common s1 where st: "sync_start s prompt None = (common, s1)"
    by fastforce
  note c = sync_start_coherent [OF assms(1) st]
  have "fst (sync_eval_loop kn (\<lambda>_. False) 0 s1 (drop common prompt))"
    using c assms(2,3) by (intro sync_loop_succeeds) (auto dest: in_set_dropD)
  then show ?thesis
    using assms(2) st
    by (auto simp: sf37_session_sync_def sf37_session_sync_multimodal_def image_rows_checked_def
        Let_def split: prod.splits)
qed

subsection \<open>The largest logit\<close>

lemma argmax_scan_spec:
  assumes "\<not> f32_is_nan (snd best)" and "\<forall>v \<in> set vs. \<not> f32_is_nan v"
  shows "\<exists>j w. argmax_scan i vs best = j \<and>
    (j = fst best \<and> w = snd best \<or> (\<exists>k<length vs. j = int (i + k) \<and> w = vs ! k \<and>
        f32_key (snd best) < f32_key w \<and> (\<forall>k'<k. f32_key (vs ! k') < f32_key w))) \<and>
    f32_key (snd best) \<le> f32_key w \<and> (\<forall>v \<in> set vs. f32_key v \<le> f32_key w)"
  using assms
proof (induction i vs best rule: argmax_scan.induct)
  case (2 i v vs best)
  let ?b = "if f32_gt v (snd best) then (int i, v) else best"
  have gt: "f32_gt v (snd best) \<longleftrightarrow> f32_key (snd best) < f32_key v"
    using "2.prems" by (simp add: f32_gt_def)
  have "\<not> f32_is_nan (snd ?b)" "\<forall>v \<in> set vs. \<not> f32_is_nan v"
    using "2.prems" by auto
  from "2.IH" [OF this] obtain j w where jw: "argmax_scan (i + 1) vs ?b = j"
    "j = fst ?b \<and> w = snd ?b \<or> (\<exists>k<length vs. j = int (i + 1 + k) \<and> w = vs ! k \<and>
        f32_key (snd ?b) < f32_key w \<and> (\<forall>k'<k. f32_key (vs ! k') < f32_key w))"
    "f32_key (snd ?b) \<le> f32_key w" "\<forall>v \<in> set vs. f32_key v \<le> f32_key w"
    by blast
  have le: "f32_key (snd best) \<le> f32_key w" "f32_key v \<le> f32_key w"
    using jw(3) gt by (auto split: if_splits)
  have "j = fst best \<and> w = snd best \<or> (\<exists>k<length (v # vs). j = int (i + k) \<and> w = (v # vs) ! k \<and>
        f32_key (snd best) < f32_key w \<and> (\<forall>k'<k. f32_key ((v # vs) ! k') < f32_key w))"
    using jw(2)
  proof
    assume b: "j = fst ?b \<and> w = snd ?b"
    show ?thesis
    proof (cases "f32_gt v (snd best)")
      case True
      then show ?thesis
        using b gt by (intro disjI2 exI [of _ 0]) simp
    qed (use b in simp)
  next
    assume "\<exists>k<length vs. j = int (i + 1 + k) \<and> w = vs ! k \<and>
        f32_key (snd ?b) < f32_key w \<and> (\<forall>k'<k. f32_key (vs ! k') < f32_key w)"
    then obtain k where k: "k < length vs" "j = int (i + 1 + k)" "w = vs ! k"
      "f32_key (snd ?b) < f32_key w" "\<forall>k'<k. f32_key (vs ! k') < f32_key w"
      by blast
    have "f32_key (snd best) < f32_key w" "f32_key v < f32_key w"
      using k(4) gt by (auto split: if_splits)
    moreover have "f32_key ((v # vs) ! k') < f32_key w" if "k' < Suc k" for k'
      using that calculation(2) k(5) by (cases k') auto
    ultimately show ?thesis
      using k by (intro disjI2 exI [of _ "Suc k"]) simp
  qed
  then show ?case
    using jw(1,4) le by (intro exI [of _ j] exI [of _ w]) simp
qed auto

lemma sample_argmax_spec:
  assumes "logits \<noteq> []" and "\<forall>v \<in> set logits. \<not> f32_is_nan v"
  shows "\<exists>r<length logits. sample_argmax logits = int r \<and>
    (\<forall>v \<in> set logits. f32_key v \<le> f32_key (logits ! r)) \<and>
    (\<forall>i<r. f32_key (logits ! i) < f32_key (logits ! r))"
proof -
  obtain v vs where l: "logits = v # vs"
    using assms(1) by (cases logits) auto
  obtain j w where jw: "argmax_scan 1 vs (0, v) = j"
    "j = 0 \<and> w = v \<or> (\<exists>k<length vs. j = int (1 + k) \<and> w = vs ! k \<and>
        f32_key v < f32_key w \<and> (\<forall>k'<k. f32_key (vs ! k') < f32_key w))"
    "f32_key v \<le> f32_key w" "\<forall>v \<in> set vs. f32_key v \<le> f32_key w"
    using argmax_scan_spec [of "(0, v)" vs 1] assms(2) l by auto
  from jw(2) show ?thesis
  proof
    assume "j = 0 \<and> w = v"
    then show ?thesis
      using jw l by (intro exI [of _ 0]) (auto simp: sample_argmax_def)
  next
    assume "\<exists>k<length vs. j = int (1 + k) \<and> w = vs ! k \<and>
        f32_key v < f32_key w \<and> (\<forall>k'<k. f32_key (vs ! k') < f32_key w)"
    then obtain k where k: "k < length vs" "j = int (1 + k)" "w = vs ! k"
      "f32_key v < f32_key w" "\<forall>k'<k. f32_key (vs ! k') < f32_key w"
      by blast
    have "f32_key (logits ! i) < f32_key (logits ! Suc k)" if "i < Suc k" for i
      using that k l by (cases i) auto
    then show ?thesis
      using jw k l by (intro exI [of _ "Suc k"]) (auto simp: sample_argmax_def)
  qed
qed

lemma sync_ctx:
  assumes "coherent kn s"
    and "sf37_session_sync_multimodal kn ip cancel s prompt features = (ok, s')"
  shows "se_ctx_size s' = se_ctx_size s"
  using assms(2)
proof (cases rule: sync_cases)
  case (images sig common)
  then show ?thesis
    using sync_start_coherent [OF assms(1)] by blast
next
  case (run sig common s1 s2 g set)
  note st = sync_start_coherent [OF assms(1) run(1)]
  have "se_ctx_size s2 = se_ctx_size s1"
    using sync_loop_coherent [OF _ _ run(3)] st by blast
  then show ?thesis
    using st run(4) by simp
qed simp

end
