(* ===== verification/SessionProps.thy ===== *)
theory SessionProps
  imports Session
begin

section \<open>Properties of sessions\<close>

text \<open>
  The KV cache of every session that the API can produce holds exactly the history of its
  checkpoint, so that reusing a prefix computes what a session from scratch computes;
  synchronising succeeds whenever it can; the greedy choice is the first largest logit.
  The witnesses use kernels whose rows carry the position.
\<close>

definition demo_kernels :: kernels where
  "demo_kernels = \<lparr>kn_embed = \<lambda>t. [of_int t], kn_kv = \<lambda>il pos h. ([of_nat pos], h),
     kn_layer = \<lambda>il pos h ks vs. [of_nat (length ks)], kn_logits = \<lambda>h. 0 # h\<rparr>"

definition demo_session :: sf37_session where
  "demo_session = the (sf37_session_create [] [] 4)"

lemma demo_session_create: "sf37_session_create [] [] 4 = Some demo_session"
  by (simp add: demo_session_def sf37_session_create_def SF37_CTX_def)

lemma demo_session_coherent: "coherent demo_kernels demo_session"
  using create_coherent [OF demo_session_create] by blast

lemma demo_session_reachable: "session_reachable demo_kernels demo_session"
  by (rule session_reachable.created [OF demo_session_create])

lemma demo_logits: "kn_logits demo_kernels h \<noteq> []"
  by (simp add: demo_kernels_def)

lemma demo_ctx: "se_ctx_size demo_session = 4"
  by (simp add: demo_session_def sf37_session_create_def SF37_CTX_def)

subsection \<open>Properties\<close>

text \<open>C28: in every session reachable by creating, evaluating, rewinding and synchronising, in
  any order and with failures, the cache of every layer holds the keys and values that a
  full recomputation of the checkpoint's tokens gives.\<close>

theorem reachable_coherent:
  assumes "\<And>h. kn_logits kn h \<noteq> []" and "session_reachable kn s"
  shows "coherent kn s \<and> se_checkpoint_valid s"
  using reachable_good [OF assms] by (simp add: good_def)

theorem reachable_coherent_witness:
  "coherent demo_kernels (sf37_session_rewind demo_session 1)"
  using reachable_coherent [OF demo_logits,
      OF session_reachable.stepped [OF demo_session_reachable step_rewind [of _ _ 1]]]
  by blast

text \<open>C29: prefix reuse is invisible: after a successful synchronisation with a prompt, whatever
  prefix of it was kept, the checkpoint is the prompt and the logits are those of a full
  recomputation. When the checkpoint already was the prompt, or the prompt is empty, the
  logits are left alone.\<close>

theorem sync_equals_recompute:
  assumes "coherent kn s"
    and "sf37_session_sync_multimodal kn ip cancel s prompt features = (True, s')"
    and "prompt \<noteq> se_checkpoint s" and "prompt \<noteq> []"
  shows "se_checkpoint s' = prompt \<and> se_logits s' = ref_logits kn prompt \<and> coherent kn s'"
  using sync_coherent [OF assms(1,2)] assms(3,4) by auto

theorem sync_equals_recompute_witness:
  "se_logits (snd (sf37_session_sync demo_kernels (\<lambda>_. False) demo_session [7, 8])) =
     ref_logits demo_kernels [7, 8]"
proof -
  let ?r = "sf37_session_sync demo_kernels (\<lambda>_. False) demo_session [7, 8]"
  have "fst ?r"
    by (rule sync_succeeds [OF demo_session_coherent]) (auto simp: demo_ctx SF37_VOCAB_def)
  then have "?r = (True, snd ?r)"
    by (simp add: prod_eq_iff)
  moreover have "se_checkpoint demo_session = []"
    by (simp add: demo_session_def sf37_session_create_def SF37_CTX_def)
  ultimately show ?thesis
    using sync_equals_recompute [OF demo_session_coherent, of "-1" "\<lambda>_. False" "[7, 8]" None "snd ?r"]
    by (simp add: sf37_session_sync_def)
qed

text \<open>synchronising succeeds whenever the prompt fits the context, its tokens are in the
  vocabulary and nobody cancels.\<close>

theorem sync_returns:
  assumes "coherent kn s" and "int (length prompt) \<le> se_ctx_size s"
    and "\<forall>t \<in> set prompt. 0 \<le> t \<and> t < int SF37_VOCAB"
  shows "fst (sf37_session_sync kn (\<lambda>_. False) s prompt)"
  by (rule sync_succeeds [OF assms])

theorem sync_returns_witness:
  "fst (sf37_session_sync demo_kernels (\<lambda>_. False) demo_session [1, 2, 3])"
  by (rule sync_returns [OF demo_session_coherent]) (auto simp: demo_ctx SF37_VOCAB_def)

text \<open>a synchronisation that is cancelled or fails still leaves a coherent session, whose
  checkpoint the next call can build on.\<close>

theorem sync_failure_coherent:
  assumes "coherent kn s" and "se_checkpoint_valid s"
    and "sf37_session_sync_multimodal kn ip cancel s prompt features = (False, s')"
  shows "coherent kn s' \<and> se_checkpoint_valid s'"
  using sync_coherent [OF assms(1,3)] assms(2) by blast

theorem sync_failure_coherent_witness:
  "coherent demo_kernels (snd (sf37_session_sync demo_kernels (\<lambda>_. True) demo_session [1, 2]))"
proof -
  let ?r = "sf37_session_sync demo_kernels (\<lambda>_. True) demo_session [1, 2]"
  have "se_checkpoint_valid demo_session" "se_checkpoint demo_session = []"
    by (simp_all add: demo_session_def sf37_session_create_def SF37_CTX_def)
  moreover have "\<not> fst ?r"
    by (simp add: sf37_session_sync_def sf37_session_sync_multimodal_def demo_ctx
        image_rows_checked_def sync_start_def sf37_session_common_prefix_def Let_def
        calculation)
  ultimately show ?thesis
    using sync_failure_coherent [OF demo_session_coherent, of "-1" "\<lambda>_. True" "[1, 2]" None "snd ?r"]
    by (simp add: sf37_session_sync_def prod_eq_iff)
qed

text \<open>rewinding to any position keeps exactly the history of the remaining tokens.\<close>

theorem rewind_keeps_history:
  assumes "coherent kn s" and "se_checkpoint_valid s"
  shows "coherent kn (sf37_session_rewind s pos) \<and>
    se_checkpoint (sf37_session_rewind s pos) = take (nat pos) (se_checkpoint s)"
  using rewind_coherent [OF assms] rewind_checkpoint by blast

theorem rewind_keeps_history_witness:
  "coherent demo_kernels (sf37_session_rewind demo_session 0)"
  using rewind_keeps_history [OF demo_session_coherent, of 0]
  by (simp add: demo_session_def sf37_session_create_def SF37_CTX_def)

text \<open>\<open>sample_argmax\<close> returns the first index of a largest logit, in the order of
  floating-point numbers, when no logit is a NaN.\<close>

theorem argmax_first_largest:
  assumes "logits \<noteq> []" and "\<forall>v \<in> set logits. \<not> f32_is_nan v"
  shows "\<exists>r<length logits. sample_argmax logits = int r \<and>
    (\<forall>v \<in> set logits. f32_key v \<le> f32_key (logits ! r)) \<and>
    (\<forall>i<r. f32_key (logits ! i) < f32_key (logits ! r))"
  by (rule sample_argmax_spec [OF assms])

theorem argmax_first_largest_witness:
  "sample_argmax [0xbf800000, 0x40000000, 0x3f800000, 0x40000000] = 1"
proof -
  have ne: "[0xbf800000, 0x40000000, 0x3f800000, 0x40000000] \<noteq> ([] :: frow)"
    and nan: "\<forall>v \<in> set [0xbf800000, 0x40000000, 0x3f800000, 0x40000000]. \<not> f32_is_nan v"
    by (simp, code_simp)
  from argmax_first_largest [OF ne nan] have
    "0 \<le> sample_argmax [0xbf800000, 0x40000000, 0x3f800000, 0x40000000]"
    by auto
  then show ?thesis
    by code_simp
qed

text \<open>the prefix that \<open>sf37_session_reusable_prefix\<close> reports is a common prefix of the
  checkpoint and the prompt; rewinding to it leaves a coherent session whose checkpoint is
  that prefix of the prompt, and it is never the whole of a prompt that the checkpoint
  extends, so that there is always a token left to evaluate.\<close>

theorem reusable_prefix_sound:
  assumes "coherent kn s" and "r = sf37_session_reusable_prefix s prompt" and "0 < r"
  shows "coherent kn (sf37_session_rewind s (int r)) \<and>
    se_checkpoint (sf37_session_rewind s (int r)) = take r prompt \<and> r \<le> length prompt \<and>
    (r = length prompt \<longrightarrow> se_checkpoint s = prompt)"
proof -
  have v: "se_checkpoint_valid s" and r: "r = common_prefix_len (se_checkpoint s) prompt"
    and full: "r = length prompt \<longrightarrow> r = length (se_checkpoint s)"
    using assms(2,3)
    by (auto simp: sf37_session_reusable_prefix_def Let_def sf37_session_common_prefix_def
        session_can_reuse_common_def split: if_splits)
  have p: "take r (se_checkpoint s) = take r prompt" "r \<le> length prompt"
    using common_prefix_take [of "se_checkpoint s" prompt] unfolding r by simp_all
  have "se_checkpoint s = prompt" if "r = length prompt"
    using p(1) full that by simp
  moreover have "se_checkpoint (sf37_session_rewind s (int r)) = take r prompt"
    using rewind_checkpoint [of s "int r"] p(1) by simp
  ultimately show ?thesis
    using rewind_coherent [OF assms(1) v, of "int r"] p(2) by simp
qed

theorem reusable_prefix_sound_witness:
  "\<exists>s. 0 < sf37_session_reusable_prefix s [7, 8, 9] \<and>
     coherent demo_kernels (sf37_session_rewind s (int (sf37_session_reusable_prefix s [7, 8, 9])))"
proof -
  let ?r = "sf37_session_sync demo_kernels (\<lambda>_. False) demo_session [7, 8]"
  have "fst ?r"
    by (rule sync_succeeds [OF demo_session_coherent]) (auto simp: demo_ctx SF37_VOCAB_def)
  then have r: "sf37_session_sync_multimodal demo_kernels (-1) (\<lambda>_. False) demo_session [7, 8] None
      = (True, snd ?r)"
    by (simp add: prod_eq_iff sf37_session_sync_def)
  note c = sync_coherent [OF demo_session_coherent r]
  have ctx: "se_ctx_size (snd ?r) = 4"
    using sync_ctx [OF demo_session_coherent r] by (simp add: demo_ctx)
  have "sf37_session_reusable_prefix (snd ?r) [7, 8, 9] = 2"
    using c ctx by (auto simp: sf37_session_reusable_prefix_def sf37_session_common_prefix_def
        session_can_reuse_common_def Let_def)
  then show ?thesis
    using reusable_prefix_sound [OF _ refl, of demo_kernels "snd ?r" "[7, 8, 9]"] c
    by (intro exI [of _ "snd ?r"]) simp
qed

end
