(* ===== verification/SessionSnapshot.thy ===== *)
theory SessionSnapshot
  imports Session KvHeader "HOL-Library.Monad_Syntax"
begin

section \<open>Saving and loading sessions\<close>

text \<open>
  The two serial forms of a session in \<open>sf37.c\<close>, on the CPU path: the lossless snapshot in
  memory and the payload of a checkpoint file, whose cache rows are quantised to bytes in
  groups of 64. A writer is the bytes written so far; a reader is the bytes not read yet,
  so a position and a length become one suffix. Words and floats are written as they lie
  in the memory of a little-endian host. The four floating-point operations the
  quantisation uses are a parameter.
\<close>

subsection \<open>Live rows\<close>

definition session_live_kv_rows :: "sf37_session \<Rightarrow> u32" where
  "session_live_kv_rows s =
     (if se_checkpoint s = [] \<or> se_ctx_size s \<le> 0 then 0
      else let n = of_nat (length (se_checkpoint s))
           in if n > of_int (se_ctx_size s) then of_int (se_ctx_size s) else n)"

definition session_layer_kv_cap :: "sf37_session \<Rightarrow> nat \<Rightarrow> u32" where
  "session_layer_kv_cap s il =
     (if il \<ge> SF37_MAIN_LAYERS \<or> se_ctx_size s \<le> 0 then 0 else of_int (se_ctx_size s))"

definition session_layer_live_kv_rows :: "sf37_session \<Rightarrow> nat \<Rightarrow> u32" where
  "session_layer_live_kv_rows s il =
     (let rows = session_live_kv_rows s;
          cap = session_layer_kv_cap s il;
          rows = (if cap \<noteq> 0 \<and> rows > cap then cap else rows)
      in if il < SF37_MAIN_LAYERS \<and> \<not> layer_is_full il \<and> lk_n (se_layer s ! il) \<noteq> 0 \<and>
            rows > of_nat (lk_n (se_layer s ! il))
         then of_nat (lk_n (se_layer s ! il)) else rows)"

definition session_kv_row_counts :: "sf37_session \<Rightarrow> u32 list" where
  "session_kv_row_counts s = map (session_layer_live_kv_rows s) [0..<SF37_MAIN_LAYERS]"

definition session_live_kv_row_sum :: "sf37_session \<Rightarrow> u64" where
  "session_live_kv_row_sum s =
     foldl (\<lambda>rows il. rows + ucast (session_layer_live_kv_rows s il)) 0 [0..<SF37_MAIN_LAYERS]"

subsection \<open>Quantised rows\<close>

record fp32 =
  fp_div :: "u32 \<Rightarrow> u32 \<Rightarrow> u32"
  fp_mul :: "u32 \<Rightarrow> u32 \<Rightarrow> u32"
  fp_of_int :: "int \<Rightarrow> u32"
  fp_lrint :: "u32 \<Rightarrow> int"

definition f32_isfinite :: "u32 \<Rightarrow> bool" where
  "f32_isfinite v \<longleftrightarrow> v AND 0x7f800000 \<noteq> 0x7f800000"

definition f32_abs :: "u32 \<Rightarrow> u32" where
  "f32_abs v = v AND 0x7fffffff"

definition payload_kv_groups_per_row :: "u32 \<Rightarrow> u32 \<Rightarrow> u32" where
  "payload_kv_groups_per_row elems grp =
     (if grp = 0 then 0 else (elems + grp - 1) div grp)"

definition payload_encoded_kv_row_bytes :: "u32 \<Rightarrow> u32 \<Rightarrow> u64" where
  "payload_encoded_kv_row_bytes elems grp =
     ucast (payload_kv_groups_per_row elems grp) * 4 + ucast elems * 1"

definition group_elems :: "u32 \<Rightarrow> u32 \<Rightarrow> u32 \<Rightarrow> nat list" where
  "group_elems elems grp g =
     (let begin0 = g * grp; end0 = begin0 + grp; end0 = (if end0 > elems then elems else end0)
      in [unat begin0..<unat end0])"

definition group_scale :: "fp32 \<Rightarrow> frow \<Rightarrow> nat list \<Rightarrow> u32" where
  "group_scale fp src ix =
     (let max_abs = foldl (\<lambda>m i. let a = f32_abs (src ! i)
                                 in if f32_isfinite a \<and> f32_gt a m then a else m) 0 ix
      in if f32_gt max_abs 0 then fp_div fp max_abs 0x42fe0000 else 0x3f800000)"

definition quant_i8 :: "fp32 \<Rightarrow> u32 \<Rightarrow> u32 \<Rightarrow> byte" where
  "quant_i8 fp scale v =
     (let v = (if \<not> f32_isfinite v then 0 else v);
          qi = fp_lrint fp (fp_div fp v scale);
          qi = (if qi > 127 then 127 else qi);
          qi = (if qi < -127 then -127 else qi)
      in of_int qi)"

definition payload_encode_kv_row_i8_grouped :: "fp32 \<Rightarrow> frow \<Rightarrow> u32 \<Rightarrow> u32 \<Rightarrow> bytes" where
  "payload_encode_kv_row_i8_grouped fp src elems grp =
     (let groups = map of_nat [0..<unat (payload_kv_groups_per_row elems grp)];
          scale = (\<lambda>g. group_scale fp src (group_elems elems grp g))
      in host_u32s (map scale groups) @
         concat (map (\<lambda>g. map (\<lambda>i. quant_i8 fp (scale g) (src ! i)) (group_elems elems grp g)) groups))"

text \<open>A word read from memory, and an array of them.\<close>

definition host_get_u32 :: "bytes \<Rightarrow> u32" where
  "host_get_u32 p =
     ucast (p ! 0) OR push_bit 8 (ucast (p ! 1)) OR push_bit 16 (ucast (p ! 2)) OR
     push_bit 24 (ucast (p ! 3))"

definition host_get_u32s :: "nat \<Rightarrow> bytes \<Rightarrow> u32 list" where
  "host_get_u32s n p = map (\<lambda>i. host_get_u32 (take 4 (drop (4 * i) p))) [0..<n]"

definition payload_decode_kv_row_i8_grouped :: "fp32 \<Rightarrow> bytes \<Rightarrow> u32 \<Rightarrow> u32 \<Rightarrow> frow" where
  "payload_decode_kv_row_i8_grouped fp src elems grp =
     (let n = unat (payload_kv_groups_per_row elems grp);
          scales = host_get_u32s n src;
          q = drop (n * 4) src
      in concat (map (\<lambda>g. map (\<lambda>i. fp_mul fp (fp_of_int fp (sint (q ! i))) (scales ! g))
                             (group_elems elems grp (of_nat g))) [0..<n]))"

subsection \<open>The snapshot in memory\<close>

definition SF37_SESSION_SNAPSHOT_MAGIC :: u32 where "SF37_SESSION_SNAPSHOT_MAGIC = 0x37334653"
definition SF37_SESSION_SNAPSHOT_VERSION :: u32 where "SF37_SESSION_SNAPSHOT_VERSION = 2"

definition sf37_session_snapshot_bytes :: "sf37_session \<Rightarrow> u64" where
  "sf37_session_snapshot_bytes s =
     (if \<not> se_checkpoint_valid s then 0
      else let bytes = 11 * 4;
               bytes = bytes + of_nat SF37_MAIN_LAYERS * 4;
               bytes = bytes + of_nat (length (se_checkpoint s)) * 4;
               bytes = bytes + of_nat SF37_VOCAB * 4;
               bytes = bytes + of_nat SF37_EMBD * 4
           in bytes + session_live_kv_row_sum s * of_nat SF37_KV_ROW * 2 * 4)"

text \<open>\<open>None\<close> is the overflow of the buffer of \<open>cap\<close> bytes.\<close>

definition snapshot_write_bytes :: "u64 \<Rightarrow> bytes \<Rightarrow> bytes \<Rightarrow> bytes option" where
  "snapshot_write_bytes cap w src =
     (if length src > unat cap \<or> length w > unat cap - length src then None else Some (w @ src))"

definition snapshot_write_u32 :: "u64 \<Rightarrow> bytes \<Rightarrow> u32 \<Rightarrow> bytes option" where
  "snapshot_write_u32 cap w v = snapshot_write_bytes cap w (host_u32 v)"

fun snapshot_write_u32s :: "u64 \<Rightarrow> bytes \<Rightarrow> u32 list \<Rightarrow> bytes option" where
  "snapshot_write_u32s cap w [] = Some w"
| "snapshot_write_u32s cap w (v # vs) =
     snapshot_write_u32 cap w v \<bind> (\<lambda>w. snapshot_write_u32s cap w vs)"

definition snapshot_header :: "sf37_session \<Rightarrow> u32 list" where
  "snapshot_header s =
     [SF37_SESSION_SNAPSHOT_MAGIC, SF37_SESSION_SNAPSHOT_VERSION, of_int (se_ctx_size s),
      of_nat (length (se_checkpoint s)), session_live_kv_rows s, of_nat SF37_MAIN_LAYERS, 8, 128,
      of_nat SF37_VOCAB, of_nat SF37_EMBD, 0]"

fun snapshot_write_layers :: "u64 \<Rightarrow> sf37_session \<Rightarrow> bytes \<Rightarrow> nat list \<Rightarrow> bytes option" where
  "snapshot_write_layers cap s w [] = Some w"
| "snapshot_write_layers cap s w (il # ils) =
     (let layer = se_layer s ! il;
          rows = unat (session_kv_row_counts s ! il)
      in if lk_n layer < rows then None
         else let start = lk_n layer - rows in
           do { w \<leftarrow> snapshot_write_bytes cap w (concat (map host_u32s (take rows (drop start (lk_k layer)))));
                w \<leftarrow> snapshot_write_bytes cap w (concat (map host_u32s (take rows (drop start (lk_v layer)))));
                snapshot_write_layers cap s w ils })"

text \<open>The buffer has capacity \<open>snap_cap\<close> from an earlier snapshot; \<open>realloc_ok\<close> tells whether
  it can be enlarged. The result is the written part of it.\<close>

definition sf37_session_save_snapshot ::
  "(u64 \<Rightarrow> bool) \<Rightarrow> u64 \<Rightarrow> sf37_session \<Rightarrow> bytes option" where
  "sf37_session_save_snapshot realloc_ok snap_cap s =
     (if \<not> se_checkpoint_valid s then None
      else let nbytes = sf37_session_snapshot_bytes s in
        if nbytes = 0 then None
        else if snap_cap < nbytes \<and> \<not> realloc_ok nbytes then None
        else let cap = (if snap_cap < nbytes then nbytes else snap_cap) in
          do { w \<leftarrow> snapshot_write_u32s cap [] (snapshot_header s);
               w \<leftarrow> snapshot_write_u32s cap w (session_kv_row_counts s);
               w \<leftarrow> snapshot_write_u32s cap w (map of_int (se_checkpoint s));
               w \<leftarrow> snapshot_write_bytes cap w (host_u32s (se_logits s));
               w \<leftarrow> snapshot_write_bytes cap w (host_u32s (se_hidden s));
               snapshot_write_layers cap s w [0..<SF37_MAIN_LAYERS] })"

definition snapshot_read_bytes :: "bytes \<Rightarrow> nat \<Rightarrow> (bytes \<times> bytes) option" where
  "snapshot_read_bytes r n = (if n > length r then None else Some (take n r, drop n r))"

definition snapshot_read_u32 :: "bytes \<Rightarrow> (u32 \<times> bytes) option" where
  "snapshot_read_u32 r = map_option (\<lambda>(b, r). (host_get_u32 b, r)) (snapshot_read_bytes r 4)"

fun snapshot_read_u32s :: "nat \<Rightarrow> bytes \<Rightarrow> (u32 list \<times> bytes) option" where
  "snapshot_read_u32s 0 r = Some ([], r)"
| "snapshot_read_u32s (Suc n) r =
     do { (v, r) \<leftarrow> snapshot_read_u32 r; (vs, r) \<leftarrow> snapshot_read_u32s n r; Some (v # vs, r) }"

text \<open>The row counts both loaders accept.\<close>

definition loaded_rows_ok :: "sf37_session \<Rightarrow> u32 \<Rightarrow> u32 list \<Rightarrow> nat \<Rightarrow> bool" where
  "loaded_rows_ok s live_rows row_counts il \<longleftrightarrow>
     (let rows = row_counts ! il; cap = session_layer_kv_cap s il in
      \<not> rows > live_rows \<and>
      (if layer_is_full il then rows = live_rows
       else let needed = (if live_rows < of_nat SF37_SLIDING_WINDOW then live_rows
                          else of_nat SF37_SLIDING_WINDOW)
            in \<not> rows < needed) \<and>
      \<not> (cap \<noteq> 0 \<and> rows > cap))"

definition snapshot_header_ok :: "sf37_session \<Rightarrow> u32 list \<Rightarrow> u32 list \<Rightarrow> bool" where
  "snapshot_header_ok s h row_counts \<longleftrightarrow>
     (let saved_ctx = h ! 2; token_count = h ! 3; live_rows = h ! 4 in
      \<not> saved_ctx \<noteq> of_int (se_ctx_size s) \<and>
      \<not> (token_count > of_int (se_ctx_size s) \<or> live_rows > token_count \<or>
         live_rows \<noteq> (if token_count < saved_ctx then token_count else saved_ctx)) \<and>
      list_all (loaded_rows_ok s live_rows row_counts) [0..<SF37_MAIN_LAYERS] \<and>
      \<not> (h ! 5 \<noteq> of_nat SF37_MAIN_LAYERS \<or> h ! 6 \<noteq> 8 \<or> h ! 7 \<noteq> 128 \<or>
         h ! 8 \<noteq> of_nat SF37_VOCAB \<or> h ! 9 \<noteq> of_nat SF37_EMBD))"

fun snapshot_read_tokens :: "nat \<Rightarrow> bytes \<Rightarrow> tokens \<Rightarrow> (tokens \<times> bytes) option" where
  "snapshot_read_tokens 0 r checkpoint = Some (checkpoint, r)"
| "snapshot_read_tokens (Suc n) r checkpoint =
     do { (tok, r) \<leftarrow> snapshot_read_u32 r;
          if tok \<ge> of_nat SF37_VOCAB then None
          else snapshot_read_tokens n r (sf37_tokens_push checkpoint (sint tok)) }"

text \<open>Reading \<open>rows\<close> rows over the front of a cache array.\<close>

definition overwrite :: "'a list \<Rightarrow> 'a list \<Rightarrow> 'a list" where
  "overwrite new old = new @ drop (length new) old"

definition rows_of_bytes :: "nat \<Rightarrow> bytes \<Rightarrow> frow list" where
  "rows_of_bytes rows b = map (\<lambda>j. host_get_u32s SF37_KV_ROW (drop (j * SF37_KV_ROW * 4) b)) [0..<rows]"

fun snapshot_read_layers :: "u32 list \<Rightarrow> nat list \<Rightarrow> bytes \<Rightarrow> layer_kv list \<Rightarrow> bool \<times> bytes \<times> layer_kv list" where
  "snapshot_read_layers row_counts [] r layers = (True, r, layers)"
| "snapshot_read_layers row_counts (il # ils) r layers =
     (let rows = unat (row_counts ! il); layer = layers ! il in
      case snapshot_read_bytes r (rows * SF37_KV_ROW * 4) of
        None \<Rightarrow> (False, r, layers)
      | Some (b, r) \<Rightarrow>
          let layer = layer\<lparr>lk_k := overwrite (rows_of_bytes rows b) (lk_k layer)\<rparr> in
          (case snapshot_read_bytes r (rows * SF37_KV_ROW * 4) of
             None \<Rightarrow> (False, r, layers[il := layer])
           | Some (b, r) \<Rightarrow>
               let layer = layer\<lparr>lk_v := overwrite (rows_of_bytes rows b) (lk_v layer), lk_n := rows\<rparr>
               in snapshot_read_layers row_counts ils r (layers[il := layer])))"

definition snapshot_read_head :: "sf37_session \<Rightarrow> bytes \<Rightarrow> (u32 list \<times> tokens \<times> bytes) option" where
  "snapshot_read_head s snap =
     do { (h, r) \<leftarrow> snapshot_read_u32s 11 snap;
          if h ! 0 \<noteq> SF37_SESSION_SNAPSHOT_MAGIC \<or> h ! 1 \<noteq> SF37_SESSION_SNAPSHOT_VERSION then None
          else do { (row_counts, r) \<leftarrow> snapshot_read_u32s SF37_MAIN_LAYERS r;
                    if \<not> snapshot_header_ok s h row_counts then None
                    else do { (new_checkpoint, r) \<leftarrow> snapshot_read_tokens (unat (h ! 3)) r [];
                              Some (row_counts, new_checkpoint, r) } } }"

definition sf37_session_load_snapshot :: "sf37_session \<Rightarrow> bytes \<Rightarrow> bool \<times> sf37_session" where
  "sf37_session_load_snapshot s snap =
     (if snap = [] then (False, s)
      else let s = session_clear_image_signature s in
      case snapshot_read_head s snap of None \<Rightarrow> (False, s)
      | Some (row_counts, new_checkpoint, r) \<Rightarrow>
      (case snapshot_read_bytes r (SF37_VOCAB * 4) of None \<Rightarrow> (False, s) | Some (b, r) \<Rightarrow>
      let s = s\<lparr>se_logits := host_get_u32s SF37_VOCAB b\<rparr> in
      (case snapshot_read_bytes r (SF37_EMBD * 4) of None \<Rightarrow> (False, s) | Some (b, r) \<Rightarrow>
      let s = s\<lparr>se_hidden := host_get_u32s SF37_EMBD b, se_checkpoint_valid := False\<rparr> in
      (case snapshot_read_layers row_counts [0..<SF37_MAIN_LAYERS] r (se_layer s) of (ok, r, layers) \<Rightarrow>
      let s = s\<lparr>se_layer := layers\<rparr> in
      if \<not> ok \<or> r \<noteq> [] then (False, s)
      else (True, s\<lparr>se_checkpoint := new_checkpoint, se_checkpoint_valid := True\<rparr>)))))"

subsection \<open>The payload of a checkpoint file\<close>

definition SF37_SESSION_PAYLOAD_MAGIC :: u32 where "SF37_SESSION_PAYLOAD_MAGIC = 0x37375053"
definition SF37_SESSION_PAYLOAD_VERSION :: u32 where "SF37_SESSION_PAYLOAD_VERSION = 3"
definition SF37_SESSION_PAYLOAD_KV_I8_GROUPED :: u32 where "SF37_SESSION_PAYLOAD_KV_I8_GROUPED = 1"
definition SF37_SESSION_PAYLOAD_KV_GROUP :: u32 where "SF37_SESSION_PAYLOAD_KV_GROUP = 64"
definition SF37_SESSION_IO_CHUNK :: nat where "SF37_SESSION_IO_CHUNK = 1024 * 1024"

lemma io_chunk_pos [simp]: "0 < SF37_SESSION_IO_CHUNK"
  by (simp add: SF37_SESSION_IO_CHUNK_def)

text \<open>A file being written is its bytes; \<open>io n\<close> tells whether the \<open>fwrite\<close> issued after \<open>n\<close>
  bytes is complete.\<close>

function payload_write_bytes :: "(nat \<Rightarrow> bool) \<Rightarrow> bytes \<Rightarrow> bytes \<Rightarrow> bytes option" where
  "payload_write_bytes io fp src =
     (if src = [] then Some fp
      else let chunk = (if length src > SF37_SESSION_IO_CHUNK then SF37_SESSION_IO_CHUNK else length src)
           in if \<not> io (length fp) then None
              else payload_write_bytes io (fp @ take chunk src) (drop chunk src))"
  by pat_completeness auto
termination
  by (relation "measure (\<lambda>(_, _, src). length src)") (auto simp: Let_def)

declare payload_write_bytes.simps [simp del]

definition payload_write_u32 :: "(nat \<Rightarrow> bool) \<Rightarrow> bytes \<Rightarrow> u32 \<Rightarrow> bytes option" where
  "payload_write_u32 io fp v = payload_write_bytes io fp (host_u32 v)"

fun payload_write_u32s :: "(nat \<Rightarrow> bool) \<Rightarrow> bytes \<Rightarrow> u32 list \<Rightarrow> bytes option" where
  "payload_write_u32s io fp [] = Some fp"
| "payload_write_u32s io fp (v # vs) =
     payload_write_u32 io fp v \<bind> (\<lambda>fp. payload_write_u32s io fp vs)"

text \<open>A file being read is the rest of it, with the count of payload bytes that remain.\<close>

function payload_read_loop :: "nat \<Rightarrow> bytes \<Rightarrow> bytes \<Rightarrow> u64 \<Rightarrow> (bytes \<times> bytes \<times> u64) option" where
  "payload_read_loop left p fp remaining =
     (if left = 0 then Some (p, fp, remaining)
      else let chunk = (if left > SF37_SESSION_IO_CHUNK then SF37_SESSION_IO_CHUNK else left)
           in if length fp < chunk then None
              else payload_read_loop (left - chunk) (p @ take chunk fp) (drop chunk fp)
                     (remaining - of_nat chunk))"
  by pat_completeness auto
termination
  by (relation "measure (\<lambda>(left, _). left)") (auto simp: Let_def)

declare payload_read_loop.simps [simp del]

definition payload_read_bytes :: "bytes \<times> u64 \<Rightarrow> nat \<Rightarrow> (bytes \<times> bytes \<times> u64) option" where
  "payload_read_bytes st n =
     (case st of (fp, remaining) \<Rightarrow>
        if n > unat remaining then None else payload_read_loop n [] fp remaining)"

text \<open>What a failed read has already put into the array of words it reads into.\<close>

definition payload_read_short :: "u32 list \<Rightarrow> bytes \<times> u64 \<Rightarrow> u32 list" where
  "payload_read_short old st =
     (case st of (fp, remaining) \<Rightarrow>
        if length old * 4 > unat remaining then old
        else host_get_u32s (length old) (fp @ drop (length fp) (host_u32s old)))"

definition payload_read_u32 :: "bytes \<times> u64 \<Rightarrow> (u32 \<times> bytes \<times> u64) option" where
  "payload_read_u32 st = map_option (\<lambda>(b, st). (host_get_u32 b, st)) (payload_read_bytes st 4)"

fun payload_read_u32s :: "nat \<Rightarrow> bytes \<times> u64 \<Rightarrow> (u32 list \<times> bytes \<times> u64) option" where
  "payload_read_u32s 0 st = Some ([], st)"
| "payload_read_u32s (Suc n) st =
     do { (v, st) \<leftarrow> payload_read_u32 st; (vs, st) \<leftarrow> payload_read_u32s n st; Some (v # vs, st) }"

function payload_copy_file_bytes :: "(nat \<Rightarrow> bool) \<Rightarrow> bytes \<Rightarrow> bytes \<Rightarrow> nat \<Rightarrow> bytes option" where
  "payload_copy_file_bytes io src dst left =
     (if left = 0 then Some dst
      else let chunk = (if left > SF37_SESSION_IO_CHUNK then SF37_SESSION_IO_CHUNK else left)
           in if length src < chunk then None
              else if \<not> io (length dst) then None
              else payload_copy_file_bytes io (drop chunk src) (dst @ take chunk src) (left - chunk))"
  by pat_completeness auto
termination
  by (relation "measure (\<lambda>(_, _, _, left). left)") (auto simp: Let_def)

declare payload_copy_file_bytes.simps [simp del]

subsection \<open>Saving a payload\<close>

definition KV_ROW32 :: u32 where "KV_ROW32 = 8 * 128"

definition sf37_session_payload_bytes :: "sf37_session \<Rightarrow> u64" where
  "sf37_session_payload_bytes s =
     (if \<not> se_checkpoint_valid s then 0
      else let encoded_row = payload_encoded_kv_row_bytes KV_ROW32 SF37_SESSION_PAYLOAD_KV_GROUP;
               bytes = 15 * 4;
               bytes = bytes + of_nat SF37_MAIN_LAYERS * 4;
               bytes = bytes + of_nat (length (se_checkpoint s)) * 4;
               bytes = bytes + of_nat SF37_VOCAB * 4;
               bytes = bytes + of_nat SF37_EMBD * 4
           in bytes + session_live_kv_row_sum s * 2 * encoded_row)"

definition payload_header :: "sf37_session \<Rightarrow> u32 list" where
  "payload_header s =
     [SF37_SESSION_PAYLOAD_MAGIC, SF37_SESSION_PAYLOAD_VERSION, of_int (se_ctx_size s),
      of_nat (length (se_checkpoint s)), session_live_kv_rows s, of_nat SF37_MAIN_LAYERS, 8, 128,
      of_nat SF37_VOCAB, of_nat SF37_EMBD, 0, SF37_SESSION_PAYLOAD_KV_I8_GROUPED,
      SF37_SESSION_PAYLOAD_KV_GROUP,
      payload_kv_groups_per_row KV_ROW32 SF37_SESSION_PAYLOAD_KV_GROUP,
      ucast (payload_encoded_kv_row_bytes KV_ROW32 SF37_SESSION_PAYLOAD_KV_GROUP)]"

fun payload_write_rows :: "fp32 \<Rightarrow> (nat \<Rightarrow> bool) \<Rightarrow> bytes \<Rightarrow> (frow \<times> frow) list \<Rightarrow> bytes option" where
  "payload_write_rows fpu io fp [] = Some fp"
| "payload_write_rows fpu io fp ((k, v) # rows) =
     do { fp \<leftarrow> payload_write_bytes io fp
                 (payload_encode_kv_row_i8_grouped fpu k KV_ROW32 SF37_SESSION_PAYLOAD_KV_GROUP);
          fp \<leftarrow> payload_write_bytes io fp
                 (payload_encode_kv_row_i8_grouped fpu v KV_ROW32 SF37_SESSION_PAYLOAD_KV_GROUP);
          payload_write_rows fpu io fp rows }"

fun payload_write_layers ::
  "fp32 \<Rightarrow> (nat \<Rightarrow> bool) \<Rightarrow> sf37_session \<Rightarrow> bytes \<Rightarrow> nat list \<Rightarrow> bytes option" where
  "payload_write_layers fpu io s fp [] = Some fp"
| "payload_write_layers fpu io s fp (il # ils) =
     (let layer = se_layer s ! il;
          rows = unat (session_kv_row_counts s ! il)
      in if lk_n layer < rows then None
         else let start = lk_n layer - rows in
           do { fp \<leftarrow> payload_write_rows fpu io fp
                       (zip (take rows (drop start (lk_k layer))) (take rows (drop start (lk_v layer))));
                payload_write_layers fpu io s fp ils })"

definition sf37_session_save_payload :: "fp32 \<Rightarrow> (nat \<Rightarrow> bool) \<Rightarrow> sf37_session \<Rightarrow> bytes option" where
  "sf37_session_save_payload fpu io s =
     (if \<not> se_checkpoint_valid s then None
      else do { fp \<leftarrow> payload_write_u32s io [] (payload_header s);
                fp \<leftarrow> payload_write_u32s io fp (session_kv_row_counts s);
                fp \<leftarrow> payload_write_u32s io fp (map of_int (se_checkpoint s));
                fp \<leftarrow> payload_write_bytes io fp (host_u32s (se_logits s));
                fp \<leftarrow> payload_write_bytes io fp (host_u32s (se_hidden s));
                payload_write_layers fpu io s fp [0..<SF37_MAIN_LAYERS] })"

text \<open>Staging: the payload goes to a temporary file first, whose content and length are the
  result. The record says which calls succeed.\<close>

record stage_io =
  st_mkstemp :: bool
  st_fdopen :: bool
  st_fwrite :: "nat \<Rightarrow> bool"
  st_fflush :: bool
  st_ftello :: bool
  st_fclose :: bool

definition sf37_session_stage_payload ::
  "fp32 \<Rightarrow> stage_io \<Rightarrow> sf37_session \<Rightarrow> (bytes \<times> u64) option" where
  "sf37_session_stage_payload fpu io s =
     (if \<not> se_checkpoint_valid s then None
      else if \<not> st_mkstemp io then None
      else if \<not> st_fdopen io then None
      else (case sf37_session_save_payload fpu (st_fwrite io) s of
              None \<Rightarrow> None
            | Some file \<Rightarrow>
                if \<not> st_fflush io then None
                else if \<not> st_ftello io then None
                else let pos = of_nat (length file) in
                  if pos \<noteq> sf37_session_payload_bytes s then None
                  else if \<not> st_fclose io then None
                  else Some (file, pos)))"

record copy_io =
  cp_fopen :: bool
  cp_fwrite :: "nat \<Rightarrow> bool"
  cp_fclose :: bool

definition sf37_session_write_staged_payload :: "copy_io \<Rightarrow> bytes \<times> u64 \<Rightarrow> bytes \<Rightarrow> bytes option" where
  "sf37_session_write_staged_payload io payload fp =
     (if \<not> cp_fopen io then None
      else let rc = payload_copy_file_bytes (cp_fwrite io) (fst payload) fp (unat (snd payload))
           in if \<not> cp_fclose io then None else rc)"

subsection \<open>Loading a payload\<close>

definition payload_header_ok :: "sf37_session \<Rightarrow> u64 \<Rightarrow> u32 list \<Rightarrow> u32 list \<Rightarrow> bool" where
  "payload_header_ok s payload_bytes h row_counts \<longleftrightarrow>
     (let saved_ctx = h ! 2; token_count = h ! 3; live_rows = h ! 4; kv_row = h ! 6 * h ! 7;
          grp = h ! 12; groups = h ! 13; encoded_row = h ! 14;
          row_sum = foldl (\<lambda>t il. t + ucast (row_counts ! il)) (0 :: u64) [0..<SF37_MAIN_LAYERS];
          expected_bytes = 15 * 4 + of_nat SF37_MAIN_LAYERS * 4 + ucast token_count * 4 +
             of_nat SF37_VOCAB * 4 + of_nat SF37_EMBD * 4 + row_sum * 2 * ucast encoded_row
      in \<not> (saved_ctx > of_int (se_ctx_size s) \<or> token_count > of_int (se_ctx_size s)) \<and>
         \<not> (live_rows > token_count \<or>
            live_rows \<noteq> (if token_count < saved_ctx then token_count else saved_ctx)) \<and>
         list_all (loaded_rows_ok s live_rows row_counts) [0..<SF37_MAIN_LAYERS] \<and>
         \<not> (h ! 5 \<noteq> of_nat SF37_MAIN_LAYERS \<or> h ! 6 \<noteq> 8 \<or> h ! 7 \<noteq> 128 \<or>
            h ! 8 \<noteq> of_nat SF37_VOCAB \<or> h ! 9 \<noteq> of_nat SF37_EMBD \<or>
            h ! 11 \<noteq> SF37_SESSION_PAYLOAD_KV_I8_GROUPED \<or>
            grp \<noteq> SF37_SESSION_PAYLOAD_KV_GROUP \<or>
            groups \<noteq> payload_kv_groups_per_row kv_row grp \<or>
            ucast encoded_row \<noteq> payload_encoded_kv_row_bytes kv_row grp) \<and>
         payload_bytes = expected_bytes)"

fun payload_read_tokens :: "nat \<Rightarrow> bytes \<times> u64 \<Rightarrow> tokens \<Rightarrow> (tokens \<times> bytes \<times> u64) option" where
  "payload_read_tokens 0 st checkpoint = Some (checkpoint, st)"
| "payload_read_tokens (Suc n) st checkpoint =
     do { (tok, st) \<leftarrow> payload_read_u32 st;
          if tok \<ge> of_nat SF37_VOCAB then None
          else payload_read_tokens n st (sf37_tokens_push checkpoint (sint tok)) }"

text \<open>The rows from \<open>rr\<close> on of one layer; a failure keeps the rows read before it.\<close>

fun payload_read_rows ::
  "fp32 \<Rightarrow> nat \<Rightarrow> nat \<Rightarrow> nat \<Rightarrow> bytes \<times> u64 \<Rightarrow> layer_kv \<Rightarrow> bool \<times> (bytes \<times> u64) \<times> layer_kv" where
  "payload_read_rows fpu encoded_row rr 0 st layer = (True, st, layer)"
| "payload_read_rows fpu encoded_row rr (Suc n) st layer =
     (case payload_read_bytes st encoded_row of
        None \<Rightarrow> (False, st, layer)
      | Some (b, st) \<Rightarrow>
          let layer = layer\<lparr>lk_k := (lk_k layer)[rr :=
                payload_decode_kv_row_i8_grouped fpu b KV_ROW32 SF37_SESSION_PAYLOAD_KV_GROUP]\<rparr> in
          (case payload_read_bytes st encoded_row of
             None \<Rightarrow> (False, st, layer)
           | Some (b, st) \<Rightarrow>
               payload_read_rows fpu encoded_row (rr + 1) n st
                 (layer\<lparr>lk_v := (lk_v layer)[rr :=
                    payload_decode_kv_row_i8_grouped fpu b KV_ROW32 SF37_SESSION_PAYLOAD_KV_GROUP]\<rparr>)))"

fun payload_read_layers ::
  "fp32 \<Rightarrow> nat \<Rightarrow> u32 list \<Rightarrow> nat list \<Rightarrow> bytes \<times> u64 \<Rightarrow> layer_kv list \<Rightarrow>
   bool \<times> (bytes \<times> u64) \<times> layer_kv list" where
  "payload_read_layers fpu encoded_row row_counts [] st layers = (True, st, layers)"
| "payload_read_layers fpu encoded_row row_counts (il # ils) st layers =
     (let rows = unat (row_counts ! il) in
      case payload_read_rows fpu encoded_row 0 rows st (layers ! il) of
        (False, st, layer) \<Rightarrow> (False, st, layers[il := layer])
      | (True, st, layer) \<Rightarrow>
          payload_read_layers fpu encoded_row row_counts ils st (layers[il := layer\<lparr>lk_n := rows\<rparr>]))"

text \<open>The header fields that are checked against the layout are used by their checked values.\<close>

definition payload_read_head ::
  "sf37_session \<Rightarrow> bytes \<Rightarrow> u64 \<Rightarrow> (u32 list \<times> u32 list \<times> tokens \<times> bytes \<times> u64) option" where
  "payload_read_head s fp payload_bytes =
     do { (h, st) \<leftarrow> payload_read_u32s 15 (fp, payload_bytes);
          if h ! 0 \<noteq> SF37_SESSION_PAYLOAD_MAGIC \<or> h ! 1 \<noteq> SF37_SESSION_PAYLOAD_VERSION then None
          else do { (row_counts, st) \<leftarrow> payload_read_u32s SF37_MAIN_LAYERS st;
                    if \<not> payload_header_ok s payload_bytes h row_counts then None
                    else do { (new_checkpoint, st) \<leftarrow> payload_read_tokens (unat (h ! 3)) st [];
                              Some (h, row_counts, new_checkpoint, st) } } }"

definition sf37_session_load_payload ::
  "fp32 \<Rightarrow> sf37_session \<Rightarrow> bytes \<Rightarrow> u64 \<Rightarrow> sf37_session \<times> bytes \<times> bool" where
  "sf37_session_load_payload fpu s fp payload_bytes =
     (if payload_bytes = 0 then (s, fp, False)
      else let s = session_clear_image_signature s in
      case payload_read_head s fp payload_bytes of None \<Rightarrow> (s, fp, False)
      | Some (h, row_counts, new_checkpoint, st) \<Rightarrow>
      (case payload_read_bytes st (SF37_VOCAB * 4) of
         None \<Rightarrow> (s\<lparr>se_logits := payload_read_short (se_logits s) st\<rparr>, fp, False) | Some (b, st) \<Rightarrow>
      let s = s\<lparr>se_logits := host_get_u32s SF37_VOCAB b\<rparr> in
      (case payload_read_bytes st (SF37_EMBD * 4) of
         None \<Rightarrow> (s\<lparr>se_hidden := payload_read_short (se_hidden s) st\<rparr>, fp, False) | Some (b, st) \<Rightarrow>
      let s = s\<lparr>se_hidden := host_get_u32s SF37_EMBD b, se_checkpoint_valid := False\<rparr> in
      (case payload_read_layers fpu (unat (h ! 14)) row_counts [0..<SF37_MAIN_LAYERS] st (se_layer s) of
         (ok, (rest, remaining), layers) \<Rightarrow>
      let s = s\<lparr>se_layer := layers\<rparr> in
      if \<not> ok then (s, rest, False)
      else if remaining \<noteq> 0 then (s, rest, False)
      else (s\<lparr>se_checkpoint := new_checkpoint, se_checkpoint_valid := True\<rparr>, rest, True)))))"

end
