(* ===== verification/SnapshotLemmas.thy ===== *)
theory SnapshotLemmas
  imports SessionSnapshot
begin

text \<open>
  The writers append, the readers consume: what the snapshot and the payload of
  \<open>SessionSnapshot\<close> contain, that loading them restores the session, and that loading any
  other bytes keeps every array within its bounds.
\<close>

section \<open>Round trips\<close>

subsection \<open>Words in memory\<close>

lemma length_host_u32 [simp]: "length (host_u32 v) = 4"
  by (simp add: host_u32_def)

lemma length_host_u32s [simp]: "length (host_u32s ws) = 4 * length ws"
  by (induction ws) (simp_all add: host_u32s_def)

lemma host_u32s_simps [simp]:
  "host_u32s [] = []" "host_u32s (w # ws) = host_u32 w @ host_u32s ws"
  by (simp_all add: host_u32s_def)

lemma host_get_put [simp]: "host_get_u32 (host_u32 v @ r) = v"
  using le_get_put32 [of v r]
  by (simp add: sf37_kvstore_le_get32_def sf37_kvstore_le_put32_def host_get_u32_def host_u32_def)

lemma host_get_put_Nil [simp]: "host_get_u32 (host_u32 v) = v"
  using host_get_put [of v "[]"] by simp

lemma length_host_get_u32s [simp]: "length (host_get_u32s n p) = n"
  by (simp add: host_get_u32s_def)

lemma host_get_u32s_Suc:
  "host_get_u32s (Suc n) p = host_get_u32 (take 4 p) # host_get_u32s n (drop 4 p)"
  by (simp add: host_get_u32s_def upt_conv_Cons map_Suc_upt [symmetric] o_def add.commute del: upt_Suc)

lemma host_get_put_list [simp]: "host_get_u32s (length ws) (host_u32s ws @ r) = ws"
proof (induction ws)
  case Nil
  then show ?case by (simp add: host_get_u32s_def)
next
  case (Cons w ws)
  then show ?case by (simp add: host_get_u32s_Suc)
qed

lemma host_get_put_len: "length ws = n \<Longrightarrow> host_get_u32s n (host_u32s ws @ r) = ws"
  by auto

subsection \<open>Writers append, readers consume\<close>

lemma payload_write_bytes_Some: "payload_write_bytes io fp src = Some fp' \<Longrightarrow> fp' = fp @ src"
proof (induction io fp src rule: payload_write_bytes.induct)
  case (1 io fp src)
  show ?case
  proof (cases "src = []")
    case True
    with "1.prems" show ?thesis by (simp add: payload_write_bytes.simps)
  next
    case False
    let ?c = "if length src > SF37_SESSION_IO_CHUNK then SF37_SESSION_IO_CHUNK else length src"
    from False "1.prems" have io: "io (length fp)"
      and rec: "payload_write_bytes io (fp @ take ?c src) (drop ?c src) = Some fp'"
      by (auto simp: payload_write_bytes.simps [of io fp src] Let_def split: if_splits)
    show ?thesis
      using "1.IH" [OF False refl _ rec] io by simp
  qed
qed

lemma payload_write_bytes_ok [simp]: "payload_write_bytes (\<lambda>_. True) fp src = Some (fp @ src)"
proof (induction "length src" arbitrary: fp src rule: less_induct)
  case less
  show ?case
  proof (cases "src = []")
    case True
    then show ?thesis by (simp add: payload_write_bytes.simps)
  next
    case False
    then show ?thesis
      by (simp add: payload_write_bytes.simps [of _ fp src] Let_def less)
  qed
qed

lemma payload_copy_Some:
  "payload_copy_file_bytes io src dst n = Some dst' \<Longrightarrow> n \<le> length src \<and> dst' = dst @ take n src"
proof (induction io src dst n rule: payload_copy_file_bytes.induct)
  case (1 io src dst n)
  show ?case
  proof (cases "n = 0")
    case True
    with "1.prems" show ?thesis by (simp add: payload_copy_file_bytes.simps)
  next
    case False
    let ?c = "if n > SF37_SESSION_IO_CHUNK then SF37_SESSION_IO_CHUNK else n"
    from False "1.prems" have io: "\<not> length src < ?c" "io (length dst)"
      and rec: "payload_copy_file_bytes io (drop ?c src) (dst @ take ?c src) (n - ?c) = Some dst'"
      by (auto simp: payload_copy_file_bytes.simps [of io src dst n] Let_def split: if_splits)
    have "n - ?c \<le> length (drop ?c src) \<and> dst' = (dst @ take ?c src) @ take (n - ?c) (drop ?c src)"
      using "1.IH" [OF False refl _ _ rec] io by simp
    moreover have "?c \<le> n" by simp
    ultimately show ?thesis
      using io(1) by (auto simp: take_split [of ?c n src])
  qed
qed

lemma payload_copy_all: "payload_copy_file_bytes (\<lambda>_. True) src dst (length src) = Some (dst @ src)"
proof (induction "length src" arbitrary: src dst rule: less_induct)
  case less
  show ?case
  proof (cases "src = []")
    case True
    then show ?thesis by (simp add: payload_copy_file_bytes.simps)
  next
    case False
    define c where "c = (if length src > SF37_SESSION_IO_CHUNK then SF37_SESSION_IO_CHUNK else length src)"
    have c: "0 < c" "c \<le> length src" using False by (simp_all add: c_def)
    have "payload_copy_file_bytes (\<lambda>_. True) (drop c src) (dst @ take c src) (length (drop c src)) =
        Some ((dst @ take c src) @ drop c src)"
      using False c by (intro less) simp
    then show ?thesis
      using False c by (subst payload_copy_file_bytes.simps) (simp add: c_def [symmetric] not_less)
  qed
qed

lemma payload_read_loop_eq:
  "payload_read_loop n p fp remaining =
     (if n \<le> length fp then Some (p @ take n fp, drop n fp, remaining - of_nat n) else None)"
proof (induction n p fp remaining rule: payload_read_loop.induct)
  case (1 n p fp remaining)
  show ?case
  proof (cases "n = 0")
    case True
    then show ?thesis by (simp add: payload_read_loop.simps)
  next
    case False
    define c where "c = (if n > SF37_SESSION_IO_CHUNK then SF37_SESSION_IO_CHUNK else n)"
    have c: "c \<le> n" by (simp add: c_def)
    have step: "payload_read_loop n p fp remaining =
        (if length fp < c then None
         else payload_read_loop (n - c) (p @ take c fp) (drop c fp) (remaining - of_nat c))"
      using False by (subst payload_read_loop.simps) (simp only: Let_def if_False c_def)
    show ?thesis
    proof (cases "length fp < c")
      case True
      with c show ?thesis by (simp add: step)
    next
      case False2: False
      have ih: "payload_read_loop (n - c) (p @ take c fp) (drop c fp) (remaining - of_nat c) =
          (if n - c \<le> length (drop c fp)
           then Some ((p @ take c fp) @ take (n - c) (drop c fp), drop (n - c) (drop c fp),
             remaining - of_nat c - of_nat (n - c)) else None)"
        using "1.IH" [OF False c_def] False2 by simp
      have w: "remaining - of_nat c - of_nat (n - c) = remaining - of_nat n"
        using c by (simp add: of_nat_diff)
      have le: "n - c \<le> length fp - c \<longleftrightarrow> n \<le> length fp"
        using c False2 by linarith
      show ?thesis
        using c False2 by (simp add: step ih w le take_split [OF c])
    qed
  qed
qed

lemma payload_read_bytes_eq:
  "payload_read_bytes (fp, remaining) n =
     (if n \<le> unat remaining \<and> n \<le> length fp
      then Some (take n fp, drop n fp, remaining - of_nat n) else None)"
  by (auto simp: payload_read_bytes_def payload_read_loop_eq)

text \<open>The bytes the writers produce.\<close>

definition live_pairs :: "sf37_session \<Rightarrow> nat \<Rightarrow> (frow \<times> frow) list" where
  "live_pairs s il =
     (let layer = se_layer s ! il; rows = unat (session_kv_row_counts s ! il); start = lk_n layer - rows
      in zip (take rows (drop start (lk_k layer))) (take rows (drop start (lk_v layer))))"

definition payload_row :: "fp32 \<Rightarrow> frow \<Rightarrow> bytes" where
  "payload_row fpu r = payload_encode_kv_row_i8_grouped fpu r KV_ROW32 SF37_SESSION_PAYLOAD_KV_GROUP"

definition payload_unrow :: "fp32 \<Rightarrow> bytes \<Rightarrow> frow" where
  "payload_unrow fpu b = payload_decode_kv_row_i8_grouped fpu b KV_ROW32 SF37_SESSION_PAYLOAD_KV_GROUP"

definition payload_rows_image :: "fp32 \<Rightarrow> (frow \<times> frow) list \<Rightarrow> bytes" where
  "payload_rows_image fpu rows = concat (map (\<lambda>(k, v). payload_row fpu k @ payload_row fpu v) rows)"

definition payload_image :: "fp32 \<Rightarrow> sf37_session \<Rightarrow> bytes" where
  "payload_image fpu s =
     host_u32s (payload_header s) @ host_u32s (session_kv_row_counts s) @
     host_u32s (map of_int (se_checkpoint s)) @ host_u32s (se_logits s) @ host_u32s (se_hidden s) @
     concat (map (\<lambda>il. payload_rows_image fpu (live_pairs s il)) [0..<SF37_MAIN_LAYERS])"

lemma payload_rows_image_simps [simp]:
  "payload_rows_image fpu [] = []"
  "payload_rows_image fpu ((k, v) # rows) = payload_row fpu k @ payload_row fpu v @ payload_rows_image fpu rows"
  by (simp_all add: payload_rows_image_def)

lemma payload_write_u32s_Some: "payload_write_u32s io fp vs = Some fp' \<Longrightarrow> fp' = fp @ host_u32s vs"
proof (induction vs arbitrary: fp)
  case (Cons v vs)
  then obtain fp1 where "payload_write_u32 io fp v = Some fp1" "payload_write_u32s io fp1 vs = Some fp'"
    by (auto simp: bind_eq_Some_conv)
  with Cons.IH [of fp1] payload_write_bytes_Some [of io fp "host_u32 v" fp1] show ?case
    by (simp add: payload_write_u32_def)
qed simp

lemma payload_write_u32s_ok [simp]: "payload_write_u32s (\<lambda>_. True) fp vs = Some (fp @ host_u32s vs)"
  by (induction vs arbitrary: fp) (simp_all add: payload_write_u32_def)

lemma payload_write_rows_Some:
  "payload_write_rows fpu io fp rows = Some fp' \<Longrightarrow> fp' = fp @ payload_rows_image fpu rows"
proof (induction fpu io fp rows rule: payload_write_rows.induct)
  case (2 fpu io fp k v rows)
  from "2.prems" obtain f1 f2 where
    f: "payload_write_bytes io fp (payload_row fpu k) = Some f1"
      "payload_write_bytes io f1 (payload_row fpu v) = Some f2"
      "payload_write_rows fpu io f2 rows = Some fp'"
    by (auto simp: bind_eq_Some_conv payload_row_def)
  from "2.IH" [OF f(1,2) [unfolded payload_row_def] f(3)] payload_write_bytes_Some [OF f(1)]
    payload_write_bytes_Some [OF f(2)]
  show ?case by simp
qed simp

lemma payload_write_rows_ok [simp]:
  "payload_write_rows fpu (\<lambda>_. True) fp rows = Some (fp @ payload_rows_image fpu rows)"
  by (induction rows arbitrary: fp) (auto simp: payload_row_def)

lemma payload_write_layers_Some:
  "payload_write_layers fpu io s fp ils = Some fp' \<Longrightarrow>
     fp' = fp @ concat (map (\<lambda>il. payload_rows_image fpu (live_pairs s il)) ils)"
proof (induction ils arbitrary: fp)
  case (Cons il ils)
  from Cons.prems obtain f1 where "payload_write_rows fpu io fp (live_pairs s il) = Some f1"
    "payload_write_layers fpu io s f1 ils = Some fp'"
    by (auto simp: bind_eq_Some_conv live_pairs_def Let_def split: if_splits)
  with Cons.IH [of f1] payload_write_rows_Some [of fpu io fp _ f1] show ?case
    by simp
qed simp

lemma payload_write_layers_ok:
  assumes "\<And>il. il \<in> set ils \<Longrightarrow> unat (session_kv_row_counts s ! il) \<le> lk_n (se_layer s ! il)"
  shows "payload_write_layers fpu (\<lambda>_. True) s fp ils =
     Some (fp @ concat (map (\<lambda>il. payload_rows_image fpu (live_pairs s il)) ils))"
  using assms by (induction ils arbitrary: fp) (simp_all add: live_pairs_def Let_def leD)

lemma save_payload_Some:
  assumes "sf37_session_save_payload fpu io s = Some fp"
  shows "fp = payload_image fpu s"
proof -
  from assms obtain f1 f2 f3 f4 f5 where
    w: "payload_write_u32s io [] (payload_header s) = Some f1"
      "payload_write_u32s io f1 (session_kv_row_counts s) = Some f2"
      "payload_write_u32s io f2 (map of_int (se_checkpoint s)) = Some f3"
      "payload_write_bytes io f3 (host_u32s (se_logits s)) = Some f4"
      "payload_write_bytes io f4 (host_u32s (se_hidden s)) = Some f5"
      "payload_write_layers fpu io s f5 [0..<SF37_MAIN_LAYERS] = Some fp"
    by (auto simp: sf37_session_save_payload_def bind_eq_Some_conv split: if_splits)
  from w(1-3) [THEN payload_write_u32s_Some] w(4,5) [THEN payload_write_bytes_Some]
    w(6) [THEN payload_write_layers_Some]
  show ?thesis
    by (simp add: payload_image_def)
qed

lemma save_payload_ok:
  assumes "se_checkpoint_valid s"
    and "\<And>il. il < SF37_MAIN_LAYERS \<Longrightarrow> unat (session_kv_row_counts s ! il) \<le> lk_n (se_layer s ! il)"
  shows "sf37_session_save_payload fpu (\<lambda>_. True) s = Some (payload_image fpu s)"
proof -
  have "payload_write_layers fpu (\<lambda>_. True) s fp [0..<SF37_MAIN_LAYERS] =
      Some (fp @ concat (map (\<lambda>il. payload_rows_image fpu (live_pairs s il)) [0..<SF37_MAIN_LAYERS]))" for fp
    using assms(2) by (intro payload_write_layers_ok) simp
  then show ?thesis
    using assms(1) by (simp add: sf37_session_save_payload_def payload_image_def)
qed

text \<open>A reader at the start of \<open>x\<close>, the rest of its payload, with the trailer \<open>tr\<close> behind.\<close>

definition pst :: "bytes \<Rightarrow> bytes \<Rightarrow> bytes \<times> u64" where
  "pst x tr = (x @ tr, of_nat (length x))"

lemma pst_read:
  assumes "length (b @ x) < 2 ^ 64" and "n = length b"
  shows "payload_read_bytes (pst (b @ x) tr) n = Some (b, pst x tr)"
proof -
  have "of_nat (length (b @ x)) - of_nat (length b) = (of_nat (length x) :: u64)"
    by simp
  then show ?thesis
    using assms by (simp add: pst_def payload_read_bytes_eq unat_of_nat_64 del: of_nat_add)
qed

lemma pst_read_u32s:
  assumes "length (host_u32s vs @ x) < 2 ^ 64" and "n = length vs"
  shows "payload_read_u32s n (pst (host_u32s vs @ x) tr) = Some (vs, pst x tr)"
  using assms
proof (induction vs arbitrary: n)
  case (Cons v vs)
  have "payload_read_u32 (pst (host_u32 v @ host_u32s vs @ x) tr) = Some (v, pst (host_u32s vs @ x) tr)"
    using Cons.prems(1) by (simp add: payload_read_u32_def pst_read)
  then show ?case
    using Cons by simp
qed simp

lemma sint_of_token:
  assumes "0 \<le> t" and "t < int SF37_VOCAB"
  shows "(of_int t :: u32) < of_nat SF37_VOCAB" and "sint (of_int t :: u32) = t"
proof -
  have b: "t < 128896" using assms(2) by (simp add: SF37_VOCAB_def)
  have u: "uint (of_int t :: u32) = t"
    using assms(1) b by (simp add: uint_word_of_int)
  show "(of_int t :: u32) < of_nat SF37_VOCAB"
    using b by (simp add: word_less_def u SF37_VOCAB_def)
  show "sint (of_int t :: u32) = t"
    using assms(1) b by (simp add: int_word_sint)
qed

lemma pst_read_tokens:
  assumes "length (host_u32s (map of_int ts) @ x) < 2 ^ 64" and "n = length ts"
    and "\<And>t. t \<in> set ts \<Longrightarrow> 0 \<le> t \<and> t < int SF37_VOCAB"
  shows "payload_read_tokens n (pst (host_u32s (map of_int ts) @ x) tr) acc = Some (acc @ ts, pst x tr)"
  using assms
proof (induction ts arbitrary: n acc)
  case (Cons t ts)
  have "payload_read_u32 (pst (host_u32 (of_int t) @ host_u32s (map of_int ts) @ x) tr) =
      Some (of_int t, pst (host_u32s (map of_int ts) @ x) tr)"
    using Cons.prems(1) by (simp add: payload_read_u32_def pst_read)
  moreover have "payload_read_tokens (length ts) (pst (host_u32s (map of_int ts) @ x) tr) (acc @ [t]) =
      Some ((acc @ [t]) @ ts, pst x tr)"
    using Cons by (intro Cons.IH) auto
  ultimately show ?case
    using Cons.prems(2) sint_of_token [of t] Cons.prems(3) [of t] by (simp add: sf37_tokens_push_def not_le)
qed simp

subsection \<open>Rows\<close>

lemma kv_groups [simp]: "payload_kv_groups_per_row KV_ROW32 SF37_SESSION_PAYLOAD_KV_GROUP = 16"
  by code_simp

lemma kv_row_bytes [simp]: "payload_encoded_kv_row_bytes KV_ROW32 SF37_SESSION_PAYLOAD_KV_GROUP = 1088"
  by code_simp

lemma group_elems_64:
  assumes "g < 16"
  shows "group_elems KV_ROW32 SF37_SESSION_PAYLOAD_KV_GROUP (of_nat g) = [64 * g..<64 * g + 64]"
proof -
  have "g \<in> set [0..<16]" using assms by simp
  also have "[0..<16] = [0, 1, 2, 3, 4, 5, 6, 7, 8, 9, 10, 11, 12, 13, 14, 15::nat]"
    by (simp add: upt_rec)
  finally show ?thesis
    by (auto simp: group_elems_def KV_ROW32_def SF37_SESSION_PAYLOAD_KV_GROUP_def simp del: upt_Suc)
qed

lemma length_concat_const: "(\<And>x. x \<in> set xs \<Longrightarrow> length (f x) = n) \<Longrightarrow> length (concat (map f xs)) = n * length xs"
  by (induction xs) auto

lemma length_payload_row [simp]: "length (payload_row fpu r) = 1088"
proof -
  have "length (concat (map (\<lambda>g. map (\<lambda>i. quant_i8 fpu (scale g) (r ! i))
      (group_elems KV_ROW32 SF37_SESSION_PAYLOAD_KV_GROUP g)) (map of_nat [0..<16]))) = 64 * length (map of_nat [0..<16] :: u32 list)"
    for scale
    by (rule length_concat_const) (auto simp: group_elems_64)
  then show ?thesis
    by (simp add: payload_row_def payload_encode_kv_row_i8_grouped_def Let_def del: upt_Suc map_map)
qed

lemma length_payload_unrow [simp]: "length (payload_unrow fpu b) = SF37_KV_ROW"
proof -
  have "length (concat (map (\<lambda>g. map (f g) (group_elems KV_ROW32 SF37_SESSION_PAYLOAD_KV_GROUP (of_nat g))) [0..<16]))
      = 64 * length [0..<16]" for f :: "nat \<Rightarrow> nat \<Rightarrow> u32"
    by (rule length_concat_const) (auto simp: group_elems_64)
  then show ?thesis
    by (simp add: payload_unrow_def payload_decode_kv_row_i8_grouped_def Let_def SF37_KV_ROW_def del: upt_Suc)
qed

lemma length_payload_rows_image [simp]: "length (payload_rows_image fpu rows) = 2176 * length rows"
  by (induction rows) auto

text \<open>What a loader leaves in a layer whose rows were \<open>rows\<close>.\<close>

definition load_layer :: "(frow \<Rightarrow> frow) \<Rightarrow> (frow \<times> frow) list \<Rightarrow> layer_kv \<Rightarrow> layer_kv" where
  "load_layer f rows l =
     l\<lparr>lk_k := overwrite (map (f \<circ> fst) rows) (lk_k l),
       lk_v := overwrite (map (f \<circ> snd) rows) (lk_v l), lk_n := length rows\<rparr>"

definition payload_recode :: "fp32 \<Rightarrow> frow \<Rightarrow> frow" where
  "payload_recode fpu r = payload_unrow fpu (payload_row fpu r)"

lemma update_at_end:
  "length a = n \<Longrightarrow> n < length xs \<Longrightarrow> (a @ drop n xs)[n := y] = (a @ [y]) @ drop (Suc n) xs"
  by (simp add: list_update_append Cons_nth_drop_Suc [symmetric])

lemma pst_read_rows:
  assumes "length (payload_rows_image fpu rows @ x) < 2 ^ 64"
    and "length done_rows + length rows \<le> length ks" "length ks = length vs"
    and "layer = l\<lparr>lk_k := map (payload_recode fpu \<circ> fst) done_rows @ drop (length done_rows) ks,
                   lk_v := map (payload_recode fpu \<circ> snd) done_rows @ drop (length done_rows) vs\<rparr>"
  shows "payload_read_rows fpu 1088 (length done_rows) (length rows)
      (pst (payload_rows_image fpu rows @ x) tr) layer =
     (True, pst x tr,
      l\<lparr>lk_k := overwrite (map (payload_recode fpu \<circ> fst) (done_rows @ rows)) ks,
        lk_v := overwrite (map (payload_recode fpu \<circ> snd) (done_rows @ rows)) vs\<rparr>)"
  using assms
proof (induction rows arbitrary: done_rows layer)
  case Nil
  then show ?case
    by (simp add: overwrite_def)
next
  case (Cons kv rows)
  obtain k v where kv [simp]: "kv = (k, v)" by (cases kv)
  let ?n = "length done_rows"
  let ?y = "payload_rows_image fpu rows @ x"
  have len: "length (payload_row fpu k @ payload_row fpu v @ ?y) < 2 ^ 64"
    using Cons.prems(1) by simp
  have r1: "payload_read_bytes (pst (payload_row fpu k @ payload_row fpu v @ ?y) tr) 1088 =
      Some (payload_row fpu k, pst (payload_row fpu v @ ?y) tr)"
    using len by (intro pst_read) simp_all
  have r2: "payload_read_bytes (pst (payload_row fpu v @ ?y) tr) 1088 =
      Some (payload_row fpu v, pst ?y tr)"
    using len by (intro pst_read) simp_all
  let ?d = "done_rows @ [(k, v)]"
  let ?l = "l\<lparr>lk_k := map (payload_recode fpu \<circ> fst) ?d @ drop (length ?d) ks,
       lk_v := map (payload_recode fpu \<circ> snd) ?d @ drop (length ?d) vs\<rparr>"
  have ih: "payload_read_rows fpu 1088 (length ?d) (length rows) (pst ?y tr) ?l =
      (True, pst x tr,
       l\<lparr>lk_k := overwrite (map (payload_recode fpu \<circ> fst) (?d @ rows)) ks,
         lk_v := overwrite (map (payload_recode fpu \<circ> snd) (?d @ rows)) vs\<rparr>)"
    using Cons.prems(1-3) by (intro Cons.IH refl) auto
  show ?case
    using Cons.prems(2-4) ih
    by (simp add: r1 r2 update_at_end payload_recode_def [symmetric] payload_unrow_def [symmetric] o_def)
qed

lemma pst_read_rows0:
  assumes "length (payload_rows_image fpu rows @ x) < 2 ^ 64"
    and "length rows \<le> length (lk_k l)" "length (lk_k l) = length (lk_v l)"
  shows "payload_read_rows fpu 1088 0 (length rows) (pst (payload_rows_image fpu rows @ x) tr) l =
     (True, pst x tr, l\<lparr>lk_k := overwrite (map (payload_recode fpu \<circ> fst) rows) (lk_k l),
        lk_v := overwrite (map (payload_recode fpu \<circ> snd) rows) (lk_v l)\<rparr>)"
  using pst_read_rows [OF assms(1), where done_rows = "[]" and ks = "lk_k l" and vs = "lk_v l"
      and layer = l and l = l] assms(2,3) by simp

lemma foldl_update_upt:
  "n \<le> length xs \<Longrightarrow> foldl (\<lambda>ys i. ys[i := f i (ys ! i)]) xs [0..<n] = map (\<lambda>i. f i (xs ! i)) [0..<n] @ drop n xs"
proof (induction n)
  case (Suc n)
  then show ?case
    by (simp add: nth_append update_at_end)
qed simp

lemma pst_read_layers:
  assumes "length (concat (map (\<lambda>il. payload_rows_image fpu (R il)) ils) @ x) < 2 ^ 64"
    and "\<And>il. il \<in> set ils \<Longrightarrow> unat (rc ! il) = length (R il)"
    and "\<And>il. il \<in> set ils \<Longrightarrow> il < length ls \<and> length (R il) \<le> length (lk_k (ls ! il)) \<and>
          length (lk_k (ls ! il)) = length (lk_v (ls ! il))"
    and "distinct ils"
  shows "payload_read_layers fpu 1088 rc ils
      (pst (concat (map (\<lambda>il. payload_rows_image fpu (R il)) ils) @ x) tr) ls =
     (True, pst x tr, foldl (\<lambda>ls il. ls[il := load_layer (payload_recode fpu) (R il) (ls ! il)]) ls ils)"
  using assms
proof (induction ils arbitrary: ls)
  case (Cons il ils)
  let ?y = "concat (map (\<lambda>il. payload_rows_image fpu (R il)) ils) @ x"
  have r: "payload_read_rows fpu 1088 0 (length (R il)) (pst (payload_rows_image fpu (R il) @ ?y) tr) (ls ! il) =
     (True, pst ?y tr, (ls ! il)\<lparr>lk_k := overwrite (map (payload_recode fpu \<circ> fst) (R il)) (lk_k (ls ! il)),
        lk_v := overwrite (map (payload_recode fpu \<circ> snd) (R il)) (lk_v (ls ! il))\<rparr>)"
    using Cons.prems(1) Cons.prems(3) [of il] by (intro pst_read_rows0) auto
  let ?ls = "ls[il := load_layer (payload_recode fpu) (R il) (ls ! il)]"
  have ih: "payload_read_layers fpu 1088 rc ils (pst ?y tr) ?ls =
     (True, pst x tr, foldl (\<lambda>ls il. ls[il := load_layer (payload_recode fpu) (R il) (ls ! il)]) ?ls ils)"
  proof (rule Cons.IH)
    show "length ?y < 2 ^ 64" using Cons.prems(1) by simp
    show "unat (rc ! i) = length (R i)" if "i \<in> set ils" for i
      using that Cons.prems(2) by simp
    show "i < length ?ls \<and> length (R i) \<le> length (lk_k (?ls ! i)) \<and>
          length (lk_k (?ls ! i)) = length (lk_v (?ls ! i))" if "i \<in> set ils" for i
    proof -
      have "i \<noteq> il" using that Cons.prems(4) by auto
      then show ?thesis using that Cons.prems(3) [of i] by simp
    qed
    show "distinct ils" using Cons.prems(4) by simp
  qed
  show ?case
    using r ih Cons.prems(2) [of il] by (simp add: Let_def load_layer_def)
qed simp

subsection \<open>Sessions within their arrays\<close>

text \<open>The sizes the C arrays have: every row, the logits and the hidden state, the tokens
  within the vocabulary, the caches within the context.\<close>

definition rows_sized :: "layer_kv \<Rightarrow> bool" where
  "rows_sized l \<longleftrightarrow> (\<forall>r \<in> set (lk_k l) \<union> set (lk_v l). length r = SF37_KV_ROW)"

definition layer_sized :: "nat \<Rightarrow> layer_kv \<Rightarrow> bool" where
  "layer_sized cap l \<longleftrightarrow> layer_shape cap l \<and> rows_sized l \<and> lk_n l \<le> cap"

definition session_sized :: "sf37_session \<Rightarrow> bool" where
  "session_sized s \<longleftrightarrow>
     0 < se_ctx_size s \<and> se_ctx_size s \<le> SF37_CTX \<and>
     length (se_layer s) = SF37_MAIN_LAYERS \<and>
     (\<forall>l \<in> set (se_layer s). layer_sized (nat (se_ctx_size s)) l) \<and>
     length (se_logits s) = SF37_VOCAB \<and> length (se_hidden s) = SF37_EMBD \<and>
     (\<forall>t \<in> set (se_checkpoint s). 0 \<le> t \<and> t < int SF37_VOCAB) \<and>
     int (length (se_checkpoint s)) \<le> se_ctx_size s"

text \<open>Every layer holds a row per token, as in every coherent session.\<close>

definition kv_complete :: "sf37_session \<Rightarrow> bool" where
  "kv_complete s \<longleftrightarrow> se_checkpoint_valid s \<and>
     (\<forall>il<SF37_MAIN_LAYERS. lk_n (se_layer s ! il) = length (se_checkpoint s))"

lemma sizedD:
  assumes "session_sized s"
  shows "0 < se_ctx_size s" "se_ctx_size s \<le> 262144" "length (se_layer s) = SF37_MAIN_LAYERS"
    "\<And>il. il < SF37_MAIN_LAYERS \<Longrightarrow> layer_shape (nat (se_ctx_size s)) (se_layer s ! il)"
    "\<And>il. il < SF37_MAIN_LAYERS \<Longrightarrow> layer_sized (nat (se_ctx_size s)) (se_layer s ! il)"
    "length (se_logits s) = SF37_VOCAB" "length (se_hidden s) = SF37_EMBD"
    "\<And>t. t \<in> set (se_checkpoint s) \<Longrightarrow> 0 \<le> t \<and> t < int SF37_VOCAB"
    "int (length (se_checkpoint s)) \<le> se_ctx_size s"
  using assms by (auto simp: session_sized_def SF37_CTX_def layer_sized_def)

lemma coherent_complete: "coherent kn s \<Longrightarrow> se_checkpoint_valid s \<Longrightarrow> kv_complete s"
  using length_ref_state [of kn "se_checkpoint s"]
  by (auto simp: kv_complete_def coherent_def layer_holds_def)

lemma u32_of_small:
  assumes "0 \<le> a" "a \<le> 262144"
  shows "uint (of_int a :: u32) = a"
  using assms by (simp add: uint_word_of_int)

lemma u32_of_nat_small: "n \<le> 262144 \<Longrightarrow> uint (of_nat n :: u32) = int n"
  using u32_of_small [of "int n"] by simp

lemma u32_small_less:
  "0 \<le> a \<Longrightarrow> a \<le> 262144 \<Longrightarrow> 0 \<le> b \<Longrightarrow> b \<le> 262144 \<Longrightarrow> (of_int a :: u32) < of_int b \<longleftrightarrow> a < b"
  by (simp add: word_less_def u32_of_small)

lemma u32_nat_less:
  assumes "n \<le> 262144" "0 \<le> b" "b \<le> 262144"
  shows "(of_nat n :: u32) < of_int b \<longleftrightarrow> int n < b" "of_int b < (of_nat n :: u32) \<longleftrightarrow> b < int n"
  using u32_small_less [of "int n" b] u32_small_less [of b "int n"] assms by simp_all

lemma unat_u32_small: "n \<le> 262144 \<Longrightarrow> unat (of_nat n :: u32) = n"
  by (simp add: unat_of_nat take_bit_nat_eq_self)

lemma ucast_u32_small: "n \<le> 262144 \<Longrightarrow> (ucast (of_nat n :: u32) :: u64) = of_nat n"
  by (rule word_unat_eq_iff [THEN iffD2]) (simp add: unsigned_ucast_eq unat_of_nat take_bit_nat_eq_self_iff)

lemma live_rows:
  assumes sz: "session_sized s" and full: "kv_complete s"
  shows "session_live_kv_rows s = of_nat (length (se_checkpoint s))"
  using sizedD [OF sz] u32_nat_less(2) [of "length (se_checkpoint s)" "se_ctx_size s"]
  by (auto simp: session_live_kv_rows_def Let_def)

lemma row_counts:
  assumes sz: "session_sized s" and full: "kv_complete s" and il: "il < SF37_MAIN_LAYERS"
  shows "session_layer_live_kv_rows s il = of_nat (length (se_checkpoint s))"
    and "session_kv_row_counts s ! il = of_nat (length (se_checkpoint s))"
proof -
  have le: "\<not> (of_int (se_ctx_size s) < (of_nat (length (se_checkpoint s)) :: u32))"
    using sizedD [OF sz] by (subst u32_nat_less) auto
  show *: "session_layer_live_kv_rows s il = of_nat (length (se_checkpoint s))"
    using le full il
    by (auto simp: session_layer_live_kv_rows_def Let_def live_rows [OF sz full]
        session_layer_kv_cap_def kv_complete_def)
  show "session_kv_row_counts s ! il = of_nat (length (se_checkpoint s))"
    using * il by (simp add: session_kv_row_counts_def)
qed

lemma live_pairs_complete:
  assumes sz: "session_sized s" and full: "kv_complete s" and il: "il < SF37_MAIN_LAYERS"
  shows "live_pairs s il = zip (take (length (se_checkpoint s)) (lk_k (se_layer s ! il)))
     (take (length (se_checkpoint s)) (lk_v (se_layer s ! il)))"
    and "length (live_pairs s il) = length (se_checkpoint s)"
  using sizedD(2,9) [OF sz] sizedD(4) [OF sz il] full il row_counts(2) [OF sz full il]
  by (auto simp: live_pairs_def Let_def kv_complete_def unat_u32_small layer_shape_def)

lemma foldl_add_const:
  "(\<And>x. x \<in> set xs \<Longrightarrow> f x = c) \<Longrightarrow> foldl (\<lambda>t x. t + f x) a xs = a + of_nat (length xs) * (c :: u64)"
  by (induction xs arbitrary: a) (auto simp: algebra_simps)

lemma row_sum:
  assumes sz: "session_sized s" and full: "kv_complete s"
  shows "session_live_kv_row_sum s = of_nat (45 * length (se_checkpoint s))"
proof -
  have n: "length (se_checkpoint s) \<le> 262144"
    using sizedD(2,9) [OF sz] by simp
  have "session_live_kv_row_sum s =
      0 + of_nat (length [0..<SF37_MAIN_LAYERS]) * of_nat (length (se_checkpoint s))"
    unfolding session_live_kv_row_sum_def
    by (rule foldl_add_const) (simp add: row_counts(1) [OF sz full] ucast_u32_small n)
  then show ?thesis
    by (simp add: SF37_MAIN_LAYERS_def)
qed

subsection \<open>Loading what was saved\<close>

definition restored :: "(frow \<Rightarrow> frow) \<Rightarrow> sf37_session \<Rightarrow> sf37_session \<Rightarrow> sf37_session" where
  "restored f s s0 =
     (session_clear_image_signature s0)
       \<lparr>se_checkpoint := se_checkpoint s, se_checkpoint_valid := True,
        se_logits := se_logits s, se_hidden := se_hidden s,
        se_layer := map (\<lambda>il. load_layer f (live_pairs s il) (se_layer s0 ! il)) [0..<SF37_MAIN_LAYERS]\<rparr>"

lemma loaded_rows_ok_complete:
  assumes s: "session_sized s" "kv_complete s" and s0: "session_sized s0"
    and ctx: "se_ctx_size s \<le> se_ctx_size s0" and il: "il < SF37_MAIN_LAYERS"
  shows "loaded_rows_ok s0 (of_nat (length (se_checkpoint s))) (session_kv_row_counts s) il"
proof -
  have "\<not> (of_int (se_ctx_size s0) < (of_nat (length (se_checkpoint s)) :: u32))"
    using sizedD(1,2,9) [OF s(1)] sizedD(1,2) [OF s0] ctx by (subst u32_nat_less) auto
  then show ?thesis
    using il by (simp add: loaded_rows_ok_def row_counts(2) [OF s il] session_layer_kv_cap_def Let_def)
qed

lemma payload_header_nth:
  "payload_header s ! 0 = SF37_SESSION_PAYLOAD_MAGIC" "payload_header s ! 1 = SF37_SESSION_PAYLOAD_VERSION"
  "payload_header s ! 2 = of_int (se_ctx_size s)" "payload_header s ! 3 = of_nat (length (se_checkpoint s))"
  "payload_header s ! 4 = session_live_kv_rows s" "payload_header s ! 5 = of_nat SF37_MAIN_LAYERS"
  "payload_header s ! 6 = 8" "payload_header s ! 7 = 128" "payload_header s ! 8 = of_nat SF37_VOCAB"
  "payload_header s ! 9 = of_nat SF37_EMBD" "payload_header s ! 11 = SF37_SESSION_PAYLOAD_KV_I8_GROUPED"
  "payload_header s ! 12 = SF37_SESSION_PAYLOAD_KV_GROUP" "payload_header s ! 13 = 16"
  "payload_header s ! 14 = 1088" "length (payload_header s) = 15"
  by (simp_all add: payload_header_def)

lemma payload_image_parts:
  assumes s: "session_sized s" "kv_complete s"
  shows "length (payload_image fpu s) =
     60 + 4 * SF37_MAIN_LAYERS + 4 * length (se_checkpoint s) + 4 * SF37_VOCAB + 4 * SF37_EMBD +
     SF37_MAIN_LAYERS * (2176 * length (se_checkpoint s))"
    and "length (payload_image fpu s) < 2 ^ 64"
proof -
  have l: "length (concat (map (\<lambda>il. payload_rows_image fpu (live_pairs s il)) [0..<SF37_MAIN_LAYERS])) =
      (2176 * length (se_checkpoint s)) * length [0..<SF37_MAIN_LAYERS]"
    by (rule length_concat_const) (simp add: live_pairs_complete(2) [OF s])
  show *: "length (payload_image fpu s) =
     60 + 4 * SF37_MAIN_LAYERS + 4 * length (se_checkpoint s) + 4 * SF37_VOCAB + 4 * SF37_EMBD +
     SF37_MAIN_LAYERS * (2176 * length (se_checkpoint s))"
    using l sizedD(6,7) [OF s(1)]
    by (simp add: payload_image_def payload_header_nth session_kv_row_counts_def)
  have n: "length (se_checkpoint s) \<le> 262144"
    using sizedD(2,9) [OF s(1)] by simp
  then show "length (payload_image fpu s) < 2 ^ 64"
    by (simp add: * SF37_MAIN_LAYERS_def SF37_VOCAB_def SF37_EMBD_def)
qed

lemma payload_bytes_exact:
  assumes s: "session_sized s" "kv_complete s"
  shows "sf37_session_payload_bytes s = of_nat (length (payload_image fpu s))"
  using s(2) by (simp add: sf37_session_payload_bytes_def kv_complete_def Let_def row_sum [OF s]
      payload_image_parts(1) [OF s] SF37_MAIN_LAYERS_def)

lemma payload_header_ok_image:
  assumes s: "session_sized s" "kv_complete s" and s0: "session_sized s0"
    and ctx: "se_ctx_size s \<le> se_ctx_size s0"
  shows "payload_header_ok s0 (of_nat (length (payload_image fpu s))) (payload_header s) (session_kv_row_counts s)"
proof -
  note b = sizedD(1,2,9) [OF s(1)] sizedD(1,2) [OF s0]
  have c1: "\<not> (of_int (se_ctx_size s0) < (of_int (se_ctx_size s) :: u32))"
    using b ctx by (subst u32_small_less) auto
  have c2: "\<not> (of_int (se_ctx_size s0) < (of_nat (length (se_checkpoint s)) :: u32))"
    using b ctx by (subst u32_nat_less) auto
  have c3: "(if (of_nat (length (se_checkpoint s)) :: u32) < of_int (se_ctx_size s)
        then of_nat (length (se_checkpoint s)) else of_int (se_ctx_size s))
      = (of_nat (length (se_checkpoint s)) :: u32)"
  proof (cases "int (length (se_checkpoint s)) = se_ctx_size s")
    case True
    then have "(of_int (se_ctx_size s) :: u32) = of_nat (length (se_checkpoint s))"
      by (metis of_int_of_nat_eq)
    then show ?thesis by simp
  next
    case False
    then show ?thesis using b by (subst u32_nat_less) auto
  qed
  have n: "length (se_checkpoint s) \<le> 262144"
    using b by simp
  have sum: "foldl (\<lambda>t il. t + ucast (session_kv_row_counts s ! il)) (0 :: u64) [0..<SF37_MAIN_LAYERS] =
      0 + of_nat (length [0..<SF37_MAIN_LAYERS]) * of_nat (length (se_checkpoint s))"
    by (rule foldl_add_const) (simp add: row_counts(2) [OF s] ucast_u32_small n)
  have ok: "list_all (loaded_rows_ok s0 (of_nat (length (se_checkpoint s))) (session_kv_row_counts s)) [0..<SF37_MAIN_LAYERS]"
    using loaded_rows_ok_complete [OF s s0 ctx] by (simp add: list_all_iff)
  have g: "payload_kv_groups_per_row 1024 SF37_SESSION_PAYLOAD_KV_GROUP = 16"
    "payload_encoded_kv_row_bytes 1024 SF37_SESSION_PAYLOAD_KV_GROUP = 1088"
    by code_simp+
  show ?thesis
    using c1 c2 c3 ok
    by (simp add: payload_header_ok_def payload_header_nth live_rows [OF s] Let_def sum [unfolded SF37_MAIN_LAYERS_def] g
        ucast_u32_small n payload_image_parts(1) [OF s] SF37_MAIN_LAYERS_def)
qed


lemma load_payload_image:
  assumes s: "session_sized s" "kv_complete s" and s0: "session_sized s0"
    and ctx: "se_ctx_size s \<le> se_ctx_size s0"
  shows "sf37_session_load_payload fpu s0 (payload_image fpu s @ tr) (of_nat (length (payload_image fpu s)))
     = (restored (payload_recode fpu) s s0, tr, True)"
proof -
  define s1 where "s1 = session_clear_image_signature s0"
  have s1: "se_ctx_size s1 = se_ctx_size s0" "se_layer s1 = se_layer s0" "session_sized s1"
    using s0 by (simp_all add: s1_def session_clear_image_signature_def session_sized_def)
  define x5 where "x5 = concat (map (\<lambda>il. payload_rows_image fpu (live_pairs s il)) [0..<SF37_MAIN_LAYERS])"
  define x4 where "x4 = host_u32s (se_hidden s) @ x5"
  define x3 where "x3 = host_u32s (se_logits s) @ x4"
  define x2 where "x2 = host_u32s (map of_int (se_checkpoint s)) @ x3"
  define x1 where "x1 = host_u32s (session_kv_row_counts s) @ x2"
  have img: "payload_image fpu s = host_u32s (payload_header s) @ x1"
    by (simp add: payload_image_def x1_def x2_def x3_def x4_def x5_def)
  note len = payload_image_parts(2) [OF s, of fpu, unfolded img]
  have len': "length x1 < 2 ^ 64" "length x2 < 2 ^ 64" "length x3 < 2 ^ 64" "length x4 < 2 ^ 64" "length x5 < 2 ^ 64"
    using len by (simp_all add: x1_def x2_def x3_def x4_def)
  have n: "length (se_checkpoint s) \<le> 262144"
    using sizedD(2,9) [OF s(1)] by simp
  have nz: "of_nat (length (payload_image fpu s)) \<noteq> (0 :: u64)"
  proof
    assume "of_nat (length (payload_image fpu s)) = (0 :: u64)"
    then have "unat (of_nat (length (payload_image fpu s)) :: u64) = 0"
      by simp
    then have "length (payload_image fpu s) = 0"
      by (simp only: unat_of_nat_64 [OF payload_image_parts(2) [OF s]])
    then show False
      using payload_image_parts(1) [OF s, of fpu] by simp
  qed
  have r1: "payload_read_u32s 15 (pst (host_u32s (payload_header s) @ x1) tr) = Some (payload_header s, pst x1 tr)"
    using len by (intro pst_read_u32s) (simp_all add: payload_header_nth)
  have r2: "payload_read_u32s SF37_MAIN_LAYERS (pst x1 tr) = Some (session_kv_row_counts s, pst x2 tr)"
    using len'(1) unfolding x1_def by (intro pst_read_u32s) (simp_all add: session_kv_row_counts_def)
  have r3: "payload_read_tokens (unat (payload_header s ! 3)) (pst x2 tr) [] = Some ([] @ se_checkpoint s, pst x3 tr)"
    using len'(2) sizedD(8) [OF s(1)] unfolding x2_def
    by (intro pst_read_tokens) (simp_all add: payload_header_nth unat_u32_small n)
  have hdr: "payload_header_ok s1 (of_nat (length (payload_image fpu s))) (payload_header s) (session_kv_row_counts s)"
    using payload_header_ok_image [OF s s1(3)] ctx by (simp add: s1(1))
  have start: "(payload_image fpu s @ tr, of_nat (length (payload_image fpu s))) = pst (host_u32s (payload_header s) @ x1) tr"
    by (simp add: pst_def img)
  have head: "payload_read_head s1 (payload_image fpu s @ tr) (of_nat (length (payload_image fpu s))) =
      Some (payload_header s, session_kv_row_counts s, se_checkpoint s, pst x3 tr)"
    unfolding payload_read_head_def start r1
    by (simp add: r2 r3 hdr payload_header_nth(1,2) del: One_nat_def)
  have r4: "payload_read_bytes (pst x3 tr) (SF37_VOCAB * 4) = Some (host_u32s (se_logits s), pst x4 tr)"
    using len'(3) sizedD(6) [OF s(1)] unfolding x3_def by (intro pst_read) simp_all
  have r5: "payload_read_bytes (pst x4 tr) (SF37_EMBD * 4) = Some (host_u32s (se_hidden s), pst x5 tr)"
    using len'(4) sizedD(7) [OF s(1)] unfolding x4_def by (intro pst_read) simp_all
  have r6: "payload_read_layers fpu 1088 (session_kv_row_counts s) [0..<SF37_MAIN_LAYERS] (pst (x5 @ []) tr) (se_layer s0) =
      (True, pst [] tr, foldl (\<lambda>ls il. ls[il := load_layer (payload_recode fpu) (live_pairs s il) (ls ! il)])
        (se_layer s0) [0..<SF37_MAIN_LAYERS])"
    unfolding x5_def
  proof (rule pst_read_layers)
    show "length (concat (map (\<lambda>il. payload_rows_image fpu (live_pairs s il)) [0..<SF37_MAIN_LAYERS]) @ []) < 2 ^ 64"
      using len'(5) by (simp add: x5_def)
    fix il assume "il \<in> set [0..<SF37_MAIN_LAYERS]"
    then have il: "il < SF37_MAIN_LAYERS" by simp
    show "unat (session_kv_row_counts s ! il) = length (live_pairs s il)"
      by (simp add: row_counts(2) [OF s il] unat_u32_small n live_pairs_complete(2) [OF s il])
    show "il < length (se_layer s0) \<and> length (live_pairs s il) \<le> length (lk_k (se_layer s0 ! il)) \<and>
        length (lk_k (se_layer s0 ! il)) = length (lk_v (se_layer s0 ! il))"
      using il sizedD(3,1) [OF s0] sizedD(4) [OF s0 il] sizedD(9) [OF s(1)] ctx
      by (simp add: layer_shape_def live_pairs_complete(2) [OF s il])
  qed simp
  have fold: "foldl (\<lambda>ls il. ls[il := load_layer (payload_recode fpu) (live_pairs s il) (ls ! il)])
        (se_layer s0) [0..<SF37_MAIN_LAYERS] =
      map (\<lambda>il. load_layer (payload_recode fpu) (live_pairs s il) (se_layer s0 ! il)) [0..<SF37_MAIN_LAYERS]"
    using foldl_update_upt [of SF37_MAIN_LAYERS "se_layer s0" "\<lambda>il. load_layer (payload_recode fpu) (live_pairs s il)"]
      sizedD(3) [OF s0] by simp
  have lg: "host_get_u32s SF37_VOCAB (host_u32s (se_logits s)) = se_logits s"
    "host_get_u32s SF37_EMBD (host_u32s (se_hidden s)) = se_hidden s"
    using host_get_put_len [OF sizedD(6) [OF s(1)], of "[]"] host_get_put_len [OF sizedD(7) [OF s(1)], of "[]"] by simp_all
  have p0: "pst [] tr = (tr, 0)"
    by (simp add: pst_def)
  have e: "unat (payload_header s ! 14) = 1088"
    by (simp add: payload_header_nth)
  show ?thesis
    unfolding sf37_session_load_payload_def restored_def s1_def [symmetric] Let_def
    by (simp only: nz if_False head r4 r5 option.case prod.case e lg)
      (simp add: p0 s1(2) r6 [unfolded append_Nil2] fold)
qed

subsection \<open>Every call keeps the sizes\<close>

definition kernels_sized :: "kernels \<Rightarrow> bool" where
  "kernels_sized kn \<longleftrightarrow>
     (\<forall>t. length (kn_embed kn t) = SF37_EMBD) \<and>
     (\<forall>il pos h. length (fst (kn_kv kn il pos h)) = SF37_KV_ROW \<and> length (snd (kn_kv kn il pos h)) = SF37_KV_ROW) \<and>
     (\<forall>il pos h ks vs. length (kn_layer kn il pos h ks vs) = SF37_EMBD) \<and>
     (\<forall>h. length (kn_logits kn h) = SF37_VOCAB)"

lemma kernels_sizedD:
  assumes "kernels_sized kn"
  shows "length (kn_embed kn t) = SF37_EMBD" "length (fst (kn_kv kn il pos h)) = SF37_KV_ROW"
    "length (snd (kn_kv kn il pos h)) = SF37_KV_ROW" "length (kn_layer kn il pos h ks vs) = SF37_EMBD"
    "length (kn_logits kn h) = SF37_VOCAB"
  using assms by (auto simp: kernels_sized_def)

lemma set_shift_rows: "set (shift_rows cap rows) \<subseteq> set rows"
  by (auto simp: shift_rows_def dest: in_set_takeD in_set_dropD)

lemma length_shift_rows: "length rows = cap \<Longrightarrow> length (shift_rows cap rows) = cap"
  by (auto simp: shift_rows_def)

lemma push_sized:
  assumes "layer_sized cap l" and "0 < cap" and "length k = SF37_KV_ROW" and "length v = SF37_KV_ROW"
  shows "layer_sized cap (kv_cache_push_row l k v)"
proof -
  have l: "lk_cap l = cap" "length (lk_k l) = cap" "length (lk_v l) = cap" "lk_n l \<le> cap"
    "\<And>r. r \<in> set (lk_k l) \<Longrightarrow> length r = SF37_KV_ROW" "\<And>r. r \<in> set (lk_v l) \<Longrightarrow> length r = SF37_KV_ROW"
    using assms(1) by (auto simp: layer_sized_def layer_shape_def rows_sized_def)
  have sub: "set (xs[i := y]) \<subseteq> insert y (set xs)" for xs :: "frow list" and i y
    by (rule set_update_subset_insert)
  show ?thesis
    using l assms(2-4) set_shift_rows [of cap "lk_k l"] set_shift_rows [of cap "lk_v l"]
    by (auto simp: kv_cache_push_row_def Let_def layer_sized_def layer_shape_def rows_sized_def
        length_shift_rows dest!: subsetD [OF sub])
qed

lemma run_layers_sized:
  assumes kn: "kernels_sized kn" and cap: "0 < cap"
    and "foldl (run_layer_decode kn pos) (ls, h) ils = (ls', h')"
    and "\<forall>l \<in> set ls. layer_sized cap l" and "length h = SF37_EMBD"
    and "\<forall>il \<in> set ils. il < length ls"
  shows "length ls' = length ls \<and> (\<forall>l \<in> set ls'. layer_sized cap l) \<and> length h' = SF37_EMBD"
  using assms(3-6)
proof (induction ils arbitrary: ls h)
  case (Cons il ils)
  obtain k v where kv: "kn_kv kn il pos h = (k, v)" by fastforce
  have len: "length k = SF37_KV_ROW" "length v = SF37_KV_ROW"
    using kernels_sizedD(2,3) [OF kn, of il pos h] kv by simp_all
  have il: "il < length ls" using Cons.prems(4) by simp
  let ?ls = "ls[il := kv_cache_push_row (ls ! il) k v]"
  have push: "layer_sized cap (kv_cache_push_row (ls ! il) k v)"
    using Cons.prems(2) il by (intro push_sized cap len) simp
  have all: "\<forall>l \<in> set ?ls. layer_sized cap l"
    using Cons.prems(2) push set_update_subset_insert [of ls il "kv_cache_push_row (ls ! il) k v"] by auto
  have "length ls' = length ?ls \<and> (\<forall>l \<in> set ls'. layer_sized cap l) \<and> length h' = SF37_EMBD"
    using Cons.prems(1) Cons.prems(4)
    by (intro Cons.IH [OF _ all kernels_sizedD(4) [OF kn]]) (auto simp: run_layer_pair [OF kv])
  then show ?case by simp
qed simp

lemma eval_sized:
  assumes kn: "kernels_sized kn" and "session_sized s"
    and "sf37_session_eval_internal kn s t need = (ok, s')"
  shows "session_sized s' \<and> se_ctx_size s' = se_ctx_size s"
proof (cases ok)
  case False
  then show ?thesis
    using assms eval_failed [of kn s t need s'] by auto
next
  case True
  obtain ls h where run: "foldl (run_layer_decode kn (length (se_checkpoint s))) (se_layer s, kn_embed kn t)
      [0..<SF37_MAIN_LAYERS] = (ls, h)"
    by fastforce
  have s': "s' = s\<lparr>se_layer := ls, se_hidden := h, se_logits := (if need then kn_logits kn h else se_logits s),
      se_checkpoint := se_checkpoint s @ [t], se_checkpoint_valid := True\<rparr>"
    and t: "0 \<le> t" "t < int SF37_VOCAB" "int (length (se_checkpoint s)) < se_ctx_size s"
    using assms(3) True run
    by (auto simp: sf37_session_eval_internal_def sf37_tokens_push_def Let_def split: if_splits)
  have "length ls = length (se_layer s) \<and> (\<forall>l \<in> set ls. layer_sized (nat (se_ctx_size s)) l) \<and> length h = SF37_EMBD"
    using assms(2) by (intro run_layers_sized [OF kn _ run]) (auto simp: session_sized_def kernels_sizedD(1) [OF kn])
  then show ?thesis
    using assms(2) t by (auto simp: s' session_sized_def kernels_sizedD(5) [OF kn])
qed

lemma rewind_sized:
  assumes "session_sized s"
  shows "session_sized (sf37_session_rewind s pos) \<and> se_ctx_size (sf37_session_rewind s pos) = se_ctx_size s"
proof -
  define p where "p = min (nat pos) (length (se_checkpoint s))"
  have s: "se_ctx_size (sf37_session_rewind s pos) = se_ctx_size s"
    "se_layer (sf37_session_rewind s pos) = map (\<lambda>l. l\<lparr>lk_n := p\<rparr>) (se_layer s)"
    "se_checkpoint (sf37_session_rewind s pos) = take p (se_checkpoint s)"
    "se_logits (sf37_session_rewind s pos) = se_logits s" "se_hidden (sf37_session_rewind s pos) = se_hidden s"
    by (auto simp: sf37_session_rewind_def Let_def session_clear_image_signature_def p_def min_def)
  have p: "p \<le> length (se_checkpoint s)" by (simp add: p_def)
  show ?thesis
    using assms p
    by (auto simp: s session_sized_def layer_sized_def layer_shape_def rows_sized_def dest: in_set_takeD)
qed

lemma reset_sized:
  "session_sized s \<Longrightarrow> session_sized (session_reset s) \<and> se_ctx_size (session_reset s) = se_ctx_size s"
  by (auto simp: session_sized_def session_reset_def session_clear_image_signature_def Let_def
      layer_sized_def layer_shape_def rows_sized_def)

lemma signature_sized [simp]:
  "session_sized (session_clear_image_signature s) = session_sized s"
  "session_sized (session_set_image_signature s g) = session_sized s"
  by (simp_all add: session_sized_def session_clear_image_signature_def session_set_image_signature_def)

lemma sync_start_sized:
  "session_sized s \<Longrightarrow> sync_start s prompt sig = (common, s') \<Longrightarrow>
   session_sized s' \<and> se_ctx_size s' = se_ctx_size s"
  by (auto simp: sync_start_def Let_def reset_sized rewind_sized split: if_splits)

lemma sync_loop_sized:
  "kernels_sized kn \<Longrightarrow> session_sized s \<Longrightarrow> sync_eval_loop kn cancel k s ts = (ok, s') \<Longrightarrow>
   session_sized s' \<and> se_ctx_size s' = se_ctx_size s"
proof (induction kn cancel k s ts rule: sync_eval_loop.induct)
  case (2 kn cancel k s t ts)
  obtain ok1 s1 where e: "sf37_session_eval_internal kn s t (ts = []) = (ok1, s1)" by fastforce
  have s1: "session_sized s1 \<and> se_ctx_size s1 = se_ctx_size s"
    using 2 e eval_sized by auto
  show ?case
    using 2 e s1 by (auto split: if_splits)
qed simp

lemma signature_ctx: "se_ctx_size (session_set_image_signature s g) = se_ctx_size s"
  by (simp add: session_set_image_signature_def)

lemma sync_sized:
  assumes kn: "kernels_sized kn" and s: "session_sized s"
    and "sf37_session_sync_multimodal kn ip cancel s prompt features = (ok, s')"
  shows "session_sized s' \<and> se_ctx_size s' = se_ctx_size s"
  using assms(3)
proof (cases rule: sync_cases)
  case early
  then show ?thesis using s by simp
next
  case (images sig common)
  then show ?thesis using sync_start_sized [OF s] by blast
next
  case (run sig common s1 s2 g set)
  then have "session_sized s2 \<and> se_ctx_size s2 = se_ctx_size s"
    using sync_start_sized [OF s run(1)] sync_loop_sized [OF kn _ run(3)] by auto
  then show ?thesis
    using run(4) by (auto simp: signature_ctx split: if_splits)
qed

text \<open>A reader that succeeds has moved inside the file and inside its payload.\<close>

definition consumed :: "bytes \<times> u64 \<Rightarrow> bytes \<times> u64 \<Rightarrow> bool" where
  "consumed st st' \<longleftrightarrow> (\<exists>n. n \<le> length (fst st) \<and> n \<le> unat (snd st) \<and> fst st' = drop n (fst st) \<and>
     unat (snd st') = unat (snd st) - n)"

lemma consumed_refl [simp]: "consumed st st"
  unfolding consumed_def by (rule exI [of _ 0]) simp

lemma consumed_trans [trans]: "consumed a b \<Longrightarrow> consumed b c \<Longrightarrow> consumed a c"
  unfolding consumed_def by (metis (no_types, lifting) add.commute add_leD2 diff_diff_left drop_drop
      length_drop le_diff_conv2)

lemma read_bytes_consumed:
  assumes "payload_read_bytes st n = Some (b, st')"
  shows "consumed st st'" and "length b = n"
proof -
  obtain fp r where st: "st = (fp, r)" by fastforce
  have n: "n \<le> unat r" "n \<le> length fp" "b = take n fp" "st' = (drop n fp, r - of_nat n)"
    using assms by (auto simp: st payload_read_bytes_eq split: if_splits)
  have "n < 2 ^ 64"
    using n(1) unsigned_less [of r, where 'a = nat] by simp
  then have u: "unat (of_nat n :: u64) = n"
    by (rule unat_of_nat_64)
  have "unat (r - of_nat n) = unat r - n"
    using n(1) by (subst unat_sub) (simp_all add: u word_le_nat_alt)
  then show "consumed st st'" "length b = n"
    using n by (auto simp: st consumed_def)
qed

lemma read_u32_consumed: "payload_read_u32 st = Some (v, st') \<Longrightarrow> consumed st st'"
  using read_bytes_consumed(1) by (fastforce simp: payload_read_u32_def)

lemma read_u32s_consumed: "payload_read_u32s n st = Some (vs, st') \<Longrightarrow> consumed st st' \<and> length vs = n"
proof (induction n arbitrary: st vs)
  case (Suc n)
  then obtain v st1 vs1 where "payload_read_u32 st = Some (v, st1)" "payload_read_u32s n st1 = Some (vs1, st')"
    "vs = v # vs1"
    by (auto simp: bind_eq_Some_conv)
  moreover from this have "consumed st1 st' \<and> length vs1 = n"
    using Suc.IH by blast
  ultimately show ?case
    using consumed_trans [OF read_u32_consumed] by auto
qed simp

lemma sint_token_range:
  assumes "\<not> (tok :: u32) \<ge> of_nat SF37_VOCAB"
  shows "0 \<le> sint tok \<and> sint tok < int SF37_VOCAB"
proof -
  have "uint tok < 128896"
    using assms by (simp add: not_le word_less_def SF37_VOCAB_def)
  moreover from this have "sint tok = uint tok"
    using sint_of_token(2) [of "uint tok"] by (simp add: SF37_VOCAB_def)
  ultimately show ?thesis
    by (simp add: SF37_VOCAB_def)
qed

lemma read_tokens_consumed:
  "payload_read_tokens n st acc = Some (ts, st') \<Longrightarrow> \<forall>t \<in> set acc. 0 \<le> t \<and> t < int SF37_VOCAB \<Longrightarrow>
   consumed st st' \<and> length ts = length acc + n \<and> (\<forall>t \<in> set ts. 0 \<le> t \<and> t < int SF37_VOCAB)"
proof (induction n arbitrary: st acc)
  case (Suc n)
  from Suc.prems(1) obtain tok st1 where r: "payload_read_u32 st = Some (tok, st1)"
    "\<not> tok \<ge> of_nat SF37_VOCAB" "payload_read_tokens n st1 (acc @ [sint tok]) = Some (ts, st')"
    by (auto simp: bind_eq_Some_conv sf37_tokens_push_def split: if_splits)
  note tok = sint_token_range [OF r(2)]
  have "consumed st1 st' \<and> length ts = length (acc @ [sint tok]) + n \<and> (\<forall>t \<in> set ts. 0 \<le> t \<and> t < int SF37_VOCAB)"
    using Suc.prems(2) tok by (intro Suc.IH [OF r(3)]) auto
  then show ?case
    using read_u32_consumed [OF r(1)] consumed_trans by auto
qed simp

lemma update_rows_sized:
  assumes "rows_sized l" and "length r = SF37_KV_ROW"
  shows "rows_sized (l\<lparr>lk_k := (lk_k l)[i := r]\<rparr>)" "rows_sized (l\<lparr>lk_v := (lk_v l)[i := r]\<rparr>)"
  using assms set_update_subset_insert [of "lk_k l" i r] set_update_subset_insert [of "lk_v l" i r]
  by (auto simp: rows_sized_def)

lemma update_layer_sized:
  assumes "layer_sized cap l" and "length r = SF37_KV_ROW"
  shows "layer_sized cap (l\<lparr>lk_k := (lk_k l)[i := r]\<rparr>)" "layer_sized cap (l\<lparr>lk_v := (lk_v l)[i := r]\<rparr>)"
  using assms update_rows_sized [of l r i] by (auto simp: layer_sized_def layer_shape_def)

lemma read_rows_sized:
  "payload_read_rows fpu er rr n st l = (ok, st', l') \<Longrightarrow> layer_sized cap l \<Longrightarrow>
   consumed st st' \<and> layer_sized cap l' \<and> lk_n l' = lk_n l"
proof (induction n arbitrary: rr st l)
  case (Suc n)
  show ?case
  proof (cases "payload_read_bytes st er")
    case None
    then show ?thesis using Suc.prems by simp
  next
    case (Some p)
    obtain b st1 where r1: "payload_read_bytes st er = Some (b, st1)" using Some by (cases p) auto
    define l1 where "l1 = l\<lparr>lk_k := (lk_k l)[rr := payload_unrow fpu b]\<rparr>"
    have l1: "layer_sized cap l1" "lk_n l1 = lk_n l"
      using update_layer_sized(1) [OF Suc.prems(2)] by (simp_all add: l1_def)
    show ?thesis
    proof (cases "payload_read_bytes st1 er")
      case None
      then show ?thesis
        using Suc.prems(1) l1 read_bytes_consumed(1) [OF r1]
        by (simp add: r1 payload_unrow_def [symmetric] l1_def [symmetric])
    next
      case (Some p)
      obtain b2 st2 where r2: "payload_read_bytes st1 er = Some (b2, st2)" using Some by (cases p) auto
      define l2 where "l2 = l1\<lparr>lk_v := (lk_v l1)[rr := payload_unrow fpu b2]\<rparr>"
      have l2: "layer_sized cap l2" "lk_n l2 = lk_n l"
        using update_layer_sized(2) [OF l1(1)] l1(2) by (simp_all add: l2_def)
      have "payload_read_rows fpu er (rr + 1) n st2 l2 = (ok, st', l')"
        using Suc.prems(1) by (simp add: r1 r2 payload_unrow_def [symmetric] l1_def l2_def)
      from Suc.IH [OF this l2(1)] show ?thesis
        using l2(2) consumed_trans [OF read_bytes_consumed(1) [OF r1]
            consumed_trans [OF read_bytes_consumed(1) [OF r2]]] by simp
    qed
  qed
qed simp

lemma read_layers_sized:
  "payload_read_layers fpu er rc ils st ls = (ok, st', ls') \<Longrightarrow> \<forall>l \<in> set ls. layer_sized cap l \<Longrightarrow>
   \<forall>il \<in> set ils. il < length ls \<and> unat (rc ! il) \<le> cap \<Longrightarrow> distinct ils \<Longrightarrow>
   consumed st st' \<and> length ls' = length ls \<and> (\<forall>l \<in> set ls'. layer_sized cap l) \<and>
   (ok \<longrightarrow> (\<forall>il \<in> set ils. lk_n (ls' ! il) = unat (rc ! il))) \<and>
   (\<forall>il. il \<notin> set ils \<longrightarrow> ls' ! il = ls ! il)"
proof (induction ils arbitrary: st ls)
  case (Cons il ils)
  obtain ok1 st1 l1 where r: "payload_read_rows fpu er 0 (unat (rc ! il)) st (ls ! il) = (ok1, st1, l1)"
    by (cases "payload_read_rows fpu er 0 (unat (rc ! il)) st (ls ! il)") auto
  have l: "layer_sized cap (ls ! il)" "il < length ls" "unat (rc ! il) \<le> cap"
    using Cons.prems(2,3) by auto
  have l1: "consumed st st1" "layer_sized cap l1" "lk_n l1 = lk_n (ls ! il)"
    using read_rows_sized [OF r l(1)] by auto
  show ?case
  proof (cases ok1)
    case False
    then show ?thesis
      using Cons.prems l1 r set_update_subset_insert [of ls il l1] by (auto simp: Let_def)
  next
    case True
    let ?l = "l1\<lparr>lk_n := unat (rc ! il)\<rparr>"
    have "layer_sized cap ?l"
      using l1(2) l(3) by (auto simp: layer_sized_def layer_shape_def rows_sized_def)
    then have all: "\<forall>l \<in> set (ls[il := ?l]). layer_sized cap l"
      using Cons.prems(2) set_update_subset_insert [of ls il ?l] by auto
    have run: "payload_read_layers fpu er rc ils st1 (ls[il := ?l]) = (ok, st', ls')"
      using Cons.prems(1) True by (simp add: r Let_def)
    have "consumed st1 st' \<and> length ls' = length (ls[il := ?l]) \<and> (\<forall>l \<in> set ls'. layer_sized cap l) \<and>
      (ok \<longrightarrow> (\<forall>il \<in> set ils. lk_n (ls' ! il) = unat (rc ! il))) \<and>
      (\<forall>i. i \<notin> set ils \<longrightarrow> ls' ! i = ls[il := ?l] ! i)"
      using Cons.prems(3,4) by (intro Cons.IH [OF run all]) auto
    moreover have "il \<notin> set ils" using Cons.prems(4) by simp
    ultimately show ?thesis
      using consumed_trans [OF l1(1)] l(2) by auto
  qed
qed simp

text \<open>What a successful header check gives for any row counts.\<close>

lemma unat_ctx: "session_sized s \<Longrightarrow> unat (of_int (se_ctx_size s) :: u32) = nat (se_ctx_size s)"
  using u32_of_small [of "se_ctx_size s"] sizedD(1,2) [of s] by (simp add: unat_eq_nat_uint)

lemma loaded_rows_bound:
  assumes "session_sized s" and "loaded_rows_ok s live rc il" and "il < SF37_MAIN_LAYERS"
  shows "unat (rc ! il) \<le> nat (se_ctx_size s)" "unat (rc ! il) \<le> unat live"
    "layer_is_full il \<Longrightarrow> unat (rc ! il) = unat live"
    "min (unat live) SF37_SLIDING_WINDOW \<le> unat (rc ! il)"
proof -
  note c = sizedD(1) [OF assms(1)] unat_ctx [OF assms(1)]
  have nz: "session_layer_kv_cap s il \<noteq> 0"
    using c assms(3) by (auto simp: session_layer_kv_cap_def unat_eq_0 [symmetric])
  show "unat (rc ! il) \<le> nat (se_ctx_size s)"
    using assms(2,3) c nz by (auto simp: loaded_rows_ok_def Let_def session_layer_kv_cap_def not_less word_le_nat_alt)
  have le: "rc ! il \<le> live"
    using assms(2) by (auto simp: loaded_rows_ok_def Let_def)
  then show "unat (rc ! il) \<le> unat live"
    by (simp add: word_le_nat_alt)
  show "layer_is_full il \<Longrightarrow> unat (rc ! il) = unat live"
    using assms(2) by (auto simp: loaded_rows_ok_def Let_def)
  have w: "unat (of_nat SF37_SLIDING_WINDOW :: u32) = SF37_SLIDING_WINDOW"
    by (simp add: SF37_SLIDING_WINDOW_def)
  show "min (unat live) SF37_SLIDING_WINDOW \<le> unat (rc ! il)"
    using assms(2) by (auto simp: loaded_rows_ok_def Let_def not_less word_le_nat_alt word_less_nat_alt w split: if_splits)
qed

definition loaded_layers :: "tokens \<Rightarrow> layer_kv list \<Rightarrow> bool" where
  "loaded_layers ts ls \<longleftrightarrow> (\<exists>live \<le> length ts. \<forall>il<SF37_MAIN_LAYERS.
     min live SF37_SLIDING_WINDOW \<le> lk_n (ls ! il) \<and> lk_n (ls ! il) \<le> live \<and>
     (layer_is_full il \<longrightarrow> lk_n (ls ! il) = live))"

text \<open>What every load leaves behind, whatever bytes it reads.\<close>

definition load_outcome :: "sf37_session \<Rightarrow> bool \<Rightarrow> sf37_session \<Rightarrow> bool" where
  "load_outcome s ok s' \<longleftrightarrow>
     session_sized s' \<and> se_ctx_size s' = se_ctx_size s \<and>
     (if ok then se_checkpoint_valid s' \<and> loaded_layers (se_checkpoint s') (se_layer s')
      else se_checkpoint s' = se_checkpoint s \<and>
           (se_checkpoint_valid s' \<longrightarrow> se_checkpoint_valid s \<and> se_layer s' = se_layer s))"

lemma outcome_unchanged:
  "session_sized s \<Longrightarrow> load_outcome s False (session_clear_image_signature s)" "session_sized s \<Longrightarrow> load_outcome s False s"
  by (simp_all add: load_outcome_def) (simp_all add: session_clear_image_signature_def)

lemma outcome_logits:
  "session_sized s \<Longrightarrow> length lg = SF37_VOCAB \<Longrightarrow>
   load_outcome s False (session_clear_image_signature s\<lparr>se_logits := lg\<rparr>)"
  by (simp add: load_outcome_def session_clear_image_signature_def session_sized_def)

lemma outcome_hidden:
  "session_sized s \<Longrightarrow> length lg = SF37_VOCAB \<Longrightarrow> length hid = SF37_EMBD \<Longrightarrow>
   load_outcome s False (session_clear_image_signature s\<lparr>se_logits := lg, se_hidden := hid\<rparr>)"
  by (simp add: load_outcome_def session_clear_image_signature_def session_sized_def)

lemma outcome_layers:
  assumes "session_sized s" and "length lg = SF37_VOCAB" and "length hd0 = SF37_EMBD"
    and "length ls = SF37_MAIN_LAYERS" and "\<forall>l \<in> set ls. layer_sized (nat (se_ctx_size s)) l"
  shows "load_outcome s False (session_clear_image_signature s
      \<lparr>se_logits := lg, se_hidden := hd0, se_checkpoint_valid := False, se_layer := ls\<rparr>)"
    and "\<forall>t \<in> set ts. 0 \<le> t \<and> t < int SF37_VOCAB \<Longrightarrow> int (length ts) \<le> se_ctx_size s \<Longrightarrow> loaded_layers ts ls \<Longrightarrow>
      load_outcome s True (session_clear_image_signature s
        \<lparr>se_logits := lg, se_hidden := hd0, se_checkpoint_valid := False, se_layer := ls,
         se_checkpoint := ts, se_checkpoint_valid := True\<rparr>)"
  using assms by (simp_all add: load_outcome_def session_clear_image_signature_def session_sized_def)

lemma loaded_layersI:
  assumes s: "session_sized s" and ok: "list_all (loaded_rows_ok s live rc) [0..<SF37_MAIN_LAYERS]"
    and live: "unat live \<le> length ts" and n: "\<forall>il \<in> set [0..<SF37_MAIN_LAYERS]. lk_n (ls ! il) = unat (rc ! il)"
  shows "loaded_layers ts ls"
  unfolding loaded_layers_def
proof (intro exI [of _ "unat live"] conjI allI impI live)
  fix il assume il: "il < SF37_MAIN_LAYERS"
  then have r: "loaded_rows_ok s live rc il" and e: "lk_n (ls ! il) = unat (rc ! il)"
    using ok n by (simp_all add: list_all_iff)
  from loaded_rows_bound [OF s r il] e
  show "min (unat live) SF37_SLIDING_WINDOW \<le> lk_n (ls ! il)" "lk_n (ls ! il) \<le> unat live"
    "layer_is_full il \<Longrightarrow> lk_n (ls ! il) = unat live"
    by simp_all
qed

lemma loaded_bounds:
  assumes s: "session_sized s" and ok: "list_all (loaded_rows_ok s live rc) [0..<SF37_MAIN_LAYERS]"
    and "\<not> n > of_int (se_ctx_size s)" and "\<not> live > n"
  shows "int (unat n) \<le> se_ctx_size s" "unat live \<le> unat n"
    "\<forall>il \<in> set [0..<SF37_MAIN_LAYERS]. unat (rc ! il) \<le> nat (se_ctx_size s)"
proof -
  have "unat n \<le> nat (se_ctx_size s)" and le: "unat live \<le> unat n"
    using assms(3,4) unat_ctx [OF s] by (simp_all add: not_less word_le_nat_alt)
  then show "int (unat n) \<le> se_ctx_size s"
    using sizedD(1) [OF s] by linarith
  show "unat live \<le> unat n" by (rule le)
  show "\<forall>il \<in> set [0..<SF37_MAIN_LAYERS]. unat (rc ! il) \<le> nat (se_ctx_size s)"
    using ok loaded_rows_bound(1) [OF s] by (auto simp: list_all_iff)
qed

lemma payload_header_okD:
  assumes "payload_header_ok s n h rc" and "session_sized s"
  shows "int (unat (h ! 3)) \<le> se_ctx_size s" "unat (h ! 4) \<le> unat (h ! 3)"
    "list_all (loaded_rows_ok s (h ! 4) rc) [0..<SF37_MAIN_LAYERS]"
    "\<forall>il \<in> set [0..<SF37_MAIN_LAYERS]. unat (rc ! il) \<le> nat (se_ctx_size s)"
proof -
  have "\<not> h ! 3 > of_int (se_ctx_size s)" "\<not> h ! 4 > h ! 3"
    and ok: "list_all (loaded_rows_ok s (h ! 4) rc) [0..<SF37_MAIN_LAYERS]"
    using assms(1) unfolding payload_header_ok_def Let_def by blast+
  then show "int (unat (h ! 3)) \<le> se_ctx_size s" "unat (h ! 4) \<le> unat (h ! 3)"
    "list_all (loaded_rows_ok s (h ! 4) rc) [0..<SF37_MAIN_LAYERS]"
    "\<forall>il \<in> set [0..<SF37_MAIN_LAYERS]. unat (rc ! il) \<le> nat (se_ctx_size s)"
    using loaded_bounds [OF assms(2) ok] by blast+
qed

lemma payload_read_headD:
  assumes "payload_read_head s fp n = Some (h, rc, ts, st)"
  shows "payload_header_ok s n h rc" "consumed (fp, n) st" "length ts = unat (h ! 3)"
    "\<forall>t \<in> set ts. 0 \<le> t \<and> t < int SF37_VOCAB"
proof -
  from assms obtain st1 st2 where r: "payload_read_u32s 15 (fp, n) = Some (h, st1)"
    "payload_read_u32s SF37_MAIN_LAYERS st1 = Some (rc, st2)" "payload_header_ok s n h rc"
    "payload_read_tokens (unat (h ! 3)) st2 [] = Some (ts, st)"
    by (auto simp: payload_read_head_def bind_eq_Some_conv split: if_splits)
  show "payload_header_ok s n h rc" by (rule r(3))
  show "consumed (fp, n) st" "length ts = unat (h ! 3)" "\<forall>t \<in> set ts. 0 \<le> t \<and> t < int SF37_VOCAB"
    using consumed_trans [OF conjunct1 [OF read_u32s_consumed [OF r(1)]]
        consumed_trans [OF conjunct1 [OF read_u32s_consumed [OF r(2)]]]] read_tokens_consumed [OF r(4)]
    by simp_all
qed

lemma length_read_short [simp]: "length (payload_read_short old st) = length old"
  by (simp add: payload_read_short_def split: prod.split)

lemma load_payload_cases:
  assumes "sf37_session_load_payload fpu s fp n = (s', rest, ok)"
  obtains (refused) "\<not> ok" "s' = s \<or> s' = session_clear_image_signature s"
  | (logits) lg where "\<not> ok" "length lg = length (se_logits s)" "s' = session_clear_image_signature s\<lparr>se_logits := lg\<rparr>"
  | (hidden) lg hid where "\<not> ok" "length lg = SF37_VOCAB" "length hid = length (se_hidden s)"
      "s' = session_clear_image_signature s\<lparr>se_logits := lg, se_hidden := hid\<rparr>"
  | (rows) h rc ts st b4 st4 b5 st5 ok6 rem ls s2 where
      "payload_read_head (session_clear_image_signature s) fp n = Some (h, rc, ts, st)"
      "payload_read_bytes st (SF37_VOCAB * 4) = Some (b4, st4)"
      "payload_read_bytes st4 (SF37_EMBD * 4) = Some (b5, st5)"
      "payload_read_layers fpu (unat (h ! 14)) rc [0..<SF37_MAIN_LAYERS] st5 (se_layer s) = (ok6, (rest, rem), ls)"
      "s2 = session_clear_image_signature s\<lparr>se_logits := host_get_u32s SF37_VOCAB b4,
         se_hidden := host_get_u32s SF37_EMBD b5, se_checkpoint_valid := False, se_layer := ls\<rparr>"
      "ok \<longleftrightarrow> ok6 \<and> rem = 0"
      "s' = (if ok then s2\<lparr>se_checkpoint := ts, se_checkpoint_valid := True\<rparr> else s2)"
proof -
  have e: "se_layer (session_clear_image_signature s) = se_layer s" "se_logits (session_clear_image_signature s) = se_logits s"
    "se_hidden (session_clear_image_signature s) = se_hidden s"
    by (simp_all add: session_clear_image_signature_def)
  show thesis
    using assms unfolding sf37_session_load_payload_def Let_def
    by (auto simp: e split: if_splits option.splits prod.splits intro: refused rows logits [OF _ length_read_short]
        hidden [OF _ length_host_get_u32s length_read_short])
qed

lemma load_payload_safe:
  assumes s: "session_sized s" and run: "sf37_session_load_payload fpu s fp n = (s', rest, ok)"
  shows "load_outcome s ok s' \<and> (ok \<longrightarrow> unat n \<le> length fp \<and> rest = drop (unat n) fp)"
  using run
proof (cases rule: load_payload_cases)
  case refused
  then show ?thesis using outcome_unchanged [OF s] by auto
next
  case (logits lg)
  then show ?thesis using outcome_logits [OF s] sizedD(6) [OF s] by simp
next
  case (hidden lg hid)
  then show ?thesis using outcome_hidden [OF s] sizedD(7) [OF s] by simp
next
  case (rows h rc ts st b4 st4 b5 st5 ok6 rem ls s2)
  let ?s1 = "session_clear_image_signature s"
  have s1: "session_sized ?s1" "se_ctx_size ?s1 = se_ctx_size s"
    using s by (simp, simp add: session_clear_image_signature_def)
  note head = payload_read_headD [OF rows(1)]
  note hd1 = payload_header_okD [OF head(1) s1(1), unfolded s1(2)]
  have L: "consumed st5 (rest, rem)" "length ls = SF37_MAIN_LAYERS"
    "\<forall>l \<in> set ls. layer_sized (nat (se_ctx_size s)) l"
    "ok6 \<Longrightarrow> \<forall>il \<in> set [0..<SF37_MAIN_LAYERS]. lk_n (ls ! il) = unat (rc ! il)"
    using read_layers_sized [OF rows(4), of "nat (se_ctx_size s)"] s hd1(4)
    by (auto simp: session_sized_def)
  have c: "consumed (fp, n) (rest, rem)"
    using consumed_trans [OF head(2) consumed_trans [OF read_bytes_consumed(1) [OF rows(2)]
        consumed_trans [OF read_bytes_consumed(1) [OF rows(3)] L(1)]]] .
  show ?thesis
  proof (cases ok)
    case False
    then show ?thesis
      using outcome_layers(1) [OF s _ _ L(2,3)] rows(5,7) by simp
  next
    case True
    then have "loaded_layers ts ls"
      using rows(6) hd1(2) head(3) by (intro loaded_layersI [OF s1(1) hd1(3) _ L(4)]) simp_all
    then show ?thesis
      using outcome_layers(2) [OF s _ _ L(2,3) head(4)] head(3) hd1(1) rows(5-7) True c
      by (auto simp: consumed_def)
  qed
qed

section \<open>The snapshot\<close>

definition snapshot_rows :: "frow list \<Rightarrow> bytes" where
  "snapshot_rows rs = concat (map host_u32s rs)"

definition snapshot_layer_image :: "(frow \<times> frow) list \<Rightarrow> bytes" where
  "snapshot_layer_image rows = snapshot_rows (map fst rows) @ snapshot_rows (map snd rows)"

definition snapshot_image :: "sf37_session \<Rightarrow> bytes" where
  "snapshot_image s =
     host_u32s (snapshot_header s) @ host_u32s (session_kv_row_counts s) @
     host_u32s (map of_int (se_checkpoint s)) @ host_u32s (se_logits s) @ host_u32s (se_hidden s) @
     concat (map (\<lambda>il. snapshot_layer_image (live_pairs s il)) [0..<SF37_MAIN_LAYERS])"

lemma length_snapshot_rows:
  "\<forall>r \<in> set rs. length r = SF37_KV_ROW \<Longrightarrow> length (snapshot_rows rs) = length rs * SF37_KV_ROW * 4"
  by (induction rs) (simp_all add: snapshot_rows_def)

lemma rows_of_bytes_image:
  "\<forall>r \<in> set rs. length r = SF37_KV_ROW \<Longrightarrow> rows_of_bytes (length rs) (snapshot_rows rs @ x) = rs"
proof (induction rs)
  case (Cons r rs)
  let ?y = "snapshot_rows rs @ x"
  have "rows_of_bytes (length (r # rs)) (host_u32s r @ ?y) = host_get_u32s SF37_KV_ROW (host_u32s r @ ?y) # rows_of_bytes (length rs) ?y"
    using Cons.prems
    by (simp add: rows_of_bytes_def upt_conv_Cons map_Suc_upt [symmetric] o_def algebra_simps del: upt_Suc)
  also have "\<dots> = r # rs"
    using Cons by (simp add: host_get_put_len)
  finally show ?case
    by (simp add: snapshot_rows_def)
qed (simp add: rows_of_bytes_def)

lemma snapshot_write_ok:
  "length w + length src \<le> unat cap \<Longrightarrow> snapshot_write_bytes cap w src = Some (w @ src)"
  by (simp add: snapshot_write_bytes_def not_less le_diff_conv2)

lemma snapshot_write_u32s_ok:
  "length w + 4 * length vs \<le> unat cap \<Longrightarrow> snapshot_write_u32s cap w vs = Some (w @ host_u32s vs)"
  by (induction vs arbitrary: w) (simp_all add: snapshot_write_u32_def snapshot_write_ok)

lemma snapshot_write_layers_ok:
  assumes "length w + length (concat (map (\<lambda>il. snapshot_layer_image (live_pairs s il)) ils)) \<le> unat cap"
    and "\<And>il. il \<in> set ils \<Longrightarrow> unat (session_kv_row_counts s ! il) \<le> lk_n (se_layer s ! il) \<and>
       lk_n (se_layer s ! il) \<le> length (lk_k (se_layer s ! il)) \<and>
       length (lk_k (se_layer s ! il)) = length (lk_v (se_layer s ! il))"
  shows "snapshot_write_layers cap s w ils =
     Some (w @ concat (map (\<lambda>il. snapshot_layer_image (live_pairs s il)) ils))"
  using assms
proof (induction ils arbitrary: w)
  case (Cons il ils)
  define rows where "rows = unat (session_kv_row_counts s ! il)"
  define start where "start = lk_n (se_layer s ! il) - rows"
  let ?k = "take rows (drop start (lk_k (se_layer s ! il)))"
  let ?v = "take rows (drop start (lk_v (se_layer s ! il)))"
  have il: "rows \<le> lk_n (se_layer s ! il)" "lk_n (se_layer s ! il) \<le> length (lk_k (se_layer s ! il))"
    "length (lk_k (se_layer s ! il)) = length (lk_v (se_layer s ! il))"
    using Cons.prems(2) [of il] by (simp_all add: rows_def)
  have len: "length ?k = length ?v"
    using il by simp
  have img: "snapshot_layer_image (live_pairs s il) = concat (map host_u32s ?k) @ concat (map host_u32s ?v)"
    using len by (simp add: snapshot_layer_image_def live_pairs_def Let_def rows_def start_def snapshot_rows_def
        map_fst_zip map_snd_zip)
  have fit: "length w + length (concat (map host_u32s ?k)) \<le> unat cap"
    "length (w @ concat (map host_u32s ?k)) + length (concat (map host_u32s ?v)) \<le> unat cap"
    "length ((w @ concat (map host_u32s ?k)) @ concat (map host_u32s ?v)) +
       length (concat (map (\<lambda>il. snapshot_layer_image (live_pairs s il)) ils)) \<le> unat cap"
    using Cons.prems(1) by (simp_all add: img)
  have "snapshot_write_layers cap s ((w @ concat (map host_u32s ?k)) @ concat (map host_u32s ?v)) ils =
      Some (((w @ concat (map host_u32s ?k)) @ concat (map host_u32s ?v)) @
        concat (map (\<lambda>il. snapshot_layer_image (live_pairs s il)) ils))"
    by (rule Cons.IH [OF fit(3)], rule Cons.prems(2)) simp
  then show ?case
    using il(1) by (simp add: Let_def rows_def [symmetric] start_def [symmetric] img
        snapshot_write_ok [OF fit(1)] snapshot_write_ok [OF fit(2), simplified])
qed simp

lemma live_pairs_sized:
  assumes s: "session_sized s" "kv_complete s" and il: "il < SF37_MAIN_LAYERS"
  shows "\<forall>r \<in> set (map fst (live_pairs s il)). length r = SF37_KV_ROW"
    "\<forall>r \<in> set (map snd (live_pairs s il)). length r = SF37_KV_ROW"
proof -
  note l = sizedD(5) [OF s(1) il, unfolded layer_sized_def rows_sized_def] live_pairs_complete(1) [OF s il]
  show "\<forall>r \<in> set (map fst (live_pairs s il)). length r = SF37_KV_ROW"
    using l by (auto dest!: set_zip_leftD dest: in_set_takeD)
  show "\<forall>r \<in> set (map snd (live_pairs s il)). length r = SF37_KV_ROW"
    using l by (auto dest!: set_zip_rightD dest: in_set_takeD)
qed

lemma length_layer_image:
  assumes s: "session_sized s" "kv_complete s" and il: "il < SF37_MAIN_LAYERS"
  shows "length (snapshot_layer_image (live_pairs s il)) = length (se_checkpoint s) * SF37_KV_ROW * 8"
  using length_snapshot_rows [OF live_pairs_sized(1) [OF s il]] length_snapshot_rows [OF live_pairs_sized(2) [OF s il]]
  by (simp add: snapshot_layer_image_def live_pairs_complete(2) [OF s il])

lemma snapshot_image_length:
  assumes s: "session_sized s" "kv_complete s"
  shows "length (snapshot_image s) =
     44 + 4 * SF37_MAIN_LAYERS + 4 * length (se_checkpoint s) + 4 * SF37_VOCAB + 4 * SF37_EMBD +
     SF37_MAIN_LAYERS * (length (se_checkpoint s) * SF37_KV_ROW * 8)"
    and "sf37_session_snapshot_bytes s = of_nat (length (snapshot_image s))"
    and "length (snapshot_image s) < 2 ^ 64"
proof -
  have l: "length (concat (map (\<lambda>il. snapshot_layer_image (live_pairs s il)) [0..<SF37_MAIN_LAYERS])) =
      (length (se_checkpoint s) * SF37_KV_ROW * 8) * length [0..<SF37_MAIN_LAYERS]"
    by (rule length_concat_const) (simp add: length_layer_image [OF s])
  show *: "length (snapshot_image s) =
     44 + 4 * SF37_MAIN_LAYERS + 4 * length (se_checkpoint s) + 4 * SF37_VOCAB + 4 * SF37_EMBD +
     SF37_MAIN_LAYERS * (length (se_checkpoint s) * SF37_KV_ROW * 8)"
    using l sizedD(6,7) [OF s(1)] by (simp add: snapshot_image_def snapshot_header_def session_kv_row_counts_def)
  show "sf37_session_snapshot_bytes s = of_nat (length (snapshot_image s))"
    using s(2) by (simp add: sf37_session_snapshot_bytes_def kv_complete_def Let_def row_sum [OF s] *
        SF37_MAIN_LAYERS_def SF37_KV_ROW_def)
  have "length (se_checkpoint s) \<le> 262144"
    using sizedD(2,9) [OF s(1)] by simp
  then show "length (snapshot_image s) < 2 ^ 64"
    by (simp add: * SF37_MAIN_LAYERS_def SF37_VOCAB_def SF37_EMBD_def SF37_KV_ROW_def)
qed

lemma save_snapshot_eq:
  assumes s: "session_sized s" "kv_complete s"
  shows "sf37_session_save_snapshot realloc_ok snap_cap s =
     (if unat snap_cap < length (snapshot_image s) \<and> \<not> realloc_ok (sf37_session_snapshot_bytes s)
      then None else Some (snapshot_image s))"
proof -
  define n where "n = sf37_session_snapshot_bytes s"
  have un: "unat n = length (snapshot_image s)"
    by (simp add: n_def snapshot_image_length(2) [OF s] unat_of_nat_64 snapshot_image_length(3) [OF s, simplified])
  have n0: "n \<noteq> 0"
    using un snapshot_image_length(1) [OF s] by auto
  define cap where "cap = (if snap_cap < n then n else snap_cap)"
  have cap: "length (snapshot_image s) \<le> unat cap"
    by (auto simp: cap_def un word_less_nat_alt)
  have lt: "snap_cap < n \<longleftrightarrow> unat snap_cap < length (snapshot_image s)"
    by (simp add: word_less_nat_alt un)
  let ?h = "host_u32s (snapshot_header s)"
  let ?r = "host_u32s (session_kv_row_counts s)"
  let ?t = "host_u32s (map of_int (se_checkpoint s))"
  let ?l = "host_u32s (se_logits s)" and ?d = "host_u32s (se_hidden s)"
  let ?x = "concat (map (\<lambda>il. snapshot_layer_image (live_pairs s il)) [0..<SF37_MAIN_LAYERS])"
  have fit: "length ?h + length ?r + length ?t + length ?l + length ?d + length ?x \<le> unat cap"
    using cap by (simp add: snapshot_image_def)
  have w1: "snapshot_write_u32s cap [] (snapshot_header s) = Some ?h"
    using snapshot_write_u32s_ok [of "[]" "snapshot_header s" cap] fit by simp
  have w2: "snapshot_write_u32s cap ?h (session_kv_row_counts s) = Some (?h @ ?r)"
    using fit by (intro snapshot_write_u32s_ok) simp
  have w3: "snapshot_write_u32s cap (?h @ ?r) (map of_int (se_checkpoint s)) = Some ((?h @ ?r) @ ?t)"
    using fit by (intro snapshot_write_u32s_ok) simp
  have w4: "snapshot_write_bytes cap ((?h @ ?r) @ ?t) ?l = Some (((?h @ ?r) @ ?t) @ ?l)"
    using fit by (intro snapshot_write_ok) simp
  have w5: "snapshot_write_bytes cap (((?h @ ?r) @ ?t) @ ?l) ?d = Some ((((?h @ ?r) @ ?t) @ ?l) @ ?d)"
    using fit by (intro snapshot_write_ok) simp
  have w6: "snapshot_write_layers cap s ((((?h @ ?r) @ ?t) @ ?l) @ ?d) [0..<SF37_MAIN_LAYERS] =
      Some (((((?h @ ?r) @ ?t) @ ?l) @ ?d) @ ?x)"
  proof (rule snapshot_write_layers_ok)
    show "length ((((?h @ ?r) @ ?t) @ ?l) @ ?d) + length ?x \<le> unat cap"
      using fit by simp
    fix il assume "il \<in> set [0..<SF37_MAIN_LAYERS]"
    then have il: "il < SF37_MAIN_LAYERS" by simp
    show "unat (session_kv_row_counts s ! il) \<le> lk_n (se_layer s ! il) \<and>
       lk_n (se_layer s ! il) \<le> length (lk_k (se_layer s ! il)) \<and>
       length (lk_k (se_layer s ! il)) = length (lk_v (se_layer s ! il))"
      using row_counts(2) [OF s il] sizedD(2,9) [OF s(1)] sizedD(4,5) [OF s(1) il] s(2) il
      by (simp add: unat_u32_small kv_complete_def layer_shape_def layer_sized_def)
  qed
  have body: "do { w \<leftarrow> snapshot_write_u32s cap [] (snapshot_header s);
               w \<leftarrow> snapshot_write_u32s cap w (session_kv_row_counts s);
               w \<leftarrow> snapshot_write_u32s cap w (map of_int (se_checkpoint s));
               w \<leftarrow> snapshot_write_bytes cap w (host_u32s (se_logits s));
               w \<leftarrow> snapshot_write_bytes cap w (host_u32s (se_hidden s));
               snapshot_write_layers cap s w [0..<SF37_MAIN_LAYERS] } = Some (snapshot_image s)"
    using w1 w2 w3 w4 w5 w6 by (simp add: snapshot_image_def)
  show ?thesis
    using s(2) n0 body unfolding lt [symmetric]
    by (simp add: sf37_session_save_snapshot_def kv_complete_def n_def [symmetric] Let_def cap_def
        split: if_splits)
qed

lemma snap_read: "n = length b \<Longrightarrow> snapshot_read_bytes (b @ x) n = Some (b, x)"
  by (simp add: snapshot_read_bytes_def)

lemma snap_read_u32: "snapshot_read_u32 (host_u32 v @ x) = Some (v, x)"
  by (simp add: snapshot_read_u32_def snap_read)

lemma snap_read_u32s: "n = length vs \<Longrightarrow> snapshot_read_u32s n (host_u32s vs @ x) = Some (vs, x)"
  by (induction vs arbitrary: n) (simp_all add: snap_read_u32)

lemma snap_read_tokens:
  assumes "n = length ts" and "\<And>t. t \<in> set ts \<Longrightarrow> 0 \<le> t \<and> t < int SF37_VOCAB"
  shows "snapshot_read_tokens n (host_u32s (map of_int ts) @ x) acc = Some (acc @ ts, x)"
  using assms
proof (induction ts arbitrary: n acc)
  case (Cons t ts)
  then have "snapshot_read_tokens (length ts) (host_u32s (map of_int ts) @ x) (acc @ [t]) = Some ((acc @ [t]) @ ts, x)"
    by (intro Cons.IH) auto
  then show ?case
    using Cons.prems sint_of_token [of t] by (simp add: snap_read_u32 sf37_tokens_push_def not_le)
qed simp

lemma snap_read_layers:
  assumes "\<And>il. il \<in> set ils \<Longrightarrow> unat (rc ! il) = length (R il) \<and>
      (\<forall>r \<in> set (map fst (R il)). length r = SF37_KV_ROW) \<and> (\<forall>r \<in> set (map snd (R il)). length r = SF37_KV_ROW)"
  shows "snapshot_read_layers rc ils (concat (map (\<lambda>il. snapshot_layer_image (R il)) ils) @ x) ls =
     (True, x, foldl (\<lambda>ls il. ls[il := load_layer id (R il) (ls ! il)]) ls ils)"
  using assms
proof (induction ils arbitrary: ls)
  case (Cons il ils)
  let ?y = "concat (map (\<lambda>il. snapshot_layer_image (R il)) ils) @ x"
  note il = Cons.prems [of il, simplified]
  have r1: "snapshot_read_bytes (snapshot_rows (map fst (R il)) @ snapshot_rows (map snd (R il)) @ ?y)
      (length (R il) * SF37_KV_ROW * 4) = Some (snapshot_rows (map fst (R il)), snapshot_rows (map snd (R il)) @ ?y)"
    using length_snapshot_rows [of "map fst (R il)"] il by (intro snap_read) simp
  have r2: "snapshot_read_bytes (snapshot_rows (map snd (R il)) @ ?y)
      (length (R il) * SF37_KV_ROW * 4) = Some (snapshot_rows (map snd (R il)), ?y)"
    using length_snapshot_rows [of "map snd (R il)"] il by (intro snap_read) simp
  have p1: "rows_of_bytes (length (R il)) (snapshot_rows (map fst (R il))) = map fst (R il)"
    using rows_of_bytes_image [of "map fst (R il)" "[]"] il by simp
  have p2: "rows_of_bytes (length (R il)) (snapshot_rows (map snd (R il))) = map snd (R il)"
    using rows_of_bytes_image [of "map snd (R il)" "[]"] il by simp
  have ih: "snapshot_read_layers rc ils ?y (ls[il := load_layer id (R il) (ls ! il)]) =
      (True, x, foldl (\<lambda>ls il. ls[il := load_layer id (R il) (ls ! il)]) (ls[il := load_layer id (R il) (ls ! il)]) ils)"
    using Cons.prems by (intro Cons.IH) auto
  show ?case
    using ih il by (simp add: snapshot_layer_image_def [of "R il"] Let_def r1 r2 p1 p2 id_def o_def load_layer_def [of "\<lambda>a. a" "R il" "ls ! il"])
qed simp


lemma snapshot_header_nth:
  "snapshot_header s ! 0 = SF37_SESSION_SNAPSHOT_MAGIC" "snapshot_header s ! 1 = SF37_SESSION_SNAPSHOT_VERSION"
  "snapshot_header s ! 2 = of_int (se_ctx_size s)" "snapshot_header s ! 3 = of_nat (length (se_checkpoint s))"
  "snapshot_header s ! 4 = session_live_kv_rows s" "snapshot_header s ! 5 = of_nat SF37_MAIN_LAYERS"
  "snapshot_header s ! 6 = 8" "snapshot_header s ! 7 = 128" "snapshot_header s ! 8 = of_nat SF37_VOCAB"
  "snapshot_header s ! 9 = of_nat SF37_EMBD" "length (snapshot_header s) = 11"
  by (simp_all add: snapshot_header_def)

lemma token_count_word:
  assumes "session_sized s"
  shows "(if (of_nat (length (se_checkpoint s)) :: u32) < of_int (se_ctx_size s)
        then of_nat (length (se_checkpoint s)) else of_int (se_ctx_size s))
      = (of_nat (length (se_checkpoint s)) :: u32)"
proof (cases "int (length (se_checkpoint s)) = se_ctx_size s")
  case True
  then have "(of_int (se_ctx_size s) :: u32) = of_nat (length (se_checkpoint s))"
    by (metis of_int_of_nat_eq)
  then show ?thesis by simp
next
  case False
  then show ?thesis using sizedD(1,2,9) [OF assms] by (subst u32_nat_less) auto
qed

lemma load_snapshot_image:
  assumes s: "session_sized s" "kv_complete s" and s0: "session_sized s0"
    and ctx: "se_ctx_size s0 = se_ctx_size s"
  shows "sf37_session_load_snapshot s0 (snapshot_image s) = (True, restored id s s0)"
proof -
  define s1 where "s1 = session_clear_image_signature s0"
  have s1: "se_ctx_size s1 = se_ctx_size s" "se_layer s1 = se_layer s0" "session_sized s1"
    using s0 ctx by (simp_all add: s1_def) (simp_all add: session_clear_image_signature_def)
  define x5 where "x5 = concat (map (\<lambda>il. snapshot_layer_image (live_pairs s il)) [0..<SF37_MAIN_LAYERS])"
  define x3 where "x3 = host_u32s (se_logits s) @ host_u32s (se_hidden s) @ x5"
  have img: "snapshot_image s = host_u32s (snapshot_header s) @ host_u32s (session_kv_row_counts s) @
      host_u32s (map of_int (se_checkpoint s)) @ x3"
    by (simp add: snapshot_image_def x3_def x5_def)
  have n: "length (se_checkpoint s) \<le> 262144"
    using sizedD(2,9) [OF s(1)] by simp
  have le: "\<not> (of_int (se_ctx_size s) < (of_nat (length (se_checkpoint s)) :: u32))"
    using sizedD(1,2,9) [OF s(1)] by (subst u32_nat_less) auto
  have hok: "snapshot_header_ok s1 (snapshot_header s) (session_kv_row_counts s)"
    using loaded_rows_ok_complete [OF s s1(3)] le token_count_word [OF s(1)]
    by (auto simp: snapshot_header_ok_def snapshot_header_nth s1(1) Let_def live_rows [OF s] list_all_iff)
  have head: "snapshot_read_head s1 (snapshot_image s) = Some (session_kv_row_counts s, se_checkpoint s, x3)"
    using hok sizedD(8) [OF s(1)]
    by (simp add: snapshot_read_head_def img snap_read_u32s snapshot_header_nth session_kv_row_counts_def [THEN arg_cong, of length]
        snap_read_tokens unat_u32_small n del: One_nat_def)
  have r4: "snapshot_read_bytes x3 (SF37_VOCAB * 4) = Some (host_u32s (se_logits s), host_u32s (se_hidden s) @ x5)"
    using sizedD(6) [OF s(1)] unfolding x3_def by (intro snap_read) simp
  have r5: "snapshot_read_bytes (host_u32s (se_hidden s) @ x5) (SF37_EMBD * 4) = Some (host_u32s (se_hidden s), x5)"
    using sizedD(7) [OF s(1)] by (intro snap_read) simp
  have r6: "snapshot_read_layers (session_kv_row_counts s) [0..<SF37_MAIN_LAYERS] (x5 @ []) (se_layer s0) =
      (True, [], foldl (\<lambda>ls il. ls[il := load_layer id (live_pairs s il) (ls ! il)]) (se_layer s0) [0..<SF37_MAIN_LAYERS])"
    unfolding x5_def
  proof (rule snap_read_layers)
    fix il assume "il \<in> set [0..<SF37_MAIN_LAYERS]"
    then have il: "il < SF37_MAIN_LAYERS" by simp
    show "unat (session_kv_row_counts s ! il) = length (live_pairs s il) \<and>
      (\<forall>r \<in> set (map fst (live_pairs s il)). length r = SF37_KV_ROW) \<and>
      (\<forall>r \<in> set (map snd (live_pairs s il)). length r = SF37_KV_ROW)"
      using live_pairs_sized [OF s il]
      by (simp add: row_counts(2) [OF s il] unat_u32_small n live_pairs_complete(2) [OF s il])
  qed
  have fold: "foldl (\<lambda>ls il. ls[il := load_layer id (live_pairs s il) (ls ! il)]) (se_layer s0) [0..<SF37_MAIN_LAYERS] =
      map (\<lambda>il. load_layer id (live_pairs s il) (se_layer s0 ! il)) [0..<SF37_MAIN_LAYERS]"
    using foldl_update_upt [of SF37_MAIN_LAYERS "se_layer s0" "\<lambda>il. load_layer id (live_pairs s il)"]
      sizedD(3) [OF s0] by simp
  have lg: "host_get_u32s SF37_VOCAB (host_u32s (se_logits s)) = se_logits s"
    "host_get_u32s SF37_EMBD (host_u32s (se_hidden s)) = se_hidden s"
    using host_get_put_len [OF sizedD(6) [OF s(1)], of "[]"] host_get_put_len [OF sizedD(7) [OF s(1)], of "[]"] by simp_all
  have ne: "snapshot_image s \<noteq> []"
    using snapshot_image_length(1) [OF s] by (auto simp: SF37_MAIN_LAYERS_def)
  show ?thesis
    unfolding sf37_session_load_snapshot_def restored_def s1_def [symmetric] Let_def
    by (simp only: ne if_False head r4 r5 option.case prod.case lg)
      (simp add: s1(2) r6 [unfolded append_Nil2] fold)
qed

text \<open>Any bytes at all may be offered as a snapshot.\<close>

lemma snap_read_tokens_range:
  "snapshot_read_tokens n r acc = Some (ts, r') \<Longrightarrow> \<forall>t \<in> set acc. 0 \<le> t \<and> t < int SF37_VOCAB \<Longrightarrow>
   length ts = length acc + n \<and> (\<forall>t \<in> set ts. 0 \<le> t \<and> t < int SF37_VOCAB)"
proof (induction n arbitrary: r acc)
  case (Suc n)
  from Suc.prems(1) obtain tok r1 where u: "snapshot_read_u32 r = Some (tok, r1)"
    and r: "\<not> tok \<ge> of_nat SF37_VOCAB" "snapshot_read_tokens n r1 (acc @ [sint tok]) = Some (ts, r')"
    by (auto simp: bind_eq_Some_conv sf37_tokens_push_def split: if_splits)
  have "length ts = length (acc @ [sint tok]) + n \<and> (\<forall>t \<in> set ts. 0 \<le> t \<and> t < int SF37_VOCAB)"
    using Suc.prems(2) sint_token_range [OF r(1)] by (intro Suc.IH [OF r(2)]) auto
  then show ?case by simp
qed simp

lemma overwrite_sized:
  "length rs \<le> length xs \<Longrightarrow> length (overwrite rs xs) = length xs"
  "set (overwrite rs xs) \<subseteq> set rs \<union> set xs"
  by (auto simp: overwrite_def dest: in_set_dropD)

lemma rows_of_bytes_sized [simp]:
  "length (rows_of_bytes n b) = n" "\<forall>r \<in> set (rows_of_bytes n b). length r = SF37_KV_ROW"
  by (auto simp: rows_of_bytes_def)

lemma overwrite_layer_sized:
  assumes "layer_sized cap l" and "n \<le> cap"
  shows "layer_sized cap (l\<lparr>lk_k := overwrite (rows_of_bytes n b) (lk_k l)\<rparr>)"
    "layer_sized cap (l\<lparr>lk_v := overwrite (rows_of_bytes n b) (lk_v l), lk_n := n\<rparr>)"
  using assms rows_of_bytes_sized(2) [of n b] overwrite_sized(2) [of "rows_of_bytes n b" "lk_k l"]
    overwrite_sized(2) [of "rows_of_bytes n b" "lk_v l"]
  by (auto simp: layer_sized_def layer_shape_def rows_sized_def overwrite_sized(1) simp del: rows_of_bytes_sized(2))

lemma snap_layers_sized:
  "snapshot_read_layers rc ils r ls = (ok, r', ls') \<Longrightarrow> \<forall>l \<in> set ls. layer_sized cap l \<Longrightarrow>
   \<forall>il \<in> set ils. il < length ls \<and> unat (rc ! il) \<le> cap \<Longrightarrow> distinct ils \<Longrightarrow>
   length ls' = length ls \<and> (\<forall>l \<in> set ls'. layer_sized cap l) \<and>
   (ok \<longrightarrow> (\<forall>il \<in> set ils. lk_n (ls' ! il) = unat (rc ! il))) \<and> (\<forall>il. il \<notin> set ils \<longrightarrow> ls' ! il = ls ! il)"
proof (induction ils arbitrary: r ls)
  case (Cons il ils)
  define n where "n = unat (rc ! il)"
  have l: "layer_sized cap (ls ! il)" "il < length ls" "n \<le> cap"
    using Cons.prems(2,3) by (auto simp: n_def)
  have upd: "\<forall>l \<in> set (ls[il := l']). layer_sized cap l" if "layer_sized cap l'" for l'
    using Cons.prems(2) that set_update_subset_insert [of ls il l'] by auto
  have il: "il \<notin> set ils" using Cons.prems(4) by simp
  show ?case
  proof (cases "snapshot_read_bytes r (n * SF37_KV_ROW * 4)")
    case None
    then show ?thesis using Cons.prems by (simp add: Let_def n_def [symmetric])
  next
    case (Some p)
    then obtain b r1 where r1: "snapshot_read_bytes r (n * SF37_KV_ROW * 4) = Some (b, r1)" by (cases p) auto
    define l1 where "l1 = (ls ! il)\<lparr>lk_k := overwrite (rows_of_bytes n b) (lk_k (ls ! il))\<rparr>"
    have l1: "layer_sized cap l1" unfolding l1_def by (rule overwrite_layer_sized [OF l(1,3)])
    show ?thesis
    proof (cases "snapshot_read_bytes r1 (n * SF37_KV_ROW * 4)")
      case None
      then show ?thesis
        using Cons.prems upd [OF l1] r1 by (auto simp: Let_def n_def [symmetric] l1_def [symmetric])
    next
      case (Some p)
      then obtain b2 r2 where r2: "snapshot_read_bytes r1 (n * SF37_KV_ROW * 4) = Some (b2, r2)" by (cases p) auto
      define l2 where "l2 = l1\<lparr>lk_v := overwrite (rows_of_bytes n b2) (lk_v l1), lk_n := n\<rparr>"
      have l2: "layer_sized cap l2" unfolding l2_def by (rule overwrite_layer_sized [OF l1 l(3)])
      have run: "snapshot_read_layers rc ils r2 (ls[il := l2]) = (ok, r', ls')"
        using Cons.prems(1) r1 r2 by (simp add: Let_def n_def [symmetric] l1_def [symmetric] l2_def [symmetric])
      have "length ls' = length (ls[il := l2]) \<and> (\<forall>l \<in> set ls'. layer_sized cap l) \<and>
        (ok \<longrightarrow> (\<forall>il \<in> set ils. lk_n (ls' ! il) = unat (rc ! il))) \<and>
        (\<forall>i. i \<notin> set ils \<longrightarrow> ls' ! i = ls[il := l2] ! i)"
        using Cons.prems(3,4) by (intro Cons.IH [OF run upd [OF l2]]) auto
      moreover have "lk_n l2 = n" by (simp add: l2_def)
      ultimately show ?thesis
        using l(2) il by (auto simp: n_def)
    qed
  qed
qed simp

lemma snapshot_header_okD:
  assumes "snapshot_header_ok s h rc" and "session_sized s"
  shows "int (unat (h ! 3)) \<le> se_ctx_size s" "unat (h ! 4) \<le> unat (h ! 3)"
    "list_all (loaded_rows_ok s (h ! 4) rc) [0..<SF37_MAIN_LAYERS]"
    "\<forall>il \<in> set [0..<SF37_MAIN_LAYERS]. unat (rc ! il) \<le> nat (se_ctx_size s)"
proof -
  have "\<not> h ! 3 > of_int (se_ctx_size s)" "\<not> h ! 4 > h ! 3"
    and ok: "list_all (loaded_rows_ok s (h ! 4) rc) [0..<SF37_MAIN_LAYERS]"
    using assms(1) unfolding snapshot_header_ok_def Let_def by blast+
  then show "int (unat (h ! 3)) \<le> se_ctx_size s" "unat (h ! 4) \<le> unat (h ! 3)"
    "list_all (loaded_rows_ok s (h ! 4) rc) [0..<SF37_MAIN_LAYERS]"
    "\<forall>il \<in> set [0..<SF37_MAIN_LAYERS]. unat (rc ! il) \<le> nat (se_ctx_size s)"
    using loaded_bounds [OF assms(2) ok] by blast+
qed

lemma load_snapshot_cases:
  assumes "sf37_session_load_snapshot s snap = (ok, s')"
  obtains (refused) "\<not> ok" "s' = s \<or> s' = session_clear_image_signature s"
  | (logits) lg where "\<not> ok" "length lg = SF37_VOCAB" "s' = session_clear_image_signature s\<lparr>se_logits := lg\<rparr>"
  | (rows) rc ts r b4 b5 r5 ok6 rest ls s2 where
      "snapshot_read_head (session_clear_image_signature s) snap = Some (rc, ts, r)"
      "snapshot_read_layers rc [0..<SF37_MAIN_LAYERS] r5 (se_layer s) = (ok6, rest, ls)"
      "s2 = session_clear_image_signature s\<lparr>se_logits := host_get_u32s SF37_VOCAB b4,
         se_hidden := host_get_u32s SF37_EMBD b5, se_checkpoint_valid := False, se_layer := ls\<rparr>"
      "ok \<longleftrightarrow> ok6 \<and> rest = []"
      "s' = (if ok then s2\<lparr>se_checkpoint := ts, se_checkpoint_valid := True\<rparr> else s2)"
proof -
  have e: "se_layer (session_clear_image_signature s) = se_layer s"
    by (simp add: session_clear_image_signature_def)
  show thesis
    using assms unfolding sf37_session_load_snapshot_def Let_def
    by (auto simp: e split: if_splits option.splits prod.splits intro: refused rows
        logits [OF _ length_host_get_u32s])
qed

lemma load_snapshot_safe:
  assumes s: "session_sized s" and run: "sf37_session_load_snapshot s snap = (ok, s')"
  shows "load_outcome s ok s'"
  using run
proof (cases rule: load_snapshot_cases)
  case refused
  then show ?thesis using outcome_unchanged [OF s] by auto
next
  case (logits lg)
  then show ?thesis using outcome_logits [OF s] by simp
next
  case (rows rc ts r b4 b5 r5 ok6 rest ls s2)
  let ?s1 = "session_clear_image_signature s"
  have s1: "session_sized ?s1" "se_ctx_size ?s1 = se_ctx_size s"
    using s by (simp, simp add: session_clear_image_signature_def)
  from rows(1) obtain h r1 r2 where head: "snapshot_header_ok ?s1 h rc"
    "snapshot_read_tokens (unat (h ! 3)) r2 [] = Some (ts, r)"
    by (auto simp: snapshot_read_head_def bind_eq_Some_conv split: if_splits)
  note hd1 = snapshot_header_okD [OF head(1) s1(1), unfolded s1(2)]
  have ts: "length ts = unat (h ! 3)" "\<forall>t \<in> set ts. 0 \<le> t \<and> t < int SF37_VOCAB"
    using snap_read_tokens_range [OF head(2)] by simp_all
  have L: "length ls = SF37_MAIN_LAYERS" "\<forall>l \<in> set ls. layer_sized (nat (se_ctx_size s)) l"
    "ok6 \<Longrightarrow> \<forall>il \<in> set [0..<SF37_MAIN_LAYERS]. lk_n (ls ! il) = unat (rc ! il)"
    using snap_layers_sized [OF rows(2), of "nat (se_ctx_size s)"] s hd1(4)
    by (auto simp: session_sized_def)
  show ?thesis
  proof (cases ok)
    case False
    then show ?thesis
      using outcome_layers(1) [OF s _ _ L(1,2)] rows(3,5) by simp
  next
    case True
    then have "loaded_layers ts ls"
      using rows(4) hd1(2) ts(1) by (intro loaded_layersI [OF s1(1) hd1(3) _ L(3)]) simp_all
    then show ?thesis
      using outcome_layers(2) [OF s _ _ L(1,2) ts(2)] ts(1) hd1(1) rows(3-5) True by auto
  qed
qed

end
