(* ===== verification/SnapshotProps.thy ===== *)
theory SnapshotProps
  imports SnapshotLemmas
begin

section \<open>Properties of saved sessions\<close>

text \<open>
  A snapshot restores the session exactly and a payload restores it up to the quantisation
  of its rows; loading arbitrary bytes is safe; and the sizes of all arrays are an invariant
  of every sequence of calls, loads of arbitrary bytes included. The witnesses use kernels of
  the full sizes whose rows are constant.
\<close>

lemma take_overwrite: "length rs = n \<Longrightarrow> take n (overwrite rs xs) = rs"
  by (simp add: overwrite_def)

lemma restored_layer:
  assumes s: "session_sized s" "kv_complete s" and il: "il < SF37_MAIN_LAYERS"
  defines "n \<equiv> length (se_checkpoint s)"
  shows "lk_n (se_layer (restored f s s0) ! il) = n"
    "take n (lk_k (se_layer (restored f s s0) ! il)) = map f (take n (lk_k (se_layer s ! il)))"
    "take n (lk_v (se_layer (restored f s s0) ! il)) = map f (take n (lk_v (se_layer s ! il)))"
proof -
  have len: "length (live_pairs s il) = n"
    by (simp add: n_def live_pairs_complete(2) [OF s il])
  have l: "length (take n (lk_k (se_layer s ! il))) = length (take n (lk_v (se_layer s ! il)))"
    using sizedD(4) [OF s(1) il] by (simp add: layer_shape_def)
  have p: "map (f \<circ> fst) (live_pairs s il) = map f (take n (lk_k (se_layer s ! il)))"
    "map (f \<circ> snd) (live_pairs s il) = map f (take n (lk_v (se_layer s ! il)))"
    using l by (simp_all add: live_pairs_complete(1) [OF s il] n_def map_fst_zip map_snd_zip flip: map_map)
  have t: "take n (overwrite (map g (live_pairs s il)) xs) = map g (live_pairs s il)"
    for g :: "frow \<times> frow \<Rightarrow> frow" and xs
    using len by (intro take_overwrite) simp
  have e: "se_layer (restored f s s0) ! il = load_layer f (live_pairs s il) (se_layer s0 ! il)"
    using il by (simp add: restored_def)
  show "lk_n (se_layer (restored f s s0) ! il) = n"
    by (simp add: e load_layer_def len)
  show "take n (lk_k (se_layer (restored f s s0) ! il)) = map f (take n (lk_k (se_layer s ! il)))"
    by (simp add: e load_layer_def t flip: p(1))
  show "take n (lk_v (se_layer (restored f s s0) ! il)) = map f (take n (lk_v (se_layer s ! il)))"
    by (simp add: e load_layer_def t flip: p(2))
qed

lemma restored_fields:
  "se_checkpoint (restored f s s0) = se_checkpoint s" "se_checkpoint_valid (restored f s s0)"
  "se_logits (restored f s s0) = se_logits s" "se_hidden (restored f s s0) = se_hidden s"
  "se_ctx_size (restored f s s0) = se_ctx_size s0" "length (se_layer (restored f s s0)) = SF37_MAIN_LAYERS"
  by (simp_all add: restored_def session_clear_image_signature_def)

lemma restored_shape:
  assumes s: "session_sized s" "kv_complete s" and s0: "session_sized s0"
    and ctx: "se_ctx_size s \<le> se_ctx_size s0" and il: "il < SF37_MAIN_LAYERS"
  shows "layer_shape (nat (se_ctx_size s0)) (se_layer (restored f s s0) ! il)"
  using sizedD(4) [OF s0 il] sizedD(9) [OF s(1)] ctx live_pairs_complete(2) [OF s il] il
  by (simp add: restored_def layer_shape_def load_layer_def overwrite_def)

lemma restored_coherent:
  assumes s: "session_sized s" and c: "coherent kn s" and v: "se_checkpoint_valid s"
    and s0: "session_sized s0" and ctx: "se_ctx_size s0 = se_ctx_size s"
  shows "coherent kn (restored id s s0)"
proof -
  note full = coherent_complete [OF c v]
  have "layer_holds (fst (ref_state kn (se_checkpoint s)) ! il) (se_layer (restored id s s0) ! il)"
    if il: "il < SF37_MAIN_LAYERS" for il
    using coherentD(5) [OF c v il] full il
    unfolding layer_holds_def restored_layer [OF s full il] list.map_id kv_complete_def by metis
  then show ?thesis
    using restored_shape [OF s full s0] ctx sizedD(1,9) [OF s]
    by (simp add: coherent_def restored_fields)
qed

inductive api_reachable :: "kernels \<Rightarrow> fp32 \<Rightarrow> sf37_session \<Rightarrow> bool" for kn fpu where
  api_created: "length h = SF37_EMBD \<Longrightarrow> length l = SF37_VOCAB \<Longrightarrow>
    sf37_session_create h l n = Some s \<Longrightarrow> api_reachable kn fpu s"
| api_called: "api_reachable kn fpu s \<Longrightarrow> session_step kn s s' \<Longrightarrow> api_reachable kn fpu s'"
| api_snapshot: "api_reachable kn fpu s \<Longrightarrow> sf37_session_load_snapshot s snap = (ok, s') \<Longrightarrow>
    api_reachable kn fpu s'"
| api_payload: "api_reachable kn fpu s \<Longrightarrow> sf37_session_load_payload fpu s fp n = (s', rest, ok) \<Longrightarrow>
    api_reachable kn fpu s'"

lemma create_sized:
  "length h = SF37_EMBD \<Longrightarrow> length l = SF37_VOCAB \<Longrightarrow> sf37_session_create h l n = Some s \<Longrightarrow> session_sized s"
  by (auto simp: sf37_session_create_def session_sized_def kv_cache_init_def layer_sized_def layer_shape_def
      rows_sized_def zero_row_def Let_def split: if_splits)

lemma step_sized:
  assumes kn: "kernels_sized kn" and "session_step kn s s'" and "session_sized s"
  shows "session_sized s'"
  using assms(2)
proof (cases rule: session_step.cases)
  case (step_eval t ok)
  then show ?thesis using eval_sized [OF kn assms(3)] by (auto simp: sf37_session_eval_def)
next
  case (step_eval_no_logits t ok)
  then show ?thesis using eval_sized [OF kn assms(3)] by (auto simp: sf37_session_eval_no_logits_def)
next
  case (step_eval_argmax t nxt)
  obtain ok s1 where e: "sf37_session_eval_internal kn s t False = (ok, s1)" by fastforce
  then have "session_sized s1" using eval_sized [OF kn assms(3)] by blast
  then show ?thesis
    using step_eval_argmax e kernels_sizedD(5) [OF kn]
    by (auto simp: sf37_session_eval_argmax_def sf37_session_output_argmax_def Let_def session_sized_def
        split: if_splits)
next
  case step_output_logits
  then show ?thesis
    using assms(3) kernels_sizedD(5) [OF kn] by (simp add: sf37_session_output_logits_def session_sized_def)
next
  case (step_rewind pos)
  then show ?thesis using rewind_sized [OF assms(3)] by simp
next
  case (step_sync ip cancel prompt features ok)
  then show ?thesis using sync_sized [OF kn assms(3)] by blast
next
  case (step_note ip prompt features ok)
  then show ?thesis
    using assms(3) by (auto simp: sf37_session_note_image_features_def split: option.splits prod.splits if_splits)
qed


lemma reachable_sized:
  assumes kn: "kernels_sized kn" and "api_reachable kn fpu s"
  shows "session_sized s"
  using assms(2)
  by (induction rule: api_reachable.induct)
    (auto dest: create_sized step_sized [OF kn] load_snapshot_safe load_payload_safe simp: load_outcome_def)

lemma stage_payload_Some:
  assumes s: "session_sized s" "kv_complete s" and "sf37_session_stage_payload fpu io s = Some payload"
  shows "payload = (payload_image fpu s, of_nat (length (payload_image fpu s)))"
  using assms(3) save_payload_Some
  by (fastforce simp: sf37_session_stage_payload_def Let_def split: if_splits option.splits)

lemma write_staged_Some:
  assumes s: "session_sized s" "kv_complete s" and "sf37_session_stage_payload fpu io s = Some payload"
    and "sf37_session_write_staged_payload cio payload fp = Some fp'"
  shows "fp' = fp @ payload_image fpu s"
proof -
  note p = stage_payload_Some [OF assms(1-3)]
  have "payload_copy_file_bytes (cp_fwrite cio) (fst payload) fp (unat (snd payload)) = Some fp'"
    using assms(4) by (auto simp: sf37_session_write_staged_payload_def Let_def split: if_splits)
  from payload_copy_Some [OF this] show ?thesis
    by (simp add: p unat_of_nat_64 payload_image_parts(2) [OF s, simplified])
qed

lemma stage_payload_ok:
  assumes s: "session_sized s" "kv_complete s"
    and io: "st_mkstemp io" "st_fdopen io" "st_fwrite io = (\<lambda>_. True)" "st_fflush io" "st_ftello io" "st_fclose io"
  shows "sf37_session_stage_payload fpu io s = Some (payload_image fpu s, of_nat (length (payload_image fpu s)))"
proof -
  have "unat (session_kv_row_counts s ! il) \<le> lk_n (se_layer s ! il)" if "il < SF37_MAIN_LAYERS" for il
    using row_counts(2) [OF s that] sizedD(2,9) [OF s(1)] s(2) that by (simp add: unat_u32_small kv_complete_def)
  then have "sf37_session_save_payload fpu (\<lambda>_. True) s = Some (payload_image fpu s)"
    using s(2) by (intro save_payload_ok) (simp_all add: kv_complete_def)
  then show ?thesis
    using s(2) io by (simp add: sf37_session_stage_payload_def kv_complete_def payload_bytes_exact [OF s, of fpu] Let_def)
qed

text \<open>A session for the witnesses: one token evaluated with constant kernels.\<close>

definition flat_kernels :: kernels where
  "flat_kernels = \<lparr>kn_embed = \<lambda>t. replicate SF37_EMBD (of_int t), kn_kv = \<lambda>il pos h. (zero_row, zero_row),
     kn_layer = \<lambda>il pos h ks vs. replicate SF37_EMBD 1, kn_logits = \<lambda>h. replicate SF37_VOCAB 2\<rparr>"

definition flat_fpu :: fp32 where
  "flat_fpu = \<lparr>fp_div = \<lambda>a b. a, fp_mul = \<lambda>a b. a, fp_of_int = of_int, fp_lrint = uint\<rparr>"

definition flat_fresh :: sf37_session where
  "flat_fresh = the (sf37_session_create (replicate SF37_EMBD 0) (replicate SF37_VOCAB 0) 4)"

definition flat_session :: sf37_session where
  "flat_session = snd (sf37_session_eval flat_kernels flat_fresh 7)"

lemma flat_kernels_sized: "kernels_sized flat_kernels"
  by (simp add: kernels_sized_def flat_kernels_def zero_row_def)

lemma flat_fresh_create:
  "sf37_session_create (replicate SF37_EMBD 0) (replicate SF37_VOCAB 0) 4 = Some flat_fresh"
  by (simp add: flat_fresh_def sf37_session_create_def SF37_CTX_def)

lemma flat_fresh_facts:
  "session_sized flat_fresh" "coherent flat_kernels flat_fresh" "se_checkpoint_valid flat_fresh"
  "se_checkpoint flat_fresh = []" "se_ctx_size flat_fresh = 4"
  using create_sized [OF _ _ flat_fresh_create] create_coherent [OF flat_fresh_create]
  by (simp_all add: flat_fresh_def sf37_session_create_def SF37_CTX_def)

lemma flat_eval: "sf37_session_eval_internal flat_kernels flat_fresh 7 True = (True, flat_session)"
proof -
  obtain ok s where e: "sf37_session_eval_internal flat_kernels flat_fresh 7 True = (ok, s)" by fastforce
  moreover have ok
    using e flat_fresh_facts by (auto simp: sf37_session_eval_internal_def SF37_VOCAB_def Let_def split: prod.splits)
  ultimately show ?thesis
    by (simp add: flat_session_def sf37_session_eval_def)
qed

lemma flat_facts:
  "session_sized flat_session" "coherent flat_kernels flat_session" "se_checkpoint_valid flat_session"
  "se_checkpoint flat_session = [7]" "se_ctx_size flat_session = 4"
  using eval_coherent [OF flat_fresh_facts(2,3) flat_eval] eval_sized [OF flat_kernels_sized flat_fresh_facts(1) flat_eval]
  by (simp_all add: flat_fresh_facts)


lemmas flat_complete = coherent_complete [OF flat_facts(2,3)]

subsection \<open>Properties\<close>

text \<open>C8: a snapshot loses nothing: loading it into any session of the same context, whatever
  that session held, gives a coherent session with the same tokens, logits and hidden state,
  which continues exactly as the saved one.\<close>

theorem snapshot_roundtrip:
  assumes "session_sized s" and "coherent kn s" and "se_checkpoint_valid s"
    and "session_sized s0" and "se_ctx_size s0 = se_ctx_size s"
    and "sf37_session_save_snapshot realloc_ok snap_cap s = Some snap"
  shows "\<exists>s'. sf37_session_load_snapshot s0 snap = (True, s') \<and> coherent kn s' \<and> se_checkpoint_valid s' \<and>
    se_checkpoint s' = se_checkpoint s \<and> se_logits s' = se_logits s \<and> se_hidden s' = se_hidden s"
proof -
  note full = coherent_complete [OF assms(2,3)]
  have "snap = snapshot_image s"
    using assms(6) by (simp add: save_snapshot_eq [OF assms(1) full] split: if_splits)
  then show ?thesis
    using load_snapshot_image [OF assms(1) full assms(4,5)] restored_coherent [OF assms(1-5)]
    by (auto simp: restored_fields)
qed

theorem snapshot_roundtrip_witness:
  "\<exists>s'. sf37_session_load_snapshot flat_fresh (snapshot_image flat_session) = (True, s') \<and> se_checkpoint s' = [7]"
proof -
  have "sf37_session_save_snapshot (\<lambda>_. True) 0 flat_session = Some (snapshot_image flat_session)"
    by (simp add: save_snapshot_eq [OF flat_facts(1) flat_complete])
  from snapshot_roundtrip [OF flat_facts(1-3) flat_fresh_facts(1) _ this]
  show ?thesis
    by (auto simp: flat_facts flat_fresh_facts)
qed

text \<open>C26: a staged payload, copied into a file and loaded from there into any session with a
  context at least as large, restores tokens, logits and hidden state exactly and every row of
  every layer as its quantised form, consumes just its own bytes and leaves the trailer.\<close>

theorem payload_roundtrip:
  assumes "session_sized s" and "coherent kn s" and "se_checkpoint_valid s"
    and "session_sized s0" and "se_ctx_size s \<le> se_ctx_size s0"
    and "sf37_session_stage_payload fpu io s = Some payload"
    and "sf37_session_write_staged_payload cio payload fp = Some fp'"
  shows "\<exists>body s'. fp' = fp @ body \<and> unat (snd payload) = length body \<and>
    snd payload = sf37_session_payload_bytes s \<and>
    sf37_session_load_payload fpu s0 (body @ trailer) (snd payload) = (s', trailer, True) \<and>
    se_checkpoint_valid s' \<and> se_checkpoint s' = se_checkpoint s \<and>
    se_logits s' = se_logits s \<and> se_hidden s' = se_hidden s \<and>
    (\<forall>il<SF37_MAIN_LAYERS.
       lk_n (se_layer s' ! il) = length (se_checkpoint s) \<and>
       take (length (se_checkpoint s)) (lk_k (se_layer s' ! il)) =
         map (payload_recode fpu) (take (length (se_checkpoint s)) (lk_k (se_layer s ! il))) \<and>
       take (length (se_checkpoint s)) (lk_v (se_layer s' ! il)) =
         map (payload_recode fpu) (take (length (se_checkpoint s)) (lk_v (se_layer s ! il))))"
proof -
  note full = coherent_complete [OF assms(2,3)]
  note p = stage_payload_Some [OF assms(1) full assms(6)]
  show ?thesis
    by (rule exI [of _ "payload_image fpu s"], rule exI [of _ "restored (payload_recode fpu) s s0"])
      (simp add: p write_staged_Some [OF assms(1) full assms(6,7)] payload_bytes_exact [OF assms(1) full, of fpu]
        unat_of_nat_64 payload_image_parts(2) [OF assms(1) full, simplified]
        load_payload_image [OF assms(1) full assms(4,5)] restored_fields restored_layer [OF assms(1) full])
qed

theorem payload_roundtrip_witness:
  "\<exists>body s'. unat (sf37_session_payload_bytes flat_session) = length body \<and>
     sf37_session_load_payload flat_fpu flat_fresh (body @ [1, 2]) (sf37_session_payload_bytes flat_session) = (s', [1, 2], True) \<and>
     se_checkpoint s' = [7]"
proof -
  define io where "io = \<lparr>st_mkstemp = True, st_fdopen = True, st_fwrite = \<lambda>_. True, st_fflush = True,
      st_ftello = True, st_fclose = True\<rparr>"
  define payload where "payload = (payload_image flat_fpu flat_session, of_nat (length (payload_image flat_fpu flat_session)) :: u64)"
  have st: "sf37_session_stage_payload flat_fpu io flat_session = Some payload"
    using stage_payload_ok [OF flat_facts(1) flat_complete, of io flat_fpu] by (simp add: io_def payload_def)
  have n: "unat (snd payload) = length (fst payload)"
    by (simp add: payload_def unat_of_nat_64 payload_image_parts(2) [OF flat_facts(1) flat_complete, simplified])
  have wr: "sf37_session_write_staged_payload \<lparr>cp_fopen = True, cp_fwrite = \<lambda>_. True, cp_fclose = True\<rparr> payload [] =
      Some (fst payload)"
    by (simp add: sf37_session_write_staged_payload_def Let_def n payload_copy_all)
  show ?thesis
    using payload_roundtrip [OF flat_facts(1-3) flat_fresh_facts(1) _ st wr, of "[1, 2]"]
    by (auto simp: flat_facts flat_fresh_facts)
qed

text \<open>C9: loading any bytes at all is safe: every array keeps its size, the tokens stay within
  the vocabulary and the context; on success the new checkpoint is valid and no layer claims
  more rows than were read; on failure the old tokens stay and, unless the caches are
  untouched, the checkpoint is marked invalid so that the next call rebuilds it. Logits and hidden
  state keep their sizes only: a failed load may have overwritten them.\<close>

theorem load_any_bytes_safe:
  assumes "session_sized s"
  shows "load_outcome s (fst (sf37_session_load_snapshot s snap)) (snd (sf37_session_load_snapshot s snap)) \<and>
    (case sf37_session_load_payload fpu s fp n of (s', rest, ok) \<Rightarrow>
       load_outcome s ok s' \<and> (ok \<longrightarrow> unat n \<le> length fp \<and> rest = drop (unat n) fp))"
  using load_snapshot_safe [OF assms] load_payload_safe [OF assms] by (auto split: prod.splits)

theorem load_any_bytes_safe_witness:
  "load_outcome flat_session (fst (sf37_session_load_snapshot flat_session [1, 2, 3]))
     (snd (sf37_session_load_snapshot flat_session [1, 2, 3]))"
  using load_any_bytes_safe [OF flat_facts(1)] by blast

text \<open>C27: the sizes of a session's arrays are an invariant: whatever calls are made, in any order,
  loads of arbitrary bytes included, all rows, logits and hidden state keep their lengths,
  row counts stay within the capacity, and tokens within vocabulary and context.\<close>

theorem api_keeps_sizes:
  assumes "kernels_sized kn" and "api_reachable kn fpu s"
  shows "session_sized s"
  using assms by (rule reachable_sized)

theorem api_keeps_sizes_witness: "session_sized flat_session"
proof (rule api_keeps_sizes [OF flat_kernels_sized])
  show "api_reachable flat_kernels flat_fpu flat_session"
    by (rule api_called [OF api_created [OF _ _ flat_fresh_create] step_eval [of _ _ 7 True]])
      (simp_all add: sf37_session_eval_def flat_eval)
qed

end
