(* ===== verification/KvSession.thy ===== *)
theory KvSession
  imports KvStore SnapshotProps
begin

section \<open>Resuming a session from the store\<close>

text \<open>
  Where the store and the sessions meet: the store relies on one law of the session it saves,
  that a staged payload loads back to the same tokens and consumes just its own bytes. The
  locale states the law and proves what the store makes of it: the file written for a
  checkpoint, found for a longer prompt, gives back the checkpoint's tokens and an effective
  prompt. The interpretation discharges the law for the sessions of \<open>sf37.c\<close>, and the
  tokenizer's losslessness turns the effective prompt into the text that was asked for.
\<close>

lemma sint_of_length:
  assumes "n < 2 ^ 31"
  shows "sint (of_nat n :: u32) = int n"
proof -
  have "sint (of_int (int n) :: u32) = int n"
    using assms by (simp add: int_word_sint del: of_int_of_nat_eq)
  then show ?thesis by simp
qed

subsection \<open>The interface\<close>

locale session_payload =
  fixes ops :: "'s session_ops" and sound :: "'s \<Rightarrow> bool" and complete :: "'s \<Rightarrow> bool"
  assumes complete_sound: "complete s \<Longrightarrow> sound s"
    and stage_load: "complete s \<Longrightarrow> sound s0 \<Longrightarrow> so_ctx ops s \<le> so_ctx ops s0 \<Longrightarrow>
      so_stage ops s = Some b \<Longrightarrow>
      \<exists>s'. so_load ops s0 (b @ tr) (of_nat (length b)) = (s', tr, True) \<and>
        so_tokens ops s' = so_tokens ops s \<and> complete s'"
    and stage_size: "complete s \<Longrightarrow> so_stage ops s = Some b \<Longrightarrow> length b < 2 ^ 64"
    and tokens_ctx: "sound s \<Longrightarrow> so_tokens ops s = Some ts \<Longrightarrow> length ts < 2 ^ 31"
    and load_sound: "sound s \<Longrightarrow> so_load ops s fp n = (s', rest, ok) \<Longrightarrow> sound s'"
    and rewind_sound: "sound s \<Longrightarrow> sound (so_rewind ops s pos)"
begin

text \<open>Loading the file of a checkpoint that the search has chosen.\<close>

lemma load_chosen:
  assumes s: "complete s" and s0: "sound s0" and ctx: "so_ctx ops s \<le> so_ctx ops s0"
    and stage: "so_stage ops s = Some b" and ts: "so_tokens ops s = Some ts" "ts \<noteq> []"
    and kc: "kc_enabled kc"
    and find: "sf37_kvstore_find_text_prefix os kc (Some prompt) SF37_KVSTORE_MODEL_ID
       SF37_KVSTORE_QUANT_BITS (so_ctx ops s0) = (Some i, kc1)"
    and content: "os_read os (ke_path (kc_entry kc1 ! i)) = Some (kv_file_bytes f)" "kv_file_ok f"
      "kf_payload f = b" "kf_tokens f = of_nat (length ts)"
    and sha: "ke_sha (kc_entry kc1 ! i) = sf37_kvstore_sha1_bytes_hex (kf_text f)"
    and prompt: "prompt = kf_text f @ suffix"
    and ld: "ld = sf37_kvstore_try_load_text ops os kc engine s0 (Some prompt) (None :: 'u trailer_hooks option) ud"
  shows "ld_tokens ld = int (length ts) \<and> so_tokens ops (ld_session ld) = Some ts \<and>
    complete (ld_session ld) \<and> ld_effective_prompt ld = sf37_kvstore_build_prompt engine ts (Some suffix)"
proof -
  obtain s' where s': "so_load ops s0 (b @ kf_trailer f) (of_nat (length b)) = (s', kf_trailer f, True)"
    "so_tokens ops s' = Some ts" "complete s'"
    using stage_load [OF s s0 ctx stage] ts(1) by auto
  have n: "length ts < 2 ^ 31"
    by (rule tokens_ctx [OF complete_sound [OF s] ts(1)])
  have tok: "sint (of_nat (length ts) :: u32) = int (length ts)"
    by (rule sint_of_length [OF n])
  have b32: "length (kf_text f) < 2 ^ 32"
    using content(2) by (simp add: kv_file_ok_def)
  then have tb: "unat (of_nat (length (kf_text f)) :: u32) = length (kf_text f)"
    by (rule unat_of_nat_32)
  have hdr: "sf37_kvstore_read_header (kv_file_bytes f) kv_entry_zero =
      Some (kv_file_entry f, of_nat (length (kf_text f)), kf_text f @ b @ kf_trailer f)"
    using read_kv_file [OF content(2)] content(3) by simp
  have e: "ke_model_id (kv_file_entry f) = SF37_KVSTORE_MODEL_ID" "ke_payload_bytes (kv_file_entry f) = of_nat (length b)"
    "ke_tokens (kv_file_entry f) = of_nat (length ts)"
    using content(3,4) by (simp_all add: kv_file_entry_def)
  have text_ok: "kv_load_text_ok prompt (ke_sha (kc_entry kc1 ! i)) (kf_text f)"
    by (simp add: kv_load_text_ok_def sha prompt byte_prefix_match)
  have pos: "0 < int (length ts)"
    using ts(2) by simp
  show ?thesis
    unfolding ld sf37_kvstore_try_load_text_def Let_def
    using kc pos by (simp add: find [unfolded prompt] content(1) hdr e tb prompt text_ok [unfolded prompt] s' tok)
qed

text \<open>Whatever the files hold, a load leaves a session that can be used.\<close>

lemma try_load_sound:
  assumes "sound s0"
  shows "sound (ld_session (sf37_kvstore_try_load_text ops os kc engine s0 prompt hooks ud))"
  unfolding sf37_kvstore_try_load_text_def Let_def
  using assms by (auto split: option.splits prod.splits if_splits intro: load_sound rewind_sound)

end

subsection \<open>The sessions of the program provide it\<close>

definition session_kv_ops :: "fp32 \<Rightarrow> stage_io \<Rightarrow> sf37_session session_ops" where
  "session_kv_ops fpu io =
     \<lparr>so_tokens = \<lambda>s. Some (se_checkpoint s), so_ctx = se_ctx_size,
      so_stage = \<lambda>s. map_option fst (sf37_session_stage_payload fpu io s),
      so_load = sf37_session_load_payload fpu, so_rewind = sf37_session_rewind\<rparr>"

lemma restored_sized_complete:
  assumes s: "session_sized s" "kv_complete s" and s0: "session_sized s0" and "se_ctx_size s \<le> se_ctx_size s0"
  shows "session_sized (restored (payload_recode fpu) s s0)" "kv_complete (restored (payload_recode fpu) s s0)"
  using load_payload_safe [OF s0 load_payload_image [OF assms, of fpu "[]"]]
    restored_layer(1) [OF s] by (simp_all add: load_outcome_def kv_complete_def restored_fields)

interpretation sess: session_payload "session_kv_ops fpu io" session_sized "\<lambda>s. session_sized s \<and> kv_complete s"
  for fpu io
proof (unfold_locales, goal_cases)
  case (2 s s0 b tr)
  then have s: "session_sized s" "kv_complete s" "session_sized s0" "se_ctx_size s \<le> se_ctx_size s0"
    by (simp_all add: session_kv_ops_def)
  have "b = payload_image fpu s"
    using 2(4) stage_payload_Some [OF s(1,2)] by (fastforce simp: session_kv_ops_def)
  then show ?case
    using load_payload_image [OF s, of fpu tr] restored_sized_complete [OF s, of fpu]
    by (simp add: session_kv_ops_def restored_fields)
next
  case (3 s b)
  then show ?case
    using stage_payload_Some [of s fpu io] payload_image_parts(2) [of s fpu]
    by (fastforce simp: session_kv_ops_def)
next
  case (4 s ts)
  then show ?case
    using sizedD(2,9) [of s] by (simp add: session_kv_ops_def)
next
  case (5 s fp n s' rest ok)
  then show ?case
    using load_payload_safe by (simp add: session_kv_ops_def load_outcome_def)
next
  case (6 s pos)
  then show ?case
    by (simp add: session_kv_ops_def rewind_sized)
qed simp

subsection \<open>Storing a new checkpoint\<close>

lemma evict_keeps_dir:
  "sf37_kvstore_evict os kc n c = (os', kc') \<Longrightarrow> kc_dir kc' = kc_dir kc \<and> kc_enabled kc' = kc_enabled kc"
  by (auto simp: sf37_kvstore_evict_def Let_def split: if_splits prod.splits)

lemma store_write_keeps_dir:
  assumes "kv_store_write os kc path text0 staged est ext n rc ctx hooks ud = (ok, os', kc')"
  shows "kc_dir kc' = kc_dir kc \<and> kc_enabled kc' = kc_enabled kc"
  using assms evict_keeps_dir [of os kc]
  by (auto simp: kv_store_write_def Let_def split: prod.splits if_splits)

lemma store_keeps_dir:
  assumes "sf37_kvstore_store_live_prefix_text ops os kc engine session tokens len reason ov ovx hooks ud = (ok, os', kc')"
  shows "kc_dir kc' = kc_dir kc \<and> kc_enabled kc' = kc_enabled kc"
  using assms store_write_keeps_dir
  by (fastforce simp: sf37_kvstore_store_live_prefix_text_def Let_def split: if_splits option.splits prod.splits)

text \<open>When the checkpoint's name was free, a successful store has written this file.\<close>

lemma fresh_store:
  assumes run: "sf37_kvstore_store_live_prefix_text ops os kc engine session tokens len reason ov ovx
      (None :: 'u trailer_hooks option) ud = (True, os', kc')"
    and live: "so_tokens ops session = Some live" "live \<noteq> []" "length live < 2 ^ 31"
    and s: "s = checkpoint_text engine live ov" "path = sf37_kvstore_path_for_sha kc (sf37_kvstore_sha1_bytes_hex s)"
    and free: "map_of (os_files os) path = None"
    and size: "\<And>b. so_stage ops session = Some b \<Longrightarrow> length b < 2 ^ 64"
  obtains f b where "so_stage ops session = Some b" "map_of (os_files os') path = Some (kv_file_bytes f)"
    "kv_file_ok f" "kf_payload f = b" "kf_text f = s" "kf_tokens f = of_nat (length live)"
    "os_fail os' = os_fail os"
  using run
proof (cases rule: store_cases)
  case (compatible l)
  then have "sf37_kvstore_read_entry_file os path (sf37_kvstore_sha1_bytes_hex s) \<noteq> None"
    using existing_compatible_cases [OF compatible(6)] live(1) s by simp
  then show thesis
    using free by (auto dest: read_entry_file_fields)
next
  case (written l os1 staged est ext)
  then have l: "l = live" "checkpoint_text engine l ov = s"
    using live(1) s(1) by auto
  have path: "sf37_kvstore_path_for_sha kc (sf37_kvstore_sha1_bytes_hex s) = path"
    by (simp add: s(2))
  from written(5) [unfolded l(2) path] obtain w nw where
    w: "kv_trailer_write (None :: 'u trailer_hooks option) ud s = (True, w, nw)"
    "map_of (os_files os') path =
       Some (kv_file_bytes (store_content os1 s staged ext (length l) (sf37_kvstore_reason_code reason) (so_ctx ops session) w))"
    "52 + unat (of_nat (length s) :: u64) + unat (of_nat (length staged) :: u64) + unat nw < 2 ^ 64"
    "os_fail os' = os_fail os1"
    by (rule store_write_done)
  have fail: "os_fail os1 = os_fail os"
    using written(4) by auto
  have s32: "length s < 2 ^ 32"
    using written(2) l(2) by simp
  have u: "unat (of_nat (length s) :: u64) = length s" "unat (of_nat (length staged) :: u64) = length staged"
    using less_trans [OF s32, of "2 ^ 64"] size [OF written(3)] by (intro unat_of_nat_64; simp)+
  have "unat (of_nat (length live) :: u32) \<noteq> 0"
    using live(2,3) by (simp add: unat_of_nat_32)
  then have "(of_nat (length live) :: u32) \<noteq> 0"
    by (metis unat_0)
  moreover have "w = []"
    using w(1) by (simp add: kv_trailer_write_def)
  ultimately have ok: "kv_file_ok (store_content os1 s staged ext (length l) (sf37_kvstore_reason_code reason) (so_ctx ops session) w)"
    using w(3) s32 l(1) u by (simp add: kv_file_ok_def store_content_def reason_code_le)
  show thesis
    by (rule that [OF written(3) w(2) ok]) (simp_all add: store_content_def l(1) w(4) fail)
qed simp_all

lemma chosen_sha:
  assumes "kc_enabled kc" and "sf37_kvstore_find_text_prefix os kc (Some p) m q ctx = (Some i, kc1)"
    and "ke_path (kc_entry kc1 ! i) = sf37_kvstore_path_for_sha kc (sf37_kvstore_sha1_bytes_hex s)"
  shows "ke_sha (kc_entry kc1 ! i) = sf37_kvstore_sha1_bytes_hex s"
proof -
  have kc1: "kc1 = kv_cache_refresh os kc" "foldl (find_step kc1 p m q ctx) None [0..<length (kc_entry kc1)] = Some i"
    using assms(2) by (auto simp: sf37_kvstore_find_text_prefix_def Let_def)
  then have "i < length (kc_entry kc1)"
    using find_fold [where kc = kc1 and s = p and m = m and q = q and ctx = ctx and n = "length (kc_entry kc1)"] by simp
  then have "kc_entry kc1 ! i \<in> set (kc_entry (kv_cache_refresh os kc))"
    by (simp add: kc1(1))
  from refresh_listed [OF assms(1) this] obtain name where
    "dir_entry os (kc_dir kc) name = Some (kc_entry kc1 ! i)"
    by blast
  from dir_entry_fields [OF this] assms(3) show ?thesis
    by (auto simp: path_for_sha1 simp del: cstr_simps)
qed


lemma effective_prompt_text:
  assumes "vocab_ok v"
  shows "tokens_text v (sf37_kvstore_build_prompt (Some v) ts (Some suffix)) = tokens_text v ts @ suffix"
  using assms
  by (simp add: sf37_kvstore_build_prompt_def Let_def sf37_tokenize_rendered_chat_def vocab_ok_def
      tokenize_rendered_chat_vocab_def rendered_loop_text [OF assms])

lemma effective_prompt_prefix:
  "take (length ts) (sf37_kvstore_build_prompt engine ts suffix) = ts"
  by (simp add: sf37_kvstore_build_prompt_def Let_def)

subsection \<open>A store with one checkpoint\<close>

definition ok_io :: stage_io where
  "ok_io = \<lparr>st_mkstemp = True, st_fdopen = True, st_fwrite = \<lambda>_. True, st_fflush = True,
     st_ftello = True, st_fclose = True\<rparr>"

definition clean_os :: kv_os where
  "clean_os = \<lparr>os_files = [], os_time = 9, os_pid_text = cstr ''7'', os_fail = \<lambda>_. False\<rparr>"

definition kv_dir :: kvstore where
  "kv_dir = kvstore_zero\<lparr>kc_enabled := True, kc_dir := cstr ''d''\<rparr>"

abbreviation "demo_ops \<equiv> session_kv_ops flat_fpu ok_io"

definition demo_checkpoint :: kv_file where
  "demo_checkpoint = store_content clean_os [7] (payload_image flat_fpu flat_session) 0 1
     (sf37_kvstore_reason_code (Some (cstr ''cold''))) 4 []"

definition demo_file_path :: bytes where
  "demo_file_path = sf37_kvstore_path_for_sha kv_dir (sf37_kvstore_sha1_bytes_hex [7])"

definition demo_os :: kv_os where
  "demo_os = clean_os\<lparr>os_files := [(demo_file_path, kv_file_bytes demo_checkpoint)]\<rparr>"

lemma demo_token_text: "sf37_token_text (Some demo_vocab) 7 = [7]"
proof -
  have "demo_strings ! 7 = byte_symbol 7"
    by (simp add: demo_strings_def nth_append)
  moreover have "token_decode_loop (byte_symbol 7) = [7]"
    using token_decode_loop_symbol [of 7 "[]"] by simp
  ultimately show ?thesis
    by (simp add: sf37_token_text_def demo_vocab_def length_demo_strings token_is_added_def)
qed

lemma demo_stage:
  "sf37_session_stage_payload flat_fpu ok_io flat_session =
     Some (payload_image flat_fpu flat_session, of_nat (length (payload_image flat_fpu flat_session)))"
  by (rule stage_payload_ok [OF flat_facts(1) flat_complete]) (simp_all add: ok_io_def)

lemma demo_payload_length: "length (payload_image flat_fpu flat_session) = 630132"
  using payload_image_parts(1) [OF flat_facts(1) flat_complete, of flat_fpu]
  by (simp add: flat_facts SF37_MAIN_LAYERS_def SF37_VOCAB_def SF37_EMBD_def)

lemma demo_run:
  "\<exists>kc1. sf37_kvstore_store_live_prefix_text demo_ops clean_os kv_dir (Some demo_vocab) flat_session
     (Some [7]) 1 (Some (cstr ''cold'')) None 0 (None :: unit trailer_hooks option) () = (True, demo_os, kc1)
     \<and> kc_opt kc1 = kc_opt kv_dir \<and> \<not> kc_reject_different_quant kc1"
  apply (simp add: sf37_kvstore_store_live_prefix_text_def kv_dir_def kvstore_zero_def
      session_kv_ops_def starts_with kv_trailer_serialized_size_def Let_def flat_facts render_tokens_text demo_token_text
      kv_cache_existing_compatible_def clean_os_def demo_stage sf37_kvstore_file_size_fits_def demo_payload_length
      kv_cache_file_size_bytes_def kv_store_write_def sf37_kvstore_evict_def kv_trailer_write_def
      os_write_def os_rename_def)
  apply (simp add: demo_os_def demo_checkpoint_def store_content_def kv_file_bytes_def demo_file_path_def kv_dir_def kvstore_zero_def clean_os_def demo_payload_length)
  done

subsection \<open>The demo checkpoint is found\<close>

lemma demo_file_ok: "kv_file_ok demo_checkpoint"
  by (simp add: kv_file_ok_def demo_checkpoint_def store_content_def demo_payload_length reason_code_le)

definition demo_entry :: kv_entry where
  "demo_entry = (kv_file_entry demo_checkpoint)
    \<lparr>ke_sha := sf37_kvstore_sha1_bytes_hex [7], ke_path := demo_file_path,
     ke_file_size := of_nat (length (kv_file_bytes demo_checkpoint))\<rparr>"

lemma demo_path: "demo_file_path = sf37_kvstore_path_join (cstr ''d'') (sf37_kvstore_sha1_bytes_hex [7] @ cstr ''.kv'')"
  by (simp add: demo_file_path_def path_for_sha1 kv_dir_def del: cstr_simps)

lemma demo_entries:
  assumes "kc_dir kc = kc_dir kv_dir" and "kc_enabled kc"
  shows "kc_entry (kv_cache_refresh demo_os kc) = [demo_entry]"
proof -
  let ?n = "sf37_kvstore_sha1_bytes_hex [7] @ cstr ''.kv''"
  have n: "0x2f \<notin> set ?n"
    using sha1_hex_chars by auto
  have "os_readdir demo_os (cstr ''d'') = [?n]"
    using n by (simp add: os_readdir_def demo_os_def demo_path Let_def path_join_Nil [of _ ?n] del: cstr_simps)
  moreover have "sf37_kvstore_read_entry_file demo_os demo_file_path (sf37_kvstore_sha1_bytes_hex [7]) = Some demo_entry"
    by (subst read_entry_kv_file [OF demo_file_ok]) (simp_all add: demo_os_def clean_os_def demo_entry_def)
  ultimately show ?thesis
    using assms by (simp add: refresh_entries map_filter_simps dir_entry_def demo_path [symmetric]
      kv_dir_def demo_os_def clean_os_def del: cstr_simps)
qed

lemma demo_find:
  assumes "kc_dir kc = kc_dir kv_dir" and "kc_enabled kc" and "kc_opt kc = kc_opt kv_dir"
    and "\<not> kc_reject_different_quant kc"
  shows "sf37_kvstore_find_text_prefix demo_os kc (Some [7, 8]) SF37_KVSTORE_MODEL_ID SF37_KVSTORE_QUANT_BITS 4
    = (Some 0, kv_cache_refresh demo_os kc)"
  using assms
  by (simp add: sf37_kvstore_find_text_prefix_def Let_def demo_entries find_step_def find_candidate_def
      demo_entry_def kv_file_entry_def demo_checkpoint_def store_content_def kv_dir_def kvstore_zero_def kv_entry_zero_def)

subsection \<open>Properties\<close>

text \<open>C7: resuming. A session whose checkpoint was stored, and whose file the search chooses for a
  prompt that starts with the checkpoint's text, comes back in any session with a context at
  least as large: the same tokens, ready to continue, and an effective prompt that starts with
  exactly these tokens and spells the prompt that was asked for.\<close>

theorem resume_after_store:
  assumes "session_sized s" and "coherent kn s" and "se_checkpoint_valid s" and "se_checkpoint s \<noteq> []"
    and "session_sized s0" and "se_ctx_size s \<le> se_ctx_size s0" and "vocab_ok v" and "kc_enabled kc"
    and "sf37_kvstore_store_live_prefix_text (session_kv_ops fpu io) os kc (Some v) s tokens len reason
       None ovx (None :: 'u trailer_hooks option) ud = (True, os1, kc1)"
    and "map_of (os_files os) (sf37_kvstore_path_for_sha kc
       (sf37_kvstore_sha1_bytes_hex (tokens_text v (se_checkpoint s)))) = None"
    and "sf37_kvstore_find_text_prefix os1 kc1 (Some (tokens_text v (se_checkpoint s) @ suffix))
       SF37_KVSTORE_MODEL_ID SF37_KVSTORE_QUANT_BITS (se_ctx_size s0) = (Some i, kc2)"
    and "ke_path (kc_entry kc2 ! i) = sf37_kvstore_path_for_sha kc
       (sf37_kvstore_sha1_bytes_hex (tokens_text v (se_checkpoint s)))"
    and "\<not> os_fail os (Fopen_read (ke_path (kc_entry kc2 ! i)))"
    and "ld = sf37_kvstore_try_load_text (session_kv_ops fpu io) os1 kc1 (Some v) s0
       (Some (tokens_text v (se_checkpoint s) @ suffix)) (None :: 'w trailer_hooks option) ud'"
  shows "ld_tokens ld = int (length (se_checkpoint s)) \<and> se_checkpoint (ld_session ld) = se_checkpoint s \<and>
    session_sized (ld_session ld) \<and> kv_complete (ld_session ld) \<and>
    take (length (se_checkpoint s)) (ld_effective_prompt ld) = se_checkpoint s \<and>
    tokens_text v (ld_effective_prompt ld) = tokens_text v (se_checkpoint s) @ suffix"
proof -
  let ?ops = "session_kv_ops fpu io" and ?t = "tokens_text v (se_checkpoint s)"
  have complete: "session_sized s \<and> kv_complete s"
    using assms(1) coherent_complete [OF assms(2,3)] by simp
  have live: "so_tokens ?ops s = Some (se_checkpoint s)"
    by (simp add: session_kv_ops_def)
  have ct: "?t = checkpoint_text (Some v) (se_checkpoint s) None"
    by (simp add: checkpoint_text_def tokens_text_def)
  note tc = sess.tokens_ctx [where fpu = fpu and io = io, OF assms(1) live]
  note sz = sess.stage_size [where fpu = fpu and io = io, OF complete]
  obtain f b where f: "so_stage ?ops s = Some b"
    "map_of (os_files os1) (ke_path (kc_entry kc2 ! i)) = Some (kv_file_bytes f)"
    "kv_file_ok f" "kf_payload f = b" "kf_text f = ?t" "kf_tokens f = of_nat (length (se_checkpoint s))"
    "os_fail os1 = os_fail os"
    by (rule fresh_store [OF assms(9) live assms(4) tc ct refl assms(10) sz, folded assms(12)]) blast+
  have dir: "kc_dir kc1 = kc_dir kc" "kc_enabled kc1"
    using store_keeps_dir [OF assms(9)] assms(8) by simp_all
  have sha: "ke_sha (kc_entry kc2 ! i) = sf37_kvstore_sha1_bytes_hex (kf_text f)"
    using chosen_sha [OF dir(2) assms(11)] assms(12) dir(1) f(5) by (simp add: sf37_kvstore_path_for_sha_def)
  have ctx: "so_ctx ?ops s \<le> so_ctx ?ops s0"
    using assms(6) by (simp add: session_kv_ops_def)
  have read: "os_read os1 (ke_path (kc_entry kc2 ! i)) = Some (kv_file_bytes f)"
    using f(2,7) assms(13) by (simp add: os_read_def)
  have prompt: "?t @ suffix = kf_text f @ suffix"
    by (simp add: f(5))
  have fnd: "sf37_kvstore_find_text_prefix os1 kc1 (Some (?t @ suffix)) SF37_KVSTORE_MODEL_ID
      SF37_KVSTORE_QUANT_BITS (so_ctx ?ops s0) = (Some i, kc2)"
    using assms(11) by (simp add: session_kv_ops_def)
  have "ld_tokens ld = int (length (se_checkpoint s)) \<and> so_tokens ?ops (ld_session ld) = Some (se_checkpoint s) \<and>
    (session_sized (ld_session ld) \<and> kv_complete (ld_session ld)) \<and>
    ld_effective_prompt ld = sf37_kvstore_build_prompt (Some v) (se_checkpoint s) (Some suffix)"
    by (rule sess.load_chosen [OF complete assms(5) ctx f(1) live assms(4) dir(2) fnd read f(3,4,6) sha prompt assms(14)])
  then show ?thesis
    using effective_prompt_text [OF assms(7)] effective_prompt_prefix by (simp add: session_kv_ops_def)
qed

theorem resume_after_store_witness:
  "\<exists>kc1 ld. ld = sf37_kvstore_try_load_text demo_ops demo_os kc1 (Some demo_vocab) flat_fresh
       (Some [7, 8]) (None :: unit trailer_hooks option) () \<and>
     ld_tokens ld = 1 \<and> se_checkpoint (ld_session ld) = [7] \<and> tokens_text demo_vocab (ld_effective_prompt ld) = [7, 8]"
proof -
  obtain kc1 where run: "sf37_kvstore_store_live_prefix_text demo_ops clean_os kv_dir (Some demo_vocab) flat_session
     (Some [7]) 1 (Some (cstr ''cold'')) None 0 (None :: unit trailer_hooks option) () = (True, demo_os, kc1)"
    "kc_opt kc1 = kc_opt kv_dir" "\<not> kc_reject_different_quant kc1"
    using demo_run by blast
  have dir: "kc_dir kc1 = kc_dir kv_dir" "kc_enabled kv_dir" "kc_enabled kc1"
    using store_keeps_dir [OF run(1)] by (simp_all add: kv_dir_def)
  let ?ld = "sf37_kvstore_try_load_text demo_ops demo_os kc1 (Some demo_vocab) flat_fresh
       (Some [7, 8]) (None :: unit trailer_hooks option) ()"
  have t: "tokens_text demo_vocab (se_checkpoint flat_session) = [7]"
    by (simp add: flat_facts tokens_text_def demo_token_text)
  have e: "kc_entry (kv_cache_refresh demo_os kc1) ! 0 = demo_entry"
    by (simp add: demo_entries [OF dir(1,3)])
  have p: "ke_path demo_entry = sf37_kvstore_path_for_sha kv_dir (sf37_kvstore_sha1_bytes_hex [7])"
    by (simp add: demo_entry_def demo_file_path_def)
  have pre: "tokens_text demo_vocab (se_checkpoint flat_session) @ [8] = [7, 8]"
    by (simp add: t)
  have "ld_tokens ?ld = int (length (se_checkpoint flat_session)) \<and>
      se_checkpoint (ld_session ?ld) = se_checkpoint flat_session \<and>
      session_sized (ld_session ?ld) \<and> kv_complete (ld_session ?ld) \<and>
      take (length (se_checkpoint flat_session)) (ld_effective_prompt ?ld) = se_checkpoint flat_session \<and>
      tokens_text demo_vocab (ld_effective_prompt ?ld) = tokens_text demo_vocab (se_checkpoint flat_session) @ [8]"
  proof (rule resume_after_store [OF flat_facts(1-3) _ flat_fresh_facts(1) _ demo_vocab_ok dir(2) run(1)])
    show "sf37_kvstore_find_text_prefix demo_os kc1 (Some (tokens_text demo_vocab (se_checkpoint flat_session) @ [8]))
        SF37_KVSTORE_MODEL_ID SF37_KVSTORE_QUANT_BITS (se_ctx_size flat_fresh) = (Some 0, kv_cache_refresh demo_os kc1)"
      by (simp only: pre flat_fresh_facts(5) demo_find [OF dir(1,3) run(2,3)])
    show "?ld = sf37_kvstore_try_load_text demo_ops demo_os kc1 (Some demo_vocab) flat_fresh
        (Some (tokens_text demo_vocab (se_checkpoint flat_session) @ [8])) (None :: unit trailer_hooks option) ()"
      by (simp only: pre)
    show "ke_path (kc_entry (kv_cache_refresh demo_os kc1) ! 0) = sf37_kvstore_path_for_sha kv_dir
        (sf37_kvstore_sha1_bytes_hex (tokens_text demo_vocab (se_checkpoint flat_session)))"
      by (simp only: e p t)
  qed (simp_all add: flat_facts flat_fresh_facts clean_os_def)
  then show ?thesis
    by (intro exI [of _ kc1] exI [of _ ?ld]) (simp add: flat_facts pre demo_token_text)
qed

end
