(* ===== verification/Gguf.thy ===== *)
theory Gguf
  imports KvHeader "HOL-Library.Monad_Syntax"
begin

section \<open>Reading model files\<close>

text \<open>
  The GGUF reader of \<open>sf37.c\<close>: a cursor over the mapped file (\<open>cursor_need\<close> and the
  readers on it), the walk over metadata values (\<open>skip_value\<close>), tensor sizes
  (\<open>tensor_nbytes\<close>), \<open>gguf_open\<close> itself and the metadata lookups. Words are read with
  \<open>memcpy\<close>, so on the little-endian hosts the program builds for they are little endian.
  Where the C code calls \<open>exit\<close> the model returns \<open>Inl (Exited m)\<close>; the other
  \<open>Inl\<close> values are the messages \<open>gguf_open\<close> formats. Memory is a parameter: \<open>mem n\<close>
  says whether an allocation of \<open>n\<close> bytes succeeds.
\<close>

subsection \<open>Constants and data\<close>

definition SF37_GGUF_MAGIC :: bytes where "SF37_GGUF_MAGIC = cstr ''GGUF''"
definition SF37_GGUF_VERSION :: u32 where "SF37_GGUF_VERSION = 3"
definition SF37_MAX_DIMS :: nat where "SF37_MAX_DIMS = 8"
definition SF37_QK8 :: u64 where "SF37_QK8 = 32"
definition SF37_QK_K :: u64 where "SF37_QK_K = 256"

definition GGUF_VALUE_UINT32 :: u32 where "GGUF_VALUE_UINT32 = 4"
definition GGUF_VALUE_BOOL :: u32 where "GGUF_VALUE_BOOL = 7"
definition GGUF_VALUE_STRING :: u32 where "GGUF_VALUE_STRING = 8"
definition GGUF_VALUE_ARRAY :: u32 where "GGUF_VALUE_ARRAY = 9"

definition SF37_TENSOR_F32 :: u32 where "SF37_TENSOR_F32 = 0"
definition SF37_TENSOR_F16 :: u32 where "SF37_TENSOR_F16 = 1"
definition SF37_TENSOR_Q8_0 :: u32 where "SF37_TENSOR_Q8_0 = 8"
definition SF37_TENSOR_Q2_K :: u32 where "SF37_TENSOR_Q2_K = 10"
definition SF37_TENSOR_Q3_K :: u32 where "SF37_TENSOR_Q3_K = 11"
definition SF37_TENSOR_BF16 :: u32 where "SF37_TENSOR_BF16 = 30"

lemmas gguf_constants =
  GGUF_VALUE_UINT32_def GGUF_VALUE_BOOL_def GGUF_VALUE_STRING_def GGUF_VALUE_ARRAY_def
  SF37_TENSOR_F32_def SF37_TENSOR_F16_def SF37_TENSOR_Q8_0_def SF37_TENSOR_Q2_K_def
  SF37_TENSOR_Q3_K_def SF37_TENSOR_BF16_def SF37_QK8_def SF37_QK_K_def

record sf37_type_info =
  ti_block :: u64
  ti_bytes :: u64

text \<open>The entries of \<open>sf37_type_table\<close> that have a name.\<close>

definition sf37_type_table :: "u32 \<Rightarrow> sf37_type_info option" where
  "sf37_type_table type =
     (if type = SF37_TENSOR_F32 then Some \<lparr>ti_block = 1, ti_bytes = 4\<rparr>
      else if type = SF37_TENSOR_F16 then Some \<lparr>ti_block = 1, ti_bytes = 2\<rparr>
      else if type = SF37_TENSOR_Q8_0 then Some \<lparr>ti_block = SF37_QK8, ti_bytes = 34\<rparr>
      else if type = SF37_TENSOR_Q2_K then Some \<lparr>ti_block = SF37_QK_K, ti_bytes = 84\<rparr>
      else if type = SF37_TENSOR_Q3_K then Some \<lparr>ti_block = SF37_QK_K, ti_bytes = 110\<rparr>
      else if type = SF37_TENSOR_BF16 then Some \<lparr>ti_block = 1, ti_bytes = 2\<rparr>
      else None)"

definition type_supported :: "u32 \<Rightarrow> bool" where
  "type_supported type \<longleftrightarrow> sf37_type_table type \<noteq> None"

text \<open>\<open>sf37_cursor\<close>; the error keeps the message and the position it is formatted with.\<close>

record sf37_cursor =
  cu_data :: bytes
  cu_size :: u64
  cu_pos :: u64
  cu_error :: "(string \<times> u64) option"

record sf37_kv =
  gk_key :: bytes
  gk_type :: u32
  gk_value_pos :: u64

record sf37_tensor =
  tn_name :: bytes
  tn_dim :: "u64 list"
  tn_type :: u32
  tn_rel_offset :: u64
  tn_abs_offset :: u64
  tn_nbytes :: u64

record sf37_gguf =
  gg_map :: bytes
  gg_size :: u64
  gg_version :: u32
  gg_alignment :: u32
  gg_data_offset :: u64
  gg_kv :: "sf37_kv list"
  gg_tensors :: "sf37_tensor list"

datatype gguf_error =
    Open_failed
  | Too_small
  | Parse_error "(string \<times> u64) option"
  | Not_gguf
  | Bad_version u32
  | Bad_ndim bytes u32
  | Bad_layout bytes u32
  | Outside_file bytes
  | Exited string

text \<open>Sequencing of steps that may end with an error.\<close>

definition bind_run :: "gguf_error + 'a \<Rightarrow> ('a \<Rightarrow> gguf_error + 'b) \<Rightarrow> gguf_error + 'b" where
  "bind_run x f = (case x of Inl e \<Rightarrow> Inl e | Inr y \<Rightarrow> f y)"

lemma bind_run_simps [simp]: "bind_run (Inl e) f = Inl e" "bind_run (Inr y) f = f y"
  by (simp_all add: bind_run_def)

lemma bind_run_Inr: "bind_run x f = Inr z \<longleftrightarrow> (\<exists>y. x = Inr y \<and> f y = Inr z)"
  by (simp add: bind_run_def split: sum.split)

subsection \<open>Checked arithmetic and allocation\<close>

definition checked_mul_u64 :: "u64 \<Rightarrow> u64 \<Rightarrow> string \<Rightarrow> gguf_error + u64" where
  "checked_mul_u64 a b what =
     (if a \<noteq> 0 \<and> b > - 1 div a then Inl (Exited what) else Inr (a * b))"

definition align_u64 :: "u64 \<Rightarrow> u64 \<Rightarrow> u64" where
  "align_u64 x n =
     (if n = 0 then x
      else let r = x mod n in if r \<noteq> 0 then x + (n - r) else x)"

text \<open>\<open>calloc\<close> fails when the product does not fit a \<open>size_t\<close> or the memory is not there.\<close>

definition xcalloc :: "(nat \<Rightarrow> bool) \<Rightarrow> u64 \<Rightarrow> nat \<Rightarrow> gguf_error + unit" where
  "xcalloc mem n sz =
     (if unat n * sz < 2 ^ 64 \<and> mem (unat n * sz) then Inr () else Inl (Exited ''out of memory''))"

definition xstrndup :: "(nat \<Rightarrow> bool) \<Rightarrow> bytes \<Rightarrow> gguf_error + bytes" where
  "xstrndup mem s =
     (if length s > 2 ^ 64 - 2 then Inl (Exited ''string too large'')
      else if mem (length s + 1) then Inr s else Inl (Exited ''out of memory''))"

text \<open>What \<open>strcmp\<close> sees of a buffer: the bytes before the first NUL.\<close>

definition c_str :: "bytes \<Rightarrow> bytes" where
  "c_str s = takeWhile (\<lambda>b. b \<noteq> 0) s"

definition strcmp_eq :: "bytes \<Rightarrow> bytes \<Rightarrow> bool" where
  "strcmp_eq s t \<longleftrightarrow> c_str s = c_str t"

subsection \<open>The cursor\<close>

definition cursor_fail :: "sf37_cursor \<Rightarrow> string \<Rightarrow> sf37_cursor" where
  "cursor_fail c msg = (if cu_error c = None then c\<lparr>cu_error := Some (msg, cu_pos c)\<rparr> else c)"

definition cursor_need :: "sf37_cursor \<Rightarrow> u64 \<Rightarrow> bool \<times> sf37_cursor" where
  "cursor_need c n =
     (if n > cu_size c \<or> cu_pos c > cu_size c - n then (False, cursor_fail c ''truncated GGUF'')
      else (True, c))"

definition cursor_bytes :: "sf37_cursor \<Rightarrow> nat \<Rightarrow> bytes" where
  "cursor_bytes c n = take n (drop (unat (cu_pos c)) (cu_data c))"

definition cursor_u32 :: "sf37_cursor \<Rightarrow> u32 option \<times> sf37_cursor" where
  "cursor_u32 c =
     (case cursor_need c 4 of
        (False, c) \<Rightarrow> (None, c)
      | (True, c) \<Rightarrow> (Some (sf37_kvstore_le_get32 (cursor_bytes c 4)), c\<lparr>cu_pos := cu_pos c + 4\<rparr>))"

definition cursor_u64 :: "sf37_cursor \<Rightarrow> u64 option \<times> sf37_cursor" where
  "cursor_u64 c =
     (case cursor_need c 8 of
        (False, c) \<Rightarrow> (None, c)
      | (True, c) \<Rightarrow> (Some (kv_le_get64 (cursor_bytes c 8)), c\<lparr>cu_pos := cu_pos c + 8\<rparr>))"

definition cursor_skip :: "sf37_cursor \<Rightarrow> u64 \<Rightarrow> bool \<times> sf37_cursor" where
  "cursor_skip c n =
     (case cursor_need c n of
        (False, c) \<Rightarrow> (False, c)
      | (True, c) \<Rightarrow> (True, c\<lparr>cu_pos := cu_pos c + n\<rparr>))"

definition cursor_string :: "sf37_cursor \<Rightarrow> bytes option \<times> sf37_cursor" where
  "cursor_string c =
     (case cursor_u64 c of
        (None, c) \<Rightarrow> (None, c)
      | (Some len, c) \<Rightarrow>
          (case cursor_need c len of
             (False, c) \<Rightarrow> (None, c)
           | (True, c) \<Rightarrow> (Some (cursor_bytes c (unat len)), c\<lparr>cu_pos := cu_pos c + len\<rparr>)))"

subsection \<open>Metadata values and tensor sizes\<close>

definition gguf_value_size :: "u32 \<Rightarrow> u64" where
  "gguf_value_size type =
     (if type = 0 \<or> type = 1 \<or> type = GGUF_VALUE_BOOL then 1
      else if type = 2 \<or> type = 3 then 2
      else if type = GGUF_VALUE_UINT32 \<or> type = 5 \<or> type = 6 then 4
      else if type = 10 \<or> type = 11 \<or> type = 12 then 8
      else 0)"

text \<open>\<open>skip_value\<close> and its loop over the elements of an array, with the number of elements
  left. The depth limit bounds the recursion.\<close>

function skip_value :: "sf37_cursor \<Rightarrow> u32 \<Rightarrow> nat \<Rightarrow> gguf_error + (bool \<times> sf37_cursor)"
  and skip_elems :: "sf37_cursor \<Rightarrow> nat \<Rightarrow> u32 \<Rightarrow> nat \<Rightarrow> gguf_error + (bool \<times> sf37_cursor)" where
  "skip_value c type depth =
     (if depth > 2 then Inr (False, cursor_fail c ''nested GGUF array is too deep'')
      else if type = GGUF_VALUE_STRING then
        (case cursor_string c of (s, c) \<Rightarrow> Inr (s \<noteq> None, c))
      else if type = GGUF_VALUE_ARRAY then
        (case cursor_u32 c of
           (None, c) \<Rightarrow> Inr (False, c)
         | (Some elem_type, c) \<Rightarrow>
             (case cursor_u64 c of
                (None, c) \<Rightarrow> Inr (False, c)
              | (Some n, c) \<Rightarrow>
                  let elem_size = gguf_value_size elem_type in
                  if elem_size \<noteq> 0 then
                    (case checked_mul_u64 n elem_size ''metadata array'' of
                       Inl e \<Rightarrow> Inl e
                     | Inr m \<Rightarrow> Inr (cursor_skip c m))
                  else skip_elems c (unat n) elem_type depth))
      else
        (let size = gguf_value_size type in
         if size = 0 then Inr (False, cursor_fail c ''unknown GGUF metadata type'')
         else Inr (cursor_skip c size)))"
| "skip_elems c 0 elem_type depth = Inr (True, c)"
| "skip_elems c (Suc n) elem_type depth =
     (case skip_value c elem_type (depth + 1) of
        Inl e \<Rightarrow> Inl e
      | Inr (False, c) \<Rightarrow> Inr (False, c)
      | Inr (True, c) \<Rightarrow> skip_elems c n elem_type depth)"
  by pat_completeness auto

termination
proof (relation "measures [\<lambda>x. case x of
      Inl (c, type, d) \<Rightarrow> if d > 2 then 0 else 2 * (3 - d)
    | Inr (c, n, type, d) \<Rightarrow> if d > 2 then 1 else 2 * (3 - d) - 1,
    \<lambda>x. case x of Inl _ \<Rightarrow> 0 | Inr (c, n, type, d) \<Rightarrow> n]", goal_cases)
qed (auto simp: numeral_eq_Suc)

declare skip_value.simps [simp del]

text \<open>The product of the dimensions, as the loop of \<open>tensor_nbytes\<close> computes it.\<close>

fun dims_product :: "u64 \<Rightarrow> u64 list \<Rightarrow> gguf_error + u64" where
  "dims_product elems [] = Inr elems"
| "dims_product elems (d # ds) =
     bind_run (checked_mul_u64 elems d ''tensor elements'') (\<lambda>elems. dims_product elems ds)"

definition tensor_nbytes :: "u32 \<Rightarrow> u64 list \<Rightarrow> gguf_error + u64" where
  "tensor_nbytes type dim =
     (case sf37_type_table type of
        None \<Rightarrow> Inr 0
      | Some ti \<Rightarrow>
          if dim = [] \<or> length dim > SF37_MAX_DIMS then Inr 0
          else bind_run (dims_product 1 dim) (\<lambda>elems.
            if ti_block ti = 1 then checked_mul_u64 elems (ti_bytes ti) ''tensor bytes''
            else if (dim ! 0) mod ti_block ti \<noteq> 0 \<or> elems mod ti_block ti \<noteq> 0 then Inr 0
            else checked_mul_u64 (elems div ti_block ti) (ti_bytes ti) ''quant tensor bytes''))"

subsection \<open>Opening a file\<close>

text \<open>A parse step that fails jumps to \<open>parse_error\<close>, which reports the cursor's message.\<close>

definition parse_step :: "'a option \<times> sf37_cursor \<Rightarrow> gguf_error + ('a \<times> sf37_cursor)" where
  "parse_step r = (case r of (None, c) \<Rightarrow> Inl (Parse_error (cu_error c)) | (Some v, c) \<Rightarrow> Inr (v, c))"

lemma parse_step_simps [simp]:
  "parse_step (None, c) = Inl (Parse_error (cu_error c))"
  "parse_step (Some v, c) = Inr (v, c)"
  by (simp_all add: parse_step_def)

text \<open>The metadata loop, for the number of entries left. The key \<open>general.alignment\<close> is
  looked at while the file is read.\<close>

definition kv_alignment :: "bytes \<Rightarrow> u32 \<Rightarrow> sf37_cursor \<Rightarrow> u32 \<Rightarrow> u32" where
  "kv_alignment key type c alignment =
     (if strcmp_eq key (cstr ''general.alignment'') \<and> type = GGUF_VALUE_UINT32
      then (case cursor_u32 c of (Some a, _) \<Rightarrow> if a \<noteq> 0 then a else alignment | (None, _) \<Rightarrow> alignment)
      else alignment)"

fun gguf_read_kvs ::
  "(nat \<Rightarrow> bool) \<Rightarrow> nat \<Rightarrow> sf37_cursor \<Rightarrow> u32 \<Rightarrow> gguf_error + (sf37_kv list \<times> sf37_cursor \<times> u32)" where
  "gguf_read_kvs mem 0 c alignment = Inr ([], c, alignment)"
| "gguf_read_kvs mem (Suc n) c alignment =
     bind_run (parse_step (cursor_string c)) (\<lambda>(key, c).
     bind_run (parse_step (cursor_u32 c)) (\<lambda>(type, c).
     bind_run (xstrndup mem key) (\<lambda>key.
     let kv = \<lparr>gk_key = key, gk_type = type, gk_value_pos = cu_pos c\<rparr>;
         alignment = kv_alignment key type c alignment
     in bind_run (skip_value c type 0) (\<lambda>(ok, c).
        if \<not> ok then Inl (Parse_error (cu_error c))
        else bind_run (gguf_read_kvs mem n c alignment) (\<lambda>(kvs, c, alignment).
          Inr (kv # kvs, c, alignment))))))"

fun gguf_read_dims :: "nat \<Rightarrow> sf37_cursor \<Rightarrow> gguf_error + (u64 list \<times> sf37_cursor)" where
  "gguf_read_dims 0 c = Inr ([], c)"
| "gguf_read_dims (Suc n) c =
     bind_run (parse_step (cursor_u64 c)) (\<lambda>(d, c).
     bind_run (gguf_read_dims n c) (\<lambda>(ds, c). Inr (d # ds, c)))"

fun gguf_read_tensors ::
  "(nat \<Rightarrow> bool) \<Rightarrow> nat \<Rightarrow> sf37_cursor \<Rightarrow> gguf_error + (sf37_tensor list \<times> sf37_cursor)" where
  "gguf_read_tensors mem 0 c = Inr ([], c)"
| "gguf_read_tensors mem (Suc n) c =
     bind_run (parse_step (cursor_string c)) (\<lambda>(name, c).
     bind_run (parse_step (cursor_u32 c)) (\<lambda>(ndim, c).
     if ndim = 0 \<or> unat ndim > SF37_MAX_DIMS then Inl (Bad_ndim name ndim)
     else
     bind_run (xstrndup mem name) (\<lambda>name.
     bind_run (gguf_read_dims (unat ndim) c) (\<lambda>(dim, c).
     bind_run (parse_step (cursor_u32 c)) (\<lambda>(type, c).
     bind_run (parse_step (cursor_u64 c)) (\<lambda>(rel_offset, c).
     bind_run (tensor_nbytes type dim) (\<lambda>nbytes.
     if nbytes = 0 then Inl (Bad_layout name type)
     else bind_run (gguf_read_tensors mem n c) (\<lambda>(ts, c).
       Inr (\<lparr>tn_name = name, tn_dim = dim, tn_type = type, tn_rel_offset = rel_offset,
              tn_abs_offset = 0, tn_nbytes = nbytes\<rparr> # ts, c)))))))))"

text \<open>Placing the tensors in the file; the addition wraps.\<close>

fun gguf_place :: "u64 \<Rightarrow> u64 \<Rightarrow> sf37_tensor list \<Rightarrow> gguf_error + sf37_tensor list" where
  "gguf_place data_offset sz [] = Inr []"
| "gguf_place data_offset sz (t # ts) =
     (let t = t\<lparr>tn_abs_offset := data_offset + tn_rel_offset t\<rparr>
      in if tn_abs_offset t > sz \<or> tn_nbytes t > sz - tn_abs_offset t
         then Inl (Outside_file (tn_name t))
         else bind_run (gguf_place data_offset sz ts) (\<lambda>ts. Inr (t # ts)))"

text \<open>\<open>gguf_open\<close> on the content of the file; \<open>None\<close> when it cannot be opened and mapped.
  \<open>sizeof(sf37_kv)\<close> is 24 and \<open>sizeof(sf37_tensor)\<close> is 112.\<close>

definition gguf_open :: "(nat \<Rightarrow> bool) \<Rightarrow> bytes option \<Rightarrow> gguf_error + sf37_gguf" where
  "gguf_open mem content =
     (case content of
        None \<Rightarrow> Inl Open_failed
      | Some data \<Rightarrow>
          if length data < 32 then Inl Too_small
          else
          let sz = of_nat (length data);
              c = \<lparr>cu_data = data, cu_size = sz, cu_pos = 0, cu_error = None\<rparr>;
              (ok, c) = cursor_need c 4
          in if \<not> ok then Inl (Parse_error (cu_error c))
          else if cursor_bytes c 4 \<noteq> SF37_GGUF_MAGIC then Inl Not_gguf
          else
          let c = c\<lparr>cu_pos := 4\<rparr> in
          bind_run (parse_step (cursor_u32 c)) (\<lambda>(version, c).
          bind_run (parse_step (cursor_u64 c)) (\<lambda>(n_tensors, c).
          bind_run (parse_step (cursor_u64 c)) (\<lambda>(n_kv, c).
          if version \<noteq> SF37_GGUF_VERSION then Inl (Bad_version version)
          else
          bind_run (xcalloc mem n_kv 24) (\<lambda>_.
          bind_run (gguf_read_kvs mem (unat n_kv) c 32) (\<lambda>(kvs, c, alignment).
          bind_run (xcalloc mem n_tensors 112) (\<lambda>_.
          bind_run (gguf_read_tensors mem (unat n_tensors) c) (\<lambda>(ts, c).
          let data_offset = align_u64 (cu_pos c) (ucast alignment) in
          bind_run (gguf_place data_offset sz ts) (\<lambda>ts.
          Inr \<lparr>gg_map = data, gg_size = sz, gg_version = version, gg_alignment = alignment,
               gg_data_offset = data_offset, gg_kv = kvs, gg_tensors = ts\<rparr>)))))))))"

subsection \<open>Lookups\<close>

definition find_kv :: "sf37_gguf \<Rightarrow> bytes \<Rightarrow> sf37_kv option" where
  "find_kv g key = List.find (\<lambda>kv. strcmp_eq (gk_key kv) key) (gg_kv g)"

definition kv_cursor :: "sf37_gguf \<Rightarrow> sf37_kv \<Rightarrow> sf37_cursor" where
  "kv_cursor g kv = \<lparr>cu_data = gg_map g, cu_size = gg_size g, cu_pos = gk_value_pos kv, cu_error = None\<rparr>"

definition kv_string :: "sf37_gguf \<Rightarrow> bytes \<Rightarrow> bytes option" where
  "kv_string g key =
     (case find_kv g key of
        None \<Rightarrow> None
      | Some kv \<Rightarrow> if gk_type kv \<noteq> GGUF_VALUE_STRING then None else fst (cursor_string (kv_cursor g kv)))"

definition kv_u32 :: "sf37_gguf \<Rightarrow> bytes \<Rightarrow> u32 option" where
  "kv_u32 g key =
     (case find_kv g key of
        None \<Rightarrow> None
      | Some kv \<Rightarrow> if gk_type kv \<noteq> GGUF_VALUE_UINT32 then None else fst (cursor_u32 (kv_cursor g kv)))"

definition kv_bool :: "sf37_gguf \<Rightarrow> bytes \<Rightarrow> bool option" where
  "kv_bool g key =
     (case find_kv g key of
        None \<Rightarrow> None
      | Some kv \<Rightarrow>
          if gk_type kv \<noteq> GGUF_VALUE_BOOL \<or> gk_value_pos kv \<ge> gg_size g then None
          else Some (gg_map g ! unat (gk_value_pos kv) \<noteq> 0))"

definition str_eq :: "bytes \<Rightarrow> bytes \<Rightarrow> bool" where
  "str_eq s lit \<longleftrightarrow> length s = length lit \<and> s = lit"

definition find_tensor :: "sf37_gguf \<Rightarrow> bytes \<Rightarrow> sf37_tensor option" where
  "find_tensor g name = List.find (\<lambda>t. strcmp_eq (tn_name t) name) (gg_tensors g)"

text \<open>The bytes a tensor's data pointer reaches: from its offset to the end of the map.\<close>

definition tensor_data :: "sf37_gguf \<Rightarrow> sf37_tensor \<Rightarrow> bytes" where
  "tensor_data g t = drop (unat (tn_abs_offset t)) (gg_map g)"

subsection \<open>The cursor stays inside the file\<close>

definition cursor_ok :: "sf37_cursor \<Rightarrow> bool" where
  "cursor_ok c \<longleftrightarrow> cu_size c = of_nat (length (cu_data c)) \<and> length (cu_data c) < 2 ^ 63 \<and>
     unat (cu_pos c) \<le> length (cu_data c)"

definition advance :: "sf37_cursor \<Rightarrow> nat \<Rightarrow> sf37_cursor" where
  "advance c n = c\<lparr>cu_pos := cu_pos c + of_nat n\<rparr>"

lemma advance_simps [simp]:
  "cu_data (advance c n) = cu_data c" "cu_size (advance c n) = cu_size c" "cu_error (advance c n) = cu_error c"
  "advance c 0 = c" "advance (advance c m) n = advance c (m + n)" "cu_pos (advance c n) = cu_pos c + of_nat n"
  by (simp_all add: advance_def add.assoc)

lemma advance_of_word: "c\<lparr>cu_pos := cu_pos c + n\<rparr> = advance c (unat n)"
  by (simp add: advance_def)

lemma size_63: "n < 2 ^ 63 \<Longrightarrow> unat (of_nat n :: u64) = n"
  by (rule unat_of_nat_64) simp

lemma cursor_ok_advance:
  assumes "cursor_ok c" and "unat (cu_pos c) + n \<le> length (cu_data c)"
  shows "cursor_ok (advance c n)" and "unat (cu_pos (advance c n)) = unat (cu_pos c) + n"
proof -
  have b: "unat (cu_pos c) + n < 2 ^ 63"
    using assms by (simp add: cursor_ok_def)
  have u: "unat (of_nat n :: u64) = n"
    using b by (intro size_63) simp
  show pos: "unat (cu_pos (advance c n)) = unat (cu_pos c) + n"
    using unat_add_no_overflow [of "cu_pos c" "of_nat n"] b by (simp add: u)
  show "cursor_ok (advance c n)"
    using assms pos by (simp add: cursor_ok_def)
qed

lemma cursor_need_iff:
  assumes "cursor_ok c"
  shows "cursor_need c n =
    (if unat (cu_pos c) + unat n \<le> length (cu_data c) then (True, c) else (False, cursor_fail c ''truncated GGUF''))"
proof -
  have s: "unat (cu_size c) = length (cu_data c)" "unat (cu_pos c) \<le> length (cu_data c)"
    using assms size_63 by (simp_all add: cursor_ok_def)
  have d: "unat (cu_size c - n) = length (cu_data c) - unat n" if "\<not> n > cu_size c"
    using that s unat_sub [of n "cu_size c"] by simp
  show ?thesis
  proof (cases "n > cu_size c")
    case True
    then show ?thesis
      using s by (auto simp: cursor_need_def word_less_nat_alt)
  next
    case False
    then have "unat n \<le> length (cu_data c)"
      using s by (simp add: word_less_nat_alt)
    moreover have "cu_pos c > cu_size c - n \<longleftrightarrow> length (cu_data c) - unat n < unat (cu_pos c)"
      by (simp add: word_less_nat_alt d [OF False])
    ultimately show ?thesis
      using False s by (auto simp: cursor_need_def)
  qed
qed

lemma cursor_fail_ok [simp]: "cursor_ok (cursor_fail c m) \<longleftrightarrow> cursor_ok c" "cu_data (cursor_fail c m) = cu_data c"
  by (simp_all add: cursor_fail_def cursor_ok_def)

text \<open>A cursor that only moves forward in the same file.\<close>

definition moves :: "sf37_cursor \<Rightarrow> sf37_cursor \<Rightarrow> bool" where
  "moves c c' \<longleftrightarrow> (cursor_ok c \<longrightarrow> cursor_ok c' \<and> cu_data c' = cu_data c \<and> unat (cu_pos c) \<le> unat (cu_pos c'))"

lemma moves_refl [simp, intro]: "moves c c"
  by (simp add: moves_def)

lemma moves_trans: "moves a b \<Longrightarrow> moves b c \<Longrightarrow> moves a c"
  by (auto simp: moves_def)

lemma moves_fail [simp, intro]: "moves c (cursor_fail c m)"
  by (simp add: moves_def) (simp add: cursor_fail_def)

lemma moves_advance: "cursor_need c n = (True, c') \<Longrightarrow> moves c (c'\<lparr>cu_pos := cu_pos c' + n\<rparr>)"
  unfolding moves_def
proof
  assume n: "cursor_need c n = (True, c')" and ok: "cursor_ok c"
  then have "c' = c" "unat (cu_pos c) + unat n \<le> length (cu_data c)"
    by (auto simp: cursor_need_iff split: if_splits)
  then show "cursor_ok (c'\<lparr>cu_pos := cu_pos c' + n\<rparr>) \<and> cu_data (c'\<lparr>cu_pos := cu_pos c' + n\<rparr>) = cu_data c \<and>
      unat (cu_pos c) \<le> unat (cu_pos (c'\<lparr>cu_pos := cu_pos c' + n\<rparr>))"
    using cursor_ok_advance [OF ok, of "unat n"] by (simp only: advance_of_word) simp
qed

lemma moves_need: "cursor_need c n = (b, c') \<Longrightarrow> moves c c'"
  by (auto simp: cursor_need_def split: if_splits)

lemma cursor_moves:
  "cursor_u32 c = (r32, c') \<Longrightarrow> moves c c'" "cursor_u64 c = (r64, c') \<Longrightarrow> moves c c'"
  "cursor_skip c n = (b, c') \<Longrightarrow> moves c c'" "cursor_string c = (rs, c') \<Longrightarrow> moves c c'"
proof -
  show "cursor_u32 c = (r32, c') \<Longrightarrow> moves c c'" "cursor_skip c n = (b, c') \<Longrightarrow> moves c c'"
    by (auto simp: cursor_u32_def cursor_skip_def split: prod.splits bool.splits dest: moves_need moves_advance)
  show u64: "cursor_u64 c = (r64, c') \<Longrightarrow> moves c c'" for c r64 c'
    by (auto simp: cursor_u64_def split: prod.splits bool.splits dest: moves_need moves_advance)
  show "cursor_string c = (rs, c') \<Longrightarrow> moves c c'"
    by (auto simp: cursor_string_def split: prod.splits bool.splits option.splits
        dest: moves_need moves_advance u64 intro: moves_trans)
qed

lemma skip_moves:
  "skip_value c type d = Inr (b, c') \<Longrightarrow> moves c c'"
  "skip_elems c n type d = Inr (b, c') \<Longrightarrow> moves c c'"
proof (induction c type d and c n type d arbitrary: b c' and b c' rule: skip_value_skip_elems.induct)
  case (1 c type depth)
  show ?case
  proof (cases "depth \<le> 2 \<and> type = GGUF_VALUE_ARRAY")
    case True
    obtain t c1 m c2 where s: "cursor_u32 c = (t, c1)" "cursor_u64 c1 = (m, c2)"
      by fastforce
    note mv = cursor_moves(1) [OF s(1)] moves_trans [OF cursor_moves(1) [OF s(1)] cursor_moves(2) [OF s(2)]]
    note IH = 1(1) [OF _ _ _ s(1) [symmetric] _ s(2) [symmetric] _ refl]
    show ?thesis
      using 1(2) True s mv
      by (subst (asm) skip_value.simps)
        (auto simp: Let_def gguf_constants split: if_splits option.splits sum.splits
          dest: cursor_moves(3) IH [rotated -1] intro: moves_trans)
  next
    case False
    then show ?thesis
      using 1(2) by (subst (asm) skip_value.simps)
        (auto simp: Let_def split: if_splits prod.splits dest: cursor_moves(3,4))
  qed
next
  case (3 c n elem_type depth)
  show ?case
  proof (cases "skip_value c elem_type (depth + 1)")
    case (Inr r)
    then obtain ok c1 where r: "skip_value c elem_type (depth + 1) = Inr (ok, c1)"
      by (cases r) simp
    show ?thesis
      using 3(1) [OF r] 3(2) [OF r] 3(3) r by (cases ok) (auto intro: moves_trans)
  qed (use 3(3) in simp)
qed simp

subsection \<open>What an opened file satisfies\<close>

lemma parse_step_Inr: "parse_step r = Inr (v, c) \<longleftrightarrow> r = (Some v, c)"
  by (cases r) (auto simp: parse_step_def split: option.splits)

lemma xstrndup_Inr: "xstrndup mem s = Inr t \<Longrightarrow> t = s"
  by (simp add: xstrndup_def split: if_splits)

lemma read_kvs_sound:
  assumes "gguf_read_kvs mem n c al = Inr (kvs, c', al')"
  shows "moves c c' \<and> length kvs = n \<and>
    (cursor_ok c \<longrightarrow> (\<forall>kv \<in> set kvs. unat (gk_value_pos kv) \<le> length (cu_data c)))"
  using assms
proof (induction n arbitrary: c al kvs)
  case (Suc n)
  from Suc.prems obtain key c1 type c2 ok c3 kvs1 al1 where s:
    "cursor_string c = (Some key, c1)" "cursor_u32 c1 = (Some type, c2)"
    "skip_value c2 type 0 = Inr (True, c3)" "gguf_read_kvs mem n c3 al1 = Inr (kvs1, c', al')"
    "kvs = \<lparr>gk_key = key, gk_type = type, gk_value_pos = cu_pos c2\<rparr> # kvs1"
    by (auto simp: bind_run_Inr parse_step_Inr Let_def dest: xstrndup_Inr split: if_splits)
  have c2: "moves c c2"
    by (rule moves_trans [OF cursor_moves(4) [OF s(1)] cursor_moves(1) [OF s(2)]])
  have c3: "moves c c3"
    by (rule moves_trans [OF c2 skip_moves(1) [OF s(3)]])
  have IH: "moves c3 c'" "length kvs1 = n"
    "cursor_ok c3 \<Longrightarrow> kv \<in> set kvs1 \<Longrightarrow> unat (gk_value_pos kv) \<le> length (cu_data c3)" for kv
    using Suc.IH [OF s(4)] by blast+
  have "unat (cu_pos c2) \<le> length (cu_data c)" if "cursor_ok c"
    using c2 that by (auto simp: moves_def cursor_ok_def)
  moreover have "unat (gk_value_pos kv) \<le> length (cu_data c)" if "cursor_ok c" "kv \<in> set kvs1" for kv
    using IH(3) [OF _ that(2)] c3 that(1) by (simp add: moves_def)
  ultimately show ?case
    using moves_trans [OF c3 IH(1)] IH(2) by (simp add: s(5))
qed simp

lemma read_dims_sound:
  "gguf_read_dims n c = Inr (ds, c') \<Longrightarrow> moves c c' \<and> length ds = n"
  by (induction n arbitrary: c ds)
    (auto simp: bind_run_Inr parse_step_Inr dest!: cursor_moves(2) intro: moves_trans)

lemma read_tensors_sound:
  assumes "gguf_read_tensors mem n c = Inr (ts, c')"
  shows "moves c c' \<and> length ts = n \<and>
    (\<forall>t \<in> set ts. tn_dim t \<noteq> [] \<and> length (tn_dim t) \<le> SF37_MAX_DIMS \<and>
       tensor_nbytes (tn_type t) (tn_dim t) = Inr (tn_nbytes t) \<and> tn_nbytes t \<noteq> 0)"
  using assms
proof (induction n arbitrary: c ts)
  case (Suc n)
  from Suc.prems obtain name c1 nd c2 dim c3 type c4 off c5 nb ts1 where s:
    "cursor_string c = (Some name, c1)" "cursor_u32 c1 = (Some nd, c2)" "nd \<noteq> 0" "unat nd \<le> SF37_MAX_DIMS"
    "gguf_read_dims (unat nd) c2 = Inr (dim, c3)" "cursor_u32 c3 = (Some type, c4)"
    "cursor_u64 c4 = (Some off, c5)" "tensor_nbytes type dim = Inr nb" "nb \<noteq> 0"
    "gguf_read_tensors mem n c5 = Inr (ts1, c')"
    "ts = \<lparr>tn_name = name, tn_dim = dim, tn_type = type, tn_rel_offset = off, tn_abs_offset = 0, tn_nbytes = nb\<rparr> # ts1"
    by (auto simp: bind_run_Inr parse_step_Inr Let_def dest: xstrndup_Inr split: if_splits)
  have d: "dim \<noteq> []" "length dim \<le> SF37_MAX_DIMS"
    using read_dims_sound [OF s(5)] s(3,4) by (auto simp: unat_eq_0)
  have "moves c c5"
    using cursor_moves(4) [OF s(1)] cursor_moves(1) [OF s(2)] read_dims_sound [OF s(5)]
      cursor_moves(1) [OF s(6)] cursor_moves(2) [OF s(7)] moves_trans by metis
  then show ?case
    using Suc.IH [OF s(10)] s(8,9,11) d by (auto intro: moves_trans)
qed simp

lemma place_sound:
  assumes "gguf_place off sz ts = Inr ts'"
  shows "length ts' = length ts \<and> (\<forall>t \<in> set ts'. unat (tn_abs_offset t) + unat (tn_nbytes t) \<le> unat sz) \<and>
    map (\<lambda>t. t\<lparr>tn_abs_offset := 0\<rparr>) ts' = map (\<lambda>t. t\<lparr>tn_abs_offset := 0\<rparr>) ts"
  using assms
proof (induction ts arbitrary: ts')
  case (Cons t ts)
  let ?a = "off + tn_rel_offset t"
  from Cons.prems obtain ts1 where s: "\<not> ?a > sz" "\<not> tn_nbytes t > sz - ?a"
    "gguf_place off sz ts = Inr ts1" "ts' = t\<lparr>tn_abs_offset := ?a\<rparr> # ts1"
    by (auto simp: bind_run_Inr Let_def split: if_splits)
  have "unat (sz - ?a) = unat sz - unat ?a" "unat ?a \<le> unat sz"
    using s(1) unat_sub [of ?a sz] by (simp_all add: word_le_nat_alt word_less_nat_alt)
  then have "unat ?a + unat (tn_nbytes t) \<le> unat sz"
    using s(2) by (simp add: word_less_nat_alt)
  then show ?case
    using Cons.IH [OF s(3)] s(4) by simp
qed simp

subsection \<open>Exact sizes\<close>

lemma checked_mul_u64_iff:
  "checked_mul_u64 a b w = (if unat a * unat b < 2 ^ 64 then Inr (a * b) else Inl (Exited w))"
proof (cases "a = 0")
  case False
  then have a: "0 < unat a"
    by (simp add: unat_gt_0)
  have m: "unat (- 1 :: u64) = 2 ^ 64 - 1"
    by (simp only: unsigned_minus_1_eq_mask mask_eq_exp_minus_1) simp
  have "b > - 1 div a \<longleftrightarrow> (2 ^ 64 - 1) div unat a < unat b"
    by (simp add: word_less_nat_alt unat_div m)
  also have "\<dots> \<longleftrightarrow> 2 ^ 64 - 1 < unat b * unat a"
    by (rule div_less_iff_less_mult [OF a])
  finally have "b > - 1 div a \<longleftrightarrow> \<not> unat a * unat b < 2 ^ 64"
    by (auto simp: mult.commute)
  then show ?thesis
    using False by (simp add: checked_mul_u64_def)
qed (simp add: checked_mul_u64_def)

lemma checked_mul_u64_Inr:
  "checked_mul_u64 a b w = Inr m \<longleftrightarrow> unat a * unat b < 2 ^ 64 \<and> m = a * b"
  by (auto simp: checked_mul_u64_iff)

lemma unat_mult_64: "unat (a :: u64) * unat b < 2 ^ 64 \<Longrightarrow> unat (a * b) = unat a * unat b"
  by (simp add: unat_word_ariths)

lemma dims_product_exact:
  "dims_product e ds = Inr m \<Longrightarrow> unat m = unat e * prod_list (map unat ds)"
  by (induction ds arbitrary: e)
    (auto simp: bind_run_Inr checked_mul_u64_Inr unat_mult_64 mult.assoc)

text \<open>The size of a tensor in unbounded numbers: whole blocks of its type.\<close>

definition tensor_size :: "sf37_type_info \<Rightarrow> u64 list \<Rightarrow> nat" where
  "tensor_size ti dim = prod_list (map unat dim) div unat (ti_block ti) * unat (ti_bytes ti)"

lemma tensor_nbytes_exact:
  assumes "tensor_nbytes type dim = Inr nb" and "nb \<noteq> 0"
  obtains ti where "sf37_type_table type = Some ti" "unat nb = tensor_size ti dim"
    "unat (ti_block ti) dvd unat (dim ! 0)"
proof -
  obtain ti where ti: "sf37_type_table type = Some ti"
    using assms by (auto simp: tensor_nbytes_def split: option.splits)
  define f where "f elems = (if ti_block ti = 1 then checked_mul_u64 elems (ti_bytes ti) ''tensor bytes''
      else if (dim ! 0) mod ti_block ti \<noteq> 0 \<or> elems mod ti_block ti \<noteq> 0 then Inr 0
      else checked_mul_u64 (elems div ti_block ti) (ti_bytes ti) ''quant tensor bytes'')" for elems
  have "tensor_nbytes type dim = (if dim = [] \<or> length dim > SF37_MAX_DIMS then Inr 0 else bind_run (dims_product 1 dim) f)"
    by (simp add: tensor_nbytes_def ti f_def [abs_def])
  then have "bind_run (dims_product 1 dim) f = Inr nb"
    using assms by (simp split: if_split_asm)
  then obtain m where m: "dims_product 1 dim = Inr m" "f m = Inr nb"
    by (auto simp: bind_run_Inr)
  note m = m(1) m(2) [unfolded f_def]
  have p: "unat m = prod_list (map unat dim)"
    using dims_product_exact [OF m(1)] by simp
  show thesis
  proof (rule that [OF ti])
    show "unat nb = tensor_size ti dim"
      using m(2) assms(2)
      by (auto simp: tensor_size_def p [symmetric] checked_mul_u64_Inr unat_mult_64 unat_div split: if_splits)
    have "(dim ! 0) mod ti_block ti = 0 \<Longrightarrow> unat (ti_block ti) dvd unat (dim ! 0)"
      using unat_mod [of "dim ! 0" "ti_block ti"] by (simp add: dvd_eq_mod_eq_0 [symmetric])
    then show "unat (ti_block ti) dvd unat (dim ! 0)"
      using m(2) assms(2) by (auto split: if_splits)
  qed
qed

lemma gguf_open_unfold:
  assumes "gguf_open mem (Some data) = Inr g" and "length data < 2 ^ 63"
  obtains c nt nkv c1 kvs c2 al ts c3 where
    "cursor_ok c" "cu_data c = data" "gguf_read_kvs mem nkv c 32 = Inr (kvs, c2, al)"
    "gguf_read_tensors mem nt c2 = Inr (ts, c3)"
    "gguf_place (align_u64 (cu_pos c3) (ucast al)) (of_nat (length data)) ts = Inr (gg_tensors g)"
    "gg_map g = data" "gg_size g = of_nat (length data)" "gg_kv g = kvs"
    "gg_data_offset g = align_u64 (cu_pos c3) (ucast al)"
proof -
  let ?c = "\<lparr>cu_data = data, cu_size = of_nat (length data), cu_pos = 0, cu_error = None\<rparr>"
  from assms(1) have l: "\<not> length data < 32"
    by (auto simp: gguf_open_def Let_def)
  have c0: "cursor_ok ?c"
    using assms(2) by (simp add: cursor_ok_def)
  have need: "cursor_need ?c 4 = (True, ?c)"
    using l by (simp add: cursor_need_iff [OF c0])
  have c4: "cursor_ok (?c\<lparr>cu_pos := 4\<rparr>)"
    using l assms(2) by (simp add: cursor_ok_def)
  from assms(1) l obtain v c1 nt c2 nkv c3 kvs c4 al ts c5 where s:
    "cursor_u32 (?c\<lparr>cu_pos := 4\<rparr>) = (Some v, c1)" "cursor_u64 c1 = (Some nt, c2)" "cursor_u64 c2 = (Some nkv, c3)"
    "gguf_read_kvs mem (unat nkv) c3 32 = Inr (kvs, c4, al)" "gguf_read_tensors mem (unat nt) c4 = Inr (ts, c5)"
    "gguf_place (align_u64 (cu_pos c5) (ucast al)) (of_nat (length data)) ts = Inr (gg_tensors g)"
    "gg_map g = data" "gg_size g = of_nat (length data)" "gg_kv g = kvs"
    "gg_data_offset g = align_u64 (cu_pos c5) (ucast al)"
    by (auto simp: gguf_open_def need Let_def bind_run_Inr parse_step_Inr split: if_splits)
  have "moves (?c\<lparr>cu_pos := 4\<rparr>) c3"
    by (rule moves_trans [OF moves_trans [OF cursor_moves(1) [OF s(1)] cursor_moves(2) [OF s(2)]] cursor_moves(2) [OF s(3)]])
  with c4 have "cursor_ok c3" "cu_data c3 = data"
    by (simp_all add: moves_def)
  then show thesis
    using that s(4-10) by blast
qed

end
