(* ===== verification/GgufProps.thy ===== *)
theory GgufProps
  imports Gguf
begin

section \<open>Model files are read back as they were written\<close>

text \<open>
  The format as a writer lays it out (\<open>gguf_image\<close>), what the cursor does on the bytes of
  each part, and the two properties of the reader: what it accepts lies in the file with
  sizes that are exact, and every well-formed file is accepted and looked up as written.
\<close>

subsection \<open>The format\<close>

datatype gguf_value =
    Scalar u32 bytes
  | Str bytes
  | Arr u32 "gguf_value list"

fun value_tag :: "gguf_value \<Rightarrow> u32" where
  "value_tag (Scalar t b) = t"
| "value_tag (Str s) = GGUF_VALUE_STRING"
| "value_tag (Arr t vs) = GGUF_VALUE_ARRAY"

definition string_image :: "bytes \<Rightarrow> bytes" where
  "string_image s = kv_le_put64 (of_nat (length s)) @ s"

fun value_image :: "gguf_value \<Rightarrow> bytes" where
  "value_image (Scalar t b) = b"
| "value_image (Str s) = string_image s"
| "value_image (Arr t vs) =
     sf37_kvstore_le_put32 t @ kv_le_put64 (of_nat (length vs)) @ concat (map value_image vs)"

text \<open>Values at most three arrays deep, with elements of the declared type.\<close>

fun value_ok :: "nat \<Rightarrow> gguf_value \<Rightarrow> bool" where
  "value_ok d (Scalar t b) \<longleftrightarrow> gguf_value_size t \<noteq> 0 \<and> length b = unat (gguf_value_size t)"
| "value_ok d (Str s) \<longleftrightarrow> d \<le> 2"
| "value_ok d (Arr t vs) \<longleftrightarrow> d \<le> 2 \<and> length vs < 2 ^ 64 \<and>
     (\<forall>v \<in> set vs. value_tag v = t \<and> value_ok (Suc d) v)"

record tensor_spec =
  ts_name :: bytes
  ts_dim :: "u64 list"
  ts_type :: u32
  ts_offset :: u64
  ts_nbytes :: u64

definition kv_image :: "bytes \<times> gguf_value \<Rightarrow> bytes" where
  "kv_image kv = string_image (fst kv) @ sf37_kvstore_le_put32 (value_tag (snd kv)) @ value_image (snd kv)"

definition tensor_image :: "tensor_spec \<Rightarrow> bytes" where
  "tensor_image t = string_image (ts_name t) @ sf37_kvstore_le_put32 (of_nat (length (ts_dim t))) @
     concat (map kv_le_put64 (ts_dim t)) @ sf37_kvstore_le_put32 (ts_type t) @ kv_le_put64 (ts_offset t)"

record gguf_file =
  gf_kvs :: "(bytes \<times> gguf_value) list"
  gf_tensors :: "tensor_spec list"
  gf_data :: bytes

definition head_image :: "gguf_file \<Rightarrow> bytes" where
  "head_image f = SF37_GGUF_MAGIC @ sf37_kvstore_le_put32 SF37_GGUF_VERSION @
     kv_le_put64 (of_nat (length (gf_tensors f))) @ kv_le_put64 (of_nat (length (gf_kvs f))) @
     concat (map kv_image (gf_kvs f)) @ concat (map tensor_image (gf_tensors f))"

text \<open>The alignment a file declares: the last one that counts.\<close>

fun declared_alignment :: "(bytes \<times> gguf_value) list \<Rightarrow> u32 \<Rightarrow> u32" where
  "declared_alignment [] a = a"
| "declared_alignment ((k, v) # kvs) a =
     declared_alignment kvs
       (case v of
          Scalar t b \<Rightarrow>
            if k = cstr ''general.alignment'' \<and> t = GGUF_VALUE_UINT32 \<and> sf37_kvstore_le_get32 b \<noteq> 0
            then sf37_kvstore_le_get32 b else a
        | _ \<Rightarrow> a)"

definition file_padding :: "gguf_file \<Rightarrow> nat" where
  "file_padding f =
     (let a = unat (declared_alignment (gf_kvs f) 32) in (a - length (head_image f) mod a) mod a)"

definition gguf_image :: "gguf_file \<Rightarrow> bytes" where
  "gguf_image f = head_image f @ replicate (file_padding f) 0 @ gf_data f"

definition tensor_spec_ok :: "gguf_file \<Rightarrow> tensor_spec \<Rightarrow> bool" where
  "tensor_spec_ok f t \<longleftrightarrow> 0 \<notin> set (ts_name t) \<and> ts_dim t \<noteq> [] \<and> length (ts_dim t) \<le> SF37_MAX_DIMS \<and>
     tensor_nbytes (ts_type t) (ts_dim t) = Inr (ts_nbytes t) \<and> ts_nbytes t \<noteq> 0 \<and>
     unat (ts_offset t) + unat (ts_nbytes t) \<le> length (gf_data f)"

definition gguf_file_ok :: "gguf_file \<Rightarrow> bool" where
  "gguf_file_ok f \<longleftrightarrow>
     32 \<le> length (gguf_image f) \<and> length (gguf_image f) < 2 ^ 63 \<and>
     length (gf_kvs f) * 24 < 2 ^ 64 \<and> length (gf_tensors f) * 112 < 2 ^ 64 \<and>
     (\<forall>(k, v) \<in> set (gf_kvs f). 0 \<notin> set k \<and> value_ok 0 v) \<and>
     (\<forall>t \<in> set (gf_tensors f). tensor_spec_ok f t)"

subsection \<open>The cursor on known bytes\<close>

definition cursor_at :: "sf37_cursor \<Rightarrow> bytes \<Rightarrow> bool" where
  "cursor_at c r \<longleftrightarrow> cursor_ok c \<and> drop (unat (cu_pos c)) (cu_data c) = r"

lemma cursor_at_advance:
  assumes "cursor_at c (x @ r)"
  shows "cursor_at (advance c (length x)) r" and "unat (cu_pos c) + length x \<le> length (cu_data c)"
proof -
  have ok: "cursor_ok c" "drop (unat (cu_pos c)) (cu_data c) = x @ r"
    using assms by (simp_all add: cursor_at_def)
  show le: "unat (cu_pos c) + length x \<le> length (cu_data c)"
  proof -
    have "length (cu_data c) - unat (cu_pos c) = length x + length r" "unat (cu_pos c) \<le> length (cu_data c)"
      using arg_cong [OF ok(2), of length] ok(1) by (simp_all add: cursor_ok_def)
    then show ?thesis
      by arith
  qed
  have "drop (unat (cu_pos c) + length x) (cu_data c) = r"
    using arg_cong [OF ok(2), of "drop (length x)"] by (simp add: add.commute)
  then show "cursor_at (advance c (length x)) r"
    using cursor_ok_advance [OF ok(1) le] by (simp add: cursor_at_def)
qed

lemma need_at:
  assumes "cursor_at c (x @ r)" and "unat n = length x"
  shows "cursor_need c n = (True, c)" and "cursor_bytes c (unat n) = x"
  using cursor_at_advance(2) [OF assms(1)] assms
  by (simp_all add: cursor_at_def cursor_need_iff cursor_bytes_def)

lemma length_put [simp]: "length (sf37_kvstore_le_put32 w) = 4" "length (kv_le_put64 v) = 8"
  by (simp_all add: sf37_kvstore_le_put32_def kv_le_put64_def)

lemma u32_at:
  assumes "cursor_at c (sf37_kvstore_le_put32 v @ r)"
  shows "cursor_u32 c = (Some v, advance c 4)" and "cursor_at (advance c 4) r"
  using need_at [OF assms, of 4] cursor_at_advance(1) [OF assms]
  by (simp_all add: cursor_u32_def advance_def)

lemma u64_at:
  assumes "cursor_at c (kv_le_put64 v @ r)"
  shows "cursor_u64 c = (Some v, advance c 8)" and "cursor_at (advance c 8) r"
  using need_at [OF assms, of 8] cursor_at_advance(1) [OF assms]
  by (simp_all add: cursor_u64_def advance_def)

lemma skip_at:
  assumes "cursor_at c (x @ r)" and "unat n = length x"
  shows "cursor_skip c n = (True, advance c (length x))"
proof -
  have "of_nat (length x) = n"
    by (simp add: assms(2) [symmetric])
  then show ?thesis
    using need_at [OF assms] by (simp add: cursor_skip_def advance_def)
qed

lemma length_string_image [simp]: "length (string_image s) = 8 + length s"
  by (simp add: string_image_def)

lemma cursor_at_bound: "cursor_at c (x @ r) \<Longrightarrow> length x < 2 ^ 63"
  using cursor_at_advance(2) [of c x r] by (simp add: cursor_at_def cursor_ok_def)

lemma string_at:
  assumes "cursor_at c (string_image s @ r)"
  shows "cursor_string c = (Some s, advance c (8 + length s))" and "cursor_at (advance c (8 + length s)) r"
proof -
  have s: "unat (of_nat (length s) :: u64) = length s"
    using cursor_at_bound [OF assms] by (intro size_63) simp
  have a: "cursor_at c (kv_le_put64 (of_nat (length s)) @ s @ r)"
    using assms by (simp add: string_image_def)
  show "cursor_at (advance c (8 + length s)) r"
    using cursor_at_advance(1) [OF assms] by simp
  show "cursor_string c = (Some s, advance c (8 + length s))"
    using need_at [OF u64_at(2) [OF a] s] by (simp add: cursor_string_def u64_at(1) [OF a] s advance_def add.assoc)
qed

subsection \<open>Values\<close>

lemma scalar_elems:
  assumes "\<forall>v \<in> set vs. value_tag v = t \<and> value_ok d v" and "gguf_value_size t \<noteq> 0"
  shows "length (concat (map value_image vs)) = length vs * unat (gguf_value_size t)"
  using assms(1)
proof (induction vs)
  case (Cons v vs)
  have "length (value_image v) = unat (gguf_value_size t)"
    using Cons.prems assms(2) by (cases v) (auto simp: gguf_value_size_def gguf_constants)
  then show ?case
    using Cons by simp
qed simp

lemma skip_value_at:
  "value_ok d v \<Longrightarrow> d \<le> 2 \<Longrightarrow> cursor_at c (value_image v @ r) \<Longrightarrow>
     skip_value c (value_tag v) d = Inr (True, advance c (length (value_image v)))"
proof (induction v arbitrary: d c r)
  case (Scalar t b)
  have "t \<noteq> GGUF_VALUE_STRING" "t \<noteq> GGUF_VALUE_ARRAY"
    using Scalar.prems by (auto simp: gguf_value_size_def gguf_constants)
  then show ?case
    using Scalar.prems skip_at [of c b r "gguf_value_size t"] by (simp add: skip_value.simps Let_def)
next
  case (Str s)
  then show ?case
    using string_at [of c s r] by (simp add: skip_value.simps)
next
  case (Arr t vs)
  let ?e = "concat (map value_image vs)"
  have ok: "\<forall>v \<in> set vs. value_tag v = t \<and> value_ok (Suc d) v" and n: "unat (of_nat (length vs) :: u64) = length vs"
    using Arr.prems(1) by (auto simp: unat_of_nat_64)
  have c1: "cursor_at c (sf37_kvstore_le_put32 t @ kv_le_put64 (of_nat (length vs)) @ ?e @ r)"
    using Arr.prems(3) by simp
  note c2 = u32_at(2) [OF c1]
  note c3 = u64_at(2) [OF c2, simplified]
  have step: "skip_value c GGUF_VALUE_ARRAY d =
      (if gguf_value_size t \<noteq> 0 then
         (case checked_mul_u64 (of_nat (length vs)) (gguf_value_size t) ''metadata array'' of
            Inl e \<Rightarrow> Inl e | Inr m \<Rightarrow> Inr (cursor_skip (advance c 12) m))
       else skip_elems (advance c 12) (length vs) t d)"
    using Arr.prems(2) u32_at(1) [OF c1] u64_at(1) [OF c2]
    by (subst skip_value.simps) (simp add: gguf_constants Let_def n)
  show ?case
  proof (cases "gguf_value_size t = 0")
    case False
    have l: "length ?e = length vs * unat (gguf_value_size t)"
      by (rule scalar_elems [OF ok False])
    have m: "unat (of_nat (length vs) :: u64) * unat (gguf_value_size t) < 2 ^ 64"
      using cursor_at_bound [OF c3] by (simp add: n l)
    have u: "unat (of_nat (length vs) * gguf_value_size t) = length ?e"
      using unat_mult_64 [OF m] by (simp only: n l)
    show ?thesis
      using False skip_at [OF c3 u] m by (simp add: step checked_mul_u64_iff add.commute)
  next
    case True
    have d: "Suc d \<le> 2" if "vs \<noteq> []"
    proof -
      obtain v where v: "v \<in> set vs"
        using \<open>vs \<noteq> []\<close> by (cases vs) auto
      have "value_tag v = t" "value_ok (Suc d) v"
        using ok v by blast+
      then show ?thesis
        using True by (cases v) auto
    qed
    have elems: "us = [] \<or> Suc d \<le> 2 \<Longrightarrow> set us \<subseteq> set vs \<Longrightarrow> cursor_at c' (concat (map value_image us) @ r) \<Longrightarrow>
        skip_elems c' (length us) t d = Inr (True, advance c' (length (concat (map value_image us))))" for us c'
    proof (induction us arbitrary: c')
      case (Cons u us)
      have u: "u \<in> set vs" "value_tag u = t" "value_ok (Suc d) u"
        using Cons.prems ok by auto
      have a: "cursor_at c' (value_image u @ concat (map value_image us) @ r)"
        using Cons.prems(3) by simp
      show ?case
        using Arr.IH [OF u(1,3) _ a] Cons.IH [OF _ _ cursor_at_advance(1) [OF a]] Cons.prems(1,2)
        by (simp add: u(2) add.commute)
    qed simp
    show ?thesis
      using True elems [OF _ subset_refl c3] d by (auto simp: step add.commute add.left_commute)
  qed
qed

subsection \<open>Metadata and tensors\<close>

definition kv_listed :: "bytes \<Rightarrow> sf37_kv \<Rightarrow> bytes \<times> gguf_value \<Rightarrow> bool" where
  "kv_listed data e kv \<longleftrightarrow> gk_key e = fst kv \<and> gk_type e = value_tag (snd kv) \<and>
     (\<exists>r. cursor_at \<lparr>cu_data = data, cu_size = of_nat (length data), cu_pos = gk_value_pos e, cu_error = None\<rparr>
       (value_image (snd kv) @ r))"

lemma c_str_id: "0 \<notin> set s \<Longrightarrow> c_str s = s"
  by (auto simp: c_str_def takeWhile_eq_all_conv)

lemma strcmp_eq_id: "0 \<notin> set s \<Longrightarrow> 0 \<notin> set t \<Longrightarrow> strcmp_eq s t \<longleftrightarrow> s = t"
  by (simp add: strcmp_eq_def c_str_id)

lemma xstrndup_at: "mem (length s + 1) \<Longrightarrow> length s < 2 ^ 63 \<Longrightarrow> xstrndup mem s = Inr s"
  by (simp add: xstrndup_def)

lemma alignment_at:
  assumes "value_ok 0 v" and "0 \<notin> set k" and "cursor_at c (value_image v @ r)"
  shows "kv_alignment k (value_tag v) c a = declared_alignment [(k, v)] a"
proof (cases v)
  case (Scalar t b)
  have k: "strcmp_eq k (cstr ''general.alignment'') \<longleftrightarrow> k = cstr ''general.alignment''"
    using assms(2) by (subst strcmp_eq_id) simp_all
  have "fst (cursor_u32 c) = Some (sf37_kvstore_le_get32 b)" if "t = GGUF_VALUE_UINT32"
    using need_at [of c b r 4] assms(1,3) that Scalar
    by (simp add: cursor_u32_def gguf_value_size_def gguf_constants)
  then show ?thesis
    unfolding kv_alignment_def k by (auto simp: Scalar split: prod.splits simp del: cstr_simps)
qed (simp_all add: kv_alignment_def gguf_constants)

lemma declared_alignment_Cons:
  "declared_alignment (kv # kvs) a = declared_alignment kvs (declared_alignment [kv] a)"
  by (cases kv) (simp split: gguf_value.splits)

lemma kv_image_pair:
  "kv_image (k, v) = string_image k @ sf37_kvstore_le_put32 (value_tag v) @ value_image v"
  by (simp add: kv_image_def)

lemma read_kvs_at:
  assumes "\<And>n. mem n" and "\<forall>(k, v) \<in> set kvs. 0 \<notin> set k \<and> value_ok 0 v"
    and "cursor_at c (concat (map kv_image kvs) @ r)" and "cu_error c = None"
  shows "\<exists>es. gguf_read_kvs mem (length kvs) c a =
      Inr (es, advance c (length (concat (map kv_image kvs))), declared_alignment kvs a) \<and>
    list_all2 (kv_listed (cu_data c)) es kvs"
  using assms(2-)
proof (induction kvs arbitrary: c a)
  case (Cons kv kvs)
  obtain k v where kv: "kv = (k, v)"
    by (cases kv)
  let ?rest = "concat (map kv_image kvs) @ r"
  have ok: "0 \<notin> set k" "value_ok 0 v"
    using Cons.prems(1) kv by auto
  have c1: "cursor_at c (string_image k @ sf37_kvstore_le_put32 (value_tag v) @ value_image v @ ?rest)"
    using Cons.prems(2) by (simp add: kv kv_image_pair)
  note s = string_at [OF c1]
  define ca where "ca = advance c (8 + length k)"
  define c2 where "c2 = advance ca 4"
  have c2: "cursor_at c2 (value_image v @ ?rest)" "cursor_u32 ca = (Some (value_tag v), c2)" "cu_error c2 = None"
    "cu_data c2 = cu_data c" "cu_size c2 = cu_size c"
    using u32_at [OF s(2)] Cons.prems(3) by (simp_all add: c2_def ca_def)
  note s = s(1) [folded ca_def]
  note v = skip_value_at [OF ok(2) _ c2(1), simplified] cursor_at_advance(1) [OF c2(1)]
  have k: "xstrndup mem k = Inr k"
    using cursor_at_bound [OF c1] by (intro xstrndup_at assms(1)) simp
  have "cu_size c = of_nat (length (cu_data c))"
    using c1 by (simp add: cursor_at_def cursor_ok_def)
  then have "c2 = \<lparr>cu_data = cu_data c, cu_size = of_nat (length (cu_data c)), cu_pos = cu_pos c2, cu_error = None\<rparr>"
    using c2(3-5) by (cases c2) simp
  then have listed: "kv_listed (cu_data c) \<lparr>gk_key = k, gk_type = value_tag v, gk_value_pos = cu_pos c2\<rparr> (k, v)"
    using c2(1) by (auto simp: kv_listed_def)
  obtain es where es: "gguf_read_kvs mem (length kvs) (advance c2 (length (value_image v))) (declared_alignment [(k, v)] a) =
      Inr (es, advance (advance c2 (length (value_image v))) (length (concat (map kv_image kvs))),
        declared_alignment kvs (declared_alignment [(k, v)] a))"
    "list_all2 (kv_listed (cu_data c)) es kvs"
    using Cons.IH [OF _ v(2)] Cons.prems(1) c2(3,4) by (auto simp del: advance_simps(5) declared_alignment.simps)
  have "gguf_read_kvs mem (length (kv # kvs)) c a =
      Inr (\<lparr>gk_key = k, gk_type = value_tag v, gk_value_pos = cu_pos c2\<rparr> # es,
        advance c (length (concat (map kv_image (kv # kvs)))), declared_alignment (kv # kvs) a)"
    unfolding kv list.map concat.simps kv_image_pair declared_alignment_Cons [of "(k, v)" kvs] length_append
    using es(1) by (simp add: s c2(2) k Let_def v(1) alignment_at [OF ok(2,1) c2(1)] del: advance_simps(5) declared_alignment.simps)
      (simp add: c2_def ca_def add.commute add.left_commute)
  then show ?case
    using listed es(2) kv by blast
qed simp

lemma read_dims_at:
  "cursor_at c (concat (map kv_le_put64 ds) @ r) \<Longrightarrow>
   gguf_read_dims (length ds) c = Inr (ds, advance c (8 * length ds))"
proof (induction ds arbitrary: c)
  case (Cons d ds)
  then have "cursor_at c (kv_le_put64 d @ concat (map kv_le_put64 ds) @ r)"
    by simp
  note d = u64_at [OF this]
  show ?case
    using Cons.IH [OF d(2)] by (simp add: d(1))
qed simp

definition unplaced :: "tensor_spec \<Rightarrow> sf37_tensor" where
  "unplaced t = \<lparr>tn_name = ts_name t, tn_dim = ts_dim t, tn_type = ts_type t,
     tn_rel_offset = ts_offset t, tn_abs_offset = 0, tn_nbytes = ts_nbytes t\<rparr>"

lemma length_dims_image [simp]: "length (concat (map kv_le_put64 ds)) = 8 * length ds"
  by (induction ds) simp_all

lemma read_tensors_at:
  assumes "\<And>n. mem n" and "\<forall>t \<in> set ts. tensor_spec_ok f t" and "cursor_at c (concat (map tensor_image ts) @ r)"
  shows "gguf_read_tensors mem (length ts) c = Inr (map unplaced ts, advance c (length (concat (map tensor_image ts))))"
  using assms(2-)
proof (induction ts arbitrary: c)
  case (Cons t ts)
  let ?rest = "concat (map tensor_image ts) @ r" and ?nd = "of_nat (length (ts_dim t)) :: u32"
  have ok: "ts_dim t \<noteq> []" "length (ts_dim t) \<le> SF37_MAX_DIMS"
    "tensor_nbytes (ts_type t) (ts_dim t) = Inr (ts_nbytes t)" "ts_nbytes t \<noteq> 0"
    using Cons.prems(1) by (simp_all add: tensor_spec_ok_def)
  have nd: "unat ?nd = length (ts_dim t)"
    using ok(2) by (intro unat_of_nat_32) (simp add: SF37_MAX_DIMS_def)
  have nd0: "?nd \<noteq> 0"
    using nd ok(1) by (metis length_0_conv unat_0)
  have c1: "cursor_at c (string_image (ts_name t) @ sf37_kvstore_le_put32 ?nd @ concat (map kv_le_put64 (ts_dim t)) @
      sf37_kvstore_le_put32 (ts_type t) @ kv_le_put64 (ts_offset t) @ ?rest)"
    using Cons.prems(2) by (simp add: tensor_image_def [of t])
  define ca where "ca = advance c (8 + length (ts_name t))"
  define cb where "cb = advance ca 4"
  define cc where "cc = advance cb (8 * length (ts_dim t))"
  define cd where "cd = advance cc 4"
  define ce where "ce = advance cd 8"
  note s = string_at [OF c1, folded ca_def]
  note n = u32_at [OF s(2), folded cb_def]
  note d = read_dims_at [OF n(2)] cursor_at_advance(1) [OF n(2), unfolded length_dims_image]
  note d = d [folded cc_def]
  note ty = u32_at [OF d(2), folded cd_def]
  note o = u64_at [OF ty(2), folded ce_def]
  have k: "xstrndup mem (ts_name t) = Inr (ts_name t)"
    using cursor_at_bound [OF c1] by (intro xstrndup_at assms(1)) simp
  have "gguf_read_tensors mem (length (t # ts)) c =
      Inr (map unplaced (t # ts), advance ce (length (concat (map tensor_image ts))))"
    using Cons.IH [OF _ o(2)] Cons.prems(1) ok
    by (simp add: s(1) n(1) d(1) ty(1) o(1) k nd nd0 unplaced_def [of t] del: advance_simps(5))
  then show ?case
    by (simp add: ce_def cd_def cc_def cb_def ca_def tensor_image_def [of t] add.commute add.left_commute)
qed simp

lemma declared_alignment_nonzero: "a \<noteq> 0 \<Longrightarrow> declared_alignment kvs a \<noteq> 0"
  by (induction kvs a rule: declared_alignment.induct) (auto split: gguf_value.splits)

lemma align_u64_padding:
  assumes "n \<noteq> 0" and "unat x + (unat n - unat x mod unat n) mod unat n < 2 ^ 64"
  shows "unat (align_u64 x n) = unat x + (unat n - unat x mod unat n) mod unat n"
proof (cases "x mod n = 0")
  case True
  then have "unat x mod unat n = 0"
    using unat_mod [of x n] by simp
  then show ?thesis
    using assms(1) True by (simp add: align_u64_def)
next
  case False
  have m: "unat (x mod n) = unat x mod unat n"
    by (rule unat_mod)
  then have p: "0 < unat x mod unat n"
    using False by (metis gr0I unat_eq_zero)
  have n: "0 < unat n"
    using assms(1) by (simp add: unat_gt_0)
  have le: "unat x mod unat n < unat n"
    using n by simp
  have "x mod n \<le> n"
    using m le by (simp add: word_le_nat_alt)
  then have s: "unat (n - x mod n) = unat n - unat x mod unat n"
    using m by (simp add: unat_sub)
  have pad: "(unat n - unat x mod unat n) mod unat n = unat n - unat x mod unat n"
    using p le by simp
  have "unat (x + (n - x mod n)) = unat x + unat (n - x mod n)"
    by (rule unat_add_no_overflow) (use assms(2) in \<open>simp add: s pad\<close>)
  then show ?thesis
    using assms(1) False by (simp add: align_u64_def Let_def s pad)
qed

definition placed :: "u64 \<Rightarrow> tensor_spec \<Rightarrow> sf37_tensor" where
  "placed off t = (unplaced t)\<lparr>tn_abs_offset := off + ts_offset t\<rparr>"

lemma place_at:
  assumes "\<forall>t \<in> set ts. unat off + unat (ts_offset t) + unat (ts_nbytes t) \<le> n" and "n < 2 ^ 63"
  shows "gguf_place off (of_nat n) (map unplaced ts) = Inr (map (placed off) ts)"
  using assms(1)
proof (induction ts)
  case (Cons t ts)
  have b: "unat off + unat (ts_offset t) + unat (ts_nbytes t) \<le> n"
    using Cons.prems by simp
  have a: "unat (off + ts_offset t) = unat off + unat (ts_offset t)"
    by (rule unat_add_no_overflow) (use b assms(2) in simp)
  have n: "unat (of_nat n :: u64) = n"
    by (rule size_63 [OF assms(2)])
  have le: "off + ts_offset t \<le> of_nat n"
    using a b n by (simp add: word_le_nat_alt)
  have s: "unat (of_nat n - (off + ts_offset t)) = n - (unat off + unat (ts_offset t))"
    using unat_sub [OF le] a n by simp
  have "\<not> ts_nbytes t > of_nat n - (off + ts_offset t)"
    using b s by (simp add: word_less_nat_alt)
  then show ?case
    using Cons le by (simp add: unplaced_def [of t] placed_def [of _ t] Let_def not_less)
qed simp

lemma open_image:
  assumes ok: "gguf_file_ok f" and mem: "\<And>n. mem n"
  obtains es off where "list_all2 (kv_listed (gguf_image f)) es (gf_kvs f)"
    "unat off = length (head_image f) + file_padding f"
    "gguf_open mem (Some (gguf_image f)) = Inr \<lparr>gg_map = gguf_image f, gg_size = of_nat (length (gguf_image f)),
       gg_version = SF37_GGUF_VERSION, gg_alignment = declared_alignment (gf_kvs f) 32, gg_data_offset = off,
       gg_kv = es, gg_tensors = map (placed off) (gf_tensors f)\<rparr>"
proof -
  let ?data = "gguf_image f" and ?al = "declared_alignment (gf_kvs f) 32"
  let ?kvs = "concat (map kv_image (gf_kvs f))" and ?ts = "concat (map tensor_image (gf_tensors f))"
  let ?tail = "replicate (file_padding f) 0 @ gf_data f"
  define c where "c = \<lparr>cu_data = ?data, cu_size = of_nat (length ?data), cu_pos = 0, cu_error = None\<rparr>"
  have b: "32 \<le> length ?data" "length ?data < 2 ^ 63" "length (gf_kvs f) * 24 < 2 ^ 64" "length (gf_tensors f) * 112 < 2 ^ 64"
    "\<forall>(k, v) \<in> set (gf_kvs f). 0 \<notin> set k \<and> value_ok 0 v" "\<forall>t \<in> set (gf_tensors f). tensor_spec_ok f t"
    using ok by (simp_all add: gguf_file_ok_def)
  have n: "unat (of_nat (length (gf_kvs f)) :: u64) = length (gf_kvs f)"
    "unat (of_nat (length (gf_tensors f)) :: u64) = length (gf_tensors f)"
    using b(3,4) by (intro unat_of_nat_64; simp)+
  have c0: "cursor_at c (SF37_GGUF_MAGIC @ sf37_kvstore_le_put32 SF37_GGUF_VERSION @
     kv_le_put64 (of_nat (length (gf_tensors f))) @ kv_le_put64 (of_nat (length (gf_kvs f))) @ ?kvs @ ?ts @ ?tail)"
    using b(2) by (simp add: cursor_at_def cursor_ok_def c_def) (simp add: gguf_image_def head_image_def)
  have magic: "length SF37_GGUF_MAGIC = 4" "unat (4 :: u64) = length SF37_GGUF_MAGIC"
    by (simp_all add: SF37_GGUF_MAGIC_def)
  note need = need_at [OF c0 magic(2), unfolded magic(2) [symmetric], simplified]
  define c4 where "c4 = c\<lparr>cu_pos := 4\<rparr>"
  have "c4 = advance c 4"
    by (simp add: c4_def advance_def c_def)
  then have c4: "cursor_at c4 (sf37_kvstore_le_put32 SF37_GGUF_VERSION @
     kv_le_put64 (of_nat (length (gf_tensors f))) @ kv_le_put64 (of_nat (length (gf_kvs f))) @ ?kvs @ ?ts @ ?tail)"
    using cursor_at_advance(1) [OF c0] magic(1) by simp
  define c8 where "c8 = advance c4 4"
  define c16 where "c16 = advance c8 8"
  define c24 where "c24 = advance c16 8"
  note v = u32_at [OF c4, folded c8_def]
  note nt = u64_at [OF v(2), folded c16_def]
  note nkv = u64_at [OF nt(2), folded c24_def]
  have data: "cu_data c24 = ?data" "cu_error c24 = None"
    by (simp_all add: c24_def c16_def c8_def c4_def c_def)
  obtain es where es: "gguf_read_kvs mem (length (gf_kvs f)) c24 32 = Inr (es, advance c24 (length ?kvs), ?al)"
    "list_all2 (kv_listed ?data) es (gf_kvs f)"
    using read_kvs_at [where mem = mem, OF mem b(5) nkv(2) data(2)] data(1) by auto
  define ck where "ck = advance c24 (length ?kvs)"
  define ct where "ct = advance ck (length ?ts)"
  have ck: "cursor_at ck (?ts @ ?tail)"
    unfolding ck_def by (rule cursor_at_advance(1) [OF nkv(2)])
  have ts: "gguf_read_tensors mem (length (gf_tensors f)) ck = Inr (map unplaced (gf_tensors f), ct)"
    unfolding ct_def by (rule read_tensors_at [where mem = mem, OF mem b(6) ck])
  have head: "length (head_image f) = 24 + length ?kvs + length ?ts"
    by (simp add: head_image_def magic(1))
  have "length ?data = length (head_image f) + file_padding f + length (gf_data f)"
    by (simp add: gguf_image_def)
  note total = this b(2)
  have pos: "unat (cu_pos ct) = length (head_image f)"
  proof -
    have "cu_pos ct = of_nat (length (head_image f))"
      by (simp add: ct_def ck_def c24_def c16_def c8_def c4_def head)
    then show ?thesis
      using total by (simp add: unat_of_nat_64)
  qed
  define off where "off = align_u64 (cu_pos ct) (ucast ?al)"
  have al: "?al \<noteq> 0" "unat (ucast ?al :: u64) = unat ?al"
    by (simp_all add: declared_alignment_nonzero unsigned_ucast_eq take_bit_nat_eq_self_iff
        order.strict_trans [OF unsigned_less [of ?al]])
  have "(ucast ?al :: u64) \<noteq> 0"
    using al by (metis unat_eq_zero)
  then have off: "unat off = length (head_image f) + file_padding f"
    using total unfolding off_def
    by (subst align_u64_padding) (simp_all add: al(2) pos file_padding_def Let_def)
  have place: "gguf_place off (of_nat (length ?data)) (map unplaced (gf_tensors f)) = Inr (map (placed off) (gf_tensors f))"
  proof (rule place_at [OF _ b(2)], rule ballI)
    fix t assume "t \<in> set (gf_tensors f)"
    then show "unat off + unat (ts_offset t) + unat (ts_nbytes t) \<le> length ?data"
      using b(6) total(1) by (fastforce simp: tensor_spec_ok_def off)
  qed
  have calloc: "xcalloc mem (of_nat (length (gf_kvs f))) 24 = Inr ()" "xcalloc mem (of_nat (length (gf_tensors f))) 112 = Inr ()"
    using b(3,4) mem by (simp_all add: xcalloc_def n)
  have "gguf_open mem (Some ?data) = Inr \<lparr>gg_map = ?data, gg_size = of_nat (length ?data),
       gg_version = SF37_GGUF_VERSION, gg_alignment = ?al, gg_data_offset = off,
       gg_kv = es, gg_tensors = map (placed off) (gf_tensors f)\<rparr>"
    using b(1) unfolding gguf_open_def
    by (simp add: Let_def c_def [symmetric] need c4_def [symmetric] v(1) nt(1) nkv(1) calloc n es(1) ck_def [symmetric] ts
        off_def [symmetric] place)
  then show thesis
    using that es(2) off by blast
qed

subsection \<open>Looking up what was written\<close>

lemma find_image:
  assumes "list_all2 (kv_listed data) es kvs" and "\<forall>(k, v) \<in> set kvs. 0 \<notin> set k" and "0 \<notin> set k"
  shows "case List.find (\<lambda>e. strcmp_eq (gk_key e) k) es of
      None \<Rightarrow> map_of kvs k = None
    | Some e \<Rightarrow> \<exists>v. map_of kvs k = Some v \<and> kv_listed data e (k, v)"
  using assms(1,2)
proof (induction rule: list_all2_induct)
  case (Cons e es kv kvs)
  obtain k' v where kv: "kv = (k', v)"
    by (cases kv)
  have "strcmp_eq (gk_key e) k \<longleftrightarrow> k' = k"
    using Cons.hyps(1) Cons.prems assms(3) by (auto simp: kv kv_listed_def strcmp_eq_id)
  then show ?case
    using Cons by (auto simp: kv split: option.splits)
qed simp

lemma find_kv_image:
  assumes "list_all2 (kv_listed (gg_map g)) (gg_kv g) kvs" and "\<forall>(k, v) \<in> set kvs. 0 \<notin> set k"
    and "map_of kvs k = Some v" and "gg_size g = of_nat (length (gg_map g))"
  obtains e r where "find_kv g k = Some e" "gk_type e = value_tag v" "cursor_at (kv_cursor g e) (value_image v @ r)"
proof -
  have k: "0 \<notin> set k"
    using map_of_SomeD [OF assms(3)] assms(2) by auto
  obtain e where e: "find_kv g k = Some e" "kv_listed (gg_map g) e (k, v)"
    using find_image [OF assms(1,2) k] assms(3) by (auto simp: find_kv_def split: option.splits)
  then show thesis
    using that assms(4) by (auto simp: kv_listed_def kv_cursor_def)
qed

lemma find_tensor_image:
  assumes "gg_tensors g = map (placed off) ts" and "\<forall>t \<in> set ts. 0 \<notin> set (ts_name t)" and "0 \<notin> set name"
  shows "find_tensor g name = map_option (placed off) (List.find (\<lambda>t. ts_name t = name) ts)"
  using assms(2) unfolding find_tensor_def assms(1)
  by (induction ts) (auto simp: placed_def unplaced_def strcmp_eq_id assms(3))

subsection \<open>What an opened tensor satisfies\<close>

definition tensor_in_file :: "sf37_gguf \<Rightarrow> sf37_tensor \<Rightarrow> bool" where
  "tensor_in_file g t \<longleftrightarrow> tn_dim t \<noteq> [] \<and> length (tn_dim t) \<le> SF37_MAX_DIMS \<and>
     (\<exists>ti. sf37_type_table (tn_type t) = Some ti \<and> unat (tn_nbytes t) = tensor_size ti (tn_dim t) \<and>
        unat (ti_block ti) dvd unat (tn_dim t ! 0)) \<and>
     0 < unat (tn_nbytes t) \<and> unat (tn_abs_offset t) + unat (tn_nbytes t) \<le> length (gg_map g)"

lemma opened_tensors:
  assumes "gguf_open mem (Some data) = Inr g" and "length data < 2 ^ 63"
  shows "gg_map g = data" and "kv \<in> set (gg_kv g) \<Longrightarrow> unat (gk_value_pos kv) \<le> length data"
    and "t \<in> set (gg_tensors g) \<Longrightarrow> tensor_in_file g t"
proof -
  obtain c nt nkv kvs c2 al ts c3 where 1:
    "cursor_ok c" "cu_data c = data" "gguf_read_kvs mem nkv c 32 = Inr (kvs, c2, al)"
    "gguf_read_tensors mem nt c2 = Inr (ts, c3)"
    "gguf_place (align_u64 (cu_pos c3) (ucast al)) (of_nat (length data)) ts = Inr (gg_tensors g)"
    "gg_map g = data" "gg_size g = of_nat (length data)" "gg_kv g = kvs"
    "gg_data_offset g = align_u64 (cu_pos c3) (ucast al)"
    by (rule gguf_open_unfold [OF assms])
  note r = read_kvs_sound [OF 1(3)] read_tensors_sound [OF 1(4)] place_sound [OF 1(5)]
  show "gg_map g = data"
    by (rule 1(6))
  show "kv \<in> set (gg_kv g) \<Longrightarrow> unat (gk_value_pos kv) \<le> length data"
    using r(1) 1(1,2,8) by auto
  assume t: "t \<in> set (gg_tensors g)"
  have "t\<lparr>tn_abs_offset := 0\<rparr> \<in> set (map (\<lambda>t. t\<lparr>tn_abs_offset := 0\<rparr>) ts)"
    using t r(3) by (metis (no_types, lifting) imageI list.set_map)
  then obtain u where u: "u \<in> set ts" "t\<lparr>tn_abs_offset := 0\<rparr> = u\<lparr>tn_abs_offset := 0\<rparr>"
    by auto
  have same: "tn_dim t = tn_dim u" "tn_type t = tn_type u" "tn_nbytes t = tn_nbytes u"
    using arg_cong [OF u(2), of tn_dim] arg_cong [OF u(2), of tn_type] arg_cong [OF u(2), of tn_nbytes] by simp_all
  have nb: "tensor_nbytes (tn_type t) (tn_dim t) = Inr (tn_nbytes t)" "tn_nbytes t \<noteq> 0" "tn_dim t \<noteq> []"
    "length (tn_dim t) \<le> SF37_MAX_DIMS"
    using r(2) u(1) by (auto simp: same)
  obtain ti where ti: "sf37_type_table (tn_type t) = Some ti" "unat (tn_nbytes t) = tensor_size ti (tn_dim t)"
    "unat (ti_block ti) dvd unat (tn_dim t ! 0)"
    by (rule tensor_nbytes_exact [OF nb(1,2)])
  have "unat (tn_abs_offset t) + unat (tn_nbytes t) \<le> length (gg_map g)"
    using r(3) t size_63 [OF assms(2)] by (simp add: 1(6))
  moreover have "0 < unat (tn_nbytes t)"
    using nb(2) by (simp add: unat_gt_0)
  ultimately show "tensor_in_file g t"
    using nb(3,4) ti by (auto simp: tensor_in_file_def)
qed

lemma image_lookups:
  assumes "gguf_file_ok f" and "\<forall>n. mem n"
  shows "\<exists>g. gguf_open mem (Some (gguf_image f)) = Inr g \<and>
    (\<forall>k s. map_of (gf_kvs f) k = Some (Str s) \<longrightarrow> kv_string g k = Some s) \<and>
    (\<forall>k w. map_of (gf_kvs f) k = Some (Scalar GGUF_VALUE_UINT32 (sf37_kvstore_le_put32 w)) \<longrightarrow> kv_u32 g k = Some w) \<and>
    (\<forall>k b. map_of (gf_kvs f) k = Some (Scalar GGUF_VALUE_BOOL [b]) \<longrightarrow> kv_bool g k = Some (b \<noteq> 0)) \<and>
    (\<forall>name t. List.find (\<lambda>t. ts_name t = name) (gf_tensors f) = Some t \<longrightarrow>
       (\<exists>t'. find_tensor g name = Some t' \<and> tn_dim t' = ts_dim t \<and> tn_type t' = ts_type t \<and>
          take (unat (ts_nbytes t)) (tensor_data g t') =
            take (unat (ts_nbytes t)) (drop (unat (ts_offset t)) (gf_data f))))"
proof -
  have mem: "mem n" for n
    using assms(2) by simp
  obtain es off where o: "list_all2 (kv_listed (gguf_image f)) es (gf_kvs f)"
    "unat off = length (head_image f) + file_padding f"
    "gguf_open mem (Some (gguf_image f)) = Inr \<lparr>gg_map = gguf_image f, gg_size = of_nat (length (gguf_image f)),
       gg_version = SF37_GGUF_VERSION, gg_alignment = declared_alignment (gf_kvs f) 32, gg_data_offset = off,
       gg_kv = es, gg_tensors = map (placed off) (gf_tensors f)\<rparr>"
    by (rule open_image [where mem = mem, OF assms(1) mem])
  define g where "g = \<lparr>gg_map = gguf_image f, gg_size = of_nat (length (gguf_image f)),
       gg_version = SF37_GGUF_VERSION, gg_alignment = declared_alignment (gf_kvs f) 32, gg_data_offset = off,
       gg_kv = es, gg_tensors = map (placed off) (gf_tensors f)\<rparr>"
  have keys: "\<forall>(k, v) \<in> set (gf_kvs f). 0 \<notin> set k" and l: "length (gguf_image f) < 2 ^ 63"
    and tok: "\<forall>t \<in> set (gf_tensors f). tensor_spec_ok f t"
    using assms(1) by (auto simp: gguf_file_ok_def)
  have g: "list_all2 (kv_listed (gg_map g)) (gg_kv g) (gf_kvs f)" "gg_size g = of_nat (length (gg_map g))"
    by (simp_all add: g_def o(1))
  note look = find_kv_image [OF g(1) keys _ g(2)]
  have "kv_string g k = Some s" if "map_of (gf_kvs f) k = Some (Str s)" for k s
    by (rule look [OF that]) (simp add: kv_string_def string_at)
  moreover have "kv_u32 g k = Some w"
    if "map_of (gf_kvs f) k = Some (Scalar GGUF_VALUE_UINT32 (sf37_kvstore_le_put32 w))" for k w
    by (rule look [OF that]) (simp add: kv_u32_def u32_at)
  moreover have "kv_bool g k = Some (b \<noteq> 0)" if kb: "map_of (gf_kvs f) k = Some (Scalar GGUF_VALUE_BOOL [b])" for k b
  proof (rule look [OF kb])
    fix e r
    assume e: "find_kv g k = Some e" "gk_type e = value_tag (Scalar GGUF_VALUE_BOOL [b])"
      and at: "cursor_at (kv_cursor g e) (value_image (Scalar GGUF_VALUE_BOOL [b]) @ r)"
    have "drop (unat (gk_value_pos e)) (gg_map g) = b # r"
      using at by (simp add: cursor_at_def kv_cursor_def)
    from drop_eq_ConsD [OF this] have "unat (gk_value_pos e) < length (gg_map g)" "gg_map g ! unat (gk_value_pos e) = b"
      by simp_all
    then show ?thesis
      using e l by (simp add: kv_bool_def g(2) word_le_nat_alt unat_of_nat_64 g_def)
  qed
  moreover have "\<exists>t'. find_tensor g name = Some t' \<and> tn_dim t' = ts_dim t \<and> tn_type t' = ts_type t \<and>
      take (unat (ts_nbytes t)) (tensor_data g t') = take (unat (ts_nbytes t)) (drop (unat (ts_offset t)) (gf_data f))"
    if ft: "List.find (\<lambda>t. ts_name t = name) (gf_tensors f) = Some t" for name t
  proof -
    have t: "t \<in> set (gf_tensors f)" "ts_name t = name"
      using ft by (auto simp: find_Some_iff)
    have ok: "tensor_spec_ok f t"
      using tok t(1) by blast
    have "0 \<notin> set name" "\<forall>t \<in> set (gf_tensors f). 0 \<notin> set (ts_name t)"
      using tok t by (auto simp: tensor_spec_ok_def)
    then have find: "find_tensor g name = Some (placed off t)"
      using find_tensor_image [of g off "gf_tensors f" name] ft by (simp add: g_def)
    have "length (gguf_image f) = length (head_image f) + file_padding f + length (gf_data f)"
      by (simp add: gguf_image_def)
    then have "unat (off + ts_offset t) = unat off + unat (ts_offset t)"
      using ok l by (intro unat_add_no_overflow) (simp add: tensor_spec_ok_def o(2))
    then have "tensor_data g (placed off t) = drop (unat (ts_offset t)) (gf_data f)"
      by (simp add: tensor_data_def placed_def g_def gguf_image_def o(2))
    then show ?thesis
      using find by (simp add: placed_def unplaced_def)
  qed
  ultimately show ?thesis
    using o(3) by (intro exI [of _ g]) (simp add: g_def [symmetric])
qed

subsection \<open>A small file\<close>

definition demo_gguf :: gguf_file where
  "demo_gguf = \<lparr>gf_kvs = [(cstr ''k'', Scalar GGUF_VALUE_UINT32 (sf37_kvstore_le_put32 7)),
       (cstr ''l'', Arr GGUF_VALUE_STRING [Str [1, 2], Str []])],
     gf_tensors = [\<lparr>ts_name = cstr ''t'', ts_dim = [2], ts_type = SF37_TENSOR_F32, ts_offset = 1, ts_nbytes = 8\<rparr>],
     gf_data = [9, 1, 2, 3, 4, 5, 6, 7, 8]\<rparr>"

lemma demo_gguf_ok: "gguf_file_ok demo_gguf"
proof -
  have "length (head_image demo_gguf) = 117"
    by (simp add: head_image_def demo_gguf_def kv_image_def tensor_image_def SF37_GGUF_MAGIC_def)
  moreover have "tensor_nbytes SF37_TENSOR_F32 [2] = Inr 8"
    by (simp add: tensor_nbytes_def sf37_type_table_def SF37_MAX_DIMS_def checked_mul_u64_iff)
  ultimately show ?thesis
    by (simp add: gguf_file_ok_def gguf_image_def file_padding_def Let_def)
      (simp add: demo_gguf_def tensor_spec_ok_def gguf_value_size_def gguf_constants SF37_MAX_DIMS_def)
qed

subsection \<open>Properties\<close>

text \<open>C34: whatever bytes a model file holds, when \<open>gguf_open\<close> accepts it the metadata starts
  inside the file, and every tensor has a known type, a size that is the exact number of bytes
  of its blocks, without wrap-around, and all these bytes inside the file.\<close>

theorem gguf_open_sound:
  assumes "gguf_open mem (Some data) = Inr g" and "length data < 2 ^ 63"
  shows "gg_map g = data \<and> (\<forall>kv \<in> set (gg_kv g). unat (gk_value_pos kv) \<le> length data) \<and>
    (\<forall>t \<in> set (gg_tensors g). \<exists>ti. sf37_type_table (tn_type t) = Some ti \<and> tn_dim t \<noteq> [] \<and>
       unat (tn_nbytes t) = prod_list (map unat (tn_dim t)) div unat (ti_block ti) * unat (ti_bytes ti) \<and>
       unat (tn_abs_offset t) + unat (tn_nbytes t) \<le> length data)"
  using opened_tensors [OF assms] by (auto simp: tensor_in_file_def tensor_size_def)

text \<open>C35: a well-formed model file is accepted when memory suffices, and its metadata and tensors
  are looked up as they were written: the first value of a key, and of a tensor its dimensions,
  its type and the bytes the data section holds for it.\<close>

theorem gguf_reads_wellformed:
  assumes "gguf_file_ok f" and "\<forall>n. mem n"
  shows "\<exists>g. gguf_open mem (Some (gguf_image f)) = Inr g \<and>
    (\<forall>k s. map_of (gf_kvs f) k = Some (Str s) \<longrightarrow> kv_string g k = Some s) \<and>
    (\<forall>k w. map_of (gf_kvs f) k = Some (Scalar GGUF_VALUE_UINT32 (sf37_kvstore_le_put32 w)) \<longrightarrow> kv_u32 g k = Some w) \<and>
    (\<forall>k b. map_of (gf_kvs f) k = Some (Scalar GGUF_VALUE_BOOL [b]) \<longrightarrow> kv_bool g k = Some (b \<noteq> 0)) \<and>
    (\<forall>name t. List.find (\<lambda>t. ts_name t = name) (gf_tensors f) = Some t \<longrightarrow>
       (\<exists>t'. find_tensor g name = Some t' \<and> tn_dim t' = ts_dim t \<and> tn_type t' = ts_type t \<and>
          take (unat (ts_nbytes t)) (tensor_data g t') =
            take (unat (ts_nbytes t)) (drop (unat (ts_offset t)) (gf_data f))))"
  by (rule image_lookups [OF assms])

theorem gguf_reads_wellformed_witness:
  "\<exists>g. gguf_open (\<lambda>_. True) (Some (gguf_image demo_gguf)) = Inr g \<and> kv_u32 g (cstr ''k'') = Some 7"
proof -
  have "map_of (gf_kvs demo_gguf) (cstr ''k'') = Some (Scalar GGUF_VALUE_UINT32 (sf37_kvstore_le_put32 7))"
    by (simp add: demo_gguf_def)
  then show ?thesis
    using gguf_reads_wellformed [OF demo_gguf_ok, of "\<lambda>_. True"] by auto
qed

theorem gguf_open_sound_witness:
  "\<exists>g. gguf_open (\<lambda>_. True) (Some (gguf_image demo_gguf)) = Inr g \<and>
     (\<forall>t \<in> set (gg_tensors g). unat (tn_abs_offset t) + unat (tn_nbytes t) \<le> length (gguf_image demo_gguf))"
proof -
  obtain g where g: "gguf_open (\<lambda>_. True) (Some (gguf_image demo_gguf)) = Inr g"
    using open_image [OF demo_gguf_ok, of "\<lambda>_. True"] by blast
  have "length (gguf_image demo_gguf) < 2 ^ 63"
    using demo_gguf_ok by (simp add: gguf_file_ok_def)
  from gguf_open_sound [OF g this] show ?thesis
    using g by blast
qed

end
