(* ===== verification/QuantizeTool.thy ===== *)
theory QuantizeTool
  imports GgufProps
begin

section \<open>The model writer of the quantisation tool\<close>

text \<open>
  The part of \<open>gguf-tools/sf37-quantize.c\<close> that decides the layout of a model file and writes
  it: the type policy, the plan with its offsets and its size bookkeeping, the metadata and
  \<open>sf37_write_gguf\<close>, with the helpers of \<open>deepseek4-quantize.c\<close> and \<open>quants.c\<close> they call. The
  safetensors database is the list of its tensors, the converted data of a tensor is a
  parameter, and the output file is the list of bytes written, with writes that succeed.
  A dimension is an \<open>int64_t\<close>, here an \<open>int\<close>; sizes are \<open>size_t\<close> words.
\<close>

subsection \<open>Types and sizes\<close>

record st_info =
  st_dtype :: bytes
  st_shape :: "int list"

record tool_tensor =
  tt_name :: bytes
  tt_ne :: "int list"
  tt_type :: u32
  tt_size :: u64
  tt_offset :: u64

record sf37_plan =
  pl_tensors :: "tool_tensor list"
  pl_tensor_bytes :: u64
  pl_meta_size :: u64
  pl_data_offset :: u64
  pl_alignment :: u64

record imatrix_store =
  im_file :: bytes
  im_dataset :: "bytes option"
  im_n_entries :: int
  im_chunks :: int

text \<open>\<open>ds4q_type_traits\<close> for the types the policy gives: block size and bytes of a block.\<close>

definition ds4q_traits :: "u32 \<Rightarrow> (int \<times> u64) option" where
  "ds4q_traits type =
     (if type = SF37_TENSOR_F32 then Some (1, 4)
      else if type = SF37_TENSOR_F16 then Some (1, 2)
      else if type = SF37_TENSOR_Q8_0 then Some (32, 34)
      else if type = SF37_TENSOR_Q2_K then Some (256, 84)
      else if type = SF37_TENSOR_Q3_K then Some (256, 110)
      else if type = SF37_TENSOR_BF16 then Some (1, 2)
      else None)"

definition ds4q_block_size :: "u32 \<Rightarrow> int" where
  "ds4q_block_size type = (case ds4q_traits type of None \<Rightarrow> 0 | Some (b, n) \<Rightarrow> b)"

definition ds4q_row_size :: "u32 \<Rightarrow> int \<Rightarrow> u64" where
  "ds4q_row_size type ne =
     (case ds4q_traits type of
        None \<Rightarrow> 0
      | Some (block_size, type_size) \<Rightarrow>
          if block_size \<le> 0 \<or> type_size = 0 \<or> ne mod block_size \<noteq> 0 then 0
          else type_size * of_int (ne div block_size))"

definition ds4q_pad :: "u64 \<Rightarrow> u64 \<Rightarrow> u64" where
  "ds4q_pad x n = ((x + n - 1) div n) * n"

text \<open>\<open>ne\<close> lies in a zeroed array of eight, so \<open>ne[0]\<close> is 0 for rank 0.\<close>

definition ne0 :: "int list \<Rightarrow> int" where
  "ne0 ne = (case ne of [] \<Rightarrow> 0 | d # _ \<Rightarrow> d)"

definition tool_tensor_nbytes :: "u32 \<Rightarrow> int list \<Rightarrow> u64" where
  "tool_tensor_nbytes type ne = foldl (\<lambda>n d. n * of_int d) (ds4q_row_size type (ne0 ne)) (tl ne)"

subsection \<open>The type policy\<close>

definition sf37_contains :: "bytes \<Rightarrow> string \<Rightarrow> bool" where
  "sf37_contains s needle \<longleftrightarrow>
     list_ex (\<lambda>i. take (length needle) (drop i s) = cstr needle) [0..<length s + 1]"

definition sf37_is_routed_gate :: "bytes \<Rightarrow> bool" where
  "sf37_is_routed_gate name = sf37_contains name ''.moe.gate_proj.weight''"

definition sf37_is_routed_up :: "bytes \<Rightarrow> bool" where
  "sf37_is_routed_up name = sf37_contains name ''.moe.up_proj.weight''"

definition sf37_is_routed_down :: "bytes \<Rightarrow> bool" where
  "sf37_is_routed_down name = sf37_contains name ''.moe.down_proj.weight''"

definition sf37_is_router :: "bytes \<Rightarrow> bool" where
  "sf37_is_router name \<longleftrightarrow> sf37_contains name ''.moe.gate.weight'' \<or> sf37_contains name ''.moe.router_bias''"

definition sf37_keep_bf16 :: "bytes \<Rightarrow> bool" where
  "sf37_keep_bf16 name \<longleftrightarrow> name = cstr ''lm_head.weight'' \<or> name = cstr ''model.embed_tokens.weight'' \<or>
     name = cstr ''vit_large_projector.weight''"

text \<open>\<open>None\<close> when the tool exits on an unknown source type.\<close>

definition sf37_source_type :: "bytes \<Rightarrow> u32 option" where
  "sf37_source_type dtype =
     (if dtype = cstr ''BF16'' then Some SF37_TENSOR_BF16
      else if dtype = cstr ''F32'' then Some SF37_TENSOR_F32
      else if dtype = cstr ''F16'' then Some SF37_TENSOR_F16
      else None)"

definition sf37_is_quant_type :: "u32 \<Rightarrow> bool" where
  "sf37_is_quant_type type \<longleftrightarrow> type = SF37_TENSOR_Q8_0 \<or> type = SF37_TENSOR_Q2_K \<or> type = SF37_TENSOR_Q3_K \<or>
     type = 12 \<or> type = 16"

definition sf37_policy_type :: "bytes \<Rightarrow> st_info \<Rightarrow> u32 option" where
  "sf37_policy_type name info =
     (case sf37_source_type (st_dtype info) of
        None \<Rightarrow> None
      | Some src \<Rightarrow>
          let n_dims = length (st_shape info) in
          if src = SF37_TENSOR_F32 then Some SF37_TENSOR_F32
          else if sf37_keep_bf16 name then Some SF37_TENSOR_BF16
          else if n_dims < 2 then Some src
          else if n_dims > 3 then Some src
          else if sf37_is_router name then Some src
          else
          let ncols = st_shape info ! (n_dims - 1) in
          if sf37_is_routed_gate name \<or> sf37_is_routed_up name then
            Some (if ncols mod ds4q_block_size SF37_TENSOR_Q3_K = 0 then SF37_TENSOR_Q3_K else src)
          else if sf37_is_routed_down name then
            Some (if ncols mod ds4q_block_size SF37_TENSOR_Q2_K = 0 then SF37_TENSOR_Q2_K else src)
          else Some (if ncols mod ds4q_block_size SF37_TENSOR_Q8_0 = 0 then SF37_TENSOR_Q8_0 else src))"

subsection \<open>Metadata\<close>

definition gguf_string_size :: "bytes \<Rightarrow> u64" where
  "gguf_string_size s = 8 + of_nat (length s)"

definition write_gguf_string :: "bytes \<Rightarrow> bytes" where
  "write_gguf_string s = kv_le_put64 (of_nat (length s)) @ s"

definition sf37_kv_size_string :: "bytes \<Rightarrow> bytes \<Rightarrow> u64" where
  "sf37_kv_size_string key v = gguf_string_size key + 4 + gguf_string_size v"

definition sf37_kv_size_u32 :: "bytes \<Rightarrow> u64" where
  "sf37_kv_size_u32 key = gguf_string_size key + 4 + 4"

definition sf37_kv_size_bool :: "bytes \<Rightarrow> u64" where
  "sf37_kv_size_bool key = gguf_string_size key + 4 + 1"

definition sf37_write_kv_string :: "bytes \<Rightarrow> bytes \<Rightarrow> bytes" where
  "sf37_write_kv_string key v =
     write_gguf_string key @ sf37_kvstore_le_put32 GGUF_VALUE_STRING @ write_gguf_string v"

definition sf37_write_kv_u32 :: "bytes \<Rightarrow> u32 \<Rightarrow> bytes" where
  "sf37_write_kv_u32 key v =
     write_gguf_string key @ sf37_kvstore_le_put32 GGUF_VALUE_UINT32 @ sf37_kvstore_le_put32 v"

definition sf37_write_kv_bool :: "bytes \<Rightarrow> bool \<Rightarrow> bytes" where
  "sf37_write_kv_bool key v =
     write_gguf_string key @ sf37_kvstore_le_put32 GGUF_VALUE_BOOL @ [if v then 1 else 0]"

definition write_kv_u64 :: "bytes \<Rightarrow> u64 \<Rightarrow> bytes" where
  "write_kv_u64 key v = write_gguf_string key @ sf37_kvstore_le_put32 10 @ kv_le_put64 v"

definition imatrix_enabled :: "imatrix_store \<Rightarrow> bool" where
  "imatrix_enabled im \<longleftrightarrow> im_n_entries im > 0"

definition extra_imatrix_kv_size :: "imatrix_store \<Rightarrow> u64" where
  "extra_imatrix_kv_size im =
     (if \<not> imatrix_enabled im then 0
      else
        let n = gguf_string_size (cstr ''quantize.imatrix.file'') + 4 + gguf_string_size (im_file im);
            n = n + (gguf_string_size (cstr ''quantize.imatrix.entries_count'') + 4 + 8);
            n = (case im_dataset im of None \<Rightarrow> n
                 | Some d \<Rightarrow> n + (gguf_string_size (cstr ''quantize.imatrix.dataset'') + 4 + gguf_string_size d))
        in if im_chunks im > 0
           then n + (gguf_string_size (cstr ''quantize.imatrix.chunks_count'') + 4 + 8) else n)"

definition extra_imatrix_kv_count :: "imatrix_store \<Rightarrow> u64" where
  "extra_imatrix_kv_count im =
     (if \<not> imatrix_enabled im then 0
      else 2 + (if im_dataset im \<noteq> None then 1 else 0) + (if im_chunks im > 0 then 1 else 0))"

definition write_imatrix_kvs :: "imatrix_store \<Rightarrow> bytes" where
  "write_imatrix_kvs im =
     (if \<not> imatrix_enabled im then []
      else sf37_write_kv_string (cstr ''quantize.imatrix.file'') (im_file im) @
        write_kv_u64 (cstr ''quantize.imatrix.entries_count'') (of_int (im_n_entries im)) @
        (case im_dataset im of None \<Rightarrow> []
         | Some d \<Rightarrow> sf37_write_kv_string (cstr ''quantize.imatrix.dataset'') d) @
        (if im_chunks im > 0
         then write_kv_u64 (cstr ''quantize.imatrix.chunks_count'') (of_int (im_chunks im)) else []))"

definition sf37_kv_count :: "imatrix_store \<Rightarrow> u64" where
  "sf37_kv_count im = 20 + extra_imatrix_kv_count im"

definition q3_layout :: bytes where
  "q3_layout = cstr ''q3_asym_g64_f16scale_u8zp_payload3_pad110''"

definition q2_layout :: bytes where
  "q2_layout = cstr ''q2_asym_g64_f16scale_u8zp_payload2_pad84''"

definition quant_policy_text :: bytes where
  "quant_policy_text =
     cstr ''routed_gate=q3_asym,routed_up=q3_asym,routed_down=q2_asym,rank2_rest=q8_0,router_norm_misc=source''"

definition keep_bf16_text :: bytes where
  "keep_bf16_text = cstr ''lm_head.weight,model.embed_tokens.weight,vit_large_projector.weight''"

definition name_format_text :: bytes where
  "name_format_text = cstr ''hf_safetensors_names_with_reversed_gguf_dimensions''"

definition sf37_kv_bytes :: "bytes \<Rightarrow> imatrix_store \<Rightarrow> u64" where
  "sf37_kv_bytes hf_dir im =
     sf37_kv_size_string (cstr ''general.architecture'') (cstr ''sf37'') +
     sf37_kv_size_string (cstr ''general.name'') (cstr ''Super Fast Step 3.7 Flash'') +
     sf37_kv_size_u32 (cstr ''general.alignment'') +
     sf37_kv_size_u32 (cstr ''general.file_type'') +
     sf37_kv_size_u32 (cstr ''sf37.version'') +
     sf37_kv_size_string (cstr ''sf37.source'') hf_dir +
     sf37_kv_size_u32 (cstr ''sf37.block_count'') +
     sf37_kv_size_u32 (cstr ''sf37.mtp_layer_count'') +
     sf37_kv_size_u32 (cstr ''sf37.embedding_length'') +
     sf37_kv_size_u32 (cstr ''sf37.feed_forward_length'') +
     sf37_kv_size_u32 (cstr ''sf37.expert_feed_forward_length'') +
     sf37_kv_size_u32 (cstr ''sf37.expert_count'') +
     sf37_kv_size_u32 (cstr ''sf37.expert_used_count'') +
     sf37_kv_size_u32 (cstr ''sf37.context_length'') +
     sf37_kv_size_bool (cstr ''sf37.vision_included'') +
     sf37_kv_size_string (cstr ''sf37.q3_layout'') q3_layout +
     sf37_kv_size_string (cstr ''sf37.q2_layout'') q2_layout +
     sf37_kv_size_string (cstr ''sf37.quant_policy'') quant_policy_text +
     sf37_kv_size_string (cstr ''sf37.keep_bf16'') keep_bf16_text +
     sf37_kv_size_string (cstr ''sf37.tensor_name_format'') name_format_text +
     extra_imatrix_kv_size im"

definition sf37_write_kvs :: "bytes \<Rightarrow> imatrix_store \<Rightarrow> bytes" where
  "sf37_write_kvs hf_dir im =
     sf37_write_kv_string (cstr ''general.architecture'') (cstr ''sf37'') @
     sf37_write_kv_string (cstr ''general.name'') (cstr ''Super Fast Step 3.7 Flash'') @
     sf37_write_kv_u32 (cstr ''general.alignment'') 32 @
     sf37_write_kv_u32 (cstr ''general.file_type'') 0 @
     sf37_write_kv_u32 (cstr ''sf37.version'') 1 @
     sf37_write_kv_string (cstr ''sf37.source'') hf_dir @
     sf37_write_kv_u32 (cstr ''sf37.block_count'') 45 @
     sf37_write_kv_u32 (cstr ''sf37.mtp_layer_count'') 3 @
     sf37_write_kv_u32 (cstr ''sf37.embedding_length'') 4096 @
     sf37_write_kv_u32 (cstr ''sf37.feed_forward_length'') 11264 @
     sf37_write_kv_u32 (cstr ''sf37.expert_feed_forward_length'') 1280 @
     sf37_write_kv_u32 (cstr ''sf37.expert_count'') 288 @
     sf37_write_kv_u32 (cstr ''sf37.expert_used_count'') 8 @
     sf37_write_kv_u32 (cstr ''sf37.context_length'') 262144 @
     sf37_write_kv_bool (cstr ''sf37.vision_included'') True @
     sf37_write_kv_string (cstr ''sf37.q3_layout'') q3_layout @
     sf37_write_kv_string (cstr ''sf37.q2_layout'') q2_layout @
     sf37_write_kv_string (cstr ''sf37.quant_policy'') quant_policy_text @
     sf37_write_kv_string (cstr ''sf37.keep_bf16'') keep_bf16_text @
     sf37_write_kv_string (cstr ''sf37.tensor_name_format'') name_format_text @
     write_imatrix_kvs im"

subsection \<open>The plan\<close>

definition sf37_tensor_info_size :: "tool_tensor \<Rightarrow> u64" where
  "sf37_tensor_info_size t = gguf_string_size (tt_name t) + 4 + of_nat (length (tt_ne t)) * 8 + 4 + 8"

definition plan_type :: "bytes \<Rightarrow> st_info \<Rightarrow> u32 option" where
  "plan_type name info =
     (case sf37_policy_type name info of
        None \<Rightarrow> None
      | Some type \<Rightarrow>
          if sf37_is_quant_type type \<and> ne0 (rev (st_shape info)) mod ds4q_block_size type \<noteq> 0
          then sf37_source_type (st_dtype info) else Some type)"

text \<open>The loop over the database, with the running offset and the size of the tensor records.\<close>

fun plan_tensors :: "(bytes \<times> st_info) list \<Rightarrow> u64 \<Rightarrow> u64 \<Rightarrow> (tool_tensor list \<times> u64 \<times> u64) option" where
  "plan_tensors [] off tensor_info = Some ([], off, tensor_info)"
| "plan_tensors ((name, info) # db) off tensor_info =
     (case plan_type name info of
        None \<Rightarrow> None
      | Some type \<Rightarrow>
          let ne = rev (st_shape info);
              t = \<lparr>tt_name = name, tt_ne = ne, tt_type = type, tt_size = tool_tensor_nbytes type ne, tt_offset = off\<rparr>
          in (case plan_tensors db (off + ds4q_pad (tt_size t) 32) (tensor_info + sf37_tensor_info_size t) of
                None \<Rightarrow> None
              | Some (ts, off, tensor_info) \<Rightarrow> Some (t # ts, off, tensor_info)))"

definition sf37_build_plan :: "(bytes \<times> st_info) list \<Rightarrow> int \<Rightarrow> bytes \<Rightarrow> imatrix_store \<Rightarrow> sf37_plan option" where
  "sf37_build_plan db limit hf_dir im =
     (let n = (if limit > 0 \<and> limit < int (length db) then nat limit else length db) in
      case plan_tensors (take n db) 0 0 of
        None \<Rightarrow> None
      | Some (ts, off, tensor_info) \<Rightarrow>
          let meta_size = 4 + 4 + 8 + 8 + sf37_kv_bytes hf_dir im + tensor_info in
          Some \<lparr>pl_tensors = ts, pl_tensor_bytes = off, pl_meta_size = meta_size,
             pl_data_offset = ds4q_pad meta_size 32, pl_alignment = 32\<rparr>)"

subsection \<open>Writing the file\<close>

definition write_tensor_info :: "tool_tensor \<Rightarrow> bytes" where
  "write_tensor_info t =
     write_gguf_string (tt_name t) @ sf37_kvstore_le_put32 (of_nat (length (tt_ne t))) @
     concat (map (\<lambda>d. kv_le_put64 (of_int d)) (tt_ne t)) @
     sf37_kvstore_le_put32 (tt_type t) @ kv_le_put64 (tt_offset t)"

definition write_padding :: "u64 \<Rightarrow> bytes" where
  "write_padding n = replicate (unat n) 0"

text \<open>The data loop; \<open>None\<close> when a tensor's data has not the planned size.\<close>

fun write_tensor_data :: "(tool_tensor \<Rightarrow> bytes) \<Rightarrow> u64 \<Rightarrow> tool_tensor list \<Rightarrow> bytes option" where
  "write_tensor_data gen al [] = Some []"
| "write_tensor_data gen al (t # ts) =
     (let data = gen t; sz = of_nat (length data) in
      if sz \<noteq> tt_size t then None
      else map_option (\<lambda>rest. data @ write_padding (ds4q_pad sz al - sz) @ rest)
             (write_tensor_data gen al ts))"

definition sf37_write_gguf ::
  "sf37_plan \<Rightarrow> bytes \<Rightarrow> imatrix_store \<Rightarrow> (tool_tensor \<Rightarrow> bytes) \<Rightarrow> bytes option" where
  "sf37_write_gguf plan hf_dir im gen =
     (let out = cstr ''GGUF'' @ sf37_kvstore_le_put32 3 @ kv_le_put64 (of_nat (length (pl_tensors plan))) @
                kv_le_put64 (sf37_kv_count im) @ sf37_write_kvs hf_dir im @
                concat (map write_tensor_info (pl_tensors plan));
          pos = of_nat (length out)
      in if pos > pl_data_offset plan then None
         else map_option (\<lambda>data. out @ write_padding (pl_data_offset plan - pos) @ data)
                (write_tensor_data gen (pl_alignment plan) (pl_tensors plan)))"

end
