(* ===== verification/Weights.thy ===== *)
theory Weights
  imports GgufProps Session
begin

section \<open>Binding the model's tensors\<close>

text \<open>
  How an opened file becomes the weights of the engine (\<open>validate_metadata\<close>,
  \<open>bind_text_layer\<close>, \<open>bind_vision\<close>, \<open>bind_model\<close> of \<open>sf37.c\<close>), the addresses the CPU path
  computes from them (\<open>embed_token_bf16\<close>, \<open>expert_bytes\<close>, the rows of a dense matrix), and the
  spans of the file that are handed to the accelerator. A pointer to a tensor is the tensor or
  \<open>None\<close> for \<open>NULL\<close>; a bind step is a function on the engine that may end with the error
  \<open>bind_error\<close> formats.
\<close>

subsection \<open>Weights\<close>

definition SF37_MTP_LAYERS :: nat where "SF37_MTP_LAYERS = 3"
definition SF37_VISION_LAYERS :: nat where "SF37_VISION_LAYERS = 47"
definition SF37_FULL_Q_HEADS :: nat where "SF37_FULL_Q_HEADS = 64"
definition SF37_SLIDING_Q_HEADS :: nat where "SF37_SLIDING_Q_HEADS = 96"
definition SF37_KV_HEADS :: nat where "SF37_KV_HEADS = 8"
definition SF37_HEAD_DIM :: nat where "SF37_HEAD_DIM = 128"
definition SF37_DENSE_FF :: nat where "SF37_DENSE_FF = 11264"
definition SF37_EXPERTS :: nat where "SF37_EXPERTS = 288"
definition SF37_EXPERT_FF :: nat where "SF37_EXPERT_FF = 1280"
definition SF37_VISION_WIDTH :: nat where "SF37_VISION_WIDTH = 1536"
definition SF37_VISION_PATCH :: nat where "SF37_VISION_PATCH = 14"
definition SF37_VISION_GRID :: nat where "SF37_VISION_GRID = 52"

lemmas weight_constants =
  SF37_MTP_LAYERS_def SF37_VISION_LAYERS_def SF37_FULL_Q_HEADS_def SF37_SLIDING_Q_HEADS_def
  SF37_KV_HEADS_def SF37_HEAD_DIM_def SF37_DENSE_FF_def SF37_EXPERTS_def SF37_EXPERT_FF_def
  SF37_VISION_WIDTH_def SF37_VISION_PATCH_def SF37_VISION_GRID_def SF37_EMBD_def SF37_VOCAB_def
  SF37_MAIN_LAYERS_def

record sf37_layer_weights =
  lw_q_proj :: "sf37_tensor option"
  lw_k_proj :: "sf37_tensor option"
  lw_v_proj :: "sf37_tensor option"
  lw_o_proj :: "sf37_tensor option"
  lw_g_proj :: "sf37_tensor option"
  lw_q_norm :: "sf37_tensor option"
  lw_k_norm :: "sf37_tensor option"
  lw_input_norm :: "sf37_tensor option"
  lw_post_norm :: "sf37_tensor option"
  lw_mlp_gate :: "sf37_tensor option"
  lw_mlp_up :: "sf37_tensor option"
  lw_mlp_down :: "sf37_tensor option"
  lw_router_gate :: "sf37_tensor option"
  lw_router_bias :: "sf37_tensor option"
  lw_moe_gate :: "sf37_tensor option"
  lw_moe_up :: "sf37_tensor option"
  lw_moe_down :: "sf37_tensor option"
  lw_share_gate :: "sf37_tensor option"
  lw_share_up :: "sf37_tensor option"
  lw_share_down :: "sf37_tensor option"

record sf37_vision_block =
  vb_in_proj_weight :: "sf37_tensor option"
  vb_in_proj_bias :: "sf37_tensor option"
  vb_out_proj_weight :: "sf37_tensor option"
  vb_out_proj_bias :: "sf37_tensor option"
  vb_ln1_weight :: "sf37_tensor option"
  vb_ln1_bias :: "sf37_tensor option"
  vb_ln2_weight :: "sf37_tensor option"
  vb_ln2_bias :: "sf37_tensor option"
  vb_ls1_gamma :: "sf37_tensor option"
  vb_ls2_gamma :: "sf37_tensor option"
  vb_mlp_fc_weight :: "sf37_tensor option"
  vb_mlp_fc_bias :: "sf37_tensor option"
  vb_mlp_proj_weight :: "sf37_tensor option"
  vb_mlp_proj_bias :: "sf37_tensor option"

record sf37_vision_weights =
  vw_conv1_weight :: "sf37_tensor option"
  vw_ln_pre_weight :: "sf37_tensor option"
  vw_ln_pre_bias :: "sf37_tensor option"
  vw_positional_embedding :: "sf37_tensor option"
  vw_block :: "sf37_vision_block list"
  vw_down1_weight :: "sf37_tensor option"
  vw_down1_bias :: "sf37_tensor option"
  vw_down2_weight :: "sf37_tensor option"
  vw_down2_bias :: "sf37_tensor option"
  vw_projector :: "sf37_tensor option"

record sf37_engine =
  en_gguf :: sf37_gguf
  en_embed_tokens :: "sf37_tensor option"
  en_lm_head :: "sf37_tensor option"
  en_final_norm :: "sf37_tensor option"
  en_layer :: "sf37_layer_weights list"
  en_vision :: sf37_vision_weights
  en_type_count :: "u64 list"
  en_type_bytes :: "u64 list"
  en_bound_text_tensors :: u32
  en_bound_vision_tensors :: u32
  en_inactive_mtp_tensors :: u32

text \<open>The engine \<open>xcalloc\<close> hands out, with the file opened.\<close>

definition zero_layer :: sf37_layer_weights where
  "zero_layer = \<lparr>lw_q_proj = None, lw_k_proj = None, lw_v_proj = None, lw_o_proj = None, lw_g_proj = None, lw_q_norm = None, lw_k_norm = None, lw_input_norm = None, lw_post_norm = None, lw_mlp_gate = None, lw_mlp_up = None, lw_mlp_down = None, lw_router_gate = None, lw_router_bias = None, lw_moe_gate = None, lw_moe_up = None, lw_moe_down = None, lw_share_gate = None, lw_share_up = None, lw_share_down = None\<rparr>"

definition zero_vision_block :: sf37_vision_block where
  "zero_vision_block = \<lparr>vb_in_proj_weight = None, vb_in_proj_bias = None, vb_out_proj_weight = None, vb_out_proj_bias = None, vb_ln1_weight = None, vb_ln1_bias = None, vb_ln2_weight = None, vb_ln2_bias = None, vb_ls1_gamma = None, vb_ls2_gamma = None, vb_mlp_fc_weight = None, vb_mlp_fc_bias = None, vb_mlp_proj_weight = None, vb_mlp_proj_bias = None\<rparr>"

definition zero_vision :: sf37_vision_weights where
  "zero_vision = \<lparr>vw_conv1_weight = None, vw_ln_pre_weight = None, vw_ln_pre_bias = None, vw_positional_embedding = None, vw_block = replicate SF37_VISION_LAYERS zero_vision_block, vw_down1_weight = None, vw_down1_bias = None, vw_down2_weight = None, vw_down2_bias = None, vw_projector = None\<rparr>"

definition engine_of_gguf :: "sf37_gguf \<Rightarrow> sf37_engine" where
  "engine_of_gguf g = \<lparr>en_gguf = g, en_embed_tokens = None, en_lm_head = None, en_final_norm = None,
     en_layer = replicate SF37_MAIN_LAYERS zero_layer, en_vision = zero_vision,
     en_type_count = replicate 42 0, en_type_bytes = replicate 42 0, en_bound_text_tensors = 0,
     en_bound_vision_tensors = 0, en_inactive_mtp_tensors = 0\<rparr>"

datatype bind_error =
    Missing_tensor bytes
  | Wrong_type bytes sf37_tensor
  | Wrong_dimensions bytes sf37_tensor
  | Bad_metadata string

type_synonym bind_step = "sf37_engine \<Rightarrow> bind_error + sf37_engine"

fun bind_steps :: "bind_step list \<Rightarrow> bind_step" where
  "bind_steps [] e = Inr e"
| "bind_steps (s # ss) e = (case s e of Inl err \<Rightarrow> Inl err | Inr e \<Rightarrow> bind_steps ss e)"

subsection \<open>Requiring a tensor\<close>

definition tensor_dims_eq :: "sf37_tensor \<Rightarrow> nat \<Rightarrow> u64 list \<Rightarrow> bool" where
  "tensor_dims_eq t ndim d \<longleftrightarrow> length (tn_dim t) = ndim \<and> list_all (\<lambda>i. tn_dim t ! i = d ! i) [0..<ndim]"

text \<open>Without a type any type is accepted, as in \<open>require_any_tensor\<close>.\<close>

definition require_tensor :: "sf37_engine \<Rightarrow> bytes \<Rightarrow> u32 option \<Rightarrow> nat list \<Rightarrow> bind_error + sf37_tensor" where
  "require_tensor e name type dims =
     (case find_tensor (en_gguf e) name of
        None \<Rightarrow> Inl (Missing_tensor name)
      | Some t \<Rightarrow>
          if type \<noteq> None \<and> tn_type t \<noteq> the type then Inl (Wrong_type name t)
          else if \<not> tensor_dims_eq t (length dims) (map of_nat dims) then Inl (Wrong_dimensions name t)
          else Inr t)"

text \<open>\<open>%u\<close>\<close>

fun u_dec :: "nat \<Rightarrow> bytes" where
  "u_dec n = (if n < 10 then [of_nat (48 + n)] else u_dec (n div 10) @ [of_nat (48 + n mod 10)])"

declare u_dec.simps [simp del]

definition layer_q_heads :: "nat \<Rightarrow> nat" where
  "layer_q_heads il = (if il mod 4 = 0 then SF37_FULL_Q_HEADS else SF37_SLIDING_Q_HEADS)"

subsection \<open>Text layers\<close>

definition bind_layer ::
  "nat \<Rightarrow> ((sf37_tensor option \<Rightarrow> sf37_tensor option) \<Rightarrow> sf37_layer_weights \<Rightarrow> sf37_layer_weights) \<Rightarrow>
   string \<Rightarrow> u32 option \<Rightarrow> nat list \<Rightarrow> bind_step" where
  "bind_layer il upd suffix type dims e =
     (case require_tensor e (cstr ''model.layers.'' @ u_dec il @ cstr (CHR ''.'' # suffix)) type dims of
        Inl err \<Rightarrow> Inl err
      | Inr t \<Rightarrow> Inr (e\<lparr>en_layer := (en_layer e)[il := upd (\<lambda>_. Some t) (en_layer e ! il)],
                      en_bound_text_tensors := en_bound_text_tensors e + 1\<rparr>))"

definition bind_text_layer :: "nat \<Rightarrow> bind_step" where
  "bind_text_layer il =
     (let q_heads = layer_q_heads il; q_dim = q_heads * SF37_HEAD_DIM; kv_dim = SF37_KV_HEADS * SF37_HEAD_DIM
      in bind_steps
     ([bind_layer il lw_input_norm_update ''input_layernorm.weight'' (Some SF37_TENSOR_BF16) [SF37_EMBD],
      bind_layer il lw_post_norm_update ''post_attention_layernorm.weight'' (Some SF37_TENSOR_BF16) [SF37_EMBD],
      bind_layer il lw_q_proj_update ''self_attn.q_proj.weight'' (Some SF37_TENSOR_Q8_0) [SF37_EMBD, q_dim],
      bind_layer il lw_k_proj_update ''self_attn.k_proj.weight'' (Some SF37_TENSOR_Q8_0) [SF37_EMBD, kv_dim],
      bind_layer il lw_v_proj_update ''self_attn.v_proj.weight'' (Some SF37_TENSOR_Q8_0) [SF37_EMBD, kv_dim],
      bind_layer il lw_o_proj_update ''self_attn.o_proj.weight'' (Some SF37_TENSOR_Q8_0) [q_dim, SF37_EMBD],
      bind_layer il lw_g_proj_update ''self_attn.g_proj.weight'' (Some SF37_TENSOR_Q8_0) [SF37_EMBD, q_heads],
      bind_layer il lw_q_norm_update ''self_attn.q_norm.weight'' (Some SF37_TENSOR_BF16) [SF37_HEAD_DIM],
      bind_layer il lw_k_norm_update ''self_attn.k_norm.weight'' (Some SF37_TENSOR_BF16) [SF37_HEAD_DIM]] @
      (if il < 3 then
        [bind_layer il lw_mlp_gate_update ''mlp.gate_proj.weight'' (Some SF37_TENSOR_Q8_0) [SF37_EMBD, SF37_DENSE_FF],
         bind_layer il lw_mlp_up_update ''mlp.up_proj.weight'' (Some SF37_TENSOR_Q8_0) [SF37_EMBD, SF37_DENSE_FF],
         bind_layer il lw_mlp_down_update ''mlp.down_proj.weight'' (Some SF37_TENSOR_Q8_0) [SF37_DENSE_FF, SF37_EMBD]]
       else
        [bind_layer il lw_router_gate_update ''moe.gate.weight'' None [SF37_EMBD, SF37_EXPERTS],
         bind_layer il lw_router_bias_update ''moe.router_bias'' (Some SF37_TENSOR_F32) [SF37_EXPERTS],
         bind_layer il lw_moe_gate_update ''moe.gate_proj.weight'' (Some SF37_TENSOR_Q3_K) [SF37_EMBD, SF37_EXPERT_FF, SF37_EXPERTS],
         bind_layer il lw_moe_up_update ''moe.up_proj.weight'' (Some SF37_TENSOR_Q3_K) [SF37_EMBD, SF37_EXPERT_FF, SF37_EXPERTS],
         bind_layer il lw_moe_down_update ''moe.down_proj.weight'' (Some SF37_TENSOR_Q2_K) [SF37_EXPERT_FF, SF37_EMBD, SF37_EXPERTS],
         bind_layer il lw_share_gate_update ''share_expert.gate_proj.weight'' (Some SF37_TENSOR_Q8_0) [SF37_EMBD, SF37_EXPERT_FF],
         bind_layer il lw_share_up_update ''share_expert.up_proj.weight'' (Some SF37_TENSOR_Q8_0) [SF37_EMBD, SF37_EXPERT_FF],
         bind_layer il lw_share_down_update ''share_expert.down_proj.weight'' (Some SF37_TENSOR_Q8_0) [SF37_EXPERT_FF, SF37_EMBD]])))"

subsection \<open>Vision\<close>

definition bind_vision_field ::
  "nat \<Rightarrow> ((sf37_tensor option \<Rightarrow> sf37_tensor option) \<Rightarrow> sf37_vision_block \<Rightarrow> sf37_vision_block) \<Rightarrow>
   string \<Rightarrow> u32 option \<Rightarrow> nat list \<Rightarrow> bind_step" where
  "bind_vision_field il upd suffix type dims e =
     (case require_tensor e
         (cstr ''vision_model.transformer.resblocks.'' @ u_dec il @ cstr (CHR ''.'' # suffix)) type dims of
        Inl err \<Rightarrow> Inl err
      | Inr t \<Rightarrow> Inr (e\<lparr>en_vision := (en_vision e)\<lparr>vw_block :=
                        (vw_block (en_vision e))[il := upd (\<lambda>_. Some t) (vw_block (en_vision e) ! il)]\<rparr>,
                      en_bound_vision_tensors := en_bound_vision_tensors e + 1\<rparr>))"

definition bind_vision_block :: "nat \<Rightarrow> bind_step" where
  "bind_vision_block il = bind_steps
     [bind_vision_field il vb_in_proj_weight_update ''attn.in_proj_weight'' (Some SF37_TENSOR_Q8_0) [SF37_VISION_WIDTH, SF37_VISION_WIDTH * 3],
      bind_vision_field il vb_in_proj_bias_update ''attn.in_proj_bias'' None [SF37_VISION_WIDTH * 3],
      bind_vision_field il vb_out_proj_weight_update ''attn.out_proj.weight'' (Some SF37_TENSOR_Q8_0) [SF37_VISION_WIDTH, SF37_VISION_WIDTH],
      bind_vision_field il vb_out_proj_bias_update ''attn.out_proj.bias'' None [SF37_VISION_WIDTH],
      bind_vision_field il vb_ln1_weight_update ''ln_1.weight'' None [SF37_VISION_WIDTH],
      bind_vision_field il vb_ln1_bias_update ''ln_1.bias'' None [SF37_VISION_WIDTH],
      bind_vision_field il vb_ln2_weight_update ''ln_2.weight'' None [SF37_VISION_WIDTH],
      bind_vision_field il vb_ln2_bias_update ''ln_2.bias'' None [SF37_VISION_WIDTH],
      bind_vision_field il vb_ls1_gamma_update ''ls_1.gamma'' None [SF37_VISION_WIDTH],
      bind_vision_field il vb_ls2_gamma_update ''ls_2.gamma'' None [SF37_VISION_WIDTH],
      bind_vision_field il vb_mlp_fc_weight_update ''mlp.c_fc.weight'' (Some SF37_TENSOR_Q8_0) [SF37_VISION_WIDTH, 8960],
      bind_vision_field il vb_mlp_fc_bias_update ''mlp.c_fc.bias'' None [8960],
      bind_vision_field il vb_mlp_proj_weight_update ''mlp.c_proj.weight'' (Some SF37_TENSOR_Q8_0) [8960, SF37_VISION_WIDTH],
      bind_vision_field il vb_mlp_proj_bias_update ''mlp.c_proj.bias'' None [SF37_VISION_WIDTH]]"

definition bind_vision_top ::
  "((sf37_tensor option \<Rightarrow> sf37_tensor option) \<Rightarrow> sf37_vision_weights \<Rightarrow> sf37_vision_weights) \<Rightarrow>
   string \<Rightarrow> u32 option \<Rightarrow> nat list \<Rightarrow> bind_step" where
  "bind_vision_top upd name type dims e =
     (case require_tensor e (cstr name) type dims of
        Inl err \<Rightarrow> Inl err
      | Inr t \<Rightarrow> Inr (e\<lparr>en_vision := upd (\<lambda>_. Some t) (en_vision e),
                      en_bound_vision_tensors := en_bound_vision_tensors e + 1\<rparr>))"

definition bind_vision :: bind_step where
  "bind_vision = bind_steps
     ([bind_vision_top vw_conv1_weight_update ''vision_model.conv1.weight'' (Some SF37_TENSOR_BF16) [SF37_VISION_PATCH, SF37_VISION_PATCH, 3, SF37_VISION_WIDTH],
       bind_vision_top vw_ln_pre_weight_update ''vision_model.ln_pre.weight'' None [SF37_VISION_WIDTH],
       bind_vision_top vw_ln_pre_bias_update ''vision_model.ln_pre.bias'' None [SF37_VISION_WIDTH],
       bind_vision_top vw_positional_embedding_update ''vision_model.positional_embedding'' (Some SF37_TENSOR_Q8_0) [SF37_VISION_WIDTH, SF37_VISION_GRID * SF37_VISION_GRID]] @
      map bind_vision_block [0..<SF37_VISION_LAYERS] @
      [bind_vision_top vw_down1_weight_update ''vision_model.vit_downsampler1.weight'' (Some SF37_TENSOR_BF16) [3, 3, SF37_VISION_WIDTH, SF37_VISION_WIDTH * 2],
       bind_vision_top vw_down1_bias_update ''vision_model.vit_downsampler1.bias'' None [SF37_VISION_WIDTH * 2],
       bind_vision_top vw_down2_weight_update ''vision_model.vit_downsampler2.weight'' (Some SF37_TENSOR_BF16) [3, 3, SF37_VISION_WIDTH * 2, SF37_VISION_WIDTH * 4],
       bind_vision_top vw_down2_bias_update ''vision_model.vit_downsampler2.bias'' None [SF37_VISION_WIDTH * 4],
       bind_vision_top vw_projector_update ''vit_large_projector.weight'' (Some SF37_TENSOR_BF16) [SF37_VISION_WIDTH * 4, SF37_EMBD]])"

subsection \<open>The model\<close>

definition check_metadata :: "bool \<Rightarrow> string \<Rightarrow> bind_step" where
  "check_metadata ok msg e = (if ok then Inr e else Inl (Bad_metadata msg))"

definition kv_string_is :: "sf37_gguf \<Rightarrow> string \<Rightarrow> string \<Rightarrow> bool" where
  "kv_string_is g key lit = (case kv_string g (cstr key) of None \<Rightarrow> False | Some s \<Rightarrow> str_eq s (cstr lit))"

definition validate_metadata :: bind_step where
  "validate_metadata e =
     (let g = en_gguf e in
      bind_steps
        [check_metadata (kv_string_is g ''general.architecture'' ''sf37'') ''general.architecture must be sf37'',
         check_metadata (kv_string_is g ''sf37.q3_layout'' ''q3_asym_g64_f16scale_u8zp_payload3_pad110'')
           ''sf37.q3_layout is missing or incompatible'',
         check_metadata (kv_string_is g ''sf37.q2_layout'' ''q2_asym_g64_f16scale_u8zp_payload2_pad84'')
           ''sf37.q2_layout is missing or incompatible'',
         check_metadata (kv_u32 g (cstr ''sf37.block_count'') = Some (of_nat SF37_MAIN_LAYERS)) ''sf37.block_count'',
         check_metadata (kv_u32 g (cstr ''sf37.mtp_layer_count'') = Some (of_nat SF37_MTP_LAYERS)) ''sf37.mtp_layer_count'',
         check_metadata (kv_u32 g (cstr ''sf37.embedding_length'') = Some (of_nat SF37_EMBD)) ''sf37.embedding_length'',
         check_metadata (kv_u32 g (cstr ''sf37.expert_count'') = Some (of_nat SF37_EXPERTS)) ''sf37.expert_count'',
         check_metadata (kv_bool g (cstr ''sf37.vision_included'') = Some True) ''sf37.vision_included must be true''] e)"

definition has_prefix :: "bytes \<Rightarrow> string \<Rightarrow> bool" where
  "has_prefix s prefix = strncmp_eq s (cstr prefix) (length (cstr prefix))"

definition has_mtp_prefix :: "bytes \<Rightarrow> bool" where
  "has_mtp_prefix s \<longleftrightarrow> has_prefix s ''model.layers.45.'' \<or> has_prefix s ''model.layers.46.'' \<or>
     has_prefix s ''model.layers.47.''"

definition count_tensor :: "sf37_engine \<Rightarrow> sf37_tensor \<Rightarrow> sf37_engine" where
  "count_tensor e t =
     (let i = unat (tn_type t);
          e = (if tn_type t < 42
               then e\<lparr>en_type_count := (en_type_count e)[i := en_type_count e ! i + 1],
                      en_type_bytes := (en_type_bytes e)[i := en_type_bytes e ! i + tn_nbytes t]\<rparr>
               else e)
      in if has_mtp_prefix (tn_name t)
         then e\<lparr>en_inactive_mtp_tensors := en_inactive_mtp_tensors e + 1\<rparr> else e)"

definition bind_top ::
  "((sf37_tensor option \<Rightarrow> sf37_tensor option) \<Rightarrow> sf37_engine \<Rightarrow> sf37_engine) \<Rightarrow> string \<Rightarrow> nat list \<Rightarrow> bind_step" where
  "bind_top upd name dims e =
     (case require_tensor e (cstr name) (Some SF37_TENSOR_BF16) dims of
        Inl err \<Rightarrow> Inl err | Inr t \<Rightarrow> Inr (upd (\<lambda>_. Some t) e))"

definition bind_model :: bind_step where
  "bind_model = bind_steps
     ([validate_metadata,
       \<lambda>e. Inr (foldl count_tensor e (gg_tensors (en_gguf e))),
       bind_top en_embed_tokens_update ''model.embed_tokens.weight'' [SF37_EMBD, SF37_VOCAB],
       bind_top en_lm_head_update ''lm_head.weight'' [SF37_EMBD, SF37_VOCAB],
       bind_top en_final_norm_update ''model.norm.weight'' [SF37_EMBD],
       \<lambda>e. Inr (e\<lparr>en_bound_text_tensors := en_bound_text_tensors e + 3\<rparr>)] @
      map bind_text_layer [0..<SF37_MAIN_LAYERS] @
      [bind_vision])"

subsection \<open>Addresses\<close>

text \<open>The bytes of a token's embedding row; \<open>None\<close> when the program exits. Pointers are offsets
  into the map.\<close>

definition embed_token_row :: "sf37_tensor \<Rightarrow> int \<Rightarrow> (nat \<times> nat) option" where
  "embed_token_row t token =
     (if token < 0 \<or> nat token \<ge> unat (tn_dim t ! 1) then None
      else let stride = unat (tn_dim t ! 0)
           in Some (unat (tn_abs_offset t) + 2 * (nat token * stride), 2 * stride))"

definition expert_bytes :: "sf37_tensor option \<Rightarrow> nat \<Rightarrow> u64 \<Rightarrow> u64 option" where
  "expert_bytes t expert block_bytes =
     (case t of
        None \<Rightarrow> None
      | Some t \<Rightarrow>
          if length (tn_dim t) \<noteq> 3 \<or> expert \<ge> unat (tn_dim t ! 2) then None
          else let in_dim = tn_dim t ! 0; out_dim = tn_dim t ! 1;
                   blocks = in_dim div SF37_QK_K; row_bytes = blocks * block_bytes
               in Some (tn_abs_offset t + of_nat expert * out_dim * row_bytes))"

subsection \<open>What binding guarantees\<close>

text \<open>A bound pointer: a tensor of the file with the required type and dimensions.\<close>

definition weight :: "sf37_gguf \<Rightarrow> sf37_tensor option \<Rightarrow> u32 option \<Rightarrow> nat list \<Rightarrow> bool" where
  "weight g t type dims \<longleftrightarrow> (\<exists>tn. t = Some tn \<and> tn \<in> set (gg_tensors g) \<and>
     (type = None \<or> tn_type tn = the type) \<and> map unat (tn_dim tn) = dims)"

lemma find_tensor_in: "find_tensor g name = Some t \<Longrightarrow> t \<in> set (gg_tensors g)"
  by (auto simp: find_tensor_def find_Some_iff)

lemma require_tensor_weight:
  assumes "require_tensor e name type dims = Inr t" and "\<forall>d \<in> set dims. d < 2 ^ 64"
  shows "weight (en_gguf e) (Some t) type dims"
proof -
  have t: "find_tensor (en_gguf e) name = Some t" "type = None \<or> tn_type t = the type"
    "tensor_dims_eq t (length dims) (map of_nat dims)"
    using assms(1) by (auto simp: require_tensor_def split: option.splits if_splits)
  have "map unat (tn_dim t) = dims"
  proof (rule nth_equalityI)
    show l: "length (map unat (tn_dim t)) = length dims"
      using t(3) by (simp add: tensor_dims_eq_def)
    show "map unat (tn_dim t) ! i = dims ! i" if "i < length (map unat (tn_dim t))" for i
      using t(3) that assms(2) l by (simp add: tensor_dims_eq_def list_all_iff unat_of_nat_64)
  qed
  then show ?thesis
    using t(2) find_tensor_in [OF t(1)] by (simp add: weight_def)
qed

text \<open>Taking one bind step apart. \<open>layer_view e0 il e l\<close>: the engine \<open>e\<close> is \<open>e0\<close> but for the
  pointers of layer \<open>il\<close>, which are \<open>l\<close>.\<close>

definition layer_view :: "sf37_engine \<Rightarrow> nat \<Rightarrow> sf37_engine \<Rightarrow> sf37_layer_weights \<Rightarrow> bool" where
  "layer_view e0 il e l \<longleftrightarrow> il < length (en_layer e0) \<and>
     (\<exists>n. e = e0\<lparr>en_layer := (en_layer e0)[il := l], en_bound_text_tensors := n\<rparr>)"

definition block_view :: "sf37_engine \<Rightarrow> nat \<Rightarrow> sf37_engine \<Rightarrow> sf37_vision_block \<Rightarrow> bool" where
  "block_view e0 il e b \<longleftrightarrow> il < length (vw_block (en_vision e0)) \<and>
     (\<exists>n. e = e0\<lparr>en_vision := (en_vision e0)\<lparr>vw_block := (vw_block (en_vision e0))[il := b]\<rparr>,
        en_bound_vision_tensors := n\<rparr>)"

definition vision_view :: "sf37_engine \<Rightarrow> sf37_engine \<Rightarrow> sf37_vision_weights \<Rightarrow> bool" where
  "vision_view e0 e v \<longleftrightarrow> (\<exists>n. e = e0\<lparr>en_vision := v, en_bound_vision_tensors := n\<rparr>)"

lemma bind_layer_elim:
  assumes "bind_steps (bind_layer il upd s type dims # ss) e = Inr e'" and "layer_view e0 il e l"
    and "\<forall>d \<in> set dims. d < 2 ^ 64"
  obtains t e1 where "bind_steps ss e1 = Inr e'" "layer_view e0 il e1 (upd (\<lambda>_. Some t) l)"
    "weight (en_gguf e0) (Some t) type dims"
proof -
  obtain n where e: "e = e0\<lparr>en_layer := (en_layer e0)[il := l], en_bound_text_tensors := n\<rparr>" "il < length (en_layer e0)"
    using assms(2) by (auto simp: layer_view_def)
  from assms(1) obtain t where t: "require_tensor e (cstr ''model.layers.'' @ u_dec il @ cstr (CHR ''.'' # s)) type dims = Inr t"
    "bind_steps ss (e\<lparr>en_layer := (en_layer e)[il := upd (\<lambda>_. Some t) (en_layer e ! il)],
       en_bound_text_tensors := en_bound_text_tensors e + 1\<rparr>) = Inr e'"
    by (auto simp: bind_layer_def split: sum.splits)
  have w: "weight (en_gguf e0) (Some t) type dims"
    using require_tensor_weight [OF t(1) assms(3)] e by simp
  show thesis
    by (rule that [OF t(2) _ w]) (use e in \<open>auto simp: layer_view_def\<close>)
qed

lemma bind_vision_field_elim:
  assumes "bind_steps (bind_vision_field il upd s type dims # ss) e = Inr e'" and "block_view e0 il e b"
    and "\<forall>d \<in> set dims. d < 2 ^ 64"
  obtains t e1 where "bind_steps ss e1 = Inr e'" "block_view e0 il e1 (upd (\<lambda>_. Some t) b)"
    "weight (en_gguf e0) (Some t) type dims"
proof -
  obtain n where e: "e = e0\<lparr>en_vision := (en_vision e0)\<lparr>vw_block := (vw_block (en_vision e0))[il := b]\<rparr>,
        en_bound_vision_tensors := n\<rparr>" "il < length (vw_block (en_vision e0))"
    using assms(2) by (auto simp: block_view_def)
  from assms(1) obtain t where t: "require_tensor e
      (cstr ''vision_model.transformer.resblocks.'' @ u_dec il @ cstr (CHR ''.'' # s)) type dims = Inr t"
    "bind_steps ss (e\<lparr>en_vision := (en_vision e)\<lparr>vw_block :=
                        (vw_block (en_vision e))[il := upd (\<lambda>_. Some t) (vw_block (en_vision e) ! il)]\<rparr>,
       en_bound_vision_tensors := en_bound_vision_tensors e + 1\<rparr>) = Inr e'"
    by (auto simp: bind_vision_field_def split: sum.splits)
  have w: "weight (en_gguf e0) (Some t) type dims"
    using require_tensor_weight [OF t(1) assms(3)] e by simp
  show thesis
    by (rule that [OF t(2) _ w]) (use e in \<open>auto simp: block_view_def\<close>)
qed

lemma bind_vision_top_elim:
  assumes "bind_steps (bind_vision_top upd name type dims # ss) e = Inr e'" and "vision_view e0 e v"
    and "\<forall>d \<in> set dims. d < 2 ^ 64"
  obtains t e1 where "bind_steps ss e1 = Inr e'" "vision_view e0 e1 (upd (\<lambda>_. Some t) v)"
    "weight (en_gguf e0) (Some t) type dims"
proof -
  obtain n where e: "e = e0\<lparr>en_vision := v, en_bound_vision_tensors := n\<rparr>"
    using assms(2) by (auto simp: vision_view_def)
  from assms(1) obtain t where t: "require_tensor e (cstr name) type dims = Inr t"
    "bind_steps ss (e\<lparr>en_vision := upd (\<lambda>_. Some t) (en_vision e),
       en_bound_vision_tensors := en_bound_vision_tensors e + 1\<rparr>) = Inr e'"
    by (auto simp: bind_vision_top_def split: sum.splits)
  have w: "weight (en_gguf e0) (Some t) type dims"
    using require_tensor_weight [OF t(1) assms(3)] e by simp
  show thesis
    by (rule that [OF t(2) _ w]) (use e in \<open>auto simp: vision_view_def\<close>)
qed

lemma bind_top_elim:
  assumes "bind_steps (bind_top upd name dims # ss) e = Inr e'" and "\<forall>d \<in> set dims. d < 2 ^ 64"
  obtains t where "bind_steps ss (upd (\<lambda>_. Some t) e) = Inr e'"
    "weight (en_gguf e) (Some t) (Some SF37_TENSOR_BF16) dims"
proof -
  from assms(1) obtain t where t: "require_tensor e (cstr name) (Some SF37_TENSOR_BF16) dims = Inr t"
    "bind_steps ss (upd (\<lambda>_. Some t) e) = Inr e'"
    by (auto simp: bind_top_def split: sum.splits)
  show thesis
    by (rule that [OF t(2) require_tensor_weight [OF t(1) assms(2)]])
qed

text \<open>The weights the layers use.\<close>

definition layer_bound :: "sf37_gguf \<Rightarrow> nat \<Rightarrow> sf37_layer_weights \<Rightarrow> bool" where
  "layer_bound g il l \<longleftrightarrow>
     (let q_heads = layer_q_heads il; q_dim = q_heads * SF37_HEAD_DIM; kv_dim = SF37_KV_HEADS * SF37_HEAD_DIM in
     weight g (lw_input_norm l) (Some SF37_TENSOR_BF16) [SF37_EMBD] \<and>
     weight g (lw_post_norm l) (Some SF37_TENSOR_BF16) [SF37_EMBD] \<and>
     weight g (lw_q_proj l) (Some SF37_TENSOR_Q8_0) [SF37_EMBD, q_dim] \<and>
     weight g (lw_k_proj l) (Some SF37_TENSOR_Q8_0) [SF37_EMBD, kv_dim] \<and>
     weight g (lw_v_proj l) (Some SF37_TENSOR_Q8_0) [SF37_EMBD, kv_dim] \<and>
     weight g (lw_o_proj l) (Some SF37_TENSOR_Q8_0) [q_dim, SF37_EMBD] \<and>
     weight g (lw_g_proj l) (Some SF37_TENSOR_Q8_0) [SF37_EMBD, q_heads] \<and>
     weight g (lw_q_norm l) (Some SF37_TENSOR_BF16) [SF37_HEAD_DIM] \<and>
     weight g (lw_k_norm l) (Some SF37_TENSOR_BF16) [SF37_HEAD_DIM] \<and>
     (if il < 3 then
     weight g (lw_mlp_gate l) (Some SF37_TENSOR_Q8_0) [SF37_EMBD, SF37_DENSE_FF] \<and>
     weight g (lw_mlp_up l) (Some SF37_TENSOR_Q8_0) [SF37_EMBD, SF37_DENSE_FF] \<and>
     weight g (lw_mlp_down l) (Some SF37_TENSOR_Q8_0) [SF37_DENSE_FF, SF37_EMBD]
     else
     weight g (lw_router_gate l) None [SF37_EMBD, SF37_EXPERTS] \<and>
     weight g (lw_router_bias l) (Some SF37_TENSOR_F32) [SF37_EXPERTS] \<and>
     weight g (lw_moe_gate l) (Some SF37_TENSOR_Q3_K) [SF37_EMBD, SF37_EXPERT_FF, SF37_EXPERTS] \<and>
     weight g (lw_moe_up l) (Some SF37_TENSOR_Q3_K) [SF37_EMBD, SF37_EXPERT_FF, SF37_EXPERTS] \<and>
     weight g (lw_moe_down l) (Some SF37_TENSOR_Q2_K) [SF37_EXPERT_FF, SF37_EMBD, SF37_EXPERTS] \<and>
     weight g (lw_share_gate l) (Some SF37_TENSOR_Q8_0) [SF37_EMBD, SF37_EXPERT_FF] \<and>
     weight g (lw_share_up l) (Some SF37_TENSOR_Q8_0) [SF37_EMBD, SF37_EXPERT_FF] \<and>
     weight g (lw_share_down l) (Some SF37_TENSOR_Q8_0) [SF37_EXPERT_FF, SF37_EMBD]))"

definition vision_block_bound :: "sf37_gguf \<Rightarrow> sf37_vision_block \<Rightarrow> bool" where
  "vision_block_bound g b \<longleftrightarrow>
     weight g (vb_in_proj_weight b) (Some SF37_TENSOR_Q8_0) [SF37_VISION_WIDTH, SF37_VISION_WIDTH * 3] \<and>
     weight g (vb_in_proj_bias b) None [SF37_VISION_WIDTH * 3] \<and>
     weight g (vb_out_proj_weight b) (Some SF37_TENSOR_Q8_0) [SF37_VISION_WIDTH, SF37_VISION_WIDTH] \<and>
     weight g (vb_out_proj_bias b) None [SF37_VISION_WIDTH] \<and>
     weight g (vb_ln1_weight b) None [SF37_VISION_WIDTH] \<and>
     weight g (vb_ln1_bias b) None [SF37_VISION_WIDTH] \<and>
     weight g (vb_ln2_weight b) None [SF37_VISION_WIDTH] \<and>
     weight g (vb_ln2_bias b) None [SF37_VISION_WIDTH] \<and>
     weight g (vb_ls1_gamma b) None [SF37_VISION_WIDTH] \<and>
     weight g (vb_ls2_gamma b) None [SF37_VISION_WIDTH] \<and>
     weight g (vb_mlp_fc_weight b) (Some SF37_TENSOR_Q8_0) [SF37_VISION_WIDTH, 8960] \<and>
     weight g (vb_mlp_fc_bias b) None [8960] \<and>
     weight g (vb_mlp_proj_weight b) (Some SF37_TENSOR_Q8_0) [8960, SF37_VISION_WIDTH] \<and>
     weight g (vb_mlp_proj_bias b) None [SF37_VISION_WIDTH]"

lemma layer_q_heads_cases: "layer_q_heads il = 64 \<or> layer_q_heads il = 96"
  by (simp add: layer_q_heads_def weight_constants)

lemma q_heads_bound: "layer_q_heads il < 2 ^ 64" "layer_q_heads il * SF37_HEAD_DIM < 2 ^ 64"
  by (simp_all add: layer_q_heads_def weight_constants)

lemma constants_bound:
  "SF37_EMBD < 2 ^ 64" "SF37_KV_HEADS * SF37_HEAD_DIM < 2 ^ 64" "SF37_HEAD_DIM < 2 ^ 64" "SF37_DENSE_FF < 2 ^ 64"
  "SF37_EXPERTS < 2 ^ 64" "SF37_EXPERT_FF < 2 ^ 64" "SF37_VISION_WIDTH < 2 ^ 64" "SF37_VISION_WIDTH * 2 < 2 ^ 64"
  "SF37_VISION_WIDTH * 3 < 2 ^ 64" "SF37_VISION_WIDTH * 4 < 2 ^ 64" "SF37_VISION_PATCH < 2 ^ 64"
  "SF37_VISION_GRID * SF37_VISION_GRID < 2 ^ 64" "SF37_VOCAB < 2 ^ 64" "3 < (2::nat) ^ 64" "8960 < (2::nat) ^ 64"
  by (simp_all add: weight_constants)

lemma dims_below:
  "\<forall>d \<in> set []. d < (2::nat) ^ 64"
  "d < 2 ^ 64 \<Longrightarrow> \<forall>d \<in> set ds. d < 2 ^ 64 \<Longrightarrow> \<forall>d \<in> set (d # ds). d < (2::nat) ^ 64"
  by simp_all

lemma bind_text_layer_sound:
  assumes "bind_text_layer il e = Inr e'" and "il < length (en_layer e)"
  shows "\<exists>l. layer_view e il e' l \<and> layer_bound (en_gguf e) il l"
proof -
  have view: "layer_view e il e (en_layer e ! il)"
    using assms(2) by (simp add: layer_view_def) (rule exI [of _ "en_bound_text_tensors e"], simp)
  show ?thesis
  proof (cases "il < 3")
    case True
    then show ?thesis
      using assms(1) view unfolding bind_text_layer_def Let_def layer_bound_def
      by (simp only: if_True append_Cons append_Nil)
        ((erule (1) bind_layer_elim, (rule dims_below q_heads_bound constants_bound)+)+,
          simp only: bind_steps.simps sum.inject, rule exI, rule conjI, assumption, simp)
  next
    case False
    then show ?thesis
      using assms(1) view unfolding bind_text_layer_def Let_def layer_bound_def
      by (simp only: if_False append_Cons append_Nil)
        ((erule (1) bind_layer_elim, (rule dims_below q_heads_bound constants_bound)+)+,
          simp only: bind_steps.simps sum.inject, rule exI, rule conjI, assumption, simp)
  qed
qed

definition vision_bound :: "sf37_gguf \<Rightarrow> sf37_vision_weights \<Rightarrow> bool" where
  "vision_bound g v \<longleftrightarrow>
     weight g (vw_conv1_weight v) (Some SF37_TENSOR_BF16) [SF37_VISION_PATCH, SF37_VISION_PATCH, 3, SF37_VISION_WIDTH] \<and>
     weight g (vw_ln_pre_weight v) None [SF37_VISION_WIDTH] \<and>
     weight g (vw_ln_pre_bias v) None [SF37_VISION_WIDTH] \<and>
     weight g (vw_positional_embedding v) (Some SF37_TENSOR_Q8_0) [SF37_VISION_WIDTH, SF37_VISION_GRID * SF37_VISION_GRID] \<and>
     weight g (vw_down1_weight v) (Some SF37_TENSOR_BF16) [3, 3, SF37_VISION_WIDTH, SF37_VISION_WIDTH * 2] \<and>
     weight g (vw_down1_bias v) None [SF37_VISION_WIDTH * 2] \<and>
     weight g (vw_down2_weight v) (Some SF37_TENSOR_BF16) [3, 3, SF37_VISION_WIDTH * 2, SF37_VISION_WIDTH * 4] \<and>
     weight g (vw_down2_bias v) None [SF37_VISION_WIDTH * 4] \<and>
     weight g (vw_projector v) (Some SF37_TENSOR_BF16) [SF37_VISION_WIDTH * 4, SF37_EMBD] \<and>
     (\<forall>il<SF37_VISION_LAYERS. vision_block_bound g (vw_block v ! il))"

definition engine_bound :: "sf37_gguf \<Rightarrow> sf37_engine \<Rightarrow> bool" where
  "engine_bound g e \<longleftrightarrow> en_gguf e = g \<and>
     weight g (en_embed_tokens e) (Some SF37_TENSOR_BF16) [SF37_EMBD, SF37_VOCAB] \<and>
     weight g (en_lm_head e) (Some SF37_TENSOR_BF16) [SF37_EMBD, SF37_VOCAB] \<and>
     weight g (en_final_norm e) (Some SF37_TENSOR_BF16) [SF37_EMBD] \<and>
     (\<forall>il<SF37_MAIN_LAYERS. layer_bound g il (en_layer e ! il)) \<and> vision_bound g (en_vision e)"

lemma bind_vision_block_sound:
  assumes "bind_vision_block il e = Inr e'" and "il < length (vw_block (en_vision e))"
  shows "\<exists>b. block_view e il e' b \<and> vision_block_bound (en_gguf e) b"
proof -
  have view: "block_view e il e (vw_block (en_vision e) ! il)"
    using assms(2) by (simp add: block_view_def) (rule exI [of _ "en_bound_vision_tensors e"], simp)
  then show ?thesis
    using assms(1) unfolding bind_vision_block_def vision_block_bound_def
    by - ((erule (1) bind_vision_field_elim, (rule dims_below constants_bound)+)+,
        simp only: bind_steps.simps sum.inject, rule exI, rule conjI, assumption, simp)
qed

lemma bind_steps_append:
  "bind_steps (ss @ ts) e = (case bind_steps ss e of Inl err \<Rightarrow> Inl err | Inr e \<Rightarrow> bind_steps ts e)"
  by (induction ss arbitrary: e) (simp_all split: sum.split)

lemma bind_layers_sound:
  assumes "bind_steps (map bind_text_layer [0..<n]) e = Inr e'" and "n \<le> length (en_layer e)"
  shows "\<exists>ls k. e' = e\<lparr>en_layer := ls, en_bound_text_tensors := k\<rparr> \<and> length ls = length (en_layer e) \<and>
    (\<forall>il<n. layer_bound (en_gguf e) il (ls ! il))"
  using assms
proof (induction n arbitrary: e')
  case 0
  then show ?case
    by (intro exI [of _ "en_layer e"] exI [of _ "en_bound_text_tensors e"]) simp
next
  case (Suc n)
  from Suc.prems(1) obtain e1 where e1: "bind_steps (map bind_text_layer [0..<n]) e = Inr e1" "bind_text_layer n e1 = Inr e'"
    by (auto simp: bind_steps_append split: sum.splits)
  from Suc.IH [OF e1(1)] Suc.prems(2) obtain ls k where ls: "e1 = e\<lparr>en_layer := ls, en_bound_text_tensors := k\<rparr>"
    "length ls = length (en_layer e)" "\<forall>il<n. layer_bound (en_gguf e) il (ls ! il)"
    by auto
  obtain l where l: "layer_view e1 n e' l" "layer_bound (en_gguf e1) n l"
    using bind_text_layer_sound [OF e1(2)] Suc.prems(2) ls(1,2) by auto
  then obtain k' where "e' = e\<lparr>en_layer := ls[n := l], en_bound_text_tensors := k'\<rparr>"
    by (auto simp: layer_view_def ls(1))
  then show ?case
    using l(2) ls Suc.prems(2)
    by (intro exI [of _ "ls[n := l]"] exI [of _ k']) (auto simp: less_Suc_eq nth_list_update)
qed

lemma bind_blocks_sound:
  assumes "bind_steps (map bind_vision_block [0..<n]) e = Inr e'" and "n \<le> length (vw_block (en_vision e))"
  shows "\<exists>bs k. e' = e\<lparr>en_vision := (en_vision e)\<lparr>vw_block := bs\<rparr>, en_bound_vision_tensors := k\<rparr> \<and>
    length bs = length (vw_block (en_vision e)) \<and> (\<forall>il<n. vision_block_bound (en_gguf e) (bs ! il))"
  using assms
proof (induction n arbitrary: e')
  case 0
  then show ?case
    by (intro exI [of _ "vw_block (en_vision e)"] exI [of _ "en_bound_vision_tensors e"]) simp
next
  case (Suc n)
  from Suc.prems(1) obtain e1 where e1: "bind_steps (map bind_vision_block [0..<n]) e = Inr e1" "bind_vision_block n e1 = Inr e'"
    by (auto simp: bind_steps_append split: sum.splits)
  from Suc.IH [OF e1(1)] Suc.prems(2) obtain bs k where
    bs: "e1 = e\<lparr>en_vision := (en_vision e)\<lparr>vw_block := bs\<rparr>, en_bound_vision_tensors := k\<rparr>"
    "length bs = length (vw_block (en_vision e))" "\<forall>il<n. vision_block_bound (en_gguf e) (bs ! il)"
    by auto
  obtain b where b: "block_view e1 n e' b" "vision_block_bound (en_gguf e1) b"
    using bind_vision_block_sound [OF e1(2)] Suc.prems(2) bs(1,2) by auto
  then obtain k' where "e' = e\<lparr>en_vision := (en_vision e)\<lparr>vw_block := bs[n := b]\<rparr>, en_bound_vision_tensors := k'\<rparr>"
    by (auto simp: block_view_def bs(1))
  then show ?case
    using b(2) bs Suc.prems(2)
    by (intro exI [of _ "bs[n := b]"] exI [of _ k']) (auto simp: less_Suc_eq nth_list_update)
qed

lemma bind_vision_sound:
  assumes "bind_vision e = Inr e'" and "length (vw_block (en_vision e)) = SF37_VISION_LAYERS"
  shows "\<exists>v k. e' = e\<lparr>en_vision := v, en_bound_vision_tensors := k\<rparr> \<and> vision_bound (en_gguf e) v"
proof -
  have view: "vision_view e e (en_vision e)"
    by (simp add: vision_view_def) (rule exI [of _ "en_bound_vision_tensors e"], simp)
  let ?bs = "map bind_vision_block [0..<SF37_VISION_LAYERS]"
  have step: "\<exists>e2. bind_steps ?bs e1 = Inr e2 \<and> bind_steps ss e2 = Inr e3" if "bind_steps (?bs @ ss) e1 = Inr e3" for e1 e3 ss
    using that by (auto simp: bind_steps_append split: sum.splits)
  obtain t1 t2 t3 t4 e1 v1 where e1: "bind_steps (?bs @ [bind_vision_top vw_down1_weight_update ''vision_model.vit_downsampler1.weight'' (Some SF37_TENSOR_BF16) [3, 3, SF37_VISION_WIDTH, SF37_VISION_WIDTH * 2], bind_vision_top vw_down1_bias_update ''vision_model.vit_downsampler1.bias'' None [SF37_VISION_WIDTH * 2], bind_vision_top vw_down2_weight_update ''vision_model.vit_downsampler2.weight'' (Some SF37_TENSOR_BF16) [3, 3, SF37_VISION_WIDTH * 2, SF37_VISION_WIDTH * 4], bind_vision_top vw_down2_bias_update ''vision_model.vit_downsampler2.bias'' None [SF37_VISION_WIDTH * 4], bind_vision_top vw_projector_update ''vit_large_projector.weight'' (Some SF37_TENSOR_BF16) [SF37_VISION_WIDTH * 4, SF37_EMBD]]) e1 = Inr e'"
    "vision_view e e1 v1" "v1 = (en_vision e)\<lparr>vw_conv1_weight := Some t1, vw_ln_pre_weight := Some t2, vw_ln_pre_bias := Some t3,
       vw_positional_embedding := Some t4\<rparr>"
    "weight (en_gguf e) (Some t1) (Some SF37_TENSOR_BF16) [SF37_VISION_PATCH, SF37_VISION_PATCH, 3, SF37_VISION_WIDTH]"
    "weight (en_gguf e) (Some t2) None [SF37_VISION_WIDTH]" "weight (en_gguf e) (Some t3) None [SF37_VISION_WIDTH]"
    "weight (en_gguf e) (Some t4) (Some SF37_TENSOR_Q8_0) [SF37_VISION_WIDTH, SF37_VISION_GRID * SF37_VISION_GRID]"
    using assms(1) view unfolding bind_vision_def append_Cons append_Nil
    by - ((erule (1) bind_vision_top_elim, (rule dims_below constants_bound)+)+, simp)
  from e1(2) obtain k where k: "e1 = e\<lparr>en_vision := v1, en_bound_vision_tensors := k\<rparr>"
    by (auto simp: vision_view_def)
  obtain e2 where e2: "bind_steps ?bs e1 = Inr e2" "bind_steps [bind_vision_top vw_down1_weight_update ''vision_model.vit_downsampler1.weight'' (Some SF37_TENSOR_BF16) [3, 3, SF37_VISION_WIDTH, SF37_VISION_WIDTH * 2], bind_vision_top vw_down1_bias_update ''vision_model.vit_downsampler1.bias'' None [SF37_VISION_WIDTH * 2], bind_vision_top vw_down2_weight_update ''vision_model.vit_downsampler2.weight'' (Some SF37_TENSOR_BF16) [3, 3, SF37_VISION_WIDTH * 2, SF37_VISION_WIDTH * 4], bind_vision_top vw_down2_bias_update ''vision_model.vit_downsampler2.bias'' None [SF37_VISION_WIDTH * 4], bind_vision_top vw_projector_update ''vit_large_projector.weight'' (Some SF37_TENSOR_BF16) [SF37_VISION_WIDTH * 4, SF37_EMBD]] e2 = Inr e'"
    using step [OF e1(1)] by blast
  have "SF37_VISION_LAYERS \<le> length (vw_block (en_vision e1))"
    using assms(2) by (simp add: k e1(3))
  from bind_blocks_sound [OF e2(1) this] obtain bs k2 where
    bs: "e2 = e\<lparr>en_vision := v1\<lparr>vw_block := bs\<rparr>, en_bound_vision_tensors := k2\<rparr>"
    "\<forall>il<SF37_VISION_LAYERS. vision_block_bound (en_gguf e) (bs ! il)"
    by (auto simp: k)
  have "vision_view e e2 (v1\<lparr>vw_block := bs\<rparr>)"
    by (auto simp: vision_view_def bs(1))
  then have "\<exists>v. vision_view e e' v \<and> vision_bound (en_gguf e) v"
    using e2(2) unfolding vision_bound_def
    by - ((erule (1) bind_vision_top_elim, (rule dims_below constants_bound)+)+,
        simp only: bind_steps.simps sum.inject, rule exI, rule conjI, assumption, simp add: e1(3-7) bs(2))
  then show ?thesis
    by (auto simp: vision_view_def)
qed

lemma check_metadata_steps:
  "bind_steps (check_metadata ok m # ss) e = (if ok then bind_steps ss e else Inl (Bad_metadata m))"
  by (simp add: check_metadata_def)

lemma validate_metadata_same: "validate_metadata e = Inr e' \<Longrightarrow> e' = e"
  unfolding validate_metadata_def Let_def check_metadata_steps by (simp split: if_splits)

lemma count_tensor_frame:
  "en_gguf (count_tensor e t) = en_gguf e" "en_layer (count_tensor e t) = en_layer e"
  "en_vision (count_tensor e t) = en_vision e"
  by (simp_all add: count_tensor_def Let_def)

lemma count_tensors_frame:
  "en_gguf (foldl count_tensor e ts) = en_gguf e \<and> en_layer (foldl count_tensor e ts) = en_layer e \<and>
   en_vision (foldl count_tensor e ts) = en_vision e"
  by (induction ts arbitrary: e) (simp_all add: count_tensor_frame)

lemma bind_model_sound:
  assumes "bind_model (engine_of_gguf g) = Inr e"
  shows "engine_bound g e"
proof -
  let ?e0 = "engine_of_gguf g" and ?ls = "map bind_text_layer [0..<SF37_MAIN_LAYERS]"
  define e1 where "e1 = foldl count_tensor ?e0 (gg_tensors (en_gguf ?e0))"
  have e1: "en_gguf e1 = g" "length (en_layer e1) = SF37_MAIN_LAYERS" "length (vw_block (en_vision e1)) = SF37_VISION_LAYERS"
    using count_tensors_frame [of ?e0 "gg_tensors g"] by (simp_all add: e1_def engine_of_gguf_def zero_vision_def)
  have top: "bind_steps (bind_top en_embed_tokens_update ''model.embed_tokens.weight'' [SF37_EMBD, SF37_VOCAB] #
       bind_top en_lm_head_update ''lm_head.weight'' [SF37_EMBD, SF37_VOCAB] #
       bind_top en_final_norm_update ''model.norm.weight'' [SF37_EMBD] #
       (\<lambda>e. Inr (e\<lparr>en_bound_text_tensors := en_bound_text_tensors e + 3\<rparr>)) # ?ls @ [bind_vision]) e1 = Inr e"
    using assms validate_metadata_same [of ?e0]
    by (auto simp: bind_model_def e1_def split: sum.splits)
  obtain t1 t2 t3 e2 where e2: "e2 = e1\<lparr>en_embed_tokens := Some t1, en_lm_head := Some t2, en_final_norm := Some t3,
       en_bound_text_tensors := en_bound_text_tensors e1 + 3\<rparr>"
    "weight g (Some t1) (Some SF37_TENSOR_BF16) [SF37_EMBD, SF37_VOCAB]"
    "weight g (Some t2) (Some SF37_TENSOR_BF16) [SF37_EMBD, SF37_VOCAB]"
    "weight g (Some t3) (Some SF37_TENSOR_BF16) [SF37_EMBD]"
    "bind_steps (?ls @ [bind_vision]) e2 = Inr e"
    using top e1(1)
    by - ((erule bind_top_elim, (rule dims_below constants_bound)+)+, simp)
  then obtain e3 where e3: "bind_steps ?ls e2 = Inr e3" "bind_vision e3 = Inr e"
    by (auto simp: bind_steps_append split: sum.splits)
  obtain ls k where ls: "e3 = e2\<lparr>en_layer := ls, en_bound_text_tensors := k\<rparr>" "\<forall>il<SF37_MAIN_LAYERS. layer_bound g il (ls ! il)"
    using bind_layers_sound [OF e3(1)] e1(1,2) e2(1) by auto
  obtain v k' where v: "e = e3\<lparr>en_vision := v, en_bound_vision_tensors := k'\<rparr>" "vision_bound g v"
    using bind_vision_sound [OF e3(2)] e1(1,3) by (auto simp: e2(1) ls(1))
  show ?thesis
    unfolding engine_bound_def using e1(1) e2(2-4) ls(2) v(2) by (simp add: v(1) ls(1) e2(1))
qed

subsection \<open>What the CPU path reads\<close>

text \<open>The bytes the kernels of \<open>sf37_ops.c\<close> read from a matrix of \<open>out_dim\<close> rows.\<close>

definition q8_0_matvec_bytes :: "nat \<Rightarrow> nat \<Rightarrow> nat" where
  "q8_0_matvec_bytes in_dim out_dim = out_dim * ((in_dim + 31) div 32 * 34)"

definition bf16_matvec_bytes :: "nat \<Rightarrow> nat \<Rightarrow> nat" where
  "bf16_matvec_bytes in_dim out_dim = 2 * (out_dim * in_dim)"

definition q3_asym_matvec_bytes :: "nat \<Rightarrow> nat \<Rightarrow> nat" where
  "q3_asym_matvec_bytes in_dim out_dim = out_dim * (in_dim div 256 * 110)"

definition q2_asym_matvec_bytes :: "nat \<Rightarrow> nat \<Rightarrow> nat" where
  "q2_asym_matvec_bytes in_dim out_dim = out_dim * (in_dim div 256 * 84)"

text \<open>The matrix-vector product on a tensor of any dense type; \<open>None\<close> when the program exits.\<close>

definition matvec_dense_bytes :: "sf37_tensor option \<Rightarrow> nat option" where
  "matvec_dense_bytes t =
     (case t of
        None \<Rightarrow> None
      | Some t \<Rightarrow>
          if length (tn_dim t) \<noteq> 2 then None
          else let i = unat (tn_dim t ! 0); r = unat (tn_dim t ! 1) in
               if tn_type t = SF37_TENSOR_Q8_0 then Some (q8_0_matvec_bytes i r)
               else if tn_type t = SF37_TENSOR_BF16 then Some (bf16_matvec_bytes i r)
               else if tn_type t = SF37_TENSOR_F32 then Some (4 * (r * i))
               else None)"

text \<open>Reading \<open>n\<close> bytes from a tensor's data pointer, and from the slice of one expert.\<close>

definition read_ok :: "sf37_gguf \<Rightarrow> sf37_tensor option \<Rightarrow> nat \<Rightarrow> bool" where
  "read_ok g t n \<longleftrightarrow> (case t of None \<Rightarrow> False | Some t \<Rightarrow> unat (tn_abs_offset t) + n \<le> length (gg_map g))"

definition expert_read_ok :: "sf37_gguf \<Rightarrow> sf37_tensor option \<Rightarrow> nat \<Rightarrow> u64 \<Rightarrow> nat \<Rightarrow> bool" where
  "expert_read_ok g t ex block_bytes n \<longleftrightarrow>
     (case expert_bytes t ex block_bytes of None \<Rightarrow> False | Some off \<Rightarrow> unat off + n \<le> length (gg_map g))"

definition dense_ffn_reads_ok :: "sf37_gguf \<Rightarrow> sf37_layer_weights \<Rightarrow> bool" where
  "dense_ffn_reads_ok g l \<longleftrightarrow>
     read_ok g (lw_mlp_gate l) (q8_0_matvec_bytes SF37_EMBD SF37_DENSE_FF) \<and>
     read_ok g (lw_mlp_up l) (q8_0_matvec_bytes SF37_EMBD SF37_DENSE_FF) \<and>
     read_ok g (lw_mlp_down l) (q8_0_matvec_bytes SF37_DENSE_FF SF37_EMBD)"

definition moe_ffn_reads_ok :: "sf37_gguf \<Rightarrow> sf37_layer_weights \<Rightarrow> bool" where
  "moe_ffn_reads_ok g l \<longleftrightarrow>
     (case matvec_dense_bytes (lw_router_gate l) of None \<Rightarrow> True | Some n \<Rightarrow> read_ok g (lw_router_gate l) n) \<and>
     read_ok g (lw_router_bias l) (4 * SF37_EXPERTS) \<and>
     read_ok g (lw_share_gate l) (q8_0_matvec_bytes SF37_EMBD SF37_EXPERT_FF) \<and>
     read_ok g (lw_share_up l) (q8_0_matvec_bytes SF37_EMBD SF37_EXPERT_FF) \<and>
     read_ok g (lw_share_down l) (q8_0_matvec_bytes SF37_EXPERT_FF SF37_EMBD) \<and>
     (\<forall>ex<SF37_EXPERTS.
        expert_read_ok g (lw_moe_gate l) ex 110 (q3_asym_matvec_bytes SF37_EMBD SF37_EXPERT_FF) \<and>
        expert_read_ok g (lw_moe_up l) ex 110 (q3_asym_matvec_bytes SF37_EMBD SF37_EXPERT_FF) \<and>
        expert_read_ok g (lw_moe_down l) ex 84 (q2_asym_matvec_bytes SF37_EXPERT_FF SF37_EMBD))"

definition run_layer_reads_ok :: "sf37_gguf \<Rightarrow> nat \<Rightarrow> sf37_layer_weights \<Rightarrow> bool" where
  "run_layer_reads_ok g il l \<longleftrightarrow>
     (let q_heads = layer_q_heads il; q_dim = q_heads * SF37_HEAD_DIM; kv_dim = SF37_KV_HEADS * SF37_HEAD_DIM in
     read_ok g (lw_input_norm l) (2 * SF37_EMBD) \<and>
     read_ok g (lw_q_proj l) (q8_0_matvec_bytes SF37_EMBD q_dim) \<and>
     read_ok g (lw_k_proj l) (q8_0_matvec_bytes SF37_EMBD kv_dim) \<and>
     read_ok g (lw_v_proj l) (q8_0_matvec_bytes SF37_EMBD kv_dim) \<and>
     read_ok g (lw_g_proj l) (q8_0_matvec_bytes SF37_EMBD q_heads) \<and>
     read_ok g (lw_q_norm l) (2 * SF37_HEAD_DIM) \<and>
     read_ok g (lw_k_norm l) (2 * SF37_HEAD_DIM) \<and>
     read_ok g (lw_o_proj l) (q8_0_matvec_bytes q_dim SF37_EMBD) \<and>
     read_ok g (lw_post_norm l) (2 * SF37_EMBD) \<and>
     (if il < 3 then dense_ffn_reads_ok g l else moe_ffn_reads_ok g l))"

definition embed_read_ok :: "sf37_gguf \<Rightarrow> sf37_tensor option \<Rightarrow> int \<Rightarrow> bool" where
  "embed_read_ok g t token \<longleftrightarrow>
     (case t of None \<Rightarrow> False
      | Some t \<Rightarrow> (case embed_token_row t token of None \<Rightarrow> False | Some (off, n) \<Rightarrow> off + n \<le> length (gg_map g)))"

definition output_reads_ok :: "sf37_gguf \<Rightarrow> sf37_engine \<Rightarrow> bool" where
  "output_reads_ok g e \<longleftrightarrow>
     read_ok g (en_final_norm e) (2 * SF37_EMBD) \<and>
     read_ok g (en_lm_head e) (bf16_matvec_bytes SF37_EMBD SF37_VOCAB)"

lemma weight_read:
  assumes "weight g t (Some ty) dims" and "\<forall>t \<in> set (gg_tensors g). tensor_in_file g t"
    and "sf37_type_table ty = Some ti" and "prod_list dims div unat (ti_block ti) * unat (ti_bytes ti) = n"
  shows "read_ok g t n"
  using assms by (auto simp: weight_def read_ok_def tensor_in_file_def tensor_size_def)

lemma type_table:
  "sf37_type_table SF37_TENSOR_Q8_0 = Some \<lparr>ti_block = 32, ti_bytes = 34\<rparr>"
  "sf37_type_table SF37_TENSOR_BF16 = Some \<lparr>ti_block = 1, ti_bytes = 2\<rparr>"
  "sf37_type_table SF37_TENSOR_F32 = Some \<lparr>ti_block = 1, ti_bytes = 4\<rparr>"
  "sf37_type_table SF37_TENSOR_Q3_K = Some \<lparr>ti_block = 256, ti_bytes = 110\<rparr>"
  "sf37_type_table SF37_TENSOR_Q2_K = Some \<lparr>ti_block = 256, ti_bytes = 84\<rparr>"
  by (simp_all add: sf37_type_table_def gguf_constants)

text \<open>A slice of one expert of a rank-3 tensor, whose rows are whole blocks.\<close>

lemma weight_expert_read:
  assumes w: "weight g t (Some ty) [256 * b, r, SF37_EXPERTS]" and inf: "\<forall>t \<in> set (gg_tensors g). tensor_in_file g t"
    and ti: "sf37_type_table ty = Some ti" "unat (ti_block ti) = 256" and n: "n = r * (b * unat (ti_bytes ti))"
    and small: "length (gg_map g) < 2 ^ 63" and ex: "ex < SF37_EXPERTS" and bb: "bb = ti_bytes ti"
  shows "expert_read_ok g t ex bb n"
proof -
  obtain tn where tn: "t = Some tn" "tn \<in> set (gg_tensors g)" "tn_type tn = ty"
    "map unat (tn_dim tn) = [256 * b, r, SF37_EXPERTS]"
    using w by (auto simp: weight_def)
  then obtain d0 d1 d2 where d: "tn_dim tn = [d0, d1, d2]" "unat d0 = 256 * b" "unat d1 = r" "unat d2 = SF37_EXPERTS"
    by (auto simp: map_eq_Cons_conv)
  have nb: "unat (tn_nbytes tn) = SF37_EXPERTS * n"
    using inf tn(2,3) ti by (auto simp: tensor_in_file_def tensor_size_def d n)
  have le: "unat (tn_abs_offset tn) + SF37_EXPERTS * n \<le> length (gg_map g)"
    using inf tn(2) nb by (auto simp: tensor_in_file_def)
  have "(ex + 1) * n \<le> SF37_EXPERTS * n"
    using ex by (intro mult_le_mono1) simp
  then have en: "unat (tn_abs_offset tn) + ex * n + n \<le> length (gg_map g)"
    using le by simp
  have b: "unat (d0 div SF37_QK_K) = b"
    by (simp add: unat_div d SF37_QK_K_def)
  have row: "d0 div SF37_QK_K * bb = of_nat (b * unat bb)"
    by (simp add: b [symmetric])
  have "of_nat ex * d1 * (d0 div SF37_QK_K * bb) = (of_nat (ex * n) :: u64)"
    unfolding row by (simp add: n bb d(3) [symmetric])
  moreover have "unat (tn_abs_offset tn + of_nat (ex * n)) = unat (tn_abs_offset tn) + ex * n"
  proof -
    have u: "unat (of_nat (ex * n) :: u64) = ex * n"
      using en small by (intro unat_of_nat_64) simp
    show ?thesis
      using en small unat_add_no_overflow [of "tn_abs_offset tn" "of_nat (ex * n)"] by (simp add: u del: of_nat_mult)
  qed
  ultimately show ?thesis
    using en ex by (simp add: expert_read_ok_def expert_bytes_def tn(1) d Let_def del: of_nat_mult)
qed

subsection \<open>Bound weights are read inside the file\<close>

definition mapped_ok :: "sf37_gguf \<Rightarrow> bool" where
  "mapped_ok g \<longleftrightarrow> (\<forall>t \<in> set (gg_tensors g). tensor_in_file g t) \<and> length (gg_map g) < 2 ^ 63"

lemma mapped_okD:
  "mapped_ok g \<Longrightarrow> \<forall>t \<in> set (gg_tensors g). tensor_in_file g t" "mapped_ok g \<Longrightarrow> length (gg_map g) < 2 ^ 63"
  by (simp_all add: mapped_ok_def)

lemma q8_read:
  assumes "weight g t (Some SF37_TENSOR_Q8_0) [i, r]" and "mapped_ok g" and "32 dvd i"
  shows "read_ok g t (q8_0_matvec_bytes i r)"
proof (rule weight_read [OF assms(1) mapped_okD(1) [OF assms(2)] type_table(1)])
  obtain b where b: "i = 32 * b"
    using assms(3) by blast
  have "32 * b * r div 32 * 34 = r * (b * 34)" "(32 * b + 31) div 32 = b"
    by simp_all
  then show "prod_list [i, r] div unat (ti_block \<lparr>ti_block = 32, ti_bytes = 34\<rparr>) * unat (ti_bytes \<lparr>ti_block = 32, ti_bytes = 34\<rparr>)
      = q8_0_matvec_bytes i r"
    by (simp add: q8_0_matvec_bytes_def b)
qed

lemma bf16_read:
  assumes "mapped_ok g"
  shows "weight g t (Some SF37_TENSOR_BF16) [n] \<Longrightarrow> read_ok g t (2 * n)"
    and "weight g t (Some SF37_TENSOR_BF16) [i, r] \<Longrightarrow> read_ok g t (bf16_matvec_bytes i r)"
  by (rule weight_read [OF _ mapped_okD(1) [OF assms] type_table(2)], assumption,
      simp add: bf16_matvec_bytes_def prod_list.Cons prod_list.Nil)+

lemma f32_read:
  assumes "mapped_ok g" and "weight g t (Some SF37_TENSOR_F32) dims"
  shows "read_ok g t (4 * prod_list dims)"
  by (rule weight_read [OF assms(2) mapped_okD(1) [OF assms(1)] type_table(3)]) simp

lemma router_read:
  assumes "weight g t None [SF37_EMBD, SF37_EXPERTS]" and ok: "mapped_ok g"
  shows "case matvec_dense_bytes t of None \<Rightarrow> True | Some n \<Rightarrow> read_ok g t n"
proof -
  obtain tn where tn: "t = Some tn" "tn \<in> set (gg_tensors g)" "map unat (tn_dim tn) = [SF37_EMBD, SF37_EXPERTS]"
    using assms by (auto simp: weight_def)
  then have d: "length (tn_dim tn) = 2" "unat (tn_dim tn ! 0) = SF37_EMBD" "unat (tn_dim tn ! 1) = SF37_EXPERTS"
    by (auto simp: map_eq_Cons_conv)
  have w: "weight g t (Some (tn_type tn)) [SF37_EMBD, SF37_EXPERTS]"
    using tn by (auto simp: weight_def)
  have "32 dvd SF37_EMBD"
    by (simp add: weight_constants)
  then show ?thesis
    using w q8_read [OF _ ok, of t SF37_EMBD SF37_EXPERTS] bf16_read(2) [OF ok, of t SF37_EMBD SF37_EXPERTS]
      f32_read [OF ok, of t "[SF37_EMBD, SF37_EXPERTS]"]
    by (auto simp: matvec_dense_bytes_def tn(1) d Let_def mult.commute simp del: One_nat_def)
qed

lemma expert_reads:
  assumes ok: "mapped_ok g" and ex: "ex < SF37_EXPERTS"
  shows "weight g t (Some SF37_TENSOR_Q3_K) [SF37_EMBD, SF37_EXPERT_FF, SF37_EXPERTS] \<Longrightarrow>
      expert_read_ok g t ex 110 (q3_asym_matvec_bytes SF37_EMBD SF37_EXPERT_FF)"
    and "weight g t (Some SF37_TENSOR_Q2_K) [SF37_EXPERT_FF, SF37_EMBD, SF37_EXPERTS] \<Longrightarrow>
      expert_read_ok g t ex 84 (q2_asym_matvec_bytes SF37_EXPERT_FF SF37_EMBD)"
proof -
  have d: "[SF37_EMBD, SF37_EXPERT_FF, SF37_EXPERTS] = [256 * 16, SF37_EXPERT_FF, SF37_EXPERTS]"
    "[SF37_EXPERT_FF, SF37_EMBD, SF37_EXPERTS] = [256 * 5, SF37_EMBD, SF37_EXPERTS]"
    by (simp_all add: weight_constants)
  show "weight g t (Some SF37_TENSOR_Q3_K) [SF37_EMBD, SF37_EXPERT_FF, SF37_EXPERTS] \<Longrightarrow>
      expert_read_ok g t ex 110 (q3_asym_matvec_bytes SF37_EMBD SF37_EXPERT_FF)"
    unfolding d(1) by (rule weight_expert_read [OF _ mapped_okD(1) [OF ok] type_table(4) _ _ mapped_okD(2) [OF ok] ex], assumption)
      (simp_all add: q3_asym_matvec_bytes_def weight_constants)
  show "weight g t (Some SF37_TENSOR_Q2_K) [SF37_EXPERT_FF, SF37_EMBD, SF37_EXPERTS] \<Longrightarrow>
      expert_read_ok g t ex 84 (q2_asym_matvec_bytes SF37_EXPERT_FF SF37_EMBD)"
    unfolding d(2) by (rule weight_expert_read [OF _ mapped_okD(1) [OF ok] type_table(5) _ _ mapped_okD(2) [OF ok] ex], assumption)
      (simp_all add: q2_asym_matvec_bytes_def weight_constants)
qed

lemma layer_reads:
  assumes "layer_bound g il l" and ok: "mapped_ok g"
  shows "run_layer_reads_ok g il l"
proof -
  have dvd: "32 dvd SF37_EMBD" "32 dvd SF37_DENSE_FF" "32 dvd SF37_EXPERT_FF" "32 dvd layer_q_heads il * SF37_HEAD_DIM"
    by (simp_all add: weight_constants)
  have bias: "read_ok g (lw_router_bias l) (4 * SF37_EXPERTS)"
    if "weight g (lw_router_bias l) (Some SF37_TENSOR_F32) [SF37_EXPERTS]"
    using f32_read [OF ok that] by simp
  note reads = q8_read [OF _ ok] dvd bf16_read [OF ok] router_read [OF _ ok] bias expert_reads [OF ok]
  show ?thesis
  proof (cases "il < 3")
    case True
    then show ?thesis
      using assms(1) unfolding layer_bound_def run_layer_reads_ok_def Let_def dense_ffn_reads_ok_def
      by (simp add: reads)
  next
    case False
    then show ?thesis
      using assms(1) unfolding layer_bound_def run_layer_reads_ok_def Let_def moe_ffn_reads_ok_def
      by (simp add: reads)
  qed
qed

lemma embed_read:
  assumes "weight g t (Some SF37_TENSOR_BF16) [SF37_EMBD, SF37_VOCAB]" and "mapped_ok g"
    and "0 \<le> token" and "token < int SF37_VOCAB"
  shows "embed_read_ok g t token"
proof -
  obtain tn where tn: "t = Some tn" "map unat (tn_dim tn) = [SF37_EMBD, SF37_VOCAB]"
    using assms(1) by (auto simp: weight_def)
  then have d: "unat (tn_dim tn ! 0) = SF37_EMBD" "unat (tn_dim tn ! 1) = SF37_VOCAB"
    by (auto simp: map_eq_Cons_conv)
  have le: "unat (tn_abs_offset tn) + bf16_matvec_bytes SF37_EMBD SF37_VOCAB \<le> length (gg_map g)"
    using bf16_read(2) [OF assms(2,1)] by (simp add: read_ok_def tn(1))
  have t: "nat token < SF37_VOCAB"
    using assms(3,4) by simp
  have "(nat token + 1) * SF37_EMBD \<le> SF37_VOCAB * SF37_EMBD"
    using t by (intro mult_le_mono1) simp
  then have "2 * (nat token * SF37_EMBD) + 2 * SF37_EMBD \<le> bf16_matvec_bytes SF37_EMBD SF37_VOCAB"
    by (simp add: bf16_matvec_bytes_def)
  then show ?thesis
    using le t assms(3) by (simp add: embed_read_ok_def embed_token_row_def tn(1) d Let_def del: One_nat_def)
qed

end
