(* ===== verification/QuantizeProps.thy ===== *)
theory QuantizeProps
  imports QuantizeTool Weights
begin

section \<open>The runtime reads what the tool wrote\<close>

text \<open>
  The file of \<open>sf37_write_gguf\<close> is a well-formed model file in the sense of \<open>GgufProps\<close>: the
  bookkeeping of sizes agrees with the bytes written, every planned offset is where the data
  ends up, and the runtime's computation of a tensor's size agrees with the tool's. So
  \<open>gguf_open\<close> accepts the file, \<open>validate_metadata\<close> accepts its metadata, and every tensor is
  found with its dimensions, its type and the bytes the tool produced for it.
\<close>

subsection \<open>The metadata as a list\<close>

definition imatrix_kvs :: "imatrix_store \<Rightarrow> (bytes \<times> gguf_value) list" where
  "imatrix_kvs im =
     (if \<not> imatrix_enabled im then []
      else [(cstr ''quantize.imatrix.file'', Str (im_file im)),
            (cstr ''quantize.imatrix.entries_count'', Scalar 10 (kv_le_put64 (of_int (im_n_entries im))))] @
        (case im_dataset im of None \<Rightarrow> [] | Some d \<Rightarrow> [(cstr ''quantize.imatrix.dataset'', Str d)]) @
        (if im_chunks im > 0
         then [(cstr ''quantize.imatrix.chunks_count'', Scalar 10 (kv_le_put64 (of_int (im_chunks im))))] else []))"

definition kv_str :: "string \<Rightarrow> bytes \<Rightarrow> bytes \<times> gguf_value" where
  "kv_str k v = (cstr k, Str v)"

definition kv_num :: "string \<Rightarrow> u32 \<Rightarrow> bytes \<times> gguf_value" where
  "kv_num k v = (cstr k, Scalar GGUF_VALUE_UINT32 (sf37_kvstore_le_put32 v))"

definition tool_kvs :: "bytes \<Rightarrow> imatrix_store \<Rightarrow> (bytes \<times> gguf_value) list" where
  "tool_kvs hf_dir im =
     [kv_str ''general.architecture'' (cstr ''sf37''), kv_str ''general.name'' (cstr ''Super Fast Step 3.7 Flash''),
      kv_num ''general.alignment'' 32, kv_num ''general.file_type'' 0, kv_num ''sf37.version'' 1,
      kv_str ''sf37.source'' hf_dir, kv_num ''sf37.block_count'' 45, kv_num ''sf37.mtp_layer_count'' 3,
      kv_num ''sf37.embedding_length'' 4096, kv_num ''sf37.feed_forward_length'' 11264,
      kv_num ''sf37.expert_feed_forward_length'' 1280, kv_num ''sf37.expert_count'' 288,
      kv_num ''sf37.expert_used_count'' 8, kv_num ''sf37.context_length'' 262144,
      (cstr ''sf37.vision_included'', Scalar GGUF_VALUE_BOOL [1]),
      kv_str ''sf37.q3_layout'' q3_layout, kv_str ''sf37.q2_layout'' q2_layout,
      kv_str ''sf37.quant_policy'' quant_policy_text, kv_str ''sf37.keep_bf16'' keep_bf16_text,
      kv_str ''sf37.tensor_name_format'' name_format_text] @ imatrix_kvs im"

lemma write_kv_images:
  "sf37_write_kv_string (cstr k) v = kv_image (kv_str k v)"
  "sf37_write_kv_u32 (cstr k) w = kv_image (kv_num k w)"
  "sf37_write_kv_bool key b = kv_image (key, Scalar GGUF_VALUE_BOOL [if b then 1 else 0])"
  "write_kv_u64 key x = kv_image (key, Scalar 10 (kv_le_put64 x))"
  by (simp_all add: sf37_write_kv_string_def sf37_write_kv_u32_def sf37_write_kv_bool_def write_kv_u64_def
      kv_image_pair kv_str_def kv_num_def write_gguf_string_def string_image_def)

lemma write_imatrix_image: "write_imatrix_kvs im = concat (map kv_image (imatrix_kvs im))"
  by (simp add: write_imatrix_kvs_def imatrix_kvs_def write_kv_images kv_str_def del: cstr_simps split: option.split)

lemma write_kvs_image: "sf37_write_kvs hf_dir im = concat (map kv_image (tool_kvs hf_dir im))"
  unfolding sf37_write_kvs_def tool_kvs_def write_kv_images write_imatrix_image by simp

lemma kv_count: "sf37_kv_count im = of_nat (length (tool_kvs hf_dir im))"
  by (simp add: sf37_kv_count_def extra_imatrix_kv_count_def tool_kvs_def imatrix_kvs_def split: option.split)

lemma write_kv_sizes:
  "of_nat (length (sf37_write_kv_string key v)) = sf37_kv_size_string key v"
  "of_nat (length (sf37_write_kv_u32 key w)) = sf37_kv_size_u32 key"
  "of_nat (length (sf37_write_kv_bool key b)) = sf37_kv_size_bool key"
  "of_nat (length (write_kv_u64 key x)) = gguf_string_size key + 4 + 8"
  by (simp_all add: sf37_write_kv_string_def sf37_write_kv_u32_def sf37_write_kv_bool_def write_kv_u64_def
      sf37_kv_size_string_def sf37_kv_size_u32_def sf37_kv_size_bool_def gguf_string_size_def write_gguf_string_def)

lemma write_imatrix_size: "of_nat (length (write_imatrix_kvs im)) = extra_imatrix_kv_size im"
  unfolding write_imatrix_kvs_def extra_imatrix_kv_size_def Let_def
  by (simp add: write_kv_sizes sf37_kv_size_string_def add.assoc del: cstr_simps split: option.split)

text \<open>The planned size of the metadata is the size of what is written.\<close>

lemma kv_bytes_exact: "of_nat (length (sf37_write_kvs hf_dir im)) = sf37_kv_bytes hf_dir im"
  unfolding sf37_write_kvs_def sf37_kv_bytes_def length_append of_nat_add write_kv_sizes write_imatrix_size
  by (simp only: add.assoc)

lemma tool_alignment: "declared_alignment (tool_kvs hf_dir im) 32 = 32"
proof -
  have im: "declared_alignment (imatrix_kvs im) a = a" for a
    by (simp add: imatrix_kvs_def split: option.split)
  have app: "declared_alignment (xs @ ys) a = declared_alignment ys (declared_alignment xs a)" for xs ys a
    by (induction xs a rule: declared_alignment.induct) simp_all
  show ?thesis
    unfolding tool_kvs_def app im by (simp add: kv_str_def kv_num_def gguf_constants)
qed

lemma tool_kvs_ok:
  "\<forall>(k, v) \<in> set (tool_kvs hf_dir im). 0 \<notin> set k \<and> value_ok 0 v"
  by (auto simp: tool_kvs_def kv_str_def kv_num_def imatrix_kvs_def gguf_value_size_def gguf_constants split: option.split)

subsection \<open>Padding\<close>

lemma round_up_32: "((m::nat) + 31) div 32 * 32 = m + (32 - m mod 32) mod 32"
proof -
  define q r where "q = m div 32" and "r = m mod 32"
  have m: "m = 32 * q + r" "r < 32"
    by (simp_all add: q_def r_def)
  have "(m + 31) div 32 = q + (r + 31) div 32"
    using div_mult_self2 [of 32 "r + 31" q] by (simp add: m(1) add.assoc add.commute)
  moreover have "(r + 31) div 32 = (if r = 0 then 0 else 1)"
    using m(2) by (auto intro!: div_nat_eqI)
  ultimately show ?thesis
    using m by (simp add: r_def [symmetric])
qed

lemma pad_exact:
  assumes "unat x < 2 ^ 63"
  shows "unat (ds4q_pad x 32) = unat x + (32 - unat x mod 32) mod 32"
proof -
  have "x + 32 - 1 = x + 31"
    by simp
  then have "unat (x + 32 - 1) = unat x + 31"
    using unat_add_no_overflow [of x 31] assms by (simp only:) simp
  then have "unat ((x + 32 - 1) div 32) = (unat x + 31) div 32"
    by (simp add: unat_div)
  moreover have "(unat x + 31) div 32 * 32 < 2 ^ 64"
    using assms by (intro le_less_trans [OF div_times_less_eq_dividend]) simp
  ultimately have "unat (ds4q_pad x 32) = (unat x + 31) div 32 * 32"
    unfolding ds4q_pad_def by (subst unat_mult_64) simp_all
  then show ?thesis
    by (simp add: round_up_32)
qed

subsection \<open>The plan\<close>

fun planned_at :: "u64 \<Rightarrow> tool_tensor list \<Rightarrow> bool" where
  "planned_at off [] = True"
| "planned_at off (t # ts) \<longleftrightarrow> tt_offset t = off \<and> planned_at (off + ds4q_pad (tt_size t) 32) ts"

definition planned_from :: "tool_tensor \<Rightarrow> bytes \<times> st_info \<Rightarrow> bool" where
  "planned_from t src \<longleftrightarrow> tt_name t = fst src \<and> tt_ne t = rev (st_shape (snd src)) \<and>
     plan_type (fst src) (snd src) = Some (tt_type t) \<and> tt_size t = tool_tensor_nbytes (tt_type t) (tt_ne t)"

lemma plan_tensors_spec:
  "plan_tensors db off ti = Some (ts, off', ti') \<Longrightarrow>
     list_all2 planned_from ts db \<and> planned_at off ts \<and> ti' = ti + sum_list (map sf37_tensor_info_size ts)"
proof (induction db off ti arbitrary: ts rule: plan_tensors.induct)
  case (2 name info db off ti)
  then show ?case
    by (auto simp: Let_def planned_from_def add.assoc split: option.splits prod.splits)
qed simp

text \<open>A planned type is a whole number of blocks wide.\<close>

lemma source_type_traits:
  "sf37_source_type d = Some type \<Longrightarrow> \<exists>n. ds4q_traits type = Some (1, n)"
  by (auto simp: sf37_source_type_def ds4q_traits_def gguf_constants split: if_splits)

lemma policy_type_traits:
  "sf37_policy_type name info = Some type \<Longrightarrow>
     type \<in> {SF37_TENSOR_F32, SF37_TENSOR_F16, SF37_TENSOR_BF16, SF37_TENSOR_Q8_0, SF37_TENSOR_Q2_K, SF37_TENSOR_Q3_K}"
  by (auto simp: sf37_policy_type_def sf37_source_type_def Let_def split: option.splits if_splits)

lemma plan_type_traits:
  assumes "plan_type name info = Some type"
  obtains b n where "ds4q_traits type = Some (b, n)" "(b, n) \<in> {(1, 4), (1, 2), (32, 34), (256, 84), (256, 110)}"
    "b dvd ne0 (rev (st_shape info))"
proof -
  obtain p where p: "sf37_policy_type name info = Some p"
    using assms by (auto simp: plan_type_def split: option.splits)
  note pt = policy_type_traits [OF p]
  show thesis
  proof (cases "sf37_is_quant_type p \<and> ne0 (rev (st_shape info)) mod ds4q_block_size p \<noteq> 0")
    case True
    then have "sf37_source_type (st_dtype info) = Some type"
      using assms by (simp add: plan_type_def p)
    then show ?thesis
      using that by (auto simp: sf37_source_type_def ds4q_traits_def gguf_constants split: if_splits)
  next
    case False
    then have t: "type = p"
      using assms by (auto simp: plan_type_def p)
    have d: "ds4q_block_size p dvd ne0 (rev (st_shape info))" if "sf37_is_quant_type p"
      using False that by (simp add: dvd_eq_mod_eq_0)
    show ?thesis
      using pt d that unfolding t by (auto simp: ds4q_traits_def ds4q_block_size_def sf37_is_quant_type_def gguf_constants)
  qed
qed

lemma traits_type_table:
  "ds4q_traits type = Some (b, n) \<Longrightarrow> sf37_type_table type = Some \<lparr>ti_block = of_int b, ti_bytes = n\<rparr>"
  by (auto simp: ds4q_traits_def sf37_type_table_def SF37_QK8_def SF37_QK_K_def split: if_splits)

subsection \<open>Both programs compute the same sizes\<close>

definition ne_ok :: "int list \<Rightarrow> bool" where
  "ne_ok ne \<longleftrightarrow> ne \<noteq> [] \<and> length ne \<le> SF37_MAX_DIMS \<and> (\<forall>d \<in> set ne. 0 < d \<and> d < 2 ^ 63)"

definition exact_bytes :: "u32 \<Rightarrow> int list \<Rightarrow> int" where
  "exact_bytes type ne =
     (case ds4q_traits type of None \<Rightarrow> 0 | Some (b, n) \<Rightarrow> prod_list ne div b * uint n)"

lemma dims_product_ok:
  assumes "\<forall>d \<in> set ds. 0 < unat d" and "unat e * prod_list (map unat ds) < 2 ^ 64"
  shows "dims_product e ds = Inr (e * prod_list ds)"
  using assms
proof (induction ds arbitrary: e)
  case (Cons d ds)
  have "0 < prod_list (map unat ds)"
    using Cons.prems(1) by (induction ds) auto
  then have "unat e * unat d \<le> unat e * prod_list (map unat (d # ds))"
    by simp
  then have le: "unat e * unat d < 2 ^ 64"
    using Cons.prems(2) by linarith
  then show ?case
    using Cons.IH [of "e * d"] Cons.prems by (simp add: checked_mul_u64_Inr checked_mul_u64_iff unat_mult_64 mult.assoc)
qed simp

lemma unat_of_int_64:
  assumes "0 \<le> d" and "d < 2 ^ 64"
  shows "unat (of_int d :: u64) = nat d"
proof -
  have "(of_int d :: u64) = of_nat (nat d)"
    using assms(1) by simp
  then show ?thesis
    using assms unat_of_nat_64 [of "nat d"] by (simp add: nat_less_iff)
qed

lemma prod_of_int:
  "\<forall>d \<in> set ne. 0 < d \<and> d < 2 ^ 63 \<Longrightarrow>
     prod_list (map unat (map of_int ne :: u64 list)) = nat (prod_list ne)"
proof (induction ne)
  case (Cons d ne)
  then show ?case
    using unat_of_int_64 [of d] by (simp add: nat_mult_distrib)
qed simp

lemma prod_list_of_int: "prod_list (map of_int ne) = (of_int (prod_list ne) :: u64)"
  by (induction ne) simp_all

lemma dvd_prod_list: "ne \<noteq> [] \<Longrightarrow> b dvd ne0 ne \<Longrightarrow> b dvd prod_list ne"
  by (cases ne) (simp_all add: ne0_def)

lemma engine_nbytes:
  assumes type: "plan_type name info = Some type" and ok: "ne_ok ne" and ne: "ne = rev (st_shape info)"
    and len: "int len = exact_bytes type ne" and small: "len < 2 ^ 62"
  shows "tensor_nbytes type (map of_int ne) = Inr (of_nat len)"
proof -
  obtain b n where tr: "ds4q_traits type = Some (b, n)" "(b, n) \<in> {(1, 4), (1, 2), (32, 34), (256, 84), (256, 110)}"
    "b dvd ne0 ne"
    by (rule plan_type_traits [OF type, folded ne])
  let ?dims = "map of_int ne :: u64 list"
  have ne_ok: "ne \<noteq> []" "length ne \<le> SF37_MAX_DIMS" "\<forall>d \<in> set ne. 0 < d \<and> d < 2 ^ 63"
    using ok by (simp_all add: ne_ok_def)
  have b: "b dvd prod_list ne"
    by (rule dvd_prod_list [OF ne_ok(1) tr(3)])
  then obtain k where k: "prod_list ne = b * k"
    by blast
  have bn: "0 < b" "b \<le> 4 * uint n" "0 < uint n" "b < 2 ^ 64"
    using tr(2) by auto
  have lk: "int len = k * uint n"
    using len bn(1) by (simp add: exact_bytes_def tr(1) k)
  have pos: "0 < prod_list ne"
    using ne_ok(3) by (induction ne) auto
  then have k0: "0 < k"
    using bn(1) by (simp add: k zero_less_mult_iff)
  have "b * k \<le> 4 * uint n * k"
    using bn(2) k0 by (simp add: mult_right_mono)
  also have "\<dots> = 4 * int len"
    by (simp add: lk mult.commute)
  also have "\<dots> < 2 ^ 64"
    using small by simp
  finally have bk: "b * k < 2 ^ 64" .
  have P: "prod_list (map unat ?dims) = nat (b * k)"
    using prod_of_int [OF ne_ok(3)] by (simp only: k)
  have dp: "dims_product 1 ?dims = Inr (of_int (b * k))"
  proof (subst dims_product_ok)
    show "\<forall>d \<in> set ?dims. 0 < unat d"
      using ne_ok(3) by (auto simp: unat_of_int_64)
    show "unat 1 * prod_list (map unat ?dims) < 2 ^ 64"
      using P bk by simp
  qed (simp add: prod_list_of_int k)
  have u: "unat (of_int (b * k) :: u64) = nat (b * k)"
    using unat_of_int_64 [of "b * k"] bk bn(1) k0 by (simp add: zero_le_mult_iff)
  have blk: "unat (of_int b :: u64) = nat b"
    using unat_of_int_64 [of b] bn(1,4) by simp
  have e: "unat (of_int (b * k) div of_int b :: u64) = nat k"
    using bn(1) k0 by (simp only: unat_div u blk) (simp add: nat_mult_distrib)
  have word: "(of_int (b * k) :: u64) div of_int b * n = of_nat len"
  proof -
    have "(of_int (b * k) :: u64) div of_int b = of_int k"
    proof -
      have "(of_int (b * k) :: u64) div of_int b = of_nat (unat ((of_int (b * k) :: u64) div of_int b))"
        by simp
      also have "\<dots> = of_int k"
        unfolding e using k0 by simp
      finally show ?thesis .
    qed
    moreover have "(of_nat len :: u64) = of_int (int len)"
      by simp
    ultimately show ?thesis
      by (simp only: lk of_int_mult) simp
  qed
  have dim0: "ne0 ne = ne ! 0" "?dims ! 0 = of_int (ne ! 0)" "0 < ne ! 0" "ne ! 0 < 2 ^ 63"
    using ne_ok by (auto simp: ne0_def neq_Nil_conv)
  have m: "(of_int (ne ! 0) :: u64) mod of_int b = 0" "(of_int (b * k) :: u64) mod of_int b = 0"
  proof -
    have "unat ((of_int (ne ! 0) :: u64) mod of_int b) = nat (ne ! 0) mod nat b"
      using dim0(3,4) unat_of_int_64 [of "ne ! 0"] by (simp add: unat_mod blk)
    then have "unat ((of_int (ne ! 0) :: u64) mod of_int b) = 0"
      using tr(3) dim0(1,3) bn(1) by (simp add: nat_mod_distrib [symmetric] dvd_eq_mod_eq_0)
    then show "(of_int (ne ! 0) :: u64) mod of_int b = 0"
      by (simp add: unat_eq_0)
    have "unat ((of_int (b * k) :: u64) mod of_int b) = nat (b * k) mod nat b"
      by (simp only: unat_mod u blk)
    then have "unat ((of_int (b * k) :: u64) mod of_int b) = 0"
      using bn(1) k0 by (simp add: nat_mult_distrib)
    then show "(of_int (b * k) :: u64) mod of_int b = 0"
      by (simp add: unat_eq_0)
  qed
  have un: "nat (uint n) = unat n"
    by simp
  have "nat k * unat n = len"
    using lk k0 by (metis nat_int nat_mult_distrib less_imp_le un)
  then have mul: "unat (of_int (b * k) div of_int b :: u64) * unat n < 2 ^ 64"
    using small by (simp only: e) simp
  show ?thesis
  proof (cases "b = 1")
    case True
    then have "unat (of_int (b * k) :: u64) * unat n < 2 ^ 64" "(of_int (b * k) :: u64) * n = of_nat len"
      using mul word by simp_all
    then show ?thesis
      using ne_ok(1,2) dp True
      by (simp add: tensor_nbytes_def traits_type_table [OF tr(1)] checked_mul_u64_iff)
  next
    case False
    then have "(of_int b :: u64) \<noteq> 1"
      using blk bn(1) by (metis nat_eq_iff2 nat_one_as_int of_nat_1 unat_1 less_imp_le)
    then show ?thesis
      using ne_ok(1,2) dp m mul word
      by (simp add: tensor_nbytes_def traits_type_table [OF tr(1)] checked_mul_u64_iff dim0(2))
  qed
qed

subsection \<open>Where the data ends up\<close>

definition padded :: "bytes \<Rightarrow> bytes" where
  "padded data = data @ replicate ((32 - length data mod 32) mod 32) 0"

definition data_image :: "(tool_tensor \<Rightarrow> bytes) \<Rightarrow> tool_tensor list \<Rightarrow> bytes" where
  "data_image gen ts = concat (map (\<lambda>t. padded (gen t)) ts)"

lemma write_padding_exact:
  assumes "n < 2 ^ 63"
  shows "write_padding (ds4q_pad (of_nat n) 32 - of_nat n) = replicate ((32 - n mod 32) mod 32) 0"
proof -
  have n: "unat (of_nat n :: u64) = n"
    by (rule size_63 [OF assms])
  have p: "unat (ds4q_pad (of_nat n) 32) = n + (32 - n mod 32) mod 32"
    using pad_exact [of "of_nat n"] assms by (simp only: n)
  then have "of_nat n \<le> ds4q_pad (of_nat n) 32"
    by (simp add: word_le_nat_alt n)
  then have "unat (ds4q_pad (of_nat n) 32 - of_nat n) = (32 - n mod 32) mod 32"
    by (simp add: unat_sub p n)
  then show ?thesis
    by (simp add: write_padding_def)
qed

lemma write_tensor_data_image:
  assumes "write_tensor_data gen 32 ts = Some data" and "\<forall>t \<in> set ts. length (gen t) < 2 ^ 63"
  shows "data = data_image gen ts \<and> (\<forall>t \<in> set ts. tt_size t = of_nat (length (gen t)))"
  using assms
proof (induction ts arbitrary: data)
  case (Cons t ts)
  have "length (gen t) < 2 ^ 63"
    using Cons.prems(2) by simp
  note pad = write_padding_exact [OF this]
  show ?case
    using Cons pad by (auto simp: Let_def data_image_def padded_def split: if_splits)
qed (simp add: data_image_def)

lemma length_padded: "unat (ds4q_pad (of_nat (length x)) 32) = length (padded x)" if "length x < 2 ^ 63"
  using pad_exact [of "of_nat (length x)"] size_63 [OF that] that by (simp add: padded_def)

lemma planned_data:
  assumes "planned_at (of_nat n) ts" and "\<forall>t \<in> set ts. tt_size t = of_nat (length (gen t))"
    and "n + length (data_image gen ts) < 2 ^ 63" and "t \<in> set ts"
  shows "\<exists>pre post. data_image gen ts = pre @ gen t @ post \<and> tt_offset t = of_nat (n + length pre)"
  using assms
proof (induction ts arbitrary: n)
  case (Cons u ts)
  have len: "length (gen u) < 2 ^ 63"
    using Cons.prems(3) by (simp add: data_image_def padded_def)
  have "of_nat n + ds4q_pad (tt_size u) 32 = (of_nat (n + length (padded (gen u))) :: u64)"
    using length_padded [OF len] Cons.prems(2) by (metis list.set_intros(1) of_nat_add of_nat_unat ucast_id unat_of_nat word_of_nat_eq_iff)
  then have at: "planned_at (of_nat (n + length (padded (gen u)))) ts" "tt_offset u = of_nat n"
    using Cons.prems(1) by simp_all
  show ?case
  proof (cases "t = u")
    case True
    then have "data_image gen (u # ts) = [] @ gen t @ (replicate ((32 - length (gen u) mod 32) mod 32) 0 @ data_image gen ts)"
      by (simp add: data_image_def padded_def)
    then show ?thesis
      using at(2) True by (metis add.right_neutral list.size(3))
  next
    case False
    then obtain pre post where "data_image gen ts = pre @ gen t @ post"
      "tt_offset t = of_nat (n + length (padded (gen u)) + length pre)"
      using Cons.IH [OF at(1)] Cons.prems(2-4) by (auto simp: data_image_def)
    then have "data_image gen (u # ts) = (padded (gen u) @ pre) @ gen t @ post"
      "tt_offset t = of_nat (n + length (padded (gen u) @ pre))"
      by (simp_all add: data_image_def)
    then show ?thesis
      by blast
  qed
qed simp

subsection \<open>The file as a model file\<close>

definition tensor_spec :: "tool_tensor \<Rightarrow> tensor_spec" where
  "tensor_spec t = \<lparr>ts_name = tt_name t, ts_dim = map of_int (tt_ne t), ts_type = tt_type t,
     ts_offset = tt_offset t, ts_nbytes = tt_size t\<rparr>"

definition tool_file :: "sf37_plan \<Rightarrow> bytes \<Rightarrow> imatrix_store \<Rightarrow> (tool_tensor \<Rightarrow> bytes) \<Rightarrow> gguf_file" where
  "tool_file plan hf_dir im gen = \<lparr>gf_kvs = tool_kvs hf_dir im, gf_tensors = map tensor_spec (pl_tensors plan),
     gf_data = data_image gen (pl_tensors plan)\<rparr>"

lemma tensor_info_image: "write_tensor_info t = tensor_image (tensor_spec t)"
  by (simp add: write_tensor_info_def tensor_image_def tensor_spec_def write_gguf_string_def string_image_def o_def)

lemma tensor_info_size: "of_nat (length (tensor_image (tensor_spec t))) = sf37_tensor_info_size t"
  using length_dims_image [of "map of_int (tt_ne t)"]
  by (simp add: tensor_image_def tensor_spec_def sf37_tensor_info_size_def gguf_string_size_def del: length_dims_image)

lemma head_of_tool_file:
  "head_image (tool_file plan hf_dir im gen) =
     cstr ''GGUF'' @ sf37_kvstore_le_put32 3 @ kv_le_put64 (of_nat (length (pl_tensors plan))) @
     kv_le_put64 (sf37_kv_count im) @ sf37_write_kvs hf_dir im @ concat (map write_tensor_info (pl_tensors plan))"
  unfolding head_image_def tool_file_def kv_count [of im hf_dir] write_kvs_image
  by (simp add: SF37_GGUF_MAGIC_def SF37_GGUF_VERSION_def tensor_info_image [abs_def] o_def del: cstr_simps)

lemma tool_head_size:
  assumes "sf37_build_plan db limit hf_dir im = Some plan"
  shows "of_nat (length (head_image (tool_file plan hf_dir im gen))) = pl_meta_size plan"
proof -
  obtain n off ti where p: "plan_tensors (take n db) 0 0 = Some (pl_tensors plan, off, ti)"
    "pl_meta_size plan = 4 + 4 + 8 + 8 + sf37_kv_bytes hf_dir im + ti"
    using assms by (auto simp: sf37_build_plan_def Let_def split: option.splits prod.splits)
  have ti: "ti = sum_list (map sf37_tensor_info_size (pl_tensors plan))"
    using plan_tensors_spec [OF p(1)] by simp
  have "of_nat (length (concat (map write_tensor_info ts))) = sum_list (map sf37_tensor_info_size ts)" for ts
    by (induction ts) (simp_all add: tensor_info_image tensor_info_size)
  then show ?thesis
    unfolding head_of_tool_file p(2) ti length_append of_nat_add kv_bytes_exact
    by (simp add: add.assoc)
qed

definition source_ok :: "bytes \<times> st_info \<Rightarrow> bool" where
  "source_ok src \<longleftrightarrow> 0 \<notin> set (fst src) \<and> ne_ok (rev (st_shape (snd src)))"

lemma padded_length: "length x \<le> length (padded x)"
  by (simp add: padded_def)

lemma data_image_part: "t \<in> set ts \<Longrightarrow> length (gen t) \<le> length (data_image gen ts)"
  by (induction ts) (auto simp: data_image_def padded_def)

lemma prod_list_pos: "\<forall>d \<in> set ne. 0 < d \<Longrightarrow> 0 < prod_list (ne :: int list)"
  by (induction ne) simp_all

lemma exact_bytes_pos:
  assumes "plan_type name info = Some type" and "ne_ok ne" and "ne = rev (st_shape info)"
  shows "0 < exact_bytes type ne"
proof -
  obtain b m where bm: "ds4q_traits type = Some (b, m)" "(b, m) \<in> {(1, 4), (1, 2), (32, 34), (256, 84), (256, 110)}"
    "b dvd ne0 ne"
    by (rule plan_type_traits [OF assms(1), folded assms(3)])
  have "ne \<noteq> []" "0 < prod_list ne"
    using assms(2) prod_list_pos by (simp_all add: ne_ok_def)
  moreover have "b dvd prod_list ne" "0 < b" "0 < uint m"
    using dvd_prod_list [OF \<open>ne \<noteq> []\<close> bm(3)] bm(2) by auto
  ultimately show ?thesis
    by (simp add: exact_bytes_def bm(1) pos_imp_zdiv_pos_iff zdvd_imp_le)
qed

lemma foldl_times_of_int: "foldl (\<lambda>n d. n * of_int d) (a :: u64) ds = a * of_int (prod_list ds)"
  by (induction ds arbitrary: a) (simp_all add: mult.assoc)

lemma tool_nbytes_exact:
  assumes "plan_type name info = Some type" and "ne_ok ne" and "ne = rev (st_shape info)"
  shows "tool_tensor_nbytes type ne = of_int (exact_bytes type ne)"
proof -
  obtain b m where bm: "ds4q_traits type = Some (b, m)" "(b, m) \<in> {(1, 4), (1, 2), (32, 34), (256, 84), (256, 110)}"
    "b dvd ne0 ne"
    by (rule plan_type_traits [OF assms(1), folded assms(3)])
  obtain d ds where ne: "ne = d # ds"
    using assms(2) by (cases ne) (auto simp: ne_ok_def)
  have b: "b dvd d" "0 < b" "m \<noteq> 0"
    using bm(2,3) by (auto simp: ne0_def ne)
  then have "d * prod_list ds div b = d div b * prod_list ds"
    by (simp add: dvd_div_mult)
  then show ?thesis
    using b by (simp add: tool_tensor_nbytes_def ne ne0_def foldl_times_of_int ds4q_row_size_def bm(1) exact_bytes_def
        dvd_eq_mod_eq_0 mult.commute mult.left_commute)
qed

lemma planned_source:
  assumes "sf37_build_plan db limit hf_dir im = Some plan" and "\<forall>s \<in> set db. source_ok s"
    and "t \<in> set (pl_tensors plan)"
  obtains name info where "plan_type name info = Some (tt_type t)" "tt_ne t = rev (st_shape info)"
    "0 \<notin> set (tt_name t)" "ne_ok (tt_ne t)" "tt_size t = of_int (exact_bytes (tt_type t) (tt_ne t))"
proof -
  obtain n off ti where p: "plan_tensors (take n db) 0 0 = Some (pl_tensors plan, off, ti)"
    using assms(1) by (auto simp: sf37_build_plan_def Let_def split: option.splits prod.splits)
  obtain s where s: "s \<in> set db" "planned_from t s"
    using plan_tensors_spec [OF p] assms(3) by (metis in_set_conv_nth in_set_takeD list_all2_conv_all_nth)
  have so: "plan_type (fst s) (snd s) = Some (tt_type t)" "tt_ne t = rev (st_shape (snd s))"
    "0 \<notin> set (tt_name t)" "ne_ok (tt_ne t)"
    using s assms(2) by (auto simp: planned_from_def source_ok_def)
  have "tt_size t = tool_tensor_nbytes (tt_type t) (tt_ne t)"
    using s(2) by (simp add: planned_from_def)
  then show thesis
    using that [OF so] tool_nbytes_exact [OF so(1,4,2)] by simp
qed

lemma planned_sizes:
  assumes "sf37_build_plan db limit hf_dir im = Some plan" and "\<forall>s \<in> set db. source_ok s"
    and "\<forall>t \<in> set (pl_tensors plan). int (length (gen t)) = exact_bytes (tt_type t) (tt_ne t)"
  shows "\<forall>t \<in> set (pl_tensors plan). int (length (gen t)) = exact_bytes (tt_type t) (tt_ne t) \<and>
      tt_size t = of_nat (length (gen t))"
  using assms planned_source [OF assms(1,2)] by (metis of_int_of_nat_eq)

lemma tool_file_ok:
  assumes plan: "sf37_build_plan db limit hf_dir im = Some plan"
    and src: "\<forall>s \<in> set db. source_ok s"
    and exact: "\<forall>t \<in> set (pl_tensors plan). int (length (gen t)) = exact_bytes (tt_type t) (tt_ne t)"
    and small: "length (gguf_image (tool_file plan hf_dir im gen)) < 2 ^ 62"
  shows "gguf_file_ok (tool_file plan hf_dir im gen)"
proof -
  let ?f = "tool_file plan hf_dir im gen"
  obtain n off ti where p: "plan_tensors (take n db) 0 0 = Some (pl_tensors plan, off, ti)"
    using plan by (auto simp: sf37_build_plan_def Let_def split: option.splits prod.splits)
  note spec = plan_tensors_spec [OF p]
  note gen = planned_sizes [OF plan src exact]
  have image: "length (gguf_image ?f) = length (head_image ?f) + file_padding ?f + length (data_image gen (pl_tensors plan))"
    by (simp add: gguf_image_def tool_file_def)
  have kvs: "32 \<le> length (concat (map kv_image (tool_kvs hf_dir im)))"
    by (simp add: tool_kvs_def kv_str_def kv_num_def kv_image_pair)
  have cnt: "length (tool_kvs hf_dir im) \<le> 24"
    by (simp add: tool_kvs_def imatrix_kvs_def split: option.split)
  have tcount: "\<forall>t \<in> set ts. ts_dim t \<noteq> [] \<Longrightarrow> length ts * 112 \<le> 4 * length (concat (map tensor_image ts))" for ts
  proof (induction ts)
    case (Cons t ts)
    then have "28 \<le> length (tensor_image t)"
      by (cases "ts_dim t") (simp_all add: tensor_image_def)
    then show ?case
      using Cons by simp
  qed simp
  have head: "length (concat (map kv_image (tool_kvs hf_dir im))) + length (concat (map tensor_image (map tensor_spec (pl_tensors plan))))
      \<le> length (head_image ?f)"
    by (simp add: head_image_def tool_file_def)
  have ok: "tensor_spec_ok ?f (tensor_spec t)" if t: "t \<in> set (pl_tensors plan)" for t
  proof -
    obtain name info where so: "plan_type name info = Some (tt_type t)" "tt_ne t = rev (st_shape info)"
      "0 \<notin> set (tt_name t)" "ne_ok (tt_ne t)"
      by (rule planned_source [OF plan src t])
    have g: "int (length (gen t)) = exact_bytes (tt_type t) (tt_ne t)" "tt_size t = of_nat (length (gen t))"
      using gen t by auto
    have gl: "length (gen t) < 2 ^ 62"
      using data_image_part [OF t, of gen] image small by linarith
    have nb: "tensor_nbytes (tt_type t) (map of_int (tt_ne t)) = Inr (tt_size t)"
      unfolding g(2) by (rule engine_nbytes [OF so(1,4,2) g(1) gl])
    have u: "unat (tt_size t) = length (gen t)"
      using gl by (simp add: g(2) unat_of_nat_64)
    have "planned_at (of_nat 0) (pl_tensors plan)"
      using spec by simp
    from planned_data [where gen = gen, OF this _ _ t] obtain pre post where
      pos: "data_image gen (pl_tensors plan) = pre @ gen t @ post" "tt_offset t = of_nat (length pre)"
      using gen image small by auto
    then have "unat (tt_offset t) = length pre"
      using image small by (simp add: unat_of_nat_64)
    then have fits: "unat (tt_offset t) + unat (tt_size t) \<le> length (data_image gen (pl_tensors plan))"
      using pos(1) by (simp add: u)
    have "gen t \<noteq> []"
      using exact_bytes_pos [OF so(1,4,2)] g(1) by auto
    then have "tt_size t \<noteq> 0"
      using u by (metis length_0_conv unat_0)
    then show ?thesis
      using so(3,4) nb fits by (simp add: tensor_spec_ok_def tensor_spec_def ne_ok_def tool_file_def)
  qed
  have "\<forall>t \<in> set (map tensor_spec (pl_tensors plan)). ts_dim t \<noteq> []"
    using ok by (auto simp: tensor_spec_ok_def)
  from tcount [OF this] have nt: "length (pl_tensors plan) * 112 < 2 ^ 64"
    using head image small by simp
  have "32 \<le> length (gguf_image ?f)"
    using kvs head image by linarith
  then show ?thesis
    unfolding gguf_file_ok_def
    using small cnt nt ok tool_kvs_ok [of hf_dir im] by (simp add: tool_file_def)
qed

text \<open>The tool never finds more metadata than planned, and writes exactly this file.\<close>

lemma write_gguf_image:
  assumes plan: "sf37_build_plan db limit hf_dir im = Some plan"
    and gen: "\<forall>t \<in> set (pl_tensors plan). tt_size t = of_nat (length (gen t))"
    and small: "length (gguf_image (tool_file plan hf_dir im gen)) < 2 ^ 62"
  shows "sf37_write_gguf plan hf_dir im gen = Some (gguf_image (tool_file plan hf_dir im gen))"
proof -
  let ?f = "tool_file plan hf_dir im gen"
  have image: "length (gguf_image ?f) = length (head_image ?f) + file_padding ?f + length (data_image gen (pl_tensors plan))"
    by (simp add: gguf_image_def tool_file_def)
  have al: "pl_alignment plan = 32" "pl_data_offset plan = ds4q_pad (pl_meta_size plan) 32"
    using plan by (auto simp: sf37_build_plan_def Let_def split: option.splits prod.splits)
  have meta: "pl_meta_size plan = of_nat (length (head_image ?f))"
    using tool_head_size [OF plan] by simp
  have head: "length (head_image ?f) < 2 ^ 63"
    using small image by simp
  have "unat (ds4q_pad (of_nat (length (head_image ?f))) 32) \<ge> length (head_image ?f)"
    using pad_exact [of "of_nat (length (head_image ?f))"] head size_63 [OF head] by simp
  then have pos: "\<not> of_nat (length (head_image ?f)) > pl_data_offset plan"
    by (simp add: al(2) meta word_less_nat_alt size_63 [OF head])
  have pad: "file_padding ?f = (32 - length (head_image ?f) mod 32) mod 32"
    by (simp add: file_padding_def tool_file_def tool_alignment Let_def)
  have lens: "\<forall>t \<in> set (pl_tensors plan). length (gen t) < 2 ^ 63"
    using data_image_part [of _ "pl_tensors plan" gen] image small by fastforce
  have "write_tensor_data gen 32 ts = Some (data_image gen ts)"
    if "\<forall>t \<in> set ts. length (gen t) < 2 ^ 63 \<and> tt_size t = of_nat (length (gen t))" for ts
    using that by (induction ts) (simp_all add: Let_def data_image_def padded_def write_padding_exact)
  then have data: "write_tensor_data gen 32 (pl_tensors plan) = Some (data_image gen (pl_tensors plan))"
    using lens gen by simp
  have gf: "gf_data ?f = data_image gen (pl_tensors plan)"
    by (simp add: tool_file_def)
  show ?thesis
    unfolding sf37_write_gguf_def Let_def head_of_tool_file [symmetric, of _ _ _ gen]
    using pos by (simp add: al(1) data) (simp add: gguf_image_def al(2) meta write_padding_exact [OF head] pad gf)
qed

lemma plan_at_zero:
  assumes "sf37_build_plan db limit hf_dir im = Some plan"
  shows "planned_at (of_nat 0) (pl_tensors plan)"
proof -
  obtain n off ti where p: "plan_tensors (take n db) 0 0 = Some (pl_tensors plan, off, ti)"
    using assms by (auto simp: sf37_build_plan_def Let_def split: option.splits prod.splits)
  then show ?thesis
    using plan_tensors_spec [OF p] by simp
qed

text \<open>The metadata the tool writes is the metadata the runtime wants.\<close>

lemma tool_metadata_valid:
  assumes "\<And>k s. map_of (tool_kvs hf_dir im) k = Some (Str s) \<Longrightarrow> kv_string g k = Some s"
    and "\<And>k w. map_of (tool_kvs hf_dir im) k = Some (Scalar GGUF_VALUE_UINT32 (sf37_kvstore_le_put32 w)) \<Longrightarrow> kv_u32 g k = Some w"
    and "\<And>k b. map_of (tool_kvs hf_dir im) k = Some (Scalar GGUF_VALUE_BOOL [b]) \<Longrightarrow> kv_bool g k = Some (b \<noteq> 0)"
  shows "validate_metadata (engine_of_gguf g) = Inr (engine_of_gguf g)"
proof -
  have "kv_string g (cstr ''general.architecture'') = Some (cstr ''sf37'')"
    "kv_string g (cstr ''sf37.q3_layout'') = Some q3_layout" "kv_string g (cstr ''sf37.q2_layout'') = Some q2_layout"
    by (rule assms(1), simp add: tool_kvs_def kv_str_def kv_num_def)+
  moreover have "kv_u32 g (cstr ''sf37.block_count'') = Some 45" "kv_u32 g (cstr ''sf37.mtp_layer_count'') = Some 3"
    "kv_u32 g (cstr ''sf37.embedding_length'') = Some 4096" "kv_u32 g (cstr ''sf37.expert_count'') = Some 288"
    by (rule assms(2), simp add: tool_kvs_def kv_str_def kv_num_def)+
  moreover have "kv_bool g (cstr ''sf37.vision_included'') = Some (1 \<noteq> (0 :: byte))"
    by (rule assms(3), simp add: tool_kvs_def kv_str_def kv_num_def)
  ultimately show ?thesis
    unfolding validate_metadata_def Let_def check_metadata_steps
    by (simp add: engine_of_gguf_def kv_string_is_def str_eq_def q3_layout_def q2_layout_def weight_constants del: cstr_simps)
qed

subsection \<open>A small model\<close>

definition demo_db :: "(bytes \<times> st_info) list" where
  "demo_db = [(cstr ''a'', \<lparr>st_dtype = cstr ''F32'', st_shape = [2]\<rparr>), (cstr ''b'', \<lparr>st_dtype = cstr ''BF16'', st_shape = [1, 32]\<rparr>)]"

definition no_imatrix :: imatrix_store where
  "no_imatrix = \<lparr>im_file = [], im_dataset = None, im_n_entries = 0, im_chunks = 0\<rparr>"

definition demo_tensors :: "tool_tensor list" where
  "demo_tensors = [\<lparr>tt_name = cstr ''a'', tt_ne = [2], tt_type = SF37_TENSOR_F32, tt_size = 8, tt_offset = 0\<rparr>,
     \<lparr>tt_name = cstr ''b'', tt_ne = [32, 1], tt_type = SF37_TENSOR_Q8_0, tt_size = 34, tt_offset = 32\<rparr>]"

definition demo_gen :: "tool_tensor \<Rightarrow> bytes" where
  "demo_gen t = replicate (unat (tt_size t)) 5"

lemma demo_plan:
  "\<exists>plan. sf37_build_plan demo_db 0 [] no_imatrix = Some plan \<and> pl_tensors plan = demo_tensors"
  by (simp add: sf37_build_plan_def demo_db_def plan_type_def sf37_policy_type_def sf37_source_type_def gguf_constants
      sf37_keep_bf16_def sf37_is_router_def sf37_contains_def sf37_is_routed_gate_def sf37_is_routed_up_def
      sf37_is_routed_down_def ds4q_block_size_def ds4q_traits_def sf37_is_quant_type_def ne0_def Let_def
      tool_tensor_nbytes_def ds4q_row_size_def ds4q_pad_def demo_tensors_def upt_rec)

subsection \<open>Properties\<close>

text \<open>C6: the quantisation tool and the runtime agree. Planning never fails on known source
  types; the tool then writes its file without finding more metadata than it planned; the
  runtime opens that file, its metadata passes validation, and each tensor is found with its
  reversed dimensions, its type and exactly the bytes the tool produced. The source tensors have at
  least one dimension, no more than the runtime takes and none of size zero, and no NUL in their name
  (\<open>source_ok\<close>); each conversion gives the bytes its type and shape ask for, and the file stays below
  \<open>2 ^ 62\<close> bytes.\<close>

theorem tool_file_opens:
  assumes "sf37_build_plan db limit hf_dir im = Some plan" and "\<forall>s \<in> set db. source_ok s"
    and "\<forall>t \<in> set (pl_tensors plan). int (length (gen t)) = exact_bytes (tt_type t) (tt_ne t)"
    and "length (gguf_image (tool_file plan hf_dir im gen)) < 2 ^ 62" and "\<forall>n. mem n"
  shows "\<exists>out g e. sf37_write_gguf plan hf_dir im gen = Some out \<and> gguf_open mem (Some out) = Inr g \<and>
    validate_metadata (engine_of_gguf g) = Inr e \<and>
    (\<forall>name t. List.find (\<lambda>t. tt_name t = name) (pl_tensors plan) = Some t \<longrightarrow>
       (\<exists>t'. find_tensor g name = Some t' \<and> tn_dim t' = map of_int (tt_ne t) \<and> tn_type t' = tt_type t \<and>
          take (length (gen t)) (tensor_data g t') = gen t))"
proof -
  let ?f = "tool_file plan hf_dir im gen"
  note sizes = planned_sizes [OF assms(1-3)]
  have gen: "\<forall>t \<in> set (pl_tensors plan). tt_size t = of_nat (length (gen t))"
    using sizes by blast
  note out = write_gguf_image [OF assms(1) gen assms(4)]
  note ok = tool_file_ok [OF assms(1-4)]
  obtain g where g: "gguf_open mem (Some (gguf_image ?f)) = Inr g"
    "\<And>k s. map_of (tool_kvs hf_dir im) k = Some (Str s) \<Longrightarrow> kv_string g k = Some s"
    "\<And>k w. map_of (tool_kvs hf_dir im) k = Some (Scalar GGUF_VALUE_UINT32 (sf37_kvstore_le_put32 w)) \<Longrightarrow> kv_u32 g k = Some w"
    "\<And>k b. map_of (tool_kvs hf_dir im) k = Some (Scalar GGUF_VALUE_BOOL [b]) \<Longrightarrow> kv_bool g k = Some (b \<noteq> 0)"
    "\<And>name t. List.find (\<lambda>t. ts_name t = name) (map tensor_spec (pl_tensors plan)) = Some t \<Longrightarrow>
       \<exists>t'. find_tensor g name = Some t' \<and> tn_dim t' = ts_dim t \<and> tn_type t' = ts_type t \<and>
          take (unat (ts_nbytes t)) (tensor_data g t') =
            take (unat (ts_nbytes t)) (drop (unat (ts_offset t)) (data_image gen (pl_tensors plan)))"
    using image_lookups [OF ok assms(5)] by (auto simp: tool_file_def)
  have meta: "validate_metadata (engine_of_gguf g) = Inr (engine_of_gguf g)"
    by (rule tool_metadata_valid [OF g(2-4)])
  have "\<exists>t'. find_tensor g name = Some t' \<and> tn_dim t' = map of_int (tt_ne t) \<and> tn_type t' = tt_type t \<and>
          take (length (gen t)) (tensor_data g t') = gen t"
    if ft: "List.find (\<lambda>t. tt_name t = name) (pl_tensors plan) = Some t" for name t
  proof -
    have t: "t \<in> set (pl_tensors plan)"
      using ft by (auto simp: find_Some_iff)
    have "List.find (\<lambda>t. ts_name t = name) (map tensor_spec ts) = map_option tensor_spec (List.find (\<lambda>t. tt_name t = name) ts)" for ts
      by (induction ts) (simp_all add: tensor_spec_def)
    from g(5) [of name "tensor_spec t", unfolded this ft] obtain t' where
      t': "find_tensor g name = Some t'" "tn_dim t' = map of_int (tt_ne t)" "tn_type t' = tt_type t"
      "take (unat (tt_size t)) (tensor_data g t') =
         take (unat (tt_size t)) (drop (unat (tt_offset t)) (data_image gen (pl_tensors plan)))"
      by (auto simp: tensor_spec_def)
    have img: "length (data_image gen (pl_tensors plan)) < 2 ^ 62"
      using assms(4) by (simp add: gguf_image_def tool_file_def)
    obtain pre post where pos: "data_image gen (pl_tensors plan) = pre @ gen t @ post" "tt_offset t = of_nat (length pre)"
      using planned_data [where gen = gen, OF plan_at_zero [OF assms(1)] gen _ t] img by auto
    have "unat (tt_offset t) = length pre" "unat (tt_size t) = length (gen t)"
      using img gen t by (simp_all add: pos unat_of_nat_64)
    then show ?thesis
      using t' by (simp add: pos(1))
  qed
  then show ?thesis
    using out g(1) meta by blast
qed

theorem tool_file_opens_witness:
  "\<exists>plan out g. sf37_build_plan demo_db 0 [] no_imatrix = Some plan \<and>
     sf37_write_gguf plan [] no_imatrix demo_gen = Some out \<and> gguf_open (\<lambda>_. True) (Some out) = Inr g \<and>
     (\<exists>t'. find_tensor g (cstr ''b'') = Some t' \<and> take 34 (tensor_data g t') = replicate 34 5)"
proof -
  obtain plan where plan: "sf37_build_plan demo_db 0 [] no_imatrix = Some plan" "pl_tensors plan = demo_tensors"
    using demo_plan by blast
  have src: "\<forall>s \<in> set demo_db. source_ok s"
    by (simp add: demo_db_def source_ok_def ne_ok_def SF37_MAX_DIMS_def)
  have exact: "\<forall>t \<in> set (pl_tensors plan). int (length (demo_gen t)) = exact_bytes (tt_type t) (tt_ne t)"
    by (simp add: plan(2) demo_tensors_def demo_gen_def exact_bytes_def ds4q_traits_def gguf_constants)
  have kvs: "length (concat (map kv_image (tool_kvs [] no_imatrix))) < 2000"
    by (simp add: tool_kvs_def kv_str_def kv_num_def kv_image_pair imatrix_kvs_def imatrix_enabled_def no_imatrix_def
        q3_layout_def q2_layout_def quant_policy_text_def keep_bf16_text_def name_format_text_def)
  have pad: "file_padding (tool_file plan [] no_imatrix demo_gen) < 32"
    by (simp add: file_padding_def tool_file_def tool_alignment Let_def)
  have len: "length (gguf_image (tool_file plan [] no_imatrix demo_gen)) < 2 ^ 62"
    using kvs pad by (simp add: gguf_image_def head_image_def tool_file_def plan(2) demo_tensors_def tensor_spec_def
        tensor_image_def data_image_def padded_def demo_gen_def SF37_GGUF_MAGIC_def)
  obtain out g e where r: "sf37_write_gguf plan [] no_imatrix demo_gen = Some out" "gguf_open (\<lambda>_. True) (Some out) = Inr g"
    "\<forall>name t. List.find (\<lambda>t. tt_name t = name) (pl_tensors plan) = Some t \<longrightarrow>
       (\<exists>t'. find_tensor g name = Some t' \<and> tn_dim t' = map of_int (tt_ne t) \<and> tn_type t' = tt_type t \<and>
          take (length (demo_gen t)) (tensor_data g t') = demo_gen t)"
    using tool_file_opens [OF plan(1) src exact len, of "\<lambda>_. True"] by auto
  have "List.find (\<lambda>t. tt_name t = cstr ''b'') (pl_tensors plan) = Some (demo_tensors ! 1)"
    by (simp add: plan(2) demo_tensors_def)
  moreover have "demo_gen (demo_tensors ! 1) = replicate 34 5"
    by (simp add: demo_tensors_def demo_gen_def)
  ultimately have "\<exists>t'. find_tensor g (cstr ''b'') = Some t' \<and> take 34 (tensor_data g t') = replicate 34 5"
    using r(3) by (metis length_replicate)
  then show ?thesis
    using plan(1) r(1,2) by blast
qed

end
