(* ===== verification/WeightsProps.thy ===== *)
theory WeightsProps
  imports QuantizeProps
begin

section \<open>Which files bind, and what is read from them\<close>

text \<open>
  The converse of the soundness of binding: a file that holds every tensor of the model's
  requirements, with the metadata the tool writes, binds. The requirements are listed, their
  names are shown to be different, and a smallest such file is the witness of the property
  that everything the CPU path reads from a bound model lies inside the file.
\<close>

subsection \<open>The requirements\<close>

type_synonym requirement = "bytes \<times> u32 option \<times> nat list"

definition layer_name :: "nat \<Rightarrow> string \<Rightarrow> bytes" where
  "layer_name il s = cstr ''model.layers.'' @ u_dec il @ cstr (CHR ''.'' # s)"

definition block_name :: "nat \<Rightarrow> string \<Rightarrow> bytes" where
  "block_name il s = cstr ''vision_model.transformer.resblocks.'' @ u_dec il @ cstr (CHR ''.'' # s)"

definition layer_parts :: "nat \<Rightarrow> (string \<times> u32 option \<times> nat list) list" where
  "layer_parts il =
     (let q_heads = layer_q_heads il; q_dim = q_heads * SF37_HEAD_DIM; kv_dim = SF37_KV_HEADS * SF37_HEAD_DIM
      in [(''input_layernorm.weight'', Some SF37_TENSOR_BF16, [SF37_EMBD]),
       (''post_attention_layernorm.weight'', Some SF37_TENSOR_BF16, [SF37_EMBD]),
       (''self_attn.q_proj.weight'', Some SF37_TENSOR_Q8_0, [SF37_EMBD, q_dim]),
       (''self_attn.k_proj.weight'', Some SF37_TENSOR_Q8_0, [SF37_EMBD, kv_dim]),
       (''self_attn.v_proj.weight'', Some SF37_TENSOR_Q8_0, [SF37_EMBD, kv_dim]),
       (''self_attn.o_proj.weight'', Some SF37_TENSOR_Q8_0, [q_dim, SF37_EMBD]),
       (''self_attn.g_proj.weight'', Some SF37_TENSOR_Q8_0, [SF37_EMBD, q_heads]),
       (''self_attn.q_norm.weight'', Some SF37_TENSOR_BF16, [SF37_HEAD_DIM]),
       (''self_attn.k_norm.weight'', Some SF37_TENSOR_BF16, [SF37_HEAD_DIM])] @
      (if il < 3 then
        [(''mlp.gate_proj.weight'', Some SF37_TENSOR_Q8_0, [SF37_EMBD, SF37_DENSE_FF]),
         (''mlp.up_proj.weight'', Some SF37_TENSOR_Q8_0, [SF37_EMBD, SF37_DENSE_FF]),
         (''mlp.down_proj.weight'', Some SF37_TENSOR_Q8_0, [SF37_DENSE_FF, SF37_EMBD])]
       else
        [(''moe.gate.weight'', None, [SF37_EMBD, SF37_EXPERTS]),
         (''moe.router_bias'', Some SF37_TENSOR_F32, [SF37_EXPERTS]),
         (''moe.gate_proj.weight'', Some SF37_TENSOR_Q3_K, [SF37_EMBD, SF37_EXPERT_FF, SF37_EXPERTS]),
         (''moe.up_proj.weight'', Some SF37_TENSOR_Q3_K, [SF37_EMBD, SF37_EXPERT_FF, SF37_EXPERTS]),
         (''moe.down_proj.weight'', Some SF37_TENSOR_Q2_K, [SF37_EXPERT_FF, SF37_EMBD, SF37_EXPERTS]),
         (''share_expert.gate_proj.weight'', Some SF37_TENSOR_Q8_0, [SF37_EMBD, SF37_EXPERT_FF]),
         (''share_expert.up_proj.weight'', Some SF37_TENSOR_Q8_0, [SF37_EMBD, SF37_EXPERT_FF]),
         (''share_expert.down_proj.weight'', Some SF37_TENSOR_Q8_0, [SF37_EXPERT_FF, SF37_EMBD])]))"

definition block_parts :: "(string \<times> u32 option \<times> nat list) list" where
  "block_parts =
     [(''attn.in_proj_weight'', Some SF37_TENSOR_Q8_0, [SF37_VISION_WIDTH, SF37_VISION_WIDTH * 3]),
      (''attn.in_proj_bias'', None, [SF37_VISION_WIDTH * 3]),
      (''attn.out_proj.weight'', Some SF37_TENSOR_Q8_0, [SF37_VISION_WIDTH, SF37_VISION_WIDTH]),
      (''attn.out_proj.bias'', None, [SF37_VISION_WIDTH]),
      (''ln_1.weight'', None, [SF37_VISION_WIDTH]),
      (''ln_1.bias'', None, [SF37_VISION_WIDTH]),
      (''ln_2.weight'', None, [SF37_VISION_WIDTH]),
      (''ln_2.bias'', None, [SF37_VISION_WIDTH]),
      (''ls_1.gamma'', None, [SF37_VISION_WIDTH]),
      (''ls_2.gamma'', None, [SF37_VISION_WIDTH]),
      (''mlp.c_fc.weight'', Some SF37_TENSOR_Q8_0, [SF37_VISION_WIDTH, 8960]),
      (''mlp.c_fc.bias'', None, [8960]),
      (''mlp.c_proj.weight'', Some SF37_TENSOR_Q8_0, [8960, SF37_VISION_WIDTH]),
      (''mlp.c_proj.bias'', None, [SF37_VISION_WIDTH])]"

definition vision_parts :: "(string \<times> u32 option \<times> nat list) list" where
  "vision_parts =
     [(''vision_model.conv1.weight'', Some SF37_TENSOR_BF16, [SF37_VISION_PATCH, SF37_VISION_PATCH, 3, SF37_VISION_WIDTH]),
      (''vision_model.ln_pre.weight'', None, [SF37_VISION_WIDTH]),
      (''vision_model.ln_pre.bias'', None, [SF37_VISION_WIDTH]),
      (''vision_model.positional_embedding'', Some SF37_TENSOR_Q8_0, [SF37_VISION_WIDTH, SF37_VISION_GRID * SF37_VISION_GRID]),
      (''vision_model.vit_downsampler1.weight'', Some SF37_TENSOR_BF16, [3, 3, SF37_VISION_WIDTH, SF37_VISION_WIDTH * 2]),
      (''vision_model.vit_downsampler1.bias'', None, [SF37_VISION_WIDTH * 2]),
      (''vision_model.vit_downsampler2.weight'', Some SF37_TENSOR_BF16, [3, 3, SF37_VISION_WIDTH * 2, SF37_VISION_WIDTH * 4]),
      (''vision_model.vit_downsampler2.bias'', None, [SF37_VISION_WIDTH * 4]),
      (''vit_large_projector.weight'', Some SF37_TENSOR_BF16, [SF37_VISION_WIDTH * 4, SF37_EMBD])]"

definition top_parts :: "(string \<times> u32 option \<times> nat list) list" where
  "top_parts = [(''model.embed_tokens.weight'', Some SF37_TENSOR_BF16, [SF37_EMBD, SF37_VOCAB]),
     (''lm_head.weight'', Some SF37_TENSOR_BF16, [SF37_EMBD, SF37_VOCAB]),
     (''model.norm.weight'', Some SF37_TENSOR_BF16, [SF37_EMBD])]"

definition named :: "(string \<Rightarrow> bytes) \<Rightarrow> (string \<times> u32 option \<times> nat list) list \<Rightarrow> requirement list" where
  "named f ps = map (\<lambda>(s, r). (f s, r)) ps"

definition model_requirements :: "requirement list" where
  "model_requirements = named cstr top_parts @ named cstr vision_parts @
     concat (map (\<lambda>il. named (layer_name il) (layer_parts il)) [0..<SF37_MAIN_LAYERS]) @
     concat (map (\<lambda>il. named (block_name il) block_parts) [0..<SF37_VISION_LAYERS])"

definition available :: "sf37_gguf \<Rightarrow> requirement \<Rightarrow> bool" where
  "available g r \<longleftrightarrow> (case r of (name, type, dims) \<Rightarrow>
     (\<exists>t. find_tensor g name = Some t \<and> (type = None \<or> tn_type t = the type) \<and> tn_dim t = map of_nat dims))"

subsection \<open>Binding succeeds\<close>

definition succeeds :: "sf37_gguf \<Rightarrow> bind_step \<Rightarrow> bool" where
  "succeeds g s \<longleftrightarrow> (\<forall>e. en_gguf e = g \<longrightarrow> (\<exists>e'. s e = Inr e' \<and> en_gguf e' = g))"

lemma succeeds_steps: "\<forall>s \<in> set ss. succeeds g s \<Longrightarrow> succeeds g (bind_steps ss)"
proof (induction ss)
  case (Cons s ss)
  then show ?case
    by (auto simp: succeeds_def)
qed (simp add: succeeds_def)

lemma require_available:
  assumes "available (en_gguf e) (name, type, dims)"
  shows "\<exists>t. require_tensor e name type dims = Inr t"
  using assms by (auto simp: available_def require_tensor_def tensor_dims_eq_def list_all_iff)

lemma succeeds_layer: "available g (layer_name il s, type, dims) \<Longrightarrow> succeeds g (bind_layer il upd s type dims)"
  unfolding succeeds_def bind_layer_def layer_name_def [symmetric] using require_available by fastforce

lemma succeeds_block: "available g (block_name il s, type, dims) \<Longrightarrow> succeeds g (bind_vision_field il upd s type dims)"
  unfolding succeeds_def bind_vision_field_def block_name_def [symmetric] using require_available by fastforce

lemma succeeds_vision: "available g (cstr s, type, dims) \<Longrightarrow> succeeds g (bind_vision_top upd s type dims)"
  unfolding succeeds_def bind_vision_top_def using require_available by fastforce

lemma succeeds_top:
  "available g (cstr s, Some SF37_TENSOR_BF16, dims) \<Longrightarrow> (\<And>e x. en_gguf (upd x e) = en_gguf e) \<Longrightarrow>
     succeeds g (bind_top upd s dims)"
  unfolding succeeds_def bind_top_def using require_available by fastforce

lemma available_parts:
  "\<forall>r \<in> set (named f ps). available g r \<Longrightarrow> (s, t, d) \<in> set ps \<Longrightarrow> available g (f s, t, d)"
  by (force simp: named_def)

lemma succeeds_text_layer:
  assumes "\<forall>r \<in> set (named (layer_name il) (layer_parts il)). available g r"
  shows "succeeds g (bind_text_layer il)"
proof -
  note part = succeeds_layer [OF available_parts [OF assms]]
  show ?thesis
    unfolding bind_text_layer_def Let_def
    by (rule succeeds_steps) (auto intro!: part simp: layer_parts_def Let_def)
qed

lemma succeeds_vision_block:
  assumes "\<forall>r \<in> set (named (block_name il) block_parts). available g r"
  shows "succeeds g (bind_vision_block il)"
proof -
  note part = succeeds_block [OF available_parts [OF assms]]
  show ?thesis
    unfolding bind_vision_block_def
    by (rule succeeds_steps) (auto intro!: part simp: block_parts_def)
qed

lemma succeeds_bind_vision:
  assumes "\<forall>r \<in> set (named cstr vision_parts). available g r"
    and "\<And>il. il < SF37_VISION_LAYERS \<Longrightarrow> \<forall>r \<in> set (named (block_name il) block_parts). available g r"
  shows "succeeds g bind_vision"
proof -
  note part = succeeds_vision [OF available_parts [OF assms(1)]]
  show ?thesis
    unfolding bind_vision_def
    by (rule succeeds_steps) (auto intro!: part succeeds_vision_block [OF assms(2)] simp: vision_parts_def)
qed

lemma bind_model_complete:
  assumes "\<forall>r \<in> set model_requirements. available g r"
    and "\<And>e. en_gguf e = g \<Longrightarrow> validate_metadata e = Inr e"
  shows "\<exists>e. bind_model (engine_of_gguf g) = Inr e"
proof -
  have top: "\<forall>r \<in> set (named cstr top_parts). available g r" "\<forall>r \<in> set (named cstr vision_parts). available g r"
    using assms(1) by (simp_all add: model_requirements_def)
  have layer: "\<forall>r \<in> set (named (layer_name il) (layer_parts il)). available g r" if "il < SF37_MAIN_LAYERS" for il
    using assms(1) that by (simp add: model_requirements_def ball_Un)
  have block: "\<forall>r \<in> set (named (block_name il) block_parts). available g r" if "il < SF37_VISION_LAYERS" for il
    using assms(1) that by (simp add: model_requirements_def ball_Un)
  note part = succeeds_top [OF available_parts [OF top(1)]]
  have "succeeds g validate_metadata" "succeeds g (\<lambda>e. Inr (foldl count_tensor e (gg_tensors (en_gguf e))))"
    "succeeds g (\<lambda>e. Inr (e\<lparr>en_bound_text_tensors := en_bound_text_tensors e + 3\<rparr>))"
    using assms(2) count_tensors_frame by (auto simp: succeeds_def)
  then have "succeeds g bind_model"
    unfolding bind_model_def
    by (intro succeeds_steps) (auto intro!: part succeeds_text_layer [OF layer] succeeds_bind_vision [OF top(2) block] simp: top_parts_def)
  moreover have "en_gguf (engine_of_gguf g) = g"
    by (simp add: engine_of_gguf_def)
  ultimately show ?thesis
    unfolding succeeds_def by blast
qed

subsection \<open>The names are different\<close>

lemma u_dec_less_100:
  assumes "il < 100"
  shows "u_dec il = (if il < 10 then [of_nat (48 + il)] else [of_nat (48 + il div 10), of_nat (48 + il mod 10)])"
  using assms u_dec.simps [of il] u_dec.simps [of "il div 10"] by (auto simp: less_mult_imp_div_less)

lemma of_nat_digit_eq: "a < 10 \<Longrightarrow> b < 10 \<Longrightarrow> (of_nat (48 + a) :: byte) = of_nat (48 + b) \<longleftrightarrow> a = b"
  using word_of_nat_eq_iff [where 'a = 8, of "48 + a" "48 + b"] by (simp add: take_bit_nat_def)

lemma u_dec_inj:
  assumes "i < 100" and "j < 100" and "u_dec i = u_dec j"
  shows "i = j"
proof -
  have d: "i div 10 < 10" "j div 10 < 10" "i mod 10 < 10" "j mod 10 < 10"
    using assms(1,2) by (simp_all add: less_mult_imp_div_less)
  show ?thesis
  proof (cases "i < 10 \<longleftrightarrow> j < 10")
    case True
    have "i div 10 = j div 10 \<and> i mod 10 = j mod 10"
      using assms(3) True d of_nat_digit_eq [of i j] of_nat_digit_eq [of "i div 10" "j div 10"] of_nat_digit_eq [of "i mod 10" "j mod 10"]
      by (auto simp: u_dec_less_100 [OF assms(1)] u_dec_less_100 [OF assms(2)] simp del: of_nat_add split: if_splits)
    then show ?thesis
      by (metis div_mult_mod_eq)
  next
    case False
    then show ?thesis
      using assms(3) by (auto simp: u_dec_less_100 [OF assms(1)] u_dec_less_100 [OF assms(2)] split: if_splits)
  qed
qed

lemma digit_not_dot: "d < 10 \<Longrightarrow> (of_nat (48 + d) :: byte) \<noteq> 0x2e"
proof
  assume d: "d < 10" and eq: "(of_nat (48 + d) :: byte) = 0x2e"
  have "unat (of_nat (48 + d) :: byte) = 48 + d"
    using d by (simp only: unat_of_nat) simp
  moreover have "unat (of_nat (48 + d) :: byte) = 46"
    unfolding eq by simp
  ultimately show False
    by linarith
qed

lemma u_dec_no_dot: "i < 100 \<Longrightarrow> 0x2e \<notin> set (u_dec i)"
  using digit_not_dot [of i] digit_not_dot [of "i div 10"] digit_not_dot [of "i mod 10"]
  by (auto simp: u_dec_less_100 less_mult_imp_div_less simp del: of_nat_add)

lemma split_at:
  "x \<notin> set a \<Longrightarrow> x \<notin> set b \<Longrightarrow> a @ x # r = b @ x # s \<longleftrightarrow> a = b \<and> r = s"
proof (induction a arbitrary: b)
  case Nil
  then show ?case
    by (cases b) auto
next
  case (Cons y a)
  then show ?case
    by (cases b) auto
qed

lemma name_eq:
  assumes "i < 100" and "j < 100"
  shows "layer_name i s = layer_name j t \<longleftrightarrow> i = j \<and> cstr s = cstr t"
    and "block_name i s = block_name j t \<longleftrightarrow> i = j \<and> cstr s = cstr t"
proof -
  have dot: "cstr (CHR ''.'' # s) = 0x2e # cstr s" for s
    by simp
  have "u_dec i @ cstr (CHR ''.'' # s) = u_dec j @ cstr (CHR ''.'' # t) \<longleftrightarrow> i = j \<and> cstr s = cstr t"
    unfolding dot using split_at [OF u_dec_no_dot u_dec_no_dot] u_dec_inj assms by blast
  then show "layer_name i s = layer_name j t \<longleftrightarrow> i = j \<and> cstr s = cstr t"
    "block_name i s = block_name j t \<longleftrightarrow> i = j \<and> cstr s = cstr t"
    unfolding layer_name_def block_name_def same_append_eq by simp_all
qed

lemma distinct_blocks:
  assumes "\<And>i. i < n \<Longrightarrow> distinct (f i)" and "\<And>i j. i < n \<Longrightarrow> j < n \<Longrightarrow> i \<noteq> j \<Longrightarrow> set (f i) \<inter> set (f j) = {}"
  shows "distinct (concat (map f [0..<n]))"
  using assms
proof (induction n)
  case (Suc n)
  have "x \<notin> set (f n)" if "i < n" "x \<in> set (f i)" for i x
    using Suc.prems(2) [of i n] that by auto
  then have "set (concat (map f [0..<n])) \<inter> set (f n) = {}"
    by auto
  moreover have "distinct (concat (map f [0..<n]))" "distinct (f n)"
    using Suc by simp_all
  ultimately show ?case
    by simp
qed simp

lemma distinct_named_blocks:
  assumes "\<And>i. i < n \<Longrightarrow> distinct (map (cstr \<circ> fst) (ps i))"
    and "\<And>i j s t. i < n \<Longrightarrow> j < n \<Longrightarrow> f i s = f j t \<longleftrightarrow> i = j \<and> cstr s = cstr t"
  shows "distinct (map fst (concat (map (\<lambda>i. named (f i) (ps i)) [0..<n])))"
proof -
  have d: "distinct (map fst (named (f i) (ps i)))" if "i < n" for i
  proof -
    have "inj_on (f i) (fst ` set (ps i))" "distinct (map fst (ps i))"
      using assms(1) [OF that] assms(2) [OF that that]
      by (auto simp: distinct_map inj_on_def comp_inj_on_iff)
    then show ?thesis
      by (auto simp: named_def distinct_map inj_on_def case_prod_unfold)
  qed
  have "map fst (concat (map (\<lambda>i. named (f i) (ps i)) [0..<n])) = concat (map (\<lambda>i. map fst (named (f i) (ps i))) [0..<n])"
    by (simp add: map_concat o_def)
  also have "distinct \<dots>"
  proof (rule distinct_blocks [OF d])
    show "set (map fst (named (f i) (ps i))) \<inter> set (map fst (named (f j) (ps j))) = {}" if "i < n" "j < n" "i \<noteq> j" for i j
      using assms(2) [OF that(1,2)] that(3) by (auto simp: named_def)
  qed
  finally show ?thesis .
qed

lemma parts_distinct:
  "distinct (map (cstr \<circ> fst) (layer_parts il))" "distinct (map (cstr \<circ> fst) block_parts)"
  "distinct (map (cstr \<circ> fst) (top_parts @ vision_parts))"
  by (simp_all add: layer_parts_def block_parts_def top_parts_def vision_parts_def Let_def)

lemma prefixes_differ:
  "s \<in> set (map fst (top_parts @ vision_parts)) \<Longrightarrow> cstr s \<noteq> layer_name i t \<and> cstr s \<noteq> block_name i t"
  "layer_name i t \<noteq> block_name j u"
  by (auto simp: top_parts_def vision_parts_def layer_name_def block_name_def)

lemma requirements_distinct: "distinct (map fst model_requirements)"
proof -
  let ?ls = "concat (map (\<lambda>il. named (layer_name il) (layer_parts il)) [0..<SF37_MAIN_LAYERS])"
  let ?bs = "concat (map (\<lambda>il. named (block_name il) block_parts) [0..<SF37_VISION_LAYERS])"
  have top: "map fst (named cstr top_parts @ named cstr vision_parts) = map (cstr \<circ> fst) (top_parts @ vision_parts)"
    by (simp add: named_def case_prod_unfold)
  have small: "i < SF37_MAIN_LAYERS \<Longrightarrow> i < 100" "i < SF37_VISION_LAYERS \<Longrightarrow> i < 100" for i
    by (simp_all add: weight_constants)
  have l: "distinct (map fst ?ls)" and b: "distinct (map fst ?bs)"
    by (rule distinct_named_blocks [OF parts_distinct(1) name_eq(1)] distinct_named_blocks [OF parts_distinct(2) name_eq(2)];
        simp add: small)+
  have names: "x \<in> set (map fst ?ls) \<Longrightarrow> \<exists>i s. x = layer_name i s" "x \<in> set (map fst ?bs) \<Longrightarrow> \<exists>i s. x = block_name i s" for x
    by (auto simp: named_def; blast)+
  have "x \<notin> set (map fst ?ls) \<union> set (map fst ?bs)" if "x \<in> set (map (cstr \<circ> fst) (top_parts @ vision_parts))" for x
  proof -
    from that obtain p where p: "p \<in> set (top_parts @ vision_parts)" "x = (cstr \<circ> fst) p"
      unfolding list.set_map by (elim imageE)
    define s where "s = fst p"
    have s: "s \<in> set (map fst (top_parts @ vision_parts))" "x = cstr s"
      unfolding s_def list.set_map using p by (simp_all only: imageI o_apply)
    show ?thesis
    proof
      assume "x \<in> set (map fst ?ls) \<union> set (map fst ?bs)"
      then show False
      proof
        assume "x \<in> set (map fst ?ls)"
        from names(1) [OF this] obtain i t where "x = layer_name i t"
          by (elim exE)
        with prefixes_differ(1) [OF s(1), of i t] s(2) show False
          by (simp only:) simp
      next
        assume "x \<in> set (map fst ?bs)"
        from names(2) [OF this] obtain i t where "x = block_name i t"
          by (elim exE)
        with prefixes_differ(1) [OF s(1), of i t] s(2) show False
          by (simp only:) simp
      qed
    qed
  qed
  then have "set (map (cstr \<circ> fst) (top_parts @ vision_parts)) \<inter> (set (map fst ?ls) \<union> set (map fst ?bs)) = {}"
    by blast
  moreover have "set (map fst ?ls) \<inter> set (map fst ?bs) = {}"
  proof (rule equals0I)
    fix x
    assume "x \<in> set (map fst ?ls) \<inter> set (map fst ?bs)"
    then obtain i t j u where "x = layer_name i t" "x = block_name j u"
      using names(1) [of x] names(2) [of x] by (elim IntE) metis
    then show False
      using prefixes_differ(2) [of i t j u] by simp
  qed
  ultimately have "distinct (map (cstr \<circ> fst) (top_parts @ vision_parts) @ map fst ?ls @ map fst ?bs)"
    using parts_distinct(3) l b by (simp only: distinct_append set_append)
  moreover have "map fst model_requirements = map (cstr \<circ> fst) (top_parts @ vision_parts) @ map fst ?ls @ map fst ?bs"
    unfolding model_requirements_def append_assoc [symmetric] map_append [of fst _ ?bs] map_append [of fst _ ?ls] top by simp
  ultimately show ?thesis
    by simp
qed

subsection \<open>A file with every tensor\<close>

text \<open>All tensors of this file start at the same offset, in a data section of zeros as long as
  the largest of them.\<close>

definition model_data_bytes :: nat where
  "model_data_bytes = 1055916032"

definition req_type :: "u32 option \<Rightarrow> u32" where
  "req_type t = (case t of None \<Rightarrow> SF37_TENSOR_F32 | Some t \<Rightarrow> t)"

definition req_nbytes :: "u32 option \<Rightarrow> nat list \<Rightarrow> u64" where
  "req_nbytes t d = (case tensor_nbytes (req_type t) (map of_nat d) of Inl _ \<Rightarrow> 0 | Inr nb \<Rightarrow> nb)"

definition req_spec :: "requirement \<Rightarrow> tensor_spec" where
  "req_spec r = (case r of (name, t, d) \<Rightarrow>
     \<lparr>ts_name = name, ts_dim = map of_nat d, ts_type = req_type t, ts_offset = 0, ts_nbytes = req_nbytes t d\<rparr>)"

definition model_file :: gguf_file where
  "model_file = \<lparr>gf_kvs = tool_kvs [] no_imatrix, gf_tensors = map req_spec model_requirements,
     gf_data = replicate model_data_bytes 0\<rparr>"

definition part_ok :: "string \<times> u32 option \<times> nat list \<Rightarrow> bool" where
  "part_ok p \<longleftrightarrow> (case p of (s, t, d) \<Rightarrow> 0 \<notin> set (cstr s) \<and> length s \<le> 50 \<and> d \<noteq> [] \<and> length d \<le> 8 \<and>
     (case tensor_nbytes (req_type t) (map of_nat d) of Inl _ \<Rightarrow> False
      | Inr nb \<Rightarrow> nb \<noteq> 0 \<and> unat nb \<le> model_data_bytes))"

lemmas nbytes_eval = tensor_nbytes_def type_table checked_mul_u64_iff SF37_MAX_DIMS_def

lemma parts_ok_top: "list_all part_ok top_parts"
  by (simp add: top_parts_def part_ok_def req_type_def nbytes_eval model_data_bytes_def weight_constants)

lemma parts_ok_vision: "list_all part_ok vision_parts" "list_all part_ok block_parts"
  by (simp_all add: vision_parts_def block_parts_def part_ok_def req_type_def nbytes_eval model_data_bytes_def weight_constants)

lemma parts_ok_layer: "list_all part_ok (layer_parts il)"
  using layer_q_heads_cases [of il]
  by (elim disjE)
    (simp_all add: layer_parts_def Let_def part_ok_def req_type_def nbytes_eval model_data_bytes_def weight_constants)

definition req_ok :: "requirement \<Rightarrow> bool" where
  "req_ok r \<longleftrightarrow> (case r of (name, t, d) \<Rightarrow> 0 \<notin> set name \<and> length name \<le> 90 \<and> d \<noteq> [] \<and> length d \<le> 8 \<and>
     (case tensor_nbytes (req_type t) (map of_nat d) of Inl _ \<Rightarrow> False
      | Inr nb \<Rightarrow> nb \<noteq> 0 \<and> unat nb \<le> model_data_bytes))"

lemma digit_not_nul: "d < 10 \<Longrightarrow> (of_nat (48 + d) :: byte) \<noteq> 0"
proof
  assume d: "d < 10" and eq: "(of_nat (48 + d) :: byte) = 0"
  have "unat (of_nat (48 + d) :: byte) = 48 + d"
    using d by (simp only: unat_of_nat) simp
  then show False
    unfolding eq by simp
qed

lemma u_dec_bytes: "i < 100 \<Longrightarrow> 0 \<notin> set (u_dec i) \<and> length (u_dec i) \<le> 2"
  using digit_not_nul [of i] digit_not_nul [of "i div 10"] digit_not_nul [of "i mod 10"]
  by (auto simp: u_dec_less_100 less_mult_imp_div_less simp del: of_nat_add)

lemma named_ok:
  assumes "list_all part_ok ps" and "\<And>s. 0 \<notin> set (cstr s) \<Longrightarrow> 0 \<notin> set (f s) \<and> length (f s) \<le> 40 + length s"
  shows "\<forall>r \<in> set (named f ps). req_ok r"
  using assms by (fastforce simp: list_all_iff part_ok_def req_ok_def named_def split: sum.splits)

lemma requirements_ok: "\<forall>r \<in> set model_requirements. req_ok r"
proof -
  have l: "\<forall>r \<in> set (named (layer_name il) (layer_parts il)). req_ok r" if "il < SF37_MAIN_LAYERS" for il
    by (rule named_ok [OF parts_ok_layer]) (use u_dec_bytes [of il] that in \<open>simp add: layer_name_def weight_constants\<close>)
  have b: "\<forall>r \<in> set (named (block_name il) block_parts). req_ok r" if "il < SF37_VISION_LAYERS" for il
    by (rule named_ok [OF parts_ok_vision(2)]) (use u_dec_bytes [of il] that in \<open>simp add: block_name_def weight_constants\<close>)
  have t: "\<forall>r \<in> set (named cstr top_parts). req_ok r" "\<forall>r \<in> set (named cstr vision_parts). req_ok r"
    by (rule named_ok [OF parts_ok_top] named_ok [OF parts_ok_vision(1)]; simp)+
  show ?thesis
    using l b t by (simp add: model_requirements_def ball_Un)
qed

lemma length_requirements: "length model_requirements \<le> 2000"
proof -
  have "length (layer_parts il) \<le> 20" for il
    by (simp add: layer_parts_def Let_def)
  moreover have "length (concat (map f [0..<n])) \<le> k * n" if "\<And>i. length (f i) \<le> k" for f :: "nat \<Rightarrow> requirement list" and k n
  proof (induction n)
    case (Suc n)
    then show ?case
      using that [of n] by simp
  qed simp
  ultimately have "length (concat (map (\<lambda>il. named (layer_name il) (layer_parts il)) [0..<SF37_MAIN_LAYERS])) \<le> 20 * SF37_MAIN_LAYERS"
    "length (concat (map (\<lambda>il. named (block_name il) block_parts) [0..<SF37_VISION_LAYERS])) \<le> 20 * SF37_VISION_LAYERS"
    by (simp_all add: named_def block_parts_def)
  moreover have "length (named cstr top_parts) + length (named cstr vision_parts) \<le> 20"
    by (simp add: named_def top_parts_def vision_parts_def)
  ultimately show ?thesis
    by (simp add: model_requirements_def weight_constants)
qed

lemma model_file_ok: "gguf_file_ok model_file"
proof -
  have ts: "\<forall>r \<in> set model_requirements. tensor_spec_ok model_file (req_spec r)"
    using requirements_ok
    by (fastforce simp: req_ok_def tensor_spec_ok_def req_spec_def req_nbytes_def SF37_MAX_DIMS_def model_file_def split: sum.splits)
  have image: "length (concat (map tensor_image (map req_spec rs))) \<le> 178 * length rs" if "\<forall>r \<in> set rs. req_ok r" for rs
    using that by (induction rs) (auto simp: req_spec_def req_ok_def tensor_image_def)
  have kvs: "length (concat (map kv_image (tool_kvs [] no_imatrix))) < 2000" "32 \<le> length (concat (map kv_image (tool_kvs [] no_imatrix)))"
    by (simp_all add: tool_kvs_def kv_str_def kv_num_def kv_image_pair imatrix_kvs_def imatrix_enabled_def no_imatrix_def
        q3_layout_def q2_layout_def quant_policy_text_def keep_bf16_text_def name_format_text_def)
  have pad: "file_padding model_file < 32"
    by (simp add: file_padding_def model_file_def tool_alignment Let_def)
  have len: "length (gguf_image model_file) = 24 + length (concat (map kv_image (tool_kvs [] no_imatrix))) +
      length (concat (map tensor_image (map req_spec model_requirements))) + file_padding model_file + model_data_bytes"
    by (simp add: gguf_image_def head_image_def model_file_def SF37_GGUF_MAGIC_def)
  have "length (gguf_image model_file) < 2 ^ 63" "32 \<le> length (gguf_image model_file)"
    using len image [OF requirements_ok] length_requirements kvs pad by (simp_all add: model_data_bytes_def)
  moreover have "length (tool_kvs [] no_imatrix) = 20"
    by (simp add: tool_kvs_def imatrix_kvs_def imatrix_enabled_def no_imatrix_def)
  ultimately show ?thesis
    using ts tool_kvs_ok [of "[]" no_imatrix] length_requirements by (simp add: gguf_file_ok_def model_file_def)
qed

lemma find_requirement:
  "distinct (map fst rs) \<Longrightarrow> (name, t, d) \<in> set rs \<Longrightarrow>
     List.find (\<lambda>s. ts_name s = name) (map req_spec rs) = Some (req_spec (name, t, d))"
  by (induction rs) (force simp: req_spec_def)+

lemma image_opens:
  assumes "gguf_file_ok f"
  obtains g where "gguf_open (\<lambda>_. True) (Some (gguf_image f)) = Inr g"
    "\<And>k s. map_of (gf_kvs f) k = Some (Str s) \<Longrightarrow> kv_string g k = Some s"
    "\<And>k w. map_of (gf_kvs f) k = Some (Scalar GGUF_VALUE_UINT32 (sf37_kvstore_le_put32 w)) \<Longrightarrow> kv_u32 g k = Some w"
    "\<And>k b. map_of (gf_kvs f) k = Some (Scalar GGUF_VALUE_BOOL [b]) \<Longrightarrow> kv_bool g k = Some (b \<noteq> 0)"
    "\<And>name t. List.find (\<lambda>t. ts_name t = name) (gf_tensors f) = Some t \<Longrightarrow>
       \<exists>t'. find_tensor g name = Some t' \<and> tn_dim t' = ts_dim t \<and> tn_type t' = ts_type t"
proof -
  note l = image_lookups [OF assms, of "\<lambda>_. True", simplified simp_thms, OF TrueI]
  from l obtain g where "gguf_open (\<lambda>_. True) (Some (gguf_image f)) = Inr g"
    and a: "\<forall>k s. map_of (gf_kvs f) k = Some (Str s) \<longrightarrow> kv_string g k = Some s"
    and b: "\<forall>k w. map_of (gf_kvs f) k = Some (Scalar GGUF_VALUE_UINT32 (sf37_kvstore_le_put32 w)) \<longrightarrow> kv_u32 g k = Some w"
    and c: "\<forall>k b. map_of (gf_kvs f) k = Some (Scalar GGUF_VALUE_BOOL [b]) \<longrightarrow> kv_bool g k = Some (b \<noteq> 0)"
    and d: "\<forall>name t. List.find (\<lambda>t. ts_name t = name) (gf_tensors f) = Some t \<longrightarrow>
       (\<exists>t'. find_tensor g name = Some t' \<and> tn_dim t' = ts_dim t \<and> tn_type t' = ts_type t \<and>
          take (unat (ts_nbytes t)) (tensor_data g t') =
            take (unat (ts_nbytes t)) (drop (unat (ts_offset t)) (gf_data f)))"
    by (elim exE conjE)
  then show thesis
    by (intro that [of g]) blast+
qed

lemma model_file_binds:
  "\<exists>g e. gguf_open (\<lambda>_. True) (Some (gguf_image model_file)) = Inr g \<and> bind_model (engine_of_gguf g) = Inr e"
proof -
  have fields: "gf_kvs model_file = tool_kvs [] no_imatrix" "gf_tensors model_file = map req_spec model_requirements"
    by (simp_all add: model_file_def)
  obtain g where g: "gguf_open (\<lambda>_. True) (Some (gguf_image model_file)) = Inr g"
    "\<And>k s. map_of (tool_kvs [] no_imatrix) k = Some (Str s) \<Longrightarrow> kv_string g k = Some s"
    "\<And>k w. map_of (tool_kvs [] no_imatrix) k = Some (Scalar GGUF_VALUE_UINT32 (sf37_kvstore_le_put32 w)) \<Longrightarrow> kv_u32 g k = Some w"
    "\<And>k b. map_of (tool_kvs [] no_imatrix) k = Some (Scalar GGUF_VALUE_BOOL [b]) \<Longrightarrow> kv_bool g k = Some (b \<noteq> 0)"
    "\<And>name t. List.find (\<lambda>t. ts_name t = name) (map req_spec model_requirements) = Some t \<Longrightarrow>
       \<exists>t'. find_tensor g name = Some t' \<and> tn_dim t' = ts_dim t \<and> tn_type t' = ts_type t"
    by (rule image_opens [OF model_file_ok, unfolded fields]) (rule that)
  have "available g r" if "r \<in> set model_requirements" for r
  proof (cases r)
    case (fields name t d)
    show ?thesis
      using g(5) [OF find_requirement [OF requirements_distinct that [unfolded fields]]]
      by (auto simp: available_def fields req_spec_def req_type_def split: option.splits)
  qed
  moreover have "validate_metadata e = Inr e" if "en_gguf e = g" for e
  proof -
    have "validate_metadata (engine_of_gguf g) = Inr (engine_of_gguf g)"
      by (rule tool_metadata_valid [OF g(2-4)])
    then show ?thesis
      unfolding validate_metadata_def Let_def check_metadata_steps
      by (simp add: engine_of_gguf_def that split: if_splits)
  qed
  ultimately have "\<exists>e. bind_model (engine_of_gguf g) = Inr e"
    by (intro bind_model_complete) blast+
  then show ?thesis
    using g(1) by blast
qed

subsection \<open>Properties\<close>

text \<open>C5: whatever bytes a model file holds, once it is opened and its tensors are bound, every
  byte the CPU path reads lies inside the file: the rows of each layer's matrices, every
  expert's slices, the embedding row of every token of the vocabulary, and the output head.\<close>

theorem model_reads_in_bounds:
  assumes "gguf_open mem (Some data) = Inr g" and "length data < 2 ^ 63" and "bind_model (engine_of_gguf g) = Inr e"
  shows "en_gguf e = g \<and> gg_map g = data \<and>
    (\<forall>il<SF37_MAIN_LAYERS. run_layer_reads_ok g il (en_layer e ! il)) \<and> output_reads_ok g e \<and>
    (\<forall>token. 0 \<le> token \<and> token < int SF37_VOCAB \<longrightarrow> embed_read_ok g (en_embed_tokens e) token)"
proof -
  have ok: "mapped_ok g" "gg_map g = data"
    using opened_tensors [OF assms(1,2)] assms(2) by (simp_all add: mapped_ok_def)
  have e: "engine_bound g e"
    by (rule bind_model_sound [OF assms(3)])
  have "output_reads_ok g e"
    using e bf16_read [OF ok(1)] by (simp add: engine_bound_def output_reads_ok_def)
  moreover have "embed_read_ok g (en_embed_tokens e) token" if "0 \<le> token" "token < int SF37_VOCAB" for token
    using e embed_read [OF _ ok(1) that] by (simp add: engine_bound_def)
  ultimately show ?thesis
    using e layer_reads [OF _ ok(1)] ok(2) by (simp add: engine_bound_def)
qed

theorem model_reads_in_bounds_witness:
  "\<exists>g e. gguf_open (\<lambda>_. True) (Some (gguf_image model_file)) = Inr g \<and> bind_model (engine_of_gguf g) = Inr e \<and>
     (\<forall>il<SF37_MAIN_LAYERS. run_layer_reads_ok g il (en_layer e ! il))"
proof -
  obtain g e where ge: "gguf_open (\<lambda>_. True) (Some (gguf_image model_file)) = Inr g" "bind_model (engine_of_gguf g) = Inr e"
    using model_file_binds by blast
  have "length (gguf_image model_file) < 2 ^ 63"
    using model_file_ok by (simp add: gguf_file_ok_def)
  from model_reads_in_bounds [OF ge(1) this ge(2)] show ?thesis
    using ge by blast
qed

end
