(* ===== verification/Numeric.thy ===== *)
theory Numeric
  imports Complex_Main SessionSnapshot "HOL-Library.Monad_Syntax"
begin

section \<open>Block formats and vector operations\<close>

text \<open>
  \<open>sf37_quant.c\<close> and \<open>sf37_ops.c\<close>: half-precision and bfloat16 conversion, the Q8_0 block and
  the two asymmetric block formats, and the vector operations of the CPU path. A \<open>float\<close> and a
  \<open>double\<close> are their bit patterns. The conversions, the sign operations and the comparisons are
  exact; the rounding operations and the functions of \<open>libm\<close> are the fields of a record, applied
  in the order of the source (the build allows the compiler to reassociate them). A pointer is
  the bytes from it on, and a loop that fills an array is the list of its elements.
\<close>

subsection \<open>Floating point\<close>

record fpu = fp32 +
  fp_add :: "u32 \<Rightarrow> u32 \<Rightarrow> u32"
  fp_sub :: "u32 \<Rightarrow> u32 \<Rightarrow> u32"
  fp_sqrt :: "u32 \<Rightarrow> u32"
  fp_exp :: "u32 \<Rightarrow> u32"
  fp_cos :: "u32 \<Rightarrow> u32"
  fp_sin :: "u32 \<Rightarrow> u32"
  f_to_d :: "u32 \<Rightarrow> u64"
  d_to_f :: "u64 \<Rightarrow> u32"
  d_of_int :: "int \<Rightarrow> u64"
  d_add :: "u64 \<Rightarrow> u64 \<Rightarrow> u64"
  d_sub :: "u64 \<Rightarrow> u64 \<Rightarrow> u64"
  d_mul :: "u64 \<Rightarrow> u64 \<Rightarrow> u64"
  d_div :: "u64 \<Rightarrow> u64 \<Rightarrow> u64"
  d_pow :: "u64 \<Rightarrow> u64 \<Rightarrow> u64"

definition f32_one :: u32 where "f32_one = 0x3f800000"

definition f32_neg :: "u32 \<Rightarrow> u32" where
  "f32_neg v = v XOR 0x80000000"

definition f32_ge :: "u32 \<Rightarrow> u32 \<Rightarrow> bool" where
  "f32_ge a b \<longleftrightarrow> \<not> f32_is_nan a \<and> \<not> f32_is_nan b \<and> f32_key a \<ge> f32_key b"

definition f32_eq :: "u32 \<Rightarrow> u32 \<Rightarrow> bool" where
  "f32_eq a b \<longleftrightarrow> \<not> f32_is_nan a \<and> \<not> f32_is_nan b \<and> f32_key a = f32_key b"

text \<open>The order of \<open>double\<close> patterns.\<close>

definition d_is_nan :: "u64 \<Rightarrow> bool" where
  "d_is_nan w \<longleftrightarrow> w AND 0x7fffffffffffffff > 0x7ff0000000000000"

definition d_key :: "u64 \<Rightarrow> int" where
  "d_key w = (if bit w 63 then - uint (w AND 0x7fffffffffffffff) else uint (w AND 0x7fffffffffffffff))"

definition d_gt :: "u64 \<Rightarrow> u64 \<Rightarrow> bool" where
  "d_gt a b \<longleftrightarrow> \<not> d_is_nan a \<and> \<not> d_is_nan b \<and> d_key a > d_key b"

text \<open>The loop that normalises a denormal half. It need not end; the counter wraps.\<close>

partial_function (option) f16_normalize :: "u32 \<Rightarrow> u32 \<Rightarrow> (u32 \<times> u32) option" where
  [code]: "f16_normalize mant ex =
     (if mant AND 0x0400 = 0 then f16_normalize (push_bit 1 mant) (ex - 1) else Some (mant, ex))"

definition sf37_f16_to_f32 :: "u16 \<Rightarrow> u32 option" where
  "sf37_f16_to_f32 h =
     (let sign = push_bit 16 (ucast (h AND 0x8000));
          ex = ucast (drop_bit 10 h) AND 0x1f;
          mant = ucast (h AND 0x03ff)
      in if ex = 0 then
           (if mant = 0 then Some sign
            else do { (mant, ex) \<leftarrow> f16_normalize mant 1;
                      Some (sign OR push_bit 23 (ex + 112) OR push_bit 13 (mant AND 0x03ff)) })
         else if ex = 31 then Some (sign OR 0x7f800000 OR push_bit 13 mant)
         else Some (sign OR push_bit 23 (ex + 112) OR push_bit 13 mant))"

definition sf37_bf16_to_f32 :: "u16 \<Rightarrow> u32" where
  "sf37_bf16_to_f32 h = push_bit 16 (ucast h)"

definition read_u16le :: "bytes \<Rightarrow> u16" where
  "read_u16le p = ucast (p ! 0) OR push_bit 8 (ucast (p ! 1))"

text \<open>The scale of a block. The conversion always returns (\<open>f16_to_f32_exact\<close> below).\<close>

definition block_scale :: "bytes \<Rightarrow> u32" where
  "block_scale p = the (sf37_f16_to_f32 (read_u16le p))"

subsection \<open>Blocks\<close>

definition Q8_LEN :: nat where "Q8_LEN = 32"
definition GROUP_LEN :: nat where "GROUP_LEN = 64"
definition SF37_Q8_BLOCK_SIZE :: nat where "SF37_Q8_BLOCK_SIZE = 34"
definition SF37_Q3_BLOCK_SIZE :: nat where "SF37_Q3_BLOCK_SIZE = 110"
definition SF37_Q2_BLOCK_SIZE :: nat where "SF37_Q2_BLOCK_SIZE = 84"

text \<open>A signed byte.\<close>

definition i8 :: "byte \<Rightarrow> int" where
  "i8 b = sint b"

definition q3_get :: "bytes \<Rightarrow> nat \<Rightarrow> u32" where
  "q3_get p i =
     (let b = i * 3; k = b div 8; shift = b mod 8;
          v = ucast (drop_bit shift (p ! k));
          v = (if shift > 5 then v OR push_bit (8 - shift) (ucast (p ! (k + 1))) else v)
      in v AND 7)"

definition q2_get :: "bytes \<Rightarrow> nat \<Rightarrow> u32" where
  "q2_get p i = ucast (drop_bit (i mod 4 * 2) (p ! (i div 4))) AND 3"

definition sf37_q8_0_block_decode :: "('a) fpu_scheme \<Rightarrow> bytes \<Rightarrow> frow" where
  "sf37_q8_0_block_decode fp block =
     (let scale = block_scale block; qs = drop 2 block
      in map (\<lambda>i. fp_mul fp (fp_of_int fp (i8 (qs ! i))) scale) [0..<Q8_LEN])"

definition sf37_q8_0_block_dot :: "('a) fpu_scheme \<Rightarrow> bytes \<Rightarrow> frow \<Rightarrow> u32" where
  "sf37_q8_0_block_dot fp block x =
     (let scale = block_scale block; qs = drop 2 block
      in foldl (\<lambda>sum i. fp_add fp sum (fp_mul fp (fp_mul fp (fp_of_int fp (i8 (qs ! i))) scale) (x ! i)))
           0 [0..<Q8_LEN])"

text \<open>One weight of an asymmetric block: the difference to the zero point, scaled.\<close>

definition asym_weight :: "('a) fpu_scheme \<Rightarrow> u32 \<Rightarrow> u32 \<Rightarrow> u32 \<Rightarrow> u32" where
  "asym_weight fp scale zp q = fp_mul fp (fp_sub fp (fp_of_int fp (uint q)) (fp_of_int fp (uint zp))) scale"

definition sf37_q3_asym_block_decode :: "('a) fpu_scheme \<Rightarrow> bytes \<Rightarrow> frow" where
  "sf37_q3_asym_block_decode fp block =
     concat (map (\<lambda>g. let scale = block_scale (drop (g * 2) block);
                         zp = ucast (block ! (8 + g)) AND 7;
                         qs = drop (12 + g * 24) block
                     in map (\<lambda>i. asym_weight fp scale zp (q3_get qs i)) [0..<GROUP_LEN]) [0..<4])"

definition sf37_q2_asym_block_decode :: "('a) fpu_scheme \<Rightarrow> bytes \<Rightarrow> frow" where
  "sf37_q2_asym_block_decode fp block =
     concat (map (\<lambda>g. let scale = block_scale (drop (g * 2) block);
                         zp = ucast (block ! (8 + g)) AND 3;
                         qs = drop (12 + g * 16) block
                     in map (\<lambda>i. asym_weight fp scale zp (q2_get qs i)) [0..<GROUP_LEN]) [0..<4])"

definition sf37_q3_asym_block_dot :: "('a) fpu_scheme \<Rightarrow> bytes \<Rightarrow> frow \<Rightarrow> u32" where
  "sf37_q3_asym_block_dot fp block x256 =
     foldl (\<lambda>sum g. let scale = block_scale (drop (g * 2) block);
                       zp = ucast (block ! (8 + g)) AND 7;
                       qs = drop (12 + g * 24) block;
                       x = drop (g * GROUP_LEN) x256
                   in foldl (\<lambda>sum i. fp_add fp sum (fp_mul fp (asym_weight fp scale zp (q3_get qs i)) (x ! i)))
                        sum [0..<GROUP_LEN]) 0 [0..<4]"

definition sf37_q2_asym_block_dot :: "('a) fpu_scheme \<Rightarrow> bytes \<Rightarrow> frow \<Rightarrow> u32" where
  "sf37_q2_asym_block_dot fp block x256 =
     foldl (\<lambda>sum g. let scale = block_scale (drop (g * 2) block);
                       zp = ucast (block ! (8 + g)) AND 3;
                       qs = drop (12 + g * 16) block;
                       x = drop (g * GROUP_LEN) x256
                   in foldl (\<lambda>sum i. fp_add fp sum (fp_mul fp (asym_weight fp scale zp (q2_get qs i)) (x ! i)))
                        sum [0..<GROUP_LEN]) 0 [0..<4]"

subsection \<open>Vector operations\<close>

definition sf37_sigmoid :: "('a) fpu_scheme \<Rightarrow> u32 \<Rightarrow> u32" where
  "sf37_sigmoid fp x =
     (if f32_ge x 0
      then let z = fp_exp fp (f32_neg x) in fp_div fp f32_one (fp_add fp f32_one z)
      else let z = fp_exp fp x in fp_div fp z (fp_add fp f32_one z))"

definition sf37_silu :: "('a) fpu_scheme \<Rightarrow> u32 \<Rightarrow> u32" where
  "sf37_silu fp x = fp_mul fp x (sf37_sigmoid fp x)"

definition sf37_rms_norm_weight1 :: "('a) fpu_scheme \<Rightarrow> frow \<Rightarrow> frow \<Rightarrow> nat \<Rightarrow> u32 \<Rightarrow> frow" where
  "sf37_rms_norm_weight1 fp x weight n eps =
     (let ss = foldl (\<lambda>ss i. d_add fp ss (d_mul fp (f_to_d fp (x ! i)) (f_to_d fp (x ! i)))) 0 [0..<n];
          scale = fp_div fp f32_one
                    (fp_sqrt fp (fp_add fp (d_to_f fp (d_div fp ss (d_of_int fp (int n)))) eps))
      in map (\<lambda>i. fp_mul fp (fp_mul fp (x ! i) scale) (fp_add fp (weight ! i) f32_one)) [0..<n])"

definition sf37_swiglu :: "('a) fpu_scheme \<Rightarrow> frow \<Rightarrow> frow \<Rightarrow> nat \<Rightarrow> u32 \<Rightarrow> frow" where
  "sf37_swiglu fp gate up n clamp =
     map (\<lambda>i. let g = gate ! i; u = up ! i;
                 (g, u) = (if f32_gt clamp 0x358637bd
                           then let g = (if f32_gt g clamp then clamp else g);
                                    u = (if f32_gt u clamp then clamp else u);
                                    u = (if f32_gt (f32_neg clamp) u then f32_neg clamp else u)
                                in (g, u)
                           else (g, u))
             in fp_mul fp (sf37_silu fp g) u) [0..<n]"

text \<open>One candidate of \<open>sf37_topk_desc\<close>: the entries from its place on move down one, and the
  last is lost.\<close>

fun topk_insert :: "frow \<Rightarrow> nat \<Rightarrow> int list \<Rightarrow> int list" where
  "topk_insert score i [] = []"
| "topk_insert score i (j # js) =
     (if j < 0 \<or> f32_gt (score ! i) (score ! nat j)
      then int i # butlast (j # js)
      else j # topk_insert score i js)"

definition sf37_topk_desc :: "frow \<Rightarrow> nat \<Rightarrow> nat \<Rightarrow> int list" where
  "sf37_topk_desc score n k = foldl (\<lambda>idx i. topk_insert score i idx) (replicate k (-1)) [0..<n]"

text \<open>Quantising an activation: the scale and the 32 bytes of each block. Of a block past the
  end only the elements below \<open>n\<close> are read, the rest is 0.\<close>

definition activation_amax :: "frow \<Rightarrow> nat \<Rightarrow> nat \<Rightarrow> u32" where
  "activation_amax x off len =
     foldl (\<lambda>amax i. let ax = f32_abs (x ! (off + i)) in if f32_gt ax amax then ax else amax) 0 [0..<len]"

definition activation_i8 :: "('a) fpu_scheme \<Rightarrow> u32 \<Rightarrow> u32 \<Rightarrow> byte" where
  "activation_i8 fp iscale x =
     (let v = sint (of_int (fp_lrint fp (fp_mul fp iscale x)) :: u32);
          v = (if v > 127 then 127 else v);
          v = (if v < -128 then -128 else v)
      in of_int v)"

definition quantize_block :: "('a) fpu_scheme \<Rightarrow> frow \<Rightarrow> nat \<Rightarrow> nat \<Rightarrow> u32 \<times> bytes" where
  "quantize_block fp x n b =
     (let off = b * Q8_LEN; len = min (n - off) Q8_LEN; amax = activation_amax x off len
      in if f32_eq amax 0 then (0, replicate Q8_LEN 0)
         else let d = fp_div fp amax 0x42fe0000; iscale = fp_div fp f32_one d
              in (d, map (\<lambda>i. activation_i8 fp iscale (x ! (off + i))) [0..<len] @ replicate (Q8_LEN - len) 0))"

definition sf37_q8_0_quantize_activation :: "('a) fpu_scheme \<Rightarrow> frow \<Rightarrow> nat \<Rightarrow> bytes \<times> frow" where
  "sf37_q8_0_quantize_activation fp x n =
     (let blocks = map (quantize_block fp x n) [0..<(n + 31) div 32]
      in (concat (map snd blocks), map fst blocks))"

text \<open>The integer sum of a block stays below \<open>2 ^ 20\<close>, far inside \<open>int\<close>
  (\<open>block_isum_bound\<close>).\<close>

definition block_isum :: "bytes \<Rightarrow> bytes \<Rightarrow> nat \<Rightarrow> int" where
  "block_isum wq xq len = foldl (\<lambda>isum i. isum + i8 (wq ! i) * i8 (xq ! i)) 0 [0..<len]"

definition sf37_q8_0_row_dot_prequant :: "('a) fpu_scheme \<Rightarrow> bytes \<Rightarrow> bytes \<Rightarrow> frow \<Rightarrow> nat \<Rightarrow> u32" where
  "sf37_q8_0_row_dot_prequant fp row xq xscale in_dim =
     foldl (\<lambda>acc b. let block = drop (b * SF37_Q8_BLOCK_SIZE) row;
                       wscale = block_scale block;
                       len = min (in_dim - b * Q8_LEN) Q8_LEN;
                       isum = block_isum (drop 2 block) (drop (b * Q8_LEN) xq) len
                   in fp_add fp acc (fp_mul fp (fp_mul fp (fp_of_int fp isum) wscale) (xscale ! b)))
       0 [0..<(in_dim + 31) div 32]"

definition sf37_q8_0_matvec :: "('a) fpu_scheme \<Rightarrow> bytes \<Rightarrow> nat \<Rightarrow> nat \<Rightarrow> frow \<Rightarrow> frow" where
  "sf37_q8_0_matvec fp weights in_dim out_dim x =
     (let row_bytes = (in_dim + 31) div 32 * SF37_Q8_BLOCK_SIZE;
          (xq, xscale) = sf37_q8_0_quantize_activation fp x in_dim
      in map (\<lambda>r. sf37_q8_0_row_dot_prequant fp (drop (r * row_bytes) weights) xq xscale in_dim) [0..<out_dim])"

text \<open>Two products with one quantised activation, row by row.\<close>

definition sf37_q8_0_matvec_pair ::
  "('a) fpu_scheme \<Rightarrow> bytes \<Rightarrow> bytes \<Rightarrow> nat \<Rightarrow> nat \<Rightarrow> frow \<Rightarrow> frow \<times> frow" where
  "sf37_q8_0_matvec_pair fp w0 w1 in_dim out_dim x =
     (let row_bytes = (in_dim + 31) div 32 * SF37_Q8_BLOCK_SIZE;
          (xq, xscale) = sf37_q8_0_quantize_activation fp x in_dim;
          rows = map (\<lambda>r. (sf37_q8_0_row_dot_prequant fp (drop (r * row_bytes) w0) xq xscale in_dim,
                           sf37_q8_0_row_dot_prequant fp (drop (r * row_bytes) w1) xq xscale in_dim)) [0..<out_dim]
      in (map fst rows, map snd rows))"

text \<open>The \<open>i\<close>-th 16-bit and 32-bit element of an array in memory.\<close>

definition u16_at :: "bytes \<Rightarrow> nat \<Rightarrow> u16" where
  "u16_at p i = read_u16le (drop (2 * i) p)"

definition u32_at :: "bytes \<Rightarrow> nat \<Rightarrow> u32" where
  "u32_at p i = host_get_u32 (drop (4 * i) p)"

definition sf37_bf16_matvec :: "('a) fpu_scheme \<Rightarrow> bytes \<Rightarrow> nat \<Rightarrow> nat \<Rightarrow> frow \<Rightarrow> frow" where
  "sf37_bf16_matvec fp weights in_dim out_dim x =
     map (\<lambda>r. d_to_f fp (foldl (\<lambda>acc i. d_add fp acc
               (d_mul fp (f_to_d fp (sf37_bf16_to_f32 (u16_at weights (r * in_dim + i)))) (f_to_d fp (x ! i))))
             0 [0..<in_dim])) [0..<out_dim]"

definition asym_row_dot :: "('a) fpu_scheme \<Rightarrow> (bytes \<Rightarrow> frow \<Rightarrow> u32) \<Rightarrow> nat \<Rightarrow> bytes \<Rightarrow> nat \<Rightarrow> frow \<Rightarrow> u32" where
  "asym_row_dot fp block_dot block_bytes row blocks x =
     foldl (\<lambda>acc b. fp_add fp acc (block_dot (drop (b * block_bytes) row) (drop (b * 256) x))) 0 [0..<blocks]"

definition sf37_q3_asym_matvec :: "('a) fpu_scheme \<Rightarrow> bytes \<Rightarrow> nat \<Rightarrow> nat \<Rightarrow> frow \<Rightarrow> frow" where
  "sf37_q3_asym_matvec fp weights in_dim out_dim x =
     (let blocks = in_dim div 256; row_bytes = blocks * SF37_Q3_BLOCK_SIZE
      in map (\<lambda>r. asym_row_dot fp (sf37_q3_asym_block_dot fp) SF37_Q3_BLOCK_SIZE (drop (r * row_bytes) weights) blocks x)
           [0..<out_dim])"

definition sf37_q2_asym_matvec :: "('a) fpu_scheme \<Rightarrow> bytes \<Rightarrow> nat \<Rightarrow> nat \<Rightarrow> frow \<Rightarrow> frow" where
  "sf37_q2_asym_matvec fp weights in_dim out_dim x =
     (let blocks = in_dim div 256; row_bytes = blocks * SF37_Q2_BLOCK_SIZE
      in map (\<lambda>r. asym_row_dot fp (sf37_q2_asym_block_dot fp) SF37_Q2_BLOCK_SIZE (drop (r * row_bytes) weights) blocks x)
           [0..<out_dim])"

subsection \<open>What the conversions and blocks read\<close>

text \<open>Two memories that agree on their first \<open>n\<close> bytes.\<close>

definition agree :: "nat \<Rightarrow> bytes \<Rightarrow> bytes \<Rightarrow> bool" where
  "agree n p q \<longleftrightarrow> n \<le> length p \<and> n \<le> length q \<and> take n p = take n q"

lemma agree_nth: "agree n p q \<Longrightarrow> k < n \<Longrightarrow> p ! k = q ! k"
  unfolding agree_def by (metis nth_take)

lemma agree_drop:
  assumes "agree n p q" and "k + m \<le> n"
  shows "agree m (drop k p) (drop k q)"
proof -
  have "take (m + k) (take n p) = take (m + k) (take n q)"
    using assms(1) by (simp only: agree_def)
  then show ?thesis
    using assms by (simp add: agree_def take_drop) linarith
qed

lemma agree_mono: "agree n p q \<Longrightarrow> m \<le> n \<Longrightarrow> agree m p q"
  using agree_drop [of n p q 0 m] by simp

lemma u16_agree: "agree 2 p q \<Longrightarrow> read_u16le p = read_u16le q"
  by (simp add: read_u16le_def agree_nth [of 2])

lemma scale_agree: "agree 2 p q \<Longrightarrow> block_scale p = block_scale q"
  by (simp add: block_scale_def u16_agree)

lemma q3_get_agree:
  assumes "agree 24 p q" and "i < GROUP_LEN"
  shows "q3_get p i = q3_get q i"
proof -
  have i: "3 * i \<le> 189"
    using assms(2) by (simp add: GROUP_LEN_def)
  then have k: "3 * i div 8 \<le> 23"
    using div_le_mono [OF i, of 8] by simp
  have e: "3 * i = 8 * (3 * i div 8) + 3 * i mod 8"
    by simp
  have "3 * i div 8 + 1 < 24" if "3 * i mod 8 > 5"
    using i k e that by linarith
  then show ?thesis
    using k by (simp add: q3_get_def Let_def agree_nth [OF assms(1)] mult.commute)
qed

lemma q2_get_agree: "agree 16 p q \<Longrightarrow> i < GROUP_LEN \<Longrightarrow> q2_get p i = q2_get q i"
  by (simp add: q2_get_def GROUP_LEN_def agree_nth [of 16] less_mult_imp_div_less)

lemma foldl_eq_on: "(\<And>s i. i \<in> set is \<Longrightarrow> f s i = g s i) \<Longrightarrow> foldl f s is = foldl g s is"
  by (induction "is" arbitrary: s) simp_all

lemma q3_dot_agree:
  assumes "agree SF37_Q3_BLOCK_SIZE b c"
  shows "sf37_q3_asym_block_dot fp b x = sf37_q3_asym_block_dot fp c x"
  unfolding sf37_q3_asym_block_dot_def
proof (rule foldl_eq_on)
  fix s g assume "g \<in> set [0..<4::nat]"
  then have g: "g \<le> 3"
    by simp
  have a: "agree 110 b c"
    using assms by (simp add: SF37_Q3_BLOCK_SIZE_def)
  have "block_scale (drop (g * 2) b) = block_scale (drop (g * 2) c)"
    by (rule scale_agree [OF agree_drop [OF a]]) (use g in simp)
  moreover have "b ! (8 + g) = c ! (8 + g)"
    by (rule agree_nth [OF a]) (use g in simp)
  moreover have q: "agree 24 (drop (12 + g * 24) b) (drop (12 + g * 24) c)"
    by (rule agree_drop [OF a]) (use g in simp)
  ultimately show "(let scale = block_scale (drop (g * 2) b); zp = ucast (b ! (8 + g)) AND 7;
        qs = drop (12 + g * 24) b; x = drop (g * GROUP_LEN) x
      in foldl (\<lambda>sum i. fp_add fp sum (fp_mul fp (asym_weight fp scale zp (q3_get qs i)) (x ! i))) s [0..<GROUP_LEN]) =
    (let scale = block_scale (drop (g * 2) c); zp = ucast (c ! (8 + g)) AND 7;
        qs = drop (12 + g * 24) c; x = drop (g * GROUP_LEN) x
      in foldl (\<lambda>sum i. fp_add fp sum (fp_mul fp (asym_weight fp scale zp (q3_get qs i)) (x ! i))) s [0..<GROUP_LEN])"
    unfolding Let_def by (intro foldl_eq_on) (simp add: q3_get_agree [OF q])
qed

lemma q2_dot_agree:
  assumes "agree SF37_Q2_BLOCK_SIZE b c"
  shows "sf37_q2_asym_block_dot fp b x = sf37_q2_asym_block_dot fp c x"
  unfolding sf37_q2_asym_block_dot_def
proof (rule foldl_eq_on)
  fix s g assume "g \<in> set [0..<4::nat]"
  then have g: "g \<le> 3"
    by simp
  have a: "agree 84 b c"
    using assms by (simp add: SF37_Q2_BLOCK_SIZE_def)
  have "block_scale (drop (g * 2) b) = block_scale (drop (g * 2) c)"
    by (rule scale_agree [OF agree_drop [OF a]]) (use g in simp)
  moreover have "b ! (8 + g) = c ! (8 + g)"
    by (rule agree_nth [OF a]) (use g in simp)
  moreover have q: "agree 16 (drop (12 + g * 16) b) (drop (12 + g * 16) c)"
    by (rule agree_drop [OF a]) (use g in simp)
  ultimately show "(let scale = block_scale (drop (g * 2) b); zp = ucast (b ! (8 + g)) AND 3;
        qs = drop (12 + g * 16) b; x = drop (g * GROUP_LEN) x
      in foldl (\<lambda>sum i. fp_add fp sum (fp_mul fp (asym_weight fp scale zp (q2_get qs i)) (x ! i))) s [0..<GROUP_LEN]) =
    (let scale = block_scale (drop (g * 2) c); zp = ucast (c ! (8 + g)) AND 3;
        qs = drop (12 + g * 16) c; x = drop (g * GROUP_LEN) x
      in foldl (\<lambda>sum i. fp_add fp sum (fp_mul fp (asym_weight fp scale zp (q2_get qs i)) (x ! i))) s [0..<GROUP_LEN])"
    unfolding Let_def by (intro foldl_eq_on) (simp add: q2_get_agree [OF q])
qed

subsection \<open>What the products read\<close>

lemma isum_agree: "agree len p q \<Longrightarrow> block_isum p xq len = block_isum q xq len"
  unfolding block_isum_def by (rule foldl_eq_on) (simp add: agree_nth [of len])

lemma row_slot: "(r::nat) < n \<Longrightarrow> r * k + k \<le> n * k"
  by (metis Suc_leI mult.commute mult_Suc_right add.commute mult_le_mono2)

lemma q8_row_agree:
  assumes "agree ((in_dim + 31) div 32 * SF37_Q8_BLOCK_SIZE) p q"
  shows "sf37_q8_0_row_dot_prequant fp p xq xs in_dim = sf37_q8_0_row_dot_prequant fp q xq xs in_dim"
  unfolding sf37_q8_0_row_dot_prequant_def
proof (rule foldl_eq_on)
  fix s b assume "b \<in> set [0..<(in_dim + 31) div 32]"
  then have "agree SF37_Q8_BLOCK_SIZE (drop (b * SF37_Q8_BLOCK_SIZE) p) (drop (b * SF37_Q8_BLOCK_SIZE) q)"
    by (intro agree_drop [OF assms] row_slot) simp
  then have a: "agree 34 (drop (b * SF37_Q8_BLOCK_SIZE) p) (drop (b * SF37_Q8_BLOCK_SIZE) q)"
    by (simp only: SF37_Q8_BLOCK_SIZE_def)
  let ?len = "min (in_dim - b * Q8_LEN) Q8_LEN"
  have "agree ?len (drop 2 (drop (b * SF37_Q8_BLOCK_SIZE) p)) (drop 2 (drop (b * SF37_Q8_BLOCK_SIZE) q))"
    by (rule agree_drop [OF a]) (simp add: Q8_LEN_def)
  from isum_agree [OF this] scale_agree [OF agree_mono [OF a, of 2]]
  show "(let block = drop (b * SF37_Q8_BLOCK_SIZE) p; wscale = block_scale block; len = ?len;
           isum = block_isum (drop 2 block) (drop (b * Q8_LEN) xq) len
         in fp_add fp s (fp_mul fp (fp_mul fp (fp_of_int fp isum) wscale) (xs ! b))) =
        (let block = drop (b * SF37_Q8_BLOCK_SIZE) q; wscale = block_scale block; len = ?len;
           isum = block_isum (drop 2 block) (drop (b * Q8_LEN) xq) len
         in fp_add fp s (fp_mul fp (fp_mul fp (fp_of_int fp isum) wscale) (xs ! b)))"
    by (simp only: Let_def)
qed

lemma q8_matvec_agree:
  assumes "agree (out_dim * ((in_dim + 31) div 32 * SF37_Q8_BLOCK_SIZE)) p q"
  shows "sf37_q8_0_matvec fp p in_dim out_dim x = sf37_q8_0_matvec fp q in_dim out_dim x"
proof -
  have "sf37_q8_0_row_dot_prequant fp (drop (r * ((in_dim + 31) div 32 * SF37_Q8_BLOCK_SIZE)) p) xq xs in_dim =
      sf37_q8_0_row_dot_prequant fp (drop (r * ((in_dim + 31) div 32 * SF37_Q8_BLOCK_SIZE)) q) xq xs in_dim"
    if "r < out_dim" for r xq xs
    by (rule q8_row_agree [OF agree_drop [OF assms row_slot [OF that]]])
  then show ?thesis
    by (simp add: sf37_q8_0_matvec_def Let_def split: prod.split)
qed

text \<open>The pair of products is the two products.\<close>

lemma matvec_pair_eq:
  "sf37_q8_0_matvec_pair fp w0 w1 in_dim out_dim x =
     (sf37_q8_0_matvec fp w0 in_dim out_dim x, sf37_q8_0_matvec fp w1 in_dim out_dim x)"
  by (simp add: sf37_q8_0_matvec_pair_def sf37_q8_0_matvec_def Let_def split: prod.split)

lemma bf16_matvec_agree:
  assumes "agree (2 * (out_dim * in_dim)) p q"
  shows "sf37_bf16_matvec fp p in_dim out_dim x = sf37_bf16_matvec fp q in_dim out_dim x"
proof -
  have "u16_at p (r * in_dim + i) = u16_at q (r * in_dim + i)" if "r < out_dim" "i < in_dim" for r i
  proof -
    have "r * in_dim + i < out_dim * in_dim"
      using row_slot [OF that(1), of in_dim] that(2) by linarith
    then show ?thesis
      unfolding u16_at_def by (intro u16_agree agree_drop [OF assms]) simp
  qed
  then show ?thesis
    by (auto simp: sf37_bf16_matvec_def intro!: arg_cong [where f = "d_to_f fp"] foldl_eq_on)
qed

lemma asym_row_agree:
  assumes "agree (blocks * k) p q" and "\<And>b c y. agree k b c \<Longrightarrow> dot b y = dot c y"
  shows "asym_row_dot fp dot k p blocks x = asym_row_dot fp dot k q blocks x"
  unfolding asym_row_dot_def
proof (rule foldl_eq_on)
  fix s b assume "b \<in> set [0..<blocks]"
  then have "agree k (drop (b * k) p) (drop (b * k) q)"
    by (intro agree_drop [OF assms(1)] row_slot) simp
  then show "fp_add fp s (dot (drop (b * k) p) (drop (b * 256) x)) = fp_add fp s (dot (drop (b * k) q) (drop (b * 256) x))"
    by (simp add: assms(2))
qed

lemma q3_matvec_agree:
  assumes "agree (out_dim * (in_dim div 256 * SF37_Q3_BLOCK_SIZE)) p q"
  shows "sf37_q3_asym_matvec fp p in_dim out_dim x = sf37_q3_asym_matvec fp q in_dim out_dim x"
  unfolding sf37_q3_asym_matvec_def Let_def
  by (rule map_cong [OF refl], rule asym_row_agree [OF agree_drop [OF assms row_slot] q3_dot_agree]) auto

lemma q2_matvec_agree:
  assumes "agree (out_dim * (in_dim div 256 * SF37_Q2_BLOCK_SIZE)) p q"
  shows "sf37_q2_asym_matvec fp p in_dim out_dim x = sf37_q2_asym_matvec fp q in_dim out_dim x"
  unfolding sf37_q2_asym_matvec_def Let_def
  by (rule map_cong [OF refl], rule asym_row_agree [OF agree_drop [OF assms row_slot] q2_dot_agree]) auto

subsection \<open>Sizes\<close>

lemma length_matvecs [simp]:
  "length (sf37_q8_0_matvec fp w i n x) = n" "length (sf37_bf16_matvec fp w i n x) = n"
  "length (sf37_q3_asym_matvec fp w i n x) = n" "length (sf37_q2_asym_matvec fp w i n x) = n"
  "length (sf37_rms_norm_weight1 fp x y n eps) = n" "length (sf37_swiglu fp g u n c) = n"
  by (simp_all add: sf37_q8_0_matvec_def sf37_bf16_matvec_def sf37_q3_asym_matvec_def sf37_q2_asym_matvec_def
      sf37_rms_norm_weight1_def sf37_swiglu_def Let_def split: prod.split)

lemma length_quantize_block [simp]: "length (snd (quantize_block fp x n b)) = Q8_LEN"
  by (simp add: quantize_block_def Let_def)

lemma length_activation:
  "length (fst (sf37_q8_0_quantize_activation fp x n)) = (n + 31) div 32 * Q8_LEN"
  "length (snd (sf37_q8_0_quantize_activation fp x n)) = (n + 31) div 32"
  by (simp_all add: sf37_q8_0_quantize_activation_def Let_def length_concat comp_def sum_list_triv)

lemma i8_bounds: "- 128 \<le> i8 b" "i8 b \<le> 127"
  using sint_greater_eq [of b] sint_less [of b] by (simp_all add: i8_def)

lemma block_isum_bound: "\<bar>block_isum wq xq len\<bar> \<le> int len * 16384"
proof (induction len)
  case (Suc n)
  have "\<bar>i8 a * i8 b\<bar> \<le> 128 * 128" for a b
    unfolding abs_mult using i8_bounds [of a] i8_bounds [of b] by (intro mult_mono) auto
  from this [of "wq ! n" "xq ! n"] show ?case
    using Suc by (simp add: block_isum_def)
qed (simp add: block_isum_def)

subsection \<open>Dot products are products with the decoded block\<close>

lemma concat_group_foldl:
  "foldl f s (concat (map (\<lambda>g. map (h g) is) gs)) = foldl (\<lambda>s g. foldl (\<lambda>s i. f s (h g i)) s is) s gs"
  by (induction gs arbitrary: s) (simp_all add: foldl_map)

lemma q8_0_dot_decode:
  "sf37_q8_0_block_dot fp b x =
     foldl (\<lambda>sum i. fp_add fp sum (fp_mul fp (sf37_q8_0_block_decode fp b ! i) (x ! i))) 0 [0..<Q8_LEN]"
  unfolding sf37_q8_0_block_dot_def sf37_q8_0_block_decode_def Let_def by (rule foldl_eq_on) simp

lemma nth_groups:
  assumes "g < n" and "i < m"
  shows "concat (map (\<lambda>g. map (h g) [0..<m]) [0..<n]) ! (g * m + i) = h g i"
  using assms
proof (induction n)
  case (Suc n)
  have len: "length (concat (map (\<lambda>g. map (h g) [0..<m]) [0..<n])) = n * m" for n
    by (simp add: length_concat comp_def sum_list_triv)
  show ?case
  proof (cases "g = n")
    case False
    then have "g * m + i < n * m"
      using Suc.prems row_slot [of g n m] by simp
    then show ?thesis
      using Suc False by (simp add: nth_append len)
  qed (use Suc.prems in \<open>simp add: nth_append len\<close>)
qed simp

lemma upt_groups: "[0..<n * m] = concat (map (\<lambda>g. map (\<lambda>i. g * m + i) [0..<m]) [0..<n])"
proof (induction n)
  case (Suc n)
  have "[n * m..<n * m + m] = map (\<lambda>i. n * m + i) [0..<m]"
    using map_add_upt [of "n * m" m] by (simp add: add.commute)
  then show ?case
    using Suc upt_add_eq_append [of 0 "n * m" m] by (simp add: add.commute)
qed simp

lemma asym_dot_groups:
  assumes "4 * GROUP_LEN \<le> length x"
  shows "foldl (\<lambda>s g. foldl (\<lambda>s i. fp_add fp s (fp_mul fp (h g i) (drop (g * GROUP_LEN) x ! i))) s [0..<GROUP_LEN]) 0 [0..<4] =
    foldl (\<lambda>s i. fp_add fp s (fp_mul fp (concat (map (\<lambda>g. map (h g) [0..<GROUP_LEN]) [0..<4]) ! i) (x ! i))) 0
      [0..<4 * GROUP_LEN]"
  unfolding upt_groups concat_group_foldl
proof (intro foldl_eq_on)
  fix s t g i assume "g \<in> set [0..<4::nat]" "i \<in> set [0..<GROUP_LEN]"
  then have gi: "g < 4" "i < GROUP_LEN"
    by simp_all
  have "g * GROUP_LEN \<le> length x"
    using row_slot [OF gi(1), of GROUP_LEN] assms by linarith
  then show "fp_add fp t (fp_mul fp (h g i) (drop (g * GROUP_LEN) x ! i)) =
      fp_add fp t (fp_mul fp (concat (map (\<lambda>g. map (h g) [0..<GROUP_LEN]) [0..<4]) ! (g * GROUP_LEN + i)) (x ! (g * GROUP_LEN + i)))"
    by (simp only: nth_groups [OF gi] nth_drop)
qed

lemma q3_dot_decode:
  assumes "4 * GROUP_LEN \<le> length x"
  shows "sf37_q3_asym_block_dot fp b x =
    foldl (\<lambda>s i. fp_add fp s (fp_mul fp (sf37_q3_asym_block_decode fp b ! i) (x ! i))) 0 [0..<4 * GROUP_LEN]"
  unfolding sf37_q3_asym_block_dot_def sf37_q3_asym_block_decode_def Let_def by (rule asym_dot_groups [OF assms])

lemma q2_dot_decode:
  assumes "4 * GROUP_LEN \<le> length x"
  shows "sf37_q2_asym_block_dot fp b x =
    foldl (\<lambda>s i. fp_add fp s (fp_mul fp (sf37_q2_asym_block_decode fp b ! i) (x ! i))) 0 [0..<4 * GROUP_LEN]"
  unfolding sf37_q2_asym_block_dot_def sf37_q2_asym_block_decode_def Let_def by (rule asym_dot_groups [OF assms])

subsection \<open>Half precision is converted exactly\<close>

text \<open>Fields and value of a half and of a single, as IEEE 754 defines them; the largest exponent
  stands for infinities and not-a-number.\<close>

definition f16_exp :: "u16 \<Rightarrow> nat" where "f16_exp h = unat (drop_bit 10 h AND 0x1f)"
definition f16_frac :: "u16 \<Rightarrow> nat" where "f16_frac h = unat (h AND 0x03ff)"
definition f32_exp :: "u32 \<Rightarrow> nat" where "f32_exp w = unat (drop_bit 23 w AND 0xff)"
definition f32_frac :: "u32 \<Rightarrow> nat" where "f32_frac w = unat (w AND 0x7fffff)"

definition f16_real :: "u16 \<Rightarrow> real" where
  "f16_real h = (if bit h 15 then - 1 else 1) *
     (if f16_exp h = 0 then real (f16_frac h) / 2 ^ 24 else (1 + real (f16_frac h) / 2 ^ 10) * 2 ^ f16_exp h / 2 ^ 15)"

definition f32_real :: "u32 \<Rightarrow> real" where
  "f32_real w = (if bit w 31 then - 1 else 1) *
     (if f32_exp w = 0 then real (f32_frac w) / 2 ^ 149 else (1 + real (f32_frac w) / 2 ^ 23) * 2 ^ f32_exp w / 2 ^ 127)"

lemma and_1024: "m < 2048 \<Longrightarrow> (of_nat m :: u32) AND 0x0400 = 0 \<longleftrightarrow> m < 1024"
proof -
  assume m: "m < 2048"
  have "bit (of_nat m :: u32) 10 \<longleftrightarrow> bit m 10"
    by (simp add: bit_of_nat_iff)
  also have "\<dots> \<longleftrightarrow> odd (m div 1024)"
    by (simp add: bit_iff_odd)
  also have "\<dots> \<longleftrightarrow> \<not> m < 1024"
    using m by (cases "m < 1024") (simp_all add: div_if)
  finally show ?thesis
    using and_exp_eq_0_iff_not_bit [of "of_nat m :: u32" 10] by simp
qed

lemma f16_normalize_steps:
  assumes "2 ^ j \<le> m" and "m < 2 ^ Suc j" and "j + k = 10"
  shows "f16_normalize (of_nat m) e = Some (of_nat (m * 2 ^ k), e - of_nat k)"
  using assms
proof (induction k arbitrary: m j e)
  case 0
  then show ?case
    using and_1024 [of m] by (simp add: f16_normalize.simps [of "of_nat m"])
next
  case (Suc k)
  have "m < 1024"
    using Suc.prems power_increasing [of "Suc j" 10 "2::nat"] by simp
  then have "f16_normalize (of_nat m) e = f16_normalize (of_nat (2 * m)) (e - 1)"
    using and_1024 [of m] by (simp add: f16_normalize.simps [of "of_nat m"] push_bit_eq_mult mult.commute)
  also have "\<dots> = Some (of_nat (2 * m * 2 ^ k), e - 1 - of_nat k)"
    by (rule Suc.IH [of "Suc j"]) (use Suc.prems in simp_all)
  finally show ?case
    by (simp add: algebra_simps)
qed

text \<open>The sign bit, and the fields of a packed single.\<close>

lemma f16_sign: "bit (push_bit 16 (ucast (h AND 0x8000)) :: u32) n \<longleftrightarrow> n = 31 \<and> bit h 15" for h :: u16
proof -
  have "bit (0x8000 :: u16) k \<longleftrightarrow> k = 15" for k
    using bit_exp_iff [of 15 k, where ?'a = u16] by auto
  then have "bit (h AND 0x8000) k \<longleftrightarrow> k = 15 \<and> bit h 15" for k
    by (simp only: bit_and_iff) blast
  then have "bit (push_bit 16 (ucast (h AND 0x8000)) :: u32) n \<longleftrightarrow> n < 32 \<and> 16 \<le> n \<and> n - 16 = 15 \<and> bit h 15"
    by (auto simp: bit_push_bit_iff bit_unsigned_iff)
  also have "\<dots> \<longleftrightarrow> n = 31 \<and> bit h 15"
    by linarith
  finally show ?thesis .
qed

lemma f32_pack:
  fixes s x y :: u32
  assumes "unat x < 256" and "unat y < 1024" and s: "\<And>n. bit s n \<longleftrightarrow> n = 31 \<and> sg"
  defines "w \<equiv> s OR push_bit 23 x OR push_bit 13 y"
  shows "f32_exp w = unat x" and "f32_frac w = unat y * 2 ^ 13" and "bit w 31 \<longleftrightarrow> sg"
proof -
  have le: "unat x < 2 ^ 8" "unat y < 2 ^ 10"
    using assms(1,2) by simp_all
  have x: "bit x n \<Longrightarrow> n < 8" and y: "bit y n \<Longrightarrow> n < 10" for n
    using word_less_exp_bit [OF le(1), of n] word_less_exp_bit [OF le(2), of n] not_le by blast+
  have masks: "(0xff :: u32) = mask 8" "(0x7fffff :: u32) = mask 23"
    by (simp_all add: mask_eq_exp_minus_1)
  have "drop_bit 23 w AND mask 8 = x"
  proof (rule bit_word_eqI)
    fix n assume "n < LENGTH(32)"
    then show "bit (drop_bit 23 w AND mask 8) n \<longleftrightarrow> bit x n"
      using x [of n] y [of "n + 10"] unfolding w_def by (auto simp: byte_word bit_mask_iff s add.commute)
  qed
  then show "f32_exp w = unat x"
    unfolding f32_exp_def masks by simp
  have "w AND mask 23 = push_bit 13 y"
  proof (rule bit_word_eqI)
    fix n assume "n < LENGTH(32)"
    then show "bit (w AND mask 23) n \<longleftrightarrow> bit (push_bit 13 y) n"
      using y [of "n - 13"] unfolding w_def by (auto simp: byte_word bit_mask_iff s)
  qed
  moreover have "unat (push_bit 13 y) = unat y * 2 ^ 13"
    using assms(2) by (simp add: push_bit_eq_mult unat_word_ariths)
  ultimately show "f32_frac w = unat y * 2 ^ 13"
    unfolding f32_frac_def masks by simp
  show "bit w 31 \<longleftrightarrow> sg"
    using x [of 8] y [of 18] unfolding w_def by (auto simp: byte_word s)
qed

lemma unat_and_mask:
  fixes w :: "'a::len word"
  assumes "c = mask n" and "n < LENGTH('a)"
  shows "unat (w AND c) < 2 ^ n"
  using assms unsigned_take_bit_eq [of n w, where ?'a = nat] by (simp add: take_bit_eq_mask [symmetric])

lemma f16_fields:
  "f16_exp h < 32" "f16_frac h < 1024"
  "unat (ucast (drop_bit 10 h) AND 0x1f :: u32) = f16_exp h" "unat (ucast (h AND 0x03ff) :: u32) = f16_frac h"
proof -
  have m: "(0x1f :: 'a::len word) = mask 5" "(0x3ff :: 'a::len word) = mask 10"
    by (simp_all add: mask_eq_exp_minus_1)
  show "f16_exp h < 32"
    using unat_and_mask [OF m(1), of "drop_bit 10 h"] by (simp add: f16_exp_def)
  show "f16_frac h < 1024"
    using unat_and_mask [OF m(2), of h] by (simp add: f16_frac_def)
  have "(ucast (drop_bit 10 h) AND 0x1f :: u32) = ucast (drop_bit 10 h AND 0x1f)"
    by (simp add: unsigned_and_eq)
  then show "unat (ucast (drop_bit 10 h) AND 0x1f :: u32) = f16_exp h"
    using unat_and_mask [OF m(1), of "drop_bit 10 h"]
    by (simp add: f16_exp_def unsigned_ucast_eq take_bit_nat_eq_self)
  show "unat (ucast (h AND 0x03ff) :: u32) = f16_frac h"
    using unat_and_mask [OF m(2), of h] by (simp add: f16_frac_def unsigned_ucast_eq take_bit_nat_eq_self)
qed

lemma leading_bit:
  fixes m :: nat
  assumes "m < 2 ^ k" and "m \<noteq> 0"
  obtains j where "2 ^ j \<le> m" and "m < 2 ^ Suc j" and "j < k"
proof -
  from ex_power_ivl1 [of 2 m] assms(2) obtain j where j: "2 ^ j \<le> m" "m < 2 ^ Suc j"
    by auto
  have "(2::nat) ^ j < 2 ^ k"
    using j(1) assms(1) by linarith
  then show thesis
    using that j by simp
qed

lemma low_ten:
  assumes "1024 \<le> n" and "n < 2048"
  shows "unat (of_nat n AND 0x03ff :: u32) = n - 1024"
proof -
  have "(0x3ff :: u32) = mask 10"
    by (simp add: mask_eq_exp_minus_1)
  then have "unat (of_nat n AND 0x03ff :: u32) = unat (take_bit 10 (of_nat n) :: u32)"
    by (simp only: take_bit_eq_mask)
  also have "\<dots> = n mod 1024"
    unfolding unsigned_take_bit_eq using assms(2) by (simp add: unat_of_nat_32 take_bit_eq_mod)
  also have "\<dots> = n - 1024"
    using assms by (simp add: mod_if)
  finally show ?thesis .
qed

lemma denormal_value:
  assumes "1024 \<le> m * 2 ^ (10 - j)" and "j < 10"
  shows "(1 + real ((m * 2 ^ (10 - j) - 1024) * 2 ^ 13) / 2 ^ 23) * 2 ^ (103 + j) / 2 ^ 127 = real m / 2 ^ 24"
proof -
  have "(2::real) ^ (10 - j) * 2 ^ j = 1024"
    using assms(2) power_add [of "2::real" "10 - j" j] by simp
  then have "real m * 2 ^ (10 - j) * 2 ^ j = real m * 1024"
    by (simp add: mult.assoc)
  then show ?thesis
    using assms(1) by (simp add: of_nat_diff power_add field_simps)
qed

text \<open>C4: the conversion loop always ends, and the result is exact: a finite half, normal or not,
  becomes the single of the same real value; infinities and not-a-number keep their kind.\<close>

theorem f16_to_f32_exact:
  "\<exists>w. sf37_f16_to_f32 h = Some w \<and> (bit w 31 \<longleftrightarrow> bit h 15) \<and>
     (if f16_exp h = 31 then f32_exp w = 255 \<and> (f32_frac w = 0 \<longleftrightarrow> f16_frac h = 0)
      else f32_exp w \<noteq> 255 \<and> f32_real w = f16_real h)"
proof -
  let ?s = "push_bit 16 (ucast (h AND 0x8000)) :: u32" and ?e = "ucast (drop_bit 10 h) AND 0x1f :: u32"
    and ?m = "ucast (h AND 0x03ff) :: u32"
  have e: "?e = of_nat (f16_exp h)" and m: "?m = of_nat (f16_frac h)"
    unfolding f16_fields(3,4) [of h, symmetric] by simp_all
  have e0: "?e = 0 \<longleftrightarrow> f16_exp h = 0" and m0: "?m = 0 \<longleftrightarrow> f16_frac h = 0" and e31: "?e = 31 \<longleftrightarrow> f16_exp h = 31"
    using f16_fields(3,4) [of h] by (auto simp: unat_eq_zero word_unat_eq_iff)
  note def = sf37_f16_to_f32_def [of h, unfolded Let_def]
  consider "f16_exp h = 0" "f16_frac h = 0" | "f16_exp h = 0" "f16_frac h \<noteq> 0" | "f16_exp h = 31"
    | "f16_exp h \<noteq> 0" "f16_exp h \<noteq> 31"
    by blast
  then show ?thesis
  proof cases
    case 1
    then show ?thesis
      using f32_pack [OF _ _ f16_sign [of h], of 0 0] e0 m0 by (simp add: def f32_real_def f16_real_def)
  next
    case 2
    have "f16_frac h < 2 ^ 10"
      using f16_fields(2) [of h] by simp
    then obtain j where j: "2 ^ j \<le> f16_frac h" "f16_frac h < 2 ^ Suc j" "j < 10"
      using 2(2) by (rule leading_bit)
    let ?m' = "of_nat (f16_frac h * 2 ^ (10 - j)) :: u32"
    have n: "f16_normalize ?m 1 = Some (?m', 1 - of_nat (10 - j))"
      unfolding m by (rule f16_normalize_steps [OF j(1,2)]) (use j(3) in simp)
    have pow: "2 ^ j * 2 ^ (10 - j) = (1024::nat)"
      using j(3) power_add [of "2::nat" j "10 - j"] by simp
    have "f16_frac h * 2 ^ (10 - j) < 2 ^ Suc j * 2 ^ (10 - j)"
      using j(2) by simp
    then have lo: "1024 \<le> f16_frac h * 2 ^ (10 - j)" "f16_frac h * 2 ^ (10 - j) < 2048"
      using mult_le_mono1 [OF j(1), of "2 ^ (10 - j)"] pow by (simp_all add: mult.assoc)
    have e': "(1 - of_nat (10 - j)) + 112 = (of_nat (103 + j) :: u32)"
      using j(3) by (simp add: of_nat_diff)
    have m': "unat (?m' AND 0x03ff) = f16_frac h * 2 ^ (10 - j) - 1024"
      using lo by (rule low_ten)
    have w: "sf37_f16_to_f32 h = Some (?s OR push_bit 23 (of_nat (103 + j)) OR push_bit 13 (?m' AND 0x03ff))"
      using 2 e0 m0 n unfolding def e' [symmetric] by simp
    have ej: "unat (of_nat (103 + j) :: u32) = 103 + j"
      by (rule unat_of_nat_32) (use j(3) in simp)
    note pk = f32_pack [OF _ _ f16_sign [of h], of "of_nat (103 + j)" "?m' AND 0x03ff", unfolded ej m']
    have "(1 + real ((f16_frac h * 2 ^ (10 - j) - 1024) * 2 ^ 13) / 2 ^ 23) * 2 ^ (103 + j) / 2 ^ 127 = real (f16_frac h) / 2 ^ 24"
      using lo(1) j(3) by (rule denormal_value)
    then show ?thesis
      unfolding w using pk lo j(3) 2(1) by (simp add: f32_real_def f16_real_def)
  next
    case 3
    then show ?thesis
      using f32_pack [OF _ _ f16_sign [of h], of 255 ?m] e31 e0 f16_fields(2,4) [of h]
      by (simp add: def)
  next
    case 4
    have x: "unat (?e + 112) = f16_exp h + 112"
      using f16_fields(1,3) [of h] by (simp add: unat_word_ariths)
    have w: "sf37_f16_to_f32 h = Some (?s OR push_bit 23 (?e + 112) OR push_bit 13 ?m)"
      using 4 e0 e31 unfolding def by simp
    note pk = f32_pack [OF _ _ f16_sign [of h], of "?e + 112" ?m, unfolded x f16_fields(4)]
    have "(1 + real (f16_frac h * 2 ^ 13) / 2 ^ 23) * 2 ^ (f16_exp h + 112) / 2 ^ 127 =
        (1 + real (f16_frac h) / 2 ^ 10) * 2 ^ f16_exp h / (2 ^ 15 :: real)"
      by (simp add: power_add field_simps)
    then show ?thesis
      unfolding w using pk 4 f16_fields(1,2) [of h] by (simp add: f32_real_def f16_real_def)
  qed
qed

subsection \<open>The largest scores\<close>

definition topk_state :: "nat \<Rightarrow> nat list \<Rightarrow> int list" where
  "topk_state k xs = map int (take k xs) @ replicate (k - length xs) (-1)"

definition insert_after :: "(nat \<Rightarrow> int) \<Rightarrow> nat \<Rightarrow> nat list \<Rightarrow> nat list" where
  "insert_after f x ys = takeWhile (\<lambda>y. f y \<le> f x) ys @ x # dropWhile (\<lambda>y. f y \<le> f x) ys"

lemma topk_state_simps [simp]:
  "topk_state 0 xs = []" "topk_state (Suc k) [] = -1 # topk_state k []"
  "topk_state (Suc k) (x # xs) = int x # topk_state k xs"
  by (simp_all add: topk_state_def)

lemma length_topk_state [simp]: "length (topk_state k xs) = k"
  by (simp add: topk_state_def)

lemma butlast_topk_state: "butlast (topk_state (Suc k) xs) = topk_state k xs"
proof (induction k arbitrary: xs)
  case (Suc k)
  have ne: "topk_state (Suc k) ys \<noteq> []" for ys
    using length_topk_state [of "Suc k" ys] by fastforce
  show ?case
    using Suc [of "[]"] Suc ne by (cases xs) simp_all
next
  case 0
  show ?case
    by (cases xs) simp_all
qed

lemma topk_insert_step:
  assumes "\<forall>j \<in> insert i (set xs). \<not> f32_is_nan (score ! j)"
  shows "topk_insert score i (topk_state k xs) = topk_state k (insert_after (\<lambda>j. - f32_key (score ! j)) i xs)"
  using assms
proof (induction xs arbitrary: k)
  case Nil
  then show ?case
    using butlast_topk_state [of "k - 1" "[]"] by (cases k) (simp_all add: insert_after_def)
next
  case (Cons y ys)
  then show ?case
    using butlast_topk_state [of "k - 1" "y # ys"]
    by (cases k) (auto simp: insert_after_def f32_gt_def)
qed

lemma insert_after_insort: "insert_after f x (insort_key f y zs) = insort_key f y (insert_after f x zs)"
  by (induction zs) (auto simp: insert_after_def)

lemma sort_key_snoc: "sort_key f (xs @ [x]) = insert_after f x (sort_key f xs)"
proof (induction xs)
  case (Cons y xs)
  then show ?case
    by (simp add: insert_after_insort)
qed (simp add: insert_after_def)

text \<open>Scores that compare, the router's selection or the logits, come out in order: the result is
  the first \<open>k\<close> of the stable sort by falling score.\<close>

lemma topk_sorted:
  assumes "k \<le> n" and "\<forall>i<n. \<not> f32_is_nan (score ! i)"
  shows "sf37_topk_desc score n k = map int (take k (sort_key (\<lambda>j. - f32_key (score ! j)) [0..<n]))"
proof -
  have "foldl (\<lambda>idx i. topk_insert score i idx) (topk_state k []) [0..<m] =
      topk_state k (sort_key (\<lambda>j. - f32_key (score ! j)) [0..<m])" if "m \<le> n" for m
    using that
  proof (induction m)
    case (Suc m)
    then show ?case
      using assms(2) by (simp add: topk_insert_step sort_key_snoc)
  qed simp
  from this [of n] show ?thesis
    using assms(1) by (simp add: sf37_topk_desc_def topk_state_def)
qed

text \<open>Whatever the scores, not-a-number included, every place is filled with a valid index.\<close>

lemma topk_insert_fills:
  assumes "length xs \<le> k"
  shows "\<exists>ys. topk_insert score i (map int xs @ replicate (k - length xs) (-1)) = map int ys @ replicate (k - length ys) (-1) \<and>
     length ys = min k (Suc (length xs)) \<and> set ys \<subseteq> insert i (set xs)"
  using assms
proof (induction xs arbitrary: k)
  case Nil
  show ?case
  proof (cases k)
    case (Suc k')
    have "butlast (- 1 # replicate k' (- 1)) = replicate k' (- 1 :: int)"
      by (induction k') simp_all
    with Suc show ?thesis
      by (intro exI [of _ "[i]"]) simp
  qed simp
next
  case (Cons x xs)
  then obtain k' where k: "k = Suc k'" "length xs \<le> k'"
    by (cases k) auto
  show ?case
  proof (cases "f32_gt (score ! i) (score ! x)")
    case True
    show ?thesis
    proof (cases "k' = length xs")
      case full: True
      then show ?thesis
        using True k by (intro exI [of _ "i # butlast (x # xs)"]) (auto simp: map_butlast dest: in_set_butlastD split: if_splits)
    next
      case False
      then have "replicate (k' - length xs) (- 1 :: int) = replicate (k' - Suc (length xs)) (- 1) @ [- 1]"
        using k(2) by (simp add: replicate_append_same Suc_diff_Suc flip: replicate_Suc)
      then show ?thesis
        using True k False by (intro exI [of _ "i # x # xs"]) (simp add: butlast_append)
    qed
  next
    case False
    from Cons.IH [OF k(2)] obtain ys where
      "topk_insert score i (map int xs @ replicate (k' - length xs) (-1)) = map int ys @ replicate (k' - length ys) (-1)"
      "length ys = min k' (Suc (length xs))" "set ys \<subseteq> insert i (set xs)"
      by blast
    then show ?thesis
      using False k(1) by (intro exI [of _ "x # ys"]) auto
  qed
qed

lemma topk_range:
  assumes "k \<le> n"
  shows "length (sf37_topk_desc score n k) = k" and "\<forall>j \<in> set (sf37_topk_desc score n k). 0 \<le> j \<and> j < int n"
proof -
  have "\<exists>ys. foldl (\<lambda>idx i. topk_insert score i idx) (replicate k (-1)) [0..<m] = map int ys @ replicate (k - length ys) (-1) \<and>
      length ys = min k m \<and> set ys \<subseteq> {..<m}" for m
  proof (induction m)
    case 0
    then show ?case
      by (intro exI [of _ "[]"]) simp
  next
    case (Suc m)
    then obtain ys where ys: "foldl (\<lambda>idx i. topk_insert score i idx) (replicate k (-1)) [0..<m] =
        map int ys @ replicate (k - length ys) (-1)" "length ys = min k m" "set ys \<subseteq> {..<m}"
      by blast
    then have "length ys \<le> k"
      by simp
    from topk_insert_fills [OF this, of score m] obtain zs where
      "topk_insert score m (map int ys @ replicate (k - length ys) (-1)) = map int zs @ replicate (k - length zs) (-1)"
      "length zs = min k (Suc (length ys))" "set zs \<subseteq> insert m (set ys)"
      by blast
    then show ?case
      using ys by (intro exI [of _ zs]) auto
  qed
  from this [of n] obtain ys where "sf37_topk_desc score n k = map int ys" "length ys = k" "set ys \<subseteq> {..<n}"
    using assms by (auto simp: sf37_topk_desc_def)
  then show "length (sf37_topk_desc score n k) = k" and "\<forall>j \<in> set (sf37_topk_desc score n k). 0 \<le> j \<and> j < int n"
    by auto
qed

end
