(* ===== verification/Forward.thy ===== *)
theory Forward
  imports Numeric WeightsProps
begin

section \<open>The forward pass on the CPU\<close>

text \<open>
  What one token costs on the CPU path of \<open>sf37.c\<close>: the embedding row, the 45 layers with their
  projections, rotary embedding, cached attention, dense or routed feed-forward part, and the
  output logits, over the bound tensors of a model file. A result \<open>None\<close> is the program leaving
  with \<open>exit(1)\<close>, or a null weight pointer. A row of the cache is the list of its elements, and
  scratch buffers are the lists that fill them; allocations succeed.
\<close>

subsection \<open>Weights in memory\<close>

definition SF37_EXPERT_USED :: nat where "SF37_EXPERT_USED = 8"
definition SF37_RMS_EPS :: u32 where "SF37_RMS_EPS = 0x3727c5ac"

definition weight_ptr :: "sf37_engine \<Rightarrow> sf37_tensor option \<Rightarrow> bytes option" where
  "weight_ptr e t = map_option (tensor_data (en_gguf e)) t"

definition tensor_bf16_to_f32 :: "bytes \<Rightarrow> nat \<Rightarrow> frow" where
  "tensor_bf16_to_f32 p n = map (\<lambda>i. sf37_bf16_to_f32 (u16_at p i)) [0..<n]"

definition embed_token_bf16 :: "sf37_engine \<Rightarrow> int \<Rightarrow> frow option" where
  "embed_token_bf16 e token =
     (case en_embed_tokens e of
        None \<Rightarrow> None
      | Some t \<Rightarrow>
          if token < 0 \<or> nat token \<ge> unat (tn_dim t ! 1) then None
          else let base = tensor_data (en_gguf e) t; stride = unat (tn_dim t ! 0); row = nat token * stride
               in Some (map (\<lambda>i. sf37_bf16_to_f32 (u16_at base (row + i))) [0..<stride]))"

definition matvec_dense_tensor :: "fpu \<Rightarrow> sf37_engine \<Rightarrow> sf37_tensor option \<Rightarrow> frow \<Rightarrow> frow option" where
  "matvec_dense_tensor fp e t x =
     (case t of
        None \<Rightarrow> None
      | Some t \<Rightarrow>
          if length (tn_dim t) \<noteq> 2 then None
          else let i = unat (tn_dim t ! 0); r = unat (tn_dim t ! 1); w = tensor_data (en_gguf e) t in
               if tn_type t = SF37_TENSOR_Q8_0 then Some (sf37_q8_0_matvec fp w i r x)
               else if tn_type t = SF37_TENSOR_BF16 then Some (sf37_bf16_matvec fp w i r x)
               else if tn_type t = SF37_TENSOR_F32 then
                 Some (map (\<lambda>r. d_to_f fp (foldl (\<lambda>acc j. d_add fp acc
                         (d_mul fp (f_to_d fp (u32_at w (r * i + j))) (f_to_d fp (x ! j)))) 0 [0..<i])) [0..<r])
               else None)"

subsection \<open>Rotary embedding\<close>

definition layer_rotary_dim :: "nat \<Rightarrow> nat" where
  "layer_rotary_dim il = (if layer_is_full il then 64 else 128)"

definition layer_rope_theta :: "nat \<Rightarrow> u64" where
  "layer_rope_theta il = (if layer_is_full il then 0x415312d000000000 else 0x40c3880000000000)"

definition sf37_inv_freq :: "fpu \<Rightarrow> nat \<Rightarrow> nat \<Rightarrow> u64 \<Rightarrow> bool \<Rightarrow> u64" where
  "sf37_inv_freq fp pair rotary_dim theta llama3 =
     (let one = 0x3ff0000000000000;
          inv = d_div fp one (d_pow fp theta (d_div fp (d_of_int fp (int (pair * 2))) (d_of_int fp (int rotary_dim))))
      in if \<not> llama3 then inv
      else
      let factor = 0x4000000000000000;
          low_freq_factor = one;
          high_freq_factor = 0x4040000000000000;
          old_context_len = 0x4100000000000000;
          low_freq_wavelen = d_div fp old_context_len low_freq_factor;
          high_freq_wavelen = d_div fp old_context_len high_freq_factor;
          wavelen = d_div fp (d_mul fp 0x4000000000000000 0x400921fb54442d18) inv
      in if d_gt wavelen low_freq_wavelen then d_div fp inv factor
      else if d_gt high_freq_wavelen wavelen then inv
      else
      let smooth = d_div fp (d_sub fp (d_div fp old_context_len wavelen) low_freq_factor)
                     (d_sub fp high_freq_factor low_freq_factor)
      in d_add fp (d_div fp (d_mul fp (d_sub fp one smooth) inv) factor) (d_mul fp smooth inv))"

definition rope_pair :: "fpu \<Rightarrow> nat \<Rightarrow> u64 \<Rightarrow> bool \<Rightarrow> nat \<Rightarrow> nat \<Rightarrow> frow \<Rightarrow> frow" where
  "rope_pair fp rotary_dim theta llama3 pos i head =
     (let half = rotary_dim div 2;
          inv = sf37_inv_freq fp i rotary_dim theta llama3;
          c = fp_cos fp (d_to_f fp (d_mul fp (d_of_int fp (int pos)) inv));
          s = fp_sin fp (d_to_f fp (d_mul fp (d_of_int fp (int pos)) inv));
          a = head ! i; b = head ! (i + half)
      in (head[i := fp_sub fp (fp_mul fp a c) (fp_mul fp b s)])
           [i + half := fp_add fp (fp_mul fp b c) (fp_mul fp a s)])"

text \<open>An operation on each head of a vector, in place.\<close>

definition on_heads :: "nat \<Rightarrow> nat \<Rightarrow> (frow \<Rightarrow> frow) \<Rightarrow> frow \<Rightarrow> frow" where
  "on_heads n_head head_dim f x =
     concat (map (\<lambda>h. f (take head_dim (drop (h * head_dim) x))) [0..<n_head]) @ drop (n_head * head_dim) x"

definition apply_rope_one :: "fpu \<Rightarrow> frow \<Rightarrow> nat \<Rightarrow> nat \<Rightarrow> nat \<Rightarrow> u64 \<Rightarrow> bool \<Rightarrow> nat \<Rightarrow> frow" where
  "apply_rope_one fp x n_head head_dim rotary_dim theta llama3 pos =
     on_heads n_head head_dim
       (\<lambda>head. foldl (\<lambda>head i. rope_pair fp rotary_dim theta llama3 pos i head) head [0..<rotary_dim div 2]) x"

definition head_rms_norm_weight1 :: "fpu \<Rightarrow> frow \<Rightarrow> nat \<Rightarrow> nat \<Rightarrow> frow \<Rightarrow> u32 \<Rightarrow> frow" where
  "head_rms_norm_weight1 fp x n_head head_dim wt eps =
     on_heads n_head head_dim (\<lambda>head. sf37_rms_norm_weight1 fp head wt head_dim eps) x"

subsection \<open>Attention over the cached rows\<close>

definition attention_score :: "fpu \<Rightarrow> frow \<Rightarrow> frow \<Rightarrow> u32" where
  "attention_score fp qh kh =
     fp_mul fp (foldl (\<lambda>score d. fp_add fp score (fp_mul fp (qh ! d) (kh ! d))) 0 [0..<SF37_HEAD_DIM]) 0x3db504f3"

text \<open>One head over the rows in order: the largest score, the exponentials' sum with the weighted
  values, and the division by the sum.\<close>

definition attention_head :: "fpu \<Rightarrow> frow \<Rightarrow> nat \<Rightarrow> (frow \<times> frow) list \<Rightarrow> frow" where
  "attention_head fp qh kvh rows =
     (let part = drop (kvh * SF37_HEAD_DIM);
          max_score = foldl (\<lambda>m (k, v). let score = attention_score fp qh (part k)
                                        in if f32_gt score m then score else m) 0xff800000 rows;
          (denom, oh) = foldl (\<lambda>(denom, oh) (k, v).
               let w = fp_exp fp (fp_sub fp (attention_score fp qh (part k)) max_score)
               in (fp_add fp denom w,
                   map (\<lambda>d. fp_add fp (oh ! d) (fp_mul fp w (part v ! d))) [0..<SF37_HEAD_DIM]))
             (0, replicate SF37_HEAD_DIM 0) rows;
          inv = (if f32_gt denom 0 then fp_div fp f32_one denom else 0)
      in map (\<lambda>d. fp_mul fp (oh ! d) inv) [0..<SF37_HEAD_DIM])"

definition attention_heads :: "fpu \<Rightarrow> frow \<Rightarrow> nat \<Rightarrow> (frow \<times> frow) list \<Rightarrow> frow" where
  "attention_heads fp q q_heads rows =
     (let repeat = q_heads div SF37_KV_HEADS
      in concat (map (\<lambda>h. attention_head fp (drop (h * SF37_HEAD_DIM) q) (h div repeat) rows) [0..<q_heads]))"

definition attention_decode :: "fpu \<Rightarrow> frow \<Rightarrow> layer_kv \<Rightarrow> nat \<Rightarrow> bool \<Rightarrow> frow" where
  "attention_decode fp q cache q_heads sliding =
     (let start = (if sliding \<and> lk_n cache > SF37_SLIDING_WINDOW then lk_n cache - SF37_SLIDING_WINDOW else 0)
      in attention_heads fp q q_heads (map (\<lambda>r. (lk_k cache ! r, lk_v cache ! r)) [start..<lk_n cache]))"

subsection \<open>Feed-forward layers\<close>

definition layer_swiglu_limit :: "nat \<Rightarrow> bool \<Rightarrow> u32" where
  "layer_swiglu_limit il shared =
     (if il = 43 \<or> il = 44 then (if shared then 0x41800000 else 0x40e00000) else 0)"

definition layer_dense_ffn :: "fpu \<Rightarrow> sf37_engine \<Rightarrow> sf37_layer_weights \<Rightarrow> frow \<Rightarrow> nat \<Rightarrow> frow option" where
  "layer_dense_ffn fp e l x il =
     do { gw \<leftarrow> weight_ptr e (lw_mlp_gate l);
          uw \<leftarrow> weight_ptr e (lw_mlp_up l);
          let (gate, up) = sf37_q8_0_matvec_pair fp gw uw SF37_EMBD SF37_DENSE_FF x;
          let mid = sf37_swiglu fp gate up SF37_DENSE_FF (layer_swiglu_limit il True);
          dw \<leftarrow> weight_ptr e (lw_mlp_down l);
          Some (sf37_q8_0_matvec fp dw SF37_DENSE_FF SF37_EMBD mid) }"

text \<open>The router's choice: the experts and their weights.\<close>

definition route :: "fpu \<Rightarrow> frow \<Rightarrow> bytes \<Rightarrow> int list \<times> frow" where
  "route fp router_logits bias =
     (let router_prob = map (\<lambda>i. sf37_sigmoid fp (router_logits ! i)) [0..<SF37_EXPERTS];
          selection = map (\<lambda>i. fp_add fp (router_prob ! i) (u32_at bias i)) [0..<SF37_EXPERTS];
          selected = sf37_topk_desc selection SF37_EXPERTS SF37_EXPERT_USED;
          weights = map (\<lambda>s. router_prob ! nat s) selected;
          sum = foldl (fp_add fp) 0 weights;
          sum = (if f32_gt 0x1e3ce508 sum then 0x1e3ce508 else sum)
      in (selected, map (\<lambda>w. fp_mul fp (fp_div fp w sum) 0x40400000) weights))"

definition run_expert ::
  "fpu \<Rightarrow> sf37_engine \<Rightarrow> sf37_layer_weights \<Rightarrow> frow \<Rightarrow> nat \<Rightarrow> int \<Rightarrow> u32 \<Rightarrow> frow \<Rightarrow> frow option" where
  "run_expert fp e l x il selected wt out =
     do { let ex = nat selected;
          let m = gg_map (en_gguf e);
          gw \<leftarrow> expert_bytes (lw_moe_gate l) ex (of_nat SF37_Q3_BLOCK_SIZE);
          uw \<leftarrow> expert_bytes (lw_moe_up l) ex (of_nat SF37_Q3_BLOCK_SIZE);
          dw \<leftarrow> expert_bytes (lw_moe_down l) ex (of_nat SF37_Q2_BLOCK_SIZE);
          let gate = sf37_q3_asym_matvec fp (drop (unat gw) m) SF37_EMBD SF37_EXPERT_FF x;
          let up = sf37_q3_asym_matvec fp (drop (unat uw) m) SF37_EMBD SF37_EXPERT_FF x;
          let mid = sf37_swiglu fp gate up SF37_EXPERT_FF (layer_swiglu_limit il False);
          let mid = map (\<lambda>v. fp_mul fp v wt) mid;
          let down = sf37_q2_asym_matvec fp (drop (unat dw) m) SF37_EXPERT_FF SF37_EMBD mid;
          Some (map (\<lambda>j. fp_add fp (out ! j) (down ! j)) [0..<SF37_EMBD]) }"

fun run_experts ::
  "fpu \<Rightarrow> sf37_engine \<Rightarrow> sf37_layer_weights \<Rightarrow> frow \<Rightarrow> nat \<Rightarrow> (int \<times> u32) list \<Rightarrow> frow \<Rightarrow> frow option" where
  "run_experts fp e l x il [] out = Some out"
| "run_experts fp e l x il ((s, w) # rest) out =
     (case run_expert fp e l x il s w out of None \<Rightarrow> None | Some out \<Rightarrow> run_experts fp e l x il rest out)"

definition layer_moe_ffn :: "fpu \<Rightarrow> sf37_engine \<Rightarrow> sf37_layer_weights \<Rightarrow> frow \<Rightarrow> nat \<Rightarrow> frow option" where
  "layer_moe_ffn fp e l x il =
     do { router_logits \<leftarrow> matvec_dense_tensor fp e (lw_router_gate l) x;
          bias \<leftarrow> weight_ptr e (lw_router_bias l);
          let (selected, weights) = route fp router_logits bias;
          gw \<leftarrow> weight_ptr e (lw_share_gate l);
          uw \<leftarrow> weight_ptr e (lw_share_up l);
          let (gate, up) = sf37_q8_0_matvec_pair fp gw uw SF37_EMBD SF37_EXPERT_FF x;
          let mid = sf37_swiglu fp gate up SF37_EXPERT_FF (layer_swiglu_limit il True);
          dw \<leftarrow> weight_ptr e (lw_share_down l);
          let out = sf37_q8_0_matvec fp dw SF37_EXPERT_FF SF37_EMBD mid;
          run_experts fp e l x il (zip selected weights) out }"

subsection \<open>A layer\<close>

text \<open>The first half of \<open>run_layer_decode\<close>, up to the new cache row: queries, keys, values and
  the gate of each head.\<close>

definition layer_qkv ::
  "fpu \<Rightarrow> sf37_engine \<Rightarrow> nat \<Rightarrow> nat \<Rightarrow> frow \<Rightarrow> (frow \<times> frow \<times> frow \<times> frow) option" where
  "layer_qkv fp e il pos hidden =
     do { let l = en_layer e ! il;
          let full = layer_is_full il;
          let q_heads = layer_q_heads il;
          let q_dim = q_heads * SF37_HEAD_DIM;
          let kv_dim = SF37_KV_HEADS * SF37_HEAD_DIM;
          inw \<leftarrow> weight_ptr e (lw_input_norm l);
          let attn_norm = sf37_rms_norm_weight1 fp hidden (tensor_bf16_to_f32 inw SF37_EMBD) SF37_EMBD SF37_RMS_EPS;
          qw \<leftarrow> weight_ptr e (lw_q_proj l);
          let q = sf37_q8_0_matvec fp qw SF37_EMBD q_dim attn_norm;
          kw \<leftarrow> weight_ptr e (lw_k_proj l);
          let k = sf37_q8_0_matvec fp kw SF37_EMBD kv_dim attn_norm;
          vw \<leftarrow> weight_ptr e (lw_v_proj l);
          let v = sf37_q8_0_matvec fp vw SF37_EMBD kv_dim attn_norm;
          gw \<leftarrow> weight_ptr e (lw_g_proj l);
          let head_gate = sf37_q8_0_matvec fp gw SF37_EMBD q_heads attn_norm;
          qn \<leftarrow> weight_ptr e (lw_q_norm l);
          let q = head_rms_norm_weight1 fp q q_heads SF37_HEAD_DIM (tensor_bf16_to_f32 qn SF37_HEAD_DIM) SF37_RMS_EPS;
          kn \<leftarrow> weight_ptr e (lw_k_norm l);
          let k = head_rms_norm_weight1 fp k SF37_KV_HEADS SF37_HEAD_DIM (tensor_bf16_to_f32 kn SF37_HEAD_DIM) SF37_RMS_EPS;
          let rotary_dim = layer_rotary_dim il;
          let theta = layer_rope_theta il;
          Some (apply_rope_one fp q q_heads SF37_HEAD_DIM rotary_dim theta full pos,
                apply_rope_one fp k SF37_KV_HEADS SF37_HEAD_DIM rotary_dim theta full pos,
                v, head_gate) }"

text \<open>The second half, from the heads the attention gives.\<close>

definition gate_heads :: "fpu \<Rightarrow> nat \<Rightarrow> frow \<Rightarrow> frow \<Rightarrow> frow" where
  "gate_heads fp q_heads head_gate heads =
     concat (map (\<lambda>h. map (\<lambda>x. fp_mul fp x (sf37_sigmoid fp (head_gate ! h)))
                        (take SF37_HEAD_DIM (drop (h * SF37_HEAD_DIM) heads))) [0..<q_heads])"

definition add_rows :: "fpu \<Rightarrow> frow \<Rightarrow> frow \<Rightarrow> frow" where
  "add_rows fp hidden x = map (\<lambda>i. fp_add fp (hidden ! i) (x ! i)) [0..<SF37_EMBD]"

definition layer_rest :: "fpu \<Rightarrow> sf37_engine \<Rightarrow> nat \<Rightarrow> frow \<Rightarrow> frow \<Rightarrow> frow \<Rightarrow> frow option" where
  "layer_rest fp e il hidden head_gate heads =
     do { let l = en_layer e ! il;
          let q_heads = layer_q_heads il;
          ow \<leftarrow> weight_ptr e (lw_o_proj l);
          let attn_out = sf37_q8_0_matvec fp ow (q_heads * SF37_HEAD_DIM) SF37_EMBD (gate_heads fp q_heads head_gate heads);
          let hidden = add_rows fp hidden attn_out;
          pw \<leftarrow> weight_ptr e (lw_post_norm l);
          let ffn_norm = sf37_rms_norm_weight1 fp hidden (tensor_bf16_to_f32 pw SF37_EMBD) SF37_EMBD SF37_RMS_EPS;
          ffn_out \<leftarrow> (if il < 3 then layer_dense_ffn fp e l ffn_norm il else layer_moe_ffn fp e l ffn_norm il);
          Some (add_rows fp hidden ffn_out) }"

definition cpu_run_layer_decode ::
  "fpu \<Rightarrow> sf37_engine \<Rightarrow> nat \<Rightarrow> layer_kv list \<times> frow \<Rightarrow> nat \<Rightarrow> (layer_kv list \<times> frow) option" where
  "cpu_run_layer_decode fp e pos st il =
     (case st of (cache, hidden) \<Rightarrow>
      do { (q, k, v, head_gate) \<leftarrow> layer_qkv fp e il pos hidden;
           let layer = kv_cache_push_row (cache ! il) k v;
           let heads = attention_decode fp q layer (layer_q_heads il) (\<not> layer_is_full il);
           hidden \<leftarrow> layer_rest fp e il hidden head_gate heads;
           Some (cache[il := layer], hidden) })"

definition output_logits_bf16 :: "fpu \<Rightarrow> sf37_engine \<Rightarrow> frow \<Rightarrow> frow option" where
  "output_logits_bf16 fp e hidden =
     do { fw \<leftarrow> weight_ptr e (en_final_norm e);
          let norm = sf37_rms_norm_weight1 fp hidden (tensor_bf16_to_f32 fw SF37_EMBD) SF37_EMBD SF37_RMS_EPS;
          hw \<leftarrow> weight_ptr e (en_lm_head e);
          Some (sf37_bf16_matvec fp hw SF37_EMBD SF37_VOCAB norm) }"

subsection \<open>A token\<close>

fun run_layers ::
  "fpu \<Rightarrow> sf37_engine \<Rightarrow> nat \<Rightarrow> nat list \<Rightarrow> layer_kv list \<times> frow \<Rightarrow> (layer_kv list \<times> frow) option" where
  "run_layers fp e pos [] st = Some st"
| "run_layers fp e pos (il # ils) st =
     (case cpu_run_layer_decode fp e pos st il of None \<Rightarrow> None | Some st \<Rightarrow> run_layers fp e pos ils st)"

text \<open>\<open>sf37_session_eval_internal\<close> with the engine's own layers.\<close>

definition cpu_session_eval_internal ::
  "fpu \<Rightarrow> sf37_engine \<Rightarrow> sf37_session \<Rightarrow> int \<Rightarrow> bool \<Rightarrow> (bool \<times> sf37_session) option" where
  "cpu_session_eval_internal fp e s token need_logits =
     (if token < 0 \<or> token \<ge> int SF37_VOCAB then Some (False, s)
      else if int (length (se_checkpoint s)) \<ge> se_ctx_size s then Some (False, s)
      else
        do { let pos = length (se_checkpoint s);
             hidden \<leftarrow> embed_token_bf16 e token;
             (cache, hidden) \<leftarrow> run_layers fp e pos [0..<SF37_MAIN_LAYERS] (se_layer s, hidden);
             logits \<leftarrow> (if need_logits then output_logits_bf16 fp e hidden else Some (se_logits s));
             Some (True, s\<lparr>se_layer := cache, se_hidden := hidden, se_logits := logits,
                           se_checkpoint := sf37_tokens_push (se_checkpoint s) token,
                           se_checkpoint_valid := True\<rparr>) })"

end
