(* ===== verification/ForwardProps.thy ===== *)
theory ForwardProps
  imports Forward SnapshotProps
begin

section \<open>The forward pass refines the session's kernels\<close>

text \<open>
  The layers of a bound model, as kernels of the session model: a token evaluated with the
  engine's own layers is the session's evaluation with these kernels, so that everything shown
  of sessions holds of the program's own forward pass. The theory also shows that the forward
  pass depends on no byte past the end of the mapped file, and when it leaves the program.
\<close>

subsection \<open>Memory past the file\<close>

text \<open>The engine with other bytes behind the mapped file.\<close>

definition padded :: "sf37_engine \<Rightarrow> bytes \<Rightarrow> sf37_engine" where
  "padded e junk = e\<lparr>en_gguf := (en_gguf e)\<lparr>gg_map := gg_map (en_gguf e) @ junk\<rparr>\<rparr>"

lemma padded_simps [simp]:
  "en_layer (padded e junk) = en_layer e" "en_embed_tokens (padded e junk) = en_embed_tokens e"
  "en_lm_head (padded e junk) = en_lm_head e" "en_final_norm (padded e junk) = en_final_norm e"
  "gg_map (en_gguf (padded e junk)) = gg_map (en_gguf e) @ junk"
  by (simp_all add: padded_def)

definition same :: "nat \<Rightarrow> bytes option \<Rightarrow> bytes option \<Rightarrow> bool" where
  "same n a b \<longleftrightarrow> (\<exists>p q. a = Some p \<and> b = Some q \<and> agree n p q)"

lemma agree_drop_append: "k + n \<le> length p \<Longrightarrow> agree n (drop k (p @ junk)) (drop k p)"
  by (auto simp: agree_def)

lemma weight_same:
  "read_ok (en_gguf e) t n \<Longrightarrow> same n (weight_ptr (padded e junk) t) (weight_ptr e t)"
  using agree_drop_append [where p = "gg_map (en_gguf e)" and n = n and junk = junk]
  by (auto simp: read_ok_def same_def weight_ptr_def tensor_data_def padded_def split: option.splits)

lemma sameE:
  assumes "same n a b"
  obtains p q where "a = Some p" "b = Some q" "agree n p q"
  using assms by (auto simp: same_def)

lemma bf16_agree: "agree (2 * n) p q \<Longrightarrow> tensor_bf16_to_f32 p n = tensor_bf16_to_f32 q n"
  unfolding tensor_bf16_to_f32_def u16_at_def
  by (intro map_cong refl arg_cong [where f = sf37_bf16_to_f32] u16_agree) (auto intro: agree_drop)

text \<open>The footprints of the products are the byte counts the binding was checked against.\<close>

lemma q8_same:
  assumes "agree (q8_0_matvec_bytes i n) p q"
  shows "sf37_q8_0_matvec fp p i n x = sf37_q8_0_matvec fp q i n x"
  by (rule q8_matvec_agree) (use assms in \<open>simp add: q8_0_matvec_bytes_def SF37_Q8_BLOCK_SIZE_def\<close>)

lemma bf16_matvec_same:
  assumes "agree (bf16_matvec_bytes i n) p q"
  shows "sf37_bf16_matvec fp p i n x = sf37_bf16_matvec fp q i n x"
  by (rule bf16_matvec_agree) (use assms in \<open>simp add: bf16_matvec_bytes_def\<close>)

lemma q3_same:
  assumes "agree (q3_asym_matvec_bytes i n) p q"
  shows "sf37_q3_asym_matvec fp p i n x = sf37_q3_asym_matvec fp q i n x"
  by (rule q3_matvec_agree) (use assms in \<open>simp add: q3_asym_matvec_bytes_def SF37_Q3_BLOCK_SIZE_def\<close>)

lemma q2_same:
  assumes "agree (q2_asym_matvec_bytes i n) p q"
  shows "sf37_q2_asym_matvec fp p i n x = sf37_q2_asym_matvec fp q i n x"
  by (rule q2_matvec_agree) (use assms in \<open>simp add: q2_asym_matvec_bytes_def SF37_Q2_BLOCK_SIZE_def\<close>)

lemma u32_agree:
  assumes "agree (4 * n) p q" and "i < n"
  shows "u32_at p i = u32_at q i"
proof -
  have "agree 4 (drop (4 * i) p) (drop (4 * i) q)"
    by (rule agree_drop [OF assms(1)]) (use assms(2) in simp)
  then show ?thesis
    by (simp add: u32_at_def host_get_u32_def agree_nth [of 4])
qed

subsection \<open>Queries, keys and values\<close>

lemma layer_qkv_same:
  assumes "run_layer_reads_ok (en_gguf e) il (en_layer e ! il)"
  shows "layer_qkv fp (padded e junk) il pos h = layer_qkv fp e il pos h \<and> layer_qkv fp e il pos h \<noteq> None"
proof -
  let ?l = "en_layer e ! il" and ?e' = "padded e junk"
  note r = assms [unfolded run_layer_reads_ok_def Let_def]
  note s = r [THEN conjunct1] and r2 = r [THEN conjunct2]
  have reads: "read_ok (en_gguf e) (lw_input_norm ?l) (2 * SF37_EMBD)"
    "read_ok (en_gguf e) (lw_q_proj ?l) (q8_0_matvec_bytes SF37_EMBD (layer_q_heads il * SF37_HEAD_DIM))"
    "read_ok (en_gguf e) (lw_k_proj ?l) (q8_0_matvec_bytes SF37_EMBD (SF37_KV_HEADS * SF37_HEAD_DIM))"
    "read_ok (en_gguf e) (lw_v_proj ?l) (q8_0_matvec_bytes SF37_EMBD (SF37_KV_HEADS * SF37_HEAD_DIM))"
    "read_ok (en_gguf e) (lw_g_proj ?l) (q8_0_matvec_bytes SF37_EMBD (layer_q_heads il))"
    "read_ok (en_gguf e) (lw_q_norm ?l) (2 * SF37_HEAD_DIM)"
    "read_ok (en_gguf e) (lw_k_norm ?l) (2 * SF37_HEAD_DIM)"
    using r by blast+
  obtain a1 a2 where a: "weight_ptr ?e' (lw_input_norm ?l) = Some a1" "weight_ptr e (lw_input_norm ?l) = Some a2"
    "agree (2 * SF37_EMBD) a1 a2"
    by (rule sameE [OF weight_same [OF reads(1)]])
  obtain b1 b2 where b: "weight_ptr ?e' (lw_q_proj ?l) = Some b1" "weight_ptr e (lw_q_proj ?l) = Some b2"
    "agree (q8_0_matvec_bytes SF37_EMBD (layer_q_heads il * SF37_HEAD_DIM)) b1 b2"
    by (rule sameE [OF weight_same [OF reads(2)]])
  obtain c1 c2 where c: "weight_ptr ?e' (lw_k_proj ?l) = Some c1" "weight_ptr e (lw_k_proj ?l) = Some c2"
    "agree (q8_0_matvec_bytes SF37_EMBD (SF37_KV_HEADS * SF37_HEAD_DIM)) c1 c2"
    by (rule sameE [OF weight_same [OF reads(3)]])
  obtain d1 d2 where d: "weight_ptr ?e' (lw_v_proj ?l) = Some d1" "weight_ptr e (lw_v_proj ?l) = Some d2"
    "agree (q8_0_matvec_bytes SF37_EMBD (SF37_KV_HEADS * SF37_HEAD_DIM)) d1 d2"
    by (rule sameE [OF weight_same [OF reads(4)]])
  obtain f1 f2 where f: "weight_ptr ?e' (lw_g_proj ?l) = Some f1" "weight_ptr e (lw_g_proj ?l) = Some f2"
    "agree (q8_0_matvec_bytes SF37_EMBD (layer_q_heads il)) f1 f2"
    by (rule sameE [OF weight_same [OF reads(5)]])
  obtain g1 g2 where g: "weight_ptr ?e' (lw_q_norm ?l) = Some g1" "weight_ptr e (lw_q_norm ?l) = Some g2"
    "agree (2 * SF37_HEAD_DIM) g1 g2"
    by (rule sameE [OF weight_same [OF reads(6)]])
  obtain k1 k2 where k: "weight_ptr ?e' (lw_k_norm ?l) = Some k1" "weight_ptr e (lw_k_norm ?l) = Some k2"
    "agree (2 * SF37_HEAD_DIM) k1 k2"
    by (rule sameE [OF weight_same [OF reads(7)]])
  show ?thesis
    by (simp add: layer_qkv_def Let_def a(1,2) b(1,2) c(1,2) d(1,2) f(1,2) g(1,2) k(1,2) bf16_agree [OF a(3)]
        q8_same [OF b(3)] q8_same [OF c(3)] q8_same [OF d(3)] q8_same [OF f(3)] bf16_agree [OF g(3)] bf16_agree [OF k(3)])
qed

subsection \<open>Feed-forward layers\<close>

lemma dense_ffn_same:
  assumes "dense_ffn_reads_ok (en_gguf e) l"
  shows "layer_dense_ffn fp (padded e junk) l x il = layer_dense_ffn fp e l x il \<and> layer_dense_ffn fp e l x il \<noteq> None"
proof -
  let ?e' = "padded e junk"
  note r = assms [unfolded dense_ffn_reads_ok_def]
  obtain a1 a2 where a: "weight_ptr ?e' (lw_mlp_gate l) = Some a1" "weight_ptr e (lw_mlp_gate l) = Some a2"
    "agree (q8_0_matvec_bytes SF37_EMBD SF37_DENSE_FF) a1 a2"
    by (rule sameE [OF weight_same [OF r [THEN conjunct1]]])
  obtain b1 b2 where b: "weight_ptr ?e' (lw_mlp_up l) = Some b1" "weight_ptr e (lw_mlp_up l) = Some b2"
    "agree (q8_0_matvec_bytes SF37_EMBD SF37_DENSE_FF) b1 b2"
    by (rule sameE [OF weight_same [OF r [THEN conjunct2, THEN conjunct1]]])
  obtain c1 c2 where c: "weight_ptr ?e' (lw_mlp_down l) = Some c1" "weight_ptr e (lw_mlp_down l) = Some c2"
    "agree (q8_0_matvec_bytes SF37_DENSE_FF SF37_EMBD) c1 c2"
    by (rule sameE [OF weight_same [OF r [THEN conjunct2, THEN conjunct2]]])
  show ?thesis
    by (simp add: layer_dense_ffn_def Let_def matvec_pair_eq a(1,2) b(1,2) c(1,2) q8_same [OF a(3)] q8_same [OF b(3)]
        q8_same [OF c(3)])
qed

text \<open>The router's product, for the types it supports.\<close>

definition dense_type :: "sf37_tensor option \<Rightarrow> bool" where
  "dense_type t \<longleftrightarrow> (case t of None \<Rightarrow> False | Some t \<Rightarrow> tn_type t \<in> {SF37_TENSOR_Q8_0, SF37_TENSOR_BF16, SF37_TENSOR_F32})"

lemma matvec_dense_same:
  assumes "case matvec_dense_bytes t of None \<Rightarrow> True | Some n \<Rightarrow> read_ok (en_gguf e) t n"
  shows "matvec_dense_tensor fp (padded e junk) t x = matvec_dense_tensor fp e t x"
proof (cases t)
  case (Some tn)
  have ptr: "weight_ptr e t = Some (tensor_data (en_gguf e) tn)"
    "weight_ptr (padded e junk) t = Some (tensor_data (en_gguf (padded e junk)) tn)"
    by (simp_all add: weight_ptr_def Some)
  have ag: "agree n (tensor_data (en_gguf (padded e junk)) tn) (tensor_data (en_gguf e) tn)"
    if "matvec_dense_bytes t = Some n" for n
    using sameE [OF weight_same [of e t n junk]] assms that ptr by fastforce
  let ?i = "unat (tn_dim tn ! 0)" and ?r = "unat (tn_dim tn ! 1)"
  show ?thesis
  proof (cases "length (tn_dim tn) = 2")
    case True
    consider "tn_type tn = SF37_TENSOR_Q8_0" | "tn_type tn \<noteq> SF37_TENSOR_Q8_0" "tn_type tn = SF37_TENSOR_BF16"
      | "tn_type tn \<noteq> SF37_TENSOR_Q8_0" "tn_type tn \<noteq> SF37_TENSOR_BF16" "tn_type tn = SF37_TENSOR_F32"
      | "tn_type tn \<notin> {SF37_TENSOR_Q8_0, SF37_TENSOR_BF16, SF37_TENSOR_F32}"
      by blast
    then show ?thesis
    proof cases
      case 1
      have "agree (q8_0_matvec_bytes ?i ?r) (tensor_data (en_gguf (padded e junk)) tn) (tensor_data (en_gguf e) tn)"
        using True 1 by (intro ag) (simp add: matvec_dense_bytes_def Some Let_def)
      then show ?thesis
        using True 1 by (simp add: matvec_dense_tensor_def Some Let_def q8_same)
    next
      case 2
      have "agree (bf16_matvec_bytes ?i ?r) (tensor_data (en_gguf (padded e junk)) tn) (tensor_data (en_gguf e) tn)"
        using True 2 by (intro ag) (simp add: matvec_dense_bytes_def Some Let_def)
      then show ?thesis
        using True 2 by (simp add: matvec_dense_tensor_def Some Let_def bf16_matvec_same)
    next
      case 3
      have a: "agree (4 * (?r * ?i)) (tensor_data (en_gguf (padded e junk)) tn) (tensor_data (en_gguf e) tn)"
        using True 3 by (intro ag) (simp add: matvec_dense_bytes_def Some Let_def)
      have "u32_at (tensor_data (en_gguf (padded e junk)) tn) (k * ?i + j) = u32_at (tensor_data (en_gguf e) tn) (k * ?i + j)"
        if "k < ?r" "j < ?i" for k j
        using row_slot [OF that(1), of ?i] that(2) by (intro u32_agree [OF a]) linarith
      then show ?thesis
        using True 3 by (auto simp: matvec_dense_tensor_def Some Let_def intro!: arg_cong [where f = "d_to_f fp"] foldl_eq_on)
    next
      case 4
      then show ?thesis
        by (simp add: matvec_dense_tensor_def Some)
    qed
  qed (simp add: matvec_dense_tensor_def Some)
qed (simp add: matvec_dense_tensor_def)

lemma matvec_dense_some:
  "weight g t None [i, r] \<Longrightarrow> matvec_dense_tensor fp e t x \<noteq> None \<longleftrightarrow> dense_type t"
  by (auto simp: matvec_dense_tensor_def dense_type_def weight_def map_eq_Cons_conv Let_def split: if_splits)

lemma expert_same:
  assumes "expert_read_ok (en_gguf e) t ex bb n"
  obtains off where "expert_bytes t ex bb = Some off"
    "agree n (drop (unat off) (gg_map (en_gguf e) @ junk)) (drop (unat off) (gg_map (en_gguf e)))"
  using assms agree_drop_append [where p = "gg_map (en_gguf e)" and n = n and junk = junk]
  by (auto simp: expert_read_ok_def split: option.splits)

lemma run_expert_same:
  assumes "expert_read_ok (en_gguf e) (lw_moe_gate l) (nat s) 110 (q3_asym_matvec_bytes SF37_EMBD SF37_EXPERT_FF)"
    and "expert_read_ok (en_gguf e) (lw_moe_up l) (nat s) 110 (q3_asym_matvec_bytes SF37_EMBD SF37_EXPERT_FF)"
    and "expert_read_ok (en_gguf e) (lw_moe_down l) (nat s) 84 (q2_asym_matvec_bytes SF37_EXPERT_FF SF37_EMBD)"
  shows "run_expert fp (padded e junk) l x il s w out = run_expert fp e l x il s w out \<and> run_expert fp e l x il s w out \<noteq> None"
proof -
  have blocks: "of_nat SF37_Q3_BLOCK_SIZE = (110 :: u64)" "of_nat SF37_Q2_BLOCK_SIZE = (84 :: u64)"
    by (simp_all add: SF37_Q3_BLOCK_SIZE_def SF37_Q2_BLOCK_SIZE_def)
  obtain a where a: "expert_bytes (lw_moe_gate l) (nat s) 110 = Some a"
    "agree (q3_asym_matvec_bytes SF37_EMBD SF37_EXPERT_FF) (drop (unat a) (gg_map (en_gguf e) @ junk)) (drop (unat a) (gg_map (en_gguf e)))"
    by (rule expert_same [OF assms(1)])
  obtain b where b: "expert_bytes (lw_moe_up l) (nat s) 110 = Some b"
    "agree (q3_asym_matvec_bytes SF37_EMBD SF37_EXPERT_FF) (drop (unat b) (gg_map (en_gguf e) @ junk)) (drop (unat b) (gg_map (en_gguf e)))"
    by (rule expert_same [OF assms(2)])
  obtain c where c: "expert_bytes (lw_moe_down l) (nat s) 84 = Some c"
    "agree (q2_asym_matvec_bytes SF37_EXPERT_FF SF37_EMBD) (drop (unat c) (gg_map (en_gguf e) @ junk)) (drop (unat c) (gg_map (en_gguf e)))"
    by (rule expert_same [OF assms(3)])
  show ?thesis
    by (simp add: run_expert_def Let_def blocks a(1) b(1) c(1) q3_same [OF a(2)] q3_same [OF b(2)] q2_same [OF c(2)]
        del: drop_append)
qed

lemma run_experts_same:
  assumes "moe_ffn_reads_ok (en_gguf e) l" and "\<forall>(s, w) \<in> set sel. 0 \<le> s \<and> s < int SF37_EXPERTS"
  shows "run_experts fp (padded e junk) l x il sel out = run_experts fp e l x il sel out \<and> run_experts fp e l x il sel out \<noteq> None"
  using assms(2)
proof (induction sel arbitrary: out)
  case (Cons sw sel)
  obtain s w where sw: "sw = (s, w)" by fastforce
  have "nat s < SF37_EXPERTS"
    using Cons.prems by (auto simp: sw nat_less_iff)
  then have reads: "expert_read_ok (en_gguf e) (lw_moe_gate l) (nat s) 110 (q3_asym_matvec_bytes SF37_EMBD SF37_EXPERT_FF)"
    "expert_read_ok (en_gguf e) (lw_moe_up l) (nat s) 110 (q3_asym_matvec_bytes SF37_EMBD SF37_EXPERT_FF)"
    "expert_read_ok (en_gguf e) (lw_moe_down l) (nat s) 84 (q2_asym_matvec_bytes SF37_EXPERT_FF SF37_EMBD)"
    using assms(1) unfolding moe_ffn_reads_ok_def by blast+
  obtain out' where "run_expert fp e l x il s w out = Some out'" "run_expert fp (padded e junk) l x il s w out = Some out'"
    using run_expert_same [OF reads, of fp junk x il w out] by force
  then show ?case
    using Cons by (simp add: sw)
qed simp

lemma route_agree:
  assumes "agree (4 * SF37_EXPERTS) p q"
  shows "route fp logits p = route fp logits q"
proof -
  have "map (\<lambda>i. fp_add fp (prob ! i) (u32_at p i)) [0..<SF37_EXPERTS] =
      map (\<lambda>i. fp_add fp (prob ! i) (u32_at q i)) [0..<SF37_EXPERTS]" for prob
    using u32_agree [OF assms] by (intro map_cong) simp_all
  then show ?thesis
    unfolding route_def Let_def by (simp only:)
qed

lemma route_selected: "\<forall>(s, w) \<in> set (zip (fst (route fp logits p)) ws). 0 \<le> s \<and> s < int SF37_EXPERTS"
proof -
  have "SF37_EXPERT_USED \<le> SF37_EXPERTS"
    by (simp add: SF37_EXPERT_USED_def SF37_EXPERTS_def)
  from topk_range(2) [OF this] show ?thesis
    by (auto simp: route_def Let_def dest!: set_zip_leftD)
qed

lemma moe_ffn_same:
  assumes r: "moe_ffn_reads_ok (en_gguf e) l" and w: "weight (en_gguf e) (lw_router_gate l) None [SF37_EMBD, SF37_EXPERTS]"
  shows "layer_moe_ffn fp (padded e junk) l x il = layer_moe_ffn fp e l x il \<and>
    (layer_moe_ffn fp e l x il \<noteq> None \<longleftrightarrow> dense_type (lw_router_gate l))"
proof -
  let ?e' = "padded e junk"
  note reads = r [unfolded moe_ffn_reads_ok_def]
  have mv: "matvec_dense_tensor fp ?e' (lw_router_gate l) x = matvec_dense_tensor fp e (lw_router_gate l) x"
    by (rule matvec_dense_same) (use reads in blast)
  have rds: "read_ok (en_gguf e) (lw_router_bias l) (4 * SF37_EXPERTS)"
    "read_ok (en_gguf e) (lw_share_gate l) (q8_0_matvec_bytes SF37_EMBD SF37_EXPERT_FF)"
    "read_ok (en_gguf e) (lw_share_up l) (q8_0_matvec_bytes SF37_EMBD SF37_EXPERT_FF)"
    "read_ok (en_gguf e) (lw_share_down l) (q8_0_matvec_bytes SF37_EXPERT_FF SF37_EMBD)"
    using reads by blast+
  obtain a1 a2 where a: "weight_ptr ?e' (lw_router_bias l) = Some a1" "weight_ptr e (lw_router_bias l) = Some a2"
    "agree (4 * SF37_EXPERTS) a1 a2"
    by (rule sameE [OF weight_same [OF rds(1)]])
  obtain b1 b2 where b: "weight_ptr ?e' (lw_share_gate l) = Some b1" "weight_ptr e (lw_share_gate l) = Some b2"
    "agree (q8_0_matvec_bytes SF37_EMBD SF37_EXPERT_FF) b1 b2"
    by (rule sameE [OF weight_same [OF rds(2)]])
  obtain c1 c2 where c: "weight_ptr ?e' (lw_share_up l) = Some c1" "weight_ptr e (lw_share_up l) = Some c2"
    "agree (q8_0_matvec_bytes SF37_EMBD SF37_EXPERT_FF) c1 c2"
    by (rule sameE [OF weight_same [OF rds(3)]])
  obtain d1 d2 where d: "weight_ptr ?e' (lw_share_down l) = Some d1" "weight_ptr e (lw_share_down l) = Some d2"
    "agree (q8_0_matvec_bytes SF37_EXPERT_FF SF37_EMBD) d1 d2"
    by (rule sameE [OF weight_same [OF rds(4)]])
  show ?thesis
  proof (cases "matvec_dense_tensor fp e (lw_router_gate l) x")
    case None
    then show ?thesis
      using matvec_dense_some [OF w, of fp e x] by (simp add: layer_moe_ffn_def mv)
  next
    case (Some logits)
    obtain sel ws where rt: "route fp logits a2 = (sel, ws)" by fastforce
    have sel: "\<forall>(s, w) \<in> set (zip sel ws). 0 \<le> s \<and> s < int SF37_EXPERTS"
      using route_selected [of fp logits a2 ws] by (simp add: rt)
    show ?thesis
      using matvec_dense_some [OF w, of fp e x] run_experts_same [OF r sel]
      by (simp add: layer_moe_ffn_def mv Some Let_def a(1,2) b(1,2) c(1,2) d(1,2) route_agree [OF a(3)] rt matvec_pair_eq
          q8_same [OF b(3)] q8_same [OF c(3)] q8_same [OF d(3)])
  qed
qed

subsection \<open>A layer\<close>

definition router_supported :: "sf37_engine \<Rightarrow> nat \<Rightarrow> bool" where
  "router_supported e il \<longleftrightarrow> il < 3 \<or> dense_type (lw_router_gate (en_layer e ! il))"

lemma bind_same:
  assumes "\<And>x. F x = G x \<and> (G x \<noteq> None \<longleftrightarrow> P)"
  shows "Option.bind (F x) (\<lambda>y. Some (k y)) = Option.bind (G x) (\<lambda>y. Some (k y)) \<and>
    (Option.bind (G x) (\<lambda>y. Some (k y)) \<noteq> None \<longleftrightarrow> P)"
  using assms [of x] by (cases "G x") auto

lemma layer_rest_same:
  assumes r: "run_layer_reads_ok (en_gguf e) il (en_layer e ! il)" and b: "layer_bound (en_gguf e) il (en_layer e ! il)"
  shows "layer_rest fp (padded e junk) il h gate heads = layer_rest fp e il h gate heads \<and>
    (layer_rest fp e il h gate heads \<noteq> None \<longleftrightarrow> router_supported e il)"
proof -
  let ?l = "en_layer e ! il" and ?e' = "padded e junk"
  note reads = r [unfolded run_layer_reads_ok_def Let_def]
  have rds: "read_ok (en_gguf e) (lw_o_proj ?l) (q8_0_matvec_bytes (layer_q_heads il * SF37_HEAD_DIM) SF37_EMBD)"
    "read_ok (en_gguf e) (lw_post_norm ?l) (2 * SF37_EMBD)"
    "if il < 3 then dense_ffn_reads_ok (en_gguf e) ?l else moe_ffn_reads_ok (en_gguf e) ?l"
    using reads by blast+
  obtain a1 a2 where a: "weight_ptr ?e' (lw_o_proj ?l) = Some a1" "weight_ptr e (lw_o_proj ?l) = Some a2"
    "agree (q8_0_matvec_bytes (layer_q_heads il * SF37_HEAD_DIM) SF37_EMBD) a1 a2"
    by (rule sameE [OF weight_same [OF rds(1)]])
  obtain b1 b2 where b12: "weight_ptr ?e' (lw_post_norm ?l) = Some b1" "weight_ptr e (lw_post_norm ?l) = Some b2"
    "agree (2 * SF37_EMBD) b1 b2"
    by (rule sameE [OF weight_same [OF rds(2)]])
  have ffn: "(if il < 3 then layer_dense_ffn fp ?e' ?l x il else layer_moe_ffn fp ?e' ?l x il) =
      (if il < 3 then layer_dense_ffn fp e ?l x il else layer_moe_ffn fp e ?l x il) \<and>
    ((if il < 3 then layer_dense_ffn fp e ?l x il else layer_moe_ffn fp e ?l x il) \<noteq> None \<longleftrightarrow> router_supported e il)" for x
  proof (cases "il < 3")
    case True
    then show ?thesis
      using dense_ffn_same [of e ?l fp junk x il] rds(3) by (simp add: router_supported_def)
  next
    case False
    have "weight (en_gguf e) (lw_router_gate ?l) None [SF37_EMBD, SF37_EXPERTS]"
      using b False by (simp add: layer_bound_def Let_def)
    from moe_ffn_same [OF _ this, of fp junk x il] show ?thesis
      using rds(3) False by (simp add: router_supported_def)
  qed
  show ?thesis
    unfolding layer_rest_def Let_def padded_simps a(1,2) b12(1,2) Option.bind.bind_lunit q8_same [OF a(3)] bf16_agree [OF b12(3)]
    by (rule bind_same [OF ffn])
qed

subsection \<open>The kernels of an engine\<close>

definition cpu_kernels :: "fpu \<Rightarrow> sf37_engine \<Rightarrow> kernels" where
  "cpu_kernels fp e =
     \<lparr>kn_embed = (\<lambda>t. case embed_token_bf16 e t of None \<Rightarrow> replicate SF37_EMBD 0 | Some h \<Rightarrow> h),
      kn_kv = (\<lambda>il pos h. case layer_qkv fp e il pos h of None \<Rightarrow> (zero_row, zero_row) | Some (q, k, v, gate) \<Rightarrow> (k, v)),
      kn_layer = (\<lambda>il pos h ks vs.
        case layer_qkv fp e il pos h of
          None \<Rightarrow> replicate SF37_EMBD 0
        | Some (q, k, v, gate) \<Rightarrow>
            (case layer_rest fp e il h gate (attention_heads fp q (layer_q_heads il) (zip ks vs)) of
               None \<Rightarrow> replicate SF37_EMBD 0 | Some h \<Rightarrow> h)),
      kn_logits = (\<lambda>h. case output_logits_bf16 fp e h of None \<Rightarrow> replicate SF37_VOCAB 0 | Some l \<Rightarrow> l)\<rparr>"

lemma length_on_heads:
  assumes "\<And>y. length y = d \<Longrightarrow> length (f y) = d" and "length x = n * d"
  shows "length (on_heads n d f x) = n * d"
proof -
  have "length (f (take d (drop (h * d) x))) = d" if "h < n" for h
    using row_slot [OF that, of d] assms(2) by (intro assms(1)) (auto simp: min_def)
  then have "map (length \<circ> (\<lambda>h. f (take d (drop (h * d) x)))) [0..<n] = map (\<lambda>_. d) [0..<n]"
    by simp
  then show ?thesis
    by (simp add: on_heads_def length_concat sum_list_triv assms(2) del: map_eq_conv)
qed

lemma length_rope_pair [simp]: "length (rope_pair fp r t b p i x) = length x"
  by (simp add: rope_pair_def Let_def)

lemma length_rope_loop [simp]: "length (foldl (\<lambda>x i. rope_pair fp r t b p i x) x is) = length x"
  by (induction "is" arbitrary: x) simp_all

lemma layer_qkv_sized:
  assumes "layer_qkv fp e il pos h = Some (q, k, v, gate)"
  shows "length k = SF37_KV_ROW \<and> length v = SF37_KV_ROW"
proof -
  have row: "SF37_KV_ROW = SF37_KV_HEADS * SF37_HEAD_DIM"
    by (simp add: SF37_KV_ROW_def weight_constants)
  show ?thesis
    using assms unfolding layer_qkv_def Let_def row
    by (auto simp: bind_eq_Some_conv apply_rope_one_def head_rms_norm_weight1_def intro!: length_on_heads)
qed

lemma layer_rest_sized: "layer_rest fp e il h gate heads = Some h' \<Longrightarrow> length h' = SF37_EMBD"
  by (auto simp: layer_rest_def Let_def bind_eq_Some_conv add_rows_def)

lemma cpu_kernels_sized:
  assumes "weight g (en_embed_tokens e) (Some SF37_TENSOR_BF16) [SF37_EMBD, SF37_VOCAB]"
  shows "kernels_sized (cpu_kernels fp e)"
proof -
  have embed: "length (kn_embed (cpu_kernels fp e) t) = SF37_EMBD" for t
    using assms by (auto simp: cpu_kernels_def embed_token_bf16_def weight_def map_eq_Cons_conv Let_def)
  have kv: "length (fst (kn_kv (cpu_kernels fp e) il pos h)) = SF37_KV_ROW \<and>
      length (snd (kn_kv (cpu_kernels fp e) il pos h)) = SF37_KV_ROW" for il pos h
    using layer_qkv_sized [of fp e il pos h] by (auto simp: cpu_kernels_def zero_row_def split: option.splits)
  have layer: "length (kn_layer (cpu_kernels fp e) il pos h ks vs) = SF37_EMBD" for il pos h ks vs
    using layer_rest_sized by (auto simp: cpu_kernels_def split: option.splits)
  have logits: "length (kn_logits (cpu_kernels fp e) h) = SF37_VOCAB" for h
    by (auto simp: cpu_kernels_def output_logits_bf16_def Let_def bind_eq_Some_conv split: option.splits)
  show ?thesis
    unfolding kernels_sized_def using embed kv layer logits by blast
qed

lemma attention_window:
  assumes "lk_n c \<le> length (lk_k c)" and "lk_n c \<le> length (lk_v c)"
  shows "attention_decode fp q c q_heads sliding =
    attention_heads fp q q_heads (zip (attention_rows sliding (lk_n c) (lk_k c)) (attention_rows sliding (lk_n c) (lk_v c)))"
proof -
  have "map (\<lambda>r. (xs ! r, ys ! r)) [s..<n] = zip (drop s (take n xs)) (drop s (take n ys))"
    if "n \<le> length xs" "n \<le> length ys" for s n and xs ys :: "frow list"
    by (rule nth_equalityI) (use that in auto)
  from this [OF assms] show ?thesis
    unfolding attention_decode_def attention_rows_def Let_def by simp
qed


subsection \<open>A token\<close>

text \<open>What an opened and bound file gives the forward pass.\<close>

definition engine_ready :: "sf37_engine \<Rightarrow> bool" where
  "engine_ready e \<longleftrightarrow> engine_bound (en_gguf e) e \<and> mapped_ok (en_gguf e)"

lemma engine_readyD:
  assumes "engine_ready e"
  shows "il < SF37_MAIN_LAYERS \<Longrightarrow> layer_bound (en_gguf e) il (en_layer e ! il)"
    and "il < SF37_MAIN_LAYERS \<Longrightarrow> run_layer_reads_ok (en_gguf e) il (en_layer e ! il)"
    and "weight (en_gguf e) (en_embed_tokens e) (Some SF37_TENSOR_BF16) [SF37_EMBD, SF37_VOCAB]"
    and "read_ok (en_gguf e) (en_final_norm e) (2 * SF37_EMBD)"
    and "read_ok (en_gguf e) (en_lm_head e) (bf16_matvec_bytes SF37_EMBD SF37_VOCAB)"
  using assms layer_reads bf16_read by (auto simp: engine_ready_def engine_bound_def)

lemma cpu_layer_step:
  assumes e: "engine_ready e" and il: "il < SF37_MAIN_LAYERS" "il < length cache"
    and l: "layer_sized cap (cache ! il)" "0 < cap"
  shows "cpu_run_layer_decode fp (padded e junk) pos (cache, h) il =
    (if router_supported e il then Some (run_layer_decode (cpu_kernels fp e) pos (cache, h) il) else None)"
proof -
  note rd = engine_readyD(2) [OF e il(1)] and bd = engine_readyD(1) [OF e il(1)]
  obtain q k v gate where qkv: "layer_qkv fp e il pos h = Some (q, k, v, gate)"
    using layer_qkv_same [OF rd, of fp junk pos h] by auto
  have qkv': "layer_qkv fp (padded e junk) il pos h = Some (q, k, v, gate)"
    using layer_qkv_same [OF rd, of fp junk pos h] qkv by simp
  let ?l = "kv_cache_push_row (cache ! il) k v"
  have "layer_sized cap ?l"
    using push_sized [OF l] layer_qkv_sized [OF qkv] by blast
  then have n: "lk_n ?l \<le> length (lk_k ?l)" "lk_n ?l \<le> length (lk_v ?l)"
    by (simp_all add: layer_sized_def layer_shape_def)
  let ?heads = "attention_decode fp q ?l (layer_q_heads il) (\<not> layer_is_full il)"
  have rest: "layer_rest fp (padded e junk) il h gate ?heads = layer_rest fp e il h gate ?heads"
    "layer_rest fp e il h gate ?heads \<noteq> None \<longleftrightarrow> router_supported e il"
    using layer_rest_same [OF rd bd] by blast+
  show ?thesis
  proof (cases "layer_rest fp e il h gate ?heads")
    case None
    then show ?thesis
      using rest by (simp add: cpu_run_layer_decode_def qkv' Let_def)
  next
    case (Some h')
    then have "kn_layer (cpu_kernels fp e) il pos h (attention_rows (\<not> layer_is_full il) (lk_n ?l) (lk_k ?l))
        (attention_rows (\<not> layer_is_full il) (lk_n ?l) (lk_v ?l)) = h'"
      by (simp add: cpu_kernels_def qkv attention_window [OF n])
    moreover have "kn_kv (cpu_kernels fp e) il pos h = (k, v)"
      by (simp add: cpu_kernels_def qkv)
    ultimately show ?thesis
      using rest Some by (simp add: cpu_run_layer_decode_def qkv' Let_def run_layer_decode_def)
  qed
qed

lemma run_layers_eq:
  assumes e: "engine_ready e" and "\<forall>il \<in> set ils. il < SF37_MAIN_LAYERS"
    and "length cache = SF37_MAIN_LAYERS" and "\<forall>l \<in> set cache. layer_sized cap l" and cap: "0 < cap"
  shows "run_layers fp (padded e junk) pos ils (cache, h) =
    (if \<forall>il \<in> set ils. router_supported e il
     then Some (foldl (run_layer_decode (cpu_kernels fp e) pos) (cache, h) ils) else None)"
  using assms(2-4)
proof (induction ils arbitrary: cache h)
  case (Cons il ils)
  have il: "il < SF37_MAIN_LAYERS" "il < length cache"
    using Cons.prems by simp_all
  have l: "layer_sized cap (cache ! il)"
    using Cons.prems(3) il(2) by simp
  note step = cpu_layer_step [OF e il l cap, of fp junk pos h]
  show ?case
  proof (cases "router_supported e il")
    case True
    obtain k v where kv: "kn_kv (cpu_kernels fp e) il pos h = (k, v)" by fastforce
    let ?l = "kv_cache_push_row (cache ! il) k v"
    obtain h' where run: "run_layer_decode (cpu_kernels fp e) pos (cache, h) il = (cache[il := ?l], h')"
      by (simp add: run_layer_decode_def kv Let_def)
    have "layer_sized cap ?l"
      using kernels_sizedD(2,3) [OF cpu_kernels_sized [OF engine_readyD(3) [OF e]], of fp il pos h] kv
      by (intro push_sized [OF l cap]) simp_all
    then have "\<forall>l \<in> set (cache[il := ?l]). layer_sized cap l"
      using Cons.prems(3) set_update_subset_insert [of cache il ?l] by auto
    from Cons.IH [OF _ _ this, of h'] Cons.prems show ?thesis
      using step True by (simp add: run)
  qed (simp add: step)
qed simp

lemma embed_same:
  assumes e: "engine_ready e" and t: "0 \<le> token" "token < int SF37_VOCAB"
  shows "embed_token_bf16 (padded e junk) token = Some (kn_embed (cpu_kernels fp e) token)"
proof -
  obtain tn where tn: "en_embed_tokens e = Some tn" "map unat (tn_dim tn) = [SF37_EMBD, SF37_VOCAB]"
    using engine_readyD(3) [OF e] by (auto simp: weight_def)
  then have d: "unat (tn_dim tn ! 0) = SF37_EMBD" "unat (tn_dim tn ! 1) = SF37_VOCAB"
    by (auto simp: map_eq_Cons_conv)
  have "read_ok (en_gguf e) (Some tn) (bf16_matvec_bytes SF37_EMBD SF37_VOCAB)"
    using bf16_read(2) engine_readyD(3) [OF e] e by (simp add: engine_ready_def tn(1))
  then have ag: "agree (bf16_matvec_bytes SF37_EMBD SF37_VOCAB) (tensor_data (en_gguf (padded e junk)) tn) (tensor_data (en_gguf e) tn)"
    using sameE [OF weight_same [of e "Some tn" _ junk]] by (fastforce simp: weight_ptr_def)
  have tk: "nat token < SF37_VOCAB"
    using t by simp
  have "u16_at (tensor_data (en_gguf (padded e junk)) tn) (nat token * SF37_EMBD + i) =
      u16_at (tensor_data (en_gguf e) tn) (nat token * SF37_EMBD + i)" if "i < SF37_EMBD" for i
    unfolding u16_at_def
    by (intro u16_agree agree_drop [OF ag]) (use row_slot [OF tk, of SF37_EMBD] that in \<open>simp add: bf16_matvec_bytes_def\<close>)
  then show ?thesis
    using tk t by (simp add: embed_token_bf16_def cpu_kernels_def tn(1) d Let_def del: One_nat_def)
qed

lemma logits_same:
  assumes "engine_ready e"
  shows "output_logits_bf16 fp (padded e junk) h = Some (kn_logits (cpu_kernels fp e) h)"
proof -
  obtain a1 a2 where a: "weight_ptr (padded e junk) (en_final_norm e) = Some a1" "weight_ptr e (en_final_norm e) = Some a2"
    "agree (2 * SF37_EMBD) a1 a2"
    by (rule sameE [OF weight_same [OF engine_readyD(4) [OF assms]]])
  obtain b1 b2 where b: "weight_ptr (padded e junk) (en_lm_head e) = Some b1" "weight_ptr e (en_lm_head e) = Some b2"
    "agree (bf16_matvec_bytes SF37_EMBD SF37_VOCAB) b1 b2"
    by (rule sameE [OF weight_same [OF engine_readyD(5) [OF assms]]])
  show ?thesis
    by (simp add: output_logits_bf16_def cpu_kernels_def Let_def a(1,2) b(1,2) bf16_agree [OF a(3)] bf16_matvec_same [OF b(3)])
qed

definition routers_supported :: "sf37_engine \<Rightarrow> bool" where
  "routers_supported e \<longleftrightarrow> (\<forall>il<SF37_MAIN_LAYERS. router_supported e il)"

lemma cpu_eval_eq:
  assumes e: "engine_ready e" and s: "session_sized s"
  shows "cpu_session_eval_internal fp (padded e junk) s token need =
    (if routers_supported e \<or> token < 0 \<or> token \<ge> int SF37_VOCAB \<or> int (length (se_checkpoint s)) \<ge> se_ctx_size s
     then Some (sf37_session_eval_internal (cpu_kernels fp e) s token need) else None)"
proof (cases "token < 0 \<or> token \<ge> int SF37_VOCAB \<or> int (length (se_checkpoint s)) \<ge> se_ctx_size s")
  case True
  then show ?thesis
    by (auto simp: cpu_session_eval_internal_def sf37_session_eval_internal_def)
next
  case False
  then have t: "0 \<le> token" "token < int SF37_VOCAB"
    by simp_all
  have sized: "length (se_layer s) = SF37_MAIN_LAYERS" "\<forall>l \<in> set (se_layer s). layer_sized (nat (se_ctx_size s)) l"
    "0 < nat (se_ctx_size s)"
    using s by (simp_all add: session_sized_def)
  have all: "\<forall>il \<in> set [0..<SF37_MAIN_LAYERS]. il < SF37_MAIN_LAYERS"
    by simp
  have sup: "(\<forall>il \<in> set [0..<SF37_MAIN_LAYERS]. router_supported e il) \<longleftrightarrow> routers_supported e"
    by (auto simp: routers_supported_def)
  note run = run_layers_eq [OF e all sized, of fp junk "length (se_checkpoint s)" "kn_embed (cpu_kernels fp e) token", unfolded sup]
  obtain cache h where f: "foldl (run_layer_decode (cpu_kernels fp e) (length (se_checkpoint s)))
      (se_layer s, kn_embed (cpu_kernels fp e) token) [0..<SF37_MAIN_LAYERS] = (cache, h)"
    by fastforce
  show ?thesis
    using False run
    by (simp add: cpu_session_eval_internal_def sf37_session_eval_internal_def embed_same [OF e t, where fp = fp] f Let_def
        logits_same [OF e])
qed

subsection \<open>Properties\<close>

text \<open>C1: the session model is what the program does. Whatever bytes a model file held, once it is
  opened and bound, evaluating a token with the engine's own embedding, layers and output head
  gives exactly the session evaluation of the kernel model, whose kernels have the sizes the
  session lemmas ask for; nothing behind the end of the mapped file is ever read, since other
  bytes there change nothing. The one exception is part of the statement: binding accepts a
  router of any type, and when some layer's router is neither Q8_0, BF16 nor F32 the first
  token evaluated leaves the program.\<close>

theorem cpu_eval_refines:
  assumes "gguf_open mem (Some data) = Inr g" and "length data < 2 ^ 63" and "bind_model (engine_of_gguf g) = Inr e"
    and "session_sized s"
  shows "kernels_sized (cpu_kernels fp e) \<and>
    cpu_session_eval_internal fp (padded e junk) s token need =
    (if routers_supported e \<or> token < 0 \<or> token \<ge> int SF37_VOCAB \<or> int (length (se_checkpoint s)) \<ge> se_ctx_size s
     then Some (sf37_session_eval_internal (cpu_kernels fp e) s token need) else None)"
proof -
  have "mapped_ok g"
    using opened_tensors [OF assms(1,2)] assms(2) by (simp add: mapped_ok_def)
  moreover have "engine_bound g e"
    by (rule bind_model_sound [OF assms(3)])
  moreover have "en_gguf e = g"
    using \<open>engine_bound g e\<close> by (simp add: engine_bound_def)
  ultimately have "engine_ready e"
    by (simp add: engine_ready_def)
  then show ?thesis
    using cpu_eval_eq [OF _ assms(4)] cpu_kernels_sized engine_readyD(3) by blast
qed

definition plain_part :: "string \<times> u32 option \<times> nat list \<Rightarrow> bool" where
  "plain_part p \<longleftrightarrow> (case p of (s, t, d) \<Rightarrow> length d = 2 \<longrightarrow> req_type t \<in> {SF37_TENSOR_Q8_0, SF37_TENSOR_BF16, SF37_TENSOR_F32})"

lemma plain_parts:
  "list_all plain_part top_parts" "list_all plain_part vision_parts" "list_all plain_part block_parts"
  "list_all plain_part (layer_parts il)"
  by (simp_all add: top_parts_def vision_parts_def block_parts_def layer_parts_def Let_def plain_part_def req_type_def)

lemma plain_requirements:
  "(name, t, d) \<in> set model_requirements \<Longrightarrow> length d = 2 \<Longrightarrow> req_type t \<in> {SF37_TENSOR_Q8_0, SF37_TENSOR_BF16, SF37_TENSOR_F32}"
  using plain_parts by (fastforce simp: model_requirements_def named_def list_all_iff plain_part_def)

lemma model_file_routers:
  assumes "gguf_open (\<lambda>_. True) (Some (gguf_image model_file)) = Inr g" and "engine_bound g e"
  shows "routers_supported e"
proof -
  obtain off where "gg_tensors g = map (placed off) (gf_tensors model_file)"
    by (rule open_image [where mem = "\<lambda>_. True", OF model_file_ok]) (use assms(1) in auto)
  then have ts: "gg_tensors g = map (placed off) (map req_spec model_requirements)"
    by (simp add: model_file_def)
  have "dense_type (Some tn)" if "tn \<in> set (gg_tensors g)" "length (tn_dim tn) = 2" for tn
  proof -
    note tn = that
    obtain q where q: "q \<in> set model_requirements" "tn = placed off (req_spec q)"
      using tn(1) by (auto simp: ts)
    obtain name ty d where r: "(name, ty, d) \<in> set model_requirements" "tn = placed off (req_spec (name, ty, d))"
      using q by (metis prod_cases3)
    have "length d = 2"
      using tn(2) by (simp add: r(2) placed_def unplaced_def req_spec_def)
    from plain_requirements [OF r(1) this] show ?thesis
      by (auto simp: r(2) placed_def unplaced_def req_spec_def dense_type_def)
  qed
  moreover have "weight g (lw_router_gate (en_layer e ! il)) None [SF37_EMBD, SF37_EXPERTS]"
    if "il < SF37_MAIN_LAYERS" "\<not> il < 3" for il
    using assms(2) that by (auto simp: engine_bound_def layer_bound_def Let_def)
  ultimately show ?thesis
    unfolding routers_supported_def router_supported_def weight_def by (fastforce simp: map_eq_Cons_conv)
qed

definition demo_fpu :: fpu where
  "demo_fpu = \<lparr>fp_div = (\<lambda>a b. a), fp_mul = (\<lambda>a b. a), fp_of_int = of_int, fp_lrint = uint,
     fp_add = (+), fp_sub = (-), fp_sqrt = id, fp_exp = id, fp_cos = id, fp_sin = id,
     f_to_d = ucast, d_to_f = ucast, d_of_int = of_int, d_add = (+), d_sub = (-), d_mul = (\<lambda>a b. a),
     d_div = (\<lambda>a b. a), d_pow = (\<lambda>a b. a)\<rparr>"

theorem cpu_eval_refines_witness:
  "\<exists>g e. gguf_open (\<lambda>_. True) (Some (gguf_image model_file)) = Inr g \<and> bind_model (engine_of_gguf g) = Inr e \<and>
     routers_supported e \<and>
     cpu_session_eval_internal demo_fpu (padded e [1, 2, 3]) flat_session 7 True =
       Some (sf37_session_eval_internal (cpu_kernels demo_fpu e) flat_session 7 True)"
proof -
  obtain g e where ge: "gguf_open (\<lambda>_. True) (Some (gguf_image model_file)) = Inr g" "bind_model (engine_of_gguf g) = Inr e"
    using model_file_binds by blast
  have "length (gguf_image model_file) < 2 ^ 63"
    using model_file_ok by (simp add: gguf_file_ok_def)
  moreover have "routers_supported e"
    by (rule model_file_routers [OF ge(1) bind_model_sound [OF ge(2)]])
  ultimately show ?thesis
    using ge cpu_eval_refines [OF ge(1) _ ge(2) flat_facts(1), of demo_fpu "[1, 2, 3]" 7 True] by auto
qed

end
