(* ===== verification/QuantBlocks.thy ===== *)
theory QuantBlocks
  imports Numeric QuantizeProps "HOL-Library.Multiset"
begin

section \<open>Quantised blocks and tensor conversion\<close>

text \<open>
  How the quantisation tool turns a source tensor into the bytes of the model file: the float
  conversions and the block writers of \<open>quants.c\<close> for Q8_0 and the two asymmetric formats, with
  and without an importance matrix, and the row-parallel conversion of \<open>sf37-quantize.c\<close>.
  Rounding operations are the fields of a record, as in the runtime. A failed \<open>assert\<close>, \<open>die\<close> or
  \<open>exit\<close> is \<open>None\<close>. Threads write disjoint rows of one buffer; the model keeps the list of their
  writes, so that any interleaving can be stated. The K-quant and IQ2 writers, which the type
  policy never chooses, are not modelled.
\<close>

subsection \<open>Float conversions\<close>

record tool_fpu = fpu +
  fp_roundf :: "u32 \<Rightarrow> int"

definition f32_ne :: "u32 \<Rightarrow> u32 \<Rightarrow> bool" where
  "f32_ne a b \<longleftrightarrow> \<not> f32_eq a b"

definition ds4q_f32_to_f16 :: "tool_fpu \<Rightarrow> u32 \<Rightarrow> u16" where
  "ds4q_f32_to_f16 fp w =
     (let base = fp_mul fp (fp_mul fp (f32_abs w) 0x77800000) 0x08800000;
          shl1_w = w + w;
          sign = w AND 0x80000000;
          bias = shl1_w AND 0xFF000000;
          bias = (if bias < 0x71000000 then 0x71000000 else bias);
          out = fp_add fp (drop_bit 1 bias + 0x07800000) base;
          exp_bits = drop_bit 13 out AND 0x00007C00;
          mantissa_bits = out AND 0x00000FFF;
          nonsign = exp_bits + mantissa_bits
      in ucast (drop_bit 16 sign OR (if shl1_w > 0xFF000000 then 0x7E00 else nonsign)))"

definition ds4q_f16_to_f32 :: "tool_fpu \<Rightarrow> u16 \<Rightarrow> u32" where
  "ds4q_f16_to_f32 fp b =
     (let w = push_bit 16 (ucast b) :: u32;
          sign = w AND 0x80000000;
          two_w = w + w;
          normalized_value = fp_mul fp (drop_bit 4 two_w + 0x70000000) 0x07800000;
          denormalized_value = fp_sub fp (drop_bit 17 two_w OR 0x3f000000) 0x3f000000
      in sign OR (if two_w < 0x08000000 then denormalized_value else normalized_value))"

definition ds4q_bf16_to_f32 :: "u16 \<Rightarrow> u32" where
  "ds4q_bf16_to_f32 b = push_bit 16 (ucast b)"

definition ds4q_f32_to_f16_row :: "tool_fpu \<Rightarrow> frow \<Rightarrow> nat \<Rightarrow> u16 list" where
  "ds4q_f32_to_f16_row fp src n = map (\<lambda>i. ds4q_f32_to_f16 fp (src ! i)) [0..<n]"

definition ds4q_f32_to_bf16_row :: "frow \<Rightarrow> nat \<Rightarrow> u16 list" where
  "ds4q_f32_to_bf16_row src n =
     map (\<lambda>i. let b = src ! i
              in if b AND 0x7fffffff > 0x7f800000 then ucast (drop_bit 16 b OR 64)
                 else ucast (drop_bit 16 (b + (0x7fff + (drop_bit 16 b AND 1))))) [0..<n]"

text \<open>\<open>ds4q_nearest_int\<close>; the assertion aborts on a large or unordered argument.\<close>

definition ds4q_nearest_int :: "tool_fpu \<Rightarrow> u32 \<Rightarrow> int option" where
  "ds4q_nearest_int fp v =
     (if f32_ge 0x4a7ffffc (f32_abs v)
      then Some (uint (fp_add fp v 0x4b400000 AND 0x007fffff) - 0x00400000)
      else None)"

definition u16_bytes :: "u16 \<Rightarrow> bytes" where
  "u16_bytes h = [ucast h, ucast (drop_bit 8 h)]"

text \<open>Every result, or none when one of them aborts.\<close>

fun all_some :: "'a option list \<Rightarrow> 'a list option" where
  "all_some [] = Some []"
| "all_some (None # xs) = None"
| "all_some (Some x # xs) = map_option ((#) x) (all_some xs)"

subsection \<open>Q8_0\<close>

definition q8_0_block :: "tool_fpu \<Rightarrow> frow \<Rightarrow> bytes" where
  "q8_0_block fp x =
     (let amax = foldl (\<lambda>amax j. let av = f32_abs (x ! j) in if f32_gt av amax then av else amax) 0 [0..<Q8_LEN];
          d = fp_div fp amax 0x42fe0000;
          inv = (if f32_ne d 0 then fp_div fp f32_one d else 0)
      in u16_bytes (ds4q_f32_to_f16 fp d) @ map (\<lambda>j. of_int (fp_roundf fp (fp_mul fp (x ! j) inv))) [0..<Q8_LEN])"

subsection \<open>Asymmetric groups\<close>

definition clamp_int :: "int \<Rightarrow> int \<Rightarrow> int" where
  "clamp_int qmax q = max 0 (min qmax q)"

text \<open>Smallest and largest element of a group of 64.\<close>

definition group_range :: "frow \<Rightarrow> u32 \<times> u32" where
  "group_range gx =
     foldl (\<lambda>(lo, hi) i. (if f32_gt lo (gx ! i) then gx ! i else lo, if f32_gt (gx ! i) hi then gx ! i else hi))
       (gx ! 0, gx ! 0) [1..<GROUP_LEN]"

text \<open>Scale, zero point and quantised elements of a group, for a largest value \<open>qmax\<close> with its
  \<open>float\<close> pattern.\<close>

definition quantize_group :: "tool_fpu \<Rightarrow> int \<Rightarrow> u32 \<Rightarrow> frow \<Rightarrow> (u32 \<times> int \<times> int list) option" where
  "quantize_group fp qmax fqmax gx =
     (let (lo, hi) = group_range gx in
      do { (scale, zp) \<leftarrow>
             (if f32_ne hi lo then
                let scale = fp_div fp (fp_sub fp hi lo) fqmax
                in map_option (\<lambda>zp. (scale, clamp_int qmax zp)) (ds4q_nearest_int fp (fp_div fp (f32_neg lo) scale))
              else if f32_ne hi 0 then Some (fp_div fp (f32_abs hi) fqmax, if f32_gt hi 0 then 0 else qmax)
              else Some (f32_one, 0));
           let inv = (if f32_ne scale 0 then fp_div fp f32_one scale else 0);
           qs \<leftarrow> all_some (map (\<lambda>i. map_option (clamp_int qmax)
                                  (ds4q_nearest_int fp (fp_add fp (fp_mul fp (gx ! i) inv) (fp_of_int fp zp)))) [0..<GROUP_LEN]);
           Some (scale, zp, qs) })"

text \<open>The packed payloads: three and two bits per element.\<close>

definition pack3_put :: "bytes \<Rightarrow> nat \<Rightarrow> int \<Rightarrow> bytes" where
  "pack3_put out b q =
     (let k = b div 8; shift = b mod 8;
          out = out[k := out ! k OR of_int (push_bit shift q AND 0xff)]
      in if shift > 5 then out[k + 1 := out ! (k + 1) OR of_int (drop_bit (8 - shift) q)] else out)"

definition pack3 :: "int list \<Rightarrow> bytes" where
  "pack3 qs = foldl (\<lambda>out i. pack3_put out (i * 3) (qs ! i)) (replicate 24 0) [0..<GROUP_LEN]"

definition pack2 :: "int list \<Rightarrow> bytes" where
  "pack2 qs = foldl (\<lambda>out i. out[i div 4 := out ! (i div 4) OR of_int (push_bit (i mod 4 * 2) (qs ! i))])
     (replicate 16 0) [0..<GROUP_LEN]"

text \<open>A block from its four groups: scales, zero points, payloads, and zero bytes to the block
  size.\<close>

definition asym_block :: "tool_fpu \<Rightarrow> (int list \<Rightarrow> bytes) \<Rightarrow> nat \<Rightarrow> (u32 \<times> int \<times> int list) list \<Rightarrow> bytes" where
  "asym_block fp pack pad groups =
     concat (map (\<lambda>(scale, zp, qs). u16_bytes (ds4q_f32_to_f16 fp scale)) groups) @
     map (\<lambda>(scale, zp, qs). of_int zp) groups @
     concat (map (\<lambda>(scale, zp, qs). pack qs) groups) @ replicate pad 0"

definition block_groups :: "(nat \<Rightarrow> frow \<Rightarrow> (u32 \<times> int \<times> int list) option) \<Rightarrow> frow \<Rightarrow> (u32 \<times> int \<times> int list) list option" where
  "block_groups f x = all_some (map (\<lambda>g. f g (drop (g * GROUP_LEN) x)) [0..<4])"

definition ds4q_write_q3_k_block_asym_g64 :: "tool_fpu \<Rightarrow> frow \<Rightarrow> bytes option" where
  "ds4q_write_q3_k_block_asym_g64 fp x =
     map_option (asym_block fp pack3 2) (block_groups (\<lambda>g. quantize_group fp 7 0x40e00000) x)"

definition ds4q_write_q2_k_block_asym_g64 :: "tool_fpu \<Rightarrow> frow \<Rightarrow> bytes option" where
  "ds4q_write_q2_k_block_asym_g64 fp x =
     map_option (asym_block fp pack2 8) (block_groups (\<lambda>g. quantize_group fp 3 0x40400000) x)"

subsection \<open>The weighted choice of a group\<close>

definition weight_or_zero :: "u32 \<Rightarrow> u32" where
  "weight_or_zero w = (if f32_isfinite w \<and> f32_gt w 0 then w else 0)"

definition fit_quants :: "tool_fpu \<Rightarrow> frow \<Rightarrow> nat \<Rightarrow> int \<Rightarrow> int \<Rightarrow> u32 \<Rightarrow> int list option" where
  "fit_quants fp x n qmax zp scale =
     (let inv = (if f32_ne scale 0 then fp_div fp f32_one scale else 0)
      in all_some (map (\<lambda>i. map_option (clamp_int qmax)
           (ds4q_nearest_int fp (fp_add fp (fp_mul fp (x ! i) inv) (fp_of_int fp zp)))) [0..<n]))"

text \<open>One of the four refinements of the scale for a zero point.\<close>

definition fit_step :: "tool_fpu \<Rightarrow> frow \<Rightarrow> frow \<Rightarrow> nat \<Rightarrow> int \<Rightarrow> int \<Rightarrow> u32 \<times> int list \<Rightarrow> (u32 \<times> int list) option" where
  "fit_step fp x w n qmax zp st =
     (case st of (scale, _) \<Rightarrow>
      do { qtmp \<leftarrow> fit_quants fp x n qmax zp scale;
           let (numer, denom) = foldl (\<lambda>(numer, denom) i.
               let wi = f_to_d fp (weight_or_zero (w ! i));
                   a = f_to_d fp (fp_of_int fp (qtmp ! i - zp))
               in (d_add fp numer (d_mul fp (d_mul fp wi (f_to_d fp (x ! i))) a),
                   d_add fp denom (d_mul fp (d_mul fp wi a) a))) (0, 0) [0..<n];
           let nxt = d_to_f fp (d_div fp numer denom);
           Some (if d_gt denom (f_to_d fp 0x26901d7d) \<and> f32_gt nxt 0 \<and> f32_isfinite nxt then nxt else scale, qtmp) })"

definition fit_error :: "tool_fpu \<Rightarrow> frow \<Rightarrow> frow \<Rightarrow> nat \<Rightarrow> int \<Rightarrow> u32 \<Rightarrow> int list \<Rightarrow> u64" where
  "fit_error fp x w n zp scale qtmp =
     foldl (\<lambda>err i.
        let deq = fp_mul fp (fp_of_int fp (qtmp ! i - zp)) scale;
            d = f_to_d fp (fp_sub fp (x ! i) deq)
        in d_add fp err (d_mul fp (d_mul fp (f_to_d fp (weight_or_zero (w ! i))) d) d)) 0 [0..<n]"

text \<open>The best zero point so far: error, scale, zero point, elements.\<close>

fun fit_iterate :: "(u32 \<times> int list \<Rightarrow> (u32 \<times> int list) option) \<Rightarrow> nat \<Rightarrow> u32 \<times> int list \<Rightarrow> (u32 \<times> int list) option" where
  "fit_iterate step 0 st = Some st"
| "fit_iterate step (Suc k) st = (case step st of None \<Rightarrow> None | Some st \<Rightarrow> fit_iterate step k st)"

fun fit_zero_points ::
  "tool_fpu \<Rightarrow> frow \<Rightarrow> frow \<Rightarrow> nat \<Rightarrow> int \<Rightarrow> u32 \<Rightarrow> int list \<Rightarrow> u32 \<times> u32 \<times> int \<times> int list \<Rightarrow>
   (u32 \<times> u32 \<times> int \<times> int list) option" where
  "fit_zero_points fp x w n qmax init_scale [] best = Some best"
| "fit_zero_points fp x w n qmax init_scale (zp # zps) best =
     (case fit_iterate (fit_step fp x w n qmax zp) 4 (init_scale, replicate 64 0) of
        None \<Rightarrow> None
      | Some (scale, qtmp) \<Rightarrow>
          let err = fit_error fp x w n zp scale qtmp
          in fit_zero_points fp x w n qmax init_scale zps
               (if d_gt (f_to_d fp (fst best)) err then (d_to_f fp err, scale, zp, qtmp) else best))"

text \<open>\<open>None\<close> when an assertion aborts, \<open>Some None\<close> when the function returns 0.\<close>

definition ds4q_pick_weighted_asym_group ::
  "tool_fpu \<Rightarrow> frow \<Rightarrow> frow \<Rightarrow> nat \<Rightarrow> int \<Rightarrow> (u32 \<times> int \<times> int list) option option" where
  "ds4q_pick_weighted_asym_group fp x w n qmax =
     (let (lo, hi, wsum) = foldl (\<lambda>(lo, hi, wsum) i.
            (if f32_gt lo (x ! i) then x ! i else lo, if f32_gt (x ! i) hi then x ! i else hi,
             fp_add fp wsum (weight_or_zero (w ! i)))) (x ! 0, x ! 0, 0) [0..<n]
      in if f32_ge 0x26901d7d wsum then Some None
      else
      let fqmax = fp_of_int fp qmax;
          init_scale = (if f32_ne hi lo then fp_div fp (fp_sub fp hi lo) fqmax
                        else if f32_ne hi 0 then fp_div fp (f32_abs hi) fqmax else f32_one);
          init_scale = (if \<not> f32_gt init_scale 0 \<or> \<not> f32_isfinite init_scale then f32_one else init_scale)
      in case fit_zero_points fp x w n qmax init_scale [0..qmax] (0x7f800000, f32_one, 0, replicate 64 0) of
           None \<Rightarrow> None
         | Some (best_err, best_scale, best_zp, best_q) \<Rightarrow>
             if \<not> f32_isfinite best_err \<or> \<not> f32_gt best_scale 0 then Some None
             else Some (Some (best_scale, best_zp, take n best_q)))"

text \<open>A group of a weighted block: the weighted choice, or the group of the unweighted block,
  for which the whole block is quantised.\<close>

definition weighted_group ::
  "tool_fpu \<Rightarrow> int \<Rightarrow> u32 \<Rightarrow> frow \<Rightarrow> frow \<Rightarrow> nat \<Rightarrow> (u32 \<times> int \<times> int list) option" where
  "weighted_group fp qmax fqmax x w g =
     (case ds4q_pick_weighted_asym_group fp (drop (g * GROUP_LEN) x) (drop (g * GROUP_LEN) w) GROUP_LEN qmax of
        None \<Rightarrow> None
      | Some (Some r) \<Rightarrow> Some r
      | Some None \<Rightarrow> map_option (\<lambda>gs. gs ! g) (block_groups (\<lambda>g. quantize_group fp qmax fqmax) x))"

definition ds4q_write_q3_k_block_asym_g64_weighted :: "tool_fpu \<Rightarrow> frow \<Rightarrow> frow option \<Rightarrow> bytes option" where
  "ds4q_write_q3_k_block_asym_g64_weighted fp x imatrix =
     (case imatrix of
        None \<Rightarrow> ds4q_write_q3_k_block_asym_g64 fp x
      | Some w \<Rightarrow> map_option (asym_block fp pack3 2) (block_groups (\<lambda>g _. weighted_group fp 7 0x40e00000 x w g) x))"

definition ds4q_write_q2_k_block_asym_g64_weighted :: "tool_fpu \<Rightarrow> frow \<Rightarrow> frow option \<Rightarrow> bytes option" where
  "ds4q_write_q2_k_block_asym_g64_weighted fp x imatrix =
     (case imatrix of
        None \<Rightarrow> ds4q_write_q2_k_block_asym_g64 fp x
      | Some w \<Rightarrow> map_option (asym_block fp pack2 8) (block_groups (\<lambda>g _. weighted_group fp 3 0x40400000 x w g) x))"

subsection \<open>Rows and chunks\<close>

text \<open>The blocks of one row, of \<open>len\<close> elements each.\<close>

definition row_blocks :: "(frow \<Rightarrow> nat \<Rightarrow> bytes option) \<Rightarrow> nat \<Rightarrow> nat \<Rightarrow> frow \<Rightarrow> bytes option" where
  "row_blocks block len ncols xrow =
     map_option concat (all_some (map (\<lambda>b. block (drop (b * len) xrow) b) [0..<ncols div len]))"

text \<open>The row writers. An importance matrix holds one weight per column.\<close>

definition quantize_row_q8_0 :: "tool_fpu \<Rightarrow> nat \<Rightarrow> frow \<Rightarrow> bytes option" where
  "quantize_row_q8_0 fp ncols xrow = row_blocks (\<lambda>x b. Some (q8_0_block fp x)) Q8_LEN ncols xrow"

definition quantize_row_q3_k :: "tool_fpu \<Rightarrow> nat \<Rightarrow> frow option \<Rightarrow> frow \<Rightarrow> bytes option" where
  "quantize_row_q3_k fp ncols imatrix xrow =
     row_blocks (\<lambda>x b. case imatrix of
         Some w \<Rightarrow> ds4q_write_q3_k_block_asym_g64_weighted fp x (Some (drop (b * 256) w))
       | None \<Rightarrow> ds4q_write_q3_k_block_asym_g64 fp x) 256 ncols xrow"

definition quantize_row_q2_k :: "tool_fpu \<Rightarrow> nat \<Rightarrow> frow option \<Rightarrow> frow \<Rightarrow> bytes option" where
  "quantize_row_q2_k fp ncols imatrix xrow =
     row_blocks (\<lambda>x b. case imatrix of
         Some w \<Rightarrow> ds4q_write_q2_k_block_asym_g64_weighted fp x (Some (drop (b * 256) w))
       | None \<Rightarrow> ds4q_write_q2_k_block_asym_g64 fp x) 256 ncols xrow"

definition quantize_row :: "tool_fpu \<Rightarrow> u32 \<Rightarrow> nat \<Rightarrow> frow option \<Rightarrow> frow \<Rightarrow> bytes option" where
  "quantize_row fp type ncols imatrix xrow =
     (if type = SF37_TENSOR_Q8_0 then quantize_row_q8_0 fp ncols xrow
      else if type = SF37_TENSOR_Q2_K then quantize_row_q2_k fp ncols imatrix xrow
      else if type = SF37_TENSOR_Q3_K then quantize_row_q3_k fp ncols imatrix xrow
      else None)"

text \<open>\<open>ds4q_quantize_chunk\<close> on whole rows: the writes it makes, as row numbers of the destination
  with their bytes.\<close>

type_synonym row_writes = "(nat \<times> bytes) list"

definition ds4q_quantize_chunk ::
  "tool_fpu \<Rightarrow> u32 \<Rightarrow> frow \<Rightarrow> nat \<Rightarrow> nat \<Rightarrow> nat \<Rightarrow> frow option \<Rightarrow> row_writes option" where
  "ds4q_quantize_chunk fp type src start nrows ncols imatrix =
     (let start_row = start div ncols
      in all_some (map (\<lambda>row. map_option (Pair (start_row + row))
           (quantize_row fp type ncols imatrix (drop (start + row * ncols) src))) [0..<nrows]))"

subsection \<open>The parallel conversion\<close>

record sf37_quant_job =
  qj_row0 :: nat
  qj_nrows :: nat

text \<open>One worker; \<open>rows\<close> is never 0 with a positive number of rows per expert. With an importance matrix of a routed tensor it goes expert by expert, each with
  its own slice of the matrix.\<close>

function worker_experts ::
  "(nat \<Rightarrow> nat \<Rightarrow> nat \<Rightarrow> row_writes option) \<Rightarrow> nat \<Rightarrow> nat \<Rightarrow> nat \<Rightarrow> nat \<Rightarrow> row_writes option" where
  "worker_experts chunk expert_rows n_experts row end0 =
     (if \<not> row < end0 then Some []
      else let expert = row div expert_rows
           in if \<not> expert < n_experts then Some []
           else let expert_end = (expert + 1) * expert_rows;
                    rows = (if end0 < expert_end then end0 else expert_end) - row
                in if rows = 0 then None
                else do { w \<leftarrow> chunk expert row rows;
                          ws \<leftarrow> worker_experts chunk expert_rows n_experts (row + rows) end0;
                          Some (w @ ws) })"
  by pat_completeness auto
termination
  by (relation "measure (\<lambda>(_, _, _, row, end0). end0 - row)") auto

declare worker_experts.simps [simp del]

definition sf37_quant_worker ::
  "tool_fpu \<Rightarrow> u32 \<Rightarrow> frow \<Rightarrow> nat \<Rightarrow> frow option \<Rightarrow> nat \<Rightarrow> nat \<Rightarrow> sf37_quant_job \<Rightarrow> row_writes option" where
  "sf37_quant_worker fp type src ncols imatrix expert_rows n_experts job =
     (case imatrix of
        Some im \<Rightarrow>
          if expert_rows > 0 \<and> n_experts > 0
          then worker_experts (\<lambda>expert row rows.
                 ds4q_quantize_chunk fp type src (row * ncols) rows ncols (Some (drop (expert * ncols) im)))
                 expert_rows n_experts (qj_row0 job) (qj_row0 job + qj_nrows job)
          else ds4q_quantize_chunk fp type src (qj_row0 job * ncols) (qj_nrows job) ncols imatrix
      | None \<Rightarrow> ds4q_quantize_chunk fp type src (qj_row0 job * ncols) (qj_nrows job) ncols None)"

text \<open>The jobs: consecutive rows, the first ones one row longer.\<close>

fun make_jobs :: "nat \<Rightarrow> nat \<Rightarrow> nat \<Rightarrow> nat list \<Rightarrow> sf37_quant_job list" where
  "make_jobs nrows workers base [] = []"
| "make_jobs nrows workers base (i # is) =
     (let rows = nrows div workers + (if i < nrows mod workers then 1 else 0)
      in \<lparr>qj_row0 = base, qj_nrows = rows\<rparr> # make_jobs nrows workers (base + rows) is)"

definition apply_writes :: "bytes list \<Rightarrow> row_writes \<Rightarrow> bytes list" where
  "apply_writes = foldl (\<lambda>buf (r, b). buf[r := b])"

text \<open>\<open>merge ws\<close> is the order in which the threads' writes reach the buffer, \<open>fresh\<close> the rows
  as \<open>malloc\<close> gives them.\<close>

definition f32_to_type :: "tool_fpu \<Rightarrow> frow \<Rightarrow> nat \<Rightarrow> u32 \<Rightarrow> nat \<Rightarrow> frow option \<Rightarrow> bytes list \<Rightarrow> bytes option" where
  "f32_to_type fp src n type ncols imat fresh =
     (if ncols = 0 \<or> n mod ncols \<noteq> 0 then None
      else if type = SF37_TENSOR_F32 then Some (host_u32s (take n src))
      else if type = SF37_TENSOR_F16 then Some (concat (map u16_bytes (ds4q_f32_to_f16_row fp src n)))
      else if type = SF37_TENSOR_BF16 then Some (concat (map u16_bytes (ds4q_f32_to_bf16_row src n)))
      else if int ncols mod ds4q_block_size type \<noteq> 0 then None
      else map_option (\<lambda>ws. concat (apply_writes fresh ws)) (ds4q_quantize_chunk fp type src 0 (n div ncols) ncols imat))"

definition sf37_f32_to_type_parallel ::
  "tool_fpu \<Rightarrow> (row_writes list \<Rightarrow> row_writes) \<Rightarrow> bytes list \<Rightarrow> frow \<Rightarrow> nat \<Rightarrow> u32 \<Rightarrow> nat \<Rightarrow> int \<Rightarrow> frow option \<Rightarrow>
   nat \<Rightarrow> nat \<Rightarrow> bytes option" where
  "sf37_f32_to_type_parallel fp merge fresh src n type ncols n_threads imatrix expert_rows n_experts =
     (if \<not> sf37_is_quant_type type then f32_to_type fp src n type ncols None fresh
      else if n_threads \<le> 1 \<and> (imatrix = None \<or> expert_rows = 0) then f32_to_type fp src n type ncols imatrix fresh
      else if ncols = 0 \<or> n mod ncols \<noteq> 0 then None
      else if int ncols mod ds4q_block_size type \<noteq> 0 then None
      else
      let nrows = n div ncols in
      if nrows \<le> 1 \<and> (imatrix = None \<or> expert_rows = 0) then f32_to_type fp src n type ncols imatrix fresh
      else if expert_rows > 0 \<and> n_experts > 0 \<and> nrows \<noteq> expert_rows * n_experts then None
      else
      let workers = (if n_threads < 1 then 1 else nat n_threads);
          workers = (if workers > nrows then nrows else workers);
          jobs = make_jobs nrows workers 0 [0..<workers]
      in map_option (\<lambda>wss. concat (apply_writes fresh (merge wss)))
           (all_some (map (sf37_quant_worker fp type src ncols imatrix expert_rows n_experts) jobs)))"

subsection \<open>Packed payloads are read back\<close>

lemma small_bit: "0 \<le> q \<Longrightarrow> q < 2 ^ k \<Longrightarrow> bit (q :: int) n \<Longrightarrow> n < k"
  by (metis bit_take_bit_iff take_bit_int_eq_self)

lemma length_pack3_put [simp]: "length (pack3_put out b q) = length out"
  by (simp add: pack3_put_def Let_def)

text \<open>The payload as one sequence of bits: element \<open>n div 3\<close>, bit \<open>n mod 3\<close>.\<close>

definition bits_packed :: "nat \<Rightarrow> nat \<Rightarrow> int list \<Rightarrow> nat \<Rightarrow> bytes \<Rightarrow> bool" where
  "bits_packed w len qs m out \<longleftrightarrow> length out = len \<and>
     (\<forall>k<len. \<forall>n<8. bit (out ! k) n \<longleftrightarrow> 8 * k + n < w * m \<and> bit (qs ! ((8 * k + n) div w)) ((8 * k + n) mod w))"

lemma pack3_put_bit:
  assumes q: "0 \<le> q" "q \<le> 7" and k: "k < length out" and n: "n < 8" and b: "b + 2 < 8 * length out"
  shows "bit (pack3_put out b q ! k) n \<longleftrightarrow> bit (out ! k) n \<or> (b \<le> 8 * k + n \<and> 8 * k + n < b + 3 \<and> bit q (8 * k + n - b))"
proof -
  define k0 s where "k0 = b div 8" and "s = b mod 8"
  have b8: "b = 8 * k0 + s" "s < 8"
    by (simp_all add: k0_def s_def)
  have k0: "k0 < length out" "s > 5 \<Longrightarrow> k0 + 1 < length out"
    using b b8 by linarith+
  have small: "bit q j \<Longrightarrow> j < 3" for j
    using small_bit [of q 3 j] q by simp
  have m: "bit (0xff :: int) n"
    using n bit_mask_iff [of 8 n, where ?'a = int] by (simp add: mask_eq_exp_minus_1)
  have first: "bit (of_int (push_bit s q AND 0xff) :: byte) n \<longleftrightarrow> s \<le> n \<and> bit q (n - s)"
    using n m by (simp add: bit_of_int_iff bit_and_iff bit_push_bit_iff)
  have second: "bit (of_int (drop_bit (8 - s) q) :: byte) n \<longleftrightarrow> bit q (8 - s + n)"
    using n by (simp add: bit_of_int_iff bit_drop_bit_eq)
  have upd: "pack3_put out b q ! k =
      (if k = k0 then out ! k OR of_int (push_bit s q AND 0xff)
       else if s > 5 \<and> k = k0 + 1 then out ! k OR of_int (drop_bit (8 - s) q) else out ! k)"
    using k k0 by (auto simp: pack3_put_def Let_def k0_def [symmetric] s_def [symmetric] nth_list_update)
  consider "k = k0" | "k = k0 + 1" "s > 5" | "k \<noteq> k0" "\<not> (s > 5 \<and> k = k0 + 1)"
    by blast
  then show ?thesis
  proof cases
    case 1
    have "s \<le> n \<and> bit q (n - s) \<longleftrightarrow> b \<le> 8 * k + n \<and> 8 * k + n < b + 3 \<and> bit q (8 * k + n - b)"
      using small [of "n - s"] by (auto simp: b8 1)
    moreover have "pack3_put out b q ! k = out ! k OR of_int (push_bit s q AND 0xff)"
      unfolding upd by (simp add: 1)
    ultimately show ?thesis
      by (simp add: bit_or_iff first)
  next
    case 2
    have "8 * k + n - b = 8 - s + n"
      using b8 2 by simp
    then have "bit q (8 - s + n) \<longleftrightarrow> b \<le> 8 * k + n \<and> 8 * k + n < b + 3 \<and> bit q (8 * k + n - b)"
      using small [of "8 - s + n"] b8 2 by auto
    moreover have "pack3_put out b q ! k = out ! k OR of_int (drop_bit (8 - s) q)"
      unfolding upd by (simp add: 2)
    ultimately show ?thesis
      by (simp add: bit_or_iff second)
  next
    case 3
    have "\<not> (b \<le> 8 * k + n \<and> 8 * k + n < b + 3)"
      using 3 b8 n by linarith
    moreover have "pack3_put out b q ! k = out ! k"
      unfolding upd using 3 by auto
    ultimately show ?thesis
      by auto
  qed
qed

lemma pack3_packed:
  assumes "\<forall>q \<in> set qs. 0 \<le> q \<and> q \<le> 7" and "length qs = GROUP_LEN"
  shows "bits_packed 3 24 qs GROUP_LEN (pack3 qs)"
proof -
  have "bits_packed 3 24 qs m (foldl (\<lambda>out i. pack3_put out (i * 3) (qs ! i)) (replicate 24 0) [0..<m])" if "m \<le> GROUP_LEN" for m
    using that
  proof (induction m)
    case 0
    show ?case
      by (simp add: bits_packed_def nth_replicate)
  next
    case (Suc m)
    let ?out = "foldl (\<lambda>out i. pack3_put out (i * 3) (qs ! i)) (replicate 24 0) [0..<m]"
    have IH: "length ?out = 24" "\<And>k n. k < 24 \<Longrightarrow> n < 8 \<Longrightarrow>
        bit (?out ! k) n \<longleftrightarrow> 8 * k + n < 3 * m \<and> bit (qs ! ((8 * k + n) div 3)) ((8 * k + n) mod 3)"
      using Suc by (simp_all add: bits_packed_def)
    have q: "0 \<le> qs ! m" "qs ! m \<le> 7"
      using assms Suc.prems by simp_all
    have b: "m * 3 + 2 < 8 * length ?out"
      using Suc.prems by (simp add: IH GROUP_LEN_def)
    have "bit (pack3_put ?out (m * 3) (qs ! m) ! k) n \<longleftrightarrow>
        8 * k + n < 3 * Suc m \<and> bit (qs ! ((8 * k + n) div 3)) ((8 * k + n) mod 3)" if kn: "k < 24" "n < 8" for k n
    proof (cases "m * 3 \<le> 8 * k + n \<and> 8 * k + n < m * 3 + 3")
      case True
      then have d: "(8 * k + n) div 3 = m"
        by linarith
      then have "(8 * k + n) mod 3 = 8 * k + n - m * 3"
        using minus_div_mult_eq_mod [of "8 * k + n" 3] by simp
      note this d
      then show ?thesis
        using True pack3_put_bit [OF q _ kn(2) b, of k] kn by (simp add: IH)
    next
      case False
      then have "8 * k + n < 3 * Suc m \<longleftrightarrow> 8 * k + n < 3 * m"
        by auto
      then show ?thesis
        using False pack3_put_bit [OF q _ kn(2) b, of k] kn by (auto simp: IH)
    qed
    then show ?case
      by (simp add: bits_packed_def IH)
  qed
  then show ?thesis
    unfolding pack3_def by blast
qed

lemma q3_get_pack3:
  assumes "\<forall>q \<in> set qs. 0 \<le> q \<and> q \<le> 7" and "length qs = GROUP_LEN" and i: "i < GROUP_LEN"
  shows "q3_get (pack3 qs) i = of_int (qs ! i)"
proof (rule bit_word_eqI)
  fix j assume "j < LENGTH(32)"
  define k s where "k = i * 3 div 8" and "s = i * 3 mod 8"
  have e: "i * 3 = 8 * k + s" "s < 8"
    by (simp_all add: k_def s_def)
  have P: "\<And>k n. k < 24 \<Longrightarrow> n < 8 \<Longrightarrow> bit (pack3 qs ! k) n \<longleftrightarrow>
      8 * k + n < 3 * GROUP_LEN \<and> bit (qs ! ((8 * k + n) div 3)) ((8 * k + n) mod 3)"
    using pack3_packed [OF assms(1,2)] by (simp add: bits_packed_def)
  have "qs ! i \<in> set qs"
    using assms by simp
  then have q: "0 \<le> qs ! i" "qs ! i < 8"
    using assms(1) by force+
  have rhs: "bit (of_int (qs ! i) :: u32) j \<longleftrightarrow> j < 3 \<and> bit (qs ! i) j"
    using small_bit [of "qs ! i" 3 j] q by (auto simp: bit_of_int_iff)
  have seven: "bit (7 :: u32) j \<longleftrightarrow> j < 3"
    using bit_mask_iff [of 3 j, where ?'a = u32] by (auto simp: mask_eq_exp_minus_1)
  have lhs: "bit (q3_get (pack3 qs) i) j \<longleftrightarrow> j < 3 \<and>
     (j + s < 8 \<and> bit (pack3 qs ! k) (s + j) \<or> 5 < s \<and> 8 - s \<le> j \<and> bit (pack3 qs ! (k + 1)) (j - (8 - s)))"
    unfolding q3_get_def Let_def k_def [symmetric] s_def [symmetric] bit_and_iff seven
    by (auto simp: bit_or_iff bit_unsigned_iff bit_drop_bit_eq bit_push_bit_iff add.commute
        dest: bit_imp_le_length [where ?'a = 8])
  have pos: "(i * 3 + j) div 3 = i" "(i * 3 + j) mod 3 = j" if "j < 3"
    using that by simp_all
  have bound: "i * 3 + j < 3 * GROUP_LEN" if "j < 3"
    using i that by linarith
  show "bit (q3_get (pack3 qs) i) j \<longleftrightarrow> bit (of_int (qs ! i) :: u32) j"
  proof (cases "j < 3")
    case True
    have "i * 3 + j < 192"
      using bound True by (simp add: GROUP_LEN_def)
    then have k: "k < 24" "j + s \<ge> 8 \<Longrightarrow> k + 1 < 24"
      using e by linarith+
    show ?thesis
    proof (cases "j + s < 8")
      case inner: True
      have p: "8 * k + (s + j) = i * 3 + j"
        using e by simp
      have "bit (pack3 qs ! k) (s + j) \<longleftrightarrow> bit (qs ! i) j"
        using P [OF k(1), of "s + j"] inner bound [OF True] unfolding p pos [OF True] by (simp add: add.commute)
      then show ?thesis
        using inner True by (auto simp: lhs rhs)
    next
      case False
      then have p: "8 * (k + 1) + (j - (8 - s)) = i * 3 + j" "j - (8 - s) < 8" "5 < s" "8 - s \<le> j"
        using e True by auto
      then show ?thesis
        using False True P [OF k(2) p(2)] pos [OF True] bound [OF True] by (simp add: lhs rhs del: One_nat_def)
    qed
  qed (simp add: lhs rhs)
qed

lemma quad_skip:
  assumes "k \<noteq> m div 4" and "n < 8"
  shows "8 * k + n < 2 * Suc m \<longleftrightarrow> 8 * k + n < 2 * (m :: nat)"
proof -
  have "\<not> (2 * m \<le> 8 * k + n \<and> 8 * k + n < 2 * m + 2)"
  proof
    assume a: "2 * m \<le> 8 * k + n \<and> 8 * k + n < 2 * m + 2"
    then have "4 * k \<le> m" "m < 4 * k + 4"
      using assms(2) by linarith+
    then have "m div 4 = k"
      by linarith
    then show False
      using assms(1) by simp
  qed
  then show ?thesis
    by auto
qed

lemma quad_pos: "8 * (i div 4) + i mod 4 * 2 = 2 * (i :: nat)"
  by presburger

lemma pack2_packed:
  assumes "\<forall>q \<in> set qs. 0 \<le> q \<and> q \<le> 3" and "length qs = GROUP_LEN"
  shows "bits_packed 2 16 qs GROUP_LEN (pack2 qs)"
proof -
  have "bits_packed 2 16 qs m (foldl (\<lambda>out i. out[i div 4 := out ! (i div 4) OR of_int (push_bit (i mod 4 * 2) (qs ! i))])
     (replicate 16 0) [0..<m])" if "m \<le> GROUP_LEN" for m
    using that
  proof (induction m)
    case 0
    show ?case
      by (simp add: bits_packed_def nth_replicate)
  next
    case (Suc m)
    let ?out = "foldl (\<lambda>(out :: bytes) i. out[i div 4 := out ! (i div 4) OR of_int (push_bit (i mod 4 * 2) (qs ! i))])
     (replicate 16 0) [0..<m]"
    have IH: "length ?out = 16" "\<And>k n. k < 16 \<Longrightarrow> n < 8 \<Longrightarrow>
        bit (?out ! k) n \<longleftrightarrow> 8 * k + n < 2 * m \<and> bit (qs ! ((8 * k + n) div 2)) ((8 * k + n) mod 2)"
      using Suc by (simp_all add: bits_packed_def)
    have "qs ! m \<in> set qs"
      using assms Suc.prems by simp
    then have q: "0 \<le> qs ! m" "qs ! m < 2 ^ 2"
      using assms(1) by force+
    have small: "bit (qs ! m) j \<Longrightarrow> j < 2" for j
      using small_bit [OF q] .
    have "bit (?out[m div 4 := ?out ! (m div 4) OR of_int (push_bit (m mod 4 * 2) (qs ! m))] ! k) n \<longleftrightarrow>
        8 * k + n < 2 * Suc m \<and> bit (qs ! ((8 * k + n) div 2)) ((8 * k + n) mod 2)" if kn: "k < 16" "n < 8" for k n
    proof (cases "k = m div 4")
      case True
      have e: "8 * k + m mod 4 * 2 = 2 * m"
        unfolding True by (rule quad_pos)
      have new: "bit (of_int (push_bit (m mod 4 * 2) (qs ! m)) :: byte) n \<longleftrightarrow>
          m mod 4 * 2 \<le> n \<and> bit (qs ! m) (n - m mod 4 * 2)"
        using kn by (simp add: bit_of_int_iff bit_push_bit_iff)
      have upd: "?out[m div 4 := ?out ! (m div 4) OR of_int (push_bit (m mod 4 * 2) (qs ! m))] ! k =
          ?out ! k OR of_int (push_bit (m mod 4 * 2) (qs ! m))"
        using True kn by (simp add: IH)
      show ?thesis
      proof (cases "2 * m \<le> 8 * k + n \<and> 8 * k + n < 2 * m + 2")
        case inner: True
        then have d: "(8 * k + n) div 2 = m"
          by linarith
        have "(8 * k + n) mod 2 = 8 * k + n - m * 2"
          using minus_div_mult_eq_mod [of "8 * k + n" 2] unfolding d by (rule sym)
        also have "\<dots> = n - m mod 4 * 2"
          using e by linarith
        finally have r: "(8 * k + n) mod 2 = n - m mod 4 * 2" .
        have c: "m mod 4 * 2 \<le> n"
          using inner e by linarith
        have c2: "8 * k + n < 2 * Suc m" "\<not> 8 * k + n < 2 * m"
          using inner by auto
        show ?thesis
          unfolding upd bit_or_iff new IH(2) [OF kn] d r using c c2 by blast
      next
        case False
        then have "\<not> (m mod 4 * 2 \<le> n \<and> bit (qs ! m) (n - m mod 4 * 2))"
          using e small [of "n - m mod 4 * 2"] by linarith
        moreover have "8 * k + n < 2 * Suc m \<longleftrightarrow> 8 * k + n < 2 * m"
          using False by auto
        ultimately show ?thesis
          unfolding upd bit_or_iff new IH(2) [OF kn] by blast
      qed
    next
      case False
      then have "8 * k + n < 2 * Suc m \<longleftrightarrow> 8 * k + n < 2 * m"
        by (rule quad_skip [OF _ kn(2)])
      moreover have "?out[m div 4 := ?out ! (m div 4) OR of_int (push_bit (m mod 4 * 2) (qs ! m))] ! k = ?out ! k"
        using False by simp
      ultimately show ?thesis
        using IH(2) [OF kn] by simp
    qed
    then show ?case
      unfolding bits_packed_def upt_Suc_append [OF le0] foldl_append foldl.simps length_list_update IH(1) by blast
  qed
  then show ?thesis
    unfolding pack2_def by blast
qed

lemma q2_get_pack2:
  assumes "\<forall>q \<in> set qs. 0 \<le> q \<and> q \<le> 3" and "length qs = GROUP_LEN" and i: "i < GROUP_LEN"
  shows "q2_get (pack2 qs) i = of_int (qs ! i)"
proof (rule bit_word_eqI)
  fix j assume "j < LENGTH(32)"
  have e: "8 * (i div 4) + i mod 4 * 2 = 2 * i"
    by (rule quad_pos)
  have e6: "i mod 4 * 2 \<le> 6"
    by presburger
  have k: "i div 4 < 16"
    using i by (simp add: GROUP_LEN_def)
  have "qs ! i \<in> set qs"
    using assms by simp
  then have q: "0 \<le> qs ! i" "qs ! i < 2 ^ 2"
    using assms(1) by force+
  have rhs: "bit (of_int (qs ! i) :: u32) j \<longleftrightarrow> j < 2 \<and> bit (qs ! i) j"
    using small_bit [OF q, of j] by (auto simp: bit_of_int_iff)
  have three: "bit (3 :: u32) j \<longleftrightarrow> j < 2"
    using bit_mask_iff [of 2 j, where ?'a = u32] by (auto simp: mask_eq_exp_minus_1)
  have lhs: "bit (q2_get (pack2 qs) i) j \<longleftrightarrow> j < 2 \<and> bit (pack2 qs ! (i div 4)) (i mod 4 * 2 + j)"
    unfolding q2_get_def bit_and_iff three by (auto simp: bit_unsigned_iff bit_drop_bit_eq)
  have "bit (pack2 qs ! (i div 4)) (i mod 4 * 2 + j) \<longleftrightarrow> bit (qs ! i) j" if "j < 2"
  proof -
    have n: "i mod 4 * 2 + j < 8" and p: "8 * (i div 4) + (i mod 4 * 2 + j) = 2 * i + j"
      using e e6 that by linarith+
    have d: "(2 * i + j) div 2 = i" "(2 * i + j) mod 2 = j"
      using that by simp_all
    have "2 * i + j < 2 * GROUP_LEN"
      using i that by linarith
    then show ?thesis
      using pack2_packed [OF assms(1,2)] k n unfolding bits_packed_def by (metis p d)
  qed
  then show "bit (q2_get (pack2 qs) i) j \<longleftrightarrow> bit (of_int (qs ! i) :: u32) j"
    by (auto simp: lhs rhs)
qed

subsection \<open>The groups of a block\<close>

lemma all_some_eq: "all_some xs = Some ys \<longleftrightarrow> xs = map Some ys"
  by (induction xs arbitrary: ys rule: all_some.induct) auto

lemma all_some_map: "all_some (map f xs) = Some ys \<longleftrightarrow> length ys = length xs \<and> (\<forall>i < length xs. f (xs ! i) = Some (ys ! i))"
  by (auto simp: all_some_eq list_eq_iff_nth_eq)

text \<open>A group as it fits the format: the zero point and every element between 0 and \<open>qmax\<close>.\<close>

fun group_ok :: "int \<Rightarrow> u32 \<times> int \<times> int list \<Rightarrow> bool" where
  "group_ok qmax (scale, zp, qs) \<longleftrightarrow>
     0 \<le> zp \<and> zp \<le> qmax \<and> length qs = GROUP_LEN \<and> (\<forall>q \<in> set qs. 0 \<le> q \<and> q \<le> qmax)"

lemma clamp_int_range: "0 \<le> qmax \<Longrightarrow> 0 \<le> clamp_int qmax q \<and> clamp_int qmax q \<le> qmax"
  by (simp add: clamp_int_def)

lemma clamped_list:
  assumes "all_some (map (\<lambda>i. map_option (clamp_int qmax) (f i)) [0..<n]) = Some qs" and "0 \<le> qmax"
  shows "length qs = n \<and> (\<forall>q \<in> set qs. 0 \<le> q \<and> q \<le> qmax)"
proof -
  have len: "length qs = n" and "\<forall>i<n. map_option (clamp_int qmax) (f i) = Some (qs ! i)"
    using assms(1) by (auto simp: all_some_map)
  then have m: "map_option (clamp_int qmax) (f i) = Some (qs ! i)" if "i < n" for i
    using that by blast
  have q: "\<exists>z. clamp_int qmax z = qs ! i" if "i < n" for i
    using m [OF that] by (cases "f i") auto
  then show ?thesis
    using clamp_int_range [OF assms(2)] len by (metis in_set_conv_nth)
qed

lemma quantize_group_ok:
  assumes "quantize_group fp qmax fqmax gx = Some g" and "0 \<le> qmax"
  shows "group_ok qmax g"
  using assms clamp_int_range [OF assms(2)]
  by (auto simp: quantize_group_def Let_def split: prod.splits bind_splits if_splits dest!: clamped_list)


lemma block_groups_length: "block_groups f x = Some gs \<Longrightarrow> length gs = 4"
  by (auto simp: block_groups_def all_some_map)

lemma block_groups_ok:
  assumes "block_groups f x = Some gs" and "\<And>g y r. f g y = Some r \<Longrightarrow> group_ok qmax r"
  shows "\<forall>g \<in> set gs. group_ok qmax g"
proof
  fix g assume "g \<in> set gs"
  then obtain i where "i < 4" "g = gs ! i"
    using block_groups_length [OF assms(1)] by (metis in_set_conv_nth)
  then have "f i (drop (i * GROUP_LEN) x) = Some g"
    using assms(1) by (auto simp: block_groups_def all_some_map)
  then show "group_ok qmax g"
    by (rule assms(2))
qed

lemma fit_quants_ok:
  "fit_quants fp x n qmax zp scale = Some qs \<Longrightarrow> 0 \<le> qmax \<Longrightarrow> length qs = n \<and> (\<forall>q \<in> set qs. 0 \<le> q \<and> q \<le> qmax)"
  unfolding fit_quants_def Let_def by (rule clamped_list)

lemma fit_step_ok:
  assumes "fit_step fp x w n qmax zp (s, q0) = Some (scale, qs)" and "0 \<le> qmax"
  shows "length qs = n \<and> (\<forall>q \<in> set qs. 0 \<le> q \<and> q \<le> qmax)"
proof -
  have "fit_quants fp x n qmax zp s = Some qs"
    using assms(1) unfolding fit_step_def prod.case
    by (cases "fit_quants fp x n qmax zp s") (simp_all add: Let_def split_def)
  then show ?thesis
    using assms(2) by (rule fit_quants_ok)
qed

lemma fit_iterate_ok:
  assumes "\<And>st scale qs. step st = Some (scale, qs) \<Longrightarrow> Q qs" and "fit_iterate step k st = Some (scale, qs)"
    and "Q (snd st)"
  shows "Q qs"
  using assms(2,3)
proof (induction k arbitrary: st)
  case (Suc k)
  then obtain st' where s: "step st = Some st'" and it: "fit_iterate step k st' = Some (scale, qs)"
    by (auto split: option.splits)
  have "Q (snd st')"
    using assms(1) s by (metis prod.collapse)
  then show ?case
    by (rule Suc.IH [OF it])
qed simp

fun best_ok :: "int \<Rightarrow> u32 \<times> u32 \<times> int \<times> int list \<Rightarrow> bool" where
  "best_ok qmax (err, g) \<longleftrightarrow> group_ok qmax g"

lemma fit_zero_points_ok:
  assumes "fit_zero_points fp x w GROUP_LEN qmax s0 zps best = Some r" and "0 \<le> qmax"
    and "set zps \<subseteq> {0..qmax}" and "best_ok qmax best"
  shows "best_ok qmax r"
  using assms(1,3,4)
proof (induction zps arbitrary: best)
  case (Cons z zps)
  then obtain s q where it: "fit_iterate (fit_step fp x w GROUP_LEN qmax z) 4 (s0, replicate 64 0) = Some (s, q)"
    by (auto split: option.splits)
  have q: "length q = GROUP_LEN \<and> (\<forall>q \<in> set q. 0 \<le> q \<and> q \<le> qmax)"
  proof (rule fit_iterate_ok [OF _ it])
    show "length qs = GROUP_LEN \<and> (\<forall>q \<in> set qs. 0 \<le> q \<and> q \<le> qmax)"
      if "fit_step fp x w GROUP_LEN qmax z st = Some (scale, qs)" for st scale qs
      using fit_step_ok [OF _ assms(2)] that by (cases st) blast
  qed (use assms(2) in \<open>simp add: GROUP_LEN_def\<close>)
  let ?best = "if d_gt (f_to_d fp (fst best)) (fit_error fp x w GROUP_LEN z s q)
        then (d_to_f fp (fit_error fp x w GROUP_LEN z s q), s, z, q) else best"
  have "best_ok qmax ?best"
    using Cons.prems(2,3) q by simp
  moreover have "fit_zero_points fp x w GROUP_LEN qmax s0 zps ?best = Some r"
    using Cons.prems(1) by (simp only: fit_zero_points.simps it option.case prod.case Let_def)
  ultimately show ?case
    using Cons.IH Cons.prems(2) by simp
qed simp

lemma pick_ok:
  assumes "ds4q_pick_weighted_asym_group fp x w GROUP_LEN qmax = Some (Some g)" and "0 \<le> qmax"
  shows "group_ok qmax g"
proof -
  obtain s0 err scale zp qs where z: "fit_zero_points fp x w GROUP_LEN qmax s0 [0..qmax]
        (0x7f800000, f32_one, 0, replicate 64 0) = Some (err, scale, zp, qs)"
    and g: "g = (scale, zp, take GROUP_LEN qs)"
    using assms(1) by (auto simp: ds4q_pick_weighted_asym_group_def Let_def split: prod.splits option.splits if_splits)
  have "best_ok qmax (err, scale, zp, qs)"
    by (rule fit_zero_points_ok [OF z assms(2)]) (use assms(2) in \<open>auto simp: GROUP_LEN_def\<close>)
  then show ?thesis
    by (simp add: g)
qed

lemma weighted_group_ok:
  assumes "weighted_group fp qmax fqmax x w g = Some r" and "0 \<le> qmax" and "g < 4"
  shows "group_ok qmax r"
proof -
  have "group_ok qmax (gs ! g)" if "block_groups (\<lambda>g. quantize_group fp qmax fqmax) x = Some gs" for gs
    using block_groups_ok [OF that quantize_group_ok] block_groups_length [OF that] assms(2,3) by auto
  then show ?thesis
    using assms pick_ok by (auto simp: weighted_group_def split: option.splits)
qed

subsection \<open>What the runtime reads from a written block\<close>

text \<open>The weight the runtime gives element \<open>q\<close> of a group: its difference to the zero point, times
  the scale rounded to a half.\<close>

fun group_weights :: "tool_fpu \<Rightarrow> 'a fpu_scheme \<Rightarrow> u32 \<times> int \<times> int list \<Rightarrow> frow" where
  "group_weights fp rt (scale, zp, qs) =
     map (\<lambda>q. asym_weight rt (the (sf37_f16_to_f32 (ds4q_f32_to_f16 fp scale))) (of_int zp) (of_int q)) qs"

lemma read_u16_bytes: "read_u16le (u16_bytes h @ r) = h"
  by (rule bit_word_eqI)
    (auto simp: read_u16le_def u16_bytes_def bit_or_iff bit_push_bit_iff bit_unsigned_iff bit_drop_bit_eq)

lemma length_u16_bytes [simp]: "length (u16_bytes h) = 2"
  by (simp add: u16_bytes_def)

lemma small_and:
  assumes "0 \<le> zp" and "zp < 2 ^ k" and "k \<le> 8"
  shows "ucast (of_int zp :: byte) AND mask k = (of_int zp :: u32)"
proof (rule bit_word_eqI)
  fix j assume "j < LENGTH(32)"
  then show "bit (ucast (of_int zp :: byte) AND mask k :: u32) j \<longleftrightarrow> bit (of_int zp :: u32) j"
    using small_bit [OF assms(1,2), of j] assms(3)
    by (auto simp: bit_and_iff bit_unsigned_iff bit_of_int_iff bit_mask_iff)
qed

lemma length_pack3 [simp]: "length qs = GROUP_LEN \<Longrightarrow> \<forall>q \<in> set qs. 0 \<le> q \<and> q \<le> 7 \<Longrightarrow> length (pack3 qs) = 24"
  using pack3_packed by (simp add: bits_packed_def)

lemma length_pack2 [simp]: "length qs = GROUP_LEN \<Longrightarrow> \<forall>q \<in> set qs. 0 \<le> q \<and> q \<le> 3 \<Longrightarrow> length (pack2 qs) = 16"
  using pack2_packed by (simp add: bits_packed_def)

lemma q3_get_block:
  assumes "group_ok 7 (s, z, qs)" and "i < GROUP_LEN"
  shows "q3_get (pack3 qs @ r) i = of_int (qs ! i)"
proof -
  have "agree 24 (pack3 qs @ r) (pack3 qs)"
    using assms(1) by (simp add: agree_def)
  then show ?thesis
    using assms q3_get_agree q3_get_pack3 by (metis group_ok.simps)
qed

lemma q2_get_block:
  assumes "group_ok 3 (s, z, qs)" and "i < GROUP_LEN"
  shows "q2_get (pack2 qs @ r) i = of_int (qs ! i)"
proof -
  have "agree 16 (pack2 qs @ r) (pack2 qs)"
    using assms(1) by (simp add: agree_def)
  then show ?thesis
    using assms q2_get_agree q2_get_pack2 by (metis group_ok.simps)
qed

lemma map_upt_nth: "length qs = n \<Longrightarrow> map (\<lambda>i. f (qs ! i)) [0..<n] = map f qs"
  by (metis map_nth map_map comp_def map_cong)

lemma four_groups:
  assumes "length gs = 4"
  obtains g0 g1 g2 g3 where "gs = [g0, g1, g2, g3]"
  using assms by (auto simp: length_Suc_conv numeral_eq_Suc)

lemma four_cases:
  assumes "(i :: nat) < 4"
  obtains "i = 0" | "i = 1" | "i = 2" | "i = 3"
  using assms by (auto simp: less_Suc_eq numeral_eq_Suc)

lemma asym_block_length:
  assumes "length gs = 4" "\<forall>g \<in> set gs. group_ok qmax g"
    and len: "\<And>s z qs. group_ok qmax (s, z, qs) \<Longrightarrow> length (pack qs) = len"
  shows "length (asym_block fp pack pad gs) = 12 + 4 * len + pad"
proof -
  obtain s0 z0 q0 s1 z1 q1 s2 z2 q2 s3 z3 q3 where
    g: "gs = [(s0, z0, q0), (s1, z1, q1), (s2, z2, q2), (s3, z3, q3)]"
    using four_groups [OF assms(1)] by (metis prod_cases3)
  have ok: "group_ok qmax (s0, z0, q0)" "group_ok qmax (s1, z1, q1)" "group_ok qmax (s2, z2, q2)" "group_ok qmax (s3, z3, q3)"
    using assms(2) by (simp_all add: g)
  show ?thesis
    by (simp add: g asym_block_def len [OF ok(1)] len [OF ok(2)] len [OF ok(3)] len [OF ok(4)])
qed

text \<open>Any layout of four groups with scales, zero points and packed elements in this order is
  read back group by group.\<close>

lemma asym_block_read:
  assumes gs: "length gs = 4" "\<forall>g \<in> set gs. group_ok qmax g"
    and len: "\<And>s z qs. group_ok qmax (s, z, qs) \<Longrightarrow> length (pack qs) = len"
    and get: "\<And>s z qs r i. group_ok qmax (s, z, qs) \<Longrightarrow> i < GROUP_LEN \<Longrightarrow> get (pack qs @ r) i = of_int (qs ! i)"
    and q: "qmax < 2 ^ k" "k \<le> 8"
  shows "concat (map (\<lambda>g. let scale = block_scale (drop (g * 2) (asym_block fp pack pad gs));
                              zp = ucast (asym_block fp pack pad gs ! (8 + g)) AND mask k;
                              qs = drop (12 + g * len) (asym_block fp pack pad gs)
                          in map (\<lambda>i. asym_weight rt scale zp (get qs i)) [0..<GROUP_LEN]) [0..<4]) =
         concat (map (group_weights fp rt) gs)"
proof -
  obtain s0 z0 q0 s1 z1 q1 s2 z2 q2 s3 z3 q3 where
    g: "gs = [(s0, z0, q0), (s1, z1, q1), (s2, z2, q2), (s3, z3, q3)]"
    using four_groups [OF gs(1)] by (metis prod_cases3)
  have ok: "group_ok qmax (s0, z0, q0)" "group_ok qmax (s1, z1, q1)" "group_ok qmax (s2, z2, q2)" "group_ok qmax (s3, z3, q3)"
    using gs(2) by (simp_all add: g)
  note lens = len [OF ok(1)] len [OF ok(2)] len [OF ok(3)] len [OF ok(4)]
  define b where "b = asym_block fp pack pad gs"
  have b: "b = u16_bytes (ds4q_f32_to_f16 fp s0) @ u16_bytes (ds4q_f32_to_f16 fp s1) @ u16_bytes (ds4q_f32_to_f16 fp s2) @
      u16_bytes (ds4q_f32_to_f16 fp s3) @ [of_int z0, of_int z1, of_int z2, of_int z3] @
      pack q0 @ pack q1 @ pack q2 @ pack q3 @ replicate pad 0"
    by (simp add: b_def asym_block_def g)
  have scales: "block_scale (drop (g * 2) b) = the (sf37_f16_to_f32 (ds4q_f32_to_f16 fp (fst (gs ! g))))" if "g < 4" for g
  proof -
    show ?thesis
      using that by (cases rule: four_cases) (simp_all add: block_scale_def b g read_u16_bytes)
  qed
  have "drop 12 b = pack q0 @ pack q1 @ pack q2 @ pack q3 @ replicate pad 0"
    by (simp add: b)
  then have tail: "drop (12 + n) b = drop n (pack q0 @ pack q1 @ pack q2 @ pack q3 @ replicate pad 0)" for n
    by (metis drop_drop add.commute)
  have payload: "\<exists>r. drop (12 + g * len) b = pack (snd (snd (gs ! g))) @ r" if "g < 4" for g
  proof -
    show ?thesis
      unfolding tail using that by (cases rule: four_cases) (simp_all add: g lens)
  qed
  have zps: "b ! (8 + g) = of_int (fst (snd (gs ! g)))" if "g < 4" for g
  proof -
    show ?thesis
      using that by (cases rule: four_cases) (simp_all add: b g nth_append)
  qed
  have one: "(let scale = block_scale (drop (g * 2) b); zp = ucast (b ! (8 + g)) AND mask k; qs = drop (12 + g * len) b
      in map (\<lambda>i. asym_weight rt scale zp (get qs i)) [0..<GROUP_LEN]) = group_weights fp rt (gs ! g)" if "g < 4" for g
  proof -
    note lt = that
    obtain s z qs where t: "gs ! g = (s, z, qs)"
      by (rule prod_cases3)
    have o: "group_ok qmax (s, z, qs)"
      using gs lt t by (metis nth_mem)
    then have z: "ucast (of_int z :: byte) AND mask k = (of_int z :: u32)"
      using small_and [of z k] q by simp
    obtain r where "drop (12 + g * len) b = pack qs @ r"
      using payload [OF lt] by (auto simp: t)
    moreover have "map (\<lambda>i. asym_weight rt sc (of_int z) (get (pack qs @ r) i)) [0..<GROUP_LEN] =
        map (\<lambda>q. asym_weight rt sc (of_int z) (of_int q)) qs" for sc
    proof -
      have "map (\<lambda>i. asym_weight rt sc (of_int z) (get (pack qs @ r) i)) [0..<GROUP_LEN] =
          map (\<lambda>i. asym_weight rt sc (of_int z) (of_int (qs ! i))) [0..<GROUP_LEN]"
        by (rule map_cong [OF refl]) (simp only: get [OF o] set_upt atLeastLessThan_iff)
      also have "\<dots> = map (\<lambda>q. asym_weight rt sc (of_int z) (of_int q)) qs"
        using o by (intro map_upt_nth) simp
      finally show ?thesis .
    qed
    ultimately show ?thesis
      by (simp add: Let_def scales [OF lt] zps [OF lt] t z)
  qed
  have "map (\<lambda>g. let scale = block_scale (drop (g * 2) b); zp = ucast (b ! (8 + g)) AND mask k; qs = drop (12 + g * len) b
      in map (\<lambda>i. asym_weight rt scale zp (get qs i)) [0..<GROUP_LEN]) [0..<4] = map (group_weights fp rt) gs"
    by (rule nth_equalityI) (simp_all add: gs(1) one [unfolded Let_def] Let_def)
  then show "concat (map (\<lambda>g. let scale = block_scale (drop (g * 2) (asym_block fp pack pad gs));
                              zp = ucast (asym_block fp pack pad gs ! (8 + g)) AND mask k;
                              qs = drop (12 + g * len) (asym_block fp pack pad gs)
                          in map (\<lambda>i. asym_weight rt scale zp (get qs i)) [0..<GROUP_LEN]) [0..<4]) =
         concat (map (group_weights fp rt) gs)"
    by (simp add: b_def)
qed

text \<open>The groups the block writers choose.\<close>

definition chosen_groups :: "tool_fpu \<Rightarrow> int \<Rightarrow> u32 \<Rightarrow> frow \<Rightarrow> frow option \<Rightarrow> (u32 \<times> int \<times> int list) list option" where
  "chosen_groups fp qmax fqmax x imatrix =
     (case imatrix of
        None \<Rightarrow> block_groups (\<lambda>g. quantize_group fp qmax fqmax) x
      | Some w \<Rightarrow> block_groups (\<lambda>g _. weighted_group fp qmax fqmax x w g) x)"

lemma chosen_groups_ok:
  assumes "chosen_groups fp qmax fqmax x imatrix = Some gs" and "0 \<le> qmax"
  shows "length gs = 4 \<and> (\<forall>g \<in> set gs. group_ok qmax g)"
proof (cases imatrix)
  case None
  then show ?thesis
    using assms block_groups_length block_groups_ok [OF _ quantize_group_ok] by (simp add: chosen_groups_def)
next
  case (Some w)
  then have gs: "block_groups (\<lambda>g _. weighted_group fp qmax fqmax x w g) x = Some gs"
    using assms(1) by (simp add: chosen_groups_def)
  have "group_ok qmax (gs ! i)" if "i < 4" for i
  proof -
    have "weighted_group fp qmax fqmax x w i = Some (gs ! i)"
      using gs that by (auto simp: block_groups_def all_some_map)
    then show ?thesis
      using weighted_group_ok assms(2) that by blast
  qed
  then show ?thesis
    using block_groups_length [OF gs] by (metis in_set_conv_nth)
qed

lemma write_q3_groups:
  "ds4q_write_q3_k_block_asym_g64_weighted fp x imatrix = map_option (asym_block fp pack3 2) (chosen_groups fp 7 0x40e00000 x imatrix)"
  by (simp add: ds4q_write_q3_k_block_asym_g64_weighted_def ds4q_write_q3_k_block_asym_g64_def chosen_groups_def split: option.split)

lemma write_q2_groups:
  "ds4q_write_q2_k_block_asym_g64_weighted fp x imatrix = map_option (asym_block fp pack2 8) (chosen_groups fp 3 0x40400000 x imatrix)"
  by (simp add: ds4q_write_q2_k_block_asym_g64_weighted_def ds4q_write_q2_k_block_asym_g64_def chosen_groups_def split: option.split)

lemma q3_block_read:
  assumes "chosen_groups fp 7 0x40e00000 x imatrix = Some gs"
  shows "sf37_q3_asym_block_decode rt (asym_block fp pack3 2 gs) = concat (map (group_weights fp rt) gs)"
    and "length (asym_block fp pack3 2 gs) = SF37_Q3_BLOCK_SIZE"
proof -
  have ok: "length gs = 4" "\<forall>g \<in> set gs. group_ok 7 g"
    using chosen_groups_ok [OF assms] by simp_all
  have m: "mask 3 = (7 :: u32)"
    by (simp add: mask_eq_exp_minus_1)
  show "sf37_q3_asym_block_decode rt (asym_block fp pack3 2 gs) = concat (map (group_weights fp rt) gs)"
    unfolding sf37_q3_asym_block_decode_def m [symmetric]
    by (rule asym_block_read [OF ok]) (auto simp: q3_get_block)
  show "length (asym_block fp pack3 2 gs) = SF37_Q3_BLOCK_SIZE"
    using asym_block_length [OF ok, of pack3 24 fp 2] by (simp add: SF37_Q3_BLOCK_SIZE_def)
qed

lemma q2_block_read:
  assumes "chosen_groups fp 3 0x40400000 x imatrix = Some gs"
  shows "sf37_q2_asym_block_decode rt (asym_block fp pack2 8 gs) = concat (map (group_weights fp rt) gs)"
    and "length (asym_block fp pack2 8 gs) = SF37_Q2_BLOCK_SIZE"
proof -
  have ok: "length gs = 4" "\<forall>g \<in> set gs. group_ok 3 g"
    using chosen_groups_ok [OF assms] by simp_all
  have m: "mask 2 = (3 :: u32)"
    by (simp add: mask_eq_exp_minus_1)
  show "sf37_q2_asym_block_decode rt (asym_block fp pack2 8 gs) = concat (map (group_weights fp rt) gs)"
    unfolding sf37_q2_asym_block_decode_def m [symmetric]
    by (rule asym_block_read [OF ok]) (auto simp: q2_get_block)
  show "length (asym_block fp pack2 8 gs) = SF37_Q2_BLOCK_SIZE"
    using asym_block_length [OF ok, of pack2 16 fp 8] by (simp add: SF37_Q2_BLOCK_SIZE_def)
qed

text \<open>C3: A written Q3 or Q2 block, with an importance matrix or without, has the block size of the
  runtime, and the runtime's decoder returns for it the weights of the four groups the tool chose,
  in order: no payload bit, zero point or scale is misplaced or lost in the packing. The writer
  aborts exactly when the choice of a group does.\<close>

theorem asym_blocks_read_back:
  "map_option (\<lambda>b. (length b, sf37_q3_asym_block_decode rt b)) (ds4q_write_q3_k_block_asym_g64_weighted fp x imatrix) =
     map_option (\<lambda>gs. (SF37_Q3_BLOCK_SIZE, concat (map (group_weights fp rt) gs))) (chosen_groups fp 7 0x40e00000 x imatrix) \<and>
   map_option (\<lambda>b. (length b, sf37_q2_asym_block_decode rt b)) (ds4q_write_q2_k_block_asym_g64_weighted fp x imatrix) =
     map_option (\<lambda>gs. (SF37_Q2_BLOCK_SIZE, concat (map (group_weights fp rt) gs))) (chosen_groups fp 3 0x40400000 x imatrix)"
  unfolding write_q3_groups write_q2_groups
  by (cases "chosen_groups fp 7 0x40e00000 x imatrix"; cases "chosen_groups fp 3 0x40400000 x imatrix")
    (simp_all add: q3_block_read q2_block_read)

subsection \<open>The parallel conversion gives every row once\<close>

text \<open>The importance weights of a row: the slice of its expert for a routed tensor.\<close>

definition row_weights :: "frow option \<Rightarrow> nat \<Rightarrow> nat \<Rightarrow> nat \<Rightarrow> nat \<Rightarrow> frow option" where
  "row_weights imatrix ncols expert_rows n_experts r =
     (if expert_rows > 0 \<and> n_experts > 0 then map_option (drop (r div expert_rows * ncols)) imatrix else imatrix)"

definition all_rows :: "tool_fpu \<Rightarrow> u32 \<Rightarrow> frow \<Rightarrow> nat \<Rightarrow> (nat \<Rightarrow> frow option) \<Rightarrow> nat \<Rightarrow> bytes list option" where
  "all_rows fp type src ncols wt nrows =
     all_some (map (\<lambda>r. quantize_row fp type ncols (wt r) (drop (r * ncols) src)) [0..<nrows])"

lemma chunk_rows:
  assumes "ncols > 0"
  shows "ds4q_quantize_chunk fp type src (row * ncols) rows ncols im =
    all_some (map (\<lambda>r. map_option (Pair r) (quantize_row fp type ncols im (drop (r * ncols) src))) [row..<row + rows])"
proof -
  have "[row..<row + rows] = map ((+) row) [0..<rows]"
    by (rule nth_equalityI) simp_all
  then show ?thesis
    using assms by (simp add: ds4q_quantize_chunk_def Let_def comp_def add_mult_distrib)
qed

lemma all_some_append:
  "all_some (xs @ ys) = (case all_some xs of None \<Rightarrow> None | Some a \<Rightarrow> map_option ((@) a) (all_some ys))"
proof (induction xs rule: all_some.induct)
  case 1
  show ?case
    by (cases "all_some ys") simp_all
next
  case (3 x xs)
  then show ?case
    by (cases "all_some xs"; cases "all_some ys") simp_all
qed simp

lemma worker_experts_rows:
  assumes "expert_rows > 0" and "end0 \<le> expert_rows * n_experts"
    and "\<And>expert r rows. row \<le> r \<Longrightarrow> r + rows \<le> end0 \<Longrightarrow> \<forall>k \<in> {r..<r + rows}. k div expert_rows = expert \<Longrightarrow>
      chunk expert r rows = all_some (map (F expert) [r..<r + rows])"
  shows "worker_experts chunk expert_rows n_experts row end0 = all_some (map (\<lambda>r. F (r div expert_rows) r) [row..<end0])"
  using assms
proof (induction chunk expert_rows n_experts row end0 rule: worker_experts.induct)
  case (1 chunk expert_rows n_experts row end0)
  show ?case
  proof (cases "row < end0")
    case True
    define e x n where "e = row div expert_rows" and "x = (e + 1) * expert_rows"
      and "n = (if end0 < x then end0 else x) - row"
    have ne: "e < n_experts"
      using True "1.prems"(1,2) less_mult_imp_div_less [of row n_experts expert_rows] by (simp add: e_def mult.commute)
    have x: "e * expert_rows \<le> row" "row < x"
      using dividend_less_div_times [of expert_rows row] "1.prems"(1) by (simp_all add: e_def x_def)
    have n: "n > 0" "row + n \<le> end0" "row + n \<le> x"
      using True x by (simp_all add: n_def)
    have same: "k div expert_rows = e" if "k \<in> {row..<row + n}" for k
    proof -
      have "e * expert_rows \<le> k" "k < x"
        using that x n by simp_all
      then show ?thesis
        using "1.prems"(1) by (intro div_nat_eqI) (simp_all add: mult.commute x_def)
    qed
    have c: "chunk e row n = all_some (map (\<lambda>r. F (r div expert_rows) r) [row..<row + n])"
    proof -
      have "chunk e row n = all_some (map (F e) [row..<row + n])"
        using n(2) same by (intro "1.prems"(3)) simp_all
      also have "map (F e) [row..<row + n] = map (\<lambda>r. F (r div expert_rows) r) [row..<row + n]"
        using same by (intro map_cong) simp_all
      finally show ?thesis .
    qed
    have "[row..<end0] = [row..<row + n] @ [row + n..<end0]"
      using n(2) upt_add_eq_append [of row "row + n" "end0 - (row + n)"] by simp
    moreover have "worker_experts chunk expert_rows n_experts row end0 =
        do { w \<leftarrow> chunk e row n; ws \<leftarrow> worker_experts chunk expert_rows n_experts (row + n) end0; Some (w @ ws) }"
    proof -
      have "n \<noteq> 0"
        using n(1) by simp
      then show ?thesis
        using True ne
        by (subst worker_experts.simps)
          (simp only: Let_def e_def [symmetric] x_def [symmetric] n_def [symmetric] not_not simp_thms if_True if_False)
    qed
    moreover have "worker_experts chunk expert_rows n_experts (row + n) end0 =
        all_some (map (\<lambda>r. F (r div expert_rows) r) [row + n..<end0])" if "chunk e row n = Some w" for w
      using True ne n "1.prems" "1.IH" [OF _ e_def _ x_def n_def _ that] by simp
    ultimately show ?thesis
      by (cases "chunk e row n")
        (auto simp: all_some_append c [symmetric] split: bind_splits option.split)
  qed (simp add: worker_experts.simps)
qed

lemma make_jobs_rows:
  assumes "workers > 0" and "a \<le> workers"
  shows "concat (map (\<lambda>j. [qj_row0 j..<qj_row0 j + qj_nrows j])
      (make_jobs nrows workers (a * (nrows div workers) + min a (nrows mod workers)) [a..<workers])) =
    [a * (nrows div workers) + min a (nrows mod workers)..<nrows]"
  using assms(2)
proof (induction "workers - a" arbitrary: a)
  case 0
  have "workers * (nrows div workers) + min workers (nrows mod workers) = nrows"
    using assms(1) by (simp add: less_imp_le)
  then show ?case
    using 0 by simp
next
  case (Suc k)
  let ?b = "\<lambda>a. a * (nrows div workers) + min a (nrows mod workers)"
  have a: "a < workers" "[a..<workers] = a # [Suc a..<workers]"
    using Suc.hyps(2) by (simp_all add: upt_conv_Cons)
  have s: "?b a + (nrows div workers + (if a < nrows mod workers then 1 else 0)) = ?b (Suc a)"
    by (auto simp: min_def)
  have "Suc a * (nrows div workers) \<le> workers * (nrows div workers)"
    using a(1) by (intro mult_le_mono1) simp
  then have "?b (Suc a) \<le> nrows"
    using mult_div_mod_eq [of workers nrows] by linarith
  then have "[?b a..<nrows] = [?b a..<?b (Suc a)] @ [?b (Suc a)..<nrows]"
    using upt_add_eq_append [of "?b a" "?b (Suc a)" "nrows - ?b (Suc a)"] s by simp
  moreover have "concat (map (\<lambda>j. [qj_row0 j..<qj_row0 j + qj_nrows j]) (make_jobs nrows workers (?b (Suc a)) [Suc a..<workers])) =
      [?b (Suc a)..<nrows]"
    by (rule Suc.hyps(1)) (use Suc.hyps(2) a(1) in simp_all)
  ultimately show ?case
    unfolding a(2) make_jobs.simps Let_def s by (simp only: list.map concat.simps sf37_quant_job.select_convs s)
qed

lemma all_some_nested:
  "map_option concat (all_some (map (\<lambda>j. all_some (map R (f j))) js)) = all_some (map R (concat (map f js)))"
proof (induction js)
  case (Cons j js)
  then show ?case
    by (cases "all_some (map R (f j))"; cases "all_some (map (\<lambda>j. all_some (map R (f j))) js)")
      (simp_all add: all_some_append flip: Cons.IH)
qed simp

lemma apply_writes_nth:
  assumes "distinct (map fst ws)" and "k < length buf"
  shows "apply_writes buf ws ! k = (case map_of ws k of Some b \<Rightarrow> b | None \<Rightarrow> buf ! k)"
  using assms unfolding apply_writes_def
proof (induction ws arbitrary: buf)
  case (Cons w ws)
  then show ?case
    by (cases w; cases "map_of ws k")
      (auto simp: nth_list_update map_of_eq_None_iff dest: map_of_SomeD intro: rev_image_eqI split: option.split)
qed simp

lemma length_apply_writes [simp]: "length (apply_writes buf ws) = length buf"
  unfolding apply_writes_def by (induction ws arbitrary: buf) auto

lemma apply_writes_all:
  assumes "mset ws = mset (zip [0..<n] rows)" and "length rows = n" and "length buf = n"
  shows "apply_writes buf ws = rows"
proof (rule nth_equalityI)
  fix k assume "k < length (apply_writes buf ws)"
  then have k: "k < n"
    using assms(3) by simp
  have "mset (map fst ws) = mset (map fst (zip [0..<n] rows))"
    by (metis assms(1) mset_map)
  then have d: "distinct (map fst ws)"
    using assms(2) mset_eq_imp_distinct_iff by fastforce
  have "set ws = set (zip [0..<n] rows)"
    using assms(1) mset_eq_setD by blast
  then have "(k, rows ! k) \<in> set ws"
    using k assms(2) by (force simp: in_set_zip)
  then have "map_of ws k = Some (rows ! k)"
    using d by simp
  then show "apply_writes buf ws ! k = rows ! k"
    using apply_writes_nth [OF d] k assms(3) by simp
qed (use assms in simp)

lemma row_weights_None [simp]: "row_weights None ncols expert_rows n_experts = (\<lambda>_. None)"
  by (simp add: row_weights_def fun_eq_iff)

lemma job_rows:
  assumes "ncols > 0" and "qj_row0 j + qj_nrows j \<le> nrows"
    and "expert_rows > 0 \<and> n_experts > 0 \<longrightarrow> nrows = expert_rows * n_experts"
  shows "sf37_quant_worker fp type src ncols imatrix expert_rows n_experts j =
    all_some (map (\<lambda>r. map_option (Pair r) (quantize_row fp type ncols (row_weights imatrix ncols expert_rows n_experts r)
      (drop (r * ncols) src))) [qj_row0 j..<qj_row0 j + qj_nrows j])"
proof (cases "expert_rows > 0 \<and> n_experts > 0 \<and> imatrix \<noteq> None")
  case True
  then obtain im where im: "imatrix = Some im"
    by blast
  have "qj_row0 j + qj_nrows j \<le> expert_rows * n_experts"
    using assms(2,3) True by simp
  from worker_experts_rows [OF _ this] show ?thesis
    using True assms(1) by (simp add: sf37_quant_worker_def im row_weights_def chunk_rows)
next
  case False
  then show ?thesis
    by (cases imatrix) (simp_all add: sf37_quant_worker_def chunk_rows [OF assms(1)], auto simp: row_weights_def)
qed

lemma make_jobs_size: "j \<in> set (make_jobs nrows workers base is) \<Longrightarrow> nrows div workers \<le> qj_nrows j"
  by (induction nrows workers base "is" rule: make_jobs.induct) (auto simp: Let_def)

lemma make_jobs_bound:
  assumes "workers > 0" and "j \<in> set (make_jobs nrows workers 0 [0..<workers])" and "qj_nrows j > 0"
  shows "qj_row0 j + qj_nrows j \<le> nrows"
proof -
  have "qj_row0 j + qj_nrows j - 1 \<in> set (concat (map (\<lambda>j. [qj_row0 j..<qj_row0 j + qj_nrows j])
      (make_jobs nrows workers 0 [0..<workers])))"
  proof -
    have "qj_row0 j + qj_nrows j - 1 \<in> set [qj_row0 j..<qj_row0 j + qj_nrows j]"
      using assms(3) by auto
    then show ?thesis
      using assms(2) by (simp only: set_concat set_map UN_iff) blast
  qed
  also have "\<dots> = set [0..<nrows]"
    using make_jobs_rows [OF assms(1), of 0 nrows] by simp
  finally show ?thesis
    using assms(3) by simp
qed

lemma pair_rows:
  "all_some (map (\<lambda>r. map_option (Pair r) (f r)) xs) = map_option (zip xs) (all_some (map f xs))"
proof (induction xs)
  case (Cons x xs)
  then show ?case
    by (cases "f x"; cases "all_some (map f xs)") simp_all
qed simp

lemma length_all_some: "all_some xs = Some ys \<Longrightarrow> length ys = length xs"
  by (simp add: all_some_eq)

lemma f32_to_type_rows:
  assumes "type \<in> {SF37_TENSOR_Q8_0, SF37_TENSOR_Q2_K, SF37_TENSOR_Q3_K}"
    and "ncols > 0" and "int ncols mod ds4q_block_size type = 0" and "length fresh = nrows"
  shows "f32_to_type fp src (nrows * ncols) type ncols imatrix fresh =
    map_option concat (all_rows fp type src ncols (\<lambda>_. imatrix) nrows)"
proof -
  have "f32_to_type fp src (nrows * ncols) type ncols imatrix fresh =
      map_option (\<lambda>ws. concat (apply_writes fresh ws)) (ds4q_quantize_chunk fp type src 0 nrows ncols imatrix)"
    using assms(1,2,3) by (auto simp: f32_to_type_def gguf_constants)
  also have "ds4q_quantize_chunk fp type src 0 nrows ncols imatrix =
      map_option (zip [0..<nrows]) (all_rows fp type src ncols (\<lambda>_. imatrix) nrows)"
    using chunk_rows [OF assms(2), of fp type src 0 nrows imatrix] by (simp add: pair_rows all_rows_def)
  finally show ?thesis
    using apply_writes_all [OF refl _ assms(4)]
    by (cases "all_rows fp type src ncols (\<lambda>_. imatrix) nrows") (auto simp: all_rows_def dest!: length_all_some)
qed

text \<open>C2: Whatever the number of threads and in whatever order their writes reach the buffer, the
  parallel conversion returns the rows quantised one by one, in order, and aborts exactly when one
  of them does: the jobs cover every row once, and every row of a routed tensor is quantised with
  the importance weights of its own expert.\<close>

theorem parallel_conversion_rows:
  assumes "type \<in> {SF37_TENSOR_Q8_0, SF37_TENSOR_Q2_K, SF37_TENSOR_Q3_K}"
    and "ncols > 0" and "int ncols mod ds4q_block_size type = 0" and "length fresh = nrows"
    and "expert_rows > 0 \<and> n_experts > 0 \<longrightarrow> nrows = expert_rows * n_experts"
    and "\<And>wss. mset (merge wss) = mset (concat wss)"
  shows "sf37_f32_to_type_parallel fp merge fresh src (nrows * ncols) type ncols n_threads imatrix expert_rows n_experts =
    map_option concat (all_rows fp type src ncols (row_weights imatrix ncols expert_rows n_experts) nrows)"
proof -
  note rows = f32_to_type_rows [OF assms(1,2,3,4)]
  have q: "sf37_is_quant_type type"
    using assms(1) by (auto simp: sf37_is_quant_type_def)
  have whole: "imatrix = None \<or> expert_rows = 0 \<Longrightarrow> row_weights imatrix ncols expert_rows n_experts = (\<lambda>_. imatrix)"
    by (auto simp: row_weights_def)
  show ?thesis
  proof (cases "(n_threads \<le> 1 \<or> nrows \<le> 1) \<and> (imatrix = None \<or> expert_rows = 0)")
    case True
    then show ?thesis
      using assms(2,3) by (auto simp: sf37_f32_to_type_parallel_def q rows whole)
  next
    case False
    define workers where "workers = (let w = if n_threads < 1 then 1 else nat n_threads in if w > nrows then nrows else w)"
    define js where "js = make_jobs nrows workers 0 [0..<workers]"
    define R where "R = (\<lambda>r. map_option (Pair r) (quantize_row fp type ncols (row_weights imatrix ncols expert_rows n_experts r)
      (drop (r * ncols) src)))"
    have par: "sf37_f32_to_type_parallel fp merge fresh src (nrows * ncols) type ncols n_threads imatrix expert_rows n_experts =
        map_option (\<lambda>wss. concat (apply_writes fresh (merge wss)))
          (all_some (map (sf37_quant_worker fp type src ncols imatrix expert_rows n_experts) js))"
      using False assms(2,3,5) by (auto simp: sf37_f32_to_type_parallel_def q js_def workers_def Let_def)
    have pos: "0 < workers \<and> workers \<le> nrows" if "js \<noteq> []"
      using that by (cases "workers = 0") (auto simp: js_def workers_def Let_def split: if_splits)
    have "qj_row0 j + qj_nrows j \<le> nrows" if "j \<in> set js" for j
    proof -
      have w: "0 < workers \<and> workers \<le> nrows"
        using that by (intro pos) auto
      then have "0 < nrows div workers"
        by (simp add: div_greater_zero_iff)
      then show ?thesis
        using make_jobs_bound [of workers j nrows] make_jobs_size that w unfolding js_def by fastforce
    qed
    then have workers: "map (sf37_quant_worker fp type src ncols imatrix expert_rows n_experts) js =
        map (\<lambda>j. all_some (map R [qj_row0 j..<qj_row0 j + qj_nrows j])) js"
      unfolding R_def by (intro map_cong refl job_rows [OF assms(2) _ assms(5)])
    have rows: "concat (map (\<lambda>j. [qj_row0 j..<qj_row0 j + qj_nrows j]) js) = [0..<nrows]"
    proof (cases "nrows = 0")
      case False
      then have "workers > 0"
        by (auto simp: workers_def Let_def)
      then show ?thesis
        using make_jobs_rows [of workers 0 nrows] by (simp add: js_def)
    qed (simp add: js_def workers_def)
    have "map_option concat (all_some (map (sf37_quant_worker fp type src ncols imatrix expert_rows n_experts) js)) =
        map_option (zip [0..<nrows]) (all_rows fp type src ncols (row_weights imatrix ncols expert_rows n_experts) nrows)"
      by (simp only: workers all_some_nested rows) (simp add: R_def pair_rows all_rows_def)
    moreover note par
    ultimately show ?thesis
      using apply_writes_all [OF _ _ assms(4)] assms(6)
      by (cases "all_some (map (sf37_quant_worker fp type src ncols imatrix expert_rows n_experts) js)";
          cases "all_rows fp type src ncols (row_weights imatrix ncols expert_rows n_experts) nrows")
        (auto simp: all_rows_def dest!: length_all_some)
  qed
qed

definition demo_tool_fpu :: tool_fpu where
  "demo_tool_fpu = \<lparr>fp_div = (\<lambda>a b. a), fp_mul = (\<lambda>a b. a), fp_of_int = of_int, fp_lrint = uint,
     fp_add = (+), fp_sub = (-), fp_sqrt = id, fp_exp = id, fp_cos = id, fp_sin = id,
     f_to_d = ucast, d_to_f = ucast, d_of_int = of_int, d_add = (+), d_sub = (-), d_mul = (\<lambda>a b. a),
     d_div = (\<lambda>a b. a), d_pow = (\<lambda>a b. a), fp_roundf = uint\<rparr>"

theorem parallel_conversion_rows_witness:
  "sf37_f32_to_type_parallel demo_tool_fpu (\<lambda>wss. rev (concat wss)) (replicate 4 []) (replicate 128 5) (4 * 32) SF37_TENSOR_Q8_0
     32 3 (Some (replicate 64 1)) 2 2 =
   map_option concat (all_rows demo_tool_fpu SF37_TENSOR_Q8_0 (replicate 128 5) 32 (row_weights (Some (replicate 64 1)) 32 2 2) 4) \<and>
   all_rows demo_tool_fpu SF37_TENSOR_Q8_0 (replicate 128 5) 32 (row_weights (Some (replicate 64 1)) 32 2 2) 4 \<noteq> None"
proof
  show "sf37_f32_to_type_parallel demo_tool_fpu (\<lambda>wss. rev (concat wss)) (replicate 4 []) (replicate 128 5) (4 * 32) SF37_TENSOR_Q8_0
     32 3 (Some (replicate 64 1)) 2 2 =
    map_option concat (all_rows demo_tool_fpu SF37_TENSOR_Q8_0 (replicate 128 5) 32 (row_weights (Some (replicate 64 1)) 32 2 2) 4)"
    by (rule parallel_conversion_rows) (simp_all add: ds4q_block_size_def ds4q_traits_def gguf_constants)
  have some: "all_some (map (\<lambda>x. Some (f x)) xs) = Some (map f xs)" for f :: "nat \<Rightarrow> bytes" and xs
    by (simp add: all_some_eq)
  show "all_rows demo_tool_fpu SF37_TENSOR_Q8_0 (replicate 128 5) 32 (row_weights (Some (replicate 64 1)) 32 2 2) 4 \<noteq> None"
    unfolding all_rows_def quantize_row_def quantize_row_q8_0_def row_blocks_def some by (simp add: some)
qed

end
