(* ===== verification/ServerJson.thy ===== *)
theory ServerJson
  imports Complex_Main Utf8 "HOL-Library.Monad_Syntax" "HOL-Library.Log_Nat"
begin

section \<open>JSON text of the server\<close>

text \<open>
  The JSON layer of \<open>sf37_server.c\<close>: escaping, the pull scanner that the request parsers are made
  of, raw values and their minified form, and base64. A scanner position \<open>const char **p\<close> is the
  rest of the text from it on, the terminating NUL the end of the list; a scanner that returns
  false is \<open>None\<close>, and its caller never looks at the position again. \<open>buf\<close> only appends, so a
  buffer is the list of its bytes. Strings that the scanner builds are read as C strings, up to
  their first NUL. \<open>strtod\<close> is the C library's in the C locale: the longest numeral, with the
  value rounded to a \<open>double\<close>, here an exact rational.
\<close>

subsection \<open>Characters\<close>

abbreviation (input) ch :: "char \<Rightarrow> byte" where
  "ch c \<equiv> of_char c"

definition isspace :: "byte \<Rightarrow> bool" where
  "isspace c \<longleftrightarrow> c = 0x20 \<or> 0x09 \<le> c \<and> c \<le> 0x0d"

text \<open>\<open>strncmp (p, lit, strlen (lit)) == 0\<close>.\<close>

definition at_lit :: "bytes \<Rightarrow> bytes \<Rightarrow> bool" where
  "at_lit p lit \<longleftrightarrow> take (length lit) p = lit"

definition until_nul :: "bytes \<Rightarrow> bytes" where
  "until_nul = takeWhile (\<lambda>c. c \<noteq> 0)"

subsection \<open>Escaping\<close>

definition hex_char :: "byte \<Rightarrow> byte" where
  "hex_char d = (if d < 10 then ch CHR ''0'' + d else ch CHR ''a'' + (d - 10))"

definition json_escape_char :: "byte \<Rightarrow> bytes" where
  "json_escape_char c =
     (if c = 0x22 then cstr [CHR 0x5c, CHR 0x22]
      else if c = 0x5c then cstr [CHR 0x5c, CHR 0x5c]
      else if c = 0x08 then cstr [CHR 0x5c, CHR ''b'']
      else if c = 0x0c then cstr [CHR 0x5c, CHR ''f'']
      else if c = 0x0a then cstr [CHR 0x5c, CHR ''n'']
      else if c = 0x0d then cstr [CHR 0x5c, CHR ''r'']
      else if c = 0x09 then cstr [CHR 0x5c, CHR ''t'']
      else if c < 0x20 then cstr [CHR 0x5c, CHR ''u'', CHR ''0'', CHR ''0''] @ [hex_char (drop_bit 4 c), hex_char (c AND 0x0f)]
      else [c])"

definition json_escape_n :: "bytes \<Rightarrow> bytes" where
  "json_escape_n s = [0x22] @ concat (map json_escape_char s) @ [0x22]"

definition json_escape :: "bytes \<Rightarrow> bytes" where
  "json_escape s = json_escape_n s"

subsection \<open>Scanning\<close>

definition json_ws :: "bytes \<Rightarrow> bytes" where
  "json_ws p = dropWhile isspace p"

definition json_lit :: "bytes \<Rightarrow> bytes \<Rightarrow> bytes option" where
  "json_lit p lit = (if at_lit p lit then Some (drop (length lit) p) else None)"

definition hex_digit :: "byte \<Rightarrow> u32 option" where
  "hex_digit c =
     (if ch CHR ''0'' \<le> c \<and> c \<le> ch CHR ''9'' then Some (ucast (c - ch CHR ''0''))
      else if ch CHR ''a'' \<le> c \<and> c \<le> ch CHR ''f'' then Some (ucast (c - ch CHR ''a'' + 10))
      else if ch CHR ''A'' \<le> c \<and> c \<le> ch CHR ''F'' then Some (ucast (c - ch CHR ''A'' + 10))
      else None)"

fun json_hex4_loop :: "nat \<Rightarrow> bytes \<Rightarrow> u32 \<Rightarrow> u32 option" where
  "json_hex4_loop 0 p v = Some v"
| "json_hex4_loop (Suc n) [] v = None"
| "json_hex4_loop (Suc n) (c # p) v =
     (case hex_digit c of None \<Rightarrow> None | Some d \<Rightarrow> json_hex4_loop n p (push_bit 4 v OR d))"

definition json_hex4 :: "bytes \<Rightarrow> u32 option" where
  "json_hex4 p = json_hex4_loop 4 p 0"

definition utf8_put_codepoint :: "u32 \<Rightarrow> bytes" where
  "utf8_put_codepoint cp =
     (if cp \<le> 0x7f then [ucast cp]
      else if cp \<le> 0x7ff then [ucast (0xc0 OR drop_bit 6 cp), ucast (0x80 OR (cp AND 0x3f))]
      else if cp \<le> 0xffff then
        [ucast (0xe0 OR drop_bit 12 cp), ucast (0x80 OR (drop_bit 6 cp AND 0x3f)), ucast (0x80 OR (cp AND 0x3f))]
      else
        [ucast (0xf0 OR drop_bit 18 cp), ucast (0x80 OR (drop_bit 12 cp AND 0x3f)),
         ucast (0x80 OR (drop_bit 6 cp AND 0x3f)), ucast (0x80 OR (cp AND 0x3f))])"

text \<open>The code point after \<open>\u\<close> and its four digits: a high surrogate takes the low one behind
  it along.\<close>

definition json_surrogate :: "u32 \<Rightarrow> bytes \<Rightarrow> u32 \<times> bytes" where
  "json_surrogate cp p =
     (if 0xd800 \<le> cp \<and> cp \<le> 0xdbff \<and> at_lit p (cstr [CHR 0x5c, CHR ''u''])
      then (case json_hex4 (drop 2 p) of
              Some lo \<Rightarrow>
                if 0xdc00 \<le> lo \<and> lo \<le> 0xdfff
                then (0x10000 + push_bit 10 (cp - 0xd800) + (lo - 0xdc00), drop 6 p) else (cp, p)
            | None \<Rightarrow> (cp, p))
      else (cp, p))"

lemma json_surrogate_le: "length (snd (json_surrogate cp p)) \<le> length p"
  by (simp add: json_surrogate_def split: option.split)

definition json_simple_escape :: "byte \<Rightarrow> byte option" where
  "json_simple_escape e =
     (if e = 0x22 then Some 0x22
      else if e = 0x5c then Some 0x5c
      else if e = ch CHR ''/'' then Some (ch CHR ''/'')
      else if e = ch CHR ''b'' then Some 0x08
      else if e = ch CHR ''f'' then Some 0x0c
      else if e = ch CHR ''n'' then Some 0x0a
      else if e = ch CHR ''r'' then Some 0x0d
      else if e = ch CHR ''t'' then Some 0x09
      else None)"

function json_string_body :: "bytes \<Rightarrow> bytes \<Rightarrow> (bytes \<times> bytes) option" where
  "json_string_body [] b = None"
| "json_string_body (c # p) b =
     (if c = 0x22 then Some (b, p)
      else if c = 0x5c then
        (case p of
           [] \<Rightarrow> None
         | e # p \<Rightarrow>
             (case json_simple_escape e of
                Some x \<Rightarrow> json_string_body p (b @ [x])
              | None \<Rightarrow>
                  if e = ch CHR ''u'' then
                    (case json_hex4 p of
                       None \<Rightarrow> None
                     | Some cp \<Rightarrow>
                         json_string_body (snd (json_surrogate cp (drop 4 p)))
                           (b @ utf8_put_codepoint (fst (json_surrogate cp (drop 4 p)))))
                  else None))
      else json_string_body p (b @ [c]))"
  by pat_completeness auto
termination
  by (relation "measure (\<lambda>(p, b). length p)")
    (auto simp: less_Suc_eq_le intro!: order.trans [OF json_surrogate_le])

definition json_string :: "bytes \<Rightarrow> (bytes \<times> bytes) option" where
  "json_string p =
     (case json_ws p of
        [] \<Rightarrow> None
      | c # p \<Rightarrow>
          if c \<noteq> 0x22 then None
          else map_option (\<lambda>(b, p). (until_nul b, p)) (json_string_body p []))"

subsection \<open>Numbers\<close>

definition digit_value :: "nat \<Rightarrow> byte \<Rightarrow> nat option" where
  "digit_value base c =
     (case hex_digit c of None \<Rightarrow> None | Some d \<Rightarrow> if unat d < base then Some (unat d) else None)"

text \<open>The digits from a position on: their value after \<open>v\<close>, their number after \<open>n\<close>, the rest.\<close>

fun scan_digits :: "nat \<Rightarrow> bytes \<Rightarrow> nat \<Rightarrow> nat \<Rightarrow> nat \<times> nat \<times> bytes" where
  "scan_digits base [] v n = (v, n, [])"
| "scan_digits base (c # p) v n =
     (case digit_value base c of
        None \<Rightarrow> (v, n, c # p)
      | Some d \<Rightarrow> scan_digits base p (v * base + d) (Suc n))"

text \<open>Digits with at most one point among them: the digits as one number, how many follow the
  point, and the rest.\<close>

definition scan_mantissa :: "nat \<Rightarrow> bytes \<Rightarrow> (nat \<times> nat \<times> bytes) option" where
  "scan_mantissa base p =
     (case scan_digits base p 0 0 of
        (v, n, q) \<Rightarrow>
          let (v, m, q) = (if at_lit q [ch CHR ''.''] then scan_digits base (tl q) v 0 else (v, 0, q))
          in if n + m = 0 then None else Some (v, m, q))"

definition scan_sign :: "bytes \<Rightarrow> bool \<times> bytes" where
  "scan_sign p =
     (if at_lit p [ch CHR ''-''] then (True, tl p)
      else if at_lit p [ch CHR ''+''] then (False, tl p) else (False, p))"

text \<open>An exponent, or 0 without moving when there is none.\<close>

definition scan_exponent :: "byte \<Rightarrow> byte \<Rightarrow> bytes \<Rightarrow> int \<times> bytes" where
  "scan_exponent lower upper p =
     (if at_lit p [lower] \<or> at_lit p [upper]
      then let (neg, q) = scan_sign (tl p); (v, n, r) = scan_digits 10 q 0 0
           in if n = 0 then (0, p) else (if neg then - int v else int v, r)
      else (0, p))"

definition rat_scale :: "rat \<Rightarrow> rat \<Rightarrow> int \<Rightarrow> rat" where
  "rat_scale b x e = (if e \<ge> 0 then x * b ^ nat e else x / b ^ nat (- e))"

text \<open>Rounding to a \<open>double\<close>, to even, with gradual underflow; no result is an overflow.\<close>

definition round_even :: "rat \<Rightarrow> int" where
  "round_even y =
     (let f = \<lfloor>y\<rfloor>; r = y - of_int f
      in if r < 1 / 2 then f else if r > 1 / 2 then f + 1 else if even f then f else f + 1)"

definition rat_exponent :: "rat \<Rightarrow> int" where
  "rat_exponent a =
     (case quotient_of a of
        (n, d) \<Rightarrow> let k = bitlen n - bitlen d in if a < rat_scale 2 1 k then k - 1 else k)"

definition round_double :: "rat \<Rightarrow> rat option" where
  "round_double x =
     (if x = 0 then Some 0
      else let a = \<bar>x\<bar>; q = max (-1074) (rat_exponent a - 52);
               r = rat_scale 2 (of_int (round_even (rat_scale 2 a (- q)))) q
           in if r \<ge> 2 ^ 1024 then None else Some (if x < 0 then - r else r))"

text \<open>\<open>strtod\<close>: the value of the longest numeral and the position behind it. Without a numeral,
  and for the names of infinities and NaNs, there is no result: both are refused alike.\<close>

definition strtod :: "bytes \<Rightarrow> (rat option \<times> bytes) option" where
  "strtod p =
     (let (neg, q) = scan_sign (dropWhile isspace p);
          hex = (if at_lit q (cstr ''0x'') \<or> at_lit q (cstr ''0X'') then scan_mantissa 16 (drop 2 q) else None);
          value = (\<lambda>x. round_double (if neg then - x else x))
      in case hex of
           Some (v, m, r) \<Rightarrow>
             (let (e, r) = scan_exponent (ch CHR ''p'') (ch CHR ''P'') r
              in Some (value (rat_scale 2 (of_nat v) (e - 4 * int m)), r))
         | None \<Rightarrow>
             (case scan_mantissa 10 q of
                None \<Rightarrow> None
              | Some (v, m, r) \<Rightarrow>
                  let (e, r) = scan_exponent (ch CHR ''e'') (ch CHR ''E'') r
                  in Some (value (rat_scale 10 (of_nat v) (e - int m)), r)))"

definition json_number :: "bytes \<Rightarrow> (rat \<times> bytes) option" where
  "json_number p =
     (case strtod (json_ws p) of
        Some (Some v, r) \<Rightarrow> Some (v, r)
      | _ \<Rightarrow> None)"

definition json_int :: "bytes \<Rightarrow> (int \<times> bytes) option" where
  "json_int p =
     (case json_number p of
        None \<Rightarrow> None
      | Some (v, r) \<Rightarrow>
          if v < -2147483648 \<or> v > 2147483647 then None
          else Some (if v \<ge> 0 then \<lfloor>v\<rfloor> else \<lceil>v\<rceil>, r))"

definition json_bool :: "bytes \<Rightarrow> (bool \<times> bytes) option" where
  "json_bool p =
     (let p = json_ws p
      in if at_lit p (cstr ''true'') then Some (True, drop 4 p)
         else if at_lit p (cstr ''false'') then Some (False, drop 5 p)
         else None)"

subsection \<open>Skipping a value\<close>

text \<open>\<open>json_skip_value\<close>, \<open>json_skip_array\<close> and \<open>json_skip_object\<close> call one another. They are one
  function with a mode, the loops of the array and the object being the modes after the opening
  bracket; that every call returns is \<open>json_skip_returns\<close>. The outer option is whether the call
  returns, the inner one its result.\<close>

datatype skip_mode = SkipValue | SkipArray | SkipObject

partial_function (option) json_skip :: "skip_mode \<Rightarrow> bytes \<Rightarrow> bytes option option" where
  [code]: "json_skip m p =
     (case m of
        SkipValue \<Rightarrow>
          let p = json_ws p
          in if at_lit p [0x22] then Some (map_option snd (json_string p))
             else if at_lit p [ch CHR ''{''] then json_skip SkipObject (json_ws (tl p))
             else if at_lit p [ch CHR ''['']  then json_skip SkipArray (json_ws (tl p))
             else if at_lit p (cstr ''true'') then Some (Some (drop 4 p))
             else if at_lit p (cstr ''false'') then Some (Some (drop 5 p))
             else if at_lit p (cstr ''null'') then Some (Some (drop 4 p))
             else Some (map_option snd (json_number p))
      | SkipArray \<Rightarrow>
          if p = [] then Some None
          else if at_lit p [ch CHR '']''] then Some (Some (tl p))
          else Option.bind (json_skip SkipValue p) (\<lambda>r.
            case r of
              None \<Rightarrow> Some None
            | Some q \<Rightarrow>
                let q = json_ws q
                in if at_lit q [ch CHR '',''] then json_skip SkipArray (json_ws (tl q))
                   else if \<not> at_lit q [ch CHR '']''] then Some None
                   else json_skip SkipArray q)
      | SkipObject \<Rightarrow>
          if p = [] then Some None
          else if at_lit p [ch CHR ''}''] then Some (Some (tl p))
          else (case json_string p of
              None \<Rightarrow> Some None
            | Some (key, q) \<Rightarrow>
                let q = json_ws q
                in if \<not> at_lit q [ch CHR '':''] then Some None
                   else Option.bind (json_skip SkipValue (tl q)) (\<lambda>r.
                     case r of
                       None \<Rightarrow> Some None
                     | Some q \<Rightarrow>
                         let q = json_ws q
                         in if at_lit q [ch CHR '',''] then json_skip SkipObject (json_ws (tl q))
                            else if \<not> at_lit q [ch CHR ''}''] then Some None
                            else json_skip SkipObject q)))"

definition json_skip_value :: "bytes \<Rightarrow> bytes option" where
  "json_skip_value p = the (json_skip SkipValue p)"

definition json_raw_value :: "bytes \<Rightarrow> (bytes \<times> bytes) option" where
  "json_raw_value p =
     (let start = json_ws p
      in map_option (\<lambda>q. (take (length start - length q) start, q)) (json_skip_value start))"

text \<open>The loop of \<open>json_minify_raw_value\<close>: inside a string, behind a backslash.\<close>

fun minify_loop :: "bool \<Rightarrow> bool \<Rightarrow> bytes \<Rightarrow> bytes" where
  "minify_loop in_string esc [] = []"
| "minify_loop True esc (c # s) =
     c # (if esc then minify_loop True False s
          else if c = 0x5c then minify_loop True True s
          else minify_loop (c \<noteq> 0x22) False s)"
| "minify_loop False esc (c # s) =
     (if c = 0x22 then c # minify_loop True esc s
      else if \<not> isspace c then c # minify_loop False esc s
      else minify_loop False esc s)"

definition json_minify_raw_value :: "bytes \<Rightarrow> bytes" where
  "json_minify_raw_value json =
     (let start = json_ws json
      in case json_skip_value start of
           None \<Rightarrow> json
         | Some q \<Rightarrow> minify_loop False False (take (length start - length q) start))"

subsection \<open>Base64\<close>

definition b64_value :: "byte \<Rightarrow> int" where
  "b64_value c =
     (if ch CHR ''A'' \<le> c \<and> c \<le> ch CHR ''Z'' then uint (c - ch CHR ''A'')
      else if ch CHR ''a'' \<le> c \<and> c \<le> ch CHR ''z'' then uint (c - ch CHR ''a'') + 26
      else if ch CHR ''0'' \<le> c \<and> c \<le> ch CHR ''9'' then uint (c - ch CHR ''0'') + 52
      else if c = ch CHR ''+'' then 62
      else if c = ch CHR ''/'' then 63
      else -1)"

text \<open>The bytes of four values; \<open>-2\<close> stands for a padding character.\<close>

definition base64_quad :: "int list \<Rightarrow> bytes" where
  "base64_quad vals =
     (let tri = push_bit 18 (of_int (vals ! 0)) OR push_bit 12 (of_int (vals ! 1)) OR
                push_bit 6 (of_int (if vals ! 2 < 0 then 0 else vals ! 2)) OR
                of_int (if vals ! 3 < 0 then 0 else vals ! 3) :: u32
      in [ucast (drop_bit 16 tri)] @ (if vals ! 2 \<noteq> -2 then [ucast (drop_bit 8 tri)] else []) @
         (if vals ! 3 \<noteq> -2 then [ucast tri] else []))"

fun base64_loop :: "int list \<Rightarrow> bytes \<Rightarrow> bytes option" where
  "base64_loop vals [] = Some []"
| "base64_loop vals (c # p) =
     (if isspace c then base64_loop vals p
      else if c \<noteq> ch CHR ''='' \<and> b64_value c < 0 then None
      else let vals = vals @ [if c = ch CHR ''='' then -2 else b64_value c]
           in if length vals = 4 then
                (if vals ! 0 < 0 \<or> vals ! 1 < 0 \<or> vals ! 2 = -1 \<or> vals ! 3 = -1 then None
                 else map_option ((@) (base64_quad vals)) (base64_loop [] p))
              else base64_loop vals p)"

definition base64_decode_alloc :: "bytes \<Rightarrow> bytes option" where
  "base64_decode_alloc s =
     (let comma = dropWhile (\<lambda>c. c \<noteq> ch CHR '','') s;
          s = (if comma \<noteq> [] \<and> at_lit s (cstr ''data:'') then tl comma else s);
          clean = length (filter (\<lambda>c. \<not> isspace c) s)
      in if clean = 0 \<or> clean mod 4 \<noteq> 0 then None else base64_loop [] s)"

subsection \<open>Every scan returns\<close>

lemma json_ws_le: "length (json_ws p) \<le> length p"
  by (simp add: json_ws_def length_dropWhile_le)

lemma scan_digits_split:
  "scan_digits base p v n = (v', n', r) \<Longrightarrow> length p + n = length r + n'"
  by (induction base p v n rule: scan_digits.induct) (auto split: option.splits)

lemma scan_mantissa_less:
  assumes "scan_mantissa base p = Some (v, m, r)"
  shows "length r < length p"
proof -
  obtain v0 n q where s: "scan_digits base p 0 0 = (v0, n, q)"
    by (rule prod_cases3)
  note q = scan_digits_split [OF s]
  show ?thesis
  proof (cases "at_lit q [ch CHR ''.'']")
    case True
    then have "q \<noteq> []"
      by (auto simp: at_lit_def)
    obtain v1 k t where t: "scan_digits base (tl q) v0 0 = (v1, k, t)"
      by (rule prod_cases3)
    show ?thesis
      using assms q scan_digits_split [OF t] True \<open>q \<noteq> []\<close>
      by (auto simp: scan_mantissa_def s t Let_def split: if_splits)
  next
    case False
    then show ?thesis
      using assms q by (auto simp: scan_mantissa_def s Let_def split: if_splits)
  qed
qed

lemma scan_sign_le: "length (snd (scan_sign p)) \<le> length p"
  by (simp add: scan_sign_def)

lemma scan_exponent_le: "length (snd (scan_exponent l u p)) \<le> length p"
proof -
  obtain neg q where s: "scan_sign (tl p) = (neg, q)"
    by (cases "scan_sign (tl p)")
  obtain v n r where d: "scan_digits 10 q 0 0 = (v, n, r)"
    by (rule prod_cases3)
  show ?thesis
    using scan_sign_le [of "tl p"] scan_digits_split [OF d]
    by (auto simp: scan_exponent_def s d)
qed

lemma strtod_less:
  assumes "strtod p = Some (x, r)"
  shows "length r < length p"
proof -
  obtain neg q where s: "scan_sign (dropWhile isspace p) = (neg, q)"
    by (cases "scan_sign (dropWhile isspace p)")
  have q: "length q \<le> length p"
    using scan_sign_le [of "dropWhile isspace p"] length_dropWhile_le [of isspace p] s by simp
  have ex: "length t < n \<Longrightarrow> length (snd (scan_exponent l u t)) < n" for l u t n
    using scan_exponent_le le_less_trans by blast
  show ?thesis
    using assms q
    by (auto simp: strtod_def s Let_def split: option.splits prod.splits if_splits
        dest!: scan_mantissa_less dest: ex [of _ _ "ch CHR ''e''" "ch CHR ''E''"] ex [of _ _ "ch CHR ''p''" "ch CHR ''P''"])
qed

lemma json_number_less: "json_number p = Some (v, r) \<Longrightarrow> length r < length p"
  using json_ws_le [of p] strtod_less [of "json_ws p"]
  by (auto simp: json_number_def split: option.splits prod.splits)

lemma json_simple_escape_u [simp]: "json_simple_escape 117 = None"
  by (simp add: json_simple_escape_def)

lemma json_string_body_less: "json_string_body p b = Some (b', r) \<Longrightarrow> length r < length p"
proof (induction p b rule: json_string_body.induct)
  case (2 c p b)
  consider "c = 0x22" | "c = 0x5c" | "c \<noteq> 0x22" "c \<noteq> 0x5c"
    by blast
  then show ?case
  proof cases
    case 2
    then obtain e p' where p: "p = e # p'"
      using "2.prems" by (auto split: list.splits)
    show ?thesis
    proof (cases "json_simple_escape e")
      case None
      then obtain cp where u: "e = ch CHR ''u''" "json_hex4 p' = Some cp"
        using "2.prems" 2 by (auto simp: p split: if_splits option.splits)
      have "length r < length (snd (json_surrogate cp (drop 4 p')))"
        using "2.IH"(1) [OF _ 2 p None u(1) u(2)] "2.prems" 2 by (simp add: p None [unfolded u(1)] u)
      then show ?thesis
        using json_surrogate_le [of cp "drop 4 p'"] by (simp add: p)
    next
      case (Some x)
      then have "length r < length p'"
        using "2.IH"(2) [OF _ 2 p Some] "2.prems" 2 by (simp add: p)
      then show ?thesis
        by (simp add: p)
    qed
  next
    case 3
    then show ?thesis
      using "2.IH"(3) "2.prems" by (simp add: less_SucI)
  qed (use "2.prems" in simp)
qed simp

lemma json_string_less: "json_string p = Some (s, r) \<Longrightarrow> length r < length p"
  using json_ws_le [of p]
  by (auto simp: json_string_def split: list.splits if_splits prod.splits dest!: json_string_body_less)

text \<open>\<open>json_skip_value\<close>, \<open>json_skip_array\<close> and \<open>json_skip_object\<close> return on every text, and what
  they accept they consume.\<close>

lemma json_skip_returns: "\<exists>r. json_skip m p = Some r \<and> (\<forall>q. r = Some q \<longrightarrow> length q < length p)"
proof (induction "2 * length p + (if m = SkipValue then 0 else 1)" arbitrary: m p rule: less_induct)
  case less
  have IH: "\<exists>r. json_skip m' q = Some r \<and> (\<forall>t. r = Some t \<longrightarrow> length t < length q)"
    if "length q < length p \<or> length q \<le> length p \<and> m \<noteq> SkipValue \<and> m' = SkipValue" for m' q
    using that by (intro less) (auto simp: Suc_le_eq)
  show ?case
  proof (cases m)
    case SkipValue
    define q where "q = json_ws p"
    have q: "length q \<le> length p"
      by (simp add: q_def json_ws_le)
    have inner: "\<exists>r. json_skip m' (json_ws (tl q)) = Some r \<and> (\<forall>t. r = Some t \<longrightarrow> length t < length p)"
      if "at_lit q [c]" for m' c
    proof -
      have "q \<noteq> []"
        using that by (auto simp: at_lit_def)
      then have "length (json_ws (tl q)) < length p"
        using q json_ws_le [of "tl q"] by (cases q) auto
      then show ?thesis
        using IH [of "json_ws (tl q)" m'] by (auto intro: less_trans)
    qed
    have lit: "length q - n < length p" if "at_lit q (c # l)" "0 < n" for n c l
      using that q by (cases q) (auto simp: at_lit_def)
    have str: "json_string q = Some (s, r) \<Longrightarrow> length r < length p" for s r
      using json_string_less q by fastforce
    have num: "json_number q = Some (s, r) \<Longrightarrow> length r < length p" for s r
      using json_number_less q by fastforce
    show ?thesis
      using inner lit str num SkipValue
      by (subst json_skip.simps) (auto simp: q_def [symmetric] Let_def)
  next
    case SkipArray
    show ?thesis
    proof (cases "p = [] \<or> at_lit p [ch CHR '']'']")
      case False
      obtain r where r: "json_skip SkipValue p = Some r" "\<And>t. r = Some t \<Longrightarrow> length t < length p"
        using IH [of p SkipValue] SkipArray by auto
      show ?thesis
      proof (cases r)
        case (Some t)
        have t: "length (json_ws t) < length p" "length (json_ws (tl (json_ws t))) < length p"
          using r(2) [OF Some] json_ws_le [of t] json_ws_le [of "tl (json_ws t)"] by auto
        show ?thesis
          using False SkipArray IH [of "json_ws t" SkipArray] IH [of "json_ws (tl (json_ws t))" SkipArray] t
          by (subst json_skip.simps) (auto simp: r(1) Some Let_def intro: less_trans)
      qed (use False SkipArray in \<open>subst json_skip.simps, simp add: r(1)\<close>)
    qed (use SkipArray in \<open>subst json_skip.simps, auto simp: at_lit_def\<close>)
  next
    case SkipObject
    show ?thesis
    proof (cases "p = [] \<or> at_lit p [ch CHR ''}''] \<or> json_string p = None \<or>
        \<not> at_lit (json_ws (snd (the (json_string p)))) [ch CHR '':'']")
      case False
      then obtain key q where k: "json_string p = Some (key, q)"
        by auto
      have q: "length (tl (json_ws q)) < length p"
        using json_string_less [OF k] json_ws_le [of q] by simp
      obtain r where r: "json_skip SkipValue (tl (json_ws q)) = Some r" "\<And>t. r = Some t \<Longrightarrow> length t < length p"
        using IH [of "tl (json_ws q)" SkipValue] q by (auto intro: less_trans)
      show ?thesis
      proof (cases r)
        case (Some t)
        have t: "length (json_ws t) < length p" "length (json_ws (tl (json_ws t))) < length p"
          using r(2) [OF Some] json_ws_le [of t] json_ws_le [of "tl (json_ws t)"] by auto
        show ?thesis
          using False SkipObject IH [of "json_ws t" SkipObject] IH [of "json_ws (tl (json_ws t))" SkipObject] t k
          by (subst json_skip.simps) (auto simp: r(1) Some Let_def intro: less_trans)
      qed (use False SkipObject k in \<open>subst json_skip.simps, simp add: r(1) Let_def\<close>)
    qed (use SkipObject in \<open>subst json_skip.simps, auto simp: at_lit_def Let_def split: prod.split option.split\<close>)
  qed
qed

subsection \<open>Escaped strings are read back\<close>

lemma at_lit_append [simp]: "at_lit (lit @ r) lit"
  by (simp add: at_lit_def)

lemma at_lit_single [simp]: "at_lit (c # p) [d] \<longleftrightarrow> c = d"
  by (simp add: at_lit_def)

lemma hex_digit_char:
  assumes "d < 16"
  shows "hex_digit (hex_char d) = Some (ucast d)"
proof -
  have d: "uint d < 16" "uint d \<ge> 0"
    using assms by (simp_all add: word_less_def)
  have shift: "uint (of_int b + d) = b + uint d" if "0 \<le> b" "b < 128" for b
    using that d by (simp add: uint_word_ariths uint_word_of_int)
  show ?thesis
  proof (cases "uint d < 10")
    case True
    moreover have "uint (48 + d) = 48 + uint d"
      using shift [of 48] by simp
    ultimately show ?thesis
      by (simp add: hex_char_def hex_digit_def word_less_def word_le_def)
  next
    case False
    then have "hex_char d = 87 + d"
      by (simp add: hex_char_def word_less_def add_diff_eq)
    moreover have "uint (87 + d) = 87 + uint d"
      using shift [of 87] by simp
    ultimately show ?thesis
      using False d by (simp add: hex_digit_def word_le_def add_diff_eq)
  qed
qed

lemma hex4_control:
  assumes "c < 0x20"
  shows "json_hex4 (0x30 # 0x30 # hex_char (drop_bit 4 c) # hex_char (c AND 0x0f) # r) = Some (ucast c)"
proof -
  have c: "unat c < 32"
    using assms by (simp add: word_less_nat_alt)
  have "drop_bit 4 c < 16" "c AND 0x0f < 16"
    using c unat_and_exp_minus_1 [of c 4] by (simp_all add: word_less_nat_alt unat_drop_bit_eq drop_bit_eq_div unat_div)
  moreover have "hex_digit 0x30 = Some 0"
    by (simp add: hex_digit_def)
  ultimately have "json_hex4 (0x30 # 0x30 # hex_char (drop_bit 4 c) # hex_char (c AND 0x0f) # r) =
      Some (push_bit 4 (ucast (drop_bit 4 c)) OR ucast (c AND 0x0f))"
    by (simp add: json_hex4_def numeral_eq_Suc hex_digit_char)
  also have "push_bit 4 (ucast (drop_bit 4 c)) OR ucast (c AND 0x0f) = (ucast c :: u32)"
  proof (rule bit_word_eqI)
    fix n assume "n < LENGTH(32)"
    have "bit (0x0f :: byte) n \<longleftrightarrow> n < 4"
      using bit_mask_iff [of 4 n, where ?'a = byte] by (auto simp: mask_eq_exp_minus_1)
    then show "bit (push_bit 4 (ucast (drop_bit 4 c)) OR ucast (c AND 0x0f) :: u32) n \<longleftrightarrow> bit (ucast c :: u32) n"
      using \<open>n < LENGTH(32)\<close> by (auto simp: bit_or_iff bit_push_bit_iff bit_unsigned_iff bit_drop_bit_eq bit_and_iff)
  qed
  finally show ?thesis .
qed

lemma json_simple_escape_simps [simp]:
  "json_simple_escape 34 = Some 34" "json_simple_escape 92 = Some 92" "json_simple_escape 98 = Some 8"
  "json_simple_escape 102 = Some 12" "json_simple_escape 110 = Some 10" "json_simple_escape 114 = Some 13"
  "json_simple_escape 116 = Some 9"
  by (simp_all add: json_simple_escape_def)

lemma control_point:
  assumes "c < 0x20"
  shows "json_surrogate (ucast c) p = (ucast c, p)" and "utf8_put_codepoint (ucast c) = [c]"
proof -
  have "unat (ucast c :: u32) < 32"
    using assms by (simp add: word_less_nat_alt)
  then show "json_surrogate (ucast c) p = (ucast c, p)" "utf8_put_codepoint (ucast c) = [c]"
    by (simp_all add: json_surrogate_def utf8_put_codepoint_def word_le_nat_alt)
qed

lemma json_string_body_escape:
  "json_string_body (json_escape_char c @ r) b = json_string_body r (b @ [c])"
proof (cases "c < 0x20 \<and> c \<notin> {0x08, 0x09, 0x0a, 0x0c, 0x0d}")
  case True
  then have "c \<noteq> 0x22" "c \<noteq> 0x5c"
    by auto
  then show ?thesis
    using True by (simp add: json_escape_char_def hex4_control control_point)
qed (auto simp: json_escape_char_def)

lemma json_string_body_escapes:
  "json_string_body (concat (map json_escape_char s) @ 0x22 # r) b = Some (b @ s, r)"
  by (induction s arbitrary: b) (simp_all add: json_string_body_escape)

lemma not_isspace_quote: "\<not> isspace 0x22"
  by (simp add: isspace_def)

lemma until_nul_id: "0 \<notin> set s \<Longrightarrow> until_nul s = s"
  unfolding until_nul_def by (rule takeWhile_eq_all_conv [THEN iffD2]) auto

text \<open>C32: A string the server escapes is read back by its own scanner byte for byte, control
  characters, quotes and bytes that are no UTF-8 included, and the scanner stops just behind it.
  With a NUL inside, only the part before the NUL comes back.\<close>

theorem json_string_escape:
  "json_string (json_escape s @ r) = Some (until_nul s, r)"
  using json_string_body_escapes [of s r "[]"]
  by (simp add: json_string_def json_escape_def json_escape_n_def json_ws_def not_isspace_quote)

subsection \<open>Base64 is decoded\<close>

definition b64_char :: "byte \<Rightarrow> byte" where
  "b64_char v =
     (if v < 26 then ch CHR ''A'' + v
      else if v < 52 then ch CHR ''a'' + (v - 26)
      else if v < 62 then ch CHR ''0'' + (v - 52)
      else if v = 62 then ch CHR ''+'' else ch CHR ''/'')"

definition sextets :: "byte \<Rightarrow> byte \<Rightarrow> byte \<Rightarrow> bytes" where
  "sextets a b c =
     [drop_bit 2 a, push_bit 4 (a AND 3) OR drop_bit 4 b, push_bit 2 (b AND 15) OR drop_bit 6 c, c AND 63]"

text \<open>The standard's encoding (RFC 4648).\<close>

fun b64_encode :: "bytes \<Rightarrow> bytes" where
  "b64_encode [] = []"
| "b64_encode [a] = map b64_char (take 2 (sextets a 0 0)) @ cstr ''==''"
| "b64_encode [a, b] = map b64_char (take 3 (sextets a b 0)) @ cstr ''=''"
| "b64_encode (a # b # c # s) = map b64_char (sextets a b c) @ b64_encode s"

lemma b64_alphabet:
  assumes "v < 64"
  shows "b64_value (b64_char v) = uint v" and "\<not> isspace (b64_char v)" and "b64_char v \<noteq> 61" and "b64_char v \<noteq> 44"
proof -
  have v: "uint v \<ge> 0" "uint v < 64"
    using assms by (simp_all add: word_less_def)
  have shift: "uint (of_int b + v) = b + uint v" if "0 \<le> b" "b < 128" for b
    using that v by (simp add: uint_word_ariths uint_word_of_int)
  have sub: "uint (v - of_int b) = uint v - b" if "0 \<le> b" "b \<le> uint v" for b
    using that v by (simp add: uint_word_ariths uint_word_of_int)
  consider "uint v < 26" | "26 \<le> uint v" "uint v < 52" | "52 \<le> uint v" "uint v < 62" | "v = 62" | "v = 63"
    using v by (fastforce simp: word_uint_eq_iff)
  then have "b64_value (b64_char v) = uint v \<and> \<not> isspace (b64_char v) \<and> b64_char v \<noteq> 61 \<and> b64_char v \<noteq> 44"
  proof cases
    case 1
    then have c: "b64_char v = 65 + v"
      by (simp add: b64_char_def word_less_def)
    have "uint (65 + v) = 65 + uint v"
      using shift [of 65] by simp
    then show ?thesis
      using 1 by (simp add: c b64_value_def isspace_def word_le_def word_uint_eq_iff) (intro conjI; use v in linarith)
  next
    case 2
    then have c: "b64_char v = 71 + v"
      by (simp add: b64_char_def word_less_def add_diff_eq)
    have "uint (71 + v) = 71 + uint v"
      using shift [of 71] by simp
    moreover have "uint (71 + v - 97) = uint v - 26"
      using sub [of 26] 2 by (simp add: add_diff_eq)
    ultimately show ?thesis
      using 2 v by (simp add: c b64_value_def isspace_def word_le_def word_uint_eq_iff)
  next
    case 3
    then have c: "b64_char v = v - 4"
      by (simp add: b64_char_def word_less_def add_diff_eq)
    have "uint (v - 4) = uint v - 4"
      using sub [of 4] 3 by simp
    moreover have "uint (v - 4 - 48) = uint v - 52"
      using sub [of 52] 3 by (simp add: add_diff_eq)
    ultimately show ?thesis
      using 3 v by (simp add: c b64_value_def isspace_def word_le_def word_uint_eq_iff)
  qed (simp_all add: b64_char_def b64_value_def isspace_def)
  then show "b64_value (b64_char v) = uint v" "\<not> isspace (b64_char v)" "b64_char v \<noteq> 61" "b64_char v \<noteq> 44"
    by blast+
qed

lemma byte_less_64:
  assumes "\<not> bit (v :: byte) 6" and "\<not> bit v 7"
  shows "v < 64"
proof -
  have "bit v n \<Longrightarrow> n < 6" for n
    using assms bit_imp_le_length [of v n] by (cases "n = 6"; cases "n = 7") auto
  then have "v = take_bit 6 v"
    by (intro bit_word_eqI) (auto simp: bit_take_bit_iff)
  then have "unat v = take_bit 6 (unat v)"
    by (metis unsigned_take_bit_eq)
  also have "\<dots> < 2 ^ 6"
    by (rule take_bit_nat_less_exp)
  finally show ?thesis
    by (simp add: word_less_nat_alt)
qed

lemma byte_high_bit: "8 \<le> n \<Longrightarrow> \<not> bit (b :: byte) n"
  using bit_imp_le_length [of b n] by auto

lemma sextets_less: "\<forall>v \<in> set (sextets a b c). v < 64"
proof -
  have "drop_bit 2 a < 64" "push_bit 4 (a AND 3) OR drop_bit 4 b < 64"
    "push_bit 2 (b AND 15) OR drop_bit 6 c < 64" "c AND 63 < 64"
    by (intro byte_less_64; simp add: byte_word byte_high_bit)+
  then show ?thesis
    by (simp add: sextets_def)
qed

lemma of_int_uint_byte: "(of_int (uint (v :: byte)) :: u32) = ucast v"
  by simp

lemma base64_quad_sextets:
  "base64_quad (map uint (sextets a b c)) = [a, b, c]"
  "base64_quad (map uint (take 3 (sextets a b 0)) @ [-2]) = [a, b]"
  "base64_quad (map uint (take 2 (sextets a 0 0)) @ [-2, -2]) = [a]"
proof -
  have n: "\<not> uint (v :: byte) < 0" "uint (v :: byte) \<noteq> -2" for v
    using uint_ge_0 [of v] by linarith+
  show "base64_quad (map uint (sextets a b c)) = [a, b, c]"
    unfolding base64_quad_def sextets_def Let_def
    by (simp add: n) ((intro conjI)?; simp add: byte_eq_iff byte_word byte_high_bit; (simp add: numeral_eq_Suc)?)
  show "base64_quad (map uint (take 3 (sextets a b 0)) @ [-2]) = [a, b]"
    unfolding base64_quad_def sextets_def Let_def
    by (simp add: n) ((intro conjI)?; simp add: byte_eq_iff byte_word byte_high_bit; (simp add: numeral_eq_Suc)?)
  show "base64_quad (map uint (take 2 (sextets a 0 0)) @ [-2, -2]) = [a]"
    unfolding base64_quad_def sextets_def Let_def
    by (simp add: n) ((intro conjI)?; simp add: byte_eq_iff byte_word byte_high_bit; (simp add: numeral_eq_Suc)?)
qed

text \<open>White space between the characters is skipped.\<close>

lemma base64_loop_skip: "base64_loop vals p = base64_loop vals (filter (\<lambda>c. \<not> isspace c) p)"
proof (induction p arbitrary: vals)
  case (Cons c p)
  show ?case
  proof (cases "isspace c")
    case True
    then show ?thesis
      by (simp add: Cons.IH [of vals])
  next
    case False
    then show ?thesis
      by (simp only: filter.simps if_True if_False not_False_eq_True base64_loop.simps(2) Cons.IH [symmetric])
  qed
qed simp

lemma base64_loop_char:
  assumes "v < 64"
  shows "base64_loop vals (b64_char v # p) =
    (let vals = vals @ [uint v]
     in if length vals = 4 then
          (if vals ! 0 < 0 \<or> vals ! 1 < 0 \<or> vals ! 2 = -1 \<or> vals ! 3 = -1 then None
           else map_option ((@) (base64_quad vals)) (base64_loop [] p))
        else base64_loop vals p)"
  using b64_alphabet [OF assms] uint_ge_0 [of v] by (simp add: Let_def)

lemma base64_loop_pad:
  "base64_loop vals (61 # p) =
    (let vals = vals @ [-2]
     in if length vals = 4 then
          (if vals ! 0 < 0 \<or> vals ! 1 < 0 \<or> vals ! 2 = -1 \<or> vals ! 3 = -1 then None
           else map_option ((@) (base64_quad vals)) (base64_loop [] p))
        else base64_loop vals p)"
  by (simp add: isspace_def)

lemma base64_loop_encode: "base64_loop [] (b64_encode s) = Some s"
proof (induction s rule: b64_encode.induct)
  case (2 a)
  obtain w x y z where s: "sextets a 0 0 = [w, x, y, z]"
    by (simp add: sextets_def)
  then show ?case
    using sextets_less [of a 0 0] base64_quad_sextets(3) [of a]
    by (simp add: base64_loop_char base64_loop_pad not_less del: base64_loop.simps(2))
next
  case (3 a b)
  obtain w x y z where s: "sextets a b 0 = [w, x, y, z]"
    by (simp add: sextets_def)
  have n: "uint (v :: byte) \<noteq> -1" for v
    using uint_ge_0 [of v] by linarith
  show ?case
    using sextets_less [of a b 0] base64_quad_sextets(2) [of a b] s
    by (simp add: base64_loop_char base64_loop_pad not_less n numeral_3_eq_3 del: base64_loop.simps(2))
next
  case (4 a b c s)
  obtain w x y z where q: "sextets a b c = [w, x, y, z]"
    by (simp add: sextets_def)
  have n: "uint (v :: byte) \<noteq> -1" for v
    using uint_ge_0 [of v] by linarith
  show ?case
    using sextets_less [of a b c] base64_quad_sextets(1) [of a b c] 4
    by (simp add: q base64_loop_char not_less n del: base64_loop.simps(2))
qed simp

lemma length_b64_encode: "length (b64_encode s) mod 4 = 0"
  by (induction s rule: b64_encode.induct) (simp_all add: sextets_def)

lemma b64_encode_chars: "c \<in> set (b64_encode s) \<Longrightarrow> c = 61 \<or> (\<exists>v < 64. c = b64_char v)"
proof (induction s rule: b64_encode.induct)
  case (4 a b c' s)
  then show ?case
    using sextets_less [of a b c'] by auto
next
  case (2 a)
  then show ?case
    using sextets_less [of a 0 0] by (auto simp: sextets_def)
next
  case (3 a b)
  then show ?case
    using sextets_less [of a b 0] by (auto simp: sextets_def)
qed simp

lemma b64_encode_Nil: "b64_encode s = [] \<longleftrightarrow> s = []"
  by (induction s rule: b64_encode.induct) (simp_all add: sextets_def)

text \<open>C33: A base64 text of any bytes, with white space anywhere in it and with or without a
  \<open>data:\<close> prefix in front, is decoded to those bytes.\<close>

theorem base64_decodes:
  assumes "s \<noteq> []" and "filter (\<lambda>c. \<not> isspace c) t = b64_encode s" and "44 \<notin> set m"
  shows "base64_decode_alloc t = Some s \<and> base64_decode_alloc (cstr ''data:'' @ m @ 44 # t) = Some s"
proof -
  have "44 \<notin> set (b64_encode s)"
    using b64_encode_chars [of 44 s] b64_alphabet(4) by fastforce
  moreover have "\<not> isspace 44"
    by (simp add: isspace_def)
  ultimately have "44 \<notin> set t"
    using assms(2) by (metis (mono_tags, lifting) filter_set mem_Collect_eq set_filter)
  then have c: "dropWhile (\<lambda>c. c \<noteq> 44) t = []"
    by auto
  have loop: "base64_loop [] t = Some s"
    using base64_loop_skip [of "[]" t] base64_loop_encode [of s] by (simp add: assms(2))
  have len: "length (b64_encode s) \<noteq> 0"
    using assms(1) by (simp add: b64_encode_Nil)
  have "dropWhile (\<lambda>c. c \<noteq> 44) (cstr ''data:'' @ m @ 44 # t) = 44 # t"
    using assms(3) by (simp add: dropWhile_append)
  then show ?thesis
    using loop len length_b64_encode [of s]
    by (simp add: base64_decode_alloc_def c assms(2) at_lit_def)
qed

theorem base64_decodes_witness:
  "base64_decode_alloc (cstr ''aGVs bG8='') = Some (cstr ''hello'') \<and>
   base64_decode_alloc (cstr ''data:'' @ cstr ''image/png;base64'' @ 44 # cstr ''aGVs bG8='') = Some (cstr ''hello'')"
  by (rule base64_decodes) (simp_all add: isspace_def sextets_def b64_char_def)

subsection \<open>Every JSON text is skipped exactly\<close>

text \<open>JSON texts as RFC 8259 gives them, with their white space.\<close>

record json_num =
  jn_neg :: bool
  jn_int :: bytes
  jn_frac :: bytes
  jn_exp :: "(byte \<times> bytes \<times> bytes) option"

definition is_digit :: "byte \<Rightarrow> bool" where
  "is_digit c \<longleftrightarrow> 0x30 \<le> c \<and> c \<le> 0x39"

definition digits_value :: "bytes \<Rightarrow> nat" where
  "digits_value ds = foldl (\<lambda>v c. v * 10 + unat (c - 0x30)) 0 ds"

definition num_text :: "json_num \<Rightarrow> bytes" where
  "num_text n =
     (if jn_neg n then [0x2d] else []) @ jn_int n @ (if jn_frac n = [] then [] else 0x2e # jn_frac n) @
     (case jn_exp n of None \<Rightarrow> [] | Some (e, s, ds) \<Rightarrow> e # s @ ds)"

definition num_value :: "json_num \<Rightarrow> rat" where
  "num_value n =
     (let v = rat_scale 10 (of_nat (digits_value (jn_int n @ jn_frac n)))
                ((case jn_exp n of None \<Rightarrow> 0 | Some (e, s, ds) \<Rightarrow>
                    (if s = [0x2d] then - 1 else 1) * int (digits_value ds)) - int (length (jn_frac n)))
      in if jn_neg n then - v else v)"

text \<open>Far below the largest \<open>double\<close>.\<close>

definition num_limit :: rat where
  "num_limit = 2 ^ 1023"

definition num_ok :: "json_num \<Rightarrow> bool" where
  "num_ok n \<longleftrightarrow>
     list_all is_digit (jn_int n) \<and> jn_int n \<noteq> [] \<and> (hd (jn_int n) = 0x30 \<longrightarrow> tl (jn_int n) = []) \<and>
     list_all is_digit (jn_frac n) \<and>
     (case jn_exp n of None \<Rightarrow> True
      | Some (e, s, ds) \<Rightarrow> e \<in> {0x65, 0x45} \<and> s \<in> {[], [0x2b], [0x2d]} \<and> ds \<noteq> [] \<and> list_all is_digit ds) \<and>
     \<bar>num_value n\<bar> < num_limit"

text \<open>What may follow a number: the end, white space, or the end of an element.\<close>

definition delimited :: "bytes \<Rightarrow> bool" where
  "delimited r \<longleftrightarrow> r = [] \<or> isspace (hd r) \<or> hd r \<in> {0x2c, 0x5d, 0x7d}"

lemma digit_value_digit:
  assumes "is_digit c"
  shows "digit_value 10 c = Some (unat (c - 0x30))"
proof -
  have c: "48 \<le> unat c" "unat c \<le> 57"
    using assms by (simp_all add: is_digit_def word_le_nat_alt)
  have "unat (c - 0x30) = unat c - 48"
    using c by (simp add: unat_sub word_le_nat_alt)
  then have "unat (c - 0x30) < 10"
    using c by simp
  then show ?thesis
    using assms by (simp add: digit_value_def hex_digit_def is_digit_def)
qed

lemma digit_value_none:
  assumes "\<not> is_digit c"
  shows "digit_value 10 c = None"
proof -
  have big: "10 \<le> unat (c - b + 10)" if "unat b \<le> unat c" "unat c \<le> unat b + 5" "unat b < 128" for b
  proof -
    have "unat (c - b) = unat c - unat b"
      using that by (simp add: unat_sub word_le_nat_alt)
    then have "unat (c - b + 10) = unat c - unat b + 10"
      using that by (subst unat_plus_if') simp
    then show ?thesis
      by simp
  qed
  show ?thesis
    using assms big [of 97] big [of 65]
    by (auto simp: digit_value_def hex_digit_def is_digit_def word_le_nat_alt split: option.split if_splits)
qed

lemma scan_digits_text:
  assumes "list_all is_digit ds" and "r = [] \<or> \<not> is_digit (hd r)"
  shows "scan_digits 10 (ds @ r) v n =
    (foldl (\<lambda>v c. v * 10 + unat (c - 0x30)) v ds, n + length ds, r)"
  using assms
proof (induction ds arbitrary: v n)
  case Nil
  then show ?case
    by (cases r) (simp_all add: digit_value_none)
qed (simp add: digit_value_digit)

lemma rat_exponent_bound:
  assumes "0 < a" and "a < 2 ^ m"
  shows "rat_exponent a \<le> int m"
proof -
  obtain n d where q: "quotient_of a = (n, d)"
    by (cases "quotient_of a")
  have d: "0 < d" and a: "a = of_int n / of_int d"
    using quotient_of_denom_pos [OF q] quotient_of_div [OF q] .
  have n: "0 < n"
    using assms(1) d unfolding a by (simp add: zero_less_divide_iff)
  have "of_int n < (of_int (2 ^ m * d) :: rat)"
    using assms(2) d unfolding a by (simp add: divide_less_eq)
  then have lt: "n < 2 ^ m * d"
    by (simp only: of_int_less_iff)
  have "bitlen n \<le> bitlen d + int m"
  proof (rule ccontr)
    assume "\<not> ?thesis"
    then have "m + nat (bitlen d) \<le> nat (bitlen n - 1)"
      using bitlen_bounds [OF d] by linarith
    then have "(2 :: int) ^ (m + nat (bitlen d)) \<le> 2 ^ nat (bitlen n - 1)"
      by (rule power_increasing) simp
    also have "\<dots> \<le> n"
      using bitlen_bounds [OF n] by simp
    finally have "2 ^ m * 2 ^ nat (bitlen d) \<le> n"
      by (simp add: power_add)
    moreover have "2 ^ m * d < 2 ^ m * 2 ^ nat (bitlen d)"
      using bitlen_bounds [OF d] by simp
    ultimately show False
      using lt by linarith
  qed
  then show ?thesis
    by (simp add: rat_exponent_def q Let_def)
qed

lemma rat_scale_cancel: "b \<noteq> 0 \<Longrightarrow> rat_scale b (rat_scale b x (- e)) e = x"
  by (simp add: rat_scale_def)

lemma rat_scale_add: "rat_scale b (x + y) e = rat_scale b x e + rat_scale b y e"
  by (simp add: rat_scale_def add_divide_distrib distrib_right)

lemma rat_scale_mono: "0 < b \<Longrightarrow> x \<le> y \<Longrightarrow> rat_scale b x e \<le> rat_scale b y e"
  by (simp add: rat_scale_def divide_right_mono mult_right_mono)

lemma round_even_le: "of_int (round_even y) \<le> y + (1 :: rat)"
  using of_int_floor_le [of y] by (simp add: round_even_def Let_def) linarith

lemma round_double_some:
  assumes "\<bar>x\<bar> < 2 ^ 1023"
  shows "round_double x \<noteq> None"
proof (cases "x = 0")
  case False
  define a where "a = \<bar>x\<bar>"
  define q where "q = max (-1074) (rat_exponent a - 52)"
  have q: "q \<le> 971"
    using rat_exponent_bound [of a 1023] assms False by (simp add: q_def a_def)
  have "rat_scale 2 1 q \<le> 2 ^ 971"
  proof (cases "0 \<le> q")
    case True
    then have "(2 :: rat) ^ nat q \<le> 2 ^ 971"
      using q by (intro power_increasing) auto
    then show ?thesis
      using True by (simp only: rat_scale_def if_True mult_1_left)
  next
    case False
    then have "rat_scale 2 1 q \<le> 1"
      by (simp add: rat_scale_def)
    also have "\<dots> \<le> 2 ^ 971"
      by (rule one_le_power) simp
    finally show ?thesis .
  qed
  moreover have "rat_scale 2 (of_int (round_even (rat_scale 2 a (- q)))) q \<le> a + rat_scale 2 1 q"
    using rat_scale_mono [OF _ round_even_le, of 2 "rat_scale 2 a (- q)" q] by (simp add: rat_scale_add rat_scale_cancel)
  moreover have "a + 2 ^ 971 < (2 ^ 1024 :: rat)"
  proof -
    have "(2 :: rat) ^ 971 \<le> 2 ^ 1023"
      by (rule power_increasing) simp_all
    moreover have "(2 :: rat) ^ 1024 = 2 ^ 1023 + 2 ^ 1023"
      by simp
    ultimately show ?thesis
      using assms unfolding a_def by linarith
  qed
  ultimately have "rat_scale 2 (of_int (round_even (rat_scale 2 a (- q)))) q < 2 ^ 1024"
    by linarith
  then show ?thesis
    using False by (simp only: round_double_def a_def q_def Let_def if_False not_le [symmetric]) simp
qed (simp add: round_double_def)

lemma digits_value_append:
  "foldl (\<lambda>v c. v * 10 + unat (c - 0x30)) (digits_value ds) es = digits_value (ds @ es)"
  by (simp add: digits_value_def)

lemma not_digit_simps [simp]:
  "\<not> is_digit 0x2e" "\<not> is_digit 0x65" "\<not> is_digit 0x45" "\<not> is_digit 0x2d" "\<not> is_digit 0x2b"
  "\<not> is_digit 0x2c" "\<not> is_digit 0x5d" "\<not> is_digit 0x7d"
  by (simp_all add: is_digit_def)

lemma delimited_digit:
  assumes "delimited r"
  shows "r = [] \<or> \<not> is_digit (hd r)" and "\<not> at_lit r [0x2e]" and "\<not> at_lit r [0x65]" and "\<not> at_lit r [0x45]"
    and "\<not> at_lit (0x30 # r) [0x30, 0x78]" and "\<not> at_lit (0x30 # r) [0x30, 0x58]"
  using assms by (cases r; auto simp: delimited_def isspace_def at_lit_def is_digit_def word_le_nat_alt)+

definition exp_text :: "json_num \<Rightarrow> bytes" where
  "exp_text n = (case jn_exp n of None \<Rightarrow> [] | Some (e, s, ds) \<Rightarrow> e # s @ ds)"

definition exp_value :: "json_num \<Rightarrow> int" where
  "exp_value n = (case jn_exp n of None \<Rightarrow> 0 | Some (e, s, ds) \<Rightarrow> (if s = [0x2d] then - 1 else 1) * int (digits_value ds))"

lemma scan_exponent_text:
  assumes "num_ok n" and "delimited r"
  shows "scan_exponent 0x65 0x45 (exp_text n @ r) = (exp_value n, r)"
proof (cases "jn_exp n")
  case None
  then show ?thesis
    using delimited_digit [OF assms(2)] by (simp add: exp_text_def exp_value_def scan_exponent_def)
next
  case (Some x)
  then obtain e s ds where x: "jn_exp n = Some (e, s, ds)"
    by (cases x) auto
  have ok: "e \<in> {0x65, 0x45}" "s \<in> {[], [0x2b], [0x2d]}" "ds \<noteq> []" "list_all is_digit ds"
    using assms(1) by (simp_all add: num_ok_def x)
  obtain d ds' where ds: "ds = d # ds'" "is_digit d"
    using ok(3,4) by (cases ds) auto
  have "scan_digits 10 (ds @ r) 0 0 = (digits_value ds, length ds, r)"
    using scan_digits_text [OF ok(4) delimited_digit(1) [OF assms(2)], of 0 0] by (simp add: digits_value_def)
  moreover have "scan_sign (s @ ds @ r) = (s = [0x2d], ds @ r)"
    using ok(2) ds by (auto simp: scan_sign_def)
  ultimately show ?thesis
    using ok(1,3) by (auto simp: exp_text_def exp_value_def x scan_exponent_def)
qed

lemma exp_text_start:
  assumes "num_ok n" and "delimited r"
  shows "exp_text n @ r = [] \<or> \<not> is_digit (hd (exp_text n @ r))" and "\<not> at_lit (exp_text n @ r) [0x2e]"
    and "\<not> at_lit (0x30 # exp_text n @ r) [0x30, 0x78]" and "\<not> at_lit (0x30 # exp_text n @ r) [0x30, 0x58]"
proof -
  have "(jn_exp n = None \<and> exp_text n = []) \<or> (\<exists>e t. (e = 0x65 \<or> e = 0x45) \<and> exp_text n = e # t)"
    using assms(1) by (cases "jn_exp n") (auto simp: exp_text_def num_ok_def)
  then consider "exp_text n = []" | e t where "e = 0x65 \<or> e = 0x45" "exp_text n = e # t"
    by blast
  then have "(exp_text n @ r = [] \<or> \<not> is_digit (hd (exp_text n @ r))) \<and> \<not> at_lit (exp_text n @ r) [0x2e] \<and>
      \<not> at_lit (0x30 # exp_text n @ r) [0x30, 0x78] \<and> \<not> at_lit (0x30 # exp_text n @ r) [0x30, 0x58]"
  proof cases
    case 1
    then show ?thesis
      using delimited_digit [OF assms(2)] by simp
  next
    case 2
    then show ?thesis
      by (auto simp: at_lit_def)
  qed
  then show "exp_text n @ r = [] \<or> \<not> is_digit (hd (exp_text n @ r))" "\<not> at_lit (exp_text n @ r) [0x2e]"
    "\<not> at_lit (0x30 # exp_text n @ r) [0x30, 0x78]" "\<not> at_lit (0x30 # exp_text n @ r) [0x30, 0x58]"
    by blast+
qed

lemma num_text_parts:
  "num_text n = (if jn_neg n then [0x2d] else []) @ jn_int n @ (if jn_frac n = [] then [] else 0x2e # jn_frac n) @ exp_text n"
  by (simp add: num_text_def exp_text_def)

lemma num_value_parts:
  "num_value n = (let v = rat_scale 10 (of_nat (digits_value (jn_int n @ jn_frac n))) (exp_value n - int (length (jn_frac n)))
    in if jn_neg n then - v else v)"
  by (simp add: num_value_def exp_value_def)

lemma scan_mantissa_text:
  assumes "num_ok n" and "delimited r"
  shows "scan_mantissa 10 (jn_int n @ (if jn_frac n = [] then [] else 0x2e # jn_frac n) @ exp_text n @ r) =
    Some (digits_value (jn_int n @ jn_frac n), length (jn_frac n), exp_text n @ r)"
proof -
  have ok: "list_all is_digit (jn_int n)" "jn_int n \<noteq> []" "list_all is_digit (jn_frac n)"
    using assms(1) by (simp_all add: num_ok_def)
  note start = exp_text_start [OF assms]
  show ?thesis
  proof (cases "jn_frac n = []")
    case True
    then show ?thesis
      using scan_digits_text [OF ok(1) start(1), of 0 0] ok(2) start(2)
      by (simp add: scan_mantissa_def digits_value_def Let_def)
  next
    case False
    have "scan_digits 10 (jn_int n @ 0x2e # jn_frac n @ exp_text n @ r) 0 0 =
        (digits_value (jn_int n), length (jn_int n), 0x2e # jn_frac n @ exp_text n @ r)"
      using scan_digits_text [OF ok(1), of "0x2e # jn_frac n @ exp_text n @ r" 0 0] by (simp add: digits_value_def)
    moreover have "scan_digits 10 (jn_frac n @ exp_text n @ r) (digits_value (jn_int n)) 0 =
        (digits_value (jn_int n @ jn_frac n), length (jn_frac n), exp_text n @ r)"
      using scan_digits_text [OF ok(3) start(1), of "digits_value (jn_int n)" 0] by (simp add: digits_value_append)
    ultimately show ?thesis
      using False ok(2) by (simp add: scan_mantissa_def Let_def)
  qed
qed

lemma strtod_text:
  assumes "num_ok n" and "delimited r"
  shows "strtod (num_text n @ r) = Some (round_double (num_value n), r)"
proof -
  define body where "body = jn_int n @ (if jn_frac n = [] then [] else 0x2e # jn_frac n) @ exp_text n @ r"
  obtain d ds where d: "jn_int n = d # ds" "is_digit d" "d = 0x30 \<longrightarrow> ds = []"
    using assms(1) by (cases "jn_int n") (auto simp: num_ok_def)
  have parts: "num_text n @ r = (if jn_neg n then [0x2d] else []) @ body"
    by (simp add: num_text_parts body_def)
  have "\<not> isspace d" "d \<noteq> 0x2d" "d \<noteq> 0x2b"
    using d(2) by (auto simp: is_digit_def isspace_def word_le_nat_alt)
  moreover have "\<not> isspace 0x2d"
    by (simp add: isspace_def)
  ultimately have sign: "scan_sign (dropWhile isspace (num_text n @ r)) = (jn_neg n, body)"
    by (simp add: parts body_def d(1) scan_sign_def)
  have hex: "\<not> at_lit body (cstr ''0x'')" "\<not> at_lit body (cstr ''0X'')"
  proof -
    have "\<not> at_lit body [0x30, 0x78] \<and> \<not> at_lit body [0x30, 0x58]"
    proof (cases "d = 0x30 \<and> jn_frac n = []")
      case True
      then show ?thesis
        using exp_text_start(3,4) [OF assms] d by (simp add: body_def)
    next
      case False
      then show ?thesis
        using d by (auto simp: body_def at_lit_def)
    qed
    then show "\<not> at_lit body (cstr ''0x'')" "\<not> at_lit body (cstr ''0X'')"
      by simp_all
  qed
  show ?thesis
    using scan_mantissa_text [OF assms] scan_exponent_text [OF assms] hex
    by (simp add: strtod_def sign body_def [symmetric] Let_def num_value_parts)
qed

datatype jchar = Plain byte | Escaped byte | Unicode byte byte byte byte

datatype jtext = JNull | JTrue | JFalse | JNum json_num | JStr "jchar list" | JArr bytes "jelem list" | JObj bytes "jmember list"
and jelem = Elem bytes jtext bytes
and jmember = Member bytes "jchar list" bytes bytes jtext bytes

fun jchar_text :: "jchar \<Rightarrow> bytes" where
  "jchar_text (Plain c) = [c]"
| "jchar_text (Escaped e) = [0x5c, e]"
| "jchar_text (Unicode a b c d) = [0x5c, 0x75, a, b, c, d]"

fun jchar_ok :: "jchar \<Rightarrow> bool" where
  "jchar_ok (Plain c) \<longleftrightarrow> 0x20 \<le> c \<and> c \<noteq> 0x22 \<and> c \<noteq> 0x5c"
| "jchar_ok (Escaped e) \<longleftrightarrow> e \<in> set (cstr [CHR 0x22, CHR 0x5c, CHR ''/'', CHR ''b'', CHR ''f'', CHR ''n'', CHR ''r'', CHR ''t''])"
| "jchar_ok (Unicode a b c d) \<longleftrightarrow> hex_digit a \<noteq> None \<and> hex_digit b \<noteq> None \<and> hex_digit c \<noteq> None \<and> hex_digit d \<noteq> None"

definition jstr_text :: "jchar list \<Rightarrow> bytes" where
  "jstr_text cs = 0x22 # concat (map jchar_text cs) @ [0x22]"

fun commas :: "bytes list \<Rightarrow> bytes" where
  "commas [] = []"
| "commas [x] = x"
| "commas (x # y # xs) = x @ 0x2c # commas (y # xs)"

fun jtext_bytes :: "jtext \<Rightarrow> bytes" and jelem_bytes :: "jelem \<Rightarrow> bytes" and jmember_bytes :: "jmember \<Rightarrow> bytes" where
  "jtext_bytes JNull = cstr ''null''"
| "jtext_bytes JTrue = cstr ''true''"
| "jtext_bytes JFalse = cstr ''false''"
| "jtext_bytes (JNum n) = num_text n"
| "jtext_bytes (JStr cs) = jstr_text cs"
| "jtext_bytes (JArr w xs) = 0x5b # (if xs = [] then w else commas (map jelem_bytes xs)) @ [0x5d]"
| "jtext_bytes (JObj w xs) = 0x7b # (if xs = [] then w else commas (map jmember_bytes xs)) @ [0x7d]"
| "jelem_bytes (Elem a v b) = a @ jtext_bytes v @ b"
| "jmember_bytes (Member a key b d v c) = a @ jstr_text key @ b @ 0x3a # d @ jtext_bytes v @ c"

abbreviation json_space :: "bytes \<Rightarrow> bool" where
  "json_space w \<equiv> list_all (\<lambda>c. c \<in> {0x20, 0x09, 0x0a, 0x0d}) w"

fun jtext_ok :: "jtext \<Rightarrow> bool" and jelem_ok :: "jelem \<Rightarrow> bool" and jmember_ok :: "jmember \<Rightarrow> bool" where
  "jtext_ok (JNum n) \<longleftrightarrow> num_ok n"
| "jtext_ok (JStr cs) \<longleftrightarrow> list_all jchar_ok cs"
| "jtext_ok (JArr w xs) \<longleftrightarrow> json_space w \<and> list_all jelem_ok xs"
| "jtext_ok (JObj w xs) \<longleftrightarrow> json_space w \<and> list_all jmember_ok xs"
| "jtext_ok _ \<longleftrightarrow> True"
| "jelem_ok (Elem a v b) \<longleftrightarrow> json_space a \<and> jtext_ok v \<and> json_space b"
| "jmember_ok (Member a key b d v c) \<longleftrightarrow>
     json_space a \<and> list_all jchar_ok key \<and> json_space b \<and> json_space d \<and> jtext_ok v \<and> json_space c"

lemma json_space_isspace: "json_space w \<Longrightarrow> list_all isspace w"
  by (auto simp: list_all_iff isspace_def)

lemma json_ws_space: "json_space w \<Longrightarrow> json_ws (w @ r) = json_ws r"
  using json_space_isspace [of w] by (simp add: json_ws_def list_all_iff dropWhile_append2)

lemma json_ws_idem [simp]: "json_ws (json_ws p) = json_ws p"
  by (simp add: json_ws_def)

lemma json_ws_Cons [simp]: "\<not> isspace c \<Longrightarrow> json_ws (c # p) = c # p"
  by (simp add: json_ws_def)

lemma not_isspace_simps [simp]:
  "\<not> isspace 0x22" "\<not> isspace 0x2c" "\<not> isspace 0x5d" "\<not> isspace 0x7d" "\<not> isspace 0x3a" "\<not> isspace 0x5b" "\<not> isspace 0x7b"
  "\<not> isspace 0x6e" "\<not> isspace 0x74" "\<not> isspace 0x66" "\<not> isspace 0x2d"
  by (simp_all add: isspace_def)

lemma hex4_text:
  assumes "jchar_ok (Unicode a b c d)"
  obtains cp where "\<And>r. json_hex4 (a # b # c # d # r) = Some cp"
  using assms by (auto simp: json_hex4_def numeral_eq_Suc)

lemma escape_text: "jchar_ok (Escaped e) \<Longrightarrow> \<exists>x. json_simple_escape e = Some x"
  by (auto simp: json_simple_escape_def)

text \<open>A surrogate pair takes two units at once.\<close>

lemma surrogate_text:
  assumes "list_all jchar_ok cs"
  shows "\<exists>cs' cp'. (\<forall>r. json_surrogate cp (concat (map jchar_text cs) @ 0x22 # r) = (cp', concat (map jchar_text cs') @ 0x22 # r)) \<and>
    list_all jchar_ok cs' \<and> length cs' \<le> length cs"
proof (cases "\<exists>a b c d cs'. cs = Unicode a b c d # cs'")
  case True
  then obtain a b c d cs' where cs: "cs = Unicode a b c d # cs'"
    by blast
  obtain lo where lo: "\<And>r. json_hex4 (a # b # c # d # r) = Some lo"
    using assms hex4_text [of a b c d] by (auto simp: cs)
  show ?thesis
  proof (cases "0xd800 \<le> cp \<and> cp \<le> 0xdbff \<and> 0xdc00 \<le> lo \<and> lo \<le> 0xdfff")
    case True
    then show ?thesis
      using assms by (intro exI [of _ cs'] exI) (simp add: json_surrogate_def at_lit_def cs lo numeral_eq_Suc)
  next
    case False
    then show ?thesis
      using assms by (intro exI [of _ cs] exI [of _ cp]) (auto simp: json_surrogate_def at_lit_def cs lo numeral_eq_Suc)
  qed
next
  case False
  have "\<not> at_lit (concat (map jchar_text cs) @ 0x22 # r) [0x5c, 0x75]" for r
  proof (cases cs)
    case (Cons x cs')
    then show ?thesis
      using assms False by (cases x) (auto simp: at_lit_def)
  qed (simp add: at_lit_def)
  then show ?thesis
    using assms by (intro exI [of _ cs] exI [of _ cp]) (simp add: json_surrogate_def)
qed

lemma json_string_body_text:
  "list_all jchar_ok cs \<Longrightarrow> \<exists>b'. \<forall>r. json_string_body (concat (map jchar_text cs) @ 0x22 # r) b = Some (b', r)"
proof (induction "length cs" arbitrary: cs b rule: less_induct)
  case less
  show ?case
  proof (cases cs)
    case (Cons x cs')
    have IH: "\<exists>b'. \<forall>r. json_string_body (concat (map jchar_text cs'') @ 0x22 # r) b = Some (b', r)"
      if "list_all jchar_ok cs''" "length cs'' \<le> length cs'" for cs'' b
      using less that Cons by simp
    have ok: "jchar_ok x" "list_all jchar_ok cs'"
      using less.prems Cons by simp_all
    show ?thesis
    proof (cases x)
      case (Plain c)
      then show ?thesis
        using ok IH [of cs'] by (simp add: Cons)
    next
      case (Escaped e)
      then obtain y where "json_simple_escape e = Some y"
        using escape_text ok(1) by blast
      then show ?thesis
        using Escaped ok(2) IH [of cs'] by (simp add: Cons)
    next
      case (Unicode a b c d)
      then obtain cp where cp: "\<And>r. json_hex4 (a # b # c # d # r) = Some cp"
        using ok(1) hex4_text by metis
      obtain cs'' cp' where s: "\<And>r. json_surrogate cp (concat (map jchar_text cs') @ 0x22 # r) =
          (cp', concat (map jchar_text cs'') @ 0x22 # r)" "list_all jchar_ok cs''" "length cs'' \<le> length cs'"
        using surrogate_text [OF ok(2)] by blast
      then show ?thesis
        using Unicode IH [of cs''] by (simp add: Cons cp)
    qed
  qed simp
qed

text \<open>The value of a string literal.\<close>

definition str_value :: "jchar list \<Rightarrow> bytes" where
  "str_value cs = fst (the (json_string (jstr_text cs)))"

lemma json_string_value: "list_all jchar_ok cs \<Longrightarrow> json_string (jstr_text cs @ r) = Some (str_value cs, r)"
proof -
  assume "list_all jchar_ok cs"
  then obtain b' where "\<And>r. json_string_body (concat (map jchar_text cs) @ 0x22 # r) [] = Some (b', r)"
    using json_string_body_text by blast
  then have "json_string (jstr_text cs @ r) = Some (until_nul b', r)" for r
    by (simp add: json_string_def jstr_text_def)
  then show ?thesis
    using \<open>\<And>r. json_string (jstr_text cs @ r) = Some (until_nul b', r)\<close> [of "[]"] by (simp add: str_value_def)
qed

lemma json_string_text:
  "list_all jchar_ok cs \<Longrightarrow> \<exists>s. json_string (jstr_text cs @ r) = Some (s, r)"
  using json_string_value by blast

lemma jtext_start:
  assumes "jtext_ok v"
  obtains c t where "jtext_bytes v = c # t" and "\<not> isspace c" and "c \<noteq> 0x5d" and "c \<noteq> 0x7d" and "c \<noteq> 0x2c"
proof (cases v)
  case (JNum n)
  obtain d ds where d: "jn_int n = d # ds" "is_digit d"
    using assms by (cases "jn_int n") (auto simp: JNum num_ok_def)
  then have "\<not> isspace d" "d \<noteq> 0x5d" "d \<noteq> 0x7d" "d \<noteq> 0x2c"
    by (auto simp: is_digit_def isspace_def word_le_nat_alt)
  then show ?thesis
    using that d by (cases "jn_neg n") (auto simp: JNum num_text_def)
qed (use that in \<open>auto simp: jstr_text_def\<close>)

lemma json_ws_text: "jtext_ok v \<Longrightarrow> json_ws (jtext_bytes v @ r) = jtext_bytes v @ r"
  by (erule jtext_start) simp

lemma skip_ws: "json_skip SkipValue (json_ws p) = json_skip SkipValue p"
  by (subst (1 2) json_skip.simps) simp

text \<open>A number starts with neither a quote, a bracket nor a name.\<close>

lemma skip_number:
  assumes "num_ok n" and "delimited r"
  shows "json_skip SkipValue (num_text n @ r) = Some (Some r)"
proof -
  have v: "jtext_ok (JNum n)"
    using assms(1) by simp
  obtain d ds where d: "jn_int n = d # ds" "is_digit d"
    using assms(1) by (cases "jn_int n") (auto simp: num_ok_def)
  obtain c t where c: "num_text n @ r = c # t" "c = 0x2d \<or> is_digit c"
    using d by (cases "jn_neg n") (auto simp: num_text_def)
  have "c \<notin> {0x22, 0x7b, 0x5b, 0x74, 0x66, 0x6e}"
    using c(2) by (auto simp: is_digit_def word_le_nat_alt)
  moreover obtain x where "round_double (num_value n) = Some x"
    using round_double_some [of "num_value n"] assms(1) by (auto simp: num_ok_def num_limit_def simp del: power_numeral)
  then have "json_number (c # t) = Some (x, r)"
    using strtod_text [OF assms] json_ws_text [OF v, of r] c(1) by (simp add: json_number_def)
  moreover have "json_ws (c # t) = c # t"
    using json_ws_text [OF v, of r] c(1) by simp
  ultimately show ?thesis
    unfolding c(1) by (subst json_skip.simps) (simp add: at_lit_def)
qed

lemma delimited_simps [simp]: "delimited (0x2c # r)" "delimited (0x5d # r)" "delimited (0x7d # r)"
  by (simp_all add: delimited_def)

lemma delimited_space: "json_space w \<Longrightarrow> delimited r \<Longrightarrow> delimited (w @ r)"
  using json_space_isspace [of w] by (cases w) (auto simp: delimited_def)

text \<open>An element and a member of an object as the loops take them, up to what is behind them.\<close>

definition elem_skips :: "jelem \<Rightarrow> bytes \<Rightarrow> bool" where
  "elem_skips x r \<longleftrightarrow> (\<exists>c t w. json_ws (jelem_bytes x @ r) = c # t \<and> c \<noteq> 0x5d \<and> json_space w \<and>
     json_skip SkipValue (c # t) = Some (Some (w @ r)))"

definition member_skips :: "jmember \<Rightarrow> bytes \<Rightarrow> bool" where
  "member_skips x r \<longleftrightarrow> (\<exists>t s q w. json_ws (jmember_bytes x @ r) = 0x22 # t \<and> json_string (0x22 # t) = Some (s, q) \<and>
     json_space w \<and> (\<exists>q'. json_ws q = 0x3a # q' \<and> json_skip SkipValue q' = Some (Some (w @ r))))"

lemma skip_elem:
  assumes "jelem_ok x" and "delimited r" and "\<And>v r. P v \<Longrightarrow> delimited r \<Longrightarrow> json_skip SkipValue (jtext_bytes v @ r) = Some (Some r)"
    and "case x of Elem a v b \<Rightarrow> P v"
  shows "elem_skips x r"
proof (cases x)
  case (Elem a v b)
  then have ok: "json_space a" "jtext_ok v" "json_space b" and "P v"
    using assms(1,4) by simp_all
  obtain c t where c: "jtext_bytes v = c # t" "c \<noteq> 0x5d" "\<not> isspace c"
    using jtext_start [OF ok(2)] by metis
  have "json_ws (jelem_bytes x @ r) = c # t @ b @ r"
    using c by (simp add: Elem json_ws_space [OF ok(1)])
  moreover have "json_skip SkipValue (c # t @ b @ r) = Some (Some (b @ r))"
    using assms(3) [OF \<open>P v\<close> delimited_space [OF ok(3) assms(2)]] c(1) by simp
  ultimately show ?thesis
    unfolding elem_skips_def using c(2) ok(3) by blast
qed

lemma skip_elements:
  assumes "xs \<noteq> []" and "\<forall>x \<in> set xs. \<forall>r. delimited r \<longrightarrow> elem_skips x r"
  shows "json_skip SkipArray (json_ws (commas (map jelem_bytes xs) @ 0x5d # r)) = Some (Some r)"
  using assms
proof (induction xs rule: induct_list012)
  case (2 x)
  obtain c t w where e: "json_ws (jelem_bytes x @ 0x5d # r) = c # t" "c \<noteq> 0x5d" "json_space w"
      "json_skip SkipValue (c # t) = Some (Some (w @ 0x5d # r))"
    using "2.prems"(2) delimited_simps(2) [of r] unfolding elem_skips_def by fastforce
  have "json_skip SkipArray (0x5d # r) = Some (Some r)"
    by (subst json_skip.simps) simp
  then show ?case
    by (simp add: e(1)) (subst json_skip.simps, simp add: e json_ws_space [OF e(3)] Let_def)
next
  case (3 x y xs)
  let ?r = "commas (map jelem_bytes (y # xs)) @ 0x5d # r"
  obtain c t w where e: "json_ws (jelem_bytes x @ 0x2c # ?r) = c # t" "c \<noteq> 0x5d" "json_space w"
      "json_skip SkipValue (c # t) = Some (Some (w @ 0x2c # ?r))"
    using "3.prems"(2) delimited_simps(1) [of ?r] unfolding elem_skips_def by fastforce
  have "json_skip SkipArray (json_ws ?r) = Some (Some r)"
    using "3.IH"(2) "3.prems"(2) by simp
  then show ?case
    using e(1) by simp (subst json_skip.simps, simp add: e json_ws_space [OF e(3)] Let_def)
qed simp

lemma skip_member:
  assumes "jmember_ok x" and "delimited r" and "\<And>v r. P v \<Longrightarrow> delimited r \<Longrightarrow> json_skip SkipValue (jtext_bytes v @ r) = Some (Some r)"
    and "case x of Member a key b d v c \<Rightarrow> P v"
  shows "member_skips x r"
proof (cases x)
  case (Member a key b d v c)
  then have ok: "json_space a" "list_all jchar_ok key" "json_space b" "json_space d" "jtext_ok v" "json_space c" and "P v"
    using assms(1,4) by simp_all
  obtain t where t: "jstr_text key = 0x22 # t"
    by (simp add: jstr_text_def)
  obtain s where "json_string (jstr_text key @ b @ 0x3a # d @ jtext_bytes v @ c @ r) = Some (s, b @ 0x3a # d @ jtext_bytes v @ c @ r)"
    using json_string_text [OF ok(2)] by blast
  moreover have "json_ws (jmember_bytes x @ r) = 0x22 # t @ b @ 0x3a # d @ jtext_bytes v @ c @ r"
    by (simp add: Member json_ws_space [OF ok(1)] t)
  moreover have "json_ws (b @ 0x3a # d @ jtext_bytes v @ c @ r) = 0x3a # d @ jtext_bytes v @ c @ r"
    by (simp add: json_ws_space [OF ok(3)])
  moreover have "json_skip SkipValue (jtext_bytes v @ c @ r) = Some (Some (c @ r))"
    by (rule assms(3) [OF \<open>P v\<close> delimited_space [OF ok(6) assms(2)]])
  moreover have skipd: "json_skip SkipValue (d @ p) = json_skip SkipValue p" for p
    using skip_ws [of "d @ p"] skip_ws [of p] json_ws_space [OF ok(4), of p] by simp
  ultimately show ?thesis
    unfolding member_skips_def using ok(6) t skipd by fastforce
qed

lemma skip_members:
  assumes "xs \<noteq> []" and "\<forall>x \<in> set xs. \<forall>r. delimited r \<longrightarrow> member_skips x r"
  shows "json_skip SkipObject (json_ws (commas (map jmember_bytes xs) @ 0x7d # r)) = Some (Some r)"
  using assms
proof (induction xs rule: induct_list012)
  case (2 x)
  obtain t s q w q' where e: "json_ws (jmember_bytes x @ 0x7d # r) = 0x22 # t" "json_string (0x22 # t) = Some (s, q)" "json_space w"
      "json_ws q = 0x3a # q'" "json_skip SkipValue q' = Some (Some (w @ 0x7d # r))"
    using "2.prems"(2) delimited_simps(3) [of r] unfolding member_skips_def by fastforce
  have "json_skip SkipObject (0x7d # r) = Some (Some r)"
    by (subst json_skip.simps) simp
  then show ?case
    by (simp add: e(1)) (subst json_skip.simps, simp add: e json_ws_space [OF e(3)] Let_def)
next
  case (3 x y xs)
  let ?r = "commas (map jmember_bytes (y # xs)) @ 0x7d # r"
  obtain t s q w q' where e: "json_ws (jmember_bytes x @ 0x2c # ?r) = 0x22 # t" "json_string (0x22 # t) = Some (s, q)" "json_space w"
      "json_ws q = 0x3a # q'" "json_skip SkipValue q' = Some (Some (w @ 0x2c # ?r))"
    using "3.prems"(2) delimited_simps(1) [of ?r] unfolding member_skips_def by fastforce
  have "json_skip SkipObject (json_ws ?r) = Some (Some r)"
    using "3.IH"(2) "3.prems"(2) by simp
  then show ?case
    using e(1) by simp (subst json_skip.simps, simp add: e json_ws_space [OF e(3)] Let_def)
qed simp

lemma skip_texts:
  "jtext_ok v \<Longrightarrow> \<forall>r. delimited r \<longrightarrow> json_skip SkipValue (jtext_bytes v @ r) = Some (Some r)"
  "jelem_ok x \<Longrightarrow> \<forall>r. delimited r \<longrightarrow> elem_skips x r"
  "jmember_ok y \<Longrightarrow> \<forall>r. delimited r \<longrightarrow> member_skips y r"
proof (induction v and x and y)
  case (JNum n)
  then show ?case
    by (simp add: skip_number)
next
  case (JStr cs)
  show ?case
  proof (intro allI impI)
    fix r assume "delimited r"
    obtain t where t: "jstr_text cs @ r = 0x22 # t"
      by (simp add: jstr_text_def)
    obtain s where "json_string (0x22 # t) = Some (s, r)"
      using json_string_text [of cs r] JStr t by auto
    then show "json_skip SkipValue (jtext_bytes (JStr cs) @ r) = Some (Some r)"
      unfolding jtext_bytes.simps t by (subst json_skip.simps) simp
  qed
next
  case (JArr w xs)
  show ?case
  proof (intro allI impI)
    fix r assume "delimited r"
    have "json_skip SkipArray (json_ws ((if xs = [] then w else commas (map jelem_bytes xs)) @ 0x5d # r)) = Some (Some r)"
    proof (cases "xs = []")
      case True
      then show ?thesis
        using JArr.prems by (simp add: json_ws_space) (subst json_skip.simps, simp)
    next
      case False
      then show ?thesis
        using skip_elements [OF False] JArr by (simp add: list_all_iff)
    qed
    then show "json_skip SkipValue (jtext_bytes (JArr w xs) @ r) = Some (Some r)"
      by (subst json_skip.simps) simp
  qed
next
  case (JObj w xs)
  show ?case
  proof (intro allI impI)
    fix r assume "delimited r"
    have "json_skip SkipObject (json_ws ((if xs = [] then w else commas (map jmember_bytes xs)) @ 0x7d # r)) = Some (Some r)"
    proof (cases "xs = []")
      case True
      then show ?thesis
        using JObj.prems by (simp add: json_ws_space) (subst json_skip.simps, simp)
    next
      case False
      then show ?thesis
        using skip_members [OF False] JObj by (simp add: list_all_iff)
    qed
    then show "json_skip SkipValue (jtext_bytes (JObj w xs) @ r) = Some (Some r)"
      by (subst json_skip.simps) simp
  qed
next
  case (Elem a v b)
  then show ?case
    by (auto intro: skip_elem [where P = "\<lambda>u. u = v"])
next
  case (Member a key b d v c)
  then show ?case
    by (auto intro: skip_member [where P = "\<lambda>u. u = v"])
qed (subst json_skip.simps, simp add: at_lit_def)+

text \<open>C31: The scanner accepts every JSON text of RFC 8259, however deep and with white space
  wherever the grammar has it, and consumes exactly that text: a request field that is skipped
  or taken over raw ends where its value ends. The exception is a number of magnitude \<open>2 ^ 1023\<close> or more,
  which the scanner may refuse as not finite.\<close>

theorem json_skip_exact:
  assumes "jtext_ok v" and "json_space w" and "delimited r"
  shows "json_skip_value (w @ jtext_bytes v @ r) = Some r \<and> json_raw_value (w @ jtext_bytes v @ r) = Some (jtext_bytes v, r)"
proof -
  have "json_skip SkipValue (w @ jtext_bytes v @ r) = json_skip SkipValue (jtext_bytes v @ r)"
    using skip_ws [of "w @ jtext_bytes v @ r"] skip_ws [of "jtext_bytes v @ r"] json_ws_space [OF assms(2)] by metis
  then have s: "json_skip SkipValue (w @ jtext_bytes v @ r) = Some (Some r)" "json_skip SkipValue (jtext_bytes v @ r) = Some (Some r)"
    using skip_texts(1) [OF assms(1)] assms(3) by simp_all
  then show ?thesis
    by (simp add: json_skip_value_def json_raw_value_def json_ws_space [OF assms(2)] json_ws_text [OF assms(1)])
qed

theorem json_skip_exact_witness:
  "json_skip_value (cstr '' '' @ jtext_bytes (JArr [] [Elem [] (JNum \<lparr>jn_neg = True, jn_int = cstr ''12'', jn_frac = cstr ''5'',
      jn_exp = Some (0x65, [], cstr ''3'')\<rparr>) [0x20], Elem [] JTrue []]) @ cstr '',7'') = Some (cstr '',7'') \<and>
   json_raw_value (cstr '' '' @ jtext_bytes (JArr [] [Elem [] (JNum \<lparr>jn_neg = True, jn_int = cstr ''12'', jn_frac = cstr ''5'',
      jn_exp = Some (0x65, [], cstr ''3'')\<rparr>) [0x20], Elem [] JTrue []]) @ cstr '',7'') =
     Some (jtext_bytes (JArr [] [Elem [] (JNum \<lparr>jn_neg = True, jn_int = cstr ''12'', jn_frac = cstr ''5'',
      jn_exp = Some (0x65, [], cstr ''3'')\<rparr>) [0x20], Elem [] JTrue []]), cstr '',7'')"
proof (rule json_skip_exact)
  have "num_value \<lparr>jn_neg = True, jn_int = cstr ''12'', jn_frac = cstr ''5'', jn_exp = Some (0x65, [], cstr ''3'')\<rparr> = - 12500"
    by (simp add: num_value_def digits_value_def rat_scale_def)
  then show "jtext_ok (JArr [] [Elem [] (JNum \<lparr>jn_neg = True, jn_int = cstr ''12'', jn_frac = cstr ''5'',
      jn_exp = Some (0x65, [], cstr ''3'')\<rparr>) [0x20], Elem [] JTrue []])"
    by (simp add: num_ok_def is_digit_def num_limit_def)
qed (simp_all add: delimited_def)

end
