(* ===== verification/ServerStream.thy ===== *)
theory ServerStream
  imports ServerJson
begin

section \<open>Streaming of generated text\<close>

text \<open>
  What the server of \<open>sf37_server.c\<close> shows of a text while it is still being generated: the stop
  sequences and the bytes held back for them, the cut at complete UTF-8 characters, the markers of
  tool calls, and the splitting of the text into reasoning and content, piece by piece
  (\<open>reasoning_stream_update\<close>) and at once (\<open>split_reasoning_content\<close>). A text with positions in it
  is the list of its bytes with \<open>nat\<close> positions. A delta that is sent is an element of a list;
  \<open>send\<close> says whether the socket takes it, and without it the request ends (\<open>None\<close>).
\<close>

subsection \<open>Searching\<close>

definition occurs_at :: "bytes \<Rightarrow> bytes \<Rightarrow> nat \<Rightarrow> bool" where
  "occurs_at s needle i \<longleftrightarrow> take (length needle) (drop i s) = needle"

text \<open>\<open>strstr\<close> on the C string in a buffer, up to its first NUL: the first position.\<close>

fun strstr_loop :: "bytes \<Rightarrow> bytes \<Rightarrow> nat option" where
  "strstr_loop [] needle = (if needle = [] then Some 0 else None)"
| "strstr_loop (c # s) needle = (if at_lit (c # s) needle then Some 0 else map_option Suc (strstr_loop s needle))"

definition strstr :: "bytes \<Rightarrow> bytes \<Rightarrow> nat option" where
  "strstr s needle = strstr_loop (until_nul s) needle"

definition find_substr_from :: "bytes \<Rightarrow> nat \<Rightarrow> nat \<Rightarrow> bytes \<Rightarrow> nat option" where
  "find_substr_from s len start needle =
     (if needle = [] \<or> start \<ge> len \<or> length needle > len then None
      else find (occurs_at s needle) [start..<Suc (len - length needle)])"

definition find_last_substr :: "bytes \<Rightarrow> bytes \<Rightarrow> nat option" where
  "find_last_substr s needle =
     (if needle = [] then None
      else foldl (\<lambda>best i. if occurs_at (until_nul s) needle i then Some i else best) None [0..<length (until_nul s)])"

subsection \<open>Stop sequences\<close>

record stop_list =
  sl_v :: "bytes list"
  sl_max_len :: nat

definition stop_list_clear :: "stop_list \<Rightarrow> stop_list" where
  "stop_list_clear stops = \<lparr>sl_v = [], sl_max_len = 0\<rparr>"

definition stop_list_push :: "stop_list \<Rightarrow> bytes \<Rightarrow> stop_list" where
  "stop_list_push stops s =
     (if s = [] then stops
      else \<lparr>sl_v = sl_v stops @ [s], sl_max_len = (if length s > sl_max_len stops then length s else sl_max_len stops)\<rparr>)"

definition id_list_contains :: "stop_list \<Rightarrow> bytes \<Rightarrow> bool" where
  "id_list_contains ids x \<longleftrightarrow> x \<noteq> [] \<and> list_ex (\<lambda>v. v = x) (sl_v ids)"

definition id_list_push_unique :: "stop_list \<Rightarrow> bytes \<Rightarrow> stop_list" where
  "id_list_push_unique ids x = (if x = [] \<or> id_list_contains ids x then ids else stop_list_push ids x)"

text \<open>The loop of \<open>parse_stop\<close> over an array; other elements than strings are skipped. Each turn
  moves on, so the length of the text is fuel enough (\<open>parse_stop_fuel\<close>).\<close>

fun parse_stop_loop :: "nat \<Rightarrow> bytes \<Rightarrow> stop_list \<Rightarrow> (stop_list \<times> bytes) option" where
  "parse_stop_loop 0 p out = None"
| "parse_stop_loop (Suc n) p out =
     (if p = [] then None
      else if at_lit p [ch CHR '']''] then Some (out, tl p)
      else if at_lit p [0x22] then
        (case json_string p of
           None \<Rightarrow> None
         | Some (s, q) \<Rightarrow>
             let q = json_ws q; q = (if at_lit q [ch CHR '',''] then tl q else q)
             in parse_stop_loop n (json_ws q) (stop_list_push out s))
      else
        (case json_skip_value p of
           None \<Rightarrow> None
         | Some q \<Rightarrow>
             let q = json_ws q; q = (if at_lit q [ch CHR '',''] then tl q else q)
             in parse_stop_loop n (json_ws q) out))"

definition parse_stop :: "bytes \<Rightarrow> stop_list \<Rightarrow> (stop_list \<times> bytes) option" where
  "parse_stop p out =
     (let p = json_ws p; out = stop_list_clear out
      in if at_lit p [0x22] then map_option (\<lambda>(s, q). (stop_list_push out s, q)) (json_string p)
         else if \<not> at_lit p [ch CHR ''[''] then map_option (Pair out) (json_skip_value p)
         else parse_stop_loop (Suc (length p)) (json_ws (tl p)) out)"

definition stop_list_find_from :: "stop_list \<Rightarrow> bytes \<Rightarrow> nat \<Rightarrow> (nat \<times> nat) option" where
  "stop_list_find_from stops txt from0 =
     foldl (\<lambda>best s.
        case strstr (drop from0 txt) s of
          None \<Rightarrow> best
        | Some i \<Rightarrow>
            (case best of
               None \<Rightarrow> Some (from0 + i, length s)
             | Some (pos, len) \<Rightarrow> if from0 + i < pos then Some (from0 + i, length s) else best))
       None (sl_v stops)"

definition stop_list_stream_safe_len :: "stop_list \<Rightarrow> nat \<Rightarrow> nat" where
  "stop_list_stream_safe_len stops text_len =
     (if sl_v stops = [] \<or> sl_max_len stops \<le> 1 then text_len
      else let hold = sl_max_len stops - 1 in if text_len > hold then text_len - hold else 0)"

subsection \<open>Complete characters\<close>

definition utf8_need :: "byte \<Rightarrow> nat option" where
  "utf8_need c =
     (if c < 0x80 then Some 1
      else if c AND 0xe0 = 0xc0 then Some 2
      else if c AND 0xf0 = 0xe0 then Some 3
      else if c AND 0xf8 = 0xf0 then Some 4
      else None)"

text \<open>The loop of \<open>utf8_stream_safe_len\<close>; \<open>safe\<close> is \<open>i\<close> whenever the loop is entered.\<close>

function utf8_safe_loop :: "bytes \<Rightarrow> nat \<Rightarrow> nat \<Rightarrow> nat" where
  "utf8_safe_loop s limit i =
     (if \<not> i < limit then i
      else case utf8_need (s ! i) of
             None \<Rightarrow> utf8_safe_loop s limit (i + 1)
           | Some need \<Rightarrow>
               if i + need > limit then i
               else if list_all (\<lambda>j. s ! (i + j) AND 0xc0 = 0x80) [1..<need] then utf8_safe_loop s limit (i + need)
               else utf8_safe_loop s limit (i + 1))"
  by pat_completeness auto
termination
  by (relation "measure (\<lambda>(s, limit, i). limit - i)") (auto simp: utf8_need_def split: if_splits)

declare utf8_safe_loop.simps [simp del]

definition utf8_stream_safe_len :: "bytes \<Rightarrow> nat \<Rightarrow> nat \<Rightarrow> nat" where
  "utf8_stream_safe_len s start limit = utf8_safe_loop s limit start"

subsection \<open>Markers of tool calls\<close>

definition SF37_DSML :: bytes where
  "SF37_DSML = [0xef, 0xbd, 0x9c] @ cstr ''DSML'' @ [0xef, 0xbd, 0x9c]"

definition SF37_DSML_SHORT :: bytes where
  "SF37_DSML_SHORT = cstr ''DSML'' @ [0xef, 0xbd, 0x9c]"

definition SF37_TOOL_CALL_START :: bytes where "SF37_TOOL_CALL_START = cstr ''<tool_call>''"
definition SF37_TOOL_CALL_END :: bytes where "SF37_TOOL_CALL_END = cstr ''</tool_call>''"
definition SF37_TOOL_CALLS_START :: bytes where "SF37_TOOL_CALLS_START = cstr ''<'' @ SF37_DSML @ cstr ''tool_calls>''"
definition SF37_TOOL_CALLS_END :: bytes where "SF37_TOOL_CALLS_END = cstr ''</'' @ SF37_DSML @ cstr ''tool_calls>''"
definition SF37_TOOL_CALLS_START_SHORT :: bytes where
  "SF37_TOOL_CALLS_START_SHORT = cstr ''<'' @ SF37_DSML_SHORT @ cstr ''tool_calls>''"
definition SF37_TOOL_CALLS_END_SHORT :: bytes where
  "SF37_TOOL_CALLS_END_SHORT = cstr ''</'' @ SF37_DSML_SHORT @ cstr ''tool_calls>''"

definition find_earliest2 :: "nat option \<Rightarrow> nat option \<Rightarrow> nat option" where
  "find_earliest2 a b =
     (case a of None \<Rightarrow> b | Some x \<Rightarrow> (case b of None \<Rightarrow> a | Some y \<Rightarrow> if x < y then a else b))"

definition tool_starts :: "bytes list" where
  "tool_starts = [SF37_TOOL_CALL_START, SF37_TOOL_CALLS_START, SF37_TOOL_CALLS_START_SHORT, cstr ''<tool_calls>'']"

definition tool_ends :: "bytes list" where
  "tool_ends = [SF37_TOOL_CALL_END, SF37_TOOL_CALLS_END, SF37_TOOL_CALLS_END_SHORT, cstr ''</tool_calls>'']"

definition find_any_tool_start :: "bytes \<Rightarrow> nat option" where
  "find_any_tool_start s = foldl (\<lambda>best m. find_earliest2 best (strstr s m)) None tool_starts"

definition find_any_tool_end :: "bytes \<Rightarrow> nat option" where
  "find_any_tool_end s = foldl (\<lambda>best m. find_earliest2 best (strstr s m)) None tool_ends"

definition observe_tool_markers :: "bytes \<Rightarrow> bool \<times> bool \<Rightarrow> bool \<times> bool" where
  "observe_tool_markers scan saw =
     (case saw of (saw_start, saw_end) \<Rightarrow>
      let start = find_any_tool_start scan;
          end_scan = (if saw_start then Some scan else map_option (\<lambda>i. drop i scan) start)
      in (saw_start \<or> start \<noteq> None,
          saw_end \<or> (case end_scan of None \<Rightarrow> False | Some t \<Rightarrow> find_any_tool_end t \<noteq> None)))"

text \<open>Bytes that satisfy \<open>P\<close> are taken off the end.\<close>

fun trim_while :: "(byte \<Rightarrow> bool) \<Rightarrow> bytes \<Rightarrow> nat \<Rightarrow> nat \<Rightarrow> nat" where
  "trim_while P txt start 0 = 0"
| "trim_while P txt start (Suc e) = (if Suc e > start \<and> P (txt ! e) then trim_while P txt start e else Suc e)"

definition tool_separator :: "byte \<Rightarrow> bool" where
  "tool_separator c \<longleftrightarrow> c = 0x0a \<or> c = 0x0d \<or> c = 0x20 \<or> c = 0x09"

definition trim_tool_separator_ws :: "bytes \<Rightarrow> nat \<Rightarrow> nat \<Rightarrow> nat" where
  "trim_tool_separator_ws txt start e = trim_while tool_separator txt start e"

definition text_stream_safe_limit :: "bytes \<Rightarrow> nat \<Rightarrow> nat \<Rightarrow> bool \<Rightarrow> bool \<Rightarrow> nat" where
  "text_stream_safe_limit raw start raw_len has_tools final =
     (if raw_len \<le> start then raw_len
      else if has_tools then
        (case find_any_tool_start (drop start raw) of
           Some tool \<Rightarrow> utf8_stream_safe_len raw start (trim_tool_separator_ws raw start (start + tool))
         | None \<Rightarrow>
             let limit =
               (if final then raw_len
                else
                  let limit = trim_while isspace raw start raw_len;
                      scan = (if raw_len - start > 80 then raw_len - 80 else start);
                      limit = (case find (\<lambda>i. raw ! i = ch CHR ''<'') (rev [scan..<raw_len]) of
                                 None \<Rightarrow> limit | Some marker \<Rightarrow> if marker < limit then marker else limit)
                  in trim_tool_separator_ws raw start limit)
             in utf8_stream_safe_len raw start limit)
      else utf8_stream_safe_len raw start raw_len)"

subsection \<open>Reasoning and content, piece by piece\<close>

definition THINK_OPEN :: bytes where "THINK_OPEN = cstr ''<think>''"
definition THINK_CLOSE :: bytes where "THINK_CLOSE = cstr ''</think>''"

datatype stream_mode = STREAM_THINKING | STREAM_TEXT | STREAM_SUPPRESS

record reasoning_stream =
  rs_mode :: stream_mode
  rs_checked :: bool
  rs_emit_pos :: nat

datatype delta = ReasoningDelta bytes | ContentDelta bytes

definition reasoning_stream_init :: "bool \<Rightarrow> reasoning_stream" where
  "reasoning_stream_init think =
     \<lparr>rs_mode = (if think then STREAM_THINKING else STREAM_TEXT), rs_checked = False, rs_emit_pos = 0\<rparr>"

text \<open>Sending the text from \<open>emit_pos\<close> up to \<open>limit\<close>, when there is any.\<close>

definition emit_upto ::
  "(delta \<Rightarrow> bool) \<Rightarrow> (bytes \<Rightarrow> delta) \<Rightarrow> bytes \<Rightarrow> nat \<Rightarrow> delta list \<times> reasoning_stream \<Rightarrow>
   (delta list \<times> reasoning_stream) option" where
  "emit_upto send mk raw limit os =
     (case os of (out, st) \<Rightarrow>
      if limit > rs_emit_pos st
      then let d = mk (drop (rs_emit_pos st) (take limit raw))
           in if send d then Some (out @ [d], st\<lparr>rs_emit_pos := limit\<rparr>) else None
      else Some (out, st))"

definition stream_text_part ::
  "(delta \<Rightarrow> bool) \<Rightarrow> bool \<Rightarrow> bytes \<Rightarrow> nat \<Rightarrow> bool \<Rightarrow> delta list \<times> reasoning_stream \<Rightarrow>
   (delta list \<times> reasoning_stream) option" where
  "stream_text_part send has_tools raw raw_len final os =
     (case os of (out, st) \<Rightarrow>
      let tool = (if has_tools then map_option ((+) (rs_emit_pos st)) (find_any_tool_start (drop (rs_emit_pos st) raw)) else None);
          limit = text_stream_safe_limit raw (rs_emit_pos st) raw_len has_tools final
      in case emit_upto send ContentDelta raw limit (out, st) of
           None \<Rightarrow> None
         | Some (out, st) \<Rightarrow>
             (case tool of
                Some t \<Rightarrow> Some (out, st\<lparr>rs_emit_pos := t, rs_mode := STREAM_SUPPRESS\<rparr>)
              | None \<Rightarrow> Some (out, if final then st\<lparr>rs_mode := STREAM_SUPPRESS\<rparr> else st)))"

definition reasoning_stream_update ::
  "(delta \<Rightarrow> bool) \<Rightarrow> bool \<Rightarrow> bytes \<Rightarrow> nat \<Rightarrow> bool \<Rightarrow> reasoning_stream \<Rightarrow> (delta list \<times> reasoning_stream) option" where
  "reasoning_stream_update send has_tools raw raw_len final st =
     (if rs_mode st = STREAM_THINKING then
        if \<not> rs_checked st \<and> raw_len < length THINK_OPEN \<and> take raw_len raw = take raw_len THINK_OPEN \<and> \<not> final
        then Some ([], st)
        else
        let st = (if rs_checked st then st
                  else (if raw_len \<ge> length THINK_OPEN \<and> at_lit raw THINK_OPEN
                        then st\<lparr>rs_emit_pos := length THINK_OPEN\<rparr> else st)\<lparr>rs_checked := True\<rparr>);
            close = find_substr_from raw raw_len (rs_emit_pos st) THINK_CLOSE;
            limit = (case close of
                       Some c \<Rightarrow> c
                     | None \<Rightarrow>
                         if final then raw_len
                         else let hold = length THINK_CLOSE - 1;
                                  limit = (if raw_len > hold then raw_len - hold else rs_emit_pos st)
                              in utf8_stream_safe_len raw (rs_emit_pos st) limit)
        in case emit_upto send ReasoningDelta raw limit ([], st) of
             None \<Rightarrow> None
           | Some (out, st) \<Rightarrow>
               (case close of
                  Some c \<Rightarrow>
                    stream_text_part send has_tools raw raw_len final
                      (out, st\<lparr>rs_emit_pos := c + length THINK_CLOSE, rs_mode := STREAM_TEXT\<rparr>)
                | None \<Rightarrow> Some (out, if final then st\<lparr>rs_mode := STREAM_SUPPRESS\<rparr> else st))
      else if rs_mode st = STREAM_TEXT then stream_text_part send has_tools raw raw_len final ([], st)
      else Some ([], st))"

subsection \<open>Reasoning and content at once\<close>

definition split_reasoning_content :: "bytes \<Rightarrow> nat \<Rightarrow> bool \<Rightarrow> bytes \<times> bytes" where
  "split_reasoning_content raw raw_len think =
     (let body = take raw_len raw;
          body = (if raw_len \<ge> length THINK_OPEN \<and> at_lit body THINK_OPEN then drop (length THINK_OPEN) body else body)
      in case find_substr_from body (length body) 0 THINK_CLOSE of
           Some rn \<Rightarrow> (take rn body, drop (rn + length THINK_CLOSE) body)
         | None \<Rightarrow> if think then (body, []) else ([], body))"


subsection \<open>The text of the generation loop\<close>

text \<open>A finished tool call, by the marker it starts with: its position and the position behind it.\<close>

definition block_forms :: "(bytes \<times> bytes) list" where
  "block_forms =
     [(cstr [CHR 0x0a, CHR 0x0a] @ SF37_TOOL_CALLS_START, SF37_TOOL_CALLS_END),
      (SF37_TOOL_CALLS_START, SF37_TOOL_CALLS_END),
      (cstr [CHR 0x0a, CHR 0x0a] @ SF37_TOOL_CALLS_START_SHORT, SF37_TOOL_CALLS_END_SHORT),
      (SF37_TOOL_CALLS_START_SHORT, SF37_TOOL_CALLS_END_SHORT),
      (cstr [CHR 0x0a, CHR 0x0a] @ cstr ''<tool_calls>'', cstr ''</tool_calls>''),
      (cstr ''<tool_calls>'', cstr ''</tool_calls>''),
      (cstr [CHR 0x0a, CHR 0x0a] @ cstr ''<tool_call>'', cstr ''</tool_call>''),
      (cstr ''<tool_call>'', cstr ''</tool_call>'')]"

definition find_next_dsml_tool_block :: "bytes \<Rightarrow> (nat \<times> nat) option" where
  "find_next_dsml_tool_block p =
     foldl (\<lambda>best (start, stop).
        case strstr p start of
          None \<Rightarrow> best
        | Some s \<Rightarrow>
            if best \<noteq> None \<and> s \<ge> fst (the best) then best
            else (case strstr (drop s p) stop of
                    None \<Rightarrow> best
                  | Some e \<Rightarrow> Some (s, s + e + length stop))) None block_forms"

text \<open>One piece of text in the loop of \<open>run_generation\<close>: where the stop search goes on, or the text
  before the stop sequence found; and how much of the text may be streamed.\<close>

definition stop_step :: "stop_list \<Rightarrow> bytes \<times> nat \<Rightarrow> bytes \<Rightarrow> bytes + (bytes \<times> nat)" where
  "stop_step stops st piece =
     (case st of (raw, scan_from) \<Rightarrow>
      let raw = raw @ piece
      in case stop_list_find_from stops raw scan_from of
           Some (pos, len) \<Rightarrow> Inl (take pos raw)
         | None \<Rightarrow>
             Inr (raw, if sl_max_len stops > 1
                       then let hold = sl_max_len stops - 1 in if length raw > hold then length raw - hold else 0
                       else scan_from))"

definition stop_stream_len :: "stop_list \<Rightarrow> bytes \<times> nat \<Rightarrow> bytes \<Rightarrow> nat" where
  "stop_stream_len stops st piece =
     (case st of (raw, scan_from) \<Rightarrow>
      let raw = raw @ piece;
          n = (case stop_list_find_from stops raw scan_from of
                 Some (pos, len) \<Rightarrow> pos | None \<Rightarrow> stop_list_stream_safe_len stops (length raw))
      in if n > length raw then length raw else n)"

subsection \<open>First occurrences\<close>

lemma occurs_at_drop: "occurs_at (drop e s) m i \<longleftrightarrow> occurs_at s m (e + i)"
  by (simp add: occurs_at_def add.commute)

lemma occurs_at_bound: "m \<noteq> [] \<Longrightarrow> occurs_at s m i \<Longrightarrow> i + length m \<le> length s"
  unfolding occurs_at_def
  by (metis add.commute drop_eq_Nil le_diff_conv2 length_drop length_take min.absorb_iff2 nat_le_linear take_eq_Nil)

lemma occurs_at_take:
  assumes "m \<noteq> []"
  shows "occurs_at (take n s) m i \<longleftrightarrow> occurs_at s m i \<and> i + length m \<le> n"
proof
  assume a: "occurs_at (take n s) m i"
  have "i + length m \<le> n"
    using occurs_at_bound [OF assms a] by simp
  moreover have "take (length m) (drop i (take n s)) = take (length m) (drop i s)" if "i + length m \<le> n"
    using that by (simp add: drop_take min_def)
  ultimately show "occurs_at s m i \<and> i + length m \<le> n"
    using a by (simp add: occurs_at_def)
qed (auto simp: occurs_at_def drop_take min_def)

lemma occurs_at_nth:
  assumes "occurs_at s m i" and "k < length m"
  shows "s ! (i + k) = m ! k"
proof -
  have "i + length m \<le> length s"
    using occurs_at_bound [of m s i] assms by fastforce
  then have "s ! (i + k) = take (length m) (drop i s) ! k"
    using assms(2) by simp
  then show ?thesis
    using assms(1) by (simp add: occurs_at_def)
qed

lemma strstr_loop_Some:
  "strstr_loop s m = Some i \<longleftrightarrow> occurs_at s m i \<and> i \<le> length s \<and> (\<forall>j<i. \<not> occurs_at s m j)"
proof (induction s m arbitrary: i rule: strstr_loop.induct)
  case (1 m)
  then show ?case
    by (auto simp: occurs_at_def)
next
  case (2 c s m)
  have at: "at_lit (c # s) m \<longleftrightarrow> occurs_at (c # s) m 0"
    by (simp add: at_lit_def occurs_at_def)
  have suc: "occurs_at (c # s) m (Suc k) \<longleftrightarrow> occurs_at s m k" for k
    by (simp add: occurs_at_def)
  show ?case
  proof (cases "at_lit (c # s) m")
    case True
    then show ?thesis
      using at by (cases i) auto
  next
    case False
    then show ?thesis
      using at 2 by (cases i) (auto simp: suc less_Suc_eq_0_disj)
  qed
qed

lemma strstr_loop_None:
  assumes "m \<noteq> []"
  shows "strstr_loop s m = None \<longleftrightarrow> (\<forall>i. \<not> occurs_at s m i)"
  using assms
proof (induction s m rule: strstr_loop.induct)
  case (1 m)
  then show ?case
    by (simp add: occurs_at_def)
next
  case (2 c s m)
  have at: "at_lit (c # s) m \<longleftrightarrow> occurs_at (c # s) m 0"
    by (simp add: at_lit_def occurs_at_def)
  have suc: "occurs_at (c # s) m (Suc k) \<longleftrightarrow> occurs_at s m k" for k
    by (simp add: occurs_at_def)
  have "(\<forall>i. \<not> occurs_at (c # s) m i) \<longleftrightarrow> \<not> occurs_at (c # s) m 0 \<and> (\<forall>i. \<not> occurs_at s m i)"
    using suc by (metis not0_implies_Suc)
  then show ?case
    using 2 at by simp
qed

lemma strstr_Some:
  assumes "0 \<notin> set s" and "m \<noteq> []"
  shows "strstr s m = Some i \<longleftrightarrow> occurs_at s m i \<and> (\<forall>j<i. \<not> occurs_at s m j)"
  using occurs_at_bound [OF assms(2), of s i] by (auto simp: strstr_def until_nul_id [OF assms(1)] strstr_loop_Some)

lemma strstr_None: "0 \<notin> set s \<Longrightarrow> m \<noteq> [] \<Longrightarrow> strstr s m = None \<longleftrightarrow> (\<forall>i. \<not> occurs_at s m i)"
  by (simp add: strstr_def until_nul_id strstr_loop_None)

text \<open>The first of several needles.\<close>

definition first_at :: "bytes list \<Rightarrow> bytes \<Rightarrow> nat \<Rightarrow> bool" where
  "first_at ms s i \<longleftrightarrow> (\<exists>m \<in> set ms. occurs_at s m i)"

lemma earliest_fold:
  assumes "0 \<notin> set s" and "[] \<notin> set ms"
  shows "(case foldl (\<lambda>best m. find_earliest2 best (strstr s m)) None ms of
      None \<Rightarrow> (\<forall>i. \<not> first_at ms s i) | Some i \<Rightarrow> first_at ms s i \<and> (\<forall>j<i. \<not> first_at ms s j))"
  using assms(2)
proof (induction ms rule: rev_induct)
  case Nil
  then show ?case
    by (simp add: first_at_def)
next
  case (snoc m ms)
  have split: "first_at (ms @ [m]) s i \<longleftrightarrow> first_at ms s i \<or> occurs_at s m i" for i
    by (auto simp: first_at_def)
  have m: "m \<noteq> []"
    using snoc.prems by auto
  define acc where "acc = foldl (\<lambda>best m. find_earliest2 best (strstr s m)) None ms"
  have step: "foldl (\<lambda>best m. find_earliest2 best (strstr s m)) None (ms @ [m]) = find_earliest2 acc (strstr s m)"
    by (simp add: acc_def)
  have IH: "case acc of None \<Rightarrow> (\<forall>i. \<not> first_at ms s i) | Some i \<Rightarrow> first_at ms s i \<and> (\<forall>j<i. \<not> first_at ms s j)"
    using snoc by (simp add: acc_def)
  show ?case
  proof (cases "strstr s m")
    case None
    then show ?thesis
      using IH strstr_None [OF assms(1) m] unfolding step
      by (cases acc) (simp_all add: find_earliest2_def split)
  next
    case (Some i)
    then have i: "occurs_at s m i" "\<forall>j<i. \<not> occurs_at s m j"
      using strstr_Some [OF assms(1) m] by simp_all
    show ?thesis
    proof (cases acc)
      case None
      then show ?thesis
        using IH i unfolding step by (simp add: find_earliest2_def split Some)
    next
      case (Some k)
      then show ?thesis
        using IH i unfolding step
        by (cases "k < i") (simp_all add: find_earliest2_def split \<open>strstr s m = Some i\<close>)
    qed
  qed
qed

subsection \<open>Cutting at complete characters\<close>

lemma utf8_need_pos: "utf8_need c = Some n \<Longrightarrow> 0 < n"
  by (auto simp: utf8_need_def split: if_splits)

lemma utf8_safe_bounds: "i \<le> utf8_safe_loop s limit i \<and> utf8_safe_loop s limit i \<le> max i limit"
proof (induction s limit i rule: utf8_safe_loop.induct)
  case (1 s limit i)
  show ?case
  proof (cases "i < limit")
    case True
    show ?thesis
    proof (cases "utf8_need (s ! i)")
      case None
      then show ?thesis
        using True 1 by (subst (1 2) utf8_safe_loop.simps) auto
    next
      case (Some n)
      then show ?thesis
        using True 1 utf8_need_pos [OF Some] by (subst (1 2) utf8_safe_loop.simps) fastforce
    qed
  qed (simp add: utf8_safe_loop.simps)
qed

lemma utf8_safe_done: "limit \<le> i \<Longrightarrow> utf8_safe_loop s limit i = i"
  by (simp add: utf8_safe_loop.simps)

text \<open>A larger limit goes on where the smaller one stopped.\<close>

lemma utf8_safe_resume:
  "l \<le> limit \<Longrightarrow> utf8_safe_loop s limit (utf8_safe_loop s l i) = utf8_safe_loop s limit i"
proof (induction s l i rule: utf8_safe_loop.induct)
  case (1 s l i)
  show ?case
  proof (cases "i < l")
    case True
    then have lt: "i < limit"
      using "1.prems" by simp
    show ?thesis
    proof (cases "utf8_need (s ! i)")
      case None
      have "utf8_safe_loop s l i = utf8_safe_loop s l (i + 1)" "utf8_safe_loop s limit i = utf8_safe_loop s limit (i + 1)"
        using True lt None by (subst utf8_safe_loop.simps; simp)+
      then show ?thesis
        using "1.IH"(1) True None "1.prems" by simp
    next
      case (Some n)
      show ?thesis
      proof (cases "i + n > l")
        case True
        then have "utf8_safe_loop s l i = i"
          using \<open>i < l\<close> Some by (subst utf8_safe_loop.simps) simp
        then show ?thesis
          by simp
      next
        case False
        define k where "k = (if list_all (\<lambda>j. s ! (i + j) AND 0xc0 = 0x80) [1..<n] then i + n else i + 1)"
        have "utf8_safe_loop s l i = utf8_safe_loop s l k" "utf8_safe_loop s limit i = utf8_safe_loop s limit k"
          using \<open>i < l\<close> lt Some False "1.prems" unfolding k_def by (subst utf8_safe_loop.simps; simp)+
        moreover have "utf8_safe_loop s limit (utf8_safe_loop s l k) = utf8_safe_loop s limit k"
          using "1.IH"(2,3) \<open>i < l\<close> Some False "1.prems" unfolding k_def by auto
        ultimately show ?thesis
          by simp
      qed
    qed
  qed (simp add: utf8_safe_done)
qed

lemma utf8_safe_take:
  "limit \<le> m \<Longrightarrow> utf8_safe_loop (take m s) limit i = utf8_safe_loop s limit i"
proof (induction s limit i rule: utf8_safe_loop.induct)
  case (1 s limit i)
  show ?case
  proof (cases "i < limit")
    case True
    then have n: "take m s ! i = s ! i"
      using "1.prems" by simp
    show ?thesis
    proof (cases "utf8_need (s ! i)")
      case None
      then show ?thesis
        using "1.IH"(1) True "1.prems" n by (subst (1 2) utf8_safe_loop.simps) simp
    next
      case (Some k)
      show ?thesis
      proof (cases "i + k > limit")
        case True
        then show ?thesis
          using \<open>i < limit\<close> Some n by (subst (1 2) utf8_safe_loop.simps) simp
      next
        case False
        then have "list_all (\<lambda>j. take m s ! (i + j) AND 0xc0 = 0x80) [1..<k] \<longleftrightarrow> list_all (\<lambda>j. s ! (i + j) AND 0xc0 = 0x80) [1..<k]"
          using "1.prems" by (auto simp: list_all_iff)
        then show ?thesis
          using "1.IH"(2,3) \<open>i < limit\<close> Some False "1.prems" n by (subst (1 2) utf8_safe_loop.simps) auto
      qed
    qed
  qed (simp add: utf8_safe_done)
qed

lemma utf8_safe_drop:
  "e \<le> length s \<Longrightarrow> utf8_safe_loop (drop e s) l i + e = utf8_safe_loop s (l + e) (i + e)"
proof (induction "drop e s" l i rule: utf8_safe_loop.induct)
  case (1 l i)
  have n: "drop e s ! j = s ! (j + e)" for j
    using 1(4) by (simp add: add.commute)
  show ?case
  proof (cases "i < l")
    case True
    show ?thesis
    proof (cases "utf8_need (s ! (i + e))")
      case None
      then show ?thesis
        using 1(1,4) True by (subst (1 2) utf8_safe_loop.simps) (simp add: n)
    next
      case (Some k)
      have "list_all (\<lambda>j. drop e s ! (i + j) AND 0xc0 = 0x80) [1..<k] \<longleftrightarrow> list_all (\<lambda>j. s ! (i + e + j) AND 0xc0 = 0x80) [1..<k]"
        by (simp add: n add_ac)
      then show ?thesis
        using 1 True Some by (subst (1 2) utf8_safe_loop.simps) (auto simp: n add_ac)
    qed
  qed (simp add: utf8_safe_done)
qed

subsection \<open>Trimming\<close>

lemma trim_le: "trim_while P s st e \<le> e"
  by (induction e) (simp_all add: le_SucI)

lemma trim_ge: "st \<le> e \<Longrightarrow> st \<le> trim_while P s st e"
  by (induction e) (auto simp: le_Suc_eq)

lemma trim_last: "trim_while P s st e > st \<Longrightarrow> \<not> P (s ! (trim_while P s st e - 1))"
  by (induction e) (auto split: if_splits)

lemma trim_keep: "k \<le> e \<Longrightarrow> 0 < k \<Longrightarrow> \<not> P (s ! (k - 1)) \<Longrightarrow> k \<le> trim_while P s st e"
  by (induction e) (auto simp: le_Suc_eq)

lemma trim_start: "st \<le> st' \<Longrightarrow> st' \<le> trim_while P s st e \<Longrightarrow> trim_while P s st' e = trim_while P s st e"
proof (induction e)
  case (Suc e)
  then show ?case
    using trim_le [of P s st e] by (auto split: if_splits)
qed simp

lemma trim_take: "e \<le> m \<Longrightarrow> trim_while P (take m s) st e = trim_while P s st e"
  by (induction e) auto

subsection \<open>Tool markers\<close>

definition tool_at :: "bytes \<Rightarrow> nat \<Rightarrow> bool" where
  "tool_at s i \<longleftrightarrow> first_at tool_starts s i"

lemma tool_markers:
  "m \<in> set tool_starts \<Longrightarrow> m \<noteq> [] \<and> m ! 0 = 0x3c \<and> (\<forall>k. 0 < k \<longrightarrow> k < length m \<longrightarrow> m ! k \<noteq> 0x3c) \<and> length m \<le> 80"
proof -
  have "list_all (\<lambda>m. m \<noteq> [] \<and> m ! 0 = 0x3c \<and> 0x3c \<notin> set (tl m) \<and> length m \<le> 80) tool_starts"
    by (simp add: tool_starts_def SF37_TOOL_CALL_START_def SF37_TOOL_CALLS_START_def SF37_TOOL_CALLS_START_SHORT_def
        SF37_DSML_def SF37_DSML_SHORT_def)
  moreover assume "m \<in> set tool_starts"
  ultimately have m: "m \<noteq> []" "m ! 0 = 0x3c" "0x3c \<notin> set (tl m)" "length m \<le> 80"
    by (simp_all add: list_all_iff)
  have "m ! k \<noteq> 0x3c" if "0 < k" "k < length m" for k
  proof -
    have "k - 1 < length (tl m)"
      using that by simp
    then have "tl m ! (k - 1) \<in> set (tl m)"
      by (rule nth_mem)
    then show ?thesis
      using m(3) that by (auto simp: nth_tl)
  qed
  then show ?thesis
    using m by simp
qed

lemma tool_at_lt: "tool_at s i \<Longrightarrow> i < length s \<and> s ! i = 0x3c"
proof -
  assume "tool_at s i"
  then obtain m where m: "m \<in> set tool_starts" "occurs_at s m i"
    by (auto simp: tool_at_def first_at_def)
  note k = tool_markers [OF m(1)]
  show ?thesis
    using occurs_at_bound [OF _ m(2)] occurs_at_nth [OF m(2), of 0] k by (cases m) auto
qed

text \<open>A marker in a prefix is one of the whole text; the other way round it may not be complete yet.\<close>

lemma tool_at_take: "tool_at (take n s) i \<Longrightarrow> tool_at s i"
  unfolding tool_at_def first_at_def using occurs_at_take tool_markers by blast

lemma tool_at_cut:
  assumes "tool_at s i" and "\<not> tool_at (take n s) i" and "i < n"
  shows "n \<le> i + 80" and "\<forall>k. i < k \<longrightarrow> k < n \<longrightarrow> s ! k \<noteq> 0x3c"
proof -
  obtain m where m: "m \<in> set tool_starts" "occurs_at s m i"
    using assms(1) by (auto simp: tool_at_def first_at_def)
  note k = tool_markers [OF m(1)]
  have n: "n < i + length m"
  proof (rule ccontr)
    assume "\<not> n < i + length m"
    then have "occurs_at (take n s) m i"
      using m(2) k by (simp add: occurs_at_take)
    then show False
      using assms(2) m(1) by (auto simp: tool_at_def first_at_def)
  qed
  then show "n \<le> i + 80"
    using k by linarith
  show "\<forall>k. i < k \<longrightarrow> k < n \<longrightarrow> s ! k \<noteq> 0x3c"
  proof (intro allI impI)
    fix j assume "i < j" "j < n"
    then show "s ! j \<noteq> 0x3c"
      using occurs_at_nth [OF m(2), of "j - i"] k n by auto
  qed
qed

lemma find_tool_start:
  assumes "0 \<notin> set s"
  shows "case find_any_tool_start (drop e s) of
      None \<Rightarrow> (\<forall>i\<ge>e. \<not> tool_at s i) | Some i \<Rightarrow> tool_at s (e + i) \<and> (\<forall>j. e \<le> j \<longrightarrow> j < e + i \<longrightarrow> \<not> tool_at s j)"
proof -
  have d: "first_at tool_starts (drop e s) i \<longleftrightarrow> tool_at s (e + i)" for i
    by (simp add: first_at_def tool_at_def occurs_at_drop)
  have "0 \<notin> set (drop e s)" "[] \<notin> set tool_starts"
    using assms tool_markers by (auto dest: in_set_dropD)
  from earliest_fold [OF this] show ?thesis
    unfolding find_any_tool_start_def [symmetric] d
    by (auto split: option.splits) (metis le_iff_add, metis add_less_cancel_left le_iff_add)
qed

subsection \<open>The text part, call by call\<close>

text \<open>The calls pass a buffer and how much of it may be shown. While a stop sequence is being waited
  for, the buffer may hold more than the final text \<open>R\<close>; with tools it must not (the search for tool
  markers does not look at the length).\<close>

definition call_ok :: "bool \<Rightarrow> bytes \<Rightarrow> bytes \<times> nat \<Rightarrow> bool" where
  "call_ok tools R = (\<lambda>(raw, n). n \<le> length R \<and> n \<le> length raw \<and> take n raw = take n R \<and> (tools \<longrightarrow> length raw = n))"

definition text_limit :: "bool \<Rightarrow> bytes \<Rightarrow> nat \<Rightarrow> nat" where
  "text_limit tools R b =
     (case (if tools then find_any_tool_start (drop b R) else None) of
        None \<Rightarrow> length R | Some t \<Rightarrow> trim_tool_separator_ws R b (b + t))"

definition text_inv :: "bool \<Rightarrow> bytes \<Rightarrow> nat \<Rightarrow> nat \<Rightarrow> bool" where
  "text_inv tools R b e \<longleftrightarrow>
     b \<le> e \<and> e \<le> length R \<and> (tools \<longrightarrow> (\<forall>i. b \<le> i \<longrightarrow> i < e \<longrightarrow> \<not> tool_at R i)) \<and>
     utf8_stream_safe_len R e (text_limit tools R b) = utf8_stream_safe_len R b (text_limit tools R b)"

lemma text_inv_start: "b \<le> length R \<Longrightarrow> text_inv tools R b b"
  by (simp add: text_inv_def)

lemma find_tool_same:
  assumes "0 \<notin> set R" and "b \<le> e" and "\<forall>i. b \<le> i \<longrightarrow> i < e \<longrightarrow> \<not> tool_at R i"
  shows "map_option ((+) e) (find_any_tool_start (drop e R)) = map_option ((+) b) (find_any_tool_start (drop b R))"
proof (cases "find_any_tool_start (drop b R)")
  case None
  then have n: "\<forall>i\<ge>b. \<not> tool_at R i"
    using find_tool_start [OF assms(1), of b] by simp
  show ?thesis
  proof (cases "find_any_tool_start (drop e R)")
    case (Some j)
    then have "tool_at R (e + j)"
      using find_tool_start [OF assms(1), of e] by simp
    then show ?thesis
      using n assms(2) by simp
  qed (simp add: None)
next
  case (Some i)
  then have i: "tool_at R (b + i)" "\<forall>j. b \<le> j \<longrightarrow> j < b + i \<longrightarrow> \<not> tool_at R j"
    using find_tool_start [OF assms(1), of b] by simp_all
  have ge: "e \<le> b + i"
    using assms(3) i(1) by (metis le_add1 not_less)
  show ?thesis
  proof (cases "find_any_tool_start (drop e R)")
    case None
    then have "\<forall>j\<ge>e. \<not> tool_at R j"
      using find_tool_start [OF assms(1), of e] by simp
    then show ?thesis
      using i(1) ge by blast
  next
    case (Some j)
    then have j: "tool_at R (e + j)" "\<forall>k. e \<le> k \<longrightarrow> k < e + j \<longrightarrow> \<not> tool_at R k"
      using find_tool_start [OF assms(1), of e] by simp_all
    have "e + j = b + i"
    proof (rule antisym; rule ccontr)
      assume "\<not> e + j \<le> b + i"
      then show False
        using j(2) i(1) ge by simp
    next
      assume "\<not> b + i \<le> e + j"
      then show False
        using i(2) j(1) assms(2) by simp
    qed
    then show ?thesis
      using Some \<open>find_any_tool_start (drop b R) = Some i\<close> by simp
  qed
qed

lemma text_limit_same:
  assumes "0 \<notin> set R" and "text_inv tools R b e"
  shows "text_limit tools R e = text_limit tools R b"
proof (cases "tools \<and> find_any_tool_start (drop b R) \<noteq> None")
  case False
  then show ?thesis
    using find_tool_same [OF assms(1), of b e] assms(2) by (auto simp: text_limit_def text_inv_def)
next
  case True
  then obtain t where t: "find_any_tool_start (drop b R) = Some t"
    by auto
  obtain s where s: "find_any_tool_start (drop e R) = Some s" "e + s = b + t"
    using find_tool_same [OF assms(1), of b e] assms(2) True t by (auto simp: text_inv_def)
  define L where "L = trim_while tool_separator R b (b + t)"
  have lim: "text_limit tools R b = L"
    using True t by (simp add: text_limit_def trim_tool_separator_ws_def L_def)
  have "b \<le> L"
    unfolding L_def by (rule trim_ge) simp
  moreover have "e \<le> L"
  proof (rule ccontr)
    assume "\<not> e \<le> L"
    then have "utf8_stream_safe_len R e L = e"
      by (simp add: utf8_stream_safe_len_def utf8_safe_done)
    then have "utf8_stream_safe_len R b L = e"
      using assms(2) lim by (simp add: text_inv_def)
    then show False
      using utf8_safe_bounds [of b R L] \<open>b \<le> L\<close> \<open>\<not> e \<le> L\<close> by (simp add: utf8_stream_safe_len_def)
  qed
  ultimately show ?thesis
    using True s trim_start [of b e tool_separator R "b + t"] assms(2) lim
    by (simp add: text_limit_def trim_tool_separator_ws_def L_def text_inv_def)
qed

text \<open>With a tool marker in the buffer, the limit is the final one.\<close>

lemma tool_found_in_prefix:
  assumes "0 \<notin> set R" and "find_any_tool_start (drop e (take n R)) = Some t"
  shows "find_any_tool_start (drop e R) = Some t" and "e + t < n"
proof -
  have z: "0 \<notin> set (take n R)"
    using assms(1) by (meson in_set_takeD)
  have t: "tool_at (take n R) (e + t)" "\<forall>j. e \<le> j \<longrightarrow> j < e + t \<longrightarrow> \<not> tool_at (take n R) j"
    using find_tool_start [OF z, of e] assms(2) by simp_all
  then have tR: "tool_at R (e + t)"
    using tool_at_take by blast
  show lt: "e + t < n"
    using tool_at_lt [OF t(1)] by simp
  have no: "\<not> tool_at R j" if "e \<le> j" "j < e + t" for j
  proof
    assume a: "tool_at R j"
    have "R ! (e + t) \<noteq> 0x3c"
      using tool_at_cut(2) [OF a _ _, of n] t(2) that lt by simp
    then show False
      using tool_at_lt [OF tR] by simp
  qed
  show "find_any_tool_start (drop e R) = Some t"
  proof (cases "find_any_tool_start (drop e R)")
    case None
    then show ?thesis
      using find_tool_start [OF assms(1), of e] tR by simp
  next
    case (Some s)
    then have s: "tool_at R (e + s)" "\<forall>j. e \<le> j \<longrightarrow> j < e + s \<longrightarrow> \<not> tool_at R j"
      using find_tool_start [OF assms(1), of e] by simp_all
    have "s = t"
      using s tR no by (metis add_le_cancel_left le_add1 linorder_not_le nat_less_le)
    then show ?thesis
      using Some by simp
  qed
qed

text \<open>Without one, the held back part covers every marker that may still be completed.\<close>

lemma find_append: "find P (xs @ ys) = (case find P xs of None \<Rightarrow> find P ys | Some x \<Rightarrow> Some x)"
  by (induction xs) simp_all

lemma find_member: "find P xs = Some x \<Longrightarrow> x \<in> set xs \<and> P x"
  by (induction xs) (auto split: if_splits)

lemma hold_before_tool:
  assumes "0 \<notin> set R" and "n \<le> length R" and "find_any_tool_start (drop e (take n R)) = None"
    and "tool_at R t" and "e \<le> t" and "e < n"
  shows "(case find (\<lambda>i. take n R ! i = ch CHR ''<'') (rev [(if n - e > 80 then n - 80 else e)..<n]) of
            None \<Rightarrow> n \<le> t | Some marker \<Rightarrow> marker \<le> t \<or> n \<le> t)"
proof (cases "n \<le> t")
  case False
  have z: "0 \<notin> set (take n R)"
    using assms(1) by (meson in_set_takeD)
  have nt: "\<not> tool_at (take n R) t"
    using find_tool_start [OF z, of e] assms(3,5) by simp
  note cut = tool_at_cut [OF assms(4) nt]
  define scan where "scan = (if n - e > 80 then n - 80 else e)"
  have scan: "scan \<le> t" "scan < n"
    using cut(1) False assms(5,6) by (auto simp: scan_def)
  have lt: "R ! t = 0x3c"
    using tool_at_lt [OF assms(4)] by simp
  have split: "rev [scan..<n] = rev [Suc t..<n] @ t # rev [scan..<t]"
    using scan False upt_add_eq_append [of scan t "n - t"] upt_conv_Cons [of t n] by simp
  have "find (\<lambda>i. take n R ! i = ch CHR ''<'') (rev [Suc t..<n]) = None"
    using cut(2) False by (auto simp: find_None_iff)
  then have "find (\<lambda>i. take n R ! i = ch CHR ''<'') (rev [scan..<n]) = Some t"
    unfolding split using lt False by (simp add: find_append)
  then show ?thesis
    by (simp add: scan_def)
qed (simp split: option.splits)

text \<open>What one call shows: up to a limit that is no later than the final one.\<close>

lemma partial_limit:
  assumes "0 \<notin> set R" and "call_ok tools R (raw, n)" and "text_inv tools R b e" and "e < n"
    and "tools \<Longrightarrow> find_any_tool_start (drop e raw) = None"
  obtains l where "l \<le> n" and "l \<le> text_limit tools R b" and "e \<le> l"
    and "text_stream_safe_limit raw e n tools False = utf8_stream_safe_len R e l"
proof (cases tools)
  case False
  have "utf8_safe_loop raw n e = utf8_safe_loop R n e"
    using utf8_safe_take [of n n raw e] utf8_safe_take [of n n R e] assms(2) by (simp add: call_ok_def)
  then show ?thesis
    using that [of n] False assms by (simp add: text_stream_safe_limit_def utf8_stream_safe_len_def call_ok_def text_limit_def)
next
  case True
  have raw: "raw = take n R" and n: "n \<le> length R"
    using assms(2) True by (auto simp: call_ok_def)
  define l1 where "l1 = trim_while isspace R e n"
  define f where "f = find (\<lambda>i. raw ! i = ch CHR ''<'') (rev [(if n - e > 80 then n - 80 else e)..<n])"
  define l2 where "l2 = (case f of None \<Rightarrow> l1 | Some marker \<Rightarrow> if marker < l1 then marker else l1)"
  define l where "l = trim_while tool_separator R e l2"
  have f_range: "e \<le> m \<and> m < n" if "f = Some m" for m
    using find_member [OF that [unfolded f_def]] assms(4) by (auto split: if_splits)
  have l1: "e \<le> l1" "l1 \<le> n"
    unfolding l1_def using assms(4) by (auto intro!: trim_ge trim_le)
  then have l2: "e \<le> l2" "l2 \<le> n"
    using f_range by (auto simp: l2_def split: option.splits)
  then have l: "e \<le> l" "l \<le> l2" "l \<le> n"
    unfolding l_def using trim_le [of tool_separator R e l2] by (auto intro!: trim_ge)
  have lim: "text_stream_safe_limit raw e n tools False = utf8_stream_safe_len R e l"
  proof -
    have ws: "trim_while isspace raw e n = l1"
      by (simp add: raw l1_def trim_take)
    have "text_stream_safe_limit raw e n tools False = utf8_stream_safe_len raw e (trim_tool_separator_ws raw e l2)"
      using True assms(4,5) by (simp add: text_stream_safe_limit_def Let_def f_def l2_def ws)
    then show ?thesis
      using l2 l by (simp add: raw trim_take trim_tool_separator_ws_def utf8_stream_safe_len_def utf8_safe_take l_def [symmetric])
  qed
  have "l \<le> text_limit tools R b"
  proof (cases "find_any_tool_start (drop e R)")
    case None
    then have "text_limit tools R e = length R"
      by (simp add: text_limit_def)
    then show ?thesis
      using text_limit_same [OF assms(1,3)] l n by simp
  next
    case (Some t)
    then have t: "tool_at R (e + t)"
      using find_tool_start [OF assms(1), of e] by simp
    have "case f of None \<Rightarrow> n \<le> e + t | Some marker \<Rightarrow> marker \<le> e + t \<or> n \<le> e + t"
      unfolding f_def raw using hold_before_tool [OF assms(1) n _ t _ assms(4)] assms(5) True raw by simp
    then have "l \<le> e + t"
      using l l2 l1 by (auto simp: l2_def split: option.splits if_splits)
    moreover have "l \<le> trim_while tool_separator R e (e + t)"
    proof (cases "e < l")
      case True
      then have "\<not> tool_separator (R ! (l - 1))"
        unfolding l_def by (rule trim_last)
      then show ?thesis
        using trim_keep True \<open>l \<le> e + t\<close> by simp
    next
      case False
      then show ?thesis
        using l(1) trim_ge [of e "e + t"] by simp
    qed
    ultimately show ?thesis
      using text_limit_same [OF assms(1,3)] True Some by (simp add: text_limit_def trim_tool_separator_ws_def)
  qed
  then show ?thesis
    using that l lim by blast
qed

lemma no_tool_before:
  assumes "0 \<notin> set R" and "text_inv True R b e" and "i < text_limit True R b" and "b \<le> i"
  shows "\<not> tool_at R i"
proof (cases "find_any_tool_start (drop b R)")
  case None
  then show ?thesis
    using find_tool_start [OF assms(1), of b] assms(4) by simp
next
  case (Some t)
  then have "i < b + t"
    using assms(3) trim_le [of tool_separator R b "b + t"] by (simp add: text_limit_def trim_tool_separator_ws_def)
  then show ?thesis
    using find_tool_start [OF assms(1), of b] Some assms(4) by simp
qed

lemma text_limit_le: "b \<le> length R \<Longrightarrow> 0 \<notin> set R \<Longrightarrow> text_limit tools R b \<le> length R"
proof -
  assume a: "b \<le> length R" "0 \<notin> set R"
  show ?thesis
  proof (cases "find_any_tool_start (drop b R)")
    case (Some t)
    then have "b + t < length R"
      using find_tool_start [OF a(2), of b] tool_at_lt [of R "b + t"] by simp
    then show ?thesis
      using trim_le [of tool_separator R b "b + t"] Some by (simp add: text_limit_def trim_tool_separator_ws_def)
  qed (simp add: text_limit_def)
qed

lemma text_inv_step:
  assumes "0 \<notin> set R" and "text_inv tools R b e" and "l \<le> text_limit tools R b" and "e \<le> l"
  shows "text_inv tools R b (utf8_stream_safe_len R e l)" and "e \<le> utf8_stream_safe_len R e l" and "utf8_stream_safe_len R e l \<le> l"
proof -
  define u where "u = utf8_safe_loop R l e"
  have u: "e \<le> u" "u \<le> l"
    using utf8_safe_bounds [of e R l] assms(4) by (simp_all add: u_def)
  have "b \<le> e" "e \<le> length R"
    using assms(2) by (simp_all add: text_inv_def)
  moreover have "text_limit tools R b \<le> length R"
    using calculation text_limit_le [OF _ assms(1)] by simp
  moreover have "\<not> tool_at R i" if tools "b \<le> i" "i < u" for i
    using no_tool_before [OF assms(1), of b e i] that assms(2,3) u by simp
  moreover have "utf8_safe_loop R (text_limit tools R b) u = utf8_safe_loop R (text_limit tools R b) e"
    unfolding u_def using utf8_safe_resume [OF assms(3)] .
  ultimately show "text_inv tools R b (utf8_stream_safe_len R e l)"
    using assms(2,3) u by (simp add: text_inv_def utf8_stream_safe_len_def u_def [symmetric])
qed (use utf8_safe_bounds [of e R l] assms(4) in \<open>simp_all add: utf8_stream_safe_len_def\<close>)

subsection \<open>Whole runs of the stream\<close>

definition reasoning_text :: "delta list \<Rightarrow> bytes" where
  "reasoning_text ds = concat (map (\<lambda>d. case d of ReasoningDelta b \<Rightarrow> b | ContentDelta b \<Rightarrow> []) ds)"

definition content_text :: "delta list \<Rightarrow> bytes" where
  "content_text ds = concat (map (\<lambda>d. case d of ReasoningDelta b \<Rightarrow> [] | ContentDelta b \<Rightarrow> b) ds)"

lemma delta_texts [simp]:
  "reasoning_text [] = []" "content_text [] = []"
  "reasoning_text (ds @ es) = reasoning_text ds @ reasoning_text es"
  "content_text (ds @ es) = content_text ds @ content_text es"
  "reasoning_text [ReasoningDelta b] = b" "reasoning_text [ContentDelta b] = []"
  "content_text [ReasoningDelta b] = []" "content_text [ContentDelta b] = b"
  by (simp_all add: reasoning_text_def content_text_def)

text \<open>The part of a whole content that a stream shows: up to the first tool marker and the separators
  before it, and up to an incomplete character at the end.\<close>

definition visible :: "bool \<Rightarrow> bytes \<Rightarrow> bytes" where
  "visible tools c =
     (let limit = (case (if tools then find_any_tool_start c else None) of
                     None \<Rightarrow> length c | Some t \<Rightarrow> trim_tool_separator_ws c 0 t)
      in take (utf8_stream_safe_len c 0 limit) c)"

lemma trim_shift: "b + e \<le> length s \<Longrightarrow> b + trim_while P (drop b s) 0 e = trim_while P s b (b + e)"
proof (induction e)
  case 0
  then show ?case
    using trim_le [of P s b b] trim_ge [of b b P s] by simp
next
  case (Suc e)
  then show ?case
    by (auto simp: add.commute [of b])
qed

lemma text_limit_visible:
  assumes "b \<le> length R" and "0 \<notin> set R"
  shows "drop b (take (utf8_stream_safe_len R b (text_limit tools R b)) R) = visible tools (drop b R)"
proof -
  define lim where "lim = (case (if tools then find_any_tool_start (drop b R) else None) of
      None \<Rightarrow> length (drop b R) | Some t \<Rightarrow> trim_tool_separator_ws (drop b R) 0 t)"
  have "b + lim = text_limit tools R b"
  proof (cases "if tools then find_any_tool_start (drop b R) else None")
    case None
    then show ?thesis
      using assms(1) by (simp add: lim_def text_limit_def)
  next
    case (Some t)
    then have "find_any_tool_start (drop b R) = Some t"
      by (simp split: if_splits)
    then have "tool_at R (b + t)"
      using find_tool_start [OF assms(2), of b] by simp
    then have "b + t \<le> length R"
      using tool_at_lt by fastforce
    then show ?thesis
      using Some trim_shift by (simp add: lim_def text_limit_def trim_tool_separator_ws_def)
  qed
  then have "utf8_stream_safe_len R b (text_limit tools R b) = utf8_stream_safe_len (drop b R) 0 lim + b"
    using utf8_safe_drop [OF assms(1), of lim 0] by (simp add: utf8_stream_safe_len_def add.commute)
  then show ?thesis
    by (simp add: visible_def lim_def drop_take)
qed

lemma emit_always:
  "emit_upto (\<lambda>_. True) mk raw l (out, st) =
     Some (if l > rs_emit_pos st then (out @ [mk (drop (rs_emit_pos st) (take l raw))], st\<lparr>rs_emit_pos := l\<rparr>) else (out, st))"
  by (simp add: emit_upto_def Let_def)

text \<open>The outcome of one call in text mode that started at \<open>b\<close>: either it goes on, or all is shown.\<close>

definition text_outcome :: "bool \<Rightarrow> bytes \<Rightarrow> nat \<Rightarrow> nat \<Rightarrow> delta list \<Rightarrow> reasoning_stream \<Rightarrow> bool" where
  "text_outcome tools R b e ds st \<longleftrightarrow> reasoning_text ds = [] \<and>
     (rs_mode st = STREAM_TEXT \<and> text_inv tools R b (rs_emit_pos st) \<and> e \<le> rs_emit_pos st \<and>
        content_text ds = drop e (take (rs_emit_pos st) R) \<or>
      rs_mode st = STREAM_SUPPRESS \<and>
        content_text ds = drop e (take (utf8_stream_safe_len R b (text_limit tools R b)) R))"

text \<open>One call as a function of its limit.\<close>

lemma stream_text_eval:
  fixes tools raw n final st
  defines "e \<equiv> rs_emit_pos st"
  defines "l \<equiv> text_stream_safe_limit raw e n tools final"
  defines "ds \<equiv> (if l > e then [ContentDelta (drop e (take l raw))] else [])"
  shows "tools \<Longrightarrow> find_any_tool_start (drop e raw) = Some t \<Longrightarrow>
      stream_text_part (\<lambda>_. True) tools raw n final (out, st) = Some (out @ ds, st\<lparr>rs_emit_pos := e + t, rs_mode := STREAM_SUPPRESS\<rparr>)"
    and "\<not> (tools \<and> find_any_tool_start (drop e raw) \<noteq> None) \<Longrightarrow>
      stream_text_part (\<lambda>_. True) tools raw n final (out, st) =
        Some (out @ ds, st\<lparr>rs_emit_pos := max e l, rs_mode := (if final then STREAM_SUPPRESS else rs_mode st)\<rparr>)"
proof -
  show "tools \<Longrightarrow> find_any_tool_start (drop e raw) = Some t \<Longrightarrow>
      stream_text_part (\<lambda>_. True) tools raw n final (out, st) = Some (out @ ds, st\<lparr>rs_emit_pos := e + t, rs_mode := STREAM_SUPPRESS\<rparr>)"
    unfolding stream_text_part_def emit_always ds_def l_def e_def Let_def by simp
  show "\<not> (tools \<and> find_any_tool_start (drop e raw) \<noteq> None) \<Longrightarrow>
      stream_text_part (\<lambda>_. True) tools raw n final (out, st) =
        Some (out @ ds, st\<lparr>rs_emit_pos := max e l, rs_mode := (if final then STREAM_SUPPRESS else rs_mode st)\<rparr>)"
    unfolding stream_text_part_def emit_always ds_def l_def e_def Let_def by (cases tools) simp_all
qed

lemma content_text_if: "content_text (if l > e then [ContentDelta (drop e (take l raw))] else []) = drop e (take l raw)"
  "reasoning_text (if c then [ContentDelta x] else []) = []"
  by simp_all

lemma stream_text_tool:
  assumes "0 \<notin> set R" and "call_ok tools R (raw, n)" and "text_inv tools R b (rs_emit_pos st)"
    and "tools" and "find_any_tool_start (drop (rs_emit_pos st) raw) = Some t"
  shows "\<exists>ds st'. stream_text_part (\<lambda>_. True) tools raw n final (out, st) = Some (out @ ds, st') \<and>
    text_outcome tools R b (rs_emit_pos st) ds st' \<and> rs_mode st' = STREAM_SUPPRESS"
proof -
  define e where "e = rs_emit_pos st"
  have raw: "raw = take n R" and n: "n \<le> length R"
    using assms(2,4) by (auto simp: call_ok_def)
  have t: "find_any_tool_start (drop e R) = Some t" "e + t < n"
    using tool_found_in_prefix [OF assms(1), of e n t] assms(5) raw by (simp_all add: e_def)
  define L where "L = trim_while tool_separator R e (e + t)"
  have L: "e \<le> L" "L \<le> e + t"
    unfolding L_def by (auto intro: trim_ge trim_le)
  have lim: "text_limit tools R b = L"
    using text_limit_same [OF assms(1,3)] t assms(4) by (simp add: text_limit_def e_def L_def trim_tool_separator_ws_def)
  define u where "u = utf8_stream_safe_len R e L"
  have u: "u \<le> L" "e \<le> u"
    using utf8_safe_bounds [of e R L] L by (simp_all add: u_def utf8_stream_safe_len_def)
  have ub: "utf8_stream_safe_len R b (text_limit tools R b) = u"
    using assms(3) lim by (simp add: text_inv_def u_def e_def)
  have "text_stream_safe_limit raw e n tools final = u"
    using assms(4,5) t L by (simp add: text_stream_safe_limit_def e_def [symmetric] raw trim_tool_separator_ws_def trim_take
        utf8_stream_safe_len_def utf8_safe_take L_def [symmetric] u_def)
  moreover have "drop e (take u raw) = drop e (take u R)"
    using u L t by (simp add: raw min_def)
  ultimately have c: "content_text (if text_stream_safe_limit raw e n tools final > e
      then [ContentDelta (drop e (take (text_stream_safe_limit raw e n tools final) raw))] else []) =
      drop e (take (utf8_stream_safe_len R b (text_limit tools R b)) R)"
    unfolding content_text_if ub by simp
  have f: "find_any_tool_start (drop e raw) = Some t"
    using assms(5) by (simp add: e_def)
  show ?thesis
    using stream_text_eval(1) [of tools st raw t n final out, folded e_def, OF assms(4) f] c
    unfolding text_outcome_def content_text_if(2) e_def [symmetric] by (intro exI conjI) (assumption | simp add: content_text_if(2) del: if_split)+
qed

lemma stream_text_step:
  assumes "0 \<notin> set R" and "call_ok tools R (raw, n)" and "text_inv tools R b (rs_emit_pos st)" and "rs_mode st = STREAM_TEXT"
  shows "\<exists>ds st'. stream_text_part (\<lambda>_. True) tools raw n False (out, st) = Some (out @ ds, st') \<and>
    text_outcome tools R b (rs_emit_pos st) ds st'"
proof (cases "tools \<and> find_any_tool_start (drop (rs_emit_pos st) raw) \<noteq> None")
  case True
  then show ?thesis
    using stream_text_tool [OF assms(1,2,3)] by blast
next
  case False
  define e where "e = rs_emit_pos st"
  have inv: "text_inv tools R b e"
    using assms(3) by (simp add: e_def)
  show ?thesis
  proof (cases "e < n")
    case True
    obtain l where l: "l \<le> n" "l \<le> text_limit tools R b" "e \<le> l"
        "text_stream_safe_limit raw e n tools False = utf8_stream_safe_len R e l"
      using partial_limit [OF assms(1,2) inv True] False by (auto simp: e_def)
    define u where "u = utf8_stream_safe_len R e l"
    have u: "text_inv tools R b u" "e \<le> u" "u \<le> l"
      using text_inv_step [OF assms(1) inv l(2,3)] by (simp_all add: u_def)
    have "take n raw = take n R" "u \<le> n"
      using assms(2) u l(1) by (simp_all add: call_ok_def)
    then have "take u raw = take u R"
      by (metis min.absorb1 take_take)
    then show ?thesis
      using stream_text_eval(2) [of tools st raw n False out] False u l(4) assms(4)
      by (auto simp: text_outcome_def content_text_if e_def [symmetric] u_def [symmetric] max_def)
  next
    case nlt: False
    then have "text_stream_safe_limit raw e n tools False = n"
      by (simp add: text_stream_safe_limit_def)
    then show ?thesis
      using stream_text_eval(2) [of tools st raw n False out] False nlt assms(4) inv
      by (auto simp: text_outcome_def content_text_if e_def [symmetric] max_def)
  qed
qed

lemma stream_text_final:
  assumes "0 \<notin> set R" and "text_inv tools R b (rs_emit_pos st)"
  shows "\<exists>ds st'. stream_text_part (\<lambda>_. True) tools R (length R) True (out, st) = Some (out @ ds, st') \<and>
    text_outcome tools R b (rs_emit_pos st) ds st' \<and> rs_mode st' = STREAM_SUPPRESS"
proof (cases "tools \<and> find_any_tool_start (drop (rs_emit_pos st) R) \<noteq> None")
  case True
  then show ?thesis
    using stream_text_tool [OF assms(1) _ assms(2), of R "length R"] by (auto simp: call_ok_def)
next
  case False
  define e where "e = rs_emit_pos st"
  have inv: "text_inv tools R b e"
    using assms(2) by (simp add: e_def)
  have lim: "text_limit tools R b = length R"
    using text_limit_same [OF assms(1) inv] False by (auto simp: text_limit_def e_def)
  define u where "u = utf8_stream_safe_len R b (length R)"
  have u: "utf8_stream_safe_len R e (length R) = u" "e \<le> length R"
    using inv lim by (simp_all add: text_inv_def u_def)
  show ?thesis
  proof (cases "e < length R")
    case True
    then have "text_stream_safe_limit R e (length R) tools True = u"
      using False u by (auto simp: text_stream_safe_limit_def e_def)
    then show ?thesis
      using stream_text_eval(2) [of tools st R "length R" True out] False lim
      by (auto simp: text_outcome_def content_text_if e_def [symmetric] u_def [symmetric])
  next
    case nlt: False
    then have "text_stream_safe_limit R e (length R) tools True = e"
      using u by (simp add: text_stream_safe_limit_def)
    moreover have "u = e"
      using u(1) nlt by (simp add: utf8_stream_safe_len_def utf8_safe_done)
    ultimately show ?thesis
      using stream_text_eval(2) [of tools st R "length R" True out] False lim
      by (auto simp: text_outcome_def content_text_if e_def [symmetric] u_def [symmetric])
  qed
qed

subsection \<open>The reasoning part, call by call\<close>

lemma find_upt:
  "case find P [a..<b] of
     None \<Rightarrow> (\<forall>j. a \<le> j \<longrightarrow> j < b \<longrightarrow> \<not> P j)
   | Some c \<Rightarrow> a \<le> c \<and> c < b \<and> P c \<and> (\<forall>j. a \<le> j \<longrightarrow> j < c \<longrightarrow> \<not> P j)"
proof (induction b)
  case (Suc b)
  then show ?case
    by (cases "find P [a..<b]") (auto simp: find_append less_Suc_eq)
qed simp

lemma find_substr:
  assumes "needle \<noteq> []" and "n \<le> length raw" and "n \<le> length R" and "take n raw = take n R"
  shows "case find_substr_from raw n e needle of
     None \<Rightarrow> (\<forall>j. e \<le> j \<longrightarrow> j + length needle \<le> n \<longrightarrow> \<not> occurs_at R needle j)
   | Some c \<Rightarrow> e \<le> c \<and> c + length needle \<le> n \<and> occurs_at R needle c \<and> (\<forall>j. e \<le> j \<longrightarrow> j < c \<longrightarrow> \<not> occurs_at R needle j)"
proof -
  have eq: "occurs_at raw needle j \<longleftrightarrow> occurs_at R needle j" if "j + length needle \<le> n" for j
    using occurs_at_take [OF assms(1), of n raw j] occurs_at_take [OF assms(1), of n R j] assms(4) that by simp
  show ?thesis
  proof (cases "e \<ge> n \<or> length needle > n")
    case True
    then have "find_substr_from raw n e needle = None"
      by (auto simp: find_substr_from_def)
    moreover have "\<not> j + length needle \<le> n" if "e \<le> j" for j
      using True that assms(1) by (cases needle) auto
    ultimately show ?thesis
      by simp
  next
    case False
    then have f: "find_substr_from raw n e needle = find (occurs_at raw needle) [e..<Suc (n - length needle)]"
      using assms(1) by (simp add: find_substr_from_def)
    show ?thesis
    proof (cases "find (occurs_at raw needle) [e..<Suc (n - length needle)]")
      case None
      then show ?thesis
        using find_upt [where P = "occurs_at raw needle" and a = e and b = "Suc (n - length needle)"] eq unfolding f
        by (auto simp: less_Suc_eq_le simp del: upt_Suc) 
    next
      case (Some c)
      then have c: "e \<le> c" "c < Suc (n - length needle)" "occurs_at raw needle c" "\<forall>j. e \<le> j \<longrightarrow> j < c \<longrightarrow> \<not> occurs_at raw needle j"
        using find_upt [where P = "occurs_at raw needle" and a = e and b = "Suc (n - length needle)"] by simp_all
      have "c + length needle \<le> n"
        using c(2) False by linarith
      then show ?thesis
        using Some eq c unfolding f by simp
    qed
  qed
qed

definition open_len :: "bytes \<Rightarrow> nat" where
  "open_len R = (if at_lit R THINK_OPEN then length THINK_OPEN else 0)"

lemma think_marks [simp]: "length THINK_OPEN = 7" "length THINK_CLOSE = 8" "THINK_CLOSE \<noteq> []"
  by (simp_all add: THINK_OPEN_def THINK_CLOSE_def)

lemma open_len_le: "open_len R \<le> length R"
proof (cases "at_lit R THINK_OPEN")
  case True
  then have "length (take 7 R) = 7"
    by (simp add: at_lit_def)
  then show ?thesis
    by (simp add: open_len_def min_def split: if_splits)
qed (simp add: open_len_def)

text \<open>What the whole text splits into when thinking is on.\<close>

lemma split_eval:
  "split_reasoning_content R (length R) True =
     (case find_substr_from R (length R) (open_len R) THINK_CLOSE of
        Some c \<Rightarrow> (drop (open_len R) (take c R), drop (c + 8) R)
      | None \<Rightarrow> (drop (open_len R) R, []))"
proof -
  define k where "k = open_len R"
  have k: "k \<le> length R"
    unfolding k_def by (rule open_len_le)
  have "(length R \<ge> 7 \<and> at_lit R THINK_OPEN) = at_lit R THINK_OPEN"
    using open_len_le [of R] by (auto simp: open_len_def)
  then have body: "(if length R \<ge> length THINK_OPEN \<and> at_lit (take (length R) R) THINK_OPEN
      then drop (length THINK_OPEN) (take (length R) R) else take (length R) R) = drop k R"
    by (auto simp: k_def open_len_def)
  have find: "find_substr_from (drop k R) (length (drop k R)) 0 THINK_CLOSE =
      map_option (\<lambda>c. c - k) (find_substr_from R (length R) k THINK_CLOSE)"
  proof -
    have a: "case find_substr_from (drop k R) (length (drop k R)) 0 THINK_CLOSE of
        None \<Rightarrow> (\<forall>j. j + 8 \<le> length R - k \<longrightarrow> \<not> occurs_at R THINK_CLOSE (k + j))
      | Some c \<Rightarrow> c + 8 \<le> length R - k \<and> occurs_at R THINK_CLOSE (k + c) \<and> (\<forall>j<c. \<not> occurs_at R THINK_CLOSE (k + j))"
      using find_substr [of THINK_CLOSE "length (drop k R)" "drop k R" "drop k R" 0] by (simp add: occurs_at_drop split: option.splits)
    have b: "case find_substr_from R (length R) k THINK_CLOSE of
        None \<Rightarrow> (\<forall>j\<ge>k. j + 8 \<le> length R \<longrightarrow> \<not> occurs_at R THINK_CLOSE j)
      | Some c \<Rightarrow> k \<le> c \<and> c + 8 \<le> length R \<and> occurs_at R THINK_CLOSE c \<and> (\<forall>j. k \<le> j \<longrightarrow> j < c \<longrightarrow> \<not> occurs_at R THINK_CLOSE j)"
      using find_substr [of THINK_CLOSE "length R" R R k] by (simp split: option.splits)
    show ?thesis
    proof (cases "find_substr_from R (length R) k THINK_CLOSE")
      case None
      then have n: "\<forall>j\<ge>k. j + 8 \<le> length R \<longrightarrow> \<not> occurs_at R THINK_CLOSE j"
        using b by simp
      show ?thesis
      proof (cases "find_substr_from (drop k R) (length (drop k R)) 0 THINK_CLOSE")
        case (Some c)
        then show ?thesis
          using a n k by auto
      qed (simp add: None)
    next
      case (Some c)
      then have c: "k \<le> c" "c + 8 \<le> length R" "occurs_at R THINK_CLOSE c" "\<forall>j. k \<le> j \<longrightarrow> j < c \<longrightarrow> \<not> occurs_at R THINK_CLOSE j"
        using b by simp_all
      have "k + (c - k) = c"
        using c(1) by simp
      show ?thesis
      proof (cases "find_substr_from (drop k R) (length (drop k R)) 0 THINK_CLOSE")
        case None
        then have "\<forall>j. j + 8 \<le> length R - k \<longrightarrow> \<not> occurs_at R THINK_CLOSE (k + j)"
          using a by simp
        moreover have "c - k + 8 \<le> length R - k"
          using c(1,2) by linarith
        ultimately have "\<not> occurs_at R THINK_CLOSE (k + (c - k))"
          by blast
        then show ?thesis
          using c(1,3) by simp
      next
        case (Some d)
        then have d: "d + 8 \<le> length R - k" "occurs_at R THINK_CLOSE (k + d)" "\<forall>j<d. \<not> occurs_at R THINK_CLOSE (k + j)"
          using a by simp_all
        have "k + d \<ge> c"
          using c(4) d(2) by (meson le_add1 not_le_imp_less)
        moreover have "\<not> c - k < d"
          using d(3) c(1,3) by fastforce
        ultimately have "d = c - k"
          by simp
        then show ?thesis
          using Some \<open>find_substr_from R (length R) k THINK_CLOSE = Some c\<close> by simp
      qed
    qed
  qed
  show ?thesis
  proof (cases "find_substr_from R (length R) k THINK_CLOSE")
    case None
    then show ?thesis
      using find unfolding split_reasoning_content_def Let_def body by (simp add: k_def [symmetric])
  next
    case (Some c)
    have "k \<le> c"
      using find_substr [of THINK_CLOSE "length R" R R k] Some by simp
    then show ?thesis
      using find Some unfolding split_reasoning_content_def Let_def body
      by (simp add: k_def [symmetric] drop_take add.commute)
  qed
qed

text \<open>What a run shows in the end, and the invariant of its state with the texts shown so far.\<close>

definition stream_spec :: "bool \<Rightarrow> bytes \<Rightarrow> bytes \<times> bytes" where
  "stream_spec think R = (if think then split_reasoning_content R (length R) True else ([], R))"

definition think_inv :: "bytes \<Rightarrow> nat \<Rightarrow> bool" where
  "think_inv R e \<longleftrightarrow> open_len R \<le> e \<and> e \<le> length R \<and> (\<forall>j. open_len R \<le> j \<longrightarrow> j < e \<longrightarrow> \<not> occurs_at R THINK_CLOSE j)"

definition stream_inv :: "bool \<Rightarrow> bool \<Rightarrow> bytes \<Rightarrow> reasoning_stream \<Rightarrow> bytes \<Rightarrow> bytes \<Rightarrow> bool" where
  "stream_inv tools think R st rho kappa \<longleftrightarrow>
     (case rs_mode st of
        STREAM_THINKING \<Rightarrow> think \<and> kappa = [] \<and>
          (if rs_checked st then think_inv R (rs_emit_pos st) \<and> rho = drop (open_len R) (take (rs_emit_pos st) R)
           else rs_emit_pos st = 0 \<and> rho = [])
      | STREAM_TEXT \<Rightarrow> rho = fst (stream_spec think R) \<and>
          (\<exists>b. b \<le> length R \<and> snd (stream_spec think R) = drop b R \<and> text_inv tools R b (rs_emit_pos st) \<and>
               kappa = drop b (take (rs_emit_pos st) R))
      | STREAM_SUPPRESS \<Rightarrow> rho = fst (stream_spec think R) \<and> kappa = visible tools (snd (stream_spec think R)))"

lemma slice_append: "a \<le> b \<Longrightarrow> b \<le> c \<Longrightarrow> drop a (take b s) @ drop b (take c s) = drop a (take c s)"
proof -
  assume ab: "a \<le> b" "b \<le> c"
  define t where "t = take c s"
  have "take b s = take b t"
    using ab(2) by (simp add: t_def min_def)
  moreover have "drop a (take b t) @ drop b t = drop a t"
    using ab(1) append_take_drop_id [of "b - a" "drop a t"] by (simp add: drop_take)
  ultimately show ?thesis
    by (simp add: t_def)
qed

lemma stream_inv_init: "stream_inv tools think R (reasoning_stream_init think) [] []"
proof (cases think)
  case False
  have "text_inv tools R 0 0"
    by (rule text_inv_start) simp
  then show ?thesis
    using False by (auto simp: stream_inv_def reasoning_stream_init_def stream_spec_def)
qed (simp add: stream_inv_def reasoning_stream_init_def)

lemma text_outcome_inv:
  assumes "0 \<notin> set R" and "b \<le> length R" and "stream_spec think R = (rho, drop b R)"
    and "text_inv tools R b e" and "kappa = drop b (take e R)" and "text_outcome tools R b e ds st'"
  shows "stream_inv tools think R st' (rho @ reasoning_text ds) (kappa @ content_text ds)"
proof -
  define u where "u = utf8_stream_safe_len R b (text_limit tools R b)"
  have be: "b \<le> e"
    using assms(4) by (simp add: text_inv_def)
  have eu: "e \<le> u"
    using assms(4) utf8_safe_bounds [of e R "text_limit tools R b"]
    by (simp add: text_inv_def u_def utf8_stream_safe_len_def)
  have r: "reasoning_text ds = []"
    using assms(6) by (simp add: text_outcome_def)
  show ?thesis
  proof (cases "rs_mode st' = STREAM_SUPPRESS")
    case True
    then have "content_text ds = drop e (take u R)"
      using assms(6) by (auto simp: text_outcome_def u_def)
    then have "kappa @ content_text ds = drop b (take u R)"
      using slice_append [OF be eu] assms(5) by simp
    then show ?thesis
      using True r assms(3) text_limit_visible [OF assms(2,1), of tools] by (simp add: stream_inv_def u_def)
  next
    case False
    then have c: "rs_mode st' = STREAM_TEXT" "text_inv tools R b (rs_emit_pos st')" "e \<le> rs_emit_pos st'"
        "content_text ds = drop e (take (rs_emit_pos st') R)"
      using assms(6) by (auto simp: text_outcome_def)
    then have "kappa @ content_text ds = drop b (take (rs_emit_pos st') R)"
      using slice_append [OF be c(3)] assms(5) by simp
    then show ?thesis
      using c r assms(2,3) by (auto simp: stream_inv_def)
  qed
qed

text \<open>The rest of a call in thinking mode, once the opening tag has been looked at.\<close>

definition think_part ::
  "(delta \<Rightarrow> bool) \<Rightarrow> bool \<Rightarrow> bytes \<Rightarrow> nat \<Rightarrow> bool \<Rightarrow> reasoning_stream \<Rightarrow> (delta list \<times> reasoning_stream) option" where
  "think_part send tools raw n final st =
     (case find_substr_from raw n (rs_emit_pos st) THINK_CLOSE of
        Some c \<Rightarrow>
          (case emit_upto send ReasoningDelta raw c ([], st) of
             None \<Rightarrow> None
           | Some (out, st) \<Rightarrow> stream_text_part send tools raw n final (out, st\<lparr>rs_emit_pos := c + 8, rs_mode := STREAM_TEXT\<rparr>))
      | None \<Rightarrow>
          (case emit_upto send ReasoningDelta raw
              (if final then n else utf8_stream_safe_len raw (rs_emit_pos st) (if n > 7 then n - 7 else rs_emit_pos st)) ([], st) of
             None \<Rightarrow> None
           | Some (out, st) \<Rightarrow> Some (out, if final then st\<lparr>rs_mode := STREAM_SUPPRESS\<rparr> else st)))"

definition after_open :: "bytes \<Rightarrow> nat \<Rightarrow> reasoning_stream \<Rightarrow> reasoning_stream" where
  "after_open raw n st =
     (if rs_checked st then st
      else (if n \<ge> 7 \<and> at_lit raw THINK_OPEN then st\<lparr>rs_emit_pos := 7\<rparr> else st)\<lparr>rs_checked := True\<rparr>)"

lemma update_thinking:
  assumes "rs_mode st = STREAM_THINKING"
  shows "reasoning_stream_update send tools raw n final st =
    (if \<not> rs_checked st \<and> n < 7 \<and> take n raw = take n THINK_OPEN \<and> \<not> final then Some ([], st)
     else think_part send tools raw n final (after_open raw n st))"
proof (cases "\<not> rs_checked st \<and> n < 7 \<and> take n raw = take n THINK_OPEN \<and> \<not> final")
  case True
  then show ?thesis
    using assms by (simp add: reasoning_stream_update_def)
next
  case False
  define s where "s = after_open raw n st"
  have s: "(if rs_checked st then st
                  else (if n \<ge> length THINK_OPEN \<and> at_lit raw THINK_OPEN
                        then st\<lparr>rs_emit_pos := length THINK_OPEN\<rparr> else st)\<lparr>rs_checked := True\<rparr>) = s"
    by (simp add: s_def after_open_def)
  have skip: "(\<not> rs_checked st \<and> n < length THINK_OPEN \<and> take n raw = take n THINK_OPEN \<and> \<not> final) = False"
    using False by simp
  show ?thesis
    unfolding if_not_P [OF False] reasoning_stream_update_def assms s skip if_False if_True think_part_def s_def [symmetric] Let_def [of s]
    by (cases "find_substr_from raw n (rs_emit_pos s) THINK_CLOSE") (simp_all add: Let_def assms cong: option.case_cong)
qed

lemma take_same:
  assumes "take n raw = take n R" and "u \<le> n"
  shows "take u raw = take u R"
  using assms by (metis min.absorb1 take_take)

text \<open>The opening tag has been looked at: reasoning starts behind it.\<close>

lemma after_open_inv:
  assumes "stream_inv tools True R st rho kappa" and "rs_mode st = STREAM_THINKING" and "call_ok tools' R (raw, n)"
    and "\<not> (\<not> rs_checked st \<and> n < 7 \<and> take n raw = take n THINK_OPEN \<and> \<not> final)" and "final \<Longrightarrow> n = length R"
  shows "think_inv R (rs_emit_pos (after_open raw n st))" and "rho = drop (open_len R) (take (rs_emit_pos (after_open raw n st)) R)"
    and "rs_checked (after_open raw n st)" and "rs_mode (after_open raw n st) = STREAM_THINKING"
proof -
  have raw: "take n raw = take n R" "n \<le> length R" "n \<le> length raw"
    using assms(3) by (auto simp: call_ok_def)
  have start: "rs_emit_pos (after_open raw n st) = open_len R" if "\<not> rs_checked st"
  proof (cases "n \<ge> 7")
    case True
    then have "at_lit raw THINK_OPEN \<longleftrightarrow> at_lit R THINK_OPEN"
      using take_same [OF raw(1), of 7] by (simp add: at_lit_def)
    then show ?thesis
      using that True assms(1,2) by (auto simp: after_open_def open_len_def stream_inv_def)
  next
    case False
    have "\<not> at_lit R THINK_OPEN"
    proof
      assume a: "at_lit R THINK_OPEN"
      then have "7 \<le> length R"
        using open_len_le [of R] by (simp add: open_len_def)
      then have "take n R \<noteq> take n THINK_OPEN"
        using assms(4,5) that False raw(1) by auto
      then show False
        using a False by (auto simp: at_lit_def min_def dest: arg_cong [where f = "take n"])
    qed
    then show ?thesis
      using that False assms(1,2) by (auto simp: after_open_def open_len_def stream_inv_def)
  qed
  have "think_inv R (open_len R)"
    using open_len_le by (simp add: think_inv_def)
  then show "think_inv R (rs_emit_pos (after_open raw n st))"
    using start assms(1,2) by (cases "rs_checked st") (auto simp: after_open_def stream_inv_def)
  show "rho = drop (open_len R) (take (rs_emit_pos (after_open raw n st)) R)"
    using start assms(1,2) by (cases "rs_checked st") (auto simp: after_open_def stream_inv_def)
  show "rs_checked (after_open raw n st)" "rs_mode (after_open raw n st) = STREAM_THINKING"
    using assms(2) by (auto simp: after_open_def)
qed

lemma first_close:
  assumes "think_inv R e" and "call_ok tools R (raw, n)" and "find_substr_from raw n e THINK_CLOSE = Some c"
  shows "e \<le> c" and "c + 8 \<le> n" and "stream_spec True R = (drop (open_len R) (take c R), drop (c + 8) R)"
proof -
  have raw: "take n raw = take n R" "n \<le> length R" "n \<le> length raw"
    using assms(2) by (auto simp: call_ok_def)
  have c: "e \<le> c" "c + 8 \<le> n" "occurs_at R THINK_CLOSE c" "\<forall>j. e \<le> j \<longrightarrow> j < c \<longrightarrow> \<not> occurs_at R THINK_CLOSE j"
    using find_substr [OF think_marks(3) raw(3,2,1), of e] assms(3) by simp_all
  have before: "\<not> occurs_at R THINK_CLOSE j" if "open_len R \<le> j" "j < c" for j
    using that c(4) assms(1) by (cases "j < e") (auto simp: think_inv_def)
  have "find_substr_from R (length R) (open_len R) THINK_CLOSE = Some c"
  proof (cases "find_substr_from R (length R) (open_len R) THINK_CLOSE")
    case None
    then have "\<forall>j. open_len R \<le> j \<longrightarrow> j + 8 \<le> length R \<longrightarrow> \<not> occurs_at R THINK_CLOSE j"
      using find_substr [OF think_marks(3), of "length R" R R "open_len R"] by simp
    moreover have "open_len R \<le> c"
      using assms(1) c(1) by (simp add: think_inv_def)
    ultimately show ?thesis
      using c(2,3) raw(2) by simp
  next
    case (Some d)
    then have d: "open_len R \<le> d" "occurs_at R THINK_CLOSE d" "\<forall>j. open_len R \<le> j \<longrightarrow> j < d \<longrightarrow> \<not> occurs_at R THINK_CLOSE j"
      using find_substr [OF think_marks(3), of "length R" R R "open_len R"] by simp_all
    have "\<not> d < c"
      using before d(1,2) by blast
    moreover have "\<not> c < d"
      using d(3) c(1,3) assms(1) by (auto simp: think_inv_def)
    ultimately show ?thesis
      using Some by simp
  qed
  then show "stream_spec True R = (drop (open_len R) (take c R), drop (c + 8) R)"
    by (simp add: stream_spec_def split_eval)
  show "e \<le> c" "c + 8 \<le> n"
    by (fact c(1), fact c(2))
qed

lemma visible_Nil: "visible tools [] = []"
  by (simp add: visible_def)

lemma think_part_step:
  assumes "0 \<notin> set R" and "call_ok tools R (raw, n)" and "final \<Longrightarrow> raw = R \<and> n = length R"
    and "think_inv R (rs_emit_pos st)" and "rs_checked st" and "rs_mode st = STREAM_THINKING"
    and "rho = drop (open_len R) (take (rs_emit_pos st) R)"
  shows "\<exists>ds st'. think_part (\<lambda>_. True) tools raw n final st = Some (ds, st') \<and>
    stream_inv tools True R st' (rho @ reasoning_text ds) (content_text ds) \<and> (final \<longrightarrow> rs_mode st' = STREAM_SUPPRESS)"
proof (cases "find_substr_from raw n (rs_emit_pos st) THINK_CLOSE")
  case (Some c)
  define e where "e = rs_emit_pos st"
  note c = first_close [OF assms(4,2) Some, folded e_def]
  have raw: "take n raw = take n R" "n \<le> length R"
    using assms(2) by (auto simp: call_ok_def)
  define out where "out = (if c > e then [ReasoningDelta (drop e (take c R))] else [])"
  define st1 where "st1 = st\<lparr>rs_emit_pos := c + 8, rs_mode := STREAM_TEXT\<rparr>"
  have part: "think_part (\<lambda>_. True) tools raw n final st = stream_text_part (\<lambda>_. True) tools raw n final (out, st1)"
    using Some take_same [OF raw(1), of c] c(2)
    by (simp add: think_part_def emit_always e_def [symmetric] out_def st1_def)
  have out: "reasoning_text out = drop e (take c R)" "content_text out = []"
    by (simp_all add: out_def)
  have oe: "open_len R \<le> e"
    using assms(4) by (simp add: think_inv_def e_def)
  have rho: "rho @ reasoning_text out = drop (open_len R) (take c R)"
    using slice_append [OF oe c(1)] assms(7) out(1) by (simp add: e_def)
  have b: "c + 8 \<le> length R"
    using c(2) raw(2) by simp
  have inv: "text_inv tools R (c + 8) (rs_emit_pos st1)"
    using text_inv_start [OF b] by (simp add: st1_def)
  have emp: "[] = drop (c + 8) (take (rs_emit_pos st1) R)"
    by (simp add: st1_def)
  have "\<exists>ds st'. stream_text_part (\<lambda>_. True) tools raw n final (out, st1) = Some (out @ ds, st') \<and>
      text_outcome tools R (c + 8) (rs_emit_pos st1) ds st' \<and> (final \<longrightarrow> rs_mode st' = STREAM_SUPPRESS)"
  proof (cases final)
    case True
    then show ?thesis
      using stream_text_final [OF assms(1) inv] assms(3) by simp
  next
    case False
    then show ?thesis
      using stream_text_step [OF assms(1,2) inv] by (simp add: st1_def)
  qed
  then obtain ds st' where d: "stream_text_part (\<lambda>_. True) tools raw n final (out, st1) = Some (out @ ds, st')"
      "text_outcome tools R (c + 8) (rs_emit_pos st1) ds st'" "final \<longrightarrow> rs_mode st' = STREAM_SUPPRESS"
    by blast
  have "stream_inv tools True R st' ((rho @ reasoning_text out) @ reasoning_text ds) ([] @ content_text ds)"
    using text_outcome_inv [OF assms(1) b _ inv emp d(2)] c(3) rho by simp
  then show ?thesis
    using part d out by auto
next
  case None
  define e where "e = rs_emit_pos st"
  have raw: "take n raw = take n R" "n \<le> length R" "n \<le> length raw"
    using assms(2) by (auto simp: call_ok_def)
  have no: "\<forall>j. e \<le> j \<longrightarrow> j + 8 \<le> n \<longrightarrow> \<not> occurs_at R THINK_CLOSE j"
    using find_substr [OF think_marks(3) raw(3,2,1), of e] None by (simp add: e_def)
  have e: "open_len R \<le> e" "e \<le> length R" "\<forall>j. open_len R \<le> j \<longrightarrow> j < e \<longrightarrow> \<not> occurs_at R THINK_CLOSE j"
    using assms(4) by (simp_all add: think_inv_def e_def)
  define l where "l = (if final then n else utf8_stream_safe_len raw e (if n > 7 then n - 7 else e))"
  define ds where "ds = (if l > e then [ReasoningDelta (drop e (take l raw))] else [])"
  have ln: "l \<le> max e n"
    using utf8_safe_bounds [of e raw "if n > 7 then n - 7 else e"] by (auto simp: l_def utf8_stream_safe_len_def split: if_splits)
  have "think_part (\<lambda>_. True) tools raw n final st =
      Some (ds, st\<lparr>rs_emit_pos := max e l, rs_mode := (if final then STREAM_SUPPRESS else STREAM_THINKING)\<rparr>)"
  proof -
    have same: "st\<lparr>rs_emit_pos := x, rs_mode := STREAM_THINKING\<rparr> = st\<lparr>rs_emit_pos := x\<rparr>"
      "st\<lparr>rs_emit_pos := e, rs_mode := m\<rparr> = st\<lparr>rs_mode := m\<rparr>" "st\<lparr>rs_emit_pos := e\<rparr> = st" "st\<lparr>rs_mode := STREAM_THINKING\<rparr> = st" for x m
      by (rule reasoning_stream.equality; simp add: assms(6) e_def)+
    show ?thesis
      unfolding think_part_def emit_always e_def [symmetric] l_def [symmetric] ds_def
      by (cases final; cases "l > e") (simp_all add: None [folded e_def] same max_def)
  qed
  moreover have shown: "rho @ reasoning_text ds = drop (open_len R) (take (max e l) R)" "content_text ds = []"
    using slice_append [of "open_len R" e l R] e(1) assms(7) take_same [OF raw(1), of l] ln
    by (auto simp: ds_def e_def [symmetric] max_def split: if_splits)
  moreover have "stream_inv tools True R (st\<lparr>rs_emit_pos := max e l, rs_mode := (if final then STREAM_SUPPRESS else STREAM_THINKING)\<rparr>)
      (rho @ reasoning_text ds) (content_text ds)"
  proof (cases final)
    case True
    then have l: "l = length R" "raw = R" "n = length R"
      using assms(3) by (simp_all add: l_def)
    have "find_substr_from R (length R) (open_len R) THINK_CLOSE = None"
    proof (cases "find_substr_from R (length R) (open_len R) THINK_CLOSE")
      case (Some d)
      then have "open_len R \<le> d" "d + 8 \<le> length R" "occurs_at R THINK_CLOSE d"
        using find_substr [OF think_marks(3), of "length R" R R "open_len R"] by simp_all
      then show ?thesis
        using no e(3) l by (cases "d < e") auto
    qed simp
    then have "stream_spec True R = (drop (open_len R) R, [])"
      by (simp add: stream_spec_def split_eval)
    then show ?thesis
      using True shown l e(2) by (simp add: stream_inv_def visible_Nil max_def)
  next
    case False
    have "l \<le> max e (n - 7)"
      using False utf8_safe_bounds [of e raw "if n > 7 then n - 7 else e"]
      by (auto simp: l_def utf8_stream_safe_len_def split: if_splits)
    then have "\<not> occurs_at R THINK_CLOSE j" if "open_len R \<le> j" "j < max e l" for j
      using that e(3) no by (cases "j < e") auto
    then have "think_inv R (max e l)"
      using e raw(2) ln by (auto simp: think_inv_def)
    then show ?thesis
      using False shown assms(5) by (simp add: stream_inv_def)
  qed
  ultimately show ?thesis
    by auto
qed

subsection \<open>Piece by piece as at once\<close>

text \<open>A run of the stream: calls while the text grows and a last one with the whole text.\<close>

fun stream_calls ::
  "(delta \<Rightarrow> bool) \<Rightarrow> bool \<Rightarrow> (bytes \<times> nat) list \<Rightarrow> delta list \<times> reasoning_stream \<Rightarrow> (delta list \<times> reasoning_stream) option" where
  "stream_calls send tools [] os = Some os"
| "stream_calls send tools ((raw, n) # calls) (out, st) =
     (case reasoning_stream_update send tools raw n False st of
        None \<Rightarrow> None | Some (ds, st) \<Rightarrow> stream_calls send tools calls (out @ ds, st))"

definition stream_run :: "(delta \<Rightarrow> bool) \<Rightarrow> bool \<Rightarrow> bool \<Rightarrow> (bytes \<times> nat) list \<Rightarrow> bytes \<Rightarrow> delta list option" where
  "stream_run send tools think calls R =
     (case stream_calls send tools calls ([], reasoning_stream_init think) of
        None \<Rightarrow> None
      | Some (out, st) \<Rightarrow> map_option (\<lambda>(ds, st). out @ ds) (reasoning_stream_update send tools R (length R) True st))"

lemma update_step:
  assumes "0 \<notin> set R" and "call_ok tools R (raw, n)" and "final \<Longrightarrow> raw = R \<and> n = length R"
    and "stream_inv tools think R st rho kappa"
  shows "\<exists>ds st'. reasoning_stream_update (\<lambda>_. True) tools raw n final st = Some (ds, st') \<and>
    stream_inv tools think R st' (rho @ reasoning_text ds) (kappa @ content_text ds) \<and> (final \<longrightarrow> rs_mode st' = STREAM_SUPPRESS)"
proof (cases "rs_mode st")
  case STREAM_THINKING
  then have th: think "kappa = []"
    using assms(4) by (simp_all add: stream_inv_def)
  show ?thesis
  proof (cases "\<not> rs_checked st \<and> n < 7 \<and> take n raw = take n THINK_OPEN \<and> \<not> final")
    case True
    then show ?thesis
      using STREAM_THINKING assms(4) by (simp add: update_thinking)
  next
    case False
    have inv: "stream_inv tools True R st rho kappa"
      using assms(4) th by simp
    have fin: "final \<Longrightarrow> n = length R"
      using assms(3) by simp
    note after = after_open_inv [OF inv STREAM_THINKING assms(2) False fin]
    show ?thesis
      using think_part_step [OF assms(1,2,3) after(1,3,4,2)] th False
      unfolding update_thinking [OF STREAM_THINKING] if_not_P [OF False] by simp
  qed
next
  case STREAM_TEXT
  then obtain b where b0: "rho = fst (stream_spec think R)" "b \<le> length R" "snd (stream_spec think R) = drop b R"
      "text_inv tools R b (rs_emit_pos st)" "kappa = drop b (take (rs_emit_pos st) R)"
    using assms(4) by (auto simp: stream_inv_def)
  have "stream_spec think R = (rho, drop b R)"
    using b0(1,3) by (simp add: prod_eq_iff)
  note b = b0(2) this b0(4,5)
  have "\<exists>ds st'. stream_text_part (\<lambda>_. True) tools raw n final ([], st) = Some (ds, st') \<and>
      text_outcome tools R b (rs_emit_pos st) ds st' \<and> (final \<longrightarrow> rs_mode st' = STREAM_SUPPRESS)"
  proof (cases final)
    case True
    then show ?thesis
      using stream_text_final [OF assms(1) b(3), of "[]"] assms(3) by simp
  next
    case False
    then show ?thesis
      using stream_text_step [OF assms(1,2) b(3) STREAM_TEXT, of "[]"] by simp
  qed
  then show ?thesis
    using text_outcome_inv [OF assms(1) b] STREAM_TEXT by (auto simp: reasoning_stream_update_def)
next
  case STREAM_SUPPRESS
  then show ?thesis
    using assms(4) by (simp add: reasoning_stream_update_def)
qed

lemma calls_step:
  assumes "0 \<notin> set R" and "list_all (call_ok tools R) calls" and "stream_inv tools think R st (reasoning_text out) (content_text out)"
  shows "\<exists>out' st'. stream_calls (\<lambda>_. True) tools calls (out, st) = Some (out', st') \<and>
    stream_inv tools think R st' (reasoning_text out') (content_text out')"
  using assms(2,3)
proof (induction calls arbitrary: out st)
  case (Cons call calls)
  obtain raw n where call: "call = (raw, n)"
    by (cases call)
  have ok: "call_ok tools R (raw, n)"
    using Cons.prems(1) call by simp
  have nf: "False \<Longrightarrow> raw = R \<and> n = length R"
    by simp
  from update_step [OF assms(1) ok nf Cons.prems(2)]
  obtain ds st' where d: "reasoning_stream_update (\<lambda>_. True) tools raw n False st = Some (ds, st')"
      "stream_inv tools think R st' (reasoning_text out @ reasoning_text ds) (content_text out @ content_text ds)"
    by blast
  then show ?case
    using Cons.IH [of st' "out @ ds"] Cons.prems(1) call by simp
qed simp

lemma stream_run_texts:
  assumes "0 \<notin> set R" and "list_all (call_ok tools R) calls"
  shows "\<exists>ds. stream_run (\<lambda>_. True) tools think calls R = Some ds \<and>
     reasoning_text ds = fst (stream_spec think R) \<and> content_text ds = visible tools (snd (stream_spec think R))"
proof -
  have init: "stream_inv tools think R (reasoning_stream_init think) (reasoning_text []) (content_text [])"
    using stream_inv_init by simp
  obtain out st where o: "stream_calls (\<lambda>_. True) tools calls ([], reasoning_stream_init think) = Some (out, st)"
      "stream_inv tools think R st (reasoning_text out) (content_text out)"
    using calls_step [OF assms init] by blast
  have ok: "call_ok tools R (R, length R)"
    by (simp add: call_ok_def)
  obtain ds st' where d: "reasoning_stream_update (\<lambda>_. True) tools R (length R) True st = Some (ds, st')"
      "stream_inv tools think R st' (reasoning_text out @ reasoning_text ds) (content_text out @ content_text ds)"
      "rs_mode st' = STREAM_SUPPRESS"
    using update_step [OF assms(1) ok _ o(2), of True] by auto
  then have "stream_run (\<lambda>_. True) tools think calls R = Some (out @ ds)"
    using o(1) by (simp add: stream_run_def)
  then show ?thesis
    using d(2,3) by (auto simp: stream_inv_def)
qed

text \<open>C10: What a client that reads a stream puts together does not depend on how the text arrived, as
  long as no text is held back while tools are on: for any calls with prefixes of the whole text, before
  a last call with all of it, the reasoning and the content sent add up to the two parts of
  \<open>split_reasoning_content\<close> on the whole text. Without tools a call may pass a longer buffer than it may
  show, as the server does while it waits for a stop sequence; with tools (\<open>call_ok\<close>) it must not, since
  the search for tool markers reads the whole buffer, and text is lost then (\<open>short_text_before_tool_lost\<close>).
  The content is shown up to the first tool marker and the separators before it and up to an incomplete
  character at the end, which is all that is held back. When thinking is off the content is the text itself.\<close>

theorem stream_equals_split:
  assumes "0 \<notin> set R" and "list_all (call_ok tools R) calls"
  shows "\<exists>ds. stream_run (\<lambda>_. True) tools think calls R = Some ds \<and>
     (let (reasoning, content) = (if think then split_reasoning_content R (length R) True else ([], R))
      in reasoning_text ds = reasoning \<and> content_text ds = visible tools content)"
  using stream_run_texts [OF assms, of think] by (simp add: stream_spec_def case_prod_beta)

theorem stream_equals_split_witness:
  "\<exists>ds. stream_run (\<lambda>_. True) True True
      [(cstr ''<thi'', 4), (cstr ''<think>ab</th'', 13), (cstr ''<think>ab</think>c <to'', 22)]
      (cstr ''<think>ab</think>c <tool_call>'') = Some ds \<and>
     (let (reasoning, content) = (if True then split_reasoning_content (cstr ''<think>ab</think>c <tool_call>'')
        (length (cstr ''<think>ab</think>c <tool_call>'')) True else ([], cstr ''<think>ab</think>c <tool_call>''))
      in reasoning_text ds = reasoning \<and> content_text ds = visible True content)"
  by (rule stream_equals_split) (simp_all add: call_ok_def)

subsection \<open>Stop sequences over the pieces of a generation\<close>

text \<open>The loop of \<open>run_generation\<close> on the texts of the tokens, with what it passes to the stream.\<close>

fun stop_loop :: "stop_list \<Rightarrow> bytes list \<Rightarrow> bytes \<times> nat \<Rightarrow> bytes \<times> (bytes \<times> nat) list" where
  "stop_loop stops [] st = (fst st, [])"
| "stop_loop stops (piece # pieces) st =
     (let call = (fst st @ piece, stop_stream_len stops st piece)
      in case stop_step stops st piece of
           Inl shown \<Rightarrow> (shown, [call])
         | Inr st \<Rightarrow> (case stop_loop stops pieces st of (shown, calls) \<Rightarrow> (shown, call # calls)))"

definition stop_ok :: "stop_list \<Rightarrow> bool" where
  "stop_ok stops \<longleftrightarrow> list_all (\<lambda>s. s \<noteq> [] \<and> 0 \<notin> set s \<and> length s \<le> sl_max_len stops) (sl_v stops) \<and> (sl_v stops = [] \<longrightarrow> sl_max_len stops = 0)"

lemma stop_ok_clear: "stop_ok (stop_list_clear stops)"
  by (simp add: stop_ok_def stop_list_clear_def)

lemma stop_ok_push: "stop_ok stops \<Longrightarrow> 0 \<notin> set s \<Longrightarrow> stop_ok (stop_list_push stops s)"
  by (auto simp: stop_ok_def stop_list_push_def list_all_iff)

text \<open>The search returns the first position of a stop sequence behind the start.\<close>

lemma stop_find:
  assumes "stop_ok stops" and "0 \<notin> set s" and "k \<le> length s"
  shows "case stop_list_find_from stops s k of
     None \<Rightarrow> (\<forall>i\<ge>k. \<not> first_at (sl_v stops) s i)
   | Some (pos, len) \<Rightarrow> k \<le> pos \<and> first_at (sl_v stops) s pos \<and> (\<forall>i. k \<le> i \<longrightarrow> i < pos \<longrightarrow> \<not> first_at (sl_v stops) s i)"
proof -
  have z: "0 \<notin> set (drop k s)"
    using assms(2) by (meson in_set_dropD)
  define f where "f = (\<lambda>best m. case strstr (drop k s) m of
          None \<Rightarrow> best
        | Some i \<Rightarrow>
            (case best of
               None \<Rightarrow> Some (k + i, length m)
             | Some (pos, len) \<Rightarrow> if k + i < pos then Some (k + i, length m) else best))"
  have "case foldl f None ms of
     None \<Rightarrow> (\<forall>i\<ge>k. \<not> first_at ms s i)
   | Some (pos, len) \<Rightarrow> k \<le> pos \<and> first_at ms s pos \<and> (\<forall>i. k \<le> i \<longrightarrow> i < pos \<longrightarrow> \<not> first_at ms s i)" if "[] \<notin> set ms" for ms
    using that
  proof (induction ms rule: rev_induct)
    case Nil
    then show ?case
      by (simp add: first_at_def)
  next
    case (snoc m ms)
    have m: "m \<noteq> []"
      using snoc.prems by auto
    have split: "first_at (ms @ [m]) s i \<longleftrightarrow> first_at ms s i \<or> occurs_at s m i" for i
      by (auto simp: first_at_def)
    define acc where "acc = foldl f None ms"
    have IH: "case acc of None \<Rightarrow> (\<forall>i\<ge>k. \<not> first_at ms s i)
      | Some (pos, len) \<Rightarrow> k \<le> pos \<and> first_at ms s pos \<and> (\<forall>i. k \<le> i \<longrightarrow> i < pos \<longrightarrow> \<not> first_at ms s i)"
      using snoc by (simp add: acc_def)
    have step: "foldl f None (ms @ [m]) = f acc m"
      by (simp add: acc_def)
    show ?case
    proof (cases "strstr (drop k s) m")
      case None
      then have "\<not> occurs_at s m i" if "i \<ge> k" for i
        using strstr_None [OF z m] that by (metis le_add_diff_inverse occurs_at_drop)
      then show ?thesis
        using IH None unfolding step by (cases acc) (auto simp: f_def split)
    next
      case (Some i)
      then have i: "occurs_at s m (k + i)" "\<forall>j<i. \<not> occurs_at s m (k + j)"
        using strstr_Some [OF z m] by (simp_all add: occurs_at_drop)
      have before: "\<not> occurs_at s m j" if "k \<le> j" "j < k + i" for j
        using i(2) that by (metis le_add_diff_inverse nat_add_left_cancel_less)
      show ?thesis
        using IH i(1) before Some unfolding step
        by (cases acc) (auto simp: f_def split)
    qed
  qed
  from this [of "sl_v stops"] show ?thesis
    using assms(1) by (auto simp: stop_list_find_from_def f_def stop_ok_def list_all_iff)
qed

text \<open>Nothing is missed in front of the place where the search goes on: a stop sequence that ends in a
  new piece starts at most \<open>max_len - 1\<close> bytes before it.\<close>

definition stop_scanned :: "stop_list \<Rightarrow> bytes \<times> nat \<Rightarrow> bool" where
  "stop_scanned stops st \<longleftrightarrow> (\<forall>i. \<not> first_at (sl_v stops) (fst st) i) \<and> snd st \<le> length (fst st) - (sl_max_len stops - 1)"

lemma stop_scanned_init: "stop_ok stops \<Longrightarrow> stop_scanned stops ([], 0)"
  by (auto simp: stop_scanned_def stop_ok_def first_at_def list_all_iff occurs_at_def)

lemma stop_starts_late:
  assumes "stop_ok stops" and "\<forall>i. \<not> first_at (sl_v stops) s i" and "first_at (sl_v stops) (s @ u) i"
  shows "length s - (sl_max_len stops - 1) \<le> i" and "sl_v stops \<noteq> []"
proof -
  obtain m where m: "m \<in> set (sl_v stops)" "occurs_at (s @ u) m i"
    using assms(3) by (auto simp: first_at_def)
  have len: "m \<noteq> []" "length m \<le> sl_max_len stops"
    using m(1) assms(1) by (auto simp: stop_ok_def list_all_iff)
  have "\<not> occurs_at s m i"
    using assms(2) m(1) by (auto simp: first_at_def)
  then have "\<not> i + length m \<le> length s"
    using occurs_at_take [OF len(1), of "length s" "s @ u" i] m(2) by simp
  then show "length s - (sl_max_len stops - 1) \<le> i"
    using len(2) by linarith
  show "sl_v stops \<noteq> []"
    using m(1) by auto
qed

lemma stop_step_cases:
  assumes "stop_ok stops" and "0 \<notin> set (raw @ piece)" and "stop_scanned stops (raw, k)"
  shows "case stop_step stops (raw, k) piece of
     Inl t \<Rightarrow> (\<exists>pos. t = take pos (raw @ piece) \<and> pos \<le> length (raw @ piece) \<and> stop_stream_len stops (raw, k) piece = pos \<and>
        first_at (sl_v stops) (raw @ piece) pos \<and> (\<forall>i<pos. \<not> first_at (sl_v stops) (raw @ piece) i))
   | Inr st \<Rightarrow> fst st = raw @ piece \<and> stop_scanned stops st \<and>
        stop_stream_len stops (raw, k) piece = length (raw @ piece) - (sl_max_len stops - 1)"
proof -
  have inv: "\<forall>i. \<not> first_at (sl_v stops) raw i" "k \<le> length raw - (sl_max_len stops - 1)"
    using assms(3) by (simp_all add: stop_scanned_def)
  have k: "k \<le> length (raw @ piece)"
    using inv(2) by simp
  have early: "\<not> first_at (sl_v stops) (raw @ piece) i" if "i < k" for i
    using stop_starts_late(1) [OF assms(1) inv(1), of piece i] that inv(2) by auto
  show ?thesis
  proof (cases "stop_list_find_from stops (raw @ piece) k")
    case None
    then have "\<forall>i. \<not> first_at (sl_v stops) (raw @ piece) i"
      using stop_find [OF assms(1,2) k] early by (metis not_le option.simps(4))
    moreover have "stop_stream_len stops (raw, k) piece = length (raw @ piece) - (sl_max_len stops - 1)"
      using None assms(1) by (auto simp: stop_stream_len_def stop_list_stream_safe_len_def Let_def stop_ok_def)
    ultimately show ?thesis
      using None inv(2) by (auto simp: stop_step_def stop_scanned_def Let_def)
  next
    case (Some found)
    obtain pos len where f: "found = (pos, len)"
      by (cases found)
    then have p: "first_at (sl_v stops) (raw @ piece) pos" "\<forall>i. k \<le> i \<longrightarrow> i < pos \<longrightarrow> \<not> first_at (sl_v stops) (raw @ piece) i"
      using stop_find [OF assms(1,2) k] Some by simp_all
    obtain m where m: "m \<in> set (sl_v stops)" "occurs_at (raw @ piece) m pos"
      using p(1) by (auto simp: first_at_def)
    have "m \<noteq> []"
      using m(1) assms(1) by (auto simp: stop_ok_def list_all_iff)
    then have "pos \<le> length (raw @ piece)"
      using occurs_at_bound [OF _ m(2)] by fastforce
    moreover have "\<forall>i<pos. \<not> first_at (sl_v stops) (raw @ piece) i"
      using p(2) early by (meson not_le)
    ultimately show ?thesis
      using Some f p(1) by (simp add: stop_step_def stop_stream_len_def Let_def)
  qed
qed

text \<open>The text that is kept: all of it when no stop sequence comes, or what stands before the first one
  in the first text that has any.\<close>

definition stop_result :: "stop_list \<Rightarrow> bytes list \<Rightarrow> bytes \<Rightarrow> bool" where
  "stop_result stops pieces t \<longleftrightarrow>
     t = concat pieces \<and> (\<forall>i. \<not> first_at (sl_v stops) t i) \<or>
     (\<exists>k<length pieces. \<exists>pos. let old = concat (take k pieces); new = concat (take (Suc k) pieces)
        in t = take pos new \<and> first_at (sl_v stops) new pos \<and> (\<forall>i<pos. \<not> first_at (sl_v stops) new i) \<and>
           (\<forall>i. \<not> first_at (sl_v stops) old i))"

lemma stop_loop_inv:
  assumes "stop_ok stops" and "stop_scanned stops st" and "fst st = concat prefix" and "0 \<notin> set (concat (prefix @ pieces))"
    and "stop_loop stops pieces st = (t, calls)" and "tools \<Longrightarrow> sl_v stops = []"
  shows "stop_result stops (prefix @ pieces) t \<and> list_all (call_ok tools t) calls \<and>
    length (concat prefix) - (sl_max_len stops - 1) \<le> length t \<and> (\<exists>u. t = take (length t) (concat prefix @ u))"
  using assms(2-5)
proof (induction pieces arbitrary: st prefix t calls)
  case Nil
  then show ?case
    by (auto simp: stop_result_def stop_scanned_def intro: exI [of _ "[]"])
next
  case (Cons piece pieces)
  obtain raw k where st: "st = (raw, k)"
    by (cases st)
  have raw: "raw = concat prefix"
    using Cons.prems(2) st by simp
  have nul: "0 \<notin> set (raw @ piece)"
    using Cons.prems(3) raw by simp
  have no_old: "\<forall>i. \<not> first_at (sl_v stops) raw i"
    using Cons.prems(1) st by (simp add: stop_scanned_def)
  note step = stop_step_cases [OF assms(1) nul Cons.prems(1) [unfolded st]]
  show ?case
  proof (cases "stop_step stops st piece")
    case (Inl shown)
    then obtain pos where p: "shown = take pos (raw @ piece)" "pos \<le> length (raw @ piece)" "stop_stream_len stops (raw, k) piece = pos"
        "first_at (sl_v stops) (raw @ piece) pos" "\<forall>i<pos. \<not> first_at (sl_v stops) (raw @ piece) i"
      using step st by auto
    have t: "t = take pos (raw @ piece)" "calls = [(raw @ piece, pos)]"
      using Cons.prems(4) Inl st p(1,3) by simp_all
    have "\<exists>pos. t = take pos (concat (take (Suc (length prefix)) (prefix @ piece # pieces))) \<and>
        first_at (sl_v stops) (concat (take (Suc (length prefix)) (prefix @ piece # pieces))) pos \<and>
        (\<forall>i<pos. \<not> first_at (sl_v stops) (concat (take (Suc (length prefix)) (prefix @ piece # pieces))) i) \<and>
        (\<forall>i. \<not> first_at (sl_v stops) (concat (take (length prefix) (prefix @ piece # pieces))) i)"
      using p(4,5) no_old t(1) raw by (intro exI [of _ pos]) simp
    then have "stop_result stops (prefix @ piece # pieces) t"
      unfolding stop_result_def Let_def by (intro disjI2 exI [of _ "length prefix"]) simp
    moreover have "length raw - (sl_max_len stops - 1) \<le> pos" "sl_v stops \<noteq> []"
      using stop_starts_late [OF assms(1) no_old p(4)] .
    moreover have "\<not> tools"
      using calculation(3) assms(6) by blast
    moreover have "length t = pos" "\<exists>u. t = take (length t) (raw @ u)"
      using t(1) p(2) by (auto simp: min_def intro: exI [of _ piece])
    moreover have "take pos t = take pos (raw @ piece)"
      using t(1) by (simp del: take_append)
    then have "call_ok tools t (raw @ piece, pos)"
      using \<open>length t = pos\<close> p(2) \<open>\<not> tools\<close> by (simp add: call_ok_def del: take_append)
    ultimately show ?thesis
      using t(2) raw by simp
  next
    case (Inr st')
    then have s: "fst st' = raw @ piece" "stop_scanned stops st'"
        "stop_stream_len stops (raw, k) piece = length (raw @ piece) - (sl_max_len stops - 1)"
      using step st by simp_all
    obtain t' calls' where rest: "stop_loop stops pieces st' = (t', calls')"
      by (cases "stop_loop stops pieces st'")
    have t: "t = t'" "calls = (raw @ piece, length (raw @ piece) - (sl_max_len stops - 1)) # calls'"
      using Cons.prems(4) Inr rest st s(3) by simp_all
    have d: "fst st' = concat (prefix @ [piece])" "0 \<notin> set (concat ((prefix @ [piece]) @ pieces))"
      using s(1) raw Cons.prems(3) by simp_all
    note IH = Cons.IH [OF s(2) d rest]
    then obtain u where u: "t = take (length t) (raw @ piece @ u)" "length (raw @ piece) - (sl_max_len stops - 1) \<le> length t"
      using t(1) raw by auto
    have "take n (raw @ piece) = take n t" if "n \<le> length t" "n \<le> length (raw @ piece)" for n
    proof -
      have "take n t = take n (take (length t) ((raw @ piece) @ u))"
        using u(1) by simp
      also have "\<dots> = take n ((raw @ piece) @ u)"
        using that(1) by (simp add: min_def)
      also have "\<dots> = take n (raw @ piece)"
        using that(2) by simp
      finally show ?thesis
        by simp
    qed
    then have "take (length (raw @ piece) - (sl_max_len stops - 1)) (raw @ piece) = take (length (raw @ piece) - (sl_max_len stops - 1)) t"
      using u(2) by (simp del: take_append)
    then have "call_ok tools t (raw @ piece, length (raw @ piece) - (sl_max_len stops - 1))"
      using u(2) assms(1,6) by (auto simp: call_ok_def stop_ok_def simp del: take_append)
    moreover have "stop_result stops (prefix @ piece # pieces) t" "list_all (call_ok tools t) calls'"
      using IH t(1) by simp_all
    moreover have "length raw - (sl_max_len stops - 1) \<le> length t"
      using u(2) by simp
    moreover have "\<exists>u. t = take (length t) (raw @ u)"
      using u(1) by blast
    ultimately show ?thesis
      using t(2) raw by simp
  qed
qed

lemma stop_loop_texts:
  assumes "stop_ok stops" and "0 \<notin> set (concat pieces)" and "tools \<Longrightarrow> sl_v stops = []"
    and "stop_loop stops pieces ([], 0) = (t, calls)"
  shows "stop_result stops pieces t" and "list_all (call_ok tools t) calls" and "0 \<notin> set t"
proof -
  have *: "stop_result stops ([] @ pieces) t \<and> list_all (call_ok tools t) calls \<and>
      length (concat [] :: bytes) - (sl_max_len stops - 1) \<le> length t \<and> (\<exists>u. t = take (length t) (concat [] @ u))"
    by (rule stop_loop_inv [OF assms(1) stop_scanned_init [OF assms(1)] _ _ assms(4,3)]) (use assms(2) in simp_all)
  then show "stop_result stops pieces t" "list_all (call_ok tools t) calls"
    by simp_all
  have sub: "set (concat (take k pieces)) \<subseteq> set (concat pieces)" for k
    by (auto dest: in_set_takeD)
  have "set t \<subseteq> set (concat pieces)"
    using * sub by (auto simp: stop_result_def Let_def dest!: in_set_takeD)
  then show "0 \<notin> set t"
    using assms(2) by blast
qed

text \<open>C11: A generation stops at the right place, however its text is cut into tokens: the text kept is
  the whole text when no stop sequence occurs, and otherwise what stands before the first stop
  sequence of the first text that contains one, although each search begins only
  \<open>max_len - 1\<close> bytes before the new piece. And unless the request has both tools and stop sequences, its
  stream shows exactly this: what is sent adds up to the reasoning and content of the text that is kept.
  With both it can fail, as \<open>short_text_before_tool_lost\<close> shows.\<close>

theorem stops_cut_and_stream:
  assumes "stop_ok stops" and "0 \<notin> set (concat pieces)"
  shows "case stop_loop stops pieces ([], 0) of (t, calls) \<Rightarrow>
     stop_result stops pieces t \<and>
     ((tools \<longrightarrow> sl_v stops = []) \<longrightarrow>
      (\<exists>ds. stream_run (\<lambda>_. True) tools think calls t = Some ds \<and> reasoning_text ds = fst (stream_spec think t) \<and>
            content_text ds = visible tools (snd (stream_spec think t))))"
proof -
  obtain t calls where l: "stop_loop stops pieces ([], 0) = (t, calls)"
    by (cases "stop_loop stops pieces ([], 0)")
  have "\<exists>ds. stream_run (\<lambda>_. True) tools think calls t = Some ds \<and> reasoning_text ds = fst (stream_spec think t) \<and>
      content_text ds = visible tools (snd (stream_spec think t))" if "tools \<longrightarrow> sl_v stops = []"
    using stop_loop_texts(2,3) [OF assms _ l, of tools] that stream_run_texts [of t tools calls think] by blast
  then show ?thesis
    unfolding l prod.case using stop_loop_texts(1) [OF assms _ l, of False] by blast
qed

theorem stops_cut_and_stream_witness:
  "case stop_loop \<lparr>sl_v = [cstr ''END''], sl_max_len = 3\<rparr> [cstr ''<think>a'', cstr ''b</think>c E'', cstr ''N'', cstr ''D d''] ([], 0) of (t, calls) \<Rightarrow>
     stop_result \<lparr>sl_v = [cstr ''END''], sl_max_len = 3\<rparr> [cstr ''<think>a'', cstr ''b</think>c E'', cstr ''N'', cstr ''D d''] t \<and>
     ((False \<longrightarrow> sl_v \<lparr>sl_v = [cstr ''END''], sl_max_len = 3\<rparr> = []) \<longrightarrow>
      (\<exists>ds. stream_run (\<lambda>_. True) False True calls t = Some ds \<and> reasoning_text ds = fst (stream_spec True t) \<and>
            content_text ds = visible False (snd (stream_spec True t))))"
  by (rule stops_cut_and_stream) (simp_all add: stop_ok_def)

text \<open>With a stop sequence longer than the text so far, nothing may be shown yet; a tool marker that
  comes then ends the stream, and the text before it is never sent.\<close>

lemma short_text_before_tool_lost:
  "stream_run (\<lambda>_. True) True False [(cstr ''Hi<tool_call>'', 0)] (cstr ''Hi<tool_call>'') = Some []"
  "visible True (cstr ''Hi<tool_call>'') = cstr ''Hi''"
  by code_simp+

subsection \<open>The stop sequences of a request\<close>

lemma until_nul_free: "0 \<notin> set (until_nul s)"
  by (auto simp: until_nul_def dest: set_takeWhileD)

lemma json_string_nul_free: "json_string p = Some (s, q) \<Longrightarrow> 0 \<notin> set s"
  by (auto simp: json_string_def until_nul_free split: list.splits if_splits)

lemma json_skip_value_less: "json_skip_value p = Some q \<Longrightarrow> length q < length p"
  using json_skip_returns [of SkipValue p] by (auto simp: json_skip_value_def)

lemma comma_le: "length (json_ws (if at_lit (json_ws q) [c] then tl (json_ws q) else json_ws q)) \<le> length q"
proof -
  have "length (tl (json_ws q)) \<le> length q"
    using json_ws_le [of q] by simp
  then show ?thesis
    using json_ws_le [of q] json_ws_le [of "tl (json_ws q)"] by (auto intro: le_trans)
qed

lemma parse_stop_fuel:
  "length p < n \<Longrightarrow> length p < m \<Longrightarrow> parse_stop_loop n p out = parse_stop_loop m p out"
proof (induction n p out arbitrary: m rule: parse_stop_loop.induct)
  case (2 n p out)
  obtain k where m: "m = Suc k"
    using "2.prems"(2) by (cases m) auto
  have less: "length (json_ws (if at_lit (json_ws q) [ch CHR '','']then tl (json_ws q) else json_ws q)) < n" "length (json_ws (if at_lit (json_ws q) [ch CHR '',''] then tl (json_ws q) else json_ws q)) < k"
    if "length q < length p" for q
    using comma_le [of q "ch CHR '',''"] that "2.prems" m by simp_all
  show ?case
    using "2.IH" less json_string_less json_skip_value_less unfolding m
    by (auto simp: Let_def split: option.split)
qed simp

lemma parse_stop_loop_ok: "stop_ok out \<Longrightarrow> parse_stop_loop n p out = Some (stops, q) \<Longrightarrow> stop_ok stops"
proof (induction n p out rule: parse_stop_loop.induct)
  case (2 n p out)
  show ?case
    using "2.prems" "2.IH" stop_ok_push json_string_nul_free
    by (auto simp: Let_def split: if_splits option.splits)
qed simp

lemma parse_stop_ok: "parse_stop p out = Some (stops, q) \<Longrightarrow> stop_ok stops"
  using parse_stop_loop_ok [OF stop_ok_clear [of out]] stop_ok_push [OF stop_ok_clear [of out]] stop_ok_clear [of out] json_string_nul_free
  by (auto simp: parse_stop_def Let_def simp del: parse_stop_loop.simps split: if_splits)

end
