(* ===== verification/ToolMemory.thy ===== *)
theory ToolMemory
  imports ServerStream "HOL-Library.Multiset"
begin

section \<open>Memory of tool calls\<close>

text \<open>
  The memory of \<open>sf37_server.c\<close> that finds, by the id of a tool call, the exact text the model wrote
  for it: entries in a list from the most to the least recently used, their texts shared in counted
  blocks with a chain of the entries that use them. Entries and blocks live in a store from
  addresses; \<open>malloc\<close> takes a fresh address and \<open>free\<close> removes it, and \<open>None\<close> is what the C program
  must not do: following a freed or null pointer, not returning, or exiting. The radix trees are
  maps; a tree that is not created yet is the empty map. \<open>raxInsert\<close> returns 0 when the key is
  already there. Sizes are those of a 64-bit machine; the sums of sizes of live allocations do not wrap.
\<close>

type_synonym addr = nat

datatype tool_memory_source = TOOL_MEMORY_RAM | TOOL_MEMORY_DISK

record tool_memory_block =
  tb_dsml :: bytes
  tb_bytes :: nat
  tb_refs :: int
  tb_seen :: u64
  tb_entries :: "addr option"

record tool_memory_entry =
  te_id :: bytes
  te_block :: addr
  te_bytes :: nat
  te_stamp :: u64
  te_source :: tool_memory_source
  te_prev :: "addr option"
  te_next :: "addr option"
  te_block_next :: "addr option"

record tool_memory =
  tm_e :: "addr \<Rightarrow> tool_memory_entry option"
  tm_b :: "addr \<Rightarrow> tool_memory_block option"
  tm_fresh :: addr
  tm_by_id :: "bytes \<Rightarrow> addr option"
  tm_by_block :: "bytes \<Rightarrow> addr option"
  tm_head :: "addr option"
  tm_tail :: "addr option"
  tm_entries :: int
  tm_max_entries :: int
  tm_bytes :: nat
  tm_max_bytes :: nat
  tm_clock :: u64
  tm_scan_clock :: u64

definition SIZEOF_BLOCK :: nat where "SIZEOF_BLOCK = 48"
definition SIZEOF_ENTRY :: nat where "SIZEOF_ENTRY = 64"
definition SF37_TOOL_MEMORY_DEFAULT_MAX_IDS :: int where "SF37_TOOL_MEMORY_DEFAULT_MAX_IDS = 100000"
definition SF37_TOOL_MEMORY_MAX_BYTES :: nat where "SF37_TOOL_MEMORY_MAX_BYTES = 512 * 1024 * 1024"

definition tool_memory_max_entries :: "tool_memory \<Rightarrow> int" where
  "tool_memory_max_entries m = (if tm_max_entries m > 0 then tm_max_entries m else SF37_TOOL_MEMORY_DEFAULT_MAX_IDS)"

definition tool_memory_max_bytes :: "tool_memory \<Rightarrow> nat" where
  "tool_memory_max_bytes m = (if tm_max_bytes m > 0 then tm_max_bytes m else SF37_TOOL_MEMORY_MAX_BYTES)"

text \<open>A store through a pointer.\<close>

definition upd_e :: "addr \<Rightarrow> (tool_memory_entry \<Rightarrow> tool_memory_entry) \<Rightarrow> tool_memory \<Rightarrow> tool_memory option" where
  "upd_e a f m = map_option (\<lambda>e. m\<lparr>tm_e := (tm_e m)(a \<mapsto> f e)\<rparr>) (tm_e m a)"

definition upd_b :: "addr \<Rightarrow> (tool_memory_block \<Rightarrow> tool_memory_block) \<Rightarrow> tool_memory \<Rightarrow> tool_memory option" where
  "upd_b a f m = map_option (\<lambda>b. m\<lparr>tm_b := (tm_b m)(a \<mapsto> f b)\<rparr>) (tm_b m a)"

definition tool_memory_link_head :: "addr \<Rightarrow> tool_memory \<Rightarrow> tool_memory option" where
  "tool_memory_link_head a m = do {
     m \<leftarrow> upd_e a (\<lambda>e. e\<lparr>te_prev := None, te_next := tm_head m\<rparr>) m;
     m \<leftarrow> (case tm_head m of
             Some h \<Rightarrow> upd_e h (\<lambda>e. e\<lparr>te_prev := Some a\<rparr>) m
           | None \<Rightarrow> Some (m\<lparr>tm_tail := Some a\<rparr>));
     Some (m\<lparr>tm_head := Some a\<rparr>)
   }"

definition tool_memory_unlink :: "addr \<Rightarrow> tool_memory \<Rightarrow> tool_memory option" where
  "tool_memory_unlink a m = do {
     e \<leftarrow> tm_e m a;
     m \<leftarrow> (case te_prev e of
             Some p \<Rightarrow> upd_e p (\<lambda>x. x\<lparr>te_next := te_next e\<rparr>) m
           | None \<Rightarrow> Some (m\<lparr>tm_head := te_next e\<rparr>));
     m \<leftarrow> (case te_next e of
             Some n \<Rightarrow> upd_e n (\<lambda>x. x\<lparr>te_prev := te_prev e\<rparr>) m
           | None \<Rightarrow> Some (m\<lparr>tm_tail := te_prev e\<rparr>));
     upd_e a (\<lambda>e. e\<lparr>te_prev := None, te_next := None\<rparr>) m
   }"

definition tool_memory_touch :: "addr \<Rightarrow> tool_memory \<Rightarrow> tool_memory option" where
  "tool_memory_touch a m = do {
     let m = m\<lparr>tm_clock := tm_clock m + 1\<rparr>;
     m \<leftarrow> upd_e a (\<lambda>e. e\<lparr>te_stamp := tm_clock m\<rparr>) m;
     if tm_head m = Some a then Some m
     else do { m \<leftarrow> tool_memory_unlink a m; tool_memory_link_head a m }
   }"

text \<open>The loop over pointers to pointers: \<open>None\<close> is the block's own cell, \<open>Some x\<close> the cell in
  entry \<open>x\<close>.\<close>

definition chain_cell :: "addr \<Rightarrow> addr option \<Rightarrow> tool_memory \<Rightarrow> addr option option" where
  "chain_cell b cell m =
     (case cell of None \<Rightarrow> map_option tb_entries (tm_b m b) | Some x \<Rightarrow> map_option te_block_next (tm_e m x))"

definition set_chain_cell :: "addr \<Rightarrow> addr option \<Rightarrow> addr option \<Rightarrow> tool_memory \<Rightarrow> tool_memory option" where
  "set_chain_cell b cell v m =
     (case cell of None \<Rightarrow> upd_b b (\<lambda>x. x\<lparr>tb_entries := v\<rparr>) m | Some x \<Rightarrow> upd_e x (\<lambda>e. e\<lparr>te_block_next := v\<rparr>) m)"

partial_function (option) block_unlink_loop :: "addr \<Rightarrow> addr \<Rightarrow> addr option \<Rightarrow> tool_memory \<Rightarrow> tool_memory option" where
  [code]: "block_unlink_loop b a cell m = Option.bind (chain_cell b cell m) (\<lambda>p.
     case p of
       None \<Rightarrow> Some m
     | Some x \<Rightarrow>
         if x = a
         then Option.bind (tm_e m x) (\<lambda>e.
              Option.bind (set_chain_cell b cell (te_block_next e) m) (upd_e x (\<lambda>e. e\<lparr>te_block_next := None\<rparr>)))
         else block_unlink_loop b a (Some x) m)"

definition tool_block_unlink_entry :: "addr \<Rightarrow> addr \<Rightarrow> tool_memory \<Rightarrow> tool_memory option" where
  "tool_block_unlink_entry b a m = block_unlink_loop b a None m"

definition tool_memory_find_block_locked :: "tool_memory \<Rightarrow> bytes \<Rightarrow> addr option" where
  "tool_memory_find_block_locked m dsml = (if dsml = [] then None else tm_by_block m dsml)"

definition tool_memory_get_block_locked :: "bytes \<Rightarrow> tool_memory \<Rightarrow> (addr \<times> tool_memory) option" where
  "tool_memory_get_block_locked dsml m =
     (case tool_memory_find_block_locked m dsml of
        Some b \<Rightarrow> Some (b, m)
      | None \<Rightarrow>
          let b = tm_fresh m;
              blk = \<lparr>tb_dsml = dsml, tb_bytes = length dsml + 1 + SIZEOF_BLOCK, tb_refs = 0, tb_seen = 0, tb_entries = None\<rparr>;
              m = m\<lparr>tm_fresh := b + 1, tm_b := (tm_b m)(b \<mapsto> blk)\<rparr>
          in if tm_by_block m dsml \<noteq> None then None
             else Some (b, m\<lparr>tm_by_block := (tm_by_block m)(dsml \<mapsto> b), tm_bytes := tm_bytes m + tb_bytes blk\<rparr>))"

definition sub_bytes :: "nat \<Rightarrow> tool_memory \<Rightarrow> tool_memory" where
  "sub_bytes n m = m\<lparr>tm_bytes := (if tm_bytes m \<ge> n then tm_bytes m - n else 0)\<rparr>"

definition tool_memory_release_block_locked :: "addr \<Rightarrow> tool_memory \<Rightarrow> tool_memory option" where
  "tool_memory_release_block_locked b m = do {
     m \<leftarrow> upd_b b (\<lambda>x. x\<lparr>tb_refs := tb_refs x - 1\<rparr>) m;
     blk \<leftarrow> tm_b m b;
     if tb_refs blk > 0 then Some m
     else let m = m\<lparr>tm_by_block := (tm_by_block m)(tb_dsml blk := None)\<rparr>;
              m = sub_bytes (tb_bytes blk) m
          in Some (m\<lparr>tm_b := (tm_b m)(b := None)\<rparr>)
   }"

definition tool_memory_remove_entry_locked :: "addr \<Rightarrow> tool_memory \<Rightarrow> tool_memory option" where
  "tool_memory_remove_entry_locked a m = do {
     e \<leftarrow> tm_e m a;
     let m = m\<lparr>tm_by_id := (tm_by_id m)(te_id e := None)\<rparr>;
     m \<leftarrow> tool_memory_unlink a m;
     m \<leftarrow> tool_block_unlink_entry (te_block e) a m;
     let m = sub_bytes (te_bytes e) m;
     let m = (if tm_entries m > 0 then m\<lparr>tm_entries := tm_entries m - 1\<rparr> else m);
     m \<leftarrow> tool_memory_release_block_locked (te_block e) m;
     Some (m\<lparr>tm_e := (tm_e m)(a := None)\<rparr>)
   }"

partial_function (option) tool_memory_prune_locked :: "tool_memory \<Rightarrow> tool_memory option" where
  [code]: "tool_memory_prune_locked m =
     (if tm_entries m > tool_memory_max_entries m \<or> tm_bytes m > tool_memory_max_bytes m
      then (case tm_tail m of
              None \<Rightarrow> Some m
            | Some a \<Rightarrow> Option.bind (tool_memory_remove_entry_locked a m) tool_memory_prune_locked)
      else Some m)"

definition tool_memory_find_entry_locked :: "tool_memory \<Rightarrow> bytes \<Rightarrow> addr option" where
  "tool_memory_find_entry_locked m ident = (if ident = [] then None else tm_by_id m ident)"

text \<open>The last part of \<open>tool_memory_put_locked\<close>: a new entry for a text.\<close>

definition put_new :: "bytes \<Rightarrow> bytes \<Rightarrow> tool_memory_source \<Rightarrow> tool_memory \<Rightarrow> tool_memory option" where
  "put_new ident dsml source m = do {
     (b, m) \<leftarrow> tool_memory_get_block_locked dsml m;
     let a = tm_fresh m;
     let m = m\<lparr>tm_fresh := a + 1, tm_clock := tm_clock m + 1\<rparr>;
     blk \<leftarrow> tm_b m b;
     let m = m\<lparr>tm_e := (tm_e m)(a \<mapsto>
       \<lparr>te_id = ident, te_block = b, te_bytes = length ident + 1 + SIZEOF_ENTRY, te_stamp = tm_clock m, te_source = source,
        te_prev = None, te_next = None, te_block_next = tb_entries blk\<rparr>)\<rparr>;
     m \<leftarrow> upd_b b (\<lambda>x. x\<lparr>tb_entries := Some a, tb_refs := tb_refs x + 1\<rparr>) m;
     if tm_by_id m ident \<noteq> None then None
     else do {
       m \<leftarrow> tool_memory_link_head a (m\<lparr>tm_by_id := (tm_by_id m)(ident \<mapsto> a)\<rparr>);
       tool_memory_prune_locked (m\<lparr>tm_entries := tm_entries m + 1, tm_bytes := tm_bytes m + (length ident + 1 + SIZEOF_ENTRY)\<rparr>)
     }
   }"

definition tool_memory_put_locked :: "bytes \<Rightarrow> bytes \<Rightarrow> tool_memory_source \<Rightarrow> tool_memory \<Rightarrow> tool_memory option" where
  "tool_memory_put_locked ident dsml source m =
     (if ident = [] \<or> dsml = [] then Some m
      else case tool_memory_find_entry_locked m ident of
        None \<Rightarrow> put_new ident dsml source m
      | Some old \<Rightarrow> do {
          e \<leftarrow> tm_e m old;
          blk \<leftarrow> tm_b m (te_block e);
          if tb_dsml blk = dsml then do {
            m \<leftarrow> (if source = TOOL_MEMORY_RAM then upd_e old (\<lambda>e. e\<lparr>te_source := TOOL_MEMORY_RAM\<rparr>) m else Some m);
            m \<leftarrow> tool_memory_touch old m;
            tool_memory_prune_locked m
          } else do {
            m \<leftarrow> tool_memory_remove_entry_locked old m;
            put_new ident dsml source m
          }
        })"

definition tool_memory_lookup_locked ::
  "bytes \<Rightarrow> tool_memory \<Rightarrow> ((bytes \<times> tool_memory_source \<times> addr) option \<times> tool_memory) option" where
  "tool_memory_lookup_locked ident m =
     (case tool_memory_find_entry_locked m ident of
        None \<Rightarrow> Some (None, m)
      | Some a \<Rightarrow> do {
          m \<leftarrow> tool_memory_touch a m;
          e \<leftarrow> tm_e m a;
          blk \<leftarrow> tm_b m (te_block e);
          Some (Some (tb_dsml blk, te_source e, te_block e), m)
        })"

partial_function (option) free_entries :: "tool_memory \<Rightarrow> tool_memory option" where
  [code]: "free_entries m =
     (case tm_tail m of
        None \<Rightarrow> Some m
      | Some a \<Rightarrow> Option.bind (tool_memory_remove_entry_locked a m) free_entries)"

text \<open>The memory before its first use, with the limits of the command line.\<close>

definition tool_memory_empty :: "int \<Rightarrow> nat \<Rightarrow> tool_memory" where
  "tool_memory_empty max_entries max_bytes =
     \<lparr>tm_e = Map.empty, tm_b = Map.empty, tm_fresh = 0, tm_by_id = Map.empty, tm_by_block = Map.empty,
      tm_head = None, tm_tail = None, tm_entries = 0, tm_max_entries = max_entries, tm_bytes = 0,
      tm_max_bytes = max_bytes, tm_clock = 0, tm_scan_clock = 0\<rparr>"

definition tool_memory_free :: "tool_memory \<Rightarrow> tool_memory option" where
  "tool_memory_free m = Option.bind (free_entries m) (\<lambda>m.
     Some ((tool_memory_empty 0 0)\<lparr>tm_e := tm_e m, tm_b := tm_b m, tm_fresh := tm_fresh m\<rparr>))"

subsection \<open>Linked lists in the store\<close>

definition head_opt :: "addr list \<Rightarrow> addr option \<Rightarrow> addr option" where
  "head_opt xs n = (case xs of [] \<Rightarrow> n | x # _ \<Rightarrow> Some x)"

definition last_opt :: "addr list \<Rightarrow> addr option \<Rightarrow> addr option" where
  "last_opt xs p = (if xs = [] then p else Some (last xs))"

lemma head_last_opt [simp]:
  "head_opt [] n = n" "head_opt (x # xs) n = Some x" "head_opt (xs @ ys) n = head_opt xs (head_opt ys n)"
  "last_opt [] p = p" "last_opt (xs @ ys) p = last_opt ys (last_opt xs p)" "last_opt (x # xs) p = last_opt xs (Some x)"
  by (simp_all add: head_opt_def last_opt_def split: list.splits)

fun dll :: "(addr \<Rightarrow> tool_memory_entry option) \<Rightarrow> addr option \<Rightarrow> addr list \<Rightarrow> addr option \<Rightarrow> bool" where
  "dll h p [] n \<longleftrightarrow> True"
| "dll h p (a # as) n \<longleftrightarrow> (\<exists>e. h a = Some e \<and> te_prev e = p \<and> te_next e = head_opt as n) \<and> dll h (Some a) as n"

lemma dll_append [simp]: "dll h p (xs @ ys) n \<longleftrightarrow> dll h p xs (head_opt ys n) \<and> dll h (last_opt xs p) ys n"
  by (induction xs arbitrary: p) auto

lemma dll_frame: "x \<notin> set xs \<Longrightarrow> dll (h(x := v)) p xs n = dll h p xs n"
  by (induction xs arbitrary: p) auto

lemma dll_cong:
  "(\<And>x. x \<in> set xs \<Longrightarrow> map_option (\<lambda>e. (te_prev e, te_next e)) (h' x) = map_option (\<lambda>e. (te_prev e, te_next e)) (h x)) \<Longrightarrow>
   dll h p xs n \<Longrightarrow> dll h' p xs n"
proof (induction xs arbitrary: p)
  case (Cons a xs)
  obtain e where "h a = Some e" "te_prev e = p" "te_next e = head_opt xs n"
    using Cons.prems(2) by auto
  moreover from this obtain e' where "h' a = Some e'" "te_prev e' = te_prev e" "te_next e' = te_next e"
    using Cons.prems(1) [of a] by auto
  ultimately show ?case
    using Cons by auto
qed simp

lemma dll_set_next:
  assumes "dll h p (xs @ [x]) n" and "distinct (xs @ [x])" and "h x = Some e"
  shows "dll (h(x \<mapsto> e\<lparr>te_next := n'\<rparr>)) p (xs @ [x]) n'"
  using assms by (simp add: dll_frame)

lemma dll_set_prev:
  assumes "dll h p (y # ys) n" and "distinct (y # ys)" and "h y = Some e"
  shows "dll (h(y \<mapsto> e\<lparr>te_prev := p'\<rparr>)) p' (y # ys) n"
  using assms by (simp add: dll_frame)

lemma dll_live: "dll h p xs n \<Longrightarrow> x \<in> set xs \<Longrightarrow> \<exists>e. h x = Some e"
  by (induction xs arbitrary: p) auto

fun chain :: "(addr \<Rightarrow> tool_memory_entry option) \<Rightarrow> addr option \<Rightarrow> addr list \<Rightarrow> bool" where
  "chain h c [] \<longleftrightarrow> c = None"
| "chain h c (x # xs) \<longleftrightarrow> c = Some x \<and> (\<exists>e. h x = Some e \<and> chain h (te_block_next e) xs)"

lemma chain_frame: "x \<notin> set xs \<Longrightarrow> chain (h(x := v)) c xs = chain h c xs"
  by (induction xs arbitrary: c) auto

lemma chain_cong:
  "(\<And>x. x \<in> set xs \<Longrightarrow> map_option te_block_next (h' x) = map_option te_block_next (h x)) \<Longrightarrow> chain h c xs \<Longrightarrow> chain h' c xs"
proof (induction xs arbitrary: c)
  case (Cons a xs)
  obtain e where "h a = Some e" "chain h (te_block_next e) xs"
    using Cons.prems(2) by auto
  moreover from this obtain e' where "h' a = Some e'" "te_block_next e' = te_block_next e"
    using Cons.prems(1) [of a] by auto
  ultimately show ?case
    using Cons by auto
qed simp

text \<open>Two stores whose entries differ in the links of the list only, or in the links of the chains only.\<close>

definition same_but_links :: "(addr \<Rightarrow> tool_memory_entry option) \<Rightarrow> (addr \<Rightarrow> tool_memory_entry option) \<Rightarrow> bool" where
  "same_but_links h h' \<longleftrightarrow> (\<forall>a. map_option (\<lambda>e. e\<lparr>te_prev := None, te_next := None\<rparr>) (h' a) =
     map_option (\<lambda>e. e\<lparr>te_prev := None, te_next := None\<rparr>) (h a))"

lemma same_but_links_refl [simp]: "same_but_links h h"
  by (simp add: same_but_links_def)

lemma same_but_links_trans: "same_but_links h h' \<Longrightarrow> same_but_links h' h'' \<Longrightarrow> same_but_links h h''"
  by (simp add: same_but_links_def)

lemma same_but_links_upd:
  "h a = Some e \<Longrightarrow> e'\<lparr>te_prev := None, te_next := None\<rparr> = e\<lparr>te_prev := None, te_next := None\<rparr> \<Longrightarrow> same_but_links h (h(a \<mapsto> e'))"
  by (simp add: same_but_links_def)

lemma same_but_links_entry:
  assumes "same_but_links h h'" and "h a = Some e"
  shows "\<exists>e'. h' a = Some e' \<and> e'\<lparr>te_prev := None, te_next := None\<rparr> = e\<lparr>te_prev := None, te_next := None\<rparr>"
proof -
  have "map_option (\<lambda>e. e\<lparr>te_prev := None, te_next := None\<rparr>) (h' a) = map_option (\<lambda>e. e\<lparr>te_prev := None, te_next := None\<rparr>) (h a)"
    using assms(1) by (simp add: same_but_links_def)
  then show ?thesis
    using assms(2) by (cases "h' a") auto
qed

text \<open>The list of the least recently used.\<close>

definition lru :: "tool_memory \<Rightarrow> addr list \<Rightarrow> bool" where
  "lru m L \<longleftrightarrow> distinct L \<and> dll (tm_e m) None L None \<and> tm_head m = head_opt L None \<and> tm_tail m = last_opt L None"

lemma unlink_lru:
  assumes "lru m (xs @ a # ys)"
  obtains h where "tool_memory_unlink a m = Some (m\<lparr>tm_e := h, tm_head := head_opt (xs @ ys) None, tm_tail := last_opt (xs @ ys) None\<rparr>)"
    and "dll h None (xs @ ys) None" and "same_but_links (tm_e m) h"
proof -
  have d: "distinct (xs @ a # ys)" "tm_head m = head_opt (xs @ a # ys) None" "tm_tail m = last_opt (xs @ a # ys) None"
    using assms by (simp_all add: lru_def)
  have l: "dll (tm_e m) None xs (Some a)" "dll (tm_e m) (Some a) ys None"
    using assms by (simp_all add: lru_def)
  obtain e where e: "tm_e m a = Some e" "te_prev e = last_opt xs None" "te_next e = head_opt ys None"
    using assms by (auto simp: lru_def)
  define step1 where "step1 = (case te_prev e of
             Some p \<Rightarrow> upd_e p (\<lambda>x. x\<lparr>te_next := te_next e\<rparr>) m
           | None \<Rightarrow> Some (m\<lparr>tm_head := te_next e\<rparr>))"
  obtain h1 where h1: "step1 = Some (m\<lparr>tm_e := h1, tm_head := head_opt (xs @ ys) None\<rparr>)" "dll h1 None xs (head_opt ys None)"
      "dll h1 (Some a) ys None" "same_but_links (tm_e m) h1" "map_option te_prev (h1 a) = Some (te_prev e)" "map_option te_next (h1 a) = Some (te_next e)"
  proof (cases xs rule: rev_cases)
    case Nil
    then show ?thesis
      using that [of "tm_e m"] e l by (simp add: step1_def)
  next
    case (snoc zs z)
    obtain f where f: "tm_e m z = Some f"
      using l(1) snoc by auto
    have "m\<lparr>tm_e := g, tm_head := head_opt (xs @ ys) None\<rparr> = m\<lparr>tm_e := g\<rparr>" for g
      using d(2) snoc by (intro tool_memory.equality) simp_all
    then have "step1 = Some (m\<lparr>tm_e := (tm_e m)(z \<mapsto> f\<lparr>te_next := head_opt ys None\<rparr>), tm_head := head_opt (xs @ ys) None\<rparr>)"
      using e f snoc by (simp add: step1_def upd_e_def)
    moreover have "same_but_links (tm_e m) ((tm_e m)(z \<mapsto> f\<lparr>te_next := head_opt ys None\<rparr>))"
      using f by (intro same_but_links_upd [where e = f]) simp_all
    ultimately show ?thesis
      using that [of "(tm_e m)(z \<mapsto> f\<lparr>te_next := head_opt ys None\<rparr>)"] dll_set_next [of "tm_e m" None zs z _ f] l d(1) snoc f e
      by (auto simp: dll_frame)
  qed
  define m1 where "m1 = m\<lparr>tm_e := h1, tm_head := head_opt (xs @ ys) None\<rparr>"
  define step2 where "step2 = (case te_next e of
             Some n \<Rightarrow> upd_e n (\<lambda>x. x\<lparr>te_prev := te_prev e\<rparr>) m1
           | None \<Rightarrow> Some (m1\<lparr>tm_tail := te_prev e\<rparr>))"
  obtain h2 where h2: "step2 = Some (m1\<lparr>tm_e := h2, tm_tail := last_opt (xs @ ys) None\<rparr>)" "dll h2 None xs (head_opt ys None)"
      "dll h2 (last_opt xs None) ys None" "same_but_links h1 h2"
  proof (cases ys)
    case Nil
    then show ?thesis
      using that [of h1] e h1 by (simp add: step2_def m1_def)
  next
    case (Cons z zs)
    obtain f where f: "h1 z = Some f"
      using h1(3) Cons by auto
    have "step2 = Some (m1\<lparr>tm_e := h1(z \<mapsto> f\<lparr>te_prev := last_opt xs None\<rparr>), tm_tail := last_opt (xs @ ys) None\<rparr>)"
      using e f Cons d(3) by (simp add: step2_def upd_e_def m1_def)
    moreover have "z \<notin> set xs"
      using d(1) Cons by auto
    moreover have "same_but_links h1 (h1(z \<mapsto> f\<lparr>te_prev := last_opt xs None\<rparr>))"
      using f by (intro same_but_links_upd [where e = f]) simp_all
    ultimately show ?thesis
      using that [of "h1(z \<mapsto> f\<lparr>te_prev := last_opt xs None\<rparr>)"] dll_set_prev [of h1 "Some a" z zs None f "last_opt xs None"] h1 d(1) Cons f
      by (auto simp: dll_frame)
  qed
  have "same_but_links (tm_e m) h2"
    using h1(4) h2(4) same_but_links_trans by blast
  then obtain e2 where e2: "h2 a = Some e2" "e2\<lparr>te_prev := None, te_next := None\<rparr> = e\<lparr>te_prev := None, te_next := None\<rparr>"
    using same_but_links_entry e(1) by blast
  define h where "h = h2(a \<mapsto> e2\<lparr>te_prev := None, te_next := None\<rparr>)"
  have "same_but_links (tm_e m) h"
    unfolding h_def by (rule same_but_links_trans [OF \<open>same_but_links (tm_e m) h2\<close>]) (rule same_but_links_upd [where h = h2 and a = a and e = e2], use e2(1) in simp_all)
  moreover have "dll h None (xs @ ys) None"
    using h2(2,3) d(1) by (simp add: h_def dll_frame)
  moreover have "tool_memory_unlink a m = Some (m\<lparr>tm_e := h, tm_head := head_opt (xs @ ys) None, tm_tail := last_opt (xs @ ys) None\<rparr>)"
    unfolding tool_memory_unlink_def e(1) bind.bind_lunit step1_def [symmetric] h1(1) m1_def [symmetric] step2_def [symmetric] h2(1)
    using e2(1) by (simp add: upd_e_def h_def m1_def)
  ultimately show ?thesis
    using that by blast
qed

lemma link_head_lru:
  assumes "lru m L" and "a \<notin> set L" and "tm_e m a = Some e"
  obtains h where "tool_memory_link_head a m = Some (m\<lparr>tm_e := h, tm_head := Some a, tm_tail := last_opt (a # L) None\<rparr>)"
    and "dll h None (a # L) None" and "same_but_links (tm_e m) h"
proof -
  define h1 where "h1 = (tm_e m)(a \<mapsto> e\<lparr>te_prev := None, te_next := tm_head m\<rparr>)"
  have s1: "same_but_links (tm_e m) h1"
    unfolding h1_def by (rule same_but_links_upd [where h = "tm_e m" and a = a and e = e]) (use assms(3) in simp_all)
  have l1: "dll h1 None L None" "tm_head m = head_opt L None" "distinct L" "tm_tail m = last_opt L None"
    using assms by (simp_all add: h1_def dll_frame lru_def)
  show ?thesis
  proof (cases L)
    case Nil
    then show ?thesis
      using that [of h1] s1 assms l1 by (simp add: tool_memory_link_head_def upd_e_def h1_def)
  next
    case (Cons z zs)
    obtain f where f: "h1 z = Some f"
      using l1(1) Cons by auto
    define h where "h = h1(z \<mapsto> f\<lparr>te_prev := Some a\<rparr>)"
    have za: "z \<noteq> a"
      using assms(2) Cons by auto
    have "same_but_links (tm_e m) h"
      unfolding h_def by (rule same_but_links_trans [OF s1]) (rule same_but_links_upd [where h = h1 and a = z and e = f], use f in simp_all)
    moreover have "dll h (Some a) L None"
      using dll_set_prev [of h1 None z zs None f "Some a"] l1 f Cons by (simp add: h_def)
    moreover have "tool_memory_link_head a m = Some (m\<lparr>tm_e := h, tm_head := Some a, tm_tail := last_opt (a # L) None\<rparr>)"
      using assms(3) f l1(2,4) Cons za by (simp add: tool_memory_link_head_def upd_e_def h1_def h_def)
    ultimately show ?thesis
      using that [of h] za l1(2) Cons by (simp add: h_def h1_def)
  qed
qed

definition same_but_chain :: "(addr \<Rightarrow> tool_memory_entry option) \<Rightarrow> (addr \<Rightarrow> tool_memory_entry option) \<Rightarrow> bool" where
  "same_but_chain h h' \<longleftrightarrow> (\<forall>a. map_option (\<lambda>e. e\<lparr>te_block_next := None\<rparr>) (h' a) = map_option (\<lambda>e. e\<lparr>te_block_next := None\<rparr>) (h a))"

lemma same_but_chain_refl [simp]: "same_but_chain h h"
  by (simp add: same_but_chain_def)

lemma same_but_chain_trans: "same_but_chain h h' \<Longrightarrow> same_but_chain h' h'' \<Longrightarrow> same_but_chain h h''"
  by (simp add: same_but_chain_def)

lemma same_but_chain_upd: "h a = Some e \<Longrightarrow> same_but_chain h (h(a \<mapsto> e\<lparr>te_block_next := v\<rparr>))"
  by (simp add: same_but_chain_def)

lemma same_but_chain_entry:
  assumes "same_but_chain h h'"
  shows "map_option te_id (h' a) = map_option te_id (h a)" and "map_option te_block (h' a) = map_option te_block (h a)"
    and "map_option te_bytes (h' a) = map_option te_bytes (h a)" and "map_option te_source (h' a) = map_option te_source (h a)"
    and "map_option te_prev (h' a) = map_option te_prev (h a)" and "map_option te_next (h' a) = map_option te_next (h a)"
    and "h' a = None \<longleftrightarrow> h a = None"
proof -
  have e: "map_option (\<lambda>e. e\<lparr>te_block_next := None\<rparr>) (h' a) = map_option (\<lambda>e. e\<lparr>te_block_next := None\<rparr>) (h a)"
    using assms by (simp add: same_but_chain_def)
  show "h' a = None \<longleftrightarrow> h a = None"
    using e by (cases "h a"; cases "h' a") auto
  show "map_option te_id (h' a) = map_option te_id (h a)" "map_option te_block (h' a) = map_option te_block (h a)"
    "map_option te_bytes (h' a) = map_option te_bytes (h a)" "map_option te_source (h' a) = map_option te_source (h a)"
    "map_option te_prev (h' a) = map_option te_prev (h a)" "map_option te_next (h' a) = map_option te_next (h a)"
    using arg_cong [OF e, of "map_option te_id"] arg_cong [OF e, of "map_option te_block"] arg_cong [OF e, of "map_option te_bytes"]
      arg_cong [OF e, of "map_option te_source"] arg_cong [OF e, of "map_option te_prev"] arg_cong [OF e, of "map_option te_next"]
    by (simp_all add: option.map_comp o_def)
qed

text \<open>What the loop along a chain does to the cells: entry \<open>a\<close> is taken out, other chains are left alone.\<close>

lemma block_unlink_loop_chain:
  assumes "chain (tm_e m) c (us @ a # vs)" and "distinct (us @ a # vs)" and "chain_cell b cell m = Some c"
    and "\<And>x. cell = Some x \<Longrightarrow> x \<notin> set (us @ a # vs)"
  shows "\<exists>m' c'. block_unlink_loop b a cell m = Some m' \<and> m' = m\<lparr>tm_e := tm_e m', tm_b := tm_b m'\<rparr> \<and>
    chain_cell b cell m' = Some c' \<and> chain (tm_e m') c' (us @ vs) \<and> same_but_chain (tm_e m) (tm_e m') \<and>
    (\<forall>x. x \<notin> set (us @ [a]) \<longrightarrow> cell \<noteq> Some x \<longrightarrow> tm_e m' x = tm_e m x) \<and>
    tm_b m' = (case cell of None \<Rightarrow> (tm_b m)(b := map_option (\<lambda>k. k\<lparr>tb_entries := c'\<rparr>) (tm_b m b)) | Some _ \<Rightarrow> tm_b m)"
  using assms
proof (induction us arbitrary: c cell)
  case Nil
  then obtain e where e: "c = Some a" "tm_e m a = Some e" "chain (tm_e m) (te_block_next e) vs" "a \<notin> set vs"
    by auto
  show ?case
  proof (cases cell)
    case None
    obtain k where k: "tm_b m b = Some k" "tb_entries k = Some a"
      using Nil.prems(3) None e(1) by (auto simp: chain_cell_def)
    define m1 where "m1 = m\<lparr>tm_b := (tm_b m)(b \<mapsto> k\<lparr>tb_entries := te_block_next e\<rparr>), tm_e := (tm_e m)(a \<mapsto> e\<lparr>te_block_next := None\<rparr>)\<rparr>"
    have run: "block_unlink_loop b a cell m = Some m1"
      using Nil.prems(3) e k None by (subst block_unlink_loop.simps) (simp add: set_chain_cell_def upd_b_def upd_e_def m1_def)
    have "chain (tm_e m1) (te_block_next e) vs"
      using e(3,4) by (simp add: chain_frame m1_def)
    moreover have "same_but_chain (tm_e m) (tm_e m1)"
      using same_but_chain_upd [where h = "tm_e m" and a = a and e = e and v = None] e(2) by (simp add: m1_def)
    ultimately show ?thesis
      using run None k by (intro exI [of _ m1] exI [of _ "te_block_next e"]) (simp add: chain_cell_def, auto simp: m1_def)
  next
    case (Some x)
    obtain f where f: "tm_e m x = Some f" "te_block_next f = Some a"
      using Nil.prems(3) Some e(1) by (auto simp: chain_cell_def)
    have xa: "x \<noteq> a" "x \<notin> set vs"
      using Nil.prems(4) Some by auto
    define m1 where "m1 = m\<lparr>tm_e := (tm_e m)(x \<mapsto> f\<lparr>te_block_next := te_block_next e\<rparr>, a \<mapsto> e\<lparr>te_block_next := None\<rparr>)\<rparr>"
    have run: "block_unlink_loop b a cell m = Some m1"
      using Nil.prems(3) e f Some xa by (subst block_unlink_loop.simps) (simp add: set_chain_cell_def upd_e_def m1_def)
    have "same_but_chain ((tm_e m)(x \<mapsto> f\<lparr>te_block_next := te_block_next e\<rparr>)) (tm_e m1)"
      using same_but_chain_upd [of "(tm_e m)(x \<mapsto> f\<lparr>te_block_next := te_block_next e\<rparr>)" a e None] e(2) xa by (simp add: m1_def)
    then have "same_but_chain (tm_e m) (tm_e m1)"
      using same_but_chain_upd [where h = "tm_e m" and a = x and e = f] f(1) same_but_chain_trans by blast
    moreover have "chain (tm_e m1) (te_block_next e) vs"
      using e(3,4) xa(2) by (simp add: chain_frame m1_def)
    ultimately show ?thesis
      using run Some xa by (intro exI [of _ m1] exI [of _ "te_block_next e"]) (simp add: chain_cell_def, auto simp: m1_def)
  qed
next
  case (Cons x us)
  then obtain e where e: "c = Some x" "tm_e m x = Some e" "chain (tm_e m) (te_block_next e) (us @ a # vs)"
    by auto
  have x: "x \<notin> set (us @ a # vs)" "distinct (us @ a # vs)" "x \<noteq> a"
    using Cons.prems(2) by auto
  have "chain_cell b (Some x) m = Some (te_block_next e)"
    using e(2) by (simp add: chain_cell_def)
  from Cons.IH [OF e(3) x(2) this] x(1)
  obtain m' c' where m': "block_unlink_loop b a (Some x) m = Some m'" "m' = m\<lparr>tm_e := tm_e m', tm_b := tm_b m'\<rparr>"
      "chain_cell b (Some x) m' = Some c'" "chain (tm_e m') c' (us @ vs)" "same_but_chain (tm_e m) (tm_e m')"
      "\<forall>y. y \<notin> set (us @ [a]) \<longrightarrow> Some x \<noteq> Some y \<longrightarrow> tm_e m' y = tm_e m y" "tm_b m' = tm_b m"
    by auto
  have run: "block_unlink_loop b a cell m = Some m'"
    using m'(1) Cons.prems(3) e(1) x(3) by (subst block_unlink_loop.simps) simp
  have "chain (tm_e m') (Some x) (x # us @ vs)"
    using m'(3,4) by (auto simp: chain_cell_def)
  moreover have "chain_cell b cell m' = Some (Some x)"
  proof (cases cell)
    case None
    then show ?thesis
      using Cons.prems(3) e(1) m'(7) by (simp add: chain_cell_def)
  next
    case (Some y)
    then have "tm_e m' y = tm_e m y"
      using m'(6) Cons.prems(4) by auto
    then show ?thesis
      using Cons.prems(3) e(1) Some by (simp add: chain_cell_def)
  qed
  moreover have "tm_b m' = (case cell of None \<Rightarrow> (tm_b m)(b := map_option (\<lambda>k. k\<lparr>tb_entries := Some x\<rparr>) (tm_b m b)) | Some _ \<Rightarrow> tm_b m)"
  proof (cases cell)
    case None
    then obtain k where "tm_b m b = Some k" "tb_entries k = Some x"
      using Cons.prems(3) e(1) by (auto simp: chain_cell_def)
    then have "(tm_b m)(b := map_option (\<lambda>k. k\<lparr>tb_entries := Some x\<rparr>) (tm_b m b)) = tm_b m"
      by (auto intro!: ext)
    then show ?thesis
      using None m'(7) by simp
  qed (simp add: m'(7))
  ultimately show ?case
    using run m' by (intro exI [of _ m'] exI [of _ "Some x"]) auto
qed

lemma block_unlink_chain:
  assumes "tm_b m b = Some k" and "chain (tm_e m) (tb_entries k) (us @ a # vs)" and "distinct (us @ a # vs)"
  obtains h c where "tool_block_unlink_entry b a m = Some (m\<lparr>tm_e := h, tm_b := (tm_b m)(b \<mapsto> k\<lparr>tb_entries := c\<rparr>)\<rparr>)"
    and "chain h c (us @ vs)" and "same_but_chain (tm_e m) h" and "\<forall>x. x \<notin> set (us @ [a]) \<longrightarrow> h x = tm_e m x"
proof -
  have "chain_cell b None m = Some (tb_entries k)"
    using assms(1) by (simp add: chain_cell_def)
  from block_unlink_loop_chain [OF assms(2,3) this]
  obtain m' c' where m': "block_unlink_loop b a None m = Some m'" "m' = m\<lparr>tm_e := tm_e m', tm_b := tm_b m'\<rparr>"
      "chain (tm_e m') c' (us @ vs)" "same_but_chain (tm_e m) (tm_e m')" "\<forall>x. x \<notin> set (us @ [a]) \<longrightarrow> tm_e m' x = tm_e m x"
      "tm_b m' = (tm_b m)(b := map_option (\<lambda>k. k\<lparr>tb_entries := c'\<rparr>) (tm_b m b))"
    by auto
  have "m' = m\<lparr>tm_e := tm_e m', tm_b := (tm_b m)(b \<mapsto> k\<lparr>tb_entries := c'\<rparr>)\<rparr>"
    using m'(2,6) assms(1) by simp
  then show ?thesis
    using that [where h = "tm_e m'" and c = c'] m' by (simp add: tool_block_unlink_entry_def)
qed

subsection \<open>The invariant and what the memory stands for\<close>

definition attrs :: "tool_memory_entry \<Rightarrow> bytes \<times> addr \<times> nat \<times> tool_memory_source" where
  "attrs e = (te_id e, te_block e, te_bytes e, te_source e)"

lemma attrs_links: "same_but_links h h' \<Longrightarrow> map_option attrs (h' a) = map_option attrs (h a)"
  "same_but_links h h' \<Longrightarrow> map_option te_block_next (h' a) = map_option te_block_next (h a)"
proof -
  assume "same_but_links h h'"
  then have e: "map_option (\<lambda>e. e\<lparr>te_prev := None, te_next := None\<rparr>) (h' a) = map_option (\<lambda>e. e\<lparr>te_prev := None, te_next := None\<rparr>) (h a)"
    by (simp add: same_but_links_def)
  show "map_option attrs (h' a) = map_option attrs (h a)" "map_option te_block_next (h' a) = map_option te_block_next (h a)"
    using arg_cong [OF e, of "map_option attrs"] arg_cong [OF e, of "map_option te_block_next"]
    by (simp_all add: option.map_comp o_def attrs_def [abs_def])
qed

lemma attrs_chain: "same_but_chain h h' \<Longrightarrow> map_option attrs (h' a) = map_option attrs (h a)"
  "same_but_chain h h' \<Longrightarrow> map_option (\<lambda>e. (te_prev e, te_next e)) (h' a) = map_option (\<lambda>e. (te_prev e, te_next e)) (h a)"
proof -
  assume "same_but_chain h h'"
  then have e: "map_option (\<lambda>e. e\<lparr>te_block_next := None\<rparr>) (h' a) = map_option (\<lambda>e. e\<lparr>te_block_next := None\<rparr>) (h a)"
    by (simp add: same_but_chain_def)
  show "map_option attrs (h' a) = map_option attrs (h a)"
    "map_option (\<lambda>e. (te_prev e, te_next e)) (h' a) = map_option (\<lambda>e. (te_prev e, te_next e)) (h a)"
    using arg_cong [OF e, of "map_option attrs"] arg_cong [OF e, of "map_option (\<lambda>e. (te_prev e, te_next e))"]
    by (simp_all add: option.map_comp o_def attrs_def [abs_def])
qed

lemma attrs_entry: "map_option attrs (h' a) = map_option attrs (h a) \<Longrightarrow> h a = Some e \<Longrightarrow>
  \<exists>e'. h' a = Some e' \<and> te_id e' = te_id e \<and> te_block e' = te_block e \<and> te_bytes e' = te_bytes e \<and> te_source e' = te_source e"
  by (cases "h' a") (auto simp: attrs_def)

text \<open>What one entry stands for, and the size of a list of such.\<close>

type_synonym call_text = "bytes \<times> bytes \<times> tool_memory_source"

definition entry_view :: "tool_memory \<Rightarrow> addr \<Rightarrow> call_text" where
  "entry_view m a = (let e = the (tm_e m a) in (te_id e, tb_dsml (the (tm_b m (te_block e))), te_source e))"

definition memory_bytes :: "call_text list \<Rightarrow> nat" where
  "memory_bytes V = sum_list (map (\<lambda>(i, d, s). length i + 1 + SIZEOF_ENTRY) V) +
     (\<Sum>d\<in>(fst \<circ> snd) ` set V. length d + 1 + SIZEOF_BLOCK)"

definition id_inv :: "tool_memory \<Rightarrow> bool" where
  "id_inv m \<longleftrightarrow> (\<forall>i a. tm_by_id m i = Some a \<longleftrightarrow> (\<exists>e. tm_e m a = Some e \<and> te_id e = i)) \<and>
     (\<forall>a e. tm_e m a = Some e \<longrightarrow> te_id e \<noteq> [] \<and> te_bytes e = length (te_id e) + 1 + SIZEOF_ENTRY)"

definition block_inv :: "tool_memory \<Rightarrow> (addr \<Rightarrow> addr list) \<Rightarrow> bool" where
  "block_inv m C \<longleftrightarrow> (\<forall>d b. tm_by_block m d = Some b \<longleftrightarrow> (\<exists>k. tm_b m b = Some k \<and> tb_dsml k = d)) \<and>
     (\<forall>a e. tm_e m a = Some e \<longrightarrow> tm_b m (te_block e) \<noteq> None \<and> a \<in> set (C (te_block e))) \<and>
     (\<forall>b k. tm_b m b = Some k \<longrightarrow> tb_dsml k \<noteq> [] \<and> tb_bytes k = length (tb_dsml k) + 1 + SIZEOF_BLOCK \<and>
        C b \<noteq> [] \<and> distinct (C b) \<and> chain (tm_e m) (tb_entries k) (C b) \<and> tb_refs k = int (length (C b)) \<and>
        (\<forall>a\<in>set (C b). \<exists>e. tm_e m a = Some e \<and> te_block e = b))"

definition tm_inv :: "tool_memory \<Rightarrow> addr list \<Rightarrow> (addr \<Rightarrow> addr list) \<Rightarrow> bool" where
  "tm_inv m L C \<longleftrightarrow> lru m L \<and> (\<forall>a. tm_e m a \<noteq> None \<longleftrightarrow> a \<in> set L) \<and> id_inv m \<and> block_inv m C \<and>
     tm_entries m = int (length L) \<and> tm_bytes m = memory_bytes (map (entry_view m) L) \<and>
     (\<forall>a. tm_e m a \<noteq> None \<longrightarrow> a < tm_fresh m) \<and> (\<forall>b. tm_b m b \<noteq> None \<longrightarrow> b < tm_fresh m) \<and>
     (\<forall>b k. tm_b m b = Some k \<longrightarrow> tb_seen k \<le> tm_scan_clock m)"

lemma block_invD:
  assumes "block_inv m C"
  shows "tm_by_block m d = Some b \<longleftrightarrow> (\<exists>k. tm_b m b = Some k \<and> tb_dsml k = d)"
    and "tm_e m a = Some e \<Longrightarrow> tm_b m (te_block e) \<noteq> None \<and> a \<in> set (C (te_block e))"
    and "tm_b m b = Some k \<Longrightarrow> tb_dsml k \<noteq> [] \<and> tb_bytes k = length (tb_dsml k) + 1 + SIZEOF_BLOCK"
    and "tm_b m b = Some k \<Longrightarrow> C b \<noteq> [] \<and> distinct (C b) \<and> chain (tm_e m) (tb_entries k) (C b) \<and> tb_refs k = int (length (C b))"
    and "tm_b m b = Some k \<Longrightarrow> a \<in> set (C b) \<Longrightarrow> \<exists>e. tm_e m a = Some e \<and> te_block e = b"
  using assms unfolding block_inv_def by blast+

text \<open>Taking an entry out changes the sum by its own size, and by that of its text when no other
  entry has it.\<close>

lemma memory_bytes_remove:
  "memory_bytes (xs @ (i, d, s) # ys) =
     memory_bytes (xs @ ys) + (length i + 1 + SIZEOF_ENTRY) +
     (if d \<in> (fst \<circ> snd) ` set (xs @ ys) then 0 else length d + 1 + SIZEOF_BLOCK)"
proof -
  have "(fst \<circ> snd) ` set (xs @ (i, d, s) # ys) = insert d ((fst \<circ> snd) ` set (xs @ ys))"
    by auto
  then show ?thesis
    by (simp add: memory_bytes_def insert_absorb del: set_append image_insert)
qed

definition same_limits :: "tool_memory \<Rightarrow> tool_memory \<Rightarrow> bool" where
  "same_limits m m' \<longleftrightarrow> tm_max_entries m' = tm_max_entries m \<and> tm_max_bytes m' = tm_max_bytes m \<and>
     tm_scan_clock m' = tm_scan_clock m"

lemma sub_bytes_eq: "sub_bytes n m = m\<lparr>tm_bytes := tm_bytes m - n\<rparr>"
  by (simp add: sub_bytes_def)

text \<open>The state after an entry is removed.\<close>

lemma remove_run:
  assumes "tm_inv m (xs @ a # ys) C" and "tm_e m a = Some e" and "tm_b m (te_block e) = Some k"
    and "C (te_block e) = us @ a # vs"
  obtains h c where
    "tool_memory_remove_entry_locked a m = Some (m\<lparr>
       tm_by_id := (tm_by_id m)(te_id e := None), tm_e := h(a := None),
       tm_head := head_opt (xs @ ys) None, tm_tail := last_opt (xs @ ys) None,
       tm_bytes := tm_bytes m - te_bytes e - (if us @ vs = [] then tb_bytes k else 0), tm_entries := tm_entries m - 1,
       tm_by_block := (if us @ vs = [] then (tm_by_block m)(tb_dsml k := None) else tm_by_block m),
       tm_b := (if us @ vs = [] then (tm_b m)(te_block e := None)
                else (tm_b m)(te_block e \<mapsto> k\<lparr>tb_entries := c, tb_refs := tb_refs k - 1\<rparr>))\<rparr>)"
    and "dll h None (xs @ ys) None" and "chain h c (us @ vs)" and "\<forall>x. map_option attrs (h x) = map_option attrs (tm_e m x)"
    and "\<forall>x. x \<notin> set (us @ [a]) \<longrightarrow> map_option te_block_next (h x) = map_option te_block_next (tm_e m x)"
proof -
  let ?b = "te_block e"
  have inv: "lru m (xs @ a # ys)" "block_inv m C" "tm_entries m = int (length (xs @ a # ys))"
    using assms(1) by (simp_all add: tm_inv_def)
  have k: "distinct (us @ a # vs)" "chain (tm_e m) (tb_entries k) (us @ a # vs)" "tb_refs k = int (length (us @ a # vs))"
    using block_invD(4) [OF inv(2) assms(3)] assms(4) by simp_all
  define m1 where "m1 = m\<lparr>tm_by_id := (tm_by_id m)(te_id e := None)\<rparr>"
  have "lru m1 (xs @ a # ys)"
    using inv(1) by (simp add: lru_def m1_def)
  then obtain h1 where h1: "tool_memory_unlink a m1 = Some (m1\<lparr>tm_e := h1, tm_head := head_opt (xs @ ys) None, tm_tail := last_opt (xs @ ys) None\<rparr>)"
      "dll h1 None (xs @ ys) None" "same_but_links (tm_e m) h1"
    by (rule unlink_lru) (simp add: m1_def)
  define m2 where "m2 = m1\<lparr>tm_e := h1, tm_head := head_opt (xs @ ys) None, tm_tail := last_opt (xs @ ys) None\<rparr>"
  have c1: "chain (tm_e m2) (tb_entries k) (us @ a # vs)" and b2: "tm_b m2 ?b = Some k"
    using chain_cong [OF attrs_links(2) [OF h1(3)] k(2)] assms(3) by (simp_all add: m2_def m1_def)
  have m2h: "tm_e m2 = h1"
    by (simp add: m2_def)
  obtain h2 c where h2: "tool_block_unlink_entry ?b a m2 = Some (m2\<lparr>tm_e := h2, tm_b := (tm_b m2)(?b \<mapsto> k\<lparr>tb_entries := c\<rparr>)\<rparr>)"
      "chain h2 c (us @ vs)" "same_but_chain h1 h2" "\<forall>x. x \<notin> set (us @ [a]) \<longrightarrow> h2 x = h1 x"
    by (rule block_unlink_chain [OF b2 c1 k(1), unfolded m2h])
  have ent: "tm_entries m > 0"
    using inv(3) by simp
  define one where "one \<longleftrightarrow> us @ vs = []"
  have refs: "tb_refs k - 1 > 0 \<longleftrightarrow> \<not> one"
    unfolding one_def using k(3) by (cases us; cases vs) auto
  have "tool_memory_remove_entry_locked a m = Some (m\<lparr>
       tm_by_id := (tm_by_id m)(te_id e := None), tm_e := h2(a := None),
       tm_head := head_opt (xs @ ys) None, tm_tail := last_opt (xs @ ys) None,
       tm_bytes := tm_bytes m - te_bytes e - (if us @ vs = [] then tb_bytes k else 0), tm_entries := tm_entries m - 1,
       tm_by_block := (if us @ vs = [] then (tm_by_block m)(tb_dsml k := None) else tm_by_block m),
       tm_b := (if us @ vs = [] then (tm_b m)(?b := None)
                else (tm_b m)(?b \<mapsto> k\<lparr>tb_entries := c, tb_refs := tb_refs k - 1\<rparr>))\<rparr>)"
    unfolding tool_memory_remove_entry_locked_def assms(2) bind.bind_lunit Let_def m1_def [symmetric] h1(1) m2_def [symmetric] h2(1)
      one_def [symmetric]
    using ent refs
    by (cases one) (simp_all add: m2_def m1_def sub_bytes_eq tool_memory_release_block_locked_def upd_b_def Let_def not_less)
  moreover have "dll h2 None (xs @ ys) None"
    using dll_cong [OF attrs_chain(2) [OF h2(3)] h1(2)] .
  moreover have "map_option attrs (h2 x) = map_option attrs (tm_e m x)" for x
    using attrs_chain(1) [OF h2(3)] attrs_links(1) [OF h1(3)] by simp
  moreover have "map_option te_block_next (h2 x) = map_option te_block_next (tm_e m x)" if "x \<notin> set (us @ [a])" for x
    using h2(4) attrs_links(2) [OF h1(3)] that by simp
  ultimately show ?thesis
    using that h2(2) by blast
qed

definition same_entry :: "tool_memory_entry \<Rightarrow> tool_memory_entry \<Rightarrow> bool" where
  "same_entry e e' \<longleftrightarrow> attrs e' = attrs e"

lemma same_entryD: "same_entry e e' \<Longrightarrow> te_id e' = te_id e \<and> te_block e' = te_block e \<and> te_bytes e' = te_bytes e \<and> te_source e' = te_source e"
  by (simp add: same_entry_def attrs_def)

lemma attrs_both:
  assumes "map_option attrs (h' x) = map_option attrs (h x)"
  shows "h' x = None \<longleftrightarrow> h x = None" and "h' x = Some e' \<Longrightarrow> \<exists>e. h x = Some e \<and> same_entry e e'"
    and "h x = Some e \<Longrightarrow> \<exists>e'. h' x = Some e' \<and> same_entry e e'"
  using assms by (cases "h x"; cases "h' x"; simp add: same_entry_def)+

lemma id_inv_remove:
  assumes "id_inv m" and "tm_e m a = Some e" and "\<And>x. map_option attrs (h x) = map_option attrs (tm_e m x)"
    and "tm_e m' = h(a := None)" and "tm_by_id m' = (tm_by_id m)(te_id e := None)"
  shows "id_inv m'"
proof -
  have ids: "tm_by_id m i = Some x \<longleftrightarrow> (\<exists>e. tm_e m x = Some e \<and> te_id e = i)" for i x
    using assms(1) by (simp add: id_inv_def)
  have e: "te_id f \<noteq> [] \<and> te_bytes f = length (te_id f) + 1 + SIZEOF_ENTRY" if "tm_e m x = Some f" for f x
    using assms(1) that unfolding id_inv_def by blast
  show ?thesis
    unfolding id_inv_def
  proof (intro conjI allI impI)
    fix i x
    show "tm_by_id m' i = Some x \<longleftrightarrow> (\<exists>f. tm_e m' x = Some f \<and> te_id f = i)"
    proof (cases "x = a")
      case True
      then show ?thesis
        using assms(2,4,5) ids [of i a] by auto
    next
      case False
      have "(\<exists>f. tm_e m' x = Some f \<and> te_id f = i) \<longleftrightarrow> (\<exists>f. tm_e m x = Some f \<and> te_id f = i)"
        using attrs_both(2,3) [where h = "tm_e m" and h' = h and x = x, OF assms(3)] False assms(4) same_entryD by fastforce
      moreover have "tm_by_id m' i = Some x \<longleftrightarrow> tm_by_id m i = Some x"
        using False assms(2,5) ids [of "te_id e" a] by auto
      ultimately show ?thesis
        using ids by simp
    qed
  next
    fix x f
    assume f: "tm_e m' x = Some f"
    then have "x \<noteq> a" "h x = Some f"
      using assms(4) by (auto split: if_splits)
    then obtain f0 where "tm_e m x = Some f0" "same_entry f0 f"
      using attrs_both(2) [where h = "tm_e m" and h' = h, OF assms(3)] by blast
    then show "te_id f \<noteq> []" "te_bytes f = length (te_id f) + 1 + SIZEOF_ENTRY"
      using e same_entryD by fastforce+
  qed
qed

lemma block_inv_remove:
  assumes "block_inv m C" and "tm_e m a = Some e" and "tm_b m (te_block e) = Some k" and "C (te_block e) = us @ a # vs"
    and "\<And>x. map_option attrs (h x) = map_option attrs (tm_e m x)" and "chain h c (us @ vs)"
    and "\<And>x. x \<notin> set (us @ [a]) \<Longrightarrow> map_option te_block_next (h x) = map_option te_block_next (tm_e m x)"
    and "tm_e m' = h(a := None)"
    and "tm_by_block m' = (if us @ vs = [] then (tm_by_block m)(tb_dsml k := None) else tm_by_block m)"
    and "tm_b m' = (if us @ vs = [] then (tm_b m)(te_block e := None)
                else (tm_b m)(te_block e \<mapsto> k\<lparr>tb_entries := c, tb_refs := tb_refs k - 1\<rparr>))"
  shows "block_inv m' (C(te_block e := us @ vs))"
proof -
  let ?b = "te_block e"
  note inv = block_invD [OF assms(1)]
  have k: "distinct (us @ a # vs)" "tb_refs k = int (length (us @ a # vs))" "tb_dsml k \<noteq> []"
      "tb_bytes k = length (tb_dsml k) + 1 + SIZEOF_BLOCK"
    using inv(3,4) [OF assms(3)] assms(4) by simp_all
  have anot: "a \<notin> set (us @ vs)"
    using k(1) by auto
  have old: "\<exists>f0. tm_e m x = Some f0 \<and> same_entry f0 f" if "tm_e m' x = Some f" for x f
    using that assms(8) attrs_both(2) [where h = "tm_e m" and h' = h and x = x, OF assms(5)] by (auto split: if_splits)
  show ?thesis
    unfolding block_inv_def
  proof (intro conjI allI impI)
    fix d b
    show "tm_by_block m' d = Some b \<longleftrightarrow> (\<exists>k. tm_b m' b = Some k \<and> tb_dsml k = d)"
    proof (cases "us @ vs = []")
      case True
      then show ?thesis
        using assms(3,9,10) inv(1) [of d b] inv(1) [of d ?b] by auto
    next
      case False
      then show ?thesis
        using assms(3,9,10) inv(1) [of d b] by auto
    qed
  next
    fix x f
    assume f: "tm_e m' x = Some f"
    then have xa: "x \<noteq> a"
      using assms(8) by auto
    obtain f0 where f0: "tm_e m x = Some f0" "same_entry f0 f"
      using old [OF f] by blast
    then have f1: "tm_b m (te_block f) \<noteq> None" "x \<in> set (C (te_block f))"
      using inv(2) [OF f0(1)] same_entryD by fastforce+
    then have "us @ vs \<noteq> []" if "te_block f = ?b"
      using that assms(4) xa by auto
    then show "tm_b m' (te_block f) \<noteq> None" "x \<in> set ((C(?b := us @ vs)) (te_block f))"
      using f1 assms(4,10) xa by auto
  next
    fix b k'
    assume b: "tm_b m' b = Some k'"
    have chains: "chain (tm_e m') (tb_entries k') ((C(?b := us @ vs)) b) \<and> tb_dsml k' \<noteq> [] \<and>
        tb_bytes k' = length (tb_dsml k') + 1 + SIZEOF_BLOCK \<and> (C(?b := us @ vs)) b \<noteq> [] \<and> distinct ((C(?b := us @ vs)) b) \<and>
        tb_refs k' = int (length ((C(?b := us @ vs)) b)) \<and>
        (\<forall>x\<in>set ((C(?b := us @ vs)) b). \<exists>f. tm_e m' x = Some f \<and> te_block f = b)"
    proof (cases "b = ?b")
      case True
      then have ne: "us @ vs \<noteq> []" and k': "k' = k\<lparr>tb_entries := c, tb_refs := tb_refs k - 1\<rparr>"
        using b assms(10) by (auto split: if_splits)
      have "\<exists>f. tm_e m' x = Some f \<and> te_block f = ?b" if "x \<in> set (us @ vs)" for x
      proof -
        obtain f0 where "tm_e m x = Some f0" "te_block f0 = ?b"
          using inv(5) [OF assms(3), of x] assms(4) \<open>x \<in> set (us @ vs)\<close> by auto
        moreover have "x \<noteq> a"
          using anot that by auto
        ultimately show ?thesis
          using attrs_both(3) [where h = "tm_e m" and h' = h, OF assms(5)] same_entryD assms(8) by fastforce
      qed
      then show ?thesis
        using True k k' ne assms(6,8) anot by (simp add: chain_frame)
    next
      case False
      then have b0: "tm_b m b = Some k'"
        using b assms(10) by (auto split: if_splits)
      note kb = inv(3) [OF b0] inv(4) [OF b0]
      have dis: "x \<notin> set (us @ a # vs)" if "x \<in> set (C b)" for x
        using inv(5) [OF b0 that] inv(5) [OF assms(3), of x] assms(4) False by auto
      have "chain h (tb_entries k') (C b)"
        by (rule chain_cong [where h = "tm_e m"]) (use assms(7) dis kb in auto)
      moreover have "a \<notin> set (C b)"
        using dis [of a] by auto
      ultimately have "chain (tm_e m') (tb_entries k') (C b)"
        using assms(8) by (simp add: chain_frame)
      moreover have "\<exists>f. tm_e m' x = Some f \<and> te_block f = b" if xin: "x \<in> set (C b)" for x
      proof -
        obtain f0 where "tm_e m x = Some f0" "te_block f0 = b"
          using inv(5) [OF b0 xin] by blast
        moreover have "x \<noteq> a"
          using dis [OF xin] by auto
        ultimately show ?thesis
          using attrs_both(3) [where h = "tm_e m" and h' = h, OF assms(5)] same_entryD assms(8) by fastforce
      qed
      ultimately show ?thesis
        using kb False by simp
    qed
    then show "tb_dsml k' \<noteq> []" "tb_bytes k' = length (tb_dsml k') + 1 + SIZEOF_BLOCK" "(C(?b := us @ vs)) b \<noteq> []"
      "distinct ((C(?b := us @ vs)) b)" "chain (tm_e m') (tb_entries k') ((C(?b := us @ vs)) b)"
      "tb_refs k' = int (length ((C(?b := us @ vs)) b))"
      "\<forall>x\<in>set ((C(?b := us @ vs)) b). \<exists>f. tm_e m' x = Some f \<and> te_block f = b"
      by blast+
  qed
qed

lemma entry_view_same:
  assumes "tm_e m x = Some e" and "tm_e m' x = Some e'" and "same_entry e e'"
    and "map_option tb_dsml (tm_b m' (te_block e)) = map_option tb_dsml (tm_b m (te_block e))" and "tm_b m (te_block e) \<noteq> None"
  shows "entry_view m' x = entry_view m x"
  using assms same_entryD [OF assms(3)] by (cases "tm_b m' (te_block e)") (auto simp: entry_view_def Let_def)

lemma remove_inv:
  assumes "tm_inv m (xs @ a # ys) C"
  shows "\<exists>m' C'. tool_memory_remove_entry_locked a m = Some m' \<and> tm_inv m' (xs @ ys) C' \<and>
    map (entry_view m') (xs @ ys) = map (entry_view m) (xs @ ys) \<and> same_limits m m' \<and> tm_fresh m' = tm_fresh m"
proof -
  have inv: "lru m (xs @ a # ys)" "\<And>x. tm_e m x \<noteq> None \<longleftrightarrow> x \<in> set (xs @ a # ys)" "id_inv m" "block_inv m C"
      "tm_entries m = int (length (xs @ a # ys))" "tm_bytes m = memory_bytes (map (entry_view m) (xs @ a # ys))"
      "\<And>x. tm_e m x \<noteq> None \<Longrightarrow> x < tm_fresh m" "\<And>b. tm_b m b \<noteq> None \<Longrightarrow> b < tm_fresh m"
      "\<And>b k. tm_b m b = Some k \<Longrightarrow> tb_seen k \<le> tm_scan_clock m"
    using assms unfolding tm_inv_def by blast+
  obtain e where e: "tm_e m a = Some e"
    using inv(2) [of a] by auto
  obtain k where k: "tm_b m (te_block e) = Some k" "a \<in> set (C (te_block e))"
    using block_invD(2) [OF inv(4) e] by auto
  obtain us vs where uv: "C (te_block e) = us @ a # vs"
    using k(2) by (meson split_list)
  obtain h c where run: "tool_memory_remove_entry_locked a m = Some (m\<lparr>
       tm_by_id := (tm_by_id m)(te_id e := None), tm_e := h(a := None),
       tm_head := head_opt (xs @ ys) None, tm_tail := last_opt (xs @ ys) None,
       tm_bytes := tm_bytes m - te_bytes e - (if us @ vs = [] then tb_bytes k else 0), tm_entries := tm_entries m - 1,
       tm_by_block := (if us @ vs = [] then (tm_by_block m)(tb_dsml k := None) else tm_by_block m),
       tm_b := (if us @ vs = [] then (tm_b m)(te_block e := None)
                else (tm_b m)(te_block e \<mapsto> k\<lparr>tb_entries := c, tb_refs := tb_refs k - 1\<rparr>))\<rparr>)"
    and h: "dll h None (xs @ ys) None" "chain h c (us @ vs)" "\<forall>x. map_option attrs (h x) = map_option attrs (tm_e m x)"
      "\<forall>x. x \<notin> set (us @ [a]) \<longrightarrow> map_option te_block_next (h x) = map_option te_block_next (tm_e m x)"
    by (rule remove_run [OF assms e k(1) uv])
  define m' where "m' = m\<lparr>
       tm_by_id := (tm_by_id m)(te_id e := None), tm_e := h(a := None),
       tm_head := head_opt (xs @ ys) None, tm_tail := last_opt (xs @ ys) None,
       tm_bytes := tm_bytes m - te_bytes e - (if us @ vs = [] then tb_bytes k else 0), tm_entries := tm_entries m - 1,
       tm_by_block := (if us @ vs = [] then (tm_by_block m)(tb_dsml k := None) else tm_by_block m),
       tm_b := (if us @ vs = [] then (tm_b m)(te_block e := None)
                else (tm_b m)(te_block e \<mapsto> k\<lparr>tb_entries := c, tb_refs := tb_refs k - 1\<rparr>))\<rparr>"
  have f: "tm_e m' = h(a := None)" "tm_by_id m' = (tm_by_id m)(te_id e := None)"
      "tm_by_block m' = (if us @ vs = [] then (tm_by_block m)(tb_dsml k := None) else tm_by_block m)"
      "tm_b m' = (if us @ vs = [] then (tm_b m)(te_block e := None)
                else (tm_b m)(te_block e \<mapsto> k\<lparr>tb_entries := c, tb_refs := tb_refs k - 1\<rparr>))"
      "tm_entries m' = tm_entries m - 1" "tm_fresh m' = tm_fresh m" "same_limits m m'"
      "tm_bytes m' = tm_bytes m - te_bytes e - (if us @ vs = [] then tb_bytes k else 0)"
    by (simp_all add: m'_def same_limits_def)
  have dist: "distinct (xs @ a # ys)"
    using inv(1) by (simp add: lru_def)
  have lru: "lru m' (xs @ ys)"
    using dist h(1) by (simp add: lru_def m'_def dll_frame)
  have id: "id_inv m'"
    by (rule id_inv_remove [OF inv(3) e _ f(1,2)]) (use h(3) in simp)
  have blk: "block_inv m' (C(te_block e := us @ vs))"
    by (rule block_inv_remove [OF inv(4) e k(1) uv _ h(2) _ f(1,3,4)]) (use h(3,4) in simp_all)
  have dom: "tm_e m' x \<noteq> None \<longleftrightarrow> x \<in> set (xs @ ys)" for x
    using attrs_both(1) [where h = "tm_e m" and h' = h and x = x] h(3) inv(2) [of x] f(1) dist by auto
  have view: "entry_view m' x = entry_view m x" if xin: "x \<in> set (xs @ ys)" for x
  proof -
    obtain e0 where e0: "tm_e m x = Some e0"
      using inv(2) [of x] xin by auto
    moreover have xa: "x \<noteq> a"
      using xin dist by auto
    ultimately obtain e1 where e1: "tm_e m' x = Some e1" "same_entry e0 e1"
      using attrs_both(3) [where h = "tm_e m" and h' = h and x = x] h(3) f(1) by auto
    have live: "tm_b m (te_block e0) \<noteq> None" "x \<in> set (C (te_block e0))"
      using block_invD(2) [OF inv(4) e0] by simp_all
    have "map_option tb_dsml (tm_b m' (te_block e0)) = map_option tb_dsml (tm_b m (te_block e0))"
    proof (cases "te_block e0 = te_block e")
      case True
      then have "us @ vs \<noteq> []"
        using live(2) uv xa by auto
      then show ?thesis
        using True f(4) k(1) by simp
    qed (use f(4) in simp)
    then show ?thesis
      by (rule entry_view_same [OF e0 e1 _ live(1)])
  qed
  then have views: "map (entry_view m') (xs @ ys) = map (entry_view m) (xs @ ys)"
    by simp
  have va: "entry_view m a = (te_id e, tb_dsml k, te_source e)"
    using e k(1) by (simp add: entry_view_def)
  have conv: "(fst \<circ> snd) ` set (map (entry_view m) l) = (\<lambda>x. fst (snd (entry_view m x))) ` set l" for l
    by (simp add: image_image del: o_apply) (simp add: image_def)
  have shared: "tb_dsml k \<in> (fst \<circ> snd) ` set (map (entry_view m) (xs @ ys)) \<longleftrightarrow> us @ vs \<noteq> []"
  proof
    assume "tb_dsml k \<in> (fst \<circ> snd) ` set (map (entry_view m) (xs @ ys))"
    then obtain x where x: "x \<in> set (xs @ ys)" "fst (snd (entry_view m x)) = tb_dsml k"
      unfolding conv image_iff by metis
    obtain e0 where e0: "tm_e m x = Some e0"
      using inv(2) [of x] x(1) by auto
    obtain k0 where k0: "tm_b m (te_block e0) = Some k0" "x \<in> set (C (te_block e0))"
      using block_invD(2) [OF inv(4) e0] by auto
    then have "tb_dsml k0 = tb_dsml k"
      using x(2) e0 by (simp add: entry_view_def)
    then have "te_block e0 = te_block e"
      using block_invD(1) [OF inv(4), of "tb_dsml k"] k0(1) k(1) by (metis option.inject)
    moreover have "x \<noteq> a"
      using x(1) dist by auto
    ultimately show "us @ vs \<noteq> []"
      using k0(2) uv by auto
  next
    assume "us @ vs \<noteq> []"
    then obtain x where x: "x \<in> set (us @ vs)"
      by (cases "us @ vs") auto
    then obtain e0 where e0: "tm_e m x = Some e0" "te_block e0 = te_block e"
      using block_invD(5) [OF inv(4) k(1), of x] uv by auto
    have "x \<noteq> a"
      using x block_invD(4) [OF inv(4) k(1)] uv by auto
    then have "x \<in> set (xs @ ys)"
      using inv(2) [of x] e0(1) by auto
    moreover have "fst (snd (entry_view m x)) = tb_dsml k"
      using e0 k(1) by (simp add: entry_view_def)
    ultimately show "tb_dsml k \<in> (fst \<circ> snd) ` set (map (entry_view m) (xs @ ys))"
      unfolding conv image_iff by metis
  qed
  have bytes: "tm_bytes m' = memory_bytes (map (entry_view m') (xs @ ys))"
  proof -
    have "memory_bytes (map (entry_view m) (xs @ a # ys)) =
        memory_bytes (map (entry_view m) (xs @ ys)) + te_bytes e + (if us @ vs = [] then tb_bytes k else 0)"
      using memory_bytes_remove [of "map (entry_view m) xs" "te_id e" "tb_dsml k" "te_source e" "map (entry_view m) ys"] shared
        block_invD(3) [OF inv(4) k(1)] inv(3) e
      by (auto simp: va id_inv_def)
    then show ?thesis
      unfolding views using inv(6) f(8) by simp
  qed
  have "tm_b m b \<noteq> None" if "tm_b m' b \<noteq> None" for b
    using that f(4) k(1) by (auto split: if_splits)
  moreover have "tm_e m x \<noteq> None" if "tm_e m' x \<noteq> None" for x
    using that dom [of x] inv(2) [of x] by simp
  ultimately have "(\<forall>x. tm_e m' x \<noteq> None \<longrightarrow> x < tm_fresh m') \<and> (\<forall>b. tm_b m' b \<noteq> None \<longrightarrow> b < tm_fresh m')"
    using inv(7,8) f(6) by simp
  moreover have "tb_seen k' \<le> tm_scan_clock m'" if "tm_b m' b = Some k'" for b k'
    using that f(4,7) inv(9) [OF k(1)] inv(9) [of b] by (auto simp: same_limits_def split: if_splits)
  ultimately have "tm_inv m' (xs @ ys) (C(te_block e := us @ vs))"
    unfolding tm_inv_def using lru dom id blk bytes inv(5) f(5) by simp
  then show ?thesis
    using run views f(6,7) unfolding m'_def [symmetric] by blast
qed

subsection \<open>The memory as a list\<close>

text \<open>What the memory promises: a list of calls from the most to the least recently used, cut at its
  end when it has too many entries or bytes.\<close>

fun spec_prune :: "int \<Rightarrow> nat \<Rightarrow> call_text list \<Rightarrow> call_text list" where
  "spec_prune max_n max_b V =
     (if (int (length V) > max_n \<or> memory_bytes V > max_b) \<and> V \<noteq> [] then spec_prune max_n max_b (butlast V) else V)"

declare spec_prune.simps [simp del]

definition spec_front :: "bytes \<Rightarrow> bytes \<times> tool_memory_source \<Rightarrow> call_text list \<Rightarrow> call_text list" where
  "spec_front i v V = (i, v) # filter (\<lambda>c. fst c \<noteq> i) V"

definition spec_put :: "int \<Rightarrow> nat \<Rightarrow> bytes \<Rightarrow> bytes \<Rightarrow> tool_memory_source \<Rightarrow> call_text list \<Rightarrow> call_text list" where
  "spec_put max_n max_b i d s V =
     (if i = [] \<or> d = [] then V
      else spec_prune max_n max_b
        (spec_front i (d, case map_of V i of
            Some (d0, s0) \<Rightarrow> if d0 = d \<and> s \<noteq> TOOL_MEMORY_RAM then s0 else s | None \<Rightarrow> s) V))"

definition spec_lookup :: "bytes \<Rightarrow> call_text list \<Rightarrow> (bytes \<times> tool_memory_source) option \<times> call_text list" where
  "spec_lookup i V = (case map_of V i of None \<Rightarrow> (None, V) | Some v \<Rightarrow> (Some v, spec_front i v V))"

lemma memory_bytes_perm:
  assumes "mset (map (\<lambda>(i, d, s). (i, d)) V) = mset (map (\<lambda>(i, d, s). (i, d)) W)"
  shows "memory_bytes V = memory_bytes W"
proof -
  have parts: "sum_list (map (\<lambda>(i, d, s). length i + 1 + SIZEOF_ENTRY) X) =
      sum_mset (image_mset (\<lambda>(i, d). length i + 1 + SIZEOF_ENTRY) (mset (map (\<lambda>(i, d, s). (i, d)) X)))"
      "(fst \<circ> snd) ` set X = snd ` set_mset (mset (map (\<lambda>(i, d, s). (i, d)) X))" for X :: "call_text list"
    by (induction X) (simp_all add: case_prod_beta)
  show ?thesis
    unfolding memory_bytes_def parts assms by (rule refl)
qed

lemma tm_invD:
  assumes "tm_inv m L C"
  shows "lru m L" "tm_e m x \<noteq> None \<longleftrightarrow> x \<in> set L" "id_inv m" "block_inv m C" "tm_entries m = int (length L)"
    "tm_bytes m = memory_bytes (map (entry_view m) L)" "tm_e m x \<noteq> None \<Longrightarrow> x < tm_fresh m" "tm_b m b \<noteq> None \<Longrightarrow> b < tm_fresh m" "distinct L"
    "tm_b m b = Some k \<Longrightarrow> tb_seen k \<le> tm_scan_clock m"
  using assms unfolding tm_inv_def lru_def by blast+

text \<open>Other links and stamps, and another order, leave the rest of the invariant alone.\<close>

lemma tm_inv_relink:
  assumes "tm_inv m L C" and "lru m' L'" and "set L' = set L"
    and "\<And>x. map_option (\<lambda>e. (te_id e, te_block e, te_bytes e, te_block_next e)) (tm_e m' x) =
        map_option (\<lambda>e. (te_id e, te_block e, te_bytes e, te_block_next e)) (tm_e m x)"
    and "tm_by_id m' = tm_by_id m" "tm_by_block m' = tm_by_block m" "tm_b m' = tm_b m" "tm_bytes m' = tm_bytes m"
      "tm_entries m' = tm_entries m" "tm_fresh m' = tm_fresh m" "tm_scan_clock m' = tm_scan_clock m"
  shows "tm_inv m' L' C"
proof -
  note inv = tm_invD [OF assms(1)]
  have L': "distinct L'" "mset L' = mset L"
    using assms(2,3) inv(9) by (auto simp: lru_def set_eq_iff_mset_eq_distinct)
  have same: "\<exists>e. tm_e m x = Some e \<and> te_id e' = te_id e \<and> te_block e' = te_block e \<and> te_bytes e' = te_bytes e \<and> te_block_next e' = te_block_next e"
    if "tm_e m' x = Some e'" for x e'
    using assms(4) [of x] that by (cases "tm_e m x") auto
  have same': "\<exists>e'. tm_e m' x = Some e' \<and> te_id e' = te_id e \<and> te_block e' = te_block e \<and> te_bytes e' = te_bytes e \<and> te_block_next e' = te_block_next e"
    if "tm_e m x = Some e" for x e
    using assms(4) [of x] that by (cases "tm_e m' x") auto
  have dom: "tm_e m' x \<noteq> None \<longleftrightarrow> tm_e m x \<noteq> None" for x
    using same same' by blast
  have "id_inv m'"
    unfolding id_inv_def
  proof (intro conjI allI impI)
    fix i a
    have "(\<exists>e. tm_e m' a = Some e \<and> te_id e = i) \<longleftrightarrow> (\<exists>e. tm_e m a = Some e \<and> te_id e = i)"
      using same same' by metis
    then show "tm_by_id m' i = Some a \<longleftrightarrow> (\<exists>e. tm_e m' a = Some e \<and> te_id e = i)"
      using inv(3) assms(5) by (simp add: id_inv_def)
  next
    fix a e
    assume "tm_e m' a = Some e"
    then show "te_id e \<noteq> []" "te_bytes e = length (te_id e) + 1 + SIZEOF_ENTRY"
      using same inv(3) unfolding id_inv_def by metis+
  qed
  moreover have "block_inv m' C"
    unfolding block_inv_def
  proof (intro conjI allI impI)
    show "tm_by_block m' d = Some b \<longleftrightarrow> (\<exists>k. tm_b m' b = Some k \<and> tb_dsml k = d)" for d b
      using block_invD(1) [OF inv(4)] assms(6,7) by simp
    show "tm_b m' (te_block e) \<noteq> None" "a \<in> set (C (te_block e))" if "tm_e m' a = Some e" for a e
      using same [OF that] block_invD(2) [OF inv(4)] assms(7) by metis+
    fix b k
    assume "tm_b m' b = Some k"
    then have b: "tm_b m b = Some k"
      using assms(7) by simp
    note kb = block_invD(3) [OF inv(4) b] block_invD(4) [OF inv(4) b]
    show "tb_dsml k \<noteq> []" "tb_bytes k = length (tb_dsml k) + 1 + SIZEOF_BLOCK" "C b \<noteq> []" "distinct (C b)"
      "tb_refs k = int (length (C b))"
      using kb by blast+
    have "map_option te_block_next (tm_e m' x) = map_option te_block_next (tm_e m x)" for x
      using arg_cong [OF assms(4) [of x], of "map_option (snd \<circ> snd \<circ> snd)"] by (simp add: option.map_comp o_def)
    then show "chain (tm_e m') (tb_entries k) (C b)"
      using chain_cong [of "C b" "tm_e m'" "tm_e m"] kb by blast
    show "\<forall>a\<in>set (C b). \<exists>e. tm_e m' a = Some e \<and> te_block e = b"
      using block_invD(5) [OF inv(4) b] same' by metis
  qed
  moreover have "memory_bytes (map (entry_view m') L') = memory_bytes (map (entry_view m) L)"
  proof (rule memory_bytes_perm)
    have "(\<lambda>(i, d, s). (i, d)) (entry_view m' x) = (\<lambda>(i, d, s). (i, d)) (entry_view m x)" if "x \<in> set L" for x
      using same' [of x] inv(2) [of x] that assms(7) by (auto simp: entry_view_def Let_def)
    then have "map (\<lambda>(i, d, s). (i, d)) (map (entry_view m) L) = map (\<lambda>(i, d, s). (i, d)) (map (entry_view m') L)"
      by simp
    moreover have "mset (map f L') = mset (map f L)" for f :: "addr \<Rightarrow> bytes \<times> bytes"
      using L'(2) by simp
    ultimately show "mset (map (\<lambda>(i, d, s). (i, d)) (map (entry_view m') L')) = mset (map (\<lambda>(i, d, s). (i, d)) (map (entry_view m) L))"
      by (metis map_map)
  qed
  moreover have "length L' = length L"
    using L'(2) mset_eq_length by blast
  ultimately show ?thesis
    unfolding tm_inv_def using assms(2,3,7-11) inv(2,5,6,7,8,10) dom by simp
qed

lemma touch_inv:
  assumes "tm_inv m (xs @ a # ys) C"
  shows "\<exists>m'. tool_memory_touch a m = Some m' \<and> tm_inv m' (a # xs @ ys) C \<and> (\<forall>x. map_option attrs (tm_e m' x) = map_option attrs (tm_e m x)) \<and>
    tm_b m' = tm_b m \<and> same_limits m m' \<and> tm_bytes m' = tm_bytes m \<and> tm_entries m' = tm_entries m"
proof -
  note inv = tm_invD [OF assms]
  obtain e where e: "tm_e m a = Some e"
    using inv(2) [of a] by auto
  define m1 where "m1 = m\<lparr>tm_clock := tm_clock m + 1, tm_e := (tm_e m)(a \<mapsto> e\<lparr>te_stamp := tm_clock m + 1\<rparr>)\<rparr>"
  have l1: "lru m1 (xs @ a # ys)"
  proof -
    have "dll (tm_e m1) None (xs @ a # ys) None"
    proof (rule dll_cong)
      show "dll (tm_e m) None (xs @ a # ys) None"
        using inv(1) unfolding lru_def by blast
    qed (use e in \<open>simp add: m1_def\<close>)
    then show ?thesis
      using inv(1) unfolding lru_def by (simp add: m1_def)
  qed
  have a1: "map_option attrs (tm_e m1 x) = map_option attrs (tm_e m x)"
    "map_option te_block_next (tm_e m1 x) = map_option te_block_next (tm_e m x)" for x
    using e by (simp_all add: m1_def attrs_def)
  have step: "tool_memory_touch a m = (if tm_head m1 = Some a then Some m1 else Option.bind (tool_memory_unlink a m1) (tool_memory_link_head a))"
    using e by (simp add: tool_memory_touch_def upd_e_def Let_def m1_def)
  obtain h where h: "tool_memory_touch a m = Some (m1\<lparr>tm_e := h, tm_head := Some a, tm_tail := last_opt (a # xs @ ys) None\<rparr>)"
      "dll h None (a # xs @ ys) None" "same_but_links (tm_e m1) h"
  proof (cases "tm_head m1 = Some a")
    case True
    then have "xs = []"
      using l1 by (cases xs) (auto simp: lru_def)
    moreover have "m1\<lparr>tm_e := tm_e m1, tm_head := Some a, tm_tail := last_opt (a # xs @ ys) None\<rparr> = m1"
      using l1 True calculation by (intro tool_memory.equality) (simp_all add: lru_def)
    ultimately show ?thesis
      using that [of "tm_e m1"] step True l1 by (simp add: lru_def)
  next
    case False
    obtain h1 where h1: "tool_memory_unlink a m1 = Some (m1\<lparr>tm_e := h1, tm_head := head_opt (xs @ ys) None, tm_tail := last_opt (xs @ ys) None\<rparr>)"
        "dll h1 None (xs @ ys) None" "same_but_links (tm_e m1) h1"
      using unlink_lru [OF l1] by blast
    define m2 where "m2 = m1\<lparr>tm_e := h1, tm_head := head_opt (xs @ ys) None, tm_tail := last_opt (xs @ ys) None\<rparr>"
    have l2: "lru m2 (xs @ ys)"
      using h1(2) l1 by (simp add: lru_def m2_def)
    have "a \<notin> set (xs @ ys)"
      using l1 by (simp add: lru_def)
    moreover have "tm_e m1 a = Some (e\<lparr>te_stamp := tm_clock m + 1\<rparr>)"
      by (simp add: m1_def)
    then obtain e2 where "tm_e m2 a = Some e2"
      using same_but_links_entry [OF h1(3)] by (auto simp: m2_def)
    ultimately obtain h where "tool_memory_link_head a m2 = Some (m2\<lparr>tm_e := h, tm_head := Some a, tm_tail := last_opt (a # xs @ ys) None\<rparr>)"
        "dll h None (a # xs @ ys) None" "same_but_links (tm_e m2) h"
      using link_head_lru [OF l2] by blast
    then show ?thesis
      using that [of h] step False h1 same_but_links_trans [OF h1(3)] by (simp add: m2_def)
  qed
  define m' where "m' = m1\<lparr>tm_e := h, tm_head := Some a, tm_tail := last_opt (a # xs @ ys) None\<rparr>"
  have attr: "map_option attrs (tm_e m' x) = map_option attrs (tm_e m x)"
    "map_option te_block_next (tm_e m' x) = map_option te_block_next (tm_e m x)" for x
    using attrs_links [OF h(3)] a1 by (simp_all add: m'_def)
  have "tm_inv m' (a # xs @ ys) C"
  proof (rule tm_inv_relink [OF assms])
    show "lru m' (a # xs @ ys)"
      using h(2) l1 by (simp add: lru_def m'_def)
    show "map_option (\<lambda>e. (te_id e, te_block e, te_bytes e, te_block_next e)) (tm_e m' x) =
        map_option (\<lambda>e. (te_id e, te_block e, te_bytes e, te_block_next e)) (tm_e m x)" for x
      using attr [of x] by (cases "tm_e m x"; cases "tm_e m' x") (auto simp: attrs_def)
  qed (auto simp: m'_def m1_def)
  then show ?thesis
    using h(1) attr(1) by (auto simp: m'_def m1_def same_limits_def)
qed

text \<open>A new entry at the front.\<close>

lemma memory_bytes_add:
  "memory_bytes ((i, d, s) # V) = memory_bytes V + (length i + 1 + SIZEOF_ENTRY) +
     (if d \<in> (fst \<circ> snd) ` set V then 0 else length d + 1 + SIZEOF_BLOCK)"
  using memory_bytes_remove [of "[]" i d s V] by simp

lemma block_inv_add:
  assumes "block_inv m C" and "tm_e m a = None" and "tm_b m b = None \<or> (\<exists>k0. tm_b m b = Some k0 \<and> k = k0)"
    and "tm_b m b = None \<Longrightarrow> tb_entries k = None \<and> tb_refs k = 0 \<and> tm_by_block m (tb_dsml k) = None"
    and "tb_dsml k \<noteq> []" and "tb_bytes k = length (tb_dsml k) + 1 + SIZEOF_BLOCK"
    and "C0 = (if tm_b m b = None then [] else C b)"
    and "\<And>x. x \<noteq> a \<Longrightarrow> map_option attrs (h x) = map_option attrs (tm_e m x)"
    and "\<And>x. x \<noteq> a \<Longrightarrow> map_option te_block_next (h x) = map_option te_block_next (tm_e m x)"
    and "h a = Some e" "te_block e = b" "te_block_next e = tb_entries k"
    and "tm_e m' = h" "tm_by_block m' = (tm_by_block m)(tb_dsml k \<mapsto> b)"
      "tm_b m' = (tm_b m)(b \<mapsto> k\<lparr>tb_entries := Some a, tb_refs := tb_refs k + 1\<rparr>)"
  shows "block_inv m' (C(b := a # C0))"
proof -
  note inv = block_invD [OF assms(1)]
  have old: "\<exists>f0. tm_e m x = Some f0 \<and> same_entry f0 f" if "h x = Some f" "x \<noteq> a" for x f
    using attrs_both(2) [where h = "tm_e m" and h' = h and x = x, OF assms(8)] that by blast
  have new: "\<exists>f. h x = Some f \<and> same_entry f0 f" if "tm_e m x = Some f0" for x f0
    using attrs_both(3) [where h = "tm_e m" and h' = h and x = x, OF assms(8)] that assms(2) by fastforce
  have C0: "chain (tm_e m) (tb_entries k) C0 \<and> distinct C0 \<and> tb_refs k = int (length C0) \<and> (\<forall>x\<in>set C0. \<exists>f. tm_e m x = Some f \<and> te_block f = b)"
  proof (cases "tm_b m b = None")
    case True
    then show ?thesis
      using assms(4,7) by simp
  next
    case False
    then have b: "tm_b m b = Some k"
      using assms(3) by auto
    then show ?thesis
      using inv(4,5) [OF b] assms(7) by auto
  qed
  have chains: "chain h p xs" if "chain (tm_e m) p xs" "a \<notin> set xs" for p xs
    by (rule chain_cong [OF _ that(1)]) (use assms(9) that(2) in metis)
  have a_new: "a \<notin> set C0" "\<And>b' k'. tm_b m b' = Some k' \<Longrightarrow> a \<notin> set (C b')"
    using C0 inv(5) assms(2) by fastforce+
  show ?thesis
    unfolding block_inv_def
  proof (intro conjI allI impI)
    fix d b'
    show "tm_by_block m' d = Some b' \<longleftrightarrow> (\<exists>k'. tm_b m' b' = Some k' \<and> tb_dsml k' = d)"
    proof (cases "tm_b m b = None")
      case True
      then show ?thesis
        using assms(4,14,15) inv(1) [of d b'] inv(1) [of "tb_dsml k" b'] by auto
    next
      case False
      then have b: "tm_b m b = Some k"
        using assms(3) by auto
      then have "tm_by_block m (tb_dsml k) = Some b"
        using inv(1) by blast
      then have "tm_by_block m' = tm_by_block m"
        using assms(14) by auto
      then show ?thesis
        using assms(15) inv(1) [of d b'] b by auto
    qed
  next
    fix x f
    assume f: "tm_e m' x = Some f"
    show "tm_b m' (te_block f) \<noteq> None" "x \<in> set ((C(b := a # C0)) (te_block f))"
    proof -
      have "tm_b m' (te_block f) \<noteq> None \<and> x \<in> set ((C(b := a # C0)) (te_block f))"
      proof (cases "x = a")
        case True
        then show ?thesis
          using f assms(10,11,13,15) by auto
      next
        case False
        obtain f0 where f0: "tm_e m x = Some f0" "same_entry f0 f"
          using old f assms(13) False by blast
        then have "tm_b m (te_block f) \<noteq> None" "x \<in> set (C (te_block f))"
          using inv(2) [OF f0(1)] same_entryD by fastforce+
        then show ?thesis
          using assms(7,15) by auto
      qed
      then show "tm_b m' (te_block f) \<noteq> None" "x \<in> set ((C(b := a # C0)) (te_block f))"
        by blast+
    qed
  next
    fix b' k'
    assume b': "tm_b m' b' = Some k'"
    have "chain (tm_e m') (tb_entries k') ((C(b := a # C0)) b') \<and> tb_dsml k' \<noteq> [] \<and>
        tb_bytes k' = length (tb_dsml k') + 1 + SIZEOF_BLOCK \<and> (C(b := a # C0)) b' \<noteq> [] \<and> distinct ((C(b := a # C0)) b') \<and>
        tb_refs k' = int (length ((C(b := a # C0)) b')) \<and>
        (\<forall>x\<in>set ((C(b := a # C0)) b'). \<exists>f. tm_e m' x = Some f \<and> te_block f = b')"
    proof (cases "b' = b")
      case True
      then have k': "k' = k\<lparr>tb_entries := Some a, tb_refs := tb_refs k + 1\<rparr>"
        using b' assms(15) by auto
      have "\<exists>f. h x = Some f \<and> te_block f = b" if "x \<in> set C0" for x
        using C0 that new same_entryD by metis
      then show ?thesis
        using True k' C0 a_new(1) assms(5,6,10-13) chains by auto
    next
      case False
      then have b0: "tm_b m b' = Some k'"
        using b' assms(15) by auto
      have "\<exists>f. h x = Some f \<and> te_block f = b'" if "x \<in> set (C b')" for x
        using inv(5) [OF b0 that] new same_entryD by metis
      then show ?thesis
        using inv(3,4) [OF b0] False a_new(2) [OF b0] assms(13) chains by auto
    qed
    then show "tb_dsml k' \<noteq> []" "tb_bytes k' = length (tb_dsml k') + 1 + SIZEOF_BLOCK" "(C(b := a # C0)) b' \<noteq> []"
      "distinct ((C(b := a # C0)) b')" "chain (tm_e m') (tb_entries k') ((C(b := a # C0)) b')"
      "tb_refs k' = int (length ((C(b := a # C0)) b'))" "\<forall>x\<in>set ((C(b := a # C0)) b'). \<exists>f. tm_e m' x = Some f \<and> te_block f = b'"
      by blast+
  qed
qed

lemma id_inv_add:
  assumes "id_inv m" and "tm_e m a = None" and "tm_by_id m i = None" and "i \<noteq> []"
    and "\<And>x. x \<noteq> a \<Longrightarrow> map_option attrs (h x) = map_option attrs (tm_e m x)"
    and "h a = Some e" "te_id e = i" "te_bytes e = length i + 1 + SIZEOF_ENTRY"
    and "tm_e m' = h" "tm_by_id m' = (tm_by_id m)(i \<mapsto> a)"
  shows "id_inv m'"
proof -
  have ids: "tm_by_id m j = Some x \<longleftrightarrow> (\<exists>e. tm_e m x = Some e \<and> te_id e = j)" for j x
    using assms(1) by (simp add: id_inv_def)
  have sz: "te_id f \<noteq> [] \<and> te_bytes f = length (te_id f) + 1 + SIZEOF_ENTRY" if "tm_e m x = Some f" for f x
    using assms(1) that unfolding id_inv_def by blast
  have old: "\<exists>f0. tm_e m x = Some f0 \<and> same_entry f0 f" if "h x = Some f" "x \<noteq> a" for x f
    using attrs_both(2) [where h = "tm_e m" and h' = h and x = x, OF assms(5)] that by blast
  have new: "\<exists>f. h x = Some f \<and> same_entry f0 f" if "tm_e m x = Some f0" for x f0
    using attrs_both(3) [where h = "tm_e m" and h' = h and x = x, OF assms(5)] that assms(2) by fastforce
  show ?thesis
    unfolding id_inv_def
  proof (intro conjI allI impI)
    fix j x
    show "tm_by_id m' j = Some x \<longleftrightarrow> (\<exists>f. tm_e m' x = Some f \<and> te_id f = j)"
    proof (cases "x = a")
      case True
      then show ?thesis
        unfolding True assms(9,10) using assms(2,6,7) ids [of j a] by auto
    next
      case False
      have "(\<exists>f. h x = Some f \<and> te_id f = j) \<longleftrightarrow> (\<exists>f. tm_e m x = Some f \<and> te_id f = j)"
      proof (cases "tm_e m x")
        case None
        then show ?thesis
          using old [of x] False by auto
      next
        case (Some f0)
        then obtain f where "h x = Some f" "same_entry f0 f"
          using new by blast
        then show ?thesis
          using Some same_entryD by simp
      qed
      then show ?thesis
        unfolding assms(9,10) using assms(3) False ids [of j x] by auto
    qed
  next
    fix x f
    assume "tm_e m' x = Some f"
    then show "te_id f \<noteq> []" "te_bytes f = length (te_id f) + 1 + SIZEOF_ENTRY"
      using old [of x f] sz same_entryD assms(4,6-9) by (cases "x = a"; fastforce)+
  qed
qed

lemma dsml_used:
  assumes "tm_inv m L C"
  shows "d \<in> (fst \<circ> snd) ` set (map (entry_view m) L) \<longleftrightarrow> tm_by_block m d \<noteq> None"
proof -
  note inv = tm_invD [OF assms]
  have conv: "(fst \<circ> snd) ` set (map (entry_view m) L) = (\<lambda>x. fst (snd (entry_view m x))) ` set L"
    by (simp add: image_image del: o_apply) (simp add: image_def)
  show ?thesis
    unfolding conv image_iff
  proof
    assume "\<exists>x\<in>set L. d = fst (snd (entry_view m x))"
    then obtain x where x: "x \<in> set L" "d = fst (snd (entry_view m x))"
      by blast
    obtain e where e: "tm_e m x = Some e"
      using inv(2) [of x] x(1) by auto
    obtain k where k: "tm_b m (te_block e) = Some k"
      using block_invD(2) [OF inv(4) e] by auto
    then have "tb_dsml k = d"
      using x(2) e by (simp add: entry_view_def)
    then show "tm_by_block m d \<noteq> None"
      using block_invD(1) [OF inv(4), of d "te_block e"] k by auto
  next
    assume "tm_by_block m d \<noteq> None"
    then obtain b k where k: "tm_b m b = Some k" "tb_dsml k = d"
      using block_invD(1) [OF inv(4), of d] by auto
    then obtain x where "x \<in> set (C b)"
      using block_invD(4) [OF inv(4) k(1)] by (cases "C b") auto
    then obtain e where e: "tm_e m x = Some e" "te_block e = b"
      using block_invD(5) [OF inv(4) k(1)] by blast
    then have "x \<in> set L" "d = fst (snd (entry_view m x))"
      using inv(2) [of x] k by (auto simp: entry_view_def)
    then show "\<exists>x\<in>set L. d = fst (snd (entry_view m x))"
      by blast
  qed
qed

lemma get_block_run:
  assumes "tm_inv m L C" and "d \<noteq> []"
  obtains b k f1 where "tool_memory_get_block_locked d m = Some (b, m\<lparr>tm_fresh := f1, tm_b := (tm_b m)(b \<mapsto> k),
      tm_by_block := (tm_by_block m)(d \<mapsto> b), tm_bytes := tm_bytes m + (if tm_b m b = None then tb_bytes k else 0)\<rparr>)"
    and "tm_fresh m \<le> f1" "b < f1" "tb_dsml k = d" "tb_bytes k = length d + 1 + SIZEOF_BLOCK"
      "tm_b m b = None \<or> (\<exists>k0. tm_b m b = Some k0 \<and> k = k0)"
      "tm_b m b = None \<longrightarrow> tb_entries k = None \<and> tb_refs k = 0 \<and> tm_by_block m d = None" "tm_by_block m d = None \<longleftrightarrow> tm_b m b = None"
      "tm_b m b = None \<longrightarrow> tb_seen k = 0"
proof (cases "tm_by_block m d")
  case None
  have "tm_b m (tm_fresh m) = None"
    using tm_invD(8) [OF assms(1), of "tm_fresh m"] by (cases "tm_b m (tm_fresh m)") auto
  then show ?thesis
    using that [where b = "tm_fresh m" and k = "\<lparr>tb_dsml = d, tb_bytes = length d + 1 + SIZEOF_BLOCK, tb_refs = 0, tb_seen = 0, tb_entries = None\<rparr>"
          and ?f1.0 = "tm_fresh m + 1"]
      None assms(2) by (simp add: tool_memory_get_block_locked_def tool_memory_find_block_locked_def Let_def)
next
  case (Some b)
  then obtain k where k: "tm_b m b = Some k" "tb_dsml k = d"
    using block_invD(1) [OF tm_invD(4) [OF assms(1)], of d b] by auto
  have "m\<lparr>tm_fresh := tm_fresh m, tm_b := (tm_b m)(b \<mapsto> k), tm_by_block := (tm_by_block m)(d \<mapsto> b), tm_bytes := tm_bytes m + 0\<rparr> = m"
    using Some k by (intro tool_memory.equality) auto
  then show ?thesis
    using that [where ?f1.0 = "tm_fresh m" and b = b and k = k] tm_invD(8) [OF assms(1), of b] Some k assms(2) block_invD(3) [OF tm_invD(4) [OF assms(1)] k(1)]
    by (simp add: tool_memory_get_block_locked_def tool_memory_find_block_locked_def)
qed

lemma put_new_inv:
  assumes "tm_inv m L C" and "i \<noteq> []" and "d \<noteq> []" and "tm_by_id m i = None"
  shows "\<exists>m3 a C'. put_new i d s m = tool_memory_prune_locked m3 \<and> tm_inv m3 (a # L) C' \<and>
    map (entry_view m3) (a # L) = (i, d, s) # map (entry_view m) L \<and> same_limits m m3"
proof -
  note inv = tm_invD [OF assms(1)]
  obtain b k f1 where g: "tool_memory_get_block_locked d m = Some (b, m\<lparr>tm_fresh := f1, tm_b := (tm_b m)(b \<mapsto> k),
      tm_by_block := (tm_by_block m)(d \<mapsto> b), tm_bytes := tm_bytes m + (if tm_b m b = None then tb_bytes k else 0)\<rparr>)"
    and f: "tm_fresh m \<le> f1" "b < f1" and k: "tb_dsml k = d" "tb_bytes k = length d + 1 + SIZEOF_BLOCK"
      "tm_b m b = None \<or> (\<exists>k0. tm_b m b = Some k0 \<and> k = k0)"
      "tm_b m b = None \<longrightarrow> tb_entries k = None \<and> tb_refs k = 0 \<and> tm_by_block m d = None" "tm_by_block m d = None \<longleftrightarrow> tm_b m b = None"
      "tm_b m b = None \<longrightarrow> tb_seen k = 0"
    by (rule get_block_run [OF assms(1,3)])
  have a: "tm_e m f1 = None"
    using inv(7) [of f1] f(1) by (cases "tm_e m f1") auto
  define e where "e = \<lparr>te_id = i, te_block = b, te_bytes = length i + 1 + SIZEOF_ENTRY, te_stamp = tm_clock m + 1, te_source = s,
        te_prev = None, te_next = None, te_block_next = tb_entries k\<rparr>"
  define m2 where "m2 = m\<lparr>tm_by_block := (tm_by_block m)(d \<mapsto> b), tm_bytes := tm_bytes m + (if tm_b m b = None then tb_bytes k else 0),
      tm_fresh := f1 + 1, tm_clock := tm_clock m + 1, tm_e := (tm_e m)(f1 \<mapsto> e),
      tm_b := (tm_b m)(b \<mapsto> k\<lparr>tb_entries := Some f1, tb_refs := tb_refs k + 1\<rparr>), tm_by_id := (tm_by_id m)(i \<mapsto> f1)\<rparr>"
  have aL: "f1 \<notin> set L"
    using a inv(2) [of f1] by auto
  have l2: "lru m2 L"
    using inv(1) aL by (simp add: lru_def m2_def dll_frame)
  obtain h where h: "tool_memory_link_head f1 m2 = Some (m2\<lparr>tm_e := h, tm_head := Some f1, tm_tail := last_opt (f1 # L) None\<rparr>)"
      "dll h None (f1 # L) None" "same_but_links (tm_e m2) h"
    by (rule link_head_lru [OF l2 aL, of e]) (simp add: m2_def)
  define m3 where "m3 = m2\<lparr>tm_e := h, tm_head := Some f1, tm_tail := last_opt (f1 # L) None,
      tm_entries := tm_entries m + 1, tm_bytes := tm_bytes m2 + (length i + 1 + SIZEOF_ENTRY)\<rparr>"
  have "put_new i d s m = Option.bind (tool_memory_link_head f1 m2) (\<lambda>m. tool_memory_prune_locked
      (m\<lparr>tm_entries := tm_entries m + 1, tm_bytes := tm_bytes m + (length i + 1 + SIZEOF_ENTRY)\<rparr>))"
    unfolding put_new_def g using assms(4) by (simp add: Let_def upd_b_def m2_def e_def)
  then have run: "put_new i d s m = tool_memory_prune_locked m3"
    using h(1) by (simp add: m3_def m2_def)
  have at: "map_option attrs (h x) = map_option attrs (tm_e m x)" "map_option te_block_next (h x) = map_option te_block_next (tm_e m x)"
    if "x \<noteq> f1" for x
    using attrs_links [OF h(3)] that by (simp_all add: m2_def)
  obtain e' where e': "h f1 = Some e'" "e'\<lparr>te_prev := None, te_next := None\<rparr> = e\<lparr>te_prev := None, te_next := None\<rparr>"
    using same_but_links_entry [OF h(3), of f1 e] by (auto simp: m2_def)
  have ef: "te_id e' = i" "te_block e' = b" "te_bytes e' = length i + 1 + SIZEOF_ENTRY" "te_block_next e' = tb_entries k" "te_source e' = s"
    using arg_cong [OF e'(2), of te_id] arg_cong [OF e'(2), of te_block] arg_cong [OF e'(2), of te_bytes]
      arg_cong [OF e'(2), of te_block_next] arg_cong [OF e'(2), of te_source] by (simp_all add: e_def)
  have m3: "tm_e m3 = h" "tm_by_id m3 = (tm_by_id m)(i \<mapsto> f1)" "tm_by_block m3 = (tm_by_block m)(tb_dsml k \<mapsto> b)"
      "tm_b m3 = (tm_b m)(b \<mapsto> k\<lparr>tb_entries := Some f1, tb_refs := tb_refs k + 1\<rparr>)" "tm_fresh m3 = f1 + 1"
      "tm_entries m3 = tm_entries m + 1" "same_limits m m3"
      "tm_bytes m3 = tm_bytes m + (if tm_b m b = None then tb_bytes k else 0) + (length i + 1 + SIZEOF_ENTRY)"
    by (simp_all add: m3_def m2_def k(1) same_limits_def)
  define C0 where "C0 = (if tm_b m b = None then [] else C b)"
  have blk: "block_inv m3 (C(b := f1 # C0))"
    by (rule block_inv_add [OF inv(4) a k(3) _ _ _ C0_def at e'(1) ef(2,4) m3(1,3,4)]) (use k assms(3) in simp_all)
  have ids: "id_inv m3"
    by (rule id_inv_add [OF inv(3) a assms(4,2) at(1) e'(1) ef(1,3) m3(1,2)])
  have lru: "lru m3 (f1 # L)"
    using h(2) aL inv(9) by (simp add: lru_def m3_def)
  have dom: "tm_e m3 x \<noteq> None \<longleftrightarrow> x \<in> set (f1 # L)" for x
    using attrs_both(1) [where h = "tm_e m" and h' = h and x = x] at(1) [of x] inv(2) [of x] e'(1) m3(1) by (cases "x = f1") auto
  have view: "entry_view m3 x = entry_view m x" if xin: "x \<in> set L" for x
  proof -
    obtain e0 where e0: "tm_e m x = Some e0"
      using inv(2) [of x] xin by auto
    have "x \<noteq> f1"
      using xin aL by auto
    then obtain e1 where e1: "tm_e m3 x = Some e1" "same_entry e0 e1"
      using attrs_both(3) [where h = "tm_e m" and h' = h and x = x] at(1) [of x] e0 m3(1) by auto
    have live: "tm_b m (te_block e0) \<noteq> None"
      using block_invD(2) [OF inv(4) e0] by simp
    have "map_option tb_dsml (tm_b m3 (te_block e0)) = map_option tb_dsml (tm_b m (te_block e0))"
      using k(3) live m3(4) by (cases "te_block e0 = b") auto
    then show ?thesis
      by (rule entry_view_same [OF e0 e1 _ live])
  qed
  have va: "entry_view m3 f1 = (i, d, s)"
    using e'(1) ef m3 k(1) by (simp add: entry_view_def Let_def)
  have views: "map (entry_view m3) (f1 # L) = (i, d, s) # map (entry_view m) L"
    using view va by simp
  have "tm_bytes m3 = memory_bytes (map (entry_view m3) (f1 # L))"
    unfolding views memory_bytes_add dsml_used [OF assms(1)] m3(8) inv(6) using k(2,5) by simp
  moreover have "tm_e m3 x \<noteq> None \<Longrightarrow> x < tm_fresh m3" for x
    using dom [of x] inv(2) [of x] inv(7) [of x] f m3(5) by auto
  moreover have "tm_b m3 x \<noteq> None \<Longrightarrow> x < tm_fresh m3" for x
    using inv(8) [of x] f m3(4,5) by (auto split: if_splits)
  moreover have "tb_seen k' \<le> tm_scan_clock m3" if "tm_b m3 x = Some k'" for x k'
    using that m3(4,7) k(3,6) inv(10) [of x] inv(10) [of b k] by (auto simp: same_limits_def split: if_splits)
  ultimately have "tm_inv m3 (f1 # L) (C(b := f1 # C0))"
    unfolding tm_inv_def using lru dom ids blk inv(5) m3(6) by simp
  then show ?thesis
    using run views m3(7) by (intro exI conjI)
qed

subsection \<open>The store refines the list\<close>

definition tm_rel :: "tool_memory \<Rightarrow> call_text list \<Rightarrow> bool" where
  "tm_rel m V \<longleftrightarrow> (\<exists>L C. tm_inv m L C \<and> map (entry_view m) L = V)"

lemma empty_rel: "tm_rel (tool_memory_empty n b) []"
  by (simp add: tm_rel_def tm_inv_def lru_def id_inv_def block_inv_def tool_memory_empty_def memory_bytes_def)

lemma limits_same: "same_limits m m' \<Longrightarrow> tool_memory_max_entries m' = tool_memory_max_entries m \<and> tool_memory_max_bytes m' = tool_memory_max_bytes m"
  by (simp add: same_limits_def tool_memory_max_entries_def tool_memory_max_bytes_def)

lemma prune_rel:
  "tm_inv m L C \<Longrightarrow> \<exists>m'. tool_memory_prune_locked m = Some m' \<and> same_limits m m' \<and>
     tm_rel m' (spec_prune (tool_memory_max_entries m) (tool_memory_max_bytes m) (map (entry_view m) L))"
proof (induction L arbitrary: m C rule: rev_induct)
  case Nil
  have "tm_tail m = None"
    using tm_invD(1) [OF Nil] by (simp add: lru_def)
  then have "tool_memory_prune_locked m = Some m"
    by (subst tool_memory_prune_locked.simps) simp
  then show ?case
    using Nil by (auto simp: spec_prune.simps tm_rel_def same_limits_def)
next
  case (snoc a L)
  note inv = tm_invD [OF snoc.prems]
  have tail: "tm_tail m = Some a"
    using inv(1) by (simp add: lru_def)
  let ?over = "tm_entries m > tool_memory_max_entries m \<or> tm_bytes m > tool_memory_max_bytes m"
  show ?case
  proof (cases ?over)
    case False
    then have "tool_memory_prune_locked m = Some m"
      by (subst tool_memory_prune_locked.simps) simp
    moreover have "spec_prune (tool_memory_max_entries m) (tool_memory_max_bytes m) (map (entry_view m) (L @ [a])) = map (entry_view m) (L @ [a])"
      using False inv(5,6) by (subst spec_prune.simps) auto
    ultimately show ?thesis
      using snoc.prems by (auto simp: tm_rel_def same_limits_def)
  next
    case True
    have inv0: "tm_inv m (L @ a # []) C"
      using snoc.prems by simp
    obtain m1 C1 where m1: "tool_memory_remove_entry_locked a m = Some m1" "tm_inv m1 L C1"
        "map (entry_view m1) L = map (entry_view m) L" "same_limits m m1"
      using remove_inv [OF inv0] by auto
    have "tool_memory_prune_locked m = tool_memory_prune_locked m1"
      using True tail m1(1) by (subst tool_memory_prune_locked.simps) simp
    moreover have "spec_prune (tool_memory_max_entries m) (tool_memory_max_bytes m) (map (entry_view m) (L @ [a])) =
        spec_prune (tool_memory_max_entries m) (tool_memory_max_bytes m) (map (entry_view m) L)"
      using True inv(5,6) by (subst spec_prune.simps) (auto simp: butlast_append)
    ultimately show ?thesis
      using snoc.IH [OF m1(2)] m1(3,4) limits_same [OF m1(4)] by (auto simp: same_limits_def)
  qed
qed

lemma map_of_view_None: "map_of (map f L) i = None \<longleftrightarrow> (\<forall>x\<in>set L. fst (f x) \<noteq> i)"
  by (induction L) auto

text \<open>Finding an entry by its id.\<close>

lemma find_entry:
  assumes "tm_inv m L C" and "i \<noteq> []"
  shows "case tool_memory_find_entry_locked m i of
      None \<Rightarrow> map_of (map (entry_view m) L) i = None
    | Some a \<Rightarrow> \<exists>xs ys e k. L = xs @ a # ys \<and> tm_e m a = Some e \<and> tm_b m (te_block e) = Some k \<and> te_id e = i \<and>
        map_of (map (entry_view m) L) i = Some (tb_dsml k, te_source e) \<and>
        filter (\<lambda>c. fst c \<noteq> i) (map (entry_view m) L) = map (entry_view m) (xs @ ys)"
proof -
  note inv = tm_invD [OF assms(1)]
  have ids: "tm_by_id m i = Some a \<longleftrightarrow> (\<exists>e. tm_e m a = Some e \<and> te_id e = i)" for a
    using inv(3) by (simp add: id_inv_def)
  have fst_view: "fst (entry_view m x) = te_id e" if "tm_e m x = Some e" for x e
    using that by (simp add: entry_view_def Let_def)
  show ?thesis
  proof (cases "tm_by_id m i")
    case None
    have "fst (entry_view m x) \<noteq> i" if x: "x \<in> set L" for x
    proof -
      obtain e where e: "tm_e m x = Some e"
        using inv(2) [of x] x by auto
      then show ?thesis
        using ids [of x] None fst_view [OF e] by auto
    qed
    then have "map_of (map (entry_view m) L) i = None"
      by (simp add: map_of_view_None)
    then show ?thesis
      using None assms(2) by (simp add: tool_memory_find_entry_locked_def)
  next
    case (Some a)
    then obtain e where e: "tm_e m a = Some e" "te_id e = i"
      using ids by blast
    obtain k where k: "tm_b m (te_block e) = Some k"
      using block_invD(2) [OF inv(4) e(1)] by auto
    have "a \<in> set L"
      using inv(2) [of a] e by auto
    then obtain xs ys where L: "L = xs @ a # ys"
      by (meson split_list)
    have other: "fst (entry_view m x) \<noteq> i" if x: "x \<in> set (xs @ ys)" for x
    proof -
      obtain f where f: "tm_e m x = Some f"
        using inv(2) [of x] x L by auto
      moreover have "x \<noteq> a"
        using x inv(9) L by auto
      ultimately show ?thesis
        using ids [of x] Some fst_view [OF f] by auto
    qed
    then have none: "map_of (map (entry_view m) xs) i = None"
      by (simp add: map_of_view_None)
    have va: "entry_view m a = (i, tb_dsml k, te_source e)"
      using e k by (simp add: entry_view_def Let_def)
    have "filter (\<lambda>c. fst c \<noteq> i) (map (entry_view m) zs) = map (entry_view m) zs" if "set zs \<subseteq> set (xs @ ys)" for zs
      using other that by (auto simp: filter_id_conv)
    then have "filter (\<lambda>c. fst c \<noteq> i) (map (entry_view m) L) = map (entry_view m) (xs @ ys)"
      using L va by simp
    moreover have "map_of (map (entry_view m) L) i = Some (tb_dsml k, te_source e)"
      using L va none by (simp add: map_add_def)
    ultimately show ?thesis
      using Some assms(2) L e k by (auto simp: tool_memory_find_entry_locked_def)
  qed
qed

lemma put_new_rel:
  assumes "tm_inv m L C" and "i \<noteq> []" and "d \<noteq> []" and "tm_by_id m i = None"
  shows "\<exists>m'. put_new i d s m = Some m' \<and> same_limits m m' \<and>
    tm_rel m' (spec_prune (tool_memory_max_entries m) (tool_memory_max_bytes m) ((i, d, s) # map (entry_view m) L))"
proof -
  obtain m3 a C' where m3: "put_new i d s m = tool_memory_prune_locked m3" "tm_inv m3 (a # L) C'"
      "map (entry_view m3) (a # L) = (i, d, s) # map (entry_view m) L" "same_limits m m3"
    using put_new_inv [OF assms, of s] by (elim exE conjE) (rule that)
  then show ?thesis
    using prune_rel [OF m3(2)] limits_same [OF m3(4)] unfolding m3(1,3) by (auto simp: same_limits_def)
qed

lemma put_rel:
  assumes "tm_rel m V"
  shows "\<exists>m'. tool_memory_put_locked i d s m = Some m' \<and> same_limits m m' \<and>
    tm_rel m' (spec_put (tool_memory_max_entries m) (tool_memory_max_bytes m) i d s V)"
proof (cases "i = [] \<or> d = []")
  case True
  then show ?thesis
    using assms by (auto simp: tool_memory_put_locked_def spec_put_def same_limits_def)
next
  case False
  obtain L C where L: "tm_inv m L C" "map (entry_view m) L = V"
    using assms by (auto simp: tm_rel_def)
  show ?thesis
  proof (cases "tool_memory_find_entry_locked m i")
    case None
    then have by_id: "tm_by_id m i = None" and mo: "map_of V i = None"
      using find_entry [OF L(1), of i] False L(2) by (auto simp: tool_memory_find_entry_locked_def)
    have "filter (\<lambda>c. fst c \<noteq> i) V = V"
      using mo by (auto simp: filter_id_conv map_of_eq_None_iff)
    then have "spec_front i (d, s) V = (i, d, s) # V"
      by (simp add: spec_front_def)
    then show ?thesis
      using put_new_rel [OF L(1) _ _ by_id] None False L(2) mo by (simp add: tool_memory_put_locked_def spec_put_def)
  next
    case (Some a)
    then obtain xs ys e k where a: "L = xs @ a # ys" "tm_e m a = Some e" "tm_b m (te_block e) = Some k" "te_id e = i"
        "map_of V i = Some (tb_dsml k, te_source e)" "filter (\<lambda>c. fst c \<noteq> i) V = map (entry_view m) (xs @ ys)"
      using find_entry [OF L(1), of i] False L(2) by auto
    have inv: "tm_inv m (xs @ a # ys) C"
      using L(1) a(1) by simp
    show ?thesis
    proof (cases "tb_dsml k = d")
      case True
      define src where "src = (if s = TOOL_MEMORY_RAM then TOOL_MEMORY_RAM else te_source e)"
      define m1 where "m1 = (if s = TOOL_MEMORY_RAM then m\<lparr>tm_e := (tm_e m)(a \<mapsto> e\<lparr>te_source := TOOL_MEMORY_RAM\<rparr>)\<rparr> else m)"
      have l1: "lru m1 (xs @ a # ys)"
      proof -
        have "dll (tm_e m1) None (xs @ a # ys) None"
          by (rule dll_cong [where h = "tm_e m"]) (use a(2) tm_invD(1) [OF inv] in \<open>auto simp: m1_def lru_def\<close>)
        then show ?thesis
          using tm_invD(1) [OF inv] unfolding lru_def by (simp add: m1_def)
      qed
      have inv1: "tm_inv m1 (xs @ a # ys) C"
        by (rule tm_inv_relink [OF inv l1]) (use a(2) in \<open>auto simp: m1_def\<close>)
      have e1: "tm_e m1 a = Some (e\<lparr>te_source := src\<rparr>)" "tm_b m1 = tm_b m" "\<And>x. x \<noteq> a \<Longrightarrow> tm_e m1 x = tm_e m x"
        using a(2) by (simp_all add: m1_def src_def)
      obtain m2 where m2: "tool_memory_touch a m1 = Some m2" "tm_inv m2 (a # xs @ ys) C"
          "\<forall>x. map_option attrs (tm_e m2 x) = map_option attrs (tm_e m1 x)" "tm_b m2 = tm_b m1" "same_limits m1 m2"
        using touch_inv [OF inv1] by blast
      have va: "entry_view m2 a = (i, d, src)"
        using m2(3) [rule_format, of a] e1 a(3,4) m2(4) True by (auto simp: entry_view_def Let_def attrs_def)
      have vx: "entry_view m2 x = entry_view m x" if x: "x \<in> set (xs @ ys)" for x
      proof -
        have xa: "x \<noteq> a"
          using x tm_invD(9) [OF inv] by auto
        obtain f where f: "tm_e m x = Some f"
          using tm_invD(2) [OF inv, of x] x by auto
        then show ?thesis
          using m2(3) [rule_format, of x] e1(2) e1(3) [OF xa] m2(4) by (auto simp: entry_view_def Let_def attrs_def)
      qed
      have "map (entry_view m2) (a # xs @ ys) = spec_front i (d, src) V"
        using va vx a(6) by (simp add: spec_front_def)
      moreover have "same_limits m m2"
        using m2(5) by (auto simp: same_limits_def m1_def)
      moreover have "tool_memory_put_locked i d s m = tool_memory_prune_locked m2"
        using Some False a(2,3) True m2(1) by (cases s) (simp_all add: tool_memory_put_locked_def upd_e_def m1_def)
      moreover have "spec_put n b i d s V = spec_prune n b (spec_front i (d, src) V)" for n b
        using False a(5) True by (cases s) (simp_all add: spec_put_def src_def)
      ultimately show ?thesis
        using prune_rel [OF m2(2)] limits_same [of m m2] by (auto simp: same_limits_def)
    next
      case diff: False
      obtain m1 C1 where m1: "tool_memory_remove_entry_locked a m = Some m1" "tm_inv m1 (xs @ ys) C1"
          "map (entry_view m1) (xs @ ys) = map (entry_view m) (xs @ ys)" "same_limits m m1"
        using remove_inv [OF inv] by blast
      have mo: "map_of (map (entry_view m1) (xs @ ys)) i = None"
      proof -
        have "\<forall>c\<in>set (map (entry_view m1) (xs @ ys)). fst c \<noteq> i"
          unfolding m1(3) a(6) [symmetric] by auto
        then show ?thesis
          by (auto simp: map_of_view_None)
      qed
      have by_id: "tm_by_id m1 i = None"
        using find_entry [OF m1(2), of i] mo False by (cases "tm_by_id m1 i") (auto simp: tool_memory_find_entry_locked_def)
      have "spec_put n b i d s V = spec_prune n b ((i, d, s) # map (entry_view m) (xs @ ys))" for n b
        using False a(5,6) diff by (simp add: spec_put_def spec_front_def)
      moreover have "tool_memory_put_locked i d s m = put_new i d s m1"
        using Some False a(2,3) diff m1(1) by (simp add: tool_memory_put_locked_def)
      ultimately show ?thesis
        using put_new_rel [OF m1(2) _ _ by_id, of d s] False m1(4) limits_same [OF m1(4)] unfolding m1(3)
        by (auto simp: same_limits_def)
    qed
  qed
qed

lemma lookup_rel:
  assumes "tm_rel m V"
  shows "\<exists>r m'. tool_memory_lookup_locked i m = Some (r, m') \<and> same_limits m m' \<and>
    map_option (\<lambda>(d, s, b). (d, s)) r = fst (spec_lookup i V) \<and> tm_rel m' (snd (spec_lookup i V)) \<and>
    tm_bytes m' = tm_bytes m \<and> tm_entries m' = tm_entries m"
proof -
  obtain L C where L: "tm_inv m L C" "map (entry_view m) L = V"
    using assms by (auto simp: tm_rel_def)
  have nonempty: "map_of V [] = None"
  proof -
    have "fst (entry_view m x) \<noteq> []" if x: "x \<in> set L" for x
    proof -
      obtain e where "tm_e m x = Some e"
        using tm_invD(2) [OF L(1), of x] x by auto
      then show ?thesis
        using tm_invD(3) [OF L(1)] by (auto simp: id_inv_def entry_view_def Let_def)
    qed
    then show ?thesis
      unfolding L(2) [symmetric] by (simp add: map_of_view_None)
  qed
  show ?thesis
  proof (cases "tool_memory_find_entry_locked m i")
    case None
    then have "map_of V i = None"
      using find_entry [OF L(1), of i] L(2) nonempty by (cases "i = []") auto
    then show ?thesis
      using None assms by (simp add: tool_memory_lookup_locked_def spec_lookup_def same_limits_def)
  next
    case (Some a)
    then have i: "i \<noteq> []"
      by (auto simp: tool_memory_find_entry_locked_def split: if_splits)
    obtain xs ys e k where a: "L = xs @ a # ys" "tm_e m a = Some e" "tm_b m (te_block e) = Some k" "te_id e = i"
        "map_of V i = Some (tb_dsml k, te_source e)" "filter (\<lambda>c. fst c \<noteq> i) V = map (entry_view m) (xs @ ys)"
      using find_entry [OF L(1) i] Some L(2) by auto
    have inv: "tm_inv m (xs @ a # ys) C"
      using L(1) a(1) by simp
    obtain m2 where m2: "tool_memory_touch a m = Some m2" "tm_inv m2 (a # xs @ ys) C"
        "\<forall>x. map_option attrs (tm_e m2 x) = map_option attrs (tm_e m x)" "tm_b m2 = tm_b m" "same_limits m m2"
        "tm_bytes m2 = tm_bytes m" "tm_entries m2 = tm_entries m"
      using touch_inv [OF inv] by blast
    obtain e2 where e2: "tm_e m2 a = Some e2" "attrs e2 = attrs e"
      using m2(3) [rule_format, of a] a(2) by (cases "tm_e m2 a") auto
    have vx: "entry_view m2 x = entry_view m x" if x: "x \<in> set L" for x
    proof -
      obtain f where f: "tm_e m x = Some f"
        using tm_invD(2) [OF L(1), of x] x by auto
      then show ?thesis
        using m2(3) [rule_format, of x] m2(4) by (auto simp: entry_view_def Let_def attrs_def)
    qed
    have va: "entry_view m a = (i, tb_dsml k, te_source e)"
      using a by (simp add: entry_view_def Let_def)
    have "map (entry_view m2) (a # xs @ ys) = spec_front i (tb_dsml k, te_source e) V"
      using vx va a(1,6) by (simp add: spec_front_def)
    then have "tm_rel m2 (spec_front i (tb_dsml k, te_source e) V)"
      using m2(2) by (auto simp: tm_rel_def)
    then show ?thesis
      using Some m2(1,4-) e2 a(3,5) by (auto simp: tool_memory_lookup_locked_def spec_lookup_def attrs_def)
  qed
qed

text \<open>A use of the memory: texts are put for ids, and looked up.\<close>

datatype memory_op = PutText bytes bytes tool_memory_source | FindText bytes

fun memory_run ::
  "memory_op list \<Rightarrow> tool_memory \<Rightarrow> ((bytes \<times> tool_memory_source) option list \<times> tool_memory) option" where
  "memory_run [] m = Some ([], m)"
| "memory_run (PutText i d s # ops) m = Option.bind (tool_memory_put_locked i d s m) (memory_run ops)"
| "memory_run (FindText i # ops) m = Option.bind (tool_memory_lookup_locked i m) (\<lambda>(r, m).
     map_option (\<lambda>(rs, m). (map_option (\<lambda>(d, s, b). (d, s)) r # rs, m)) (memory_run ops m))"

fun spec_run :: "int \<Rightarrow> nat \<Rightarrow> memory_op list \<Rightarrow> call_text list \<Rightarrow> (bytes \<times> tool_memory_source) option list \<times> call_text list" where
  "spec_run n b [] V = ([], V)"
| "spec_run n b (PutText i d s # ops) V = spec_run n b ops (spec_put n b i d s V)"
| "spec_run n b (FindText i # ops) V =
     (case spec_lookup i V of (r, V) \<Rightarrow> (case spec_run n b ops V of (rs, V) \<Rightarrow> (r # rs, V)))"

definition within_limits :: "tool_memory \<Rightarrow> bool" where
  "within_limits m \<longleftrightarrow> tm_entries m \<le> tool_memory_max_entries m \<and> tm_bytes m \<le> tool_memory_max_bytes m"

lemma tm_rel_sizes: "tm_rel m V \<Longrightarrow> tm_entries m = int (length V) \<and> tm_bytes m = memory_bytes V"
  by (auto simp: tm_rel_def dest: tm_invD(5,6))

lemma spec_prune_bounds: "0 \<le> n \<Longrightarrow> int (length (spec_prune n b V)) \<le> n \<and> memory_bytes (spec_prune n b V) \<le> b"
proof (induction n b V rule: spec_prune.induct)
  case (1 n b V)
  show ?case
  proof (cases "(int (length V) > n \<or> memory_bytes V > b) \<and> V \<noteq> []")
    case True
    then show ?thesis
      using 1 by (subst (1 2) spec_prune.simps) simp
  next
    case False
    moreover have "memory_bytes [] = 0"
      by (simp add: memory_bytes_def)
    ultimately show ?thesis
      using "1.prems" by (subst (1 2) spec_prune.simps) (cases "V = []"; simp)
  qed
qed

lemma max_entries_pos: "0 < tool_memory_max_entries m"
  by (simp add: tool_memory_max_entries_def SF37_TOOL_MEMORY_DEFAULT_MAX_IDS_def)

lemma memory_run_rel:
  assumes "tm_rel m V" and "within_limits m" and "tool_memory_max_entries m = n" and "tool_memory_max_bytes m = b"
  shows "\<exists>m'. memory_run ops m = Some (fst (spec_run n b ops V), m') \<and> tm_rel m' (snd (spec_run n b ops V)) \<and>
    within_limits m' \<and> same_limits m m'"
  using assms
proof (induction ops arbitrary: m V)
  case Nil
  then show ?case
    by (simp add: same_limits_def)
next
  case (Cons op ops)
  show ?case
  proof (cases op)
    case (PutText i d s)
    obtain m1 where m1: "tool_memory_put_locked i d s m = Some m1" "same_limits m m1" "tm_rel m1 (spec_put n b i d s V)"
      using put_rel [OF Cons.prems(1), of i d s] Cons.prems(3,4) by blast
    have lim: "tool_memory_max_entries m1 = n" "tool_memory_max_bytes m1 = b"
      using limits_same [OF m1(2)] Cons.prems(3,4) by simp_all
    have "within_limits m1"
    proof (cases "i = [] \<or> d = []")
      case True
      then show ?thesis
        using m1(1) Cons.prems(2) by (auto simp: tool_memory_put_locked_def)
    next
      case False
      have "0 \<le> n"
        using max_entries_pos [of m] Cons.prems(3) by simp
      then show ?thesis
        using tm_rel_sizes [OF m1(3)] spec_prune_bounds [of n b] False lim by (auto simp: within_limits_def spec_put_def)
    qed
    then show ?thesis
      using Cons.IH [OF m1(3) _ lim] m1(1,2) PutText by (auto simp: same_limits_def)
  next
    case (FindText i)
    obtain r m1 where m1: "tool_memory_lookup_locked i m = Some (r, m1)" "same_limits m m1"
        "map_option (\<lambda>(d, s, b). (d, s)) r = fst (spec_lookup i V)" "tm_rel m1 (snd (spec_lookup i V))"
        "tm_bytes m1 = tm_bytes m" "tm_entries m1 = tm_entries m"
      using lookup_rel [OF Cons.prems(1), of i] by blast
    have lim: "tool_memory_max_entries m1 = n" "tool_memory_max_bytes m1 = b"
      using limits_same [OF m1(2)] Cons.prems(3,4) by simp_all
    have "within_limits m1"
      using Cons.prems(2-4) m1(5,6) lim by (simp add: within_limits_def)
    then obtain m2 where "memory_run ops m1 = Some (fst (spec_run n b ops (snd (spec_lookup i V))), m2)"
        "tm_rel m2 (snd (spec_run n b ops (snd (spec_lookup i V))))" "within_limits m2" "same_limits m1 m2"
      using Cons.IH [OF m1(4) _ lim] by blast
    then show ?thesis
      using m1(1-3) FindText by (auto simp: same_limits_def case_prod_beta)
  qed
qed

lemma empty_within: "within_limits (tool_memory_empty n b)"
  using max_entries_pos [of "tool_memory_empty n b"] by (simp add: within_limits_def tool_memory_empty_def)

lemma free_entries_run: "tm_inv m L C \<Longrightarrow> \<exists>m'. free_entries m = Some m' \<and> tm_e m' = Map.empty \<and> tm_b m' = Map.empty"
proof (induction L arbitrary: m C rule: rev_induct)
  case Nil
  note inv = tm_invD [OF Nil]
  have e: "tm_e m = Map.empty"
    using inv(2) by (auto intro!: ext)
  have "tm_b m x = None" for x
  proof (cases "tm_b m x")
    case (Some k)
    then obtain y where "y \<in> set (C x)"
      using block_invD(4) [OF inv(4) Some] by (cases "C x") auto
    then show ?thesis
      using block_invD(5) [OF inv(4) Some] e by auto
  qed
  then have "tm_b m = Map.empty"
    by (intro ext)
  moreover have "free_entries m = Some m"
    using inv(1) by (subst free_entries.simps) (simp add: lru_def)
  ultimately show ?case
    using e by blast
next
  case (snoc a L)
  have inv0: "tm_inv m (L @ a # []) C"
    using snoc.prems by simp
  obtain m1 C1 where m1: "tool_memory_remove_entry_locked a m = Some m1" "tm_inv m1 L C1"
    using remove_inv [OF inv0] by auto
  have "tm_tail m = Some a"
    using tm_invD(1) [OF snoc.prems] by (simp add: lru_def)
  then have "free_entries m = free_entries m1"
    using m1(1) by (subst free_entries.simps) simp
  then show ?case
    using snoc.IH [OF m1(2)] by simp
qed

text \<open>C20: The tool-call memory, with its doubly linked list, its shared and counted text blocks and
  their chains, behaves as a plain list of the calls from the most to the least recently used:
  whatever is put and looked up, no operation follows a freed or null pointer or fails to return,
  and every lookup gives what the list gives.\<close>

theorem memory_refines_lru:
  "\<exists>m. memory_run ops (tool_memory_empty n b) =
     Some (fst (spec_run (tool_memory_max_entries (tool_memory_empty n b)) (tool_memory_max_bytes (tool_memory_empty n b)) ops []), m)"
  using memory_run_rel [OF empty_rel empty_within refl refl] by blast

text \<open>C22: After any use the memory holds no more entries and bytes than its limits, although texts are
  shared and counted once, and freeing it releases every entry and every block.\<close>

theorem memory_bounded_no_leak:
  "case memory_run ops (tool_memory_empty n b) of
     None \<Rightarrow> False
   | Some (rs, m) \<Rightarrow>
       tm_entries m \<le> tool_memory_max_entries (tool_memory_empty n b) \<and> tm_bytes m \<le> tool_memory_max_bytes (tool_memory_empty n b) \<and>
       (case tool_memory_free m of None \<Rightarrow> False | Some m \<Rightarrow> tm_e m = Map.empty \<and> tm_b m = Map.empty)"
proof -
  obtain m V where m: "memory_run ops (tool_memory_empty n b) = Some (V, m)" "within_limits m" "same_limits (tool_memory_empty n b) m"
      "\<exists>W. tm_rel m W"
    using memory_run_rel [OF empty_rel empty_within refl refl] by blast
  obtain L C where "tm_inv m L C"
    using m(4) by (auto simp: tm_rel_def)
  then obtain m' where "free_entries m = Some m'" "tm_e m' = Map.empty" "tm_b m' = Map.empty"
    using free_entries_run by blast
  then show ?thesis
    using m(1,2) limits_same [OF m(3)] by (simp add: within_limits_def tool_memory_free_def)
qed

end
