(* ===== verification/ToolScan.thy ===== *)
theory ToolScan
  imports ServerStream "HOL-Library.Sublist"
begin

section \<open>What the scan for tool calls finds in a text\<close>

text \<open>
  The scan of \<open>find_next_dsml_tool_block\<close> (\<open>sf37_server.c\<close>, modelled in \<open>ServerStream\<close>) against a
  description of the text: a text is cut into segments, each some text without the start of a call,
  perhaps a blank line, and one block from a start mark to its first end mark. The scan finds exactly
  the block of the next segment, and takes the blank line with it.
\<close>

subsection \<open>Segments\<close>

definition block_marks :: "(bytes \<times> bytes) list" where
  "block_marks =
     [(SF37_TOOL_CALLS_START, SF37_TOOL_CALLS_END), (SF37_TOOL_CALLS_START_SHORT, SF37_TOOL_CALLS_END_SHORT),
      (cstr ''<tool_calls>'', cstr ''</tool_calls>''), (cstr ''<tool_call>'', cstr ''</tool_call>'')]"

definition no_call_start :: "bytes \<Rightarrow> bool" where
  "no_call_start s \<longleftrightarrow> list_all (\<lambda>(start, stop). \<not> sublist start s) block_marks"

record segment =
  sg_text :: bytes
  sg_blank :: bool
  sg_marks :: "bytes \<times> bytes"
  sg_body :: bytes

definition blank_line :: "bool \<Rightarrow> bytes" where
  "blank_line b = (if b then [0x0a, 0x0a] else [])"

definition segment_block :: "segment \<Rightarrow> bytes" where
  "segment_block g = blank_line (sg_blank g) @ fst (sg_marks g) @ sg_body g @ snd (sg_marks g)"

definition segment_text :: "segment \<Rightarrow> bytes" where
  "segment_text g = sg_text g @ segment_block g"

definition segment_ok :: "segment \<Rightarrow> bool" where
  "segment_ok g \<longleftrightarrow> sg_marks g \<in> set block_marks \<and> no_call_start (sg_text g) \<and> \<not> sublist (snd (sg_marks g)) (sg_body g) \<and>
     (sg_blank g \<or> \<not> suffix [0x0a, 0x0a] (sg_text g))"

subsection \<open>The marks\<close>

lemmas mark_texts = SF37_TOOL_CALLS_START_def SF37_TOOL_CALLS_END_def SF37_TOOL_CALLS_START_SHORT_def SF37_TOOL_CALLS_END_SHORT_def
  SF37_DSML_def SF37_DSML_SHORT_def

lemma block_mark_chars:
  assumes "(a, b) \<in> set block_marks"
  shows "\<exists>a' b'. a = 0x3c # a' \<and> b = 0x3c # 0x2f # b' \<and> 0x3c \<notin> set a' \<and> 0x0a \<notin> set a' \<and> 0x3c \<notin> set b' \<and> a' \<noteq> [] \<and> hd a' \<noteq> 0x2f"
  using assms by (auto simp: block_marks_def mark_texts)

lemma lit_Cons: "at_lit (c # s) (d # m) \<longleftrightarrow> c = d \<and> at_lit s m" "at_lit s []"
  by (simp_all add: at_lit_def)

lemma block_marks_apart:
  assumes "(a, b) \<in> set block_marks" and "(a', b') \<in> set block_marks" and "at_lit (a @ r) a'"
  shows "a' = a \<and> b' = b"
proof -
  have "list_all (\<lambda>(a, b). list_all (\<lambda>(a', b'). \<forall>r. at_lit (a @ r) a' \<longrightarrow> a' = a \<and> b' = b) block_marks) block_marks"
    by (simp add: block_marks_def mark_texts lit_Cons)
  then show ?thesis
    using assms unfolding list_all_iff by blast
qed

lemma block_forms_marks: "set block_forms = (\<lambda>(q, a, b). (blank_line q @ a, b)) ` (UNIV \<times> set block_marks)"
  by (auto simp: block_forms_def block_marks_def blank_line_def UNIV_bool)

lemma block_form_parts:
  assumes "(start, stop) \<in> set block_forms"
  obtains q x where "start = blank_line q @ x" "(x, stop) \<in> set block_marks"
proof -
  obtain y where "y \<in> UNIV \<times> set block_marks" "(start, stop) = (case y of (q, a, b) \<Rightarrow> (blank_line q @ a, b))"
    using assms unfolding block_forms_marks by blast
  then show thesis
    using that by (cases y) auto
qed

subsection \<open>Occurrences\<close>

lemma occurs_sublist: "occurs_at s m i \<Longrightarrow> sublist m s"
  unfolding occurs_at_def by (metis append_take_drop_id sublist_appendI)

lemma occurs_here: "occurs_at (A @ m @ R) m (length A)"
  by (simp add: occurs_at_def)

lemma occurs_chars:
  assumes "occurs_at s m i" and "m \<noteq> []" and "k < length m"
  shows "s ! (i + k) = m ! k" "i + k < length s"
  using occurs_at_nth [OF assms(1,3)] occurs_at_bound [OF assms(2,1)] assms(3) by simp_all

text \<open>A mark starts with the only \<open><\<close> it holds: it lies in front of a place with a \<open><\<close> or behind it.\<close>

lemma mark_before:
  assumes "0x3c \<notin> set m" and "occurs_at (A @ 0x3c # R) (0x3c # m) i" and "i < length A"
  shows "occurs_at A (0x3c # m) i"
proof -
  have "length A - i \<ge> length (0x3c # m)"
  proof (rule ccontr)
    assume "\<not> ?thesis"
    then have k: "length A - i < length (0x3c # m)" "0 < length A - i"
      using assms(3) by auto
    then have "(A @ 0x3c # R) ! (i + (length A - i)) = (0x3c # m) ! (length A - i)"
      using occurs_chars(1) [OF assms(2), of "length A - i"] by simp
    then have "(0x3c # m) ! (length A - i) = 0x3c"
      using assms(3) by simp
    then have "m ! (length A - i - 1) = 0x3c"
      using k by (simp add: nth_Cons')
    moreover have "length A - i - 1 < length m"
      using k by simp
    ultimately show False
      using assms(1) nth_mem by metis
  qed
  then show ?thesis
    using assms(2) by (simp add: occurs_at_def)
qed

subsection \<open>The next segment\<close>

lemma first_start:
  assumes "segment_ok g" and "p = segment_text g @ R" and "(a, b) \<in> set block_marks" and "occurs_at p (blank_line q @ a) j"
  shows "length (sg_text g) \<le> j" "j = length (sg_text g) \<Longrightarrow> (q, a, b) = (sg_blank g, sg_marks g)"
proof -
  define t where "t = sg_text g"
  obtain a0 b0 where marks: "sg_marks g = (a0, b0)" "(a0, b0) \<in> set block_marks"
    using assms(1) by (cases "sg_marks g") (auto simp: segment_ok_def)
  obtain a0' where a0: "a0 = 0x3c # a0'" "0x3c \<notin> set a0'"
    using block_mark_chars [OF marks(2)] by auto
  obtain a' where a: "a = 0x3c # a'" "0x3c \<notin> set a'" "0x0a \<notin> set a'"
    using block_mark_chars [OF assms(3)] by auto
  define A where "A = t @ blank_line (sg_blank g)"
  define B where "B = a0' @ sg_body g @ b0 @ R"
  have p: "p = A @ 0x3c # B"
    by (simp add: assms(2) segment_text_def segment_block_def marks(1) A_def B_def t_def a0(1))
  define i where "i = j + length (blank_line q)"
  have occ: "occurs_at p a i"
    using arg_cong [OF assms(4) [unfolded occurs_at_def], of "drop (length (blank_line q))"]
    by (simp add: i_def occurs_at_def drop_take add.commute)
  have newline: "blank_line c ! k = 0x0a" if "k < length (blank_line c)" for c k
    using that by (cases c) (auto simp: blank_line_def less_Suc_eq)
  have behind: "length A \<le> i"
  proof (rule ccontr)
    assume "\<not> length A \<le> i"
    then have A_occ: "occurs_at A a i"
      using mark_before [OF a(2), of A B i] occ by (simp add: p a(1))
    have "i + length a \<le> length t"
    proof (rule ccontr)
      assume far: "\<not> ?thesis"
      have "i + length a \<le> length A"
        using occurs_at_bound [OF _ A_occ] a(1) by simp
      then have "A ! (i + (length a - 1)) = 0x0a"
        using far newline [of "i + (length a - 1) - length t" "sg_blank g"] a(1) by (auto simp: A_def nth_append)
      then have "a ! (length a - 1) = 0x0a"
        using occurs_chars(1) [OF A_occ, of "length a - 1"] a(1) by simp
      moreover have "a ! (length a - 1) \<in> set a"
        using a(1) by (intro nth_mem) simp
      ultimately show False
        using a(1,3) by simp
    qed
    then have "occurs_at t a i"
      using A_occ by (simp add: A_def occurs_at_def)
    then have "sublist a t"
      by (rule occurs_sublist)
    then show False
      using assms(1,3) by (auto simp: segment_ok_def no_call_start_def t_def list_all_iff)
  qed
  have here: "(a, b) = (a0, b0)" if "i = length A"
  proof -
    have "at_lit (a0 @ sg_body g @ b0 @ R) a"
      using occ that by (simp add: p B_def a0(1) occurs_at_def at_lit_def)
    then show ?thesis
      using block_marks_apart [OF marks(2) assms(3)] by simp
  qed
  have pos: "length t \<le> j \<and> (j = length t \<longrightarrow> (q, a, b) = (sg_blank g, sg_marks g))"
  proof (cases q)
    case False
    then have "i = j"
      by (simp add: i_def blank_line_def)
    then show ?thesis
      using behind here False by (cases "sg_blank g") (auto simp: A_def blank_line_def marks(1))
  next
    case True
    have i: "i = j + 2"
      using True by (simp add: i_def blank_line_def)
    have nls: "p ! j = 0x0a" "p ! (j + 1) = 0x0a" "j + 1 < length p"
      using occurs_chars [OF assms(4), of 0] occurs_chars [OF assms(4), of 1] True by (simp_all add: blank_line_def)
    have "p ! length A = 0x3c"
      by (simp add: p)
    then have "length A \<noteq> j" "length A \<noteq> j + 1"
      using nls by auto
    then have A: "length A = i \<or> length A < j"
      using behind i by linarith
    show ?thesis
    proof (cases "sg_blank g")
      case blank: True
      then show ?thesis
        using A i here True by (auto simp: A_def blank_line_def marks(1))
    next
      case False
      then have At: "A = t"
        by (simp add: A_def blank_line_def)
      have "length A \<noteq> i"
      proof
        assume "length A = i"
        then have len: "length t = j + 2"
          using At i by simp
        then have "t ! j = 0x0a" "t ! (j + 1) = 0x0a"
          using nls by (simp_all add: p At nth_append)
        then have "drop j t = [0x0a, 0x0a]"
          using len by (intro nth_equalityI) (auto simp: less_Suc_eq numeral_2_eq_2)
        then have "suffix [0x0a, 0x0a] t"
          by (metis suffix_drop)
        then show False
          using assms(1) False by (simp add: segment_ok_def t_def)
      qed
      then show ?thesis
        using A At by auto
    qed
  qed
  then show "length (sg_text g) \<le> j" "j = length (sg_text g) \<Longrightarrow> (q, a, b) = (sg_blank g, sg_marks g)"
    by (simp_all add: t_def)
qed

lemma next_segment:
  assumes "segment_ok g" and "0 \<notin> set (segment_text g @ R)"
  shows "find_next_dsml_tool_block (segment_text g @ R) = Some (length (sg_text g), length (segment_text g))"
proof -
  define p where "p = segment_text g @ R"
  define step where "step = (\<lambda>best (start :: bytes, stop).
        case strstr p start of
          None \<Rightarrow> best
        | Some s \<Rightarrow>
            if best \<noteq> None \<and> s \<ge> fst (the best) then best
            else (case strstr (drop s p) stop of
                    None \<Rightarrow> best
                  | Some e \<Rightarrow> Some (s, s + e + length stop)))"
  obtain a b where marks: "sg_marks g = (a, b)" "(a, b) \<in> set block_marks"
    using assms(1) by (cases "sg_marks g") (auto simp: segment_ok_def)
  obtain a' b' where ab: "a = 0x3c # a'" "b = 0x3c # 0x2f # b'" "0x3c \<notin> set a'" "0x3c \<notin> set b'" "a' \<noteq> []" "hd a' \<noteq> 0x2f"
    using block_mark_chars [OF marks(2)] by auto
  let ?t = "sg_text g" and ?q = "blank_line (sg_blank g)"
  define f where "f = (?q @ a, b)"
  define good where "good = Some (length ?t, length (segment_text g))"
  have nul: "0 \<notin> set p"
    using assms(2) by (simp add: p_def)
  have p: "p = ?t @ (?q @ a) @ sg_body g @ b @ R"
    by (simp add: p_def segment_text_def segment_block_def marks(1))
  have late: "s > length ?t" if form: "(start, stop) \<in> set block_forms" and other: "(start, stop) \<noteq> f" and at: "strstr p start = Some s" for start stop s
  proof -
    obtain q x where x: "start = blank_line q @ x" "(x, stop) \<in> set block_marks"
      using block_form_parts [OF form] by blast
    have ne: "start \<noteq> []"
      using block_mark_chars [OF x(2)] x(1) by auto
    have "occurs_at p (blank_line q @ x) s"
      using strstr_Some [OF nul ne] at x(1) by simp
    from first_start [OF assms(1) p_def x(2) this] show ?thesis
      using other x(1) by (cases "s = length ?t") (auto simp: f_def marks(1))
  qed
  have found: "strstr p (fst f) = Some (length ?t)"
  proof -
    have ne: "fst f \<noteq> []"
      by (simp add: f_def ab(1))
    have "occurs_at p (fst f) (length ?t)"
      unfolding f_def p by (simp add: occurs_at_def)
    moreover have "\<not> occurs_at p (fst f) j" if "j < length ?t" for j
      using first_start(1) [OF assms(1) p_def marks(2), of "sg_blank g" j] that by (auto simp: f_def)
    ultimately show ?thesis
      using strstr_Some [OF nul ne] by simp
  qed
  have stop: "strstr (drop (length ?t) p) b = Some (length (?q @ a @ sg_body g))"
  proof -
    have rest: "drop (length ?t) p = (?q @ a @ sg_body g) @ 0x3c # ((0x2f # b') @ R)"
      by (simp add: p ab(2))
    have "occurs_at (drop (length ?t) p) b (length (?q @ a @ sg_body g))"
      unfolding rest by (simp add: occurs_at_def ab(2))
    moreover have "\<not> occurs_at (drop (length ?t) p) b j" if j: "j < length (?q @ a @ sg_body g)" for j
    proof
      assume "occurs_at (drop (length ?t) p) b j"
      then have occ: "occurs_at (?q @ a @ sg_body g) b j"
        using mark_before [of "0x2f # b'" "?q @ a @ sg_body g" "(0x2f # b') @ R" j] j ab(4) unfolding rest by (simp add: ab(2))
      have chars: "(?q @ a @ sg_body g) ! j = 0x3c" "(?q @ a @ sg_body g) ! (j + 1) = 0x2f"
        using occurs_chars(1) [OF occ, of 0] occurs_chars(1) [OF occ, of 1] by (simp_all add: ab(2))
      consider "j < length ?q" | "j = length ?q" | "length ?q < j" "j < length (?q @ a)" | "length (?q @ a) \<le> j"
        by linarith
      then show False
      proof cases
        case 1
        then show False
          using chars(1) by (cases "sg_blank g") (auto simp: blank_line_def nth_append less_Suc_eq)
      next
        case 2
        then show False
          using chars(2) ab(1,5,6) by (cases a') (auto simp: nth_append)
      next
        case 3
        then have "j - length ?q < length a" "0 < j - length ?q"
          by auto
        moreover from this have "a ! (j - length ?q) = 0x3c"
          using chars(1) by (simp add: nth_append)
        ultimately have "a ! (j - length ?q) = 0x3c" "0 < j - length ?q" "j - length ?q < length a"
          by blast+
        then have "a' ! (j - length ?q - 1) = 0x3c" "j - length ?q - 1 < length a'"
          using ab(1) by (simp_all add: nth_Cons')
        then show False
          using ab(3) nth_mem by metis
      next
        case 4
        then have "occurs_at (sg_body g) b (j - length (?q @ a))"
          using occ by (simp add: occurs_at_def)
        then show False
          using occurs_sublist assms(1) marks(1) by (fastforce simp: segment_ok_def)
      qed
    qed
    moreover have "0 \<notin> set (drop (length ?t) p)"
      using nul by (auto dest: in_set_dropD)
    ultimately show ?thesis
      using strstr_Some [of "drop (length ?t) p" b] by (simp add: ab(2))
  qed
  have take_it: "step best f = good" if "best = None \<or> length ?t < fst (the best)" for best
    using that found stop by (auto simp: step_def f_def good_def segment_text_def segment_block_def marks(1))
  have skip: "step good x = good" if "x \<in> set block_forms" for x
  proof (cases "x = f")
    case True
    then show ?thesis
      using found by (simp add: step_def f_def good_def)
  next
    case False
    then show ?thesis
      using late [of "fst x" "snd x"] that by (cases x) (auto simp: step_def good_def split: option.split)
  qed
  have early: "step best x = None \<or> length ?t < fst (the (step best x))" if "x \<in> set block_forms" "x \<noteq> f" "best = None \<or> length ?t < fst (the best)" for best x
    using late [of "fst x" "snd x"] that by (cases x) (auto simp: step_def split: option.split)
  have "foldl step best fs = good"
    if "set fs \<subseteq> set block_forms" "best = good \<or> (f \<in> set fs \<and> (best = None \<or> length ?t < fst (the best)))" for fs best
    using that
  proof (induction fs arbitrary: best)
    case (Cons x fs)
    have "step best x = good \<or> (f \<in> set fs \<and> (step best x = None \<or> length ?t < fst (the (step best x))))"
    proof (cases "best = good")
      case False
      then show ?thesis
        using Cons.prems take_it [of best] early [of x best] by (cases "x = f") auto
    qed (use skip Cons.prems(1) in simp)
    then show ?case
      using Cons by simp
  qed auto
  moreover have "f \<in> set block_forms"
    using marks(2) unfolding block_forms_marks f_def by force
  ultimately have "foldl step None block_forms = good"
    by blast
  then show ?thesis
    unfolding find_next_dsml_tool_block_def step_def good_def p_def .
qed

lemma no_segment:
  assumes "no_call_start s" and "0 \<notin> set s"
  shows "find_next_dsml_tool_block s = None"
proof -
  have none: "strstr s start = None" if form: "(start, stop) \<in> set block_forms" for start stop
  proof -
    obtain q x where x: "start = blank_line q @ x" "(x, stop) \<in> set block_marks"
      using block_form_parts [OF form] by blast
    have "\<not> sublist start s"
      using assms(1) x sublist_order.order.trans [of x start s] by (fastforce simp: no_call_start_def list_all_iff)
    then show ?thesis
      using strstr_None [OF assms(2), of start] occurs_sublist block_mark_chars [OF x(2)] x(1) by auto
  qed
  have "foldl (\<lambda>best (start, stop).
        case strstr s start of
          None \<Rightarrow> best
        | Some i \<Rightarrow>
            if best \<noteq> None \<and> i \<ge> fst (the best) then best
            else (case strstr (drop i s) stop of
                    None \<Rightarrow> best
                  | Some e \<Rightarrow> Some (i, i + e + length stop))) None fs = None" if "set fs \<subseteq> set block_forms" for fs
    using that none by (induction fs) (auto split: option.split)
  then show ?thesis
    by (simp add: find_next_dsml_tool_block_def)
qed

end
