(* ===== verification/ToolMap.thy ===== *)
theory ToolMap
  imports ToolMemory KvStore ToolScan
begin

section \<open>Replaying tool calls\<close>

text \<open>
  What the server of \<open>sf37_server.c\<close> does with the memory of tool calls: it remembers the text of a
  generated message under the ids of its calls, gives a message of a later request its exact text
  back when all its ids stand for the same text, and keeps the texts that a stored checkpoint
  contains in the trailer of the checkpoint file. \<open>disabled\<close> is the option that turns exact replay
  off. A file is the list of the bytes not read yet; a write that fails is an event of the store.
\<close>

subsection \<open>Remembering and giving back\<close>

record tool_call =
  tc_id :: bytes
  tc_name :: bytes
  tc_arguments :: bytes

record tool_calls =
  tcs_v :: "tool_call list"
  tcs_raw_dsml :: "bytes option"

record tool_replay_stats =
  trs_mem :: int
  trs_disk :: int
  trs_canonical :: int
  trs_missing_ids :: int

definition tool_memory_has_id :: "bool \<Rightarrow> bytes \<Rightarrow> tool_memory \<Rightarrow> bool" where
  "tool_memory_has_id disabled i m \<longleftrightarrow> \<not> (disabled \<or> i = []) \<and> tool_memory_find_entry_locked m i \<noteq> None"

fun put_ids :: "bytes \<Rightarrow> tool_call list \<Rightarrow> tool_memory \<Rightarrow> tool_memory option" where
  "put_ids dsml [] m = Some m"
| "put_ids dsml (c # cs) m = Option.bind (tool_memory_put_locked (tc_id c) dsml TOOL_MEMORY_RAM m) (put_ids dsml cs)"

definition tool_memory_remember :: "bool \<Rightarrow> tool_calls \<Rightarrow> tool_memory \<Rightarrow> tool_memory option" where
  "tool_memory_remember disabled calls m =
     (case tcs_raw_dsml calls of
        None \<Rightarrow> Some m
      | Some dsml \<Rightarrow> if disabled \<or> dsml = [] then Some m else put_ids dsml (tcs_v calls) m)"

definition tool_memory_put_source :: "bool \<Rightarrow> bytes \<Rightarrow> bytes \<Rightarrow> tool_memory_source \<Rightarrow> tool_memory \<Rightarrow> tool_memory option" where
  "tool_memory_put_source disabled i dsml source m =
     (if disabled \<or> i = [] \<or> dsml = [] then Some m else tool_memory_put_locked i dsml source m)"

text \<open>The inner loop of \<open>tool_memory_attach_to_messages\<close>: the block all ids stand for so far, its
  source, whether they agree, and how many are missing.\<close>

fun attach_calls ::
  "tool_call list \<Rightarrow> addr option \<times> tool_memory_source \<times> bool \<times> int \<Rightarrow> tool_memory \<Rightarrow>
   ((addr option \<times> tool_memory_source \<times> bool \<times> int) \<times> tool_memory) option" where
  "attach_calls [] st m = Some (st, m)"
| "attach_calls (c # cs) (matched, matched_source, exact, missing) m =
     Option.bind (tool_memory_lookup_locked (tc_id c) m) (\<lambda>(r, m).
       case r of
         None \<Rightarrow> attach_calls cs (matched, matched_source, False, missing + 1) m
       | Some (dsml, source, block) \<Rightarrow>
           let (matched, matched_source, exact) =
             (case matched of
                None \<Rightarrow> (Some block, source, exact)
              | Some b \<Rightarrow> (Some b, matched_source, exact \<and> b = block));
             matched_source = (if source = TOOL_MEMORY_RAM then TOOL_MEMORY_RAM else matched_source)
           in attach_calls cs (matched, matched_source, exact, missing) m)"

definition attach_message ::
  "tool_calls \<Rightarrow> tool_replay_stats \<Rightarrow> tool_memory \<Rightarrow> ((tool_calls \<times> tool_replay_stats) \<times> tool_memory) option" where
  "attach_message calls stats m =
     (if tcs_v calls = [] \<or> tcs_raw_dsml calls \<noteq> None then Some ((calls, stats), m)
      else do {
        ((matched, matched_source, exact, missing), m) \<leftarrow> attach_calls (tcs_v calls) (None, TOOL_MEMORY_DISK, True, 0) m;
        case (if exact then matched else None) of
          Some b \<Rightarrow> do {
            blk \<leftarrow> tm_b m b;
            Some ((calls\<lparr>tcs_raw_dsml := Some (tb_dsml blk)\<rparr>,
                   if matched_source = TOOL_MEMORY_RAM then stats\<lparr>trs_mem := trs_mem stats + 1\<rparr>
                   else stats\<lparr>trs_disk := trs_disk stats + 1\<rparr>), m)
          }
        | None \<Rightarrow>
            Some ((calls, stats\<lparr>trs_canonical := trs_canonical stats + 1, trs_missing_ids := trs_missing_ids stats + missing\<rparr>), m)
      })"

text \<open>Over the messages of a request; without a memory only the statistics are kept.\<close>

fun attach_messages ::
  "tool_calls list \<Rightarrow> tool_replay_stats \<Rightarrow> tool_memory \<Rightarrow> ((tool_calls list \<times> tool_replay_stats) \<times> tool_memory) option" where
  "attach_messages [] stats m = Some (([], stats), m)"
| "attach_messages (c # cs) stats m = do {
     ((c, stats), m) \<leftarrow> attach_message c stats m;
     ((cs, stats), m) \<leftarrow> attach_messages cs stats m;
     Some ((c # cs, stats), m)
   }"

definition tool_memory_attach_to_messages ::
  "bool \<Rightarrow> tool_calls list \<Rightarrow> tool_replay_stats \<Rightarrow> tool_memory \<Rightarrow> ((tool_calls list \<times> tool_replay_stats) \<times> tool_memory) option" where
  "tool_memory_attach_to_messages disabled msgs stats m =
     (if disabled then
        Some ((msgs, foldl (\<lambda>st calls. if tcs_v calls = [] \<or> tcs_raw_dsml calls \<noteq> None then st
                            else st\<lparr>trs_canonical := trs_canonical st + 1,
                                    trs_missing_ids := trs_missing_ids st + int (length (tcs_v calls))\<rparr>) stats msgs), m)
      else attach_messages msgs stats m)"

subsection \<open>The trailer of a checkpoint file\<close>

definition KV_TOOL_MAP_HEADER :: nat where "KV_TOOL_MAP_HEADER = 8"
definition KV_TOOL_MAP_MAGIC :: bytes where "KV_TOOL_MAP_MAGIC = cstr ''KTM'' @ [1]"

lemma find_next_pos: "find_next_dsml_tool_block p = Some (s, e) \<Longrightarrow> p \<noteq> [] \<and> 0 < e"
proof -
  define step where "step = (\<lambda>best (start :: bytes, stop).
        case strstr p start of
          None \<Rightarrow> best
        | Some s \<Rightarrow>
            if best \<noteq> None \<and> s \<ge> fst (the best) then best
            else (case strstr (drop s p) stop of
                    None \<Rightarrow> best
                  | Some e \<Rightarrow> Some (s, s + e + length stop)))"
  have forms: "list_all (\<lambda>(a, b). a \<noteq> [] \<and> b \<noteq> []) block_forms"
    by (simp add: block_forms_def SF37_TOOL_CALLS_START_def SF37_TOOL_CALLS_END_def SF37_TOOL_CALLS_START_SHORT_def
        SF37_TOOL_CALLS_END_SHORT_def)
  have "foldl step best fs = Some (s, e) \<Longrightarrow> (\<And>s e. best = Some (s, e) \<Longrightarrow> p \<noteq> [] \<and> 0 < e) \<Longrightarrow> p \<noteq> [] \<and> 0 < e"
    if "list_all (\<lambda>(a, b). a \<noteq> [] \<and> b \<noteq> []) fs" for fs best
    using that
  proof (induction fs arbitrary: best)
    case (Cons f fs)
    obtain a b where f: "f = (a, b)" "a \<noteq> []" "b \<noteq> []"
      using Cons.prems(3) by (cases f) auto
    have "p \<noteq> [] \<and> 0 < e'" if "step best f = Some (s', e')" for s' e'
      using that Cons.prems(2) f by (auto simp: step_def strstr_def until_nul_def split: option.splits if_splits)
    then show ?case
      using Cons.IH [of "step best f"] Cons.prems by simp
  qed auto
  then show "find_next_dsml_tool_block p = Some (s, e) \<Longrightarrow> p \<noteq> [] \<and> 0 < e"
    using forms unfolding find_next_dsml_tool_block_def step_def [symmetric] by (metis option.distinct(1))
qed

text \<open>The ids of the entries along a chain.\<close>

partial_function (option) chain_ids :: "tool_memory \<Rightarrow> addr option \<Rightarrow> bytes list option" where
  [code]: "chain_ids m c =
     (case c of
        None \<Rightarrow> Some []
      | Some x \<Rightarrow> Option.bind (tm_e m x) (\<lambda>e. Option.bind (chain_ids m (te_block_next e)) (\<lambda>is. Some (te_id e # is))))"

text \<open>The count and the size an entry adds: \<open>None\<close> when they do not fit.\<close>

definition measure_entry :: "nat \<Rightarrow> u32 \<times> u64 \<Rightarrow> bytes \<Rightarrow> (u32 \<times> u64) option" where
  "measure_entry dsml_len acc i =
     (case acc of (cnt, bytes) \<Rightarrow>
      if length i > 2 ^ 32 - 1 \<or> dsml_len > 2 ^ 32 - 1 then Some (cnt, bytes)
      else if cnt = - 1 then None
      else if - 1 - bytes < 8 \<or> unat (- 1 - bytes - 8) < length i \<or> unat (- 1 - bytes - 8 - of_nat (length i)) < dsml_len then None
      else Some (cnt + 1, bytes + (8 + of_nat (length i) + of_nat dsml_len)))"

fun measure_entries :: "nat \<Rightarrow> u32 \<times> u64 \<Rightarrow> bytes list \<Rightarrow> (u32 \<times> u64) option" where
  "measure_entries dsml_len acc [] = Some acc"
| "measure_entries dsml_len acc (i # is) = Option.bind (measure_entry dsml_len acc i) (\<lambda>acc. measure_entries dsml_len acc is)"

text \<open>The block for the next text found, when this scan has not seen it; it is marked.\<close>

definition scan_block :: "u64 \<Rightarrow> bytes \<Rightarrow> tool_memory \<Rightarrow> (tool_memory_block option \<times> tool_memory) option" where
  "scan_block scan dsml m =
     (case tool_memory_find_block_locked m dsml of
        None \<Rightarrow> Some (None, m)
      | Some b \<Rightarrow> do {
          blk \<leftarrow> tm_b m b;
          if tb_seen blk = scan then Some (None, m)
          else do { m \<leftarrow> upd_b b (\<lambda>x. x\<lparr>tb_seen := scan\<rparr>) m; Some (Some blk, m) }
        })"

function measure_loop :: "u64 \<Rightarrow> bytes \<Rightarrow> u32 \<times> u64 \<Rightarrow> tool_memory \<Rightarrow> ((u32 \<times> u64) option \<times> tool_memory) option" where
  "measure_loop scan p acc m =
     (case find_next_dsml_tool_block p of
        None \<Rightarrow> Some (Some acc, m)
      | Some (s, e) \<Rightarrow>
          Option.bind (scan_block scan (drop s (take e p)) m) (\<lambda>(found, m).
            case found of
              None \<Rightarrow> measure_loop scan (drop e p) acc m
            | Some blk \<Rightarrow>
                Option.bind (chain_ids m (tb_entries blk)) (\<lambda>is.
                  case measure_entries (length (tb_dsml blk)) acc is of
                    None \<Rightarrow> Some (None, m)
                  | Some acc \<Rightarrow> measure_loop scan (drop e p) acc m)))"
  by pat_completeness auto
termination
  by (relation "measure (\<lambda>(scan, p, acc, m). length p)") (auto dest: find_next_pos)

declare measure_loop.simps [simp del]

definition kv_tool_map_measure_locked :: "bytes \<Rightarrow> tool_memory \<Rightarrow> ((u32 \<times> u64) option \<times> tool_memory) option" where
  "kv_tool_map_measure_locked text0 m =
     (let m = m\<lparr>tm_scan_clock := tm_scan_clock m + 1\<rparr>
      in map_option (\<lambda>(r, m). (map_option (\<lambda>(cnt, bytes). (cnt, if cnt = 0 then 0 else bytes)) r, m))
           (measure_loop (tm_scan_clock m) text0 (0, of_nat KV_TOOL_MAP_HEADER) m))"

definition kv_tool_map_serialized_size :: "bool \<Rightarrow> bytes \<Rightarrow> tool_memory \<Rightarrow> ((bool \<times> u64) \<times> tool_memory) option" where
  "kv_tool_map_serialized_size disabled text0 m =
     (if disabled \<or> text0 = [] then Some ((True, 0), m)
      else map_option (\<lambda>(r, m). ((case r of None \<Rightarrow> (False, 0) | Some (cnt, bytes) \<Rightarrow> (True, bytes)), m))
             (kv_tool_map_measure_locked text0 m))"

definition entry_record :: "bytes \<Rightarrow> bytes \<Rightarrow> bytes" where
  "entry_record dsml i =
     (if length i > 2 ^ 32 - 1 \<or> length dsml > 2 ^ 32 - 1 then []
      else sf37_kvstore_le_put32 (of_nat (length i)) @ sf37_kvstore_le_put32 (of_nat (length dsml)) @ i @ dsml)"

function write_loop :: "u64 \<Rightarrow> bytes \<Rightarrow> tool_memory \<Rightarrow> (bytes \<times> tool_memory) option" where
  "write_loop scan p m =
     (case find_next_dsml_tool_block p of
        None \<Rightarrow> Some ([], m)
      | Some (s, e) \<Rightarrow>
          Option.bind (scan_block scan (drop s (take e p)) m) (\<lambda>(found, m).
            case found of
              None \<Rightarrow> write_loop scan (drop e p) m
            | Some blk \<Rightarrow>
                Option.bind (chain_ids m (tb_entries blk)) (\<lambda>is.
                  map_option (\<lambda>(w, m). (concat (map (entry_record (tb_dsml blk)) is) @ w, m)) (write_loop scan (drop e p) m))))"
  by pat_completeness auto
termination
  by (relation "measure (\<lambda>(scan, p, m). length p)") (auto dest: find_next_pos)

declare write_loop.simps [simp del]

definition kv_tool_map_write :: "bool \<Rightarrow> bytes \<Rightarrow> tool_memory \<Rightarrow> ((bool \<times> bytes \<times> u64) \<times> tool_memory) option" where
  "kv_tool_map_write disabled text0 m =
     (if disabled \<or> text0 = [] then Some ((True, [], 0), m)
      else Option.bind (kv_tool_map_measure_locked text0 m) (\<lambda>(r, m).
        case r of
          None \<Rightarrow> Some ((False, [], 0), m)
        | Some (cnt, bytes) \<Rightarrow>
            if cnt = 0 then Some ((True, [], 0), m)
            else let m = m\<lparr>tm_scan_clock := tm_scan_clock m + 1\<rparr>
                 in map_option (\<lambda>(w, m). ((True, KV_TOOL_MAP_MAGIC @ sf37_kvstore_le_put32 cnt @ w, bytes), m))
                      (write_loop (tm_scan_clock m) text0 m)))"

text \<open>The loop of \<open>kv_tool_map_load_from_pos\<close>; an id and a text are C strings.\<close>

fun load_loop :: "nat \<Rightarrow> bytes \<Rightarrow> stop_list option \<Rightarrow> int \<Rightarrow> tool_memory \<Rightarrow> (int \<times> tool_memory) option" where
  "load_loop 0 fp wanted loaded m = Some (loaded, m)"
| "load_loop (Suc n) fp wanted loaded m =
     (if length fp < 8 then Some (loaded, m)
      else let id_len = unat (sf37_kvstore_le_get32 fp); dsml_len = unat (sf37_kvstore_le_get32 (drop 4 fp)); fp = drop 8 fp
      in if id_len = 0 \<or> id_len > 256 \<or> dsml_len = 0 \<or> dsml_len > SF37_TOOL_MEMORY_MAX_BYTES then Some (loaded, m)
         else if length fp < id_len + dsml_len then Some (loaded, m)
         else let i = until_nul (take id_len fp); dsml = until_nul (take dsml_len (drop id_len fp));
                  fp = drop (id_len + dsml_len) fp
              in if case wanted of None \<Rightarrow> True | Some ids \<Rightarrow> id_list_contains ids i
                 then Option.bind (tool_memory_put_source False i dsml TOOL_MEMORY_DISK m) (load_loop n fp wanted (loaded + 1))
                 else load_loop n fp wanted loaded m)"

definition kv_tool_map_load_from_pos :: "bool \<Rightarrow> bytes \<Rightarrow> stop_list option \<Rightarrow> tool_memory \<Rightarrow> (int \<times> tool_memory) option" where
  "kv_tool_map_load_from_pos disabled fp wanted m =
     (if disabled \<or> length fp < KV_TOOL_MAP_HEADER \<or> take 4 fp \<noteq> KV_TOOL_MAP_MAGIC then Some (0, m)
      else let cnt = sf37_kvstore_le_get32 (drop 4 fp)
           in if uint cnt > tool_memory_max_entries m * 4 then Some (0, m)
              else load_loop (unat cnt) (drop 8 fp) wanted 0 m)"

text \<open>The hooks the checkpoint store calls. The marks of a scan are its own, so the store need not keep
  the memory a hook leaves behind.\<close>

definition KV_EXT_TOOL_MAP :: byte where "KV_EXT_TOOL_MAP = 1"

definition kv_cache_tool_map_hooks :: "bool \<Rightarrow> stop_list option \<Rightarrow> tool_memory trailer_hooks" where
  "kv_cache_tool_map_hooks disabled wanted =
     \<lparr>th_ext_flag = KV_EXT_TOOL_MAP,
      th_serialized_size = Some (\<lambda>m text0. fst (the (kv_tool_map_serialized_size disabled text0 m))),
      th_write = Some (\<lambda>m text0. fst (the (kv_tool_map_write disabled text0 m))),
      th_load = Some (\<lambda>m fp. snd (the (kv_tool_map_load_from_pos disabled fp wanted m)))\<rparr>"

subsection \<open>What a scan of a text finds\<close>

function tool_blocks :: "bytes \<Rightarrow> bytes list" where
  "tool_blocks p = (case find_next_dsml_tool_block p of None \<Rightarrow> [] | Some (s, e) \<Rightarrow> drop s (take e p) # tool_blocks (drop e p))"
  by pat_completeness auto
termination
  by (relation "measure length") (auto dest: find_next_pos)

declare tool_blocks.simps [simp del]

fun new_texts :: "(bytes \<Rightarrow> bool) \<Rightarrow> bytes set \<Rightarrow> bytes list \<Rightarrow> bytes list" where
  "new_texts P S [] = []"
| "new_texts P S (d # ds) = (if P d \<and> d \<notin> S then d # new_texts P (insert d S) ds else new_texts P S ds)"

lemma new_texts_set: "set (new_texts P S ds) = {d \<in> set ds. P d \<and> d \<notin> S} \<and> distinct (new_texts P S ds)"
  by (induction P S ds rule: new_texts.induct) auto

text \<open>A scan changes marks only.\<close>

definition same_but_marks :: "tool_memory \<Rightarrow> tool_memory \<Rightarrow> bool" where
  "same_but_marks m m' \<longleftrightarrow> m' = m\<lparr>tm_b := tm_b m'\<rparr> \<and>
     (\<forall>b. map_option (\<lambda>k. k\<lparr>tb_seen := 0\<rparr>) (tm_b m' b) = map_option (\<lambda>k. k\<lparr>tb_seen := 0\<rparr>) (tm_b m b))"

lemma same_but_marks_refl [simp]: "same_but_marks m m"
  by (simp add: same_but_marks_def)

lemma same_but_marks_fields:
  assumes "same_but_marks m m'"
  shows "tm_e m' = tm_e m" "tm_by_id m' = tm_by_id m" "tm_by_block m' = tm_by_block m" "tm_head m' = tm_head m" "tm_tail m' = tm_tail m"
    "tm_entries m' = tm_entries m" "tm_bytes m' = tm_bytes m" "tm_fresh m' = tm_fresh m" "tm_scan_clock m' = tm_scan_clock m"
    "tm_max_entries m' = tm_max_entries m" "tm_max_bytes m' = tm_max_bytes m"
proof -
  have e: "m' = m\<lparr>tm_b := tm_b m'\<rparr>"
    using assms by (simp add: same_but_marks_def)
  show "tm_e m' = tm_e m" "tm_by_id m' = tm_by_id m" "tm_by_block m' = tm_by_block m" "tm_head m' = tm_head m" "tm_tail m' = tm_tail m"
    "tm_entries m' = tm_entries m" "tm_bytes m' = tm_bytes m" "tm_fresh m' = tm_fresh m" "tm_scan_clock m' = tm_scan_clock m"
    "tm_max_entries m' = tm_max_entries m" "tm_max_bytes m' = tm_max_bytes m"
    by (subst e, simp)+
qed

lemma same_but_marks_block:
  assumes "same_but_marks m m'"
  shows "tm_b m' b = None \<longleftrightarrow> tm_b m b = None"
    and "tm_b m' b = Some k' \<Longrightarrow> \<exists>k. tm_b m b = Some k \<and> tb_dsml k' = tb_dsml k \<and> tb_bytes k' = tb_bytes k \<and> tb_refs k' = tb_refs k \<and> tb_entries k' = tb_entries k"
    and "tm_b m b = Some k \<Longrightarrow> \<exists>k'. tm_b m' b = Some k' \<and> tb_dsml k' = tb_dsml k \<and> tb_bytes k' = tb_bytes k \<and> tb_refs k' = tb_refs k \<and> tb_entries k' = tb_entries k"
proof -
  have e: "map_option (\<lambda>k. k\<lparr>tb_seen := 0\<rparr>) (tm_b m' b) = map_option (\<lambda>k. k\<lparr>tb_seen := 0\<rparr>) (tm_b m b)"
    using assms by (simp add: same_but_marks_def)
  show "tm_b m' b = None \<longleftrightarrow> tm_b m b = None"
    using e by (cases "tm_b m b"; cases "tm_b m' b") auto
  have f: "map_option (\<lambda>k. (tb_dsml k, tb_bytes k, tb_refs k, tb_entries k)) (tm_b m' b) = map_option (\<lambda>k. (tb_dsml k, tb_bytes k, tb_refs k, tb_entries k)) (tm_b m b)"
    using arg_cong [OF e, of "map_option (\<lambda>k. (tb_dsml k, tb_bytes k, tb_refs k, tb_entries k))"] by (simp add: option.map_comp o_def)
  show "tm_b m' b = Some k' \<Longrightarrow> \<exists>k. tm_b m b = Some k \<and> tb_dsml k' = tb_dsml k \<and> tb_bytes k' = tb_bytes k \<and> tb_refs k' = tb_refs k \<and> tb_entries k' = tb_entries k"
    using f by (cases "tm_b m b") auto
  show "tm_b m b = Some k \<Longrightarrow> \<exists>k'. tm_b m' b = Some k' \<and> tb_dsml k' = tb_dsml k \<and> tb_bytes k' = tb_bytes k \<and> tb_refs k' = tb_refs k \<and> tb_entries k' = tb_entries k"
    using f by (cases "tm_b m' b") auto
qed

lemma same_but_marks_trans: "same_but_marks m m' \<Longrightarrow> same_but_marks m' m'' \<Longrightarrow> same_but_marks m m''"
proof -
  assume a: "same_but_marks m m'" "same_but_marks m' m''"
  have "m'' = m'\<lparr>tm_b := tm_b m''\<rparr>" "m' = m\<lparr>tm_b := tm_b m'\<rparr>"
    using a by (simp_all add: same_but_marks_def)
  then have "m'' = m\<lparr>tm_b := tm_b m', tm_b := tm_b m''\<rparr>"
    by simp
  then show ?thesis
    using a by (simp add: same_but_marks_def)
qed

lemma marks_inv:
  assumes "tm_inv m L C" and "same_but_marks m m'" and "\<And>b k. tm_b m' b = Some k \<Longrightarrow> tb_seen k \<le> tm_scan_clock m"
  shows "tm_inv m' L C" and "entry_view m' x = entry_view m x \<or> x \<notin> set L"
proof -
  note inv = tm_invD [OF assms(1)]
  note f = same_but_marks_fields [OF assms(2)]
  note b = same_but_marks_block [OF assms(2)]
  have view: "entry_view m' x = entry_view m x" if x: "x \<in> set L" for x
  proof -
    obtain e where e: "tm_e m x = Some e"
      using inv(2) [of x] x by auto
    obtain k where k: "tm_b m (te_block e) = Some k"
      using block_invD(2) [OF inv(4) e] by auto
    obtain k' where "tm_b m' (te_block e) = Some k'" "tb_dsml k' = tb_dsml k"
      using b(3) [OF k] by blast
    then show ?thesis
      using e k f(1) by (simp add: entry_view_def Let_def)
  qed
  then show "entry_view m' x = entry_view m x \<or> x \<notin> set L"
    by blast
  have lru: "lru m' L"
    using inv(1) f(1,4,5) by (simp add: lru_def)
  have ids: "id_inv m'"
    using inv(3) f(1,2) by (simp add: id_inv_def)
  have blk: "block_inv m' C"
    unfolding block_inv_def
  proof (intro conjI allI impI)
    fix d c
    show "tm_by_block m' d = Some c \<longleftrightarrow> (\<exists>k. tm_b m' c = Some k \<and> tb_dsml k = d)"
      using block_invD(1) [OF inv(4), of d c] b(2,3) [of c] f(3) by metis
  next
    fix a e
    assume "tm_e m' a = Some e"
    then have "tm_e m a = Some e"
      using f(1) by simp
    then show "tm_b m' (te_block e) \<noteq> None" "a \<in> set (C (te_block e))"
      using block_invD(2) [OF inv(4)] b(1) by blast+
  next
    fix c k'
    assume "tm_b m' c = Some k'"
    then obtain k where k: "tm_b m c = Some k" "tb_dsml k' = tb_dsml k" "tb_bytes k' = tb_bytes k" "tb_refs k' = tb_refs k" "tb_entries k' = tb_entries k"
      using b(2) by blast
    show "tb_dsml k' \<noteq> []" "tb_bytes k' = length (tb_dsml k') + 1 + SIZEOF_BLOCK" "C c \<noteq> []" "distinct (C c)"
      "chain (tm_e m') (tb_entries k') (C c)" "tb_refs k' = int (length (C c))" "\<forall>a\<in>set (C c). \<exists>e. tm_e m' a = Some e \<and> te_block e = c"
      using k(2-) f(1) block_invD(3,4) [OF inv(4) k(1)] block_invD(5) [OF inv(4) k(1)] by simp_all
  qed
  have views: "map (entry_view m') L = map (entry_view m) L"
    using view by simp
  show "tm_inv m' L C"
    unfolding tm_inv_def views using lru ids blk f inv(2,5-8) b(1) assms(3) by simp
qed

text \<open>The texts a scan with the number \<open>scan\<close> has marked.\<close>

definition marked :: "u64 \<Rightarrow> bytes set \<Rightarrow> tool_memory \<Rightarrow> bool" where
  "marked scan S m \<longleftrightarrow> (\<forall>b k. tm_b m b = Some k \<longrightarrow> (tb_seen k = scan \<longleftrightarrow> tb_dsml k \<in> S))"

definition ids_of :: "tool_memory \<Rightarrow> (addr \<Rightarrow> addr list) \<Rightarrow> bytes \<Rightarrow> bytes list" where
  "ids_of m C d = map (\<lambda>x. te_id (the (tm_e m x))) (C (the (tm_by_block m d)))"

lemma ids_of_marks: "same_but_marks m m' \<Longrightarrow> ids_of m' C = ids_of m C"
  by (intro ext) (simp add: ids_of_def same_but_marks_fields)

lemma chain_ids_chain: "chain (tm_e m) c xs \<Longrightarrow> chain_ids m c = Some (map (\<lambda>x. te_id (the (tm_e m x))) xs)"
proof (induction xs arbitrary: c)
  case Nil
  then show ?case
    by (subst chain_ids.simps) simp
next
  case (Cons x xs)
  then obtain e where e: "c = Some x" "tm_e m x = Some e" "chain (tm_e m) (te_block_next e) xs"
    by auto
  then show ?case
    using Cons.IH [OF e(3)] by (subst chain_ids.simps) simp
qed

lemma scan_block_run:
  assumes "tm_inv m L C" and "marked scan S m" and "scan = tm_scan_clock m"
  shows "if tm_by_block m d \<noteq> None \<and> d \<notin> S
    then \<exists>blk m'. scan_block scan d m = Some (Some blk, m') \<and> same_but_marks m m' \<and> marked scan (insert d S) m' \<and> tm_inv m' L C \<and>
      tb_dsml blk = d \<and> chain_ids m' (tb_entries blk) = Some (ids_of m C d)
    else scan_block scan d m = Some (None, m) \<and> (tm_by_block m d = None \<or> d \<in> S)"
proof -
  note inv = tm_invD [OF assms(1)]
  have empty: "tm_by_block m [] = None"
    using block_invD(1) [OF inv(4), of "[]"] block_invD(3) [OF inv(4)] by (cases "tm_by_block m []") auto
  show ?thesis
  proof (cases "tm_by_block m d")
    case None
    then show ?thesis
      by (simp add: scan_block_def tool_memory_find_block_locked_def)
  next
    case (Some b)
    then have d: "d \<noteq> []"
      using empty by auto
    obtain k where k: "tm_b m b = Some k" "tb_dsml k = d"
      using block_invD(1) [OF inv(4), of d b] Some by auto
    have seen: "tb_seen k = scan \<longleftrightarrow> d \<in> S"
      using assms(2) k by (simp add: marked_def)
    show ?thesis
    proof (cases "d \<in> S")
      case True
      then show ?thesis
        using Some k d seen by (simp add: scan_block_def tool_memory_find_block_locked_def)
    next
      case False
      define m' where "m' = m\<lparr>tm_b := (tm_b m)(b \<mapsto> k\<lparr>tb_seen := scan\<rparr>)\<rparr>"
      have run: "scan_block scan d m = Some (Some k, m')"
        using Some k d seen False by (simp add: scan_block_def tool_memory_find_block_locked_def upd_b_def m'_def)
      have same: "same_but_marks m m'"
        using k(1) by (simp add: same_but_marks_def m'_def)
      have "marked scan (insert d S) m'"
        unfolding marked_def
      proof (intro allI impI)
        fix c k'
        assume c: "tm_b m' c = Some k'"
        show "tb_seen k' = scan \<longleftrightarrow> tb_dsml k' \<in> insert d S"
        proof (cases "c = b")
          case True
          then show ?thesis
            using c k by (auto simp: m'_def)
        next
          case neq: False
          then have c0: "tm_b m c = Some k'"
            using c by (simp add: m'_def)
          then have "tb_dsml k' \<noteq> d"
            using block_invD(1) [OF inv(4), of d c] Some neq by auto
          then show ?thesis
            using assms(2) c0 by (simp add: marked_def)
        qed
      qed
      moreover have "tm_inv m' L C"
        by (rule marks_inv(1) [OF assms(1) same]) (use inv(10) assms(3) in \<open>auto simp: m'_def split: if_splits\<close>)
      moreover have "chain_ids m' (tb_entries k) = Some (ids_of m C d)"
        using chain_ids_chain [of m' "tb_entries k" "C b"] block_invD(4) [OF inv(4) k(1)] Some
        by (simp add: m'_def ids_of_def)
      ultimately show ?thesis
        using run same Some False k(2) by auto
    qed
  qed
qed

lemma write_loop_run:
  assumes "tm_inv m L C" and "marked scan S m" and "scan = tm_scan_clock m"
  shows "\<exists>m'. write_loop scan p m = Some (concat (map (\<lambda>d. concat (map (entry_record d) (ids_of m C d)))
      (new_texts (\<lambda>d. tm_by_block m d \<noteq> None) S (tool_blocks p))), m') \<and> same_but_marks m m' \<and> tm_inv m' L C"
  using assms
proof (induction scan p m arbitrary: S rule: write_loop.induct)
  case (1 scan p m)
  show ?case
  proof (cases "find_next_dsml_tool_block p")
    case None
    then show ?thesis
      using "1.prems" by (subst write_loop.simps) (simp add: tool_blocks.simps [of p])
  next
    case (Some se)
    obtain s e where se: "find_next_dsml_tool_block p = Some (s, e)"
      using Some by (cases se) auto
    define d where "d = drop s (take e p)"
    have blocks: "tool_blocks p = d # tool_blocks (drop e p)"
      using se by (simp add: tool_blocks.simps [of p] d_def)
    note scan = scan_block_run [OF "1.prems", of d]
    show ?thesis
    proof (cases "tm_by_block m d \<noteq> None \<and> d \<notin> S")
      case True
      obtain blk m1 where m1: "scan_block scan d m = Some (Some blk, m1)" "same_but_marks m m1" "marked scan (insert d S) m1" "tm_inv m1 L C"
          "tb_dsml blk = d" "chain_ids m1 (tb_entries blk) = Some (ids_of m C d)"
        using scan True by auto
      note f = same_but_marks_fields [OF m1(2)]
      have clock: "scan = tm_scan_clock m1"
        using "1.prems"(3) f(9) by simp
      obtain m2 where m2: "write_loop scan (drop e p) m1 = Some (concat (map (\<lambda>d. concat (map (entry_record d) (ids_of m1 C d)))
          (new_texts (\<lambda>d. tm_by_block m1 d \<noteq> None) (insert d S) (tool_blocks (drop e p)))), m2)" "same_but_marks m1 m2" "tm_inv m2 L C"
        using "1.IH"(2) [OF se refl m1(1) [unfolded d_def] refl refl m1(6) m1(4,3) clock] by blast
      have "write_loop scan p m = Some (concat (map (entry_record d) (ids_of m C d)) @ concat (map (\<lambda>d. concat (map (entry_record d) (ids_of m C d)))
          (new_texts (\<lambda>d. tm_by_block m d \<noteq> None) (insert d S) (tool_blocks (drop e p)))), m2)"
        using m2(1) m1(1,5,6) se ids_of_marks [OF m1(2)] f(3) by (subst write_loop.simps) (simp add: d_def)
      then show ?thesis
        using True blocks m2(2,3) same_but_marks_trans [OF m1(2)] by auto
    next
      case False
      then have none: "scan_block scan d m = Some (None, m)"
        using scan by auto
      obtain m2 where m2: "write_loop scan (drop e p) m = Some (concat (map (\<lambda>d. concat (map (entry_record d) (ids_of m C d)))
          (new_texts (\<lambda>d. tm_by_block m d \<noteq> None) S (tool_blocks (drop e p)))), m2)" "same_but_marks m m2" "tm_inv m2 L C"
        using "1.IH"(1) [OF se refl none [unfolded d_def] refl refl "1.prems"] by blast
      have "write_loop scan p m = write_loop scan (drop e p) m"
        using none se by (subst write_loop.simps) (simp add: d_def)
      then show ?thesis
        using False blocks m2 by auto
    qed
  qed
qed

fun measure_texts :: "(bytes \<times> bytes list) list \<Rightarrow> u32 \<times> u64 \<Rightarrow> (u32 \<times> u64) option" where
  "measure_texts [] acc = Some acc"
| "measure_texts ((d, is) # ts) acc = Option.bind (measure_entries (length d) acc is) (measure_texts ts)"

lemma measure_loop_run:
  assumes "tm_inv m L C" and "marked scan S m" and "scan = tm_scan_clock m"
  shows "\<exists>m'. measure_loop scan p acc m = Some (measure_texts (map (\<lambda>d. (d, ids_of m C d))
      (new_texts (\<lambda>d. tm_by_block m d \<noteq> None) S (tool_blocks p))) acc, m') \<and> same_but_marks m m' \<and> tm_inv m' L C"
  using assms
proof (induction scan p acc m arbitrary: S rule: measure_loop.induct)
  case (1 scan p acc m)
  show ?case
  proof (cases "find_next_dsml_tool_block p")
    case None
    then show ?thesis
      using "1.prems" by (subst measure_loop.simps) (simp add: tool_blocks.simps [of p])
  next
    case (Some se)
    obtain s e where se: "find_next_dsml_tool_block p = Some (s, e)"
      using Some by (cases se) auto
    define d where "d = drop s (take e p)"
    have blocks: "tool_blocks p = d # tool_blocks (drop e p)"
      using se by (simp add: tool_blocks.simps [of p] d_def)
    note scan = scan_block_run [OF "1.prems", of d]
    show ?thesis
    proof (cases "tm_by_block m d \<noteq> None \<and> d \<notin> S")
      case True
      obtain blk m1 where m1: "scan_block scan d m = Some (Some blk, m1)" "same_but_marks m m1" "marked scan (insert d S) m1" "tm_inv m1 L C"
          "tb_dsml blk = d" "chain_ids m1 (tb_entries blk) = Some (ids_of m C d)"
        using scan True by auto
      note f = same_but_marks_fields [OF m1(2)]
      have clock: "scan = tm_scan_clock m1"
        using "1.prems"(3) f(9) by simp
      show ?thesis
      proof (cases "measure_entries (length d) acc (ids_of m C d)")
        case None
        then have "measure_loop scan p acc m = Some (None, m1)"
          using m1(1,5,6) se by (subst measure_loop.simps) (simp add: d_def)
        then show ?thesis
          using True blocks None m1(2,4) by auto
      next
        case (Some acc1)
        then have some': "measure_entries (length (tb_dsml blk)) acc (ids_of m C d) = Some acc1"
          using m1(5) by simp
        obtain m2 where m2: "measure_loop scan (drop e p) acc1 m1 = Some (measure_texts (map (\<lambda>d. (d, ids_of m1 C d))
            (new_texts (\<lambda>d. tm_by_block m1 d \<noteq> None) (insert d S) (tool_blocks (drop e p)))) acc1, m2)" "same_but_marks m1 m2" "tm_inv m2 L C"
          using "1.IH"(2) [OF se refl m1(1) [unfolded d_def] refl refl m1(6) some' m1(4,3) clock] by blast
        have "measure_loop scan p acc m = Some (measure_texts (map (\<lambda>d. (d, ids_of m C d))
            (new_texts (\<lambda>d. tm_by_block m d \<noteq> None) (insert d S) (tool_blocks (drop e p)))) acc1, m2)"
          using m2(1) m1(1,5,6) se Some ids_of_marks [OF m1(2)] f(3) by (subst measure_loop.simps) (simp add: d_def)
        then show ?thesis
          using True blocks Some m2(2,3) same_but_marks_trans [OF m1(2)] by auto
      qed
    next
      case False
      then have none: "scan_block scan d m = Some (None, m)"
        using scan by auto
      obtain m2 where m2: "measure_loop scan (drop e p) acc m = Some (measure_texts (map (\<lambda>d. (d, ids_of m C d))
          (new_texts (\<lambda>d. tm_by_block m d \<noteq> None) S (tool_blocks (drop e p)))) acc, m2)" "same_but_marks m m2" "tm_inv m2 L C"
        using "1.IH"(1) [OF se refl none [unfolded d_def] refl refl "1.prems"] by blast
      have "measure_loop scan p acc m = measure_loop scan (drop e p) acc m"
        using none se by (subst measure_loop.simps) (simp add: d_def)
      then show ?thesis
        using False blocks m2 by auto
    qed
  qed
qed

text \<open>The sizes when everything fits.\<close>

lemma unat_inc_32:
  assumes "unat c + 1 < 2 ^ 32"
  shows "unat (c + 1 :: u32) = unat c + 1"
proof -
  have "c + 1 = of_nat (unat c + 1)"
    by simp
  then show ?thesis
    using unat_of_nat_32 [OF assms] by (simp add: add.commute)
qed

definition record_size :: "bytes \<Rightarrow> bytes \<Rightarrow> nat" where
  "record_size d i = 8 + length i + length d"

lemma measure_entry_fits:
  assumes "length i < 2 ^ 32" and "n < 2 ^ 32" and "unat c + 1 < 2 ^ 32" and "unat b + (8 + length i + n) < 2 ^ 64"
  shows "measure_entry n (c, b) i = Some (c + 1, b + of_nat (8 + length i + n))"
proof -
  have c: "c \<noteq> - 1"
  proof
    assume "c = - 1"
    then have "c + 1 = 0"
      by simp
    then have "unat (c + 1) = 0"
      by simp
    then show False
      using unat_inc_32 [OF assms(3)] by simp
  qed
  define r where "r = - 1 - b"
  have room: "unat r = 2 ^ 64 - 1 - unat b"
  proof -
    have "b \<le> - 1"
      by simp
    then have "unat r = unat (- 1 :: u64) - unat b"
      unfolding r_def by (rule unat_sub)
    also have "unat (- 1 :: u64) = 2 ^ 64 - 1"
      by (simp add: unsigned_minus_1_eq_mask mask_eq_exp_minus_1)
    finally show ?thesis .
  qed
  have a: "\<not> r < 8"
    using room assms(4) by (simp add: word_less_nat_alt)
  define r8 where "r8 = r - 8"
  have r8: "unat r8 = 2 ^ 64 - 1 - unat b - 8"
    using room a by (simp add: r8_def unat_sub not_less)
  have li: "unat (of_nat (length i) :: u64) = length i"
    using assms(1) by (intro unat_of_nat_64) simp
  have le: "(of_nat (length i) :: u64) \<le> r8"
    using r8 li assms(4) by (simp add: word_le_nat_alt)
  then have ri: "unat (r8 - of_nat (length i)) = 2 ^ 64 - 1 - unat b - 8 - length i"
    using r8 li by (simp add: unat_sub)
  have "\<not> (unat r8 < length i \<or> unat (r8 - of_nat (length i)) < n)"
    unfolding r8 ri using assms(4) by (intro notI) (elim disjE; arith)
  then show ?thesis
    using assms(1,2) a c unfolding measure_entry_def r8_def r_def by simp
qed

lemma measure_entries_fit:
  assumes "list_all (\<lambda>i. length i < 2 ^ 32) is" and "length d < 2 ^ 32" and "unat c + length is < 2 ^ 32"
    and "unat b + sum_list (map (record_size d) is) < 2 ^ 64"
  shows "measure_entries (length d) (c, b) is = Some (c + of_nat (length is), b + of_nat (sum_list (map (record_size d) is)))"
  using assms
proof (induction "is" arbitrary: c b)
  case (Cons i "is")
  have step: "measure_entry (length d) (c, b) i = Some (c + 1, b + of_nat (record_size d i))"
    using measure_entry_fits [of i "length d" c b] Cons.prems by (simp add: record_size_def)
  have fit: "unat c + (1 + length is) < 2 ^ 32" "unat b + (record_size d i + sum_list (map (record_size d) is)) < 2 ^ 64"
    using Cons.prems(3,4) by simp_all
  have c1: "unat (c + 1) = unat c + 1"
    using unat_inc_32 [of c] fit(1) by simp
  have "unat (of_nat (record_size d i) :: u64) = record_size d i"
    using fit(2) by (intro unat_of_nat_64) simp
  then have b1: "unat (b + of_nat (record_size d i)) = unat b + record_size d i"
    using unat_add_no_overflow [of b "of_nat (record_size d i)"] fit(2) by simp
  have "measure_entries (length d) (c + 1, b + of_nat (record_size d i)) is =
      Some (c + 1 + of_nat (length is), b + of_nat (record_size d i) + of_nat (sum_list (map (record_size d) is)))"
    by (rule Cons.IH) (use Cons.prems(1,2) c1 b1 fit in simp_all)
  then show ?case
    using step by (simp add: add.assoc)
qed simp

lemma view_props:
  assumes "tm_inv m L C"
  shows "distinct (map fst (map (entry_view m) L))"
    and "(i, d, s) \<in> set (map (entry_view m) L) \<Longrightarrow> i \<noteq> [] \<and> d \<noteq> [] \<and> tm_by_block m d \<noteq> None"
proof -
  note inv = tm_invD [OF assms]
  have ids: "tm_by_id m i = Some a \<longleftrightarrow> (\<exists>e. tm_e m a = Some e \<and> te_id e = i)" for i a
    using inv(3) by (simp add: id_inv_def)
  have live: "\<exists>e. tm_e m x = Some e" if "x \<in> set L" for x
    using inv(2) [of x] that by auto
  have "inj_on (fst \<circ> entry_view m) (set L)"
  proof (rule inj_onI)
    fix x y
    assume xy: "x \<in> set L" "y \<in> set L" "(fst \<circ> entry_view m) x = (fst \<circ> entry_view m) y"
    obtain e where e: "tm_e m x = Some e"
      using live xy(1) by blast
    obtain e' where e': "tm_e m y = Some e'"
      using live xy(2) by blast
    have "te_id e' = te_id e"
      using xy(3) e e' by (simp add: entry_view_def Let_def)
    then have "tm_by_id m (te_id e) = Some x" "tm_by_id m (te_id e) = Some y"
      using ids e e' by blast+
    then show "x = y"
      by simp
  qed
  then show "distinct (map fst (map (entry_view m) L))"
    using inv(9) by (simp add: distinct_map)
  assume "(i, d, s) \<in> set (map (entry_view m) L)"
  then obtain x where x: "x \<in> set L" "entry_view m x = (i, d, s)"
    by auto
  obtain e where e: "tm_e m x = Some e"
    using live x(1) by blast
  obtain k where k: "tm_b m (te_block e) = Some k"
    using block_invD(2) [OF inv(4) e] by auto
  have eq: "i = te_id e" "d = tb_dsml k"
    using x(2) e k by (simp_all add: entry_view_def Let_def)
  have "te_id e \<noteq> []"
    using inv(3) e unfolding id_inv_def by blast
  moreover have "tm_by_block m (tb_dsml k) = Some (te_block e)"
    using block_invD(1) [OF inv(4)] k by blast
  ultimately show "i \<noteq> [] \<and> d \<noteq> [] \<and> tm_by_block m d \<noteq> None"
    using block_invD(3) [OF inv(4) k] eq by simp
qed

lemma ids_of_props:
  assumes "tm_inv m L C" and "tm_by_block m d \<noteq> None"
  shows "distinct (ids_of m C d)" and "i \<in> set (ids_of m C d) \<longleftrightarrow> (\<exists>s. (i, d, s) \<in> set (map (entry_view m) L))"
proof -
  note inv = tm_invD [OF assms(1)]
  have ids: "tm_by_id m i = Some a \<longleftrightarrow> (\<exists>e. tm_e m a = Some e \<and> te_id e = i)" for i a
    using inv(3) by (simp add: id_inv_def)
  obtain b where b: "tm_by_block m d = Some b"
    using assms(2) by blast
  obtain k where k: "tm_b m b = Some k" "tb_dsml k = d"
    using block_invD(1) [OF inv(4), of d b] b by auto
  note chain = block_invD(4) [OF inv(4) k(1)]
  have of_block: "\<exists>e. tm_e m a = Some e \<and> te_block e = b" if "a \<in> set (C b)" for a
    using block_invD(5) [OF inv(4) k(1) that] .
  have "inj_on (\<lambda>x. te_id (the (tm_e m x))) (set (C b))"
  proof (rule inj_onI)
    fix x y
    assume xy: "x \<in> set (C b)" "y \<in> set (C b)" "te_id (the (tm_e m x)) = te_id (the (tm_e m y))"
    obtain e where e: "tm_e m x = Some e"
      using of_block xy(1) by blast
    obtain e' where e': "tm_e m y = Some e'"
      using of_block xy(2) by blast
    have "tm_by_id m (te_id e) = Some x" "tm_by_id m (te_id e) = Some y"
      using ids e e' xy(3) by auto
    then show "x = y"
      by simp
  qed
  then show "distinct (ids_of m C d)"
    using chain b by (simp add: ids_of_def distinct_map)
  show "i \<in> set (ids_of m C d) \<longleftrightarrow> (\<exists>s. (i, d, s) \<in> set (map (entry_view m) L))"
  proof
    assume "i \<in> set (ids_of m C d)"
    then obtain x where x: "x \<in> set (C b)" "i = te_id (the (tm_e m x))"
      using b by (auto simp: ids_of_def)
    obtain e where e: "tm_e m x = Some e" "te_block e = b"
      using of_block x(1) by blast
    have "entry_view m x = (i, d, te_source e)" "x \<in> set L"
      using e k x(2) inv(2) [of x] by (simp_all add: entry_view_def Let_def)
    then show "\<exists>s. (i, d, s) \<in> set (map (entry_view m) L)"
      by (metis image_eqI set_map)
  next
    assume "\<exists>s. (i, d, s) \<in> set (map (entry_view m) L)"
    then obtain x s where x: "x \<in> set L" "entry_view m x = (i, d, s)"
      by (metis (no_types, lifting) imageE set_map)
    obtain e where e: "tm_e m x = Some e"
      using inv(2) [of x] x(1) by auto
    obtain k' where k': "tm_b m (te_block e) = Some k'"
      using block_invD(2) [OF inv(4) e] by auto
    have eq: "i = te_id e" "d = tb_dsml k'"
      using x(2) e k' by (simp_all add: entry_view_def Let_def)
    then have "tm_by_block m d = Some (te_block e)"
      using block_invD(1) [OF inv(4)] k' by blast
    then have "x \<in> set (C b)"
      using b block_invD(2) [OF inv(4) e] by simp
    then show "i \<in> set (ids_of m C d)"
      using b e eq(1) by (force simp: ids_of_def)
  qed
qed

text \<open>The calls a scan of a text finds, and their part of the view.\<close>

definition found_calls :: "tool_memory \<Rightarrow> (addr \<Rightarrow> addr list) \<Rightarrow> bytes list \<Rightarrow> (bytes \<times> bytes) list" where
  "found_calls m C ds = concat (map (\<lambda>d. map (\<lambda>i. (i, d)) (ids_of m C d)) ds)"

lemma found_calls_set:
  assumes "tm_inv m L C" and "\<And>d. d \<in> set ds \<Longrightarrow> tm_by_block m d \<noteq> None"
  shows "(i, d) \<in> set (found_calls m C ds) \<longleftrightarrow> d \<in> set ds \<and> (\<exists>s. (i, d, s) \<in> set (map (entry_view m) L))"
proof -
  have "(i, d) \<in> set (found_calls m C ds) \<longleftrightarrow> d \<in> set ds \<and> i \<in> set (ids_of m C d)"
    by (auto simp: found_calls_def)
  then show ?thesis
    using ids_of_props(2) [OF assms(1) assms(2), of d i] by blast
qed

lemma found_calls_distinct:
  assumes "tm_inv m L C" and "distinct ds" and "\<And>d. d \<in> set ds \<Longrightarrow> tm_by_block m d \<noteq> None"
  shows "distinct (map fst (found_calls m C ds))"
  using assms(2,3)
proof (induction ds)
  case (Cons d ds)
  have known: "tm_by_block m x \<noteq> None" if "x \<in> set ds" for x
    using Cons.prems(2) that by simp
  have dist: "distinct (map fst (found_calls m C ds))" "distinct (ids_of m C d)"
    using Cons.IH Cons.prems(1) known ids_of_props(1) [OF assms(1) Cons.prems(2), of d] by simp_all
  have "fst c \<notin> set (ids_of m C d)" if c: "c \<in> set (found_calls m C ds)" for c
  proof
    assume in_d: "fst c \<in> set (ids_of m C d)"
    obtain i d' where id: "c = (i, d')"
      by (cases c)
    obtain s' where s': "d' \<in> set ds" "(i, d', s') \<in> set (map (entry_view m) L)"
      using found_calls_set [OF assms(1) known, of ds i d'] c id by auto
    obtain s where s: "(i, d, s) \<in> set (map (entry_view m) L)"
      using ids_of_props(2) [OF assms(1) Cons.prems(2), of d i] in_d id by auto
    have "(d, s) = (d', s')"
      using view_props(1) [OF assms(1)] s s'(2) by (meson eq_key_imp_eq_value)
    then show False
      using s'(1) Cons.prems(1) by simp
  qed
  then have "set (ids_of m C d) \<inter> set (map fst (found_calls m C ds)) = {}"
    by auto
  moreover have "map fst (found_calls m C (d # ds)) = ids_of m C d @ map fst (found_calls m C ds)"
    by (simp add: found_calls_def o_def)
  ultimately show ?case
    using dist by simp
qed (simp add: found_calls_def)

lemma scan_clock_inv:
  assumes "tm_inv m L C" and "tm_scan_clock m \<le> c"
  shows "tm_inv (m\<lparr>tm_scan_clock := c\<rparr>) L C"
proof -
  have "entry_view (m\<lparr>tm_scan_clock := c\<rparr>) = entry_view m"
    by (simp add: entry_view_def fun_eq_iff)
  moreover have "lru (m\<lparr>tm_scan_clock := c\<rparr>) L = lru m L" "id_inv (m\<lparr>tm_scan_clock := c\<rparr>) = id_inv m"
    "block_inv (m\<lparr>tm_scan_clock := c\<rparr>) C = block_inv m C"
    by (simp_all add: lru_def id_inv_def block_inv_def)
  moreover have "tb_seen k \<le> c" if "tm_b m b = Some k" for b k
    using tm_invD(10) [OF assms(1) that] assms(2) by (rule order.trans)
  ultimately show ?thesis
    using assms(1) unfolding tm_inv_def by simp
qed

lemma new_scan:
  assumes "tm_inv m L C" and "unat (tm_scan_clock m) + 1 < 2 ^ 64"
  defines "m1 \<equiv> m\<lparr>tm_scan_clock := tm_scan_clock m + 1\<rparr>"
  shows "tm_inv m1 L C" "marked (tm_scan_clock m1) {} m1" "unat (tm_scan_clock m1) = unat (tm_scan_clock m) + 1"
proof -
  show succ: "unat (tm_scan_clock m1) = unat (tm_scan_clock m) + 1"
    using unat_add_no_overflow [of "tm_scan_clock m" 1] assms(2) by (simp add: m1_def)
  from succ have less: "tm_scan_clock m < tm_scan_clock m1"
    by (simp add: word_less_nat_alt)
  then show "tm_inv m1 L C"
    using scan_clock_inv [OF assms(1)] by (simp add: m1_def)
  show "marked (tm_scan_clock m1) {} m1"
    unfolding marked_def
  proof (intro allI impI)
    fix b k
    assume "tm_b m1 b = Some k"
    then have "tb_seen k \<le> tm_scan_clock m"
      using tm_invD(10) [OF assms(1)] by (simp add: m1_def)
    then show "tb_seen k = tm_scan_clock m1 \<longleftrightarrow> tb_dsml k \<in> {}"
      using less by auto
  qed
qed

lemma measure_texts_fit:
  assumes "list_all (\<lambda>(d, is). length d < 2 ^ 32 \<and> list_all (\<lambda>i. length i < 2 ^ 32) is) ts"
    and "unat c + length (concat (map snd ts)) < 2 ^ 32"
    and "unat b + sum_list (map (\<lambda>(d, is). sum_list (map (record_size d) is)) ts) < 2 ^ 64"
  shows "measure_texts ts (c, b) = Some (c + of_nat (length (concat (map snd ts))),
    b + of_nat (sum_list (map (\<lambda>(d, is). sum_list (map (record_size d) is)) ts)))"
  using assms
proof (induction ts arbitrary: c b)
  case (Cons t ts)
  obtain d "is" where t: "t = (d, is)"
    by (cases t)
  define n where "n = sum_list (map (record_size d) is)"
  define r where "r = sum_list (map (\<lambda>(d, is). sum_list (map (record_size d) is)) ts)"
  have fit: "unat c + (length is + length (concat (map snd ts))) < 2 ^ 32" "unat b + (n + r) < 2 ^ 64"
    using Cons.prems(2,3) by (simp_all add: t n_def r_def)
  have step: "measure_entries (length d) (c, b) is = Some (c + of_nat (length is), b + of_nat n)"
    unfolding n_def by (rule measure_entries_fit) (use Cons.prems(1) fit in \<open>simp_all add: t n_def\<close>)
  have b1: "unat (b + of_nat n) = unat b + n"
    using unat_add_no_overflow [of b "of_nat n"] unat_of_nat_64 [of n] fit(2) by simp
  have c1: "unat (c + of_nat (length is)) = unat c + length is"
  proof -
    have "c + of_nat (length is) = of_nat (unat c + length is)"
      by simp
    then show ?thesis
      using unat_of_nat_32 [of "unat c + length is"] fit(1) by simp
  qed
  have "measure_texts ts (c + of_nat (length is), b + of_nat n) =
      Some (c + of_nat (length is) + of_nat (length (concat (map snd ts))), b + of_nat n + of_nat r)"
    unfolding r_def by (rule Cons.IH) (use Cons.prems(1) fit b1 c1 in \<open>simp_all add: t r_def\<close>)
  then show ?case
    using step by (simp add: t add.assoc n_def r_def)
qed simp

lemma found_calls_sums:
  "length (concat (map snd (map (\<lambda>d. (d, ids_of m C d)) ds))) = length (found_calls m C ds)"
  "sum_list (map (\<lambda>(d, is). sum_list (map (record_size d) is)) (map (\<lambda>d. (d, ids_of m C d)) ds)) =
     sum_list (map (\<lambda>(i, d). record_size d i) (found_calls m C ds))"
  "concat (map (\<lambda>d. concat (map (entry_record d) (ids_of m C d))) ds) = concat (map (\<lambda>(i, d). entry_record d i) (found_calls m C ds))"
  by (induction ds) (simp_all add: found_calls_def o_def)

lemma records_length:
  "list_all (\<lambda>(i, d). length i < 2 ^ 32 \<and> length d < 2 ^ 32) ps \<Longrightarrow>
   length (concat (map (\<lambda>(i, d). entry_record d i) ps)) = sum_list (map (\<lambda>(i, d). record_size d i) ps)"
  by (induction ps) (auto simp: entry_record_def record_size_def sf37_kvstore_le_put32_def)

definition small_call :: "bytes \<times> bytes \<Rightarrow> bool" where
  "small_call c \<longleftrightarrow> length (fst c) \<le> 256 \<and> length (snd c) \<le> SF37_TOOL_MEMORY_MAX_BYTES"

lemma small_records: "list_all small_call ps \<Longrightarrow> sum_list (map (\<lambda>(i, d). record_size d i) ps) \<le> length ps * (2 ^ 30)"
  by (induction ps) (auto simp: small_call_def record_size_def SF37_TOOL_MEMORY_MAX_BYTES_def)

definition map_file :: "(bytes \<times> bytes) list \<Rightarrow> bytes" where
  "map_file ps = (if ps = [] then [] else
     KV_TOOL_MAP_MAGIC @ sf37_kvstore_le_put32 (of_nat (length ps)) @ concat (map (\<lambda>(i, d). entry_record d i) ps))"

lemma tool_map_write_run:
  assumes "tm_inv m L C" and "unat (tm_scan_clock m) + 2 < 2 ^ 64" and "length L < 2 ^ 31" and "p \<noteq> []"
    and "\<And>i d s. (i, d, s) \<in> set (map (entry_view m) L) \<Longrightarrow> small_call (i, d)"
  defines "ps \<equiv> found_calls m C (new_texts (\<lambda>d. tm_by_block m d \<noteq> None) {} (tool_blocks p))"
  shows "\<exists>m'. kv_tool_map_write False p m = Some ((True, map_file ps, of_nat (length (map_file ps))), m') \<and> tm_inv m' L C"
proof -
  define ds where "ds = new_texts (\<lambda>d. tm_by_block m d \<noteq> None) {} (tool_blocks p)"
  have ps: "ps = found_calls m C ds"
    by (simp add: ps_def ds_def)
  have ds: "distinct ds" "\<And>d. d \<in> set ds \<Longrightarrow> tm_by_block m d \<noteq> None"
    using new_texts_set [of "\<lambda>d. tm_by_block m d \<noteq> None" "{}" "tool_blocks p"] by (auto simp: ds_def)
  have small: "list_all small_call ps"
    unfolding list_all_iff
  proof
    fix c
    assume c: "c \<in> set ps"
    obtain i d where id: "c = (i, d)"
      by (cases c)
    show "small_call c"
      using found_calls_set [OF assms(1) ds(2), of ds i d] c assms(5) by (auto simp: ps id)
  qed
  have count_le: "length ps \<le> length L"
  proof -
    have "set (map fst ps) \<subseteq> set (map fst (map (entry_view m) L))"
    proof
      fix i
      assume "i \<in> set (map fst ps)"
      then obtain d where "(i, d) \<in> set ps"
        by auto
      then obtain s where "(i, d, s) \<in> set (map (entry_view m) L)"
        using found_calls_set [OF assms(1) ds(2), of ds i d] by (auto simp: ps)
      then show "i \<in> set (map fst (map (entry_view m) L))"
        by (metis fst_conv image_eqI set_map)
    qed
    then have "card (set (map fst ps)) \<le> card (set (map fst (map (entry_view m) L)))"
      by (intro card_mono) auto
    moreover have "card (set (map fst ps)) = length ps"
      using distinct_card [OF found_calls_distinct [OF assms(1) ds]] by (simp add: ps)
    ultimately show ?thesis
      using card_length [of "map fst (map (entry_view m) L)"] by simp
  qed
  have lens: "list_all (\<lambda>(i, d). length i < 2 ^ 32 \<and> length d < 2 ^ 32) ps"
    using small by (auto simp: list_all_iff small_call_def SF37_TOOL_MEMORY_MAX_BYTES_def)
  define total where "total = sum_list (map (\<lambda>(i, d). record_size d i) ps)"
  have total: "total < 2 ^ 61"
  proof -
    have "total \<le> length ps * 2 ^ 30"
      using small_records [OF small] by (simp add: total_def)
    also have "\<dots> \<le> length L * 2 ^ 30"
      using count_le by simp
    also have "\<dots> < 2 ^ 61"
      using assms(3) by simp
    finally show ?thesis .
  qed
  define m1 where "m1 = m\<lparr>tm_scan_clock := tm_scan_clock m + 1\<rparr>"
  have clock1: "unat (tm_scan_clock m) + 1 < 2 ^ 64"
    using assms(2) by simp
  note m1 = new_scan [OF assms(1) clock1, folded m1_def]
  have same1: "ids_of m1 C = ids_of m C" "tm_by_block m1 = tm_by_block m"
    by (simp_all add: m1_def ids_of_def fun_eq_iff)
  define ts where "ts = map (\<lambda>d. (d, ids_of m C d)) ds"
  have measured: "measure_texts ts (0, of_nat KV_TOOL_MAP_HEADER) = Some (of_nat (length ps), of_nat (8 + total))"
  proof -
    have "length d < 2 ^ 32" if d_in: "d \<in> set ds" for d
    proof -
      obtain b where b: "tm_by_block m d = Some b"
        using ds(2) [OF d_in] by blast
      then obtain k where "tm_b m b = Some k"
        using block_invD(1) [OF tm_invD(4) [OF assms(1)], of d b] by blast
      then have "C b \<noteq> []"
        using block_invD(4) [OF tm_invD(4) [OF assms(1)]] by blast
      then have "ids_of m C d \<noteq> []"
        using b by (simp add: ids_of_def)
      then obtain i where "i \<in> set (ids_of m C d)"
        by (cases "ids_of m C d") auto
      then have "(i, d) \<in> set ps"
        using d_in by (auto simp: ps found_calls_def)
      then show ?thesis
        using lens by (auto simp: list_all_iff)
    qed
    moreover have "length i < 2 ^ 32" if "d \<in> set ds" "i \<in> set (ids_of m C d)" for d i
      using lens that by (auto simp: list_all_iff ps found_calls_def)
    ultimately have small_ts: "list_all (\<lambda>(d, is). length d < 2 ^ 32 \<and> list_all (\<lambda>i. length i < 2 ^ 32) is) ts"
      by (simp add: list_all_iff ts_def)
    have c0: "unat (0 :: u32) + length (concat (map snd ts)) < 2 ^ 32"
      using count_le assms(3) unfolding ts_def found_calls_sums(1) by (simp add: ps)
    have b0: "unat (of_nat KV_TOOL_MAP_HEADER :: u64) + sum_list (map (\<lambda>(d, is). sum_list (map (record_size d) is)) ts) < 2 ^ 64"
      using total unfolding ts_def found_calls_sums(2) by (simp add: total_def ps KV_TOOL_MAP_HEADER_def)
    show ?thesis
      using measure_texts_fit [OF small_ts c0 b0] unfolding ts_def found_calls_sums by (simp add: total_def ps KV_TOOL_MAP_HEADER_def)
  qed
  obtain m2 where m2: "measure_loop (tm_scan_clock m1) p (0, of_nat KV_TOOL_MAP_HEADER) m1 = Some (Some (of_nat (length ps), of_nat (8 + total)), m2)"
      "same_but_marks m1 m2" "tm_inv m2 L C"
    using measure_loop_run [OF m1(1,2) refl, of p "(0, of_nat KV_TOOL_MAP_HEADER)"] measured same1 by (auto simp: ts_def ds_def)
  have measure: "kv_tool_map_measure_locked p m =
      Some (Some (of_nat (length ps), if of_nat (length ps) = (0 :: u32) then 0 else of_nat (8 + total)), m2)"
    using m2(1) by (simp add: kv_tool_map_measure_locked_def m1_def Let_def)
  have zero: "of_nat (length ps) = (0 :: u32) \<longleftrightarrow> ps = []"
  proof -
    have "unat (of_nat (length ps) :: u32) = length ps"
      by (rule unat_of_nat_32) (use count_le assms(3) in simp)
    then have "of_nat (length ps) = (0 :: u32) \<longleftrightarrow> length ps = 0"
      by (simp only: unat_eq_zero [symmetric])
    then show ?thesis
      by simp
  qed
  show ?thesis
  proof (cases "ps = []")
    case True
    then show ?thesis
      using measure assms(4) m2(3) by (simp add: kv_tool_map_write_def map_file_def)
  next
    case False
    note f = same_but_marks_fields [OF m2(2)]
    define m3 where "m3 = m2\<lparr>tm_scan_clock := tm_scan_clock m2 + 1\<rparr>"
    have clock2: "unat (tm_scan_clock m2) + 1 < 2 ^ 64"
      using f(9) m1(3) assms(2) by simp
    note m3 = new_scan [OF m2(3) clock2, folded m3_def]
    have same3: "ids_of m3 C = ids_of m C" "tm_by_block m3 = tm_by_block m"
      using f(1,3) by (simp_all add: m3_def m1_def ids_of_def fun_eq_iff)
    obtain m4 where m4: "write_loop (tm_scan_clock m3) p m3 = Some (concat (map (\<lambda>(i, d). entry_record d i) ps), m4)" "tm_inv m4 L C"
      using write_loop_run [OF m3(1,2) refl, of p] unfolding same3 ds_def [symmetric] found_calls_sums(3) ps [symmetric] by blast
    have "kv_tool_map_write False p m = Some ((True, map_file ps, of_nat (8 + total)), m4)"
      using measure zero False assms(4) m4(1) by (simp add: kv_tool_map_write_def map_file_def m3_def)
    moreover have "length (map_file ps) = 8 + total"
      using False records_length [OF lens] by (simp add: map_file_def total_def KV_TOOL_MAP_MAGIC_def sf37_kvstore_le_put32_def cstr_def)
    ultimately show ?thesis
      using m4(2) by (metis (no_types))
  qed
qed

subsection \<open>Loading a trailer\<close>

lemma memory_bytes_append: "memory_bytes V \<le> memory_bytes (W @ V)"
proof (induction W)
  case (Cons c W)
  obtain i d s where "c = (i, d, s)"
    by (cases c)
  then show ?case
    using Cons memory_bytes_add [of i d s "W @ V"] by simp
qed simp

definition call_of :: "call_text \<Rightarrow> bytes \<times> bytes" where
  "call_of c = (case c of (i, d, s) \<Rightarrow> (i, d))"

lemma memory_bytes_mono:
  assumes "mset (map call_of V) \<subseteq># mset (map call_of W)"
  shows "memory_bytes V \<le> memory_bytes W"
proof -
  obtain ys where ys: "mset ys = mset (map call_of W) - mset (map call_of V)"
    using ex_mset by blast
  define Y where "Y = map (\<lambda>(i, d). (i, d, TOOL_MEMORY_DISK)) ys"
  have "map call_of Y = ys"
    by (simp add: Y_def call_of_def case_prod_beta o_def)
  then have "mset (map call_of (Y @ V)) = mset (map call_of W)"
    using ys assms by (simp add: subset_mset.diff_add)
  then have "memory_bytes (Y @ V) = memory_bytes W"
    unfolding call_of_def by (rule memory_bytes_perm)
  then show ?thesis
    using memory_bytes_append [of V Y] by simp
qed

definition call_ok :: "bytes \<times> bytes \<Rightarrow> bool" where
  "call_ok c \<longleftrightarrow> fst c \<noteq> [] \<and> snd c \<noteq> [] \<and> 0 \<notin> set (fst c) \<and> 0 \<notin> set (snd c) \<and> small_call c"

definition wanted_id :: "stop_list option \<Rightarrow> bytes \<Rightarrow> bool" where
  "wanted_id wanted i = (case wanted of None \<Rightarrow> True | Some ids \<Rightarrow> id_list_contains ids i)"

definition disk_view :: "stop_list option \<Rightarrow> (bytes \<times> bytes) list \<Rightarrow> call_text list" where
  "disk_view wanted ps = rev (map (\<lambda>(i, d). (i, d, TOOL_MEMORY_DISK)) (filter (\<lambda>c. wanted_id wanted (fst c)) ps))"

lemma disk_view_simps [simp]:
  "disk_view wanted [] = []"
  "disk_view wanted ((i, d) # ps) = disk_view wanted ps @ (if wanted_id wanted i then [(i, d, TOOL_MEMORY_DISK)] else [])"
  by (simp_all add: disk_view_def)

lemma put_fresh:
  assumes "tm_rel m V" and "i \<notin> set (map fst V)" and "i \<noteq> []" and "d \<noteq> []"
    and "int (length V + 1) \<le> tool_memory_max_entries m" and "memory_bytes ((i, d, s) # V) \<le> tool_memory_max_bytes m"
  shows "\<exists>m'. tool_memory_put_source False i d s m = Some m' \<and> same_limits m m' \<and> tm_rel m' ((i, d, s) # V)"
proof -
  have none: "map_of V i = None"
    using assms(2) by (simp add: map_of_eq_None_iff)
  have "filter (\<lambda>c. fst c \<noteq> i) V = V"
    using assms(2) by (auto simp: filter_id_conv)
  then have "spec_put (tool_memory_max_entries m) (tool_memory_max_bytes m) i d s V = (i, d, s) # V"
    using none assms(3-6) by (simp add: spec_put_def spec_front_def spec_prune.simps)
  then show ?thesis
    using put_rel [OF assms(1), of i d s] assms(3,4) by (auto simp: tool_memory_put_source_def)
qed

lemma load_loop_run:
  assumes "tm_rel m V" and "list_all call_ok ps" and "distinct (map fst ps @ map fst V)"
    and "int (length (disk_view wanted ps @ V)) \<le> tool_memory_max_entries m"
    and "memory_bytes (disk_view wanted ps @ V) \<le> tool_memory_max_bytes m"
  shows "\<exists>m'. load_loop (length ps) (concat (map (\<lambda>(i, d). entry_record d i) ps) @ rest) wanted loaded m =
      Some (loaded + int (length (disk_view wanted ps)), m') \<and> tm_rel m' (disk_view wanted ps @ V)"
  using assms
proof (induction ps arbitrary: m V loaded)
  case (Cons c ps)
  obtain i d where c: "c = (i, d)"
    by (cases c)
  have ok: "i \<noteq> []" "d \<noteq> []" "0 \<notin> set i" "0 \<notin> set d" "length i \<le> 256" "length d \<le> SF37_TOOL_MEMORY_MAX_BYTES"
    using Cons.prems(2) by (simp_all add: c call_ok_def small_call_def)
  have lens: "length i < 2 ^ 32" "length d < 2 ^ 32"
    using ok(5,6) by (simp_all add: SF37_TOOL_MEMORY_MAX_BYTES_def)
  define fp where "fp = concat (map (\<lambda>(i, d). entry_record d i) ps) @ rest"
  have rec: "entry_record d i = sf37_kvstore_le_put32 (of_nat (length i)) @ sf37_kvstore_le_put32 (of_nat (length d)) @ i @ d"
    using lens by (simp add: entry_record_def)
  have put4: "length (sf37_kvstore_le_put32 v) = 4" for v
    by (simp add: sf37_kvstore_le_put32_def)
  have lens8: "unat (of_nat (length i) :: u32) = length i" "unat (of_nat (length d) :: u32) = length d"
    using unat_of_nat_32 lens by blast+
  have step: "load_loop (length (c # ps)) (concat (map (\<lambda>(i, d). entry_record d i) (c # ps)) @ rest) wanted loaded m =
      (if wanted_id wanted i
       then Option.bind (tool_memory_put_source False i d TOOL_MEMORY_DISK m) (load_loop (length ps) fp wanted (loaded + 1))
       else load_loop (length ps) fp wanted loaded m)"
    using ok lens8 until_nul_id [OF ok(3)] until_nul_id [OF ok(4)]
    by (simp add: c rec put4 fp_def Let_def wanted_id_def)
  show ?case
  proof (cases "wanted_id wanted i")
    case False
    then show ?thesis
      using step Cons.IH [OF Cons.prems(1)] Cons.prems(2-) by (simp add: c fp_def)
  next
    case True
    have "i \<notin> set (map fst V)"
      using Cons.prems(3) by (auto simp: c)
    moreover have "memory_bytes ((i, d, TOOL_MEMORY_DISK) # V) \<le> tool_memory_max_bytes m"
      using Cons.prems(5) memory_bytes_append [of "(i, d, TOOL_MEMORY_DISK) # V" "disk_view wanted ps"] True by (simp add: c)
    moreover have "int (length V + 1) \<le> tool_memory_max_entries m"
      using Cons.prems(4) True by (simp add: c)
    ultimately obtain m1 where m1: "tool_memory_put_source False i d TOOL_MEMORY_DISK m = Some m1" "same_limits m m1"
        "tm_rel m1 ((i, d, TOOL_MEMORY_DISK) # V)"
      using put_fresh [OF Cons.prems(1)] ok(1,2) by blast
    note limits = limits_same [OF m1(2)]
    have "\<exists>m'. load_loop (length ps) fp wanted (loaded + 1) m1 =
        Some (loaded + 1 + int (length (disk_view wanted ps)), m') \<and> tm_rel m' (disk_view wanted ps @ (i, d, TOOL_MEMORY_DISK) # V)"
      unfolding fp_def by (rule Cons.IH [OF m1(3)]) (use Cons.prems(2-) True limits in \<open>auto simp: c\<close>)
    then show ?thesis
      using step True m1(1) by (auto simp: c)
  qed
qed simp

text \<open>What a lookup of an id gives.\<close>

definition recalled :: "bytes \<Rightarrow> tool_memory \<Rightarrow> (bytes \<times> tool_memory_source) option option" where
  "recalled i m = map_option (\<lambda>(r, m). map_option (\<lambda>(d, s, b). (d, s)) r) (tool_memory_lookup_locked i m)"

lemma recalled_view: "tm_rel m V \<Longrightarrow> recalled i m = Some (map_of V i)"
proof -
  assume "tm_rel m V"
  then obtain r m' where "tool_memory_lookup_locked i m = Some (r, m')" "map_option (\<lambda>(d, s, b). (d, s)) r = fst (spec_lookup i V)"
    using lookup_rel by blast
  moreover have "fst (spec_lookup i V) = map_of V i"
    by (simp add: spec_lookup_def split: option.splits)
  ultimately show ?thesis
    by (simp add: recalled_def)
qed

lemma distinct_mset_le: "distinct xs \<Longrightarrow> set xs \<subseteq> set ys \<Longrightarrow> mset xs \<subseteq># mset ys"
proof -
  assume a: "distinct xs" "set xs \<subseteq> set ys"
  have "mset xs = mset_set (set xs)"
    using a(1) by (simp add: mset_set_set)
  also have "\<dots> \<subseteq># mset_set (set ys)"
    using a(2) by (intro subset_imp_msubset_mset_set) auto
  also have "\<dots> = mset (remdups ys)"
    by (simp add: mset_set_set [symmetric])
  also have "\<dots> \<subseteq># mset ys"
    by (rule mset_remdups_subset_eq)
  finally show ?thesis .
qed

text \<open>Ids and texts are C strings, and no longer than a trailer can hold.\<close>

fun op_ok :: "memory_op \<Rightarrow> bool" where
  "op_ok (PutText i d s) \<longleftrightarrow> 0 \<notin> set i \<and> 0 \<notin> set d \<and> small_call (i, d)"
| "op_ok (FindText i) \<longleftrightarrow> True"

definition text_ok :: "call_text \<Rightarrow> bool" where
  "text_ok c \<longleftrightarrow> 0 \<notin> set (fst (call_of c)) \<and> 0 \<notin> set (snd (call_of c)) \<and> small_call (call_of c)"

lemma spec_prune_subset: "set (spec_prune n b V) \<subseteq> set V"
proof (induction n b V rule: spec_prune.induct)
  case (1 n b V)
  then show ?case
    by (subst spec_prune.simps) (auto dest: in_set_butlastD)
qed

lemma spec_front_ok: "list_all text_ok V \<Longrightarrow> text_ok (i, v) \<Longrightarrow> list_all text_ok (spec_front i v V)"
  by (auto simp: spec_front_def list_all_iff)

lemma spec_run_ok: "list_all op_ok ops \<Longrightarrow> list_all text_ok V \<Longrightarrow> list_all text_ok (snd (spec_run n b ops V))"
proof (induction n b ops V rule: spec_run.induct)
  case (2 n b i d s ops V)
  have new: "text_ok (i, d, s')" for s'
    using 2(2) by (simp add: text_ok_def call_of_def)
  have "list_all text_ok (spec_put n b i d s V)"
    using spec_prune_subset [of n b] spec_front_ok [OF 2(3) new] 2(3) unfolding spec_put_def list_all_iff by auto
  then show ?case
    using 2 by simp
next
  case (3 n b i ops V)
  have "list_all text_ok (snd (spec_lookup i V))"
  proof (cases "map_of V i")
    case None
    then show ?thesis
      using 3(3) by (simp add: spec_lookup_def)
  next
    case (Some v)
    then have "text_ok (i, v)"
      using 3(3) map_of_SomeD by (fastforce simp: list_all_iff)
    then show ?thesis
      using Some spec_front_ok [OF 3(3)] by (simp add: spec_lookup_def)
  qed
  then show ?case
    using 3 by (cases "spec_lookup i V") (auto split: prod.splits)
qed simp

text \<open>The texts between two reads: what the trailer keeps are the blocks the scan of the checkpoint's text finds.\<close>

lemma blocks_survive_restart:
  assumes "list_all op_ok ops" and "n < 2 ^ 31"
  shows "\<exists>rs m w m1 k m2. memory_run ops (tool_memory_empty n b) = Some (rs, m) \<and>
    kv_tool_map_write False p m = Some ((True, w, of_nat (length w)), m1) \<and>
    kv_tool_map_load_from_pos False w wanted (tool_memory_empty n b) = Some (k, m2) \<and>
    (\<forall>i. \<exists>r. recalled i m = Some r \<and>
       recalled i m2 = Some (case r of
         None \<Rightarrow> None
       | Some (d, s) \<Rightarrow> if d \<in> set (tool_blocks p) \<and> wanted_id wanted i then Some (d, TOOL_MEMORY_DISK) else None))"
proof -
  define N where "N = tool_memory_max_entries (tool_memory_empty n b)"
  define B where "B = tool_memory_max_bytes (tool_memory_empty n b)"
  define V where "V = snd (spec_run N B ops [])"
  obtain rs m where m: "memory_run ops (tool_memory_empty n b) = Some (rs, m)" "tm_rel m V" "within_limits m"
      "same_limits (tool_memory_empty n b) m"
    using memory_run_rel [OF empty_rel empty_within refl refl] unfolding V_def N_def B_def by blast
  have V_ok: "list_all text_ok V"
    unfolding V_def by (rule spec_run_ok [OF assms(1)]) simp
  obtain L C where L: "tm_inv m L C" "map (entry_view m) L = V"
    using m(2) by (auto simp: tm_rel_def)
  note limits = limits_same [OF m(4)]
  have N: "0 < N" "N < 2 ^ 31"
    using assms(2) by (auto simp: N_def tool_memory_max_entries_def tool_memory_empty_def SF37_TOOL_MEMORY_DEFAULT_MAX_IDS_def)
  have room: "int (length V) \<le> N" "memory_bytes V \<le> B"
    using m(3) limits tm_rel_sizes [OF m(2)] by (simp_all add: within_limits_def N_def B_def)
  have clock: "tm_scan_clock m = 0"
    using m(4) by (simp add: same_limits_def tool_memory_empty_def)
  define ds where "ds = new_texts (\<lambda>d. tm_by_block m d \<noteq> None) {} (tool_blocks p)"
  define ps where "ps = found_calls m C ds"
  have ds: "distinct ds" "\<And>d. d \<in> set ds \<Longrightarrow> tm_by_block m d \<noteq> None" "\<And>d. d \<in> set ds \<longleftrightarrow> d \<in> set (tool_blocks p) \<and> tm_by_block m d \<noteq> None"
    using new_texts_set [of "\<lambda>d. tm_by_block m d \<noteq> None" "{}" "tool_blocks p"] by (auto simp: ds_def)
  have in_ps: "(i, d) \<in> set ps \<longleftrightarrow> d \<in> set (tool_blocks p) \<and> (\<exists>s. (i, d, s) \<in> set V)" for i d
    using found_calls_set [OF L(1) ds(2), of ds i d] ds(3) view_props(2) [OF L(1), of i d] unfolding ps_def L(2) by blast
  have dist: "distinct (map fst ps)" "distinct (map fst V)"
    using found_calls_distinct [OF L(1) ds(1,2)] view_props(1) [OF L(1)] unfolding ps_def L(2) by blast+
  have ok: "list_all call_ok ps"
    unfolding list_all_iff
  proof
    fix c
    assume c: "c \<in> set ps"
    obtain i d where id: "c = (i, d)"
      by (cases c)
    obtain s where s: "(i, d, s) \<in> set V"
      using in_ps c id by blast
    then have "text_ok (i, d, s)"
      using V_ok by (simp add: list_all_iff)
    moreover have "i \<noteq> []" "d \<noteq> []"
      using view_props(2) [OF L(1), of i d s] s L(2) by simp_all
    ultimately show "call_ok c"
      by (simp add: id call_ok_def text_ok_def call_of_def)
  qed
  have calls: "mset (map call_of (disk_view wanted ps)) \<subseteq># mset (map call_of V)"
  proof -
    have "map call_of (disk_view wanted ps) = rev (filter (\<lambda>c. wanted_id wanted (fst c)) ps)"
      by (simp add: disk_view_def rev_map o_def call_of_def case_prod_beta)
    then have "mset (map call_of (disk_view wanted ps)) \<subseteq># mset ps"
      by (simp add: mset_filter)
    also have "mset ps \<subseteq># mset (map call_of V)"
    proof (rule distinct_mset_le)
      show "distinct ps"
        using dist(1) by (simp add: distinct_map)
      show "set ps \<subseteq> set (map call_of V)"
      proof
        fix c
        assume c: "c \<in> set ps"
        obtain i d where id: "c = (i, d)"
          by (cases c)
        obtain s where "(i, d, s) \<in> set V"
          using in_ps c id by blast
        then show "c \<in> set (map call_of V)"
          using id by (force simp: call_of_def)
      qed
    qed
    finally show ?thesis .
  qed
  have len: "length (disk_view wanted ps) \<le> length V"
    using size_mset_mono [OF calls] by simp
  have written: "\<exists>m1. kv_tool_map_write False p m = Some ((True, map_file ps, of_nat (length (map_file ps))), m1)"
  proof (cases "p = []")
    case True
    have "find_next_dsml_tool_block [] = None"
      using find_next_pos [of "[]"] by (cases "find_next_dsml_tool_block []") auto
    then have "tool_blocks p = []"
      using True by (simp add: tool_blocks.simps)
    then have "ps = []"
      by (simp add: ps_def ds_def found_calls_def)
    then show ?thesis
      using True by (simp add: kv_tool_map_write_def map_file_def)
  next
    case False
    have "length L < 2 ^ 31"
      using room(1) N(2) L(2) by (metis length_map linorder_not_le of_nat_less_iff of_nat_numeral of_nat_power order.strict_trans1)
    moreover have "small_call (i, d)" if "(i, d, s) \<in> set (map (entry_view m) L)" for i d s
      using that V_ok by (auto simp: L(2) list_all_iff text_ok_def call_of_def)
    ultimately show ?thesis
      using tool_map_write_run [OF L(1) _ _ False] clock unfolding ps_def ds_def by auto
  qed
  have "\<exists>k m2. kv_tool_map_load_from_pos False (map_file ps) wanted (tool_memory_empty n b) = Some (k, m2) \<and> tm_rel m2 (disk_view wanted ps)"
  proof (cases "ps = []")
    case True
    then show ?thesis
      using empty_rel by (simp add: kv_tool_map_load_from_pos_def map_file_def KV_TOOL_MAP_HEADER_def)
  next
    case False
    have put4: "length (sf37_kvstore_le_put32 v) = 4" for v
      by (simp add: sf37_kvstore_le_put32_def)
    have magic: "length KV_TOOL_MAP_MAGIC = 4"
      by (simp add: KV_TOOL_MAP_MAGIC_def cstr_def)
    have count_ps: "length ps \<le> length V"
    proof -
      have "set (map fst ps) \<subseteq> set (map fst V)"
        using in_ps by force
      then have "card (set (map fst ps)) \<le> card (set (map fst V))"
        by (intro card_mono) auto
      then show ?thesis
        using distinct_card [OF dist(1)] distinct_card [OF dist(2)] by simp
    qed
    then have "length ps < 2 ^ 32"
      using room(1) N(2) by simp
    then have u: "unat (of_nat (length ps) :: u32) = length ps"
      by (rule unat_of_nat_32)
    then have cap: "\<not> uint (of_nat (length ps) :: u32) > N * 4"
      using count_ps room(1) N(1) by (simp add: uint_nat)
    have "\<exists>m'. load_loop (length ps) (concat (map (\<lambda>(i, d). entry_record d i) ps) @ []) wanted 0 (tool_memory_empty n b) =
        Some (0 + int (length (disk_view wanted ps)), m') \<and> tm_rel m' (disk_view wanted ps @ [])"
      by (rule load_loop_run [OF empty_rel ok]) (use dist(1) len room memory_bytes_mono [OF calls] in \<open>simp_all add: N_def B_def\<close>)
    then show ?thesis
      using False u cap by (auto simp: kv_tool_map_load_from_pos_def map_file_def magic put4 KV_TOOL_MAP_HEADER_def N_def)
  qed
  then obtain k m2 where m2: "kv_tool_map_load_from_pos False (map_file ps) wanted (tool_memory_empty n b) = Some (k, m2)" "tm_rel m2 (disk_view wanted ps)"
    by blast
  have dist_view: "distinct (map fst (disk_view wanted ps))"
    using dist(1) by (simp add: disk_view_def rev_map o_def case_prod_beta distinct_map inj_on_def)
  have found: "map_of (disk_view wanted ps) i = (case map_of V i of
         None \<Rightarrow> None
       | Some (d, s) \<Rightarrow> if d \<in> set (tool_blocks p) \<and> wanted_id wanted i then Some (d, TOOL_MEMORY_DISK) else None)" for i
  proof -
    have in_view: "(i, v) \<in> set (disk_view wanted ps) \<longleftrightarrow> wanted_id wanted i \<and> snd v = TOOL_MEMORY_DISK \<and> (i, fst v) \<in> set ps" for v
      by (cases v) (force simp: disk_view_def)
    have in_V: "(i, v) \<in> set V \<longleftrightarrow> map_of V i = Some v" for v
      using dist(2) by simp
    have "map_of (disk_view wanted ps) i = Some v \<longleftrightarrow> wanted_id wanted i \<and> snd v = TOOL_MEMORY_DISK \<and> fst v \<in> set (tool_blocks p) \<and>
        (\<exists>s. map_of V i = Some (fst v, s))" for v
      using in_view [of v] in_ps [of i "fst v"] in_V dist_view by auto
    then have "map_of (disk_view wanted ps) i = Some v \<longleftrightarrow> (case map_of V i of
         None \<Rightarrow> None
       | Some (d, s) \<Rightarrow> if d \<in> set (tool_blocks p) \<and> wanted_id wanted i then Some (d, TOOL_MEMORY_DISK) else None) = Some v" for v
      by (cases v) (auto split: option.splits)
    then show ?thesis
      by (metis (no_types, lifting) not_Some_eq)
  qed
  show ?thesis
    using m(1) written m2(1) recalled_view [OF m(2)] recalled_view [OF m2(2)] found by auto
qed

text \<open>A text in segments has exactly their blocks, and every block is a piece of the text.\<close>

lemma tool_blocks_segments:
  "list_all segment_ok gs \<Longrightarrow> no_call_start rest \<Longrightarrow> 0 \<notin> set (concat (map segment_text gs) @ rest) \<Longrightarrow>
   tool_blocks (concat (map segment_text gs) @ rest) = map segment_block gs"
proof (induction gs)
  case Nil
  then show ?case
    using no_segment by (subst tool_blocks.simps) simp
next
  case (Cons g gs)
  define R where "R = concat (map segment_text gs) @ rest"
  have "find_next_dsml_tool_block (segment_text g @ R) = Some (length (sg_text g), length (segment_text g))"
    using Cons.prems by (intro next_segment) (simp_all add: R_def)
  then have "tool_blocks (segment_text g @ R) = segment_block g # tool_blocks R"
    by (subst tool_blocks.simps) (simp add: segment_text_def)
  then show ?case
    using Cons by (simp add: R_def)
qed

lemma tool_blocks_sublist: "d \<in> set (tool_blocks p) \<Longrightarrow> sublist d p"
proof (induction p rule: tool_blocks.induct)
  case (1 p)
  obtain s e where se: "find_next_dsml_tool_block p = Some (s, e)"
    using "1.prems" by (cases "find_next_dsml_tool_block p") (auto simp: tool_blocks.simps [of p])
  have piece: "sublist (drop s (take e p)) p"
    using sublist_order.order.trans sublist_drop sublist_take by blast
  have "sublist d (drop e p) \<Longrightarrow> sublist d p"
    using sublist_order.order.trans sublist_drop by blast
  then show ?case
    using 1 se piece by (auto simp: tool_blocks.simps [of p])
qed

text \<open>C21: The tool calls of a checkpoint survive a restart of the server as far as the checkpoint's text shows
  them: whatever was put and looked up, writing the trailer for the text succeeds and has the size announced,
  and a fresh memory of the same limits that reads it gives back only wanted ids, each with exactly its
  remembered text, which stands in the checkpoint's text. When the text is cut into segments, every
  wanted id comes back whose remembered text is the block of a segment, and no other: a block goes from a
  start mark to the first end mark behind it, and a blank line in front belongs to it. So a text is lost
  when it holds several calls of the model's format, ends in white space or was remembered without the blank
  line. Nothing is dropped for lack of room. Ids are at most 256 bytes long, as the reader wants them.\<close>

theorem tool_map_survives_restart:
  assumes "list_all op_ok ops" and "n < 2 ^ 31"
  shows "\<exists>rs m w m1 k m2. memory_run ops (tool_memory_empty n b) = Some (rs, m) \<and>
    kv_tool_map_write False p m = Some ((True, w, of_nat (length w)), m1) \<and>
    kv_tool_map_load_from_pos False w wanted (tool_memory_empty n b) = Some (k, m2) \<and>
    (\<forall>i. \<exists>r r2. recalled i m = Some r \<and> recalled i m2 = Some r2 \<and>
       (\<forall>d s. r2 = Some (d, s) \<longrightarrow> s = TOOL_MEMORY_DISK \<and> wanted_id wanted i \<and> map_option fst r = Some d \<and> sublist d p) \<and>
       (\<forall>gs rest. p = concat (map segment_text gs) @ rest \<and> 0 \<notin> set p \<and> list_all segment_ok gs \<and> no_call_start rest \<longrightarrow>
          r2 = (case r of
            None \<Rightarrow> None
          | Some (d, s) \<Rightarrow> if d \<in> set (map segment_block gs) \<and> wanted_id wanted i then Some (d, TOOL_MEMORY_DISK) else None)))"
proof -
  obtain rs m w m1 k m2 where run: "memory_run ops (tool_memory_empty n b) = Some (rs, m)"
      "kv_tool_map_write False p m = Some ((True, w, of_nat (length w)), m1)"
      "kv_tool_map_load_from_pos False w wanted (tool_memory_empty n b) = Some (k, m2)"
    and found: "\<And>i. \<exists>r. recalled i m = Some r \<and>
       recalled i m2 = Some (case r of
         None \<Rightarrow> None
       | Some (d, s) \<Rightarrow> if d \<in> set (tool_blocks p) \<and> wanted_id wanted i then Some (d, TOOL_MEMORY_DISK) else None)"
    using blocks_survive_restart [OF assms, of b p wanted] by blast
  have "\<exists>r r2. recalled i m = Some r \<and> recalled i m2 = Some r2 \<and>
       (\<forall>d s. r2 = Some (d, s) \<longrightarrow> s = TOOL_MEMORY_DISK \<and> wanted_id wanted i \<and> map_option fst r = Some d \<and> sublist d p) \<and>
       (\<forall>gs rest. p = concat (map segment_text gs) @ rest \<and> 0 \<notin> set p \<and> list_all segment_ok gs \<and> no_call_start rest \<longrightarrow>
          r2 = (case r of
            None \<Rightarrow> None
          | Some (d, s) \<Rightarrow> if d \<in> set (map segment_block gs) \<and> wanted_id wanted i then Some (d, TOOL_MEMORY_DISK) else None))" for i
  proof -
    obtain r where r: "recalled i m = Some r" "recalled i m2 = Some (case r of
         None \<Rightarrow> None
       | Some (d, s) \<Rightarrow> if d \<in> set (tool_blocks p) \<and> wanted_id wanted i then Some (d, TOOL_MEMORY_DISK) else None)"
      using found by blast
    then show ?thesis
      using tool_blocks_sublist [of _ p] tool_blocks_segments by (force split: option.splits if_splits)
  qed
  then show ?thesis
    using run by blast
qed

text \<open>The example: a checkpoint's text with a call behind a word, whose text is remembered.\<close>

definition demo_segment :: segment where
  "demo_segment = \<lparr>sg_text = cstr ''Hi'', sg_blank = False, sg_marks = (cstr ''<tool_call>'', cstr ''</tool_call>''), sg_body = cstr ''f''\<rparr>"

lemma demo_segment_facts: "segment_ok demo_segment" "segment_block demo_segment = cstr ''<tool_call>f</tool_call>''"
    "segment_text demo_segment = cstr ''Hi<tool_call>f</tool_call>''"
  by (simp_all add: demo_segment_def segment_ok_def segment_block_def segment_text_def blank_line_def block_marks_def no_call_start_def mark_texts
      sublist_code suffix_def)

theorem tool_map_survives_restart_witness:
  "\<exists>rs m w m1 k m2. memory_run [PutText [97] (segment_block demo_segment) TOOL_MEMORY_RAM] (tool_memory_empty 1 1000) = Some (rs, m) \<and>
    kv_tool_map_write False (segment_text demo_segment) m = Some ((True, w, of_nat (length w)), m1) \<and>
    kv_tool_map_load_from_pos False w None (tool_memory_empty 1 1000) = Some (k, m2) \<and>
    recalled [97] m2 = Some (Some (segment_block demo_segment, TOOL_MEMORY_DISK))"
proof -
  let ?ops = "[PutText [97] (segment_block demo_segment) TOOL_MEMORY_RAM]"
  have ok: "list_all op_ok ?ops" "(1 :: int) < 2 ^ 31"
    by (simp_all add: small_call_def SF37_TOOL_MEMORY_MAX_BYTES_def demo_segment_facts)
  obtain rs m w m1 k m2 where run: "memory_run ?ops (tool_memory_empty 1 1000) = Some (rs, m)"
      "kv_tool_map_write False (segment_text demo_segment) m = Some ((True, w, of_nat (length w)), m1)"
      "kv_tool_map_load_from_pos False w None (tool_memory_empty 1 1000) = Some (k, m2)"
    and found: "\<forall>i. \<exists>r r2. recalled i m = Some r \<and> recalled i m2 = Some r2 \<and>
       (\<forall>d s. r2 = Some (d, s) \<longrightarrow> s = TOOL_MEMORY_DISK \<and> wanted_id None i \<and> map_option fst r = Some d \<and> sublist d (segment_text demo_segment)) \<and>
       (\<forall>gs rest. segment_text demo_segment = concat (map segment_text gs) @ rest \<and> 0 \<notin> set (segment_text demo_segment) \<and>
          list_all segment_ok gs \<and> no_call_start rest \<longrightarrow>
          r2 = (case r of
            None \<Rightarrow> None
          | Some (d, s) \<Rightarrow> if d \<in> set (map segment_block gs) \<and> wanted_id None i then Some (d, TOOL_MEMORY_DISK) else None))"
    using tool_map_survives_restart [OF ok, of 1000 "segment_text demo_segment" None] by blast
  have "recalled [97] m = Some (Some (segment_block demo_segment, TOOL_MEMORY_RAM))"
    using memory_run_rel [OF empty_rel empty_within refl refl, of ?ops 1 1000] run(1) recalled_view
    by (auto simp: tool_memory_max_entries_def tool_memory_max_bytes_def tool_memory_empty_def spec_put_def spec_front_def spec_prune.simps
        memory_bytes_def SIZEOF_ENTRY_def SIZEOF_BLOCK_def demo_segment_facts)
  moreover have "segment_text demo_segment = concat (map segment_text [demo_segment]) @ [] \<and> 0 \<notin> set (segment_text demo_segment) \<and>
      list_all segment_ok [demo_segment] \<and> no_call_start []"
    by (simp add: demo_segment_facts no_call_start_def block_marks_def mark_texts)
  ultimately have "recalled [97] m2 = Some (Some (segment_block demo_segment, TOOL_MEMORY_DISK))"
    using spec [OF found, of "[97]"] by (fastforce simp: wanted_id_def)
  then show ?thesis
    using run by blast
qed

subsection \<open>Exact replay\<close>

lemma spec_prune_prefix:
  assumes "int (length F) \<le> n" and "memory_bytes F \<le> b"
  shows "\<exists>R'. spec_prune n b (F @ R) = F @ R'"
proof (induction R rule: rev_induct)
  case Nil
  then show ?case
    using assms by (subst spec_prune.simps) auto
next
  case (snoc c R)
  have "F @ R @ [c] \<noteq> []" "butlast (F @ R @ [c]) = F @ R"
    by (simp_all add: butlast_append)
  then show ?case
    using snoc.IH by (subst spec_prune.simps) (simp only: simp_thms if_True if_False split: if_split, blast)
qed

lemma map_of_spec_front: "map_of V i = Some v \<Longrightarrow> map_of (spec_front i v V) = map_of V"
proof
  fix j
  assume "map_of V i = Some v"
  moreover have "map_of (filter (\<lambda>c. fst c \<noteq> i) V) j = (if j = i then None else map_of V j)"
    by (induction V) auto
  ultimately show "map_of (spec_front i v V) j = map_of V j"
    by (auto simp: spec_front_def)
qed

definition blocks_kept :: "tool_memory \<Rightarrow> tool_memory option \<Rightarrow> bool" where
  "blocks_kept m r \<longleftrightarrow> (case r of None \<Rightarrow> True | Some m' \<Rightarrow> tm_b m' = tm_b m \<and> tm_by_block m' = tm_by_block m)"

lemma blocks_kept_bind:
  "blocks_kept m r \<Longrightarrow> (\<And>m1. tm_b m1 = tm_b m \<Longrightarrow> tm_by_block m1 = tm_by_block m \<Longrightarrow> blocks_kept m (f m1)) \<Longrightarrow> blocks_kept m (Option.bind r f)"
  by (cases r) (simp_all add: blocks_kept_def)

lemma blocks_kept_upd_e: "tm_b m1 = tm_b m \<Longrightarrow> tm_by_block m1 = tm_by_block m \<Longrightarrow> blocks_kept m (upd_e a f m1)"
  by (simp add: blocks_kept_def upd_e_def split: option.splits)

lemma blocks_kept_Some: "tm_b m1 = tm_b m \<Longrightarrow> tm_by_block m1 = tm_by_block m \<Longrightarrow> blocks_kept m (Some m1)"
  by (simp add: blocks_kept_def)

lemma blocks_kept_case: "blocks_kept m r0 \<Longrightarrow> (\<And>x. blocks_kept m (r x)) \<Longrightarrow> blocks_kept m (case y of None \<Rightarrow> r0 | Some x \<Rightarrow> r x)"
  by (cases y) simp_all

lemma blocks_kept_unlink: "tm_b m1 = tm_b m \<Longrightarrow> tm_by_block m1 = tm_by_block m \<Longrightarrow> blocks_kept m (tool_memory_unlink a m1)"
  by (cases "tm_e m1 a") (auto simp: tool_memory_unlink_def blocks_kept_def [of m None]
      intro!: blocks_kept_bind blocks_kept_case blocks_kept_upd_e blocks_kept_Some)

lemma blocks_kept_link_head: "tm_b m1 = tm_b m \<Longrightarrow> tm_by_block m1 = tm_by_block m \<Longrightarrow> blocks_kept m (tool_memory_link_head a m1)"
  by (auto simp: tool_memory_link_head_def intro!: blocks_kept_bind blocks_kept_case blocks_kept_upd_e blocks_kept_Some)

lemma touch_blocks: "tool_memory_touch a m = Some m' \<Longrightarrow> tm_b m' = tm_b m \<and> tm_by_block m' = tm_by_block m"
proof -
  assume run: "tool_memory_touch a m = Some m'"
  have "blocks_kept m (tool_memory_touch a m)"
    unfolding tool_memory_touch_def Let_def
    by (auto intro!: blocks_kept_bind blocks_kept_upd_e blocks_kept_Some blocks_kept_unlink blocks_kept_link_head)
  then show ?thesis
    using run by (simp add: blocks_kept_def)
qed

lemma lookup_block:
  assumes "tool_memory_lookup_locked i m = Some (Some (d, s, b), m')"
  shows "tm_b m' = tm_b m" "tm_by_block m' = tm_by_block m" "\<exists>k. tm_b m b = Some k \<and> tb_dsml k = d"
proof -
  obtain a where a: "tool_memory_find_entry_locked m i = Some a"
    using assms by (cases "tool_memory_find_entry_locked m i") (auto simp: tool_memory_lookup_locked_def)
  obtain m1 where m1: "tool_memory_touch a m = Some m1"
    using assms a by (cases "tool_memory_touch a m") (auto simp: tool_memory_lookup_locked_def)
  note same = touch_blocks [OF m1]
  have m': "m' = m1" "\<exists>k. tm_b m1 b = Some k \<and> tb_dsml k = d"
    using assms a m1 by (auto simp: tool_memory_lookup_locked_def bind_eq_Some_conv)
  then show "tm_b m' = tm_b m" "tm_by_block m' = tm_by_block m" "\<exists>k. tm_b m b = Some k \<and> tb_dsml k = d"
    using same by auto
qed

lemma attach_calls_run:
  assumes "tm_rel m V" and "\<And>c. c \<in> set cs \<Longrightarrow> map_of V (tc_id c) = Some (d, TOOL_MEMORY_RAM)"
    and "tm_by_block m d = Some b" and "matched = None \<or> matched = Some b"
  shows "\<exists>m'. attach_calls cs (matched, src, True, miss) m =
      Some ((if cs = [] then matched else Some b, if cs = [] then src else TOOL_MEMORY_RAM, True, miss), m') \<and> tm_b m' = tm_b m"
  using assms
proof (induction cs arbitrary: m V matched src)
  case (Cons c cs)
  have found: "map_of V (tc_id c) = Some (d, TOOL_MEMORY_RAM)"
    using Cons.prems(2) by simp
  obtain r m1 where m1: "tool_memory_lookup_locked (tc_id c) m = Some (r, m1)" "map_option (\<lambda>(d, s, b). (d, s)) r = Some (d, TOOL_MEMORY_RAM)"
      "tm_rel m1 (spec_front (tc_id c) (d, TOOL_MEMORY_RAM) V)"
    using lookup_rel [OF Cons.prems(1), of "tc_id c"] found by (auto simp: spec_lookup_def)
  obtain b' where r: "r = Some (d, TOOL_MEMORY_RAM, b')"
    using m1(2) by auto
  note l = lookup_block [OF m1(1) [unfolded r]]
  obtain L C where "tm_inv m L C"
    using Cons.prems(1) by (auto simp: tm_rel_def)
  then have "tm_by_block m d = Some b'"
    using block_invD(1) [OF tm_invD(4)] l(3) by blast
  then have b': "b' = b"
    using Cons.prems(3) by simp
  have "\<exists>m'. attach_calls cs (Some b, TOOL_MEMORY_RAM, True, miss) m1 =
      Some ((if cs = [] then Some b else Some b, if cs = [] then TOOL_MEMORY_RAM else TOOL_MEMORY_RAM, True, miss), m') \<and> tm_b m' = tm_b m1"
    using Cons.IH [OF m1(3), of "Some b" TOOL_MEMORY_RAM] Cons.prems(2,3) map_of_spec_front [OF found] l(2) by simp
  then show ?case
    using m1(1) Cons.prems(4) l(1) by (auto simp: r b')
qed simp

text \<open>What remembering leaves in front.\<close>

lemma put_ids_run:
  assumes "tm_rel m (map (\<lambda>i. (i, d, TOOL_MEMORY_RAM)) us @ R)" and "distinct us" and "d \<noteq> []"
    and "\<And>c. c \<in> set cs \<Longrightarrow> tc_id c \<noteq> []" and "set us \<union> set (map tc_id cs) \<subseteq> set js" and "distinct js"
    and "int (length js) \<le> tool_memory_max_entries m" and "memory_bytes (map (\<lambda>i. (i, d, TOOL_MEMORY_RAM)) js) \<le> tool_memory_max_bytes m"
  shows "\<exists>m' us' R'. put_ids d cs m = Some m' \<and> tm_rel m' (map (\<lambda>i. (i, d, TOOL_MEMORY_RAM)) us' @ R') \<and>
    set us' = set us \<union> set (map tc_id cs)"
  using assms
proof (induction cs arbitrary: m us R)
  case Nil
  then show ?case
    by auto
next
  case (Cons c cs)
  define f where "f = (\<lambda>i :: bytes. (i, d, TOOL_MEMORY_RAM))"
  define us1 where "us1 = tc_id c # filter (\<lambda>i. i \<noteq> tc_id c) us"
  have front: "spec_front (tc_id c) (d, TOOL_MEMORY_RAM) (map f us @ R) = map f us1 @ filter (\<lambda>c'. fst c' \<noteq> tc_id c) R"
    by (simp add: spec_front_def us1_def f_def filter_map o_def)
  have us1: "distinct us1" "set us1 = insert (tc_id c) (set us)"
    using Cons.prems(2) by (auto simp: us1_def)
  have sub: "mset us1 \<subseteq># mset js"
    by (rule distinct_mset_le) (use us1 Cons.prems(5) in auto)
  have "mset (map call_of (map f us1)) \<subseteq># mset (map call_of (map f js))"
    using image_mset_subseteq_mono [OF sub, of "\<lambda>i. call_of (f i)"] by (simp add: o_def multiset.map_comp)
  then have bytes: "memory_bytes (map f us1) \<le> tool_memory_max_bytes m"
    using memory_bytes_mono Cons.prems(8) unfolding f_def by (meson order.trans)
  have entries: "int (length (map f us1)) \<le> tool_memory_max_entries m"
    using size_mset_mono [OF sub] Cons.prems(7) by simp
  obtain R1 where R1: "spec_prune (tool_memory_max_entries m) (tool_memory_max_bytes m) (map f us1 @ filter (\<lambda>c'. fst c' \<noteq> tc_id c) R) = map f us1 @ R1"
    using spec_prune_prefix [OF entries bytes] by blast
  have "spec_put (tool_memory_max_entries m) (tool_memory_max_bytes m) (tc_id c) d TOOL_MEMORY_RAM (map f us @ R) = map f us1 @ R1"
    using Cons.prems(3,4) R1 front by (auto simp: spec_put_def split: option.splits)
  then obtain m1 where m1: "tool_memory_put_locked (tc_id c) d TOOL_MEMORY_RAM m = Some m1" "same_limits m m1" "tm_rel m1 (map f us1 @ R1)"
    using put_rel [OF Cons.prems(1), of "tc_id c" d TOOL_MEMORY_RAM] unfolding f_def by auto
  note limits = limits_same [OF m1(2)]
  have "\<exists>m' us' R'. put_ids d cs m1 = Some m' \<and> tm_rel m' (map (\<lambda>i. (i, d, TOOL_MEMORY_RAM)) us' @ R') \<and>
      set us' = set us1 \<union> set (map tc_id cs)"
    by (rule Cons.IH [OF m1(3) [unfolded f_def] us1(1) Cons.prems(3)]) (use Cons.prems(4-) us1(2) limits in auto)
  then show ?case
    using m1(1) us1(2) by auto
qed

text \<open>C23: The text a message was generated with comes back exactly: after any use of the memory, once a
  message's calls are remembered and fit, a message made of calls with these ids that comes before
  anything else is put is given the remembered text, from one shared block, and counted as found in
  memory.\<close>

theorem tool_replay_exact:
  assumes "memory_run ops (tool_memory_empty n b) = Some (rs, m)" and "tcs_raw_dsml calls = Some d" and "d \<noteq> []"
    and "\<forall>c\<in>set (tcs_v calls). tc_id c \<noteq> []"
    and "int (length (remdups (map tc_id (tcs_v calls)))) \<le> tool_memory_max_entries (tool_memory_empty n b)"
    and "memory_bytes (map (\<lambda>i. (i, d, TOOL_MEMORY_RAM)) (remdups (map tc_id (tcs_v calls)))) \<le> tool_memory_max_bytes (tool_memory_empty n b)"
    and "tcs_v msg \<noteq> []" and "tc_id ` set (tcs_v msg) \<subseteq> tc_id ` set (tcs_v calls)" and "tcs_raw_dsml msg = None"
  shows "\<exists>m1 m2. tool_memory_remember False calls m = Some m1 \<and>
    tool_memory_attach_to_messages False [msg] stats m1 =
      Some (([msg\<lparr>tcs_raw_dsml := Some d\<rparr>], stats\<lparr>trs_mem := trs_mem stats + 1\<rparr>), m2)"
proof -
  obtain V where V: "tm_rel m V" "same_limits (tool_memory_empty n b) m"
    using memory_run_rel [OF empty_rel empty_within refl refl, of ops n b] assms(1) by auto
  note limits = limits_same [OF V(2)]
  obtain m1 us R where m1: "put_ids d (tcs_v calls) m = Some m1" "tm_rel m1 (map (\<lambda>i. (i, d, TOOL_MEMORY_RAM)) us @ R)"
      "set us = set (map tc_id (tcs_v calls))"
    using put_ids_run [where m = m and d = d and us = "[]" and R = V and cs = "tcs_v calls" and js = "remdups (map tc_id (tcs_v calls))"]
      V(1) assms(3-6) limits by auto
  have remembered: "tool_memory_remember False calls m = Some m1"
    using m1(1) assms(2,3) by (simp add: tool_memory_remember_def)
  have found: "map_of (map (\<lambda>i. (i, d, TOOL_MEMORY_RAM)) us @ R) (tc_id c) = Some (d, TOOL_MEMORY_RAM)" if c: "c \<in> set (tcs_v msg)" for c
  proof -
    have "tc_id c \<in> set us"
      using c assms(8) m1(3) by auto
    then have "map_of (map (\<lambda>i. (i, d, TOOL_MEMORY_RAM)) us) (tc_id c) = Some (d, TOOL_MEMORY_RAM)"
      by (induction us) auto
    then show ?thesis
      by simp
  qed
  obtain L C where L: "tm_inv m1 L C" "map (entry_view m1) L = map (\<lambda>i. (i, d, TOOL_MEMORY_RAM)) us @ R"
    using m1(2) by (auto simp: tm_rel_def)
  obtain c where c: "c \<in> set (tcs_v msg)"
    using assms(7) by (cases "tcs_v msg") auto
  then have "(tc_id c, d, TOOL_MEMORY_RAM) \<in> set (map (entry_view m1) L)"
    using found [OF c] map_of_SomeD unfolding L(2) by fastforce
  then obtain bl where bl: "tm_by_block m1 d = Some bl"
    using view_props(2) [OF L(1)] by blast
  then obtain k where k: "tm_b m1 bl = Some k" "tb_dsml k = d"
    using block_invD(1) [OF tm_invD(4) [OF L(1)]] by blast
  obtain m2 where m2: "attach_calls (tcs_v msg) (None, TOOL_MEMORY_DISK, True, 0) m1 = Some ((Some bl, TOOL_MEMORY_RAM, True, 0), m2)" "tm_b m2 = tm_b m1"
    using attach_calls_run [OF m1(2) found bl, of "tcs_v msg" None TOOL_MEMORY_DISK 0] assms(7) by auto
  have "attach_message msg stats m1 = Some ((msg\<lparr>tcs_raw_dsml := Some d\<rparr>, stats\<lparr>trs_mem := trs_mem stats + 1\<rparr>), m2)"
    using m2 k assms(7,9) by (simp add: attach_message_def)
  then show ?thesis
    using remembered by (simp add: tool_memory_attach_to_messages_def)
qed

theorem tool_replay_exact_witness:
  "\<exists>m1 m2. tool_memory_remember False \<lparr>tcs_v = [\<lparr>tc_id = [97], tc_name = [], tc_arguments = []\<rparr>], tcs_raw_dsml = Some [60]\<rparr>
      (tool_memory_empty 5 1000) = Some m1 \<and>
    tool_memory_attach_to_messages False [\<lparr>tcs_v = [\<lparr>tc_id = [97], tc_name = [], tc_arguments = []\<rparr>], tcs_raw_dsml = None\<rparr>]
      \<lparr>trs_mem = 0, trs_disk = 0, trs_canonical = 0, trs_missing_ids = 0\<rparr> m1 =
      Some (([\<lparr>tcs_v = [\<lparr>tc_id = [97], tc_name = [], tc_arguments = []\<rparr>], tcs_raw_dsml = Some [60]\<rparr>],
        \<lparr>trs_mem = 1, trs_disk = 0, trs_canonical = 0, trs_missing_ids = 0\<rparr>), m2)"
  using tool_replay_exact [of "[]" 5 1000 "[]" "tool_memory_empty 5 1000"
      "\<lparr>tcs_v = [\<lparr>tc_id = [97], tc_name = [], tc_arguments = []\<rparr>], tcs_raw_dsml = Some [60]\<rparr>" "[60]"
      "\<lparr>tcs_v = [\<lparr>tc_id = [97], tc_name = [], tc_arguments = []\<rparr>], tcs_raw_dsml = None\<rparr>"
      "\<lparr>trs_mem = 0, trs_disk = 0, trs_canonical = 0, trs_missing_ids = 0\<rparr>"]
  by (simp add: tool_memory_max_entries_def tool_memory_max_bytes_def tool_memory_empty_def memory_bytes_def SIZEOF_ENTRY_def SIZEOF_BLOCK_def)

subsection \<open>Reading the trailers of a directory\<close>

text \<open>A message of a request; a missing string is \<open>None\<close> where the code tells it from an empty one.\<close>

record chat_msg =
  cm_role :: "bytes option"
  cm_name :: "bytes option"
  cm_content :: "bytes option"
  cm_reasoning :: "bytes option"
  cm_tool_call_id :: bytes
  cm_tool_call_ids :: "bytes list"
  cm_calls :: tool_calls

definition chat_msg_collect_tool_call_ids :: "chat_msg \<Rightarrow> stop_list \<Rightarrow> stop_list" where
  "chat_msg_collect_tool_call_ids msg ids = foldl id_list_push_unique (id_list_push_unique ids (cm_tool_call_id msg)) (cm_tool_call_ids msg)"

definition collect_tool_call_ids :: "chat_msg list \<Rightarrow> stop_list \<Rightarrow> stop_list" where
  "collect_tool_call_ids msgs ids =
     foldl (\<lambda>ids msg. foldl id_list_push_unique (chat_msg_collect_tool_call_ids msg ids) (map tc_id (tcs_v (cm_calls msg)))) ids msgs"

text \<open>One file of the directory, then all; a seek past the end reads nothing.\<close>

definition restore_file :: "kv_os \<Rightarrow> bytes \<Rightarrow> stop_list \<Rightarrow> bytes \<Rightarrow> tool_memory \<Rightarrow> tool_memory option" where
  "restore_file os dir wanted name m =
     (case sf37_kvstore_sha_hex_name name of
        None \<Rightarrow> Some m
      | Some sha \<Rightarrow>
          (case os_read os (sf37_kvstore_path_join dir name) of
             None \<Rightarrow> Some m
           | Some fp \<Rightarrow>
               (case sf37_kvstore_read_header fp kv_entry_zero of
                  None \<Rightarrow> Some m
                | Some (hdr, text_bytes, fp) \<Rightarrow>
                    let skip = ucast text_bytes + ke_payload_bytes hdr
                    in if ke_model_id hdr = 37 \<and> ke_ext_flags hdr AND KV_EXT_TOOL_MAP \<noteq> 0 \<and> unat skip \<le> 2 ^ 63 - 1
                       then map_option snd (kv_tool_map_load_from_pos False (drop (unat skip) fp) (Some wanted) m)
                       else Some m)))"

fun restore_files :: "kv_os \<Rightarrow> bytes \<Rightarrow> stop_list \<Rightarrow> bytes list \<Rightarrow> tool_memory \<Rightarrow> tool_memory option" where
  "restore_files os dir wanted [] m = Some m"
| "restore_files os dir wanted (name # names) m = Option.bind (restore_file os dir wanted name m) (restore_files os dir wanted names)"

definition kv_cache_restore_tool_memory_for_messages ::
  "bool \<Rightarrow> kv_os \<Rightarrow> kvstore \<Rightarrow> chat_msg list \<Rightarrow> tool_memory \<Rightarrow> tool_memory option" where
  "kv_cache_restore_tool_memory_for_messages disabled os kc msgs m =
     (if disabled \<or> \<not> kc_enabled kc then Some m
      else let wanted = collect_tool_call_ids msgs \<lparr>sl_v = [], sl_max_len = 0\<rparr>
      in if sl_v wanted = [] \<or> os_fail os (Opendir (kc_dir kc)) then Some m
         else restore_files os (kc_dir kc) wanted (os_readdir os (kc_dir kc)) m)"

end
