(* ===== verification/ToolText.thy ===== *)
theory ToolText
  imports ToolMap
begin

section \<open>Tool calls as text\<close>

text \<open>
  How the server of \<open>sf37_server.c\<close> writes tool calls into a prompt and reads them out of a generated
  text: the rendering in the model's own format with the arguments in the order of the tool's
  schema, the parser of this format and of the older ones with attributes, and the repair of a call
  that was cut off. A pointer into a text is the rest of the text; a text is a C string, without NUL.
  A parser that returns false is \<open>None\<close>; what it had allocated is freed. A missing name or argument
  string is empty.
\<close>

subsection \<open>Markers\<close>

definition SF37_INVOKE_START :: bytes where "SF37_INVOKE_START = cstr ''<'' @ SF37_DSML @ cstr ''invoke''"
definition SF37_INVOKE_END :: bytes where "SF37_INVOKE_END = cstr ''</'' @ SF37_DSML @ cstr ''invoke>''"
definition SF37_PARAM_START :: bytes where "SF37_PARAM_START = cstr ''<'' @ SF37_DSML @ cstr ''parameter''"
definition SF37_PARAM_END :: bytes where "SF37_PARAM_END = cstr ''</'' @ SF37_DSML @ cstr ''parameter>''"
definition SF37_INVOKE_START_SHORT :: bytes where "SF37_INVOKE_START_SHORT = cstr ''<'' @ SF37_DSML_SHORT @ cstr ''invoke''"
definition SF37_INVOKE_END_SHORT :: bytes where "SF37_INVOKE_END_SHORT = cstr ''</'' @ SF37_DSML_SHORT @ cstr ''invoke>''"
definition SF37_PARAM_START_SHORT :: bytes where "SF37_PARAM_START_SHORT = cstr ''<'' @ SF37_DSML_SHORT @ cstr ''parameter''"
definition SF37_PARAM_END_SHORT :: bytes where "SF37_PARAM_END_SHORT = cstr ''</'' @ SF37_DSML_SHORT @ cstr ''parameter>''"
definition SF37_FUNCTION_START :: bytes where "SF37_FUNCTION_START = cstr ''<function=''"
definition SF37_FUNCTION_END :: bytes where "SF37_FUNCTION_END = cstr ''</function>''"
definition SF37_PARAMETER_START :: bytes where "SF37_PARAMETER_START = cstr ''<parameter=''"
definition SF37_PARAMETER_END :: bytes where "SF37_PARAMETER_END = cstr ''</parameter>''"

abbreviation (input) nl :: bytes where
  "nl \<equiv> [0x0a]"

subsection \<open>Arguments\<close>

record json_arg =
  ja_key :: bytes
  ja_value :: bytes
  ja_is_string :: bool
  ja_used :: bool

definition json_args_push :: "json_arg list \<Rightarrow> json_arg \<Rightarrow> json_arg list" where
  "json_args_push args arg = args @ [arg]"

text \<open>The first unused argument with a key.\<close>

fun json_args_find_unused :: "json_arg list \<Rightarrow> bytes \<Rightarrow> nat option" where
  "json_args_find_unused [] key = None"
| "json_args_find_unused (a # args) key =
     (if \<not> ja_used a \<and> ja_key a = key then Some 0 else map_option Suc (json_args_find_unused args key))"

text \<open>One argument of an object, with the separator behind it.\<close>

definition json_args_step :: "bytes \<Rightarrow> (json_arg \<times> bytes) option" where
  "json_args_step p =
     (case json_string p of
        None \<Rightarrow> None
      | Some (key, p) \<Rightarrow>
          let p = json_ws p
          in if \<not> at_lit p [ch CHR '':''] then None
             else let p = json_ws (tl p);
                      value = (if at_lit p [0x22]
                               then map_option (\<lambda>(v, p). ((v, True), p)) (json_string p)
                               else map_option (\<lambda>(raw, p). ((json_minify_raw_value raw, False), p)) (json_raw_value p))
                  in (case value of
                        None \<Rightarrow> None
                      | Some ((v, is_string), p) \<Rightarrow>
                          let p = json_ws p; p = (if at_lit p [ch CHR '',''] then tl p else p)
                          in Some (\<lparr>ja_key = key, ja_value = v, ja_is_string = is_string, ja_used = False\<rparr>, json_ws p)))"

lemma json_raw_value_less: "json_raw_value p = Some (v, q) \<Longrightarrow> length q < length p"
  using json_skip_value_less [of "json_ws p" q] json_ws_le [of p] by (auto simp: json_raw_value_def Let_def)

lemma json_args_step_less:
  assumes "json_args_step p = Some (a, q)"
  shows "length q < length p"
proof -
  obtain key p1 where p1: "json_string p = Some (key, p1)"
    using assms by (auto simp: json_args_step_def split: option.splits)
  define p2 where "p2 = json_ws (tl (json_ws p1))"
  define val0 where "val0 = (if at_lit p2 [0x22]
     then map_option (\<lambda>(v, p). ((v, True), p)) (json_string p2)
     else map_option (\<lambda>(raw, p). ((json_minify_raw_value raw, False), p)) (json_raw_value p2))"
  obtain v is_string p3 where p3: "val0 = Some ((v, is_string), p3)"
      and q: "q = json_ws (if at_lit (json_ws p3) [ch CHR '','' ] then tl (json_ws p3) else json_ws p3)"
    using assms p1 unfolding json_args_step_def p2_def val0_def by (auto simp: Let_def split: if_splits option.splits)
  have "length p3 < length p2"
    using p3 json_string_less [of p2] json_raw_value_less [of p2] unfolding val0_def by (auto split: if_splits)
  moreover have "length q \<le> length p3"
    unfolding q by (rule comma_le)
  moreover have "length p2 \<le> length p1"
    using json_ws_le [of "tl (json_ws p1)"] json_ws_le [of p1] by (simp add: p2_def)
  ultimately show ?thesis
    using json_string_less [OF p1] by simp
qed

function json_args_loop :: "bytes \<Rightarrow> json_arg list \<Rightarrow> (json_arg list \<times> bytes) option" where
  "json_args_loop p args =
     (if p = [] \<or> at_lit p [ch CHR ''}''] then Some (args, p)
      else (case json_args_step p of None \<Rightarrow> None | Some (arg, p) \<Rightarrow> json_args_loop p (json_args_push args arg)))"
  by pat_completeness auto
termination
  by (relation "measure (\<lambda>(p, args). length p)") (auto dest: json_args_step_less)

declare json_args_loop.simps [simp del]

definition json_args_parse :: "bytes \<Rightarrow> json_arg list option" where
  "json_args_parse json =
     (let p = json_ws json
      in if \<not> at_lit p [ch CHR ''{''] then None
         else (case json_args_loop (json_ws (tl p)) [] of
                 None \<Rightarrow> None
               | Some (args, p) \<Rightarrow> if at_lit p [ch CHR ''}''] then Some args else None))"

subsection \<open>Rendering\<close>

record tool_schema_order =
  tso_name :: bytes
  tso_wire_name :: "bytes option"
  tso_namespace :: "bytes option"
  tso_responses_tool_search :: bool
  tso_prop :: "bytes list"

definition tool_schema_orders_find_index :: "tool_schema_order list \<Rightarrow> bytes \<Rightarrow> int" where
  "tool_schema_orders_find_index orders name =
     (case find (\<lambda>i. tso_name (orders ! i) = name) [0..<length orders] of None \<Rightarrow> - 1 | Some i \<Rightarrow> int i)"

definition tool_schema_orders_find :: "tool_schema_order list \<Rightarrow> bytes \<Rightarrow> tool_schema_order option" where
  "tool_schema_orders_find orders name =
     (let idx = tool_schema_orders_find_index orders name in if idx \<ge> 0 then Some (orders ! nat idx) else None)"

definition tool_schema_orders_push :: "tool_schema_order list \<Rightarrow> tool_schema_order \<Rightarrow> tool_schema_order list" where
  "tool_schema_orders_push orders order =
     (let idx = tool_schema_orders_find_index orders (tso_name order)
      in if idx \<ge> 0 then orders[nat idx := order] else orders @ [order])"

fun append_official_parameter_text :: "bytes \<Rightarrow> bytes" where
  "append_official_parameter_text [] = []"
| "append_official_parameter_text (c # s) =
     (if at_lit (c # s) SF37_PARAMETER_END then cstr ''&lt;'' @ append_official_parameter_text s
      else c # append_official_parameter_text s)"

definition append_official_arg :: "json_arg \<Rightarrow> bytes" where
  "append_official_arg arg =
     SF37_PARAMETER_START @ ja_key arg @ cstr ''>'' @ nl @
     (if ja_is_string arg then append_official_parameter_text (ja_value arg) else ja_value arg) @
     nl @ SF37_PARAMETER_END @ nl"

text \<open>The arguments in the order of the schema first; each is used once.\<close>

fun ordered_args :: "bytes list \<Rightarrow> json_arg list \<Rightarrow> bytes \<Rightarrow> json_arg list \<times> bytes" where
  "ordered_args [] args b = (args, b)"
| "ordered_args (prop # props) args b =
     (case json_args_find_unused args prop of
        None \<Rightarrow> ordered_args props args b
      | Some idx \<Rightarrow> ordered_args props (args[idx := (args ! idx)\<lparr>ja_used := True\<rparr>]) (b @ append_official_arg (args ! idx)))"

definition append_official_arguments_from_json :: "bytes \<Rightarrow> tool_schema_order option \<Rightarrow> bytes option" where
  "append_official_arguments_from_json json order =
     (case json_args_parse json of
        None \<Rightarrow> None
      | Some args \<Rightarrow>
          let (args, b) = (case order of None \<Rightarrow> (args, []) | Some order \<Rightarrow> ordered_args (tso_prop order) args [])
          in Some (b @ concat (map append_official_arg (filter (\<lambda>a. \<not> ja_used a) args))))"

definition raw_tool_block_is_official :: "bytes \<Rightarrow> bool" where
  "raw_tool_block_is_official s \<longleftrightarrow> at_lit (dropWhile isspace s) SF37_TOOL_CALL_START"

definition append_official_call :: "tool_schema_order list \<Rightarrow> tool_call \<Rightarrow> bytes" where
  "append_official_call orders tc =
     SF37_TOOL_CALL_START @ nl @ SF37_FUNCTION_START @ tc_name tc @ cstr ''>'' @ nl @
     (case append_official_arguments_from_json (tc_arguments tc) (tool_schema_orders_find orders (tc_name tc)) of
        Some b \<Rightarrow> b
      | None \<Rightarrow>
          SF37_PARAMETER_START @ cstr ''arguments>'' @ nl @ append_official_parameter_text (tc_arguments tc) @
          nl @ SF37_PARAMETER_END @ nl) @
     SF37_FUNCTION_END @ nl @ SF37_TOOL_CALL_END"

text \<open>Without schemas the list of orders is empty.\<close>

definition append_official_tool_calls_text :: "tool_calls \<Rightarrow> tool_schema_order list \<Rightarrow> bytes" where
  "append_official_tool_calls_text calls orders =
     (if tcs_v calls = [] then []
      else case tcs_raw_dsml calls of
        Some raw \<Rightarrow> if raw_tool_block_is_official raw then raw else concat (map (append_official_call orders) (tcs_v calls))
      | None \<Rightarrow> concat (map (append_official_call orders) (tcs_v calls)))"

subsection \<open>Parsing the model's own format\<close>

definition skip_ascii_ws :: "bytes \<Rightarrow> bytes" where
  "skip_ascii_ws p = dropWhile isspace p"

definition strchr :: "bytes \<Rightarrow> byte \<Rightarrow> nat option" where
  "strchr p c = (let n = length (takeWhile (\<lambda>x. x \<noteq> c) p) in if n < length p then Some n else None)"

function xml_unescape_text :: "bytes \<Rightarrow> bytes" where
  "xml_unescape_text [] = []"
| "xml_unescape_text (c # s) =
     (if at_lit (c # s) (cstr ''&lt;'') then ch CHR ''<'' # xml_unescape_text (drop 3 s)
      else if at_lit (c # s) (cstr ''&gt;'') then ch CHR ''>'' # xml_unescape_text (drop 3 s)
      else if at_lit (c # s) (cstr ''&amp;'') then ch CHR ''&'' # xml_unescape_text (drop 4 s)
      else if at_lit (c # s) (cstr ''&quot;'') then 0x22 # xml_unescape_text (drop 5 s)
      else c # xml_unescape_text s)"
  by pat_completeness auto
termination
  by (relation "measure length") auto

definition tool_call_json_args_add :: "bytes \<Rightarrow> bytes \<Rightarrow> bytes \<Rightarrow> bytes \<Rightarrow> bytes" where
  "tool_call_json_args_add b name value type =
     (if b \<noteq> [] then b @ cstr '','' else b) @ json_escape name @ cstr '':'' @
     (if type = cstr ''false'' then json_minify_raw_value value else json_escape value)"

definition raw_text_is_json_value :: "bytes \<Rightarrow> bool" where
  "raw_text_is_json_value s =
     (let p = json_ws s
      in if p = [] then False
         else (case json_skip_value p of None \<Rightarrow> False | Some p \<Rightarrow> json_ws p = []))"

text \<open>One line end at each side.\<close>

definition trim_official_parameter_value :: "bytes \<Rightarrow> bytes" where
  "trim_official_parameter_value s =
     (let s = (if at_lit s [0x0d, 0x0a] then drop 2 s else if at_lit s [0x0a] then drop 1 s else s); n = length s
      in if n \<ge> 2 \<and> s ! (n - 2) = 0x0d \<and> s ! (n - 1) = 0x0a then take (n - 2) s
         else if n \<ge> 1 \<and> s ! (n - 1) = 0x0a then take (n - 1) s
         else s)"

lemma marker_lengths [simp]:
  "length SF37_PARAMETER_START = 11" "length SF37_PARAMETER_END = 12" "length SF37_TOOL_CALL_START = 11"
  "length SF37_TOOL_CALL_END = 12" "length SF37_FUNCTION_START = 10" "length SF37_FUNCTION_END = 11"
  by (simp_all add: SF37_PARAMETER_START_def SF37_PARAMETER_END_def SF37_TOOL_CALL_START_def SF37_TOOL_CALL_END_def
      SF37_FUNCTION_START_def SF37_FUNCTION_END_def)

lemma skip_ascii_ws_le: "length (skip_ascii_ws p) \<le> length p"
  by (simp add: skip_ascii_ws_def length_dropWhile_le)

lemma at_lit_length: "at_lit p l \<Longrightarrow> length l \<le> length p"
  by (metis at_lit_def length_take min.absorb_iff2 min.commute)

text \<open>The parameters up to the end of the function, collected into the text of an object.\<close>

function official_params :: "bytes \<Rightarrow> bytes \<Rightarrow> (bytes \<times> bytes) option" where
  "official_params p args =
     (let p = skip_ascii_ws p
      in if at_lit p SF37_FUNCTION_END then Some (args, drop (length SF37_FUNCTION_END) p)
         else if \<not> at_lit p SF37_PARAMETER_START then None
         else let p = drop (length SF37_PARAMETER_START) p
              in (case strchr p (ch CHR ''>'') of
                    None \<Rightarrow> None
                  | Some n \<Rightarrow>
                      if n = 0 then None
                      else let value_start = drop (n + 1) p
                           in (case strstr value_start SF37_PARAMETER_END of
                                 None \<Rightarrow> None
                               | Some value_len \<Rightarrow>
                                   let value = xml_unescape_text (trim_official_parameter_value (take value_len value_start))
                                   in official_params (drop (value_len + length SF37_PARAMETER_END) value_start)
                                        (tool_call_json_args_add args (take n p) value
                                           (if raw_text_is_json_value value then cstr ''false'' else cstr ''true'')))))"
  by pat_completeness auto
termination
proof (relation "measure (\<lambda>(p, args). length p)", goal_cases)
  case (2 p args p1 p2 n vs vl v)
  have "length p2 < length p"
    using 2(1-4) skip_ascii_ws_le [of p] at_lit_length [of p1 SF37_PARAMETER_START] by simp
  then show ?case
    using 2(5-8) by simp
qed simp

declare official_params.simps [simp del]

text \<open>A call: its name and arguments, and the text behind it.\<close>

definition parse_official_tool_call_block :: "bytes \<Rightarrow> (tool_call \<times> bytes) option" where
  "parse_official_tool_call_block p =
     (if \<not> at_lit p SF37_TOOL_CALL_START then None
      else let p = skip_ascii_ws (drop (length SF37_TOOL_CALL_START) p)
      in if \<not> at_lit p SF37_FUNCTION_START then None
         else let p = drop (length SF37_FUNCTION_START) p
         in (case strchr p (ch CHR ''>'') of
               None \<Rightarrow> None
             | Some n \<Rightarrow>
                 if n = 0 then None
                 else (case official_params (drop (n + 1) p) [] of
                         None \<Rightarrow> None
                       | Some (args, q) \<Rightarrow>
                           let q = skip_ascii_ws q
                           in if \<not> at_lit q SF37_TOOL_CALL_END then None
                              else Some (\<lparr>tc_id = [], tc_name = take n p, tc_arguments = cstr ''{'' @ args @ cstr ''}''\<rparr>,
                                         drop (length SF37_TOOL_CALL_END) q))))"

lemma parse_block_less: "parse_official_tool_call_block p = Some (tc, q) \<Longrightarrow> length q < length p"
proof -
  assume run: "parse_official_tool_call_block p = Some (tc, q)"
  have at: "at_lit p SF37_TOOL_CALL_START"
    using run by (auto simp: parse_official_tool_call_block_def split: if_splits)
  have params: "length r \<le> length p'" if "official_params p' b = Some (b', r)" for p' b b' r
    using that
  proof (induction p' b rule: official_params.induct)
    case (1 p' b)
    define p1 where "p1 = skip_ascii_ws p'"
    define p2 where "p2 = drop (length SF37_PARAMETER_START) p1"
    show ?case
    proof (cases "at_lit p1 SF37_FUNCTION_END")
      case True
      then show ?thesis
        using "1.prems" skip_ascii_ws_le [of p'] by (subst (asm) official_params.simps) (auto simp: Let_def p1_def)
    next
      case no_end: False
      obtain n where n: "at_lit p1 SF37_PARAMETER_START" "strchr p2 (ch CHR ''>'') = Some n" "n \<noteq> 0"
        using "1.prems" no_end by (subst (asm) official_params.simps) (auto simp: Let_def p1_def p2_def split: if_splits option.splits)
      define vs where "vs = drop (n + 1) p2"
      obtain vl where vl: "strstr vs SF37_PARAMETER_END = Some vl"
        using "1.prems" no_end n by (subst (asm) official_params.simps) (auto simp: Let_def p1_def p2_def vs_def split: if_splits option.splits)
      have run': "official_params (drop (vl + length SF37_PARAMETER_END) vs)
          (tool_call_json_args_add b (take n p2) (xml_unescape_text (trim_official_parameter_value (take vl vs)))
             (if raw_text_is_json_value (xml_unescape_text (trim_official_parameter_value (take vl vs))) then cstr ''false'' else cstr ''true''))
          = Some (b', r)"
        using "1.prems" no_end n vl by (subst (asm) official_params.simps) (simp add: Let_def p1_def p2_def vs_def)
      have "length r \<le> length (drop (vl + length SF37_PARAMETER_END) vs)"
        using "1.IH" [OF p1_def no_end _ p2_def n(2,3) vs_def vl refl] n(1) run' by simp
      also have "\<dots> \<le> length p'"
        using skip_ascii_ws_le [of p'] by (simp add: vs_def p2_def p1_def)
      finally show ?thesis .
    qed
  qed
  define p1 where "p1 = skip_ascii_ws (drop (length SF37_TOOL_CALL_START) p)"
  have "length p1 < length p"
    using skip_ascii_ws_le [of "drop (length SF37_TOOL_CALL_START) p"] at_lit_length [OF at]
    by (simp add: p1_def)
  moreover obtain n where n: "strchr (drop (length SF37_FUNCTION_START) p1) (ch CHR ''>'') = Some n"
    using run by (auto simp: parse_official_tool_call_block_def p1_def Let_def split: if_splits option.splits)
  moreover obtain args r where r: "official_params (drop (n + 1) (drop (length SF37_FUNCTION_START) p1)) [] = Some (args, r)"
      "q = drop (length SF37_TOOL_CALL_END) (skip_ascii_ws r)"
    using run n by (auto simp: parse_official_tool_call_block_def p1_def Let_def split: if_splits option.splits)
  ultimately show ?thesis
    using params [OF r(1)] skip_ascii_ws_le [of r] by simp
qed

function official_calls :: "bytes \<Rightarrow> tool_call list \<Rightarrow> (tool_call list \<times> bytes) option" where
  "official_calls p calls =
     (case parse_official_tool_call_block p of
        None \<Rightarrow> None
      | Some (tc, p) \<Rightarrow>
          let calls = calls @ [tc]; next = skip_ascii_ws p
          in if at_lit next SF37_TOOL_CALL_START then official_calls next calls else Some (calls, next))"
  by pat_completeness auto
termination
  by (relation "measure (\<lambda>(p, calls). length p)") (auto dest!: parse_block_less intro: le_less_trans [OF skip_ascii_ws_le])

declare official_calls.simps [simp del]

text \<open>A parsed message: content, reasoning, and the calls with their exact text.\<close>

record generated =
  ge_content :: bytes
  ge_reasoning :: "bytes option"
  ge_calls :: tool_calls

definition no_calls :: tool_calls where
  "no_calls = \<lparr>tcs_v = [], tcs_raw_dsml = None\<rparr>"

definition split_generated :: "bytes \<Rightarrow> nat \<Rightarrow> bool \<Rightarrow> tool_calls \<Rightarrow> generated" where
  "split_generated txt len think calls =
     (case split_reasoning_content txt len think of
        (reasoning, content) \<Rightarrow> \<lparr>ge_content = content, ge_reasoning = Some reasoning, ge_calls = calls\<rparr>)"

definition parse_official_tool_calls_message :: "bytes \<Rightarrow> nat \<Rightarrow> bool \<Rightarrow> generated option" where
  "parse_official_tool_calls_message txt start think =
     (case official_calls (drop start txt) [] of
        None \<Rightarrow> None
      | Some (calls, p) \<Rightarrow>
          Some (split_generated txt (trim_tool_separator_ws txt 0 start) think
            \<lparr>tcs_v = calls, tcs_raw_dsml = Some (take (length txt - start - length p) (drop start txt))\<rparr>))"

subsection \<open>Parsing the older formats\<close>

text \<open>\<open>dsml_attr\<close> looks for a name that is a word followed by \<open>=\<close> and a quoted value. The names it is
  asked for are not empty.\<close>

function dsml_attr_loop :: "bytes \<Rightarrow> bytes \<Rightarrow> nat \<Rightarrow> bytes option" where
  "dsml_attr_loop tag name p =
     (case (if name = [] then None else strstr (drop p tag) name) of
        None \<Rightarrow> None
      | Some i \<Rightarrow>
          let p = p + i; n = length name
          in if (p = 0 \<or> isspace (tag ! (p - 1)) \<or> tag ! (p - 1) = ch CHR ''<'') \<and> at_lit (drop (p + n) tag) [ch CHR ''='']
             then let p = p + n + 1
                  in if at_lit (drop p tag) [0x22]
                     then (case strchr (drop (p + 1) tag) 0x22 of
                             None \<Rightarrow> None
                           | Some e \<Rightarrow> Some (xml_unescape_text (take e (drop (p + 1) tag))))
                     else dsml_attr_loop tag name p
             else dsml_attr_loop tag name (p + n))"
  by pat_completeness auto
termination
proof (relation "measure (\<lambda>(tag, name, p). Suc (length tag) - p)", goal_cases)
  case (2 tag name p i q n r)
  have "q + n < length tag"
    using 2(4) at_lit_length [of "drop (q + n) tag" "[ch CHR ''='']"] by simp
  then show ?case
    using 2(2,5) by simp
next
  case (3 tag name p i q n)
  have n: "name \<noteq> []" "strstr (drop p tag) name = Some i"
    using 3(1) by (auto split: if_splits)
  have "i + length name \<le> length (until_nul (drop p tag))"
    using n strstr_loop_Some [of "until_nul (drop p tag)" name i] occurs_at_bound [OF n(1), of "until_nul (drop p tag)" i]
    by (auto simp: strstr_def)
  also have "\<dots> \<le> length tag - p"
    unfolding until_nul_def by (metis length_drop length_takeWhile_le)
  finally show ?case
    using n(1) 3(2,3) by (cases name) auto
qed simp

declare dsml_attr_loop.simps [simp del]

definition dsml_attr :: "bytes \<Rightarrow> bytes \<Rightarrow> bytes option" where
  "dsml_attr tag name = dsml_attr_loop tag name 0"

record tool_style =
  ts_calls_start :: bytes
  ts_calls_end :: bytes
  ts_invoke_start :: bytes
  ts_invoke_end :: bytes
  ts_param_start :: bytes
  ts_param_end :: bytes

definition tool_style_of :: "nat \<Rightarrow> tool_style" where
  "tool_style_of style =
     (if style = 1 then
        \<lparr>ts_calls_start = cstr ''<tool_calls>'', ts_calls_end = cstr ''</tool_calls>'', ts_invoke_start = cstr ''<invoke'',
         ts_invoke_end = cstr ''</invoke>'', ts_param_start = cstr ''<parameter'', ts_param_end = cstr ''</parameter>''\<rparr>
      else if style = 2 then
        \<lparr>ts_calls_start = SF37_TOOL_CALLS_START_SHORT, ts_calls_end = SF37_TOOL_CALLS_END_SHORT, ts_invoke_start = SF37_INVOKE_START_SHORT,
         ts_invoke_end = SF37_INVOKE_END_SHORT, ts_param_start = SF37_PARAM_START_SHORT, ts_param_end = SF37_PARAM_END_SHORT\<rparr>
      else
        \<lparr>ts_calls_start = SF37_TOOL_CALLS_START, ts_calls_end = SF37_TOOL_CALLS_END, ts_invoke_start = SF37_INVOKE_START,
         ts_invoke_end = SF37_INVOKE_END, ts_param_start = SF37_PARAM_START, ts_param_end = SF37_PARAM_END\<rparr>)"

text \<open>The parameters of one call, by the attributes of their tags.\<close>

function legacy_params :: "tool_style \<Rightarrow> bytes \<Rightarrow> bytes \<Rightarrow> (bytes \<times> bytes) option" where
  "legacy_params st p args =
     (let p = skip_ascii_ws p
      in if at_lit p (ts_invoke_end st) then Some (args, drop (length (ts_invoke_end st)) p)
         else if \<not> at_lit p (ts_param_start st) then None
         else (case strchr p (ch CHR ''>'') of
                 None \<Rightarrow> None
               | Some n \<Rightarrow>
                   let tag = take (n + 1) p; is_string = dsml_attr tag (cstr ''string'')
                   in (case dsml_attr tag (cstr ''name'') of
                         None \<Rightarrow> None
                       | Some param_name \<Rightarrow>
                           let value_start = drop (n + 1) p
                           in (case strstr value_start (ts_param_end st) of
                                 None \<Rightarrow> None
                               | Some value_len \<Rightarrow>
                                   let raw_value = take value_len value_start;
                                       type = (case is_string of None \<Rightarrow> cstr ''true'' | Some t \<Rightarrow> t);
                                       value = (if type = cstr ''true'' then xml_unescape_text raw_value else raw_value)
                                   in legacy_params st (drop (value_len + length (ts_param_end st)) value_start)
                                        (tool_call_json_args_add args param_name value type)))))"
  by pat_completeness auto
termination
proof (relation "measure (\<lambda>(st, p, args). length p)", goal_cases)
  case (2 st p args p1 n tag is_string param_name vs vl rv ty v)
  have "n < length p1"
    using 2(4) by (auto simp: strchr_def Let_def split: if_splits)
  then show ?case
    using 2(1,8) skip_ascii_ws_le [of p] by simp
qed simp

declare legacy_params.simps [simp del]

definition legacy_invoke :: "tool_style \<Rightarrow> bytes \<Rightarrow> (tool_call \<times> bytes) option" where
  "legacy_invoke st p =
     (if \<not> at_lit p (ts_invoke_start st) then None
      else (case strchr p (ch CHR ''>'') of
              None \<Rightarrow> None
            | Some n \<Rightarrow>
                (case dsml_attr (take (n + 1) p) (cstr ''name'') of
                   None \<Rightarrow> None
                 | Some name \<Rightarrow>
                     (case legacy_params st (drop (n + 1) p) [] of
                        None \<Rightarrow> None
                      | Some (args, q) \<Rightarrow>
                          Some (\<lparr>tc_id = [], tc_name = name, tc_arguments = cstr ''{'' @ args @ cstr ''}''\<rparr>, q)))))"

lemma legacy_params_le: "legacy_params st p b = Some (b', r) \<Longrightarrow> length r \<le> length p"
proof (induction st p b rule: legacy_params.induct)
  case (1 st p b)
  define p1 where "p1 = skip_ascii_ws p"
  show ?case
  proof (cases "at_lit p1 (ts_invoke_end st)")
    case True
    then show ?thesis
      using "1.prems" skip_ascii_ws_le [of p] by (subst (asm) legacy_params.simps) (auto simp: Let_def p1_def)
  next
    case no_end: False
    obtain n where n: "at_lit p1 (ts_param_start st)" "strchr p1 (ch CHR ''>'') = Some n"
      using "1.prems" no_end by (subst (asm) legacy_params.simps) (auto simp: Let_def p1_def split: if_splits option.splits)
    obtain nm where nm: "dsml_attr (take (n + 1) p1) (cstr ''name'') = Some nm"
      using "1.prems" no_end n by (subst (asm) legacy_params.simps) (auto simp: Let_def p1_def split: if_splits option.splits)
    define vs where "vs = drop (n + 1) p1"
    obtain vl where vl: "strstr vs (ts_param_end st) = Some vl"
      using "1.prems" no_end n nm by (subst (asm) legacy_params.simps) (auto simp: Let_def p1_def vs_def split: if_splits option.splits)
    define type where "type = (case dsml_attr (take (n + 1) p1) (cstr ''string'') of None \<Rightarrow> cstr ''true'' | Some t \<Rightarrow> t)"
    define val0 where "val0 = (if type = cstr ''true'' then xml_unescape_text (take vl vs) else take vl vs)"
    have run: "legacy_params st (drop (vl + length (ts_param_end st)) vs) (tool_call_json_args_add b nm val0 type) = Some (b', r)"
      using "1.prems" no_end n nm vl unfolding val0_def type_def vs_def
      by (subst (asm) legacy_params.simps) (simp add: Let_def p1_def vs_def split del: if_split cong: if_cong)
    have "length r \<le> length (drop (vl + length (ts_param_end st)) vs)"
      by (rule "1.IH" [OF p1_def no_end _ n(2) refl refl nm vs_def vl refl type_def val0_def run]) (use n(1) in simp)
    then show ?thesis
      using skip_ascii_ws_le [of p] by (auto simp: vs_def p1_def)
  qed
qed

lemma legacy_invoke_less: "legacy_invoke st p = Some (tc, q) \<Longrightarrow> length q < length p"
proof -
  assume run: "legacy_invoke st p = Some (tc, q)"
  obtain n where n: "strchr p (ch CHR ''>'') = Some n"
    using run by (auto simp: legacy_invoke_def split: if_splits option.splits)
  then have "n < length p"
    by (auto simp: strchr_def Let_def split: if_splits)
  moreover have "length q \<le> length (drop (n + 1) p)"
    using run n by (auto simp: legacy_invoke_def dest!: legacy_params_le split: if_splits option.splits)
  ultimately show ?thesis
    by simp
qed

text \<open>The calls up to the end marker; the result is the calls and what follows the marker.\<close>

function legacy_calls :: "tool_style \<Rightarrow> bytes \<Rightarrow> tool_call list \<Rightarrow> (tool_call list \<times> bytes) option" where
  "legacy_calls st p calls =
     (let p = skip_ascii_ws p
      in if at_lit p (ts_calls_end st) then Some (calls, drop (length (ts_calls_end st)) p)
         else (case legacy_invoke st p of None \<Rightarrow> None | Some (tc, q) \<Rightarrow> legacy_calls st q (calls @ [tc])))"
  by pat_completeness auto
termination
  by (relation "measure (\<lambda>(st, p, calls). length p)") (auto dest!: legacy_invoke_less intro: less_le_trans [OF _ skip_ascii_ws_le])

declare legacy_calls.simps [simp del]

definition parse_legacy_message :: "bytes \<Rightarrow> nat \<Rightarrow> nat \<Rightarrow> bool \<Rightarrow> generated option" where
  "parse_legacy_message txt start style think =
     (let st = tool_style_of style
      in case strstr (drop start txt) (ts_calls_start st) of
           None \<Rightarrow> None
         | Some i \<Rightarrow>
             (case legacy_calls st (drop (start + i + length (ts_calls_start st)) txt) [] of
                None \<Rightarrow> None
              | Some (calls, q) \<Rightarrow>
                  Some (split_generated txt (trim_tool_separator_ws txt 0 start) think
                    \<lparr>tcs_v = calls, tcs_raw_dsml = Some (take (length txt - start - length q) (drop start txt))\<rparr>)))"

text \<open>Where the calls in an older format start, and in which.\<close>

definition legacy_starts :: "(bytes \<times> nat) list" where
  "legacy_starts =
     [(cstr [CHR 0x0a, CHR 0x0a] @ SF37_TOOL_CALLS_START, 0), (SF37_TOOL_CALLS_START, 0),
      (cstr [CHR 0x0a, CHR 0x0a] @ SF37_TOOL_CALLS_START_SHORT, 2), (SF37_TOOL_CALLS_START_SHORT, 2),
      (cstr [CHR 0x0a, CHR 0x0a] @ cstr ''<tool_calls>'', 1), (cstr ''<tool_calls>'', 1)]"

definition legacy_start :: "bytes \<Rightarrow> (nat \<times> nat) option" where
  "legacy_start s = foldl (\<lambda>found (marker, style).
      case found of Some r \<Rightarrow> Some r | None \<Rightarrow> map_option (\<lambda>i. (i, style)) (strstr s marker)) None legacy_starts"

definition parse_generated_message_ex :: "bytes \<Rightarrow> bool \<Rightarrow> bool \<Rightarrow> generated option" where
  "parse_generated_message_ex txt require_thinking_closed think =
     (let whole = Some (split_generated txt (length txt) think no_calls);
          tool_search = (if require_thinking_closed
                         then map_option (\<lambda>e. e + length THINK_CLOSE) (find_last_substr txt THINK_CLOSE)
                         else Some 0)
      in case tool_search of
           None \<Rightarrow> whole
         | Some tool_search \<Rightarrow>
             (case strstr (drop tool_search txt) SF37_TOOL_CALL_START of
                Some i \<Rightarrow> parse_official_tool_calls_message txt (tool_search + i) think
              | None \<Rightarrow>
                  (case legacy_start (drop tool_search txt) of
                     None \<Rightarrow> whole
                   | Some (i, style) \<Rightarrow> parse_legacy_message txt (tool_search + i) style think)))"


subsection \<open>Repair\<close>








subsection \<open>Ids and the JSON form\<close>

text \<open>What the clock, the process id and the processor time give is an argument; \<open>ctr\<close> is the static
  counter. Drawing ids until one is free may not end; that it does is shown below.\<close>

definition hex16 :: "u64 \<Rightarrow> bytes" where
  "hex16 v = map (\<lambda>i. hex_char (ucast (drop_bit (60 - 4 * i) v AND 0xf))) [0..<16]"

definition random_tool_id :: "bool \<Rightarrow> u64 \<times> u64 \<times> u64 \<Rightarrow> u64 \<Rightarrow> bytes" where
  "random_tool_id anthropic env ctr =
     (case env of (now, pid, clock) \<Rightarrow>
      (if anthropic then cstr ''toolu_'' else cstr ''call_'') @ hex16 (now XOR push_bit 32 pid) @ hex16 (ctr XOR clock))"

partial_function (option) draw_id :: "bool \<Rightarrow> (u64 \<Rightarrow> u64 \<times> u64 \<times> u64) \<Rightarrow> (bytes \<Rightarrow> bool) \<Rightarrow> u64 \<Rightarrow> (bytes \<times> u64) option" where
  [code]: "draw_id anthropic env known ctr =
     (let ctr = ctr + 1; i = random_tool_id anthropic (env ctr) ctr
      in if known i then draw_id anthropic env known ctr else Some (i, ctr))"

definition tool_calls_contains_id :: "tool_call list \<Rightarrow> bytes \<Rightarrow> nat \<Rightarrow> bool" where
  "tool_calls_contains_id calls i n \<longleftrightarrow> i \<noteq> [] \<and> list_ex (\<lambda>c. tc_id c = i) (take n calls)"

fun assign_ids_loop ::
  "bool \<Rightarrow> tool_memory \<Rightarrow> bool \<Rightarrow> (u64 \<Rightarrow> u64 \<times> u64 \<times> u64) \<Rightarrow> nat list \<Rightarrow> tool_call list \<Rightarrow> u64 \<Rightarrow> (tool_call list \<times> u64) option" where
  "assign_ids_loop disabled m anthropic env [] calls ctr = Some (calls, ctr)"
| "assign_ids_loop disabled m anthropic env (i # is) calls ctr =
     (if tc_id (calls ! i) \<noteq> [] then assign_ids_loop disabled m anthropic env is calls ctr
      else Option.bind (draw_id anthropic env (\<lambda>x. tool_calls_contains_id calls x i \<or> tool_memory_has_id disabled x m) ctr)
             (\<lambda>(x, ctr). assign_ids_loop disabled m anthropic env is (calls[i := (calls ! i)\<lparr>tc_id := x\<rparr>]) ctr))"

definition assign_tool_call_ids ::
  "bool \<Rightarrow> tool_memory \<Rightarrow> bool \<Rightarrow> (u64 \<Rightarrow> u64 \<times> u64 \<times> u64) \<Rightarrow> tool_call list \<Rightarrow> u64 \<Rightarrow> (tool_call list \<times> u64) option" where
  "assign_tool_call_ids disabled m anthropic env calls ctr = assign_ids_loop disabled m anthropic env [0..<length calls] calls ctr"

definition json_arg_text :: "json_arg \<Rightarrow> bytes" where
  "json_arg_text a = json_escape (ja_key a) @ cstr '':'' @ (if ja_is_string a then json_escape (ja_value a) else ja_value a)"

fun comma_separated :: "bytes list \<Rightarrow> bytes" where
  "comma_separated [] = []"
| "comma_separated (x # xs) = x @ concat (map (\<lambda>y. cstr '','' @ y) xs)"

definition append_json_object_or_empty :: "bytes \<Rightarrow> bytes" where
  "append_json_object_or_empty json =
     (case json_args_parse json of
        None \<Rightarrow> cstr ''{}''
      | Some args \<Rightarrow> cstr ''{'' @ comma_separated (map json_arg_text args) @ cstr ''}'')"

definition append_json_object_string :: "bytes \<Rightarrow> bytes" where
  "append_json_object_string json = json_escape (append_json_object_or_empty json)"

definition append_tool_calls_json :: "tool_calls \<Rightarrow> bytes" where
  "append_tool_calls_json calls =
     cstr ''['' @ comma_separated (map (\<lambda>tc.
       cstr [CHR ''{'', CHR 0x22, CHR ''i'', CHR ''d'', CHR 0x22, CHR '':''] @ json_escape (tc_id tc) @
       cstr '','' @ json_escape (cstr ''type'') @ cstr '':'' @ json_escape (cstr ''function'') @
       cstr '','' @ json_escape (cstr ''function'') @ cstr '':{'' @ json_escape (cstr ''name'') @ cstr '':'' @ json_escape (tc_name tc) @
       cstr '','' @ json_escape (cstr ''arguments'') @ cstr '':'' @ append_json_object_string (tc_arguments tc) @ cstr ''}}'') (tcs_v calls)) @
     cstr '']''"

subsection \<open>Text between markers\<close>

definition absent :: "bytes \<Rightarrow> bytes \<Rightarrow> bool" where
  "absent m s \<longleftrightarrow> (\<forall>i. \<not> occurs_at s m i)"

lemma occurs_at_Cons [simp]: "occurs_at (c # s) m (Suc i) = occurs_at s m i" "occurs_at s m 0 = at_lit s m"
  by (simp_all add: occurs_at_def at_lit_def)

lemma absent_simps [simp]: "absent m [] \<longleftrightarrow> m \<noteq> []" "absent m (c # s) \<longleftrightarrow> \<not> at_lit (c # s) m \<and> absent m s"
proof -
  show "absent m [] \<longleftrightarrow> m \<noteq> []"
    by (auto simp: absent_def occurs_at_def)
  have "absent m (c # s) \<longleftrightarrow> \<not> occurs_at (c # s) m 0 \<and> (\<forall>i. \<not> occurs_at (c # s) m (Suc i))"
    unfolding absent_def using not0_implies_Suc by metis
  then show "absent m (c # s) \<longleftrightarrow> \<not> at_lit (c # s) m \<and> absent m s"
    by (simp add: absent_def)
qed

lemma at_lit_Cons [simp]: "at_lit (c # s) (d # m) \<longleftrightarrow> c = d \<and> at_lit s m" "at_lit s []" "\<not> at_lit [] (d # m)"
  by (auto simp: at_lit_def)

text \<open>A byte that is not in a marker separates its occurrences.\<close>

lemma at_lit_split: "x \<notin> set m \<Longrightarrow> at_lit (A @ x # B) m \<Longrightarrow> at_lit A m"
proof (induction m arbitrary: A)
  case (Cons y m)
  then show ?case
    by (cases A) auto
qed simp

lemma absent_split: "x \<notin> set m \<Longrightarrow> absent m A \<Longrightarrow> i < length A \<Longrightarrow> \<not> occurs_at (A @ x # B) m i"
proof (induction A arbitrary: i)
  case (Cons a A)
  show ?case
  proof (cases i)
    case 0
    then show ?thesis
      using Cons.prems at_lit_split [of x m "a # A" B] by auto
  next
    case (Suc j)
    then show ?thesis
      using Cons by simp
  qed
qed simp

lemma strstr_behind:
  assumes "x \<notin> set m" and "m \<noteq> []" and "absent m A" and "0 \<notin> set (A @ x # m @ rest)"
  shows "strstr (A @ x # m @ rest) m = Some (length A + 1)"
proof -
  have here: "occurs_at (A @ x # m @ rest) m (length A + 1)"
    by (simp add: occurs_at_def)
  have "\<not> occurs_at (A @ x # m @ rest) m j" if j: "j < length A + 1" for j
  proof (cases "j < length A")
    case True
    then show ?thesis
      using absent_split [OF assms(1,3)] by blast
  next
    case False
    then have "j = length A"
      using j by simp
    then show ?thesis
      using assms(1,2) by (cases m) (auto simp: occurs_at_def)
  qed
  then show ?thesis
    using here unfolding strstr_Some [OF assms(4,2)] by blast
qed

lemma strchr_here: "c \<notin> set k \<Longrightarrow> strchr (k @ c # r) c = Some (length k)"
proof -
  assume "c \<notin> set k"
  then have "takeWhile (\<lambda>x. x \<noteq> c) (k @ c # r) = k"
    by (induction k) auto
  then show ?thesis
    by (simp add: strchr_def)
qed

subsection \<open>Escaping is undone\<close>

lemma unescape_length: "length (xml_unescape_text s) \<le> length s"
proof (induction s rule: xml_unescape_text.induct)
  case (2 c s)
  then show ?case
    by (auto simp del: cstr_simps dest!: le_trans [OF _ diff_le_self])
qed simp

lemma unescape_fixed:
  assumes "xml_unescape_text (c # s) = c # s"
  shows "\<not> at_lit (c # s) (cstr ''&lt;'')" "\<not> at_lit (c # s) (cstr ''&gt;'')" "\<not> at_lit (c # s) (cstr ''&amp;'')"
    "\<not> at_lit (c # s) (cstr ''&quot;'')" "xml_unescape_text s = s"
proof -
  have len: "length (xml_unescape_text (c # s)) = Suc (length s)"
    using assms by simp
  have short: "length (xml_unescape_text (drop k s)) < length s" if "at_lit (c # s) m" "length m = Suc k" "0 < k" for m k
    using unescape_length [of "drop k s"] at_lit_length [OF that(1)] that(2,3) by simp
  show 1: "\<not> at_lit (c # s) (cstr ''&lt;'')"
    using short [of "cstr ''&lt;''" 3] len by auto
  show 2: "\<not> at_lit (c # s) (cstr ''&gt;'')"
    using short [of "cstr ''&gt;''" 3] len 1 by auto
  show 3: "\<not> at_lit (c # s) (cstr ''&amp;'')"
    using short [of "cstr ''&amp;''" 4] len 1 2 by auto
  show 4: "\<not> at_lit (c # s) (cstr ''&quot;'')"
    using short [of "cstr ''&quot;''" 5] len 1 2 3 by auto
  show "xml_unescape_text s = s"
    using assms 1 2 3 4 by (simp del: cstr_simps)
qed

lemma escaped_prefix: "0x26 \<notin> set w \<Longrightarrow> at_lit (append_official_parameter_text s) w \<Longrightarrow> at_lit s w"
proof (induction w arbitrary: s)
  case (Cons x w)
  show ?case
  proof (cases s)
    case Nil
    then show ?thesis
      using Cons.prems by simp
  next
    case (Cons c s')
    show ?thesis
    proof (cases "at_lit (c # s') SF37_PARAMETER_END")
      case True
      then show ?thesis
        using Cons.prems Cons by simp
    next
      case False
      then show ?thesis
        using Cons.prems Cons Cons.IH [of s'] by simp
    qed
  qed
qed simp

lemma unescape_escape: "xml_unescape_text s = s \<Longrightarrow> xml_unescape_text (append_official_parameter_text s) = s"
proof (induction s)
  case (Cons c s)
  note fixed = unescape_fixed [OF Cons.prems]
  have IH: "xml_unescape_text (append_official_parameter_text s) = s"
    using Cons.IH fixed(5) by simp
  show ?case
  proof (cases "at_lit (c # s) SF37_PARAMETER_END")
    case True
    then have "c = ch CHR ''<''"
      by (simp add: SF37_PARAMETER_END_def)
    then show ?thesis
      using True IH by simp
  next
    case False
    have "\<not> at_lit (c # append_official_parameter_text s) (0x26 # m)" if "\<not> at_lit (c # s) (0x26 # m)" "0x26 \<notin> set m" for m
      using that escaped_prefix [of m s] by auto
    then have "\<not> at_lit (c # append_official_parameter_text s) (cstr ''&lt;'')" "\<not> at_lit (c # append_official_parameter_text s) (cstr ''&gt;'')"
      "\<not> at_lit (c # append_official_parameter_text s) (cstr ''&amp;'')" "\<not> at_lit (c # append_official_parameter_text s) (cstr ''&quot;'')"
      using fixed(1-4) unfolding cstr_simps by simp_all
    then have "xml_unescape_text (c # append_official_parameter_text s) = c # xml_unescape_text (append_official_parameter_text s)"
      by (subst xml_unescape_text.simps(2)) (simp only: if_False)
    then show ?thesis
      using False IH by (simp del: xml_unescape_text.simps)
  qed
qed simp

lemma escape_absent: "absent SF37_PARAMETER_END (append_official_parameter_text s)"
proof (induction s)
  case Nil
  then show ?case
    by (simp add: SF37_PARAMETER_END_def)
next
  case (Cons c s)
  have "\<not> at_lit (c # append_official_parameter_text s) SF37_PARAMETER_END" if "\<not> at_lit (c # s) SF37_PARAMETER_END"
    using that escaped_prefix [of "cstr ''/parameter>''" s] by (auto simp: SF37_PARAMETER_END_def)
  then show ?case
    using Cons by (auto simp: SF37_PARAMETER_END_def)
qed

lemma escape_ends: "append_official_parameter_text s = [] \<longleftrightarrow> s = []" "s \<noteq> [] \<Longrightarrow> last (append_official_parameter_text s) = last s"
proof -
  show empty: "append_official_parameter_text s = [] \<longleftrightarrow> s = []" for s
    by (cases s) auto
  show "s \<noteq> [] \<Longrightarrow> last (append_official_parameter_text s) = last s"
  proof (induction s)
    case (Cons c s)
    have "s \<noteq> []" if "at_lit (c # s) SF37_PARAMETER_END"
      using that by (cases s) (auto simp: SF37_PARAMETER_END_def)
    then show ?case
      using Cons empty [of s] by auto
  qed simp
qed

lemma escape_nul: "0 \<notin> set s \<Longrightarrow> 0 \<notin> set (append_official_parameter_text s)"
  by (induction s) auto

lemma trim_value: "(s \<noteq> [] \<Longrightarrow> last s \<noteq> 0x0d) \<Longrightarrow> trim_official_parameter_value (nl @ s @ nl) = s"
  by (cases s rule: rev_cases) (auto simp: trim_official_parameter_value_def Let_def nth_append)

subsection \<open>Minified JSON\<close>

fun compact :: "jtext \<Rightarrow> jtext" and compact_elem :: "jelem \<Rightarrow> jelem" and compact_member :: "jmember \<Rightarrow> jmember" where
  "compact (JArr w xs) = JArr [] (map compact_elem xs)"
| "compact (JObj w xs) = JObj [] (map compact_member xs)"
| "compact v = v"
| "compact_elem (Elem a v b) = Elem [] (compact v) []"
| "compact_member (Member a key b d v c) = Member [] key [] [] (compact v) []"

lemma minify_plain: "list_all (\<lambda>c. \<not> isspace c \<and> c \<noteq> 0x22) s \<Longrightarrow> minify_loop False False (s @ r) = s @ minify_loop False False r"
  by (induction s) auto

lemma minify_space: "json_space w \<Longrightarrow> minify_loop False False (w @ r) = minify_loop False False r"
  by (induction w) (auto simp: isspace_def)

lemma minify_chars: "list_all jchar_ok cs \<Longrightarrow>
  minify_loop True False (concat (map jchar_text cs) @ 0x22 # r) = concat (map jchar_text cs) @ 0x22 # minify_loop False False r"
proof (induction cs)
  case (Cons c cs)
  have hex: "x \<noteq> 0x5c \<and> x \<noteq> 0x22" if "hex_digit x \<noteq> None" for x
    using that by (auto simp: hex_digit_def)
  show ?case
  proof (cases c)
    case (Unicode a b c' d)
    then show ?thesis
      using Cons hex [of a] hex [of b] hex [of c'] hex [of d] by simp
  qed (use Cons in auto)
qed simp

lemma minify_string: "list_all jchar_ok cs \<Longrightarrow> minify_loop False False (jstr_text cs @ r) = jstr_text cs @ minify_loop False False r"
  by (simp add: jstr_text_def minify_chars)

lemma minify_commas:
  assumes "\<And>x r. x \<in> set xs \<Longrightarrow> minify_loop False False (f x @ r) = f (g x) @ minify_loop False False r"
  shows "minify_loop False False (commas (map f xs) @ r) = commas (map f (map g xs)) @ minify_loop False False r"
  using assms
proof (induction xs rule: induct_list012)
  case (3 x y zs)
  then show ?case
    by (simp add: isspace_def)
qed simp_all

lemma number_plain: "num_ok n \<Longrightarrow> list_all (\<lambda>c. \<not> isspace c \<and> c \<noteq> 0x22) (num_text n)"
proof -
  assume ok: "num_ok n"
  have digit: "\<not> isspace c \<and> c \<noteq> 0x22" if "is_digit c" for c
    using that by (auto simp: is_digit_def isspace_def word_le_nat_alt)
  have digits: "list_all (\<lambda>c. \<not> isspace c \<and> c \<noteq> 0x22) ds" if "list_all is_digit ds" for ds
    using that digit by (auto simp: list_all_iff)
  have "list_all is_digit (jn_int n)" "list_all is_digit (jn_frac n)"
    using ok by (simp_all add: num_ok_def)
  moreover have "list_all (\<lambda>c. \<not> isspace c \<and> c \<noteq> 0x22) (e # s @ ds)" if "jn_exp n = Some (e, s, ds)" for e s ds
    using ok that digits [of ds] by (auto simp: num_ok_def isspace_def)
  ultimately show ?thesis
    using digits by (cases "jn_exp n") (auto simp: num_text_def isspace_def)
qed

lemma minify_texts:
  "jtext_ok v \<Longrightarrow> \<forall>r. minify_loop False False (jtext_bytes v @ r) = jtext_bytes (compact v) @ minify_loop False False r"
  "jelem_ok x \<Longrightarrow> \<forall>r. minify_loop False False (jelem_bytes x @ r) = jelem_bytes (compact_elem x) @ minify_loop False False r"
  "jmember_ok y \<Longrightarrow> \<forall>r. minify_loop False False (jmember_bytes y @ r) = jmember_bytes (compact_member y) @ minify_loop False False r"
proof (induction v and x and y)
  case (JNum n)
  then show ?case
    by (simp add: minify_plain number_plain)
next
  case (JStr cs)
  then show ?case
    by (simp add: minify_string)
next
  case (JArr w xs)
  show ?case
  proof (intro allI)
    fix r
    have "minify_loop False False ((if xs = [] then w else commas (map jelem_bytes xs)) @ 0x5d # r) =
        (if xs = [] then [] else commas (map jelem_bytes (map compact_elem xs))) @ minify_loop False False (0x5d # r)"
      using JArr minify_commas [of xs jelem_bytes compact_elem] minify_space [of w] by (simp add: list_all_iff)
    then show "minify_loop False False (jtext_bytes (JArr w xs) @ r) = jtext_bytes (compact (JArr w xs)) @ minify_loop False False r"
      by (simp add: isspace_def)
  qed
next
  case (JObj w xs)
  show ?case
  proof (intro allI)
    fix r
    have "minify_loop False False ((if xs = [] then w else commas (map jmember_bytes xs)) @ 0x7d # r) =
        (if xs = [] then [] else commas (map jmember_bytes (map compact_member xs))) @ minify_loop False False (0x7d # r)"
      using JObj minify_commas [of xs jmember_bytes compact_member] minify_space [of w] by (simp add: list_all_iff)
    then show "minify_loop False False (jtext_bytes (JObj w xs) @ r) = jtext_bytes (compact (JObj w xs)) @ minify_loop False False r"
      by (simp add: isspace_def)
  qed
next
  case (Elem a v b)
  then show ?case
    by (simp add: minify_space)
next
  case (Member a key b d v c)
  then show ?case
    using minify_string [of key] by (simp add: minify_space isspace_def)
qed (simp_all add: isspace_def)

lemma compact_ok:
  "jtext_ok v \<Longrightarrow> jtext_ok (compact v)" "jelem_ok x \<Longrightarrow> jelem_ok (compact_elem x)" "jmember_ok y \<Longrightarrow> jmember_ok (compact_member y)"
  by (induction v and x and y) (auto simp: list_all_iff)

lemma compact_idem: "compact (compact v) = compact v" "compact_elem (compact_elem x) = compact_elem x" "compact_member (compact_member y) = compact_member y"
  by (induction v and x and y) auto

lemma jtext_is_value:
  assumes "jtext_ok v"
  shows "raw_text_is_json_value (jtext_bytes v)" "json_minify_raw_value (jtext_bytes v) = jtext_bytes (compact v)"
proof -
  have skip: "json_skip_value (jtext_bytes v) = Some []"
    using skip_texts(1) [OF assms] by (auto simp: json_skip_value_def delimited_def dest: spec [of _ "[]"])
  have ws: "json_ws (jtext_bytes v) = jtext_bytes v"
    using json_ws_text [OF assms, of "[]"] by simp
  obtain c t where "jtext_bytes v = c # t"
    using jtext_start [OF assms] by metis
  then show "raw_text_is_json_value (jtext_bytes v)"
    using skip ws by (simp add: raw_text_is_json_value_def Let_def json_ws_def)
  show "json_minify_raw_value (jtext_bytes v) = jtext_bytes (compact v)"
    using skip ws spec [OF minify_texts(1) [OF assms], of "[]"] by (simp add: json_minify_raw_value_def Let_def)
qed

subsection \<open>The arguments of an object\<close>

fun member_arg :: "jmember \<Rightarrow> json_arg" where
  "member_arg (Member a key b d v c) =
     \<lparr>ja_key = str_value key,
      ja_value = (case v of JStr cs \<Rightarrow> str_value cs | _ \<Rightarrow> jtext_bytes (compact v)),
      ja_is_string = (case v of JStr cs \<Rightarrow> True | _ \<Rightarrow> False), ja_used = False\<rparr>"

lemma json_ws_same: "json_ws (w @ c # r) = c # r" if "json_space w" "\<not> isspace c" for w c r
  using that by (simp add: json_ws_space)

lemma step_member:
  assumes "jmember_ok y" and "delimited r"
  shows "json_args_step (jmember_bytes y @ r) =
    Some (member_arg y, let q = json_ws r in json_ws (if at_lit q [ch CHR '','' ] then tl q else q))"
proof -
  obtain a key b d v c where y: "y = Member a key b d v c"
    by (cases y)
  have ok: "json_space a" "list_all jchar_ok key" "json_space b" "json_space d" "jtext_ok v" "json_space c"
    using assms(1) by (simp_all add: y)
  define rest where "rest = jtext_bytes v @ c @ r"
  have key: "json_string (jmember_bytes y @ r) = Some (str_value key, b @ 0x3a # d @ rest)"
  proof -
    have "json_string (a @ p) = json_string p" for p
      using json_ws_space [OF ok(1)] by (simp add: json_string_def)
    then show ?thesis
      using json_string_value [OF ok(2)] by (simp add: y rest_def)
  qed
  have colon: "json_ws (b @ 0x3a # d @ rest) = 0x3a # d @ rest"
    using json_ws_same [OF ok(3)] by simp
  have delim: "delimited (c @ r)"
    using delimited_space [OF ok(6) assms(2)] .
  have ws: "json_ws rest = rest" "json_ws (d @ rest) = rest"
    using json_ws_text [OF ok(5)] json_ws_space [OF ok(4)] by (simp_all add: rest_def)
  have tail: "json_ws (c @ r) = json_ws r"
    using json_ws_space [OF ok(6)] .
  have raw: "json_raw_value rest = Some (jtext_bytes v, c @ r)"
  proof -
    have "json_skip_value rest = Some (c @ r)"
      using skip_texts(1) [OF ok(5)] delim by (simp add: json_skip_value_def rest_def)
    then show ?thesis
      using ws by (simp add: json_raw_value_def Let_def rest_def)
  qed
  show ?thesis
  proof (cases "\<exists>cs. v = JStr cs")
    case True
    then obtain cs where cs: "v = JStr cs"
      by blast
    have "at_lit rest [0x22]" "json_string rest = Some (str_value cs, c @ r)"
      using json_string_value [of cs "c @ r"] ok(5) by (simp_all add: rest_def cs jstr_text_def)
    then show ?thesis
      using key colon ws tail by (simp add: json_args_step_def Let_def y cs)
  next
    case False
    have "\<not> at_lit rest [0x22]"
    proof -
      have num: "\<exists>x t. num_text n = x # t \<and> x \<noteq> 0x22" if "num_ok n" for n
      proof -
        have "num_text n \<noteq> []"
          using that by (auto simp: num_text_def num_ok_def)
        then show ?thesis
          using number_plain [OF that] by (cases "num_text n") simp_all
      qed
      show ?thesis
      proof (cases v)
        case (JNum n)
        then have "num_ok n"
          using ok(5) by simp
        then obtain x t where "num_text n = x # t" "x \<noteq> 0x22"
          using num by blast
        then show ?thesis
          by (simp add: rest_def JNum)
      qed (use False in \<open>auto simp: rest_def\<close>)
    qed
    then show ?thesis
      using key colon ws tail raw False jtext_is_value(2) [OF ok(5)]
      by (cases v) (simp_all add: json_args_step_def Let_def y)
  qed
qed

lemma member_start: "jmember_ok y \<Longrightarrow> \<exists>c t. json_ws (jmember_bytes y @ r) = c # t \<and> c = 0x22"
proof -
  assume "jmember_ok y"
  moreover obtain a key b d v c where "y = Member a key b d v c"
    by (cases y)
  ultimately show ?thesis
    using json_ws_same [where w = a and c = "0x22"] by (simp add: jstr_text_def)
qed

lemma args_step_ws: "json_args_step (json_ws p) = json_args_step p"
  by (simp add: json_args_step_def json_string_def)

lemma args_members:
  assumes "list_all jmember_ok ms" and "ms \<noteq> []"
  shows "json_args_loop (json_ws (commas (map jmember_bytes ms) @ 0x7d # r)) args = Some (args @ map member_arg ms, 0x7d # r)"
  using assms
proof (induction ms arbitrary: args rule: induct_list012)
  case (2 y)
  have ok: "jmember_ok y"
    using "2.prems" by simp
  obtain t where t: "json_ws (jmember_bytes y @ 0x7d # r) = 0x22 # t"
    using member_start [OF ok] by blast
  have "json_args_step (0x22 # t) = Some (member_arg y, 0x7d # r)"
    using step_member [OF ok, of "0x7d # r"] args_step_ws [of "jmember_bytes y @ 0x7d # r"] t by simp
  then show ?case
    using t by (simp add: json_args_loop.simps [of "0x22 # t"] json_args_loop.simps [of "0x7d # r"] json_args_push_def)
next
  case (3 x y zs)
  have ok: "jmember_ok x" "list_all jmember_ok (y # zs)"
    using "3.prems" by simp_all
  define rest where "rest = commas (map jmember_bytes (y # zs)) @ 0x7d # r"
  obtain t where t: "json_ws (jmember_bytes x @ 0x2c # rest) = 0x22 # t"
    using member_start [OF ok(1)] by blast
  have "json_args_step (0x22 # t) = Some (member_arg x, json_ws rest)"
    using step_member [OF ok(1), of "0x2c # rest"] args_step_ws [of "jmember_bytes x @ 0x2c # rest"] t by simp
  then have "json_args_loop (0x22 # t) args = json_args_loop (json_ws rest) (args @ [member_arg x])"
    by (simp add: json_args_loop.simps [of "0x22 # t"] json_args_push_def)
  also have "\<dots> = Some (args @ map member_arg (x # y # zs), 0x7d # r)"
    using "3.IH"(2) [OF ok(2)] by (simp add: rest_def)
  finally show ?case
    using t by (simp add: rest_def)
qed simp

lemma json_args_of_object:
  assumes "jtext_ok (JObj ws ms)" and "json_space w"
  shows "json_args_parse (w @ jtext_bytes (JObj ws ms) @ r) = Some (map member_arg ms)"
proof -
  have start: "json_ws (w @ jtext_bytes (JObj ws ms) @ r) = jtext_bytes (JObj ws ms) @ r"
    using json_ws_space [OF assms(2)] json_ws_text [OF assms(1)] by simp
  show ?thesis
  proof (cases "ms = []")
    case True
    then show ?thesis
      using start assms(1) by (simp add: json_args_parse_def Let_def json_ws_space json_args_loop.simps [of "0x7d # r"])
  next
    case False
    then show ?thesis
      using start args_members [of ms r "[]"] assms(1) by (simp add: json_args_parse_def Let_def)
  qed
qed

subsection \<open>A rendered call is parsed\<close>

text \<open>The arguments the model's format can carry: a key without the end of its tag, a value that holds no
  entity of its own and does not end in a carriage return; a string that is no JSON value by itself,
  and another value that does not contain the end marker.\<close>

definition arg_fits :: "json_arg \<Rightarrow> bool" where
  "arg_fits a \<longleftrightarrow> ja_key a \<noteq> [] \<and> ch CHR ''>'' \<notin> set (ja_key a) \<and> 0 \<notin> set (ja_key a) \<and>
     0 \<notin> set (ja_value a) \<and> xml_unescape_text (ja_value a) = ja_value a \<and> (ja_value a \<noteq> [] \<longrightarrow> last (ja_value a) \<noteq> 0x0d) \<and>
     (if ja_is_string a then \<not> raw_text_is_json_value (ja_value a) else strstr (ja_value a) SF37_PARAMETER_END = None)"

text \<open>A value that is no string is the minified text of a JSON value.\<close>

definition arg_json :: "json_arg \<Rightarrow> bool" where
  "arg_json a \<longleftrightarrow> ja_is_string a \<or> (\<exists>v. jtext_ok v \<and> compact v = v \<and> (\<nexists>cs. v = JStr cs) \<and> ja_value a = jtext_bytes v)"

lemma arg_json_value:
  assumes "arg_json a" and "\<not> ja_is_string a"
  shows "raw_text_is_json_value (ja_value a)" "json_minify_raw_value (ja_value a) = ja_value a"
proof -
  obtain v where v: "jtext_ok v" "compact v = v" "ja_value a = jtext_bytes v"
    using assms by (auto simp: arg_json_def)
  show "raw_text_is_json_value (ja_value a)" "json_minify_raw_value (ja_value a) = ja_value a"
    using jtext_is_value [OF v(1)] v(2,3) by simp_all
qed

lemma member_arg_json: "jmember_ok y \<Longrightarrow> arg_json (member_arg y)"
proof -
  assume ok: "jmember_ok y"
  obtain a key b d v c where y: "y = Member a key b d v c"
    by (cases y)
  have v: "jtext_ok (compact v)" "compact (compact v) = compact v"
    using ok compact_ok(1) [of v] compact_idem(1) [of v] by (simp_all add: y)
  show ?thesis
  proof (cases "\<exists>cs. v = JStr cs")
    case True
    then show ?thesis
      by (auto simp: y arg_json_def)
  next
    case False
    then have "ja_value (member_arg y) = jtext_bytes (compact v)" "\<nexists>cs. compact v = JStr cs"
      by (cases v; simp add: y)+
    then show ?thesis
      using v unfolding arg_json_def by blast
  qed
qed

definition args_text :: "bytes \<Rightarrow> json_arg list \<Rightarrow> bytes" where
  "args_text b args = (if b = [] then comma_separated (map json_arg_text args)
     else b @ concat (map (\<lambda>a. cstr '','' @ json_arg_text a) args))"

lemma args_text_Cons: "args_text b (a # args) = args_text ((if b \<noteq> [] then b @ cstr '','' else b) @ json_arg_text a) args"
proof -
  have "json_arg_text a \<noteq> []"
    by (simp add: json_arg_text_def json_escape_def json_escape_n_def)
  then show ?thesis
    by (simp add: args_text_def o_def)
qed

lemma params_ws: "official_params (nl @ p) b = official_params p b"
proof -
  have "skip_ascii_ws (nl @ p) = skip_ascii_ws p"
    by (simp add: skip_ascii_ws_def isspace_def)
  then show ?thesis
    by (subst (1 2) official_params.simps) (simp only:)
qed

lemma arg_text_nul: "arg_fits a \<Longrightarrow> 0 \<notin> set (append_official_arg a)"
  using escape_nul [of "ja_value a"]
  by (auto simp: arg_fits_def append_official_arg_def SF37_PARAMETER_START_def SF37_PARAMETER_END_def)

lemma params_step:
  assumes "arg_fits a" and "0 \<notin> set rest" and "arg_json a"
  shows "official_params (append_official_arg a @ rest) b =
    official_params rest ((if b \<noteq> [] then b @ cstr '','' else b) @ json_arg_text a)"
proof -
  define X where "X = (if ja_is_string a then append_official_parameter_text (ja_value a) else ja_value a)"
  have key: "ja_key a \<noteq> []" "ch CHR ''>'' \<notin> set (ja_key a)"
    using assms(1) by (simp_all add: arg_fits_def)
  have X: "absent SF37_PARAMETER_END X" "X \<noteq> [] \<Longrightarrow> last X \<noteq> 0x0d" "xml_unescape_text X = ja_value a" "0 \<notin> set X"
  proof -
    have nul: "0 \<notin> set (ja_value a)"
      using assms(1) by (simp add: arg_fits_def)
    show "absent SF37_PARAMETER_END X"
      using assms(1) escape_absent strstr_None [OF nul, of SF37_PARAMETER_END]
      by (auto simp: X_def arg_fits_def absent_def SF37_PARAMETER_END_def)
    show "X \<noteq> [] \<Longrightarrow> last X \<noteq> 0x0d" "xml_unescape_text X = ja_value a" "0 \<notin> set X"
      using assms(1) escape_ends [of "ja_value a"] unescape_escape [of "ja_value a"] escape_nul [of "ja_value a"]
      by (auto simp: X_def arg_fits_def split: if_splits)
  qed
  define p2 where "p2 = ja_key a @ cstr ''>'' @ nl @ X @ nl @ SF37_PARAMETER_END @ nl @ rest"
  define vs where "vs = nl @ X @ nl @ SF37_PARAMETER_END @ nl @ rest"
  have p1: "append_official_arg a @ rest = SF37_PARAMETER_START @ p2"
    by (simp add: append_official_arg_def p2_def X_def)
  have ws: "skip_ascii_ws (SF37_PARAMETER_START @ p2) = SF37_PARAMETER_START @ p2"
    by (simp add: skip_ascii_ws_def SF37_PARAMETER_START_def isspace_def)
  have start: "\<not> at_lit (SF37_PARAMETER_START @ p2) SF37_FUNCTION_END"
    by (simp add: SF37_PARAMETER_START_def SF37_FUNCTION_END_def)
  have gt: "strchr p2 (ch CHR ''>'') = Some (length (ja_key a))"
    using strchr_here [OF key(2), of "nl @ X @ nl @ SF37_PARAMETER_END @ nl @ rest"] by (simp add: p2_def)
  have vs: "drop (length (ja_key a) + 1) p2 = vs" "take (length (ja_key a)) p2 = ja_key a"
    by (simp_all add: p2_def vs_def)
  have pe: "0x0a \<notin> set SF37_PARAMETER_END" "SF37_PARAMETER_END \<noteq> []" "0 \<notin> set SF37_PARAMETER_END" "hd SF37_PARAMETER_END = 0x3c"
    by (simp_all add: SF37_PARAMETER_END_def)
  have absent: "absent SF37_PARAMETER_END (nl @ X)"
    using X(1) by (simp add: SF37_PARAMETER_END_def)
  have "strstr ((nl @ X) @ 0x0a # SF37_PARAMETER_END @ nl @ rest) SF37_PARAMETER_END = Some (length (nl @ X) + 1)"
    by (rule strstr_behind [OF pe(1,2) absent]) (use X(4) assms(2) pe(3) in simp)
  then have found: "strstr vs SF37_PARAMETER_END = Some (length X + 2)"
    by (simp add: vs_def)
  have cut: "take (length X + 2) vs = nl @ X @ nl" "drop (length X + 2 + length SF37_PARAMETER_END) vs = nl @ rest"
  proof -
    have "vs = (nl @ X @ nl) @ SF37_PARAMETER_END @ nl @ rest" "vs = (nl @ X @ nl @ SF37_PARAMETER_END) @ nl @ rest"
      by (simp_all add: vs_def)
    moreover have "length (nl @ X @ nl) = length X + 2" "length (nl @ X @ nl @ SF37_PARAMETER_END) = length X + 2 + length SF37_PARAMETER_END"
      by simp_all
    ultimately show "take (length X + 2) vs = nl @ X @ nl" "drop (length X + 2 + length SF37_PARAMETER_END) vs = nl @ rest"
      by (metis append_eq_conv_conj)+
  qed
  have add: "tool_call_json_args_add b (ja_key a) (ja_value a) (if raw_text_is_json_value (ja_value a) then cstr ''false'' else cstr ''true'') =
      (if b \<noteq> [] then b @ cstr '','' else b) @ json_arg_text a"
    using assms(1) arg_json_value [OF assms(3)] by (simp add: tool_call_json_args_add_def json_arg_text_def arg_fits_def)
  have trimmed: "trim_official_parameter_value (nl @ X @ nl) = X"
    by (rule trim_value) (rule X(2))
  have "official_params (SF37_PARAMETER_START @ p2) b =
      official_params (drop (length X + 2 + length SF37_PARAMETER_END) vs)
        (tool_call_json_args_add b (ja_key a) (xml_unescape_text (trim_official_parameter_value (take (length X + 2) vs)))
          (if raw_text_is_json_value (xml_unescape_text (trim_official_parameter_value (take (length X + 2) vs))) then cstr ''false'' else cstr ''true''))"
    using key(1) ws start gt vs found at_lit_append [of SF37_PARAMETER_START p2]
    by (subst official_params.simps) (simp add: Let_def)
  also have "\<dots> = official_params (nl @ rest) ((if b \<noteq> [] then b @ cstr '','' else b) @ json_arg_text a)"
    unfolding cut trimmed X(3) add by (rule refl)
  finally show ?thesis
    unfolding p1 params_ws .
qed

lemma params_all:
  assumes "list_all arg_fits args" and "list_all arg_json args" and "0 \<notin> set rest"
  shows "official_params (concat (map append_official_arg args) @ SF37_FUNCTION_END @ rest) b = Some (args_text b args, rest)"
  using assms
proof (induction args arbitrary: b)
  case Nil
  have "skip_ascii_ws (SF37_FUNCTION_END @ rest) = SF37_FUNCTION_END @ rest"
    by (simp add: skip_ascii_ws_def SF37_FUNCTION_END_def isspace_def)
  then show ?case
    by (subst official_params.simps) (simp add: args_text_def)
next
  case (Cons a args)
  have "0 \<notin> set (concat (map append_official_arg args) @ SF37_FUNCTION_END @ rest)"
    using Cons.prems arg_text_nul by (auto simp: list_all_iff SF37_FUNCTION_END_def)
  then have "official_params (append_official_arg a @ concat (map append_official_arg args) @ SF37_FUNCTION_END @ rest) b =
      official_params (concat (map append_official_arg args) @ SF37_FUNCTION_END @ rest) ((if b \<noteq> [] then b @ cstr '','' else b) @ json_arg_text a)"
    using params_step [of a] Cons.prems(1,2) by simp
  then show ?case
    using Cons by (simp add: args_text_Cons)
qed

text \<open>The order of a schema only permutes the arguments.\<close>

lemma find_unused:
  "json_args_find_unused args key = Some i \<Longrightarrow> \<exists>xs a ys. args = xs @ a # ys \<and> length xs = i \<and> \<not> ja_used a"
proof (induction args arbitrary: i)
  case (Cons a args)
  show ?case
  proof (cases "\<not> ja_used a \<and> ja_key a = key")
    case True
    then show ?thesis
      using Cons.prems by (intro exI [of _ "[]"]) auto
  next
    case False
    then obtain j where j: "json_args_find_unused args key = Some j" "i = Suc j"
      using Cons.prems by auto
    obtain xs x ys where "args = xs @ x # ys" "length xs = j" "\<not> ja_used x"
      using Cons.IH [OF j(1)] by blast
    then show ?thesis
      using j(2) by (intro exI [of _ "a # xs"]) auto
  qed
qed simp

lemma ordered_args_perm:
  assumes "ordered_args props args b = (args', b')"
  shows "\<exists>us. b' = b @ concat (map append_official_arg us) \<and>
    mset (us @ filter (\<lambda>a. \<not> ja_used a) args') = mset (filter (\<lambda>a. \<not> ja_used a) args)"
  using assms
proof (induction props arbitrary: args b)
  case (Cons pr prs)
  show ?case
  proof (cases "json_args_find_unused args pr")
    case None
    then show ?thesis
      using Cons by simp
  next
    case (Some i)
    obtain xs a ys where a: "args = xs @ a # ys" "length xs = i" "\<not> ja_used a"
      using find_unused [OF Some] by blast
    have at: "args ! i = a" "args[i := (args ! i)\<lparr>ja_used := True\<rparr>] = xs @ a\<lparr>ja_used := True\<rparr> # ys"
      using a(1,2) by (auto simp: list_update_append)
    have "ordered_args prs (xs @ a\<lparr>ja_used := True\<rparr> # ys) (b @ append_official_arg a) = (args', b')"
      using Cons.prems Some at by simp
    from Cons.IH [OF this] obtain us where us: "b' = (b @ append_official_arg a) @ concat (map append_official_arg us)"
        "mset (us @ filter (\<lambda>a. \<not> ja_used a) args') = mset (filter (\<lambda>a. \<not> ja_used a) (xs @ a\<lparr>ja_used := True\<rparr> # ys))"
      by blast
    then show ?thesis
      using a(1,3) by (intro exI [of _ "a # us"]) simp
  qed
qed simp

lemma arguments_perm:
  assumes "json_args_parse json = Some args" and "list_all (\<lambda>a. \<not> ja_used a) args"
  shows "\<exists>us. append_official_arguments_from_json json order = Some (concat (map append_official_arg us)) \<and> mset us = mset args \<and>
    (order = None \<longrightarrow> us = args)"
proof -
  have all: "filter (\<lambda>a. \<not> ja_used a) args = args"
    using assms(2) by (simp add: list_all_iff)
  show ?thesis
  proof (cases order)
    case None
    then show ?thesis
      using assms(1) all by (simp add: append_official_arguments_from_json_def)
  next
    case (Some od)
    obtain args' b' where o': "ordered_args (tso_prop od) args [] = (args', b')"
      by fastforce
    then obtain us where "b' = concat (map append_official_arg us)" "mset (us @ filter (\<lambda>a. \<not> ja_used a) args') = mset args"
      using ordered_args_perm [OF o'] all by auto
    then show ?thesis
      using assms(1) Some o' by (intro exI [of _ "us @ filter (\<lambda>a. \<not> ja_used a) args'"])
        (simp add: append_official_arguments_from_json_def)
  qed
qed

lemma args_unused: "json_args_loop p args = Some (args', q) \<Longrightarrow> list_all (\<lambda>a. \<not> ja_used a) args \<Longrightarrow> list_all (\<lambda>a. \<not> ja_used a) args'"
proof (induction p args rule: json_args_loop.induct)
  case (1 p args)
  show ?case
  proof (cases "p = [] \<or> at_lit p [ch CHR ''}'']")
    case True
    then show ?thesis
      using "1.prems" by (simp add: json_args_loop.simps [of p])
  next
    case False
    then obtain a q' where a: "json_args_step p = Some (a, q')"
      using "1.prems" by (cases "json_args_step p") (auto simp: json_args_loop.simps [of p])
    have "\<not> ja_used a"
      using a by (auto simp: json_args_step_def Let_def split: option.splits if_splits prod.splits)
    then show ?thesis
      using "1.IH" [OF False a refl] "1.prems" False a by (simp add: json_args_loop.simps [of p] json_args_push_def)
  qed
qed

text \<open>The canonical text of an object is JSON, and its arguments are read back.\<close>

definition escape_jchar :: "byte \<Rightarrow> jchar" where
  "escape_jchar c =
     (if c = 0x22 \<or> c = 0x5c then Escaped c
      else if c = 0x08 then Escaped (ch CHR ''b'')
      else if c = 0x0c then Escaped (ch CHR ''f'')
      else if c = 0x0a then Escaped (ch CHR ''n'')
      else if c = 0x0d then Escaped (ch CHR ''r'')
      else if c = 0x09 then Escaped (ch CHR ''t'')
      else if c < 0x20 then Unicode (ch CHR ''0'') (ch CHR ''0'') (hex_char (drop_bit 4 c)) (hex_char (c AND 0x0f))
      else Plain c)"

lemma escape_jchar: "jchar_text (escape_jchar c) = json_escape_char c" "jchar_ok (escape_jchar c)"
proof -
  show "jchar_text (escape_jchar c) = json_escape_char c"
    by (auto simp: escape_jchar_def json_escape_char_def)
  have "drop_bit 4 c < 16" "c AND 0x0f < 16" if "c < 0x20"
    using that unat_and_exp_minus_1 [of c 4] by (simp_all add: word_less_nat_alt unat_drop_bit_eq drop_bit_eq_div unat_div)
  moreover have "hex_digit 0x30 = Some 0"
    by (simp add: hex_digit_def)
  ultimately show "jchar_ok (escape_jchar c)"
    using hex_digit_char by (auto simp: escape_jchar_def)
qed

lemma escape_text_jstr: "json_escape s = jstr_text (map escape_jchar s)" "list_all jchar_ok (map escape_jchar s)"
  by (simp_all add: json_escape_def json_escape_n_def jstr_text_def o_def escape_jchar list_all_iff)

lemma escape_value: "0 \<notin> set s \<Longrightarrow> str_value (map escape_jchar s) = s"
proof -
  assume s: "0 \<notin> set s"
  have "json_string (json_escape s @ []) = Some (s, [])"
    using json_string_body_escapes [of s "[]" "[]"] until_nul_id [OF s]
    by (simp add: json_string_def json_escape_def json_escape_n_def)
  then show ?thesis
    by (simp add: str_value_def escape_text_jstr(1))
qed

lemma arg_is_member:
  assumes "arg_json a" and "0 \<notin> set (ja_key a)" and "0 \<notin> set (ja_value a)" and "\<not> ja_used a"
  shows "\<exists>y. jmember_ok y \<and> jmember_bytes y = json_arg_text a \<and> member_arg y = a"
proof -
  obtain v where v: "jtext_ok v" "jtext_bytes v = (if ja_is_string a then json_escape (ja_value a) else ja_value a)"
      "(case v of JStr cs \<Rightarrow> str_value cs | _ \<Rightarrow> jtext_bytes (compact v)) = ja_value a"
      "(case v of JStr cs \<Rightarrow> True | _ \<Rightarrow> False) = ja_is_string a"
  proof (cases "ja_is_string a")
    case True
    show ?thesis
      by (rule that [of "JStr (map escape_jchar (ja_value a))"]) (simp_all add: True escape_text_jstr escape_value assms(3))
  next
    case False
    then obtain v where v: "jtext_ok v" "compact v = v" "\<nexists>cs. v = JStr cs" "ja_value a = jtext_bytes v"
      using assms(1) by (auto simp: arg_json_def)
    show ?thesis
      by (rule that [of v]) (use v False in \<open>cases v; auto\<close>)+
  qed
  define y where "y = Member [] (map escape_jchar (ja_key a)) [] [] v []"
  have "jmember_ok y" "jmember_bytes y = json_arg_text a" "member_arg y = a"
    using v assms(2,4) by (simp_all add: y_def json_arg_text_def escape_text_jstr escape_value)
  then show ?thesis
    by blast
qed

lemma comma_separated_commas: "comma_separated xs = commas xs"
proof (induction xs rule: commas.induct)
  case (3 x y xs)
  then show ?case
    by simp
qed simp_all

lemma canonical_args:
  assumes "list_all arg_json us" and "list_all (\<lambda>a. 0 \<notin> set (ja_key a) \<and> 0 \<notin> set (ja_value a) \<and> \<not> ja_used a) us"
  shows "json_args_parse (cstr ''{'' @ comma_separated (map json_arg_text us) @ cstr ''}'') = Some us"
proof -
  have "\<forall>a\<in>set us. \<exists>y. jmember_ok y \<and> jmember_bytes y = json_arg_text a \<and> member_arg y = a"
    using arg_is_member assms by (auto simp: list_all_iff)
  then obtain f where m: "\<And>a. a \<in> set us \<Longrightarrow> jmember_ok (f a) \<and> jmember_bytes (f a) = json_arg_text a \<and> member_arg (f a) = a"
    by (metis (no_types, lifting))
  have ok: "jtext_ok (JObj [] (map f us))"
    using m by (auto simp: list_all_iff)
  have "jtext_bytes (JObj [] (map f us)) = cstr ''{'' @ comma_separated (map json_arg_text us) @ cstr ''}''"
    using m by (simp add: comma_separated_commas o_def cong: map_cong)
  moreover have "map member_arg (map f us) = us"
    using m by (simp add: map_idI)
  ultimately show ?thesis
    using json_args_of_object [OF ok, of "[]" "[]"] by simp
qed

text \<open>A call whose arguments are the text of a JSON object, and that fits the format.\<close>

definition call_of_object :: "tool_call \<Rightarrow> bytes \<Rightarrow> bytes \<Rightarrow> jmember list \<Rightarrow> bool" where
  "call_of_object tc w ws ms \<longleftrightarrow> json_space w \<and> jtext_ok (JObj ws ms) \<and> tc_arguments tc = w @ jtext_bytes (JObj ws ms) \<and>
     tc_name tc \<noteq> [] \<and> ch CHR ''>'' \<notin> set (tc_name tc) \<and> 0 \<notin> set (tc_name tc) \<and> list_all (\<lambda>y. arg_fits (member_arg y)) ms"

definition call_fits :: "tool_call \<Rightarrow> bool" where
  "call_fits tc \<longleftrightarrow> (\<exists>w ws ms. call_of_object tc w ws ms)"

text \<open>The same call, as the server reads its arguments: equal up to their order.\<close>

definition same_call :: "tool_call \<Rightarrow> tool_call \<Rightarrow> bool" where
  "same_call tc tc' \<longleftrightarrow> tc_name tc' = tc_name tc \<and>
     (case (json_args_parse (tc_arguments tc), json_args_parse (tc_arguments tc')) of
        (Some args, Some args') \<Rightarrow> mset args = mset args'
      | _ \<Rightarrow> False)"

lemma member_arg_unused: "\<not> ja_used (member_arg y)"
  by (cases y) simp

text \<open>The text of a call with given arguments.\<close>

definition call_text :: "bytes \<Rightarrow> json_arg list \<Rightarrow> bytes" where
  "call_text name us = SF37_TOOL_CALL_START @ nl @ SF37_FUNCTION_START @ name @ cstr ''>'' @ nl @
     concat (map append_official_arg us) @ SF37_FUNCTION_END @ nl @ SF37_TOOL_CALL_END"

definition name_fits :: "bytes \<Rightarrow> bool" where
  "name_fits name \<longleftrightarrow> name \<noteq> [] \<and> ch CHR ''>'' \<notin> set name \<and> 0 \<notin> set name"

lemma call_text_block:
  assumes "list_all arg_fits us" and "list_all arg_json us" and "name_fits name" and "0 \<notin> set rest"
  shows "parse_official_tool_call_block (call_text name us @ rest) =
      Some (\<lparr>tc_id = [], tc_name = name, tc_arguments = cstr ''{'' @ args_text [] us @ cstr ''}''\<rparr>, rest)"
    and "0 \<notin> set (call_text name us)"
proof -
  have name: "name \<noteq> []" "ch CHR ''>'' \<notin> set name" "0 \<notin> set name"
    using assms(3) by (simp_all add: name_fits_def)
  define tail where "tail = nl @ SF37_TOOL_CALL_END @ rest"
  have tail: "0 \<notin> set tail"
    using assms(4) by (simp add: tail_def SF37_TOOL_CALL_END_def)
  have params: "official_params (nl @ concat (map append_official_arg us) @ SF37_FUNCTION_END @ tail) [] = Some (args_text [] us, tail)"
    unfolding params_ws by (rule params_all [OF assms(1,2) tail])
  define p2 where "p2 = name @ ch CHR ''>'' # nl @ concat (map append_official_arg us) @ SF37_FUNCTION_END @ tail"
  have ws1: "skip_ascii_ws (nl @ SF37_FUNCTION_START @ p2) = SF37_FUNCTION_START @ p2"
    by (simp add: skip_ascii_ws_def SF37_FUNCTION_START_def isspace_def)
  have gt: "strchr p2 (ch CHR ''>'') = Some (length name)"
    unfolding p2_def by (rule strchr_here [OF name(2)])
  have cut: "take (length name) p2 = name"
      "drop (length name + 1) p2 = nl @ concat (map append_official_arg us) @ SF37_FUNCTION_END @ tail"
    by (simp_all add: p2_def)
  have ws2: "skip_ascii_ws tail = SF37_TOOL_CALL_END @ rest"
    by (simp add: tail_def skip_ascii_ws_def SF37_TOOL_CALL_END_def isspace_def)
  have call: "call_text name us @ rest = SF37_TOOL_CALL_START @ nl @ SF37_FUNCTION_START @ p2"
    by (simp add: call_text_def p2_def tail_def)
  then show "parse_official_tool_call_block (call_text name us @ rest) =
      Some (\<lparr>tc_id = [], tc_name = name, tc_arguments = cstr ''{'' @ args_text [] us @ cstr ''}''\<rparr>, rest)"
    using ws1 gt cut params ws2 name(1) by (simp add: parse_official_tool_call_block_def Let_def del: append_eq_append_conv)
  have "0 \<notin> set (concat (map append_official_arg us))"
    using assms(1) arg_text_nul by (auto simp: list_all_iff)
  then show "0 \<notin> set (call_text name us)"
    using name(3) by (auto simp: call_text_def SF37_TOOL_CALL_START_def SF37_FUNCTION_START_def SF37_FUNCTION_END_def SF37_TOOL_CALL_END_def)
qed

lemma call_text_parsed:
  assumes "call_fits tc" and "0 \<notin> set rest"
  shows "\<exists>tc'. parse_official_tool_call_block (append_official_call orders tc @ rest) = Some (tc', rest) \<and> same_call tc tc'"
    and "0 \<notin> set (append_official_call orders tc)"
proof -
  obtain w ws ms where c: "json_space w" "jtext_ok (JObj ws ms)" "tc_arguments tc = w @ jtext_bytes (JObj ws ms)"
      "name_fits (tc_name tc)" "list_all (\<lambda>y. arg_fits (member_arg y)) ms"
    using assms(1) by (auto simp: call_fits_def call_of_object_def name_fits_def)
  have parsed: "json_args_parse (tc_arguments tc) = Some (map member_arg ms)"
    using json_args_of_object [OF c(2,1), of "[]"] by (simp add: c(3))
  have unused: "list_all (\<lambda>a. \<not> ja_used a) (map member_arg ms)"
    by (simp add: list_all_iff member_arg_unused)
  obtain us where us: "append_official_arguments_from_json (tc_arguments tc) (tool_schema_orders_find orders (tc_name tc)) =
        Some (concat (map append_official_arg us))" "mset us = mset (map member_arg ms)"
    using arguments_perm [OF parsed unused] by blast
  have in_us: "a \<in> set us \<longleftrightarrow> a \<in> set (map member_arg ms)" for a
    using us(2) by (metis set_mset_mset)
  have fits: "list_all arg_fits us" "list_all arg_json us" "list_all (\<lambda>a. \<not> ja_used a) us"
    using in_us c(2,5) member_arg_json member_arg_unused by (auto simp: list_all_iff)
  have call: "append_official_call orders tc = call_text (tc_name tc) us"
    using us(1) by (simp add: append_official_call_def call_text_def)
  define tc' where "tc' = \<lparr>tc_id = [], tc_name = tc_name tc, tc_arguments = cstr ''{'' @ args_text [] us @ cstr ''}''\<rparr>"
  have "list_all (\<lambda>a. 0 \<notin> set (ja_key a) \<and> 0 \<notin> set (ja_value a) \<and> \<not> ja_used a) us"
    using fits(1,3) by (auto simp: list_all_iff arg_fits_def)
  then have "json_args_parse (tc_arguments tc') = Some us"
    using canonical_args [OF fits(2)] by (simp add: tc'_def args_text_def)
  then have "same_call tc tc'"
    using parsed us(2) by (simp add: same_call_def tc'_def)
  then show "\<exists>tc'. parse_official_tool_call_block (append_official_call orders tc @ rest) = Some (tc', rest) \<and> same_call tc tc'"
    using call_text_block(1) [OF fits(1,2) c(4) assms(2)] unfolding call tc'_def by blast
  show "0 \<notin> set (append_official_call orders tc)"
    using call_text_block(2) [OF fits(1,2) c(4) assms(2)] by (simp add: call)
qed

lemma calls_text_parsed:
  assumes "list_all call_fits tcs" and "tcs \<noteq> []"
  shows "\<exists>tcs'. official_calls (concat (map (append_official_call orders) tcs)) acc = Some (acc @ tcs', []) \<and> list_all2 same_call tcs tcs'"
    and "0 \<notin> set (concat (map (append_official_call orders) tcs))"
proof -
  show nul: "0 \<notin> set (concat (map (append_official_call orders) tcs))"
    using assms(1) call_text_parsed(2) [of _ "[]"] by (auto simp: list_all_iff)
  show "\<exists>tcs'. official_calls (concat (map (append_official_call orders) tcs)) acc = Some (acc @ tcs', []) \<and> list_all2 same_call tcs tcs'"
    using assms nul
  proof (induction tcs arbitrary: acc)
    case (Cons tc tcs)
    define rest where "rest = concat (map (append_official_call orders) tcs)"
    have "0 \<notin> set rest"
      using Cons.prems(3) by (simp add: rest_def)
    then obtain tc' where tc': "parse_official_tool_call_block (append_official_call orders tc @ rest) = Some (tc', rest)" "same_call tc tc'"
      using call_text_parsed(1) Cons.prems(1) by fastforce
    show ?case
    proof (cases tcs)
      case Nil
      then have "rest = []"
        by (simp add: rest_def)
      then show ?thesis
        using tc' Nil by (subst official_calls.simps)
          (simp add: rest_def skip_ascii_ws_def SF37_TOOL_CALL_START_def)
    next
      case (Cons t ts)
      have start: "skip_ascii_ws rest = rest" "at_lit rest SF37_TOOL_CALL_START"
        using Cons by (simp_all add: rest_def append_official_call_def skip_ascii_ws_def SF37_TOOL_CALL_START_def isspace_def)
      obtain tcs' where tcs': "official_calls rest (acc @ [tc']) = Some ((acc @ [tc']) @ tcs', [])" "list_all2 same_call tcs tcs'"
        using Cons.IH [of "acc @ [tc']"] Cons.prems Cons \<open>0 \<notin> set rest\<close> by (auto simp: rest_def)
      then show ?thesis
        using tc' start by (subst official_calls.simps) (auto simp: rest_def Let_def)
    qed
  qed simp
qed

subsection \<open>A generated message is parsed\<close>

text \<open>A marker whose first byte occurs nowhere else in it does not straddle a place where that byte is.\<close>

lemma occurs_at_append:
  assumes "x \<notin> set m" and "R = [] \<or> hd R = x"
  shows "occurs_at (A @ R) (x # m) i \<longleftrightarrow> (i < length A \<and> occurs_at A (x # m) i) \<or> (length A \<le> i \<and> occurs_at R (x # m) (i - length A))"
proof (induction A arbitrary: i)
  case (Cons a A)
  show ?case
  proof (cases i)
    case 0
    have "at_lit (A @ R) m \<longleftrightarrow> at_lit A m" using assms(1,2)
    proof (induction m arbitrary: A)
      case (Cons y m)
      then show ?case
        by (cases A; cases R) auto
    qed simp
    then show ?thesis
      using 0 by simp
  next
    case (Suc j)
    then show ?thesis
      using Cons by simp
  qed
qed (simp add: occurs_at_def)

lemma find_last:
  assumes "0 \<notin> set s" and "m \<noteq> []"
  shows "find_last_substr s m = (if \<exists>i. occurs_at s m i then Some (GREATEST i. occurs_at s m i) else None)"
proof -
  have bound: "i < length s" if "occurs_at s m i" for i
    using occurs_at_bound [OF assms(2) that] assms(2) by (cases m) auto
  have fold: "foldl (\<lambda>best i. if P i then Some i else best) None [0..<n] = (if \<exists>i<n. P i then Some (GREATEST i. i < n \<and> P i) else None)"
    for P :: "nat \<Rightarrow> bool" and n
  proof (induction n)
    case (Suc n)
    show ?case
    proof (cases "P n")
      case True
      then have "(GREATEST i. i < Suc n \<and> P i) = n"
        by (intro Greatest_equality) auto
      then show ?thesis
        using True by auto
    next
      case False
      then have "(i < Suc n \<and> P i) = (i < n \<and> P i)" for i
        using less_Suc_eq by auto
      then show ?thesis
        using Suc False by auto
    qed
  qed simp
  have "(i < length s \<and> occurs_at s m i) = occurs_at s m i" for i
    using bound by blast
  then show ?thesis
    using assms fold [of "occurs_at s m" "length s"] by (simp add: find_last_substr_def until_nul_id)
qed

lemma strstr_append:
  assumes "x \<notin> set m" and "0 \<notin> set (A @ (x # m) @ R)" and "strstr A (x # m) = None"
  shows "strstr (A @ (x # m) @ R) (x # m) = Some (length A)"
proof -
  have none: "\<not> occurs_at A (x # m) i" for i
    using assms(2,3) strstr_None [of A "x # m"] by simp
  have "\<not> occurs_at (A @ (x # m) @ R) (x # m) j" if "j < length A" for j
    using that none occurs_at_append [OF assms(1), of "(x # m) @ R" A j] by simp
  moreover have "occurs_at (A @ (x # m) @ R) (x # m) (length A)"
    by (simp add: occurs_at_def)
  ultimately show ?thesis
    using strstr_Some [OF assms(2)] by auto
qed

lemma trim_append: "n \<le> length s \<Longrightarrow> trim_while P (s @ r) st n = trim_while P s st n"
  by (induction n) (auto simp: nth_append)

text \<open>What the search for calls starts behind: the last end of a reasoning, when one is required.\<close>

definition call_search :: "bytes \<Rightarrow> bool \<Rightarrow> bytes option" where
  "call_search content require =
     (if require then map_option (\<lambda>e. drop (e + length THINK_CLOSE) content) (find_last_substr content THINK_CLOSE) else Some content)"

lemma find_last_append:
  assumes "0 \<notin> set (A @ R)" and "R = [] \<or> hd R = 0x3c" and "strstr R THINK_CLOSE = None"
  shows "find_last_substr (A @ R) THINK_CLOSE = find_last_substr A THINK_CLOSE"
proof -
  have m: "THINK_CLOSE = 0x3c # cstr ''/think>''" "0x3c \<notin> set (cstr ''/think>'')"
    by (simp_all add: THINK_CLOSE_def)
  have none: "\<not> occurs_at R THINK_CLOSE i" for i
    using assms(1,3) strstr_None [of R THINK_CLOSE] by (simp add: m(1))
  have "occurs_at (A @ R) THINK_CLOSE i \<longleftrightarrow> occurs_at A THINK_CLOSE i" for i
    using occurs_at_append [OF m(2) assms(2), of A i] none occurs_at_bound [of THINK_CLOSE A i] unfolding m(1) by auto
  then have "occurs_at (A @ R) THINK_CLOSE = occurs_at A THINK_CLOSE"
    by (rule ext)
  then show ?thesis
    using find_last [of "A @ R" THINK_CLOSE] find_last [of A THINK_CLOSE] assms(1) by simp
qed

lemma find_last_occurs: "0 \<notin> set s \<Longrightarrow> m \<noteq> [] \<Longrightarrow> find_last_substr s m = Some e \<Longrightarrow> occurs_at s m e"
proof -
  assume a: "0 \<notin> set s" "m \<noteq> []" "find_last_substr s m = Some e"
  have ex: "\<exists>i. occurs_at s m i"
    using a(3) find_last [OF a(1,2)] by (metis option.distinct(1))
  then have "e = (GREATEST i. occurs_at s m i)"
    using a(3) find_last [OF a(1,2)] by simp
  moreover have "occurs_at s m (GREATEST i. occurs_at s m i)"
    by (rule GreatestI_ex_nat [OF ex, of "length s"]) (use occurs_at_bound [OF a(2), of s] in fastforce)
  ultimately show ?thesis
    by simp
qed

lemma message_calls:
  assumes "official_calls R [] = Some (tcs', [])" and "0 \<notin> set R" and "\<exists>r. R = SF37_TOOL_CALL_START @ r" and "0 \<notin> set content"
    and "call_search content think = Some tail" and "strstr tail SF37_TOOL_CALL_START = None"
    and "think \<longrightarrow> strstr R THINK_CLOSE = None"
  shows "parse_generated_message_ex (content @ R) think think =
    Some (split_generated content (trim_tool_separator_ws content 0 (length content)) think \<lparr>tcs_v = tcs', tcs_raw_dsml = Some R\<rparr>)"
proof -
  obtain R' where R: "R = SF37_TOOL_CALL_START @ R'"
    using assms(3) by blast
  have start: "SF37_TOOL_CALL_START = 0x3c # cstr ''tool_call>''" "0x3c \<notin> set (cstr ''tool_call>'')"
    by (simp_all add: SF37_TOOL_CALL_START_def)
  have hdR: "hd R = 0x3c"
    by (simp add: R start(1))
  obtain k where k: "(if think then map_option (\<lambda>e. e + length THINK_CLOSE) (find_last_substr (content @ R) THINK_CLOSE) else Some 0) = Some k"
      "tail = drop k content" "k \<le> length content"
  proof (cases think)
    case False
    then show ?thesis
      using assms(5) by (intro that [of 0]) (auto simp: call_search_def)
  next
    case True
    have last: "find_last_substr (content @ R) THINK_CLOSE = find_last_substr content THINK_CLOSE"
      by (rule find_last_append) (use assms(2,4,7) hdR True in auto)
    obtain e where e: "find_last_substr content THINK_CLOSE = Some e" "tail = drop (e + length THINK_CLOSE) content"
      using assms(5) True by (auto simp: call_search_def)
    have "e + length THINK_CLOSE \<le> length content"
      using occurs_at_bound [OF think_marks(3) find_last_occurs [OF assms(4) think_marks(3) e(1)]] .
    then show ?thesis
      using True last e by (intro that [of "e + length THINK_CLOSE"]) auto
  qed
  have search: "drop k (content @ R) = tail @ R"
    using k(2,3) by simp
  have R2: "R = (0x3c # cstr ''tool_call>'') @ R'"
    unfolding R start(1) by (rule refl)
  have "0 \<notin> set (tail @ R)"
    using assms(2,4) k(2) by (auto dest: in_set_dropD)
  then have nul2: "0 \<notin> set (tail @ (0x3c # cstr ''tool_call>'') @ R')"
    unfolding R2 .
  have "strstr (tail @ R) (0x3c # cstr ''tool_call>'') = Some (length tail)"
    unfolding R2 by (rule strstr_append [OF start(2) nul2]) (use assms(6) in \<open>simp only: start(1)\<close>)
  then have found: "strstr (drop k (content @ R)) SF37_TOOL_CALL_START = Some (length tail)"
    unfolding search start(1) .
  have place: "k + length tail = length content"
    using k(2,3) by simp
  have trim: "trim_tool_separator_ws (content @ R) 0 (length content) = trim_tool_separator_ws content 0 (length content)"
    by (simp add: trim_tool_separator_ws_def trim_append)
  have "split_reasoning_content (content @ R) n think = split_reasoning_content content n think" if "n \<le> length content" for n
    using that by (simp add: split_reasoning_content_def)
  then have split: "split_reasoning_content (content @ R) (trim_tool_separator_ws content 0 (length content)) think =
      split_reasoning_content content (trim_tool_separator_ws content 0 (length content)) think"
    using trim_le by (simp add: trim_tool_separator_ws_def)
  show ?thesis
    using k(1) found place assms(1)
    by (simp add: parse_generated_message_ex_def parse_official_tool_calls_message_def Let_def split_generated_def trim split)
qed

text \<open>C12: The calls of a message whose arguments fit the format survive being written in it and parsed out of
  a generated text: after any content whose searched part has no call marker, every call comes back with
  its name and with arguments that the server reads as the same, up to the order the schemas give them;
  the exact text of the calls is kept for replay, and content and reasoning are split as if the calls were
  not there. The arguments are a JSON object in any layout, with values of any shape, that fits
  (\<open>call_fits\<close>, \<open>arg_fits\<close>): names and keys are not empty and hold no \<open>>\<close>; no value holds an entity such as
  \<open>&lt;\<close> or ends in a carriage return; a string is not itself the text of a JSON value, like \<open>42\<close>, \<open>true\<close> or
  \<open>[]\<close>; and a value that is no string does not contain \<open></parameter>\<close>. With thinking on no call may contain
  \<open></think>\<close>. The code changes or loses calls that break these conditions.\<close>

theorem generated_calls_read_back:
  assumes "list_all call_fits tcs" and "tcs \<noteq> []" and "0 \<notin> set content"
    and "call_search content think = Some tail" and "strstr tail SF37_TOOL_CALL_START = None"
    and "think \<longrightarrow> strstr (append_official_tool_calls_text \<lparr>tcs_v = tcs, tcs_raw_dsml = None\<rparr> orders) THINK_CLOSE = None"
  shows "case parse_generated_message_ex
      (content @ append_official_tool_calls_text \<lparr>tcs_v = tcs, tcs_raw_dsml = None\<rparr> orders) think think of
      None \<Rightarrow> False
    | Some g \<Rightarrow>
        list_all2 same_call tcs (tcs_v (ge_calls g)) \<and>
        tcs_raw_dsml (ge_calls g) = Some (append_official_tool_calls_text \<lparr>tcs_v = tcs, tcs_raw_dsml = None\<rparr> orders) \<and>
        (ge_reasoning g, ge_content g) =
          (case split_reasoning_content content (trim_tool_separator_ws content 0 (length content)) think of
             (reasoning, body) \<Rightarrow> (Some reasoning, body))"
proof -
  define R where "R = concat (map (append_official_call orders) tcs)"
  have text_eq: "append_official_tool_calls_text \<lparr>tcs_v = tcs, tcs_raw_dsml = None\<rparr> orders = R"
    using assms(2) by (simp add: append_official_tool_calls_text_def R_def)
  have nul: "0 \<notin> set R"
    unfolding R_def by (rule calls_text_parsed(2) [OF assms(1,2)])
  obtain tcs' where tcs': "official_calls R [] = Some (tcs', [])" "list_all2 same_call tcs tcs'"
    using calls_text_parsed(1) [OF assms(1,2), of orders "[]"] by (auto simp: R_def)
  have start: "\<exists>r. R = SF37_TOOL_CALL_START @ r"
    using assms(2) by (cases tcs) (auto simp: R_def append_official_call_def)
  show ?thesis
    unfolding text_eq using message_calls [OF tcs'(1) nul start assms(3-5)] assms(6) tcs'(2)
    by (simp add: text_eq split_generated_def case_prod_beta)
qed

lemma v_is_no_json: "\<not> raw_text_is_json_value [0x76]"
proof -
  have "json_skip SkipValue [0x76] = Some None"
    by (subst json_skip.simps) (simp add: isspace_def json_number_def strtod_def scan_sign_def scan_mantissa_def digit_value_def hex_digit_def)
  then show ?thesis
    by (simp add: raw_text_is_json_value_def json_skip_value_def isspace_def)
qed

lemma sample_call_fits:
  "call_fits \<lparr>tc_id = [], tc_name = [0x66], tc_arguments = cstr [CHR ''{'', CHR 0x22, CHR ''k'', CHR 0x22, CHR '':'', CHR '' '', CHR 0x22, CHR ''v'', CHR 0x22, CHR ''}'']\<rparr>"
proof -
  have k: "str_value [Plain c] = [c]" if "c \<noteq> 0" "c \<noteq> 0x22" "c \<noteq> 0x5c" for c
    using that by (simp add: str_value_def jstr_text_def json_string_def until_nul_def)
  have "arg_fits (member_arg (Member [] [Plain 0x6b] [] [0x20] (JStr [Plain 0x76]) []))"
    by (simp add: arg_fits_def k v_is_no_json)
  then have "call_of_object \<lparr>tc_id = [], tc_name = [0x66], tc_arguments = cstr [CHR ''{'', CHR 0x22, CHR ''k'', CHR 0x22, CHR '':'', CHR '' '', CHR 0x22, CHR ''v'', CHR 0x22, CHR ''}'']\<rparr>
      [] [] [Member [] [Plain 0x6b] [] [0x20] (JStr [Plain 0x76]) []]"
    by (simp add: call_of_object_def jstr_text_def)
  then show ?thesis
    unfolding call_fits_def by blast
qed

theorem generated_calls_read_back_witness:
  "case parse_generated_message_ex
      (cstr ''Hi'' @ append_official_tool_calls_text \<lparr>tcs_v = [\<lparr>tc_id = [], tc_name = [0x66], tc_arguments = cstr [CHR ''{'', CHR 0x22, CHR ''k'', CHR 0x22, CHR '':'', CHR '' '', CHR 0x22, CHR ''v'', CHR 0x22, CHR ''}'']\<rparr>], tcs_raw_dsml = None\<rparr> []) False False of
      None \<Rightarrow> False
    | Some g \<Rightarrow>
        list_all2 same_call [\<lparr>tc_id = [], tc_name = [0x66], tc_arguments = cstr [CHR ''{'', CHR 0x22, CHR ''k'', CHR 0x22, CHR '':'', CHR '' '', CHR 0x22, CHR ''v'', CHR 0x22, CHR ''}'']\<rparr>] (tcs_v (ge_calls g)) \<and>
        tcs_raw_dsml (ge_calls g) = Some (append_official_tool_calls_text \<lparr>tcs_v = [\<lparr>tc_id = [], tc_name = [0x66], tc_arguments = cstr [CHR ''{'', CHR 0x22, CHR ''k'', CHR 0x22, CHR '':'', CHR '' '', CHR 0x22, CHR ''v'', CHR 0x22, CHR ''}'']\<rparr>], tcs_raw_dsml = None\<rparr> []) \<and>
        (ge_reasoning g, ge_content g) =
          (case split_reasoning_content (cstr ''Hi'') (trim_tool_separator_ws (cstr ''Hi'') 0 (length (cstr ''Hi''))) False of
             (reasoning, body) \<Rightarrow> (Some reasoning, body))"
  by (rule generated_calls_read_back [where tail = "cstr ''Hi''"])
    (simp_all add: sample_call_fits [simplified] call_search_def strstr_def until_nul_def SF37_TOOL_CALL_START_def)

subsection \<open>A call that was cut off is repaired\<close>





























subsection \<open>Fresh ids\<close>

lemma draw_id_known: "known (random_tool_id anthropic (env (ctr + 1)) (ctr + 1)) \<Longrightarrow>
    draw_id anthropic env known ctr = draw_id anthropic env known (ctr + 1)"
  by (subst draw_id.simps) (simp add: Let_def)

lemma draw_id_free: "\<not> known (random_tool_id anthropic (env (ctr + 1)) (ctr + 1)) \<Longrightarrow>
    draw_id anthropic env known ctr = Some (random_tool_id anthropic (env (ctr + 1)) (ctr + 1), ctr + 1)"
  by (subst draw_id.simps) (simp add: Let_def)

text \<open>The ids of the draws behind a counter.\<close>

definition drawn :: "bool \<Rightarrow> (u64 \<Rightarrow> u64 \<times> u64 \<times> u64) \<Rightarrow> u64 \<Rightarrow> nat \<Rightarrow> bytes" where
  "drawn anthropic env ctr k = random_tool_id anthropic (env (ctr + 1 + of_nat k)) (ctr + 1 + of_nat k)"

lemma drawn_Suc: "drawn anthropic env (ctr + 1) k = drawn anthropic env ctr (Suc k)"
  by (simp add: drawn_def add_ac)

lemma draw_id_returns:
  "\<not> known (drawn anthropic env ctr k) \<Longrightarrow>
   \<exists>j\<le>k. \<not> known (drawn anthropic env ctr j) \<and> draw_id anthropic env known ctr = Some (drawn anthropic env ctr j, ctr + 1 + of_nat j)"
proof (induction k arbitrary: ctr)
  case 0
  then show ?case
    using draw_id_free [of known anthropic env ctr] by (simp add: drawn_def)
next
  case (Suc k)
  show ?case
  proof (cases "known (random_tool_id anthropic (env (ctr + 1)) (ctr + 1))")
    case False
    then show ?thesis
      using draw_id_free [of known anthropic env ctr] by (intro exI [of _ 0]) (simp add: drawn_def)
  next
    case True
    obtain j where j: "j \<le> k" "\<not> known (drawn anthropic env (ctr + 1) j)"
        "draw_id anthropic env known (ctr + 1) = Some (drawn anthropic env (ctr + 1) j, ctr + 1 + 1 + of_nat j)"
      using Suc.IH [of "ctr + 1"] Suc.prems by (auto simp: drawn_Suc)
    then show ?thesis
      using draw_id_known [of known anthropic env ctr, OF True] unfolding drawn_Suc by (intro exI [of _ "Suc j"]) (simp add: add_ac)
  qed
qed

text \<open>One of more ids than are known is free.\<close>

lemma draw_id_some:
  assumes "inj_on (drawn anthropic env ctr) {..<n}" and "finite {x. known x}" and "card {x. known x} < n"
  shows "\<exists>j<n. \<not> known (drawn anthropic env ctr j) \<and> draw_id anthropic env known ctr = Some (drawn anthropic env ctr j, ctr + 1 + of_nat j)"
proof -
  have "\<not> drawn anthropic env ctr ` {..<n} \<subseteq> {x. known x}"
    using card_mono [OF assms(2), of "drawn anthropic env ctr ` {..<n}"] card_image [OF assms(1)] assms(3) by auto
  then obtain k where k: "k < n" "\<not> known (drawn anthropic env ctr k)"
    by auto
  then show ?thesis
    using draw_id_returns [of known anthropic env ctr k] by (meson le_less_trans)
qed

text \<open>Ids of a steady clock differ: the counter shows in the last sixteen digits.\<close>

lemma hex_char_inj:
  assumes "d < 16" and "e < 16" and "hex_char d = hex_char e"
  shows "d = e"
proof -
  have "(ucast d :: u32) = ucast e"
    using hex_digit_char [OF assms(1)] hex_digit_char [OF assms(2)] assms(3) by simp
  then have "unat (ucast d :: u32) = unat (ucast e :: u32)"
    by simp
  then show "d = e"
    by (simp add: unsigned_ucast_eq word_unat_eq_iff)
qed

lemma hex16_inj: "hex16 v = hex16 w \<longleftrightarrow> v = w"
proof
  assume eq: "hex16 v = hex16 w"
  have nib: "ucast (drop_bit (60 - 4 * i) v AND 0xf) = (ucast (drop_bit (60 - 4 * i) w AND 0xf) :: byte)" if i: "i < 16" for i
  proof -
    have small: "(ucast (drop_bit (60 - 4 * i) u AND 0xf) :: byte) < 16" for u :: u64
    proof -
      have "drop_bit (60 - 4 * i) u AND 0xf \<le> 0xf"
        by (rule word_and_le1)
      then have "unat (drop_bit (60 - 4 * i) u AND 0xf) < 16"
        by (simp add: word_le_nat_alt)
      then show ?thesis
        by (simp add: word_less_nat_alt unsigned_ucast_eq unsigned_take_bit_eq take_bit_eq_mod)
    qed
    have "hex16 v ! i = hex16 w ! i"
      using eq by simp
    then have "hex_char (ucast (drop_bit (60 - 4 * i) v AND 0xf)) = hex_char (ucast (drop_bit (60 - 4 * i) w AND 0xf))"
      using i by (simp add: hex16_def)
    then show ?thesis
      by (rule hex_char_inj [OF small [of v] small [of w]])
  qed
  show "v = w"
  proof (rule bit_word_eqI)
    fix n
    assume n: "n < LENGTH(64)"
    obtain i k where i: "i < 16" "k < 4" "60 - 4 * i + k = n"
    proof -
      have "60 - 4 * (15 - n div 4) + n mod 4 = n"
        using n by simp presburger
      then show thesis
        using that [of "15 - n div 4" "n mod 4"] by simp
    qed
    have f: "(0xf :: u64) = mask 4"
      by (simp add: mask_eq_exp_minus_1)
    have b: "bit u n = bit (ucast (drop_bit (60 - 4 * i) u AND 0xf) :: byte) k" for u :: u64
      using i(2,3) unfolding f by (simp add: bit_ucast_iff bit_and_iff bit_drop_bit_eq bit_mask_iff ac_simps)
    show "bit v n = bit w n"
      using nib [OF i(1)] b [of v] b [of w] by simp
  qed
qed simp

lemma steady_clock_distinct:
  assumes "\<And>c. env c = e" and "n \<le> 2 ^ 64"
  shows "inj_on (drawn anthropic env c) {..<n}"
proof (rule inj_onI)
  fix j k
  assume jk: "j \<in> {..<n}" "k \<in> {..<n}" and eq: "drawn anthropic env c j = drawn anthropic env c k"
  obtain now pid clk where e: "e = (now, pid, clk)"
    by (cases e)
  have "hex16 ((c + 1 + of_nat j) XOR clk) = hex16 ((c + 1 + of_nat k) XOR clk)"
    using eq by (simp add: drawn_def random_tool_id_def assms(1) e)
  then have "(c + 1 + of_nat j) XOR clk = (c + 1 + of_nat k) XOR clk"
    unfolding hex16_inj .
  then have "((c + 1 + of_nat j) XOR clk) XOR clk = ((c + 1 + of_nat k) XOR clk) XOR clk"
    by simp
  then have "(of_nat j :: u64) = of_nat k"
    by (simp add: xor.assoc)
  then have "unat (of_nat j :: u64) = unat (of_nat k :: u64)"
    by simp
  then show "j = k"
    using jk assms(2) by (simp add: unat_of_nat)
qed

text \<open>From place \<open>k\<close> on each call has an id: its own, or one that no call in front of it and no remembered call has.\<close>

definition id_given :: "bool \<Rightarrow> tool_memory \<Rightarrow> tool_call \<Rightarrow> tool_call list \<Rightarrow> nat \<Rightarrow> bool" where
  "id_given disabled m c calls' i \<longleftrightarrow>
     (if tc_id c \<noteq> [] then calls' ! i = c
      else tc_id (calls' ! i) \<notin> set (map tc_id (take i calls')) \<and> tc_id (calls' ! i) \<noteq> [] \<and>
           \<not> tool_memory_has_id disabled (tc_id (calls' ! i)) m)"

definition ids_given :: "bool \<Rightarrow> tool_memory \<Rightarrow> nat \<Rightarrow> tool_call list \<Rightarrow> tool_call list \<Rightarrow> bool" where
  "ids_given disabled m k calls calls' \<longleftrightarrow>
     map (\<lambda>c. c\<lparr>tc_id := []\<rparr>) calls' = map (\<lambda>c. c\<lparr>tc_id := []\<rparr>) calls \<and> take k calls' = take k calls \<and>
     (\<forall>i. k \<le> i \<and> i < length calls \<longrightarrow> id_given disabled m (calls ! i) calls' i)"

lemma ids_given_first:
  assumes "ids_given disabled m (Suc k) calls1 calls'" and "map (\<lambda>c. c\<lparr>tc_id := []\<rparr>) calls1 = map (\<lambda>c. c\<lparr>tc_id := []\<rparr>) calls"
    and "take k calls' = take k calls" and "id_given disabled m (calls ! k) calls' k" and "\<And>i. Suc k \<le> i \<Longrightarrow> calls1 ! i = calls ! i"
  shows "ids_given disabled m k calls calls'"
proof -
  have len: "length calls1 = length calls"
    using assms(2) by (metis length_map)
  have "id_given disabled m (calls ! i) calls' i" if "k \<le> i" "i < length calls" for i
    using that assms(1,4,5) len by (cases "i = k") (auto simp: ids_given_def)
  then show ?thesis
    using assms(1-3) by (simp add: ids_given_def)
qed

lemma assign_loop:
  assumes "\<And>c. inj_on (drawn anthropic env c) {..<N}" and "finite {x. tool_memory_has_id disabled x m}"
  shows "length calls + card {x. tool_memory_has_id disabled x m} < N \<Longrightarrow> k \<le> length calls \<Longrightarrow>
    \<exists>calls' ctr'. assign_ids_loop disabled m anthropic env [k..<length calls] calls ctr = Some (calls', ctr') \<and> ids_given disabled m k calls calls'"
proof (induction "length calls - k" arbitrary: k calls ctr)
  case 0
  then show ?case
    by (auto simp: ids_given_def)
next
  case (Suc n)
  define known where "known = (\<lambda>x. tool_calls_contains_id calls x k \<or> tool_memory_has_id disabled x m)"
  have k: "k < length calls"
    using Suc.hyps(2) by simp
  have split: "[k..<length calls] = k # [Suc k..<length calls]"
    by (rule upt_conv_Cons [OF k])
  have n: "n = length calls - Suc k"
    using Suc.hyps(2) by simp
  show ?case
  proof (cases "tc_id (calls ! k) = []")
    case False
    obtain calls' ctr' where rest: "assign_ids_loop disabled m anthropic env [Suc k..<length calls] calls ctr = Some (calls', ctr')"
        "ids_given disabled m (Suc k) calls calls'"
      using Suc.hyps(1) [OF n Suc.prems(1)] k by fastforce
    have len: "length calls' = length calls"
      using rest(2) unfolding ids_given_def by (metis length_map)
    have "take k calls' = take k calls \<and> calls' ! k = calls ! k"
      using rest(2) k len by (simp add: take_Suc_conv_app_nth ids_given_def)
    then have "ids_given disabled m k calls calls'"
      using ids_given_first [OF rest(2)] False by (simp add: id_given_def)
    then show ?thesis
      using rest(1) False split by auto
  next
    case True
    have sub: "{x. known x} \<subseteq> tc_id ` set (take k calls) \<union> {x. tool_memory_has_id disabled x m}"
      by (auto simp: known_def tool_calls_contains_id_def list_ex_iff)
    have fin: "finite {x. known x}"
      using finite_subset [OF sub] assms(2) by simp
    have "card {x. known x} \<le> card (tc_id ` set (take k calls)) + card {x. tool_memory_has_id disabled x m}"
      using card_mono [OF _ sub] card_Un_le [of "tc_id ` set (take k calls)"] assms(2) by (meson finite_UnI finite_imageI finite_set le_trans)
    moreover have "card (tc_id ` set (take k calls)) \<le> length calls"
      using card_image_le [of "set (take k calls)" tc_id] card_length [of "take k calls"] by simp
    ultimately have "card {x. known x} < N"
      using Suc.prems by simp
    then obtain j where j: "\<not> known (drawn anthropic env ctr j)" "draw_id anthropic env known ctr = Some (drawn anthropic env ctr j, ctr + 1 + of_nat j)"
      using draw_id_some [OF assms(1) fin, of ctr] by blast
    define x where "x = drawn anthropic env ctr j"
    define calls1 where "calls1 = calls[k := (calls ! k)\<lparr>tc_id := x\<rparr>]"
    have x: "x \<noteq> []"
      by (simp add: x_def drawn_def random_tool_id_def split: prod.splits)
    have len1: "length calls1 = length calls"
      by (simp add: calls1_def)
    obtain calls' ctr' where rest: "assign_ids_loop disabled m anthropic env [Suc k..<length calls] calls1 (ctr + 1 + of_nat j) = Some (calls', ctr')"
        "ids_given disabled m (Suc k) calls1 calls'"
      using Suc.hyps(1) [of calls1 "Suc k"] n Suc.prems(1) k unfolding len1 by fastforce
    have len: "length calls' = length calls"
      using rest(2) len1 unfolding ids_given_def by (metis length_map)
    have first: "take k calls' = take k calls" "tc_id (calls' ! k) = x"
      using rest(2) k len by (simp_all add: take_Suc_conv_app_nth calls1_def ids_given_def)
    have others: "calls1 ! i = calls ! i" if "Suc k \<le> i" for i
      using that by (simp add: calls1_def)
    have "map (\<lambda>c. c\<lparr>tc_id := []\<rparr>) calls1 = map (\<lambda>c. c\<lparr>tc_id := []\<rparr>) calls"
      using k by (simp add: calls1_def map_update list_update_same_conv)
    moreover have "x \<notin> set (map tc_id (take k calls')) \<and> \<not> tool_memory_has_id disabled x m"
      using j(1) x first(1) by (auto simp: known_def x_def tool_calls_contains_id_def list_ex_iff)
    ultimately have "ids_given disabled m k calls calls'"
      using ids_given_first [OF rest(2)] first x others True by (simp add: id_given_def)
    moreover have "assign_ids_loop disabled m anthropic env [k..<length calls] calls ctr = Some (calls', ctr')"
      using rest(1) j(2) True by (simp add: split calls1_def x_def known_def)
    ultimately show ?thesis
      by blast
  qed
qed

lemma memory_ids_few:
  assumes "memory_run ops (tool_memory_empty mx b) = Some (rs, m)"
  shows "finite {x. tool_memory_has_id disabled x m}"
    and "card {x. tool_memory_has_id disabled x m} \<le> nat (tool_memory_max_entries (tool_memory_empty mx b))"
proof -
  obtain V m1 where m1: "memory_run ops (tool_memory_empty mx b) = Some (V, m1)" "within_limits m1" "same_limits (tool_memory_empty mx b) m1"
      "\<exists>W. tm_rel m1 W"
    using memory_run_rel [OF empty_rel empty_within refl refl] by blast
  obtain L C where inv: "tm_inv m L C"
    using m1(1,4) assms by (auto simp: tm_rel_def)
  have ids: "{x. tool_memory_has_id disabled x m} \<subseteq> (\<lambda>a. te_id (the (tm_e m a))) ` set L"
  proof
    fix x
    assume "x \<in> {x. tool_memory_has_id disabled x m}"
    then obtain a where a: "tm_by_id m x = Some a"
      by (auto simp: tool_memory_has_id_def tool_memory_find_entry_locked_def split: if_splits)
    then obtain e where "tm_e m a = Some e" "te_id e = x"
      using tm_invD(3) [OF inv] unfolding id_inv_def by blast
    then show "x \<in> (\<lambda>a. te_id (the (tm_e m a))) ` set L"
      using tm_invD(2) [OF inv] by (metis image_eqI option.sel option.simps(3))
  qed
  show "finite {x. tool_memory_has_id disabled x m}"
    by (rule finite_subset [OF ids]) simp
  have "card {x. tool_memory_has_id disabled x m} \<le> length L"
    using card_mono [OF _ ids] card_image_le [of "set L" "\<lambda>a. te_id (the (tm_e m a))"] card_length [of L] by simp
  moreover have "int (length L) \<le> tool_memory_max_entries (tool_memory_empty mx b)"
    using m1(1,2) assms limits_same [OF m1(3)] inv by (simp add: within_limits_def tm_inv_def)
  ultimately show "card {x. tool_memory_has_id disabled x m} \<le> nat (tool_memory_max_entries (tool_memory_empty mx b))"
    by simp
qed

text \<open>C24: Giving ids to the calls of a message ends, whatever the memory holds, as long as so many draws in
  a row differ as there are calls and remembered ids: a call keeps the id it has, and every other gets one
  that no call in front of it and no remembered call has. Names and arguments stay.\<close>

theorem ids_assigned_fresh:
  assumes "\<And>c. inj_on (drawn anthropic env c) {..<N}" and "memory_run ops (tool_memory_empty mx b) = Some (rs, m)"
    and "length calls + nat (tool_memory_max_entries (tool_memory_empty mx b)) < N"
  shows "case assign_tool_call_ids disabled m anthropic env calls ctr of
      None \<Rightarrow> False
    | Some (calls', ctr') \<Rightarrow> ids_given disabled m 0 calls calls' \<and> (list_all (\<lambda>c. tc_id c = []) calls \<longrightarrow> distinct (map tc_id calls'))"
proof -
  have "length calls + card {x. tool_memory_has_id disabled x m} < N"
    using memory_ids_few(2) [OF assms(2), of disabled] assms(3) by simp
  then obtain calls' ctr' where run: "assign_ids_loop disabled m anthropic env [0..<length calls] calls ctr = Some (calls', ctr')"
      "ids_given disabled m 0 calls calls'"
    using assign_loop [OF assms(1) memory_ids_few(1) [OF assms(2)]] by blast
  have len: "length calls' = length calls"
    using run(2) unfolding ids_given_def by (metis length_map)
  have "distinct (map tc_id calls')" if none: "list_all (\<lambda>c. tc_id c = []) calls"
  proof -
    have "tc_id (calls' ! i) \<noteq> tc_id (calls' ! j)" if "i < j" "j < length calls'" for i j
    proof -
      have "tc_id (calls' ! j) \<notin> set (map tc_id (take j calls'))"
        using run(2) none that(2) len by (simp add: ids_given_def id_given_def list_all_length)
      then show ?thesis
        using that nth_mem [of i "map tc_id (take j calls')"] by fastforce
    qed
    then show ?thesis
      unfolding distinct_conv_nth by (metis length_map nat_neq_iff nth_map)
  qed
  then show ?thesis
    using run by (simp add: assign_tool_call_ids_def)
qed

theorem ids_assigned_fresh_witness:
  "case assign_tool_call_ids False (tool_memory_empty 1 100) False (\<lambda>c. (7, 8, 9))
       [\<lparr>tc_id = [], tc_name = [0x66], tc_arguments = [0x7b, 0x7d]\<rparr>, \<lparr>tc_id = [], tc_name = [0x67], tc_arguments = [0x7b, 0x7d]\<rparr>] 0 of
     None \<Rightarrow> False
   | Some (calls', ctr') \<Rightarrow>
       ids_given False (tool_memory_empty 1 100) 0
         [\<lparr>tc_id = [], tc_name = [0x66], tc_arguments = [0x7b, 0x7d]\<rparr>, \<lparr>tc_id = [], tc_name = [0x67], tc_arguments = [0x7b, 0x7d]\<rparr>] calls' \<and>
       (list_all (\<lambda>c. tc_id c = []) [\<lparr>tc_id = [], tc_name = [0x66], tc_arguments = [0x7b, 0x7d]\<rparr>, \<lparr>tc_id = [], tc_name = [0x67], tc_arguments = [0x7b, 0x7d]\<rparr>] \<longrightarrow>
         distinct (map tc_id calls'))"
proof (rule ids_assigned_fresh [where N = 4])
  show "inj_on (drawn False (\<lambda>c. (7, 8, 9)) c) {..<4}" for c
    by (rule steady_clock_distinct) simp_all
  show "memory_run [] (tool_memory_empty 1 100) = Some ([], tool_memory_empty 1 100)"
    by simp
qed (simp add: tool_memory_max_entries_def tool_memory_empty_def)

end
