(* ===== verification/ToolRestore.thy ===== *)
theory ToolRestore
  imports ToolMap
begin

section \<open>Restoring tool calls from a directory\<close>

text \<open>
  What \<open>kv_cache_restore_tool_memory_for_messages\<close> (\<open>sf37_server.c\<close>, modelled in \<open>ToolMap\<close>) reads from a
  directory: a description of the trailers that uses nothing of the reader but the header of a
  checkpoint, and the theorem that the memory afterwards is that of putting exactly these calls.
\<close>

subsection \<open>What a directory holds\<close>

text \<open>The trailer of a file, described without the reader: a number in four bytes, lowest first, a call as its
  two lengths and its two texts, and the calls of a trailer: as many as it announces, or as many as stand
  in front of the first one that is damaged, too long or cut off. A trailer that announces more than four
  times the calls the memory may hold counts as none.\<close>

definition le32 :: "nat \<Rightarrow> bytes" where
  "le32 n = map (\<lambda>k. of_nat (n div 256 ^ k)) [0..<4]"

definition call_record :: "bytes \<times> bytes \<Rightarrow> bytes" where
  "call_record = (\<lambda>(i, d). le32 (length i) @ le32 (length d) @ i @ d)"

definition record_fits :: "bytes \<times> bytes \<Rightarrow> bool" where
  "record_fits = (\<lambda>(i, d). 0 < length i \<and> length i \<le> 256 \<and> 0 < length d \<and> length d \<le> SF37_TOOL_MEMORY_MAX_BYTES)"

definition records_of :: "nat \<Rightarrow> bytes \<Rightarrow> (bytes \<times> bytes) list \<Rightarrow> bool" where
  "records_of n fp cs \<longleftrightarrow> length cs \<le> n \<and> list_all record_fits cs \<and>
     (\<exists>rest. fp = concat (map call_record cs) @ rest \<and> (length cs = n \<or> \<not> (\<exists>c. record_fits c \<and> prefix (call_record c) rest)))"

definition trailer_head :: "nat \<Rightarrow> bytes" where
  "trailer_head n = cstr ''KTM'' @ [1] @ le32 n"

definition trailer_calls :: "int \<Rightarrow> bytes \<Rightarrow> (bytes \<times> bytes) list \<Rightarrow> bool" where
  "trailer_calls max_entries fp cs \<longleftrightarrow>
     (if \<exists>n. n < 2 ^ 32 \<and> int n \<le> max_entries * 4 \<and> prefix (trailer_head n) fp
      then \<exists>n fp'. n < 2 ^ 32 \<and> fp = trailer_head n @ fp' \<and> records_of n fp' cs
      else cs = [])"

text \<open>A file counts when it has the name and the header of a checkpoint of this model with a trailer; the
  trailer stands behind the text and the payload.\<close>

definition file_calls :: "int \<Rightarrow> kv_os \<Rightarrow> bytes \<Rightarrow> bytes \<Rightarrow> (bytes \<times> bytes) list \<Rightarrow> bool" where
  "file_calls max_entries os dir name cs \<longleftrightarrow>
     (case (sf37_kvstore_sha_hex_name name, Option.bind (os_read os (sf37_kvstore_path_join dir name)) (\<lambda>fp. sf37_kvstore_read_header fp kv_entry_zero)) of
        (Some sha, Some (hdr, text_bytes, fp)) \<Rightarrow>
          let skip = unat (ucast text_bytes + ke_payload_bytes hdr)
          in if ke_model_id hdr = 37 \<and> ke_ext_flags hdr AND KV_EXT_TOOL_MAP \<noteq> 0 \<and> skip < 2 ^ 63
             then trailer_calls max_entries (drop skip fp) cs else cs = []
      | _ \<Rightarrow> cs = [])"

text \<open>The ids the messages of a request name, and the puts of the calls among them.\<close>

definition message_ids :: "chat_msg list \<Rightarrow> bytes set" where
  "message_ids msgs = (\<Union>m\<in>set msgs. {cm_tool_call_id m} \<union> set (cm_tool_call_ids m) \<union> tc_id ` set (tcs_v (cm_calls m))) - {[]}"

definition disk_puts :: "bytes set \<Rightarrow> (bytes \<times> bytes) list \<Rightarrow> memory_op list" where
  "disk_puts ids cs = map (\<lambda>(i, d). PutText (until_nul i) (until_nul d) TOOL_MEMORY_DISK) (filter (\<lambda>(i, d). until_nul i \<in> ids) cs)"

subsection \<open>The loader reads it\<close>

lemma ucast_byte_digit: "(ucast (drop_bit k (of_nat n :: u32)) :: byte) = of_nat (n div 2 ^ k)" if "n < 2 ^ 32"
proof -
  have n: "unat (of_nat n :: u32) = n"
    using that by (simp add: unat_of_nat)
  have "unat (drop_bit k (of_nat n :: u32)) = n div 2 ^ k"
    by (subst unat_drop_bit_eq) (simp only: n drop_bit_eq_div)
  then have "unat (ucast (drop_bit k (of_nat n :: u32)) :: byte) = unat (of_nat (n div 2 ^ k) :: byte)"
    by (simp add: unsigned_ucast_eq take_bit_eq_mod unat_of_nat)
  then show ?thesis
    by (simp only: word_unat_eq_iff)
qed

lemma le32_put: "n < 2 ^ 32 \<Longrightarrow> sf37_kvstore_le_put32 (of_nat n) = le32 n"
  using ucast_byte_digit [of n 0] ucast_byte_digit [of n 8] ucast_byte_digit [of n 16] ucast_byte_digit [of n 24]
  by (simp add: sf37_kvstore_le_put32_def le32_def upt_rec)

lemma length_le32 [simp]: "length (le32 n) = 4"
  by (simp add: le32_def)

lemma le32_get: "4 \<le> length fp \<Longrightarrow> fp = le32 (unat (sf37_kvstore_le_get32 fp)) @ drop 4 fp"
proof -
  assume "4 \<le> length fp"
  then obtain b0 b1 b2 b3 r where fp: "fp = b0 # b1 # b2 # b3 # r"
    by (auto simp: numeral_eq_Suc Suc_le_length_iff)
  have small: "\<not> bit b k" if "8 \<le> k" for b :: byte and k
    using bit_imp_le_length [of b k] that by auto
  have "sf37_kvstore_le_put32 (sf37_kvstore_le_get32 fp) = [b0, b1, b2, b3]"
    by (auto simp: fp small sf37_kvstore_le_put32_def sf37_kvstore_le_get32_def bit_simps intro!: bit_word_eqI)
  moreover have "unat (sf37_kvstore_le_get32 fp) < 2 ^ 32"
    using unsigned_less [of "sf37_kvstore_le_get32 fp"] by simp
  ultimately show ?thesis
    using le32_put [of "unat (sf37_kvstore_le_get32 fp)"] by (simp add: fp)
qed

lemma get_le32: "n < 2 ^ 32 \<Longrightarrow> unat (sf37_kvstore_le_get32 (le32 n @ r)) = n"
  using le_get_put32 [of "of_nat n" r] by (simp add: le32_put unat_of_nat)

text \<open>A fitting record in front is what the reader's tests see.\<close>

lemma record_in_front:
  assumes "prefix (call_record c) fp" and "record_fits c"
  shows "8 \<le> length fp" "unat (sf37_kvstore_le_get32 fp) = length (fst c)" "unat (sf37_kvstore_le_get32 (drop 4 fp)) = length (snd c)"
    "length (fst c) + length (snd c) \<le> length (drop 8 fp)" "take (length (fst c)) (drop 8 fp) = fst c"
    "take (length (snd c)) (drop (length (fst c)) (drop 8 fp)) = snd c" "drop (length (fst c) + length (snd c)) (drop 8 fp) = drop (length (call_record c)) fp"
proof -
  obtain i d where c: "c = (i, d)"
    by (cases c)
  obtain r where fp: "fp = le32 (length i) @ le32 (length d) @ i @ d @ r"
    using assms(1) by (auto simp: call_record_def c elim: prefixE)
  have "length i < 2 ^ 32" "length d < 2 ^ 32"
    using assms(2) by (simp_all add: record_fits_def c SF37_TOOL_MEMORY_MAX_BYTES_def)
  then have "unat (sf37_kvstore_le_get32 fp) = length i" "unat (sf37_kvstore_le_get32 (drop 4 fp)) = length d"
    using get_le32 [of "length i" "le32 (length d) @ i @ d @ r"] get_le32 [of "length d" "i @ d @ r"] by (simp_all add: fp)
  then show "8 \<le> length fp" "unat (sf37_kvstore_le_get32 fp) = length (fst c)" "unat (sf37_kvstore_le_get32 (drop 4 fp)) = length (snd c)"
    "length (fst c) + length (snd c) \<le> length (drop 8 fp)" "take (length (fst c)) (drop 8 fp) = fst c"
    "take (length (snd c)) (drop (length (fst c)) (drop 8 fp)) = snd c" "drop (length (fst c) + length (snd c)) (drop 8 fp) = drop (length (call_record c)) fp"
    by (simp_all add: c fp call_record_def)
qed

lemma record_seen:
  assumes "8 \<le> length fp" and "i_len = unat (sf37_kvstore_le_get32 fp)" and "d_len = unat (sf37_kvstore_le_get32 (drop 4 fp))"
    and "\<not> (i_len = 0 \<or> i_len > 256 \<or> d_len = 0 \<or> d_len > SF37_TOOL_MEMORY_MAX_BYTES)" and "\<not> length (drop 8 fp) < i_len + d_len"
  defines "c \<equiv> (take i_len (drop 8 fp), take d_len (drop i_len (drop 8 fp)))"
  shows "record_fits c" "fp = call_record c @ drop (i_len + d_len) (drop 8 fp)"
proof -
  have "fp = le32 i_len @ le32 d_len @ drop 8 fp"
    using le32_get [of fp] le32_get [of "drop 4 fp"] assms(1-3) by (simp add: drop_drop)
  moreover have "drop 8 fp = take i_len (drop 8 fp) @ take d_len (drop i_len (drop 8 fp)) @ drop (i_len + d_len) (drop 8 fp)"
    by (metis append_take_drop_id drop_drop add.commute)
  ultimately show "fp = call_record c @ drop (i_len + d_len) (drop 8 fp)"
    using assms(1,5) by (simp add: call_record_def c_def min_absorb2 del: drop_drop)
  show "record_fits c"
    using assms(1,4,5) by (auto simp: record_fits_def c_def min_def)
qed

lemma run_put:
  assumes "tm_rel m V" and "within_limits m" and "tool_memory_max_entries m = N" and "tool_memory_max_bytes m = B"
  shows "\<exists>m'. tool_memory_put_source False i d s m = Some m' \<and> tm_rel m' (spec_put N B i d s V) \<and> within_limits m' \<and> same_limits m m'"
proof (cases "i = [] \<or> d = []")
  case True
  then show ?thesis
    using assms by (auto simp: tool_memory_put_source_def spec_put_def same_limits_def)
next
  case False
  have "\<exists>m'. memory_run [PutText i d s] m = Some ([], m') \<and> tm_rel m' (spec_put N B i d s V) \<and> within_limits m' \<and> same_limits m m'"
    using memory_run_rel [OF assms, of "[PutText i d s]"] by simp
  then show ?thesis
    using False by (auto simp: tool_memory_put_source_def bind_eq_Some_conv)
qed

lemma spec_run_puts:
  "spec_run n b (disk_puts ids ((i, d) # cs)) V =
     spec_run n b (disk_puts ids cs) (if until_nul i \<in> ids then spec_put n b (until_nul i) (until_nul d) TOOL_MEMORY_DISK V else V)"
  by (simp add: disk_puts_def)

lemma load_loop_calls:
  assumes "\<And>i. id_list_contains wanted i \<longleftrightarrow> i \<in> ids"
  shows "tm_rel m V \<Longrightarrow> within_limits m \<Longrightarrow> tool_memory_max_entries m = N \<Longrightarrow> tool_memory_max_bytes m = B \<Longrightarrow>
    \<exists>cs k m'. records_of n fp cs \<and> load_loop n fp (Some wanted) loaded m = Some (k, m') \<and>
      tm_rel m' (snd (spec_run N B (disk_puts ids cs) V)) \<and> within_limits m' \<and> same_limits m m'"
proof (induction n arbitrary: fp loaded m V)
  case 0
  then show ?case
    by (intro exI [of _ "[]"]) (simp add: records_of_def disk_puts_def same_limits_def)
next
  case (Suc n)
  define i_len where "i_len = unat (sf37_kvstore_le_get32 fp)"
  define d_len where "d_len = unat (sf37_kvstore_le_get32 (drop 4 fp))"
  define bad where "bad \<longleftrightarrow> length fp < 8 \<or> (i_len = 0 \<or> i_len > 256 \<or> d_len = 0 \<or> d_len > SF37_TOOL_MEMORY_MAX_BYTES) \<or> length (drop 8 fp) < i_len + d_len"
  show ?case
  proof (cases bad)
    case True
    have "\<not> (\<exists>c. record_fits c \<and> prefix (call_record c) fp)"
    proof
      assume "\<exists>c. record_fits c \<and> prefix (call_record c) fp"
      then obtain c where c: "record_fits c" "prefix (call_record c) fp"
        by blast
      from record_in_front [OF c(2,1)] c(1) True show False
        by (cases c) (simp add: bad_def i_len_def d_len_def record_fits_def)
    qed
    moreover have "load_loop (Suc n) fp (Some wanted) loaded m = Some (loaded, m)"
      using True by (auto simp: bad_def i_len_def d_len_def Let_def)
    ultimately show ?thesis
      using Suc.prems by (intro exI [of _ "[]"]) (simp add: records_of_def disk_puts_def same_limits_def)
  next
    case False
    define i where "i = take i_len (drop 8 fp)"
    define d where "d = take d_len (drop i_len (drop 8 fp))"
    define fp' where "fp' = drop (i_len + d_len) (drop 8 fp)"
    have c: "record_fits (i, d)" "fp = call_record (i, d) @ fp'"
      using record_seen [of fp i_len d_len] False by (simp_all add: bad_def i_def d_def fp'_def i_len_def d_len_def)
    define V' where "V' = (if until_nul i \<in> ids then spec_put N B (until_nul i) (until_nul d) TOOL_MEMORY_DISK V else V)"
    obtain m1 l1 where m1: "load_loop (Suc n) fp (Some wanted) loaded m = load_loop n fp' (Some wanted) l1 m1" "tm_rel m1 V'" "within_limits m1" "same_limits m m1"
    proof (cases "until_nul i \<in> ids")
      case True
      obtain m1 where "tool_memory_put_source False (until_nul i) (until_nul d) TOOL_MEMORY_DISK m = Some m1"
          "tm_rel m1 V'" "within_limits m1" "same_limits m m1"
        using run_put [OF Suc.prems, of "until_nul i" "until_nul d" TOOL_MEMORY_DISK] True unfolding V'_def by auto
      moreover from this have "load_loop (Suc n) fp (Some wanted) loaded m = load_loop n fp' (Some wanted) (loaded + 1) m1"
        using False True assms by (auto simp: bad_def i_len_def d_len_def Let_def i_def d_def fp'_def)
      ultimately show thesis
        using that by blast
    next
      case no: False
      then have "load_loop (Suc n) fp (Some wanted) loaded m = load_loop n fp' (Some wanted) loaded m"
        using False assms by (auto simp: bad_def i_len_def d_len_def Let_def i_def d_def fp'_def)
      then show thesis
        using that Suc.prems no by (simp add: V'_def same_limits_def)
    qed
    obtain cs k m' where m': "records_of n fp' cs" "load_loop n fp' (Some wanted) l1 m1 = Some (k, m')"
        "tm_rel m' (snd (spec_run N B (disk_puts ids cs) V'))" "within_limits m'" "same_limits m1 m'"
      using Suc.IH [OF m1(2,3), of fp' l1] limits_same [OF m1(4)] Suc.prems(3,4) by auto
    have "records_of (Suc n) fp ((i, d) # cs)"
      using m'(1) c by (auto simp: records_of_def)
    then show ?thesis
      using m1(1,4) m'(2-5) by (intro exI [of _ "(i, d) # cs"]) (auto simp: spec_run_puts V'_def same_limits_def)
  qed
qed

lemma trailer_head_unique:
  assumes "n < 2 ^ 32" and "fp = trailer_head n @ r"
  shows "8 \<le> length fp" "take 4 fp = KV_TOOL_MAP_MAGIC" "unat (sf37_kvstore_le_get32 (drop 4 fp)) = n" "drop 8 fp = r"
  using get_le32 [OF assms(1), of r] by (simp_all add: assms(2) trailer_head_def KV_TOOL_MAP_MAGIC_def)

lemma trailer_head_seen:
  assumes "8 \<le> length fp" and "take 4 fp = KV_TOOL_MAP_MAGIC"
  shows "fp = trailer_head (unat (sf37_kvstore_le_get32 (drop 4 fp))) @ drop 8 fp"
proof -
  have "fp = take 4 fp @ drop 4 fp"
    by simp
  also have "\<dots> = KV_TOOL_MAP_MAGIC @ le32 (unat (sf37_kvstore_le_get32 (drop 4 fp))) @ drop 8 fp"
    using le32_get [of "drop 4 fp"] assms by (simp add: drop_drop)
  finally show ?thesis
    by (simp add: trailer_head_def KV_TOOL_MAP_MAGIC_def)
qed

lemma load_calls:
  assumes "\<And>i. id_list_contains wanted i \<longleftrightarrow> i \<in> ids"
    and "tm_rel m V" and "within_limits m" and "tool_memory_max_entries m = N" and "tool_memory_max_bytes m = B"
  shows "\<exists>cs k m'. trailer_calls N fp cs \<and> kv_tool_map_load_from_pos False fp (Some wanted) m = Some (k, m') \<and>
      tm_rel m' (snd (spec_run N B (disk_puts ids cs) V)) \<and> within_limits m' \<and> same_limits m m'"
proof -
  define n where "n = unat (sf37_kvstore_le_get32 (drop 4 fp))"
  have n: "n < 2 ^ 32"
    using unsigned_less [of "sf37_kvstore_le_get32 (drop 4 fp)"] by (simp add: n_def)
  have u: "uint (sf37_kvstore_le_get32 (drop 4 fp)) = int n"
    by (simp add: n_def)
  have head: "(8 \<le> length fp \<and> take 4 fp = KV_TOOL_MAP_MAGIC \<and> int n \<le> N * 4) \<longleftrightarrow>
      (\<exists>n. n < 2 ^ 32 \<and> int n \<le> N * 4 \<and> prefix (trailer_head n) fp)"
  proof
    assume "8 \<le> length fp \<and> take 4 fp = KV_TOOL_MAP_MAGIC \<and> int n \<le> N * 4"
    then show "\<exists>n. n < 2 ^ 32 \<and> int n \<le> N * 4 \<and> prefix (trailer_head n) fp"
      using trailer_head_seen [of fp] n unfolding n_def [symmetric] by (intro exI [of _ n]) (metis prefixI)
  next
    assume "\<exists>n. n < 2 ^ 32 \<and> int n \<le> N * 4 \<and> prefix (trailer_head n) fp"
    then obtain n' r where "n' < 2 ^ 32" "int n' \<le> N * 4" "fp = trailer_head n' @ r"
      by (auto elim: prefixE)
    then show "8 \<le> length fp \<and> take 4 fp = KV_TOOL_MAP_MAGIC \<and> int n \<le> N * 4"
      using trailer_head_unique [of n' fp r] by (simp add: n_def)
  qed
  show ?thesis
  proof (cases "8 \<le> length fp \<and> take 4 fp = KV_TOOL_MAP_MAGIC \<and> int n \<le> N * 4")
    case True
    obtain cs k m' where m': "records_of n (drop 8 fp) cs" "load_loop n (drop 8 fp) (Some wanted) 0 m = Some (k, m')"
        "tm_rel m' (snd (spec_run N B (disk_puts ids cs) V))" "within_limits m'" "same_limits m m'"
      using load_loop_calls [OF assms, of n "drop 8 fp" 0] by blast
    have "trailer_calls N fp cs"
      using head True m'(1) n trailer_head_seen [of fp] unfolding trailer_calls_def n_def [symmetric] by auto
    moreover have "kv_tool_map_load_from_pos False fp (Some wanted) m = Some (k, m')"
      using True m'(2) assms(4) u by (simp add: kv_tool_map_load_from_pos_def KV_TOOL_MAP_HEADER_def n_def [symmetric])
    ultimately show ?thesis
      using m'(3-5) by blast
  next
    case False
    have "trailer_calls N fp []"
      unfolding trailer_calls_def head [symmetric] by (simp only: False if_False)
    moreover have "kv_tool_map_load_from_pos False fp (Some wanted) m = Some (0, m)"
      using False assms(4) u by (auto simp: kv_tool_map_load_from_pos_def KV_TOOL_MAP_HEADER_def Let_def)
    ultimately show ?thesis
      using assms(2,3) by (intro exI [of _ "[]"] exI [of _ 0] exI [of _ m]) (simp add: disk_puts_def same_limits_def)
  qed
qed

lemma restore_file_calls:
  assumes "\<And>i. id_list_contains wanted i \<longleftrightarrow> i \<in> ids"
    and "tm_rel m V" and "within_limits m" and "tool_memory_max_entries m = N" and "tool_memory_max_bytes m = B"
  shows "\<exists>cs m'. file_calls N os dir name cs \<and> restore_file os dir wanted name m = Some m' \<and>
      tm_rel m' (snd (spec_run N B (disk_puts ids cs) V)) \<and> within_limits m' \<and> same_limits m m'"
proof -
  have idle: ?thesis if "file_calls N os dir name []" "restore_file os dir wanted name m = Some m"
    using that assms(2,3) by (intro exI [of _ "[]"] exI [of _ m]) (simp add: disk_puts_def same_limits_def)
  show ?thesis
  proof (cases "\<exists>sha hdr text_bytes fp. sf37_kvstore_sha_hex_name name = Some sha \<and>
      Option.bind (os_read os (sf37_kvstore_path_join dir name)) (\<lambda>fp. sf37_kvstore_read_header fp kv_entry_zero) = Some (hdr, text_bytes, fp) \<and>
      ke_model_id hdr = 37 \<and> ke_ext_flags hdr AND KV_EXT_TOOL_MAP \<noteq> 0 \<and> unat (ucast text_bytes + ke_payload_bytes hdr) < 2 ^ 63")
    case True
    then obtain sha hdr text_bytes fp where f: "sf37_kvstore_sha_hex_name name = Some sha"
        "Option.bind (os_read os (sf37_kvstore_path_join dir name)) (\<lambda>fp. sf37_kvstore_read_header fp kv_entry_zero) = Some (hdr, text_bytes, fp)"
        "ke_model_id hdr = 37" "ke_ext_flags hdr AND KV_EXT_TOOL_MAP \<noteq> 0" "unat (ucast text_bytes + ke_payload_bytes hdr) < 2 ^ 63"
      by blast
    obtain cs k m' where m': "trailer_calls N (drop (unat (ucast text_bytes + ke_payload_bytes hdr)) fp) cs"
        "kv_tool_map_load_from_pos False (drop (unat (ucast text_bytes + ke_payload_bytes hdr)) fp) (Some wanted) m = Some (k, m')"
        "tm_rel m' (snd (spec_run N B (disk_puts ids cs) V))" "within_limits m'" "same_limits m m'"
      using load_calls [OF assms] by blast
    have "file_calls N os dir name cs"
      using f m'(1) by (simp add: file_calls_def Let_def)
    moreover have "restore_file os dir wanted name m = Some m'"
      using f m'(2) by (auto simp: restore_file_def Let_def bind_eq_Some_conv)
    ultimately show ?thesis
      using m'(3-5) by blast
  next
    case False
    have bound: "x \<le> 2 ^ 63 - 1 \<longleftrightarrow> x < (2 ^ 63 :: nat)" for x
      by auto
    have parts: "file_calls N os dir name [] \<and> restore_file os dir wanted name m = Some m"
    proof (cases "Option.bind (os_read os (sf37_kvstore_path_join dir name)) (\<lambda>fp. sf37_kvstore_read_header fp kv_entry_zero)")
      case None
      then show ?thesis
        by (auto simp: file_calls_def restore_file_def Option.bind_eq_None_conv split: option.split)
    next
      case (Some r)
      obtain hdr text_bytes fp where r: "r = (hdr, text_bytes, fp)"
        by (cases r)
      obtain fp0 where fp0: "os_read os (sf37_kvstore_path_join dir name) = Some fp0" "sf37_kvstore_read_header fp0 kv_entry_zero = Some (hdr, text_bytes, fp)"
        using Some r by (auto simp: bind_eq_Some_conv)
      show ?thesis
        using False fp0 unfolding file_calls_def restore_file_def Let_def bound
        by (cases "sf37_kvstore_sha_hex_name name") auto
    qed
    show ?thesis
      by (rule idle) (simp_all add: parts)
  qed
qed

lemma spec_run_append: "snd (spec_run n b (xs @ ys) V) = snd (spec_run n b ys (snd (spec_run n b xs V)))"
  by (induction n b xs V rule: spec_run.induct) (auto split: prod.splits)

lemma restore_files_calls:
  assumes "\<And>i. id_list_contains wanted i \<longleftrightarrow> i \<in> ids"
  shows "tm_rel m V \<Longrightarrow> within_limits m \<Longrightarrow> tool_memory_max_entries m = N \<Longrightarrow> tool_memory_max_bytes m = B \<Longrightarrow>
    \<exists>css m'. list_all2 (file_calls N os dir) names css \<and> restore_files os dir wanted names m = Some m' \<and>
      tm_rel m' (snd (spec_run N B (disk_puts ids (concat css)) V)) \<and> within_limits m' \<and> same_limits m m'"
proof (induction names arbitrary: m V)
  case Nil
  then show ?case
    by (simp add: disk_puts_def same_limits_def)
next
  case (Cons name names)
  obtain cs m1 where m1: "file_calls N os dir name cs" "restore_file os dir wanted name m = Some m1"
      "tm_rel m1 (snd (spec_run N B (disk_puts ids cs) V))" "within_limits m1" "same_limits m m1"
    using restore_file_calls [OF assms Cons.prems] by blast
  obtain css m' where m': "list_all2 (file_calls N os dir) names css" "restore_files os dir wanted names m1 = Some m'"
      "tm_rel m' (snd (spec_run N B (disk_puts ids (concat css)) (snd (spec_run N B (disk_puts ids cs) V))))" "within_limits m'" "same_limits m1 m'"
    using Cons.IH [OF m1(3,4)] limits_same [OF m1(5)] Cons.prems(3,4) by auto
  have "disk_puts ids (cs @ concat css) = disk_puts ids cs @ disk_puts ids (concat css)"
    by (simp add: disk_puts_def)
  then show ?case
    using m1 m' by (intro exI [of _ "cs # css"] exI [of _ m']) (auto simp: spec_run_append same_limits_def)
qed

lemma push_unique_contains: "id_list_contains (id_list_push_unique ids x) i \<longleftrightarrow> id_list_contains ids i \<or> (i = x \<and> x \<noteq> [])"
  by (auto simp: id_list_push_unique_def id_list_contains_def stop_list_push_def list_ex_iff)

lemma push_all_contains: "id_list_contains (foldl id_list_push_unique ids xs) i \<longleftrightarrow> id_list_contains ids i \<or> (i \<in> set xs \<and> i \<noteq> [])"
  by (induction xs arbitrary: ids) (auto simp: push_unique_contains)

lemma collect_contains:
  "id_list_contains (collect_tool_call_ids msgs ids) i \<longleftrightarrow> id_list_contains ids i \<or> i \<in> message_ids msgs"
proof (induction msgs arbitrary: ids)
  case Nil
  then show ?case
    by (simp add: collect_tool_call_ids_def message_ids_def)
next
  case (Cons msg msgs)
  show ?case
    using Cons [of "foldl id_list_push_unique (chat_msg_collect_tool_call_ids msg ids) (map tc_id (tcs_v (cm_calls msg)))"]
    by (auto simp: collect_tool_call_ids_def chat_msg_collect_tool_call_ids_def message_ids_def push_all_contains push_unique_contains)
qed

text \<open>C25: Restoring the calls of a request reads exactly the trailers of the checkpoint files, whatever the
  directory holds: the memory afterwards is that of putting, file by file, the calls of every trailer up to
  its first damaged record whose ids the messages of the request name, and nothing else; a file with another
  name, header or model, a trailer that announces too many calls, and a damaged or oversized record with
  all that follows it change nothing. No freed pointer is followed, and the memory stays within its limits.\<close>

theorem restore_reads_trailers:
  assumes "memory_run ops (tool_memory_empty n b) = Some (rs, m)"
    and "N = tool_memory_max_entries (tool_memory_empty n b)" and "B = tool_memory_max_bytes (tool_memory_empty n b)"
  shows "\<exists>css m'.
    list_all2 (file_calls N os (kc_dir kc))
      (if disabled \<or> \<not> kc_enabled kc \<or> os_fail os (Opendir (kc_dir kc)) then [] else os_readdir os (kc_dir kc)) css \<and>
    kv_cache_restore_tool_memory_for_messages disabled os kc msgs m = Some m' \<and>
    tm_entries m' \<le> N \<and> tm_bytes m' \<le> B \<and>
    (\<forall>i. recalled i m' = Some (map_of (snd (spec_run N B (ops @ disk_puts (message_ids msgs) (concat css)) [])) i))"
proof -
  define V where "V = snd (spec_run N B ops [])"
  have V: "tm_rel m V" "within_limits m" "tool_memory_max_entries m = N" "tool_memory_max_bytes m = B"
    using memory_run_rel [OF empty_rel empty_within refl refl, of ops n b] assms limits_same by (auto simp: V_def)
  define wanted where "wanted = collect_tool_call_ids msgs \<lparr>sl_v = [], sl_max_len = 0\<rparr>"
  have ids: "id_list_contains wanted i \<longleftrightarrow> i \<in> message_ids msgs" for i
    by (simp add: wanted_def collect_contains) (simp add: id_list_contains_def)
  define names where "names = (if disabled \<or> \<not> kc_enabled kc \<or> os_fail os (Opendir (kc_dir kc)) then [] else os_readdir os (kc_dir kc))"
  obtain css m1 where m1: "list_all2 (file_calls N os (kc_dir kc)) names css" "restore_files os (kc_dir kc) wanted names m = Some m1"
      "tm_rel m1 (snd (spec_run N B (disk_puts (message_ids msgs) (concat css)) V))" "within_limits m1" "same_limits m m1"
    using restore_files_calls [OF ids V] by blast
  obtain m' where m': "kv_cache_restore_tool_memory_for_messages disabled os kc msgs m = Some m'"
      "tm_rel m' (snd (spec_run N B (disk_puts (message_ids msgs) (concat css)) V))" "within_limits m'" "same_limits m m'"
  proof (cases "sl_v wanted = []")
    case True
    then have "message_ids msgs = {}"
      using ids by (auto simp: id_list_contains_def)
    then have "disk_puts (message_ids msgs) (concat css) = []"
      by (simp add: disk_puts_def)
    moreover have "kv_cache_restore_tool_memory_for_messages disabled os kc msgs m = Some m"
      using True by (simp add: kv_cache_restore_tool_memory_for_messages_def wanted_def Let_def)
    ultimately show thesis
      using that V by (simp add: same_limits_def)
  next
    case False
    then have "kv_cache_restore_tool_memory_for_messages disabled os kc msgs m = restore_files os (kc_dir kc) wanted names m"
      by (simp add: kv_cache_restore_tool_memory_for_messages_def wanted_def names_def Let_def)
    then show thesis
      using that m1(2-5) by simp
  qed
  have "recalled i m' = Some (map_of (snd (spec_run N B (ops @ disk_puts (message_ids msgs) (concat css)) [])) i)" for i
    using recalled_view [OF m'(2)] by (simp add: spec_run_append V_def)
  then show ?thesis
    using m1(1) m'(1,3) limits_same [OF m'(4)] V(3,4) unfolding names_def [symmetric] by (auto simp: within_limits_def)
qed

text \<open>The description determines the calls of a file.\<close>

lemma record_unique:
  "prefix (call_record c) fp \<Longrightarrow> prefix (call_record c') fp \<Longrightarrow> record_fits c \<Longrightarrow> record_fits c' \<Longrightarrow> c = c'"
  using record_in_front [of c fp] record_in_front [of c' fp] by (metis prod.collapse)

lemma records_unique: "records_of n fp cs \<Longrightarrow> records_of n fp cs' \<Longrightarrow> cs = cs'"
proof (induction cs arbitrary: n fp cs')
  case Nil
  show ?case
  proof (cases cs')
    case (Cons c cs'')
    then have "record_fits c" "prefix (call_record c) fp" "n \<noteq> 0"
      using Nil.prems(2) by (auto simp: records_of_def)
    then show ?thesis
      using Nil.prems(1) by (cases c) (auto simp: records_of_def)
  qed simp
next
  case (Cons c cs)
  have c: "record_fits c" "prefix (call_record c) fp" "n \<noteq> 0"
    using Cons.prems(1) by (auto simp: records_of_def)
  show ?case
  proof (cases cs')
    case Nil
    then show ?thesis
      using Cons.prems(2) c by (cases c) (auto simp: records_of_def)
  next
    case (Cons c' cs'')
    then have "record_fits c'" "prefix (call_record c') fp"
      using Cons.prems(2) by (auto simp: records_of_def)
    then have c': "c' = c"
      using record_unique [of c' fp c] c by blast
    obtain rest where fp: "fp = call_record c @ rest"
      using c(2) by (auto elim: prefixE)
    have "records_of (n - 1) rest cs" "records_of (n - 1) rest cs''"
      using Cons.prems c(3) unfolding Cons c' by (auto simp: records_of_def fp)
    then show ?thesis
      using Cons.IH Cons c' by blast
  qed
qed

lemma trailer_unique: "trailer_calls N fp cs \<Longrightarrow> trailer_calls N fp cs' \<Longrightarrow> cs = cs'"
proof (cases "\<exists>n. n < 2 ^ 32 \<and> int n \<le> N * 4 \<and> prefix (trailer_head n) fp")
  case True
  assume calls: "trailer_calls N fp cs" "trailer_calls N fp cs'"
  have parts: "\<exists>n r. n < 2 ^ 32 \<and> fp = trailer_head n @ r \<and> records_of n r xs" if "trailer_calls N fp xs" for xs
    using that unfolding trailer_calls_def by (simp only: True if_True)
  obtain n r where n: "n < 2 ^ 32" "fp = trailer_head n @ r" "records_of n r cs"
    using parts [OF calls(1)] by blast
  obtain n' r' where n': "n' < 2 ^ 32" "fp = trailer_head n' @ r'" "records_of n' r' cs'"
    using parts [OF calls(2)] by blast
  have "n' = n" "r' = r"
    using trailer_head_unique [OF n(1,2)] trailer_head_unique [OF n'(1,2)] by simp_all
  then show ?thesis
    using records_unique [of n r cs cs'] n(3) n'(3) by simp
next
  case False
  assume "trailer_calls N fp cs" "trailer_calls N fp cs'"
  then show ?thesis
    using False unfolding trailer_calls_def by (simp only: if_False)
qed

lemma file_unique: "file_calls N os dir name cs \<Longrightarrow> file_calls N os dir name cs' \<Longrightarrow> cs = cs'"
  using trailer_unique [of N _ cs cs'] unfolding file_calls_def Let_def by (auto split: option.splits prod.splits if_splits)

text \<open>The example: a checkpoint file whose trailer holds one call, and a message that names it.\<close>

definition demo_trailer :: bytes where
  "demo_trailer = trailer_head 1 @ call_record ([97], [98])"

definition demo_name :: bytes where
  "demo_name = replicate 40 0x61 @ cstr ''.kv''"

definition demo_dir :: kv_os where
  "demo_dir = \<lparr>os_files = [(cstr ''d/'' @ demo_name, sf37_kvstore_fill_header 37 SF37_KVSTORE_QUANT_BITS 0 KV_EXT_TOOL_MAP 1 0 0 0 0 0 @
       sf37_kvstore_le_put32 0 @ demo_trailer)],
     os_time = 0, os_pid_text = [], os_fail = (\<lambda>_. False)\<rparr>"

definition demo_message :: chat_msg where
  "demo_message = \<lparr>cm_role = None, cm_name = None, cm_content = None, cm_reasoning = None, cm_tool_call_id = [97], cm_tool_call_ids = [],
     cm_calls = \<lparr>tcs_v = [], tcs_raw_dsml = None\<rparr>\<rparr>"

lemma demo_dir_read: "os_readdir demo_dir (cstr ''d'') = [demo_name]"
    "os_read demo_dir (sf37_kvstore_path_join (cstr ''d'') demo_name) = Some (snd (hd (os_files demo_dir)))"
  by (simp_all add: os_readdir_def os_read_def demo_dir_def demo_name_def sf37_kvstore_path_join_def)

lemma demo_file_calls: "file_calls N demo_dir (cstr ''d'') demo_name [([97], [98])]" if "1 \<le> N"
proof -
  have "records_of 1 (call_record ([97], [98])) [([97], [98])]"
    by (simp add: records_of_def record_fits_def SF37_TOOL_MEMORY_MAX_BYTES_def)
  then have "trailer_calls N demo_trailer [([97], [98])]"
    using that unfolding trailer_calls_def demo_trailer_def by (auto intro!: exI [of _ 1])
  moreover have "sf37_kvstore_sha_hex_name demo_name = Some (replicate 40 0x61)"
    by (simp add: sf37_kvstore_sha_hex_name_def demo_name_def list_all_iff isxdigit_def tolower_def)
  ultimately show ?thesis
    unfolding file_calls_def demo_dir_read by (simp add: demo_dir_def read_fill_header KV_EXT_TOOL_MAP_def)
qed

theorem restore_reads_trailers_witness:
  "\<exists>m'. kv_cache_restore_tool_memory_for_messages False demo_dir (kvstore_zero\<lparr>kc_enabled := True, kc_dir := cstr ''d''\<rparr>) [demo_message]
      (tool_memory_empty 1 1000) = Some m' \<and> recalled [97] m' = Some (Some ([98], TOOL_MEMORY_DISK))"
proof -
  let ?kc = "kvstore_zero\<lparr>kc_enabled := True, kc_dir := cstr ''d''\<rparr>" and ?N = "tool_memory_max_entries (tool_memory_empty 1 1000)"
    and ?B = "tool_memory_max_bytes (tool_memory_empty 1 1000)"
  have N: "?N = 1" "?B = 1000"
    by (simp_all add: tool_memory_max_entries_def tool_memory_max_bytes_def tool_memory_empty_def)
  obtain css m' where m': "list_all2 (file_calls ?N demo_dir (kc_dir ?kc))
        (if False \<or> \<not> kc_enabled ?kc \<or> os_fail demo_dir (Opendir (kc_dir ?kc)) then [] else os_readdir demo_dir (kc_dir ?kc)) css"
      "kv_cache_restore_tool_memory_for_messages False demo_dir ?kc [demo_message] (tool_memory_empty 1 1000) = Some m'"
      "recalled [97] m' = Some (map_of (snd (spec_run ?N ?B ([] @ disk_puts (message_ids [demo_message]) (concat css)) [])) [97])"
    using restore_reads_trailers [of "[]" 1 1000 "[]" "tool_memory_empty 1 1000", OF _ refl refl, of demo_dir ?kc False "[demo_message]"] by auto
  have "\<not> os_fail demo_dir (Opendir (kc_dir ?kc))"
    by (simp add: demo_dir_def)
  then obtain cs where cs: "css = [cs]" "file_calls ?N demo_dir (cstr ''d'') demo_name cs"
    using m'(1) demo_dir_read(1) by (auto simp: list_all2_Cons1 simp del: cstr_simps)
  have "cs = [([97], [98])]"
    using file_unique [OF cs(2) demo_file_calls] N by simp
  then show ?thesis
    using m'(2,3) cs(1) N
    by (simp add: disk_puts_def message_ids_def demo_message_def until_nul_def spec_put_def spec_front_def spec_prune.simps memory_bytes_def
        SIZEOF_ENTRY_def SIZEOF_BLOCK_def)
qed

end
