(* ===== verification/ChatPrompt.thy ===== *)
theory ChatPrompt
  imports ToolText KvSession
begin

section \<open>Prompts and live conversations\<close>

text \<open>
  How the server of \<open>sf37_server.c\<close> writes a conversation into the text of a prompt, and how it goes on
  with the conversation the session already holds: the states it remembers after a generation, the
  check that a request continues one of them, and the choice of the tokens to evaluate. Messages are
  C strings, without NUL; the think mode is whether it is \<open>SF37_THINK_ENABLED\<close>. The locks around the
  remembered states are left out.
\<close>

subsection \<open>Messages\<close>

definition SF37_TOOL_RESPONSE_START :: bytes where "SF37_TOOL_RESPONSE_START = cstr ''<tool_response>''"
definition SF37_TOOL_RESPONSE_END :: bytes where "SF37_TOOL_RESPONSE_END = cstr ''</tool_response>''"

definition text_lines :: "string list \<Rightarrow> bytes" where
  "text_lines ls = concat (map (\<lambda>l. cstr l @ nl) (butlast ls)) @ cstr (last ls)"

definition append_tools_prompt_text :: "bytes \<Rightarrow> bytes" where
  "append_tools_prompt_text tool_schemas =
     (if tool_schemas = [] then []
      else text_lines [''# Tools'', '''', ''You have access to the following functions in JSONSchema format:'', '''', ''<tools>'', ''''] @
        tool_schemas @
        text_lines ['''', ''</tools>'', '''',
          ''If you choose to call a function ONLY reply in the following format with NO suffix:'', '''',
          ''<tool_call>'',
          ''<function=example_function_name>'',
          ''<parameter=example_parameter_1>'',
          ''value_1'',
          ''</parameter>'',
          ''<parameter=example_parameter_2>'',
          ''This is the value for the second parameter'',
          ''that can span'',
          ''multiple lines'',
          ''</parameter>'',
          ''</function>'',
          ''</tool_call>'', '''',
          ''<IMPORTANT>'',
          ''Reminder:'',
          ''- Function calls MUST follow the specified format: an inner <function=...>'',
          ''...'',
          ''</function> block must be nested within <tool_call>'',
          ''...'',
          ''</tool_call> XML tags'',
          ''- Required parameters MUST be specified'',
          ''</IMPORTANT>''])"

fun append_tool_result_text :: "bytes \<Rightarrow> bytes" where
  "append_tool_result_text [] = []"
| "append_tool_result_text (c # s) =
     (if at_lit (c # s) SF37_TOOL_RESPONSE_END \<or> at_lit (c # s) (cstr ''</tool_result>'')
      then cstr ''&lt;'' @ append_tool_result_text s
      else c # append_tool_result_text s)"

definition role_is_system :: "bytes option \<Rightarrow> bool" where
  "role_is_system role \<longleftrightarrow> role = Some (cstr ''system'') \<or> role = Some (cstr ''developer'')"

definition role_is_template_initial_system :: "bytes option \<Rightarrow> bool" where
  "role_is_template_initial_system role = role_is_system role"

definition role_is_tool_result :: "bytes option \<Rightarrow> bool" where
  "role_is_tool_result role \<longleftrightarrow> role = Some (cstr ''tool'') \<or> role = Some (cstr ''function'')"

text \<open>A string that may be missing.\<close>

definition string_or :: "bytes \<Rightarrow> bytes option \<Rightarrow> bytes" where
  "string_or d x = (case x of None \<Rightarrow> d | Some s \<Rightarrow> s)"

definition template_role_name :: "chat_msg \<Rightarrow> nat \<Rightarrow> bytes" where
  "template_role_name m idx =
     (let role = string_or (cstr ''user'') (cm_role m)
      in if role = cstr ''developer'' then cstr ''system''
         else if role = cstr ''system'' \<and> idx > 0 \<and> cm_name m = Some (cstr ''observation'') then cstr ''observation''
         else if role \<noteq> [] then role else cstr ''user'')"

definition message_is_plain_user_query :: "chat_msg \<Rightarrow> bool" where
  "message_is_plain_user_query m =
     (if string_or [] (cm_role m) \<noteq> cstr ''user'' then False
      else let c = string_or [] (cm_content m); start = cstr ''<tool_result>''; end_mark = cstr ''</tool_result>'';
               clen = length c; slen = length start; elen = length end_mark
           in \<not> (clen \<ge> slen + elen \<and> at_lit c start \<and> drop (clen - elen) c = end_mark))"

definition sf37_bos_text :: "sf37_vocab option \<Rightarrow> bytes" where
  "sf37_bos_text e = until_nul (sf37_token_text e (sf37_token_bos e))"

subsection \<open>The prompt\<close>

text \<open>The last message that asks something, or else the last message.\<close>

definition last_query_index :: "chat_msg list \<Rightarrow> int" where
  "last_query_index msgs =
     (case find (\<lambda>i. message_is_plain_user_query (msgs ! i)) (rev [0..<length msgs]) of
        None \<Rightarrow> int (length msgs) - 1 | Some i \<Rightarrow> int i)"

definition im_end :: bytes where
  "im_end = cstr ''<|im_end|>'' @ nl"

definition tool_result_at :: "chat_msg list \<Rightarrow> nat \<Rightarrow> bool" where
  "tool_result_at msgs i \<longleftrightarrow> i < length msgs \<and> role_is_tool_result (cm_role (msgs ! i))"

text \<open>A tool result: a run of them shares one turn. \<open>lo\<close> is where the run may start.\<close>

definition render_tool_result :: "chat_msg list \<Rightarrow> nat \<Rightarrow> nat \<Rightarrow> bytes" where
  "render_tool_result msgs lo i =
     (if i > lo \<and> tool_result_at msgs (i - 1) then [] else cstr ''<|im_start|>tool_response'' @ nl) @
     SF37_TOOL_RESPONSE_START @ append_tool_result_text (string_or [] (cm_content (msgs ! i))) @ SF37_TOOL_RESPONSE_END @
     (if tool_result_at msgs (i + 1) then [] else im_end)"

definition render_other :: "chat_msg \<Rightarrow> nat \<Rightarrow> bytes" where
  "render_other m i = cstr ''<|im_start|>'' @ template_role_name m i @ nl @ string_or [] (cm_content m) @ im_end"

definition render_message :: "chat_msg list \<Rightarrow> tool_schema_order list \<Rightarrow> bool \<Rightarrow> nat \<Rightarrow> bytes" where
  "render_message msgs tool_orders think i =
     (let m = msgs ! i; role = string_or (cstr ''user'') (cm_role m)
      in if i = 0 \<and> role_is_template_initial_system (cm_role (msgs ! 0)) then []
         else if role_is_tool_result (Some role) then render_tool_result msgs 0 i
         else if role = cstr ''assistant'' then
           cstr ''<|im_start|>assistant'' @ nl @
           (if think \<and> int i > last_query_index msgs
            then cstr ''<think>'' @ nl @ string_or [] (cm_reasoning m) @ nl @ cstr ''</think>'' @ nl
            else []) @
           string_or [] (cm_content m) @ append_official_tool_calls_text (cm_calls m) tool_orders @ im_end
         else render_other m i)"

definition assistant_start :: "bool \<Rightarrow> bytes" where
  "assistant_start think = cstr ''<|im_start|>assistant'' @ nl @ (if think then cstr ''<think>'' @ nl else [])"

definition render_system :: "chat_msg list \<Rightarrow> bytes option \<Rightarrow> bytes" where
  "render_system msgs tool_schemas =
     (let schemas = string_or [] tool_schemas;
          system = (if msgs \<noteq> [] \<and> role_is_template_initial_system (cm_role (msgs ! 0))
                    then string_or [] (cm_content (msgs ! 0)) else []);
          system = (if schemas \<noteq> []
                    then (if system \<noteq> [] then system @ nl @ nl else system) @ append_tools_prompt_text schemas
                    else system)
      in if system \<noteq> [] \<or> schemas \<noteq> [] then cstr ''<|im_start|>system'' @ nl @ system @ im_end else [])"

definition render_chat_prompt_text ::
  "sf37_vocab option \<Rightarrow> chat_msg list \<Rightarrow> bytes option \<Rightarrow> tool_schema_order list \<Rightarrow> bool \<Rightarrow> bytes" where
  "render_chat_prompt_text e msgs tool_schemas tool_orders think =
     sf37_bos_text e @ render_system msgs tool_schemas @
     concat (map (render_message msgs tool_orders think) [0..<length msgs]) @ assistant_start think"

definition rendered_prompt_preserves_reasoning :: "chat_msg list \<Rightarrow> bool \<Rightarrow> bool" where
  "rendered_prompt_preserves_reasoning msgs think =
     (if \<not> think then False
      else list_ex (\<lambda>i. string_or (cstr ''user'') (cm_role (msgs ! i)) = cstr ''assistant'' \<and> int i > last_query_index msgs \<and>
             string_or [] (cm_reasoning (msgs ! i)) \<noteq> []) [0..<length msgs])"

text \<open>The part of a prompt behind the tokens of the session.\<close>

definition render_tail_message :: "chat_msg list \<Rightarrow> nat \<Rightarrow> bool \<Rightarrow> nat \<Rightarrow> bytes" where
  "render_tail_message msgs start think i =
     (let m = msgs ! i; role = string_or (cstr ''user'') (cm_role m)
      in if i = 0 \<and> role_is_template_initial_system (Some role) then []
         else if role_is_tool_result (Some role) then render_tool_result msgs start i
         else if role = cstr ''assistant'' then
           cstr ''<|im_start|>assistant'' @ nl @
           (if think \<and> (string_or [] (cm_reasoning m) \<noteq> [] \<or> tcs_v (cm_calls m) \<noteq> [])
            then cstr ''<think>'' @ nl @ string_or [] (cm_reasoning m) @ cstr ''</think>''
            else []) @
           string_or [] (cm_content m) @ append_official_tool_calls_text (cm_calls m) [] @ im_end
         else render_other m i)"

definition render_live_tool_tail :: "chat_msg list \<Rightarrow> nat \<Rightarrow> bool \<Rightarrow> bytes" where
  "render_live_tool_tail msgs start think =
     im_end @ concat (map (render_tail_message msgs start think) [start..<length msgs]) @ assistant_start think"

subsection \<open>Requests\<close>

datatype api_style = API_OPENAI | API_COMPLETIONS | API_RESPONSES | API_ANTHROPIC

text \<open>The parts of a request that the prompt and the live conversations use.\<close>

record request =
  rq_api :: api_style
  rq_prompt :: tokens
  rq_prompt_text :: "bytes option"
  rq_tool_orders :: "tool_schema_order list"
  rq_has_tools :: bool
  rq_reasoning_summary_emit :: bool
  rq_think :: bool
  rq_prompt_preserves_reasoning :: bool
  rq_responses_requires_live_tool_state :: bool
  rq_responses_live_call_ids :: stop_list
  rq_responses_live_suffix_text :: "bytes option"
  rq_anthropic_requires_live_tool_state :: bool
  rq_anthropic_live_call_ids :: stop_list
  rq_anthropic_live_suffix_text :: "bytes option"

definition request_finish_prompt :: "sf37_vocab option \<Rightarrow> request \<Rightarrow> chat_msg list \<Rightarrow> bytes option \<Rightarrow> request" where
  "request_finish_prompt e r msgs tool_schemas =
     (let active_tools = (if rq_has_tools r then tool_schemas else None);
          txt = render_chat_prompt_text e msgs active_tools (rq_tool_orders r) (rq_think r)
      in r\<lparr>rq_prompt_text := Some txt, rq_prompt := sf37_tokenize_rendered_chat e txt (rq_prompt r)\<rparr>)"

definition no_ids :: stop_list where
  "no_ids = \<lparr>sl_v = [], sl_max_len = 0\<rparr>"

definition chat_msg_has_call_id :: "chat_msg \<Rightarrow> bytes \<Rightarrow> bool" where
  "chat_msg_has_call_id m i \<longleftrightarrow>
     i \<noteq> [] \<and> string_or [] (cm_role m) = cstr ''assistant'' \<and> list_ex (\<lambda>c. tc_id c = i) (tcs_v (cm_calls m))"

definition responses_find_prior_call_msg :: "chat_msg list \<Rightarrow> nat \<Rightarrow> bytes \<Rightarrow> chat_msg option" where
  "responses_find_prior_call_msg msgs before i =
     (if i = [] then None else find (\<lambda>m. chat_msg_has_call_id m i) (rev (take before msgs)))"

text \<open>A tool result needs the call it answers: in the messages before it, or in the live state. The
  error is the id that has neither; the flags are whether the live calls and the live reasoning are needed.\<close>

fun validate_ids ::
  "(bytes \<Rightarrow> bool) \<Rightarrow> (bytes \<Rightarrow> chat_msg option) \<Rightarrow> bool \<Rightarrow> bytes list \<Rightarrow> bool \<times> bool \<Rightarrow> bytes + (bool \<times> bool)" where
  "validate_ids live_known prior needs_reasoning [] flags = Inr flags"
| "validate_ids live_known prior needs_reasoning (i # is) flags =
     (case prior i of
        None \<Rightarrow> if \<not> live_known i then Inl i
                else validate_ids live_known prior needs_reasoning is (True, snd flags)
      | Some p \<Rightarrow> validate_ids live_known prior needs_reasoning is
                    (fst flags, snd flags \<or> (needs_reasoning \<and> string_or [] (cm_reasoning p) = [])))"

fun validate_messages ::
  "(bytes \<Rightarrow> bool) \<Rightarrow> (chat_msg \<Rightarrow> bool) \<Rightarrow> chat_msg list \<Rightarrow> bool \<Rightarrow> nat list \<Rightarrow> bool \<times> bool \<Rightarrow> bytes + (bool \<times> bool)" where
  "validate_messages live_known is_result msgs needs_reasoning [] flags = Inr flags"
| "validate_messages live_known is_result msgs needs_reasoning (i # is) flags =
     (if \<not> is_result (msgs ! i) then validate_messages live_known is_result msgs needs_reasoning is flags
      else case validate_ids live_known (responses_find_prior_call_msg msgs i) needs_reasoning
                  (sl_v (chat_msg_collect_tool_call_ids (msgs ! i) no_ids)) flags of
             Inl x \<Rightarrow> Inl x
           | Inr flags \<Rightarrow> validate_messages live_known is_result msgs needs_reasoning is flags)"

definition responses_validate_tool_outputs :: "(bytes \<Rightarrow> bool) \<Rightarrow> chat_msg list \<Rightarrow> bool \<Rightarrow> bytes + (bool \<times> bool)" where
  "responses_validate_tool_outputs live_known msgs think =
     validate_messages live_known (\<lambda>m. role_is_tool_result (cm_role m)) msgs think [0..<length msgs] (False, False)"

definition responses_prepare_live_continuation :: "request \<Rightarrow> chat_msg list \<Rightarrow> request" where
  "responses_prepare_live_continuation r msgs =
     (if rq_api r \<noteq> API_RESPONSES \<or> msgs = [] then r
      else let tail_start = length msgs - length (takeWhile (\<lambda>m. role_is_tool_result (cm_role m)) (rev msgs))
      in if tail_start = length msgs then r
         else let r = r\<lparr>rq_responses_live_call_ids := no_ids\<rparr>; assistant = msgs ! (tail_start - 1)
         in if tail_start > 0 \<and> (string_or [] (cm_role assistant) \<noteq> cstr ''assistant'' \<or> tcs_v (cm_calls assistant) = []) then r
            else let ids = (if tail_start > 0 then foldl id_list_push_unique no_ids (map tc_id (tcs_v (cm_calls assistant)))
                            else foldl (\<lambda>ids m. chat_msg_collect_tool_call_ids m ids) no_ids (drop tail_start msgs));
                     r = r\<lparr>rq_responses_live_call_ids := ids\<rparr>
            in if sl_v ids = [] then r
               else r\<lparr>rq_responses_live_suffix_text := Some (render_live_tool_tail msgs tail_start (rq_think r))\<rparr>)"

definition anthropic_msg_is_tool_result_tail :: "chat_msg \<Rightarrow> bool" where
  "anthropic_msg_is_tool_result_tail m \<longleftrightarrow>
     string_or [] (cm_role m) = cstr ''user'' \<and> (cm_tool_call_id m \<noteq> [] \<or> cm_tool_call_ids m \<noteq> [])"

definition anthropic_validate_tool_results :: "(bytes \<Rightarrow> bool) \<Rightarrow> chat_msg list \<Rightarrow> bytes + bool" where
  "anthropic_validate_tool_results live_known msgs =
     (case validate_messages live_known anthropic_msg_is_tool_result_tail msgs False [0..<length msgs] (False, False) of
        Inl x \<Rightarrow> Inl x | Inr flags \<Rightarrow> Inr (fst flags))"

definition anthropic_prepare_live_continuation :: "request \<Rightarrow> chat_msg list \<Rightarrow> request" where
  "anthropic_prepare_live_continuation r msgs =
     (if rq_api r \<noteq> API_ANTHROPIC \<or> msgs = [] then r
      else let tail_end = length msgs - length (takeWhile (\<lambda>m. role_is_system (cm_role m)) (rev msgs));
               tail_start = tail_end - length (takeWhile anthropic_msg_is_tool_result_tail (rev (take tail_end msgs)))
      in if tail_start = tail_end then r
         else let ids = foldl (\<lambda>ids m. chat_msg_collect_tool_call_ids m ids) no_ids (drop tail_start msgs);
                  r = r\<lparr>rq_anthropic_live_call_ids := ids\<rparr>
         in if sl_v ids = [] then r
            else r\<lparr>rq_anthropic_live_suffix_text := Some (render_live_tool_tail msgs tail_start (rq_think r))\<rparr>)"

subsection \<open>What is remembered of the live conversation\<close>

record live_tool_state =
  lt_valid :: bool
  lt_live_tokens :: int
  lt_visible_text :: "bytes option"
  lt_visible_len :: nat
  lt_call_ids :: stop_list

record visible_live_state =
  vl_valid :: bool
  vl_live_tokens :: int
  vl_visible_text :: "bytes option"
  vl_visible_len :: nat

record server_state =
  sv_ctx_size :: int
  sv_session :: sf37_session
  sv_responses_live :: live_tool_state
  sv_anthropic_live :: live_tool_state
  sv_thinking_live :: visible_live_state

definition sf37_session_pos :: "sf37_session \<Rightarrow> int" where
  "sf37_session_pos s = int (length (se_checkpoint s))"

definition sf37_session_tokens :: "sf37_session \<Rightarrow> tokens" where
  "sf37_session_tokens s = se_checkpoint s"

definition live_tool_state_clear_locked :: "live_tool_state \<Rightarrow> live_tool_state" where
  "live_tool_state_clear_locked st =
     \<lparr>lt_valid = False, lt_live_tokens = 0, lt_visible_text = None, lt_visible_len = 0, lt_call_ids = stop_list_clear (lt_call_ids st)\<rparr>"

definition visible_live_clear_locked :: "visible_live_state \<Rightarrow> visible_live_state" where
  "visible_live_clear_locked st = \<lparr>vl_valid = False, vl_live_tokens = 0, vl_visible_text = None, vl_visible_len = 0\<rparr>"

definition thinking_live_clear :: "server_state \<Rightarrow> server_state" where
  "thinking_live_clear s = s\<lparr>sv_thinking_live := visible_live_clear_locked (sv_thinking_live s)\<rparr>"

definition thinking_live_remember :: "server_state \<Rightarrow> bytes \<Rightarrow> server_state" where
  "thinking_live_remember s visible_text =
     (if visible_text = [] then s
      else s\<lparr>sv_thinking_live := \<lparr>vl_valid = True, vl_live_tokens = sf37_session_pos (sv_session s),
               vl_visible_text = Some visible_text, vl_visible_len = length visible_text\<rparr>\<rparr>)"

definition responses_live_remember :: "server_state \<Rightarrow> bytes \<Rightarrow> tool_call list \<Rightarrow> server_state" where
  "responses_live_remember s visible_text calls =
     (if visible_text = [] then s
      else let st = live_tool_state_clear_locked (sv_responses_live s)
           in s\<lparr>sv_responses_live := \<lparr>lt_valid = True, lt_live_tokens = sf37_session_pos (sv_session s),
                  lt_visible_text = Some visible_text, lt_visible_len = length visible_text,
                  lt_call_ids = foldl id_list_push_unique (lt_call_ids st) (map tc_id calls)\<rparr>\<rparr>)"

definition anthropic_live_remember :: "server_state \<Rightarrow> tool_call list \<Rightarrow> server_state" where
  "anthropic_live_remember s calls =
     (if calls = [] then s
      else let st = live_tool_state_clear_locked (sv_anthropic_live s);
               ids = foldl id_list_push_unique (lt_call_ids st) (map tc_id calls)
           in s\<lparr>sv_anthropic_live := st\<lparr>lt_call_ids := ids, lt_live_tokens := sf37_session_pos (sv_session s), lt_valid := sl_v ids \<noteq> []\<rparr>\<rparr>)"

definition responses_live_clear :: "server_state \<Rightarrow> server_state" where
  "responses_live_clear s = s\<lparr>sv_responses_live := live_tool_state_clear_locked (sv_responses_live s)\<rparr>"

definition anthropic_live_clear :: "server_state \<Rightarrow> server_state" where
  "anthropic_live_clear s = s\<lparr>sv_anthropic_live := live_tool_state_clear_locked (sv_anthropic_live s)\<rparr>"

definition live_has_call_id :: "live_tool_state \<Rightarrow> bytes \<Rightarrow> bool" where
  "live_has_call_id st i \<longleftrightarrow> i \<noteq> [] \<and> lt_valid st \<and> id_list_contains (lt_call_ids st) i"

definition responses_live_has_call_id :: "server_state \<Rightarrow> bytes \<Rightarrow> bool" where
  "responses_live_has_call_id s i = live_has_call_id (sv_responses_live s) i"

definition anthropic_live_has_call_id :: "server_state \<Rightarrow> bytes \<Rightarrow> bool" where
  "anthropic_live_has_call_id s i = live_has_call_id (sv_anthropic_live s) i"

definition live_matches_request :: "live_tool_state \<Rightarrow> stop_list \<Rightarrow> int \<Rightarrow> bool" where
  "live_matches_request st ids live_tokens \<longleftrightarrow>
     sl_v ids \<noteq> [] \<and> lt_valid st \<and> lt_live_tokens st = live_tokens \<and>
     length (sl_v (lt_call_ids st)) = length (sl_v ids) \<and> list_all (id_list_contains (lt_call_ids st)) (sl_v ids)"

definition responses_live_matches_request :: "server_state \<Rightarrow> stop_list \<Rightarrow> int \<Rightarrow> bool" where
  "responses_live_matches_request s ids live_tokens = live_matches_request (sv_responses_live s) ids live_tokens"

definition anthropic_live_matches_request :: "server_state \<Rightarrow> stop_list \<Rightarrow> int \<Rightarrow> bool" where
  "anthropic_live_matches_request s ids live_tokens = live_matches_request (sv_anthropic_live s) ids live_tokens"

subsection \<open>Going on with the live conversation\<close>

text \<open>A function that gives up leaves \<open>effective_prompt\<close> alone and returns 0; \<open>None\<close> is this case. Else
  the result is the returned number and the prompt it wrote.\<close>

definition live_effective :: "sf37_vocab option \<Rightarrow> server_state \<Rightarrow> int \<Rightarrow> bytes \<Rightarrow> (nat \<times> tokens) option" where
  "live_effective e s live_pos rest_text =
     (let live_tokens = sf37_session_tokens (sv_session s)
      in if int (length live_tokens) \<noteq> live_pos then None
         else Some (length live_tokens, sf37_kvstore_build_prompt e live_tokens (Some rest_text)))"

definition responses_live_continuation_prompt :: "sf37_vocab option \<Rightarrow> server_state \<Rightarrow> request \<Rightarrow> int \<Rightarrow> (nat \<times> tokens) option" where
  "responses_live_continuation_prompt e s req live_pos =
     (case rq_responses_live_suffix_text req of
        None \<Rightarrow> None
      | Some rest_text \<Rightarrow>
          if rq_api req \<noteq> API_RESPONSES \<or> sl_v (rq_responses_live_call_ids req) = [] \<or>
             \<not> responses_live_matches_request s (rq_responses_live_call_ids req) live_pos then None
          else live_effective e s live_pos rest_text)"

definition anthropic_live_continuation_prompt :: "sf37_vocab option \<Rightarrow> server_state \<Rightarrow> request \<Rightarrow> int \<Rightarrow> (nat \<times> tokens) option" where
  "anthropic_live_continuation_prompt e s req live_pos =
     (case rq_anthropic_live_suffix_text req of
        None \<Rightarrow> None
      | Some rest_text \<Rightarrow>
          if rq_api req \<noteq> API_ANTHROPIC \<or> sl_v (rq_anthropic_live_call_ids req) = [] \<or>
             \<not> anthropic_live_matches_request s (rq_anthropic_live_call_ids req) live_pos then None
          else live_effective e s live_pos rest_text)"

text \<open>What a prompt says behind a remembered visible text.\<close>

definition visible_rest :: "bool \<Rightarrow> int \<Rightarrow> bytes option \<Rightarrow> nat \<Rightarrow> int \<Rightarrow> bytes \<Rightarrow> bytes option" where
  "visible_rest valid live_tokens visible_text visible_len live_pos prompt_text =
     (case visible_text of
        None \<Rightarrow> None
      | Some vis \<Rightarrow>
          if valid \<and> live_tokens = live_pos \<and> visible_len < length prompt_text \<and>
             sf37_kvstore_byte_prefix_match prompt_text (take visible_len vis)
          then Some (drop visible_len prompt_text) else None)"

definition responses_live_visible_prefix_prompt :: "sf37_vocab option \<Rightarrow> server_state \<Rightarrow> request \<Rightarrow> int \<Rightarrow> (nat \<times> tokens) option" where
  "responses_live_visible_prefix_prompt e s req live_pos =
     (case rq_prompt_text req of
        None \<Rightarrow> None
      | Some prompt_text \<Rightarrow>
          if rq_api req \<noteq> API_RESPONSES then None
          else let st = sv_responses_live s
               in Option.bind (visible_rest (lt_valid st) (lt_live_tokens st) (lt_visible_text st) (lt_visible_len st) live_pos prompt_text)
                    (live_effective e s live_pos))"

definition thinking_live_visible_prefix_prompt :: "sf37_vocab option \<Rightarrow> server_state \<Rightarrow> request \<Rightarrow> int \<Rightarrow> (nat \<times> tokens) option" where
  "thinking_live_visible_prefix_prompt e s req live_pos =
     (case rq_prompt_text req of
        None \<Rightarrow> None
      | Some prompt_text \<Rightarrow>
          if rq_api req = API_RESPONSES then None
          else let st = sv_thinking_live s
               in Option.bind (visible_rest (vl_valid st) (vl_live_tokens st) (vl_visible_text st) (vl_visible_len st) live_pos prompt_text)
                    (live_effective e s live_pos))"

definition live_text_prefix_prompt :: "sf37_vocab option \<Rightarrow> server_state \<Rightarrow> request \<Rightarrow> (nat \<times> tokens) option" where
  "live_text_prefix_prompt e s req =
     (case rq_prompt_text req of
        None \<Rightarrow> None
      | Some prompt_text \<Rightarrow>
          let live_tokens = sf37_session_tokens (sv_session s)
          in if live_tokens = [] then None
             else let live_text = sf37_kvstore_render_tokens_text e live_tokens
                  in if \<not> sf37_kvstore_byte_prefix_match prompt_text live_text then None
                     else Some (length live_tokens,
                            sf37_kvstore_build_prompt e live_tokens (Some (drop (length live_text) prompt_text))))"

text \<open>The start of \<open>run_generation\<close> for a request without images, with the disk cache off: how many
  tokens of the session are reused, the prompt, and which remembered conversation goes on. The next
  attempt is made as long as nothing is reused. The error is the answer 409, when the calls to go on
  with are gone.\<close>

record chosen_prompt =
  cp_cached :: nat
  cp_prompt :: tokens
  cp_responses :: bool
  cp_anthropic :: bool
  cp_thinking :: bool

definition try_live :: "nat \<times> tokens \<Rightarrow> (nat \<times> tokens) option \<Rightarrow> nat \<times> tokens" where
  "try_live best attempt =
     (case best of (cached, effective) \<Rightarrow>
        if cached > 0 then best else case attempt of None \<Rightarrow> (0, effective) | Some r \<Rightarrow> r)"

datatype conflict = Responses_state_missing | Anthropic_state_missing

definition choose_prompt :: "sf37_vocab option \<Rightarrow> server_state \<Rightarrow> request \<Rightarrow> conflict + chosen_prompt" where
  "choose_prompt e s r =
     (let old_pos = sf37_session_pos (sv_session s); prompt = rq_prompt r;
          visible_best = try_live (0, []) (responses_live_visible_prefix_prompt e s r old_pos);
          responses_best = try_live visible_best (responses_live_continuation_prompt e s r old_pos);
          anthropic_best = try_live responses_best (anthropic_live_continuation_prompt e s r old_pos)
      in if fst anthropic_best = 0 \<and> rq_responses_requires_live_tool_state r then Inl Responses_state_missing
         else if fst anthropic_best = 0 \<and> rq_anthropic_requires_live_tool_state r then Inl Anthropic_state_missing
         else let reused_best = (if fst anthropic_best = 0 then (sf37_session_reusable_prefix (sv_session s) prompt, snd anthropic_best)
                                 else anthropic_best);
                  thinking_best = try_live reused_best (thinking_live_visible_prefix_prompt e s r old_pos);
                  (cached, effective) = try_live thinking_best (live_text_prefix_prompt e s r)
              in Inr \<lparr>cp_cached = cached, cp_prompt = (if cached > 0 \<and> effective \<noteq> [] then effective else prompt),
                       cp_responses = fst responses_best > 0, cp_anthropic = fst responses_best = 0 \<and> fst anthropic_best > 0,
                       cp_thinking = fst reused_best = 0 \<and> fst thinking_best > 0\<rparr>)"

subsection \<open>After a generation\<close>

definition build_responses_visible_assistant_suffix :: "request \<Rightarrow> bytes \<Rightarrow> bytes \<Rightarrow> tool_calls \<Rightarrow> bytes" where
  "build_responses_visible_assistant_suffix r content reasoning calls =
     (if rq_think r
      then (if rq_reasoning_summary_emit r \<and> tcs_v calls \<noteq> [] then reasoning else []) @ cstr ''</think>''
      else []) @
     content @ append_official_tool_calls_text calls (rq_tool_orders r)"

definition build_toolless_thinking_visible_text :: "request \<Rightarrow> bytes \<Rightarrow> bytes option" where
  "build_toolless_thinking_visible_text r content =
     (case rq_prompt_text r of
        None \<Rightarrow> None
      | Some prompt_text \<Rightarrow>
          let tag = cstr ''<think>'' @ nl; pt_len = length prompt_text
          in if \<not> rq_think r \<or> pt_len < length tag \<or> drop (pt_len - length tag) prompt_text \<noteq> tag then None
             else Some (take (pt_len - length tag) prompt_text @ content))"

definition remember_thinking_checkpoint :: "server_state \<Rightarrow> request \<Rightarrow> bytes \<Rightarrow> server_state" where
  "remember_thinking_checkpoint s r content =
     (if rq_has_tools r \<or> rq_prompt_preserves_reasoning r \<or> \<not> rq_think r then s
      else case build_toolless_thinking_visible_text r content of
             None \<Rightarrow> s | Some vis \<Rightarrow> thinking_live_remember s vis)"

text \<open>The part of \<open>run_generation\<close> behind the parsing of the response: \<open>whole\<close> is that it neither
  failed nor reached the limit of tokens.\<close>

definition remember_generation :: "server_state \<Rightarrow> request \<Rightarrow> bool \<Rightarrow> bytes \<Rightarrow> bytes \<Rightarrow> tool_calls \<Rightarrow> server_state" where
  "remember_generation s r whole content reasoning calls =
     (if whole then
        (let s = (if rq_api r = API_RESPONSES then
                    responses_live_remember s
                      (string_or [] (rq_prompt_text r) @ build_responses_visible_assistant_suffix r content reasoning calls) (tcs_v calls)
                  else if rq_api r = API_ANTHROPIC \<and> tcs_v calls \<noteq> [] then anthropic_live_remember s (tcs_v calls)
                  else if rq_api r = API_ANTHROPIC then anthropic_live_clear s
                  else s)
         in if tcs_v calls \<noteq> [] then thinking_live_clear s else remember_thinking_checkpoint s r content)
      else
        (let s = (if rq_api r = API_RESPONSES then responses_live_clear s else s)
         in if rq_api r = API_ANTHROPIC then anthropic_live_clear s else s))"

subsection \<open>Serving a request\<close>

definition prompt_exceeds_context :: "int \<Rightarrow> int \<Rightarrow> bool" where
  "prompt_exceeds_context prompt_len ctx_size \<longleftrightarrow> prompt_len \<ge> ctx_size"

text \<open>Behind a successful synchronisation the remembered conversations that did not go on are forgotten.\<close>

definition settle_live :: "server_state \<Rightarrow> chosen_prompt \<Rightarrow> server_state" where
  "settle_live s chosen =
     (let s = (if \<not> cp_responses chosen then responses_live_clear s else s);
          s = (if \<not> cp_anthropic chosen then anthropic_live_clear s else s)
      in if \<not> cp_thinking chosen then thinking_live_clear s else s)"

datatype refusal = Conflict conflict | Empty_prompt | Context_exceeded | Prefill_failed

definition prefill ::
  "kernels \<Rightarrow> (nat \<Rightarrow> bool) \<Rightarrow> server_state \<Rightarrow> chosen_prompt \<Rightarrow> refusal option \<times> server_state" where
  "prefill kn cancel s chosen =
     (case sf37_session_sync kn cancel (sv_session s) (cp_prompt chosen) of
        (ok, session) \<Rightarrow>
          if \<not> ok then (Some Prefill_failed, s\<lparr>sv_session := session\<rparr>)
          else (None, settle_live (s\<lparr>sv_session := session\<rparr>) chosen))"

definition begin_generation ::
  "kernels \<Rightarrow> (nat \<Rightarrow> bool) \<Rightarrow> sf37_vocab option \<Rightarrow> server_state \<Rightarrow> request \<Rightarrow> refusal option \<times> server_state" where
  "begin_generation kn cancel e s r =
     (case choose_prompt e s r of
        Inl c \<Rightarrow> (Some (Conflict c), s)
      | Inr chosen \<Rightarrow>
          if cp_prompt chosen = [] then (Some Empty_prompt, s)
          else if prompt_exceeds_context (int (length (cp_prompt chosen))) (sv_ctx_size s) then (Some Context_exceeded, s)
          else prefill kn cancel s chosen)"

text \<open>What the generation does to the session: each sampled token is evaluated, with or without logits,
  until one fails. The parsed response is an argument; without one the client was gone before the first
  token, and when it is lost on the way the tokens evaluated by then stay and nothing is remembered.\<close>

fun eval_tokens :: "kernels \<Rightarrow> sf37_session \<Rightarrow> (int \<times> bool) list \<Rightarrow> sf37_session" where
  "eval_tokens kn s [] = s"
| "eval_tokens kn s ((t, need_logits) # ts) =
     (case sf37_session_eval_internal kn s t need_logits of (ok, s) \<Rightarrow> if ok then eval_tokens kn s ts else s)"

record completion =
  co_tokens :: "(int \<times> bool) list"
  co_lost :: bool
  co_whole :: bool
  co_content :: bytes
  co_reasoning :: bytes
  co_calls :: tool_calls

definition serve_request ::
  "kernels \<Rightarrow> (nat \<Rightarrow> bool) \<Rightarrow> sf37_vocab option \<Rightarrow> server_state \<Rightarrow> request \<Rightarrow> completion option \<Rightarrow> refusal option \<times> server_state" where
  "serve_request kn cancel e s r completion =
     (case begin_generation kn cancel e s r of
        (Some f, s) \<Rightarrow> (Some f, s)
      | (None, s) \<Rightarrow>
          (case completion of
             None \<Rightarrow> (None, s)
           | Some co \<Rightarrow>
               let s = s\<lparr>sv_session := eval_tokens kn (sv_session s) (co_tokens co)\<rparr>
               in if co_lost co then (None, s)
                  else (None, remember_generation s r (co_whole co) (co_content co) (co_reasoning co) (co_calls co))))"

subsection \<open>A longer conversation\<close>

lemma find_rev_upt:
  "find P (rev [0..<n]) = Some i \<longleftrightarrow> i < n \<and> P i \<and> (\<forall>j. i < j \<and> j < n \<longrightarrow> \<not> P j)"
proof (induction n)
  case (Suc n)
  then show ?case
    by (auto simp: less_Suc_eq)
qed simp

lemma find_rev_upt_None: "find P (rev [0..<n]) = None \<longleftrightarrow> (\<forall>j<n. \<not> P j)"
  by (auto simp: find_None_iff)

lemma last_query_last:
  assumes "\<forall>j. k < j \<and> j < length msgs \<longrightarrow> \<not> message_is_plain_user_query (msgs ! j)"
    and "k < length msgs" and "message_is_plain_user_query (msgs ! k)"
  shows "last_query_index msgs = int k"
proof -
  have "find (\<lambda>i. message_is_plain_user_query (msgs ! i)) (rev [0..<length msgs]) = Some k"
    using assms by (simp add: find_rev_upt)
  then show ?thesis
    by (simp add: last_query_index_def)
qed

lemma last_query_exists:
  assumes "list_ex message_is_plain_user_query msgs"
  obtains k where "k < length msgs" "message_is_plain_user_query (msgs ! k)" "last_query_index msgs = int k"
    "\<forall>j. k < j \<and> j < length msgs \<longrightarrow> \<not> message_is_plain_user_query (msgs ! j)"
proof (cases "find (\<lambda>i. message_is_plain_user_query (msgs ! i)) (rev [0..<length msgs])")
  case None
  then show ?thesis
    using assms unfolding find_rev_upt_None by (auto simp: list_ex_length)
next
  case (Some k)
  then show ?thesis
    using that [of k] unfolding last_query_index_def Some by (simp add: find_rev_upt [THEN iffD1, OF Some])
qed

text \<open>The messages in front of an assistant's one do not see what follows.\<close>

lemma render_same:
  assumes "i < length msgs" and "\<not> role_is_tool_result (cm_role a)"
    and "string_or (cstr ''user'') (cm_role (msgs ! i)) = cstr ''assistant'' \<Longrightarrow>
      (think \<and> int i > last_query_index (msgs @ a # rest)) = (think \<and> int i > last_query_index msgs)"
  shows "render_message (msgs @ a # rest) orders think i = render_message msgs orders think i"
proof -
  have at: "(msgs @ a # rest) ! i = msgs ! i" "(msgs @ a # rest) ! 0 = msgs ! 0"
    using assms(1) by (auto simp: nth_append)
  have "tool_result_at (msgs @ a # rest) (i + 1) = tool_result_at msgs (i + 1)"
    using assms(1,2) by (cases "Suc i = length msgs") (auto simp: tool_result_at_def nth_append)
  moreover have "tool_result_at (msgs @ a # rest) (i - 1) = tool_result_at msgs (i - 1)"
    using assms(1) by (auto simp: tool_result_at_def nth_append)
  ultimately show ?thesis
    using assms(3) by (simp add: render_message_def at Let_def render_tool_result_def)
qed

lemma render_extended:
  assumes "cm_role a = Some (cstr ''assistant'')"
    and "\<And>i. i < length msgs \<Longrightarrow> string_or (cstr ''user'') (cm_role (msgs ! i)) = cstr ''assistant'' \<Longrightarrow>
      (think \<and> int i > last_query_index (msgs @ a # rest)) = (think \<and> int i > last_query_index msgs)"
  shows "\<exists>X. render_chat_prompt_text e (msgs @ a # rest) schemas orders think =
    sf37_bos_text e @ render_system msgs schemas @ concat (map (render_message msgs orders think) [0..<length msgs]) @
    cstr ''<|im_start|>assistant'' @ nl @
    (if think \<and> int (length msgs) > last_query_index (msgs @ a # rest)
     then cstr ''<think>'' @ nl @ string_or [] (cm_reasoning a) @ nl @ cstr ''</think>'' @ nl else []) @
    string_or [] (cm_content a) @ append_official_tool_calls_text (cm_calls a) orders @ im_end @ X @ assistant_start think"
proof -
  let ?ms = "msgs @ a # rest" and ?n = "length msgs"
  have no_result: "\<not> role_is_tool_result (cm_role a)" "\<not> role_is_system (cm_role a)"
    by (simp_all add: assms(1) role_is_tool_result_def role_is_system_def)
  define T where "T = cstr ''<|im_start|>assistant'' @ nl @
    (if think \<and> int (length msgs) > last_query_index ?ms
     then cstr ''<think>'' @ nl @ string_or [] (cm_reasoning a) @ nl @ cstr ''</think>'' @ nl else []) @
    string_or [] (cm_content a) @ append_official_tool_calls_text (cm_calls a) orders @ im_end"
  have front: "map (render_message ?ms orders think) [0..<?n] = map (render_message msgs orders think) [0..<?n]"
    using render_same [OF _ no_result(1) assms(2)] by (intro map_cong) auto
  have split: "[0..<length ?ms] = [0..<?n] @ ?n # [Suc ?n..<length ?ms]"
    using upt_add_eq_append [of 0 ?n "Suc (length rest)"] upt_conv_Cons [of ?n "length ?ms"] by (simp del: upt_Suc)
  have answer: "render_message ?ms orders think ?n = T"
    using no_result unfolding T_def
    by (cases msgs) (auto simp: render_message_def Let_def assms(1) string_or_def role_is_template_initial_system_def nth_append simp del: cstr_simps)
  have system: "render_system ?ms schemas = render_system msgs schemas"
    using no_result by (cases msgs) (auto simp: render_system_def role_is_template_initial_system_def)
  have "render_chat_prompt_text e ?ms schemas orders think =
    sf37_bos_text e @ render_system msgs schemas @ concat (map (render_message msgs orders think) [0..<?n]) @ T @
    concat (map (render_message ?ms orders think) [Suc ?n..<length ?ms]) @ assistant_start think"
    unfolding render_chat_prompt_text_def system split map_append list.map concat_append concat.simps front answer by simp
  then show ?thesis
    unfolding T_def by (metis append_assoc)
qed

text \<open>C14: A conversation continued after an answer has a prompt that starts with the prompt the answer was
  generated from, then the answer and the end of its turn, so that the session's tokens can be kept:
  always without thinking, and with thinking (then with the reasoning in between) as long as the new
  messages ask nothing new, as in a loop of tool calls.\<close>

theorem answer_extends_prompt:
  assumes "cm_role a = Some (cstr ''assistant'')"
    and "think \<Longrightarrow> list_ex message_is_plain_user_query msgs \<and> \<not> list_ex message_is_plain_user_query rest"
  shows "\<exists>X. render_chat_prompt_text e (msgs @ a # rest) schemas orders think =
    render_chat_prompt_text e msgs schemas orders think @
    (if think then string_or [] (cm_reasoning a) @ nl @ cstr ''</think>'' @ nl else []) @
    string_or [] (cm_content a) @ append_official_tool_calls_text (cm_calls a) orders @ im_end @ X @ assistant_start think"
proof (cases think)
  case False
  then show ?thesis
    using render_extended [OF assms(1), of msgs False rest e schemas orders]
    by (simp add: render_chat_prompt_text_def assistant_start_def)
next
  case True
  obtain k where k: "k < length msgs" "message_is_plain_user_query (msgs ! k)" "last_query_index msgs = int k"
      "\<forall>j. k < j \<and> j < length msgs \<longrightarrow> \<not> message_is_plain_user_query (msgs ! j)"
    using last_query_exists assms(2) True by blast
  have none: "\<not> message_is_plain_user_query a" "\<And>m. m \<in> set rest \<Longrightarrow> \<not> message_is_plain_user_query m"
    using assms(2) True by (auto simp: message_is_plain_user_query_def assms(1) string_or_def list_ex_iff)
  have "last_query_index (msgs @ a # rest) = int k"
  proof (rule last_query_last)
    show "\<forall>j. k < j \<and> j < length (msgs @ a # rest) \<longrightarrow> \<not> message_is_plain_user_query ((msgs @ a # rest) ! j)"
      using k(4) none by (auto simp: nth_append nth_Cons split: nat.splits)
  qed (use k in \<open>simp_all add: nth_append\<close>)
  then show ?thesis
    using render_extended [OF assms(1), of msgs True rest e schemas orders] k(1,3) True
    by (simp add: render_chat_prompt_text_def assistant_start_def)
qed

definition plain_msg :: "string \<Rightarrow> bytes \<Rightarrow> chat_msg" where
  "plain_msg role content = \<lparr>cm_role = Some (cstr role), cm_name = None, cm_content = Some content, cm_reasoning = None,
     cm_tool_call_id = [], cm_tool_call_ids = [], cm_calls = no_calls\<rparr>"

lemma plain_msg_query: "message_is_plain_user_query (plain_msg ''user'' [0x48, 0x69])" "\<not> message_is_plain_user_query (plain_msg ''tool'' c)"
  by (simp_all add: message_is_plain_user_query_def plain_msg_def string_or_def)

theorem answer_extends_prompt_witness:
  "\<exists>X. render_chat_prompt_text (Some demo_vocab) ([plain_msg ''user'' [0x48, 0x69]] @ plain_msg ''assistant'' [0x4f, 0x6b] # [plain_msg ''tool'' [0x37]])
      None [] True =
    render_chat_prompt_text (Some demo_vocab) [plain_msg ''user'' [0x48, 0x69]] None [] True @
    (if True then string_or [] (cm_reasoning (plain_msg ''assistant'' [0x4f, 0x6b])) @ nl @ cstr ''</think>'' @ nl else []) @
    string_or [] (cm_content (plain_msg ''assistant'' [0x4f, 0x6b])) @
    append_official_tool_calls_text (cm_calls (plain_msg ''assistant'' [0x4f, 0x6b])) [] @ im_end @ X @ assistant_start True"
  by (rule answer_extends_prompt) (simp_all add: plain_msg_query, simp add: plain_msg_def)

subsection \<open>The next turn of a thinking conversation\<close>

lemma no_calls_text: "tcs_v calls = [] \<Longrightarrow> append_official_tool_calls_text calls orders = []"
  by (simp add: append_official_tool_calls_text_def)

lemma last_query_answered:
  assumes "list_ex message_is_plain_user_query rest"
  shows "last_query_index (msgs @ a # rest) > int (length msgs)"
proof -
  obtain j where j: "j < length rest" "message_is_plain_user_query (rest ! j)"
    using assms by (auto simp: list_ex_length)
  obtain k where k: "last_query_index (msgs @ a # rest) = int k"
      "\<forall>j. k < j \<and> j < length (msgs @ a # rest) \<longrightarrow> \<not> message_is_plain_user_query ((msgs @ a # rest) ! j)"
    by (rule last_query_exists [of "msgs @ a # rest"]) (use assms in auto)
  have "(msgs @ a # rest) ! (length msgs + Suc j) = rest ! j"
    by (simp add: nth_append)
  then have "\<not> k < length msgs + Suc j"
    using k(2) j by (metis add_less_cancel_left length_Cons length_append Suc_less_eq)
  then show ?thesis
    using k(1) by simp
qed

lemma last_query_asked: "msgs \<noteq> [] \<Longrightarrow> message_is_plain_user_query (last msgs) \<Longrightarrow> last_query_index msgs = int (length msgs) - 1"
proof -
  assume m: "msgs \<noteq> []" "message_is_plain_user_query (last msgs)"
  have "last_query_index msgs = int (length msgs - 1)"
    by (rule last_query_last) (use m in \<open>auto simp: last_conv_nth\<close>)
  then show ?thesis
    using m(1) by (cases msgs) simp_all
qed

lemma remember_session [simp]: "sv_session (remember_generation s r whole content reasoning calls) = sv_session s"
  by (simp add: remember_generation_def responses_live_remember_def anthropic_live_remember_def anthropic_live_clear_def responses_live_clear_def
      thinking_live_clear_def remember_thinking_checkpoint_def thinking_live_remember_def Let_def split: option.splits)

lemma remember_thinking:
  assumes "tcs_v calls = []" and "\<not> rq_has_tools r" and "\<not> rq_prompt_preserves_reasoning r" and "rq_think r"
    and "build_toolless_thinking_visible_text r content = Some V" and "V \<noteq> []"
  shows "sv_thinking_live (remember_generation s r True content reasoning calls) =
    \<lparr>vl_valid = True, vl_live_tokens = sf37_session_pos (sv_session s), vl_visible_text = Some V, vl_visible_len = length V\<rparr>"
  using assms by (simp add: remember_generation_def responses_live_remember_def anthropic_live_remember_def anthropic_live_clear_def
      remember_thinking_checkpoint_def thinking_live_remember_def Let_def)

lemma visible_rest_match: "V \<noteq> [] \<Longrightarrow> rest \<noteq> [] \<Longrightarrow> visible_rest True n (Some V) (length V) n (V @ rest) = Some rest"
  by (simp add: visible_rest_def byte_prefix_match)

lemma live_effective_some:
  "live_effective e s (sf37_session_pos (sv_session s)) rest_text =
     Some (length (se_checkpoint (sv_session s)), sf37_kvstore_build_prompt e (se_checkpoint (sv_session s)) (Some rest_text))"
  by (simp add: live_effective_def sf37_session_pos_def sf37_session_tokens_def Let_def)

text \<open>C15: When the hidden reasoning of an answer costs the cache. After an answer without tools to a user's
  question, the next request of the conversation, which repeats the answer without the reasoning and asks
  again, has a prompt that starts with the remembered text; going on from it (\<open>p\<close>) keeps all tokens of
  the session, reasoning included, and then spells the rest of the prompt. But the choice does so only when
  no prefix of the session counts as reusable for the new prompt. Otherwise the prefix is reported and the
  prompt is evaluated as it is; and when the session holds more than this prefix, as it does with the
  reasoning in it, the synchronisation throws all of it away and starts at the first token. Here for the
  OpenAI interfaces.\<close>

theorem thinking_turn_choice:
  assumes "vocab_ok v" and "r1 = request_finish_prompt (Some v) q1 msgs schemas1" and "r2 = request_finish_prompt (Some v) q2 (msgs @ a # rest) schemas2"
    and "\<not> rq_has_tools q1" and "\<not> rq_has_tools q2" and "rq_think q1" and "rq_think q2" and "rq_api q2 = API_OPENAI \<or> rq_api q2 = API_COMPLETIONS"
    and "rq_tool_orders q2 = rq_tool_orders q1"
    and "rq_prompt_preserves_reasoning q1 = rendered_prompt_preserves_reasoning msgs True"
    and "msgs \<noteq> []" and "message_is_plain_user_query (last msgs)" and "list_ex message_is_plain_user_query rest"
    and "cm_role a = Some (cstr ''assistant'')" and "cm_content a = Some content" and "tcs_v (cm_calls a) = []" and "tcs_v calls = []"
    and "s' = remember_generation s r1 True content reasoning calls"
    and "\<not> rq_responses_requires_live_tool_state q2" and "\<not> rq_anthropic_requires_live_tool_state q2"
    and "live = se_checkpoint (sv_session s)" and "live \<noteq> []" and "n = sf37_session_reusable_prefix (sv_session s) (rq_prompt r2)"
  shows "\<exists>visible_text prompt_text p.
    build_toolless_thinking_visible_text r1 content = Some visible_text \<and> rq_prompt_text r2 = Some prompt_text \<and>
    take (length visible_text) prompt_text = visible_text \<and>
    take (length live) p = live \<and> tokens_text v p = tokens_text v live @ drop (length visible_text) prompt_text \<and>
    choose_prompt (Some v) s' r2 =
      Inr (if n = 0
           then \<lparr>cp_cached = length live, cp_prompt = p, cp_responses = False, cp_anthropic = False, cp_thinking = True\<rparr>
           else \<lparr>cp_cached = n, cp_prompt = rq_prompt r2, cp_responses = False, cp_anthropic = False, cp_thinking = False\<rparr>) \<and>
    (0 < n \<and> n < length live \<longrightarrow> sync_start (sv_session s') (rq_prompt r2) None = (0, session_reset (sv_session s')))"
proof -
  define P where "P = sf37_bos_text (Some v) @ render_system msgs None @
    concat (map (render_message msgs (rq_tool_orders q1) True) [0..<length msgs]) @ cstr ''<|im_start|>assistant'' @ nl"
  define V where "V = P @ content"
  have asked: "last_query_index msgs = int (length msgs) - 1"
    by (rule last_query_asked [OF assms(11,12)])
  have late: "\<not> int i > last_query_index (msgs @ a # rest)" if "i \<le> length msgs" for i
    using last_query_answered [OF assms(13), of msgs a] that by simp
  have t1: "rq_prompt_text r1 = Some (P @ cstr ''<think>'' @ nl)"
    by (simp add: assms(2,4,6) request_finish_prompt_def Let_def render_chat_prompt_text_def P_def assistant_start_def)
  have r1: "rq_think r1" "\<not> rq_has_tools r1"
    using assms(4,6) by (simp_all add: assms(2) request_finish_prompt_def Let_def)
  obtain X where X: "render_chat_prompt_text (Some v) (msgs @ a # rest) None (rq_tool_orders q1) True = V @ im_end @ X @ assistant_start True"
    using render_extended [OF assms(14), of msgs True rest "Some v" None "rq_tool_orders q1"] asked late [of "length msgs"] late
    by (auto simp: V_def P_def assms(15) string_or_def no_calls_text [OF assms(16)])
  have t2: "rq_prompt_text r2 = Some (V @ im_end @ X @ assistant_start True)"
    using X by (simp add: assms(3,5,7,9) request_finish_prompt_def Let_def)
  have V: "build_toolless_thinking_visible_text r1 content = Some V" "V \<noteq> []"
    using r1(1) by (simp_all add: build_toolless_thinking_visible_text_def t1 V_def P_def Let_def)
  have "\<not> rq_prompt_preserves_reasoning r1"
    using assms(10) asked by (auto simp: assms(2) request_finish_prompt_def Let_def rendered_prompt_preserves_reasoning_def list_ex_iff)
  then have live: "sv_thinking_live s' =
      \<lparr>vl_valid = True, vl_live_tokens = sf37_session_pos (sv_session s), vl_visible_text = Some V, vl_visible_len = length V\<rparr>"
    unfolding assms(18) by (intro remember_thinking [OF assms(17) r1(2) _ r1(1) V])
  have ses: "sv_session s' = sv_session s" and api2: "rq_api r2 \<noteq> API_RESPONSES"
    using assms(8) by (auto simp: assms(3,18) request_finish_prompt_def Let_def)
  have rest: "im_end @ X @ assistant_start True \<noteq> []"
    by (simp add: im_end_def)
  define p where "p = sf37_kvstore_build_prompt (Some v) live (Some (im_end @ X @ assistant_start True))"
  have p: "take (length live) p = live" "tokens_text v p = tokens_text v live @ im_end @ X @ assistant_start True"
    unfolding p_def using effective_prompt_text [OF assms(1)] effective_prompt_prefix by simp_all
  have "p \<noteq> []"
    using p(1) assms(22) by auto
  have think: "thinking_live_visible_prefix_prompt (Some v) s' r2 (sf37_session_pos (sv_session s')) = Some (length live, p)"
    using api2 visible_rest_match [OF V(2) rest] live_effective_some [of "Some v" s' "im_end @ X @ assistant_start True"] unfolding ses
    by (simp add: thinking_live_visible_prefix_prompt_def t2 live Let_def p_def assms(21))
  have none: "responses_live_visible_prefix_prompt e s' r2 pos = None" "responses_live_continuation_prompt e s' r2 pos = None"
      "anthropic_live_continuation_prompt e s' r2 pos = None" for e pos
    using assms(8) by (auto simp: assms(3) request_finish_prompt_def Let_def responses_live_visible_prefix_prompt_def
        responses_live_continuation_prompt_def anthropic_live_continuation_prompt_def split: option.splits)
  have flags: "\<not> rq_responses_requires_live_tool_state r2" "\<not> rq_anthropic_requires_live_tool_state r2"
    using assms(19,20) by (simp_all add: assms(3) request_finish_prompt_def Let_def)
  have choice: "choose_prompt (Some v) s' r2 =
      Inr (if n = 0
           then \<lparr>cp_cached = length live, cp_prompt = p, cp_responses = False, cp_anthropic = False, cp_thinking = True\<rparr>
           else \<lparr>cp_cached = n, cp_prompt = rq_prompt r2, cp_responses = False, cp_anthropic = False, cp_thinking = False\<rparr>)"
    using assms(22) \<open>p \<noteq> []\<close>
    by (simp add: choose_prompt_def none flags think [unfolded ses] ses try_live_def Let_def case_prod_beta assms(23) [symmetric])
  have reset: "sync_start (sv_session s') (rq_prompt r2) None = (0, session_reset (sv_session s'))" if "0 < n" "n < length live"
    using that by (auto simp: assms(21,23) ses sync_start_def sf37_session_reusable_prefix_def Let_def split: if_splits)
  show ?thesis
    using choice reset p by (intro exI [of _ V] exI [of _ "V @ im_end @ X @ assistant_start True"] exI [of _ p]) (auto simp: V(1) t2)
qed

definition demo_request :: "api_style \<Rightarrow> bool \<Rightarrow> request" where
  "demo_request api think = \<lparr>rq_api = api, rq_prompt = [], rq_prompt_text = None, rq_tool_orders = [], rq_has_tools = False,
     rq_reasoning_summary_emit = False, rq_think = think, rq_prompt_preserves_reasoning = False,
     rq_responses_requires_live_tool_state = False, rq_responses_live_call_ids = no_ids, rq_responses_live_suffix_text = None,
     rq_anthropic_requires_live_tool_state = False, rq_anthropic_live_call_ids = no_ids, rq_anthropic_live_suffix_text = None\<rparr>"

definition no_tool_state :: live_tool_state where
  "no_tool_state = \<lparr>lt_valid = False, lt_live_tokens = 0, lt_visible_text = None, lt_visible_len = 0, lt_call_ids = no_ids\<rparr>"

definition demo_server :: "sf37_session \<Rightarrow> server_state" where
  "demo_server session = \<lparr>sv_ctx_size = 4, sv_session = session, sv_responses_live = no_tool_state, sv_anthropic_live = no_tool_state,
     sv_thinking_live = \<lparr>vl_valid = False, vl_live_tokens = 0, vl_visible_text = None, vl_visible_len = 0\<rparr>\<rparr>"

text \<open>The tokens of a rendered text are appended; the example's prompt starts with the same token twice.\<close>

lemma tokenize_text_extends: "take (length out) (bpe_tokenize_text v s out) = out"
proof (induction v s out rule: bpe_tokenize_text.induct)
  case (1 v s out)
  show ?case
  proof (cases "s = []")
    case False
    then have "take (length (bpe_emit_piece v (take (piece_len s) s) out)) (bpe_tokenize_text v s out) =
        bpe_emit_piece v (take (piece_len s) s) out"
      using 1 by (subst bpe_tokenize_text.simps) simp
    then have "take (length out) (take (length (bpe_emit_piece v (take (piece_len s) s) out)) (bpe_tokenize_text v s out)) = out"
      by (simp add: bpe_emit_piece_def)
    then show ?thesis
      by (simp add: bpe_emit_piece_def min_def)
  qed (subst bpe_tokenize_text.simps, simp)
qed

lemma rendered_loop_extends: "\<exists>ys. tokenize_rendered_loop v sp p out = out @ ys"
proof (induction v sp p out rule: tokenize_rendered_loop.induct)
  case (1 v sp p out)
  have span: "\<exists>ys. tokenize_span v sp out = out @ ys"
    using tokenize_text_extends [of out v sp] by (auto simp: tokenize_span_def) (metis append_take_drop_id)
  show ?case
  proof (cases p)
    case Nil
    then show ?thesis
      using span by (subst tokenize_rendered_loop.simps) simp
  next
    case (Cons c p1)
    show ?thesis
    proof (cases "added_token_at v p")
      case None
      then show ?thesis
        using 1(1) [OF Cons] Cons by (subst tokenize_rendered_loop.simps) simp
    next
      case (Some r)
      obtain token k where r: "r = (token, k)"
        by fastforce
      then have "tokenize_rendered_loop v sp p out =
          tokenize_rendered_loop v [] (drop k p) (sf37_tokens_push (tokenize_span v sp out) token)"
        using Some Cons by (subst tokenize_rendered_loop.simps) simp
      then show ?thesis
        using 1(2) [OF Cons Some [unfolded r] refl] span by (auto simp: sf37_tokens_push_def)
    qed
  qed
qed

lemma demo_added: "added_token_at demo_vocab (cstr ''<|im_start|>'' @ X) = Some (257, 12)"
  by (simp add: added_token_at_def demo_vocab_def Let_def numeral_eq_Suc)

lemma demo_tokens_start: "\<exists>ys. sf37_tokenize_rendered_chat (Some demo_vocab) (cstr ''<|im_start|>'' @ cstr ''<|im_start|>'' @ X) [] = 257 # 257 # ys"
proof -
  have step: "tokenize_rendered_loop demo_vocab [] (cstr ''<|im_start|>'' @ Y) out = tokenize_rendered_loop demo_vocab [] Y (out @ [257])" for Y out
    using demo_added [of Y] by (subst tokenize_rendered_loop.simps) (simp add: tokenize_span_def sf37_tokens_push_def)
  have "sf37_tokenize_rendered_chat (Some demo_vocab) (cstr ''<|im_start|>'' @ cstr ''<|im_start|>'' @ X) [] = tokenize_rendered_loop demo_vocab [] X ([257] @ [257])"
    unfolding sf37_tokenize_rendered_chat_def tokenize_rendered_chat_vocab_def using step [of "cstr ''<|im_start|>'' @ X" "[]"] step [of X "[257]"]
    by (simp add: demo_vocab_def)
  then show ?thesis
    using rendered_loop_extends [of demo_vocab "[]" X "[257] @ [257]"] by auto
qed

text \<open>The example: the session holds the first token of the prompt and a token of the reasoning.\<close>

definition demo_question :: "chat_msg list" where
  "demo_question = [plain_msg ''user'' [0x48, 0x69]]"

definition demo_first :: request where
  "demo_first = request_finish_prompt (Some demo_vocab) (demo_request API_OPENAI True) demo_question None"

definition demo_next :: request where
  "demo_next = request_finish_prompt (Some demo_vocab) (demo_request API_OPENAI True)
     (demo_question @ plain_msg ''assistant'' [0x4f, 0x6b] # [plain_msg ''user'' [0x48, 0x69]]) None"

definition demo_answered :: server_state where
  "demo_answered = demo_server (flat_session\<lparr>se_checkpoint := [257, 7], se_ctx_size := int (length (rq_prompt demo_next))\<rparr>)"

lemma demo_next_prompt: "\<exists>ys. rq_prompt demo_next = 257 # 257 # ys"
proof -
  have "sf37_token_text (Some demo_vocab) (vc_bos_id demo_vocab) = cstr ''<|im_start|>''"
    using vocab_ok_added [OF demo_vocab_ok, of "\<lparr>at_text = cstr ''<|im_start|>'', at_id = 257\<rparr>"]
    by (simp add: demo_vocab_def)
  then have bos: "sf37_bos_text (Some demo_vocab) = cstr ''<|im_start|>''"
    by (simp add: sf37_bos_text_def sf37_token_bos_def demo_vocab_def until_nul_def)
  have first: "render_message (demo_question @ r) [] True 0 =
      cstr ''<|im_start|>'' @ cstr ''user'' @ nl @ [0x48, 0x69] @ im_end" for r
    by (simp add: demo_question_def plain_msg_def render_message_def render_other_def role_is_template_initial_system_def
        role_is_system_def role_is_tool_result_def template_role_name_def string_or_def Let_def)
  have system: "render_system (demo_question @ r) None = []" for r
    by (simp add: demo_question_def plain_msg_def render_system_def role_is_template_initial_system_def role_is_system_def string_or_def)
  have "\<exists>X. render_chat_prompt_text (Some demo_vocab) (demo_question @ r) None [] True = cstr ''<|im_start|>'' @ cstr ''<|im_start|>'' @ X" for r
  proof -
    have up: "[0..<length (demo_question @ r)] = 0 # [1..<length (demo_question @ r)]"
      by (simp add: demo_question_def upt_conv_Cons del: upt_Suc)
    show ?thesis
      unfolding render_chat_prompt_text_def system bos up list.map first by simp
  qed
  then obtain X where "render_chat_prompt_text (Some demo_vocab)
      (demo_question @ plain_msg ''assistant'' [0x4f, 0x6b] # [plain_msg ''user'' [0x48, 0x69]]) None [] True = cstr ''<|im_start|>'' @ cstr ''<|im_start|>'' @ X"
    by blast
  then show ?thesis
    using demo_tokens_start [of X] by (simp add: demo_next_def request_finish_prompt_def demo_request_def Let_def)
qed

lemma demo_reusable: "sf37_session_reusable_prefix (sv_session demo_answered) (rq_prompt demo_next) = 1"
  using demo_next_prompt
  by (auto simp: demo_answered_def demo_server_def sf37_session_reusable_prefix_def sf37_session_common_prefix_def flat_facts
      session_can_reuse_common_def session_rewind_preserves_kv_def)

theorem thinking_turn_choice_witness:
  "\<exists>visible_text prompt_text p.
    build_toolless_thinking_visible_text demo_first [0x4f, 0x6b] = Some visible_text \<and> rq_prompt_text demo_next = Some prompt_text \<and>
    take (length visible_text) prompt_text = visible_text \<and>
    take (length [257, 7 :: int]) p = [257, 7] \<and> tokens_text demo_vocab p = tokens_text demo_vocab [257, 7] @ drop (length visible_text) prompt_text \<and>
    choose_prompt (Some demo_vocab) (remember_generation demo_answered demo_first True [0x4f, 0x6b] [0x6d] no_calls) demo_next =
      Inr (if (1 :: nat) = 0
           then \<lparr>cp_cached = length [257, 7 :: int], cp_prompt = p, cp_responses = False, cp_anthropic = False, cp_thinking = True\<rparr>
           else \<lparr>cp_cached = 1, cp_prompt = rq_prompt demo_next, cp_responses = False, cp_anthropic = False, cp_thinking = False\<rparr>) \<and>
    (0 < (1 :: nat) \<and> 1 < length [257, 7 :: int] \<longrightarrow>
      sync_start (sv_session (remember_generation demo_answered demo_first True [0x4f, 0x6b] [0x6d] no_calls)) (rq_prompt demo_next) None =
        (0, session_reset (sv_session (remember_generation demo_answered demo_first True [0x4f, 0x6b] [0x6d] no_calls))))"
  by (rule thinking_turn_choice [OF demo_vocab_ok demo_first_def demo_next_def, where reasoning = "[0x6d]" and calls = no_calls and s = demo_answered])
    (simp_all add: demo_reusable [unfolded demo_answered_def demo_server_def, simplified] demo_answered_def demo_server_def demo_question_def demo_request_def plain_msg_query rendered_prompt_preserves_reasoning_def
      last_query_index_def no_calls_def, simp_all add: plain_msg_def no_calls_def)

subsection \<open>Which tokens are kept\<close>

text \<open>What an attempt gives goes on from all tokens of the session.\<close>

definition goes_on :: "server_state \<Rightarrow> nat \<times> tokens \<Rightarrow> bool" where
  "goes_on s best \<longleftrightarrow> (let live = se_checkpoint (sv_session s) in fst best = length live \<and> take (length live) (snd best) = live)"

lemma live_effective_goes_on: "live_effective e s pos rest_text = Some r \<Longrightarrow> goes_on s r"
  using effective_prompt_prefix by (auto simp: live_effective_def sf37_session_tokens_def goes_on_def Let_def split: if_splits)

lemma attempts_go_on:
  "responses_live_visible_prefix_prompt e s req pos = Some r \<Longrightarrow> goes_on s r"
  "responses_live_continuation_prompt e s req pos = Some r \<Longrightarrow> goes_on s r"
  "anthropic_live_continuation_prompt e s req pos = Some r \<Longrightarrow> goes_on s r"
  "thinking_live_visible_prefix_prompt e s req pos = Some r \<Longrightarrow> goes_on s r"
  "live_text_prefix_prompt e s req = Some r \<Longrightarrow> goes_on s r"
  using effective_prompt_prefix
  by (auto simp: responses_live_visible_prefix_prompt_def responses_live_continuation_prompt_def anthropic_live_continuation_prompt_def
      thinking_live_visible_prefix_prompt_def live_text_prefix_prompt_def Let_def bind_eq_Some_conv goes_on_def [of s "(_, _)"] sf37_session_tokens_def
      dest!: live_effective_goes_on split: option.splits if_splits)

definition best_ok :: "server_state \<Rightarrow> tokens \<Rightarrow> nat \<times> tokens \<Rightarrow> bool" where
  "best_ok s prompt best \<longleftrightarrow> best = (0, []) \<or> goes_on s best \<or> best = (sf37_session_reusable_prefix (sv_session s) prompt, [])"

lemma try_live_ok: "best_ok s prompt best \<Longrightarrow> (\<And>r. attempt = Some r \<Longrightarrow> goes_on s r) \<Longrightarrow> best_ok s prompt (try_live best attempt)"
  by (cases best) (auto simp: try_live_def best_ok_def split: option.splits)

lemma reusable_common:
  "sf37_session_reusable_prefix s prompt \<le> length prompt"
  "take (sf37_session_reusable_prefix s prompt) prompt = take (sf37_session_reusable_prefix s prompt) (se_checkpoint s)"
  using common_prefix_take [of "se_checkpoint s" prompt]
  by (auto simp: sf37_session_reusable_prefix_def Let_def sf37_session_common_prefix_def)

lemma reuse_ok:
  assumes "best_ok s prompt best"
  shows "best_ok s prompt (if fst best = 0 then (sf37_session_reusable_prefix (sv_session s) prompt, snd best) else best)"
proof (cases "fst best = 0 \<and> goes_on s best")
  case True
  then have "se_checkpoint (sv_session s) = []"
    by (auto simp: goes_on_def Let_def)
  then have "sf37_session_reusable_prefix (sv_session s) prompt = 0"
    by (simp add: sf37_session_reusable_prefix_def sf37_session_common_prefix_def Let_def session_can_reuse_common_def)
  then show ?thesis
    using assms True by (cases best) simp
next
  case False
  then show ?thesis
    using assms by (cases best) (auto simp: best_ok_def)
qed

lemma text_of_prompt:
  assumes "vocab_ok v"
  shows "tokens_text v (sf37_tokenize_rendered_chat (Some v) txt []) = txt"
  using effective_prompt_text [OF assms, of "[]" "txt"]
  by (simp add: sf37_kvstore_build_prompt_def Let_def)

text \<open>The chosen prompt comes from one best attempt.\<close>

lemma choice_best:
  assumes "choose_prompt e s r = Inr chosen"
  shows "\<exists>best. cp_cached chosen = fst best \<and> cp_prompt chosen = (if fst best > 0 \<and> snd best \<noteq> [] then snd best else rq_prompt r) \<and>
    best_ok s (rq_prompt r) best \<and>
    (\<not> lt_valid (sv_responses_live s) \<and> \<not> lt_valid (sv_anthropic_live s) \<and> \<not> vl_valid (sv_thinking_live s) \<longrightarrow>
      snd best = [] \<or> live_text_prefix_prompt e s r = Some best) \<and>
    (cp_responses chosen \<longrightarrow> goes_on s best \<and> fst best > 0 \<and>
      (responses_live_visible_prefix_prompt e s r (sf37_session_pos (sv_session s)) = Some best \<or>
       responses_live_continuation_prompt e s r (sf37_session_pos (sv_session s)) = Some best))"
proof -
  define pos where "pos = sf37_session_pos (sv_session s)"
  define b1 where "b1 = try_live (0, []) (responses_live_visible_prefix_prompt e s r pos)"
  define b2 where "b2 = try_live b1 (responses_live_continuation_prompt e s r pos)"
  define b3 where "b3 = try_live b2 (anthropic_live_continuation_prompt e s r pos)"
  define b4 where "b4 = (if fst b3 = 0 then (sf37_session_reusable_prefix (sv_session s) (rq_prompt r), snd b3) else b3)"
  define b5 where "b5 = try_live b4 (thinking_live_visible_prefix_prompt e s r pos)"
  define b6 where "b6 = try_live b5 (live_text_prefix_prompt e s r)"
  have choice: "choose_prompt e s r =
    (if fst b3 = 0 \<and> rq_responses_requires_live_tool_state r then Inl Responses_state_missing
     else if fst b3 = 0 \<and> rq_anthropic_requires_live_tool_state r then Inl Anthropic_state_missing
     else Inr \<lparr>cp_cached = fst b6, cp_prompt = (if fst b6 > 0 \<and> snd b6 \<noteq> [] then snd b6 else rq_prompt r),
       cp_responses = fst b2 > 0, cp_anthropic = fst b2 = 0 \<and> fst b3 > 0, cp_thinking = fst b4 = 0 \<and> fst b5 > 0\<rparr>)"
    unfolding choose_prompt_def Let_def case_prod_beta b6_def b5_def b4_def b3_def b2_def b1_def pos_def by (rule refl)
  have run: "cp_cached chosen = fst b6" "cp_prompt chosen = (if fst b6 > 0 \<and> snd b6 \<noteq> [] then snd b6 else rq_prompt r)"
      "cp_responses chosen = (fst b2 > 0)"
    using assms choice by (auto split: if_splits)
  have "best_ok s (rq_prompt r) b3"
    unfolding b3_def b2_def b1_def by (intro try_live_ok attempts_go_on) (simp add: best_ok_def)
  then have ok: "best_ok s (rq_prompt r) b6"
    unfolding b6_def b5_def b4_def by (intro try_live_ok attempts_go_on reuse_ok)
  have fresh: "snd b6 = [] \<or> live_text_prefix_prompt e s r = Some b6"
    if none: "\<not> lt_valid (sv_responses_live s) \<and> \<not> lt_valid (sv_anthropic_live s) \<and> \<not> vl_valid (sv_thinking_live s)"
  proof -
    have rest: "visible_rest False n x l p t = None" for n x l p t
      by (simp add: visible_rest_def split: option.splits)
    have gone: "responses_live_visible_prefix_prompt e s r pos = None" "responses_live_continuation_prompt e s r pos = None"
        "anthropic_live_continuation_prompt e s r pos = None" "thinking_live_visible_prefix_prompt e s r pos = None"
      using none rest
      by (simp_all add: responses_live_visible_prefix_prompt_def responses_live_continuation_prompt_def anthropic_live_continuation_prompt_def
          thinking_live_visible_prefix_prompt_def responses_live_matches_request_def anthropic_live_matches_request_def
          live_matches_request_def Let_def split: option.splits)
    have "snd b5 = []"
      by (simp add: b5_def b4_def b3_def b2_def b1_def gone try_live_def)
    then show ?thesis
      by (cases b5) (auto simp: b6_def try_live_def split: if_splits option.splits)
  qed
  have resp: "b6 = b2 \<and> goes_on s b2 \<and>
      (responses_live_visible_prefix_prompt e s r pos = Some b2 \<or> responses_live_continuation_prompt e s r pos = Some b2)" if "fst b2 > 0"
  proof -
    have keep: "try_live b a = b" if "fst b > 0" for b a
      using that by (cases b) (simp add: try_live_def)
    have "b6 = b2"
      using \<open>fst b2 > 0\<close> by (simp add: b6_def b5_def b4_def b3_def keep)
    moreover have "responses_live_visible_prefix_prompt e s r pos = Some b2 \<or> responses_live_continuation_prompt e s r pos = Some b2"
      using \<open>fst b2 > 0\<close> by (auto simp: b2_def b1_def try_live_def split: if_splits option.splits prod.splits)
    ultimately show ?thesis
      using attempts_go_on(1,2) by blast
  qed
  show ?thesis
    using run ok fresh resp unfolding pos_def by (intro exI [of _ b6]) auto
qed

text \<open>C16: Whatever of the session is reused for a request, the chosen tokens agree with the session's on the
  reused part; and with no remembered conversation they spell exactly the requested prompt.\<close>

theorem chosen_prompt_exact:
  assumes "vocab_ok v" and "rq_prompt q = []" and "r = request_finish_prompt (Some v) q msgs schemas"
    and "choose_prompt (Some v) s r = Inr chosen"
  shows "cp_cached chosen \<le> length (cp_prompt chosen) \<and>
    take (cp_cached chosen) (cp_prompt chosen) = take (cp_cached chosen) (se_checkpoint (sv_session s)) \<and>
    (\<not> lt_valid (sv_responses_live s) \<and> \<not> lt_valid (sv_anthropic_live s) \<and> \<not> vl_valid (sv_thinking_live s) \<longrightarrow>
      Some (tokens_text v (cp_prompt chosen)) = rq_prompt_text r)"
proof -
  obtain best where run: "cp_cached chosen = fst best" "cp_prompt chosen = (if fst best > 0 \<and> snd best \<noteq> [] then snd best else rq_prompt r)"
      and ok: "best_ok s (rq_prompt r) best"
      and fresh: "\<not> lt_valid (sv_responses_live s) \<and> \<not> lt_valid (sv_anthropic_live s) \<and> \<not> vl_valid (sv_thinking_live s) \<Longrightarrow>
        snd best = [] \<or> live_text_prefix_prompt (Some v) s r = Some best"
    using choice_best [OF assms(4)] by blast
  have told: "\<exists>t. rq_prompt_text r = Some t \<and> tokens_text v (rq_prompt r) = t"
    using text_of_prompt [OF assms(1)] assms(2) by (simp add: assms(3) request_finish_prompt_def Let_def)
  have agree: "fst best \<le> length (cp_prompt chosen) \<and> take (fst best) (cp_prompt chosen) = take (fst best) (se_checkpoint (sv_session s))"
  proof (cases "goes_on s best")
    case True
    then show ?thesis
      unfolding run goes_on_def Let_def by (cases "fst best > 0 \<and> snd best \<noteq> []") (auto simp: min_def dest: arg_cong [where f = length] split: if_splits)
  next
    case False
    then have "best = (0, []) \<or> best = (sf37_session_reusable_prefix (sv_session s) (rq_prompt r), [])"
      using ok by (auto simp: best_ok_def)
    then show ?thesis
      using reusable_common [of "sv_session s" "rq_prompt r"] by (auto simp: run)
  qed
  have "Some (tokens_text v (cp_prompt chosen)) = rq_prompt_text r"
    if none: "\<not> lt_valid (sv_responses_live s) \<and> \<not> lt_valid (sv_anthropic_live s) \<and> \<not> vl_valid (sv_thinking_live s)"
  proof (cases "snd best = []")
    case True
    then show ?thesis
      using told by (auto simp: run)
  next
    case False
    then obtain t where t: "rq_prompt_text r = Some t" "live_text_prefix_prompt (Some v) s r = Some best"
      using fresh [OF none] told by auto
    then have "tokens_text v (snd best) = t"
      using effective_prompt_text [OF assms(1)]
      by (auto simp: live_text_prefix_prompt_def Let_def byte_prefix_match render_tokens_text tokens_text_def sf37_session_tokens_def split: if_splits)
    moreover have "fst best > 0"
      using t(2) by (auto simp: live_text_prefix_prompt_def t(1) Let_def sf37_session_tokens_def split: if_splits)
    ultimately show ?thesis
      using t(1) False by (simp add: run)
  qed
  then show ?thesis
    using agree by (simp add: run(1))
qed

theorem chosen_prompt_exact_witness:
  "\<exists>chosen. choose_prompt (Some demo_vocab) (demo_server flat_session)
       (request_finish_prompt (Some demo_vocab) (demo_request API_OPENAI True) [plain_msg ''user'' [0x48, 0x69]] None) = Inr chosen \<and>
     cp_cached chosen \<le> length (cp_prompt chosen) \<and>
     take (cp_cached chosen) (cp_prompt chosen) = take (cp_cached chosen) (se_checkpoint (sv_session (demo_server flat_session))) \<and>
     (\<not> lt_valid (sv_responses_live (demo_server flat_session)) \<and> \<not> lt_valid (sv_anthropic_live (demo_server flat_session)) \<and>
        \<not> vl_valid (sv_thinking_live (demo_server flat_session)) \<longrightarrow>
      Some (tokens_text demo_vocab (cp_prompt chosen)) =
        rq_prompt_text (request_finish_prompt (Some demo_vocab) (demo_request API_OPENAI True) [plain_msg ''user'' [0x48, 0x69]] None))"
proof -
  define r where "r = request_finish_prompt (Some demo_vocab) (demo_request API_OPENAI True) [plain_msg ''user'' [0x48, 0x69]] None"
  have "\<not> rq_responses_requires_live_tool_state r" "\<not> rq_anthropic_requires_live_tool_state r"
    by (simp_all add: r_def request_finish_prompt_def demo_request_def Let_def)
  then obtain chosen where choice: "choose_prompt (Some demo_vocab) (demo_server flat_session) r = Inr chosen"
    unfolding choose_prompt_def Let_def case_prod_beta by simp
  have "rq_prompt (demo_request API_OPENAI True) = []"
    by (simp add: demo_request_def)
  from chosen_prompt_exact [OF demo_vocab_ok this r_def choice] choice show ?thesis
    unfolding r_def by blast
qed

subsection \<open>A conversation keeps its tokens\<close>

definition remembers :: "request \<Rightarrow> completion option \<Rightarrow> bool" where
  "remembers r completion \<longleftrightarrow> rq_api r = API_RESPONSES \<and> (case completion of None \<Rightarrow> False | Some co \<Rightarrow> \<not> co_lost co \<and> co_whole co)"

text \<open>A sequence of requests; \<open>None\<close> when the prefill of one failed.\<close>

fun serve_all ::
  "kernels \<Rightarrow> sf37_vocab option \<Rightarrow> server_state \<Rightarrow> ((nat \<Rightarrow> bool) \<times> request \<times> completion option) list \<Rightarrow> server_state option" where
  "serve_all kn e s [] = Some s"
| "serve_all kn e s ((cancel, r, completion) # qs) =
     (case serve_request kn cancel e s r completion of
        (f, s) \<Rightarrow> if f = Some Prefill_failed then None else serve_all kn e s qs)"

text \<open>The remembered number of tokens counts these tokens, and the session still starts with them.\<close>

definition remembers_tokens :: "tokens \<Rightarrow> server_state \<Rightarrow> bool" where
  "remembers_tokens own s \<longleftrightarrow>
     (lt_valid (sv_responses_live s) \<longrightarrow>
      lt_live_tokens (sv_responses_live s) = int (length own) \<and> take (length own) (se_checkpoint (sv_session s)) = own)"

lemma eval_tokens_extend:
  "coherent kn s \<Longrightarrow> se_checkpoint_valid s \<Longrightarrow>
   coherent kn (eval_tokens kn s ts) \<and> se_checkpoint_valid (eval_tokens kn s ts) \<and> (\<exists>ys. se_checkpoint (eval_tokens kn s ts) = se_checkpoint s @ ys)"
proof (induction ts arbitrary: s)
  case (Cons x ts)
  obtain t need where x: "x = (t, need)"
    by fastforce
  obtain ok s' where e: "sf37_session_eval_internal kn s t need = (ok, s')"
    by fastforce
  show ?case
  proof (cases ok)
    case True
    then have s': "coherent kn s'" "se_checkpoint_valid s'" "se_checkpoint s' = se_checkpoint s @ [t]"
      using eval_coherent [OF Cons.prems] e by auto
    show ?thesis
      using Cons.IH [OF s'(1,2)] e True x s'(3) by auto
  next
    case False
    then show ?thesis
      using eval_failed [of kn s t need s'] e x Cons.prems by auto
  qed
qed simp

lemma settle_session [simp]: "sv_session (settle_live s c) = sv_session s"
  by (simp add: settle_live_def Let_def responses_live_clear_def anthropic_live_clear_def thinking_live_clear_def)

lemma settle_responses: "sv_responses_live (settle_live s c) =
    (if cp_responses c then sv_responses_live s else live_tool_state_clear_locked (sv_responses_live s))"
  by (simp add: settle_live_def Let_def responses_live_clear_def anthropic_live_clear_def thinking_live_clear_def)

lemma thinking_keeps_responses [simp]:
  "sv_responses_live (remember_thinking_checkpoint s r content) = sv_responses_live s"
  "sv_responses_live (thinking_live_clear s) = sv_responses_live s"
  by (simp_all add: remember_thinking_checkpoint_def thinking_live_remember_def thinking_live_clear_def split: option.splits)

lemma remember_other:
  assumes "\<not> (rq_api r = API_RESPONSES \<and> whole)"
  shows "sv_responses_live (remember_generation s r whole content reasoning calls) = sv_responses_live s \<or>
    \<not> lt_valid (sv_responses_live (remember_generation s r whole content reasoning calls))"
  using assms
  by (auto simp: remember_generation_def anthropic_live_remember_def anthropic_live_clear_def responses_live_clear_def
      live_tool_state_clear_locked_def Let_def)

text \<open>The prompt of a conversation that goes on starts with all tokens of the session.\<close>

lemma responses_prompt_extends:
  assumes "choose_prompt e s r = Inr chosen" and "cp_responses chosen"
  shows "cp_cached chosen = length (se_checkpoint (sv_session s)) \<and>
    take (length (se_checkpoint (sv_session s))) (cp_prompt chosen) = se_checkpoint (sv_session s) \<and>
    lt_valid (sv_responses_live s) \<and> lt_live_tokens (sv_responses_live s) = int (length (se_checkpoint (sv_session s)))"
proof -
  obtain best where run: "cp_cached chosen = fst best" "cp_prompt chosen = (if fst best > 0 \<and> snd best \<noteq> [] then snd best else rq_prompt r)"
      and best: "goes_on s best" "fst best > 0"
      "responses_live_visible_prefix_prompt e s r (sf37_session_pos (sv_session s)) = Some best \<or>
       responses_live_continuation_prompt e s r (sf37_session_pos (sv_session s)) = Some best"
    using choice_best [OF assms(1)] assms(2) by blast
  have "snd best \<noteq> []"
    using best(1,2) by (auto simp: goes_on_def Let_def)
  then have "cp_cached chosen = length (se_checkpoint (sv_session s)) \<and>
      take (length (se_checkpoint (sv_session s))) (cp_prompt chosen) = se_checkpoint (sv_session s)"
    using run best(1,2) by (simp add: goes_on_def Let_def)
  moreover have "lt_valid (sv_responses_live s) \<and> lt_live_tokens (sv_responses_live s) = sf37_session_pos (sv_session s)"
    using best(3)
    by (auto simp: responses_live_visible_prefix_prompt_def responses_live_continuation_prompt_def visible_rest_def Let_def bind_eq_Some_conv
        responses_live_matches_request_def live_matches_request_def split: option.splits if_splits)
  ultimately show ?thesis
    by (simp add: sf37_session_pos_def)
qed

lemma begin_tokens:
  assumes "coherent kn (sv_session s)" and "se_checkpoint_valid (sv_session s)" and "remembers_tokens own s"
    and "begin_generation kn cancel e s r = (f, s')" and "f \<noteq> Some Prefill_failed"
  shows "coherent kn (sv_session s') \<and> se_checkpoint_valid (sv_session s') \<and> remembers_tokens own s'"
proof (cases "s' = s")
  case True
  then show ?thesis
    using assms(1-3) by simp
next
  case False
  obtain chosen where chosen: "choose_prompt e s r = Inr chosen"
    using assms(4) False by (auto simp: begin_generation_def prefill_def split: sum.splits)
  obtain ok session where sync: "sf37_session_sync kn cancel (sv_session s) (cp_prompt chosen) = (ok, session)"
    by fastforce
  have s': ok "s' = settle_live (s\<lparr>sv_session := session\<rparr>) chosen"
    using assms(4,5) False chosen sync by (auto simp: begin_generation_def prefill_def split: if_splits)
  note synced = sync_coherent [OF assms(1) sync [unfolded sf37_session_sync_def]]
  have "remembers_tokens own s'"
  proof (cases "cp_responses chosen")
    case False
    then show ?thesis
      by (simp add: remembers_tokens_def s'(2) settle_responses live_tool_state_clear_locked_def)
  next
    case True
    let ?live = "se_checkpoint (sv_session s)"
    note p = responses_prompt_extends [OF chosen True]
    have own: "lt_live_tokens (sv_responses_live s) = int (length own)" "take (length own) ?live = own"
      using assms(3) p by (auto simp: remembers_tokens_def)
    then have "length own = length ?live"
      using p by simp
    then have "take (length own) (cp_prompt chosen) = own"
      using p own(2) by simp
    then show ?thesis
      using synced s'(1) own(1) by (simp add: remembers_tokens_def s'(2) settle_responses True)
  qed
  then show ?thesis
    using synced s'(1) by (simp add: s'(2))
qed

text \<open>How a request ends: refused, without a completion, or with one.\<close>

lemma serve_request_done:
  assumes "serve_request kn cancel e s r completion = (f, s')" and "begin_generation kn cancel e s r = (g, s1)"
  shows "s' = s1 \<or> (\<exists>co. completion = Some co \<and>
      s' = (let s2 = s1\<lparr>sv_session := eval_tokens kn (sv_session s1) (co_tokens co)\<rparr>
            in if co_lost co then s2 else remember_generation s2 r (co_whole co) (co_content co) (co_reasoning co) (co_calls co)))"
  using assms by (cases g; cases completion) (simp_all add: serve_request_def Let_def split: if_splits)

lemma serve_request_refused: "serve_request kn cancel e s r completion = (Some f, t) \<Longrightarrow> begin_generation kn cancel e s r = (Some f, t)"
  unfolding serve_request_def Let_def
  by (cases "begin_generation kn cancel e s r"; cases "fst (begin_generation kn cancel e s r)"; cases completion) (simp_all split: if_splits)

lemma run_tokens:
  assumes "coherent kn (sv_session s)" and "se_checkpoint_valid (sv_session s)" and "remembers_tokens own s"
    and "serve_request kn cancel e s r completion = (f, s')" and "f \<noteq> Some Prefill_failed" and "\<not> remembers r completion"
  shows "coherent kn (sv_session s') \<and> se_checkpoint_valid (sv_session s') \<and> remembers_tokens own s'"
proof -
  obtain g s1 where begun: "begin_generation kn cancel e s r = (g, s1)"
    by fastforce
  have g: "g = f"
    using assms(4) begun by (cases g; cases completion) (simp_all add: serve_request_def Let_def split: if_splits)
  note b = begin_tokens [OF assms(1-3) begun assms(5) [folded g]]
  show ?thesis
  proof (cases "s' = s1")
    case True
    then show ?thesis
      using b by simp
  next
    case False
    then obtain co where co: "completion = Some co"
        "s' = (let s2 = s1\<lparr>sv_session := eval_tokens kn (sv_session s1) (co_tokens co)\<rparr>
               in if co_lost co then s2 else remember_generation s2 r (co_whole co) (co_content co) (co_reasoning co) (co_calls co))"
      using serve_request_done [OF assms(4) begun] False by blast
    obtain ys where ys: "coherent kn (eval_tokens kn (sv_session s1) (co_tokens co))" "se_checkpoint_valid (eval_tokens kn (sv_session s1) (co_tokens co))"
        "se_checkpoint (eval_tokens kn (sv_session s1) (co_tokens co)) = se_checkpoint (sv_session s1) @ ys"
      using eval_tokens_extend b by blast
    define s2 where "s2 = s1\<lparr>sv_session := eval_tokens kn (sv_session s1) (co_tokens co)\<rparr>"
    have "take (length own) (se_checkpoint (sv_session s1) @ ys) = own" if "take (length own) (se_checkpoint (sv_session s1)) = own"
      using that by (metis append_take_drop_id append_assoc append_eq_conv_conj)
    then have s2: "coherent kn (sv_session s2) \<and> se_checkpoint_valid (sv_session s2) \<and> remembers_tokens own s2"
      using b ys by (auto simp: remembers_tokens_def s2_def)
    show ?thesis
    proof (cases "co_lost co")
      case True
      then show ?thesis
        using s2 co(2) by (simp add: s2_def)
    next
      case False
      then have s': "s' = remember_generation s2 r (co_whole co) (co_content co) (co_reasoning co) (co_calls co)"
        using co(2) by (simp add: s2_def)
      have "\<not> (rq_api r = API_RESPONSES \<and> co_whole co)"
        using assms(6) co(1) False by (simp add: remembers_def)
      note kept = remember_other [OF this, of s2 "co_content co" "co_reasoning co" "co_calls co", folded s']
      show ?thesis
        using s2 kept by (auto simp: remembers_tokens_def s')
    qed
  qed
qed

lemma serve_tokens:
  "serve_all kn e s qs = Some t \<Longrightarrow> coherent kn (sv_session s) \<Longrightarrow> se_checkpoint_valid (sv_session s) \<Longrightarrow> remembers_tokens own s \<Longrightarrow>
   list_all (\<lambda>(cancel, r, completion). \<not> remembers r completion) qs \<Longrightarrow> remembers_tokens own t"
proof (induction qs arbitrary: s)
  case (Cons q qs)
  obtain cancel r completion where q: "q = (cancel, r, completion)"
    by (cases q)
  obtain f s1 where run: "serve_request kn cancel e s r completion = (f, s1)"
    by fastforce
  show ?case
    using Cons.IH [of s1] Cons.prems run_tokens [OF Cons.prems(2-4) run] run by (auto simp: q split: if_splits)
qed simp

text \<open>C17: A conversation goes on from its own tokens: what was remembered after a response of the Responses API is
  used only while the session holds exactly the tokens of that response, whatever requests of any API were
  served, refused or dropped in between, as long as none of their prefills failed. The prompt chosen then
  starts with all of these tokens.\<close>

theorem conversation_keeps_tokens:
  assumes "coherent kn (sv_session s)" and "se_checkpoint_valid (sv_session s)" and "rq_api r1 = API_RESPONSES"
    and "rq_prompt_text r1 = Some prompt1" and "prompt1 \<noteq> []"
    and "serve_all kn e (remember_generation s r1 True content reasoning calls) qs = Some t"
    and "list_all (\<lambda>(cancel, r, completion). \<not> remembers r completion) qs"
    and "choose_prompt e t r2 = Inr chosen" and "cp_responses chosen"
  shows "se_checkpoint (sv_session t) = se_checkpoint (sv_session s) \<and> cp_cached chosen = length (se_checkpoint (sv_session s)) \<and>
    take (cp_cached chosen) (cp_prompt chosen) = se_checkpoint (sv_session s)"
proof -
  let ?own = "se_checkpoint (sv_session s)" and ?s1 = "remember_generation s r1 True content reasoning calls"
  have "lt_live_tokens (sv_responses_live ?s1) = int (length ?own)"
    using assms(3-5)
    by (auto simp: remember_generation_def responses_live_remember_def Let_def string_or_def sf37_session_pos_def)
  then have "remembers_tokens ?own ?s1"
    by (simp add: remembers_tokens_def)
  then have "remembers_tokens ?own t"
    using serve_tokens [OF assms(6)] assms(1,2,7) by simp
  then show ?thesis
    using responses_prompt_extends [OF assms(8,9)] by (auto simp: remembers_tokens_def)
qed

text \<open>The example: a response of a conversation, a request that is refused, and the next turn.\<close>

definition demo_turn :: "bytes \<Rightarrow> request" where
  "demo_turn prompt_text = (demo_request API_RESPONSES False)\<lparr>rq_prompt_text := Some prompt_text\<rparr>"

lemma demo_remembered:
  "sv_responses_live (remember_generation s (demo_turn [0x41]) True [0x42] [] no_calls) =
     \<lparr>lt_valid = True, lt_live_tokens = sf37_session_pos (sv_session s), lt_visible_text = Some [0x41, 0x42], lt_visible_len = 2,
       lt_call_ids = stop_list_clear (lt_call_ids (sv_responses_live s))\<rparr>"
  by (simp add: remember_generation_def demo_turn_def demo_request_def responses_live_remember_def string_or_def no_calls_def
      build_responses_visible_assistant_suffix_def append_official_tool_calls_text_def live_tool_state_clear_locked_def Let_def)

lemma demo_goes_on:
  assumes "sv_responses_live t = \<lparr>lt_valid = True, lt_live_tokens = sf37_session_pos (sv_session t), lt_visible_text = Some [0x41, 0x42],
      lt_visible_len = 2, lt_call_ids = ids\<rparr>"
    and "se_checkpoint (sv_session t) \<noteq> []"
  shows "choose_prompt e t (demo_turn [0x41, 0x42, 0x44]) = Inr \<lparr>cp_cached = length (se_checkpoint (sv_session t)),
      cp_prompt = sf37_kvstore_build_prompt e (se_checkpoint (sv_session t)) (Some [0x44]),
      cp_responses = True, cp_anthropic = False, cp_thinking = False\<rparr>"
proof -
  have first: "responses_live_visible_prefix_prompt e t (demo_turn [0x41, 0x42, 0x44]) (sf37_session_pos (sv_session t)) =
      Some (length (se_checkpoint (sv_session t)), sf37_kvstore_build_prompt e (se_checkpoint (sv_session t)) (Some [0x44]))"
    using visible_rest_match [of "[0x41, 0x42]" "[0x44]"] live_effective_some [of e t "[0x44]"]
    by (simp add: responses_live_visible_prefix_prompt_def demo_turn_def demo_request_def assms(1) Let_def numeral_2_eq_2)
  have "sf37_kvstore_build_prompt e (se_checkpoint (sv_session t)) (Some [0x44]) \<noteq> []"
    using effective_prompt_prefix [of "se_checkpoint (sv_session t)" e "Some [0x44]"] assms(2) by auto
  then show ?thesis
    using assms(2) by (simp add: choose_prompt_def first try_live_def Let_def case_prod_beta)
qed

theorem conversation_keeps_tokens_witness:
  "\<exists>t chosen. serve_all flat_kernels (Some demo_vocab)
       (remember_generation (demo_server flat_session) (demo_turn [0x41]) True [0x42] [] no_calls)
       [(\<lambda>_. False, demo_request API_OPENAI False, None)] = Some t \<and>
     choose_prompt (Some demo_vocab) t (demo_turn [0x41, 0x42, 0x44]) = Inr chosen \<and> cp_responses chosen \<and>
     se_checkpoint (sv_session t) = se_checkpoint (sv_session (demo_server flat_session)) \<and>
     cp_cached chosen = length (se_checkpoint (sv_session (demo_server flat_session))) \<and>
     take (cp_cached chosen) (cp_prompt chosen) = se_checkpoint (sv_session (demo_server flat_session))"
proof -
  define s1 where "s1 = remember_generation (demo_server flat_session) (demo_turn [0x41]) True [0x42] [] no_calls"
  have session: "sv_session s1 = flat_session"
    by (simp add: s1_def demo_server_def)
  have "choose_prompt (Some demo_vocab) s1 (demo_request API_OPENAI False) =
      Inr \<lparr>cp_cached = 0, cp_prompt = [], cp_responses = False, cp_anthropic = False, cp_thinking = False\<rparr>"
    by (simp add: choose_prompt_def Let_def demo_request_def try_live_def responses_live_visible_prefix_prompt_def
        responses_live_continuation_prompt_def anthropic_live_continuation_prompt_def thinking_live_visible_prefix_prompt_def
        live_text_prefix_prompt_def session sf37_session_reusable_prefix_def sf37_session_common_prefix_def session_can_reuse_common_def flat_facts)
  then have served: "serve_all flat_kernels (Some demo_vocab) s1 [(\<lambda>_. False, demo_request API_OPENAI False, None)] = Some s1"
    by (simp add: serve_request_def begin_generation_def prefill_def)
  obtain chosen where chosen: "choose_prompt (Some demo_vocab) s1 (demo_turn [0x41, 0x42, 0x44]) = Inr chosen" "cp_responses chosen"
    using demo_goes_on [of s1 _ "Some demo_vocab"] demo_remembered [of "demo_server flat_session", folded s1_def] session
    by (simp add: demo_server_def flat_facts)
  have "se_checkpoint (sv_session s1) = se_checkpoint (sv_session (demo_server flat_session)) \<and>
     cp_cached chosen = length (se_checkpoint (sv_session (demo_server flat_session))) \<and>
     take (cp_cached chosen) (cp_prompt chosen) = se_checkpoint (sv_session (demo_server flat_session))"
  proof (rule conversation_keeps_tokens [OF _ _ _ _ _ _ _ chosen])
    show "serve_all flat_kernels (Some demo_vocab) (remember_generation (demo_server flat_session) (demo_turn [0x41]) True [0x42] [] no_calls)
        [(\<lambda>_. False, demo_request API_OPENAI False, None)] = Some s1"
      using served by (simp only: s1_def)
    show "rq_prompt_text (demo_turn [0x41]) = Some [0x41]"
      by (simp add: demo_turn_def)
  qed (simp_all add: demo_server_def flat_facts demo_turn_def demo_request_def remembers_def)
  then show ?thesis
    using served chosen unfolding s1_def by blast
qed

text \<open>C18: A failed prefill breaks this: it leaves the remembered conversations alone while the session
  already holds other tokens. When these are as many as the remembered ones, the next request of the
  conversation is continued behind the tokens of the failed request: what is evaluated spells these and
  then the rest of its prompt.\<close>

theorem failed_prefill_mixes_conversations:
  assumes "vocab_ok v" and "rq_api r1 = API_RESPONSES" and "rq_prompt_text r1 = Some prompt1" and "prompt1 \<noteq> []"
    and "serve_request kn cancel (Some v) (remember_generation s r1 True content reasoning calls) other completion = (Some Prefill_failed, t)"
    and "length (se_checkpoint (sv_session t)) = length (se_checkpoint (sv_session s))" and "se_checkpoint (sv_session s) \<noteq> []"
    and "rq_api r2 = API_RESPONSES"
    and "rq_prompt_text r2 = Some (prompt1 @ build_responses_visible_assistant_suffix r1 content reasoning calls @ rest)" and "rest \<noteq> []"
  shows "case choose_prompt (Some v) t r2 of
      Inl _ \<Rightarrow> False
    | Inr chosen \<Rightarrow> cp_cached chosen = length (se_checkpoint (sv_session t)) \<and>
        take (cp_cached chosen) (cp_prompt chosen) = se_checkpoint (sv_session t) \<and>
        tokens_text v (cp_prompt chosen) = tokens_text v (se_checkpoint (sv_session t)) @ rest"
proof -
  define V where "V = prompt1 @ build_responses_visible_assistant_suffix r1 content reasoning calls"
  define ids where "ids = foldl id_list_push_unique (stop_list_clear (lt_call_ids (sv_responses_live s))) (map tc_id (tcs_v calls))"
  let ?live = "se_checkpoint (sv_session t)"
  have "sv_responses_live t = sv_responses_live (remember_generation s r1 True content reasoning calls)"
    using serve_request_refused [OF assms(5)] by (auto simp: begin_generation_def prefill_def split: sum.splits prod.splits option.splits if_splits)
  then have live: "sv_responses_live t = \<lparr>lt_valid = True, lt_live_tokens = sf37_session_pos (sv_session t), lt_visible_text = Some V,
      lt_visible_len = length V, lt_call_ids = ids\<rparr>"
    using assms(2-4,6)
    by (auto simp: remember_generation_def responses_live_remember_def Let_def string_or_def V_def ids_def live_tool_state_clear_locked_def
        sf37_session_pos_def)
  let ?p = "sf37_kvstore_build_prompt (Some v) ?live (Some rest)"
  have first: "responses_live_visible_prefix_prompt (Some v) t r2 (sf37_session_pos (sv_session t)) = Some (length ?live, ?p)"
    using visible_rest_match [of V rest] live_effective_some [of "Some v" t rest] assms(4,8-10)
    by (simp add: responses_live_visible_prefix_prompt_def live V_def Let_def)
  have ne: "?live \<noteq> []"
    using assms(6,7) by auto
  then have p: "?p \<noteq> []"
    using effective_prompt_prefix [of ?live "Some v" "Some rest"] by auto
  have "choose_prompt (Some v) t r2 = Inr \<lparr>cp_cached = length ?live, cp_prompt = ?p, cp_responses = True, cp_anthropic = False, cp_thinking = False\<rparr>"
    using ne p by (simp add: choose_prompt_def first try_live_def Let_def case_prod_beta)
  then show ?thesis
    using effective_prompt_text [OF assms(1)] effective_prompt_prefix by simp
qed

lemma demo_cancelled:
  "\<exists>s. sf37_session_sync flat_kernels (\<lambda>k. k = 2) flat_session [8, 9] = (False, s) \<and> se_checkpoint s = [8]"
proof -
  have zero: "sf37_session_common_prefix flat_session [8, 9] = 0"
    by (simp add: sf37_session_common_prefix_def flat_facts)
  note reset = reset_coherent [OF flat_facts(2)]
  obtain ok s where e: "sf37_session_eval_internal flat_kernels (session_reset flat_session) 8 False = (ok, s)"
    by fastforce
  have ok
    using eval_succeeds [of 8 "session_reset flat_session" flat_kernels False] reset e by (simp add: flat_facts SF37_VOCAB_def)
  then have "se_checkpoint s = [8]"
    using eval_coherent [of flat_kernels "session_reset flat_session" 8 False s] reset e by simp
  moreover have "sf37_session_sync flat_kernels (\<lambda>k. k = 2) flat_session [8, 9] = (False, s)"
    using e \<open>ok\<close> by (simp add: sf37_session_sync_def sf37_session_sync_multimodal_def image_rows_checked_def sync_start_def zero flat_facts)
  ultimately show ?thesis
    by blast
qed

theorem failed_prefill_mixes_conversations_witness:
  "\<exists>t. serve_request flat_kernels (\<lambda>k. k = 2) (Some demo_vocab)
         (remember_generation (demo_server flat_session) (demo_turn [0x41]) True [0x42] [] no_calls)
         ((demo_request API_OPENAI False)\<lparr>rq_prompt := [8, 9]\<rparr>) None = (Some Prefill_failed, t) \<and> se_checkpoint (sv_session t) = [8] \<and>
     (case choose_prompt (Some demo_vocab) t (demo_turn [0x41, 0x42, 0x44]) of
        Inl _ \<Rightarrow> False
      | Inr chosen \<Rightarrow> cp_cached chosen = length (se_checkpoint (sv_session t)) \<and>
          take (cp_cached chosen) (cp_prompt chosen) = se_checkpoint (sv_session t) \<and>
          tokens_text demo_vocab (cp_prompt chosen) = tokens_text demo_vocab (se_checkpoint (sv_session t)) @ [0x44])"
proof -
  define s1 where "s1 = remember_generation (demo_server flat_session) (demo_turn [0x41]) True [0x42] [] no_calls"
  define other where "other = (demo_request API_OPENAI False)\<lparr>rq_prompt := [8, 9]\<rparr>"
  obtain s where s: "sf37_session_sync flat_kernels (\<lambda>k. k = 2) flat_session [8, 9] = (False, s)" "se_checkpoint s = [8]"
    using demo_cancelled by blast
  define t where "t = s1\<lparr>sv_session := s\<rparr>"
  have session: "sv_session s1 = flat_session" "sv_ctx_size s1 = 4"
    by (simp_all add: s1_def demo_server_def remember_generation_def demo_turn_def demo_request_def responses_live_remember_def string_or_def
        no_calls_def remember_thinking_checkpoint_def Let_def)
  have "choose_prompt (Some demo_vocab) s1 other =
      Inr \<lparr>cp_cached = 0, cp_prompt = [8, 9], cp_responses = False, cp_anthropic = False, cp_thinking = False\<rparr>"
    by (simp add: choose_prompt_def Let_def other_def demo_request_def try_live_def responses_live_visible_prefix_prompt_def
        responses_live_continuation_prompt_def anthropic_live_continuation_prompt_def thinking_live_visible_prefix_prompt_def
        live_text_prefix_prompt_def session sf37_session_reusable_prefix_def sf37_session_common_prefix_def session_can_reuse_common_def flat_facts)
  then have run: "serve_request flat_kernels (\<lambda>k. k = 2) (Some demo_vocab) s1 other None = (Some Prefill_failed, t)"
    using s(1) by (simp add: serve_request_def begin_generation_def prefill_def session prompt_exceeds_context_def t_def)
  have "case choose_prompt (Some demo_vocab) t (demo_turn [0x41, 0x42, 0x44]) of
        Inl _ \<Rightarrow> False
      | Inr chosen \<Rightarrow> cp_cached chosen = length (se_checkpoint (sv_session t)) \<and>
          take (cp_cached chosen) (cp_prompt chosen) = se_checkpoint (sv_session t) \<and>
          tokens_text demo_vocab (cp_prompt chosen) = tokens_text demo_vocab (se_checkpoint (sv_session t)) @ [0x44]"
  proof (rule failed_prefill_mixes_conversations [OF demo_vocab_ok])
    show "serve_request flat_kernels (\<lambda>k. k = 2) (Some demo_vocab)
        (remember_generation (demo_server flat_session) (demo_turn [0x41]) True [0x42] [] no_calls) other None = (Some Prefill_failed, t)"
      using run by (simp only: s1_def)
    show "rq_prompt_text (demo_turn [0x41]) = Some [0x41]"
      by (simp add: demo_turn_def)
  qed (simp_all add: t_def s(2) demo_server_def flat_facts demo_turn_def demo_request_def build_responses_visible_assistant_suffix_def
      append_official_tool_calls_text_def no_calls_def)
  then show ?thesis
    using run s(2) unfolding s1_def other_def by (intro exI [of _ t]) (simp add: t_def)
qed

subsection \<open>A reported prefix that is not reused\<close>

text \<open>C19: A prompt that shares a beginning with the session without extending it is reported to reuse this
  beginning, and neither the remembered thinking conversation nor the text of the session is tried; but the
  synchronisation that follows throws the whole session away and starts at the first token.\<close>

theorem reported_prefix_recomputed:
  assumes "rq_api r = API_OPENAI \<or> rq_api r = API_COMPLETIONS"
    and "\<not> rq_responses_requires_live_tool_state r" and "\<not> rq_anthropic_requires_live_tool_state r"
    and "se_checkpoint_valid (sv_session s)" and "int (length (rq_prompt r)) \<le> se_ctx_size (sv_session s)"
    and "n = common_prefix_len (se_checkpoint (sv_session s)) (rq_prompt r)" and "0 < n"
    and "n < length (se_checkpoint (sv_session s))" and "n < length (rq_prompt r)"
  shows "choose_prompt e s r =
      Inr \<lparr>cp_cached = n, cp_prompt = rq_prompt r, cp_responses = False, cp_anthropic = False, cp_thinking = False\<rparr> \<and>
    sync_start (sv_session s) (rq_prompt r) None = (0, session_reset (sv_session s))"
proof -
  have common: "sf37_session_common_prefix (sv_session s) (rq_prompt r) = n"
    using assms(4,6) by (simp add: sf37_session_common_prefix_def)
  have reusable: "sf37_session_reusable_prefix (sv_session s) (rq_prompt r) = n"
    using assms(4,5,7-9) by (simp add: sf37_session_reusable_prefix_def common session_can_reuse_common_def session_rewind_preserves_kv_def Let_def)
  have none: "responses_live_visible_prefix_prompt e s r p = None" "responses_live_continuation_prompt e s r p = None"
      "anthropic_live_continuation_prompt e s r p = None" for p
    using assms(1) by (auto simp: responses_live_visible_prefix_prompt_def responses_live_continuation_prompt_def
        anthropic_live_continuation_prompt_def split: option.splits)
  have "sync_start (sv_session s) (rq_prompt r) None = (0, session_reset (sv_session s))"
    using assms(8) by (simp add: sync_start_def common)
  then show ?thesis
    using assms(2,3,7) by (simp add: choose_prompt_def none reusable try_live_def Let_def case_prod_beta)
qed

theorem reported_prefix_recomputed_witness:
  "choose_prompt None (demo_server (flat_session\<lparr>se_checkpoint := [7, 8]\<rparr>)) ((demo_request API_OPENAI True)\<lparr>rq_prompt := [7, 9]\<rparr>) =
      Inr \<lparr>cp_cached = 1, cp_prompt = rq_prompt ((demo_request API_OPENAI True)\<lparr>rq_prompt := [7, 9]\<rparr>),
        cp_responses = False, cp_anthropic = False, cp_thinking = False\<rparr> \<and>
    sync_start (sv_session (demo_server (flat_session\<lparr>se_checkpoint := [7, 8]\<rparr>))) (rq_prompt ((demo_request API_OPENAI True)\<lparr>rq_prompt := [7, 9]\<rparr>)) None =
      (0, session_reset (sv_session (demo_server (flat_session\<lparr>se_checkpoint := [7, 8]\<rparr>))))"
  by (rule reported_prefix_recomputed) (simp_all add: demo_server_def demo_request_def flat_facts)

end
