(* ===== verification/Spec2Isabelle.thy ===== *)
theory Spec2Isabelle
  imports Utf8 StrTable Bpe KvHeader Sha1 KvPolicy KvStore KvStoreProps Session SessionProps SnapshotProps KvSession WeightsProps ForwardProps QuantBlocks ServerStream ToolText ToolRestore ChatPrompt
begin

text \<open>
  The program runs one family of language models: it opens a model file, tokenizes text, evaluates
  tokens with a cache of attention rows per layer, keeps checkpoints of conversations on disk, and
  serves requests over HTTP. A separate tool writes the model file from the original weights. This
  library models the program's own logic in C, translated function by function: a definition has
  the name of the C function it models where that is possible, and the loops and helper blocks of
  a function that need a name of their own stand next to it. All sources are under \<open>src/\<close>.

  \<^bold>\<open>Conventions.\<close> Bytes and the unsigned C types are words of their width, so wrap-around is the type's;
  C's \<open>int\<close> is HOL's \<open>int\<close>, whose results are shown or assumed to stay in range. A C string is the
  list of its bytes without the final NUL, a pointer into a text the rest of the text, a file being
  read the list of the bytes not read yet. A result \<open>None\<close> is what the code must not do or cannot
  survive: an exit of the program, a pointer that leads nowhere, a loop that does not end; errors
  that the code reports are values of their own. Loops that may run forever are partial functions,
  and where they return this is a theorem. Memory allocation succeeds unless a predicate of the
  model says which calls fail.

  \<^bold>\<open>Text and tokens\<close> (\<open>sf37.c\<close>). \<open>Utf8\<close> has the UTF-8 writer and lenient reader and the byte alphabet
  of the vocabulary (\<open>utf8_put\<close>, \<open>gpt2_byte_to_codepoint\<close>, \<open>token_text\<close>). \<open>StrTable\<close> is the FNV-1a hash
  table \<open>sf37_str_i32_table\<close> with open addressing; the locale \<open>str_map\<close> is the contract the tokenizer
  relies on, interpreted on the table. \<open>Bpe\<close> is the tokenizer: the pre-tokenizer, the merge loop, added
  tokens and the chat encoders; what it shows is that no byte is lost and that an encoded chat
  decodes to the rendered one.

  \<^bold>\<open>Model files\<close> (\<open>sf37.c\<close>). \<open>Gguf\<close> reads the mapped file (\<open>gguf_open\<close> and the lookups), \<open>GgufProps\<close> shows
  that an arbitrary file gives tensors inside the file or an error, and that a well-formed file is
  read back. \<open>Weights\<close> and \<open>WeightsProps\<close> bind the tensors of every layer, with the result that no byte
  outside the file is ever read. \<open>QuantizeTool\<close>, \<open>QuantizeProps\<close> and \<open>QuantBlocks\<close> model the tool of
  \<open>gguf-tools\<close>: the plan and the writer of the file, which the runtime then opens, and the block formats,
  which the runtime's decoders of \<open>Numeric\<close> (\<open>sf37_quant.c\<close>, \<open>sf37_ops.c\<close>) read back.

  \<^bold>\<open>Evaluation\<close> (\<open>sf37.c\<close>). \<open>Session\<close> and \<open>SessionProps\<close> are the session: a checkpoint of tokens, the cache
  rows of each layer, evaluation, rewinding, the reuse of a prefix and synchronisation with a
  prompt. The numeric kernels of a layer are a parameter there; the invariant is that the cache holds
  what a full recomputation gives. \<open>Forward\<close> and \<open>ForwardProps\<close> are the CPU forward pass on a bound
  model and show that it refines the session model with the program's own kernels.
  \<open>SessionSnapshot\<close>, \<open>SnapshotLemmas\<close> and \<open>SnapshotProps\<close> are the two serial forms of a session, their round
  trips, and the safety of loading arbitrary bytes.

  \<^bold>\<open>Checkpoints on disk\<close> (\<open>sf37_kvstore.c\<close>). \<open>Sha1\<close> is the streaming hash and refines
  FIPS 180-4, which is stated next to it with functions and constants of its own. \<open>KvHeader\<close> is the fixed header of a checkpoint file, \<open>KvPolicy\<close> decides when and where to
  cut, \<open>KvStore\<close> and \<open>KvStoreProps\<close> list, evict, store, find and load over a small model of the file
  system whose failing calls a predicate chooses. \<open>KvSession\<close> joins the store and the sessions: the
  locale \<open>session_payload\<close> states the law the store relies on, and its interpretation on the modelled
  sessions gives that a stored conversation is resumed.

  \<^bold>\<open>The server\<close> (\<open>sf37_server.c\<close>). \<open>ServerJson\<close> is the JSON scanner and writer and base64. \<open>ServerStream\<close>
  decides what may be shown of a text that is still being generated: stop sequences, complete
  characters, tool-call markers, reasoning and content. \<open>ToolMemory\<close> is the memory that finds the exact
  text of a tool call by its id, a linked list over a store from addresses with shared counted
  blocks, and refines a plain list. \<open>ToolMap\<close> uses it: remembering, giving back, and the trailer of a
  checkpoint file that lets the memory survive a restart; it fills the hooks of \<open>KvStore\<close>. \<open>ToolScan\<close>
  says, without the scanner, which blocks stand in a text, and \<open>ToolRestore\<close>, without the reader, which
  calls the trailers of a directory hold; the scan and the restoring are shown against these. \<open>ToolText\<close>
  writes tool calls into a prompt and parses them out of a generated text, in the model's format and
  the older ones, repairs a call that was cut off, gives ids and writes the JSON of a response; calls
  that fit the format are read back, and a repaired call keeps its arguments, under conditions that the
  predicates \<open>arg_fits\<close> and \<open>plain_arg\<close> state and outside of which the code changes or loses calls. \<open>ChatPrompt\<close> renders
  a conversation into the text of a prompt (\<open>render_chat_prompt_text\<close>) and chooses the tokens to evaluate
  for a request (\<open>choose_prompt\<close>, the start of \<open>run_generation\<close>) from the session and the conversations the
  server remembers: a continued conversation's prompt extends the one before and its answer, the
  text remembered after an answer with hidden reasoning would keep all tokens but is only tried when no
  prefix of the session counts as reusable, the reused tokens are the session's, and a remembered
  conversation only goes on behind its own tokens unless a prefill failed. It also shows where this
  breaks: a failed prefill keeps what is remembered, and a prefix shorter than the session is reported
  as reused but evaluated again.

  \<^bold>\<open>Bounds and fuel.\<close> The loop over stop sequences has the length of the text as fuel, since every turn moves
  on (\<open>parse_stop_fuel\<close>). The padding loop of SHA-1 has the size of a block as fuel, one more than it
  needs. The limits of the code (window, context, table sizes, ids of 256 bytes, texts of 512 MB)
  are the code's constants.

  \<^bold>\<open>Not modelled.\<close> The CUDA back end, another language, and the branches that call it. Rounding float
  arithmetic: the build uses \<open>-ffast-math\<close>, so the operations are a record of functions and only
  comparisons and exact conversions are computed. The server's sockets, threads and locks, the
  parsing of requests, the assembly of responses, and in the choice of a prompt the requests with
  images and the checkpoints on disk. The radix tree \<open>rax.c\<close> and
  the image decoder are vendored; where the server uses the tree the model has a map. The vision
  encoder and the resampling of images, the sampler, the reader of \<open>tokenizer.json\<close>, the command
  line tools, the reading of safetensors, and two block writers the type policy never chooses.
  The depth of the C stack (the JSON scanner recurses without a bound) and a failing creation of a thread
  are not modelled. Messages and timings are left out everywhere.
\<close>

end
